(* ===== verification/Prelude.thy ===== *)
theory Prelude
  imports Main "HOL-Library.Word" "HOL-Library.List_Lexorder" "HOL-Library.Sublist"
begin

text \<open>
  Shared vocabulary of the development: Go byte slices, the little and big endian codecs of
  encoding/binary, fixed-width integers, slice expressions and \<open>copy\<close>, and panics as values.
  Every component imports this theory. The lemmas are declared into the simpset or into the
  collections \<open>codec_simps\<close>, \<open>slice_simps\<close> and \<open>outcome_simps\<close>, which carry the component proofs.
\<close>

named_theorems codec_simps
named_theorems slice_simps
named_theorems outcome_simps

section \<open>Types\<close>

type_synonym byte = "8 word"
type_synonym bytes = "byte list"

text \<open>
  A Go panic, or an error value that the caller turns into a panic, is a \<open>fault\<close>; an operation
  that may panic returns \<open>fault + 'a\<close>. \<open>Stuck\<close> is a loop that never ends.
\<close>

datatype fault = IndexOutOfRange | NilDeref | IOError string | Panic string | Stuck

type_synonym 'a outcome = "fault + 'a"

definition bindE :: "'a outcome \<Rightarrow> ('a \<Rightarrow> 'b outcome) \<Rightarrow> 'b outcome" where
  "bindE m f = (case m of Inl e \<Rightarrow> Inl e | Inr x \<Rightarrow> f x)"

definition guardE :: "bool \<Rightarrow> fault \<Rightarrow> unit outcome" where
  "guardE b e = (if b then Inr () else Inl e)"

definition is_ok :: "'a outcome \<Rightarrow> bool" where
  "is_ok m = (case m of Inl _ \<Rightarrow> False | Inr _ \<Rightarrow> True)"

text \<open>A loop over a slice whose body may panic.\<close>

fun foldE :: "('a \<Rightarrow> 's \<Rightarrow> 's outcome) \<Rightarrow> 'a list \<Rightarrow> 's \<Rightarrow> 's outcome" where
  "foldE f [] s = Inr s"
| "foldE f (x # xs) s = bindE (f x s) (foldE f xs)"

section \<open>Slices\<close>

text \<open>\<open>s[i:j]\<close>; the callers check the bounds, and \<open>sliceE\<close> is the expression with its panic.\<close>

definition subslice :: "'a list \<Rightarrow> nat \<Rightarrow> nat \<Rightarrow> 'a list" where
  "subslice xs i j = take (j - i) (drop i xs)"

definition sliceE :: "'a list \<Rightarrow> nat \<Rightarrow> nat \<Rightarrow> 'a list outcome" where
  "sliceE xs i j = (if i \<le> j \<and> j \<le> length xs then Inr (subslice xs i j) else Inl IndexOutOfRange)"

text \<open>\<open>copy(b[i:], src)\<close> for \<open>i \<le> len(b)\<close>: as many bytes as fit.\<close>

definition copy_at :: "'a list \<Rightarrow> nat \<Rightarrow> 'a list \<Rightarrow> 'a list" where
  "copy_at b i src = take i b @ take (length b - i) src @ drop (i + length src) b"

section \<open>encoding/binary and fixed-width integers\<close>

fun put_le :: "nat \<Rightarrow> nat \<Rightarrow> bytes" where
  "put_le 0 x = []"
| "put_le (Suc n) x = word_of_nat (x mod 256) # put_le n (x div 256)"

fun get_le :: "bytes \<Rightarrow> nat" where
  "get_le [] = 0"
| "get_le (b # bs) = unat b + 256 * get_le bs"

definition put_be :: "nat \<Rightarrow> nat \<Rightarrow> bytes" where
  "put_be n x = rev (put_le n x)"

definition get_be :: "bytes \<Rightarrow> nat" where
  "get_be bs = get_le (rev bs)"

text \<open>The conversions \<open>uint64(x)\<close> of an int64 and \<open>int64(x)\<close> of a uint64.\<close>

definition uint64 :: "int \<Rightarrow> nat" where
  "uint64 x = nat (x mod 2 ^ 64)"

definition int64 :: "nat \<Rightarrow> int" where
  "int64 n = (if n < 2 ^ 63 then int n else int n - 2 ^ 64)"

definition in_int64 :: "int \<Rightarrow> bool" where
  "in_int64 x \<longleftrightarrow> - (2 ^ 63) \<le> x \<and> x < 2 ^ 63"

text \<open>\<open>bytes.Compare\<close>.\<close>

fun bytes_Compare :: "bytes \<Rightarrow> bytes \<Rightarrow> int" where
  "bytes_Compare [] [] = 0"
| "bytes_Compare [] (y # ys) = -1"
| "bytes_Compare (x # xs) [] = 1"
| "bytes_Compare (x # xs) (y # ys) =
     (if x < y then -1 else if y < x then 1 else bytes_Compare xs ys)"

text \<open>\<open>bytes.Index\<close>: the offset of the first occurrence; \<open>None\<close> stands for -1.\<close>

fun bytes_Index :: "bytes \<Rightarrow> bytes \<Rightarrow> nat option" where
  "bytes_Index [] sep = (if sep = [] then Some 0 else None)"
| "bytes_Index (x # xs) sep =
     (if prefix sep (x # xs) then Some 0 else map_option Suc (bytes_Index xs sep))"

section \<open>Outcomes\<close>

lemma bindE_Inr [simp]: "bindE (Inr x) f = f x"
  by (simp add: bindE_def)

lemma bindE_Inl [simp]: "bindE (Inl e) f = Inl e"
  by (simp add: bindE_def)

lemma bindE_eq_Inr [outcome_simps]: "bindE m f = Inr y \<longleftrightarrow> (\<exists>x. m = Inr x \<and> f x = Inr y)"
  by (cases m) (auto simp: bindE_def)

lemma bindE_assoc [simp]: "bindE (bindE m f) g = bindE m (\<lambda>x. bindE (f x) g)"
  by (cases m) simp_all

lemma guardE_True [simp]: "guardE True e = Inr ()"
  by (simp add: guardE_def)

lemma guardE_False [simp]: "guardE False e = Inl e"
  by (simp add: guardE_def)

lemma guardE_eq_Inr [outcome_simps]: "guardE b e = Inr u \<longleftrightarrow> b"
  by (simp add: guardE_def)

lemma is_ok_simps [simp]: "is_ok (Inr x)" "\<not> is_ok (Inl e)"
  by (simp_all add: is_ok_def)

lemma is_ok_iff: "is_ok m \<longleftrightarrow> (\<exists>x. m = Inr x)"
  by (cases m) simp_all

lemma foldE_append: "foldE f (xs @ ys) s = bindE (foldE f xs s) (foldE f ys)"
  by (induction xs arbitrary: s) (simp_all add: bindE_def split: sum.split)

lemma foldE_map: "foldE f (map g xs) s = foldE (\<lambda>x. f (g x)) xs s"
  by (induction xs arbitrary: s) (simp_all add: bindE_def split: sum.split)

text \<open>An invariant kept by every round of a loop holds at its end.\<close>

lemma foldE_invariant:
  assumes "foldE f xs s = Inr t" and "I s"
    and "\<And>x s t. x \<in> set xs \<Longrightarrow> I s \<Longrightarrow> f x s = Inr t \<Longrightarrow> I t"
  shows "I t"
  using assms
proof (induction xs arbitrary: s)
  case Nil
  then show ?case by simp
next
  case (Cons x xs)
  then obtain s' where s': "f x s = Inr s'" "foldE f xs s' = Inr t"
    by (auto simp: outcome_simps)
  from Cons.prems(2,3) s'(1) have "I s'" by auto
  with s'(2) show ?case
    using Cons.prems(3) by (intro Cons.IH) auto
qed

lemma foldE_ok:
  assumes "I s" and "\<And>x s. x \<in> set xs \<Longrightarrow> I s \<Longrightarrow> \<exists>t. f x s = Inr t \<and> I t"
  shows "\<exists>t. foldE f xs s = Inr t \<and> I t"
  using assms
proof (induction xs arbitrary: s)
  case Nil
  then show ?case by simp
next
  case (Cons x xs)
  from Cons.prems obtain s' where "f x s = Inr s'" and I: "I s'" by fastforce
  moreover from I have "\<exists>t. foldE f xs s' = Inr t \<and> I t"
    using Cons.prems(2) by (intro Cons.IH) auto
  ultimately show ?case by simp
qed

section \<open>Slices and copy\<close>

lemma length_subslice [simp]: "length (subslice xs i j) = min (j - i) (length xs - i)"
  by (simp add: subslice_def)

lemma nth_subslice [slice_simps]:
  "i + k < j \<Longrightarrow> j \<le> length xs \<Longrightarrow> subslice xs i j ! k = xs ! (i + k)"
  by (simp add: subslice_def)

lemma subslice_append_mid [slice_simps]:
  "i = length xs \<Longrightarrow> j = i + length ys \<Longrightarrow> subslice (xs @ ys @ zs) i j = ys"
  by (simp add: subslice_def)

lemma subslice_append_end [slice_simps]:
  "i = length xs \<Longrightarrow> j = i + length ys \<Longrightarrow> subslice (xs @ ys) i j = ys"
  by (simp add: subslice_def)

lemma subslice_append_start [slice_simps]:
  "j = length xs \<Longrightarrow> subslice (xs @ ys) 0 j = xs"
  by (simp add: subslice_def)

lemma subslice_all [simp]: "subslice xs 0 (length xs) = xs"
  by (simp add: subslice_def)

lemma length_copy_at [simp]: "i \<le> length b \<Longrightarrow> length (copy_at b i src) = length b"
  by (simp add: copy_at_def)

lemma nth_copy_at:
  assumes "i \<le> length b" and "k < length b"
  shows "copy_at b i src ! k = (if i \<le> k \<and> k < i + length src then src ! (k - i) else b ! k)"
proof (cases "k < i")
  case True
  with assms show ?thesis by (simp add: copy_at_def nth_append)
next
  case False
  with assms show ?thesis
    by (auto simp: copy_at_def nth_append min_def)
qed

lemma copy_at_append:
  "i = length xs \<Longrightarrow> length ys = length src \<Longrightarrow> copy_at (xs @ ys @ zs) i src = xs @ src @ zs"
  by (simp add: copy_at_def)

lemma copy_at_append_right:
  "i = length xs + k \<Longrightarrow> copy_at (xs @ ys) i src = xs @ copy_at ys k src"
  by (simp add: copy_at_def add.assoc)

lemma copy_at_append_left:
  "i + length src \<le> length xs \<Longrightarrow> copy_at (xs @ ys) i src = copy_at xs i src @ ys"
  by (simp add: copy_at_def)

lemma concat_chunk:
  "\<forall>x \<in> set xs. length x = c \<Longrightarrow> k < length xs \<Longrightarrow> subslice (concat xs) (c * k) (c * k + c) = xs ! k"
proof (induction xs arbitrary: k)
  case (Cons x xs)
  show ?case
  proof (cases k)
    case 0
    then show ?thesis using Cons.prems by (simp add: subslice_def)
  next
    case (Suc j)
    have "subslice (x @ concat xs) (c * k) (c * k + c) = subslice (concat xs) (c * j) (c * j + c)"
      using Cons.prems(1) Suc by (simp add: subslice_def)
    with Cons Suc show ?thesis by simp
  qed
qed simp

lemma sliceE_eq_Inr [outcome_simps]:
  "sliceE xs i j = Inr ys \<longleftrightarrow> i \<le> j \<and> j \<le> length xs \<and> ys = subslice xs i j"
  by (auto simp: sliceE_def)

section \<open>Codecs\<close>

lemma length_put_le [simp]: "length (put_le n x) = n"
  by (induction n x rule: put_le.induct) simp_all

lemma unat_byte_of_mod [simp]: "unat (word_of_nat (x mod 256) :: byte) = x mod 256"
  by (simp add: unat_of_nat)

lemma unat_byte_of_nat [simp]: "n < 256 \<Longrightarrow> unat (word_of_nat n :: byte) = n"
  by (simp add: unat_of_nat)

lemma get_put_le [codec_simps]: "get_le (put_le n x) = x mod 256 ^ n"
proof (induction n x rule: put_le.induct)
  case (1 x)
  then show ?case by simp
next
  case (2 n x)
  then show ?case by (simp add: mod_mult2_eq)
qed

lemma get_put_le_id [codec_simps]: "x < 256 ^ n \<Longrightarrow> get_le (put_le n x) = x"
  by (simp add: get_put_le)

lemma unat_byte_less [simp]: "unat (b :: byte) < 256"
  using unsigned_less [of b, where 'a = nat] by simp

lemma get_le_bound: "get_le bs < 256 ^ length bs"
proof (induction bs)
  case Nil
  then show ?case by simp
next
  case (Cons b bs)
  have "unat b < 256" by simp
  with Cons show ?case by (simp del: unat_byte_less)
qed

lemma put_get_le [codec_simps]: "put_le (length bs) (get_le bs) = bs"
proof (induction bs)
  case Nil
  then show ?case by simp
next
  case (Cons b bs)
  have "unat b < 256" by simp
  with Cons show ?case by simp
qed

lemma put_le_inj: "x < 256 ^ n \<Longrightarrow> y < 256 ^ n \<Longrightarrow> put_le n x = put_le n y \<longleftrightarrow> x = y"
  by (metis get_put_le_id)

lemma length_put_be [simp]: "length (put_be n x) = n"
  by (simp add: put_be_def)

lemma get_put_be [codec_simps]: "x < 256 ^ n \<Longrightarrow> get_be (put_be n x) = x"
  by (simp add: get_be_def put_be_def codec_simps)

lemma uint64_bound [simp]: "uint64 x < 2 ^ 64"
  by (simp add: uint64_def nat_less_iff)

lemma uint64_bound256 [simp]: "uint64 x < 256 ^ 8"
  using uint64_bound [of x] by simp

lemma get_put_uint64 [simp]: "get_le (put_le 8 (uint64 x)) = uint64 x"
  using uint64_bound [of x] by (simp add: get_put_le)

lemma int64_uint64 [codec_simps]:
  assumes "in_int64 x"
  shows "int64 (uint64 x) = x"
proof (cases "0 \<le> x")
  case True
  with assms show ?thesis
    by (simp add: in_int64_def int64_def uint64_def nat_less_iff)
next
  case False
  have "x mod 2 ^ 64 = (x + 2 ^ 64) mod 2 ^ 64" by simp
  also have "\<dots> = x + 2 ^ 64"
    using assms False by (intro mod_pos_pos_trivial) (auto simp: in_int64_def)
  finally show ?thesis
    using assms False by (simp add: in_int64_def int64_def uint64_def nat_less_iff)
qed

lemma uint64_int64 [codec_simps]: "n < 2 ^ 64 \<Longrightarrow> uint64 (int64 n) = n"
  by (auto simp: int64_def uint64_def mod_pos_pos_trivial mod_pos_neg_trivial)

lemma in_int64_int64 [simp]: "n < 2 ^ 64 \<Longrightarrow> in_int64 (int64 n)"
  by (simp add: in_int64_def int64_def)

section \<open>The order of keys\<close>

lemma bytes_Compare_less [simp]: "bytes_Compare a b < 0 \<longleftrightarrow> a < b"
  by (induction a b rule: bytes_Compare.induct) (auto simp: not_less_iff_gr_or_eq)

lemma bytes_Compare_zero [simp]: "bytes_Compare a b = 0 \<longleftrightarrow> a = b"
  by (induction a b rule: bytes_Compare.induct) auto

lemma bytes_Compare_cases: "bytes_Compare a b = (if a < b then -1 else if a = b then 0 else 1)"
  by (induction a b rule: bytes_Compare.induct) (auto simp: not_less_iff_gr_or_eq)

lemma bytes_Compare_le [simp]: "bytes_Compare a b \<le> 0 \<longleftrightarrow> a \<le> b" "0 \<le> bytes_Compare a b \<longleftrightarrow> b \<le> a"
  by (auto simp: bytes_Compare_cases)

lemma bytes_Index_Some:
  "bytes_Index s sep = Some p \<Longrightarrow> p + length sep \<le> length s \<and> subslice s p (p + length sep) = sep"
proof (induction s sep arbitrary: p rule: bytes_Index.induct)
  case (1 sep)
  then show ?case by (auto simp: subslice_def split: if_splits)
next
  case (2 x xs sep)
  show ?case
  proof (cases "prefix sep (x # xs)")
    case True
    with 2 obtain zs where "x # xs = sep @ zs" "p = 0" by (auto simp: prefix_def)
    then show ?thesis by (simp add: subslice_def)
  next
    case False
    with 2 obtain q where "bytes_Index xs sep = Some q" "p = Suc q" by auto
    with 2 False show ?thesis by (simp add: subslice_def)
  qed
qed

lemma bytes_Index_None:
  "bytes_Index s sep = None \<Longrightarrow> p + length sep \<le> length s \<Longrightarrow> subslice s p (p + length sep) \<noteq> sep"
proof (induction s sep arbitrary: p rule: bytes_Index.induct)
  case (1 sep)
  then show ?case by (auto split: if_splits)
next
  case (2 x xs sep)
  show ?case
  proof (cases p)
    case 0
    with 2 show ?thesis
      by (auto simp: subslice_def split: if_splits) (metis take_is_prefix)
  next
    case (Suc q)
    from 2 have "\<not> prefix sep (x # xs)" "bytes_Index xs sep = None" by (auto split: if_splits)
    with 2 Suc show ?thesis by (simp add: subslice_def)
  qed
qed

lemma bytes_Index_append: "bytes_Index (xs @ sep @ ys) sep \<noteq> None"
  using bytes_Index_None [of "xs @ sep @ ys" sep "length xs"]
  by (auto simp: subslice_append_mid)

end
