(* ===== verification/EntryCodec.thy ===== *)
theory EntryCodec
  imports Prelude
begin

text \<open>
  The entry of types/types.go and its serialization in datatree/entryfile.go: the payload
  writer and reader, the escaping of MagicBytes inside the payload, and the raw-byte accessors
  that compaction uses to move an entry without decoding it.

  A byte slice that the code compares with nil (the value of an entry) is \<open>bytes option\<close> with
  \<open>None\<close> for nil; int64 fields are \<open>int\<close> with their range in \<open>wf_entry\<close>; the conversions to
  uint32, uint24 and uint64 truncate as in Go (\<open>put_le\<close> drops the high bytes).
\<close>

section \<open>Model\<close>

record Entry =
  Key :: bytes
  Value :: "bytes option"
  NextKey :: bytes
  Height :: int
  LastHeight :: int
  SerialNum :: int

text \<open>\<open>len(x)\<close> and the contents of a possibly nil slice.\<close>

definition slice_bytes :: "bytes option \<Rightarrow> bytes" where
  "slice_bytes v = (case v of None \<Rightarrow> [] | Some b \<Rightarrow> b)"

definition MaxEntryBytes :: nat where
  "MaxEntryBytes = 2 ^ 24 - 1"

definition MagicBytes :: bytes where
  "MagicBytes = [255, 254, 253, 252, 252, 253, 254, 255]"

definition DeactivedSNListMaxLen :: nat where
  "DeactivedSNListMaxLen = 64"

definition bytes_dummy :: bytes where
  "bytes_dummy = [100, 117, 109, 109, 121]"

definition DummyEntry :: "int \<Rightarrow> Entry" where
  "DummyEntry sn = \<lparr>Key = bytes_dummy, Value = Some bytes_dummy, NextKey = bytes_dummy,
     Height = -2, LastHeight = -2, SerialNum = sn\<rparr>"

definition NullEntry :: Entry where
  "NullEntry = \<lparr>Key = [], Value = Some [], NextKey = [], Height = -1, LastHeight = -1,
     SerialNum = -1\<rparr>"

definition PutUint24 :: "nat \<Rightarrow> bytes" where
  "PutUint24 n = put_le 3 n"

definition GetUint24 :: "bytes \<Rightarrow> nat" where
  "GetUint24 b = get_le (take 3 b)"

text \<open>The terminator of the position list: \<open>^uint32(0)\<close>.\<close>

definition PosListEnd :: bytes where
  "PosListEnd = put_le 4 (2 ^ 32 - 1)"

definition SNListToBytes :: "int list \<Rightarrow> bytes" where
  "SNListToBytes sns = concat (map (\<lambda>sn. put_le 8 (uint64 sn)) sns)"

definition writeEntryPayload :: "Entry \<Rightarrow> int list \<Rightarrow> bytes" where
  "writeEntryPayload e sns =
     put_le 4 (length (Key e)) @ Key e @
     put_le 4 (length (slice_bytes (Value e))) @ slice_bytes (Value e) @
     put_le 4 (length (NextKey e)) @ NextKey e @
     put_le 8 (uint64 (Height e)) @ put_le 8 (uint64 (LastHeight e)) @
     put_le 8 (uint64 (SerialNum e)) @
     SNListToBytes sns"

text \<open>
  The search loop of \<open>getAllPos\<close>. The guard \<open>sep \<noteq> []\<close> makes the recursion total; the only
  separator the code passes is the 8 bytes of MagicBytes.
\<close>

function getAllPos_loop :: "bytes \<Rightarrow> bytes \<Rightarrow> nat \<Rightarrow> nat list" where
  "getAllPos_loop s sep start =
     (if start + length sep < length s \<and> sep \<noteq> [] then
        (case bytes_Index (drop start s) sep of
           None \<Rightarrow> []
         | Some pos \<Rightarrow> (pos + start) # getAllPos_loop s sep (start + pos + length sep))
      else [])"
  by pat_completeness auto
termination
  by (relation "measure (\<lambda>(s, sep, start). length s - start)") (auto simp: neq_Nil_conv)

definition getAllPos :: "bytes \<Rightarrow> bytes \<Rightarrow> nat list" where
  "getAllPos s sep = getAllPos_loop s sep 0"

text \<open>Overwriting the occurrences of MagicBytes with eight zero bytes.\<close>

definition zeroBuf :: bytes where
  "zeroBuf = replicate 8 0"

fun write_all :: "bytes \<Rightarrow> nat list \<Rightarrow> bytes \<Rightarrow> bytes" where
  "write_all pat [] b = b"
| "write_all pat (p # ps) b = write_all pat ps (copy_at b p pat)"

definition EntryToBytes :: "Entry \<Rightarrow> int list \<Rightarrow> bytes" where
  "EntryToBytes e sns =
     (let payload = writeEntryPayload e sns;
          length0 = 8 + length payload;
          stop = length0 - length sns * 8 - 3 * 8;
          posList = getAllPos (take (stop - 8) payload) MagicBytes;
          snLen = word_of_nat (length sns mod 256)
      in if posList = [] then
           [snLen] @ PutUint24 (length0 - 4 - length sns * 8) @ PosListEnd @ payload
         else
           (let bytesAdded = 4 * length posList;
                length1 = length0 + bytesAdded
            in [snLen] @ PutUint24 (length1 - 4 - length sns * 8) @
               concat (map (\<lambda>pos. put_le 4 (pos + bytesAdded)) posList) @ PosListEnd @
               write_all zeroBuf posList payload))"

text \<open>Restoring MagicBytes in place; the result is the restored slice and the index \<open>n\<close>.\<close>

function recoverMagicBytes_loop :: "bytes \<Rightarrow> nat \<Rightarrow> (bytes \<times> nat) outcome" where
  "recoverMagicBytes_loop b n =
     (if n + 4 < length b then
        (let pos = get_le (subslice b n (n + 4))
         in if pos = 2 ^ 32 - 1 then Inr (b, n + 4)
            else if pos \<ge> MaxEntryBytes then Inl (Panic ''Position to large'')
            else if pos + 12 \<le> length b then
              recoverMagicBytes_loop (copy_at b (pos + 4) MagicBytes) (n + 4)
            else Inl IndexOutOfRange)
      else Inr (b, n))"
  by pat_completeness auto
termination
  by (relation "measure (\<lambda>(b, n). length b - n)") auto

definition recoverMagicBytes :: "bytes \<Rightarrow> (bytes \<times> nat) outcome" where
  "recoverMagicBytes b = recoverMagicBytes_loop b 0"

text \<open>\<open>binary.LittleEndian.Uint32(b[i:i+4])\<close>, \<open>Uint64(b[i:i+8])\<close> and a length-prefixed field.\<close>

definition readU32 :: "bytes \<Rightarrow> nat \<Rightarrow> nat outcome" where
  "readU32 b i = bindE (sliceE b i (i + 4)) (\<lambda>s. Inr (get_le s))"

definition readI64 :: "bytes \<Rightarrow> nat \<Rightarrow> int outcome" where
  "readI64 b i = bindE (sliceE b i (i + 8)) (\<lambda>s. Inr (int64 (get_le s)))"

definition readField :: "bytes \<Rightarrow> nat \<Rightarrow> (bytes \<times> nat) outcome" where
  "readField b i = bindE (readU32 b i) (\<lambda>len.
     bindE (sliceE b (i + 4) (i + 4 + len)) (\<lambda>s. Inr (s, i + 4 + len)))"

fun readSNs :: "bytes \<Rightarrow> nat \<Rightarrow> nat \<Rightarrow> int list outcome" where
  "readSNs b i 0 = Inr []"
| "readSNs b i (Suc n) = bindE (readI64 b i) (\<lambda>sn.
     bindE (readSNs b (i + 8) n) (\<lambda>sns. Inr (sn # sns)))"

definition EntryFromBytes :: "bytes \<Rightarrow> nat \<Rightarrow> (Entry \<times> int list) outcome" where
  "EntryFromBytes b numberOfSN =
     bindE (readField b 0) (\<lambda>(key, i).
     bindE (readField b i) (\<lambda>(val, i).
     bindE (readField b i) (\<lambda>(nextKey, i).
     bindE (readI64 b i) (\<lambda>height.
     bindE (readI64 b (i + 8)) (\<lambda>lastHeight.
     bindE (readI64 b (i + 16)) (\<lambda>serialNum.
     bindE (readSNs b (i + 24) numberOfSN) (\<lambda>sns.
       Inr (\<lparr>Key = key, Value = Some val, NextKey = nextKey, Height = height,
             LastHeight = lastHeight, SerialNum = serialNum\<rparr>, sns))))))))"

text \<open>
  Raw entries: the 4-byte header, the position list and the payload without the list of
  deactivated serial numbers. The test \<open>(bb[0]&bb[1]&bb[2]&bb[3]) == 0xFF\<close>.
\<close>

definition noMagicBytes :: "bytes \<Rightarrow> bool outcome" where
  "noMagicBytes bb = (if 4 \<le> length bb
     then Inr (and (and (and (bb ! 0) (bb ! 1)) (bb ! 2)) (bb ! 3) = 255)
     else Inl IndexOutOfRange)"

definition ExtractKeyFromRawBytes :: "bytes \<Rightarrow> bytes outcome" where
  "ExtractKeyFromRawBytes b =
     bindE (sliceE b 4 (length b)) (\<lambda>bb.
     bindE (noMagicBytes bb) (\<lambda>none.
       if none then
         bindE (readU32 bb 4) (\<lambda>len. sliceE bb 8 (8 + len))
       else
         bindE (recoverMagicBytes bb) (\<lambda>(bb, n).
         bindE (sliceE bb n (length bb)) (\<lambda>bb.
         bindE (readU32 bb 0) (\<lambda>len. sliceE bb 4 (4 + len))))))"

definition EntryFromRawBytes :: "bytes \<Rightarrow> Entry outcome" where
  "EntryFromRawBytes b =
     bindE (sliceE b 4 (length b)) (\<lambda>bb.
     bindE (noMagicBytes bb) (\<lambda>none.
       if none then
         bindE (sliceE bb 4 (length bb)) (\<lambda>p.
         bindE (EntryFromBytes p 0) (\<lambda>(e, _). Inr e))
       else
         bindE (recoverMagicBytes bb) (\<lambda>(bb, n).
         bindE (sliceE bb (n + 4) (length bb)) (\<lambda>p.
         bindE (EntryFromBytes p 0) (\<lambda>(e, _). Inr e)))))"

definition ExtractSerialNum :: "bytes \<Rightarrow> int outcome" where
  "ExtractSerialNum entryBz =
     (if 8 \<le> length entryBz then Inr (int64 (get_le (drop (length entryBz - 8) entryBz)))
      else Inl IndexOutOfRange)"

definition UpdateSerialNum :: "bytes \<Rightarrow> int \<Rightarrow> bytes outcome" where
  "UpdateSerialNum entryBz sn =
     (if 8 \<le> length entryBz then Inr (take (length entryBz - 8) entryBz @ put_le 8 (uint64 sn))
      else Inl IndexOutOfRange)"

section \<open>Escaping and restoring MagicBytes\<close>

declare recoverMagicBytes_loop.simps [simp del]
declare getAllPos_loop.simps [simp del]

lemma length_MagicBytes [simp]: "length MagicBytes = 8"
  by (simp add: MagicBytes_def)

lemma length_zeroBuf [simp]: "length zeroBuf = 8"
  by (simp add: zeroBuf_def)

lemma length_PosListEnd [simp]: "length PosListEnd = 4"
  by (simp add: PosListEnd_def)

text \<open>Every reported position is an occurrence of the separator.\<close>

lemma getAllPos_loop_occurs:
  "p \<in> set (getAllPos_loop s sep start) \<Longrightarrow>
   p + length sep \<le> length s \<and> subslice s p (p + length sep) = sep"
proof (induction s sep start rule: getAllPos_loop.induct)
  case (1 s sep start)
  show ?case
  proof (cases "start + length sep < length s \<and> sep \<noteq> []")
    case True
    with 1 obtain pos where pos: "bytes_Index (drop start s) sep = Some pos"
      by (cases "bytes_Index (drop start s) sep") (auto simp: getAllPos_loop.simps [of s sep start])
    from bytes_Index_Some [OF pos] True have
      "pos + start + length sep \<le> length s" "subslice s (pos + start) (pos + start + length sep) = sep"
      by (auto simp: subslice_def add_ac)
    with 1 True pos show ?thesis
      by (auto simp: getAllPos_loop.simps [of s sep start])
  next
    case False
    with 1 show ?thesis by (auto simp: getAllPos_loop.simps [of s sep start])
  qed
qed

lemma getAllPos_occurs:
  "p \<in> set (getAllPos s sep) \<Longrightarrow>
   p + length sep \<le> length s \<and> subslice s p (p + length sep) = sep"
  by (simp add: getAllPos_def getAllPos_loop_occurs)

lemma length_write_all [simp]:
  "\<forall>p \<in> set ps. p \<le> length b \<Longrightarrow> length (write_all pat ps b) = length b"
  by (induction ps arbitrary: b) auto

lemma write_all_append:
  "\<forall>p \<in> set ps. p + length pat \<le> length s \<Longrightarrow> write_all pat ps (s @ t) = write_all pat ps s @ t"
  by (induction ps arbitrary: s) (auto simp: copy_at_append_left)

lemma nth_write_all_outside:
  assumes "\<forall>p \<in> set ps. p \<le> length b" and "k < length b"
    and "\<forall>p \<in> set ps. \<not> (p \<le> k \<and> k < p + length pat)"
  shows "write_all pat ps b ! k = b ! k"
  using assms by (induction ps arbitrary: b) (auto simp: nth_copy_at)

text \<open>
  Writing the separator back at the positions where \<open>b\<close> has it rebuilds \<open>b\<close> from any slice that
  agrees with \<open>b\<close> elsewhere, whether or not the positions overlap.
\<close>

lemma write_all_rebuilds:
  assumes "length b' = length b"
    and "\<forall>p \<in> set ps. p + length pat \<le> length b \<and> subslice b p (p + length pat) = pat"
    and "\<And>k. k < length b \<Longrightarrow> \<forall>p \<in> set ps. \<not> (p \<le> k \<and> k < p + length pat) \<Longrightarrow> b' ! k = b ! k"
  shows "write_all pat ps b' = b"
  using assms
proof (induction ps arbitrary: b')
  case Nil
  then show ?case by (simp add: nth_equalityI)
next
  case (Cons p ps)
  let ?b'' = "copy_at b' p pat"
  have p: "p + length pat \<le> length b" "subslice b p (p + length pat) = pat"
    using Cons.prems(2) by auto
  have at_p: "b ! k = pat ! (k - p)" if "p \<le> k" "k < p + length pat" for k
    using nth_subslice [of p "k - p" "p + length pat" b] p that by simp
  have "write_all pat ps ?b'' = b"
  proof (rule Cons.IH)
    show "length ?b'' = length b" using p Cons.prems(1) by simp
    show "\<forall>p \<in> set ps. p + length pat \<le> length b \<and> subslice b p (p + length pat) = pat"
      using Cons.prems(2) by simp
    fix k assume "k < length b" "\<forall>p \<in> set ps. \<not> (p \<le> k \<and> k < p + length pat)"
    then show "?b'' ! k = b ! k"
      using p at_p Cons.prems(1) Cons.prems(3) [of k] by (auto simp: nth_copy_at)
  qed
  then show ?case by simp
qed

lemma write_all_restore:
  assumes "\<forall>p \<in> set ps. p + length pat \<le> length b \<and> subslice b p (p + length pat) = pat"
    and "length z = length pat"
  shows "write_all pat ps (write_all z ps b) = b"
proof (rule write_all_rebuilds [OF _ assms(1)])
  have le: "\<forall>p \<in> set ps. p \<le> length b" using assms(1) by fastforce
  then show "length (write_all z ps b) = length b" by simp
  fix k assume "k < length b" "\<forall>p \<in> set ps. \<not> (p \<le> k \<and> k < p + length pat)"
  then show "write_all z ps b ! k = b ! k"
    using le assms(2) by (intro nth_write_all_outside) auto
qed

text \<open>The position list, as \<open>EntryToBytes\<close> writes it and \<open>recoverMagicBytes\<close> reads it.\<close>

definition pos_list_bytes :: "nat \<Rightarrow> nat list \<Rightarrow> bytes" where
  "pos_list_bytes added ps = concat (map (\<lambda>p. put_le 4 (p + added)) ps)"

lemma length_pos_list_bytes [simp]: "length (pos_list_bytes a ps) = 4 * length ps"
  by (induction ps) (simp_all add: pos_list_bytes_def)

lemma pos_list_bytes_append [simp]:
  "pos_list_bytes a (ps @ qs) = pos_list_bytes a ps @ pos_list_bytes a qs"
  by (simp add: pos_list_bytes_def)

lemma pos_list_bytes_Cons:
  "pos_list_bytes a (p # ps) = put_le 4 (p + a) @ pos_list_bytes a ps"
  by (simp add: pos_list_bytes_def)

lemma get_PosListEnd [simp]: "get_le PosListEnd = 2 ^ 32 - 1"
  by (simp add: PosListEnd_def get_put_le)

lemma recoverMagicBytes_loop_correct:
  assumes "added = 4 * (length ps1 + length ps2)"
    and "\<forall>p \<in> set ps2. p + added < MaxEntryBytes \<and> p + 8 \<le> length q"
    and "q \<noteq> []"
  shows "recoverMagicBytes_loop (pos_list_bytes added (ps1 @ ps2) @ PosListEnd @ q) (4 * length ps1) =
         Inr (pos_list_bytes added (ps1 @ ps2) @ PosListEnd @ write_all MagicBytes ps2 q, added + 4)"
  using assms
proof (induction ps2 arbitrary: ps1 q)
  case Nil
  then show ?case
    by (subst recoverMagicBytes_loop.simps)
      (simp add: subslice_append_mid Suc_le_eq)
next
  case (Cons p ps2)
  let ?L = "pos_list_bytes added (ps1 @ p # ps2)"
  let ?b = "?L @ PosListEnd @ q"
  have pa: "p + added < MaxEntryBytes" "p + 8 \<le> length q" using Cons.prems(2) by auto
  have le: "MaxEntryBytes < 2 ^ 32 - 1" by (simp add: MaxEntryBytes_def)
  have sub: "subslice ?b (4 * length ps1) (4 * length ps1 + 4) = put_le 4 (p + added)"
    by (simp add: pos_list_bytes_Cons subslice_append_mid)
  have get: "get_le (put_le 4 (p + added)) = p + added"
    using pa le by (intro get_put_le_id) simp
  have copy: "copy_at ?b (p + added + 4) MagicBytes = ?L @ PosListEnd @ copy_at q p MagicBytes"
    using Cons.prems(1) copy_at_append_right [of "p + added + 4" "?L @ PosListEnd" p q MagicBytes]
    by simp
  have q': "copy_at q p MagicBytes \<noteq> []"
    using pa(2) by (metis add_leD1 le_zero_eq length_copy_at list.size(3) not_less numeral_eq_iff
        add_is_0 zero_neq_numeral)
  have step: "recoverMagicBytes_loop ?b (4 * length ps1) =
      recoverMagicBytes_loop (?L @ PosListEnd @ copy_at q p MagicBytes) (4 * length ps1 + 4)"
    using pa le Cons.prems(1) sub get copy
    by (subst recoverMagicBytes_loop.simps) (simp add: Let_def)
  have "recoverMagicBytes_loop (?L @ PosListEnd @ copy_at q p MagicBytes) (4 * length (ps1 @ [p])) =
      Inr (?L @ PosListEnd @ write_all MagicBytes ps2 (copy_at q p MagicBytes), added + 4)"
    using Cons.IH [of "ps1 @ [p]" "copy_at q p MagicBytes"] Cons.prems pa q' by simp
  with step show ?case by (simp add: add.commute)
qed

section \<open>The layout of a serialized entry\<close>

text \<open>The three strings of the payload, the part that is searched for MagicBytes.\<close>

definition entryStrings :: "Entry \<Rightarrow> bytes" where
  "entryStrings e =
     put_le 4 (length (Key e)) @ Key e @
     put_le 4 (length (slice_bytes (Value e))) @ slice_bytes (Value e) @
     put_le 4 (length (NextKey e)) @ NextKey e"

definition entryNums :: "Entry \<Rightarrow> bytes" where
  "entryNums e = put_le 8 (uint64 (Height e)) @ put_le 8 (uint64 (LastHeight e)) @
     put_le 8 (uint64 (SerialNum e))"

definition magicPosList :: "Entry \<Rightarrow> nat list" where
  "magicPosList e = getAllPos (entryStrings e) MagicBytes"

lemma length_SNListToBytes [simp]: "length (SNListToBytes sns) = 8 * length sns"
  by (induction sns) (simp_all add: SNListToBytes_def)

lemma length_entryNums [simp]: "length (entryNums e) = 24"
  by (simp add: entryNums_def)

lemma length_entryStrings:
  "length (entryStrings e) = 12 + length (Key e) + length (slice_bytes (Value e)) + length (NextKey e)"
  by (simp add: entryStrings_def)

lemma writeEntryPayload_parts:
  "writeEntryPayload e sns = entryStrings e @ entryNums e @ SNListToBytes sns"
  by (simp add: writeEntryPayload_def entryStrings_def entryNums_def)

lemma magicPosList_occurs:
  "p \<in> set (magicPosList e) \<Longrightarrow>
   p + 8 \<le> length (entryStrings e) \<and> subslice (entryStrings e) p (p + 8) = MagicBytes"
  using getAllPos_occurs [of p "entryStrings e" MagicBytes] by (simp add: magicPosList_def)

text \<open>Both branches of \<open>EntryToBytes\<close> in one equation.\<close>

lemma EntryToBytes_layout:
  "EntryToBytes e sns =
     [word_of_nat (length sns mod 256)] @
     PutUint24 (4 + 4 * length (magicPosList e) + length (entryStrings e) + 24) @
     pos_list_bytes (4 * length (magicPosList e)) (magicPosList e) @ PosListEnd @
     write_all zeroBuf (magicPosList e) (entryStrings e) @ entryNums e @ SNListToBytes sns"
proof -
  let ?ps = "magicPosList e"
  have region: "take (8 + length (writeEntryPayload e sns) - length sns * 8 - 3 * 8 - 8)
      (writeEntryPayload e sns) = entryStrings e"
    by (simp add: writeEntryPayload_parts)
  have occ: "\<forall>p \<in> set ?ps. p + length zeroBuf \<le> length (entryStrings e)"
    using magicPosList_occurs by auto
  have zero: "write_all zeroBuf ?ps (writeEntryPayload e sns) =
      write_all zeroBuf ?ps (entryStrings e) @ entryNums e @ SNListToBytes sns"
    using write_all_append [OF occ] by (simp add: writeEntryPayload_parts)
  have len: "length (writeEntryPayload e sns) = length (entryStrings e) + 24 + 8 * length sns"
    by (simp add: writeEntryPayload_parts)
  show ?thesis
  proof (cases "?ps = []")
    case True
    then show ?thesis
      using region len unfolding EntryToBytes_def Let_def magicPosList_def
      by (simp add: writeEntryPayload_parts pos_list_bytes_def)
  next
    case False
    then show ?thesis
      using region len zero unfolding EntryToBytes_def Let_def magicPosList_def
      by (simp add: pos_list_bytes_def add_ac)
  qed
qed

lemma length_EntryToBytes:
  "length (EntryToBytes e sns) =
     8 + 4 * length (magicPosList e) + length (entryStrings e) + 24 + 8 * length sns"
proof -
  have "\<forall>p \<in> set (magicPosList e). p \<le> length (entryStrings e)"
    using magicPosList_occurs by fastforce
  then show ?thesis by (simp add: EntryToBytes_layout PutUint24_def)
qed

section \<open>Decoding\<close>

text \<open>
  An entry the codec can carry: int64 fields in range, at most 255 deactivated serial numbers
  (their count is one byte), and a serialized length below the limit the reader enforces.
\<close>

definition wf_entry :: "Entry \<Rightarrow> int list \<Rightarrow> bool" where
  "wf_entry e sns \<longleftrightarrow> in_int64 (Height e) \<and> in_int64 (LastHeight e) \<and> in_int64 (SerialNum e) \<and>
     (\<forall>sn \<in> set sns. in_int64 sn) \<and> length sns < 256 \<and>
     length (EntryToBytes e []) < MaxEntryBytes"

lemma wf_entry_lengths:
  assumes "wf_entry e sns"
  shows "length (Key e) < 256 ^ 4" "length (slice_bytes (Value e)) < 256 ^ 4"
    "length (NextKey e) < 256 ^ 4"
    "\<forall>p \<in> set (magicPosList e). p + 4 * length (magicPosList e) < MaxEntryBytes"
  using assms magicPosList_occurs [of _ e]
  by (fastforce simp: wf_entry_def length_EntryToBytes length_entryStrings MaxEntryBytes_def)+

lemma readU32_at [outcome_simps]:
  "i = length xs \<Longrightarrow> n < 256 ^ 4 \<Longrightarrow> readU32 (xs @ put_le 4 n @ zs) i = Inr n"
  by (simp add: readU32_def sliceE_def subslice_append_mid get_put_le_id)

lemma readI64_at [outcome_simps]:
  "i = length xs \<Longrightarrow> in_int64 x \<Longrightarrow> readI64 (xs @ put_le 8 (uint64 x) @ zs) i = Inr x"
  by (simp add: readI64_def sliceE_def subslice_append_mid int64_uint64)

lemma readField_at [outcome_simps]:
  assumes "i = length xs" and "length s < 256 ^ 4"
  shows "readField (xs @ put_le 4 (length s) @ s @ zs) i = Inr (s, i + 4 + length s)"
proof -
  have "subslice (xs @ put_le 4 (length s) @ s @ zs) (i + 4) (i + 4 + length s) = s"
    using assms subslice_append_mid [of "i + 4" "xs @ put_le 4 (length s)" "i + 4 + length s" s zs]
    by simp
  then show ?thesis
    using assms by (simp add: readField_def readU32_at sliceE_def)
qed

lemma readSNs_at [outcome_simps]:
  "i = length xs \<Longrightarrow> \<forall>sn \<in> set sns. in_int64 sn \<Longrightarrow> n = length sns \<Longrightarrow>
   readSNs (xs @ SNListToBytes sns @ zs) i n = Inr sns"
proof (induction sns arbitrary: xs i n)
  case Nil
  then show ?case by simp
next
  case (Cons sn sns)
  have "readSNs ((xs @ put_le 8 (uint64 sn)) @ SNListToBytes sns @ zs) (i + 8) (length sns) = Inr sns"
    using Cons.prems by (intro Cons.IH) auto
  then show ?case
    using Cons.prems by (simp add: SNListToBytes_def readI64_at)
qed

lemma EntryFromBytes_payload:
  assumes "length (Key e) < 256 ^ 4" "length (slice_bytes (Value e)) < 256 ^ 4"
    "length (NextKey e) < 256 ^ 4" "in_int64 (Height e)" "in_int64 (LastHeight e)"
    "in_int64 (SerialNum e)" "\<forall>sn \<in> set sns. in_int64 sn" "n = length sns"
  shows "EntryFromBytes (writeEntryPayload e sns) n = Inr (e\<lparr>Value := Some (slice_bytes (Value e))\<rparr>, sns)"
proof -
  let ?k = "Key e" and ?v = "slice_bytes (Value e)" and ?nk = "NextKey e"
  let ?b = "writeEntryPayload e sns"
  let ?i2 = "4 + length ?k" let ?i3 = "?i2 + 4 + length ?v" let ?i4 = "?i3 + 4 + length ?nk"
  have "readField ?b 0 = Inr (?k, ?i2)"
    using readField_at [of 0 "[]" ?k] assms(1) by (simp add: writeEntryPayload_def)
  moreover have "readField ?b ?i2 = Inr (?v, ?i3)"
    using readField_at [of ?i2 "put_le 4 (length ?k) @ ?k" ?v] assms(2)
    by (simp add: writeEntryPayload_def)
  moreover have "readField ?b ?i3 = Inr (?nk, ?i4)"
    using readField_at [of ?i3 "put_le 4 (length ?k) @ ?k @ put_le 4 (length ?v) @ ?v" ?nk] assms(3)
    by (simp add: writeEntryPayload_def)
  moreover have "readI64 ?b ?i4 = Inr (Height e)"
    using readI64_at [of ?i4 "entryStrings e" "Height e"] assms(4)
    by (simp add: writeEntryPayload_parts entryNums_def length_entryStrings)
  moreover have "readI64 ?b (?i4 + 8) = Inr (LastHeight e)"
    using readI64_at [of "?i4 + 8" "entryStrings e @ put_le 8 (uint64 (Height e))" "LastHeight e"] assms(5)
    by (simp add: writeEntryPayload_parts entryNums_def length_entryStrings)
  moreover have "readI64 ?b (?i4 + 16) = Inr (SerialNum e)"
    using readI64_at [of "?i4 + 16" "entryStrings e @ put_le 8 (uint64 (Height e)) @
        put_le 8 (uint64 (LastHeight e))" "SerialNum e"] assms(6)
    by (simp add: writeEntryPayload_parts entryNums_def length_entryStrings)
  moreover have "readSNs ?b (?i4 + 24) n = Inr sns"
    using readSNs_at [of "?i4 + 24" "entryStrings e @ entryNums e" sns n "[]"] assms(7,8)
    by (simp add: writeEntryPayload_parts length_entryStrings)
  ultimately show ?thesis
    by (simp add: EntryFromBytes_def)
qed

text \<open>
  The position list and the payload of a serialized entry, with \<open>tail\<close> the bytes that follow:
  \<open>recoverMagicBytes\<close> restores the payload in place.
\<close>

lemma recoverMagicBytes_entry:
  assumes "wf_entry e sns"
  shows "recoverMagicBytes (pos_list_bytes (4 * length (magicPosList e)) (magicPosList e) @ PosListEnd @
      write_all zeroBuf (magicPosList e) (entryStrings e) @ tail) =
    Inr (pos_list_bytes (4 * length (magicPosList e)) (magicPosList e) @ PosListEnd @
      entryStrings e @ tail, 4 * length (magicPosList e) + 4)"
proof -
  let ?ps = "magicPosList e" let ?z = "write_all zeroBuf ?ps (entryStrings e)"
  have occ: "\<forall>p \<in> set ?ps. p + length MagicBytes \<le> length (entryStrings e) \<and>
      subslice (entryStrings e) p (p + length MagicBytes) = MagicBytes"
    using magicPosList_occurs by simp
  then have le: "\<forall>p \<in> set ?ps. p \<le> length (entryStrings e)" by fastforce
  have ne: "?z @ tail \<noteq> []"
    using le by (metis append_is_Nil_conv length_0_conv length_entryStrings length_write_all
        add_is_0 zero_neq_numeral)
  have "recoverMagicBytes_loop (pos_list_bytes (4 * length ?ps) ([] @ ?ps) @ PosListEnd @ ?z @ tail)
      (4 * length ([] :: nat list)) =
    Inr (pos_list_bytes (4 * length ?ps) ([] @ ?ps) @ PosListEnd @
      write_all MagicBytes ?ps (?z @ tail), 4 * length ?ps + 4)"
    using wf_entry_lengths(4) [OF assms] occ le ne
    by (intro recoverMagicBytes_loop_correct) auto
  moreover have "write_all MagicBytes ?ps (?z @ tail) = entryStrings e @ tail"
    using write_all_append [of ?ps MagicBytes ?z tail] write_all_restore [OF occ, of zeroBuf] occ le
    by simp
  ultimately show ?thesis
    by (simp add: recoverMagicBytes_def)
qed

section \<open>Raw entries\<close>

text \<open>What \<open>ReadEntryRawBytes\<close> returns for a stored entry: everything but the serial number list.\<close>

definition rawEntry :: "Entry \<Rightarrow> int list \<Rightarrow> bytes" where
  "rawEntry e sns = take (length (EntryToBytes e sns) - 8 * length sns) (EntryToBytes e sns)"

text \<open>The bytes between the count of serial numbers and the entry's own serial number.\<close>

definition entryBody :: "Entry \<Rightarrow> bytes" where
  "entryBody e =
     PutUint24 (4 + 4 * length (magicPosList e) + length (entryStrings e) + 24) @
     pos_list_bytes (4 * length (magicPosList e)) (magicPosList e) @ PosListEnd @
     write_all zeroBuf (magicPosList e) (entryStrings e) @
     put_le 8 (uint64 (Height e)) @ put_le 8 (uint64 (LastHeight e))"

lemma EntryToBytes_body:
  "EntryToBytes e sns =
     word_of_nat (length sns mod 256) # entryBody e @ put_le 8 (uint64 (SerialNum e)) @ SNListToBytes sns"
  by (simp add: EntryToBytes_layout entryBody_def entryNums_def)

lemma rawEntry_body:
  "rawEntry e sns = word_of_nat (length sns mod 256) # entryBody e @ put_le 8 (uint64 (SerialNum e))"
proof -
  let ?r = "word_of_nat (length sns mod 256) # entryBody e @ put_le 8 (uint64 (SerialNum e))"
  have eq: "EntryToBytes e sns = ?r @ SNListToBytes sns"
    by (simp add: EntryToBytes_body)
  then have len: "length (EntryToBytes e sns) - 8 * length sns = length ?r" by simp
  show ?thesis
    unfolding rawEntry_def len unfolding eq
    by (simp only: take_append take_all order_refl diff_self_eq_0 take_0 append_Nil2)
qed

lemma entryBody_SerialNum [simp]: "entryBody (e\<lparr>SerialNum := sn\<rparr>) = entryBody e"
  by (simp add: entryBody_def magicPosList_def entryStrings_def)

lemma ExtractSerialNum_raw:
  "in_int64 (SerialNum e) \<Longrightarrow> ExtractSerialNum (rawEntry e sns) = Inr (SerialNum e)"
  by (simp add: ExtractSerialNum_def rawEntry_body int64_uint64)

lemma UpdateSerialNum_raw:
  "UpdateSerialNum (rawEntry e sns) sn = Inr (rawEntry (e\<lparr>SerialNum := sn\<rparr>) sns)"
  by (simp add: UpdateSerialNum_def rawEntry_body)

lemma rawEntry_reappend:
  "(rawEntry e sns)[0 := word_of_nat (length sns' mod 256)] @ SNListToBytes sns' = EntryToBytes e sns'"
  by (simp add: rawEntry_body EntryToBytes_body)

lemma rawEntry_drop4:
  "drop 4 (rawEntry e sns) =
     pos_list_bytes (4 * length (magicPosList e)) (magicPosList e) @ PosListEnd @
     write_all zeroBuf (magicPosList e) (entryStrings e) @ entryNums e"
  by (simp add: rawEntry_body entryBody_def entryNums_def PutUint24_def)

text \<open>The test for a missing position list is exact: the first position is below the terminator.\<close>

lemma and_255_eq: "and a b = (255 :: byte) \<longleftrightarrow> a = 255 \<and> b = 255"
proof -
  have m: "(- 1 :: byte) = 255" by simp
  show ?thesis by (rule and_eq_minus_1_iff [of a b, unfolded m])
qed

lemma put_le_4:
  "put_le 4 x = [word_of_nat (x mod 256), word_of_nat (x div 256 mod 256),
     word_of_nat (x div 256 div 256 mod 256), word_of_nat (x div 256 div 256 div 256 mod 256)]"
proof -
  have "(4 :: nat) = Suc (Suc (Suc (Suc 0)))" by simp
  then show ?thesis by (simp only: put_le.simps)
qed

lemma PosListEnd_bytes: "PosListEnd = [255, 255, 255, 255]"
  by (simp add: PosListEnd_def put_le_4)

lemma noMagicBytes_PosListEnd: "noMagicBytes (PosListEnd @ q) = Inr True"
  by (simp add: noMagicBytes_def PosListEnd_bytes and_255_eq)

lemma noMagicBytes_pos:
  assumes "p < 2 ^ 32 - 1"
  shows "noMagicBytes (put_le 4 p @ q) = Inr False"
proof -
  have "put_le 4 p \<noteq> [255, 255, 255, 255]"
    using assms put_le_inj [of p 4 "2 ^ 32 - 1"] PosListEnd_bytes by (simp add: PosListEnd_def)
  moreover obtain b0 b1 b2 b3 where "put_le 4 p = [b0, b1, b2, b3]"
    by (simp add: put_le_4)
  ultimately show ?thesis
    by (auto simp: noMagicBytes_def and_255_eq)
qed

lemma noMagicBytes_raw:
  assumes "wf_entry e sns"
  shows "noMagicBytes (drop 4 (rawEntry e sns')) = Inr (magicPosList e = [])"
proof (cases "magicPosList e")
  case Nil
  then show ?thesis
    by (simp add: rawEntry_drop4 pos_list_bytes_def noMagicBytes_PosListEnd)
next
  case (Cons p ps)
  have "p + 4 * length (magicPosList e) < 2 ^ 32 - 1"
    using wf_entry_lengths(4) [OF assms] Cons by (force simp: MaxEntryBytes_def)
  from noMagicBytes_pos [OF this] show ?thesis
    by (simp add: rawEntry_drop4 Cons pos_list_bytes_Cons)
qed

lemma ExtractKeyFromRawBytes_raw:
  assumes wf: "wf_entry e sns"
  shows "ExtractKeyFromRawBytes (rawEntry e sns') = Inr (Key e)"
proof -
  let ?bb = "drop 4 (rawEntry e sns')"
  have len: "4 \<le> length (rawEntry e sns')" by (simp add: rawEntry_body entryBody_def)
  have bb: "sliceE (rawEntry e sns') 4 (length (rawEntry e sns')) = Inr ?bb"
    using len by (simp add: sliceE_def subslice_def)
  note k = wf_entry_lengths(1) [OF wf]
  obtain t where t: "entryStrings e @ entryNums e = put_le 4 (length (Key e)) @ Key e @ t"
    by (simp add: entryStrings_def)
  show ?thesis
  proof (cases "magicPosList e = []")
    case True
    then have "?bb = PosListEnd @ put_le 4 (length (Key e)) @ Key e @ t"
      by (simp add: rawEntry_drop4 pos_list_bytes_def t)
    moreover have "readU32 (PosListEnd @ put_le 4 (length (Key e)) @ Key e @ t) 4 = Inr (length (Key e))"
      using k by (intro readU32_at) simp_all
    moreover have "sliceE (PosListEnd @ put_le 4 (length (Key e)) @ Key e @ t) 8 (8 + length (Key e)) =
        Inr (Key e)"
      using subslice_append_mid [of 8 "PosListEnd @ put_le 4 (length (Key e))" _ "Key e" t]
      by (simp add: sliceE_def)
    ultimately show ?thesis
      using bb noMagicBytes_raw [OF wf, of sns'] True by (simp add: ExtractKeyFromRawBytes_def)
  next
    case False
    let ?L = "pos_list_bytes (4 * length (magicPosList e)) (magicPosList e) @ PosListEnd"
    let ?n = "4 * length (magicPosList e) + 4"
    have "recoverMagicBytes ?bb = Inr (?L @ put_le 4 (length (Key e)) @ Key e @ t, ?n)"
      using recoverMagicBytes_entry [OF wf, of "entryNums e"] by (simp add: rawEntry_drop4 t)
    moreover have "sliceE (?L @ put_le 4 (length (Key e)) @ Key e @ t) ?n
        (length (?L @ put_le 4 (length (Key e)) @ Key e @ t)) =
        Inr (put_le 4 (length (Key e)) @ Key e @ t)"
      by (simp add: sliceE_def subslice_def)
    moreover have "readU32 (put_le 4 (length (Key e)) @ Key e @ t) 0 = Inr (length (Key e))"
      using k readU32_at [of 0 "[]"] by simp
    moreover have "sliceE (put_le 4 (length (Key e)) @ Key e @ t) 4 (4 + length (Key e)) = Inr (Key e)"
      using subslice_append_mid [of 4 "put_le 4 (length (Key e))" _ "Key e" t]
      by (simp add: sliceE_def)
    ultimately show ?thesis
      using bb noMagicBytes_raw [OF wf, of sns'] False by (simp add: ExtractKeyFromRawBytes_def)
  qed
qed

section \<open>Properties\<close>

text \<open>
  C23: the codec round trip. For every well-formed entry and list of deactivated serial numbers,
  the header of \<open>EntryToBytes\<close> holds the count of serial numbers and the length of what follows
  without them, and \<open>recoverMagicBytes\<close> followed by \<open>EntryFromBytes\<close> returns the entry and the
  list, whatever MagicBytes occur in its strings. A nil value comes back as an empty one.
\<close>

theorem EntryToBytes_roundtrip:
  assumes wf: "wf_entry e sns"
  shows "unat (EntryToBytes e sns ! 0) = length sns \<and>
    GetUint24 (drop 1 (EntryToBytes e sns)) = length (EntryToBytes e sns) - 4 - 8 * length sns \<and>
    (\<exists>b n. recoverMagicBytes (drop 4 (EntryToBytes e sns)) = Inr (b, n) \<and>
      EntryFromBytes (drop n b) (length sns) = Inr (e\<lparr>Value := Some (slice_bytes (Value e))\<rparr>, sns))"
proof (intro conjI)
  show "unat (EntryToBytes e sns ! 0) = length sns"
    using wf by (simp add: EntryToBytes_body wf_entry_def)
  have "4 + 4 * length (magicPosList e) + length (entryStrings e) + 24 < 256 ^ 3"
    using wf by (simp add: wf_entry_def length_EntryToBytes MaxEntryBytes_def)
  then show "GetUint24 (drop 1 (EntryToBytes e sns)) = length (EntryToBytes e sns) - 4 - 8 * length sns"
    unfolding length_EntryToBytes
    by (simp add: EntryToBytes_layout GetUint24_def PutUint24_def get_put_le)
  let ?L = "pos_list_bytes (4 * length (magicPosList e)) (magicPosList e) @ PosListEnd"
  have "drop 4 (EntryToBytes e sns) = ?L @ write_all zeroBuf (magicPosList e) (entryStrings e) @
      entryNums e @ SNListToBytes sns"
    by (simp add: EntryToBytes_layout PutUint24_def)
  then have "recoverMagicBytes (drop 4 (EntryToBytes e sns)) =
      Inr (?L @ writeEntryPayload e sns, length ?L)"
    using recoverMagicBytes_entry [OF wf, of "entryNums e @ SNListToBytes sns"]
    by (simp add: writeEntryPayload_parts)
  moreover have "EntryFromBytes (writeEntryPayload e sns) (length sns) =
      Inr (e\<lparr>Value := Some (slice_bytes (Value e))\<rparr>, sns)"
    using wf wf_entry_lengths [OF wf] by (intro EntryFromBytes_payload) (auto simp: wf_entry_def)
  ultimately show "\<exists>b n. recoverMagicBytes (drop 4 (EntryToBytes e sns)) = Inr (b, n) \<and>
      EntryFromBytes (drop n b) (length sns) = Inr (e\<lparr>Value := Some (slice_bytes (Value e))\<rparr>, sns)"
    by (intro exI [of _ "?L @ writeEntryPayload e sns"] exI [of _ "length ?L"]) simp
qed

text \<open>A value that is MagicBytes itself, and two deactivated serial numbers.\<close>

definition sampleEntry :: Entry where
  "sampleEntry = \<lparr>Key = [1, 2], Value = Some MagicBytes, NextKey = [3], Height = 7, LastHeight = -1,
     SerialNum = 2050\<rparr>"

lemma sampleEntry_magicPosList: "magicPosList sampleEntry = [10]"
  by code_simp

lemma sampleEntry_sel:
  "Key sampleEntry = [1, 2]" "Value sampleEntry = Some MagicBytes" "NextKey sampleEntry = [3]"
  "Height sampleEntry = 7" "LastHeight sampleEntry = -1" "SerialNum sampleEntry = 2050"
  by (simp_all add: sampleEntry_def)

lemma sampleEntry_wf: "wf_entry sampleEntry [5, 2047]"
  by (simp add: wf_entry_def length_EntryToBytes sampleEntry_magicPosList length_entryStrings
      sampleEntry_sel MaxEntryBytes_def in_int64_def slice_bytes_def)

lemma sampleEntry_value: "sampleEntry\<lparr>Value := Some (slice_bytes (Value sampleEntry))\<rparr> = sampleEntry"
  by (simp add: sampleEntry_def slice_bytes_def)

theorem EntryToBytes_roundtrip_witness:
  "wf_entry sampleEntry [5, 2047] \<and>
   (\<exists>b n. recoverMagicBytes (drop 4 (EntryToBytes sampleEntry [5, 2047])) = Inr (b, n) \<and>
      EntryFromBytes (drop n b) (length [5 :: int, 2047]) = Inr (sampleEntry, [5, 2047]))"
  using sampleEntry_wf EntryToBytes_roundtrip [OF sampleEntry_wf] unfolding sampleEntry_value by blast

text \<open>
  C24: compaction moves an entry without decoding it. On the raw bytes of a stored entry,
  \<open>ExtractSerialNum\<close> and \<open>ExtractKeyFromRawBytes\<close> return the entry's serial number and key, and
  \<open>UpdateSerialNum\<close>, the rewritten count byte and the new serial number list give exactly the bytes
  \<open>EntryToBytes\<close> writes for the entry with the new serial number.
\<close>

theorem raw_entry_move:
  assumes "wf_entry e sns"
  shows "ExtractSerialNum (rawEntry e sns) = Inr (SerialNum e) \<and>
    ExtractKeyFromRawBytes (rawEntry e sns) = Inr (Key e) \<and>
    (\<exists>raw. UpdateSerialNum (rawEntry e sns) sn = Inr raw \<and>
       raw[0 := word_of_nat (length sns' mod 256)] @ SNListToBytes sns' =
         EntryToBytes (e\<lparr>SerialNum := sn\<rparr>) sns')"
  using assms ExtractSerialNum_raw [of e sns] ExtractKeyFromRawBytes_raw [OF assms]
    UpdateSerialNum_raw [of e sns sn] rawEntry_reappend [of "e\<lparr>SerialNum := sn\<rparr>" sns sns']
  by (simp add: wf_entry_def)

theorem raw_entry_move_witness:
  "wf_entry sampleEntry [5, 2047] \<and>
   ExtractKeyFromRawBytes (rawEntry sampleEntry [5, 2047]) = Inr [1, 2]"
  using sampleEntry_wf raw_entry_move [OF sampleEntry_wf, of 9000 "[1]"]
  by (simp add: sampleEntry_sel)

text \<open>
  C34: \<open>EntryFromRawBytes\<close> skips four bytes too many when the entry has escaped MagicBytes: it reads
  the payload from \<open>n+4\<close> although \<open>recoverMagicBytes\<close> already counts the terminator. It decodes the
  payload without the length of its key, for every well-formed entry with an escaped occurrence.
\<close>

theorem EntryFromRawBytes_skips_key_length:
  assumes wf: "wf_entry e sns" and magic: "magicPosList e \<noteq> []"
  shows "EntryFromRawBytes (rawEntry e sns) =
    bindE (EntryFromBytes (drop 4 (writeEntryPayload e [])) 0) (\<lambda>(e', _). Inr e')"
proof -
  let ?bb = "drop 4 (rawEntry e sns)"
  let ?L = "pos_list_bytes (4 * length (magicPosList e)) (magicPosList e) @ PosListEnd"
  let ?P = "writeEntryPayload e []"
  have "sliceE (rawEntry e sns) 4 (length (rawEntry e sns)) = Inr ?bb"
    by (simp add: sliceE_def subslice_def rawEntry_body entryBody_def)
  moreover have "recoverMagicBytes ?bb = Inr (?L @ ?P, length ?L)"
    using recoverMagicBytes_entry [OF wf, of "entryNums e"]
    by (simp add: rawEntry_drop4 writeEntryPayload_parts SNListToBytes_def)
  moreover have "sliceE (?L @ ?P) (length ?L + 4) (length (?L @ ?P)) = Inr (drop 4 ?P)"
    by (simp add: sliceE_def subslice_def writeEntryPayload_def SNListToBytes_def)
  ultimately show ?thesis
    using noMagicBytes_raw [OF wf, of sns] magic by (simp add: EntryFromRawBytes_def)
qed

text \<open>On the sample entry the misplaced read takes the key bytes for a length and panics.\<close>

theorem EntryFromRawBytes_skips_key_length_witness:
  "EntryFromRawBytes (rawEntry sampleEntry [5, 2047]) = Inl IndexOutOfRange"
proof -
  have "readU32 (drop 4 (writeEntryPayload sampleEntry [])) 0 = Inr (1 + 256 * (2 + 256 * 8))"
    by (simp add: writeEntryPayload_def sampleEntry_sel slice_bytes_def put_le_4 readU32_def
        sliceE_def subslice_def)
  moreover have "length (drop 4 (writeEntryPayload sampleEntry [])) = 43"
    by (simp add: writeEntryPayload_def sampleEntry_sel slice_bytes_def SNListToBytes_def)
  ultimately have "EntryFromBytes (drop 4 (writeEntryPayload sampleEntry [])) 0 = Inl IndexOutOfRange"
    by (simp add: EntryFromBytes_def readField_def sliceE_def)
  then show ?thesis
    using EntryFromRawBytes_skips_key_length [OF sampleEntry_wf] sampleEntry_magicPosList by simp
qed

definition adjacentMagicEntry :: Entry where
  "adjacentMagicEntry = \<lparr>Key = [1], Value = Some [], NextKey = MagicBytes @ MagicBytes, Height = 1,
     LastHeight = 0, SerialNum = 0\<rparr>"

definition overlapMagicEntry :: Entry where
  "overlapMagicEntry = \<lparr>Key = [1], Value = Some [], NextKey = butlast MagicBytes, Height = 255,
     LastHeight = 0, SerialNum = 0\<rparr>"

lemma EntryToBytes_after_header:
  "drop 8 (EntryToBytes e sns) = drop 4 (pos_list_bytes (4 * length (magicPosList e)) (magicPosList e) @
     PosListEnd) @ write_all zeroBuf (magicPosList e) (entryStrings e) @ entryNums e @ SNListToBytes sns"
  by (simp add: EntryToBytes_layout PutUint24_def)

lemma adjacentMagicEntry_strings:
  "\<exists>xs. write_all zeroBuf (magicPosList adjacentMagicEntry) (entryStrings adjacentMagicEntry) = xs @ MagicBytes"
  by (rule exI [of _ "[1, 0, 0, 0, 1, 0, 0, 0, 0, 16, 0, 0, 0, 0, 0, 0, 0, 0, 0, 0, 0]"]) code_simp

lemma overlapMagicEntry_strings:
  "\<exists>xs. write_all zeroBuf (magicPosList overlapMagicEntry) (entryStrings overlapMagicEntry) =
     xs @ butlast MagicBytes"
  by (rule exI [of _ "[1, 0, 0, 0, 1, 0, 0, 0, 0, 7, 0, 0, 0]"]) code_simp

text \<open>
  MagicBytes can survive escaping. \<open>getAllPos\<close> stops when exactly one separator length is left,
  so the second of two adjacent occurrences at the end of NextKey is kept; and an occurrence that
  ends in the first byte of Height is outside the searched region. In both serialized entries
  MagicBytes occur after the header.
\<close>

theorem EntryToBytes_keeps_magic:
  "bytes_Index (drop 8 (EntryToBytes adjacentMagicEntry [])) MagicBytes \<noteq> None \<and>
   bytes_Index (drop 8 (EntryToBytes overlapMagicEntry [])) MagicBytes \<noteq> None"
proof
  obtain xs where "write_all zeroBuf (magicPosList adjacentMagicEntry) (entryStrings adjacentMagicEntry) =
      xs @ MagicBytes" using adjacentMagicEntry_strings by blast
  then show "bytes_Index (drop 8 (EntryToBytes adjacentMagicEntry [])) MagicBytes \<noteq> None"
    unfolding EntryToBytes_after_header by (metis append_assoc bytes_Index_append)
next
  obtain xs where xs: "write_all zeroBuf (magicPosList overlapMagicEntry) (entryStrings overlapMagicEntry) =
      xs @ butlast MagicBytes" using overlapMagicEntry_strings by blast
  have "put_le 8 (uint64 255) = 255 # put_le 7 0"
  proof -
    have "(8 :: nat) = Suc 7" by simp
    then show ?thesis by (simp only: put_le.simps) (simp add: uint64_def)
  qed
  then have "butlast MagicBytes @ entryNums overlapMagicEntry = MagicBytes @ drop 1 (entryNums overlapMagicEntry)"
    by (simp add: entryNums_def overlapMagicEntry_def MagicBytes_def)
  with xs show "bytes_Index (drop 8 (EntryToBytes overlapMagicEntry [])) MagicBytes \<noteq> None"
    unfolding EntryToBytes_after_header by (metis append_assoc bytes_Index_append)
qed

end
