(* ===== verification/Hasher.thy ===== *)
theory Hasher
  imports Prelude
begin

text \<open>
  The hash functions and the batch hasher of datatree/hasher.go. SHA-256 (github.com/minio/sha256-simd)
  is the parameter \<open>sha\<close>; what the code relies on is that it returns 32 bytes.

  A job holds slices of the arrays it reads and writes, so that its operands are read when it runs.
  Here a job names cells, and the memory is a state with a reading and a writing function of cells.
  \<open>Run\<close> executes a batch once in order when it is small, and then every job again in parallel: one
  worker after the other takes the next job from the shared counter, reads, hashes and writes. The
  parallel phase is a step relation with every interleaving; \<open>Run\<close> is its sequential schedule.
\<close>

section \<open>Model\<close>

definition hash32 :: "(bytes \<Rightarrow> bytes) \<Rightarrow> bool" where
  "hash32 sha \<longleftrightarrow> (\<forall>b. length (sha b) = 32)"

definition hash :: "(bytes \<Rightarrow> bytes) \<Rightarrow> bytes \<Rightarrow> bytes" where
  "hash sha inp = sha inp"

definition hash2 :: "(bytes \<Rightarrow> bytes) \<Rightarrow> byte \<Rightarrow> bytes \<Rightarrow> bytes \<Rightarrow> bytes" where
  "hash2 sha level a b = sha ([level] @ a @ b)"

record 'a hashJob =
  job_target :: 'a
  job_level :: byte
  job_srcA :: 'a
  job_srcB :: 'a

definition MinimumJobsInGoroutine :: nat where
  "MinimumJobsInGoroutine = 20"

text \<open>What a job computes from the memory, and the job itself.\<close>

definition job_value :: "(bytes \<Rightarrow> bytes) \<Rightarrow> ('s \<Rightarrow> 'a \<Rightarrow> bytes) \<Rightarrow> 's \<Rightarrow> 'a hashJob \<Rightarrow> bytes" where
  "job_value sha rd s j = hash2 sha (job_level j) (rd s (job_srcA j)) (rd s (job_srcB j))"

definition run :: "(bytes \<Rightarrow> bytes) \<Rightarrow> ('s \<Rightarrow> 'a \<Rightarrow> bytes) \<Rightarrow> ('a \<Rightarrow> bytes \<Rightarrow> 's \<Rightarrow> 's) \<Rightarrow> 'a hashJob \<Rightarrow> 's \<Rightarrow> 's" where
  "run sha rd wr j s = wr (job_target j) (job_value sha rd s j) s"

definition Add :: "byte \<Rightarrow> 'a \<Rightarrow> 'a \<Rightarrow> 'a \<Rightarrow> 'a hashJob list \<Rightarrow> 'a hashJob list" where
  "Add level tgt a b jobs = jobs @ [\<lparr>job_target = tgt, job_level = level, job_srcA = a, job_srcB = b\<rparr>]"

definition Run :: "(bytes \<Rightarrow> bytes) \<Rightarrow> ('s \<Rightarrow> 'a \<Rightarrow> bytes) \<Rightarrow> ('a \<Rightarrow> bytes \<Rightarrow> 's \<Rightarrow> 's) \<Rightarrow> 'a hashJob list \<Rightarrow> 's \<Rightarrow> 's" where
  "Run sha rd wr jobs s =
     (let s = (if length jobs < MinimumJobsInGoroutine then fold (run sha rd wr) jobs s else s)
      in fold (run sha rd wr) jobs s)"

text \<open>
  The parallel phase: the jobs not yet taken (the shared counter hands them out in order), the jobs
  of the workers with the hash each has computed so far, and the memory.
\<close>

inductive par_step ::
  "(bytes \<Rightarrow> bytes) \<Rightarrow> ('s \<Rightarrow> 'a \<Rightarrow> bytes) \<Rightarrow> ('a \<Rightarrow> bytes \<Rightarrow> 's \<Rightarrow> 's) \<Rightarrow>
   'a hashJob list \<times> ('a hashJob \<times> bytes option) list \<times> 's \<Rightarrow>
   'a hashJob list \<times> ('a hashJob \<times> bytes option) list \<times> 's \<Rightarrow> bool"
  for sha rd wr where
  job_taken: "par_step sha rd wr (j # todo, ws, s) (todo, (j, None) # ws, s)"
| job_computed: "par_step sha rd wr (todo, ws1 @ (j, None) # ws2, s)
     (todo, ws1 @ (j, Some (job_value sha rd s j)) # ws2, s)"
| job_written: "par_step sha rd wr (todo, ws1 @ (j, Some v) # ws2, s) (todo, ws1 @ ws2, wr (job_target j) v s)"

text \<open>All workers have returned from the batch \<open>jobs\<close> with the memory \<open>t\<close>.\<close>

definition ParrallelRun :: "(bytes \<Rightarrow> bytes) \<Rightarrow> ('s \<Rightarrow> 'a \<Rightarrow> bytes) \<Rightarrow> ('a \<Rightarrow> bytes \<Rightarrow> 's \<Rightarrow> 's) \<Rightarrow>
   'a hashJob list \<Rightarrow> 's \<Rightarrow> 's \<Rightarrow> bool" where
  "ParrallelRun sha rd wr jobs s t \<longleftrightarrow> (par_step sha rd wr)\<^sup>*\<^sup>* (jobs, [], s) ([], [], t)"

section \<open>Batches of independent jobs\<close>

lemma length_hash2 [simp]: "hash32 sha \<Longrightarrow> length (hash2 sha l a b) = 32"
  by (simp add: hash32_def hash2_def)

lemma length_job_value [simp]: "hash32 sha \<Longrightarrow> length (job_value sha rd s j) = 32"
  by (simp add: job_value_def)

text \<open>No job writes what another one reads, and no two jobs write the same cell.\<close>

definition independent :: "'a hashJob list \<Rightarrow> bool" where
  "independent jobs \<longleftrightarrow> inj_on job_target (set jobs) \<and>
     (\<forall>j \<in> set jobs. \<forall>k \<in> set jobs. job_target j \<noteq> job_srcA k \<and> job_target j \<noteq> job_srcB k)"

text \<open>
  The laws of a memory of 32-byte cells, and what a batch of independent jobs does to it: every
  target holds the hash of its operands as they were before the batch, and nothing else changes.
\<close>

locale cells =
  fixes rd :: "'s \<Rightarrow> 'a \<Rightarrow> bytes"
    and wr :: "'a \<Rightarrow> bytes \<Rightarrow> 's \<Rightarrow> 's"
    and valid :: "'s \<Rightarrow> 'a \<Rightarrow> bool"
  assumes rd_wr: "valid s a \<Longrightarrow> length v = 32 \<Longrightarrow> rd (wr a v s) b = (if b = a then v else rd s b)"
    and valid_wr: "valid s a \<Longrightarrow> length v = 32 \<Longrightarrow> valid (wr a v s) b = valid s b"
begin

definition batch :: "(bytes \<Rightarrow> bytes) \<Rightarrow> 'a hashJob list \<Rightarrow> 's \<Rightarrow> 's \<Rightarrow> bool" where
  "batch sha jobs s t \<longleftrightarrow> (\<forall>j \<in> set jobs. rd t (job_target j) = job_value sha rd s j) \<and>
     (\<forall>a. a \<notin> job_target ` set jobs \<longrightarrow> rd t a = rd s a) \<and> (\<forall>a. valid t a = valid s a)"

definition jobs_ok :: "'s \<Rightarrow> 'a hashJob list \<Rightarrow> bool" where
  "jobs_ok s jobs \<longleftrightarrow> independent jobs \<and> (\<forall>j \<in> set jobs. valid s (job_target j))"

text \<open>Some of the targets already hold their result; no source has changed.\<close>

definition progress :: "(bytes \<Rightarrow> bytes) \<Rightarrow> 'a hashJob set \<Rightarrow> 'a hashJob list \<Rightarrow> 's \<Rightarrow> 's \<Rightarrow> bool" where
  "progress sha finished jobs s t \<longleftrightarrow>
     (\<forall>a. a \<notin> job_target ` set jobs \<longrightarrow> rd t a = rd s a) \<and> (\<forall>a. valid t a = valid s a) \<and>
     (\<forall>j \<in> finished. rd t (job_target j) = job_value sha rd s j)"

lemma progress_value:
  "progress sha fin jobs s t \<Longrightarrow> independent jobs \<Longrightarrow> j \<in> set jobs \<Longrightarrow>
   job_value sha rd t j = job_value sha rd s j"
  by (auto simp: progress_def independent_def job_value_def image_iff) metis

lemma progress_write:
  assumes "hash32 sha" and ok: "jobs_ok s jobs" and p: "progress sha fin jobs s t" and j: "j \<in> set jobs"
    and fin: "fin \<subseteq> set jobs"
  shows "progress sha (insert j fin) jobs s (wr (job_target j) (job_value sha rd s j) t)"
proof -
  have v: "valid t (job_target j)" using ok p j by (auto simp: jobs_ok_def progress_def)
  have inj: "job_target k = job_target j \<Longrightarrow> k \<in> set jobs \<Longrightarrow> k = j" for k
    using ok j by (auto simp: jobs_ok_def independent_def inj_on_def)
  show ?thesis
    using p j fin inj assms(1) by (auto simp: progress_def rd_wr [OF v] valid_wr [OF v])
qed

lemma fold_run_progress:
  assumes sha: "hash32 sha" and ok: "jobs_ok s jobs"
  shows "set js \<subseteq> set jobs \<Longrightarrow> fin \<subseteq> set jobs \<Longrightarrow> progress sha fin jobs s t \<Longrightarrow>
    progress sha (set js \<union> fin) jobs s (fold (run sha rd wr) js t)"
proof (induction js arbitrary: fin t)
  case Nil
  then show ?case by simp
next
  case (Cons j js)
  have ind: "independent jobs" using ok by (simp add: jobs_ok_def)
  have "run sha rd wr j t = wr (job_target j) (job_value sha rd s j) t"
    using progress_value [OF Cons.prems(3) ind, of j] Cons.prems(1) by (simp add: run_def)
  with progress_write [OF sha ok Cons.prems(3) _ Cons.prems(2), of j] Cons.prems(1)
  have "progress sha (insert j fin) jobs s (run sha rd wr j t)" by simp
  from Cons.IH [OF _ _ this] Cons.prems show ?case by simp
qed

lemma progress_start: "progress sha {} jobs s s"
  by (simp add: progress_def)

lemma progress_end: "progress sha fin jobs s t \<Longrightarrow> set jobs \<subseteq> fin \<Longrightarrow> batch sha jobs s t"
  by (auto simp: progress_def batch_def)

theorem Run_batch:
  assumes "hash32 sha" and "jobs_ok s jobs"
  shows "batch sha jobs s (Run sha rd wr jobs s)"
proof -
  let ?t = "if length jobs < MinimumJobsInGoroutine then fold (run sha rd wr) jobs s else s"
  have "\<exists>fin \<subseteq> set jobs. progress sha fin jobs s ?t"
    using fold_run_progress [OF assms subset_refl empty_subsetI progress_start] progress_start [of sha jobs s]
    by auto
  then obtain fin where fin: "fin \<subseteq> set jobs" "progress sha fin jobs s ?t" by blast
  show ?thesis
    using fold_run_progress [OF assms subset_refl fin] by (intro progress_end) (auto simp: Run_def Let_def)
qed

text \<open>A configuration of the parallel phase: what is neither to do nor in a worker's hands is done.\<close>

definition par_inv :: "(bytes \<Rightarrow> bytes) \<Rightarrow> 'a hashJob list \<Rightarrow> 's \<Rightarrow>
    'a hashJob list \<times> ('a hashJob \<times> bytes option) list \<times> 's \<Rightarrow> bool" where
  "par_inv sha jobs s c \<longleftrightarrow> (case c of (todo, ws, t) \<Rightarrow>
     set todo \<union> fst ` set ws \<subseteq> set jobs \<and>
     (\<forall>(j, v) \<in> set ws. v = None \<or> v = Some (job_value sha rd s j)) \<and>
     progress sha (set jobs - set todo - fst ` set ws) jobs s t)"

lemma progress_subset: "progress sha fin jobs s t \<Longrightarrow> fin' \<subseteq> fin \<Longrightarrow> progress sha fin' jobs s t"
  by (auto simp: progress_def)

lemma par_step_inv:
  assumes "hash32 sha" and ok: "jobs_ok s jobs"
  shows "par_step sha rd wr c c' \<Longrightarrow> par_inv sha jobs s c \<Longrightarrow> par_inv sha jobs s c'"
proof (induction rule: par_step.induct)
  case (job_taken j todo ws t)
  then show ?case by (auto simp: par_inv_def elim: progress_subset)
next
  case (job_computed todo ws1 j ws2 t)
  then have "job_value sha rd t j = job_value sha rd s j"
    using ok by (intro progress_value) (auto simp: par_inv_def jobs_ok_def)
  with job_computed show ?case by (auto simp: par_inv_def)
next
  case (job_written todo ws1 j v ws2 t)
  then have v: "v = job_value sha rd s j" and j: "j \<in> set jobs"
    and p: "progress sha (set jobs - set todo - fst ` set (ws1 @ (j, Some v) # ws2)) jobs s t"
    by (auto simp: par_inv_def)
  from progress_write [OF assms p j] have "progress sha (insert j (set jobs - set todo -
      fst ` set (ws1 @ (j, Some v) # ws2))) jobs s (wr (job_target j) v t)" by (auto simp: v)
  then have "progress sha (set jobs - set todo - fst ` set (ws1 @ ws2)) jobs s (wr (job_target j) v t)"
    by (rule progress_subset) auto
  with job_written show ?case by (auto simp: par_inv_def)
qed

theorem ParrallelRun_batch:
  assumes "hash32 sha" and "jobs_ok s jobs" and "ParrallelRun sha rd wr jobs s t"
  shows "batch sha jobs s t"
proof -
  have "par_inv sha jobs s c \<Longrightarrow> (par_step sha rd wr)\<^sup>*\<^sup>* c c' \<Longrightarrow> par_inv sha jobs s c'" for c c'
    by (rotate_tac, induction rule: rtranclp_induct) (auto intro: par_step_inv [OF assms(1,2)])
  moreover have "par_inv sha jobs s (jobs, [], s)" by (simp add: par_inv_def progress_def)
  ultimately have "par_inv sha jobs s ([], [], t)" using assms(3) unfolding ParrallelRun_def by blast
  then show ?thesis by (auto simp: par_inv_def intro: progress_end)
qed

end

end
