(* ===== verification/Twig.thy ===== *)
theory Twig
  imports EntryCodec Hasher
begin

text \<open>
  The twig of datatree/tree.go (its active bits with their Merkle levels, the root of its left Merkle
  tree and its own root), the null twig and null Merkle tree built by \<open>init\<close>, and the bit operations.
  A twig is a 2048-leaf subtree; \<open>activeBits\<close> has one bit per leaf.
\<close>

section \<open>Model\<close>

definition FirstLevelAboveTwig :: nat where
  "FirstLevelAboveTwig = 13"

definition TwigShift :: nat where
  "TwigShift = 11"

definition LeafCountInTwig :: nat where
  "LeafCountInTwig = 2 ^ TwigShift"

definition TwigMask :: nat where
  "TwigMask = LeafCountInTwig - 1"

record Twig =
  activeBits :: bytes
  activeBitsMTL1 :: "bytes list"
  activeBitsMTL2 :: "bytes list"
  activeBitsMTL3 :: bytes
  leftRoot :: bytes
  twigRoot :: bytes
  FirstEntryPos :: int

definition zeroHash :: bytes where
  "zeroHash = replicate 32 0"

text \<open>The hash of a null leaf, and of a null subtree of the given height.\<close>

fun nullHash :: "(bytes \<Rightarrow> bytes) \<Rightarrow> nat \<Rightarrow> bytes" where
  "nullHash sha 0 = hash sha (EntryToBytes NullEntry [])"
| "nullHash sha (Suc l) = hash2 sha (word_of_nat l) (nullHash sha l) (nullHash sha l)"

text \<open>The nodes of a stripe are all alike; index 0 is not used.\<close>

definition NullMT4Twig :: "(bytes \<Rightarrow> bytes) \<Rightarrow> bytes list" where
  "NullMT4Twig sha = zeroHash # concat (map (\<lambda>k. replicate (2 ^ k) (nullHash sha (11 - k))) [0 ..< 12])"

definition NullTwig :: "(bytes \<Rightarrow> bytes) \<Rightarrow> Twig" where
  "NullTwig sha =
     (let l1 = hash2 sha 8 zeroHash zeroHash; l2 = hash2 sha 9 l1 l1; l3 = hash2 sha 10 l2 l2;
          left = nullHash sha 11
      in \<lparr>activeBits = replicate 256 0, activeBitsMTL1 = replicate 4 l1, activeBitsMTL2 = replicate 2 l2,
          activeBitsMTL3 = l3, leftRoot = left, twigRoot = hash2 sha 11 left l3, FirstEntryPos = -1\<rparr>)"

definition CopyNullTwig :: "(bytes \<Rightarrow> bytes) \<Rightarrow> Twig" where
  "CopyNullTwig sha = NullTwig sha"

text \<open>\<open>NullNodeInHigherTree[level]\<close>, for the levels from \<open>FirstLevelAboveTwig\<close> to 63.\<close>

function NullNodeInHigherTree :: "(bytes \<Rightarrow> bytes) \<Rightarrow> nat \<Rightarrow> bytes" where
  "NullNodeInHigherTree sha level =
     (if level < FirstLevelAboveTwig then zeroHash
      else if level = FirstLevelAboveTwig then
        hash2 sha (word_of_nat (level - 1)) (twigRoot (NullTwig sha)) (twigRoot (NullTwig sha))
      else hash2 sha (word_of_nat (level - 1)) (NullNodeInHigherTree sha (level - 1))
             (NullNodeInHigherTree sha (level - 1)))"
  by pat_completeness auto
termination
  by (relation "measure snd") (auto simp: FirstLevelAboveTwig_def)

text \<open>\<open>byte(1) << (offset & 0x7)\<close>.\<close>

definition bit_mask :: "nat \<Rightarrow> byte" where
  "bit_mask off = push_bit (off mod 8) 1"

text \<open>
  The bound check lets \<open>offset = LeafCountInTwig\<close> through; indexing the 256 bytes panics then.
\<close>

definition setBit :: "nat \<Rightarrow> Twig \<Rightarrow> Twig outcome" where
  "setBit off twig =
     (if off > LeafCountInTwig then Inl (Panic ''Invalid ID'')
      else if off div 8 \<ge> 256 then Inl IndexOutOfRange
      else Inr (twig\<lparr>activeBits := (activeBits twig)[off div 8 := or (activeBits twig ! (off div 8)) (bit_mask off)]\<rparr>))"

definition clearBit :: "nat \<Rightarrow> Twig \<Rightarrow> Twig outcome" where
  "clearBit off twig =
     (if off > LeafCountInTwig then Inl (Panic ''Invalid ID'')
      else if off div 8 \<ge> 256 then Inl IndexOutOfRange
      else Inr (twig\<lparr>activeBits := (activeBits twig)[off div 8 := and (activeBits twig ! (off div 8)) (not (bit_mask off))]\<rparr>))"

definition getBit :: "nat \<Rightarrow> Twig \<Rightarrow> bool outcome" where
  "getBit off twig =
     (if off > LeafCountInTwig then Inl (Panic ''Invalid ID'')
      else if off div 8 \<ge> 256 then Inl IndexOutOfRange
      else Inr (and (activeBits twig ! (off div 8)) (bit_mask off) \<noteq> 0))"

section \<open>Well-formed twigs and their bits\<close>

definition wf_twig :: "Twig \<Rightarrow> bool" where
  "wf_twig tw \<longleftrightarrow> length (activeBits tw) = 256 \<and> length (activeBitsMTL1 tw) = 4 \<and>
     (\<forall>x \<in> set (activeBitsMTL1 tw). length x = 32) \<and> length (activeBitsMTL2 tw) = 2 \<and>
     (\<forall>x \<in> set (activeBitsMTL2 tw). length x = 32) \<and> length (activeBitsMTL3 tw) = 32 \<and>
     length (leftRoot tw) = 32 \<and> length (twigRoot tw) = 32"

lemma twig_consts [simp]: "LeafCountInTwig = 2048" "TwigMask = 2047" "FirstLevelAboveTwig = 13"
  by (simp_all add: LeafCountInTwig_def TwigShift_def TwigMask_def FirstLevelAboveTwig_def)

lemma length_nullHash [simp]: "hash32 sha \<Longrightarrow> length (nullHash sha l) = 32"
  by (cases l) (simp_all add: hash32_def hash_def hash2_def)

lemma length_zeroHash [simp]: "length zeroHash = 32"
  by (simp add: zeroHash_def)

lemma wf_NullTwig: "hash32 sha \<Longrightarrow> wf_twig (NullTwig sha)"
  by (simp add: wf_twig_def NullTwig_def Let_def)

lemma bit_mask_bit [simp]: "bit (bit_mask off) n \<longleftrightarrow> n = off mod 8"
proof -
  have "off mod 8 < 8" by simp
  then show ?thesis by (auto simp: bit_mask_def push_bit_of_1 bit_exp_iff)
qed

lemma and_bit_mask: "and b (bit_mask off) \<noteq> 0 \<longleftrightarrow> bit b (off mod 8)"
proof
  assume "and b (bit_mask off) \<noteq> 0"
  then obtain n where "bit (and b (bit_mask off)) n" by (metis bit_0_eq bot_apply bit_eqI bot_bool_def)
  then show "bit b (off mod 8)" by (auto simp: bit_and_iff)
next
  assume "bit b (off mod 8)"
  then have "bit (and b (bit_mask off)) (off mod 8)" by (simp add: bit_and_iff)
  then show "and b (bit_mask off) \<noteq> 0" by auto
qed

text \<open>The active bits of a twig as a function on its leaves.\<close>

definition is_active :: "Twig \<Rightarrow> nat \<Rightarrow> bool" where
  "is_active tw off \<longleftrightarrow> bit (activeBits tw ! (off div 8)) (off mod 8)"

lemma getBit_ok: "off < 2048 \<Longrightarrow> getBit off tw = Inr (is_active tw off)"
  by (auto simp: getBit_def is_active_def and_bit_mask)

lemma div_mod_8_eq: "(a :: nat) div 8 = b div 8 \<Longrightarrow> a mod 8 = b mod 8 \<Longrightarrow> a = b"
  by (metis div_mult_mod_eq)

lemma setBit_ok:
  assumes "wf_twig tw" and "off < 2048"
  shows "\<exists>tw'. setBit off tw = Inr tw' \<and> wf_twig tw' \<and>
    (\<forall>k < 2048. is_active tw' k \<longleftrightarrow> k = off \<or> is_active tw k) \<and> tw' = tw\<lparr>activeBits := activeBits tw'\<rparr>"
  using assms by (auto simp: setBit_def wf_twig_def is_active_def nth_list_update bit_or_iff dest: div_mod_8_eq)

lemma clearBit_ok:
  assumes "wf_twig tw" and "off < 2048"
  shows "\<exists>tw'. clearBit off tw = Inr tw' \<and> wf_twig tw' \<and>
    (\<forall>k < 2048. is_active tw' k \<longleftrightarrow> k \<noteq> off \<and> is_active tw k) \<and> tw' = tw\<lparr>activeBits := activeBits tw'\<rparr>"
  using assms
  by (auto simp: clearBit_def wf_twig_def is_active_def nth_list_update bit_and_iff bit_not_iff dest: div_mod_8_eq)

end
