(* ===== verification/HPFile.thy ===== *)
theory HPFile
  imports Prelude "HOL-Library.Signed_Division"
begin

text \<open>
  The head-prunable file of datatree/hpfile.go: a sequence of block files that acts as one
  append-only file whose first blocks can be deleted, with a write buffer and a read-ahead buffer.

  A file of the directory is its contents and the write offset of its open handle (os.File.Write
  writes at that offset). \<open>fileMap\<close> is both the directory and the table of open handles, since every
  file of the directory is open. Errors of the operating system (a full disk, a failing close) are
  not modelled; a missing handle and reading past the end are. The mutex only serialises the
  operations, and FlushAsync holds it until the flush is done, so both flushes are \<open>flush\<close>.
\<close>

section \<open>Model\<close>

record os_file =
  contents :: bytes
  offset :: nat

text \<open>\<open>f.Write(buf)\<close> at the handle's offset, and \<open>f.ReadAt(buf, pos)\<close> for a buffer of \<open>n\<close> bytes.\<close>

definition file_Write :: "os_file \<Rightarrow> bytes \<Rightarrow> os_file" where
  "file_Write f buf = \<lparr>contents = take (offset f) (contents f) @
       replicate (offset f - length (contents f)) 0 @ buf @ drop (offset f + length buf) (contents f),
     offset = offset f + length buf\<rparr>"

definition file_ReadAt :: "os_file \<Rightarrow> nat \<Rightarrow> nat \<Rightarrow> bytes outcome" where
  "file_ReadAt f n pos = (if n = 0 \<or> pos + n \<le> length (contents f)
     then Inr (subslice (contents f) pos (pos + n)) else Inl (IOError ''EOF''))"

definition PreReadBufSize :: nat where
  "PreReadBufSize = 256 * 1024"

record PreReader =
  pr_buf :: bytes
  pr_fileID :: int
  pr_start :: nat
  pr_end :: nat

record HPFile =
  fileMap :: "nat \<rightharpoonup> os_file"
  blockSize :: nat
  largestID :: nat
  latestFileSize :: nat
  bufferSize :: nat
  buffer :: bytes
  preReader :: PreReader

definition PreReader_zero :: PreReader where
  "PreReader_zero = \<lparr>pr_buf = [], pr_fileID = 0, pr_start = 0, pr_end = 0\<rparr>"

definition PreReader_Init :: "PreReader \<Rightarrow> PreReader" where
  "PreReader_Init pr = pr\<lparr>pr_fileID := -1, pr_buf := replicate PreReadBufSize 0\<rparr>"

definition TryRead :: "PreReader \<Rightarrow> nat \<Rightarrow> nat \<Rightarrow> nat \<Rightarrow> bytes option" where
  "TryRead pr fileID start n =
     (if int fileID = pr_fileID pr \<and> pr_start pr \<le> start \<and> start + n < pr_end pr
      then Some (subslice (pr_buf pr) (start - pr_start pr) (start - pr_start pr + n)) else None)"

text \<open>
  \<open>GetToFill\<close> followed by the read into the returned slice: the buffer holds what the file has from
  \<open>start\<close> on, and on EOF \<open>end\<close> is moved back to what was read.
\<close>

definition GetToFill :: "PreReader \<Rightarrow> nat \<Rightarrow> nat \<Rightarrow> nat \<Rightarrow> os_file \<Rightarrow> PreReader" where
  "GetToFill pr fileID start end' f =
     (let part = subslice (contents f) start end'
      in pr\<lparr>pr_fileID := int fileID, pr_start := start,
            pr_end := (if length part < end' - start then start + length part else end'),
            pr_buf := copy_at (pr_buf pr) 0 part\<rparr>)"

text \<open>Opening a directory that holds the block files \<open>dir\<close>, all named with the right block size.\<close>

definition NewHPFile :: "nat \<Rightarrow> nat \<Rightarrow> (nat \<times> bytes) list \<Rightarrow> HPFile outcome" where
  "NewHPFile bufSize blkSize dir =
     (if bufSize = 0 then Inl (Panic ''integer divide by zero'')
      else if blkSize mod bufSize \<noteq> 0 then Inl (Panic ''Invalid blockSize'')
      else
        (let largest = foldl max 0 (map fst dir);
             opened = map (\<lambda>(i, c). (i, \<lparr>contents = c,
                offset = (if i = largest then length c else 0)\<rparr>)) dir
         in Inr \<lparr>fileMap = (if dir = [] then [0 \<mapsto> \<lparr>contents = [], offset = 0\<rparr>] else map_of opened),
              blockSize = blkSize, largestID = largest,
              latestFileSize = (case map_of dir largest of None \<Rightarrow> 0 | Some c \<Rightarrow> length c),
              bufferSize = bufSize, buffer = [], preReader = PreReader_zero\<rparr>))"

definition InitPreReader :: "HPFile \<Rightarrow> HPFile" where
  "InitPreReader h = h\<lparr>preReader := PreReader_Init (preReader h)\<rparr>"

definition Size :: "HPFile \<Rightarrow> nat" where
  "Size h = largestID h * blockSize h + latestFileSize h"

text \<open>The loop of \<open>Truncate\<close> that removes whole block files.\<close>

fun Truncate_loop :: "nat \<Rightarrow> nat \<Rightarrow> nat \<Rightarrow> (nat \<rightharpoonup> os_file) \<Rightarrow> ((nat \<rightharpoonup> os_file) \<times> nat) outcome" where
  "Truncate_loop sz bs 0 m = Inr (m, 0)"
| "Truncate_loop sz bs (Suc i) m =
     (if sz < Suc i * bs then
        (if m (Suc i) = None then Inl (IOError ''invalid argument'')
         else Truncate_loop sz bs i (m(Suc i := None)))
      else Inr (m, Suc i))"

text \<open>
  The last block file is closed, opened again with O_RDWR (write offset 0) and truncated, or
  extended with zero bytes.
\<close>

definition Truncate :: "HPFile \<Rightarrow> nat \<Rightarrow> HPFile outcome" where
  "Truncate h sz =
     bindE (Truncate_loop sz (blockSize h) (largestID h) (fileMap h)) (\<lambda>(m, largest).
       let rest = sz - largest * blockSize h
       in case m largest of
            None \<Rightarrow> Inl (IOError ''invalid argument'')
          | Some f \<Rightarrow> Inr (h\<lparr>fileMap := m(largest \<mapsto>
                \<lparr>contents = take rest (contents f) @ replicate (rest - length (contents f)) 0,
                 offset = 0\<rparr>),
              largestID := largest, latestFileSize := rest\<rparr>))"

definition flush :: "HPFile \<Rightarrow> HPFile outcome" where
  "flush h =
     (case fileMap h (largestID h) of
        None \<Rightarrow> (if buffer h = [] then Inr h else Inl (IOError ''invalid argument''))
      | Some f \<Rightarrow> (if buffer h = [] then Inr h
          else Inr (h\<lparr>fileMap := (fileMap h)(largestID h \<mapsto> file_Write f (buffer h)), buffer := []\<rparr>)))"

definition readAtWithBuf :: "HPFile \<Rightarrow> nat \<Rightarrow> nat \<Rightarrow> (bytes \<times> HPFile) outcome" where
  "readAtWithBuf h n off =
     (let fileID = off div blockSize h; pos = off mod blockSize h
      in case fileMap h fileID of
           None \<Rightarrow> Inl (IOError ''Can not find the file'')
         | Some f \<Rightarrow>
             (case TryRead (preReader h) fileID pos n of
                Some buf \<Rightarrow> Inr (buf, h)
              | None \<Rightarrow>
                  if n \<ge> PreReadBufSize \<or> pos + n > blockSize h then
                    bindE (file_ReadAt f n pos) (\<lambda>buf. Inr (buf, h))
                  else if length (pr_buf (preReader h)) < PreReadBufSize then Inl IndexOutOfRange
                  else
                    (let pr = GetToFill (preReader h) fileID pos (pos + PreReadBufSize) f
                     in case TryRead pr fileID pos n of
                          None \<Rightarrow> Inl (Panic ''Cannot read data just fetched'')
                        | Some buf \<Rightarrow> Inr (buf, h\<lparr>preReader := pr\<rparr>))))"

definition ReadAt :: "HPFile \<Rightarrow> nat \<Rightarrow> nat \<Rightarrow> bool \<Rightarrow> (bytes \<times> HPFile) outcome" where
  "ReadAt h n off withBuf =
     (if withBuf then readAtWithBuf h n off
      else
        (case fileMap h (off div blockSize h) of
           None \<Rightarrow> Inl (IOError ''Can not find the file'')
         | Some f \<Rightarrow> bindE (file_ReadAt f n (off mod blockSize h)) (\<lambda>buf. Inr (buf, h))))"

text \<open>
  A direct read at an int64 offset that may be negative: Go's division rounds to zero, and the
  operating system refuses a negative position.
\<close>

definition ReadAt_int :: "HPFile \<Rightarrow> nat \<Rightarrow> int \<Rightarrow> (bytes \<times> HPFile) outcome" where
  "ReadAt_int h n off =
     (let fileID = off sdiv int (blockSize h); pos = off smod int (blockSize h)
      in case (if fileID < 0 then None else fileMap h (nat fileID)) of
           None \<Rightarrow> Inl (IOError ''Can not find the file'')
         | Some f \<Rightarrow> if pos < 0 then Inl (IOError ''negative offset'')
             else bindE (file_ReadAt f n (nat pos)) (\<lambda>buf. Inr (buf, h)))"

lemma signed_division_nat: "int m sdiv int n = int (m div n)" "int m smod int n = int (m mod n)"
proof -
  show d: "int m sdiv int n = int (m div n)"
    by (cases "m = 0"; cases "n = 0") (simp_all add: signed_divide_int_def zdiv_int)
  have "int m = int m sdiv int n * int n + int m smod int n" by (simp add: sdiv_mult_smod_eq)
  moreover have "int m = int (m div n) * int n + int (m mod n)" by (simp flip: of_nat_mult of_nat_add)
  ultimately show "int m smod int n = int (m mod n)" unfolding d by linarith
qed

lemma ReadAt_int_nat [simp]: "ReadAt_int h n (int off) = ReadAt h n off False"
  by (simp add: ReadAt_int_def ReadAt_def signed_division_nat Let_def split: option.split)

lemma ReadAt_int_negative:
  assumes "off < 0"
  shows "\<exists>err. ReadAt_int h n off = Inl err"
proof -
  let ?b = "int (blockSize h)"
  have "0 \<le> off sdiv ?b \<Longrightarrow> 0 \<le> off sdiv ?b * ?b" by simp
  then have "off sdiv ?b < 0 \<or> off smod ?b < 0" using assms sdiv_mult_smod_eq [of off ?b] by linarith
  then show ?thesis by (auto simp: ReadAt_int_def Let_def split: option.splits)
qed

text \<open>One round of the loop of \<open>Append\<close> over the slices to write.\<close>

definition Append_buf :: "bytes \<Rightarrow> HPFile \<Rightarrow> HPFile outcome" where
  "Append_buf buf h =
     (if length buf > bufferSize h then Inl (Panic ''buf is too large'')
      else
        (let h = h\<lparr>latestFileSize := latestFileSize h + length buf\<rparr>
         in if length (buffer h) + length buf > bufferSize h then
              (let extraBytes = length (buffer h) + length buf - bufferSize h;
                   full = buffer h @ take (length buf - extraBytes) buf
               in case fileMap h (largestID h) of
                    None \<Rightarrow> Inl (IOError ''invalid argument'')
                  | Some f \<Rightarrow> Inr (h\<lparr>fileMap := (fileMap h)(largestID h \<mapsto> file_Write f full),
                        buffer := drop (length buf - extraBytes) buf\<rparr>))
            else Inr (h\<lparr>buffer := buffer h @ buf\<rparr>)))"

text \<open>
  Opening the next block file when the current one is full: the bytes written past its end are
  mirrored by as many zero bytes at the start of the next file. O_CREATE keeps an existing file.
\<close>

definition Append_next :: "HPFile \<Rightarrow> HPFile outcome" where
  "Append_next h =
     (if latestFileSize h < blockSize h then Inr h
      else
        (let overflow = latestFileSize h - blockSize h
         in bindE (flush h) (\<lambda>h.
              if overflow > bufferSize h then Inl IndexOutOfRange
              else
                (let f = (case fileMap h (largestID h + 1) of
                       None \<Rightarrow> \<lparr>contents = [], offset = 0\<rparr>
                     | Some f \<Rightarrow> f\<lparr>offset := 0\<rparr>)
                 in Inr (h\<lparr>largestID := largestID h + 1,
                       fileMap := (fileMap h)(largestID h + 1 \<mapsto> f),
                       buffer := replicate overflow 0, latestFileSize := overflow\<rparr>)))))"

definition Append :: "HPFile \<Rightarrow> bytes list \<Rightarrow> (nat \<times> HPFile) outcome" where
  "Append h bufList =
     (let startPos = largestID h * blockSize h + latestFileSize h
      in bindE (foldE Append_buf bufList h) (\<lambda>h.
         bindE (Append_next h) (\<lambda>h. Inr (startPos, h))))"

text \<open>Deleting the block files in front of the one that holds \<open>off\<close>.\<close>

definition PruneHead :: "HPFile \<Rightarrow> nat \<Rightarrow> HPFile" where
  "PruneHead h off =
     (let fileID = off div blockSize h
      in h\<lparr>fileMap := (\<lambda>i. if i < fileID then None else fileMap h i)\<rparr>)"

section \<open>The interface of an append-only log\<close>

text \<open>
  What the entry file and the Merkle-tree file rely on: an append returns the size of the log as the
  position of the record and extends the log by the record; a record stays stored under later appends.
  The lemmas about runs of appends are proved once here.
\<close>

definition append1 :: "('h \<Rightarrow> bytes list \<Rightarrow> (nat \<times> 'h) outcome) \<Rightarrow> bytes list \<Rightarrow> 'h \<Rightarrow> 'h outcome" where
  "append1 app r h = bindE (app h r) (\<lambda>(p, h'). Inr h')"

text \<open>A run of appends with the positions that they return.\<close>

fun appendAll :: "('h \<Rightarrow> bytes list \<Rightarrow> (nat \<times> 'h) outcome) \<Rightarrow> bytes list list \<Rightarrow> 'h \<Rightarrow> (nat list \<times> 'h) outcome" where
  "appendAll app [] h = Inr ([], h)"
| "appendAll app (r # rs) h = bindE (app h r) (\<lambda>(p, h). bindE (appendAll app rs h) (\<lambda>(ps, h). Inr (p # ps, h)))"

locale append_log =
  fixes inv :: "'h \<Rightarrow> bool"
    and log_size :: "'h \<Rightarrow> nat"
    and fits :: "'h \<Rightarrow> bytes list \<Rightarrow> bool"
    and append :: "'h \<Rightarrow> bytes list \<Rightarrow> (nat \<times> 'h) outcome"
    and stored :: "'h \<Rightarrow> nat \<Rightarrow> bytes \<Rightarrow> bool"
  assumes append_ok: "inv h \<Longrightarrow> fits h r \<Longrightarrow> \<exists>h'. append h r = Inr (log_size h, h') \<and> inv h' \<and>
      log_size h' = log_size h + length (concat r) \<and> stored h' (log_size h) (concat r) \<and>
      (\<forall>r'. fits h' r' = fits h r')"
    and append_keeps: "inv h \<Longrightarrow> fits h r \<Longrightarrow> append h r = Inr (p, h') \<Longrightarrow> stored h q d \<Longrightarrow> stored h' q d"
begin

lemma append1_ok:
  assumes "inv h" and "fits h r"
  shows "\<exists>h'. append1 append r h = Inr h' \<and> inv h' \<and> log_size h' = log_size h + length (concat r) \<and>
    stored h' (log_size h) (concat r) \<and> (\<forall>r'. fits h' r' = fits h r') \<and>
    (\<forall>q d. stored h q d \<longrightarrow> stored h' q d)"
proof -
  from append_ok [OF assms] obtain h' where "append h r = Inr (log_size h, h')" "inv h'"
    "log_size h' = log_size h + length (concat r)" "stored h' (log_size h) (concat r)"
    "\<forall>r'. fits h' r' = fits h r'" by blast
  with append_keeps [OF assms] show ?thesis by (auto simp: append1_def)
qed

text \<open>The position of the \<open>i\<close>-th record of a run that starts at \<open>s\<close>.\<close>

lemma appends_ok:
  "inv h \<Longrightarrow> \<forall>r \<in> set rs. fits h r \<Longrightarrow>
   \<exists>h'. foldE (append1 append) rs h = Inr h' \<and> inv h' \<and>
     log_size h' = log_size h + length (concat (concat rs)) \<and>
     (\<forall>r'. fits h' r' = fits h r') \<and> (\<forall>q d. stored h q d \<longrightarrow> stored h' q d) \<and>
     (\<forall>i < length rs. stored h' (log_size h + length (concat (concat (take i rs)))) (concat (rs ! i)))"
proof (induction rs arbitrary: h)
  case Nil
  then show ?case by auto
next
  case (Cons r rs)
  from append1_ok [of h r] Cons.prems obtain h1 where h1: "append1 append r h = Inr h1" "inv h1"
    "log_size h1 = log_size h + length (concat r)" "stored h1 (log_size h) (concat r)"
    "\<forall>r'. fits h1 r' = fits h r'" "\<forall>q d. stored h q d \<longrightarrow> stored h1 q d" by auto
  from Cons.IH [of h1] h1 Cons.prems obtain h' where h': "foldE (append1 append) rs h1 = Inr h'" "inv h'"
    "log_size h' = log_size h1 + length (concat (concat rs))" "\<forall>r'. fits h' r' = fits h1 r'"
    "\<forall>q d. stored h1 q d \<longrightarrow> stored h' q d"
    "\<forall>i < length rs. stored h' (log_size h1 + length (concat (concat (take i rs)))) (concat (rs ! i))"
    by auto
  have "stored h' (log_size h + length (concat (concat (take i (r # rs))))) (concat ((r # rs) ! i))"
    if "i < length (r # rs)" for i
    using h1 h' that by (cases i) (auto simp: add.assoc)
  with h1 h' show ?case by (intro exI [of _ h']) auto
qed

lemma appendAll_ok:
  assumes "inv h" and "\<forall>r \<in> set rs. fits h r"
  shows "\<exists>h'. foldE (append1 append) rs h = Inr h' \<and>
    appendAll append rs h = Inr (map (\<lambda>i. log_size h + length (concat (concat (take i rs)))) [0 ..< length rs], h')"
  using assms
proof (induction rs arbitrary: h)
  case (Cons r rs)
  from append_ok [of h r] Cons.prems obtain h1 where h1: "append h r = Inr (log_size h, h1)" "inv h1"
    "log_size h1 = log_size h + length (concat r)" "\<forall>r'. fits h1 r' = fits h r'" by auto
  from Cons.IH [of h1] h1 Cons.prems obtain h' where h': "foldE (append1 append) rs h1 = Inr h'"
    "appendAll append rs h1 = Inr (map (\<lambda>i. log_size h1 + length (concat (concat (take i rs)))) [0 ..< length rs], h')" by auto
  have "[0 ..< length (r # rs)] = 0 # map Suc [0 ..< length rs]" unfolding map_Suc_upt by (simp only: upt_conv_Cons list.size) simp
  moreover have "append1 append r h = Inr h1" using h1(1) by (simp add: append1_def)
  ultimately show ?case using h1(1,3) h' by (simp add: comp_def add.assoc del: upt_Suc)
qed simp

end

section \<open>The contents of the block files\<close>

text \<open>The bytes of a block file, including those still in the write buffer.\<close>

definition stream :: "HPFile \<Rightarrow> nat \<Rightarrow> bytes option" where
  "stream h i = map_option (\<lambda>f. contents f @ (if i = largestID h then buffer h else [])) (fileMap h i)"

definition pre_ok :: "HPFile \<Rightarrow> bool" where
  "pre_ok h \<longleftrightarrow> length (pr_buf (preReader h)) = PreReadBufSize \<and>
     (\<forall>i f. pr_fileID (preReader h) = int i \<longrightarrow> fileMap h i = Some f \<longrightarrow>
       pr_end (preReader h) \<le> length (contents f) \<and>
       pr_end (preReader h) \<le> pr_start (preReader h) + PreReadBufSize \<and>
       subslice (pr_buf (preReader h)) 0 (pr_end (preReader h) - pr_start (preReader h)) =
       subslice (contents f) (pr_start (preReader h)) (pr_end (preReader h)))"

definition hp_ok :: "HPFile \<Rightarrow> bool" where
  "hp_ok h \<longleftrightarrow> 0 < bufferSize h \<and> bufferSize h \<le> blockSize h \<and> length (buffer h) \<le> bufferSize h \<and>
     (\<exists>f. fileMap h (largestID h) = Some f \<and> offset f = length (contents f) \<and>
        length (contents f) + length (buffer h) = latestFileSize h) \<and>
     (\<forall>i > largestID h. fileMap h i = None)"

definition hp_inv :: "HPFile \<Rightarrow> bool" where
  "hp_inv h \<longleftrightarrow> hp_ok h \<and> latestFileSize h < blockSize h"

text \<open>The record \<open>d\<close> is in the file at the virtual position \<open>p\<close>.\<close>

definition stored :: "HPFile \<Rightarrow> nat \<Rightarrow> bytes \<Rightarrow> bool" where
  "stored h p d \<longleftrightarrow> (\<exists>c. stream h (p div blockSize h) = Some c \<and>
     p mod blockSize h + length d \<le> length c \<and>
     subslice c (p mod blockSize h) (p mod blockSize h + length d) = d)"

text \<open>A record is at most as long as the write buffer.\<close>

definition fits :: "HPFile \<Rightarrow> bytes list \<Rightarrow> bool" where
  "fits h r \<longleftrightarrow> length (concat r) \<le> bufferSize h"

lemma stored_preReader [simp]: "stored (h\<lparr>preReader := pr\<rparr>) = stored h"
  by (simp add: stored_def stream_def fun_eq_iff)

lemma file_Write_end:
  "offset f = length (contents f) \<Longrightarrow>
   file_Write f b = \<lparr>contents = contents f @ b, offset = length (contents f) + length b\<rparr>"
  by (simp add: file_Write_def)

lemma flush_ok:
  assumes "hp_ok h"
  shows "\<exists>h'. flush h = Inr h' \<and> hp_ok h' \<and> buffer h' = [] \<and> stream h' = stream h \<and>
    largestID h' = largestID h \<and> blockSize h' = blockSize h \<and> bufferSize h' = bufferSize h \<and>
    latestFileSize h' = latestFileSize h"
proof -
  from assms obtain f where f: "fileMap h (largestID h) = Some f" "offset f = length (contents f)"
    "length (contents f) + length (buffer h) = latestFileSize h" by (auto simp: hp_ok_def)
  show ?thesis
  proof (cases "buffer h = []")
    case True
    with f assms show ?thesis by (simp add: flush_def)
  next
    case False
    with f assms show ?thesis
      by (auto simp: flush_def hp_ok_def stream_def file_Write_end fun_eq_iff)
  qed
qed

lemma Append_buf_ok:
  assumes ok: "hp_ok h" and len: "length buf \<le> bufferSize h"
  shows "\<exists>h'. Append_buf buf h = Inr h' \<and> hp_ok h' \<and>
    stream h' = (stream h)(largestID h \<mapsto> the (stream h (largestID h)) @ buf) \<and>
    largestID h' = largestID h \<and> blockSize h' = blockSize h \<and> bufferSize h' = bufferSize h \<and>
    latestFileSize h' = latestFileSize h + length buf"
proof -
  from ok obtain f where f: "fileMap h (largestID h) = Some f" "offset f = length (contents f)"
    "length (contents f) + length (buffer h) = latestFileSize h" by (auto simp: hp_ok_def)
  have lb: "length (buffer h) \<le> bufferSize h" using ok by (simp add: hp_ok_def)
  show ?thesis
  proof (cases "length (buffer h) + length buf > bufferSize h")
    case True
    let ?e = "length (buffer h) + length buf - bufferSize h"
    have "take (length buf - ?e) buf @ drop (length buf - ?e) buf = buf" by simp
    with True f ok len lb show ?thesis
      by (auto simp: Append_buf_def Let_def hp_ok_def stream_def file_Write_end fun_eq_iff)
  next
    case False
    with f ok len show ?thesis
      by (auto simp: Append_buf_def Let_def hp_ok_def stream_def fun_eq_iff)
  qed
qed

lemma Append_bufs_ok:
  "hp_ok h \<Longrightarrow> \<forall>b \<in> set bufs. length b \<le> bufferSize h \<Longrightarrow>
   \<exists>h'. foldE Append_buf bufs h = Inr h' \<and> hp_ok h' \<and>
    stream h' = (stream h)(largestID h \<mapsto> the (stream h (largestID h)) @ concat bufs) \<and>
    largestID h' = largestID h \<and> blockSize h' = blockSize h \<and> bufferSize h' = bufferSize h \<and>
    latestFileSize h' = latestFileSize h + length (concat bufs)"
proof (induction bufs arbitrary: h)
  case Nil
  then have "stream h (largestID h) \<noteq> None" by (auto simp: hp_ok_def stream_def)
  with Nil show ?case by (auto simp: fun_eq_iff)
next
  case (Cons b bufs)
  from Append_buf_ok [of h b] Cons.prems obtain h1 where h1: "Append_buf b h = Inr h1" "hp_ok h1"
    "stream h1 = (stream h)(largestID h \<mapsto> the (stream h (largestID h)) @ b)"
    "largestID h1 = largestID h" "blockSize h1 = blockSize h" "bufferSize h1 = bufferSize h"
    "latestFileSize h1 = latestFileSize h + length b" by auto
  have "\<forall>b \<in> set bufs. length b \<le> bufferSize h1" using Cons.prems h1(6) by simp
  from Cons.IH [OF h1(2) this] obtain h' where "foldE Append_buf bufs h1 = Inr h'" "hp_ok h'"
    "stream h' = (stream h1)(largestID h1 \<mapsto> the (stream h1 (largestID h1)) @ concat bufs)"
    "largestID h' = largestID h1" "blockSize h' = blockSize h1" "bufferSize h' = bufferSize h1"
    "latestFileSize h' = latestFileSize h1 + length (concat bufs)" by blast
  with h1 show ?case by (simp add: add.assoc fun_eq_iff)
qed

lemma Append_next_ok:
  assumes ok: "hp_ok h" and small: "latestFileSize h < blockSize h + bufferSize h"
  shows "\<exists>h'. Append_next h = Inr h' \<and> hp_inv h' \<and>
    (\<forall>i \<le> largestID h. stream h' i = stream h i) \<and> blockSize h' = blockSize h \<and>
    bufferSize h' = bufferSize h \<and> Size h' = Size h"
proof (cases "latestFileSize h < blockSize h")
  case True
  with ok show ?thesis by (simp add: Append_next_def hp_inv_def)
next
  case False
  from flush_ok [OF ok] obtain h1 where h1: "flush h = Inr h1" "hp_ok h1" "buffer h1 = []"
    "stream h1 = stream h" "largestID h1 = largestID h" "blockSize h1 = blockSize h"
    "bufferSize h1 = bufferSize h" "latestFileSize h1 = latestFileSize h" by auto
  from h1(2) have new: "fileMap h1 (largestID h1 + 1) = None" by (simp add: hp_ok_def)
  from h1(3) have streams: "stream h1 i = map_option contents (fileMap h1 i)" for i
    by (simp add: stream_def)
  let ?o = "latestFileSize h - blockSize h"
  let ?h = "h1\<lparr>largestID := largestID h1 + 1,
    fileMap := (fileMap h1)(largestID h1 + 1 \<mapsto> \<lparr>contents = [], offset = 0\<rparr>),
    buffer := replicate ?o 0, latestFileSize := ?o\<rparr>"
  have "Append_next h = Inr ?h"
    using False small h1 new by (simp add: Append_next_def Let_def)
  moreover have "hp_inv ?h"
    using h1(2) h1(6,7) small by (auto simp: hp_inv_def hp_ok_def)
  moreover have "stream ?h i = stream h i" if "i \<le> largestID h" for i
    using that h1(5) streams [of i] by (simp add: stream_def flip: h1(4))
  moreover have "Size ?h = Size h"
    using False h1 by (simp add: Size_def)
  ultimately show ?thesis using h1 by (intro exI [of _ ?h]) simp
qed

lemma stream_last: "hp_ok h \<Longrightarrow> \<exists>c. stream h (largestID h) = Some c \<and> length c = latestFileSize h"
  by (auto simp: hp_ok_def stream_def)

lemma Append_ok:
  assumes inv: "hp_inv h" and fits: "fits h r"
  shows "\<exists>h'. Append h r = Inr (Size h, h') \<and> hp_inv h' \<and> Size h' = Size h + length (concat r) \<and>
    blockSize h' = blockSize h \<and> bufferSize h' = bufferSize h \<and>
    stream h' (largestID h) = Some (the (stream h (largestID h)) @ concat r) \<and>
    (\<forall>i < largestID h. stream h' i = stream h i)"
proof -
  have ok: "hp_ok h" and small: "latestFileSize h < blockSize h" using inv by (auto simp: hp_inv_def)
  have "length b \<le> bufferSize h" if "b \<in> set r" for b
    using fits that member_le_sum_list [of "length b" "map length r"]
    by (auto simp: fits_def length_concat)
  with Append_bufs_ok [OF ok, of r] obtain h1 where h1: "foldE Append_buf r h = Inr h1" "hp_ok h1"
    "stream h1 = (stream h)(largestID h \<mapsto> the (stream h (largestID h)) @ concat r)"
    "largestID h1 = largestID h" "blockSize h1 = blockSize h" "bufferSize h1 = bufferSize h"
    "latestFileSize h1 = latestFileSize h + length (concat r)" by auto
  have "latestFileSize h1 < blockSize h1 + bufferSize h1"
    using small fits h1 by (simp add: fits_def)
  from Append_next_ok [OF h1(2) this] obtain h2 where h2: "Append_next h1 = Inr h2" "hp_inv h2"
    "\<forall>i \<le> largestID h1. stream h2 i = stream h1 i" "blockSize h2 = blockSize h1"
    "bufferSize h2 = bufferSize h1" "Size h2 = Size h1" by auto
  from h1 h2 show ?thesis
    by (auto simp: Append_def Let_def Size_def)
qed

lemma Size_div: "hp_inv h \<Longrightarrow> Size h div blockSize h = largestID h \<and> Size h mod blockSize h = latestFileSize h"
  by (auto simp: hp_inv_def Size_def)

lemma Append_blockSize:
  assumes "Append h r = Inr (p, h')"
  shows "blockSize h' = blockSize h"
proof -
  from assms obtain h1 where h1: "foldE Append_buf r h = Inr h1" "Append_next h1 = Inr h'"
    by (auto simp: Append_def Let_def outcome_simps split: sum.splits)
  have "blockSize h1 = blockSize h"
    by (rule foldE_invariant [OF h1(1), of "\<lambda>k. blockSize k = blockSize h"])
      (auto simp: Append_buf_def Let_def split: if_splits option.splits)
  moreover have "blockSize h' = blockSize h1"
    using h1(2) by (auto simp: Append_next_def flush_def Let_def outcome_simps split: if_splits option.splits sum.splits)
  ultimately show ?thesis by simp
qed

lemma Append_stores:
  assumes "hp_inv h" and "fits h r" and "Append h r = Inr (p, h')"
  shows "stored h' (Size h) (concat r)"
proof -
  from stream_last [of h] assms(1) obtain c where c: "stream h (largestID h) = Some c"
    "length c = latestFileSize h" by (auto simp: hp_inv_def)
  from Append_ok [OF assms(1,2)] assms(3) c have "stream h' (largestID h) = Some (c @ concat r)"
    "blockSize h' = blockSize h" by auto
  with c Size_div [OF assms(1)] show ?thesis
    by (simp add: stored_def subslice_append_end)
qed

lemma stored_prefix:
  assumes "stored h p d" and "blockSize h' = blockSize h"
    and "\<And>c. stream h (p div blockSize h) = Some c \<Longrightarrow> \<exists>e. stream h' (p div blockSize h) = Some (c @ e)"
  shows "stored h' p d"
  using assms by (fastforce simp: stored_def subslice_def)

lemma stored_appendD:
  assumes "stored h p (d @ e)"
  shows "stored h p d"
proof -
  from assms obtain c where c: "stream h (p div blockSize h) = Some c"
    "p mod blockSize h + length (d @ e) \<le> length c"
    "subslice c (p mod blockSize h) (p mod blockSize h + length (d @ e)) = d @ e"
    unfolding stored_def by blast
  have "take (length d) (subslice c (p mod blockSize h) (p mod blockSize h + length (d @ e))) = d"
    unfolding c(3) by simp
  with c(1,2) show ?thesis by (simp add: stored_def subslice_def min_def)
qed

lemma Append_keeps:
  assumes "hp_inv h" and "fits h r" and "Append h r = Inr (p, h')" and "stored h q d"
  shows "stored h' q d"
proof (rule stored_prefix [OF assms(4)])
  from Append_ok [OF assms(1,2)] assms(3) have h': "blockSize h' = blockSize h"
    "stream h' (largestID h) = Some (the (stream h (largestID h)) @ concat r)"
    "\<forall>i < largestID h. stream h' i = stream h i" by auto
  then show "blockSize h' = blockSize h" by simp
  fix c assume c: "stream h (q div blockSize h) = Some c"
  have "q div blockSize h \<le> largestID h"
  proof (rule ccontr)
    assume "\<not> q div blockSize h \<le> largestID h"
    with assms(1) have "fileMap h (q div blockSize h) = None" by (auto simp: hp_inv_def hp_ok_def)
    with c show False by (simp add: stream_def)
  qed
  then consider "q div blockSize h < largestID h" | "q div blockSize h = largestID h" by linarith
  then show "\<exists>e. stream h' (q div blockSize h) = Some (c @ e)"
  proof cases
    case 1
    with h'(3) c show ?thesis by (intro exI [of _ "[]"]) simp
  next
    case 2
    with h'(2) c show ?thesis by auto
  qed
qed

interpretation hp: append_log hp_inv Size fits Append stored
proof
  fix h r assume "hp_inv h" "fits h r"
  then show "\<exists>h'. Append h r = Inr (Size h, h') \<and> hp_inv h' \<and> Size h' = Size h + length (concat r) \<and>
      stored h' (Size h) (concat r) \<and> (\<forall>r'. fits h' r' = fits h r')"
    using Append_ok [of h r] Append_stores [of h r] by (auto simp: fits_def)
next
  fix h r p h' q d assume "hp_inv h" "fits h r" "Append h r = Inr (p, h')" "stored h q d"
  then show "stored h' q d" by (rule Append_keeps)
qed

section \<open>Reading\<close>

text \<open>The file has been flushed: what is stored is in the block files.\<close>

lemma stored_on_disk:
  assumes "stored h p d" and "buffer h = []"
  shows "\<exists>f. fileMap h (p div blockSize h) = Some f \<and>
    p mod blockSize h + length d \<le> length (contents f) \<and>
    subslice (contents f) (p mod blockSize h) (p mod blockSize h + length d) = d"
  using assms by (auto simp: stored_def stream_def cong: if_cong split: if_splits)

lemma subslice_subslice:
  "k + n \<le> j - i \<Longrightarrow> subslice (subslice xs i j) k (k + n) = subslice xs (i + k) (i + k + n)"
  by (simp add: subslice_def drop_take min_def add.commute)

lemma TryRead_sound:
  assumes pre: "pre_ok h" and f: "fileMap h i = Some f" and r: "TryRead (preReader h) i pos n = Some buf"
  shows "buf = subslice (contents f) pos (pos + n) \<and> pos + n < length (contents f)"
proof -
  let ?pr = "preReader h"
  from r have c: "int i = pr_fileID ?pr" "pr_start ?pr \<le> pos" "pos + n < pr_end ?pr"
    and buf: "buf = subslice (pr_buf ?pr) (pos - pr_start ?pr) (pos - pr_start ?pr + n)"
    by (auto simp: TryRead_def split: if_splits)
  from c(1) have id: "pr_fileID ?pr = int i" by simp
  from pre f id have w: "pr_end ?pr \<le> length (contents f)"
    "subslice (pr_buf ?pr) 0 (pr_end ?pr - pr_start ?pr) = subslice (contents f) (pr_start ?pr) (pr_end ?pr)"
    by (auto simp: pre_ok_def)
  let ?k = "pos - pr_start ?pr"
  have "buf = subslice (subslice (pr_buf ?pr) 0 (pr_end ?pr - pr_start ?pr)) ?k (?k + n)"
    unfolding buf using c by (subst subslice_subslice) auto
  also have "\<dots> = subslice (contents f) pos (pos + n)"
    unfolding w(2) using c by (subst subslice_subslice) auto
  finally show ?thesis using c w by simp
qed

lemma GetToFill_pre_ok:
  assumes "pre_ok h" and "fileMap h i = Some f" and "pos \<le> length (contents f)"
  shows "pre_ok (h\<lparr>preReader := GetToFill (preReader h) i pos (pos + PreReadBufSize) f\<rparr>)"
  using assms by (auto simp: pre_ok_def GetToFill_def Let_def copy_at_def subslice_def min_def)

lemma file_ReadAt_stored:
  "pos + n \<le> length (contents f) \<Longrightarrow> file_ReadAt f n pos = Inr (subslice (contents f) pos (pos + n))"
  by (simp add: file_ReadAt_def)

lemma ReadAt_direct:
  assumes "stored h p d" and "buffer h = []"
  shows "ReadAt h (length d) p False = Inr (d, h)"
  using stored_on_disk [OF assms] by (auto simp: ReadAt_def file_ReadAt_stored)

text \<open>
  A buffered read of a record that does not end at the very end of its block file. At the very end
  the strict comparison in \<open>TryRead\<close> rejects what was just fetched.
\<close>

lemma readAtWithBuf_ok:
  assumes st: "stored h p d" and fl: "buffer h = []" and pre: "pre_ok h"
    and more: "stored h p (d @ [x])"
  shows "\<exists>pr. readAtWithBuf h (length d) p = Inr (d, h\<lparr>preReader := pr\<rparr>) \<and> pre_ok (h\<lparr>preReader := pr\<rparr>)"
proof -
  let ?i = "p div blockSize h" and ?pos = "p mod blockSize h"
  from stored_on_disk [OF st fl] obtain f where f: "fileMap h ?i = Some f"
    "?pos + length d \<le> length (contents f)" "subslice (contents f) ?pos (?pos + length d) = d" by blast
  from stored_on_disk [OF more fl] f(1) have less: "?pos + length d < length (contents f)" by auto
  have lb: "length (pr_buf (preReader h)) = PreReadBufSize" using pre by (simp add: pre_ok_def)
  show ?thesis
  proof (cases "TryRead (preReader h) ?i ?pos (length d)")
    case (Some buf)
    with TryRead_sound [OF pre f(1) Some] f pre show ?thesis
      by (intro exI [of _ "preReader h"]) (simp add: readAtWithBuf_def Let_def)
  next
    case None
    let ?pr = "GetToFill (preReader h) ?i ?pos (?pos + PreReadBufSize) f"
    show ?thesis
    proof (cases "length d \<ge> PreReadBufSize \<or> ?pos + length d > blockSize h")
      case True
      with None f pre show ?thesis
        by (intro exI [of _ "preReader h"]) (simp add: readAtWithBuf_def Let_def file_ReadAt_stored)
    next
      case False
      have "pr_end ?pr > ?pos + length d" using False less
        by (auto simp: GetToFill_def Let_def)
      then obtain buf where r: "TryRead ?pr ?i ?pos (length d) = Some buf"
        by (simp add: TryRead_def GetToFill_def Let_def)
      have ok: "pre_ok (h\<lparr>preReader := ?pr\<rparr>)"
        using f(2) by (intro GetToFill_pre_ok [OF pre f(1)]) simp
      have "buf = d" using TryRead_sound [OF ok, of ?i f ?pos "length d" buf] r f by simp
      with None False f r ok lb show ?thesis
        by (intro exI [of _ ?pr]) (simp add: readAtWithBuf_def Let_def)
    qed
  qed
qed

section \<open>Pruning\<close>

lemma PruneHead_stored:
  assumes "stored h p d" and "off \<le> p"
  shows "stored (PruneHead h off) p d"
proof -
  have "off div blockSize h \<le> p div blockSize h" using assms(2) by (rule div_le_mono)
  with assms(1) show ?thesis by (auto simp: stored_def stream_def PruneHead_def Let_def)
qed

lemma PruneHead_inv:
  assumes "hp_inv h" and "off < Size h"
  shows "hp_inv (PruneHead h off)"
proof -
  have "off div blockSize h \<le> Size h div blockSize h" using assms(2) by (intro div_le_mono) simp
  with assms(1) Size_div [OF assms(1)] show ?thesis
    by (auto simp: hp_inv_def hp_ok_def PruneHead_def Let_def)
qed

section \<open>Properties\<close>

text \<open>
  C25: appending a run of records to a well-formed file and flushing it never fails: the appends return the
  offsets at which the records follow each other, and then every record reads back at the position that
  its append returned, whatever the number of buffer flushes and block files crossed.
\<close>

theorem Append_flush_ReadAt:
  assumes "hp_inv h" and "\<forall>r \<in> set rs. length (concat r) \<le> bufferSize h"
  shows "\<exists>ps h1 h2. appendAll Append rs h = Inr (ps, h1) \<and> flush h1 = Inr h2 \<and>
    Size h2 = Size h + length (concat (concat rs)) \<and> length ps = length rs \<and>
    (\<forall>i < length rs. ps ! i = Size h + length (concat (concat (take i rs))) \<and>
       ReadAt h2 (length (concat (rs ! i))) (ps ! i) False = Inr (concat (rs ! i), h2))"
proof -
  from assms(2) have fits: "\<forall>r \<in> set rs. fits h r" by (simp add: fits_def)
  from hp.appends_ok [OF assms(1) fits] hp.appendAll_ok [OF assms(1) fits] obtain h1 where h1:
    "appendAll Append rs h = Inr (map (\<lambda>i. Size h + length (concat (concat (take i rs)))) [0 ..< length rs], h1)"
    "hp_inv h1" "Size h1 = Size h + length (concat (concat rs))"
    "\<forall>i < length rs. stored h1 (Size h + length (concat (concat (take i rs)))) (concat (rs ! i))"
    by auto
  from h1(2) flush_ok [of h1] obtain h2 where h2: "flush h1 = Inr h2" "buffer h2 = []"
    "stream h2 = stream h1" "blockSize h2 = blockSize h1" "Size h2 = Size h1"
    by (auto simp: hp_inv_def Size_def)
  from h2 have "stored h2 p d = stored h1 p d" for p d by (simp add: stored_def)
  with h1 h2 ReadAt_direct [of h2] show ?thesis by auto
qed

definition hp_empty :: HPFile where
  "hp_empty = \<lparr>fileMap = [0 \<mapsto> \<lparr>contents = [], offset = 0\<rparr>], blockSize = 8, largestID = 0,
     latestFileSize = 0, bufferSize = 4, buffer = [], preReader = PreReader_zero\<rparr>"

lemma hp_empty_inv: "hp_inv hp_empty"
  by (simp add: hp_inv_def hp_ok_def hp_empty_def)

lemma hp_empty_NewHPFile: "NewHPFile 4 8 [] = Inr hp_empty"
  by (simp add: NewHPFile_def hp_empty_def)

theorem Append_flush_ReadAt_witness:
  "\<exists>h1 h2. appendAll Append [[[1,2],[3]], [[4,5,6]], [[7,8,9,10]], [[11]]] hp_empty = Inr ([0, 3, 6, 10], h1) \<and>
    flush h1 = Inr h2 \<and> Size h2 = 11 \<and>
    ReadAt h2 3 3 False = Inr ([4,5,6], h2) \<and> ReadAt h2 4 6 False = Inr ([7,8,9,10], h2) \<and>
    ReadAt h2 1 10 False = Inr ([11], h2)"
proof -
  let ?rs = "[[[1,2],[3]], [[4,5,6]], [[7,8,9,10]], [[11]]] :: bytes list list"
  have S: "Size hp_empty = 0" "bufferSize hp_empty = 4" by (simp_all add: hp_empty_def Size_def)
  have fit: "\<forall>r \<in> set ?rs. length (concat r) \<le> bufferSize hp_empty" by (simp add: S)
  from Append_flush_ReadAt [OF hp_empty_inv fit, unfolded S(1) add_0] obtain ps h1 h2
    where h: "appendAll Append ?rs hp_empty = Inr (ps, h1)" "flush h1 = Inr h2" "Size h2 = length (concat (concat ?rs))" "length ps = length ?rs"
      and r: "\<forall>i < length ?rs. ps ! i = length (concat (concat (take i ?rs))) \<and>
        ReadAt h2 (length (concat (?rs ! i))) (ps ! i) False = Inr (concat (?rs ! i), h2)"
    by blast
  from h(4) obtain p q u v where ps: "ps = [p, q, u, v]" by (auto simp: length_Suc_conv)
  then have "ps = [0, 3, 6, 10]"
    using r [rule_format, of 0] r [rule_format, of 1] r [rule_format, of 2] r [rule_format, of 3] by (simp add: numeral_eq_Suc)
  moreover have "ReadAt h2 3 3 False = Inr ([4,5,6], h2)" "ReadAt h2 4 6 False = Inr ([7,8,9,10], h2)"
    "ReadAt h2 1 10 False = Inr ([11], h2)"
    using r [rule_format, of 1] r [rule_format, of 2] r [rule_format, of 3]
    by (auto simp: numeral_eq_Suc)
  ultimately show ?thesis using h by simp
qed

text \<open>
  C26: the read-ahead buffer is transparent. On a flushed file whose read-ahead buffer agrees with
  the block files, a buffered read of a record that is followed by at least one more byte in its
  block file returns the same bytes as a direct read, and the buffer agrees with the files afterwards.
\<close>

theorem readAtWithBuf_transparent:
  assumes "stored h p (d @ [x])" and "buffer h = []" and "pre_ok h"
  shows "\<exists>h'. ReadAt h (length d) p True = Inr (d, h') \<and> ReadAt h (length d) p False = Inr (d, h) \<and>
    pre_ok h' \<and> fileMap h' = fileMap h"
proof -
  from assms(1) have "stored h p d" by (rule stored_appendD)
  then show ?thesis
    using readAtWithBuf_ok [OF _ assms(2,3,1)] ReadAt_direct [OF _ assms(2)] by (fastforce simp: ReadAt_def)
qed

definition hp_small :: HPFile where
  "hp_small = \<lparr>fileMap = [0 \<mapsto> \<lparr>contents = [1,2,3], offset = 3\<rparr>], blockSize = 8, largestID = 0,
     latestFileSize = 3, bufferSize = 4, buffer = [], preReader = PreReader_Init PreReader_zero\<rparr>"

lemma hp_small_ok: "hp_inv hp_small" "pre_ok hp_small" "buffer hp_small = []"
  by (auto simp: hp_inv_def hp_ok_def pre_ok_def hp_small_def PreReader_Init_def)

theorem readAtWithBuf_transparent_witness:
  "\<exists>h'. ReadAt hp_small 2 0 True = Inr ([1,2], h') \<and> ReadAt hp_small 2 0 False = Inr ([1,2], hp_small) \<and>
    pre_ok h' \<and> fileMap h' = fileMap hp_small"
  using readAtWithBuf_transparent [of hp_small 0 "[1,2]" 3] hp_small_ok
  by (simp add: stored_def stream_def hp_small_def subslice_def numeral_2_eq_2)

text \<open>
  A buffered read of the last bytes of a block file panics, although the bytes are there and a
  direct read returns them: \<open>TryRead\<close> compares with \<open><\<close> where the end is exclusive.
\<close>

theorem readAtWithBuf_last_record_panics:
  assumes "pre_ok h" and "fileMap h (p div blockSize h) = Some f"
    and "p mod blockSize h + n = length (contents f)" and "n < PreReadBufSize"
    and "p mod blockSize h + n \<le> blockSize h"
  shows "ReadAt h n p True = Inl (Panic ''Cannot read data just fetched'') \<and>
    ReadAt h n p False = Inr (drop (p mod blockSize h) (contents f), h)"
proof
  let ?i = "p div blockSize h" and ?pos = "p mod blockSize h"
  have "TryRead (preReader h) ?i ?pos n = None"
    using TryRead_sound [OF assms(1,2)] assms(3) by (metis less_irrefl not_None_eq)
  moreover have "TryRead (GetToFill (preReader h) ?i ?pos (?pos + PreReadBufSize) f) ?i ?pos n = None"
    using assms(3) by (auto simp: TryRead_def GetToFill_def Let_def)
  ultimately show "ReadAt h n p True = Inl (Panic ''Cannot read data just fetched'')"
    using assms by (simp add: ReadAt_def readAtWithBuf_def Let_def pre_ok_def)
  show "ReadAt h n p False = Inr (drop ?pos (contents f), h)"
    using assms by (simp add: ReadAt_def file_ReadAt_stored subslice_def)
qed

theorem readAtWithBuf_last_record_panics_witness:
  "ReadAt hp_small 2 1 True = Inl (Panic ''Cannot read data just fetched'') \<and>
    ReadAt hp_small 2 1 False = Inr ([2,3], hp_small)"
  using readAtWithBuf_last_record_panics [of hp_small 1 "\<lparr>contents = [1,2,3], offset = 3\<rparr>" 2] hp_small_ok
  by (simp add: hp_small_def PreReadBufSize_def)

text \<open>
  C27: pruning the head at \<open>off\<close> keeps every record at or behind \<open>off\<close>, and the file stays appendable.
\<close>

theorem PruneHead_keeps_tail:
  assumes "hp_inv h" and "off < Size h"
  shows "hp_inv (PruneHead h off) \<and> Size (PruneHead h off) = Size h \<and>
    (\<forall>p d. off \<le> p \<longrightarrow> stored h p d \<longrightarrow> stored (PruneHead h off) p d)"
  using PruneHead_inv [OF assms] PruneHead_stored by (auto simp: Size_def PruneHead_def Let_def)

theorem PruneHead_keeps_tail_witness:
  "hp_inv (PruneHead hp_small 2) \<and> stored (PruneHead hp_small 2) 2 [3]"
proof -
  have "stored hp_small 2 [3]" "Size hp_small = 3"
    by (simp_all add: stored_def stream_def hp_small_def subslice_def Size_def)
  with PruneHead_keeps_tail [OF hp_small_ok(1), of 2] show ?thesis by simp
qed

section \<open>Truncation\<close>

lemma Truncate_loop_ok:
  assumes "\<forall>i \<le> k. sz div bs \<le> i \<longrightarrow> m i \<noteq> None" and "0 < bs"
  shows "Truncate_loop sz bs k m =
    Inr (\<lambda>i. if min k (sz div bs) < i \<and> i \<le> k then None else m i, min k (sz div bs))"
  using assms(1)
proof (induction k arbitrary: m)
  case 0
  then show ?case by (auto simp: fun_eq_iff)
next
  case (Suc k)
  have less: "sz < Suc k * bs \<longleftrightarrow> sz div bs < Suc k"
    using assms(2) by (simp add: div_less_iff_less_mult)
  show ?case
  proof (cases "sz < Suc k * bs")
    case True
    with less have le: "sz div bs \<le> k" by simp
    with Suc.prems have "m (Suc k) \<noteq> None" "\<forall>i \<le> k. sz div bs \<le> i \<longrightarrow> (m(Suc k := None)) i \<noteq> None" by auto
    with True le show ?thesis by (auto simp: Suc.IH fun_eq_iff)
  next
    case False
    with less show ?thesis by (auto simp: min_def fun_eq_iff)
  qed
qed

text \<open>The last block is opened again, at the write offset 0.\<close>

lemma Truncate_eq:
  assumes "hp_inv h" and "sz \<le> Size h" and "\<forall>i. sz div blockSize h \<le> i \<and> i \<le> largestID h \<longrightarrow> fileMap h i \<noteq> None"
  shows "\<exists>f. fileMap h (sz div blockSize h) = Some f \<and> sz div blockSize h \<le> largestID h \<and>
    Truncate h sz = Inr (h\<lparr>fileMap := (\<lambda>i. if sz div blockSize h < i \<and> i \<le> largestID h then None else fileMap h i)
        (sz div blockSize h \<mapsto> \<lparr>contents = take (sz mod blockSize h) (contents f) @
           replicate (sz mod blockSize h - length (contents f)) 0, offset = 0\<rparr>),
      largestID := sz div blockSize h, latestFileSize := sz mod blockSize h\<rparr>)"
proof -
  let ?b = "blockSize h" and ?k = "sz div blockSize h"
  have b: "0 < ?b" using assms(1) by (auto simp: hp_inv_def hp_ok_def)
  have k: "?k \<le> largestID h" using div_le_mono [OF assms(2), of ?b] Size_div [OF assms(1)] by simp
  with assms(3) obtain f where f: "fileMap h ?k = Some f" by blast
  have loop: "Truncate_loop sz ?b (largestID h) (fileMap h) =
      Inr (\<lambda>i. if ?k < i \<and> i \<le> largestID h then None else fileMap h i, ?k)"
    using Truncate_loop_ok [of "largestID h" sz ?b "fileMap h"] assms(3) b k by (simp add: min_absorb2)
  have "sz - ?k * ?b = sz mod ?b" by (simp add: minus_div_mult_eq_mod)
  with f k show ?thesis by (simp add: Truncate_def loop Let_def)
qed

text \<open>
  C28: truncating a flushed file to \<open>sz\<close> bytes, none of whose last blocks is pruned, succeeds, sets
  the size, and keeps every record that lies in front of \<open>sz\<close>.
\<close>

theorem Truncate_keeps_head:
  assumes "hp_inv h" and "buffer h = []" and "sz \<le> Size h"
    and "\<forall>i. sz div blockSize h \<le> i \<and> i \<le> largestID h \<longrightarrow> fileMap h i \<noteq> None"
  shows "\<exists>h'. Truncate h sz = Inr h' \<and> Size h' = sz \<and>
    (\<forall>p d. stored h p d \<and> p + length d \<le> sz \<longrightarrow> stored h' p d)"
proof -
  let ?b = "blockSize h" and ?k = "sz div blockSize h"
  from Truncate_eq [OF assms(1,3,4)] obtain f where f: "fileMap h ?k = Some f" and k: "?k \<le> largestID h" and
    T: "Truncate h sz = Inr (h\<lparr>fileMap := (\<lambda>i. if ?k < i \<and> i \<le> largestID h then None else fileMap h i)
        (?k \<mapsto> \<lparr>contents = take (sz mod ?b) (contents f) @ replicate (sz mod ?b - length (contents f)) 0, offset = 0\<rparr>),
      largestID := ?k, latestFileSize := sz mod ?b\<rparr>)" (is "_ = Inr ?h") by blast
  have "stored ?h p d" if "stored h p d" "p + length d \<le> sz" for p d
  proof -
    from stored_on_disk [OF that(1) assms(2)] obtain g where g: "fileMap h (p div ?b) = Some g"
      "p mod ?b + length d \<le> length (contents g)" "subslice (contents g) (p mod ?b) (p mod ?b + length d) = d"
      by blast
    have "p div ?b \<le> ?k" using that(2) by (intro div_le_mono) simp
    then consider "p div ?b < ?k" | "p div ?b = ?k" by linarith
    then show ?thesis
    proof cases
      case 1
      with g assms(2) show ?thesis by (auto simp: stored_def stream_def)
    next
      case 2
      have "p mod ?b + length d \<le> sz mod ?b"
        using that(2) div_mult_mod_eq [of p ?b] div_mult_mod_eq [of sz ?b] unfolding 2 by linarith
      moreover from this g(2) have "length d \<le> length (contents g) - p mod ?b" "length d \<le> sz mod ?b - p mod ?b"
        by linarith+
      moreover have "min (length (contents g)) (sz mod ?b) + (sz mod ?b - length (contents g)) = sz mod ?b"
        by simp
      ultimately show ?thesis using 2 g f assms(2)
        by (simp add: stored_def stream_def subslice_def drop_take min_absorb1)
    qed
  qed
  moreover have "Size ?h = sz" by (simp add: Size_def)
  ultimately show ?thesis using T by blast
qed

theorem Truncate_keeps_head_witness:
  "\<exists>h'. Truncate hp_small 2 = Inr h' \<and> Size h' = 2 \<and> stored h' 0 [1,2]"
proof -
  have "stored hp_small 0 [1,2]" by (simp add: stored_def stream_def hp_small_def subslice_def)
  with Truncate_keeps_head [of hp_small 2] hp_small_ok show ?thesis
    by (auto simp: hp_small_def Size_def)
qed

text \<open>
  C35: appending to a truncated file is wrong: when the new size is not at the start of a block, the file was
  opened again at write offset 0, so that after a flush the appended bytes stand at the start of the last
  block, over what was kept there, and the position that the append returned cannot be read.
\<close>

theorem Truncate_then_Append_overwrites:
  assumes "hp_inv h" and "buffer h = []" and "sz \<le> Size h"
    and "\<forall>i. sz div blockSize h \<le> i \<and> i \<le> largestID h \<longrightarrow> fileMap h i \<noteq> None"
    and "b \<noteq> []" and "length b \<le> bufferSize h" and "0 < sz mod blockSize h" and "sz mod blockSize h + length b < blockSize h"
  shows "\<exists>h1 h2 h3. Truncate h sz = Inr h1 \<and> Append h1 [b] = Inr (sz, h2) \<and> flush h2 = Inr h3 \<and>
    ReadAt h3 (length b) (sz div blockSize h * blockSize h) False = Inr (b, h3) \<and>
    ReadAt h3 (length b) sz False = Inl (IOError ''EOF'')"
proof -
  let ?k = "sz div blockSize h" and ?r = "sz mod blockSize h"
  from Truncate_eq [OF assms(1,3,4)] obtain g M where
    T: "Truncate h sz = Inr (h\<lparr>fileMap := M, largestID := ?k, latestFileSize := ?r\<rparr>)" "M ?k = Some g"
    "length (contents g) = ?r" "offset g = 0" by (auto simp: min_def)
  let ?h1 = "h\<lparr>fileMap := M, largestID := ?k, latestFileSize := ?r\<rparr>"
  let ?h2 = "?h1\<lparr>latestFileSize := ?r + length b, buffer := b\<rparr>"
  have A: "Append ?h1 [b] = Inr (sz, ?h2)"
    using assms(2,6,8) by (simp add: Append_def Append_buf_def Append_next_def Let_def)
  let ?g = "\<lparr>contents = b @ drop (length b) (contents g), offset = length b\<rparr>"
  let ?h3 = "?h2\<lparr>fileMap := M(?k \<mapsto> ?g), buffer := []\<rparr>"
  have F: "flush ?h2 = Inr ?h3" using T(2,4) assms(5) by (simp add: flush_def file_Write_def)
  have l: "0 < length b" using assms(5) by simp
  then have "0 < blockSize h" "\<not> ?r + length b \<le> length b + (?r - length b)" using assms(7,8) by linarith+
  then have "ReadAt ?h3 (length b) (?k * blockSize h) False = Inr (b, ?h3)" "ReadAt ?h3 (length b) sz False = Inl (IOError ''EOF'')"
    using assms(5) T(3) by (simp_all add: ReadAt_def file_ReadAt_def subslice_def)
  with T(1) A F show ?thesis by blast
qed

theorem Truncate_then_Append_overwrites_witness:
  "\<exists>h1 h2 h3. Truncate hp_small 2 = Inr h1 \<and> Append h1 [[9]] = Inr (2, h2) \<and> flush h2 = Inr h3 \<and>
    ReadAt h3 1 0 False = Inr ([9], h3) \<and> ReadAt h3 1 2 False = Inl (IOError ''EOF'')"
  using Truncate_then_Append_overwrites [of hp_small 2 "[9]"] hp_small_ok by (simp add: hp_small_def Size_def)

end
