(* ===== verification/EntryFile.thy ===== *)
theory EntryFile
  imports EntryCodec HPFile
begin

text \<open>
  The entry file of datatree/entryfile.go: entries are appended to a head-prunable file as
  MagicBytes, the bytes of \<open>EntryToBytes\<close> and zero padding to a multiple of 8, and read back at the
  position the append returned, with or without the read-ahead buffer, decoded or raw.
\<close>

section \<open>Model\<close>

type_synonym EntryFile = HPFile

definition getPaddingSize :: "nat \<Rightarrow> nat" where
  "getPaddingSize len = (let rem = len mod 8 in if rem = 0 then 0 else 8 - rem)"

definition readMagicBytesAndLength :: "EntryFile \<Rightarrow> nat \<Rightarrow> bool \<Rightarrow> ((nat \<times> nat) \<times> EntryFile) outcome" where
  "readMagicBytesAndLength ef off withBuf =
     bindE (ReadAt ef 12 off withBuf) (\<lambda>(buf, ef).
       if take 8 buf \<noteq> MagicBytes then Inl (Panic ''Invalid MagicBytes'')
       else
         (let len = GetUint24 (subslice buf 9 12)
          in if len \<ge> MaxEntryBytes then Inl (Panic ''Entry to long'')
             else Inr ((len, unat (buf ! 8)), ef)))"

definition getNextPos :: "nat \<Rightarrow> nat \<Rightarrow> nat" where
  "getNextPos off len = (let len = len + 8 + 4 in off + (len + getPaddingSize len))"

definition readEntry :: "EntryFile \<Rightarrow> nat \<Rightarrow> bool \<Rightarrow> bool \<Rightarrow> bool \<Rightarrow> ((bytes \<times> nat \<times> nat) \<times> EntryFile) outcome" where
  "readEntry ef off withSNList useRaw withBuf =
     bindE (readMagicBytesAndLength ef off withBuf) (\<lambda>((len, numberOfSN), ef).
       let nextPos = getNextPos off (len + 8 * numberOfSN);
           len = (if withSNList then len + 8 * numberOfSN else len);
           numberOfSN = (if withSNList then numberOfSN else 0)
       in bindE (ReadAt ef (12 + len) off withBuf) (\<lambda>(b, ef).
            if useRaw then Inr ((drop 8 b, numberOfSN, nextPos), ef)
            else
              bindE (recoverMagicBytes (drop 12 b)) (\<lambda>(b, n).
              bindE (sliceE b n len) (\<lambda>bz. Inr ((bz, numberOfSN, nextPos), ef)))))"

definition ReadEntryAndSNList :: "EntryFile \<Rightarrow> nat \<Rightarrow> ((Entry \<times> int list \<times> nat) \<times> EntryFile) outcome" where
  "ReadEntryAndSNList ef off =
     bindE (readEntry ef off True False True) (\<lambda>((bz, numberOfSN, nextPos), ef).
     bindE (EntryFromBytes bz numberOfSN) (\<lambda>(e, sns). Inr ((e, sns, nextPos), ef)))"

definition ReadEntry :: "EntryFile \<Rightarrow> nat \<Rightarrow> ((Entry \<times> nat) \<times> EntryFile) outcome" where
  "ReadEntry ef off =
     bindE (readEntry ef off False False False) (\<lambda>((bz, numberOfSN, nextPos), ef).
     bindE (EntryFromBytes bz numberOfSN) (\<lambda>(e, _). Inr ((e, nextPos), ef)))"

definition ReadEntryRawBytes :: "EntryFile \<Rightarrow> nat \<Rightarrow> ((bytes \<times> nat) \<times> EntryFile) outcome" where
  "ReadEntryRawBytes ef off =
     bindE (readEntry ef off False True True) (\<lambda>((bz, _, nextPos), ef). Inr ((bz, nextPos), ef))"

definition NewEntryFile :: "nat \<Rightarrow> nat \<Rightarrow> (nat \<times> bytes) list \<Rightarrow> EntryFile outcome" where
  "NewEntryFile bufSize blkSize dir =
     bindE (NewHPFile bufSize blkSize dir) (\<lambda>h. Inr (InitPreReader h))"

text \<open>The two slices are the raw entry and the bytes of its list of deactivated serial numbers.\<close>

definition EntryFile_Append :: "EntryFile \<Rightarrow> bytes \<Rightarrow> bytes \<Rightarrow> (nat \<times> EntryFile) outcome" where
  "EntryFile_Append ef b0 b1 =
     (let paddingSize = getPaddingSize (length b0 + length b1)
      in bindE (Append ef [MagicBytes, b0, b1, replicate paddingSize 0]) (\<lambda>(pos, ef).
           if pos mod 8 \<noteq> 0 then Inl (Panic ''Entries are not aligned'') else Inr (pos, ef)))"

text \<open>
  The goroutine of \<open>GetActiveEntriesInTwig\<close> from leaf \<open>i\<close> on, for \<open>k\<close> leaves; the channel is the
  list of what is sent to it.
\<close>

fun GetActiveEntries_loop ::
  "(nat \<Rightarrow> bool) \<Rightarrow> nat \<Rightarrow> nat \<Rightarrow> EntryFile \<Rightarrow> nat \<Rightarrow> (bytes list \<times> EntryFile) outcome" where
  "GetActiveEntries_loop getBit i 0 ef start = Inr ([], ef)"
| "GetActiveEntries_loop getBit i (Suc k) ef start =
     (if getBit i then
        bindE (ReadEntryRawBytes ef start) (\<lambda>((bz, next), ef).
        bindE (GetActiveEntries_loop getBit (Suc i) k ef next) (\<lambda>(res, ef). Inr (bz # res, ef)))
      else
        bindE (readMagicBytesAndLength ef start True) (\<lambda>((len, numberOfSN), ef).
          GetActiveEntries_loop getBit (Suc i) k ef (getNextPos start (len + 8 * numberOfSN))))"

section \<open>The record of an entry\<close>

definition entryRecord :: "Entry \<Rightarrow> int list \<Rightarrow> bytes" where
  "entryRecord e sns = MagicBytes @ EntryToBytes e sns @
     replicate (getPaddingSize (length (EntryToBytes e sns))) 0"

lemma getPaddingSize_aligned: "(n + getPaddingSize n) mod 8 = 0"
  by (simp add: getPaddingSize_def Let_def) presburger

lemma getPaddingSize_8 [simp]: "getPaddingSize (8 + n) = getPaddingSize n" "getPaddingSize (n + 8) = getPaddingSize n"
  by (simp_all add: getPaddingSize_def)

lemma entryRecord_aligned: "length (entryRecord e sns) mod 8 = 0"
  using getPaddingSize_aligned [of "length (EntryToBytes e sns)"] by (simp add: entryRecord_def)

text \<open>The header that the reader sees, and the position it computes for the next entry.\<close>

lemma EntryToBytes_header:
  assumes "wf_entry e sns"
  shows "4 + 8 * length sns \<le> length (EntryToBytes e sns)"
    and "unat (EntryToBytes e sns ! 0) = length sns"
    and "GetUint24 (subslice (EntryToBytes e sns) 1 4) = length (EntryToBytes e sns) - 4 - 8 * length sns"
    and "length (EntryToBytes e sns) - 4 - 8 * length sns < MaxEntryBytes"
proof -
  show "4 + 8 * length sns \<le> length (EntryToBytes e sns)" by (simp add: length_EntryToBytes)
  show "unat (EntryToBytes e sns ! 0) = length sns"
    using assms by (simp add: EntryToBytes_body wf_entry_def)
  show "length (EntryToBytes e sns) - 4 - 8 * length sns < MaxEntryBytes"
    using assms by (simp add: wf_entry_def length_EntryToBytes)
  have "4 + 4 * length (magicPosList e) + length (entryStrings e) + 24 < 256 ^ 3"
    using assms by (simp add: wf_entry_def length_EntryToBytes MaxEntryBytes_def)
  then show "GetUint24 (subslice (EntryToBytes e sns) 1 4) = length (EntryToBytes e sns) - 4 - 8 * length sns"
    unfolding length_EntryToBytes
    by (simp add: EntryToBytes_layout GetUint24_def PutUint24_def get_put_le subslice_def)
qed

lemma getNextPos_record:
  assumes "wf_entry e sns"
  shows "getNextPos off (length (EntryToBytes e sns) - 4 - 8 * length sns + 8 * length sns) =
    off + length (entryRecord e sns)"
proof -
  have "length (EntryToBytes e sns) - 4 - 8 * length sns + 8 * length sns + 8 + 4 =
      8 + length (EntryToBytes e sns)"
    using EntryToBytes_header(1) [OF assms] by simp
  then show ?thesis by (simp add: getNextPos_def Let_def entryRecord_def)
qed

section \<open>Reading\<close>

text \<open>
  A flushed file that can be read, and bytes that can be read at a position: a buffered read also
  needs a consistent read-ahead buffer and one more byte behind the record (see \<open>readAtWithBuf\<close>).
\<close>

definition rd_ok :: "bool \<Rightarrow> HPFile \<Rightarrow> bool" where
  "rd_ok withBuf h \<longleftrightarrow> buffer h = [] \<and> (withBuf \<longrightarrow> pre_ok h)"

definition avail :: "bool \<Rightarrow> HPFile \<Rightarrow> nat \<Rightarrow> bytes \<Rightarrow> bool" where
  "avail withBuf h p d \<longleftrightarrow> (if withBuf then \<exists>x. stored h p (d @ [x]) else stored h p d)"

lemma avail_preReader [simp]: "avail w (h\<lparr>preReader := pr\<rparr>) = avail w h"
  by (simp add: avail_def fun_eq_iff)

lemma avail_appendD:
  assumes "avail w h p (d @ t)"
  shows "avail w h p d"
proof (cases w)
  case True
  with assms obtain x where x: "stored h p (d @ (t @ [x]))" by (auto simp: avail_def)
  obtain y t' where "t @ [x] = [y] @ t'" by (cases t) auto
  with x have "stored h p ((d @ [y]) @ t')" by simp
  then have "stored h p (d @ [y])" by (rule stored_appendD)
  with True show ?thesis by (auto simp: avail_def)
next
  case False
  with assms show ?thesis by (auto simp: avail_def dest: stored_appendD)
qed

lemma ReadAt_avail:
  assumes "rd_ok w h" and "avail w h p (d @ t)" and "n = length d"
  shows "\<exists>pr. ReadAt h n p w = Inr (d, h\<lparr>preReader := pr\<rparr>) \<and> rd_ok w (h\<lparr>preReader := pr\<rparr>)"
proof (cases w)
  case True
  with avail_appendD [OF assms(2)] obtain x where x: "stored h p (d @ [x])" by (auto simp: avail_def)
  from readAtWithBuf_ok [OF stored_appendD [OF x] _ _ x] True assms show ?thesis
    by (auto simp: ReadAt_def rd_ok_def)
next
  case False
  with avail_appendD [OF assms(2)] ReadAt_direct [of h p d] assms show ?thesis
    by (intro exI [of _ "preReader h"]) (simp add: avail_def rd_ok_def)
qed

lemma readMagicBytesAndLength_avail:
  assumes wf: "wf_entry e sns" and ok: "rd_ok w h" and av: "avail w h p (MagicBytes @ rawEntry e sns @ t)"
  shows "\<exists>pr. readMagicBytesAndLength h p w =
      Inr ((length (EntryToBytes e sns) - 4 - 8 * length sns, length sns), h\<lparr>preReader := pr\<rparr>) \<and>
    rd_ok w (h\<lparr>preReader := pr\<rparr>)"
proof -
  let ?E = "EntryToBytes e sns" and ?r = "rawEntry e sns"
  have len: "4 \<le> length ?r" by (simp add: rawEntry_body entryBody_def)
  let ?d = "MagicBytes @ take 4 ?r"
  have "avail w h p (?d @ drop 4 ?r @ t)"
    using av by (metis append_assoc append_take_drop_id)
  from ReadAt_avail [OF ok this, of 12] len obtain pr where
    pr: "ReadAt h 12 p w = Inr (?d, h\<lparr>preReader := pr\<rparr>)" "rd_ok w (h\<lparr>preReader := pr\<rparr>)" by auto
  have "take 4 ?r = take 4 ?E"
    using EntryToBytes_header(1) [OF wf] by (simp add: rawEntry_def min_absorb1)
  then have d: "subslice ?d 9 12 = subslice ?E 1 4" "?d ! 8 = ?E ! 0"
    using EntryToBytes_header(1) [OF wf] by (simp_all add: subslice_def nth_append drop_take)
  show ?thesis
    using pr EntryToBytes_header(2-) [OF wf]
    by (intro exI [of _ pr]) (simp add: readMagicBytesAndLength_def d Let_def)
qed

lemma readEntry_raw:
  assumes wf: "wf_entry e sns" and ok: "rd_ok w h" and av: "avail w h p (MagicBytes @ rawEntry e sns @ t)"
  shows "\<exists>pr. readEntry h p False True w =
      Inr ((rawEntry e sns, 0, p + length (entryRecord e sns)), h\<lparr>preReader := pr\<rparr>) \<and>
    rd_ok w (h\<lparr>preReader := pr\<rparr>)"
proof -
  let ?n = "length (EntryToBytes e sns) - 4 - 8 * length sns"
  from readMagicBytesAndLength_avail [OF assms] obtain pr where
    pr: "readMagicBytesAndLength h p w = Inr ((?n, length sns), h\<lparr>preReader := pr\<rparr>)"
      "rd_ok w (h\<lparr>preReader := pr\<rparr>)" by auto
  have len: "12 + ?n = length (MagicBytes @ rawEntry e sns)"
    using EntryToBytes_header(1) [OF wf] by (simp add: rawEntry_def)
  from ReadAt_avail [OF pr(2) _ len, of p t] av obtain pr' where
    "ReadAt (h\<lparr>preReader := pr\<rparr>) (12 + ?n) p w = Inr (MagicBytes @ rawEntry e sns, h\<lparr>preReader := pr'\<rparr>)"
    "rd_ok w (h\<lparr>preReader := pr'\<rparr>)" by auto
  with pr getNextPos_record [OF wf, of p] show ?thesis
    by (auto simp: readEntry_def Let_def)
qed

text \<open>What \<open>readEntry\<close> fetches: the header and the body, with or without the serial numbers.\<close>

definition fetched :: "Entry \<Rightarrow> int list \<Rightarrow> bool \<Rightarrow> bytes" where
  "fetched e sns withSNList = MagicBytes @ rawEntry e sns @ (if withSNList then SNListToBytes sns else [])"

lemma fetched_True: "fetched e sns True = MagicBytes @ EntryToBytes e sns"
  by (simp add: fetched_def rawEntry_body EntryToBytes_body)

lemma length_fetched:
  "wf_entry e sns \<Longrightarrow> length (fetched e sns b) =
   12 + (length (EntryToBytes e sns) - 4 - 8 * length sns + (if b then 8 * length sns else 0))"
  using EntryToBytes_header(1) [of e sns] by (simp add: fetched_def rawEntry_def)

lemma recover_fetched:
  assumes "wf_entry e sns"
  shows "\<exists>L. recoverMagicBytes (drop 12 (fetched e sns b)) =
      Inr (L @ writeEntryPayload e (if b then sns else []), length L) \<and>
    length (L @ writeEntryPayload e (if b then sns else [])) = length (fetched e sns b) - 12"
proof -
  let ?s = "if b then sns else []"
  let ?L = "pos_list_bytes (4 * length (magicPosList e)) (magicPosList e) @ PosListEnd"
  have "drop 12 (fetched e sns b) = drop 4 (rawEntry e sns) @ SNListToBytes ?s"
    by (simp add: fetched_def rawEntry_body entryBody_def SNListToBytes_def PutUint24_def)
  then have d: "drop 12 (fetched e sns b) =
      ?L @ write_all zeroBuf (magicPosList e) (entryStrings e) @ entryNums e @ SNListToBytes ?s"
    by (simp add: rawEntry_drop4)
  have "\<forall>p \<in> set (magicPosList e). p \<le> length (entryStrings e)"
    using magicPosList_occurs by fastforce
  then have "length (drop 12 (fetched e sns b)) = length (?L @ writeEntryPayload e ?s)"
    unfolding d by (simp add: writeEntryPayload_parts)
  moreover have "recoverMagicBytes (drop 12 (fetched e sns b)) = Inr (?L @ writeEntryPayload e ?s, length ?L)"
    using recoverMagicBytes_entry [OF assms, of "entryNums e @ SNListToBytes ?s"]
    unfolding d by (simp add: writeEntryPayload_parts)
  ultimately show ?thesis by (intro exI [of _ ?L]) (simp only: length_drop)
qed

lemma readEntry_decoded:
  assumes wf: "wf_entry e sns" and ok: "rd_ok w h" and av: "avail w h p (fetched e sns b)"
  shows "\<exists>pr. readEntry h p b False w = Inr ((writeEntryPayload e (if b then sns else []),
      if b then length sns else 0, p + length (entryRecord e sns)), h\<lparr>preReader := pr\<rparr>) \<and>
    rd_ok w (h\<lparr>preReader := pr\<rparr>)"
proof -
  let ?n = "length (EntryToBytes e sns) - 4 - 8 * length sns"
  let ?m = "?n + (if b then 8 * length sns else 0)"
  from readMagicBytesAndLength_avail [OF wf ok] av obtain pr where
    pr: "readMagicBytesAndLength h p w = Inr ((?n, length sns), h\<lparr>preReader := pr\<rparr>)"
      "rd_ok w (h\<lparr>preReader := pr\<rparr>)" by (auto simp: fetched_def)
  have m: "12 + ?m = length (fetched e sns b)" using length_fetched [OF wf] by simp
  from ReadAt_avail [OF pr(2) _ m, of p "[]"] av obtain pr' where
    pr': "ReadAt (h\<lparr>preReader := pr\<rparr>) (12 + ?m) p w = Inr (fetched e sns b, h\<lparr>preReader := pr'\<rparr>)"
    "rd_ok w (h\<lparr>preReader := pr'\<rparr>)" by auto
  from recover_fetched [OF wf, of b] obtain L where L: "recoverMagicBytes (drop 12 (fetched e sns b)) =
      Inr (L @ writeEntryPayload e (if b then sns else []), length L)"
    "length (L @ writeEntryPayload e (if b then sns else [])) = ?m" using m by auto
  from L(2) have "sliceE (L @ writeEntryPayload e (if b then sns else [])) (length L) ?m =
      Inr (writeEntryPayload e (if b then sns else []))"
    by (simp add: sliceE_def subslice_def)
  with pr pr' L(1) getNextPos_record [OF wf, of p] show ?thesis
    by (cases b) (auto simp: readEntry_def Let_def)
qed

lemma EntryFromBytes_wf:
  "wf_entry e sns \<Longrightarrow> EntryFromBytes (writeEntryPayload e (if b then sns else [])) (if b then length sns else 0) =
    Inr (e\<lparr>Value := Some (slice_bytes (Value e))\<rparr>, if b then sns else [])"
  using wf_entry_lengths [of e sns] by (intro EntryFromBytes_payload) (auto simp: wf_entry_def)

lemma ReadEntry_ok:
  assumes "wf_entry e sns" and "buffer h = []" and "stored h p (MagicBytes @ rawEntry e sns)"
  shows "\<exists>pr. ReadEntry h p = Inr ((e\<lparr>Value := Some (slice_bytes (Value e))\<rparr>,
    p + length (entryRecord e sns)), h\<lparr>preReader := pr\<rparr>)"
  using readEntry_decoded [OF assms(1), of False h p False] assms EntryFromBytes_wf [OF assms(1), of False]
  by (auto simp: ReadEntry_def rd_ok_def avail_def fetched_def)

lemma ReadEntryAndSNList_ok:
  assumes "wf_entry e sns" and "rd_ok True h" and "stored h p (MagicBytes @ EntryToBytes e sns @ [x])"
  shows "\<exists>pr. ReadEntryAndSNList h p = Inr ((e\<lparr>Value := Some (slice_bytes (Value e))\<rparr>, sns,
    p + length (entryRecord e sns)), h\<lparr>preReader := pr\<rparr>) \<and> rd_ok True (h\<lparr>preReader := pr\<rparr>)"
proof -
  have "avail True h p (fetched e sns True)" using assms(3) by (auto simp: avail_def fetched_True)
  from readEntry_decoded [OF assms(1,2) this] EntryFromBytes_wf [OF assms(1), of True] show ?thesis
    by (auto simp: ReadEntryAndSNList_def)
qed

section \<open>Appending\<close>

text \<open>Appending any two-part record: it starts at the end of the file, which stays aligned.\<close>

definition paddedRecord :: "bytes \<Rightarrow> bytes \<Rightarrow> bytes" where
  "paddedRecord b0 b1 = MagicBytes @ b0 @ b1 @ replicate (getPaddingSize (length b0 + length b1)) 0"

lemma EntryFile_Append_raw:
  assumes inv: "hp_inv h" and al: "Size h mod 8 = 0" and fit: "length (paddedRecord b0 b1) \<le> bufferSize h"
  shows "\<exists>h'. EntryFile_Append h b0 b1 = Inr (Size h, h') \<and> hp_inv h' \<and>
    Size h' = Size h + length (paddedRecord b0 b1) \<and> Size h' mod 8 = 0 \<and>
    stored h' (Size h) (paddedRecord b0 b1) \<and> bufferSize h' = bufferSize h \<and> blockSize h' = blockSize h \<and>
    (\<forall>q d. stored h q d \<longrightarrow> stored h' q d)"
proof -
  let ?r = "[MagicBytes, b0, b1, replicate (getPaddingSize (length b0 + length b1)) (0 :: byte)]"
  have c: "concat ?r = paddedRecord b0 b1" by (simp add: paddedRecord_def)
  have fits: "fits h ?r" using fit by (simp only: fits_def c)
  from hp.append_ok [OF inv fits] obtain h' where h': "Append h ?r = Inr (Size h, h')" "hp_inv h'"
    "Size h' = Size h + length (concat ?r)" "stored h' (Size h) (concat ?r)" by blast
  from Append_ok [OF inv fits] h'(1) have "bufferSize h' = bufferSize h" by auto
  moreover have "length (paddedRecord b0 b1) mod 8 = 0"
    using getPaddingSize_aligned [of "length b0 + length b1"] by (simp add: paddedRecord_def add.assoc)
  then have "Size h' mod 8 = 0" using al unfolding h'(3) c by presburger
  ultimately show ?thesis
    using h' hp.append_keeps [OF inv fits h'(1)] Append_blockSize [OF h'(1)] al unfolding c
    by (auto simp: EntryFile_Append_def)
qed

lemma EntryFile_Append_ok:
  assumes inv: "hp_inv h" and al: "Size h mod 8 = 0" and fit: "length (entryRecord e sns) \<le> bufferSize h"
  shows "\<exists>h'. EntryFile_Append h (rawEntry e sns) (SNListToBytes sns) = Inr (Size h, h') \<and> hp_inv h' \<and>
    Size h' = Size h + length (entryRecord e sns) \<and> Size h' mod 8 = 0 \<and>
    stored h' (Size h) (entryRecord e sns) \<and> bufferSize h' = bufferSize h \<and> blockSize h' = blockSize h \<and>
    (\<forall>q d. stored h q d \<longrightarrow> stored h' q d)"
proof -
  have "entryRecord e sns = paddedRecord (rawEntry e sns) (SNListToBytes sns)"
    by (simp add: entryRecord_def paddedRecord_def rawEntry_body EntryToBytes_body add.assoc)
  with EntryFile_Append_raw [OF inv al] fit show ?thesis by simp
qed

text \<open>A run of appended entries, and the position of the \<open>i\<close>-th one.\<close>

definition append_entry :: "Entry \<times> int list \<Rightarrow> HPFile \<Rightarrow> HPFile outcome" where
  "append_entry es h = bindE (EntryFile_Append h (rawEntry (fst es) (snd es)) (SNListToBytes (snd es)))
     (\<lambda>(p, h'). Inr h')"

definition run_length :: "(Entry \<times> int list) list \<Rightarrow> nat" where
  "run_length es = sum_list (map (\<lambda>(e, sns). length (entryRecord e sns)) es)"

lemma append_entries_ok:
  "hp_inv h \<Longrightarrow> Size h mod 8 = 0 \<Longrightarrow> \<forall>(e, sns) \<in> set es. length (entryRecord e sns) \<le> bufferSize h \<Longrightarrow>
   \<exists>h'. foldE append_entry es h = Inr h' \<and> hp_inv h' \<and> Size h' = Size h + run_length es \<and>
     (\<forall>q d. stored h q d \<longrightarrow> stored h' q d) \<and>
     (\<forall>i < length es. stored h' (Size h + run_length (take i es)) (entryRecord (fst (es ! i)) (snd (es ! i))))"
proof (induction es arbitrary: h)
  case Nil
  then show ?case by (simp add: run_length_def)
next
  case (Cons es1 es)
  obtain e sns where es1: "es1 = (e, sns)" by (cases es1)
  have "length (entryRecord e sns) \<le> bufferSize h" using Cons.prems(3) es1 by auto
  from EntryFile_Append_ok [OF Cons.prems(1,2) this] obtain h1 where h1:
    "EntryFile_Append h (rawEntry e sns) (SNListToBytes sns) = Inr (Size h, h1)" "hp_inv h1"
    "Size h1 = Size h + length (entryRecord e sns)" "Size h1 mod 8 = 0" "bufferSize h1 = bufferSize h"
    "stored h1 (Size h) (entryRecord e sns)" "\<forall>q d. stored h q d \<longrightarrow> stored h1 q d"
    by (elim exE conjE) (rule that)
  have a: "append_entry es1 h = Inr h1" using h1(1) es1 by (simp add: append_entry_def)
  from Cons.IH [OF h1(2,4)] Cons.prems(3) h1(5) obtain h' where h':
    "foldE append_entry es h1 = Inr h'" "hp_inv h'" "Size h' = Size h1 + run_length es"
    "\<forall>q d. stored h1 q d \<longrightarrow> stored h' q d"
    "\<forall>i < length es. stored h' (Size h1 + run_length (take i es)) (entryRecord (fst (es ! i)) (snd (es ! i)))"
    by auto
  have "stored h' (Size h + run_length (take i (es1 # es)))
      (entryRecord (fst ((es1 # es) ! i)) (snd ((es1 # es) ! i)))" if "i < length (es1 # es)" for i
  proof (cases i)
    case 0
    with h1(6) h'(4) es1 show ?thesis by (simp add: run_length_def)
  next
    case (Suc j)
    with that h'(5) [rule_format, of j] h1(3) es1 show ?thesis by (simp add: run_length_def add.assoc)
  qed
  with a h' h1 es1 show ?case by (auto simp: run_length_def)
qed

section \<open>Properties\<close>

text \<open>
  C29: entries appended one after the other and flushed are read back by \<open>ReadEntry\<close> at the
  positions where they were appended, and the next position it reports is that of the next entry,
  whatever bytes the entries hold and wherever they cross the ends of block files.
\<close>

theorem EntryFile_roundtrip:
  assumes "hp_inv h" and "Size h mod 8 = 0"
    and "\<forall>(e, sns) \<in> set es. wf_entry e sns \<and> length (entryRecord e sns) \<le> bufferSize h"
  shows "\<exists>h1 h2. foldE append_entry es h = Inr h1 \<and> flush h1 = Inr h2 \<and>
    (\<forall>i < length es. \<exists>h3. ReadEntry h2 (Size h + run_length (take i es)) =
       Inr (((fst (es ! i))\<lparr>Value := Some (slice_bytes (Value (fst (es ! i))))\<rparr>,
             Size h + run_length (take (Suc i) es)), h3))"
proof -
  from append_entries_ok [OF assms(1,2), of es] assms(3) obtain h1 where h1:
    "foldE append_entry es h = Inr h1" "hp_inv h1"
    "\<forall>i < length es. stored h1 (Size h + run_length (take i es)) (entryRecord (fst (es ! i)) (snd (es ! i)))"
    by (auto simp: split_beta)
  from h1(2) flush_ok [of h1] obtain h2 where h2: "flush h1 = Inr h2" "buffer h2 = []"
    "stream h2 = stream h1" "blockSize h2 = blockSize h1" by (auto simp: hp_inv_def)
  have "\<exists>h3. ReadEntry h2 (Size h + run_length (take i es)) =
       Inr (((fst (es ! i))\<lparr>Value := Some (slice_bytes (Value (fst (es ! i))))\<rparr>,
             Size h + run_length (take (Suc i) es)), h3)" if i: "i < length es" for i
  proof -
    obtain e sns where es: "es ! i = (e, sns)" by (cases "es ! i")
    with assms(3) i have wf: "wf_entry e sns" by (metis (no_types, lifting) case_prodD nth_mem)
    have "stored h2 (Size h + run_length (take i es)) (entryRecord e sns)"
      using h1(3) i es h2 by (auto simp: stored_def)
    then have "stored h2 (Size h + run_length (take i es)) (MagicBytes @ rawEntry e sns)"
      by (intro stored_appendD [of _ _ "MagicBytes @ rawEntry e sns"])
        (simp add: entryRecord_def EntryToBytes_body rawEntry_body)
    from ReadEntry_ok [OF wf h2(2) this] show ?thesis
      using i es by (auto simp: run_length_def take_Suc_conv_app_nth)
  qed
  with h1(1) h2(1) show ?thesis by blast
qed

definition emptyEntryFile :: EntryFile where
  "emptyEntryFile = InitPreReader \<lparr>fileMap = [0 \<mapsto> \<lparr>contents = [], offset = 0\<rparr>], blockSize = 128, largestID = 0,
     latestFileSize = 0, bufferSize = 128, buffer = [], preReader = PreReader_zero\<rparr>"

lemma emptyEntryFile_ok:
  "NewEntryFile 128 128 [] = Inr emptyEntryFile" "hp_inv emptyEntryFile" "Size emptyEntryFile = 0"
  "bufferSize emptyEntryFile = 128"
  by (simp_all add: NewEntryFile_def NewHPFile_def emptyEntryFile_def hp_inv_def hp_ok_def InitPreReader_def Size_def)

lemma length_entryRecord_sample: "length (entryRecord sampleEntry [5, 2047]) = 88"
  by (simp add: entryRecord_def getPaddingSize_def length_EntryToBytes sampleEntry_magicPosList
      length_entryStrings sampleEntry_sel slice_bytes_def)

theorem EntryFile_roundtrip_witness:
  "\<exists>h1 h2 h3. foldE append_entry [(sampleEntry, [5, 2047]), (sampleEntry, [5, 2047])] emptyEntryFile = Inr h1 \<and>
    flush h1 = Inr h2 \<and> ReadEntry h2 88 = Inr ((sampleEntry, 176), h3)"
proof -
  let ?es = "[(sampleEntry, [5, 2047]), (sampleEntry, [5, 2047])]"
  from EntryFile_roundtrip [of emptyEntryFile ?es] obtain h1 h2 where
    "foldE append_entry ?es emptyEntryFile = Inr h1" "flush h1 = Inr h2"
    "\<forall>i < 2. \<exists>h3. ReadEntry h2 (run_length (take i ?es)) =
       Inr ((sampleEntry, run_length (take (Suc i) ?es)), h3)"
    using sampleEntry_wf by (auto simp: emptyEntryFile_ok length_entryRecord_sample sampleEntry_value
        less_Suc_eq numeral_2_eq_2)
  moreover from this(3) have "\<exists>h3. ReadEntry h2 88 = Inr ((sampleEntry, 176), h3)"
    by (auto dest: spec [of _ 1] simp: run_length_def length_entryRecord_sample)
  ultimately show ?thesis by blast
qed

text \<open>
  Entries stored one behind the other from \<open>p\<close> on. The scan reads with the read-ahead buffer, so each
  record must be followed by one more byte in its block file.
\<close>

fun stored_run :: "HPFile \<Rightarrow> nat \<Rightarrow> (Entry \<times> int list) list \<Rightarrow> bool" where
  "stored_run h p [] \<longleftrightarrow> True"
| "stored_run h p ((e, sns) # es) \<longleftrightarrow> wf_entry e sns \<and> avail True h p (fetched e sns True) \<and>
     stored_run h (p + length (entryRecord e sns)) es"

lemma stored_run_preReader [simp]: "stored_run (h\<lparr>preReader := pr\<rparr>) p es = stored_run h p es"
  by (induction es arbitrary: p) auto

definition active_raw :: "(nat \<Rightarrow> bool) \<Rightarrow> nat \<Rightarrow> (Entry \<times> int list) list \<Rightarrow> bytes list" where
  "active_raw getBit i es =
     map (\<lambda>(j, e, sns). rawEntry e sns) (filter (\<lambda>(j, _). getBit j) (zip [i ..< i + length es] es))"

lemma active_raw_Cons:
  "active_raw getBit i (es1 # es) =
     (if getBit i then [rawEntry (fst es1) (snd es1)] else []) @ active_raw getBit (Suc i) es"
proof -
  have "[i ..< i + length (es1 # es)] = i # [Suc i ..< Suc i + length es]"
    by (simp add: upt_conv_Cons del: upt_Suc)
  then show ?thesis by (cases es1) (simp add: active_raw_def del: upt_Suc)
qed

lemma scan_step:
  assumes wf: "wf_entry e sns" and ok: "rd_ok True h" and av: "avail True h p (fetched e sns True)"
  shows "\<exists>pr. rd_ok True (h\<lparr>preReader := pr\<rparr>) \<and>
    readMagicBytesAndLength h p True =
      Inr ((length (EntryToBytes e sns) - 4 - 8 * length sns, length sns), h\<lparr>preReader := pr\<rparr>)"
    and "\<exists>pr. rd_ok True (h\<lparr>preReader := pr\<rparr>) \<and> ReadEntryRawBytes h p =
      Inr ((rawEntry e sns, p + length (entryRecord e sns)), h\<lparr>preReader := pr\<rparr>)"
proof -
  have a: "avail True h p (MagicBytes @ rawEntry e sns @ SNListToBytes sns)"
    using av by (simp add: fetched_def)
  from readMagicBytesAndLength_avail [OF wf ok a]
  show "\<exists>pr. rd_ok True (h\<lparr>preReader := pr\<rparr>) \<and> readMagicBytesAndLength h p True =
      Inr ((length (EntryToBytes e sns) - 4 - 8 * length sns, length sns), h\<lparr>preReader := pr\<rparr>)" by blast
  from readEntry_raw [OF wf ok a] show "\<exists>pr. rd_ok True (h\<lparr>preReader := pr\<rparr>) \<and> ReadEntryRawBytes h p =
      Inr ((rawEntry e sns, p + length (entryRecord e sns)), h\<lparr>preReader := pr\<rparr>)"
    by (auto simp: ReadEntryRawBytes_def)
qed

lemma scan_ok:
  "rd_ok True h \<Longrightarrow> stored_run h p es \<Longrightarrow>
   \<exists>pr. GetActiveEntries_loop getBit i (length es) h p =
     Inr (active_raw getBit i es, h\<lparr>preReader := pr\<rparr>)"
proof (induction es arbitrary: h p i)
  case Nil
  then show ?case by (intro exI [of _ "preReader h"]) (simp add: active_raw_def)
next
  case (Cons es1 es)
  obtain e sns where es1: "es1 = (e, sns)" by (cases es1)
  let ?q = "p + length (entryRecord e sns)"
  have wf: "wf_entry e sns" and av: "avail True h p (fetched e sns True)" and run: "stored_run h ?q es"
    using Cons.prems(2) es1 by auto
  show ?case
  proof (cases "getBit i")
    case True
    from scan_step(2) [OF wf Cons.prems(1) av] obtain pr where pr: "rd_ok True (h\<lparr>preReader := pr\<rparr>)"
      "ReadEntryRawBytes h p = Inr ((rawEntry e sns, ?q), h\<lparr>preReader := pr\<rparr>)" by blast
    from Cons.IH [OF pr(1), of ?q "Suc i"] run True pr(2) es1 show ?thesis
      by (auto simp: active_raw_Cons)
  next
    case False
    from scan_step(1) [OF wf Cons.prems(1) av] obtain pr where pr: "rd_ok True (h\<lparr>preReader := pr\<rparr>)"
      "readMagicBytesAndLength h p True =
        Inr ((length (EntryToBytes e sns) - 4 - 8 * length sns, length sns), h\<lparr>preReader := pr\<rparr>)" by blast
    from Cons.IH [OF pr(1), of ?q "Suc i"] run False pr(2) es1 getNextPos_record [OF wf, of p] show ?thesis
      by (auto simp: active_raw_Cons)
  qed
qed

text \<open>
  C30: the scan of a twig over a run of records, each with at least one more byte behind it in its block
  file (\<open>stored_run\<close>: a buffered read of the last bytes of a block file panics), sends exactly the raw bytes
  of the entries whose active bit is set, in order, and skips the others, with their lists of deactivated
  serial numbers and padding.
\<close>

theorem GetActiveEntries_scan:
  assumes "rd_ok True h" and "stored_run h p es"
  shows "\<exists>h'. GetActiveEntries_loop getBit 0 (length es) h p = Inr (active_raw getBit 0 es, h')"
  using scan_ok [OF assms] by blast

definition sampleEntryFile :: EntryFile where
  "sampleEntryFile = emptyEntryFile\<lparr>fileMap := [0 \<mapsto> \<lparr>contents =
      entryRecord sampleEntry [5, 2047] @ entryRecord sampleEntry [5, 2047] @ [0], offset = 0\<rparr>], blockSize := 256\<rparr>"

lemma sampleEntryFile_ok: "rd_ok True sampleEntryFile"
  by (simp add: rd_ok_def pre_ok_def sampleEntryFile_def emptyEntryFile_def InitPreReader_def PreReader_Init_def)

lemma sampleEntryFile_run:
  "stored_run sampleEntryFile 0 [(sampleEntry, [5, 2047]), (sampleEntry, [5, 2047])]"
proof -
  let ?r = "entryRecord sampleEntry [5, 2047]" let ?f = "fetched sampleEntry [5, 2047] True"
  have r: "?r = ?f @ replicate 5 0"
    by (simp add: entryRecord_def fetched_True getPaddingSize_def length_EntryToBytes
        sampleEntry_magicPosList length_entryStrings sampleEntry_sel slice_bytes_def)
  then have f: "length ?f = 83" using length_entryRecord_sample by simp
  have "stored sampleEntryFile 0 ?r" "stored sampleEntryFile 88 ?r"
    by (simp_all add: stored_def stream_def sampleEntryFile_def emptyEntryFile_def InitPreReader_def
        subslice_def length_entryRecord_sample)
  then have "stored sampleEntryFile 0 ((?f @ [0]) @ replicate 4 0)"
    "stored sampleEntryFile 88 ((?f @ [0]) @ replicate 4 0)"
    unfolding r by (simp_all add: numeral_eq_Suc)
  then have "stored sampleEntryFile 0 (?f @ [0])" "stored sampleEntryFile 88 (?f @ [0])"
    by (blast dest: stored_appendD)+
  then have "avail True sampleEntryFile 0 ?f" "avail True sampleEntryFile 88 ?f"
    by (auto simp: avail_def)
  then show ?thesis using sampleEntry_wf by (simp add: length_entryRecord_sample)
qed

theorem GetActiveEntries_scan_witness:
  "\<exists>h'. GetActiveEntries_loop (\<lambda>i. i = 1) 0 2 sampleEntryFile 0 = Inr ([rawEntry sampleEntry [5, 2047]], h')"
  using GetActiveEntries_scan [OF sampleEntryFile_ok sampleEntryFile_run, of "\<lambda>i. i = 1"]
  by (simp add: active_raw_Cons active_raw_def numeral_2_eq_2)

end
