(* ===== verification/TwigMtFile.thy ===== *)
theory TwigMtFile
  imports HPFile
begin

text \<open>
  The Merkle-tree file of datatree/twigmtfile.go: for every finished twig the position of its first
  entry with a checksum, then the 4095 nodes of its left Merkle tree. The checksum function of
  github.com/mmcloughlin/meow is the parameter \<open>meow\<close>; what the file relies on is that it returns
  4 bytes.
\<close>

section \<open>Model\<close>

type_synonym TwigMtFile = HPFile

definition TwigMtEntryCount :: nat where
  "TwigMtEntryCount = 4095"

definition TwigMtSize :: nat where
  "TwigMtSize = 12 + TwigMtEntryCount * 32"

definition NewTwigMtFile :: "nat \<Rightarrow> nat \<Rightarrow> (nat \<times> bytes) list \<Rightarrow> TwigMtFile outcome" where
  "NewTwigMtFile bufSize blkSize dir = NewHPFile bufSize blkSize dir"

definition AppendTwig :: "(bytes \<Rightarrow> bytes) \<Rightarrow> TwigMtFile \<Rightarrow> bytes list \<Rightarrow> int \<Rightarrow> TwigMtFile outcome" where
  "AppendTwig meow tf mtree firstEntryPos =
     (if firstEntryPos < 0 then Inl (Panic ''Invalid first entry position'')
      else if length mtree \<noteq> TwigMtEntryCount then Inl (Panic ''len(mtree)'')
      else
        (let buf = put_le 8 (uint64 firstEntryPos)
         in bindE (Append tf [buf, meow buf]) (\<lambda>(_, tf).
              foldE (\<lambda>node tf. bindE (Append tf [node]) (\<lambda>(_, tf). Inr tf)) mtree tf)))"

definition GetFirstEntryPos :: "(bytes \<Rightarrow> bytes) \<Rightarrow> TwigMtFile \<Rightarrow> nat \<Rightarrow> int outcome" where
  "GetFirstEntryPos meow tf twigID =
     bindE (ReadAt tf 12 (twigID * TwigMtSize) False) (\<lambda>(buf, _).
       if drop 8 buf \<noteq> meow (take 8 buf) then Inl (Panic ''Checksum Error!'')
       else Inr (int64 (get_le (take 8 buf))))"

text \<open>The twig number is an int64 that recovery can make negative.\<close>

definition GetHashNode_int :: "TwigMtFile \<Rightarrow> int \<Rightarrow> nat \<Rightarrow> bytes outcome" where
  "GetHashNode_int tf twigID hashID =
     (if hashID = 0 \<or> hashID \<ge> 4096 then Inl (Panic ''Invalid hashID'')
      else bindE (ReadAt_int tf 32 (twigID * int TwigMtSize + 12 + (int hashID - 1) * 32)) (\<lambda>(buf, _). Inr buf))"

definition GetHashNode :: "TwigMtFile \<Rightarrow> nat \<Rightarrow> nat \<Rightarrow> bytes outcome" where
  "GetHashNode tf twigID hashID = GetHashNode_int tf (int twigID) hashID"

lemma GetHashNode_nat:
  "GetHashNode tf twigID hashID =
     (if hashID = 0 \<or> hashID \<ge> 4096 then Inl (Panic ''Invalid hashID'')
      else bindE (ReadAt tf 32 (twigID * TwigMtSize + 12 + (hashID - 1) * 32) False) (\<lambda>(buf, _). Inr buf))"
proof (cases hashID)
  case (Suc k)
  have "int twigID * int TwigMtSize + 12 + (int hashID - 1) * 32 = int (twigID * TwigMtSize + 12 + (hashID - 1) * 32)" by (simp add: Suc)
  from ReadAt_int_nat [of tf 32 "twigID * TwigMtSize + 12 + (hashID - 1) * 32", folded this]
  show ?thesis by (simp only: GetHashNode_def GetHashNode_int_def of_nat_eq_0_iff)
qed (simp add: GetHashNode_def GetHashNode_int_def)

text \<open>A node of a twig with a negative number lies in front of the file.\<close>

lemma GetHashNode_negative:
  assumes "twigID < 0"
  shows "\<exists>err. GetHashNode_int tf twigID hashID = Inl err"
proof (cases "hashID = 0 \<or> hashID \<ge> 4096")
  case False
  have hash: "int hashID < 4096" using False by simp
  have sz: "int TwigMtSize = 131052" by (simp add: TwigMtSize_def TwigMtEntryCount_def)
  have "twigID * 131052 \<le> (- 1) * 131052" using assms by (intro mult_right_mono) simp_all
  then have "twigID * int TwigMtSize + 12 + (int hashID - 1) * 32 < 0" unfolding sz using hash by simp
  from ReadAt_int_negative [OF this] obtain err where
    "ReadAt_int tf 32 (twigID * int TwigMtSize + 12 + (int hashID - 1) * 32) = Inl err" by blast
  with False show ?thesis by (simp add: GetHashNode_int_def del: diff_numeral_special)
qed (auto simp: GetHashNode_int_def)

section \<open>Reading back a twig\<close>

text \<open>The records of a twig, as a run of appends.\<close>

definition meow4 :: "(bytes \<Rightarrow> bytes) \<Rightarrow> bool" where
  "meow4 meow \<longleftrightarrow> (\<forall>b. length (meow b) = 4)"

definition twigRecords :: "(bytes \<Rightarrow> bytes) \<Rightarrow> bytes list \<Rightarrow> int \<Rightarrow> bytes list list" where
  "twigRecords meow mtree pos =
     (let buf = put_le 8 (uint64 pos) in [buf, meow buf] # map (\<lambda>node. [node]) mtree)"

lemma AppendTwig_run:
  assumes "0 \<le> pos" and "length mtree = TwigMtEntryCount"
  shows "AppendTwig meow tf mtree pos = foldE (append1 Append) (twigRecords meow mtree pos) tf"
  using assms
  by (simp add: AppendTwig_def twigRecords_def append1_def [abs_def] Let_def foldE_map case_prod_unfold)

lemma length_concat_32: "\<forall>n \<in> set ms. length n = 32 \<Longrightarrow> length (concat ms) = 32 * length ms"
  by (induction ms) auto

lemma twigRecords_offset:
  assumes "meow4 meow" and "\<forall>n \<in> set mtree. length n = 32" and "i \<le> length mtree"
  shows "length (concat (concat (take (Suc i) (twigRecords meow mtree pos)))) = 12 + 32 * i"
proof -
  have "concat (concat (map (\<lambda>node. [node]) (take i mtree))) = concat (take i mtree)"
    by (simp add: concat_map_singleton)
  moreover have "length (concat (take i mtree)) = 32 * i"
    using length_concat_32 [of "take i mtree"] assms(2,3) by (auto dest: in_set_takeD)
  ultimately show ?thesis
    using assms(1) by (simp add: twigRecords_def Let_def meow4_def take_map)
qed

text \<open>The twig with number \<open>twigID\<close> is in the file.\<close>

definition twig_stored :: "(bytes \<Rightarrow> bytes) \<Rightarrow> TwigMtFile \<Rightarrow> nat \<Rightarrow> bytes list \<Rightarrow> int \<Rightarrow> bool" where
  "twig_stored meow tf twigID mtree pos \<longleftrightarrow>
     stored tf (twigID * TwigMtSize) (put_le 8 (uint64 pos) @ meow (put_le 8 (uint64 pos))) \<and>
     (\<forall>i < TwigMtEntryCount. stored tf (twigID * TwigMtSize + 12 + 32 * i) (mtree ! i))"

lemma AppendTwig_ok:
  assumes inv: "hp_inv h" and size: "Size h = twigID * TwigMtSize" and buf: "32 \<le> bufferSize h"
    and m: "meow4 meow" and mt: "length mtree = TwigMtEntryCount" "\<forall>n \<in> set mtree. length n = 32"
    and pos: "0 \<le> pos"
  shows "\<exists>h'. AppendTwig meow h mtree pos = Inr h' \<and> hp_inv h' \<and> bufferSize h' = bufferSize h \<and> blockSize h' = blockSize h \<and>
    Size h' = (twigID + 1) * TwigMtSize \<and> twig_stored meow h' twigID mtree pos \<and>
    (\<forall>q d. stored h q d \<longrightarrow> stored h' q d)"
proof -
  let ?rs = "twigRecords meow mtree pos"
  have fits: "\<forall>r \<in> set ?rs. fits h r"
    using m mt(2) buf by (auto simp: twigRecords_def fits_def Let_def meow4_def)
  from hp.appends_ok [OF inv fits] obtain h' where h': "foldE (append1 Append) ?rs h = Inr h'" "hp_inv h'"
    "Size h' = Size h + length (concat (concat ?rs))" "\<forall>r'. fits h' r' = fits h r'"
    "\<forall>q d. stored h q d \<longrightarrow> stored h' q d"
    "\<forall>i < length ?rs. stored h' (Size h + length (concat (concat (take i ?rs)))) (concat (?rs ! i))" by blast
  have len: "length ?rs = Suc TwigMtEntryCount" using mt(1) by (simp add: twigRecords_def Let_def)
  have "length (concat (concat ?rs)) = 12 + 32 * TwigMtEntryCount"
    using twigRecords_offset [OF m mt(2), of TwigMtEntryCount pos] mt(1) len by simp
  then have sz: "Size h' = (twigID + 1) * TwigMtSize"
    using h'(3) size by (simp add: TwigMtSize_def)
  have "stored h' (twigID * TwigMtSize) (put_le 8 (uint64 pos) @ meow (put_le 8 (uint64 pos)))"
    using h'(6) [rule_format, of 0] size by (simp add: twigRecords_def Let_def)
  moreover have "stored h' (twigID * TwigMtSize + 12 + 32 * i) (mtree ! i)" if "i < TwigMtEntryCount" for i
    using h'(6) [rule_format, of "Suc i"] that len mt(1) size twigRecords_offset [OF m mt(2), of i pos]
    by (simp add: twigRecords_def Let_def add.assoc)
  ultimately have st: "twig_stored meow h' twigID mtree pos" by (simp add: twig_stored_def)
  have "bufferSize h' = bufferSize h"
    using h'(4) [rule_format, of "[replicate (bufferSize h) 0]"] h'(4) [rule_format, of "[replicate (bufferSize h') 0]"]
    by (auto simp: fits_def)
  moreover have "blockSize h' = blockSize h"
    by (rule foldE_invariant [OF h'(1), of "\<lambda>k. blockSize k = blockSize h"])
      (auto simp: append1_def outcome_simps dest: Append_blockSize split: sum.splits)
  ultimately show ?thesis using h' sz st by (auto simp: AppendTwig_run [OF pos mt(1)])
qed

lemma twig_stored_pos:
  assumes st: "twig_stored meow h twigID mtree pos" and fl: "buffer h = []" and m: "meow4 meow" and pos: "in_int64 pos"
  shows "GetFirstEntryPos meow h twigID = Inr pos"
proof -
  let ?b = "put_le 8 (uint64 pos)"
  have "ReadAt h (length (?b @ meow ?b)) (twigID * TwigMtSize) False = Inr (?b @ meow ?b, h)"
    using st by (intro ReadAt_direct [OF _ fl]) (simp add: twig_stored_def)
  then show ?thesis using m pos by (simp add: GetFirstEntryPos_def meow4_def int64_uint64)
qed

lemma twig_stored_node:
  assumes st: "twig_stored meow h twigID mtree pos" and fl: "buffer h = []"
    and mt: "length mtree = TwigMtEntryCount" "\<forall>n \<in> set mtree. length n = 32" and k: "1 \<le> k" "k < 4096"
  shows "GetHashNode h twigID k = Inr (mtree ! (k - 1))"
proof -
  have "k - 1 < TwigMtEntryCount" using k by (simp add: TwigMtEntryCount_def)
  then have "stored h (twigID * TwigMtSize + 12 + 32 * (k - 1)) (mtree ! (k - 1))" "length (mtree ! (k - 1)) = 32"
    using st mt by (auto simp: twig_stored_def)
  with ReadAt_direct [OF this(1) fl] k show ?thesis by (simp add: GetHashNode_nat mult.commute)
qed

section \<open>Properties\<close>

text \<open>
  C31: writing a finished twig behind the twigs already in the file succeeds, advances the file by
  exactly one twig, and after a flush every node of its Merkle tree and the checked position of its
  first entry are read back by twig number, while the twigs stored before it stay readable.
\<close>

theorem AppendTwig_GetHashNode:
  assumes "hp_inv h" and "Size h = twigID * TwigMtSize" and "32 \<le> bufferSize h" and "meow4 meow"
    and "length mtree = TwigMtEntryCount" and "\<forall>n \<in> set mtree. length n = 32"
    and "0 \<le> pos" and "in_int64 pos"
  shows "\<exists>h1 h2. AppendTwig meow h mtree pos = Inr h1 \<and> flush h1 = Inr h2 \<and>
    Size h2 = (twigID + 1) * TwigMtSize \<and> GetFirstEntryPos meow h2 twigID = Inr pos \<and>
    (\<forall>k. 1 \<le> k \<and> k < 4096 \<longrightarrow> GetHashNode h2 twigID k = Inr (mtree ! (k - 1))) \<and>
    (\<forall>id mt p. twig_stored meow h id mt p \<longrightarrow> twig_stored meow h2 id mt p)"
proof -
  from AppendTwig_ok [OF assms(1-7)] obtain h1 where h1: "AppendTwig meow h mtree pos = Inr h1" "hp_inv h1"
    "Size h1 = (twigID + 1) * TwigMtSize" "twig_stored meow h1 twigID mtree pos"
    "\<forall>q d. stored h q d \<longrightarrow> stored h1 q d" by blast
  from h1(2) flush_ok [of h1] obtain h2 where h2: "flush h1 = Inr h2" "buffer h2 = []"
    "stream h2 = stream h1" "blockSize h2 = blockSize h1" "Size h2 = Size h1"
    by (auto simp: hp_inv_def Size_def)
  from h2 have st: "stored h2 = stored h1" by (simp add: stored_def fun_eq_iff)
  with h1 have "twig_stored meow h2 twigID mtree pos" by (simp add: twig_stored_def)
  note twig_stored_pos [OF this h2(2) assms(4,8)] twig_stored_node [OF this h2(2) assms(5,6)]
  moreover have "twig_stored meow h id mt p \<longrightarrow> twig_stored meow h2 id mt p" for id mt p
    using h1(5) by (simp add: twig_stored_def st)
  ultimately show ?thesis using h1 h2 by auto
qed

definition mtHP :: HPFile where
  "mtHP = \<lparr>fileMap = [0 \<mapsto> \<lparr>contents = [], offset = 0\<rparr>], blockSize = 64, largestID = 0,
     latestFileSize = 0, bufferSize = 64, buffer = [], preReader = PreReader_zero\<rparr>"

theorem AppendTwig_GetHashNode_witness:
  "\<exists>h1 h2. AppendTwig (\<lambda>_. [1,2,3,4]) mtHP (replicate TwigMtEntryCount (replicate 32 7)) 40 = Inr h1 \<and>
    flush h1 = Inr h2 \<and> GetFirstEntryPos (\<lambda>_. [1,2,3,4]) h2 0 = Inr 40 \<and>
    GetHashNode h2 0 1 = Inr (replicate 32 7)"
proof -
  have m: "hp_inv mtHP" "Size mtHP = 0 * TwigMtSize" "32 \<le> bufferSize mtHP"
    by (simp_all add: mtHP_def hp_inv_def hp_ok_def Size_def)
  from AppendTwig_GetHashNode [OF m, of "\<lambda>_. [1,2,3,4]" "replicate TwigMtEntryCount (replicate 32 7)" 40]
  show ?thesis by (auto simp: meow4_def in_int64_def TwigMtEntryCount_def simp del: replicate_Suc)
qed

end
