(* ===== verification/DataTree.thy ===== *)
theory DataTree
  imports Twig EntryFile TwigMtFile
begin

text \<open>
  The data tree of datatree/tree.go and its consistency check of datatree/check.go: appending entries,
  activating and deactivating leaves, evicting and pruning twigs, and the incremental recomputation
  of the Merkle tree at the end of a block.

  Serial numbers, twig numbers and node indexes are natural numbers; the operations that take an int64
  from outside panic on a negative one, as the lookup of its twig does. A Go map of pointers to twigs
  or hashes is a partial map, and a hash job names the cell that its slice points into.
  \<open>sha\<close> is SHA-256 and \<open>meow\<close> the checksum of the Merkle-tree file.
\<close>

section \<open>State\<close>

definition MinPruneCount :: nat where
  "MinPruneCount = 2"

record Tree =
  entryFile :: EntryFile
  twigMtFile :: TwigMtFile
  nodes :: "nat \<rightharpoonup> bytes"
  youngestTwigID :: nat
  activeTwigs :: "nat \<rightharpoonup> Twig"
  mtree4YoungestTwig :: "bytes list"
  leave4YoungestTwig :: "(bytes option \<times> bytes) list"
  mtree4YTChangeStart :: int
  mtree4YTChangeEnd :: int
  twigsToBeDeleted :: "nat list"
  touchedPosOf512b :: "nat set"
  deactivedSNList :: "int list"

text \<open>\<open>NodePos((int64(level) << 56) | n)\<close>.\<close>

definition Pos :: "nat \<Rightarrow> nat \<Rightarrow> nat" where
  "Pos level n = or (push_bit 56 level) n"

definition NewEmptyTree :: "(bytes \<Rightarrow> bytes) \<Rightarrow> EntryFile \<Rightarrow> TwigMtFile \<Rightarrow> Tree" where
  "NewEmptyTree sha ef tf =
     \<lparr>entryFile = ef, twigMtFile = tf, nodes = [Pos FirstLevelAboveTwig 0 \<mapsto> zeroHash],
      youngestTwigID = 0, activeTwigs = [0 \<mapsto> CopyNullTwig sha],
      mtree4YoungestTwig = NullMT4Twig sha, leave4YoungestTwig = replicate 2048 (None, []),
      mtree4YTChangeStart = -1, mtree4YTChangeEnd = -1, twigsToBeDeleted = [],
      touchedPosOf512b = {}, deactivedSNList = []\<rparr>"

text \<open>\<open>bits.LeadingZeros64\<close>, by the number of significant bits.\<close>

fun bits_Len :: "nat \<Rightarrow> nat" where
  "bits_Len n = (if n = 0 then 0 else Suc (bits_Len (n div 2)))"

definition LeadingZeros64 :: "nat \<Rightarrow> nat" where
  "LeadingZeros64 n = 64 - bits_Len n"

definition calcMaxLevel :: "nat \<Rightarrow> nat" where
  "calcMaxLevel y = FirstLevelAboveTwig + 63 - LeadingZeros64 y"

definition GetFileSizes :: "Tree \<Rightarrow> nat \<times> nat" where
  "GetFileSizes t = (Size (entryFile t), Size (twigMtFile t))"

definition TruncateFiles :: "Tree \<Rightarrow> nat \<Rightarrow> nat \<Rightarrow> Tree outcome" where
  "TruncateFiles t entryFileSize twigMtFileSize =
     bindE (Truncate (entryFile t) entryFileSize) (\<lambda>ef.
     bindE (Truncate (twigMtFile t) twigMtFileSize) (\<lambda>tf.
       Inr (t\<lparr>entryFile := ef, twigMtFile := tf\<rparr>)))"

definition Tree_ReadEntry :: "Tree \<Rightarrow> nat \<Rightarrow> Entry outcome" where
  "Tree_ReadEntry t pos = bindE (ReadEntry (entryFile t) pos) (\<lambda>((e, _), _). Inr e)"

text \<open>\<open>tree.activeTwigs[twigID]\<close> followed by a method call: a missing twig is a nil receiver.\<close>

definition lookupTwig :: "Tree \<Rightarrow> nat \<Rightarrow> Twig outcome" where
  "lookupTwig t twigID = (case activeTwigs t twigID of None \<Rightarrow> Inl NilDeref | Some tw \<Rightarrow> Inr tw)"

definition nonneg :: "int \<Rightarrow> nat outcome" where
  "nonneg sn = (if sn < 0 then Inl NilDeref else Inr (nat sn))"

section \<open>Activation and appending\<close>

definition GetActiveBit :: "Tree \<Rightarrow> int \<Rightarrow> bool outcome" where
  "GetActiveBit t sn0 = bindE (nonneg sn0) (\<lambda>sn.
     bindE (lookupTwig t (sn div 2 ^ TwigShift)) (\<lambda>tw. getBit (sn mod LeafCountInTwig) tw))"

definition setEntryActiviation :: "nat \<Rightarrow> bool \<Rightarrow> Tree \<Rightarrow> Tree outcome" where
  "setEntryActiviation sn act t =
     (let twigID = sn div 2 ^ TwigShift; off = sn mod LeafCountInTwig
      in bindE (lookupTwig t twigID) (\<lambda>tw.
         bindE (if act then setBit off tw else clearBit off tw) (\<lambda>tw.
           Inr (t\<lparr>activeTwigs := (activeTwigs t)(twigID \<mapsto> tw),
                 deactivedSNList := (if act then deactivedSNList t else deactivedSNList t @ [int sn]),
                 touchedPosOf512b := insert (sn div 512) (touchedPosOf512b t)\<rparr>))))"

definition ActiviateEntry :: "nat \<Rightarrow> Tree \<Rightarrow> Tree outcome" where
  "ActiviateEntry sn t = setEntryActiviation sn True t"

definition DeactiviateEntry :: "int \<Rightarrow> Tree \<Rightarrow> (nat \<times> Tree) outcome" where
  "DeactiviateEntry sn0 t = bindE (nonneg sn0) (\<lambda>sn.
     bindE (setEntryActiviation sn False t) (\<lambda>t. Inr (length (deactivedSNList t), t)))"

section \<open>The memory of the hash jobs\<close>

text \<open>
  The arrays that hash jobs point into: the 32-byte pieces of the active bits and their Merkle levels,
  the two roots of a twig, the Merkle tree of the youngest twig, the upper nodes, and local copies.
\<close>

datatype cell = CBits nat nat | CL1 nat nat | CL2 nat nat | CL3 nat | CLeft nat | CTop nat
  | CMt nat | CNode nat | CVal bytes

definition twig_field :: "Tree \<Rightarrow> nat \<Rightarrow> (Twig \<Rightarrow> bytes) \<Rightarrow> bytes" where
  "twig_field t twigID f = (case activeTwigs t twigID of None \<Rightarrow> [] | Some tw \<Rightarrow> f tw)"

definition nth0 :: "bytes list \<Rightarrow> nat \<Rightarrow> bytes" where
  "nth0 xs i = (if i < length xs then xs ! i else [])"

fun rd :: "Tree \<Rightarrow> cell \<Rightarrow> bytes" where
  "rd t (CBits T k) = twig_field t T (\<lambda>tw. subslice (activeBits tw) (32 * k) (32 * k + 32))"
| "rd t (CL1 T p) = twig_field t T (\<lambda>tw. nth0 (activeBitsMTL1 tw) p)"
| "rd t (CL2 T p) = twig_field t T (\<lambda>tw. nth0 (activeBitsMTL2 tw) p)"
| "rd t (CL3 T) = twig_field t T activeBitsMTL3"
| "rd t (CLeft T) = twig_field t T leftRoot"
| "rd t (CTop T) = twig_field t T twigRoot"
| "rd t (CMt i) = nth0 (mtree4YoungestTwig t) i"
| "rd t (CNode p) = (case nodes t p of None \<Rightarrow> [] | Some h \<Rightarrow> h)"
| "rd t (CVal b) = b"

definition upd_twig :: "nat \<Rightarrow> (Twig \<Rightarrow> Twig) \<Rightarrow> Tree \<Rightarrow> Tree" where
  "upd_twig T f t = t\<lparr>activeTwigs := (activeTwigs t)(T := map_option f (activeTwigs t T))\<rparr>"

fun wr :: "cell \<Rightarrow> bytes \<Rightarrow> Tree \<Rightarrow> Tree" where
  "wr (CBits T k) v t = t"
| "wr (CL1 T p) v t = upd_twig T (\<lambda>tw. tw\<lparr>activeBitsMTL1 := (activeBitsMTL1 tw)[p := v]\<rparr>) t"
| "wr (CL2 T p) v t = upd_twig T (\<lambda>tw. tw\<lparr>activeBitsMTL2 := (activeBitsMTL2 tw)[p := v]\<rparr>) t"
| "wr (CL3 T) v t = upd_twig T (\<lambda>tw. tw\<lparr>activeBitsMTL3 := v\<rparr>) t"
| "wr (CLeft T) v t = upd_twig T (\<lambda>tw. tw\<lparr>leftRoot := v\<rparr>) t"
| "wr (CTop T) v t = upd_twig T (\<lambda>tw. tw\<lparr>twigRoot := v\<rparr>) t"
| "wr (CMt i) v t = t\<lparr>mtree4YoungestTwig := (mtree4YoungestTwig t)[i := v]\<rparr>"
| "wr (CNode p) v t = t\<lparr>nodes := (nodes t)(p \<mapsto> v)\<rparr>"
| "wr (CVal b) v t = t"

definition tree_job :: "byte \<Rightarrow> cell \<Rightarrow> cell \<Rightarrow> cell \<Rightarrow> cell hashJob" where
  "tree_job level tgt a b = \<lparr>job_target = tgt, job_level = level, job_srcA = a, job_srcB = b\<rparr>"

definition syncL1 :: "nat \<Rightarrow> nat \<Rightarrow> cell hashJob" where
  "syncL1 T pos = tree_job 8 (CL1 T pos) (CBits T (2 * pos)) (CBits T (2 * pos + 1))"

definition syncL2 :: "nat \<Rightarrow> nat \<Rightarrow> cell hashJob" where
  "syncL2 T pos = tree_job 9 (CL2 T pos) (CL1 T (2 * pos)) (CL1 T (2 * pos + 1))"

definition syncL3 :: "nat \<Rightarrow> cell hashJob" where
  "syncL3 T = tree_job 10 (CL3 T) (CL2 T 0) (CL2 T 1)"

definition syncTop :: "nat \<Rightarrow> cell hashJob" where
  "syncTop T = tree_job 11 (CTop T) (CLeft T) (CL3 T)"

section \<open>Synchronising the Merkle tree\<close>

text \<open>The workers' loop over the new leaves, each of which writes its own node.\<close>

definition hash_leaves :: "(bytes \<Rightarrow> bytes) \<Rightarrow> Tree \<Rightarrow> Tree" where
  "hash_leaves sha t =
     (let ls = leave4YoungestTwig t; mt = mtree4YoungestTwig t
      in t\<lparr>mtree4YoungestTwig := map (\<lambda>i. if i < LeafCountInTwig then mt ! i
               else case ls ! (i - LeafCountInTwig) of
                      (None, _) \<Rightarrow> mt ! i
                    | (Some b0, b1) \<Rightarrow> sha (b0 @ b1)) [0 ..< length mt],
           leave4YoungestTwig := map (\<lambda>(_, b1). (None, b1)) ls\<rparr>)"

text \<open>The jobs of one level: \<open>j\<close> runs over the even positions from \<open>start &^ 1\<close> to \<open>endRound\<close>.\<close>

definition mt_jobs :: "nat \<Rightarrow> nat \<Rightarrow> nat \<Rightarrow> nat \<Rightarrow> cell hashJob list" where
  "mt_jobs base level start end' =
     (let endRound = (if end' mod 2 = 1 then end' + 1 else end')
      in map (\<lambda>k. let i = base + 2 * k in tree_job (word_of_nat level) (CMt (i div 2)) (CMt i) (CMt (i + 1)))
           (filter (\<lambda>k. 2 * k \<le> endRound \<and> 2 * k + 1 < base) [start div 2 ..< base]))"

definition mt_round :: "(bytes \<Rightarrow> bytes) \<Rightarrow> nat \<Rightarrow> nat \<Rightarrow> nat \<Rightarrow> Tree \<Rightarrow> Tree" where
  "mt_round sha start end' level t =
     Run sha rd wr (mt_jobs (LeafCountInTwig div 2 ^ level) level (start div 2 ^ level) (end' div 2 ^ level)) t"

definition syncMT4YoungestTwig :: "(bytes \<Rightarrow> bytes) \<Rightarrow> Tree \<Rightarrow> Tree outcome" where
  "syncMT4YoungestTwig sha t =
     (if mtree4YTChangeStart t = -1 then Inr t
      else
        (let t1 = hash_leaves sha t;
             t2 = fold (mt_round sha (nat (mtree4YTChangeStart t)) (nat (mtree4YTChangeEnd t))) [0 ..< 11] t1;
             t3 = t2\<lparr>mtree4YTChangeStart := -1, mtree4YTChangeEnd := 0\<rparr>
         in bindE (lookupTwig t3 (youngestTwigID t3)) (\<lambda>_.
              Inr (wr (CLeft (youngestTwigID t3)) (mtree4YoungestTwig t3 ! 1) t3))))"

text \<open>
  The four batches of \<open>syncMT4ActiveBits\<close>. Appending \<open>i/2\<close> unless it is the last element of the
  new list is \<open>remdups_adj\<close>. The twigs of all positions are looked up when the first batch is built.
\<close>

definition halve :: "nat list \<Rightarrow> nat list" where
  "halve ns = remdups_adj (map (\<lambda>i. i div 2) ns)"

definition syncMT4ActiveBits :: "(bytes \<Rightarrow> bytes) \<Rightarrow> Tree \<Rightarrow> (nat list \<times> Tree) outcome" where
  "syncMT4ActiveBits sha t =
     (let n0 = sorted_list_of_set (touchedPosOf512b t)
      in bindE (guardE (\<forall>i \<in> set n0. activeTwigs t (i div 4) \<noteq> None) NilDeref) (\<lambda>_.
         let t1 = Run sha rd wr (map (\<lambda>i. syncL1 (i div 4) (i mod 4)) n0) t; n1 = halve n0;
             t2 = Run sha rd wr (map (\<lambda>i. syncL2 (i div 2) (i mod 2)) n1) t1; n2 = halve n1;
             t3 = Run sha rd wr (map syncL3 n2) t2;
             t4 = Run sha rd wr (map syncTop n2) t3
         in Inr (halve n2, t4)))"

definition maxNAtLevel :: "nat \<Rightarrow> nat \<Rightarrow> nat outcome" where
  "maxNAtLevel y level =
     (if level < FirstLevelAboveTwig then Inl (Panic ''level is too small'')
      else Inr (y div 2 ^ (level - FirstLevelAboveTwig)))"

definition getTwigRoot :: "Tree \<Rightarrow> nat \<Rightarrow> bytes option" where
  "getTwigRoot t n =
     (case activeTwigs t n of Some tw \<Rightarrow> Some (twigRoot tw)
      | None \<Rightarrow> nodes t (Pos (FirstLevelAboveTwig - 1) n))"

text \<open>One round of the loop of \<open>syncNodesByLevel\<close>: the tree with the nodes it creates, and the job.\<close>

definition syncNode :: "(bytes \<Rightarrow> bytes) \<Rightarrow> nat \<Rightarrow> nat \<Rightarrow> nat \<Rightarrow> Tree \<times> cell hashJob list \<Rightarrow>
    (Tree \<times> cell hashJob list) outcome" where
  "syncNode sha level maxN i tj =
     (let (t, jobs) = tj; p = Pos level i;
          t = (if nodes t p = None then t\<lparr>nodes := (nodes t)(p \<mapsto> zeroHash)\<rparr> else t)
      in if level = FirstLevelAboveTwig then
           (case getTwigRoot t (2 * i) of
              None \<Rightarrow> Inl (Panic ''Cannot find left twig root'')
            | Some left \<Rightarrow>
                (let right = (case getTwigRoot t (2 * i + 1) of None \<Rightarrow> twigRoot (NullTwig sha) | Some r \<Rightarrow> r)
                 in Inr (t, Add (word_of_nat (level - 1)) (CNode p) (CVal left) (CVal right) jobs)))
         else
           (let pL = Pos (level - 1) (2 * i); pR = Pos (level - 1) (2 * i + 1)
            in if nodes t pL = None then Inl (Panic ''Failed to find the left child'')
               else
                 bindE (if nodes t pR \<noteq> None then Inr t
                        else if 2 * i \<noteq> maxN \<and> 2 * i + 1 \<noteq> maxN then Inl (Panic ''Not at the right edge, bug here.'')
                        else Inr (t\<lparr>nodes := (nodes t)(pR \<mapsto> NullNodeInHigherTree sha level)\<rparr>)) (\<lambda>t.
                   Inr (t, Add (word_of_nat (level - 1)) (CNode p) (CNode pL) (CNode pR) jobs))))"

definition syncNodesByLevel :: "(bytes \<Rightarrow> bytes) \<Rightarrow> nat \<Rightarrow> nat list \<times> Tree \<Rightarrow> (nat list \<times> Tree) outcome" where
  "syncNodesByLevel sha level nt =
     (let (nList, t) = nt
      in bindE (maxNAtLevel (youngestTwigID t) level) (\<lambda>maxN.
         bindE (foldE (syncNode sha level maxN) nList (t, [])) (\<lambda>(t, jobs).
           Inr (halve nList, Run sha rd wr jobs t))))"

definition syncUpperNodes :: "(bytes \<Rightarrow> bytes) \<Rightarrow> nat list \<Rightarrow> Tree \<Rightarrow> Tree outcome" where
  "syncUpperNodes sha nList t =
     bindE (foldE (syncNodesByLevel sha) [FirstLevelAboveTwig ..< Suc (calcMaxLevel (youngestTwigID t))] (nList, t))
       (\<lambda>(_, t). Inr t)"

definition syncMT :: "(bytes \<Rightarrow> bytes) \<Rightarrow> Tree \<Rightarrow> (bytes \<times> Tree) outcome" where
  "syncMT sha t0 =
     (let maxLevel = calcMaxLevel (youngestTwigID t0)
      in bindE (syncMT4YoungestTwig sha t0) (\<lambda>t.
         bindE (syncMT4ActiveBits sha t) (\<lambda>(nList, t).
         bindE (syncUpperNodes sha nList t) (\<lambda>t.
           let t = t\<lparr>touchedPosOf512b := {}\<rparr>
           in case nodes t (Pos maxLevel 0) of None \<Rightarrow> Inl NilDeref | Some h \<Rightarrow> Inr (h, t)))))"

section \<open>Appending, eviction, the end of a block, pruning\<close>

definition appendEntry :: "(bytes \<Rightarrow> bytes) \<Rightarrow> (bytes \<Rightarrow> bytes) \<Rightarrow> bytes \<times> bytes \<Rightarrow> int \<Rightarrow> Tree \<Rightarrow> (nat \<times> Tree) outcome" where
  "appendEntry sha meow bzTwo sn0 t0 =
     bindE (nonneg sn0) (\<lambda>sn.
       let twigID = sn div 2 ^ TwigShift; t = t0\<lparr>youngestTwigID := twigID\<rparr>
       in bindE (ActiviateEntry sn t) (\<lambda>t.
       let position = sn mod LeafCountInTwig;
           t = t\<lparr>mtree4YTChangeStart := (if mtree4YTChangeStart t = -1 then int position else mtree4YTChangeStart t),
                 mtree4YTChangeEnd := int position\<rparr>
       in bindE (EntryFile_Append (entryFile t) (fst bzTwo) (snd bzTwo)) (\<lambda>(pos, ef).
       let t = t\<lparr>entryFile := ef,
                 leave4YoungestTwig := (leave4YoungestTwig t)[position := (Some (fst bzTwo), snd bzTwo)]\<rparr>
       in if position = 0 then
            Inr (pos, upd_twig twigID (\<lambda>tw. tw\<lparr>FirstEntryPos := int pos\<rparr>) t)
          else if position = TwigMask then
            bindE (syncMT4YoungestTwig sha t) (\<lambda>t.
            bindE (lookupTwig t twigID) (\<lambda>tw.
            bindE (AppendTwig meow (twigMtFile t) (tl (mtree4YoungestTwig t)) (FirstEntryPos tw)) (\<lambda>tf.
              Inr (pos, t\<lparr>twigMtFile := tf, youngestTwigID := youngestTwigID t + 1,
                  activeTwigs := (activeTwigs t)(youngestTwigID t + 1 \<mapsto> CopyNullTwig sha),
                  mtree4YoungestTwig := NullMT4Twig sha,
                  touchedPosOf512b := insert ((sn + 1) div 512) (touchedPosOf512b t)\<rparr>))))
          else Inr (pos, t))))"

definition AppendEntry :: "(bytes \<Rightarrow> bytes) \<Rightarrow> (bytes \<Rightarrow> bytes) \<Rightarrow> Entry \<Rightarrow> Tree \<Rightarrow> (nat \<times> Tree) outcome" where
  "AppendEntry sha meow e t =
     (let bz = EntryToBytes e (deactivedSNList t)
      in appendEntry sha meow (bz, []) (SerialNum e) (t\<lparr>deactivedSNList := []\<rparr>))"

definition AppendEntryRawBytes :: "(bytes \<Rightarrow> bytes) \<Rightarrow> (bytes \<Rightarrow> bytes) \<Rightarrow> bytes \<Rightarrow> int \<Rightarrow> Tree \<Rightarrow> (nat \<times> Tree) outcome" where
  "AppendEntryRawBytes sha meow entryBz sn t =
     (if entryBz = [] then Inl IndexOutOfRange
      else
        (let bz0 = entryBz[0 := word_of_nat (length (deactivedSNList t) mod 256)];
             bz1 = SNListToBytes (deactivedSNList t)
         in appendEntry sha meow (bz0, bz1) sn (t\<lparr>deactivedSNList := []\<rparr>)))"

definition GetActiveEntriesInTwig :: "Tree \<Rightarrow> nat \<Rightarrow> bytes list outcome" where
  "GetActiveEntriesInTwig t twigID =
     bindE (lookupTwig t twigID) (\<lambda>tw.
       if FirstEntryPos tw < 0 then Inl (IOError ''Can not find the file'')
       else bindE (GetActiveEntries_loop (is_active tw) 0 LeafCountInTwig (entryFile t) (nat (FirstEntryPos tw)))
              (\<lambda>(res, _). Inr res))"

definition TwigCanBePruned :: "Tree \<Rightarrow> nat \<Rightarrow> bool" where
  "TwigCanBePruned t twigID = (activeTwigs t twigID = None)"

definition EvictTwig :: "nat \<Rightarrow> Tree \<Rightarrow> Tree" where
  "EvictTwig twigID t = t\<lparr>twigsToBeDeleted := twigsToBeDeleted t @ [twigID]\<rparr>"

definition deleteTwig :: "nat \<Rightarrow> Tree \<Rightarrow> Tree outcome" where
  "deleteTwig twigID t =
     bindE (lookupTwig t twigID) (\<lambda>tw.
       Inr (t\<lparr>nodes := (nodes t)(Pos (FirstLevelAboveTwig - 1) twigID \<mapsto> twigRoot tw),
             activeTwigs := (activeTwigs t)(twigID := None)\<rparr>))"

definition EndBlock :: "(bytes \<Rightarrow> bytes) \<Rightarrow> Tree \<Rightarrow> (bytes \<times> Tree) outcome" where
  "EndBlock sha t0 =
     bindE (syncMT sha t0) (\<lambda>(rootHash, t).
     bindE (foldE deleteTwig (twigsToBeDeleted t) t) (\<lambda>t.
     bindE (flush (entryFile t)) (\<lambda>ef.
     bindE (flush (twigMtFile t)) (\<lambda>tf.
       Inr (rootHash, t\<lparr>twigsToBeDeleted := [], entryFile := ef, twigMtFile := tf\<rparr>)))))"

text \<open>An edge node: the position and the hash of a node that stays at the left edge after pruning.\<close>

definition roundEnd :: "nat \<Rightarrow> nat \<Rightarrow> nat" where
  "roundEnd level e = (if e mod 2 \<noteq> 0 \<and> level \<noteq> FirstLevelAboveTwig - 1 then e - 1 else e)"

fun removeUselessNodes_loop :: "nat list \<Rightarrow> nat \<Rightarrow> nat \<Rightarrow> (nat \<rightharpoonup> bytes) \<Rightarrow> (nat \<rightharpoonup> bytes)" where
  "removeUselessNodes_loop [] s e m = m"
| "removeUselessNodes_loop (level # ls) s e m =
     removeUselessNodes_loop ls (s div 2) (e div 2)
       (fold (\<lambda>i m. m(Pos level i := None)) [s - 1 ..< roundEnd level e] m)"

definition removeUselessNodes :: "nat \<Rightarrow> nat \<Rightarrow> Tree \<Rightarrow> Tree" where
  "removeUselessNodes s e t =
     t\<lparr>nodes := removeUselessNodes_loop [FirstLevelAboveTwig - 1 ..< Suc (calcMaxLevel (youngestTwigID t))] s e (nodes t)\<rparr>"

fun getEdgeNodes_loop :: "nat list \<Rightarrow> nat \<Rightarrow> (nat \<rightharpoonup> bytes) \<Rightarrow> (nat \<times> bytes) list outcome" where
  "getEdgeNodes_loop [] e m = Inr []"
| "getEdgeNodes_loop (level # ls) e m =
     (case m (Pos level (roundEnd level e)) of
        None \<Rightarrow> Inl (Panic ''What? can not find'')
      | Some h \<Rightarrow> bindE (getEdgeNodes_loop ls (e div 2) m) (\<lambda>es. Inr ((Pos level (roundEnd level e), h) # es)))"

definition getEdgeNodes :: "nat \<Rightarrow> Tree \<Rightarrow> (nat \<times> bytes) list outcome" where
  "getEdgeNodes e t =
     getEdgeNodes_loop [FirstLevelAboveTwig - 1 ..< Suc (calcMaxLevel (youngestTwigID t))] e (nodes t)"

definition EdgeNodesToBytes :: "(nat \<times> bytes) list \<Rightarrow> bytes" where
  "EdgeNodesToBytes es = concat (map (\<lambda>(p, v). put_le 8 p @ v) es)"

definition ReapNodes :: "nat \<Rightarrow> nat \<Rightarrow> Tree \<Rightarrow> (bytes \<times> Tree) outcome" where
  "ReapNodes s e t0 =
     (let t = removeUselessNodes s e t0
      in bindE (getEdgeNodes e t) (\<lambda>es. Inr (EdgeNodesToBytes es, t)))"

definition PruneTwigs :: "(bytes \<Rightarrow> bytes) \<Rightarrow> nat \<Rightarrow> nat \<Rightarrow> Tree \<Rightarrow> (bytes \<times> Tree) outcome" where
  "PruneTwigs meow startID endID t =
     (if int endID - int startID < int MinPruneCount then Inl (Panic ''The count of pruned twigs is too small'')
      else
        bindE (GetFirstEntryPos meow (twigMtFile t) endID) (\<lambda>pos.
          if pos < 0 then Inl (IOError ''invalid position'')
          else
            ReapNodes startID endID
              (t\<lparr>entryFile := PruneHead (entryFile t) (nat pos),
                 twigMtFile := PruneHead (twigMtFile t) (endID * TwigMtSize)\<rparr>)))"

section \<open>The consistency check of check.go\<close>

definition checkMT :: "(bytes \<Rightarrow> bytes) \<Rightarrow> bytes list \<Rightarrow> bool" where
  "checkMT sha mt \<longleftrightarrow> (\<forall>k \<in> set [0 ..< 11]. \<forall>i \<in> set [2 ^ k ..< 2 * 2 ^ k].
     mt ! i = sha ([word_of_nat (10 - k)] @ mt ! (2 * i) @ mt ! (2 * i + 1)))"

definition checkTwig :: "(bytes \<Rightarrow> bytes) \<Rightarrow> Twig \<Rightarrow> bool" where
  "checkTwig sha tw \<longleftrightarrow>
     (\<forall>p \<in> set [0 ..< 4]. activeBitsMTL1 tw ! p = sha ([8] @ subslice (activeBits tw) (64 * p) (64 * p + 64))) \<and>
     (\<forall>q \<in> set [0 ..< 2]. activeBitsMTL2 tw ! q = sha ([9] @ activeBitsMTL1 tw ! (2 * q) @ activeBitsMTL1 tw ! (2 * q + 1))) \<and>
     activeBitsMTL3 tw = sha ([10] @ activeBitsMTL2 tw ! 0 @ activeBitsMTL2 tw ! 1) \<and>
     twigRoot tw = sha ([11] @ leftRoot tw @ activeBitsMTL3 tw)"

text \<open>
  The check of one node at \<open>pos\<close>, with its level in the top byte and its index below; a node whose
  children are not there is skipped. The loop of \<open>checkUpperNodes\<close> covers all keys of the map.
\<close>

definition checkNode :: "(bytes \<Rightarrow> bytes) \<Rightarrow> Tree \<Rightarrow> nat \<Rightarrow> bytes \<Rightarrow> bool" where
  "checkNode sha t pos parentHash =
     (let level = drop_bit 56 pos; n = take_bit 56 pos;
          children =
            (if level = FirstLevelAboveTwig then
               (case getTwigRoot t (2 * n) of None \<Rightarrow> None
                | Some l \<Rightarrow> Some (l, case getTwigRoot t (2 * n + 1) of None \<Rightarrow> twigRoot (NullTwig sha) | Some r \<Rightarrow> r))
             else
               (case (nodes t (Pos (level - 1) (2 * n)), nodes t (Pos (level - 1) (2 * n + 1))) of
                  (Some l, Some r) \<Rightarrow> Some (l, r) | _ \<Rightarrow> None))
      in case children of None \<Rightarrow> True
         | Some (l, r) \<Rightarrow> sha ([word_of_nat (level - 1)] @ l @ r) = parentHash)"

definition checkUpperNodes :: "(bytes \<Rightarrow> bytes) \<Rightarrow> Tree \<Rightarrow> bool" where
  "checkUpperNodes sha t \<longleftrightarrow> (\<forall>pos h. nodes t pos = Some h \<longrightarrow> checkNode sha t pos h)"

definition checkAllTwigs :: "(bytes \<Rightarrow> bytes) \<Rightarrow> Tree \<Rightarrow> bool" where
  "checkAllTwigs sha t \<longleftrightarrow> (\<forall>T tw. activeTwigs t T = Some tw \<longrightarrow> checkTwig sha tw)"

definition CheckHashConsistency :: "(bytes \<Rightarrow> bytes) \<Rightarrow> Tree \<Rightarrow> bool" where
  "CheckHashConsistency sha t \<longleftrightarrow>
     checkAllTwigs sha t \<and> checkUpperNodes sha t \<and> checkMT sha (mtree4YoungestTwig t)"

end
