(* ===== verification/TreeSync.thy ===== *)
theory TreeSync
  imports DataTree
begin

text \<open>
  The incremental synchronisation of the Merkle tree: the hash jobs of \<open>syncMT4YoungestTwig\<close>,
  \<open>syncMT4ActiveBits\<close> and \<open>syncUpperNodes\<close> recompute exactly what the block has changed, so that
  after them every node is the hash of its children. The lemmas read the tree through \<open>rd\<close> and rest
  on the laws of \<open>cells\<close>.
\<close>

declare bits_Len.simps [simp del]
declare NullNodeInHigherTree.simps [simp del]

section \<open>Node positions\<close>

lemma Pos_eq: "n < 2 ^ 56 \<Longrightarrow> Pos level n = level * 2 ^ 56 + n"
proof -
  assume n: "n < 2 ^ 56"
  have "push_bit 56 level + n = or (push_bit 56 level) n"
  proof (rule disjunctive_add)
    fix k
    have "bit n k \<Longrightarrow> k < 56" using n by (metis bit_take_bit_iff take_bit_nat_eq_self)
    then show "\<not> bit (push_bit 56 level) k \<or> \<not> bit n k" by (auto simp: bit_push_bit_iff)
  qed
  then show ?thesis by (simp add: Pos_def push_bit_eq_mult)
qed

lemma Pos_parts: "n < 2 ^ 56 \<Longrightarrow> drop_bit 56 (Pos level n) = level \<and> take_bit 56 (Pos level n) = n"
  by (simp add: Pos_eq drop_bit_eq_div take_bit_eq_mod)

lemma Pos_inject [simp]:
  "n < 2 ^ 56 \<Longrightarrow> n' < 2 ^ 56 \<Longrightarrow> Pos level n = Pos level' n' \<longleftrightarrow> level = level' \<and> n = n'"
  by (metis Pos_parts)

section \<open>The cells of the tree\<close>

fun tree_valid :: "Tree \<Rightarrow> cell \<Rightarrow> bool" where
  "tree_valid t (CBits T k) = False"
| "tree_valid t (CL1 T p) = (case activeTwigs t T of None \<Rightarrow> False | Some tw \<Rightarrow> p < length (activeBitsMTL1 tw))"
| "tree_valid t (CL2 T p) = (case activeTwigs t T of None \<Rightarrow> False | Some tw \<Rightarrow> p < length (activeBitsMTL2 tw))"
| "tree_valid t (CL3 T) = (activeTwigs t T \<noteq> None)"
| "tree_valid t (CLeft T) = (activeTwigs t T \<noteq> None)"
| "tree_valid t (CTop T) = (activeTwigs t T \<noteq> None)"
| "tree_valid t (CMt i) = (i < length (mtree4YoungestTwig t))"
| "tree_valid t (CNode p) = (nodes t p \<noteq> None)"
| "tree_valid t (CVal b) = False"

interpretation tc: cells rd wr tree_valid
proof
  fix t a v b
  assume "tree_valid t a" and "length (v :: bytes) = 32"
  then show "rd (wr a v t) b = (if b = a then v else rd t b)"
    by (cases a; cases b) (auto simp: twig_field_def upd_twig_def nth0_def split: option.splits)
  show "tree_valid (wr a v t) b = tree_valid t b"
    using \<open>tree_valid t a\<close>
    by (cases a; cases b) (auto simp: upd_twig_def split: option.splits)
qed

text \<open>What the hash jobs leave alone.\<close>

definition frame :: "Tree \<Rightarrow> Tree \<times> (nat \<Rightarrow> (bytes \<times> int) option)" where
  "frame t = (t\<lparr>nodes := Map.empty, mtree4YoungestTwig := [], activeTwigs := Map.empty\<rparr>,
     \<lambda>T. map_option (\<lambda>tw. (activeBits tw, FirstEntryPos tw)) (activeTwigs t T))"

lemma frame_wr [simp]: "frame (wr a v t) = frame t"
  by (cases a) (auto simp: frame_def upd_twig_def fun_eq_iff map_option_case split: option.splits)

lemma frame_fold_run [simp]: "frame (fold (run sha rd wr) js t) = frame t"
  by (induction js arbitrary: t) (simp_all add: run_def)

lemma frame_Run [simp]: "frame (Run sha rd wr js t) = frame t"
  by (simp add: Run_def Let_def)

lemma frame_field:
  assumes "frame t' = frame t"
    and "\<And>t. f (t\<lparr>nodes := Map.empty, mtree4YoungestTwig := [], activeTwigs := Map.empty\<rparr>) = f t"
  shows "f t' = f t"
  using arg_cong [OF assms(1), of "\<lambda>x. f (fst x)"] by (simp add: frame_def assms(2))

lemma frame_fields:
  assumes "frame t' = frame t"
  shows "entryFile t' = entryFile t" "twigMtFile t' = twigMtFile t" "youngestTwigID t' = youngestTwigID t"
    "leave4YoungestTwig t' = leave4YoungestTwig t" "mtree4YTChangeStart t' = mtree4YTChangeStart t"
    "mtree4YTChangeEnd t' = mtree4YTChangeEnd t" "twigsToBeDeleted t' = twigsToBeDeleted t"
    "touchedPosOf512b t' = touchedPosOf512b t" "deactivedSNList t' = deactivedSNList t"
  by (rule frame_field [OF assms], simp)+

lemma frame_active:
  assumes "frame t' = frame t"
  shows "map_option (\<lambda>tw. (activeBits tw, FirstEntryPos tw)) (activeTwigs t' T) =
      map_option (\<lambda>tw. (activeBits tw, FirstEntryPos tw)) (activeTwigs t T)"
    and "activeTwigs t' T = None \<longleftrightarrow> activeTwigs t T = None"
proof -
  show g: "map_option (\<lambda>tw. (activeBits tw, FirstEntryPos tw)) (activeTwigs t' T) =
      map_option (\<lambda>tw. (activeBits tw, FirstEntryPos tw)) (activeTwigs t T)"
    using fun_cong [OF arg_cong [OF assms, of snd], of T] by (simp add: frame_def)
  then show "activeTwigs t' T = None \<longleftrightarrow> activeTwigs t T = None"
    by (cases "activeTwigs t' T"; cases "activeTwigs t T") simp_all
qed

text \<open>A batch that writes cells of one field of the tree changes that field only.\<close>

lemma fold_run_field:
  assumes wr: "\<And>c v t. P c \<Longrightarrow> \<exists>x. wr c v t = upd x t" and upd: "\<And>x y t. upd x (upd y t) = upd x t"
    and get: "\<And>t. upd (get t) t = (t :: Tree)"
  shows "\<forall>j \<in> set js. P (job_target j) \<Longrightarrow> \<exists>x. fold (run sha rd wr) js t = upd x t"
proof (induction js arbitrary: t)
  case Nil
  then show ?case using get [of t, symmetric] by auto
next
  case (Cons j js)
  then have "P (job_target j)" by simp
  from wr [OF this] obtain x where "run sha rd wr j t = upd x t" unfolding run_def by blast
  with Cons.IH [of "run sha rd wr j t"] Cons.prems show ?case by (auto simp: upd)
qed

lemma Run_field:
  assumes wr: "\<And>c v t. P c \<Longrightarrow> \<exists>x. wr c v t = upd x t" and upd: "\<And>x y t. upd x (upd y t) = upd x t"
    and get: "\<And>t. upd (get t) t = (t :: Tree)" and js: "\<forall>j \<in> set js. P (job_target j)"
  shows "\<exists>x. Run sha rd wr js t = upd x t"
proof -
  note f = fold_run_field [OF wr upd get js]
  let ?t = "if length js < MinimumJobsInGoroutine then fold (run sha rd wr) js t else t"
  have "\<exists>x. ?t = upd x t" using f [of sha t] get [of t, symmetric] by auto
  with f [of sha ?t] show ?thesis unfolding Run_def Let_def by (auto simp: upd)
qed

text \<open>Well-formed sizes, kept by every 32-byte write.\<close>

definition sizes_ok :: "Tree \<Rightarrow> bool" where
  "sizes_ok t \<longleftrightarrow> (\<forall>T tw. activeTwigs t T = Some tw \<longrightarrow> wf_twig tw) \<and> length (mtree4YoungestTwig t) = 4096 \<and>
     (\<forall>x \<in> set (mtree4YoungestTwig t). length x = 32) \<and> (\<forall>p h. nodes t p = Some h \<longrightarrow> length h = 32)"

lemma set_update_32: "\<forall>x \<in> set xs. length x = 32 \<Longrightarrow> length v = 32 \<Longrightarrow> \<forall>x \<in> set (xs[i := v]). length x = 32"
  using set_update_subset_insert [of xs i v] by auto

lemma sizes_ok_upd_twig:
  "sizes_ok t \<Longrightarrow> (\<And>tw. wf_twig tw \<Longrightarrow> wf_twig (f tw)) \<Longrightarrow> sizes_ok (upd_twig T f t)"
  by (auto simp: sizes_ok_def upd_twig_def split: if_splits)

lemma wf_twig_upd:
  "wf_twig tw \<Longrightarrow> length v = 32 \<Longrightarrow> wf_twig (tw\<lparr>activeBitsMTL1 := (activeBitsMTL1 tw)[p := v]\<rparr>)"
  "wf_twig tw \<Longrightarrow> length v = 32 \<Longrightarrow> wf_twig (tw\<lparr>activeBitsMTL2 := (activeBitsMTL2 tw)[p := v]\<rparr>)"
  "wf_twig tw \<Longrightarrow> length v = 32 \<Longrightarrow> wf_twig (tw\<lparr>activeBitsMTL3 := v\<rparr>)"
  "wf_twig tw \<Longrightarrow> length v = 32 \<Longrightarrow> wf_twig (tw\<lparr>leftRoot := v\<rparr>)"
  "wf_twig tw \<Longrightarrow> length v = 32 \<Longrightarrow> wf_twig (tw\<lparr>twigRoot := v\<rparr>)"
  unfolding wf_twig_def by simp_all (blast intro: set_update_32 [rule_format])+

lemma sizes_ok_wr:
  assumes "sizes_ok t" and "length v = 32"
  shows "sizes_ok (wr a v t)"
proof (cases a)
  case (CMt i)
  with assms set_update_32 [of "mtree4YoungestTwig t" v i] show ?thesis by (simp add: sizes_ok_def)
next
  case (CNode p)
  with assms show ?thesis by (simp add: sizes_ok_def)
qed (use assms in \<open>simp_all add: sizes_ok_upd_twig wf_twig_upd\<close>)

lemma sizes_ok_fold_run: "sizes_ok t \<Longrightarrow> hash32 sha \<Longrightarrow> sizes_ok (fold (run sha rd wr) js t)"
  by (induction js arbitrary: t) (simp_all add: run_def sizes_ok_wr)

lemma sizes_ok_Run: "sizes_ok t \<Longrightarrow> hash32 sha \<Longrightarrow> sizes_ok (Run sha rd wr js t)"
  by (simp add: Run_def Let_def sizes_ok_fold_run)

declare rd.simps [simp del]

section \<open>The Merkle tree of the youngest twig\<close>

text \<open>
  Level \<open>l\<close> of the left Merkle tree has its nodes at the indexes from \<open>2 ^ (11 - l)\<close> on; node \<open>p\<close> of level
  \<open>l + 1\<close> is consistent when it is the hash of nodes \<open>2 * p\<close> and \<open>2 * p + 1\<close> of level \<open>l\<close>.
\<close>

definition mt_cons :: "(bytes \<Rightarrow> bytes) \<Rightarrow> Tree \<Rightarrow> nat \<Rightarrow> nat \<Rightarrow> bool" where
  "mt_cons sha t l p \<longleftrightarrow> rd t (CMt (2 ^ (10 - l) + p)) =
     hash2 sha (word_of_nat l) (rd t (CMt (2 ^ (11 - l) + 2 * p))) (rd t (CMt (2 ^ (11 - l) + 2 * p + 1)))"

lemma pow_div_2048: "l \<le> 11 \<Longrightarrow> (2048 :: nat) div 2 ^ l = 2 ^ (11 - l)"
  using power_diff [of "2 :: nat" l 11] by simp

lemma div_pow_Suc: "(x :: nat) div 2 ^ Suc l = x div 2 ^ l div 2"
  by (simp only: power_Suc2 div_mult2_eq)

lemma pow_half: "l < 11 \<Longrightarrow> (2 :: nat) ^ (11 - l) = 2 * 2 ^ (10 - l)"
proof -
  assume "l < 11"
  then have "11 - l = Suc (10 - l)" by simp
  then show ?thesis by simp
qed

definition round_set :: "nat \<Rightarrow> nat \<Rightarrow> nat \<Rightarrow> nat set" where
  "round_set l s e = {k. s div 2 \<le> k \<and> 2 * k \<le> (if e mod 2 = 1 then e + 1 else e) \<and> k < 2 ^ (10 - l)}"

definition mt_job :: "nat \<Rightarrow> nat \<Rightarrow> cell hashJob" where
  "mt_job l k = tree_job (word_of_nat l) (CMt (2 ^ (10 - l) + k)) (CMt (2 ^ (11 - l) + 2 * k))
     (CMt (2 ^ (11 - l) + 2 * k + 1))"

lemma set_mt_jobs:
  assumes "l < 11"
  shows "set (mt_jobs (2 ^ (11 - l)) l s e) = mt_job l ` round_set l s e"
proof -
  let ?f = "\<lambda>k. let i = 2 ^ (11 - l) + 2 * k in tree_job (word_of_nat l) (CMt (i div 2)) (CMt i) (CMt (i + 1))"
  have "?f k = mt_job l k" for k using pow_half [OF assms] by (simp add: mt_job_def Let_def)
  moreover have "{k. s div 2 \<le> k \<and> k < 2 ^ (11 - l) \<and> 2 * k \<le> (if e mod 2 = 1 then e + 1 else e) \<and>
      2 * k + 1 < 2 ^ (11 - l)} = round_set l s e"
    using pow_half [OF assms] by (auto simp: round_set_def)
  ultimately show ?thesis unfolding mt_jobs_def Let_def set_map set_filter set_upt by (auto simp: conj_assoc)
qed

lemma mt_jobs_ok:
  assumes "l < 11" and "length (mtree4YoungestTwig t) = 4096"
  shows "tc.jobs_ok t (mt_jobs (2 ^ (11 - l)) l s e)"
proof -
  have "(2 :: nat) ^ (10 - l) \<le> 2 ^ 10" by (rule power_increasing) auto
  then have "k < 2 ^ (10 - l) \<Longrightarrow> 2 ^ (10 - l) + k < 4096" for k :: nat by simp
  with assms(2) show ?thesis
    unfolding tc.jobs_ok_def independent_def set_mt_jobs [OF assms(1)]
    using pow_half [OF assms(1)] by (auto simp: mt_job_def tree_job_def round_set_def inj_on_def)
qed

lemma mt_round_batch:
  fixes s e :: nat
  assumes sha: "hash32 sha" and l: "l < 11" and len: "length (mtree4YoungestTwig t) = 4096"
  defines "K \<equiv> round_set l (s div 2 ^ l) (e div 2 ^ l)"
  shows "k \<in> K \<Longrightarrow> rd (mt_round sha s e l t) (CMt (2 ^ (10 - l) + k)) =
      hash2 sha (word_of_nat l) (rd t (CMt (2 ^ (11 - l) + 2 * k))) (rd t (CMt (2 ^ (11 - l) + 2 * k + 1)))"
    and "a \<notin> (\<lambda>k. CMt (2 ^ (10 - l) + k)) ` K \<Longrightarrow> rd (mt_round sha s e l t) a = rd t a"
    and "tree_valid (mt_round sha s e l t) b = tree_valid t b"
proof -
  let ?js = "mt_jobs (2 ^ (11 - l)) l (s div 2 ^ l) (e div 2 ^ l)"
  have r: "mt_round sha s e l t = Run sha rd wr ?js t"
    using l by (simp add: mt_round_def pow_div_2048)
  have b: "tc.batch sha ?js t (mt_round sha s e l t)"
    unfolding r by (rule tc.Run_batch [OF sha mt_jobs_ok [OF l len]])
  note b = b [unfolded tc.batch_def set_mt_jobs [OF l] K_def [symmetric]]
  show "tree_valid (mt_round sha s e l t) b = tree_valid t b" using b by blast
  show "a \<notin> (\<lambda>k. CMt (2 ^ (10 - l) + k)) ` K \<Longrightarrow> rd (mt_round sha s e l t) a = rd t a"
    using b by (auto simp: image_image mt_job_def tree_job_def)
  show "k \<in> K \<Longrightarrow> rd (mt_round sha s e l t) (CMt (2 ^ (10 - l) + k)) =
      hash2 sha (word_of_nat l) (rd t (CMt (2 ^ (11 - l) + 2 * k))) (rd t (CMt (2 ^ (11 - l) + 2 * k + 1)))"
    using b by (auto simp: mt_job_def tree_job_def job_value_def)
qed

text \<open>
  Before round \<open>l\<close> everything below level \<open>l + 1\<close> is consistent, and above it everything that has no
  changed leaf below.
\<close>

definition mt_upto :: "(bytes \<Rightarrow> bytes) \<Rightarrow> nat \<Rightarrow> nat \<Rightarrow> nat \<Rightarrow> Tree \<Rightarrow> bool" where
  "mt_upto sha s e l t \<longleftrightarrow> (\<forall>m \<le> 10. \<forall>p < 2 ^ (10 - m).
     m < l \<or> p < s div 2 ^ Suc m \<or> e div 2 ^ Suc m < p \<longrightarrow> mt_cons sha t m p)"

lemma mt_round_other:
  assumes "hash32 sha" and "l < 11" and "length (mtree4YoungestTwig t) = 4096"
    and "i < 2 ^ (10 - l) \<or> 2 ^ (11 - l) \<le> i"
  shows "rd (mt_round sha s e l t) (CMt i) = rd t (CMt i)"
  using assms(4) pow_half [OF assms(2)]
  by (intro mt_round_batch(2) [OF assms(1-3)]) (auto simp: round_set_def)

lemma mt_round_outside:
  assumes "hash32 sha" and "l < 11" and "length (mtree4YoungestTwig t) = 4096" and "mt_upto sha s e l t"
    and "p < 2 ^ (10 - l)" and "p < s div 2 ^ Suc l \<or> e div 2 ^ Suc l < p"
  shows "rd (mt_round sha s e l t) (CMt (2 ^ (10 - l) + p)) = rd t (CMt (2 ^ (10 - l) + p))"
proof (cases "p \<in> round_set l (s div 2 ^ l) (e div 2 ^ l)")
  case True
  have "mt_cons sha t l p" using assms(2,4-6) by (auto simp: mt_upto_def)
  with mt_round_batch(1) [OF assms(1-3) True] show ?thesis by (simp add: mt_cons_def)
next
  case False
  then show ?thesis by (intro mt_round_batch(2) [OF assms(1-3)]) auto
qed

lemma mt_cons_cong:
  assumes "rd t' (CMt (2 ^ (10 - m) + p)) = rd t (CMt (2 ^ (10 - m) + p))"
    and "rd t' (CMt (2 ^ (11 - m) + 2 * p)) = rd t (CMt (2 ^ (11 - m) + 2 * p))"
    and "rd t' (CMt (2 ^ (11 - m) + 2 * p + 1)) = rd t (CMt (2 ^ (11 - m) + 2 * p + 1))"
  shows "mt_cons sha t' m p = mt_cons sha t m p"
  unfolding mt_cons_def assms ..

lemma mt_round_step:
  assumes sha: "hash32 sha" and l: "l < 11" and len: "length (mtree4YoungestTwig t) = 4096"
    and up: "mt_upto sha s e l t"
  shows "mt_upto sha s e (Suc l) (mt_round sha s e l t)"
proof -
  let ?t = "mt_round sha s e l t"
  note other = mt_round_other [OF sha l len]
  have "mt_cons sha ?t m p" if m: "m \<le> 10" and p: "p < 2 ^ (10 - m)"
    and c: "m < Suc l \<or> p < s div 2 ^ Suc m \<or> e div 2 ^ Suc m < p" for m p
  proof -
    have half: "2 ^ (11 - m) = 2 * (2 :: nat) ^ (10 - m)" using m by (intro pow_half) simp
    consider "m < l" | "m = l" | "m = Suc l" | "Suc l < m" by linarith
    then show ?thesis
    proof cases
      case 1
      then have "(2 :: nat) ^ (11 - l) \<le> 2 ^ (10 - m)" by (intro power_increasing) auto
      then have "mt_cons sha ?t m p = mt_cons sha t m p"
        using half by (intro mt_cons_cong other) linarith+
      with up m p 1 show ?thesis by (simp add: mt_upto_def)
    next
      case 2
      have ch: "rd ?t (CMt (2 ^ (11 - m) + 2 * p)) = rd t (CMt (2 ^ (11 - m) + 2 * p))"
        "rd ?t (CMt (2 ^ (11 - m) + 2 * p + 1)) = rd t (CMt (2 ^ (11 - m) + 2 * p + 1))"
        using 2 by (auto intro!: other)
      show ?thesis
      proof (cases "p \<in> round_set l (s div 2 ^ l) (e div 2 ^ l)")
        case True
        with mt_round_batch(1) [OF sha l len True] 2 ch show ?thesis by (simp add: mt_cons_def)
      next
        case False
        then have "p < s div 2 ^ l div 2 \<or> e div 2 ^ l div 2 < p"
          using p 2 by (auto simp: round_set_def split: if_splits)
        then have out: "p < s div 2 ^ Suc m \<or> e div 2 ^ Suc m < p"
          using 2 by (simp only: div_pow_Suc)
        with mt_round_outside [OF sha l len up, of p] p 2 ch
        have "mt_cons sha ?t m p = mt_cons sha t m p" by (intro mt_cons_cong) auto
        with up m p out show ?thesis by (auto simp: mt_upto_def)
      qed
    next
      case 3
      then have c': "p < s div 2 ^ Suc l div 2 \<or> e div 2 ^ Suc l div 2 < p"
        using c by (auto simp only: div_pow_Suc)
      have "11 - m = 10 - l" using 3 by simp
      moreover have "2 ^ (10 - m) + p < 2 ^ (10 - l)" using half p 3 by simp
      moreover from c' have "2 * p < s div 2 ^ Suc l \<or> e div 2 ^ Suc l < 2 * p"
        "2 * p + 1 < s div 2 ^ Suc l \<or> e div 2 ^ Suc l < 2 * p + 1" by linarith+
      moreover have "2 * p + 1 < 2 ^ (10 - l)" using half p 3 by simp
      ultimately have "mt_cons sha ?t m p = mt_cons sha t m p"
        using mt_round_outside [OF sha l len up, of "2 * p"] mt_round_outside [OF sha l len up, of "2 * p + 1"]
          other [of "2 ^ (10 - m) + p" s e]
        by (intro mt_cons_cong) (simp_all add: add.assoc)
      with up m p c 3 show ?thesis by (auto simp: mt_upto_def)
    next
      case 4
      then have "2 * (2 :: nat) ^ (11 - m) \<le> 2 ^ (10 - l)"
        using power_increasing [of "Suc (11 - m)" "10 - l" "2 :: nat"] m by simp
      then have "mt_cons sha ?t m p = mt_cons sha t m p"
        using half p by (intro mt_cons_cong other) linarith+
      with up m p c 4 show ?thesis by (auto simp: mt_upto_def)
    qed
  qed
  then show ?thesis by (simp add: mt_upto_def)
qed

text \<open>The rounds write nothing but the Merkle tree, and no leaf.\<close>

lemma mt_round_frame:
  assumes "l < 11"
  shows "\<exists>m. mt_round sha s e l t = t\<lparr>mtree4YoungestTwig := m\<rparr>"
proof -
  let ?js = "mt_jobs (2 ^ (11 - l)) l (s div 2 ^ l) (e div 2 ^ l)"
  have r: "mt_round sha s e l t = Run sha rd wr ?js t"
    using assms by (simp add: mt_round_def pow_div_2048)
  have js: "\<forall>j \<in> set ?js. \<exists>i. job_target j = CMt i"
    unfolding set_mt_jobs [OF assms] by (auto simp: mt_job_def tree_job_def)
  show ?thesis unfolding r
    by (rule Run_field [where P = "\<lambda>c. \<exists>i. c = CMt i" and get = mtree4YoungestTwig and
          upd = "\<lambda>m. mtree4YoungestTwig_update (\<lambda>_. m)", OF _ _ _ js]) auto
qed

lemma mt_round_sizes: "sizes_ok t \<Longrightarrow> hash32 sha \<Longrightarrow> sizes_ok (mt_round sha s e l t)"
  by (simp add: mt_round_def sizes_ok_Run)

lemma mt_rounds:
  assumes sha: "hash32 sha" and sz: "sizes_ok t" and up: "mt_upto sha s e 0 t"
  shows "l \<le> 11 \<Longrightarrow> mt_upto sha s e l (fold (mt_round sha s e) [0 ..< l] t) \<and>
    sizes_ok (fold (mt_round sha s e) [0 ..< l] t) \<and>
    (\<exists>m. fold (mt_round sha s e) [0 ..< l] t = t\<lparr>mtree4YoungestTwig := m\<rparr>) \<and>
    (\<forall>i \<ge> 2048. rd (fold (mt_round sha s e) [0 ..< l] t) (CMt i) = rd t (CMt i))"
proof (induction l)
  case 0
  with sz up show ?case by (auto intro: exI [of _ "mtree4YoungestTwig t"])
next
  case (Suc l)
  let ?t = "fold (mt_round sha s e) [0 ..< l] t"
  have l: "l < 11" using Suc.prems by simp
  with Suc.IH obtain m0 where IH: "mt_upto sha s e l ?t" "sizes_ok ?t" "?t = t\<lparr>mtree4YoungestTwig := m0\<rparr>"
    "\<forall>i \<ge> 2048. rd ?t (CMt i) = rd t (CMt i)" by auto
  have len: "length (mtree4YoungestTwig ?t) = 4096" using IH(2) by (simp add: sizes_ok_def)
  have "(2 :: nat) ^ (11 - l) \<le> 2 ^ 11" by (rule power_increasing) auto
  then have "rd (mt_round sha s e l ?t) (CMt i) = rd ?t (CMt i)" if "2048 \<le> i" for i
    using that by (intro mt_round_other [OF sha l len]) simp
  moreover obtain m where "mt_round sha s e l ?t = ?t\<lparr>mtree4YoungestTwig := m\<rparr>"
    using mt_round_frame [OF l] by blast
  then have "mt_round sha s e l ?t = t\<lparr>mtree4YoungestTwig := m\<rparr>" using IH(3) by simp
  ultimately show ?case
    using IH(4) mt_round_step [OF sha l len IH(1)] mt_round_sizes [OF IH(2) sha, of s e l]
    by (simp del: One_nat_def) blast
qed

text \<open>
  Between two synchronisations: the new leaves lie between \<open>ChangeStart\<close> and \<open>ChangeEnd\<close>, and a node
  with no new leaf below it is consistent.
\<close>

definition mt_pending :: "(bytes \<Rightarrow> bytes) \<Rightarrow> Tree \<Rightarrow> bool" where
  "mt_pending sha t \<longleftrightarrow> length (leave4YoungestTwig t) = 2048 \<and>
     (let s = mtree4YTChangeStart t; e = mtree4YTChangeEnd t
      in if s = -1 then mt_upto sha 0 0 11 t \<and> (\<forall>i < 2048. fst (leave4YoungestTwig t ! i) = None)
         else 0 \<le> s \<and> s \<le> e \<and> e < 2048 \<and> mt_upto sha (nat s) (nat e) 0 t \<and>
           (\<forall>i < 2048. fst (leave4YoungestTwig t ! i) \<noteq> None \<longrightarrow> s \<le> int i \<and> int i \<le> e))"

lemma mt_pending_cong:
  assumes "mtree4YoungestTwig t' = mtree4YoungestTwig t" and "leave4YoungestTwig t' = leave4YoungestTwig t"
    and "mtree4YTChangeStart t' = mtree4YTChangeStart t" and "mtree4YTChangeEnd t' = mtree4YTChangeEnd t"
  shows "mt_pending sha t' = mt_pending sha t"
  unfolding mt_pending_def mt_upto_def mt_cons_def rd.simps assms ..

text \<open>The hash a leaf has after the synchronisation.\<close>

definition leaf_hash :: "(bytes \<Rightarrow> bytes) \<Rightarrow> Tree \<Rightarrow> nat \<Rightarrow> bytes" where
  "leaf_hash sha t i = (case leave4YoungestTwig t ! i of (None, _) \<Rightarrow> rd t (CMt (2048 + i))
     | (Some b0, b1) \<Rightarrow> sha (b0 @ b1))"

lemma hash_leaves_rd:
  assumes "sizes_ok t"
  shows "rd (hash_leaves sha t) (CMt i) =
    (if 2048 \<le> i \<and> i < 4096 then leaf_hash sha t (i - 2048) else rd t (CMt i))"
  using assms
  by (auto simp: hash_leaves_def Let_def rd.simps nth0_def leaf_hash_def sizes_ok_def split: prod.splits option.splits)

lemma hash_leaves_sizes: "sizes_ok t \<Longrightarrow> hash32 sha \<Longrightarrow> sizes_ok (hash_leaves sha t)"
  by (auto simp: sizes_ok_def hash_leaves_def Let_def hash32_def split: prod.splits option.splits)

lemma hash_leaves_upto:
  assumes sz: "sizes_ok t" and up: "mt_upto sha s e 0 t"
    and lv: "\<forall>i < 2048. fst (leave4YoungestTwig t ! i) \<noteq> None \<longrightarrow> s \<le> i \<and> i \<le> e"
  shows "mt_upto sha s e 0 (hash_leaves sha t)"
proof -
  let ?t = "hash_leaves sha t"
  have same: "rd ?t (CMt i) = rd t (CMt i)" if "i < 2048 \<or> i - 2048 < s \<or> e < i - 2048" for i
  proof (cases "2048 \<le> i \<and> i < 4096")
    case True
    with that have "\<not> (s \<le> i - 2048 \<and> i - 2048 \<le> e)" "i - 2048 < 2048" by auto
    with lv have "fst (leave4YoungestTwig t ! (i - 2048)) = None" by blast
    with True hash_leaves_rd [OF sz, of sha i] show ?thesis by (simp add: leaf_hash_def split_beta)
  next
    case False
    then show ?thesis using hash_leaves_rd [OF sz, of sha i] by auto
  qed
  have "mt_cons sha ?t m p" if m: "m \<le> 10" and p: "p < 2 ^ (10 - m)"
    and c: "p < s div 2 ^ Suc m \<or> e div 2 ^ Suc m < p" for m p
  proof -
    have half: "2 ^ (11 - m) = 2 * (2 :: nat) ^ (10 - m)" using m by (intro pow_half) simp
    have "mt_cons sha ?t m p = mt_cons sha t m p"
    proof (cases "m = 0")
      case True
      with c have "2 * p + 1 < s \<or> e < 2 * p" by auto
      with True p show ?thesis by (intro mt_cons_cong same) auto
    next
      case False
      then have "(2 :: nat) ^ (11 - m) \<le> 2 ^ 10" by (intro power_increasing) auto
      with half p show ?thesis by (intro mt_cons_cong same) simp_all
    qed
    with up m p c show ?thesis by (auto simp: mt_upto_def)
  qed
  then show ?thesis by (simp add: mt_upto_def)
qed

lemma mt_all_iff: "mt_upto sha s e 11 t = mt_upto sha 0 0 11 t"
  by (auto simp: mt_upto_def)

lemma mt_upto_cong: "mtree4YoungestTwig t' = mtree4YoungestTwig t \<Longrightarrow> mt_upto sha s e l t' = mt_upto sha s e l t"
  by (simp add: mt_upto_def mt_cons_def rd.simps)

text \<open>What \<open>syncMT4YoungestTwig\<close> changes: the Merkle tree, the pending leaves and the left root.\<close>

lemma syncMT4YoungestTwig_ok:
  assumes sha: "hash32 sha" and sz: "sizes_ok t" and pend: "mt_pending sha t"
    and y: "activeTwigs t (youngestTwigID t) = Some tw"
    and left: "mtree4YTChangeStart t = -1 \<longrightarrow> leftRoot tw = mtree4YoungestTwig t ! 1"
  shows "\<exists>m ls e. syncMT4YoungestTwig sha t = Inr (t\<lparr>mtree4YoungestTwig := m, leave4YoungestTwig := ls,
      mtree4YTChangeStart := -1, mtree4YTChangeEnd := e,
      activeTwigs := (activeTwigs t)(youngestTwigID t \<mapsto> tw\<lparr>leftRoot := m ! 1\<rparr>)\<rparr>) \<and>
    length m = 4096 \<and> (\<forall>x \<in> set m. length x = 32) \<and>
    mt_upto sha 0 0 11 (t\<lparr>mtree4YoungestTwig := m\<rparr>) \<and> length ls = 2048 \<and> (\<forall>i < 2048. fst (ls ! i) = None) \<and>
    (\<forall>i < 2048. m ! (2048 + i) = leaf_hash sha t i)"
proof (cases "mtree4YTChangeStart t = -1")
  case True
  have "tw\<lparr>leftRoot := mtree4YoungestTwig t ! 1\<rparr> = tw" using True left by simp
  with y have tw: "(activeTwigs t)(youngestTwigID t \<mapsto> tw\<lparr>leftRoot := mtree4YoungestTwig t ! 1\<rparr>) = activeTwigs t"
    by (simp add: fun_upd_idem)
  have leaf: "leaf_hash sha t i = mtree4YoungestTwig t ! (2048 + i)" if "i < 2048" for i
    using True pend that sz by (auto simp: leaf_hash_def mt_pending_def Let_def split_beta rd.simps nth0_def sizes_ok_def)
  have eq: "t\<lparr>mtree4YoungestTwig := mtree4YoungestTwig t, leave4YoungestTwig := leave4YoungestTwig t,
      mtree4YTChangeStart := -1, mtree4YTChangeEnd := mtree4YTChangeEnd t,
      activeTwigs := (activeTwigs t)(youngestTwigID t \<mapsto> tw\<lparr>leftRoot := mtree4YoungestTwig t ! 1\<rparr>)\<rparr> = t"
    unfolding tw True [symmetric] by simp
  have "syncMT4YoungestTwig sha t = Inr t" using True by (simp add: syncMT4YoungestTwig_def)
  moreover have "length (leave4YoungestTwig t) = 2048" "\<forall>i < 2048. fst (leave4YoungestTwig t ! i) = None"
    "mt_upto sha 0 0 11 (t\<lparr>mtree4YoungestTwig := mtree4YoungestTwig t\<rparr>)"
    using True pend by (simp_all add: mt_pending_def Let_def)
  moreover have "length (mtree4YoungestTwig t) = 4096" "\<forall>x \<in> set (mtree4YoungestTwig t). length x = 32"
    using sz by (simp_all add: sizes_ok_def)
  ultimately show ?thesis using leaf [symmetric]
    by (intro exI [of _ "mtree4YoungestTwig t"] exI [of _ "leave4YoungestTwig t"] exI [of _ "mtree4YTChangeEnd t"])
      (unfold eq, blast)
next
  case False
  let ?s = "nat (mtree4YTChangeStart t)" and ?e = "nat (mtree4YTChangeEnd t)"
  let ?t1 = "hash_leaves sha t" and ?ls = "map (\<lambda>(_, b1). (None :: bytes option, b1)) (leave4YoungestTwig t)"
  have up: "mt_upto sha ?s ?e 0 t" and lv: "\<forall>i < 2048. fst (leave4YoungestTwig t ! i) \<noteq> None \<longrightarrow> ?s \<le> i \<and> i \<le> ?e"
    and len: "length (leave4YoungestTwig t) = 2048"
    using pend False by (auto simp: mt_pending_def Let_def)
  have sz1: "sizes_ok ?t1" by (rule hash_leaves_sizes [OF sz sha])
  let ?t2 = "fold (mt_round sha ?s ?e) [0 ..< 11] ?t1"
  from mt_rounds [OF sha sz1 hash_leaves_upto [OF sz up lv], of 11]
  obtain m where t2: "mt_upto sha ?s ?e 11 ?t2" "sizes_ok ?t2" "?t2 = ?t1\<lparr>mtree4YoungestTwig := m\<rparr>"
    "\<forall>i \<ge> 2048. rd ?t2 (CMt i) = rd ?t1 (CMt i)" by auto
  obtain m1 where t1: "?t1 = t\<lparr>mtree4YoungestTwig := m1, leave4YoungestTwig := ?ls\<rparr>"
    by (simp add: hash_leaves_def Let_def)
  have t2': "?t2 = t\<lparr>mtree4YoungestTwig := m, leave4YoungestTwig := ?ls\<rparr>"
    by (subst t2(3)) (simp add: t1)
  have m: "length m = 4096" "\<forall>x \<in> set m. length x = 32" using t2(2) unfolding t2(3) by (auto simp: sizes_ok_def)
  have leaf: "m ! (2048 + i) = leaf_hash sha t i" if "i < 2048" for i
    using t2(4) [rule_format, of "2048 + i"] that m(1) hash_leaves_rd [OF sz, of sha "2048 + i"]
    unfolding t2(3) by (simp add: rd.simps nth0_def)
  have upm: "mt_upto sha 0 0 11 (t\<lparr>mtree4YoungestTwig := m\<rparr>)"
    using t2(1) mt_upto_cong [of "t\<lparr>mtree4YoungestTwig := m\<rparr>" ?t2] unfolding t2(3) mt_all_iff [of sha ?s] by simp
  have "syncMT4YoungestTwig sha t = Inr (t\<lparr>mtree4YoungestTwig := m, leave4YoungestTwig := ?ls,
      mtree4YTChangeStart := -1, mtree4YTChangeEnd := 0,
      activeTwigs := (activeTwigs t)(youngestTwigID t \<mapsto> tw\<lparr>leftRoot := m ! 1\<rparr>)\<rparr>)"
    using False y unfolding syncMT4YoungestTwig_def Let_def t2'
    by (simp add: lookupTwig_def upd_twig_def)
  moreover have "\<forall>i < 2048. fst (?ls ! i) = None" using len by (simp add: split_beta)
  ultimately show ?thesis using m leaf upm len by (intro exI [of _ m] exI [of _ ?ls] exI [of _ 0]) simp
qed

text \<open>The check of check.go is the consistency of all levels.\<close>

lemma checkMT_iff:
  assumes "length (mtree4YoungestTwig t) = 4096"
  shows "checkMT sha (mtree4YoungestTwig t) \<longleftrightarrow> mt_upto sha 0 0 11 t"
proof -
  let ?mt = "mtree4YoungestTwig t"
  have nth: "rd t (CMt i) = ?mt ! i" if "i < 4096" for i using that assms by (simp add: rd.simps nth0_def)
  have cons: "mt_cons sha t (10 - k) p \<longleftrightarrow>
      ?mt ! (2 ^ k + p) = sha ([word_of_nat (10 - k)] @ ?mt ! (2 * (2 ^ k + p)) @ ?mt ! (2 * (2 ^ k + p) + 1))"
    if "k \<le> 10" "p < 2 ^ k" for k p
  proof -
    have "(2 :: nat) ^ k \<le> 2 ^ 10" using that(1) by (intro power_increasing) auto
    moreover have "11 - (10 - k) = Suc k" "10 - (10 - k) = k" using that(1) by auto
    ultimately show ?thesis using that(2) by (simp add: mt_cons_def hash2_def nth distrib_left)
  qed
  have "checkMT sha ?mt \<longleftrightarrow> (\<forall>k \<le> 10. \<forall>p < 2 ^ k. mt_cons sha t (10 - k) p)" (is "_ \<longleftrightarrow> ?all")
  proof
    assume c: "checkMT sha ?mt"
    show ?all
    proof (intro allI impI)
      fix k p :: nat assume k: "k \<le> 10" and p: "p < 2 ^ k"
      then have "2 ^ k + p \<in> set [2 ^ k ..< 2 * 2 ^ k]" "k \<in> set [0 ..< 11]" by auto
      with c cons [OF k p] show "mt_cons sha t (10 - k) p" unfolding checkMT_def by blast
    qed
  next
    assume all: ?all
    show "checkMT sha ?mt" unfolding checkMT_def
    proof (intro ballI)
      fix k i assume "k \<in> set [0 ..< 11]" "i \<in> set [2 ^ k ..< 2 * 2 ^ k]"
      then have "k \<le> 10" "i - 2 ^ k < 2 ^ k" "2 ^ k + (i - 2 ^ k) = i" by auto
      with all cons [of k "i - 2 ^ k"] show "?mt ! i = sha ([word_of_nat (10 - k)] @ ?mt ! (2 * i) @ ?mt ! (2 * i + 1))"
        by simp
    qed
  qed
  also have "?all \<longleftrightarrow> (\<forall>m \<le> 10. \<forall>p < 2 ^ (10 - m). mt_cons sha t m p)"
    by (metis diff_diff_cancel diff_le_self)
  finally show ?thesis by (auto simp: mt_upto_def)
qed

end
