(* ===== verification/TreeBits.thy ===== *)
theory TreeBits
  imports TreeSync
begin

text \<open>
  \<open>syncMT4ActiveBits\<close>: the four batches that rebuild the Merkle levels over the active bits of the
  touched twigs and their roots, and the consistency of every active twig after them.
\<close>

section \<open>Lists of indexes\<close>

lemma distinct_remdups_adj_sorted: "sorted xs \<Longrightarrow> distinct (remdups_adj (xs :: nat list))"
proof (induction xs rule: remdups_adj.induct)
  case (3 x y xs)
  then show ?case by auto
qed auto

lemma halve_sorted:
  assumes "sorted ns"
  shows "sorted (halve ns)" and "distinct (halve ns)" and "set (halve ns) = (\<lambda>i. i div 2) ` set ns"
proof -
  have "sorted (map (\<lambda>i. i div 2) ns)"
    using assms by (auto simp: sorted_iff_nth_mono intro: div_le_mono)
  then show "sorted (halve ns)" "distinct (halve ns)" "set (halve ns) = (\<lambda>i. i div 2) ` set ns"
    by (simp_all add: halve_def distinct_remdups_adj_sorted)
qed

section \<open>Batches on twigs\<close>

definition twig_cell :: "cell \<Rightarrow> bool" where
  "twig_cell c = (case c of CL1 T p \<Rightarrow> True | CL2 T p \<Rightarrow> True | CL3 T \<Rightarrow> True | CTop T \<Rightarrow> True | _ \<Rightarrow> False)"

lemma wr_twig_cell: "twig_cell c \<Longrightarrow> \<exists>A. wr c v t = t\<lparr>activeTwigs := A\<rparr>"
  by (cases c) (auto simp: twig_cell_def upd_twig_def)

lemma Run_twigs:
  assumes "\<forall>j \<in> set js. twig_cell (job_target j)"
  shows "\<exists>A. Run sha rd wr js t = t\<lparr>activeTwigs := A\<rparr>"
  by (rule Run_field [where P = twig_cell and get = activeTwigs and
        upd = "\<lambda>A. activeTwigs_update (\<lambda>_. A)", OF wr_twig_cell _ _ assms]) auto

text \<open>A batch whose targets are the cells \<open>tgt i\<close> for the elements \<open>i\<close> of a list of indexes.\<close>

lemma Run_map:
  assumes sha: "hash32 sha" and inj: "inj_on (\<lambda>i. job_target (f i)) (set ns)"
    and ind: "\<forall>i \<in> set ns. \<forall>k \<in> set ns. job_target (f i) \<noteq> job_srcA (f k) \<and> job_target (f i) \<noteq> job_srcB (f k)"
    and v: "\<forall>i \<in> set ns. tree_valid t (job_target (f i))"
  shows "i \<in> set ns \<Longrightarrow> rd (Run sha rd wr (map f ns) t) (job_target (f i)) = job_value sha rd t (f i)"
    and "a \<notin> (\<lambda>i. job_target (f i)) ` set ns \<Longrightarrow> rd (Run sha rd wr (map f ns) t) a = rd t a"
    and "tree_valid (Run sha rd wr (map f ns) t) b = tree_valid t b"
proof -
  have "tc.jobs_ok t (map f ns)"
    using inj ind v by (auto simp: tc.jobs_ok_def independent_def inj_on_def)
  from tc.Run_batch [OF sha this] show
    "i \<in> set ns \<Longrightarrow> rd (Run sha rd wr (map f ns) t) (job_target (f i)) = job_value sha rd t (f i)"
    "a \<notin> (\<lambda>i. job_target (f i)) ` set ns \<Longrightarrow> rd (Run sha rd wr (map f ns) t) a = rd t a"
    "tree_valid (Run sha rd wr (map f ns) t) b = tree_valid t b"
    by (auto simp: tc.batch_def)
qed

lemma syncL1_batch:
  assumes sha: "hash32 sha" and v: "\<forall>i \<in> set ns. tree_valid t (CL1 (i div 4) (i mod 4))"
  defines "t' \<equiv> Run sha rd wr (map (\<lambda>i. syncL1 (i div 4) (i mod 4)) ns) t"
  shows "p < 4 \<Longrightarrow> 4 * T + p \<in> set ns \<Longrightarrow>
      rd t' (CL1 T p) = hash2 sha 8 (rd t (CBits T (2 * p))) (rd t (CBits T (2 * p + 1)))"
    and "p < 4 \<Longrightarrow> 4 * T + p \<notin> set ns \<Longrightarrow> rd t' (CL1 T p) = rd t (CL1 T p)"
    and "\<forall>T p. a \<noteq> CL1 T p \<Longrightarrow> rd t' a = rd t a"
    and "tree_valid t' b = tree_valid t b"
proof -
  let ?f = "\<lambda>i. syncL1 (i div 4) (i mod 4)"
  have inj: "inj_on (\<lambda>i. job_target (?f i)) (set ns)"
    by (rule inj_onI) (simp add: syncL1_def tree_job_def, metis div_mult_mod_eq)
  have ind: "\<forall>i \<in> set ns. \<forall>k \<in> set ns. job_target (?f i) \<noteq> job_srcA (?f k) \<and> job_target (?f i) \<noteq> job_srcB (?f k)"
    by (simp add: syncL1_def tree_job_def)
  have v': "\<forall>i \<in> set ns. tree_valid t (job_target (?f i))"
    using v by (simp add: syncL1_def tree_job_def)
  note R = Run_map [OF sha inj ind v', folded t'_def]
  show "p < 4 \<Longrightarrow> 4 * T + p \<in> set ns \<Longrightarrow>
      rd t' (CL1 T p) = hash2 sha 8 (rd t (CBits T (2 * p))) (rd t (CBits T (2 * p + 1)))"
    using R(1) [of "4 * T + p"] by (simp add: syncL1_def tree_job_def job_value_def)
  show "p < 4 \<Longrightarrow> 4 * T + p \<notin> set ns \<Longrightarrow> rd t' (CL1 T p) = rd t (CL1 T p)"
    by (rule R(2)) (auto simp: syncL1_def tree_job_def)
  show "\<forall>T p. a \<noteq> CL1 T p \<Longrightarrow> rd t' a = rd t a"
    by (rule R(2)) (auto simp: syncL1_def tree_job_def)
  show "tree_valid t' b = tree_valid t b" by (rule R(3))
qed

lemma syncL2_batch:
  assumes sha: "hash32 sha" and v: "\<forall>i \<in> set ns. tree_valid t (CL2 (i div 2) (i mod 2))"
  defines "t' \<equiv> Run sha rd wr (map (\<lambda>i. syncL2 (i div 2) (i mod 2)) ns) t"
  shows "q < 2 \<Longrightarrow> 2 * T + q \<in> set ns \<Longrightarrow>
      rd t' (CL2 T q) = hash2 sha 9 (rd t (CL1 T (2 * q))) (rd t (CL1 T (2 * q + 1)))"
    and "q < 2 \<Longrightarrow> 2 * T + q \<notin> set ns \<Longrightarrow> rd t' (CL2 T q) = rd t (CL2 T q)"
    and "\<forall>T q. a \<noteq> CL2 T q \<Longrightarrow> rd t' a = rd t a"
    and "tree_valid t' b = tree_valid t b"
proof -
  let ?f = "\<lambda>i. syncL2 (i div 2) (i mod 2)"
  have inj: "inj_on (\<lambda>i. job_target (?f i)) (set ns)"
    by (rule inj_onI) (simp add: syncL2_def tree_job_def, metis div_mult_mod_eq)
  have ind: "\<forall>i \<in> set ns. \<forall>k \<in> set ns. job_target (?f i) \<noteq> job_srcA (?f k) \<and> job_target (?f i) \<noteq> job_srcB (?f k)"
    by (simp add: syncL2_def tree_job_def)
  have v': "\<forall>i \<in> set ns. tree_valid t (job_target (?f i))"
    using v by (simp add: syncL2_def tree_job_def)
  note R = Run_map [OF sha inj ind v', folded t'_def]
  show "q < 2 \<Longrightarrow> 2 * T + q \<in> set ns \<Longrightarrow>
      rd t' (CL2 T q) = hash2 sha 9 (rd t (CL1 T (2 * q))) (rd t (CL1 T (2 * q + 1)))"
    using R(1) [of "2 * T + q"] by (simp add: syncL2_def tree_job_def job_value_def)
  show "q < 2 \<Longrightarrow> 2 * T + q \<notin> set ns \<Longrightarrow> rd t' (CL2 T q) = rd t (CL2 T q)"
    by (rule R(2)) (auto simp: syncL2_def tree_job_def)
  show "\<forall>T q. a \<noteq> CL2 T q \<Longrightarrow> rd t' a = rd t a"
    by (rule R(2)) (auto simp: syncL2_def tree_job_def)
  show "tree_valid t' b = tree_valid t b" by (rule R(3))
qed

lemma syncL3_batch:
  assumes sha: "hash32 sha" and v: "\<forall>T \<in> set ns. activeTwigs t T \<noteq> None"
  defines "t' \<equiv> Run sha rd wr (map syncL3 ns) t"
  shows "T \<in> set ns \<Longrightarrow> rd t' (CL3 T) = hash2 sha 10 (rd t (CL2 T 0)) (rd t (CL2 T 1))"
    and "a \<notin> CL3 ` set ns \<Longrightarrow> rd t' a = rd t a" and "tree_valid t' b = tree_valid t b"
proof -
  have inj: "inj_on (\<lambda>i. job_target (syncL3 i)) (set ns)" by (rule inj_onI) (simp add: syncL3_def tree_job_def)
  have ind: "\<forall>i \<in> set ns. \<forall>k \<in> set ns. job_target (syncL3 i) \<noteq> job_srcA (syncL3 k) \<and> job_target (syncL3 i) \<noteq> job_srcB (syncL3 k)"
    by (simp add: syncL3_def tree_job_def)
  have v': "\<forall>i \<in> set ns. tree_valid t (job_target (syncL3 i))"
    using v by (simp add: syncL3_def tree_job_def)
  note R = Run_map [OF sha inj ind v', folded t'_def]
  show "T \<in> set ns \<Longrightarrow> rd t' (CL3 T) = hash2 sha 10 (rd t (CL2 T 0)) (rd t (CL2 T 1))"
    using R(1) [of T] by (simp add: syncL3_def tree_job_def job_value_def)
  show "a \<notin> CL3 ` set ns \<Longrightarrow> rd t' a = rd t a" by (rule R(2)) (auto simp: syncL3_def tree_job_def)
  show "tree_valid t' b = tree_valid t b" by (rule R(3))
qed

lemma syncTop_batch:
  assumes sha: "hash32 sha" and v: "\<forall>T \<in> set ns. activeTwigs t T \<noteq> None"
  defines "t' \<equiv> Run sha rd wr (map syncTop ns) t"
  shows "T \<in> set ns \<Longrightarrow> rd t' (CTop T) = hash2 sha 11 (rd t (CLeft T)) (rd t (CL3 T))"
    and "a \<notin> CTop ` set ns \<Longrightarrow> rd t' a = rd t a" and "tree_valid t' b = tree_valid t b"
proof -
  have inj: "inj_on (\<lambda>i. job_target (syncTop i)) (set ns)" by (rule inj_onI) (simp add: syncTop_def tree_job_def)
  have ind: "\<forall>i \<in> set ns. \<forall>k \<in> set ns. job_target (syncTop i) \<noteq> job_srcA (syncTop k) \<and> job_target (syncTop i) \<noteq> job_srcB (syncTop k)"
    by (simp add: syncTop_def tree_job_def)
  have v': "\<forall>i \<in> set ns. tree_valid t (job_target (syncTop i))"
    using v by (simp add: syncTop_def tree_job_def)
  note R = Run_map [OF sha inj ind v', folded t'_def]
  show "T \<in> set ns \<Longrightarrow> rd t' (CTop T) = hash2 sha 11 (rd t (CLeft T)) (rd t (CL3 T))"
    using R(1) [of T] by (simp add: syncTop_def tree_job_def job_value_def)
  show "a \<notin> CTop ` set ns \<Longrightarrow> rd t' a = rd t a" by (rule R(2)) (auto simp: syncTop_def tree_job_def)
  show "tree_valid t' b = tree_valid t b" by (rule R(3))
qed

section \<open>Consistent twigs\<close>

definition ok1 :: "(bytes \<Rightarrow> bytes) \<Rightarrow> Tree \<Rightarrow> nat \<Rightarrow> nat \<Rightarrow> bool" where
  "ok1 sha t T p \<longleftrightarrow> rd t (CL1 T p) = hash2 sha 8 (rd t (CBits T (2 * p))) (rd t (CBits T (2 * p + 1)))"

definition ok2 :: "(bytes \<Rightarrow> bytes) \<Rightarrow> Tree \<Rightarrow> nat \<Rightarrow> nat \<Rightarrow> bool" where
  "ok2 sha t T q \<longleftrightarrow> rd t (CL2 T q) = hash2 sha 9 (rd t (CL1 T (2 * q))) (rd t (CL1 T (2 * q + 1)))"

definition ok3 :: "(bytes \<Rightarrow> bytes) \<Rightarrow> Tree \<Rightarrow> nat \<Rightarrow> bool" where
  "ok3 sha t T \<longleftrightarrow> rd t (CL3 T) = hash2 sha 10 (rd t (CL2 T 0)) (rd t (CL2 T 1)) \<and>
     rd t (CTop T) = hash2 sha 11 (rd t (CLeft T)) (rd t (CL3 T))"

text \<open>A twig whose untouched parts are consistent, given the set of touched positions.\<close>

definition twig_pending :: "(bytes \<Rightarrow> bytes) \<Rightarrow> nat set \<Rightarrow> Tree \<Rightarrow> nat \<Rightarrow> bool" where
  "twig_pending sha N t T \<longleftrightarrow>
     (\<forall>p < 4. 4 * T + p \<notin> N \<longrightarrow> ok1 sha t T p) \<and>
     (\<forall>q < 2. 2 * T + q \<notin> (\<lambda>i. i div 2) ` N \<longrightarrow> ok2 sha t T q) \<and>
     (T \<notin> (\<lambda>i. i div 4) ` N \<longrightarrow> ok3 sha t T)"

definition bits_pending :: "(bytes \<Rightarrow> bytes) \<Rightarrow> Tree \<Rightarrow> bool" where
  "bits_pending sha t \<longleftrightarrow> (\<forall>T. activeTwigs t T \<noteq> None \<longrightarrow> twig_pending sha (touchedPosOf512b t) t T)"

lemma less_4_cases: "(\<forall>p < 4. P p) \<longleftrightarrow> P 0 \<and> P 1 \<and> P 2 \<and> P (3 :: nat)"
  by (auto simp: less_Suc_eq numeral_eq_Suc)

lemma less_2_cases_iff': "(\<forall>q < 2. P q) \<longleftrightarrow> P 0 \<and> P (1 :: nat)"
  by (auto simp: less_Suc_eq numeral_eq_Suc)

lemma chunk_append:
  "length b = 256 \<Longrightarrow> p < 4 \<Longrightarrow> subslice b (64 * p) (64 * p + 64) =
   subslice b (32 * (2 * p)) (32 * (2 * p) + 32) @ subslice b (32 * (2 * p + 1)) (32 * (2 * p + 1) + 32)"
  by (simp add: subslice_def take_add [of 32 32, simplified] add.commute)

lemma checkTwig_iff:
  assumes "activeTwigs t T = Some tw" and "wf_twig tw"
  shows "checkTwig sha tw \<longleftrightarrow> (\<forall>p < 4. ok1 sha t T p) \<and> (\<forall>q < 2. ok2 sha t T q) \<and> ok3 sha t T"
proof -
  have L: "length (activeBitsMTL1 tw) = 4" "length (activeBitsMTL2 tw) = 2" "length (activeBits tw) = 256"
    using assms(2) by (auto simp: wf_twig_def)
  have "(\<forall>p \<in> set [0 ..< 4]. activeBitsMTL1 tw ! p = sha ([8] @ subslice (activeBits tw) (64 * p) (64 * p + 64))) \<longleftrightarrow>
      (\<forall>p < 4. ok1 sha t T p)"
    using assms(1) L by (auto simp: ok1_def rd.simps twig_field_def nth0_def hash2_def chunk_append)
  moreover have "(\<forall>q \<in> set [0 ..< 2]. activeBitsMTL2 tw ! q =
        sha ([9] @ activeBitsMTL1 tw ! (2 * q) @ activeBitsMTL1 tw ! (2 * q + 1))) \<longleftrightarrow> (\<forall>q < 2. ok2 sha t T q)"
    using assms(1) L by (auto simp: ok2_def rd.simps twig_field_def nth0_def hash2_def)
  moreover have "(activeBitsMTL3 tw = sha ([10] @ activeBitsMTL2 tw ! 0 @ activeBitsMTL2 tw ! 1) \<and>
      twigRoot tw = sha ([11] @ leftRoot tw @ activeBitsMTL3 tw)) \<longleftrightarrow> ok3 sha t T"
    using assms(1) L by (auto simp: ok3_def rd.simps twig_field_def nth0_def hash2_def)
  ultimately show ?thesis unfolding checkTwig_def by argo
qed

section \<open>The four batches together\<close>

lemma image_div: "(\<lambda>i. i div 2) ` (\<lambda>i. i div 2) ` N = (\<lambda>i. i div (4 :: nat)) ` N"
  by (simp add: image_image div_mult2_eq [symmetric])

lemma syncMT4ActiveBits_ok:
  assumes sha: "hash32 sha" and sz: "sizes_ok t" and pend: "bits_pending sha t"
    and fin: "finite (touchedPosOf512b t)" and act: "\<forall>i \<in> touchedPosOf512b t. activeTwigs t (i div 4) \<noteq> None"
  shows "\<exists>ns A. syncMT4ActiveBits sha t = Inr (ns, t\<lparr>activeTwigs := A\<rparr>) \<and> sorted ns \<and> distinct ns \<and>
    set ns = (\<lambda>T. T div 2) ` (\<lambda>i. i div 4) ` touchedPosOf512b t \<and> sizes_ok (t\<lparr>activeTwigs := A\<rparr>) \<and>
    frame (t\<lparr>activeTwigs := A\<rparr>) = frame t \<and>
    (\<forall>T tw. A T = Some tw \<longrightarrow> checkTwig sha tw) \<and>
    (\<forall>T. rd (t\<lparr>activeTwigs := A\<rparr>) (CLeft T) = rd t (CLeft T)) \<and>
    (\<forall>T. T \<notin> (\<lambda>i. i div 4) ` touchedPosOf512b t \<longrightarrow> rd (t\<lparr>activeTwigs := A\<rparr>) (CTop T) = rd t (CTop T))"
proof -
  let ?N = "touchedPosOf512b t"
  let ?n0 = "sorted_list_of_set ?N" let ?n1 = "halve ?n0" let ?n2 = "halve ?n1"
  have n0: "set ?n0 = ?N" "sorted ?n0" using fin by auto
  note n1 = halve_sorted [OF n0(2)]
  note n2 = halve_sorted [OF n1(1)]
  have s1: "set ?n1 = (\<lambda>i. i div 2) ` ?N" using n1(3) n0(1) by simp
  have s2: "set ?n2 = (\<lambda>i. i div 4) ` ?N" using n2(3) s1 image_div by simp
  define t1 where "t1 = Run sha rd wr (map (\<lambda>i. syncL1 (i div 4) (i mod 4)) ?n0) t"
  define t2 where "t2 = Run sha rd wr (map (\<lambda>i. syncL2 (i div 2) (i mod 2)) ?n1) t1"
  define t3 where "t3 = Run sha rd wr (map syncL3 ?n2) t2"
  define t4 where "t4 = Run sha rd wr (map syncTop ?n2) t3"
  have sz1: "sizes_ok t1" and sz4: "sizes_ok t4"
    unfolding t4_def t3_def t2_def t1_def using sz sha by (auto intro: sizes_ok_Run)
  have fr: "frame t1 = frame t" "frame t2 = frame t" "frame t3 = frame t" "frame t4 = frame t"
    by (simp_all add: t4_def t3_def t2_def t1_def)
  note none = frame_active(2) [OF fr(1)] frame_active(2) [OF fr(2)] frame_active(2) [OF fr(3)] frame_active(2) [OF fr(4)]
  have v1: "\<forall>i \<in> set ?n0. tree_valid t (CL1 (i div 4) (i mod 4))"
    using act sz n0(1) by (fastforce simp: sizes_ok_def wf_twig_def split: option.splits)
  have v2: "\<forall>i \<in> set ?n1. tree_valid t1 (CL2 (i div 2) (i mod 2))"
  proof
    fix i assume "i \<in> set ?n1"
    with s1 obtain j where j: "j \<in> ?N" "i = j div 2" by auto
    then have "i div 2 = j div 4" by (simp add: div_mult2_eq [symmetric])
    then have "activeTwigs t1 (i div 2) \<noteq> None" using act j none(1) by auto
    then show "tree_valid t1 (CL2 (i div 2) (i mod 2))"
      using sz1 by (auto simp: sizes_ok_def wf_twig_def split: option.splits)
  qed
  have v3: "\<forall>T \<in> set ?n2. activeTwigs t2 T \<noteq> None" "\<forall>T \<in> set ?n2. activeTwigs t3 T \<noteq> None"
    using s2 act none by auto
  note b1 = syncL1_batch [OF sha v1, folded t1_def] and b2 = syncL2_batch [OF sha v2, folded t2_def]
  note b3 = syncL3_batch [OF sha v3(1), folded t3_def] and b4 = syncTop_batch [OF sha v3(2), folded t4_def]
  have e1: "rd t1 (CBits T k) = rd t (CBits T k)" "rd t1 (CL2 T q) = rd t (CL2 T q)" "rd t1 (CL3 T) = rd t (CL3 T)"
    "rd t1 (CLeft T) = rd t (CLeft T)" "rd t1 (CTop T) = rd t (CTop T)" for T k q by (simp_all add: b1(3))
  have e2: "rd t2 (CBits T k) = rd t1 (CBits T k)" "rd t2 (CL1 T p) = rd t1 (CL1 T p)" "rd t2 (CL3 T) = rd t1 (CL3 T)"
    "rd t2 (CLeft T) = rd t1 (CLeft T)" "rd t2 (CTop T) = rd t1 (CTop T)" for T k p by (simp_all add: b2(3))
  have e3: "rd t3 (CBits T k) = rd t2 (CBits T k)" "rd t3 (CL1 T p) = rd t2 (CL1 T p)" "rd t3 (CL2 T q) = rd t2 (CL2 T q)"
    "rd t3 (CLeft T) = rd t2 (CLeft T)" "rd t3 (CTop T) = rd t2 (CTop T)" for T k p q by (auto intro!: b3(2))
  have e4: "rd t4 (CBits T k) = rd t3 (CBits T k)" "rd t4 (CL1 T p) = rd t3 (CL1 T p)" "rd t4 (CL2 T q) = rd t3 (CL2 T q)"
    "rd t4 (CLeft T) = rd t3 (CLeft T)" "rd t4 (CL3 T) = rd t3 (CL3 T)" for T k p q by (auto intro!: b4(2))
  note e = e1 e2 e3 e4
  have pT: "twig_pending sha ?N t T" if "activeTwigs t T \<noteq> None" for T using pend that by (simp add: bits_pending_def)
  have k1: "ok1 sha t4 T p" if "activeTwigs t T \<noteq> None" "p < 4" for T p
    using b1(1,2) [of p T] n0(1) that pT [of T]
    by (cases "4 * T + p \<in> ?N") (auto simp: ok1_def twig_pending_def e)
  have k2: "ok2 sha t4 T q" if T: "activeTwigs t T \<noteq> None" and q: "q < 2" for T q
  proof (cases "2 * T + q \<in> set ?n1")
    case True
    with b2(1) [of q T] q show ?thesis by (simp add: ok2_def e)
  next
    case False
    then have "4 * T + 2 * q \<notin> ?N" "4 * T + (2 * q + 1) \<notin> ?N" unfolding s1 by force+
    with b1(2) [of "2 * q" T] b1(2) [of "2 * q + 1" T] q n0(1)
    have "rd t1 (CL1 T (2 * q)) = rd t (CL1 T (2 * q))" "rd t1 (CL1 T (2 * q + 1)) = rd t (CL1 T (2 * q + 1))" by auto
    with b2(2) [of q T] q False pT [OF T] show ?thesis unfolding s1 by (simp add: ok2_def twig_pending_def e)
  qed
  have k3: "ok3 sha t4 T" if T: "activeTwigs t T \<noteq> None" for T
  proof (cases "T \<in> set ?n2")
    case True
    with b3(1) [of T] b4(1) [of T] show ?thesis by (simp add: ok3_def e)
  next
    case False
    then have n: "2 * T + 0 \<notin> set ?n1" "2 * T + 1 \<notin> set ?n1" unfolding n2(3) by force+
    from b2(2) [OF _ n(1)] b2(2) [OF _ n(2)]
    have "rd t2 (CL2 T 0) = rd t (CL2 T 0)" "rd t2 (CL2 T 1) = rd t (CL2 T 1)" by (simp_all add: e)
    moreover have "rd t3 (CL3 T) = rd t (CL3 T)" "rd t4 (CTop T) = rd t (CTop T)"
      using b3(2) [of "CL3 T"] b4(2) [of "CTop T"] False by (auto simp: e)
    ultimately show ?thesis using pT [OF T] False unfolding s2 by (simp add: ok3_def twig_pending_def e)
  qed
  have "\<exists>A. t4 = t\<lparr>activeTwigs := A\<rparr>"
  proof -
    have "\<exists>A. t1 = t\<lparr>activeTwigs := A\<rparr>" "\<exists>A. t2 = t1\<lparr>activeTwigs := A\<rparr>"
      "\<exists>A. t3 = t2\<lparr>activeTwigs := A\<rparr>" "\<exists>A. t4 = t3\<lparr>activeTwigs := A\<rparr>"
      unfolding t4_def t3_def t2_def t1_def
      by (rule Run_twigs; auto simp: syncL1_def syncL2_def syncL3_def syncTop_def tree_job_def twig_cell_def)+
    then show ?thesis by auto
  qed
  then obtain A where A: "t4 = t\<lparr>activeTwigs := A\<rparr>" by blast
  have chk: "checkTwig sha tw" if "A T = Some tw" for T tw
  proof -
    have tw: "activeTwigs t4 T = Some tw" using that A by simp
    then have "activeTwigs t T \<noteq> None" using none(4) [of T] by auto
    with checkTwig_iff [OF tw] sz4 tw k1 k2 k3 show ?thesis by (auto simp: sizes_ok_def)
  qed
  have "syncMT4ActiveBits sha t = Inr (halve ?n2, t4)"
    using act n0(1) by (simp add: syncMT4ActiveBits_def Let_def t4_def t3_def t2_def t1_def)
  moreover have "sorted (halve ?n2)" "distinct (halve ?n2)" "set (halve ?n2) = (\<lambda>T. T div 2) ` (\<lambda>i. i div 4) ` ?N"
    using halve_sorted [OF n2(1)] s2 by auto
  moreover have "rd t4 (CTop T) = rd t (CTop T)" if "T \<notin> (\<lambda>i. i div 4) ` ?N" for T
    using b4(2) [of "CTop T"] that s2 by (auto simp: e)
  ultimately show ?thesis
    using sz4 fr(4) chk e unfolding A by (intro exI [of _ "halve ?n2"] exI [of _ A]) auto
qed

end
