(* ===== verification/TreeUpper.thy ===== *)
theory TreeUpper
  imports TreeBits
begin

text \<open>
  \<open>syncUpperNodes\<close>: the nodes above the twigs. The upper tree is a partial function \<open>g\<close> of level and
  index (level 12 holds the twig roots, of active twigs or kept for deleted ones). Per level, the code
  recomputes the ancestors of the touched twigs; the invariant \<open>upper\<close> of the levels below makes
  the left child of each of them present, and its right child present or at the right edge.
\<close>

section \<open>Levels\<close>

lemma bits_Len_bound: "n < 2 ^ bits_Len n"
proof (induction n rule: bits_Len.induct)
  case (1 n)
  show ?case
  proof (cases "n = 0")
    case False
    with 1 have "n div 2 < 2 ^ bits_Len (n div 2)" by simp
    then show ?thesis using False by (subst bits_Len.simps) (simp add: div_less_iff_less_mult mult.commute)
  qed (simp add: bits_Len.simps)
qed

lemma bits_Len_le: "n < 2 ^ k \<Longrightarrow> bits_Len n \<le> k"
proof (induction k arbitrary: n)
  case 0
  then show ?case by (simp add: bits_Len.simps)
next
  case (Suc k)
  then have "n div 2 < 2 ^ k" by (simp add: div_less_iff_less_mult mult.commute)
  from Suc.IH [OF this] show ?case by (subst bits_Len.simps) simp
qed

lemma bits_Len_pos: "0 < bits_Len n \<longleftrightarrow> 0 < n"
  by (subst bits_Len.simps) simp

lemma calcMaxLevel_eq: "y < 2 ^ 63 \<Longrightarrow> calcMaxLevel y = 12 + bits_Len y"
  using bits_Len_le [of y 63] by (simp add: calcMaxLevel_def LeadingZeros64_def)

lemma calcMaxLevel_top: "y < 2 ^ 63 \<Longrightarrow> y div 2 ^ (calcMaxLevel y - 12) = 0"
  using bits_Len_bound [of y] by (simp add: calcMaxLevel_eq)

lemma calcMaxLevel_ge: "y < 2 ^ 63 \<Longrightarrow> 0 < y \<Longrightarrow> 13 \<le> calcMaxLevel y"
  using bits_Len_pos [of y] by (simp add: calcMaxLevel_eq)

section \<open>The upper tree\<close>

type_synonym upper_tree = "nat \<Rightarrow> nat \<Rightarrow> bytes option"

definition dirty :: "nat set \<Rightarrow> nat \<Rightarrow> nat \<Rightarrow> bool" where
  "dirty D l i \<longleftrightarrow> (\<exists>T \<in> D. T div 2 ^ (l - 12) = i)"

text \<open>The right child as the code reads it: a missing right twig counts as the null twig.\<close>

definition rchild :: "(bytes \<Rightarrow> bytes) \<Rightarrow> upper_tree \<Rightarrow> nat \<Rightarrow> nat \<Rightarrow> bytes option" where
  "rchild sha g l i = (if l = 13 then Some (case g 12 (2 * i + 1) of None \<Rightarrow> twigRoot (NullTwig sha) | Some r \<Rightarrow> r)
     else g (l - 1) (2 * i + 1))"

text \<open>The first index kept at a level after pruning the twigs below \<open>E\<close>.\<close>

definition kept :: "nat \<Rightarrow> nat \<Rightarrow> nat" where
  "kept E l = 2 * (E div 2 ^ (l - 12) div 2)"

text \<open>The last index that a level can have: one more than its last real node when that is even.\<close>

definition edge :: "nat \<Rightarrow> nat \<Rightarrow> nat" where
  "edge y l = (let m = y div 2 ^ (l - 12) in if even m then m + 1 else m)"

definition upper :: "(bytes \<Rightarrow> bytes) \<Rightarrow> nat set \<Rightarrow> nat \<Rightarrow> nat \<Rightarrow> nat \<Rightarrow> nat \<Rightarrow> upper_tree \<Rightarrow> bool" where
  "upper sha D E y M L g \<longleftrightarrow>
     (\<forall>T. E \<le> T \<and> T \<le> y \<longrightarrow> g 12 T \<noteq> None) \<and> (\<forall>T. g 12 T \<noteq> None \<longrightarrow> T \<le> y) \<and>
     (\<forall>l i. 13 \<le> l \<and> l \<le> M \<and> kept E l \<le> i \<and> i \<le> y div 2 ^ (l - 12) \<and> (l < L \<or> \<not> dirty D l i) \<longrightarrow> g l i \<noteq> None) \<and>
     (\<forall>l i. 13 \<le> l \<and> g l i \<noteq> None \<longrightarrow> l \<le> max M 13 \<and> i \<le> edge y l) \<and>
     (\<forall>l i h a b. 13 \<le> l \<and> g l i = Some h \<and> (l < L \<or> \<not> dirty D l i) \<and>
        g (l - 1) (2 * i) = Some a \<and> rchild sha g l i = Some b \<longrightarrow> h = hash2 sha (word_of_nat (l - 1)) a b) \<and>
     (\<forall>l i. 13 < l \<and> g l i \<noteq> None \<and> i \<le> y div 2 ^ (l - 12) \<and> (l < L \<or> \<not> dirty D l i) \<longrightarrow> g (l - 1) (2 * i + 1) \<noteq> None)"

lemma upperD:
  assumes "upper sha D E y M L g"
  shows "E \<le> T \<Longrightarrow> T \<le> y \<Longrightarrow> g 12 T \<noteq> None"
    and "g 12 T \<noteq> None \<Longrightarrow> T \<le> y"
    and "13 \<le> l \<Longrightarrow> l \<le> M \<Longrightarrow> kept E l \<le> i \<Longrightarrow> i \<le> y div 2 ^ (l - 12) \<Longrightarrow> l < L \<or> \<not> dirty D l i \<Longrightarrow> g l i \<noteq> None"
    and "13 \<le> l \<Longrightarrow> g l i \<noteq> None \<Longrightarrow> l \<le> max M 13 \<and> i \<le> edge y l"
    and "13 \<le> l \<Longrightarrow> g l i = Some h \<Longrightarrow> l < L \<or> \<not> dirty D l i \<Longrightarrow> g (l - 1) (2 * i) = Some a \<Longrightarrow>
      rchild sha g l i = Some b \<Longrightarrow> h = hash2 sha (word_of_nat (l - 1)) a b"
    and "13 < l \<Longrightarrow> g l i \<noteq> None \<Longrightarrow> i \<le> y div 2 ^ (l - 12) \<Longrightarrow> l < L \<or> \<not> dirty D l i \<Longrightarrow> g (l - 1) (2 * i + 1) \<noteq> None"
  using assms unfolding upper_def by blast+

text \<open>Level \<open>L\<close> recomputed: the ancestors of \<open>D\<close>, and null nodes for missing right children.\<close>

definition level_step :: "(bytes \<Rightarrow> bytes) \<Rightarrow> nat set \<Rightarrow> nat \<Rightarrow> upper_tree \<Rightarrow> upper_tree" where
  "level_step sha D L g = (\<lambda>l i.
     if l = L \<and> dirty D L i then
       Some (hash2 sha (word_of_nat (L - 1)) (the (g (L - 1) (2 * i)))
         (case rchild sha g L i of None \<Rightarrow> NullNodeInHigherTree sha L | Some r \<Rightarrow> r))
     else if 13 < L \<and> Suc l = L \<and> odd i \<and> dirty D L (i div 2) \<and> g l i = None then Some (NullNodeInHigherTree sha L)
     else g l i)"

lemma div_pow_pred: "13 \<le> l \<Longrightarrow> (x :: nat) div 2 ^ (l - 12) = x div 2 ^ (l - 1 - 12) div 2"
proof -
  assume "13 \<le> l"
  then have "l - 12 = Suc (l - 1 - 12)" by simp
  then show ?thesis by (simp only: div_pow_Suc)
qed

lemma dirty_parent: "13 \<le> l \<Longrightarrow> dirty D (l - 1) i \<Longrightarrow> dirty D l (i div 2)"
  by (auto simp: dirty_def div_pow_pred)

lemma kept_pred: "13 < l \<Longrightarrow> kept E (l - 1) = 2 * (E div 2 ^ (l - 12))"
  using div_pow_pred [of l E] by (simp add: kept_def)

lemma kept_le: "kept E l \<le> E div 2 ^ (l - 12)"
  by (simp add: kept_def)

text \<open>A node that is an ancestor of a twig to synchronise has its left child.\<close>

lemma upper_left:
  assumes up: "upper sha D E y M L g" and L: "13 \<le> L" "L \<le> M"
    and D: "\<forall>T \<in> D. T \<le> y \<and> E \<le> T \<and> E \<le> 2 * (T div 2)" and d: "dirty D L i"
  shows "g (L - 1) (2 * i) \<noteq> None" and "2 * i \<le> y div 2 ^ (L - 1 - 12)"
    and "13 < L \<Longrightarrow> g (L - 1) (2 * i + 1) = None \<Longrightarrow> 2 * i = y div 2 ^ (L - 1 - 12)"
    and "i \<le> y div 2 ^ (L - 12)" and "E div 2 ^ (L - 12) \<le> i"
proof -
  from d obtain T where T: "T \<in> D" "T div 2 ^ (L - 12) = i" by (auto simp: dirty_def)
  with D have T': "T \<le> y" "E \<le> T" "E \<le> 2 * (T div 2)" by auto
  show iy: "i \<le> y div 2 ^ (L - 12)" and iE: "E div 2 ^ (L - 12) \<le> i" using T(2) T' by (auto intro: div_le_mono)
  show le: "2 * i \<le> y div 2 ^ (L - 1 - 12)" using iy div_pow_pred [OF L(1), of y] by simp
  show "g (L - 1) (2 * i) \<noteq> None"
  proof (cases "L = 13")
    case True
    then have "2 * i = 2 * (T div 2)" using T(2) by simp
    with T' le True show ?thesis using upperD(1) [OF up, of "2 * i"] by simp
  next
    case False
    then have "kept E (L - 1) \<le> 2 * i" using iE L kept_pred [of L E] by simp
    with False le L show ?thesis by (intro upperD(3) [OF up]) auto
  qed
  show "2 * i = y div 2 ^ (L - 1 - 12)" if "13 < L" "g (L - 1) (2 * i + 1) = None"
  proof (rule ccontr)
    assume "2 * i \<noteq> y div 2 ^ (L - 1 - 12)"
    with le have "2 * i + 1 \<le> y div 2 ^ (L - 1 - 12)" by simp
    moreover have "kept E (L - 1) \<le> 2 * i + 1" using iE that(1) kept_pred [of L E] by simp
    moreover have "13 \<le> L - 1" "L - 1 \<le> M" "L - 1 < L" using that(1) L by auto
    ultimately show False using upperD(3) [OF up, of "L - 1" "2 * i + 1"] that(2) by blast
  qed
qed

lemma level_step_12: "13 \<le> L \<Longrightarrow> level_step sha D L g 12 = g 12"
  by (auto simp: level_step_def fun_eq_iff)

lemma edge_filler:
  assumes up: "upper sha D E y M L g" and L: "14 \<le> L" and m: "2 * j = y div 2 ^ (L - 1 - 12)"
  shows "g (L - 2) (2 * (2 * j + 1)) = None"
proof (rule ccontr)
  assume g: "g (L - 2) (2 * (2 * j + 1)) \<noteq> None"
  have half: "y div 2 ^ (L - 1 - 12) = y div 2 ^ (L - 2 - 12) div 2"
    using div_pow_pred [of "L - 1" y] L by (simp add: numeral_2_eq_2)
  show False
  proof (cases "L = 14")
    case True
    then have "2 * (2 * j + 1) \<le> y" using g upperD(2) [OF up] by simp
    with m half True show False by simp
  next
    case False
    then have "2 * (2 * j + 1) \<le> edge y (L - 2)" using g upperD(4) [OF up, of "L - 2"] L by auto
    with m half show False by (auto simp: edge_def Let_def split: if_splits)
  qed
qed

lemma level_step_ex: "g l i \<noteq> None \<Longrightarrow> level_step sha D L g l i \<noteq> None"
  by (auto simp: level_step_def)

lemma level_step_edge:
  assumes up: "upper sha D E y M L g" and L: "13 \<le> L" "L \<le> M"
    and D: "\<forall>T \<in> D. T \<le> y \<and> E \<le> T \<and> E \<le> 2 * (T div 2)"
    and l: "13 \<le> l" and s: "level_step sha D L g l i \<noteq> None"
  shows "l \<le> max M 13 \<and> i \<le> edge y l"
proof -
  note left = upper_left [OF up L D]
  consider "l = L" "dirty D L i" | "13 < L" "Suc l = L" "odd i" "dirty D L (i div 2)" "g l i = None" | "g l i \<noteq> None"
    using s by (auto simp: level_step_def split: if_splits)
  then show ?thesis
  proof cases
    case 1
    then have "i \<le> y div 2 ^ (L - 12)" using left(4) by blast
    with 1 L show ?thesis by (auto simp: edge_def Let_def)
  next
    case 2
    have i: "2 * (i div 2) + 1 = i" using 2(3) by presburger
    have "2 * (i div 2) = y div 2 ^ (L - 1 - 12)" using left(3) [OF 2(4)] 2 i by auto
    with 2 i L show ?thesis by (auto simp: edge_def Let_def)
  next
    case 3
    with upperD(4) [OF up l] show ?thesis by blast
  qed
qed

lemma level_step_cons:
  assumes up: "upper sha D E y M L g" and L: "13 \<le> L" "L \<le> M"
    and D: "\<forall>T \<in> D. T \<le> y \<and> E \<le> T \<and> E \<le> 2 * (T div 2)"
    and l: "13 \<le> l" and h: "level_step sha D L g l i = Some h" and c: "l < Suc L \<or> \<not> dirty D l i"
    and a: "level_step sha D L g (l - 1) (2 * i) = Some a" and b: "rchild sha (level_step sha D L g) l i = Some b"
  shows "h = hash2 sha (word_of_nat (l - 1)) a b"
proof -
  let ?s = "level_step sha D L g"
  have s12: "?s 12 = g 12" by (rule level_step_12 [OF L(1)])
  have a': "g (l - 1) (2 * i) = Some a" if "l \<noteq> Suc L \<or> \<not> dirty D l i"
    using a that l dirty_parent [of l D "2 * i"] by (auto simp: level_step_def split: if_splits)
  consider "l = L" "dirty D L i" | "13 < L" "Suc l = L" "odd i" "dirty D L (i div 2)" "g l i = None"
    | "g l i = Some h" "\<not> (l = L \<and> dirty D L i)" using h by (auto simp: level_step_def split: if_splits)
  then show ?thesis
  proof cases
    case 1
    then have "g (L - 1) (2 * i) = Some a" using a' by simp
    moreover have "b = (case rchild sha g L i of None \<Rightarrow> NullNodeInHigherTree sha L | Some r \<Rightarrow> r)"
      using b 1 L s12 by (auto simp: rchild_def level_step_def split: if_splits option.splits)
    ultimately show ?thesis using h 1 by (simp add: level_step_def)
  next
    case 2
    have i: "2 * (i div 2) + 1 = i" using 2(3) by presburger
    have "2 * (i div 2) = y div 2 ^ (L - 1 - 12)" using upper_left(3) [OF up L D 2(4)] 2 i by auto
    from edge_filler [OF up _ this] 2(1) have "g (L - 2) (2 * i) = None" unfolding i by simp
    moreover have "l - 1 = L - 2" using 2(2) by simp
    ultimately show ?thesis using a' 2(2) by auto
  next
    case 3
    then have c': "l < L \<or> \<not> dirty D l i" using c by (cases "l = L") auto
    have "rchild sha g l i = Some b"
    proof (cases "l = 13")
      case True
      then show ?thesis using b s12 by (simp add: rchild_def)
    next
      case False
      then have "?s (l - 1) (2 * i + 1) = Some b" using b by (simp add: rchild_def)
      moreover have "l - 1 = L \<Longrightarrow> \<not> dirty D L (2 * i + 1)"
        using c' l dirty_parent [of l D "2 * i + 1"] by auto
      ultimately have "g (l - 1) (2 * i + 1) = Some b"
        using 3(2) l by (auto simp: level_step_def split: if_splits)
      with False show ?thesis by (simp add: rchild_def)
    qed
    with upperD(5) [OF up l 3(1) c'] a' c' show ?thesis by auto
  qed
qed

lemma level_step_right:
  assumes up: "upper sha D E y M L g" and L: "13 \<le> L" "L \<le> M"
    and D: "\<forall>T \<in> D. T \<le> y \<and> E \<le> T \<and> E \<le> 2 * (T div 2)"
    and l: "13 < l" and h: "level_step sha D L g l i \<noteq> None" "i \<le> y div 2 ^ (l - 12)" and c: "l < Suc L \<or> \<not> dirty D l i"
  shows "level_step sha D L g (l - 1) (2 * i + 1) \<noteq> None"
proof -
  consider "l = L" "dirty D L i" | "13 < L" "Suc l = L" "odd i" "dirty D L (i div 2)" "g l i = None"
    | "g l i \<noteq> None" "\<not> (l = L \<and> dirty D L i)" using h(1) by (auto simp: level_step_def split: if_splits)
  then show ?thesis
  proof cases
    case 1
    then show ?thesis using l by (auto simp: level_step_def)
  next
    case 2
    have i: "2 * (i div 2) + 1 = i" using 2(3) by presburger
    have "2 * (i div 2) = y div 2 ^ (L - 1 - 12)" using upper_left(3) [OF up L D 2(4)] 2 i by auto
    moreover have "L - 1 - 12 = l - 12" using 2(2) by simp
    ultimately have False using h(2) i by simp
    then show ?thesis ..
  next
    case 3
    then have "l < L \<or> \<not> dirty D l i" using c by (cases "l = L") auto
    with 3 h(2) l show ?thesis by (intro level_step_ex upperD(6) [OF up])
  qed
qed

theorem upper_level_step:
  assumes up: "upper sha D E y M L g" and L: "13 \<le> L" "L \<le> M"
    and D: "\<forall>T \<in> D. T \<le> y \<and> E \<le> T \<and> E \<le> 2 * (T div 2)"
  shows "upper sha D E y M (Suc L) (level_step sha D L g)"
proof -
  have "level_step sha D L g l i \<noteq> None"
    if "13 \<le> l" "l \<le> M" "kept E l \<le> i" "i \<le> y div 2 ^ (l - 12)" "l < Suc L \<or> \<not> dirty D l i" for l i
  proof (cases "l = L \<and> dirty D L i")
    case True
    then show ?thesis by (simp add: level_step_def)
  next
    case False
    then have "l < L \<or> \<not> dirty D l i" using that(5) by (cases "l = L") auto
    then show ?thesis using that by (intro level_step_ex upperD(3) [OF up])
  qed
  moreover note level_step_edge [OF assms] level_step_cons [OF assms] level_step_right [OF assms]
  ultimately show ?thesis
    unfolding upper_def level_step_12 [OF L(1)] using upperD(1,2) [OF up] by blast
qed

section \<open>The loop of syncNodesByLevel\<close>

text \<open>The upper tree that a data tree holds.\<close>

definition upper_of :: "Tree \<Rightarrow> upper_tree" where
  "upper_of t l i = (if i < 2 ^ 56 then (if l = 12 then getTwigRoot t i else nodes t (Pos l i)) else None)"

text \<open>The nodes that one round creates, and the job that it adds.\<close>

definition create_node :: "(bytes \<Rightarrow> bytes) \<Rightarrow> nat \<Rightarrow> nat \<Rightarrow> (nat \<rightharpoonup> bytes) \<Rightarrow> (nat \<rightharpoonup> bytes)" where
  "create_node sha L i N =
     (let N = (if N (Pos L i) = None then N(Pos L i \<mapsto> zeroHash) else N)
      in if L \<noteq> 13 \<and> N (Pos (L - 1) (2 * i + 1)) = None
         then N(Pos (L - 1) (2 * i + 1) \<mapsto> NullNodeInHigherTree sha L) else N)"

definition upper_job :: "(bytes \<Rightarrow> bytes) \<Rightarrow> nat \<Rightarrow> Tree \<Rightarrow> nat \<Rightarrow> cell hashJob" where
  "upper_job sha L t i =
     (if L = 13 then tree_job 12 (CNode (Pos 13 i)) (CVal (the (getTwigRoot t (2 * i))))
        (CVal (case getTwigRoot t (2 * i + 1) of None \<Rightarrow> twigRoot (NullTwig sha) | Some r \<Rightarrow> r))
      else tree_job (word_of_nat (L - 1)) (CNode (Pos L i)) (CNode (Pos (L - 1) (2 * i))) (CNode (Pos (L - 1) (2 * i + 1))))"

text \<open>The nodes created by the whole loop.\<close>

definition created :: "(bytes \<Rightarrow> bytes) \<Rightarrow> nat \<Rightarrow> nat set \<Rightarrow> (nat \<rightharpoonup> bytes) \<Rightarrow> (nat \<rightharpoonup> bytes)" where
  "created sha L I N = (\<lambda>p. if N p \<noteq> None then N p else if p \<in> Pos L ` I then Some zeroHash
     else if L \<noteq> 13 \<and> p \<in> (\<lambda>i. Pos (L - 1) (2 * i + 1)) ` I then Some (NullNodeInHigherTree sha L) else None)"

lemma create_node_created:
  assumes "13 \<le> L" and "\<forall>k \<in> insert i I. k < 2 ^ 54"
  shows "create_node sha L i (created sha L I N) = created sha L (insert i I) N"
proof -
  let ?R = "\<lambda>k. Pos (L - 1) (2 * k + 1)" and ?N1 = "created sha L I N"
  have ne: "?R k \<noteq> Pos L i" if "k \<in> insert i I" for k
  proof -
    have "2 * k + 1 < 2 ^ 56" "i < 2 ^ 56" using assms(2) that by force+
    then show ?thesis using assms(1) by auto
  qed
  have c: "create_node sha L i ?N1 = (\<lambda>p. if p = Pos L i \<and> ?N1 p = None then Some zeroHash
      else if L \<noteq> 13 \<and> p = ?R i \<and> ?N1 p = None then Some (NullNodeInHigherTree sha L) else ?N1 p)"
    using ne [of i] by (auto simp: create_node_def Let_def fun_eq_iff)
  show ?thesis unfolding c
  proof
    fix p
    consider "N p \<noteq> None" | "N p = None" "p = Pos L i" | "N p = None" "p \<noteq> Pos L i" by blast
    then show "(if p = Pos L i \<and> ?N1 p = None then Some zeroHash
        else if L \<noteq> 13 \<and> p = ?R i \<and> ?N1 p = None then Some (NullNodeInHigherTree sha L) else ?N1 p) =
        created sha L (insert i I) N p"
    proof cases
      case 2
      have "p \<notin> ?R ` I"
      proof
        assume "p \<in> ?R ` I"
        then obtain k where "k \<in> I" "p = ?R k" by blast
        with ne [of k] 2(2) show False by simp
      qed
      with 2 ne [of i] show ?thesis by (auto simp: created_def)
    qed (auto simp: created_def)
  qed
qed

lemma getTwigRoot_nodes:
  "(\<And>n. n = k \<Longrightarrow> N (Pos 12 n) = nodes t (Pos 12 n)) \<Longrightarrow> getTwigRoot (t\<lparr>nodes := N\<rparr>) k = getTwigRoot t k"
  by (simp add: getTwigRoot_def split: option.splits)

lemma created_12:
  assumes "13 \<le> L" and "\<forall>k \<in> I. k < 2 ^ 54" and "n < 2 ^ 56"
  shows "created sha L I N (Pos 12 n) = N (Pos 12 n)"
proof -
  have "Pos 12 n \<noteq> Pos L k" "13 < L \<Longrightarrow> Pos 12 n \<noteq> Pos (L - 1) (2 * k + 1)" if "k \<in> I" for k
  proof -
    have "2 * k + 1 < 2 ^ 56" "k < 2 ^ 56" using assms(2) that by force+
    then show "Pos 12 n \<noteq> Pos L k" "13 < L \<Longrightarrow> Pos 12 n \<noteq> Pos (L - 1) (2 * k + 1)"
      using assms(1,3) by (auto simp: less_imp_neq)
  qed
  then show ?thesis using assms(1) by (cases "L = 13") (auto simp: created_def)
qed

lemma syncNode_ok:
  assumes L: "13 \<le> L" and i: "i < 2 ^ 54" and left: "upper_of t (L - 1) (2 * i) \<noteq> None"
    and right: "13 < L \<Longrightarrow> nodes t (Pos (L - 1) (2 * i + 1)) = None \<Longrightarrow> 2 * i = maxN"
  shows "syncNode sha L maxN i (t, js) =
    Inr (t\<lparr>nodes := create_node sha L i (nodes t)\<rparr>, js @ [upper_job sha L t i])"
proof -
  have b: "i < 2 ^ 56" "2 * i < 2 ^ 56" "2 * i + 1 < 2 ^ 56" using i by simp_all
  let ?N = "if nodes t (Pos L i) = None then (nodes t)(Pos L i \<mapsto> zeroHash) else nodes t"
  have t': "(if nodes t (Pos L i) = None then t\<lparr>nodes := (nodes t)(Pos L i \<mapsto> zeroHash)\<rparr> else t) = t\<lparr>nodes := ?N\<rparr>"
    by simp
  show ?thesis
  proof (cases "L = 13")
    case True
    have "getTwigRoot (t\<lparr>nodes := ?N\<rparr>) k = getTwigRoot t k" if "k < 2 ^ 56" for k
      using that b True by (intro getTwigRoot_nodes) simp
    note r = this [OF b(2)] this [OF b(3)]
    from left b True obtain h where "getTwigRoot t (2 * i) = Some h" by (auto simp: upper_of_def)
    with r True show ?thesis
      unfolding syncNode_def Let_def prod.case t'
      by (simp add: create_node_def upper_job_def Let_def Add_def tree_job_def)
  next
    case False
    have ne: "Pos (L - 1) (2 * i) \<noteq> Pos L i" "Pos (L - 1) (2 * i + 1) \<noteq> Pos L i" using b L by auto
    from left b False L have l: "nodes t (Pos (L - 1) (2 * i)) \<noteq> None" by (auto simp: upper_of_def split: if_splits)
    from ne have N: "?N (Pos (L - 1) (2 * i)) = nodes t (Pos (L - 1) (2 * i))"
      "?N (Pos (L - 1) (2 * i + 1)) = nodes t (Pos (L - 1) (2 * i + 1))" by simp_all
    show ?thesis
    proof (cases "nodes t (Pos (L - 1) (2 * i + 1)) = None")
      case True
      with right False L have "2 * i = maxN" by simp
      with True False L l N ne show ?thesis
        unfolding syncNode_def Let_def prod.case t'
        by (cases "nodes t (Pos L i)") (simp_all add: create_node_def upper_job_def Let_def Add_def tree_job_def)
    next
      case rt: False
      then obtain r where "nodes t (Pos (L - 1) (2 * i + 1)) = Some r" by blast
      with False L l N ne show ?thesis
        unfolding syncNode_def Let_def prod.case t'
        by (cases "nodes t (Pos L i)") (simp_all add: create_node_def upper_job_def Let_def Add_def tree_job_def)
    qed
  qed
qed

lemma upper_job_created:
  assumes "13 \<le> L" and "\<forall>k \<in> I. k < 2 ^ 54" and "i < 2 ^ 54"
  shows "upper_job sha L (t\<lparr>nodes := created sha L I (nodes t)\<rparr>) i = upper_job sha L t i"
proof -
  have "getTwigRoot (t\<lparr>nodes := created sha L I (nodes t)\<rparr>) k = getTwigRoot t k" if "k < 2 ^ 56" for k
    using created_12 [OF assms(1,2) that] by (intro getTwigRoot_nodes) simp
  from this [of "2 * i"] this [of "2 * i + 1"] assms(3) show ?thesis
    by (cases "L = 13") (simp_all add: upper_job_def)
qed

lemma foldE_syncNode:
  assumes L: "13 \<le> L" and b: "\<forall>i \<in> set ns. i < 2 ^ 54"
    and left: "\<forall>i \<in> set ns. upper_of t (L - 1) (2 * i) \<noteq> None"
    and right: "\<forall>i \<in> set ns. 13 < L \<longrightarrow> nodes t (Pos (L - 1) (2 * i + 1)) = None \<longrightarrow> 2 * i = maxN"
  shows "I \<subseteq> set ns \<Longrightarrow> set ms \<subseteq> set ns \<Longrightarrow> foldE (syncNode sha L maxN) ms (t\<lparr>nodes := created sha L I (nodes t)\<rparr>, js) =
    Inr (t\<lparr>nodes := created sha L (I \<union> set ms) (nodes t)\<rparr>, js @ map (upper_job sha L t) ms)"
proof (induction ms arbitrary: I js)
  case Nil
  then show ?case by simp
next
  case (Cons i ms)
  let ?t = "t\<lparr>nodes := created sha L I (nodes t)\<rparr>"
  have I: "\<forall>k \<in> I. k < 2 ^ 54" "\<forall>k \<in> insert i I. k < 2 ^ 54" and i: "i \<in> set ns" "i < 2 ^ 54"
    using Cons.prems b by auto
  have l: "upper_of ?t (L - 1) (2 * i) \<noteq> None"
  proof (cases "L = 13")
    case True
    have "getTwigRoot ?t (2 * i) = getTwigRoot t (2 * i)"
      using created_12 [OF L I(1), of "2 * i"] i(2) by (intro getTwigRoot_nodes) simp
    with left i True show ?thesis by (auto simp: upper_of_def)
  next
    case False
    with left i L show ?thesis by (auto simp: upper_of_def created_def split: if_splits)
  qed
  have r: "2 * i = maxN" if "13 < L" "nodes ?t (Pos (L - 1) (2 * i + 1)) = None"
    using that right i by (auto simp: created_def split: if_splits)
  have "syncNode sha L maxN i (?t, js) =
      Inr (t\<lparr>nodes := created sha L (insert i I) (nodes t)\<rparr>, js @ [upper_job sha L t i])"
    using syncNode_ok [OF L i(2) l r, of sha js] create_node_created [OF L I(2), of sha "nodes t"]
      upper_job_created [OF L I(1) i(2), of sha t] by simp
  with Cons.IH [of "insert i I" "js @ [upper_job sha L t i]"] Cons.prems show ?case by simp
qed

section \<open>One level and all levels\<close>

lemma created_none: "created sha L {} N = N"
  by (auto simp: created_def fun_eq_iff)

text \<open>The batch of a level: what the nodes are after it.\<close>

lemma upper_batch:
  fixes t :: Tree
  assumes sha: "hash32 sha" and L: "13 \<le> L" and b: "\<forall>i \<in> set ns. i < 2 ^ 54"
  defines "t1 \<equiv> t\<lparr>nodes := created sha L (set ns) (nodes t)\<rparr>"
  shows "\<exists>N. Run sha rd wr (map (upper_job sha L t) ns) t1 = t\<lparr>nodes := N\<rparr> \<and>
    (\<forall>i \<in> set ns. N (Pos L i) = Some (job_value sha rd t1 (upper_job sha L t i))) \<and>
    (\<forall>p. p \<notin> Pos L ` set ns \<longrightarrow> N p = created sha L (set ns) (nodes t) p)"
proof -
  let ?f = "upper_job sha L t" let ?t = "Run sha rd wr (map ?f ns) t1"
  have tgt: "job_target (?f i) = CNode (Pos L i)" for i by (simp add: upper_job_def tree_job_def)
  have ind: "\<forall>i \<in> set ns. \<forall>k \<in> set ns. job_target (?f i) \<noteq> job_srcA (?f k) \<and> job_target (?f i) \<noteq> job_srcB (?f k)"
  proof (intro ballI)
    fix i k assume that: "i \<in> set ns" "k \<in> set ns"
    have "i < 2 ^ 56" "2 * k < 2 ^ 56" "2 * k + 1 < 2 ^ 56" using b that by force+
    then have "Pos L i \<noteq> Pos (L - 1) (2 * k)" "Pos L i \<noteq> Pos (L - 1) (2 * k + 1)" using L by auto
    then show "job_target (?f i) \<noteq> job_srcA (?f k) \<and> job_target (?f i) \<noteq> job_srcB (?f k)"
      by (auto simp: upper_job_def tree_job_def)
  qed
  have inj: "inj_on (\<lambda>i. job_target (?f i)) (set ns)"
  proof (rule inj_onI)
    fix i k assume "i \<in> set ns" "k \<in> set ns" and e: "job_target (?f i) = job_target (?f k)"
    then have "i < 2 ^ 56" "k < 2 ^ 56" using b by force+
    with e show "i = k" by (simp add: tgt)
  qed
  have v: "\<forall>i \<in> set ns. tree_valid t1 (job_target (?f i))"
    by (auto simp: tgt t1_def created_def)
  note R = Run_map [OF sha inj ind v]
  have "\<exists>N. ?t = t1\<lparr>nodes := N\<rparr>"
    by (rule Run_field [where P = "\<lambda>c. \<exists>p. c = CNode p" and get = nodes and
          upd = "\<lambda>N. nodes_update (\<lambda>_. N)"]) (auto simp: tgt)
  then obtain N where N: "?t = t1\<lparr>nodes := N\<rparr>" by blast
  have n: "N p = None \<longleftrightarrow> nodes t1 p = None" for p using R(3) [of "CNode p"] N
    by (cases "N p"; cases "nodes t1 p") simp_all
  have val: "N p = Some (rd ?t (CNode p))" if "nodes t1 p \<noteq> None" for p
    using n [of p] that N by (auto simp: rd.simps)
  have "N (Pos L i) = Some (job_value sha rd t1 (?f i))" if "i \<in> set ns" for i
    using val [of "Pos L i"] v that R(1) [OF that] by (simp add: tgt)
  moreover have "N p = created sha L (set ns) (nodes t) p" if "p \<notin> Pos L ` set ns" for p
  proof (cases "nodes t1 p")
    case None
    then show ?thesis using n [of p] by (simp add: t1_def)
  next
    case (Some h)
    have "rd ?t (CNode p) = rd t1 (CNode p)" using that by (intro R(2)) (auto simp: tgt)
    with val [of p] Some show ?thesis by (simp add: rd.simps t1_def)
  qed
  ultimately show ?thesis using N by (intro exI [of _ N]) (simp add: t1_def)
qed

lemma created_right:
  assumes "13 < L" and "\<forall>k \<in> I. k < 2 ^ 54" and "i \<in> I"
  shows "created sha L I N (Pos (L - 1) (2 * i + 1)) =
    Some (case N (Pos (L - 1) (2 * i + 1)) of None \<Rightarrow> NullNodeInHigherTree sha L | Some r \<Rightarrow> r)"
proof -
  have "Pos (L - 1) (2 * i + 1) \<noteq> Pos L k" if "k \<in> I" for k
  proof -
    have "2 * i + 1 < 2 ^ 56" "k < 2 ^ 56" using assms(2,3) that by force+
    then show ?thesis using assms(1) by auto
  qed
  then show ?thesis using assms(1,3) by (auto simp: created_def split: option.splits)
qed

lemma upper_job_value:
  assumes L: "13 \<le> L" and b: "\<forall>k \<in> I. k < 2 ^ 54" and i: "i \<in> I"
    and left: "upper_of t (L - 1) (2 * i) \<noteq> None"
  shows "job_value sha rd (t\<lparr>nodes := created sha L I (nodes t)\<rparr>) (upper_job sha L t i) =
    hash2 sha (word_of_nat (L - 1)) (the (upper_of t (L - 1) (2 * i)))
      (case rchild sha (upper_of t) L i of None \<Rightarrow> NullNodeInHigherTree sha L | Some r \<Rightarrow> r)"
proof (cases "L = 13")
  case True
  have "2 * i < 2 ^ 56" "2 * i + 1 < 2 ^ 56" using b i by force+
  with True show ?thesis by (simp add: job_value_def upper_job_def tree_job_def rd.simps rchild_def upper_of_def)
next
  case False
  then have L': "13 < L" using L by simp
  have bb: "2 * i < 2 ^ 56" "2 * i + 1 < 2 ^ 56" using b i by force+
  have g: "upper_of t (L - 1) (2 * i) = nodes t (Pos (L - 1) (2 * i))"
    "upper_of t (L - 1) (2 * i + 1) = nodes t (Pos (L - 1) (2 * i + 1))" using L' bb by (auto simp: upper_of_def)
  from left g obtain a where a: "nodes t (Pos (L - 1) (2 * i)) = Some a" by auto
  then have "created sha L I (nodes t) (Pos (L - 1) (2 * i)) = Some a" by (simp add: created_def)
  with created_right [OF L' b i, of sha "nodes t"] a g L' show ?thesis
    by (simp add: job_value_def upper_job_def tree_job_def rd.simps rchild_def)
qed

lemma upper_of_level:
  assumes L: "13 \<le> L" and I: "I = {i. dirty D L i}" and b: "\<forall>k \<in> I. k < 2 ^ 54"
    and left: "\<forall>i \<in> I. upper_of t (L - 1) (2 * i) \<noteq> None"
    and N1: "\<forall>i \<in> I. N (Pos L i) = Some (job_value sha rd (t\<lparr>nodes := created sha L I (nodes t)\<rparr>) (upper_job sha L t i))"
    and N2: "\<forall>p. p \<notin> Pos L ` I \<longrightarrow> N p = created sha L I (nodes t) p"
  shows "upper_of (t\<lparr>nodes := N\<rparr>) l i = level_step sha D L (upper_of t) l i"
proof -
  have dirty_b: "dirty D L k \<Longrightarrow> k < 2 ^ 54" for k using I b by auto
  show ?thesis
  proof (cases "i < 2 ^ 56")
    case False
    then have "\<not> dirty D L i" "\<not> dirty D L (i div 2)" using dirty_b [of i] dirty_b [of "i div 2"] by auto
    with False show ?thesis by (simp add: upper_of_def level_step_def)
  next
    case i: True
    have mem: "Pos l i \<in> Pos L ` I \<longleftrightarrow> l = L \<and> dirty D L i"
      using i dirty_b I by (force simp: image_iff)
    have memR: "Pos l i \<in> (\<lambda>k. Pos (L - 1) (2 * k + 1)) ` I \<longleftrightarrow> l = L - 1 \<and> odd i \<and> dirty D L (i div 2)"
    proof
      assume "Pos l i \<in> (\<lambda>k. Pos (L - 1) (2 * k + 1)) ` I"
      then obtain k where k: "k \<in> I" "Pos l i = Pos (L - 1) (2 * k + 1)" by blast
      then have "l = L - 1" "i = 2 * k + 1" using i b by (force simp: Pos_inject)+
      with k I show "l = L - 1 \<and> odd i \<and> dirty D L (i div 2)" by simp
    next
      assume "l = L - 1 \<and> odd i \<and> dirty D L (i div 2)"
      then show "Pos l i \<in> (\<lambda>k. Pos (L - 1) (2 * k + 1)) ` I"
        using I by (intro image_eqI [of _ _ "i div 2"]) auto
    qed
    show ?thesis
    proof (cases "l = 12")
      case True
      have "N (Pos 12 i) = nodes t (Pos 12 i)" using N2 mem True L created_12 [OF L b i] by auto
      then have "upper_of (t\<lparr>nodes := N\<rparr>) 12 i = upper_of t 12 i"
        using i getTwigRoot_nodes [of i N t] by (simp add: upper_of_def)
      with True level_step_12 [OF L] show ?thesis by simp
    next
      case False
      then have u: "upper_of (t\<lparr>nodes := N\<rparr>) l i = N (Pos l i)" "upper_of t l i = nodes t (Pos l i)"
        using i by (auto simp: upper_of_def)
      show ?thesis
      proof (cases "l = L \<and> dirty D L i")
        case True
        with N1 I upper_job_value [OF L b, of i t sha] left u show ?thesis by (simp add: level_step_def)
      next
        case nd: False
        then have "N (Pos l i) = created sha L I (nodes t) (Pos l i)" using N2 mem by blast
        moreover have "created sha L I (nodes t) (Pos l i) =
            (if L \<noteq> 13 \<and> l = L - 1 \<and> odd i \<and> dirty D L (i div 2) \<and> nodes t (Pos l i) = None
             then Some (NullNodeInHigherTree sha L) else nodes t (Pos l i))"
          unfolding created_def mem memR using nd by (cases "nodes t (Pos l i)") (simp_all only: option.distinct if_False if_True simp_thms)
        moreover have "L \<noteq> 13 \<and> l = L - 1 \<longleftrightarrow> 13 < L \<and> Suc l = L" using L by linarith
        ultimately show ?thesis unfolding level_step_def u using nd by (simp only: if_False conj_assoc [symmetric])
      qed
    qed
  qed
qed

text \<open>Every node is at a level of the upper tree, and 32 bytes long.\<close>

definition nodes_ok :: "Tree \<Rightarrow> bool" where
  "nodes_ok t \<longleftrightarrow> (\<forall>p h. nodes t p = Some h \<longrightarrow> 12 \<le> p div 2 ^ 56 \<and> length h = 32)"

lemma Pos_div: "n < 2 ^ 56 \<Longrightarrow> Pos l n div 2 ^ 56 = l"
  by (simp add: Pos_eq)

lemma length_NullNode: "hash32 sha \<Longrightarrow> length (NullNodeInHigherTree sha l) = 32"
  by (subst NullNodeInHigherTree.simps) simp

lemma created_nodes_ok:
  assumes "nodes_ok t" and sha: "hash32 sha" and L: "13 \<le> L" and b: "\<forall>k \<in> I. k < 2 ^ 54"
    and c: "created sha L I (nodes t) p = Some h"
  shows "12 \<le> p div 2 ^ 56 \<and> length h = 32"
proof (cases "nodes t p")
  case (Some h')
  with assms show ?thesis by (auto simp: nodes_ok_def created_def)
next
  case None
  with c consider k where "k \<in> I" "p = Pos L k" "h = zeroHash"
    | k where "L \<noteq> 13" "k \<in> I" "p = Pos (L - 1) (2 * k + 1)" "h = NullNodeInHigherTree sha L"
    by (auto simp: created_def split: if_splits)
  then show ?thesis
  proof cases
    case 1
    then have "k < 2 ^ 56" using b by force
    from Pos_div [OF this, of L] 1 L show ?thesis by simp
  next
    case 2
    then have "2 * k + 1 < 2 ^ 56" using b by force
    from Pos_div [OF this, of "L - 1"] 2 L show ?thesis by (simp add: length_NullNode [OF sha])
  qed
qed

lemma syncNodesByLevel_ok:
  assumes sha: "hash32 sha" and L: "13 \<le> L" "L \<le> M" and y: "y = youngestTwigID t" "y < 2 ^ 52"
    and up: "upper sha D E y M L (upper_of t)"
    and D: "\<forall>T \<in> D. T \<le> y \<and> E \<le> T \<and> E \<le> 2 * (T div 2)"
    and ns: "set ns = {i. dirty D L i}" and nok: "nodes_ok t"
  shows "\<exists>N. syncNodesByLevel sha L (ns, t) = Inr (halve ns, t\<lparr>nodes := N\<rparr>) \<and>
    upper_of (t\<lparr>nodes := N\<rparr>) = level_step sha D L (upper_of t) \<and> nodes_ok (t\<lparr>nodes := N\<rparr>)"
proof -
  note left = upper_left [OF up L D]
  have b: "\<forall>i \<in> set ns. i < 2 ^ 54"
  proof
    fix i assume "i \<in> set ns"
    then have "i \<le> y div 2 ^ (L - 12)" using left(4) ns by blast
    also have "\<dots> \<le> y" by (rule div_le_dividend)
    finally show "i < 2 ^ 54" using y(2) by simp
  qed
  have l: "\<forall>i \<in> set ns. upper_of t (L - 1) (2 * i) \<noteq> None" using left(1) ns by blast
  have r: "\<forall>i \<in> set ns. 13 < L \<longrightarrow> nodes t (Pos (L - 1) (2 * i + 1)) = None \<longrightarrow> 2 * i = y div 2 ^ (L - 13)"
  proof (intro ballI impI)
    fix i assume i: "i \<in> set ns" and L': "13 < L" and n: "nodes t (Pos (L - 1) (2 * i + 1)) = None"
    then have "upper_of t (L - 1) (2 * i + 1) = None" by (auto simp: upper_of_def)
    with left(3) [of i] i ns L' show "2 * i = y div 2 ^ (L - 13)" by (auto simp: numeral_eq_Suc)
  qed
  let ?t1 = "t\<lparr>nodes := created sha L (set ns) (nodes t)\<rparr>" and ?js = "map (upper_job sha L t) ns"
  have f: "foldE (syncNode sha L (y div 2 ^ (L - 13))) ns (t, []) = Inr (?t1, ?js)"
    using foldE_syncNode [OF L(1) b l r, of "{}" ns sha "[]"] by (simp add: created_none)
  from upper_batch [OF sha L(1) b, of t] obtain N where N: "Run sha rd wr ?js ?t1 = t\<lparr>nodes := N\<rparr>"
    "\<forall>i \<in> set ns. N (Pos L i) = Some (job_value sha rd ?t1 (upper_job sha L t i))"
    "\<forall>p. p \<notin> Pos L ` set ns \<longrightarrow> N p = created sha L (set ns) (nodes t) p" by blast
  have "syncNodesByLevel sha L (ns, t) = Inr (halve ns, t\<lparr>nodes := N\<rparr>)"
    using f N(1) L y(1) by (simp add: syncNodesByLevel_def maxNAtLevel_def)
  moreover have "upper_of (t\<lparr>nodes := N\<rparr>) = level_step sha D L (upper_of t)"
    by (intro ext) (rule upper_of_level [OF L(1) ns b l N(2,3)])
  moreover have "12 \<le> p div 2 ^ 56 \<and> length h = 32" if h: "N p = Some h" for p h
  proof (cases "p \<in> Pos L ` set ns")
    case True
    then obtain i where i: "i \<in> set ns" "p = Pos L i" by blast
    then have "i < 2 ^ 56" using b by force
    from Pos_div [OF this, of L] i h N(2) L sha show ?thesis by auto
  next
    case False
    with N(3) h created_nodes_ok [OF nok sha L(1) b] show ?thesis by auto
  qed
  ultimately show ?thesis by (intro exI [of _ N]) (auto simp: nodes_ok_def)
qed

lemma dirty_set: "{i. dirty D L i} = (\<lambda>T. T div 2 ^ (L - 12)) ` D"
  by (auto simp: dirty_def)

lemma dirty_halve:
  assumes "13 \<le> L" and "set ns = {i. dirty D L i}"
  shows "(\<lambda>i. i div 2) ` set ns = {i. dirty D (Suc L) i}"
proof -
  have "x div 2 ^ (Suc L - 12) = x div 2 ^ (L - 12) div 2" for x :: nat
    using div_pow_pred [of "Suc L" x] assms(1) by simp
  then show ?thesis unfolding assms(2) dirty_set by (simp add: image_image)
qed

lemma syncLevels_ok:
  assumes sha: "hash32 sha" and y: "y < 2 ^ 52" and D: "\<forall>T \<in> D. T \<le> y \<and> E \<le> T \<and> E \<le> 2 * (T div 2)"
  shows "y = youngestTwigID t \<Longrightarrow> 13 \<le> L \<Longrightarrow> L \<le> Suc M \<Longrightarrow> upper sha D E y M L (upper_of t) \<Longrightarrow>
    sorted ns \<Longrightarrow> set ns = {i. dirty D L i} \<Longrightarrow> nodes_ok t \<Longrightarrow>
    \<exists>ns' N. foldE (syncNodesByLevel sha) [L ..< Suc M] (ns, t) = Inr (ns', t\<lparr>nodes := N\<rparr>) \<and>
      upper sha D E y M (Suc M) (upper_of (t\<lparr>nodes := N\<rparr>)) \<and> nodes_ok (t\<lparr>nodes := N\<rparr>) \<and>
      upper_of (t\<lparr>nodes := N\<rparr>) 12 = upper_of t 12"
proof (induction "Suc M - L" arbitrary: L ns t)
  case 0
  then have "L = Suc M" by simp
  with 0 show ?case by (auto intro!: exI [of _ "nodes t"])
next
  case (Suc k)
  then have L: "13 \<le> L" "L \<le> M" by auto
  note hyp = Suc.prems
  from syncNodesByLevel_ok [OF sha L hyp(1) y hyp(4) D hyp(6,7)] obtain N where
    N: "syncNodesByLevel sha L (ns, t) = Inr (halve ns, t\<lparr>nodes := N\<rparr>)"
      "upper_of (t\<lparr>nodes := N\<rparr>) = level_step sha D L (upper_of t)" "nodes_ok (t\<lparr>nodes := N\<rparr>)" by blast
  have up: "upper sha D E y M (Suc L) (upper_of (t\<lparr>nodes := N\<rparr>))"
    unfolding N(2) by (rule upper_level_step [OF hyp(4) L D])
  have set: "set (halve ns) = {i. dirty D (Suc L) i}"
    using halve_sorted(3) [OF hyp(5)] dirty_halve [OF L(1) hyp(6)] by simp
  have k: "k = Suc M - Suc L" using Suc.hyps(2) by simp
  have "[L ..< Suc M] = L # [Suc L ..< Suc M]" using L by (intro upt_conv_Cons) simp
  with Suc.hyps(1) [OF k, of "t\<lparr>nodes := N\<rparr>" "halve ns"] hyp(1) L up halve_sorted(1) [OF hyp(5)] set N
    level_step_12 [OF L(1), of sha D "upper_of t"]
  show ?case by auto
qed

end
