(* ===== verification/TreeInv.thy ===== *)
theory TreeInv
  imports TreeUpper
begin

text \<open>
  The invariant of the data tree during a block, that every operation of a block keeps it, and that the
  end of a block makes the tree pass the consistency check of check.go.
\<close>

section \<open>The invariant\<close>

text \<open>The twigs to synchronise: the touched ones, and twig 0 until the tree has a second twig.\<close>

definition touchedTwigs :: "Tree \<Rightarrow> nat set" where
  "touchedTwigs t = (\<lambda>i. i div 4) ` touchedPosOf512b t"

definition pendingTwigs :: "Tree \<Rightarrow> nat set" where
  "pendingTwigs t = touchedTwigs t \<union> (if youngestTwigID t = 0 then {0} else {})"

definition youngest_ok :: "Tree \<Rightarrow> bool" where
  "youngest_ok t \<longleftrightarrow> (\<exists>tw. activeTwigs t (youngestTwigID t) = Some tw \<and>
     (mtree4YTChangeStart t = -1 \<longrightarrow> leftRoot tw = mtree4YoungestTwig t ! 1)) \<and>
     (mtree4YTChangeStart t \<noteq> -1 \<longrightarrow> youngestTwigID t \<in> touchedTwigs t)"

definition active_ok :: "nat \<Rightarrow> Tree \<Rightarrow> bool" where
  "active_ok E t \<longleftrightarrow> (\<forall>T. activeTwigs t T \<noteq> None \<longrightarrow> T \<le> youngestTwigID t \<and> E \<le> T \<and> E \<le> 2 * (T div 2)) \<and>
     finite (touchedPosOf512b t) \<and> (\<forall>T \<in> touchedTwigs t. activeTwigs t T \<noteq> None) \<and>
     distinct (twigsToBeDeleted t) \<and>
     (\<forall>T \<in> set (twigsToBeDeleted t). activeTwigs t T \<noteq> None \<and> T \<noteq> youngestTwigID t)"

text \<open>
  The hash part of the invariant, for a tree whose twigs below \<open>E\<close> are pruned.
\<close>

definition hash_inv :: "(bytes \<Rightarrow> bytes) \<Rightarrow> nat \<Rightarrow> Tree \<Rightarrow> bool" where
  "hash_inv sha E t \<longleftrightarrow> youngestTwigID t < 2 ^ 52 \<and> sizes_ok t \<and> nodes_ok t \<and> youngest_ok t \<and> active_ok E t \<and>
     mt_pending sha t \<and> bits_pending sha t \<and>
     upper sha (pendingTwigs t) E (youngestTwigID t) (calcMaxLevel (youngestTwigID t)) 13 (upper_of t)"

text \<open>
  The files and the next serial number \<open>n\<close>: the twig file holds the finished twigs, and the last new
  leaf is the last entry.
\<close>

definition files_inv :: "nat \<Rightarrow> Tree \<Rightarrow> bool" where
  "files_inv n t \<longleftrightarrow> hp_inv (entryFile t) \<and> Size (entryFile t) mod 8 = 0 \<and> hp_inv (twigMtFile t) \<and>
     32 \<le> bufferSize (twigMtFile t) \<and> Size (twigMtFile t) = youngestTwigID t * TwigMtSize \<and>
     youngestTwigID t = n div 2048 \<and>
     (mtree4YTChangeStart t \<noteq> -1 \<longrightarrow> mtree4YTChangeEnd t + 1 = int (n mod 2048)) \<and>
     (0 < n mod 2048 \<longrightarrow> (\<exists>tw. activeTwigs t (youngestTwigID t) = Some tw \<and> 0 \<le> FirstEntryPos tw))"

definition tree_inv :: "(bytes \<Rightarrow> bytes) \<Rightarrow> nat \<Rightarrow> nat \<Rightarrow> Tree \<Rightarrow> bool" where
  "tree_inv sha E n t \<longleftrightarrow> hash_inv sha E t \<and> files_inv n t"

text \<open>The position of the first entry of a twig lies in the entry file.\<close>

definition pos_ok :: "Tree \<Rightarrow> bool" where
  "pos_ok t \<longleftrightarrow> (\<forall>T tw. activeTwigs t T = Some tw \<longrightarrow> -1 \<le> FirstEntryPos tw \<and> FirstEntryPos tw \<le> int (Size (entryFile t)))"

lemma pos_ok_mono:
  assumes "pos_ok t" and "Size (entryFile t) \<le> Size (entryFile t')"
    and "\<And>T tw'. activeTwigs t' T = Some tw' \<Longrightarrow> (\<exists>tw T. activeTwigs t T = Some tw \<and> FirstEntryPos tw' = FirstEntryPos tw) \<or>
      FirstEntryPos tw' = -1 \<or> FirstEntryPos tw' = int (Size (entryFile t))"
  shows "pos_ok t'"
  unfolding pos_ok_def
proof (intro allI impI)
  fix T tw' assume "activeTwigs t' T = Some tw'"
  from assms(3) [OF this] assms(1,2) show "-1 \<le> FirstEntryPos tw' \<and> FirstEntryPos tw' \<le> int (Size (entryFile t'))"
    unfolding pos_ok_def by force
qed

section \<open>Synchronising at the end of a block\<close>

lemma upper_twigs_changed:
  assumes up: "upper sha D E y M 13 g" and hi: "\<And>l. l \<noteq> 12 \<Longrightarrow> g' l = g l"
    and none: "\<And>T. g' 12 T = None \<longleftrightarrow> g 12 T = None" and same: "\<And>T. T \<notin> D \<Longrightarrow> g' 12 T = g 12 T"
  shows "upper sha D E y M 13 g'"
proof -
  have "h = hash2 sha (word_of_nat (l - 1)) a b" if h: "13 \<le> l" "g' l i = Some h" "l < 13 \<or> \<not> dirty D l i"
    "g' (l - 1) (2 * i) = Some a" "rchild sha g' l i = Some b" for l i h a b
  proof (rule upperD(5) [OF up h(1) _ h(3)])
    show "g l i = Some h" using h(1,2) hi [of l] by simp
    have l13: "l = 13 \<Longrightarrow> 2 * i \<notin> D \<and> 2 * i + 1 \<notin> D" using h(3) by (force simp: dirty_def)
    show "g (l - 1) (2 * i) = Some a"
      using h(1,4) l13 same [of "2 * i"] hi [of "l - 1"] by (cases "l = 13") auto
    show "rchild sha g l i = Some b"
      using h(1,5) l13 same [of "2 * i + 1"] hi [of "l - 1"] by (cases "l = 13") (auto simp: rchild_def)
  qed
  moreover have eq: "g' l i = None \<longleftrightarrow> g l i = None" for l i using none hi by (cases "l = 12") auto
  ultimately show ?thesis unfolding upper_def eq using upperD(1-4,6) [OF up] by blast
qed

text \<open>A tree that differs in the left root of the youngest twig, its Merkle tree and its leaves.\<close>

definition with_mt :: "Tree \<Rightarrow> Twig \<Rightarrow> bytes list \<Rightarrow> (bytes option \<times> bytes) list \<Rightarrow> int \<Rightarrow> Tree" where
  "with_mt t tw m ls e = t\<lparr>mtree4YoungestTwig := m, leave4YoungestTwig := ls, mtree4YTChangeStart := -1,
     mtree4YTChangeEnd := e, activeTwigs := (activeTwigs t)(youngestTwigID t \<mapsto> tw\<lparr>leftRoot := m ! 1\<rparr>)\<rparr>"

lemma with_mt_fields [simp]:
  "touchedPosOf512b (with_mt t tw m ls e) = touchedPosOf512b t" "nodes (with_mt t tw m ls e) = nodes t"
  "youngestTwigID (with_mt t tw m ls e) = youngestTwigID t" "twigsToBeDeleted (with_mt t tw m ls e) = twigsToBeDeleted t"
  "mtree4YoungestTwig (with_mt t tw m ls e) = m" "entryFile (with_mt t tw m ls e) = entryFile t"
  "twigMtFile (with_mt t tw m ls e) = twigMtFile t" "mtree4YTChangeStart (with_mt t tw m ls e) = -1"
  "leave4YoungestTwig (with_mt t tw m ls e) = ls" "deactivedSNList (with_mt t tw m ls e) = deactivedSNList t"
  by (simp_all add: with_mt_def)

lemma with_mt_none:
  "activeTwigs t (youngestTwigID t) = Some tw \<Longrightarrow> activeTwigs (with_mt t tw m ls e) T = None \<longleftrightarrow> activeTwigs t T = None"
  by (simp add: with_mt_def)

lemma with_mt_rd:
  assumes "activeTwigs t (youngestTwigID t) = Some tw"
  shows "rd (with_mt t tw m ls e) (CBits T k) = rd t (CBits T k)" "rd (with_mt t tw m ls e) (CL1 T p) = rd t (CL1 T p)"
    "rd (with_mt t tw m ls e) (CL2 T p) = rd t (CL2 T p)" "rd (with_mt t tw m ls e) (CL3 T) = rd t (CL3 T)"
    "rd (with_mt t tw m ls e) (CTop T) = rd t (CTop T)"
    "T \<noteq> youngestTwigID t \<Longrightarrow> rd (with_mt t tw m ls e) (CLeft T) = rd t (CLeft T)"
    "rd (with_mt t tw m ls e) (CLeft (youngestTwigID t)) = m ! 1"
  using assms by (simp_all add: with_mt_def rd.simps twig_field_def)

lemma with_mt_upper:
  "activeTwigs t (youngestTwigID t) = Some tw \<Longrightarrow> upper_of (with_mt t tw m ls e) = upper_of t"
  by (auto simp: fun_eq_iff upper_of_def getTwigRoot_def with_mt_def split: option.splits)

lemma with_mt_bits:
  assumes "bits_pending sha t" and "activeTwigs t (youngestTwigID t) = Some tw"
    and "youngestTwigID t \<in> touchedTwigs t \<or> leftRoot tw = m ! 1"
  shows "bits_pending sha (with_mt t tw m ls e)"
proof -
  have left: "rd t (CLeft (youngestTwigID t)) = leftRoot tw" using assms(2) by (simp add: rd.simps twig_field_def)
  have "twig_pending sha (touchedPosOf512b t) (with_mt t tw m ls e) T" if "activeTwigs t T \<noteq> None" for T
  proof -
    have p: "twig_pending sha (touchedPosOf512b t) t T" using assms(1) that by (simp add: bits_pending_def)
    have "ok3 sha (with_mt t tw m ls e) T" if "T \<notin> touchedTwigs t"
      using p that assms(3) left with_mt_rd [OF assms(2)]
      by (cases "T = youngestTwigID t") (auto simp: twig_pending_def ok3_def touchedTwigs_def)
    with p show ?thesis
      by (simp add: twig_pending_def ok1_def ok2_def touchedTwigs_def with_mt_rd [OF assms(2)])
  qed
  with with_mt_none [OF assms(2)] show ?thesis by (simp add: bits_pending_def)
qed

lemma with_mt_sizes:
  assumes "sizes_ok t" and "activeTwigs t (youngestTwigID t) = Some tw" and "length m = 4096" and "\<forall>x \<in> set m. length x = 32"
  shows "sizes_ok (with_mt t tw m ls e)"
proof -
  have "length (m ! 1) = 32" using assms(3,4) by simp
  with assms show ?thesis by (auto simp: sizes_ok_def with_mt_def wf_twig_upd)
qed

text \<open>The first phase, in these terms.\<close>

lemma sync_youngest:
  assumes sha: "hash32 sha" and inv: "hash_inv sha E t"
  shows "\<exists>tw m ls e. syncMT4YoungestTwig sha t = Inr (with_mt t tw m ls e) \<and>
    activeTwigs t (youngestTwigID t) = Some tw \<and> length m = 4096 \<and> (\<forall>x \<in> set m. length x = 32) \<and>
    mt_upto sha 0 0 11 (with_mt t tw m ls e) \<and> length ls = 2048 \<and> (\<forall>i < 2048. fst (ls ! i) = None) \<and>
    (youngestTwigID t \<in> touchedTwigs t \<or> leftRoot tw = m ! 1) \<and>
    (\<forall>i < 2048. m ! (2048 + i) = leaf_hash sha t i)"
proof -
  have sz: "sizes_ok t" and pend: "mt_pending sha t" and yk: "youngest_ok t"
    using inv by (auto simp: hash_inv_def)
  from yk obtain tw where tw: "activeTwigs t (youngestTwigID t) = Some tw"
    "mtree4YTChangeStart t = -1 \<longrightarrow> leftRoot tw = mtree4YoungestTwig t ! 1" by (auto simp: youngest_ok_def)
  from syncMT4YoungestTwig_ok [OF sha sz pend tw] obtain m ls e where m:
    "syncMT4YoungestTwig sha t = Inr (with_mt t tw m ls e)" "length m = 4096" "\<forall>x \<in> set m. length x = 32"
    "mt_upto sha 0 0 11 (t\<lparr>mtree4YoungestTwig := m\<rparr>)" "length ls = 2048" "\<forall>i < 2048. fst (ls ! i) = None"
    "\<forall>i < 2048. m ! (2048 + i) = leaf_hash sha t i" unfolding with_mt_def by blast
  have "mt_upto sha 0 0 11 (with_mt t tw m ls e)"
    using m(4) mt_upto_cong [of "with_mt t tw m ls e" "t\<lparr>mtree4YoungestTwig := m\<rparr>"] by simp
  moreover have "youngestTwigID t \<in> touchedTwigs t \<or> leftRoot tw = m ! 1"
  proof (cases "mtree4YTChangeStart t = -1")
    case True
    then have "syncMT4YoungestTwig sha t = Inr t" by (simp add: syncMT4YoungestTwig_def)
    with m(1) have "with_mt t tw m ls e = t" by simp
    then have "activeTwigs (with_mt t tw m ls e) (youngestTwigID t) = activeTwigs t (youngestTwigID t)" by simp
    then have "tw\<lparr>leftRoot := m ! 1\<rparr> = tw" using tw(1) by (simp add: with_mt_def)
    then have "leftRoot (tw\<lparr>leftRoot := m ! 1\<rparr>) = leftRoot tw" by simp
    then show ?thesis by simp
  next
    case False
    with yk show ?thesis by (auto simp: youngest_ok_def)
  qed
  ultimately show ?thesis using m tw(1) by blast
qed

text \<open>What the synchronisation keeps.\<close>

definition sync_keeps :: "Tree \<Rightarrow> Tree \<Rightarrow> bool" where
  "sync_keeps t t' \<longleftrightarrow> entryFile t' = entryFile t \<and> twigMtFile t' = twigMtFile t \<and>
     youngestTwigID t' = youngestTwigID t \<and> twigsToBeDeleted t' = twigsToBeDeleted t \<and>
     deactivedSNList t' = deactivedSNList t \<and>
     (\<forall>T. map_option (\<lambda>tw. (activeBits tw, FirstEntryPos tw)) (activeTwigs t' T) =
       map_option (\<lambda>tw. (activeBits tw, FirstEntryPos tw)) (activeTwigs t T)) \<and>
     (\<forall>T. T \<noteq> youngestTwigID t \<longrightarrow> map_option leftRoot (activeTwigs t' T) = map_option leftRoot (activeTwigs t T))"

lemma sync_keeps_none:
  assumes "sync_keeps t t'"
  shows "activeTwigs t' T = None \<longleftrightarrow> activeTwigs t T = None"
proof -
  have "map_option (\<lambda>tw. (activeBits tw, FirstEntryPos tw)) (activeTwigs t' T) =
      map_option (\<lambda>tw. (activeBits tw, FirstEntryPos tw)) (activeTwigs t T)" using assms by (simp add: sync_keeps_def)
  then show ?thesis by (cases "activeTwigs t' T"; cases "activeTwigs t T") simp_all
qed

text \<open>A synchronised tree: nothing is pending.\<close>

definition synced :: "(bytes \<Rightarrow> bytes) \<Rightarrow> nat \<Rightarrow> Tree \<Rightarrow> bool" where
  "synced sha E t \<longleftrightarrow> hash_inv sha E t \<and> touchedPosOf512b t = {} \<and> mtree4YTChangeStart t = -1 \<and> 0 < youngestTwigID t"

lemma upper_all:
  assumes "upper sha D E y M (Suc M) g" and "13 \<le> M"
  shows "upper sha {} E y M 13 g"
proof -
  have M: "l \<le> max M 13 \<Longrightarrow> l < Suc M" for l using assms(2) by simp
  have "h = hash2 sha (word_of_nat (l - 1)) a b" if h: "13 \<le> l" "g l i = Some h"
    "g (l - 1) (2 * i) = Some a" "rchild sha g l i = Some b" for l i h a b
    using upperD(4) [OF assms(1) h(1), of i] h M by (intro upperD(5) [OF assms(1) h(1,2) _ h(3,4)]) auto
  moreover have "g l i \<noteq> None" if "13 \<le> l" "l \<le> M" "kept E l \<le> i" "i \<le> y div 2 ^ (l - 12)" for l i
    using that by (intro upperD(3) [OF assms(1)]) auto
  moreover have "g (l - 1) (2 * i + 1) \<noteq> None" if l: "13 < l" "g l i \<noteq> None" "i \<le> y div 2 ^ (l - 12)" for l i
    using upperD(4) [OF assms(1) _ l(2)] l M by (intro upperD(6) [OF assms(1)]) auto
  ultimately show ?thesis unfolding upper_def using upperD(1,2,4) [OF assms(1)] by blast
qed

lemma checkTwigs_pending:
  assumes "sizes_ok t" and "\<forall>T tw. activeTwigs t T = Some tw \<longrightarrow> checkTwig sha tw"
  shows "bits_pending sha t"
  unfolding bits_pending_def
proof (intro allI impI)
  fix T assume "activeTwigs t T \<noteq> None"
  then obtain tw where tw: "activeTwigs t T = Some tw" by blast
  with assms checkTwig_iff [OF tw, of sha] show "twig_pending sha (touchedPosOf512b t) t T"
    by (auto simp: sizes_ok_def twig_pending_def)
qed

lemma upper_of_twigs:
  assumes "frame (t\<lparr>activeTwigs := A\<rparr>) = frame t"
    and "\<forall>T. T \<notin> D \<longrightarrow> rd (t\<lparr>activeTwigs := A\<rparr>) (CTop T) = rd t (CTop T)"
    and "upper sha D E y M 13 (upper_of t)"
  shows "upper sha D E y M 13 (upper_of (t\<lparr>activeTwigs := A\<rparr>))"
proof (rule upper_twigs_changed [OF assms(3)])
  have n: "A T = None \<longleftrightarrow> activeTwigs t T = None" for T using frame_active(2) [OF assms(1), of T] by simp
  show "upper_of (t\<lparr>activeTwigs := A\<rparr>) l = upper_of t l" if "l \<noteq> 12" for l
    using that by (auto simp: upper_of_def)
  show "upper_of (t\<lparr>activeTwigs := A\<rparr>) 12 T = None \<longleftrightarrow> upper_of t 12 T = None" for T
    using n [of T] by (cases "A T"; cases "activeTwigs t T") (auto simp: upper_of_def getTwigRoot_def)
  show "upper_of (t\<lparr>activeTwigs := A\<rparr>) 12 T = upper_of t 12 T" if "T \<notin> D" for T
    using assms(2) n [of T] that
    by (cases "A T"; cases "activeTwigs t T") (auto simp: upper_of_def getTwigRoot_def rd.simps twig_field_def)
qed

lemma sync_rest:
  assumes sha: "hash32 sha" and sz: "sizes_ok t" and nok: "nodes_ok t" and bp: "bits_pending sha t"
    and act: "active_ok E t" and y: "0 < youngestTwigID t" "youngestTwigID t < 2 ^ 52" "activeTwigs t (youngestTwigID t) \<noteq> None"
    and up: "upper sha (touchedTwigs t) E (youngestTwigID t) (calcMaxLevel (youngestTwigID t)) 13 (upper_of t)"
  shows "\<exists>ns A N. syncMT4ActiveBits sha t = Inr (ns, t\<lparr>activeTwigs := A\<rparr>) \<and>
    syncUpperNodes sha ns (t\<lparr>activeTwigs := A\<rparr>) = Inr (t\<lparr>activeTwigs := A, nodes := N\<rparr>) \<and>
    frame (t\<lparr>activeTwigs := A\<rparr>) = frame t \<and> (\<forall>T tw. A T = Some tw \<longrightarrow> checkTwig sha tw) \<and>
    (\<forall>T. rd (t\<lparr>activeTwigs := A\<rparr>) (CLeft T) = rd t (CLeft T)) \<and>
    sizes_ok (t\<lparr>activeTwigs := A, nodes := N\<rparr>) \<and> nodes_ok (t\<lparr>activeTwigs := A, nodes := N\<rparr>) \<and>
    upper sha {} E (youngestTwigID t) (calcMaxLevel (youngestTwigID t)) 13 (upper_of (t\<lparr>activeTwigs := A, nodes := N\<rparr>)) \<and>
    N (Pos (calcMaxLevel (youngestTwigID t)) 0) \<noteq> None"
proof -
  let ?y = "youngestTwigID t" let ?M = "calcMaxLevel ?y"
  have fin: "finite (touchedPosOf512b t)" and tact: "\<forall>i \<in> touchedPosOf512b t. activeTwigs t (i div 4) \<noteq> None"
    and D: "\<forall>T \<in> touchedTwigs t. T \<le> ?y \<and> E \<le> T \<and> E \<le> 2 * (T div 2)" and E: "E \<le> ?y"
    using act y(3) by (auto simp: active_ok_def touchedTwigs_def)
  have M: "13 \<le> ?M" using y by (intro calcMaxLevel_ge) auto
  from syncMT4ActiveBits_ok [OF sha sz bp fin tact] obtain ns A where A:
    "syncMT4ActiveBits sha t = Inr (ns, t\<lparr>activeTwigs := A\<rparr>)" "sorted ns"
    "set ns = (\<lambda>T. T div 2) ` touchedTwigs t" "sizes_ok (t\<lparr>activeTwigs := A\<rparr>)" "frame (t\<lparr>activeTwigs := A\<rparr>) = frame t"
    "\<forall>T tw. A T = Some tw \<longrightarrow> checkTwig sha tw" "\<forall>T. rd (t\<lparr>activeTwigs := A\<rparr>) (CLeft T) = rd t (CLeft T)"
    "\<forall>T. T \<notin> touchedTwigs t \<longrightarrow> rd (t\<lparr>activeTwigs := A\<rparr>) (CTop T) = rd t (CTop T)"
    unfolding touchedTwigs_def by blast
  let ?t = "t\<lparr>activeTwigs := A\<rparr>"
  have ns: "set ns = {i. dirty (touchedTwigs t) 13 i}" using A(3) by (simp add: dirty_set)
  have "nodes_ok ?t" using nok by (simp add: nodes_ok_def)
  with syncLevels_ok [OF sha y(2) D, of ?t 13 ?M ns] upper_of_twigs [OF A(5,8) up] A(2) ns M obtain ns' N where
    N: "foldE (syncNodesByLevel sha) [13 ..< Suc ?M] (ns, ?t) = Inr (ns', ?t\<lparr>nodes := N\<rparr>)"
      "upper sha (touchedTwigs t) E ?y ?M (Suc ?M) (upper_of (?t\<lparr>nodes := N\<rparr>))" "nodes_ok (?t\<lparr>nodes := N\<rparr>)" by auto
  have up': "upper sha {} E ?y ?M 13 (upper_of (?t\<lparr>nodes := N\<rparr>))" by (rule upper_all [OF N(2) M])
  have s: "syncUpperNodes sha ns ?t = Inr (?t\<lparr>nodes := N\<rparr>)"
    using N(1) by (simp add: syncUpperNodes_def)
  have "E div 2 ^ (?M - 12) \<le> ?y div 2 ^ (?M - 12)" using E by (rule div_le_mono)
  then have "kept E ?M \<le> 0" using calcMaxLevel_top [of ?y] y kept_le [of E ?M] by simp
  with upperD(3) [OF N(2) M, of 0] have "upper_of (?t\<lparr>nodes := N\<rparr>) ?M 0 \<noteq> None" by simp
  then have root: "N (Pos ?M 0) \<noteq> None" using M by (simp add: upper_of_def)
  have "sizes_ok (?t\<lparr>nodes := N\<rparr>)" using A(4) N(3) by (simp add: sizes_ok_def nodes_ok_def)
  with A s root up' N(3) show ?thesis by (intro exI [of _ ns] exI [of _ A] exI [of _ N]) simp
qed

lemma syncMT_ok:
  assumes sha: "hash32 sha" and inv: "hash_inv sha E t" and y: "0 < youngestTwigID t"
  shows "\<exists>root t'. syncMT sha t = Inr (root, t') \<and> synced sha E t' \<and> sync_keeps t t' \<and>
    nodes t' (Pos (calcMaxLevel (youngestTwigID t)) 0) = Some root \<and>
    (\<forall>i < 2048. mtree4YoungestTwig t' ! (2048 + i) = leaf_hash sha t i)"
proof -
  let ?y = "youngestTwigID t" let ?M = "calcMaxLevel ?y"
  from sync_youngest [OF sha inv] obtain tw m ls e where m:
    "syncMT4YoungestTwig sha t = Inr (with_mt t tw m ls e)" "activeTwigs t ?y = Some tw" "length m = 4096"
    "\<forall>x \<in> set m. length x = 32" "mt_upto sha 0 0 11 (with_mt t tw m ls e)" "length ls = 2048"
    "\<forall>i < 2048. fst (ls ! i) = None" "?y \<in> touchedTwigs t \<or> leftRoot tw = m ! 1"
    "\<forall>i < 2048. m ! (2048 + i) = leaf_hash sha t i" by blast
  let ?t1 = "with_mt t tw m ls e"
  have inv': "sizes_ok t" "nodes_ok t" "bits_pending sha t" "active_ok E t" "?y < 2 ^ 52"
    "upper sha (touchedTwigs t) E ?y ?M 13 (upper_of t)"
    using inv y by (auto simp: hash_inv_def pendingTwigs_def)
  have tt: "touchedTwigs ?t1 = touchedTwigs t" by (simp add: touchedTwigs_def)
  have act: "active_ok E ?t1"
    using inv'(4) with_mt_none [OF m(2)] by (simp add: active_ok_def tt)
  have "nodes_ok ?t1" using inv'(2) by (simp add: nodes_ok_def)
  moreover have "upper sha (touchedTwigs ?t1) E (youngestTwigID ?t1) (calcMaxLevel (youngestTwigID ?t1)) 13 (upper_of ?t1)"
    using inv'(6) by (simp add: tt with_mt_upper [OF m(2)])
  ultimately obtain ns A N where R: "syncMT4ActiveBits sha ?t1 = Inr (ns, ?t1\<lparr>activeTwigs := A\<rparr>)"
    "syncUpperNodes sha ns (?t1\<lparr>activeTwigs := A\<rparr>) = Inr (?t1\<lparr>activeTwigs := A, nodes := N\<rparr>)"
    "frame (?t1\<lparr>activeTwigs := A\<rparr>) = frame ?t1" "\<forall>T tw. A T = Some tw \<longrightarrow> checkTwig sha tw"
    "\<forall>T. rd (?t1\<lparr>activeTwigs := A\<rparr>) (CLeft T) = rd ?t1 (CLeft T)"
    "sizes_ok (?t1\<lparr>activeTwigs := A, nodes := N\<rparr>)" "nodes_ok (?t1\<lparr>activeTwigs := A, nodes := N\<rparr>)"
    "upper sha {} E ?y ?M 13 (upper_of (?t1\<lparr>activeTwigs := A, nodes := N\<rparr>))" "N (Pos ?M 0) \<noteq> None"
    using sync_rest [OF sha with_mt_sizes [OF inv'(1) m(2-4)] _ with_mt_bits [OF inv'(3) m(2,8)] act] y inv'(5)
      with_mt_none [OF m(2), of m ls e ?y] m(2) by auto
  from R(9) obtain root where root: "N (Pos ?M 0) = Some root" by blast
  define t' where "t' = ?t1\<lparr>activeTwigs := A, nodes := N, touchedPosOf512b := {}\<rparr>"
  have f: "youngestTwigID t' = ?y" "mtree4YoungestTwig t' = m" "leave4YoungestTwig t' = ls" "activeTwigs t' = A"
    "nodes t' = N" "touchedPosOf512b t' = {}" "mtree4YTChangeStart t' = -1" "twigsToBeDeleted t' = twigsToBeDeleted t"
    by (simp_all add: t'_def)
  have none: "A T = None \<longleftrightarrow> activeTwigs t T = None" for T
    using frame_active(2) [OF R(3), of T] with_mt_none [OF m(2)] by simp
  have left: "map_option leftRoot (A T) = map_option leftRoot (activeTwigs t T)" if "T \<noteq> ?y" for T
    using R(5) [rule_format, of T] with_mt_rd(6) [OF m(2) that, of m ls e] none [of T]
    by (cases "A T"; cases "activeTwigs t T") (auto simp: rd.simps twig_field_def)
  then have keeps: "sync_keeps t t'"
    using frame_active(1) [OF R(3)] m(2) by (auto simp: sync_keeps_def t'_def with_mt_def)
  have sz: "sizes_ok t'" and nok: "nodes_ok t'" and up: "upper_of t' = upper_of (?t1\<lparr>activeTwigs := A, nodes := N\<rparr>)"
    using R(6,7) by (simp_all add: t'_def sizes_ok_def nodes_ok_def upper_of_def getTwigRoot_def fun_eq_iff split: option.split)
  have "A ?y \<noteq> None" using none m(2) by simp
  then obtain tw' where tw': "A ?y = Some tw'" by blast
  have "leftRoot tw' = m ! 1"
    using R(5) [rule_format, of ?y] tw' with_mt_rd(7) [OF m(2), of m ls e] by (simp add: rd.simps twig_field_def)
  then have "youngest_ok t'" using tw' f by (simp add: youngest_ok_def)
  moreover have "active_ok E t'" using inv'(4) none f by (simp add: active_ok_def touchedTwigs_def)
  moreover have "mt_pending sha t'"
    using m(5-7) f mt_upto_cong [of t' ?t1 sha 0 0 11] by (simp add: mt_pending_def)
  moreover have "bits_pending sha t'" using R(4) f by (intro checkTwigs_pending [OF sz]) simp
  moreover have "pendingTwigs t' = {}" using y f by (simp add: pendingTwigs_def touchedTwigs_def)
  ultimately have "synced sha E t'"
    using inv'(5) sz nok R(8) y f by (simp add: synced_def hash_inv_def up)
  moreover have "syncMT sha t = Inr (root, t')"
    using m(1) R(1,2) root by (simp add: syncMT_def Let_def t'_def)
  ultimately show ?thesis using keeps root m(9) f by auto
qed

section \<open>The consistency check\<close>

lemma synced_checkNode:
  assumes "synced sha E t" and p: "nodes t pos = Some h"
  shows "checkNode sha t pos h"
proof -
  let ?l = "drop_bit 56 pos" and ?n = "take_bit 56 pos" and ?y = "youngestTwigID t"
  have up: "upper sha {} E ?y (calcMaxLevel ?y) 13 (upper_of t)" and y: "?y < 2 ^ 52" and nok: "nodes_ok t"
    using assms(1) by (auto simp: synced_def hash_inv_def pendingTwigs_def touchedTwigs_def)
  have n: "?n < 2 ^ 56" by (rule take_bit_nat_less_exp)
  have "pos = ?l * 2 ^ 56 + ?n" using bits_ident [of 56 pos] by (simp add: push_bit_eq_mult)
  then have pos: "pos = Pos ?l ?n" using Pos_eq [OF n] by simp
  have l: "12 \<le> ?l" using nok p by (auto simp: nodes_ok_def drop_bit_eq_div)
  have "?n \<le> ?y + 1"
  proof (cases "?l = 12")
    case True
    then have "upper_of t 12 ?n \<noteq> None" using p pos n by (auto simp: upper_of_def getTwigRoot_def split: option.splits)
    then show ?thesis using upperD(2) [OF up, of ?n] by simp
  next
    case False
    then have "upper_of t ?l ?n = Some h" using p pos n by (simp add: upper_of_def)
    then have "?n \<le> edge ?y ?l" using upperD(4) [OF up, of ?l ?n] l False by simp
    also have "\<dots> \<le> ?y div 2 ^ (?l - 12) + 1" by (simp add: edge_def Let_def)
    also have "\<dots> \<le> ?y + 1" by (rule add_right_mono) (rule div_le_dividend)
    finally show ?thesis .
  qed
  then have b: "2 * ?n < 2 ^ 56" "2 * ?n + 1 < 2 ^ 56" using y by simp_all
  consider "?l = 12" | "?l = 13" | "13 < ?l" using l by linarith
  then show ?thesis
  proof cases
    case 1
    have "nodes t (Pos 11 (2 * ?n)) = None"
    proof (rule ccontr)
      assume "nodes t (Pos 11 (2 * ?n)) \<noteq> None"
      then have "12 \<le> Pos 11 (2 * ?n) div 2 ^ 56" using nok unfolding nodes_ok_def by blast
      then show False unfolding Pos_div [OF b(1)] by simp
    qed
    with 1 show ?thesis by (simp add: checkNode_def Let_def)
  next
    case 2
    then have g: "upper_of t 13 ?n = Some h" using p pos n by (simp add: upper_of_def)
    have u: "upper_of t 12 (2 * ?n) = getTwigRoot t (2 * ?n)" "upper_of t 12 (2 * ?n + 1) = getTwigRoot t (2 * ?n + 1)"
      using b by (simp_all add: upper_of_def)
    with upperD(5) [OF up _ g] 2 show ?thesis
      by (auto simp: checkNode_def Let_def dirty_def rchild_def hash2_def split: option.splits)
  next
    case 3
    then have g: "upper_of t ?l ?n = Some h" using p pos n by (simp add: upper_of_def)
    have u: "upper_of t (?l - 1) (2 * ?n) = nodes t (Pos (?l - 1) (2 * ?n))"
      "upper_of t (?l - 1) (2 * ?n + 1) = nodes t (Pos (?l - 1) (2 * ?n + 1))"
      using b 3 by (auto simp: upper_of_def)
    with upperD(5) [OF up _ g] 3 show ?thesis
      by (auto simp: checkNode_def Let_def dirty_def rchild_def hash2_def split: option.splits)
  qed
qed

lemma synced_consistent:
  assumes "synced sha E t"
  shows "CheckHashConsistency sha t"
proof -
  have inv: "hash_inv sha E t" and s: "touchedPosOf512b t = {}" "mtree4YTChangeStart t = -1"
    using assms by (auto simp: synced_def)
  have "checkTwig sha tw" if "activeTwigs t T = Some tw" for T tw
    using inv s checkTwig_iff [OF that, of sha] that
    by (auto simp: hash_inv_def sizes_ok_def bits_pending_def twig_pending_def)
  moreover have "checkMT sha (mtree4YoungestTwig t)"
    using inv s checkMT_iff [of t sha] by (auto simp: hash_inv_def sizes_ok_def mt_pending_def)
  ultimately show ?thesis
    using synced_checkNode [OF assms] by (auto simp: CheckHashConsistency_def checkAllTwigs_def checkUpperNodes_def)
qed

section \<open>The end of a block\<close>

lemma deleteTwig_upper:
  assumes "activeTwigs t T = Some tw" and "T < 2 ^ 56"
  shows "upper_of (t\<lparr>nodes := (nodes t)(Pos 12 T \<mapsto> twigRoot tw), activeTwigs := (activeTwigs t)(T := None)\<rparr>) = upper_of t"
  using assms by (auto simp: fun_eq_iff upper_of_def getTwigRoot_def split: option.split)

lemma deleteTwig_ok:
  assumes s: "synced sha E (t\<lparr>twigsToBeDeleted := T # ds\<rparr>)"
  shows "\<exists>N A. deleteTwig T t = Inr (t\<lparr>nodes := N, activeTwigs := A\<rparr>) \<and>
    synced sha E (t\<lparr>nodes := N, activeTwigs := A, twigsToBeDeleted := ds\<rparr>) \<and> A = (activeTwigs t)(T := None) \<and>
    (\<forall>l > 12. N (Pos l 0) = nodes t (Pos l 0))"
proof -
  let ?t0 = "t\<lparr>twigsToBeDeleted := T # ds\<rparr>"
  have inv: "hash_inv sha E ?t0" using s by (simp add: synced_def)
  then have T: "activeTwigs t T \<noteq> None" "T \<noteq> youngestTwigID t" "T \<le> youngestTwigID t" "youngestTwigID t < 2 ^ 52"
    by (auto simp: hash_inv_def active_ok_def)
  then obtain tw where tw: "activeTwigs t T = Some tw" by blast
  have T56: "T < 2 ^ 56" using T(3,4) by simp
  let ?N = "(nodes t)(Pos 12 T \<mapsto> twigRoot tw)" and ?A = "(activeTwigs t)(T := None)"
  let ?t' = "t\<lparr>nodes := ?N, activeTwigs := ?A, twigsToBeDeleted := ds\<rparr>"
  have wf: "wf_twig tw" using inv tw by (auto simp: hash_inv_def sizes_ok_def)
  have up: "upper_of ?t' = upper_of ?t0"
    using deleteTwig_upper [of ?t0 T tw] tw T56 by (simp add: upper_of_def getTwigRoot_def fun_eq_iff split: option.split)
  have "bits_pending sha ?t'"
    using inv by (auto simp: hash_inv_def bits_pending_def twig_pending_def ok1_def ok2_def ok3_def rd.simps twig_field_def)
  moreover have "sizes_ok ?t'" using inv wf by (auto simp: hash_inv_def sizes_ok_def wf_twig_def)
  moreover have "nodes_ok ?t'"
    using inv wf Pos_div [OF T56, of 12] by (auto simp: hash_inv_def nodes_ok_def wf_twig_def)
  moreover have "youngest_ok ?t'" using inv T(2) by (auto simp: hash_inv_def youngest_ok_def touchedTwigs_def)
  moreover have "active_ok E ?t'" using inv s by (auto simp: hash_inv_def active_ok_def touchedTwigs_def synced_def)
  moreover have "mt_pending sha ?t'"
    using inv mt_pending_cong [of ?t' ?t0] by (simp add: hash_inv_def)
  moreover have "pendingTwigs ?t' = pendingTwigs ?t0" by (simp add: pendingTwigs_def touchedTwigs_def)
  ultimately have "synced sha E ?t'" using s inv by (simp add: synced_def hash_inv_def up)
  moreover have "deleteTwig T t = Inr (t\<lparr>nodes := ?N, activeTwigs := ?A\<rparr>)"
    using tw by (simp add: deleteTwig_def lookupTwig_def)
  moreover have "?N (Pos l 0) = nodes t (Pos l 0)" if "12 < l" for l using that T56 by auto
  ultimately show ?thesis by blast
qed

lemma deleteTwigs_ok:
  "synced sha E (t\<lparr>twigsToBeDeleted := ds\<rparr>) \<Longrightarrow>
   \<exists>N A. foldE deleteTwig ds t = Inr (t\<lparr>nodes := N, activeTwigs := A\<rparr>) \<and>
    synced sha E (t\<lparr>nodes := N, activeTwigs := A, twigsToBeDeleted := []\<rparr>) \<and>
    (\<forall>T. A T = (if T \<in> set ds then None else activeTwigs t T)) \<and> (\<forall>l > 12. N (Pos l 0) = nodes t (Pos l 0))"
proof (induction ds arbitrary: t)
  case Nil
  then show ?case by (intro exI [of _ "nodes t"] exI [of _ "activeTwigs t"]) simp
next
  case (Cons T ds)
  from deleteTwig_ok [OF Cons.prems] obtain N A where NA: "deleteTwig T t = Inr (t\<lparr>nodes := N, activeTwigs := A\<rparr>)"
    "synced sha E (t\<lparr>nodes := N, activeTwigs := A, twigsToBeDeleted := ds\<rparr>)" "A = (activeTwigs t)(T := None)"
    "\<forall>l > 12. N (Pos l 0) = nodes t (Pos l 0)" by blast
  from Cons.IH [OF NA(2)] obtain N' A' where N': "foldE deleteTwig ds (t\<lparr>nodes := N, activeTwigs := A\<rparr>) = Inr (t\<lparr>nodes := N', activeTwigs := A'\<rparr>)"
    "synced sha E (t\<lparr>nodes := N', activeTwigs := A', twigsToBeDeleted := []\<rparr>)"
    "\<forall>T. A' T = (if T \<in> set ds then None else A T)" "\<forall>l > 12. N' (Pos l 0) = N (Pos l 0)" by auto
  have "\<forall>U. A' U = (if U \<in> set (T # ds) then None else activeTwigs t U)" using N'(3) NA(3) by simp
  moreover have "foldE deleteTwig (T # ds) t = Inr (t\<lparr>nodes := N', activeTwigs := A'\<rparr>)" using NA(1) N'(1) by simp
  moreover have "\<forall>l > 12. N' (Pos l 0) = nodes t (Pos l 0)" using NA(4) N'(4) by simp
  ultimately show ?case using N'(2) by blast
qed

lemma hash_inv_files: "hash_inv sha E (t\<lparr>entryFile := ef, twigMtFile := tf\<rparr>) = hash_inv sha E t"
proof -
  have "upper_of (t\<lparr>entryFile := ef, twigMtFile := tf\<rparr>) = upper_of t"
    by (simp add: fun_eq_iff upper_of_def getTwigRoot_def split: option.split)
  then show ?thesis
    by (simp add: hash_inv_def sizes_ok_def nodes_ok_def youngest_ok_def active_ok_def mt_pending_def mt_upto_def mt_cons_def
        bits_pending_def twig_pending_def ok1_def ok2_def ok3_def rd.simps twig_field_def touchedTwigs_def pendingTwigs_def)
qed

lemma EndBlock_ok:
  assumes sha: "hash32 sha" and inv: "tree_inv sha E n t" and y: "0 < youngestTwigID t"
  shows "\<exists>root t'. EndBlock sha t = Inr (root, t') \<and> tree_inv sha E n t' \<and> synced sha E t' \<and>
    nodes t' (Pos (calcMaxLevel (youngestTwigID t)) 0) = Some root \<and>
    flush (entryFile t) = Inr (entryFile t') \<and> flush (twigMtFile t) = Inr (twigMtFile t') \<and>
    buffer (entryFile t') = [] \<and> buffer (twigMtFile t') = [] \<and> youngestTwigID t' = youngestTwigID t \<and>
    (\<forall>T tw'. T \<noteq> youngestTwigID t \<and> activeTwigs t' T = Some tw' \<longrightarrow>
       (\<exists>tw. activeTwigs t T = Some tw \<and> leftRoot tw = leftRoot tw')) \<and>
    (\<forall>i < 2048. mtree4YoungestTwig t' ! (2048 + i) = leaf_hash sha t i) \<and>
    twigsToBeDeleted t' = [] \<and> (pos_ok t \<longrightarrow> pos_ok t') \<and> deactivedSNList t' = deactivedSNList t \<and>
    (\<forall>T. T \<notin> set (twigsToBeDeleted t) \<longrightarrow> (activeTwigs t' T = None \<longleftrightarrow> activeTwigs t T = None))"
proof -
  have h: "hash_inv sha E t" and f: "files_inv n t" using inv by (auto simp: tree_inv_def)
  let ?M = "calcMaxLevel (youngestTwigID t)"
  have M: "12 < ?M" using calcMaxLevel_ge [OF _ y] h by (simp add: hash_inv_def)
  from syncMT_ok [OF sha h y] obtain root t1 where t1: "syncMT sha t = Inr (root, t1)" "synced sha E t1" "sync_keeps t t1"
    "nodes t1 (Pos ?M 0) = Some root" "\<forall>i < 2048. mtree4YoungestTwig t1 ! (2048 + i) = leaf_hash sha t i" by blast
  have "synced sha E (t1\<lparr>twigsToBeDeleted := twigsToBeDeleted t1\<rparr>)" using t1(2) by simp
  from deleteTwigs_ok [OF this] obtain N A where NA:
    "foldE deleteTwig (twigsToBeDeleted t1) t1 = Inr (t1\<lparr>nodes := N, activeTwigs := A\<rparr>)"
    "synced sha E (t1\<lparr>nodes := N, activeTwigs := A, twigsToBeDeleted := []\<rparr>)"
    "\<forall>T. A T = (if T \<in> set (twigsToBeDeleted t1) then None else activeTwigs t1 T)"
    "\<forall>l > 12. N (Pos l 0) = nodes t1 (Pos l 0)" by blast
  have k: "entryFile t1 = entryFile t" "twigMtFile t1 = twigMtFile t" "youngestTwigID t1 = youngestTwigID t"
    using t1(3) by (simp_all add: sync_keeps_def)
  from f flush_ok [of "entryFile t"] obtain ef where ef: "flush (entryFile t) = Inr ef" "hp_inv ef" "buffer ef = []" "Size ef = Size (entryFile t)"
    by (auto simp: files_inv_def hp_inv_def Size_def)
  from f flush_ok [of "twigMtFile t"] obtain tf where tf: "flush (twigMtFile t) = Inr tf" "hp_inv tf" "buffer tf = []"
    "Size tf = Size (twigMtFile t)" "bufferSize tf = bufferSize (twigMtFile t)"
    by (auto simp: files_inv_def hp_inv_def Size_def)
  define t' where "t' = t1\<lparr>nodes := N, activeTwigs := A, twigsToBeDeleted := [], entryFile := ef, twigMtFile := tf\<rparr>"
  have "EndBlock sha t = Inr (root, t')"
    using t1(1) NA(1) ef tf k by (simp add: EndBlock_def t'_def)
  moreover have "synced sha E t'"
    using NA(2) hash_inv_files [where t = "t1\<lparr>nodes := N, activeTwigs := A, twigsToBeDeleted := []\<rparr>" and ef = ef and tf = tf]
    by (simp add: synced_def t'_def)
  moreover have fep: "map_option FirstEntryPos (activeTwigs t1 T) = map_option FirstEntryPos (activeTwigs t T)" for T
  proof -
    have "map_option (\<lambda>tw. (activeBits tw, FirstEntryPos tw)) (activeTwigs t1 T) =
      map_option (\<lambda>tw. (activeBits tw, FirstEntryPos tw)) (activeTwigs t T)" using t1(3) by (simp add: sync_keeps_def)
    then show ?thesis by (cases "activeTwigs t1 T"; cases "activeTwigs t T") simp_all
  qed
  moreover have "pos_ok t'" if pos: "pos_ok t"
  proof (rule pos_ok_mono [OF pos])
    fix T tw' assume "activeTwigs t' T = Some tw'"
    then have "activeTwigs t1 T = Some tw'" using NA(3) by (auto simp: t'_def split: if_splits)
    with fep [of T] show "(\<exists>tw T. activeTwigs t T = Some tw \<and> FirstEntryPos tw' = FirstEntryPos tw) \<or>
      FirstEntryPos tw' = -1 \<or> FirstEntryPos tw' = int (Size (entryFile t))"
      by (cases "activeTwigs t T") auto
  qed (simp add: t'_def ef(4))
  moreover have "deactivedSNList t' = deactivedSNList t"
    "\<forall>T. T \<notin> set (twigsToBeDeleted t) \<longrightarrow> (activeTwigs t' T = None \<longleftrightarrow> activeTwigs t T = None)"
    using t1(3) sync_keeps_none [OF t1(3)] NA(3) by (simp_all add: t'_def sync_keeps_def)
  moreover have "files_inv n t'"
  proof -
    have "youngestTwigID t \<notin> set (twigsToBeDeleted t1)" using h t1(3) by (auto simp: hash_inv_def active_ok_def sync_keeps_def)
    note this fep [of "youngestTwigID t"]
    moreover have "mtree4YTChangeStart t1 = -1" using t1(2) by (simp add: synced_def)
    ultimately show ?thesis using f ef tf k NA(3)
      by (cases "activeTwigs t1 (youngestTwigID t)") (auto simp: files_inv_def t'_def)
  qed
  moreover have "nodes t' (Pos ?M 0) = Some root" using NA(4) M t1(4) by (simp add: t'_def)
  moreover have "mtree4YoungestTwig t' = mtree4YoungestTwig t1" "youngestTwigID t' = youngestTwigID t" using k by (simp_all add: t'_def)
  moreover have "\<exists>tw. activeTwigs t T = Some tw \<and> leftRoot tw = leftRoot tw'"
    if T: "T \<noteq> youngestTwigID t" "activeTwigs t' T = Some tw'" for T tw'
  proof -
    have "activeTwigs t1 T = Some tw'" using T(2) NA(3) by (auto simp: t'_def split: if_splits)
    moreover have "map_option leftRoot (activeTwigs t1 T) = map_option leftRoot (activeTwigs t T)"
      using t1(3) T(1) by (simp add: sync_keeps_def)
    ultimately show ?thesis by (cases "activeTwigs t T") auto
  qed
  ultimately show ?thesis using t1(5) ef tf by (auto simp: tree_inv_def synced_def t'_def)
qed

end
