(* ===== verification/TreeOps.thy ===== *)
theory TreeOps
  imports TreeInv
begin

text \<open>
  The operations of a block keep the invariant of the data tree: activation and deactivation of an
  entry, appending an entry (with the switch to a new twig after 2048 entries), eviction, and the
  empty tree to start from.
\<close>

section \<open>The null Merkle tree\<close>

lemma stripes_length: "length (concat (map (\<lambda>k. replicate (2 ^ k) (f k)) [0 ..< K])) = 2 ^ K - 1"
proof (induction K)
  case (Suc K)
  have "(1 :: nat) \<le> 2 ^ K" by simp
  with Suc show ?case by simp
qed simp

lemma stripes_nth:
  "k < K \<Longrightarrow> p < 2 ^ k \<Longrightarrow> concat (map (\<lambda>k. replicate (2 ^ k) (f k)) [0 ..< K]) ! (2 ^ k - 1 + p) = f k"
proof (induction K)
  case (Suc K)
  show ?case
  proof (cases "k < K")
    case True
    have "(2 :: nat) ^ Suc k \<le> 2 ^ K" using True by (intro power_increasing) auto
    then have "2 ^ k - 1 + p < 2 ^ K - 1" using Suc.prems(2) by simp
    with Suc True show ?thesis by (simp add: nth_append stripes_length)
  next
    case False
    then have k: "k = K" using Suc.prems by simp
    let ?A = "concat (map (\<lambda>k. replicate (2 ^ k) (f k)) [0 ..< K])"
    have "(?A @ replicate (2 ^ K) (f K)) ! (length ?A + p) = f K"
      unfolding nth_append_length_plus using Suc.prems(2) k by simp
    then show ?thesis using k by (simp add: stripes_length)
  qed
qed simp

lemma NullMT_nth: "k < 12 \<Longrightarrow> p < 2 ^ k \<Longrightarrow> NullMT4Twig sha ! (2 ^ k + p) = nullHash sha (11 - k)"
proof -
  assume k: "k < 12" "p < 2 ^ k"
  have "(1 :: nat) \<le> 2 ^ k" by simp
  then have "2 ^ k + p = Suc (2 ^ k - 1 + p)" by simp
  then have "NullMT4Twig sha ! (2 ^ k + p) =
      concat (map (\<lambda>k. replicate (2 ^ k) (nullHash sha (11 - k))) [0 ..< 12]) ! (2 ^ k - 1 + p)"
    by (simp only: NullMT4Twig_def nth_Cons_Suc)
  also have "\<dots> = nullHash sha (11 - k)" by (rule stripes_nth [OF k])
  finally show ?thesis .
qed

lemma length_NullMT: "length (NullMT4Twig sha) = 4096"
proof -
  have "length (NullMT4Twig sha) = Suc (2 ^ 12 - 1)" unfolding NullMT4Twig_def by (simp only: list.size(4) stripes_length)
  then show ?thesis by simp
qed

lemma NullMT_32: "hash32 sha \<Longrightarrow> x \<in> set (NullMT4Twig sha) \<Longrightarrow> length x = 32"
  by (auto simp: NullMT4Twig_def)

lemma NullMT_cons:
  assumes "mtree4YoungestTwig t = NullMT4Twig sha"
  shows "mt_upto sha 0 0 11 t"
proof -
  have n: "rd t (CMt (2 ^ k + p)) = nullHash sha (11 - k)" if "k < 12" "p < 2 ^ k" for k p
  proof -
    have "(2 :: nat) ^ k \<le> 2 ^ 11" using that(1) by (intro power_increasing) auto
    with that assms NullMT_nth [OF that, of sha] show ?thesis by (simp add: rd.simps nth0_def length_NullMT)
  qed
  have "mt_cons sha t m p" if m: "m \<le> 10" and p: "p < 2 ^ (10 - m)" for m p
  proof -
    have half: "2 ^ (11 - m) = 2 * (2 :: nat) ^ (10 - m)" using m by (intro pow_half) simp
    have "11 - (10 - m) = Suc m" "11 - (11 - m) = m" using m by auto
    with n [of "10 - m" p] n [of "11 - m" "2 * p"] n [of "11 - m" "2 * p + 1"] m p half show ?thesis
      by (simp add: mt_cons_def add.assoc)
  qed
  then show ?thesis by (simp add: mt_upto_def)
qed

lemma NullMT_root: "NullMT4Twig sha ! 1 = leftRoot (NullTwig sha)"
  using NullMT_nth [of 0 0 sha] by (simp add: NullTwig_def Let_def del: nullHash.simps)

lemma NullTwig_check: "checkTwig sha (NullTwig sha)"
proof -
  have c: "subslice (replicate 256 (0 :: byte)) (64 * p) (64 * p + 64) = zeroHash @ zeroHash" if "p < 4" for p
    using that by (simp add: subslice_def zeroHash_def replicate_add [symmetric])
  note c [of 0] c [of 1] c [of 2] c [of 3]
  moreover have "[0 ..< 4] = [0, 1, 2, 3 :: nat]" "[0 ..< 2] = [0, 1 :: nat]" by (simp_all add: upt_rec)
  ultimately show ?thesis
    by (simp add: checkTwig_def NullTwig_def Let_def hash2_def)
qed

section \<open>Growing the upper tree\<close>

lemma upper_mono: "upper sha D E y M 13 g \<Longrightarrow> D \<subseteq> D' \<Longrightarrow> upper sha D' E y M 13 g"
proof -
  assume up: "upper sha D E y M 13 g" and "D \<subseteq> D'"
  then have d: "\<not> dirty D' l i \<Longrightarrow> \<not> dirty D l i" for l i by (auto simp: dirty_def)
  have "g l i \<noteq> None" if "13 \<le> l" "l \<le> M" "kept E l \<le> i" "i \<le> y div 2 ^ (l - 12)" "l < 13 \<or> \<not> dirty D' l i" for l i
    using that d by (intro upperD(3) [OF up]) auto
  moreover have "h = hash2 sha (word_of_nat (l - 1)) a b" if h: "13 \<le> l" "g l i = Some h" "l < 13 \<or> \<not> dirty D' l i"
    "g (l - 1) (2 * i) = Some a" "rchild sha g l i = Some b" for l i h a b
    using h d by (intro upperD(5) [OF up h(1,2) _ h(4,5)]) auto
  moreover have "g (l - 1) (2 * i + 1) \<noteq> None"
    if "13 < l" "g l i \<noteq> None" "i \<le> y div 2 ^ (l - 12)" "l < 13 \<or> \<not> dirty D' l i" for l i
    using that d by (intro upperD(6) [OF up]) auto
  ultimately show ?thesis unfolding upper_def using upperD(1,2,4) [OF up] by blast
qed

lemma div_Suc_bounds: "y div (k :: nat) \<le> Suc y div k \<and> Suc y div k \<le> Suc (y div k)"
  by (metis Suc_eq_plus1 div_le_mono le_SucI div_Suc le_refl linorder_le_less_linear not_less_eq_eq)

lemma edge_mono: "edge y l \<le> edge (Suc y) l"
proof -
  let ?m = "y div 2 ^ (l - 12)" and ?m' = "Suc y div 2 ^ (l - 12)"
  have "?m \<le> ?m'" "?m' \<le> Suc ?m" using div_Suc_bounds by blast+
  then consider "?m' = ?m" | "?m' = Suc ?m" by linarith
  then show ?thesis by cases (auto simp: edge_def Let_def)
qed

lemma calcMaxLevel_mono: "Suc y < 2 ^ 63 \<Longrightarrow> calcMaxLevel y \<le> calcMaxLevel (Suc y)"
proof -
  assume y: "Suc y < 2 ^ 63"
  have "y < 2 ^ bits_Len (Suc y)" using bits_Len_bound [of "Suc y"] by simp
  from bits_Len_le [OF this] y show ?thesis by (simp add: calcMaxLevel_eq)
qed

lemma upper_grow:
  assumes up: "upper sha D E y (calcMaxLevel y) 13 g" and y: "Suc y < 2 ^ 63"
    and D: "D \<subseteq> D'" "Suc y \<in> D'" and hi: "\<And>l. l \<noteq> 12 \<Longrightarrow> g' l = g l"
    and lo: "\<And>T. T \<noteq> Suc y \<Longrightarrow> g' 12 T = g 12 T" and new: "g' 12 (Suc y) \<noteq> None"
  shows "upper sha D' E (Suc y) (calcMaxLevel (Suc y)) 13 g'"
proof -
  let ?M = "calcMaxLevel y" and ?M' = "calcMaxLevel (Suc y)"
  have M: "?M \<le> ?M'" by (rule calcMaxLevel_mono [OF y])
  have d: "\<not> dirty D' l i \<Longrightarrow> \<not> dirty D l i" "\<not> dirty D' l i \<Longrightarrow> i \<noteq> Suc y div 2 ^ (l - 12)" for l i
    using D by (auto simp: dirty_def)
  have ex: "g' l i \<noteq> None" if l: "13 \<le> l" "kept E l \<le> i" "i \<le> Suc y div 2 ^ (l - 12)" "\<not> dirty D' l i" for l i
  proof -
    have i: "i < Suc y div 2 ^ (l - 12)" using l(3) d(2) [OF l(4)] by simp
    have "l \<le> ?M"
    proof (rule ccontr)
      assume "\<not> l \<le> ?M"
      then have "(2 :: nat) ^ (?M - 12) < 2 ^ (l - 12)" using l(1) by (intro power_strict_increasing) auto
      moreover have "y < 2 ^ (?M - 12)" using bits_Len_bound [of y] y by (simp add: calcMaxLevel_eq)
      ultimately have "Suc y < 2 ^ (l - 12)" by linarith
      then have "Suc y div 2 ^ (l - 12) = 0" by simp
      with i show False by simp
    qed
    moreover have "i \<le> y div 2 ^ (l - 12)" using i div_Suc_bounds [of y "2 ^ (l - 12)"] by linarith
    ultimately show ?thesis using upperD(3) [OF up l(1) _ l(2)] d(1) [OF l(4)] hi [of l] l(1) by auto
  qed
  have edge: "l \<le> max ?M' 13 \<and> i \<le> edge (Suc y) l" if l: "13 \<le> l" "g' l i \<noteq> None" for l i
    using upperD(4) [OF up l(1), of i] l hi [of l] edge_mono [of y l] M by auto
  have cons: "h = hash2 sha (word_of_nat (l - 1)) a b" if h: "13 \<le> l" "g' l i = Some h" "\<not> dirty D' l i"
    "g' (l - 1) (2 * i) = Some a" "rchild sha g' l i = Some b" for l i h a b
  proof (rule upperD(5) [OF up h(1)])
    show "l < 13 \<or> \<not> dirty D l i" using d(1) [OF h(3)] by simp
    show "g l i = Some h" using h(1,2) hi [of l] by simp
    have l13: "l = 13 \<Longrightarrow> 2 * i \<noteq> Suc y \<and> 2 * i + 1 \<noteq> Suc y" using d(2) [OF h(3)] by auto
    show "g (l - 1) (2 * i) = Some a" using h(1,4) l13 lo [of "2 * i"] hi [of "l - 1"] by (cases "l = 13") auto
    show "rchild sha g l i = Some b"
      using h(1,5) l13 lo [of "2 * i + 1"] hi [of "l - 1"] by (cases "l = 13") (auto simp: rchild_def)
  qed
  have "g' 12 T \<noteq> None" if "E \<le> T" "T \<le> Suc y" for T
    using upperD(1) [OF up, of T] lo [of T] new that by (cases "T = Suc y") auto
  moreover have "T \<le> Suc y" if "g' 12 T \<noteq> None" for T
    using upperD(2) [OF up, of T] lo [of T] that by (cases "T = Suc y") auto
  moreover have "g' (l - 1) (2 * i + 1) \<noteq> None"
    if l: "13 < l" "g' l i \<noteq> None" "i \<le> Suc y div 2 ^ (l - 12)" "\<not> dirty D' l i" for l i
  proof -
    have "i < Suc y div 2 ^ (l - 12)" using l(3) d(2) [OF l(4)] by simp
    then have "i \<le> y div 2 ^ (l - 12)" using div_Suc_bounds [of y "2 ^ (l - 12)"] by linarith
    then have "g (l - 1) (2 * i + 1) \<noteq> None"
      using upperD(6) [OF up l(1)] hi [of l] l d(1) [OF l(4)] by auto
    with hi [of "l - 1"] l(1) show ?thesis by auto
  qed
  ultimately show ?thesis unfolding upper_def using ex edge cons by fastforce
qed

section \<open>Activation\<close>

definition with_bits :: "Twig \<Rightarrow> nat \<Rightarrow> byte \<Rightarrow> Twig" where
  "with_bits tw off b = tw\<lparr>activeBits := (activeBits tw)[off div 8 := b]\<rparr>"

lemma setBit_form: "off < 2048 \<Longrightarrow> \<exists>b. setBit off tw = Inr (with_bits tw off b)"
  "off < 2048 \<Longrightarrow> \<exists>b. clearBit off tw = Inr (with_bits tw off b)"
  by (auto simp: setBit_def clearBit_def with_bits_def)

lemma wf_with_bits [simp]: "wf_twig (with_bits tw off b) = wf_twig tw"
  by (simp add: wf_twig_def with_bits_def)

text \<open>The tree after a bit of twig \<open>sn div 2048\<close> was written.\<close>

definition with_activation :: "Tree \<Rightarrow> nat \<Rightarrow> Twig \<Rightarrow> byte \<Rightarrow> int list \<Rightarrow> Tree" where
  "with_activation t sn tw b ds = t\<lparr>activeTwigs := (activeTwigs t)(sn div 2048 \<mapsto> with_bits tw (sn mod 2048) b),
     deactivedSNList := ds, touchedPosOf512b := insert (sn div 512) (touchedPosOf512b t)\<rparr>"

lemma setEntryActiviation_form:
  assumes "activeTwigs t (sn div 2048) = Some tw"
  shows "\<exists>b. setEntryActiviation sn act t =
    Inr (with_activation t sn tw b (if act then deactivedSNList t else deactivedSNList t @ [int sn]))"
  using assms setBit_form [of "sn mod 2048" tw]
  by (auto simp: setEntryActiviation_def with_activation_def lookupTwig_def TwigShift_def Let_def)

lemma with_activation_fields [simp]:
  "youngestTwigID (with_activation t sn tw b ds) = youngestTwigID t"
  "nodes (with_activation t sn tw b ds) = nodes t"
  "mtree4YoungestTwig (with_activation t sn tw b ds) = mtree4YoungestTwig t"
  "leave4YoungestTwig (with_activation t sn tw b ds) = leave4YoungestTwig t"
  "mtree4YTChangeStart (with_activation t sn tw b ds) = mtree4YTChangeStart t"
  "mtree4YTChangeEnd (with_activation t sn tw b ds) = mtree4YTChangeEnd t"
  "twigsToBeDeleted (with_activation t sn tw b ds) = twigsToBeDeleted t"
  "entryFile (with_activation t sn tw b ds) = entryFile t"
  "twigMtFile (with_activation t sn tw b ds) = twigMtFile t"
  "deactivedSNList (with_activation t sn tw b ds) = ds"
  "touchedPosOf512b (with_activation t sn tw b ds) = insert (sn div 512) (touchedPosOf512b t)"
  by (simp_all add: with_activation_def)

lemma with_activation_touched:
  "touchedTwigs (with_activation t sn tw b ds) = insert (sn div 2048) (touchedTwigs t)"
  by (simp add: touchedTwigs_def div_mult2_eq [symmetric])

lemma with_activation_none:
  "activeTwigs t (sn div 2048) = Some tw \<Longrightarrow>
   activeTwigs (with_activation t sn tw b ds) T = None \<longleftrightarrow> activeTwigs t T = None"
  by (simp add: with_activation_def)

lemma with_activation_rd:
  assumes "activeTwigs t (sn div 2048) = Some tw"
  shows "rd (with_activation t sn tw b ds) (CL1 T p) = rd t (CL1 T p)"
    "rd (with_activation t sn tw b ds) (CL2 T p) = rd t (CL2 T p)"
    "rd (with_activation t sn tw b ds) (CL3 T) = rd t (CL3 T)"
    "rd (with_activation t sn tw b ds) (CLeft T) = rd t (CLeft T)"
    "rd (with_activation t sn tw b ds) (CTop T) = rd t (CTop T)"
  using assms by (simp_all add: with_activation_def rd.simps twig_field_def with_bits_def)

lemma div_512: "(sn :: nat) div 512 = 4 * (sn div 2048) + sn mod 2048 div 512"
proof -
  have g: "(512 * a + r) div 512 = a + r div 512" for a r :: nat by simp
  note g [of "4 * (sn div 2048)" "sn mod 2048"]
  moreover have "512 * (4 * (sn div 2048)) + sn mod 2048 = sn" by simp
  ultimately show ?thesis by (simp only:)
qed

lemma with_activation_chunk:
  assumes "activeTwigs t (sn div 2048) = Some tw" and "4 * T + p \<noteq> sn div 512" and "p < 4" and "k = 2 * p \<or> k = 2 * p + 1"
  shows "rd (with_activation t sn tw b ds) (CBits T k) = rd t (CBits T k)"
proof (cases "T = sn div 2048")
  case True
  have "\<not> (32 * k \<le> sn mod 2048 div 8 \<and> sn mod 2048 div 8 < 32 * k + 32)"
  proof
    assume "32 * k \<le> sn mod 2048 div 8 \<and> sn mod 2048 div 8 < 32 * k + 32"
    then have "sn mod 2048 div 8 div 32 = k" by (intro div_nat_eqI) auto
    moreover have "sn mod 2048 div 512 = sn mod 2048 div 8 div 32 div 2" by (simp add: div_mult2_eq [symmetric])
    ultimately have "sn mod 2048 div 512 = p" using assms(4) by auto
    with div_512 [of sn] show False using assms(2) True by simp
  qed
  then have "subslice ((activeBits tw)[sn mod 2048 div 8 := b]) (32 * k) (32 * k + 32) =
      subslice (activeBits tw) (32 * k) (32 * k + 32)"
    by (auto simp: subslice_def drop_update_swap take_update_cancel not_le not_less)
  with True assms(1) show ?thesis by (simp add: with_activation_def rd.simps twig_field_def with_bits_def)
next
  case False
  then show ?thesis by (simp add: with_activation_def rd.simps twig_field_def)
qed

lemma with_activation_bits:
  assumes "bits_pending sha t" and tw: "activeTwigs t (sn div 2048) = Some tw"
  shows "bits_pending sha (with_activation t sn tw b ds)"
proof -
  let ?t = "with_activation t sn tw b ds" and ?N = "insert (sn div 512) (touchedPosOf512b t)"
  have "twig_pending sha ?N ?t T" if "activeTwigs t T \<noteq> None" for T
  proof -
    have p: "twig_pending sha (touchedPosOf512b t) t T" using assms(1) that by (simp add: bits_pending_def)
    have "ok1 sha ?t T p" if "p < 4" "4 * T + p \<notin> ?N" for p
      using p that with_activation_chunk [OF tw, of T p] by (simp add: twig_pending_def ok1_def with_activation_rd [OF tw])
    moreover have "ok2 sha ?t T q" if "q < 2" "2 * T + q \<notin> (\<lambda>i. i div 2) ` ?N" for q
      using p that by (simp add: twig_pending_def ok2_def with_activation_rd [OF tw])
    moreover have "ok3 sha ?t T" if "T \<notin> (\<lambda>i. i div 4) ` ?N"
      using p that by (simp add: twig_pending_def ok3_def with_activation_rd [OF tw])
    ultimately show ?thesis unfolding twig_pending_def by blast
  qed
  with with_activation_none [OF tw] show ?thesis by (simp add: bits_pending_def)
qed

lemma with_activation_hash_inv:
  assumes inv: "hash_inv sha E t" and tw: "activeTwigs t (sn div 2048) = Some tw"
  shows "hash_inv sha E (with_activation t sn tw b ds)"
proof -
  let ?t = "with_activation t sn tw b ds"
  have "upper_of ?t = upper_of t"
    using tw by (auto simp: fun_eq_iff upper_of_def getTwigRoot_def with_activation_def with_bits_def split: option.split)
  moreover have "pendingTwigs t \<subseteq> pendingTwigs ?t"
    by (auto simp: pendingTwigs_def with_activation_touched)
  ultimately have "upper sha (pendingTwigs ?t) E (youngestTwigID t) (calcMaxLevel (youngestTwigID t)) 13 (upper_of ?t)"
    using inv upper_mono by (auto simp: hash_inv_def)
  moreover have "sizes_ok ?t" using inv tw by (auto simp: hash_inv_def sizes_ok_def with_activation_def)
  moreover have "nodes_ok ?t" using inv by (simp add: hash_inv_def nodes_ok_def)
  moreover have "youngest_ok ?t"
  proof -
    have yk: "youngest_ok t" using inv by (simp add: hash_inv_def)
    show ?thesis
    proof (cases "youngestTwigID t = sn div 2048")
      case True
      with yk tw show ?thesis
        by (auto simp: youngest_ok_def with_activation_touched) (simp_all add: with_activation_def with_bits_def)
    next
      case False
      then have "activeTwigs ?t (youngestTwigID t) = activeTwigs t (youngestTwigID t)" by (simp add: with_activation_def)
      with yk show ?thesis by (auto simp: youngest_ok_def with_activation_touched)
    qed
  qed
  moreover have "active_ok E ?t"
    using inv tw by (auto simp: hash_inv_def active_ok_def with_activation_touched with_activation_none [OF tw] simp del: not_None_eq)
  moreover have "mt_pending sha ?t" using inv mt_pending_cong [of ?t t] by (simp add: hash_inv_def)
  moreover have "bits_pending sha ?t" using inv by (intro with_activation_bits [OF _ tw]) (simp add: hash_inv_def)
  ultimately show ?thesis using inv by (simp add: hash_inv_def)
qed

section \<open>Appending\<close>

definition no_pos :: "Twig \<Rightarrow> Twig" where
  "no_pos tw = tw\<lparr>FirstEntryPos := 0\<rparr>"

lemma no_pos_fields [simp]:
  "activeBits (no_pos tw) = activeBits tw" "activeBitsMTL1 (no_pos tw) = activeBitsMTL1 tw"
  "activeBitsMTL2 (no_pos tw) = activeBitsMTL2 tw" "activeBitsMTL3 (no_pos tw) = activeBitsMTL3 tw"
  "leftRoot (no_pos tw) = leftRoot tw" "twigRoot (no_pos tw) = twigRoot tw" "wf_twig (no_pos tw) = wf_twig tw"
  by (simp_all add: no_pos_def wf_twig_def)

text \<open>
  The hash part of the invariant does not depend on the files, the positions of the first entries and
  the list of deactivated entries; a new leaf must be in the range of the changes.
\<close>

lemma hash_inv_same:
  assumes inv: "hash_inv sha E t" and same: "nodes t' = nodes t" "youngestTwigID t' = youngestTwigID t"
    "mtree4YoungestTwig t' = mtree4YoungestTwig t" "touchedPosOf512b t' = touchedPosOf512b t"
    "twigsToBeDeleted t' = twigsToBeDeleted t"
    and tw: "\<And>T. map_option no_pos (activeTwigs t' T) = map_option no_pos (activeTwigs t T)"
    and pend: "mt_pending sha t'"
    and cs: "mtree4YTChangeStart t' = -1 \<and> mtree4YTChangeStart t = -1 \<or>
      mtree4YTChangeStart t' \<noteq> -1 \<and> youngestTwigID t \<in> touchedTwigs t"
  shows "hash_inv sha E t'"
proof -
  have pick: "(\<exists>tw. activeTwigs t T = Some tw \<and> no_pos tw = no_pos tw')" if "activeTwigs t' T = Some tw'" for T tw'
    using tw [of T] that by (cases "activeTwigs t T") auto
  have none: "activeTwigs t' T = None \<longleftrightarrow> activeTwigs t T = None" for T
    using tw [of T] by (cases "activeTwigs t' T"; cases "activeTwigs t T") auto
  have fld: "twig_field t' T f = twig_field t T f" if "\<And>tw. f (no_pos tw) = f tw" for T f
    using tw [of T] that by (cases "activeTwigs t' T"; cases "activeTwigs t T") (auto simp: twig_field_def, metis)
  have rd: "rd t' (CBits T k) = rd t (CBits T k)" "rd t' (CL1 T k) = rd t (CL1 T k)" "rd t' (CL2 T k) = rd t (CL2 T k)"
    "rd t' (CL3 T) = rd t (CL3 T)" "rd t' (CLeft T) = rd t (CLeft T)" "rd t' (CTop T) = rd t (CTop T)" for T k
    by (simp_all add: rd.simps fld)
  have tt: "touchedTwigs t' = touchedTwigs t" "pendingTwigs t' = pendingTwigs t"
    using same by (simp_all add: touchedTwigs_def pendingTwigs_def)
  have "getTwigRoot t' T = getTwigRoot t T" for T
    using tw [of T] same(1) by (cases "activeTwigs t' T"; cases "activeTwigs t T") (auto simp: getTwigRoot_def, metis no_pos_fields(6))
  then have up: "upper_of t' = upper_of t" using same(1) by (simp add: fun_eq_iff upper_of_def)
  have "sizes_ok t'"
    using inv same pick no_pos_fields(7) unfolding hash_inv_def sizes_ok_def by metis
  moreover have "nodes_ok t'" using inv same by (simp add: hash_inv_def nodes_ok_def)
  moreover have "active_ok E t'" using inv same none by (simp add: hash_inv_def active_ok_def tt)
  moreover have "bits_pending sha t'"
    using inv same none by (simp add: hash_inv_def bits_pending_def twig_pending_def ok1_def ok2_def ok3_def rd)
  moreover have "youngest_ok t'"
  proof -
    have yk: "youngest_ok t" using inv by (simp add: hash_inv_def)
    then obtain y where y: "activeTwigs t (youngestTwigID t) = Some y"
      "mtree4YTChangeStart t = -1 \<longrightarrow> leftRoot y = mtree4YoungestTwig t ! 1" by (auto simp: youngest_ok_def)
    with none [of "youngestTwigID t"] obtain y' where y': "activeTwigs t' (youngestTwigID t) = Some y'" by auto
    with pick [OF y'] y have "leftRoot y' = leftRoot y" by (metis no_pos_fields(5) option.inject)
    with y y' cs same show ?thesis by (auto simp: youngest_ok_def tt)
  qed
  ultimately show ?thesis using inv pend same by (simp add: hash_inv_def tt up)
qed

lemma mt_upto_mono: "mt_upto sha s e 0 t \<Longrightarrow> e \<le> e' \<Longrightarrow> mt_upto sha s e' 0 t"
proof -
  assume "mt_upto sha s e 0 t" "e \<le> e'"
  moreover have "e div 2 ^ Suc m < p" if "e' div 2 ^ Suc m < p" for m p
    using div_le_mono [OF \<open>e \<le> e'\<close>, of "2 ^ Suc m"] that by linarith
  ultimately show ?thesis unfolding mt_upto_def by blast
qed

definition with_leaf :: "Tree \<Rightarrow> nat \<Rightarrow> bytes \<times> bytes \<Rightarrow> EntryFile \<Rightarrow> Tree" where
  "with_leaf t pos bz ef = t\<lparr>mtree4YTChangeStart := (if mtree4YTChangeStart t = -1 then int pos else mtree4YTChangeStart t),
     mtree4YTChangeEnd := int pos, entryFile := ef,
     leave4YoungestTwig := (leave4YoungestTwig t)[pos := (Some (fst bz), snd bz)]\<rparr>"

lemma with_leaf_hash_inv:
  assumes inv: "hash_inv sha E t" and y: "youngestTwigID t \<in> touchedTwigs t" and pos: "pos < 2048"
    and ce: "mtree4YTChangeStart t \<noteq> -1 \<longrightarrow> mtree4YTChangeEnd t + 1 = int pos"
  shows "hash_inv sha E (with_leaf t pos bz ef)"
proof (rule hash_inv_same [OF inv])
  let ?t = "with_leaf t pos bz ef" and ?s = "mtree4YTChangeStart t" and ?e = "mtree4YTChangeEnd t"
  have pend: "mt_pending sha t" using inv by (simp add: hash_inv_def)
  show "mt_pending sha ?t"
  proof (cases "?s = -1")
    case True
    then have "mt_upto sha pos pos 0 t" using pend by (auto simp: mt_pending_def Let_def mt_upto_def)
    then have "mt_upto sha pos pos 0 ?t" using mt_upto_cong [of ?t t] by (simp add: with_leaf_def)
    with True pend pos show ?thesis
      by (auto simp: mt_pending_def Let_def with_leaf_def nth_list_update)
  next
    case False
    then have e: "0 \<le> ?s" "?s \<le> ?e" "?e + 1 = int pos" "mt_upto sha (nat ?s) (nat ?e) 0 t"
      "\<forall>i < 2048. fst (leave4YoungestTwig t ! i) \<noteq> None \<longrightarrow> ?s \<le> int i \<and> int i \<le> ?e" "length (leave4YoungestTwig t) = 2048"
      using pend ce by (auto simp: mt_pending_def Let_def)
    then have "mt_upto sha (nat ?s) pos 0 t" by (intro mt_upto_mono [OF e(4)]) auto
    then have "mt_upto sha (nat ?s) pos 0 ?t" using mt_upto_cong [of ?t t] by (simp add: with_leaf_def)
    moreover have "?s \<le> int i \<and> int i \<le> int pos"
      if "i < 2048" "fst ((leave4YoungestTwig t)[pos := (Some (fst bz), snd bz)] ! i) \<noteq> None" for i
      using that e by (cases "i = pos") fastforce+
    ultimately show ?thesis using False e pos by (simp add: mt_pending_def Let_def with_leaf_def)
  qed
  show "mtree4YTChangeStart ?t = -1 \<and> ?s = -1 \<or> mtree4YTChangeStart ?t \<noteq> -1 \<and> youngestTwigID t \<in> touchedTwigs t"
    using y by (simp add: with_leaf_def)
qed (simp_all add: with_leaf_def)

text \<open>The switch to a new youngest twig, after the Merkle tree of the old one was synchronised.\<close>

definition new_twig :: "(bytes \<Rightarrow> bytes) \<Rightarrow> Tree \<Rightarrow> TwigMtFile \<Rightarrow> Tree" where
  "new_twig sha t tf = t\<lparr>twigMtFile := tf, youngestTwigID := youngestTwigID t + 1,
     activeTwigs := (activeTwigs t)(youngestTwigID t + 1 \<mapsto> CopyNullTwig sha),
     mtree4YoungestTwig := NullMT4Twig sha, touchedPosOf512b := insert (4 * (youngestTwigID t + 1)) (touchedPosOf512b t)\<rparr>"

lemma new_twig_bits:
  assumes sha: "hash32 sha" and bp: "bits_pending sha t"
  shows "bits_pending sha (new_twig sha t tf)"
proof -
  let ?t = "new_twig sha t tf" and ?y = "youngestTwigID t" let ?N = "touchedPosOf512b ?t"
  have "twig_pending sha ?N ?t T" if "activeTwigs ?t T \<noteq> None" for T
  proof (cases "T = Suc ?y")
    case True
    then have "activeTwigs ?t T = Some (NullTwig sha)" by (simp add: new_twig_def CopyNullTwig_def)
    from checkTwig_iff [OF this wf_NullTwig [OF sha], of sha] NullTwig_check [of sha] show ?thesis
      by (simp add: twig_pending_def)
  next
    case False
    then have "activeTwigs t T \<noteq> None" using that by (simp add: new_twig_def)
    then have p: "twig_pending sha (touchedPosOf512b t) t T" using bp by (simp add: bits_pending_def)
    have "rd ?t c = rd t c" if "c \<in> {CBits T k, CL1 T k, CL2 T k, CL3 T, CLeft T, CTop T}" for c k
      using False that by (auto simp: new_twig_def rd.simps twig_field_def)
    then have "twig_pending sha (touchedPosOf512b t) ?t T"
      using p by (simp add: twig_pending_def ok1_def ok2_def ok3_def)
    moreover have "touchedPosOf512b t \<subseteq> ?N" by (auto simp: new_twig_def)
    ultimately show ?thesis unfolding twig_pending_def by blast
  qed
  then show ?thesis by (simp add: bits_pending_def)
qed

lemma new_twig_upper:
  assumes up: "upper sha D E (youngestTwigID t) (calcMaxLevel (youngestTwigID t)) 13 (upper_of t)"
    and y: "Suc (youngestTwigID t) < 2 ^ 52" and D: "D \<subseteq> D'" "Suc (youngestTwigID t) \<in> D'"
  shows "upper sha D' E (Suc (youngestTwigID t)) (calcMaxLevel (Suc (youngestTwigID t))) 13 (upper_of (new_twig sha t tf))"
proof (rule upper_grow [OF up _ D])
  show "Suc (youngestTwigID t) < 2 ^ 63" using y by simp
  show "upper_of (new_twig sha t tf) l = upper_of t l" if "l \<noteq> 12" for l
    using that by (auto simp: fun_eq_iff upper_of_def new_twig_def)
  show "upper_of (new_twig sha t tf) 12 T = upper_of t 12 T" if "T \<noteq> Suc (youngestTwigID t)" for T
    using that by (auto simp: upper_of_def new_twig_def getTwigRoot_def split: option.split)
  show "upper_of (new_twig sha t tf) 12 (Suc (youngestTwigID t)) \<noteq> None"
    using y by (simp add: upper_of_def new_twig_def getTwigRoot_def)
qed

lemma new_twig_hash_inv:
  assumes sha: "hash32 sha" and inv: "hash_inv sha E t" and y: "Suc (youngestTwigID t) < 2 ^ 52"
    and yt: "youngestTwigID t \<in> touchedTwigs t"
  shows "\<exists>tw m ls e. syncMT4YoungestTwig sha t = Inr (with_mt t tw m ls e) \<and> length m = 4096 \<and>
    (\<forall>x \<in> set m. length x = 32) \<and> activeTwigs t (youngestTwigID t) = Some tw \<and>
    (\<forall>i < 2048. m ! (2048 + i) = leaf_hash sha t i) \<and> checkMT sha m \<and>
    (\<forall>tf. hash_inv sha E (new_twig sha (with_mt t tw m ls e) tf))"
proof -
  from sync_youngest [OF sha inv] obtain tw m ls e where m:
    "syncMT4YoungestTwig sha t = Inr (with_mt t tw m ls e)" "activeTwigs t (youngestTwigID t) = Some tw" "length m = 4096"
    "\<forall>x \<in> set m. length x = 32" "length ls = 2048" "\<forall>i < 2048. fst (ls ! i) = None"
    "youngestTwigID t \<in> touchedTwigs t \<or> leftRoot tw = m ! 1"
    "\<forall>i < 2048. m ! (2048 + i) = leaf_hash sha t i" "mt_upto sha 0 0 11 (with_mt t tw m ls e)" by blast
  have cm: "checkMT sha m" using checkMT_iff [of "with_mt t tw m ls e" sha] m(3,9) by simp
  have "hash_inv sha E (new_twig sha (with_mt t tw m ls e) tf)" for tf
  proof -
    let ?w = "with_mt t tw m ls e" let ?t = "new_twig sha ?w tf" let ?y = "youngestTwigID t"
    have inv': "sizes_ok t" "nodes_ok t" "bits_pending sha t" "active_ok E t"
      "upper sha (pendingTwigs t) E ?y (calcMaxLevel ?y) 13 (upper_of t)" using inv by (auto simp: hash_inv_def)
    have tt: "touchedTwigs ?t = insert (Suc ?y) (touchedTwigs t)" "pendingTwigs ?t = insert (Suc ?y) (touchedTwigs t)"
      by (simp_all add: touchedTwigs_def pendingTwigs_def new_twig_def)
    have sub: "pendingTwigs t \<subseteq> pendingTwigs ?t"
      unfolding tt(2) using yt by (auto simp: pendingTwigs_def split: if_splits)
    have "upper sha (pendingTwigs ?t) E (Suc ?y) (calcMaxLevel (Suc ?y)) 13 (upper_of ?t)"
      using new_twig_upper [of sha "pendingTwigs t" E ?w "pendingTwigs ?t"] inv'(5) y sub tt(2)
      by (simp add: with_mt_upper [OF m(2)])
    moreover have "sizes_ok ?t"
      using with_mt_sizes [OF inv'(1) m(2-4)] wf_NullTwig [OF sha] NullMT_32 [OF sha]
      by (auto simp: sizes_ok_def new_twig_def CopyNullTwig_def length_NullMT)
    moreover have "nodes_ok ?t" using inv'(2) by (simp add: nodes_ok_def new_twig_def)
    moreover have "youngest_ok ?t" using NullMT_root [of sha] by (simp add: youngest_ok_def new_twig_def CopyNullTwig_def)
    moreover have "active_ok E ?t"
    proof -
      have E: "E \<le> ?y" "E \<le> 2 * (?y div 2)" using inv'(4) m(2) by (auto simp: active_ok_def)
      then have E': "E \<le> Suc ?y" "E \<le> 2 * (Suc ?y div 2)" by auto
      have a: "activeTwigs ?t T \<noteq> None \<longleftrightarrow> T = Suc ?y \<or> activeTwigs t T \<noteq> None" for T
        using with_mt_none [OF m(2), of m ls e T] by (simp add: new_twig_def del: not_None_eq)
      have old: "T \<le> ?y \<and> E \<le> T \<and> E \<le> 2 * (T div 2)" if "activeTwigs t T \<noteq> None" for T
        using inv'(4) that unfolding active_ok_def by blast
      have "T \<le> Suc ?y \<and> E \<le> T \<and> E \<le> 2 * (T div 2)" if "T = Suc ?y \<or> activeTwigs t T \<noteq> None" for T
        using that E' old [of T] by (cases "T = Suc ?y") simp_all
      moreover have "\<forall>T \<in> set (twigsToBeDeleted t). activeTwigs t T \<noteq> None \<and> T \<noteq> Suc ?y"
      proof
        fix T assume "T \<in> set (twigsToBeDeleted t)"
        then have "activeTwigs t T \<noteq> None" using inv'(4) unfolding active_ok_def by blast
        with old [of T] show "activeTwigs t T \<noteq> None \<and> T \<noteq> Suc ?y" by auto
      qed
      moreover have "finite (touchedPosOf512b ?t)" "youngestTwigID ?t = Suc ?y" "twigsToBeDeleted ?t = twigsToBeDeleted t"
        using inv'(4) by (simp_all add: active_ok_def new_twig_def)
      ultimately show ?thesis using inv'(4) unfolding active_ok_def a tt by auto
    qed
    moreover have "mt_pending sha ?t"
      using m(5,6) NullMT_cons [of ?t sha] by (simp add: mt_pending_def Let_def new_twig_def)
    moreover have "bits_pending sha ?t" by (rule new_twig_bits [OF sha with_mt_bits [OF inv'(3) m(2,7)]])
    moreover have "youngestTwigID ?t = Suc ?y" by (simp add: new_twig_def)
    ultimately show ?thesis using y by (simp add: hash_inv_def)
  qed
  with m cm show ?thesis by blast
qed

text \<open>
  What \<open>appendEntry\<close> does, for any bytes of the entry: the entry file grows by the padded record, the
  leaf of the entry becomes the hash of its bytes, and the last entry of a twig writes the twig's
  Merkle tree to the twig file.
\<close>

definition twig_on_disk :: "(bytes \<Rightarrow> bytes) \<Rightarrow> (bytes \<Rightarrow> bytes) \<Rightarrow> TwigMtFile \<Rightarrow> nat \<Rightarrow> bytes list \<Rightarrow> bool" where
  "twig_on_disk sha meow tf T m \<longleftrightarrow> (\<exists>p. twig_stored meow tf T (tl m) p) \<and> length m = 4096 \<and>
     (\<forall>x \<in> set m. length x = 32) \<and> checkMT sha m"

definition leaf_written :: "(bytes \<Rightarrow> bytes) \<Rightarrow> (bytes \<Rightarrow> bytes) \<Rightarrow> nat \<Rightarrow> bytes \<Rightarrow> Tree \<Rightarrow> Tree \<Rightarrow> bool" where
  "leaf_written sha meow n bz t t' \<longleftrightarrow>
     (if n mod 2048 = 2047
      then \<exists>m tw. twig_on_disk sha meow (twigMtFile t') (n div 2048) m \<and>
             activeTwigs t' (n div 2048) = Some tw \<and> leftRoot tw = m ! 1 \<and>
             (\<forall>i < 2048. m ! (2048 + i) = (if i = 2047 then sha bz else leaf_hash sha t i))
      else twigMtFile t' = twigMtFile t \<and>
             (\<forall>i < 2048. leaf_hash sha t' i = (if i = n mod 2048 then sha bz else leaf_hash sha t i)))"

lemma with_leaf_leaf_hash:
  assumes "sizes_ok t" and "mt_pending sha t" and "i < 2048"
  shows "leaf_hash sha (with_leaf t pos (b0, b1) ef) i = (if i = pos then sha (b0 @ b1) else leaf_hash sha t i)"
  using assms by (auto simp: leaf_hash_def with_leaf_def rd.simps mt_pending_def Let_def nth_list_update
      split: prod.split option.split)

lemma with_activation_leaf_hash [simp]: "leaf_hash sha (with_activation t sn tw b ds) i = leaf_hash sha t i"
  by (simp add: leaf_hash_def rd.simps split: prod.split option.split)

lemma Suc_twig: "n mod 2048 \<noteq> 2047 \<Longrightarrow> Suc n div 2048 = n div 2048 \<and> Suc n mod 2048 = Suc (n mod 2048)"
  by (simp add: mod_Suc div_Suc)

lemma Suc_twig_last:
  assumes "n mod 2048 = 2047"
  shows "Suc n div 2048 = Suc (n div 2048)" "Suc n mod 2048 = 0" "Suc n div 512 = 4 * Suc (n div 2048)"
proof -
  show d: "Suc n div 2048 = Suc (n div 2048)" and m: "Suc n mod 2048 = 0" using assms by (simp_all add: mod_Suc div_Suc)
  show "Suc n div 512 = 4 * Suc (n div 2048)" using div_512 [of "Suc n"] d m by simp
qed

text \<open>The two ways \<open>appendEntry\<close> goes on after it wrote the leaf.\<close>

lemma append_first:
  assumes inv: "hash_inv sha E t" and tw: "activeTwigs t (youngestTwigID t) = Some tw"
  shows "hash_inv sha E (upd_twig (youngestTwigID t) (\<lambda>tw. tw\<lparr>FirstEntryPos := p\<rparr>) t)"
proof (rule hash_inv_same [OF inv])
  let ?t = "upd_twig (youngestTwigID t) (\<lambda>tw. tw\<lparr>FirstEntryPos := p\<rparr>) t"
  show "map_option no_pos (activeTwigs ?t T) = map_option no_pos (activeTwigs t T)" for T
    using tw by (simp add: upd_twig_def no_pos_def)
  show "mt_pending sha ?t" using inv mt_pending_cong [of ?t t] by (simp add: hash_inv_def upd_twig_def split: option.split)
  show "mtree4YTChangeStart ?t = -1 \<and> mtree4YTChangeStart t = -1 \<or>
      mtree4YTChangeStart ?t \<noteq> -1 \<and> youngestTwigID t \<in> touchedTwigs t"
    using inv tw by (auto simp: upd_twig_def hash_inv_def youngest_ok_def)
qed (use tw in \<open>simp_all add: upd_twig_def\<close>)

text \<open>The entry file after the record was appended.\<close>

definition appended :: "bytes \<Rightarrow> bytes \<Rightarrow> EntryFile \<Rightarrow> EntryFile \<Rightarrow> bool" where
  "appended b0 b1 ef ef' \<longleftrightarrow> EntryFile_Append ef b0 b1 = Inr (Size ef, ef') \<and> hp_inv ef' \<and>
     Size ef' = Size ef + length (paddedRecord b0 b1) \<and> Size ef' mod 8 = 0 \<and>
     stored ef' (Size ef) (paddedRecord b0 b1) \<and> bufferSize ef' = bufferSize ef \<and> blockSize ef' = blockSize ef \<and>
     (\<forall>q d. stored ef q d \<longrightarrow> stored ef' q d)"

text \<open>The state after the leaf was written, with its invariant.\<close>

lemma append_start:
  assumes inv: "tree_inv sha E n t" and fit: "length (paddedRecord b0 b1) \<le> bufferSize (entryFile t)"
  shows "\<exists>tw b ef. activeTwigs t (n div 2048) = Some tw \<and> ActiviateEntry n t = Inr (with_activation t n tw b (deactivedSNList t)) \<and>
    appended b0 b1 (entryFile t) ef \<and>
    hash_inv sha E (with_leaf (with_activation t n tw b (deactivedSNList t)) (n mod 2048) (b0, b1) ef)"
proof -
  have h: "hash_inv sha E t" and f: "files_inv n t" using inv by (auto simp: tree_inv_def)
  then have y: "youngestTwigID t = n div 2048" by (simp add: files_inv_def)
  with h obtain tw where tw: "activeTwigs t (n div 2048) = Some tw" by (auto simp: hash_inv_def youngest_ok_def)
  from setEntryActiviation_form [OF tw, of True] obtain b where
    b: "ActiviateEntry n t = Inr (with_activation t n tw b (deactivedSNList t))" by (auto simp: ActiviateEntry_def)
  from f EntryFile_Append_raw [OF _ _ fit] obtain ef where ef: "appended b0 b1 (entryFile t) ef"
    by (auto simp: files_inv_def appended_def)
  have "mtree4YTChangeStart t \<noteq> -1 \<longrightarrow> mtree4YTChangeEnd t + 1 = int (n mod 2048)" using f by (simp add: files_inv_def)
  then have "hash_inv sha E (with_leaf (with_activation t n tw b (deactivedSNList t)) (n mod 2048) (b0, b1) ef)"
    by (intro with_leaf_hash_inv [OF with_activation_hash_inv [OF h tw]]) (simp_all add: with_activation_touched y)
  with tw b ef show ?thesis by blast
qed

lemma with_leaf_fields [simp]:
  "youngestTwigID (with_leaf t p bz ef) = youngestTwigID t" "twigMtFile (with_leaf t p bz ef) = twigMtFile t"
  "entryFile (with_leaf t p bz ef) = ef" "activeTwigs (with_leaf t p bz ef) = activeTwigs t"
  "mtree4YoungestTwig (with_leaf t p bz ef) = mtree4YoungestTwig t" "deactivedSNList (with_leaf t p bz ef) = deactivedSNList t"
  "touchedPosOf512b (with_leaf t p bz ef) = touchedPosOf512b t" "mtree4YTChangeEnd (with_leaf t p bz ef) = int p"
  "twigsToBeDeleted (with_leaf t p bz ef) = twigsToBeDeleted t"
  by (simp_all add: with_leaf_def)

lemma with_activation_new [simp]: "activeTwigs (with_activation t sn tw b ds) (sn div 2048) = Some (with_bits tw (sn mod 2048) b)"
  by (simp add: with_activation_def)

lemma FirstEntryPos_with_bits [simp]: "FirstEntryPos (with_bits tw off b) = FirstEntryPos tw"
  by (simp add: with_bits_def)

text \<open>What an operation of a block keeps: the stored records and the parameters of the files.\<close>

definition files_grow :: "Tree \<Rightarrow> Tree \<Rightarrow> bool" where
  "files_grow t t' \<longleftrightarrow> (\<forall>q d. stored (entryFile t) q d \<longrightarrow> stored (entryFile t') q d) \<and>
     (\<forall>q d. stored (twigMtFile t) q d \<longrightarrow> stored (twigMtFile t') q d) \<and>
     bufferSize (entryFile t') = bufferSize (entryFile t) \<and> bufferSize (twigMtFile t') = bufferSize (twigMtFile t) \<and>
     blockSize (entryFile t') = blockSize (entryFile t) \<and> blockSize (twigMtFile t') = blockSize (twigMtFile t)"

definition append_post :: "(bytes \<Rightarrow> bytes) \<Rightarrow> (bytes \<Rightarrow> bytes) \<Rightarrow> nat \<Rightarrow> nat \<Rightarrow> bytes \<Rightarrow> bytes \<Rightarrow> Tree \<Rightarrow> Tree \<Rightarrow> bool" where
  "append_post sha meow E n b0 b1 t t' \<longleftrightarrow> tree_inv sha E (Suc n) t' \<and> files_grow t t' \<and>
     Size (entryFile t') = Size (entryFile t) + length (paddedRecord b0 b1) \<and>
     stored (entryFile t') (Size (entryFile t)) (paddedRecord b0 b1) \<and>
     leaf_written sha meow n (b0 @ b1) t t' \<and> deactivedSNList t' = deactivedSNList t \<and>
     (\<forall>T. T < n div 2048 \<longrightarrow> activeTwigs t' T = activeTwigs t T) \<and> (pos_ok t \<longrightarrow> pos_ok t') \<and>
     twigsToBeDeleted t' = twigsToBeDeleted t \<and> (\<forall>T. activeTwigs t T \<noteq> None \<longrightarrow> activeTwigs t' T \<noteq> None)"

lemma append_middle:
  assumes inv: "tree_inv sha E n t" and fit: "length (paddedRecord b0 b1) \<le> bufferSize (entryFile t)"
    and n: "n mod 2048 \<noteq> 2047"
  shows "\<exists>t'. appendEntry sha meow (b0, b1) (int n) t = Inr (Size (entryFile t), t') \<and> append_post sha meow E n b0 b1 t t'"
proof -
  from append_start [OF inv fit] obtain tw b ef where s: "activeTwigs t (n div 2048) = Some tw"
    "ActiviateEntry n t = Inr (with_activation t n tw b (deactivedSNList t))" "appended b0 b1 (entryFile t) ef"
    "hash_inv sha E (with_leaf (with_activation t n tw b (deactivedSNList t)) (n mod 2048) (b0, b1) ef)" by blast
  have f: "files_inv n t" and h: "hash_inv sha E t" using inv by (auto simp: tree_inv_def)
  then have y: "youngestTwigID t = n div 2048" by (simp add: files_inv_def)
  let ?t1 = "with_activation t n tw b (deactivedSNList t)"
  let ?t2 = "with_leaf ?t1 (n mod 2048) (b0, b1) ef"
  define t3 where "t3 = (if n mod 2048 = 0 then upd_twig (youngestTwigID ?t2) (\<lambda>tw. tw\<lparr>FirstEntryPos := int (Size (entryFile t))\<rparr>) ?t2 else ?t2)"
  have "t\<lparr>youngestTwigID := n div 2048\<rparr> = t" unfolding y [symmetric] by simp
  then have act: "ActiviateEntry n (t\<lparr>youngestTwigID := n div 2048\<rparr>) = Inr ?t1" using s(2) by (simp only:)
  have run: "appendEntry sha meow (b0, b1) (int n) t = Inr (Size (entryFile t), t3)"
    using act s(3) n y
    by (simp add: appendEntry_def nonneg_def Let_def TwigShift_def LeafCountInTwig_def TwigMask_def appended_def with_leaf_def t3_def)
  have "activeTwigs ?t2 (youngestTwigID ?t2) = Some (with_bits tw (n mod 2048) b)" using y by simp
  from append_first [OF s(4) this] s(4) have h3: "hash_inv sha E t3" unfolding t3_def by (split if_split) blast
  have ef3: "entryFile t3 = ef" "twigMtFile t3 = twigMtFile t" "deactivedSNList t3 = deactivedSNList t" "youngestTwigID t3 = n div 2048"
    using y by (simp_all add: upd_twig_def t3_def)
  have "\<exists>tw. activeTwigs t3 (n div 2048) = Some tw \<and> 0 \<le> FirstEntryPos tw"
    using f s(1) y by (auto simp: upd_twig_def files_inv_def t3_def)
  moreover have "mtree4YTChangeEnd t3 = int (n mod 2048)" by (simp add: upd_twig_def t3_def)
  moreover have "hp_inv ef" "Size ef mod 8 = 0" using s(3) unfolding appended_def by blast+
  ultimately have "files_inv (Suc n) t3"
    using f y Suc_twig [OF n] ef3 by (simp add: files_inv_def)
  moreover have "leaf_hash sha t3 i = (if i = n mod 2048 then sha (b0 @ b1) else leaf_hash sha t i)" if "i < 2048" for i
  proof -
    have "sizes_ok ?t1" "mt_pending sha ?t1" using with_activation_hash_inv [OF h s(1)] by (auto simp: hash_inv_def)
    moreover have "leaf_hash sha t3 i = leaf_hash sha ?t2 i"
      by (simp add: t3_def upd_twig_def leaf_hash_def rd.simps split: prod.split option.split)
    ultimately show ?thesis using with_leaf_leaf_hash [of ?t1 sha i "n mod 2048" b0 b1 ef] that by simp
  qed
  moreover have "activeTwigs t3 T = activeTwigs t T" if "T < n div 2048" for T
    using that y by (simp add: t3_def upd_twig_def with_activation_def)
  moreover have "activeTwigs t3 T \<noteq> None" if "activeTwigs t T \<noteq> None" for T
    using that s(1) y by (simp add: t3_def upd_twig_def with_activation_def)
  moreover have "twigsToBeDeleted t3 = twigsToBeDeleted t" by (simp add: t3_def upd_twig_def)
  moreover have "pos_ok t3" if pos: "pos_ok t"
  proof (rule pos_ok_mono [OF pos])
    fix T tw' assume "activeTwigs t3 T = Some tw'"
    with s(1) y show "(\<exists>tw T. activeTwigs t T = Some tw \<and> FirstEntryPos tw' = FirstEntryPos tw) \<or>
      FirstEntryPos tw' = -1 \<or> FirstEntryPos tw' = int (Size (entryFile t))"
      by (auto simp: t3_def upd_twig_def with_activation_def split: if_splits)
  qed (use s(3) ef3(1) in \<open>simp add: appended_def\<close>)
  ultimately have "append_post sha meow E n b0 b1 t t3"
    using h3 s(3) n ef3 unfolding append_post_def tree_inv_def files_grow_def appended_def leaf_written_def by simp
  with run show ?thesis by blast
qed

lemma append_last:
  assumes sha: "hash32 sha" and meow: "meow4 meow" and inv: "tree_inv sha E n t" and n: "n + 2048 < 2 ^ 63"
    and fit: "length (paddedRecord b0 b1) \<le> bufferSize (entryFile t)" and last: "n mod 2048 = 2047"
  shows "\<exists>t'. appendEntry sha meow (b0, b1) (int n) t = Inr (Size (entryFile t), t') \<and> append_post sha meow E n b0 b1 t t'"
proof -
  from append_start [OF inv fit] obtain tw b ef where s: "activeTwigs t (n div 2048) = Some tw"
    "ActiviateEntry n t = Inr (with_activation t n tw b (deactivedSNList t))" "appended b0 b1 (entryFile t) ef"
    "hash_inv sha E (with_leaf (with_activation t n tw b (deactivedSNList t)) (n mod 2048) (b0, b1) ef)" by blast
  have f: "files_inv n t" and h: "hash_inv sha E t" using inv by (auto simp: tree_inv_def)
  then have y: "youngestTwigID t = n div 2048" by (simp add: files_inv_def)
  let ?t1 = "with_activation t n tw b (deactivedSNList t)"
  let ?t2 = "with_leaf ?t1 2047 (b0, b1) ef"
  let ?tw = "with_bits tw 2047 b"
  have h2: "hash_inv sha E ?t2" using s(4) last by simp
  have "(n + 2048) div 2048 < 2 ^ 52" using n by (intro less_mult_imp_div_less) simp
  then have Y: "Suc (youngestTwigID ?t2) < 2 ^ 52" using y by simp
  have "youngestTwigID ?t2 \<in> touchedTwigs ?t1" using y by (simp add: with_activation_touched)
  then have "youngestTwigID ?t2 \<in> touchedTwigs ?t2" unfolding touchedTwigs_def by simp
  from new_twig_hash_inv [OF sha h2 Y this] obtain tw2 m ls e where m: "syncMT4YoungestTwig sha ?t2 = Inr (with_mt ?t2 tw2 m ls e)"
    "length m = 4096" "\<forall>x \<in> set m. length x = 32" "activeTwigs ?t2 (youngestTwigID ?t2) = Some tw2"
    "\<forall>i < 2048. m ! (2048 + i) = leaf_hash sha ?t2 i" "checkMT sha m" "\<forall>tf. hash_inv sha E (new_twig sha (with_mt ?t2 tw2 m ls e) tf)" by blast
  have tw2: "tw2 = ?tw" using m(4) last y with_activation_new [of t n tw b] by simp
  have pos: "0 \<le> FirstEntryPos tw" using f s(1) last y by (auto simp: files_inv_def)
  have tl: "length (tl m) = TwigMtEntryCount" "\<forall>x \<in> set (tl m). length x = 32"
    using m(2,3) by (cases m; simp add: TwigMtEntryCount_def)+
  from AppendTwig_ok [OF _ _ _ meow tl pos, of "twigMtFile t" "n div 2048"] f y obtain tf where
    tf: "AppendTwig meow (twigMtFile t) (tl m) (FirstEntryPos tw) = Inr tf" "hp_inv tf" "bufferSize tf = bufferSize (twigMtFile t) \<and> blockSize tf = blockSize (twigMtFile t)"
      "Size tf = (n div 2048 + 1) * TwigMtSize" "twig_stored meow tf (n div 2048) (tl m) (FirstEntryPos tw)"
      "\<forall>q d. stored (twigMtFile t) q d \<longrightarrow> stored tf q d" by (auto simp: files_inv_def)
  let ?t3 = "new_twig sha (with_mt ?t2 tw2 m ls e) tf"
  have "t\<lparr>youngestTwigID := n div 2048\<rparr> = t" unfolding y [symmetric] by simp
  then have act: "ActiviateEntry n (t\<lparr>youngestTwigID := n div 2048\<rparr>) = Inr ?t1" using s(2) by (simp only:)
  have look: "lookupTwig (with_mt ?t2 tw2 m ls e) (n div 2048) = Inr (?tw\<lparr>leftRoot := m ! 1\<rparr>)"
    using y tw2 by (simp add: lookupTwig_def with_mt_def)
  have run: "appendEntry sha meow (b0, b1) (int n) t = Inr (Size (entryFile t), ?t3)"
    using act s(3) last y m(1) look tf(1) Suc_twig_last(3) [OF last]
    by (cases "mtree4YTChangeStart t = -1") (simp_all add: appendEntry_def nonneg_def Let_def TwigShift_def
        LeafCountInTwig_def TwigMask_def appended_def new_twig_def with_leaf_def)
  have "mt_pending sha ?t1" "sizes_ok ?t1" using with_activation_hash_inv [OF h s(1)] by (auto simp: hash_inv_def)
  then have "\<forall>i < 2048. m ! (2048 + i) = (if i = 2047 then sha (b0 @ b1) else leaf_hash sha t i)"
    using m(2,5) with_leaf_leaf_hash [of ?t1 sha _ 2047 b0 b1 ef] by simp
  moreover have "twig_on_disk sha meow (twigMtFile ?t3) (n div 2048) m"
    using tf(5) m(2,3,6) by (auto simp: twig_on_disk_def new_twig_def)
  moreover have "activeTwigs ?t3 (n div 2048) = Some (?tw\<lparr>leftRoot := m ! 1\<rparr>)"
    using y tw2 by (simp add: new_twig_def with_mt_def)
  ultimately have "leaf_written sha meow n (b0 @ b1) t ?t3"
    unfolding leaf_written_def if_P [OF last]
    by (intro exI [of _ m] exI [of _ "?tw\<lparr>leftRoot := m ! 1\<rparr>"] conjI) simp_all
  moreover have "files_inv (Suc n) ?t3"
    using f s(3) y tf(2-4) Suc_twig_last [OF last] by (auto simp: files_inv_def appended_def new_twig_def)
  moreover have "activeTwigs ?t3 T = activeTwigs t T" if "T < n div 2048" for T
    using that y by (simp add: new_twig_def with_mt_def with_activation_def)
  moreover have "activeTwigs ?t3 T \<noteq> None" if "activeTwigs t T \<noteq> None" for T
    using that y by (simp add: new_twig_def with_mt_def with_activation_def)
  moreover have "twigsToBeDeleted ?t3 = twigsToBeDeleted t" by (simp add: new_twig_def)
  moreover have "pos_ok ?t3" if pos: "pos_ok t"
  proof (rule pos_ok_mono [OF pos])
    fix T tw' assume "activeTwigs ?t3 T = Some tw'"
    with s(1) y tw2 show "(\<exists>tw T. activeTwigs t T = Some tw \<and> FirstEntryPos tw' = FirstEntryPos tw) \<or>
      FirstEntryPos tw' = -1 \<or> FirstEntryPos tw' = int (Size (entryFile t))"
      by (auto simp: new_twig_def with_mt_def with_activation_def CopyNullTwig_def NullTwig_def Let_def split: if_splits)
  qed (use s(3) in \<open>simp add: appended_def new_twig_def\<close>)
  ultimately have "append_post sha meow E n b0 b1 t ?t3"
    using m(7) s(3) tf(3,6) unfolding append_post_def tree_inv_def files_grow_def appended_def by (simp add: new_twig_def)
  with run show ?thesis by blast
qed

lemma appendEntry_ok:
  assumes "hash32 sha" and "meow4 meow" and "tree_inv sha E n t" and "n + 2048 < 2 ^ 63"
    and "length (paddedRecord b0 b1) \<le> bufferSize (entryFile t)"
  shows "\<exists>t'. appendEntry sha meow (b0, b1) (int n) t = Inr (Size (entryFile t), t') \<and> append_post sha meow E n b0 b1 t t'"
  using append_last [OF assms] append_middle [OF assms(3,5)] by (cases "n mod 2048 = 2047") auto

text \<open>Emptying the list of deactivated serial numbers changes nothing else.\<close>

lemma tree_inv_sns [simp]: "tree_inv sha E n (t\<lparr>deactivedSNList := ds\<rparr>) = tree_inv sha E n t"
proof -
  let ?t = "t\<lparr>deactivedSNList := ds\<rparr>"
  have "hash_inv sha E ?t \<longleftrightarrow> hash_inv sha E t"
  proof
    assume h: "hash_inv sha E t"
    show "hash_inv sha E ?t"
      by (rule hash_inv_same [OF h]) (use h mt_pending_cong [of ?t t] in \<open>auto simp: hash_inv_def youngest_ok_def\<close>)
  next
    assume h: "hash_inv sha E ?t"
    show "hash_inv sha E t"
      by (rule hash_inv_same [OF h]) (use h mt_pending_cong [of t ?t] in \<open>auto simp: hash_inv_def youngest_ok_def touchedTwigs_def\<close>)
  qed
  then show ?thesis by (simp add: tree_inv_def files_inv_def)
qed

lemma append_post_sns:
  assumes "append_post sha meow E n b0 b1 (t\<lparr>deactivedSNList := ds\<rparr>) t'"
  shows "leaf_written sha meow n (b0 @ b1) t t'" and "files_grow t t'"
proof -
  have "leaf_hash sha (t\<lparr>deactivedSNList := ds\<rparr>) i = leaf_hash sha t i" for i
    by (simp add: leaf_hash_def rd.simps split: prod.split option.split)
  moreover have "twigMtFile (t\<lparr>deactivedSNList := ds\<rparr>) = twigMtFile t" by simp
  ultimately have "leaf_written sha meow n (b0 @ b1) (t\<lparr>deactivedSNList := ds\<rparr>) t' = leaf_written sha meow n (b0 @ b1) t t'"
    by (simp only: leaf_written_def)
  with assms show "leaf_written sha meow n (b0 @ b1) t t'" and "files_grow t t'"
    by (simp_all add: append_post_def files_grow_def)
qed

section \<open>Deactivation, eviction and the empty tree\<close>

lemma hash_active_twig:
  assumes "tree_inv sha E n t" and "activeTwigs t (sn div 2048) = Some tw"
  shows "tree_inv sha E n (with_activation t sn tw b ds)"
proof -
  have h: "hash_inv sha E t" and f: "files_inv n t" using assms(1) by (auto simp: tree_inv_def)
  have "files_inv n (with_activation t sn tw b ds)"
  proof (cases "youngestTwigID t = sn div 2048")
    case True
    then have "activeTwigs (with_activation t sn tw b ds) (youngestTwigID t) = Some (with_bits tw (sn mod 2048) b)" by simp
    moreover have "0 < n mod 2048 \<longrightarrow> 0 \<le> FirstEntryPos tw" using f assms(2) True by (auto simp: files_inv_def)
    ultimately show ?thesis using f by (simp add: files_inv_def)
  next
    case False
    then have "activeTwigs (with_activation t sn tw b ds) (youngestTwigID t) = activeTwigs t (youngestTwigID t)"
      by (simp add: with_activation_def)
    then show ?thesis using f unfolding files_inv_def by auto
  qed
  with with_activation_hash_inv [OF h assms(2)] show ?thesis by (simp add: tree_inv_def)
qed

lemma DeactiviateEntry_ok:
  assumes "tree_inv sha E n t" and "activeTwigs t (sn div 2048) = Some tw"
  shows "\<exists>t' tw'. DeactiviateEntry (int sn) t = Inr (length (deactivedSNList t) + 1, t') \<and> tree_inv sha E n t' \<and>
    deactivedSNList t' = deactivedSNList t @ [int sn] \<and> activeTwigs t' = (activeTwigs t)(sn div 2048 \<mapsto> tw') \<and>
    clearBit (sn mod 2048) tw = Inr tw' \<and> entryFile t' = entryFile t \<and> twigMtFile t' = twigMtFile t"
proof -
  from setBit_form(2) [of "sn mod 2048" tw] obtain b where b: "clearBit (sn mod 2048) tw = Inr (with_bits tw (sn mod 2048) b)" by auto
  let ?t = "with_activation t sn tw b (deactivedSNList t @ [int sn])"
  have "DeactiviateEntry (int sn) t = Inr (length (deactivedSNList t) + 1, ?t)"
    using assms(2) b by (simp add: DeactiviateEntry_def nonneg_def setEntryActiviation_def with_activation_def
        lookupTwig_def TwigShift_def Let_def)
  moreover have "activeTwigs ?t = (activeTwigs t)(sn div 2048 \<mapsto> with_bits tw (sn mod 2048) b)" by (simp add: with_activation_def)
  ultimately show ?thesis using hash_active_twig [OF assms] b by (intro exI [of _ ?t]) simp
qed

lemma EvictTwig_ok:
  assumes inv: "tree_inv sha E n t" and T: "activeTwigs t T \<noteq> None" "T \<noteq> youngestTwigID t" "T \<notin> set (twigsToBeDeleted t)"
  shows "tree_inv sha E n (EvictTwig T t)"
proof -
  have h: "hash_inv sha E t" and f: "files_inv n t" using inv by (auto simp: tree_inv_def)
  let ?t = "EvictTwig T t"
  have up: "upper_of ?t = upper_of t"
    by (simp add: EvictTwig_def fun_eq_iff upper_of_def getTwigRoot_def split: option.split)
  have "active_ok E ?t" using h T by (auto simp: EvictTwig_def hash_inv_def active_ok_def touchedTwigs_def)
  moreover have "mt_pending sha ?t" using h mt_pending_cong [of ?t t] by (simp add: hash_inv_def EvictTwig_def)
  ultimately have "hash_inv sha E ?t"
    using h unfolding hash_inv_def up by (simp add: EvictTwig_def sizes_ok_def nodes_ok_def youngest_ok_def touchedTwigs_def
        pendingTwigs_def bits_pending_def twig_pending_def ok1_def ok2_def ok3_def rd.simps twig_field_def)
  moreover have "files_inv n ?t" using f unfolding files_inv_def EvictTwig_def by auto
  ultimately show ?thesis by (simp add: tree_inv_def)
qed

lemma NewEmptyTree_ok:
  assumes sha: "hash32 sha" and ef: "hp_inv ef" "Size ef = 0" and tf: "hp_inv tf" "Size tf = 0" "32 \<le> bufferSize tf"
  shows "tree_inv sha 0 0 (NewEmptyTree sha ef tf)"
proof -
  let ?t = "NewEmptyTree sha ef tf"
  note d = NewEmptyTree_def CopyNullTwig_def FirstLevelAboveTwig_def
  have P: "Pos 13 0 div 2 ^ 56 = 13" by (rule Pos_div) simp
  have at: "activeTwigs ?t T = Some tw \<longleftrightarrow> T = 0 \<and> tw = NullTwig sha" for T tw by (auto simp: d)
  have g12: "upper_of ?t 12 T = (if T = 0 then Some (twigRoot (NullTwig sha)) else None)" for T
  proof -
    have "nodes ?t (Pos 12 T) = None" if "T < 2 ^ 56" using Pos_div [OF that, of 12] P by (auto simp: d)
    then show ?thesis by (auto simp: upper_of_def getTwigRoot_def d)
  qed
  have g: "upper_of ?t l i \<noteq> None \<Longrightarrow> l = 13 \<and> i = 0" if "13 \<le> l" for l i
    using that Pos_inject [of i 0 l 13] by (auto simp: upper_of_def d split: if_splits)
  have no: "13 \<le> l \<Longrightarrow> upper_of ?t l i = None" if "\<not> dirty {0} l i" for l i
  proof (rule ccontr)
    assume "13 \<le> l" "upper_of ?t l i \<noteq> None"
    then show False using g [of l i] that by (simp add: dirty_def)
  qed
  have "upper sha {0} 0 0 12 13 (upper_of ?t)"
    unfolding upper_def
  proof (intro conjI allI impI)
    show "l \<le> max 12 13" "i \<le> edge 0 l" if "13 \<le> l \<and> upper_of ?t l i \<noteq> None" for l i using g [of l i] that by auto
  qed (use g12 no in \<open>auto split: if_splits\<close>)
  moreover have "calcMaxLevel 0 = 12" by (simp add: bits_Len.simps [of 0] calcMaxLevel_def LeadingZeros64_def FirstLevelAboveTwig_def)
  moreover have "mt_pending sha ?t"
    using NullMT_cons [of ?t sha] by (simp add: mt_pending_def Let_def) (simp add: d)
  moreover have "bits_pending sha ?t"
  proof (rule checkTwigs_pending)
    show "sizes_ok ?t" using wf_NullTwig [OF sha] NullMT_32 [OF sha] by (simp add: sizes_ok_def at length_NullMT) (simp add: d length_NullMT)
    show "\<forall>T tw. activeTwigs ?t T = Some tw \<longrightarrow> checkTwig sha tw" using NullTwig_check by (simp add: at)
  qed
  ultimately have "hash_inv sha 0 ?t"
    using wf_NullTwig [OF sha] NullMT_32 [OF sha] P NullMT_root [of sha]
    by (auto simp: hash_inv_def sizes_ok_def nodes_ok_def youngest_ok_def active_ok_def touchedTwigs_def pendingTwigs_def d length_NullMT)
  with ef tf show ?thesis by (simp add: tree_inv_def files_inv_def) (simp add: d)
qed

end
