(* ===== verification/TreeRun.thy ===== *)
theory TreeRun
  imports TreeOps
begin

text \<open>
  Runs of the data tree from an empty directory: blocks of appended, deactivated and evicted entries,
  each closed by \<open>EndBlock\<close>. Every reachable tree satisfies the invariant, so that the end of every
  block returns the root of a tree that passes the consistency check of check.go, and what was
  appended is read back and is hashed into the leaves.
\<close>

section \<open>Reachable trees\<close>

text \<open>The record of an entry, with the pending serial numbers, must fit into the buffer of the file.\<close>

definition entry_fits :: "Entry \<Rightarrow> Tree \<Rightarrow> bool" where
  "entry_fits e t \<longleftrightarrow> length (paddedRecord (EntryToBytes e (deactivedSNList t)) []) \<le> bufferSize (entryFile t)"

definition raw_bytes :: "bytes \<Rightarrow> Tree \<Rightarrow> bytes" where
  "raw_bytes bz t = bz[0 := word_of_nat (length (deactivedSNList t) mod 256)]"

definition raw_fits :: "bytes \<Rightarrow> Tree \<Rightarrow> bool" where
  "raw_fits bz t \<longleftrightarrow> bz \<noteq> [] \<and>
     length (paddedRecord (raw_bytes bz t) (SNListToBytes (deactivedSNList t))) \<le> bufferSize (entryFile t)"

inductive tree_run :: "(bytes \<Rightarrow> bytes) \<Rightarrow> (bytes \<Rightarrow> bytes) \<Rightarrow> nat \<Rightarrow> Tree \<Rightarrow> bool" for sha meow where
  run_empty: "hp_inv ef \<Longrightarrow> Size ef = 0 \<Longrightarrow> hp_inv tf \<Longrightarrow> Size tf = 0 \<Longrightarrow> 32 \<le> bufferSize tf \<Longrightarrow>
    tree_run sha meow 0 (NewEmptyTree sha ef tf)"
| run_append: "tree_run sha meow n t \<Longrightarrow> n + 2048 < 2 ^ 63 \<Longrightarrow> SerialNum e = int n \<Longrightarrow> entry_fits e t \<Longrightarrow>
    AppendEntry sha meow e t = Inr (pos, t') \<Longrightarrow> tree_run sha meow (Suc n) t'"
| run_append_raw: "tree_run sha meow n t \<Longrightarrow> n + 2048 < 2 ^ 63 \<Longrightarrow> raw_fits bz t \<Longrightarrow>
    AppendEntryRawBytes sha meow bz (int n) t = Inr (pos, t') \<Longrightarrow> tree_run sha meow (Suc n) t'"
| run_deactivate: "tree_run sha meow n t \<Longrightarrow> DeactiviateEntry sn t = Inr (k, t') \<Longrightarrow> tree_run sha meow n t'"
| run_evict: "tree_run sha meow n t \<Longrightarrow> activeTwigs t T \<noteq> None \<Longrightarrow> T \<noteq> youngestTwigID t \<Longrightarrow>
    T \<notin> set (twigsToBeDeleted t) \<Longrightarrow> tree_run sha meow n (EvictTwig T t)"
| run_EndBlock: "tree_run sha meow n t \<Longrightarrow> 0 < youngestTwigID t \<Longrightarrow> EndBlock sha t = Inr (root, t') \<Longrightarrow>
    tree_run sha meow n t'"

lemma AppendEntry_ok:
  assumes "hash32 sha" and "meow4 meow" and "tree_inv sha E n t" and "n + 2048 < 2 ^ 63" and "SerialNum e = int n"
    and "entry_fits e t"
  shows "\<exists>t'. AppendEntry sha meow e t = Inr (Size (entryFile t), t') \<and>
    append_post sha meow E n (EntryToBytes e (deactivedSNList t)) [] (t\<lparr>deactivedSNList := []\<rparr>) t'"
  using appendEntry_ok [of sha meow E n "t\<lparr>deactivedSNList := []\<rparr>" "EntryToBytes e (deactivedSNList t)" "[]"] assms
  by (simp add: AppendEntry_def entry_fits_def)

lemma AppendEntryRawBytes_ok:
  assumes "hash32 sha" and "meow4 meow" and "tree_inv sha E n t" and "n + 2048 < 2 ^ 63" and "raw_fits bz t"
  shows "\<exists>t'. AppendEntryRawBytes sha meow bz (int n) t = Inr (Size (entryFile t), t') \<and>
    append_post sha meow E n (raw_bytes bz t) (SNListToBytes (deactivedSNList t)) (t\<lparr>deactivedSNList := []\<rparr>) t'"
  using appendEntry_ok [of sha meow E n "t\<lparr>deactivedSNList := []\<rparr>" "raw_bytes bz t" "SNListToBytes (deactivedSNList t)"] assms
  by (simp add: AppendEntryRawBytes_def raw_fits_def raw_bytes_def)

lemma DeactiviateEntry_Inr:
  assumes "DeactiviateEntry sn t = Inr (k, t')"
  shows "\<exists>m tw. sn = int m \<and> activeTwigs t (m div 2048) = Some tw"
  using assms
  by (auto simp: DeactiviateEntry_def setEntryActiviation_def lookupTwig_def nonneg_def TwigShift_def Let_def
      split: if_splits option.splits intro: exI [of _ "nat sn"])

lemma tree_run_inv:
  assumes "hash32 sha" and "meow4 meow"
  shows "tree_run sha meow n t \<Longrightarrow> tree_inv sha 0 n t"
proof (induction rule: tree_run.induct)
  case (run_append n t e pos t')
  from AppendEntry_ok [OF assms run_append.IH run_append(2-4)] run_append(5) show ?case by (auto simp: append_post_def)
next
  case (run_append_raw n t bz pos t')
  from AppendEntryRawBytes_ok [OF assms run_append_raw.IH run_append_raw(2,3)] run_append_raw(4) show ?case
    by (auto simp: append_post_def)
next
  case (run_deactivate n t sn k t')
  from DeactiviateEntry_Inr [OF run_deactivate(2)] obtain m tw where m: "sn = int m" "activeTwigs t (m div 2048) = Some tw" by blast
  from DeactiviateEntry_ok [OF run_deactivate.IH m(2)] m(1) run_deactivate(2) show ?case by auto
next
  case (run_EndBlock n t root t')
  from EndBlock_ok [OF assms(1) run_EndBlock.IH run_EndBlock(2)] run_EndBlock(3) show ?case by auto
qed (auto intro: NewEmptyTree_ok [OF assms(1)] EvictTwig_ok)

lemma pos_ok_sns [simp]: "pos_ok (t\<lparr>deactivedSNList := ds\<rparr>) = pos_ok t"
  by (simp add: pos_ok_def)

lemma DeactiviateEntry_pos:
  assumes "pos_ok t" and "DeactiviateEntry sn t = Inr (k, t')"
  shows "pos_ok t'"
proof -
  from DeactiviateEntry_Inr [OF assms(2)] obtain m tw where m: "sn = int m" "activeTwigs t (m div 2048) = Some tw" by blast
  from setEntryActiviation_form [OF m(2), of False] obtain b ds where
    b: "setEntryActiviation m False t = Inr (with_activation t m tw b ds)" by auto
  then have t': "t' = with_activation t m tw b ds" using assms(2) m(1) by (simp add: DeactiviateEntry_def nonneg_def)
  show ?thesis
  proof (rule pos_ok_mono [OF assms(1)])
    fix T tw' assume "activeTwigs t' T = Some tw'"
    with m(2) t' show "(\<exists>tw T. activeTwigs t T = Some tw \<and> FirstEntryPos tw' = FirstEntryPos tw) \<or>
      FirstEntryPos tw' = -1 \<or> FirstEntryPos tw' = int (Size (entryFile t))"
      by (auto simp: with_activation_def split: if_splits)
  qed (simp add: t')
qed

text \<open>On every run the positions of the first entries lie in the entry file.\<close>

lemma tree_run_pos:
  assumes "hash32 sha" and "meow4 meow"
  shows "tree_run sha meow n t \<Longrightarrow> pos_ok t"
proof (induction rule: tree_run.induct)
  case (run_empty ef tf)
  show ?case by (simp add: pos_ok_def NewEmptyTree_def CopyNullTwig_def NullTwig_def Let_def)
next
  case (run_append n t e pos t')
  from AppendEntry_ok [OF assms tree_run_inv [OF assms run_append(1)] run_append(2-4)] run_append(5) run_append.IH
  show ?case by (auto simp: append_post_def)
next
  case (run_append_raw n t bz pos t')
  from AppendEntryRawBytes_ok [OF assms tree_run_inv [OF assms run_append_raw(1)] run_append_raw(2,3)] run_append_raw(4)
    run_append_raw.IH show ?case by (auto simp: append_post_def)
next
  case (run_deactivate n t sn k t')
  then show ?case by (blast intro: DeactiviateEntry_pos)
next
  case (run_evict n t T)
  then show ?case by (simp add: EvictTwig_def pos_ok_def)
next
  case (run_EndBlock n t root t')
  from EndBlock_ok [OF assms(1) tree_run_inv [OF assms run_EndBlock(1)] run_EndBlock(2)] run_EndBlock(3) run_EndBlock.IH
  show ?case by auto
qed

text \<open>A run of appended entries exists: the empty directory and \<open>n\<close> dummy entries, as in \<open>NewOnvaKV\<close>.\<close>

definition zero_sha :: "bytes \<Rightarrow> bytes" where
  "zero_sha b = replicate 32 0"

definition zero_meow :: "bytes \<Rightarrow> bytes" where
  "zero_meow b = replicate 4 0"

lemma zero_hashes [simp]: "hash32 zero_sha" "meow4 zero_meow"
  by (simp_all add: hash32_def zero_sha_def meow4_def zero_meow_def)

lemma length_DummyEntry: "length (EntryToBytes (DummyEntry sn) []) = 59"
proof -
  have strings: "entryStrings (DummyEntry sn) = entryStrings (DummyEntry 0)"
    by (simp add: entryStrings_def DummyEntry_def)
  then have "magicPosList (DummyEntry sn) = magicPosList (DummyEntry 0)" by (simp add: magicPosList_def)
  moreover have "magicPosList (DummyEntry 0) = []" "length (entryStrings (DummyEntry 0)) = 27" by code_simp+
  ultimately show ?thesis by (simp add: length_EntryToBytes strings)
qed

lemma DummyEntry_fits:
  assumes "deactivedSNList t = []" and "bufferSize (entryFile t) = 128"
  shows "entry_fits (DummyEntry sn) t"
  using assms by (simp add: entry_fits_def paddedRecord_def getPaddingSize_def length_DummyEntry)

definition emptyTree :: Tree where
  "emptyTree = NewEmptyTree zero_sha emptyEntryFile emptyEntryFile"

definition conf128 :: "nat \<Rightarrow> Tree \<Rightarrow> bool" where
  "conf128 n t \<longleftrightarrow> deactivedSNList t = [] \<and> bufferSize (entryFile t) = 128 \<and> bufferSize (twigMtFile t) = 128 \<and>
     blockSize (entryFile t) = 128 \<and> blockSize (twigMtFile t) = 128 \<and> Size (entryFile t) \<le> 128 * n"

lemma dummy_run:
  "n \<le> 4096 \<Longrightarrow> \<exists>t. tree_run zero_sha zero_meow n t \<and> conf128 n t"
proof (induction n)
  case 0
  have "tree_run zero_sha zero_meow 0 emptyTree"
    unfolding emptyTree_def by (rule run_empty) (simp_all add: emptyEntryFile_ok)
  moreover have "blockSize emptyEntryFile = 128" by (simp add: emptyEntryFile_def InitPreReader_def)
  ultimately show ?case by (intro exI [of _ emptyTree]) (simp add: emptyTree_def NewEmptyTree_def emptyEntryFile_ok conf128_def)
next
  case (Suc n)
  then obtain t where t: "tree_run zero_sha zero_meow n t" "conf128 n t" by auto
  then have c: "deactivedSNList t = []" "bufferSize (entryFile t) = 128" by (simp_all add: conf128_def)
  have inv: "tree_inv zero_sha 0 n t" by (rule tree_run_inv [OF _ _ t(1)]) simp_all
  have n: "n + 2048 < 2 ^ 63" using Suc.prems by simp
  have sn: "SerialNum (DummyEntry (int n)) = int n" by (simp add: DummyEntry_def)
  have fit: "entry_fits (DummyEntry (int n)) t" by (rule DummyEntry_fits [OF c])
  from AppendEntry_ok [OF zero_hashes inv n sn fit] obtain t' where t':
    "AppendEntry zero_sha zero_meow (DummyEntry (int n)) t = Inr (Size (entryFile t), t')"
    "append_post zero_sha zero_meow 0 n (EntryToBytes (DummyEntry (int n)) (deactivedSNList t)) [] (t\<lparr>deactivedSNList := []\<rparr>) t'" by blast
  have "conf128 (Suc n) t'"
    using t'(2) t(2) fit by (simp add: append_post_def files_grow_def conf128_def entry_fits_def)
  with run_append [OF t(1) n sn fit t'(1)] show ?case by blast
qed

lemma dummy_twig_conf: "\<exists>t. tree_run zero_sha zero_meow 2048 t \<and> youngestTwigID t = 1 \<and> conf128 2048 t"
proof -
  from dummy_run [of 2048] obtain t where t: "tree_run zero_sha zero_meow 2048 t" "conf128 2048 t" by auto
  then have "tree_inv zero_sha 0 2048 t" by (intro tree_run_inv [of zero_sha zero_meow]) simp_all
  then have "youngestTwigID t = 1" by (simp add: tree_inv_def files_inv_def)
  with t show ?thesis by blast
qed

lemma dummy_twig: "\<exists>t. tree_run zero_sha zero_meow 2048 t \<and> youngestTwigID t = 1 \<and> deactivedSNList t = [] \<and>
    bufferSize (entryFile t) = 128"
  using dummy_twig_conf unfolding conf128_def by blast

section \<open>The properties of the data tree\<close>

text \<open>
  C16: on every reachable tree that has left its first twig, \<open>EndBlock\<close> returns: the root hash is the
  top node, both file buffers are flushed, and the tree passes \<open>CheckHashConsistency\<close>: all active
  twigs, all upper nodes and the Merkle tree of the youngest twig have the hashes of their children.
\<close>

theorem EndBlock_consistent:
  assumes "hash32 sha" and "meow4 meow" and "tree_run sha meow n t" and "0 < youngestTwigID t"
  shows "\<exists>root t'. EndBlock sha t = Inr (root, t') \<and> CheckHashConsistency sha t' \<and> tree_run sha meow n t' \<and>
    nodes t' (Pos (calcMaxLevel (youngestTwigID t)) 0) = Some root \<and> buffer (entryFile t') = [] \<and> buffer (twigMtFile t') = []"
proof -
  from EndBlock_ok [OF assms(1) tree_run_inv [OF assms(1-3)] assms(4)] obtain root t' where t':
    "EndBlock sha t = Inr (root, t')" "synced sha 0 t'" "nodes t' (Pos (calcMaxLevel (youngestTwigID t)) 0) = Some root"
    "buffer (entryFile t') = []" "buffer (twigMtFile t') = []" by blast
  with synced_consistent run_EndBlock [OF assms(3,4) t'(1)] show ?thesis by blast
qed

theorem EndBlock_consistent_witness:
  "\<exists>t root t'. tree_run zero_sha zero_meow 2048 t \<and> EndBlock zero_sha t = Inr (root, t') \<and> CheckHashConsistency zero_sha t'"
proof -
  from dummy_twig obtain t where t: "tree_run zero_sha zero_meow 2048 t" "youngestTwigID t = 1" by blast
  with EndBlock_consistent [of zero_sha zero_meow 2048 t] show ?thesis by auto
qed

text \<open>
  On a tree that is still in its first twig, \<open>EndBlock\<close> dereferences a nil hash: \<open>calcMaxLevel(0)\<close>
  is the level of the twigs, where no node is stored.
\<close>

theorem EndBlock_empty_tree_panics: "EndBlock sha (NewEmptyTree sha ef tf) = Inl NilDeref"
proof -
  have "calcMaxLevel 0 = 12" by (simp add: bits_Len.simps [of 0] calcMaxLevel_def LeadingZeros64_def)
  moreover have "Pos 12 0 \<noteq> Pos 13 0" by simp
  ultimately show ?thesis
    by (simp add: EndBlock_def syncMT_def syncMT4YoungestTwig_def syncMT4ActiveBits_def syncUpperNodes_def
        NewEmptyTree_def halve_def Run_def)
qed

lemma flush_stored: "hp_inv h \<Longrightarrow> flush h = Inr h' \<Longrightarrow> stored h' = stored h"
  using flush_ok [of h] by (auto simp: hp_inv_def stored_def fun_eq_iff)

lemma stored_entry:
  assumes "stored h p (paddedRecord (EntryToBytes e sns) [])"
  shows "stored h p (MagicBytes @ rawEntry e sns)"
  using assms by (intro stored_appendD [of _ _ "MagicBytes @ rawEntry e sns"])
    (simp add: paddedRecord_def EntryToBytes_body rawEntry_body)

text \<open>An appended entry and the end of its block, on a tree with the invariant.\<close>

lemma append_block:
  assumes sha: "hash32 sha" and meow: "meow4 meow" and inv: "tree_inv sha E n t" and n: "n + 2048 < 2 ^ 63"
    and sn: "SerialNum e = int n" and fit: "entry_fits e t" and y: "0 < youngestTwigID t"
  shows "\<exists>t1 root t2. AppendEntry sha meow e t = Inr (Size (entryFile t), t1) \<and> EndBlock sha t1 = Inr (root, t2) \<and>
    buffer (entryFile t2) = [] \<and> buffer (twigMtFile t2) = [] \<and>
    stored (entryFile t2) (Size (entryFile t)) (paddedRecord (EntryToBytes e (deactivedSNList t)) []) \<and>
    stored (twigMtFile t2) = stored (twigMtFile t1) \<and> leaf_written sha meow n (EntryToBytes e (deactivedSNList t)) t t1 \<and>
    (\<forall>i < 2048. mtree4YoungestTwig t2 ! (2048 + i) = leaf_hash sha t1 i)"
proof -
  from AppendEntry_ok [OF sha meow inv n sn fit] obtain t1 where t1: "AppendEntry sha meow e t = Inr (Size (entryFile t), t1)"
    "append_post sha meow E n (EntryToBytes e (deactivedSNList t)) [] (t\<lparr>deactivedSNList := []\<rparr>) t1" by blast
  then have inv1: "tree_inv sha E (Suc n) t1" and st: "stored (entryFile t1) (Size (entryFile t)) (paddedRecord (EntryToBytes e (deactivedSNList t)) [])"
    by (simp_all add: append_post_def)
  have "n div 2048 \<le> Suc n div 2048" by (rule div_le_mono) simp
  then have "0 < youngestTwigID t1" using inv inv1 y by (simp add: tree_inv_def files_inv_def)
  from EndBlock_ok [OF sha inv1 this] obtain root t2 where t2: "EndBlock sha t1 = Inr (root, t2)"
    "flush (entryFile t1) = Inr (entryFile t2)" "flush (twigMtFile t1) = Inr (twigMtFile t2)"
    "buffer (entryFile t2) = []" "buffer (twigMtFile t2) = []"
    "\<forall>i < 2048. mtree4YoungestTwig t2 ! (2048 + i) = leaf_hash sha t1 i" by blast
  moreover have "stored (entryFile t2) = stored (entryFile t1)" "stored (twigMtFile t2) = stored (twigMtFile t1)"
    using inv1 t2(2,3) by (auto simp: tree_inv_def files_inv_def intro: flush_stored)
  ultimately show ?thesis using t1 st append_post_sns(1) [OF t1(2)] by (intro exI [of _ t1] exI [of _ root] exI [of _ t2]) simp
qed

text \<open>
  C17: an entry appended with the next serial number is stored at the old end of the entry file, and
  once the block has ended \<open>ReadEntry\<close> at the returned position gives it back (a nil value as the
  empty one).
\<close>

theorem AppendEntry_ReadEntry:
  assumes "hash32 sha" and "meow4 meow" and "tree_run sha meow n t" and "n + 2048 < 2 ^ 63"
    and "SerialNum e = int n" and "entry_fits e t" and "wf_entry e (deactivedSNList t)" and "0 < youngestTwigID t"
  shows "\<exists>pos t1 root t2. AppendEntry sha meow e t = Inr (pos, t1) \<and> EndBlock sha t1 = Inr (root, t2) \<and>
    Tree_ReadEntry t2 pos = Inr (e\<lparr>Value := Some (slice_bytes (Value e))\<rparr>)"
proof -
  from append_block [OF assms(1,2) tree_run_inv [OF assms(1-3)] assms(4-6,8)] obtain t1 root t2 where t:
    "AppendEntry sha meow e t = Inr (Size (entryFile t), t1)" "EndBlock sha t1 = Inr (root, t2)" "buffer (entryFile t2) = []"
    "stored (entryFile t2) (Size (entryFile t)) (paddedRecord (EntryToBytes e (deactivedSNList t)) [])" by blast
  from ReadEntry_ok [OF assms(7) t(3) stored_entry [OF t(4)]] have
    "Tree_ReadEntry t2 (Size (entryFile t)) = Inr (e\<lparr>Value := Some (slice_bytes (Value e))\<rparr>)"
    by (auto simp: Tree_ReadEntry_def)
  with t(1,2) show ?thesis by blast
qed

lemma wf_DummyEntry: "wf_entry (DummyEntry 2048) []"
  using length_DummyEntry [of 2048] by (simp add: wf_entry_def DummyEntry_def in_int64_def MaxEntryBytes_def)

theorem AppendEntry_ReadEntry_witness:
  "\<exists>t pos t1 root t2. tree_run zero_sha zero_meow 2048 t \<and> AppendEntry zero_sha zero_meow (DummyEntry 2048) t = Inr (pos, t1) \<and>
    EndBlock zero_sha t1 = Inr (root, t2) \<and> Tree_ReadEntry t2 pos = Inr (DummyEntry 2048)"
proof -
  from dummy_twig obtain t where t: "tree_run zero_sha zero_meow 2048 t" "youngestTwigID t = 1" "deactivedSNList t = []"
    "bufferSize (entryFile t) = 128" by blast
  have v: "(DummyEntry 2048)\<lparr>Value := Some (slice_bytes (Value (DummyEntry 2048)))\<rparr> = DummyEntry 2048"
    by (simp add: DummyEntry_def slice_bytes_def)
  from AppendEntry_ReadEntry [OF zero_hashes t(1), of "DummyEntry 2048"] DummyEntry_fits [OF t(3,4)] wf_DummyEntry t v
  show ?thesis by (auto simp: DummyEntry_def)
qed

text \<open>
  C18: after the block, the Merkle leaf of an appended entry is the hash of its serialized bytes: in the
  youngest twig's tree, or, for the last entry of a twig, in the tree that the twig file keeps.
\<close>

theorem AppendEntry_leaf:
  assumes "hash32 sha" and "meow4 meow" and "tree_run sha meow n t" and "n + 2048 < 2 ^ 63"
    and "SerialNum e = int n" and "entry_fits e t" and "0 < youngestTwigID t"
  shows "\<exists>pos t1 root t2. AppendEntry sha meow e t = Inr (pos, t1) \<and> EndBlock sha t1 = Inr (root, t2) \<and>
    (if n mod 2048 = 2047 then GetHashNode (twigMtFile t2) (n div 2048) 4095 = Inr (sha (EntryToBytes e (deactivedSNList t)))
     else mtree4YoungestTwig t2 ! (2048 + n mod 2048) = sha (EntryToBytes e (deactivedSNList t)))"
proof -
  from append_block [OF assms(1,2) tree_run_inv [OF assms(1-3)] assms(4-7)] obtain t1 root t2 where t:
    "AppendEntry sha meow e t = Inr (Size (entryFile t), t1)" "EndBlock sha t1 = Inr (root, t2)" "buffer (twigMtFile t2) = []"
    "stored (twigMtFile t2) = stored (twigMtFile t1)" "leaf_written sha meow n (EntryToBytes e (deactivedSNList t)) t t1"
    "\<forall>i < 2048. mtree4YoungestTwig t2 ! (2048 + i) = leaf_hash sha t1 i" by blast
  show ?thesis
  proof (cases "n mod 2048 = 2047")
    case True
    with t(5) obtain m p where m: "twig_stored meow (twigMtFile t1) (n div 2048) (tl m) p" "length m = 4096"
      "\<forall>x \<in> set m. length x = 32" "\<forall>i < 2048. m ! (2048 + i) = (if i = 2047 then sha (EntryToBytes e (deactivedSNList t)) else leaf_hash sha t i)"
      unfolding leaf_written_def twig_on_disk_def by auto
    have tl: "length (tl m) = TwigMtEntryCount" "\<forall>x \<in> set (tl m). length x = 32"
      using m(2,3) by (cases m; simp add: TwigMtEntryCount_def)+
    from m(1) have "twig_stored meow (twigMtFile t2) (n div 2048) (tl m) p" by (simp add: twig_stored_def t(4))
    from twig_stored_node [OF this t(3) tl, of 4095] m(2) m(4) [rule_format, of 2047] True t(1,2) show ?thesis by (simp add: nth_tl)
  next
    case False
    with t(1,2,5) t(6) [rule_format, of "n mod 2048"] show ?thesis by (simp add: leaf_written_def)
  qed
qed

theorem AppendEntry_leaf_witness:
  "\<exists>t pos t1 root t2. tree_run zero_sha zero_meow 2048 t \<and> AppendEntry zero_sha zero_meow (DummyEntry 2048) t = Inr (pos, t1) \<and>
    EndBlock zero_sha t1 = Inr (root, t2) \<and> mtree4YoungestTwig t2 ! 2048 = zero_sha (EntryToBytes (DummyEntry 2048) [])"
proof -
  from dummy_twig obtain t where t: "tree_run zero_sha zero_meow 2048 t" "youngestTwigID t = 1" "deactivedSNList t = []"
    "bufferSize (entryFile t) = 128" by blast
  have "SerialNum (DummyEntry 2048) = int 2048" by (simp add: DummyEntry_def)
  from AppendEntry_leaf [OF zero_hashes t(1) _ this DummyEntry_fits [OF t(3,4)]] t show ?thesis by auto
qed

text \<open>
  On every reachable tree, \<open>DeactiviateEntry\<close> of an entry in an active twig succeeds: it returns the
  number of pending serial numbers with this one, which is added to the list, clears the entry's active
  bit, leaves every other bit as it was, and its result is reachable, so that the next \<open>EndBlock\<close> is
  consistent again.
\<close>

theorem DeactiviateEntry_clears:
  assumes "hash32 sha" and "meow4 meow" and "tree_run sha meow n t" and "activeTwigs t (sn div 2048) \<noteq> None"
  shows "\<exists>t'. DeactiviateEntry (int sn) t = Inr (length (deactivedSNList t) + 1, t') \<and> tree_run sha meow n t' \<and>
    deactivedSNList t' = deactivedSNList t @ [int sn] \<and> GetActiveBit t' (int sn) = Inr False \<and>
    (\<forall>m. m \<noteq> sn \<longrightarrow> GetActiveBit t' (int m) = GetActiveBit t (int m))"
proof -
  have inv: "tree_inv sha 0 n t" by (rule tree_run_inv [OF assms(1-3)])
  from assms(4) obtain tw where tw: "activeTwigs t (sn div 2048) = Some tw" by blast
  from DeactiviateEntry_ok [OF inv tw] obtain t' tw' where t': "DeactiviateEntry (int sn) t = Inr (length (deactivedSNList t) + 1, t')"
    "deactivedSNList t' = deactivedSNList t @ [int sn]" "activeTwigs t' = (activeTwigs t)(sn div 2048 \<mapsto> tw')"
    "clearBit (sn mod 2048) tw = Inr tw'" by blast
  have "wf_twig tw" using inv tw by (auto simp: tree_inv_def hash_inv_def sizes_ok_def)
  with clearBit_ok [of tw "sn mod 2048"] t'(4) have bits: "\<forall>k < 2048. is_active tw' k \<longleftrightarrow> k \<noteq> sn mod 2048 \<and> is_active tw k" by auto
  have "GetActiveBit t' (int m) = (if m = sn then Inr False else GetActiveBit t (int m))" for m
  proof (cases "m div 2048 = sn div 2048")
    case True
    then have "m mod 2048 = sn mod 2048 \<longleftrightarrow> m = sn" by (metis div_mult_mod_eq)
    with True tw t'(3) bits show ?thesis
      by (simp add: GetActiveBit_def nonneg_def lookupTwig_def TwigShift_def getBit_ok)
  next
    case False
    then show ?thesis using t'(3) by (auto simp: GetActiveBit_def nonneg_def lookupTwig_def TwigShift_def)
  qed
  with t' run_deactivate [OF assms(3) t'(1)] show ?thesis by auto
qed

theorem DeactiviateEntry_clears_witness:
  "\<exists>t'. DeactiviateEntry 5 emptyTree = Inr (1, t') \<and> GetActiveBit t' 5 = Inr False \<and> deactivedSNList t' = [5]"
proof -
  have "tree_run zero_sha zero_meow 0 emptyTree"
    unfolding emptyTree_def by (rule run_empty) (simp_all add: emptyEntryFile_ok)
  from DeactiviateEntry_clears [OF zero_hashes this, of 5] show ?thesis by (auto simp: emptyTree_def NewEmptyTree_def)
qed

section \<open>The parallel hasher\<close>

text \<open>
  C32: a batch of hash jobs in which no job writes an operand or the target of another leaves the same
  memory however the goroutines of \<open>ParrallelRun\<close> interleave: every cell of the tree reads as after the
  sequential run of the batch.
\<close>

theorem ParrallelRun_deterministic:
  assumes "hash32 sha" and "independent jobs" and "\<forall>j \<in> set jobs. tree_valid s (job_target j)"
    and "ParrallelRun sha rd wr jobs s t"
  shows "rd t c = rd (Run sha rd wr jobs s) c"
proof -
  have ok: "tc.jobs_ok s jobs" using assms(2,3) by (simp add: tc.jobs_ok_def)
  from tc.ParrallelRun_batch [OF assms(1) ok assms(4)] tc.Run_batch [OF assms(1) ok] show ?thesis
    by (cases "c \<in> job_target ` set jobs") (auto simp: tc.batch_def)
qed

lemma interleaved_run:
  "ParrallelRun zero_sha rd wr [syncL1 0 0, syncL1 0 1] emptyTree
    (wr (CL1 0 0) (zero_sha []) (wr (CL1 0 1) (zero_sha []) emptyTree))"
proof -
  let ?s = "par_step zero_sha rd wr" and ?v = "zero_sha []" and ?a = "syncL1 0 0" and ?b = "syncL1 0 1"
  have v: "job_value zero_sha rd s j = ?v" for s j by (simp add: job_value_def hash2_def zero_sha_def)
  have t: "job_target ?a = CL1 0 0" "job_target ?b = CL1 0 1" by (simp_all add: syncL1_def tree_job_def)
  have "?s ([?a, ?b], [], emptyTree) ([?b], [(?a, None)], emptyTree)" by (rule job_taken)
  moreover have "?s ([?b], [(?a, None)], emptyTree) ([], [(?b, None), (?a, None)], emptyTree)" by (rule job_taken)
  moreover have "?s ([], [(?b, None), (?a, None)], emptyTree) ([], [(?b, None), (?a, Some ?v)], emptyTree)"
    using job_computed [of zero_sha rd wr "[]" "[(?b, None)]" ?a "[]" emptyTree] by (simp add: v)
  moreover have "?s ([], [(?b, None), (?a, Some ?v)], emptyTree) ([], [(?b, Some ?v), (?a, Some ?v)], emptyTree)"
    using job_computed [of zero_sha rd wr "[]" "[]" ?b "[(?a, Some ?v)]" emptyTree] by (simp add: v)
  moreover have "?s ([], [(?b, Some ?v), (?a, Some ?v)], emptyTree) ([], [(?a, Some ?v)], wr (CL1 0 1) ?v emptyTree)"
    using job_written [of zero_sha rd wr "[]" "[]" ?b ?v "[(?a, Some ?v)]" emptyTree] by (simp only: t append_Nil)
  moreover have "?s ([], [(?a, Some ?v)], wr (CL1 0 1) ?v emptyTree) ([], [], wr (CL1 0 0) ?v (wr (CL1 0 1) ?v emptyTree))"
    using job_written [of zero_sha rd wr "[]" "[]" ?a ?v "[]" "wr (CL1 0 1) ?v emptyTree"] by (simp only: t append_Nil)
  ultimately show ?thesis unfolding ParrallelRun_def by (meson converse_rtranclp_into_rtranclp rtranclp.rtrancl_refl)
qed

theorem ParrallelRun_deterministic_witness:
  "rd (wr (CL1 0 0) (zero_sha []) (wr (CL1 0 1) (zero_sha []) emptyTree)) (CL1 0 0) =
   rd (Run zero_sha rd wr [syncL1 0 0, syncL1 0 1] emptyTree) (CL1 0 0)"
proof (rule ParrallelRun_deterministic [OF zero_hashes(1) _ _ interleaved_run])
  show "independent [syncL1 0 0, syncL1 0 1]"
    by (simp add: independent_def syncL1_def tree_job_def)
  show "\<forall>j \<in> set [syncL1 0 0, syncL1 0 1]. tree_valid emptyTree (job_target j)"
    using wf_NullTwig [of zero_sha] by (simp add: syncL1_def tree_job_def emptyTree_def NewEmptyTree_def CopyNullTwig_def wf_twig_def)
qed

end
