(* ===== verification/MerkleProof.thy ===== *)
theory MerkleProof
  imports TreeRun
begin

unbundle bit_operations_syntax

text \<open>
  The Merkle proofs of datatree/proof.go: the path of an entry through the left tree of its twig, of
  its active bit through the right tree, and of the twig through the upper levels; its serialized
  form; the check of a path; and how the tree builds one. A path that the tree builds passes the
  check, a path that passes survives serialization, and a path that passes binds the leaf.
\<close>

section \<open>Paths\<close>

record ProofNode =
  SelfHash :: bytes
  PeerHash :: bytes
  PeerAtLeft :: bool

record ProofPath =
  LeftOfTwig :: "ProofNode list"
  RightOfTwig :: "ProofNode list"
  UpperPath :: "ProofNode list"
  PathSerialNum :: int
  Root :: bytes

definition OtherNodeCount :: nat where
  "OtherNodeCount = 1 + 11 + 1 + 3 + 1"

definition ToBytes :: "ProofPath \<Rightarrow> bytes" where
  "ToBytes pp = put_le 8 (uint64 (PathSerialNum pp)) @ SelfHash (LeftOfTwig pp ! 0) @
     concat (map PeerHash (LeftOfTwig pp)) @ SelfHash (RightOfTwig pp ! 0) @
     concat (map PeerHash (RightOfTwig pp)) @ concat (map PeerHash (UpperPath pp)) @ Root pp"

text \<open>The \<open>k\<close>-th hash behind the serial number; the hashes that are not stored are zero.\<close>

definition hash_at :: "bytes \<Rightarrow> nat \<Rightarrow> bytes" where
  "hash_at bz k = subslice bz (8 + 32 * k) (8 + 32 * k + 32)"

definition BytesToProofPath :: "bytes \<Rightarrow> string + ProofPath" where
  "BytesToProofPath bz =
     (let n = int (length bz) - 8; upperCount = (length bz - 8) div 32 - OtherNodeCount
      in if n mod 32 \<noteq> 0 \<or> n < 32 * int OtherNodeCount then Inl ''Invalid byte slice length''
         else
           (let sn = int64 (get_le (take 8 bz))
            in Inr \<lparr>LeftOfTwig = map (\<lambda>i. \<lparr>SelfHash = (if i = 0 then hash_at bz 0 else zeroHash),
                      PeerHash = hash_at bz (1 + i), PeerAtLeft = bit sn i\<rparr>) [0 ..< 11],
                    RightOfTwig = map (\<lambda>i. \<lparr>SelfHash = (if i = 0 then hash_at bz 12 else zeroHash),
                      PeerHash = hash_at bz (13 + i), PeerAtLeft = bit sn (8 + i)\<rparr>) [0 ..< 3],
                    UpperPath = map (\<lambda>i. \<lparr>SelfHash = zeroHash, PeerHash = hash_at bz (16 + i),
                      PeerAtLeft = bit sn (FirstLevelAboveTwig - 2 + i)\<rparr>) [0 ..< upperCount],
                    PathSerialNum = sn, Root = hash_at bz (16 + upperCount)\<rparr>))"

section \<open>The check\<close>

definition node_hash :: "(bytes \<Rightarrow> bytes) \<Rightarrow> nat \<Rightarrow> ProofNode \<Rightarrow> bytes" where
  "node_hash sha level nd =
     (if PeerAtLeft nd then hash2 sha (word_of_nat level) (PeerHash nd) (SelfHash nd)
      else hash2 sha (word_of_nat level) (SelfHash nd) (PeerHash nd))"

text \<open>
  The loop over a path from level \<open>l\<close>: the hash of a node is stored in the next one when the path is
  to be completed, and compared with it otherwise.
\<close>

fun check_nodes :: "(bytes \<Rightarrow> bytes) \<Rightarrow> bool \<Rightarrow> string \<Rightarrow> nat \<Rightarrow> ProofNode list \<Rightarrow> string + ProofNode list" where
  "check_nodes sha complete msg l (a # b # ns) =
     (if complete then
        (case check_nodes sha complete msg (Suc l) (b\<lparr>SelfHash := node_hash sha l a\<rparr> # ns) of
           Inl e \<Rightarrow> Inl e | Inr ns' \<Rightarrow> Inr (a # ns'))
      else if node_hash sha l a \<noteq> SelfHash b then Inl msg
      else (case check_nodes sha complete msg (Suc l) (b # ns) of Inl e \<Rightarrow> Inl e | Inr ns' \<Rightarrow> Inr (a # ns')))"
| "check_nodes sha complete msg l ns = Inr ns"

text \<open>
  \<open>Check\<close> returns its error, if any; a path without upper nodes is an index panic. The result has the
  path as the method leaves it.
\<close>

definition Check :: "(bytes \<Rightarrow> bytes) \<Rightarrow> bool \<Rightarrow> ProofPath \<Rightarrow> (string + ProofPath) outcome" where
  "Check sha complete pp =
     (case check_nodes sha complete ''Mismatch at left path'' 0 (LeftOfTwig pp) of Inl e \<Rightarrow> Inr (Inl e)
      | Inr left \<Rightarrow>
     (let leafMTRoot = node_hash sha 10 (left ! 10)
      in case check_nodes sha complete ''Mismatch at right path'' 8 (RightOfTwig pp) of Inl e \<Rightarrow> Inr (Inl e)
      | Inr right \<Rightarrow>
     (let activeBitsMTL3 = node_hash sha 10 (right ! 2);
          twigRoot = hash2 sha 11 leafMTRoot activeBitsMTL3
      in case UpperPath pp of [] \<Rightarrow> Inl IndexOutOfRange
      | u # us \<Rightarrow>
        if \<not> complete \<and> twigRoot \<noteq> SelfHash u then Inr (Inl ''Mismatch at twig top'')
        else
          (case check_nodes sha complete ''Mismatch at upper path'' (FirstLevelAboveTwig - 1)
              ((if complete then u\<lparr>SelfHash := twigRoot\<rparr> else u) # us) of Inl e \<Rightarrow> Inr (Inl e)
           | Inr ups \<Rightarrow>
               if node_hash sha (FirstLevelAboveTwig - 1 + length us) (last ups) \<noteq> Root pp
               then Inr (Inl ''Mismatch at root'')
               else Inr (Inr (pp\<lparr>LeftOfTwig := left, RightOfTwig := right, UpperPath := ups\<rparr>))))))"

section \<open>Building a path\<close>

fun mapE :: "('a \<Rightarrow> 'b outcome) \<Rightarrow> 'a list \<Rightarrow> 'b list outcome" where
  "mapE f [] = Inr []"
| "mapE f (x # xs) = bindE (f x) (\<lambda>y. bindE (mapE f xs) (\<lambda>ys. Inr (y # ys)))"

definition getLeftPath :: "nat \<Rightarrow> (nat \<Rightarrow> bytes outcome) \<Rightarrow> ProofNode list outcome" where
  "getLeftPath sn getHash =
     (let n = sn mod LeafCountInTwig
      in mapE (\<lambda>level. let stripe = 2048 div 2 ^ level; self = n div 2 ^ level; peer = self XOR 1
           in bindE (getHash (stripe + self)) (\<lambda>s. bindE (getHash (stripe + peer)) (\<lambda>p.
                Inr \<lparr>SelfHash = s, PeerHash = p, PeerAtLeft = even peer\<rparr>))) [0 ..< 11])"

definition getLeftPathInMem :: "bytes list \<Rightarrow> nat \<Rightarrow> ProofNode list outcome" where
  "getLeftPathInMem mt4twig sn = getLeftPath sn (\<lambda>i. Inr (mt4twig ! i))"

definition getLeftPathOnDisk :: "TwigMtFile \<Rightarrow> nat \<Rightarrow> nat \<Rightarrow> ProofNode list outcome" where
  "getLeftPathOnDisk tf twigID sn = getLeftPath sn (\<lambda>i. GetHashNode tf twigID i)"

definition right_node :: "(nat \<Rightarrow> bytes) \<Rightarrow> nat \<Rightarrow> ProofNode" where
  "right_node f self = \<lparr>SelfHash = f self, PeerHash = f (self XOR 1), PeerAtLeft = even (self XOR 1)\<rparr>"

definition getRightPath :: "Twig \<Rightarrow> nat \<Rightarrow> ProofNode list" where
  "getRightPath tw sn =
     (let n = sn mod LeafCountInTwig
      in [right_node (\<lambda>i. subslice (activeBits tw) (i * 32) (i * 32 + 32)) (n div 256),
          right_node (\<lambda>i. activeBitsMTL1 tw ! i) (n div 512),
          right_node (\<lambda>i. activeBitsMTL2 tw ! i) (n div 1024)])"

definition nodeE :: "Tree \<Rightarrow> nat \<Rightarrow> nat \<Rightarrow> bytes outcome" where
  "nodeE t level n = (case nodes t (Pos level n) of None \<Rightarrow> Inl NilDeref | Some h \<Rightarrow> Inr h)"

text \<open>A nil path when the twig has no root.\<close>

definition getUpperPathAndRoot :: "(bytes \<Rightarrow> bytes) \<Rightarrow> Tree \<Rightarrow> nat \<Rightarrow> (ProofNode list \<times> bytes) option outcome" where
  "getUpperPathAndRoot sha t twigID =
     (let maxLevel = calcMaxLevel (youngestTwigID t);
          peer = (case getTwigRoot t (twigID XOR 1) of None \<Rightarrow> twigRoot (NullTwig sha) | Some h \<Rightarrow> h)
      in case getTwigRoot t twigID of None \<Rightarrow> Inr None
         | Some self \<Rightarrow>
             bindE (mapE (\<lambda>level. let n = twigID div 2 ^ (level - FirstLevelAboveTwig + 1)
                in bindE (nodeE t level n) (\<lambda>s. bindE (nodeE t level (n XOR 1)) (\<lambda>p.
                     Inr \<lparr>SelfHash = s, PeerHash = p, PeerAtLeft = odd n\<rparr>)))
                [FirstLevelAboveTwig ..< maxLevel]) (\<lambda>us.
             bindE (nodeE t maxLevel 0) (\<lambda>root.
               Inr (Some (\<lparr>SelfHash = self, PeerHash = peer, PeerAtLeft = odd twigID\<rparr> # us, root)))))"

definition GetProof :: "(bytes \<Rightarrow> bytes) \<Rightarrow> Tree \<Rightarrow> int \<Rightarrow> ProofPath option outcome" where
  "GetProof sha t sn0 =
     (let twigID0 = sn0 div 2 ^ TwigShift
      in if twigID0 > int (youngestTwigID t) \<or> twigID0 < 0 then Inl (Panic ''Invalid sn'')
         else
           (let twigID = nat twigID0; sn = nat sn0
            in bindE (getUpperPathAndRoot sha t twigID) (\<lambda>r.
               case r of None \<Rightarrow> Inr None
               | Some (ups, root) \<Rightarrow>
                   bindE (if twigID = youngestTwigID t then getLeftPathInMem (mtree4YoungestTwig t) sn
                          else getLeftPathOnDisk (twigMtFile t) twigID sn) (\<lambda>left.
                     let right = getRightPath (case activeTwigs t twigID of Some tw \<Rightarrow> tw | None \<Rightarrow> NullTwig sha) sn
                     in Inr (Some \<lparr>LeftOfTwig = left, RightOfTwig = right, UpperPath = ups,
                          PathSerialNum = sn0, Root = root\<rparr>)))))"

section \<open>The check as a condition\<close>

fun linked :: "(bytes \<Rightarrow> bytes) \<Rightarrow> nat \<Rightarrow> ProofNode list \<Rightarrow> bool" where
  "linked sha l (a # b # ns) \<longleftrightarrow> node_hash sha l a = SelfHash b \<and> linked sha (Suc l) (b # ns)"
| "linked sha l ns \<longleftrightarrow> True"

lemma check_nodes_False: "check_nodes sha False msg l ns = (if linked sha l ns then Inr ns else Inl msg)"
  by (induction sha l ns rule: linked.induct) auto

lemma check_nodes_True:
  "linked sha l (a # ns) \<Longrightarrow> check_nodes sha True msg l (a # map (SelfHash_update f) ns) = Inr (a # ns)"
proof (induction ns arbitrary: a l)
  case (Cons b ns)
  have "(SelfHash_update f b)\<lparr>SelfHash := node_hash sha l a\<rparr> = b" using Cons.prems by (cases b) simp
  with Cons show ?case by simp
qed simp

lemma linked_iff:
  "linked sha l ns \<longleftrightarrow> (\<forall>i. Suc i < length ns \<longrightarrow> node_hash sha (l + i) (ns ! i) = SelfHash (ns ! Suc i))"
proof (induction sha l ns rule: linked.induct)
  case (1 sha l a b ns)
  have first_rest: "All Q \<longleftrightarrow> Q 0 \<and> All (\<lambda>k. Q (Suc k))" for Q using not0_implies_Suc by metis
  have "(\<forall>i. Suc i < length (a # b # ns) \<longrightarrow> node_hash sha (l + i) ((a # b # ns) ! i) = SelfHash ((a # b # ns) ! Suc i)) \<longleftrightarrow>
      node_hash sha l a = SelfHash b \<and>
      (\<forall>i. Suc i < length (b # ns) \<longrightarrow> node_hash sha (Suc l + i) ((b # ns) ! i) = SelfHash ((b # ns) ! Suc i))"
    by (subst first_rest) simp
  with 1 show ?case by simp
qed simp_all

definition path_ok :: "(bytes \<Rightarrow> bytes) \<Rightarrow> ProofPath \<Rightarrow> bool" where
  "path_ok sha pp \<longleftrightarrow> linked sha 0 (LeftOfTwig pp) \<and> linked sha 8 (RightOfTwig pp) \<and> linked sha 12 (UpperPath pp) \<and>
     hash2 sha 11 (node_hash sha 10 (LeftOfTwig pp ! 10)) (node_hash sha 10 (RightOfTwig pp ! 2)) = SelfHash (hd (UpperPath pp)) \<and>
     node_hash sha (11 + length (UpperPath pp)) (last (UpperPath pp)) = Root pp"

lemma Check_False:
  "UpperPath pp \<noteq> [] \<Longrightarrow> Check sha False pp = Inr (Inr pp) \<longleftrightarrow> path_ok sha pp"
  by (cases "UpperPath pp") (auto simp: Check_def check_nodes_False path_ok_def Let_def)

section \<open>Serialization\<close>

text \<open>A path of the sizes that the code's arrays have, whose directions are the bits of its serial number.\<close>

definition wf_nodes :: "int \<Rightarrow> nat \<Rightarrow> ProofNode list \<Rightarrow> bool" where
  "wf_nodes sn b ns \<longleftrightarrow> (\<forall>i < length ns. length (SelfHash (ns ! i)) = 32 \<and> length (PeerHash (ns ! i)) = 32 \<and>
     PeerAtLeft (ns ! i) = bit sn (b + i))"

definition wf_path :: "ProofPath \<Rightarrow> bool" where
  "wf_path pp \<longleftrightarrow> length (LeftOfTwig pp) = 11 \<and> length (RightOfTwig pp) = 3 \<and> UpperPath pp \<noteq> [] \<and>
     wf_nodes (PathSerialNum pp) 0 (LeftOfTwig pp) \<and> wf_nodes (PathSerialNum pp) 8 (RightOfTwig pp) \<and>
     wf_nodes (PathSerialNum pp) 11 (UpperPath pp) \<and> length (Root pp) = 32 \<and> in_int64 (PathSerialNum pp)"

definition path_hashes :: "ProofPath \<Rightarrow> bytes list" where
  "path_hashes pp = [SelfHash (LeftOfTwig pp ! 0)] @ map PeerHash (LeftOfTwig pp) @ [SelfHash (RightOfTwig pp ! 0)] @
     map PeerHash (RightOfTwig pp) @ map PeerHash (UpperPath pp) @ [Root pp]"

lemma wf_path_hashes:
  assumes "wf_path pp"
  shows "length (path_hashes pp) = 17 + length (UpperPath pp)" and "\<forall>x \<in> set (path_hashes pp). length x = 32"
proof -
  have "length (PeerHash nd) = 32" if "wf_nodes sn b ns" "nd \<in> set ns" for sn b ns nd
    using that by (auto simp: wf_nodes_def in_set_conv_nth)
  moreover have "length (SelfHash (LeftOfTwig pp ! 0)) = 32" "length (SelfHash (RightOfTwig pp ! 0)) = 32"
    using assms by (auto simp: wf_path_def wf_nodes_def)
  ultimately show "\<forall>x \<in> set (path_hashes pp). length x = 32"
    using assms unfolding wf_path_def path_hashes_def by auto
  show "length (path_hashes pp) = 17 + length (UpperPath pp)" using assms by (simp add: wf_path_def path_hashes_def)
qed

lemma hash_at_ToBytes:
  assumes "wf_path pp" and "k < 17 + length (UpperPath pp)"
  shows "hash_at (ToBytes pp) k = path_hashes pp ! k"
proof -
  have t: "ToBytes pp = put_le 8 (uint64 (PathSerialNum pp)) @ concat (path_hashes pp)"
    by (simp add: ToBytes_def path_hashes_def)
  have "hash_at (ToBytes pp) k = subslice (concat (path_hashes pp)) (32 * k) (32 * k + 32)"
    by (simp add: hash_at_def t subslice_def)
  with concat_chunk [of "path_hashes pp" 32 k] wf_path_hashes [OF assms(1)] assms(2) show ?thesis by simp
qed

lemma length_ToBytes: "wf_path pp \<Longrightarrow> length (ToBytes pp) = 8 + 32 * (17 + length (UpperPath pp))"
proof -
  assume wf: "wf_path pp"
  have "ToBytes pp = put_le 8 (uint64 (PathSerialNum pp)) @ concat (path_hashes pp)"
    by (simp add: ToBytes_def path_hashes_def)
  moreover have "length (concat xs) = 32 * length xs" if "\<forall>x \<in> set xs. length x = 32" for xs :: "bytes list"
    using that by (induction xs) auto
  ultimately show ?thesis using wf_path_hashes [OF wf] by simp
qed

text \<open>The nodes that the bytes give back: the stored hashes, and zero for the self hashes but the first.\<close>

definition strip_tail :: "ProofNode list \<Rightarrow> ProofNode list" where
  "strip_tail ns = (case ns of [] \<Rightarrow> [] | a # as \<Rightarrow> a # map (SelfHash_update (\<lambda>_. zeroHash)) as)"

lemma strip_tail_eq:
  assumes "wf_nodes sn b ns" and "length ns = n" and "f 0 = SelfHash (ns ! 0)" and "\<forall>i < n. g i = PeerHash (ns ! i)"
  shows "map (\<lambda>i. \<lparr>SelfHash = (if i = 0 then f i else zeroHash), PeerHash = g i, PeerAtLeft = bit sn (b + i)\<rparr>) [0 ..< n] =
    strip_tail ns"
proof (rule nth_equalityI)
  show "length (map (\<lambda>i. \<lparr>SelfHash = (if i = 0 then f i else zeroHash), PeerHash = g i, PeerAtLeft = bit sn (b + i)\<rparr>) [0 ..< n]) =
      length (strip_tail ns)" using assms(2) by (cases ns) (auto simp: strip_tail_def)
next
  fix i assume "i < length (map (\<lambda>i. \<lparr>SelfHash = (if i = 0 then f i else zeroHash), PeerHash = g i, PeerAtLeft = bit sn (b + i)\<rparr>) [0 ..< n])"
  then have i: "i < n" by simp
  have flag: "PeerAtLeft (ns ! i) = bit sn (b + i)" using assms(1,2) i by (simp add: wf_nodes_def)
  have "strip_tail ns ! i = (if i = 0 then ns ! 0 else (ns ! i)\<lparr>SelfHash := zeroHash\<rparr>)"
    using i assms(2) by (cases ns; cases i) (auto simp: strip_tail_def)
  with flag assms(3,4) i show "map (\<lambda>i. \<lparr>SelfHash = (if i = 0 then f i else zeroHash), PeerHash = g i,
      PeerAtLeft = bit sn (b + i)\<rparr>) [0 ..< n] ! i = strip_tail ns ! i"
    by (cases "ns ! i") (auto simp: ProofNode.defs)
qed

lemma BytesToProofPath_ToBytes:
  assumes wf: "wf_path pp"
  shows "BytesToProofPath (ToBytes pp) = Inr (pp\<lparr>LeftOfTwig := strip_tail (LeftOfTwig pp),
    RightOfTwig := strip_tail (RightOfTwig pp), UpperPath := map (SelfHash_update (\<lambda>_. zeroHash)) (UpperPath pp)\<rparr>)"
proof -
  let ?b = "ToBytes pp" and ?sn = "PathSerialNum pp" and ?u = "length (UpperPath pp)"
  note len = length_ToBytes [OF wf] and at = hash_at_ToBytes [OF wf]
  have sizes: "length (LeftOfTwig pp) = 11" "length (RightOfTwig pp) = 3" "wf_nodes ?sn 0 (LeftOfTwig pp)"
    "wf_nodes ?sn 8 (RightOfTwig pp)" "wf_nodes ?sn 11 (UpperPath pp)" "in_int64 ?sn" using wf by (auto simp: wf_path_def)
  have "take 8 ?b = put_le 8 (uint64 ?sn)" by (simp add: ToBytes_def)
  then have sn: "int64 (get_le (take 8 ?b)) = ?sn" using sizes(6) by (simp add: int64_uint64)
  have h: "hash_at ?b 0 = SelfHash (LeftOfTwig pp ! 0)" "hash_at ?b 12 = SelfHash (RightOfTwig pp ! 0)"
    "\<forall>i < 11. hash_at ?b (1 + i) = PeerHash (LeftOfTwig pp ! i)" "\<forall>i < 3. hash_at ?b (13 + i) = PeerHash (RightOfTwig pp ! i)"
    "\<forall>i < ?u. hash_at ?b (16 + i) = PeerHash (UpperPath pp ! i)" "hash_at ?b (16 + ?u) = Root pp"
    using sizes(1,2) by (simp_all add: at path_hashes_def nth_append)
  note l = strip_tail_eq [OF sizes(3,1), of "\<lambda>_. hash_at ?b 0" "\<lambda>i. hash_at ?b (1 + i)"]
    and r = strip_tail_eq [OF sizes(4,2), of "\<lambda>_. hash_at ?b 12" "\<lambda>i. hash_at ?b (13 + i)"]
  have u: "map (\<lambda>i. \<lparr>SelfHash = zeroHash, PeerHash = hash_at ?b (16 + i), PeerAtLeft = bit ?sn (11 + i)\<rparr>) [0 ..< ?u] =
      map (SelfHash_update (\<lambda>_. zeroHash)) (UpperPath pp)"
    using h(5) sizes(5) by (intro nth_equalityI) (auto simp: wf_nodes_def ProofNode.defs intro!: ProofNode.equality)
  have c: "(length ?b - 8) div 32 - OtherNodeCount = ?u" "(int (length ?b) - 8) mod 32 = 0" "\<not> int (length ?b) - 8 < 32 * int OtherNodeCount"
    by (simp_all add: len OtherNodeCount_def)
  show ?thesis
    using l r u h by (simp add: BytesToProofPath_def Let_def c sn)
qed

lemma Check_complete:
  assumes "wf_path pp" and "path_ok sha pp"
  shows "Check sha True (pp\<lparr>LeftOfTwig := strip_tail (LeftOfTwig pp), RightOfTwig := strip_tail (RightOfTwig pp),
    UpperPath := map (SelfHash_update (\<lambda>_. zeroHash)) (UpperPath pp)\<rparr>) = Inr (Inr pp)"
proof -
  obtain l ls where l: "LeftOfTwig pp = l # ls" using assms(1) by (cases "LeftOfTwig pp") (auto simp: wf_path_def)
  obtain r rs where r: "RightOfTwig pp = r # rs" using assms(1) by (cases "RightOfTwig pp") (auto simp: wf_path_def)
  obtain u us where u: "UpperPath pp = u # us" using assms(1) by (cases "UpperPath pp") (auto simp: wf_path_def)
  have ok: "linked sha 0 (l # ls)" "linked sha 8 (r # rs)" "linked sha 12 (u # us)"
    "hash2 sha 11 (node_hash sha 10 ((l # ls) ! 10)) (node_hash sha 10 ((r # rs) ! 2)) = SelfHash u"
    "node_hash sha (12 + length us) (last (u # us)) = Root pp"
    using assms(2) by (simp_all add: path_ok_def l r u)
  have "(SelfHash_update (\<lambda>_. zeroHash) u)\<lparr>SelfHash := SelfHash u\<rparr> = u" by simp
  with ok check_nodes_True [OF ok(1)] check_nodes_True [OF ok(2)] check_nodes_True [OF ok(3)] l r u show ?thesis
    by (simp add: Check_def strip_tail_def Let_def del: nth_Cons_numeral)
qed

text \<open>
  C21: a well-formed proof path that passes \<open>Check\<close> survives its serialized form: \<open>BytesToProofPath\<close>
  accepts the bytes of \<open>ToBytes\<close>, and \<open>Check\<close> with completion rebuilds exactly the original path from
  them.
\<close>

theorem ProofPath_roundtrip:
  assumes "wf_path pp" and "Check sha False pp = Inr (Inr pp)"
  shows "\<exists>pp0. BytesToProofPath (ToBytes pp) = Inr pp0 \<and> Check sha True pp0 = Inr (Inr pp)"
proof -
  have "path_ok sha pp" using assms Check_False [of pp sha] by (simp add: wf_path_def)
  with BytesToProofPath_ToBytes [OF assms(1)] Check_complete [OF assms(1)] show ?thesis by blast
qed

text \<open>A concrete path for serial number 0, under a hash that keeps the first 31 bytes behind the level byte.\<close>

definition head_sha :: "bytes \<Rightarrow> bytes" where
  "head_sha b = take 32 (b @ replicate 32 0)"

fun grow_path :: "nat \<Rightarrow> nat \<Rightarrow> bytes \<Rightarrow> ProofNode list" where
  "grow_path l 0 h = []"
| "grow_path l (Suc k) h = \<lparr>SelfHash = h, PeerHash = replicate 32 9, PeerAtLeft = False\<rparr> #
     grow_path (Suc l) k (head_sha ([word_of_nat l] @ h @ replicate 32 9))"

definition samplePath :: ProofPath where
  "samplePath =
     (let left = grow_path 0 11 (replicate 32 1); right = grow_path 8 3 (replicate 32 2);
          up = grow_path 12 2 (hash2 head_sha 11 (node_hash head_sha 10 (left ! 10)) (node_hash head_sha 10 (right ! 2)))
      in \<lparr>LeftOfTwig = left, RightOfTwig = right, UpperPath = up, PathSerialNum = 0,
          Root = node_hash head_sha 13 (up ! 1)\<rparr>)"

lemma samplePath_ok: "wf_path samplePath" "Check head_sha False samplePath = Inr (Inr samplePath)"
proof -
  have "\<forall>i < length ns. P i" if "\<forall>i \<in> set [0 ..< length ns]. P i" for ns :: "ProofNode list" and P using that by simp
  then have wf: "wf_nodes 0 b ns" if "list_all (\<lambda>nd. length (SelfHash nd) = 32 \<and> length (PeerHash nd) = 32 \<and> \<not> PeerAtLeft nd) ns" for b ns
    using that by (simp add: wf_nodes_def list_all_length)
  have sn: "PathSerialNum samplePath = 0" by (simp add: samplePath_def Let_def)
  have "length (LeftOfTwig samplePath) = 11" "length (RightOfTwig samplePath) = 3" "length (UpperPath samplePath) = 2"
    "length (Root samplePath) = 32"
    "list_all (\<lambda>nd. length (SelfHash nd) = 32 \<and> length (PeerHash nd) = 32 \<and> \<not> PeerAtLeft nd) (LeftOfTwig samplePath)"
    "list_all (\<lambda>nd. length (SelfHash nd) = 32 \<and> length (PeerHash nd) = 32 \<and> \<not> PeerAtLeft nd) (RightOfTwig samplePath)"
    "list_all (\<lambda>nd. length (SelfHash nd) = 32 \<and> length (PeerHash nd) = 32 \<and> \<not> PeerAtLeft nd) (UpperPath samplePath)"
    by code_simp+
  with wf sn show "wf_path samplePath" by (auto simp: wf_path_def in_int64_def)
  show "Check head_sha False samplePath = Inr (Inr samplePath)" by code_simp
qed

theorem ProofPath_roundtrip_witness:
  "\<exists>pp0. BytesToProofPath (ToBytes samplePath) = Inr pp0 \<and> Check head_sha True pp0 = Inr (Inr samplePath)"
  by (rule ProofPath_roundtrip [OF samplePath_ok])

section \<open>Binding\<close>

text \<open>The byte strings that the check of a path hashes.\<close>

definition node_input :: "nat \<Rightarrow> ProofNode \<Rightarrow> bytes" where
  "node_input l nd = [word_of_nat l] @ (if PeerAtLeft nd then PeerHash nd @ SelfHash nd else SelfHash nd @ PeerHash nd)"

fun nodes_inputs :: "nat \<Rightarrow> ProofNode list \<Rightarrow> bytes list" where
  "nodes_inputs l [] = []"
| "nodes_inputs l (a # ns) = node_input l a # nodes_inputs (Suc l) ns"

definition twig_input :: "(bytes \<Rightarrow> bytes) \<Rightarrow> ProofPath \<Rightarrow> bytes" where
  "twig_input sha pp = [11] @ node_hash sha 10 (LeftOfTwig pp ! 10) @ node_hash sha 10 (RightOfTwig pp ! 2)"

definition path_inputs :: "(bytes \<Rightarrow> bytes) \<Rightarrow> ProofPath \<Rightarrow> bytes list" where
  "path_inputs sha pp = nodes_inputs 0 (LeftOfTwig pp) @ nodes_inputs 8 (RightOfTwig pp) @ [twig_input sha pp] @
     nodes_inputs 12 (UpperPath pp)"

lemma node_hash_input: "node_hash sha l nd = sha (node_input l nd)"
  by (simp add: node_hash_def node_input_def hash2_def)

lemma node_input_inj:
  assumes "node_input l a = node_input l b" and "PeerAtLeft a = PeerAtLeft b"
    and "length (SelfHash a) = 32" "length (SelfHash b) = 32" "length (PeerHash a) = 32" "length (PeerHash b) = 32"
  shows "a = (b :: ProofNode)"
  using assms by (cases "PeerAtLeft b") (auto simp: node_input_def intro!: ProofNode.equality)

lemma wf_nodes_Cons:
  "wf_nodes sn b (a # ns) \<longleftrightarrow> length (SelfHash a) = 32 \<and> length (PeerHash a) = 32 \<and> PeerAtLeft a = bit sn b \<and>
    wf_nodes sn (Suc b) ns"
  by (simp add: wf_nodes_def All_less_Suc2)

lemma linked_bind:
  assumes "inj_on sha S"
  shows "length as = length bs \<Longrightarrow> as \<noteq> [] \<Longrightarrow> linked sha l as \<Longrightarrow> linked sha l bs \<Longrightarrow>
    wf_nodes sn b as \<Longrightarrow> wf_nodes sn b bs \<Longrightarrow> set (nodes_inputs l as) \<union> set (nodes_inputs l bs) \<subseteq> S \<Longrightarrow>
    node_hash sha (l + length as - 1) (last as) = node_hash sha (l + length bs - 1) (last bs) \<Longrightarrow> as = bs"
proof (induction as arbitrary: bs l b)
  case (Cons x as)
  then obtain y bs' where bs: "bs = y # bs'" by (cases bs) auto
  have wf: "PeerAtLeft x = PeerAtLeft y" "length (SelfHash x) = 32" "length (SelfHash y) = 32"
    "length (PeerHash x) = 32" "length (PeerHash y) = 32" using Cons.prems(5,6) by (auto simp: bs wf_nodes_Cons)
  have tails: "wf_nodes sn (Suc b) as" "wf_nodes sn (Suc b) bs'" using Cons.prems(5,6) by (auto simp: bs wf_nodes_Cons)
  have "as = bs' \<and> node_hash sha l x = node_hash sha l y"
  proof (cases as)
    case Nil
    then show ?thesis using Cons.prems by (simp add: bs)
  next
    case (Cons x' as')
    then obtain y' bs'' where bs': "bs' = y' # bs''" using Cons.prems(1) bs by (cases bs') auto
    have "as = bs'"
      using Cons.prems Cons bs bs' tails by (intro Cons.IH [of bs' "Suc l" "Suc b"]) auto
    with Cons.prems Cons bs bs' show ?thesis by auto
  qed
  moreover have "node_input l x \<in> S" "node_input l y \<in> S" using Cons.prems(7) by (auto simp: bs)
  ultimately have "node_input l x = node_input l y" using assms by (auto simp: node_hash_input inj_on_def)
  with node_input_inj [OF this wf] \<open>as = bs' \<and> _\<close> show ?case by (simp add: bs)
qed simp

text \<open>
  C20: a proof binds its leaf. If two well-formed paths for the same serial number and of the same height
  pass \<open>Check\<close> with the same root, and the hash function has no collision among the byte strings that
  the two checks hash, then the paths are equal: they prove the same entry hash and the same active
  bits.
\<close>

theorem Check_binding:
  assumes "hash32 sha" and "wf_path pp" and "wf_path pp'" and "Check sha False pp = Inr (Inr pp)"
    and "Check sha False pp' = Inr (Inr pp')" and "PathSerialNum pp' = PathSerialNum pp" and "Root pp' = Root pp"
    and "length (UpperPath pp') = length (UpperPath pp)"
    and "inj_on sha (set (path_inputs sha pp) \<union> set (path_inputs sha pp'))"
  shows "pp' = pp"
proof -
  let ?S = "set (path_inputs sha pp) \<union> set (path_inputs sha pp')"
  have ok: "path_ok sha pp" "path_ok sha pp'" using assms(2-5) Check_False by (auto simp: wf_path_def)
  note wf = assms(2,3) [unfolded wf_path_def]
  have sub: "set (nodes_inputs 0 (LeftOfTwig pp')) \<union> set (nodes_inputs 0 (LeftOfTwig pp)) \<subseteq> ?S"
    "set (nodes_inputs 8 (RightOfTwig pp')) \<union> set (nodes_inputs 8 (RightOfTwig pp)) \<subseteq> ?S"
    "set (nodes_inputs 12 (UpperPath pp')) \<union> set (nodes_inputs 12 (UpperPath pp)) \<subseteq> ?S"
    "twig_input sha pp \<in> ?S" "twig_input sha pp' \<in> ?S"
    by (auto simp: path_inputs_def)
  have "12 + length (UpperPath pp) - 1 = 11 + length (UpperPath pp)" by simp
  then have u: "UpperPath pp' = UpperPath pp"
    using ok wf assms(6-8) unfolding path_ok_def by (intro linked_bind [where sn = "PathSerialNum pp" and b = 11, OF assms(9) _ _ _ _ _ _ sub(3)]) simp_all
  then have "sha (twig_input sha pp') = sha (twig_input sha pp)"
    using ok by (simp add: path_ok_def twig_input_def hash2_def)
  then have "twig_input sha pp' = twig_input sha pp" using inj_onD [OF assms(9) _ sub(5,4)] by simp
  then have top: "node_hash sha 10 (LeftOfTwig pp' ! 10) = node_hash sha 10 (LeftOfTwig pp ! 10)"
    "node_hash sha 10 (RightOfTwig pp' ! 2) = node_hash sha 10 (RightOfTwig pp ! 2)"
    using assms(1) by (simp_all add: twig_input_def node_hash_input hash32_def)
  have last: "last ns = ns ! n" if "length ns = Suc n" for ns :: "ProofNode list" and n
    using that by (cases ns rule: rev_cases) (auto simp: nth_append)
  have l: "LeftOfTwig pp' = LeftOfTwig pp"
    using ok wf assms(6) top last [of "LeftOfTwig pp" 10] last [of "LeftOfTwig pp'" 10] unfolding path_ok_def
    by (intro linked_bind [where sn = "PathSerialNum pp" and b = 0, OF assms(9) _ _ _ _ _ _ sub(1)]) auto
  have r: "RightOfTwig pp' = RightOfTwig pp"
    using ok wf assms(6) top last [of "RightOfTwig pp" 2] last [of "RightOfTwig pp'" 2] unfolding path_ok_def
    by (intro linked_bind [where sn = "PathSerialNum pp" and b = 8, OF assms(9) _ _ _ _ _ _ sub(2)]) auto
  from u l r assms(6,7) show ?thesis by (intro ProofPath.equality) simp_all
qed

theorem Check_binding_witness:
  "hash32 head_sha \<and> wf_path samplePath \<and> Check head_sha False samplePath = Inr (Inr samplePath) \<and>
   inj_on head_sha (set (path_inputs head_sha samplePath)) \<and> samplePath\<lparr>PathSerialNum := 0\<rparr> = samplePath"
proof -
  have "distinct (map head_sha (path_inputs head_sha samplePath))" by code_simp
  then have inj: "inj_on head_sha (set (path_inputs head_sha samplePath))" by (simp add: distinct_map)
  have h: "hash32 head_sha" unfolding hash32_def head_sha_def by auto
  have sn: "PathSerialNum samplePath = 0" by (simp add: samplePath_def Let_def)
  then have p: "samplePath\<lparr>PathSerialNum := 0\<rparr> = samplePath" by (intro ProofPath.equality) simp_all
  have "samplePath\<lparr>PathSerialNum := 0\<rparr> = samplePath"
    by (rule Check_binding [OF h samplePath_ok(1)]) (simp_all only: p Un_absorb samplePath_ok inj sn)
  with h samplePath_ok inj show ?thesis by blast
qed

text \<open>
  552 bytes are a valid proof for \<open>BytesToProofPath\<close>, with no upper node, and \<open>Check\<close> of such a path
  never returns an error for the missing part: when the lower paths can be completed it indexes the
  empty upper path and panics.
\<close>

theorem Check_empty_upper_panics:
  assumes "length bz = 552"
  shows "\<exists>pp. BytesToProofPath bz = Inr pp \<and> UpperPath pp = [] \<and> Check sha True pp = Inl IndexOutOfRange"
proof -
  have c: "\<exists>ns'. check_nodes sha True msg l ns = Inr ns'" for msg l ns
    by (induction sha True msg l ns rule: check_nodes.induct) (auto split: sum.splits)
  let ?pp = "the (case BytesToProofPath bz of Inl e \<Rightarrow> None | Inr pp \<Rightarrow> Some pp)"
  have "BytesToProofPath bz = Inr ?pp" "UpperPath ?pp = []"
    using assms by (simp_all add: BytesToProofPath_def OtherNodeCount_def Let_def)
  moreover from this(2) have "Check sha True ?pp = Inl IndexOutOfRange"
    using c [of "''Mismatch at left path''" 0 "LeftOfTwig ?pp"] c [of "''Mismatch at right path''" 8 "RightOfTwig ?pp"]
    by (auto simp: Check_def Let_def)
  ultimately show ?thesis by blast
qed

theorem Check_empty_upper_panics_witness:
  "\<exists>pp. BytesToProofPath (replicate 552 0) = Inr pp \<and> Check zero_sha True pp = Inl IndexOutOfRange"
  using Check_empty_upper_panics [of "replicate 552 0" zero_sha] by auto

section \<open>The path of an entry\<close>

lemma mapE_ok: "\<forall>x \<in> set xs. f x = Inr (g x) \<Longrightarrow> mapE f xs = Inr (map g xs)"
  by (induction xs) auto

lemma xor_one: "(n :: nat) XOR Suc 0 = (if even n then n + 1 else n - 1)"
  by (simp add: xor_Suc_0_eq)

lemma xor_one_less: "s < 2 * c \<Longrightarrow> s XOR Suc 0 < 2 * (c :: nat)"
proof (cases "even s")
  case True
  assume "s < 2 * c"
  with True have "Suc s < 2 * c" by presburger
  with True show ?thesis by (simp add: xor_one)
next
  case False
  assume "s < 2 * c"
  with False show ?thesis by (auto simp: xor_one)
qed

lemma node_hash_pair:
  "node_hash sha l (right_node f s) = hash2 sha (word_of_nat l) (f (2 * (s div 2))) (f (2 * (s div 2) + 1))"
proof (cases "even s")
  case True
  then show ?thesis by (auto simp: node_hash_def right_node_def xor_one)
next
  case False
  then have "s = 2 * (s div 2) + 1" "s - 1 = 2 * (s div 2)" by presburger+
  with False show ?thesis by (simp add: node_hash_def right_node_def xor_one)
qed

lemma right_node_sel [simp]: "SelfHash (right_node f s) = f s" "PeerHash (right_node f s) = f (s XOR 1)"
  "PeerAtLeft (right_node f s) = odd s"
  by (simp_all add: right_node_def xor_one)

text \<open>The left path in a consistent Merkle tree.\<close>

definition left_nodes :: "bytes list \<Rightarrow> nat \<Rightarrow> ProofNode list" where
  "left_nodes m n = map (\<lambda>l. right_node (\<lambda>i. m ! (2 ^ (11 - l) + i)) (n div 2 ^ l)) [0 ..< 11]"

lemma stripe: "l < 11 \<Longrightarrow> 2048 div 2 ^ l = (2 :: nat) ^ (11 - l)"
proof -
  assume "l < 11"
  then have "(2 :: nat) ^ (11 - l) * 2 ^ l = 2048" by (simp flip: power_add)
  then show ?thesis by (metis nonzero_mult_div_cancel_right power_not_zero zero_neq_numeral)
qed

lemma left_index:
  assumes "n < 2048" and "l < 11" and "k = n div 2 ^ l \<or> k = n div 2 ^ l XOR 1"
  shows "k < 2 ^ (11 - l)" and "2 ^ (11 - l) + k < (4096 :: nat)"
proof -
  have p: "(2 :: nat) ^ (11 - l) * 2 ^ l = 2048" using assms(2) by (simp flip: power_add)
  have e: "(2 :: nat) ^ (11 - l) = 2 * 2 ^ (10 - l)" using assms(2) by (simp flip: power_Suc)
  have "n div 2 ^ l < 2 ^ (11 - l)" using assms(1) p by (intro less_mult_imp_div_less) (simp add: mult.commute)
  then show "k < 2 ^ (11 - l)" using assms(3) xor_one_less unfolding e by auto
  moreover have "(2 :: nat) ^ (11 - l) \<le> 2 ^ 11" by (intro power_increasing) auto
  ultimately show "2 ^ (11 - l) + k < 4096" by simp
qed

lemma getLeftPath_ok:
  assumes "\<forall>i. 1 \<le> i \<and> i < 4096 \<longrightarrow> getHash i = Inr (m ! i)"
  shows "getLeftPath sn getHash = Inr (left_nodes m (sn mod 2048))"
  unfolding getLeftPath_def left_nodes_def Let_def
proof (rule mapE_ok, intro ballI)
  fix l assume "l \<in> set [0 ..< 11 :: nat]"
  then have l: "l < 11" by simp
  let ?s = "sn mod 2048 div 2 ^ l"
  have p: "(1 :: nat) \<le> 2 ^ (11 - l)" by simp
  have "2048 div 2 ^ l + k < 4096 \<and> 1 \<le> 2048 div 2 ^ l + k" if "k = ?s \<or> k = ?s XOR 1" for k
    using left_index(2) [OF _ l that] p by (simp add: stripe [OF l] trans_le_add1)
  with assms show "bindE (getHash (2048 div 2 ^ l + sn mod LeafCountInTwig div 2 ^ l)) (\<lambda>s.
      bindE (getHash (2048 div 2 ^ l + (sn mod LeafCountInTwig div 2 ^ l XOR 1))) (\<lambda>p.
      Inr \<lparr>SelfHash = s, PeerHash = p, PeerAtLeft = even (sn mod LeafCountInTwig div 2 ^ l XOR 1)\<rparr>)) =
    Inr (right_node (\<lambda>i. m ! (2 ^ (11 - l) + i)) ?s)"
    by (simp add: stripe [OF l] right_node_def)
qed

lemma left_nodes_ok:
  assumes cm: "checkMT sha m" and n: "n < 2048" and l: "l < 11"
  shows "node_hash sha l (left_nodes m n ! l) = m ! (2 ^ (10 - l) + n div 2 ^ Suc l)"
proof -
  let ?i = "2 ^ (10 - l) + n div 2 ^ Suc l"
  have e: "(2 :: nat) ^ (11 - l) = 2 * 2 ^ (10 - l)" using l by (simp flip: power_Suc)
  have "n div 2 ^ l < 2 ^ (11 - l)" using left_index(1) [OF n l] by blast
  then have "n div 2 ^ l div 2 < 2 ^ (10 - l)" using e by simp
  moreover have d: "n div 2 ^ l div 2 = n div 2 ^ Suc l" by (simp only: div_mult2_eq [symmetric] power_Suc2)
  ultimately have h: "n div 2 ^ Suc l < 2 ^ (10 - l)" by simp
  then have "10 - l \<in> set [0 ..< 11]" "?i \<in> set [2 ^ (10 - l) ..< 2 * 2 ^ (10 - l)]" by simp_all
  from cm [unfolded checkMT_def, rule_format, OF this]
  have "m ! ?i = sha ([word_of_nat (10 - (10 - l))] @ m ! (2 * ?i) @ m ! (2 * ?i + 1))" .
  moreover have "10 - (10 - l) = l" using l by simp
  ultimately show ?thesis
    using l e by (simp add: left_nodes_def node_hash_pair hash2_def d algebra_simps del: power_Suc)
qed

lemma left_nodes_linked:
  assumes cm: "checkMT sha m" and n: "n < 2048"
  shows "linked sha 0 (left_nodes m n)" and "node_hash sha 10 (left_nodes m n ! 10) = m ! 1"
proof -
  have sel: "SelfHash (left_nodes m n ! l) = m ! (2 ^ (11 - l) + n div 2 ^ l)" if "l < 11" for l
    using that by (simp add: left_nodes_def)
  show "linked sha 0 (left_nodes m n)"
    unfolding linked_iff
  proof (intro allI impI)
    fix i assume "Suc i < length (left_nodes m n)"
    then have i: "Suc i < 11" by (simp add: left_nodes_def)
    then have "11 - Suc i = 10 - i" by simp
    with left_nodes_ok [OF assms, of i] sel [OF i] i show "node_hash sha (0 + i) (left_nodes m n ! i) = SelfHash (left_nodes m n ! Suc i)"
      by simp
  qed
  show "node_hash sha 10 (left_nodes m n ! 10) = m ! 1" using left_nodes_ok [OF assms, of 10] n by simp
qed

lemma odd_bit: "odd ((sn :: nat) mod 2048 div 2 ^ l) = bit (int sn) l" if "l < 11"
proof -
  have "sn mod 2048 = take_bit 11 sn" by (simp add: take_bit_eq_mod)
  then have "odd (sn mod 2048 div 2 ^ l) = bit (take_bit 11 sn) l" by (simp add: bit_iff_odd)
  with that show ?thesis by (simp add: bit_take_bit_iff bit_of_nat_iff_bit)
qed

lemma left_nodes_wf:
  assumes "length m = 4096" and "\<forall>x \<in> set m. length x = 32"
  shows "wf_nodes (int sn) 0 (left_nodes m (sn mod 2048))"
  unfolding wf_nodes_def
proof (intro allI impI)
  fix l assume "l < length (left_nodes m (sn mod 2048))"
  then have l: "l < 11" by (simp add: left_nodes_def)
  have "length (m ! (2 ^ (11 - l) + k)) = 32" if "k = sn mod 2048 div 2 ^ l \<or> k = sn mod 2048 div 2 ^ l XOR 1" for k
    using left_index(2) [OF _ l that] assms by simp
  with l odd_bit [OF l] show "length (SelfHash (left_nodes m (sn mod 2048) ! l)) = 32 \<and>
      length (PeerHash (left_nodes m (sn mod 2048) ! l)) = 32 \<and>
      PeerAtLeft (left_nodes m (sn mod 2048) ! l) = bit (int sn) (0 + l)"
    by (simp add: left_nodes_def)
qed

text \<open>The right path in a consistent twig.\<close>

lemma getRightPath_ok:
  assumes c: "checkTwig sha tw" and wf: "wf_twig tw"
  shows "linked sha 8 (getRightPath tw sn)" and "node_hash sha 10 (getRightPath tw sn ! 2) = activeBitsMTL3 tw"
    and "wf_nodes (int sn) 8 (getRightPath tw sn)" and "length (getRightPath tw sn) = 3"
proof -
  let ?n = "sn mod 2048"
  define p q where "p = ?n div 512" and "q = ?n div 1024"
  have pq: "p < 4" "q < 2" "?n div 256 div 2 = p" "p div 2 = q" "q div 2 = 0" "?n div 256 < 8"
    by (auto simp: p_def q_def less_mult_imp_div_less simp flip: div_mult2_eq)
  have L1: "activeBitsMTL1 tw ! p = sha ([8] @ subslice (activeBits tw) (64 * p) (64 * p + 64))"
    using c pq(1) by (simp add: checkTwig_def)
  have L2: "activeBitsMTL2 tw ! q = sha ([9] @ activeBitsMTL1 tw ! (2 * q) @ activeBitsMTL1 tw ! (2 * q + 1))"
    using c pq(2) by (simp add: checkTwig_def)
  have sub: "subslice (activeBits tw) (64 * p) (64 * p + 32) @ subslice (activeBits tw) (64 * p + 32) (64 * p + 64) =
      subslice (activeBits tw) (64 * p) (64 * p + 64)"
    using take_add [of 32 32 "drop (64 * p) (activeBits tw)"] by (simp add: subslice_def add.commute)
  have r: "getRightPath tw sn = [right_node (\<lambda>i. subslice (activeBits tw) (i * 32) (i * 32 + 32)) (?n div 256),
      right_node (\<lambda>i. activeBitsMTL1 tw ! i) p, right_node (\<lambda>i. activeBitsMTL2 tw ! i) q]"
    by (simp add: getRightPath_def p_def q_def Let_def)
  show "linked sha 8 (getRightPath tw sn)"
    using L1 L2 sub unfolding r by (simp add: node_hash_pair pq hash2_def algebra_simps)
  show "node_hash sha 10 (getRightPath tw sn ! 2) = activeBitsMTL3 tw"
    using c by (simp add: r node_hash_pair pq hash2_def checkTwig_def)
  show "length (getRightPath tw sn) = 3" by (simp add: r)
  have odd: "odd (?n div 256) = bit (int sn) 8" "odd p = bit (int sn) 9" "odd q = bit (int sn) 10"
    using odd_bit [of 8 sn] odd_bit [of 9 sn] odd_bit [of 10 sn] by (simp_all add: p_def q_def)
  have x: "?n div 256 XOR Suc 0 < 8" "p XOR Suc 0 < 4" "q XOR Suc 0 < 2"
    using xor_one_less [of "?n div 256" 4] xor_one_less [of p 2] xor_one_less [of q 1] pq by auto
  have len: "length (activeBits tw) = 256" "length (activeBitsMTL1 tw) = 4" "length (activeBitsMTL2 tw) = 2"
    and h: "\<forall>i < 4. length (activeBitsMTL1 tw ! i) = 32" "\<forall>i < 2. length (activeBitsMTL2 tw ! i) = 32"
    using wf by (auto simp: wf_twig_def)
  have b: "length (subslice (activeBits tw) (i * 32) (i * 32 + 32)) = 32" if "i < 8" for i using that len(1) by simp
  have s: "Suc 8 = 9" "Suc 9 = 10" by simp_all
  show "wf_nodes (int sn) 8 (getRightPath tw sn)"
    unfolding r wf_nodes_Cons right_node_sel One_nat_def s odd
    using h pq(1,2) x b [OF pq(6)] b [OF x(1)] by (simp only: simp_thms wf_nodes_def list.size less_zeroE) blast
qed

text \<open>The upper path in a synchronised tree that has not been pruned.\<close>

definition upper_hash :: "(bytes \<Rightarrow> bytes) \<Rightarrow> Tree \<Rightarrow> nat \<Rightarrow> nat \<Rightarrow> bytes" where
  "upper_hash sha t level i = (if level = 12 then (case getTwigRoot t i of None \<Rightarrow> twigRoot (NullTwig sha) | Some h \<Rightarrow> h)
     else the (nodes t (Pos level i)))"

definition upper_nodes :: "(bytes \<Rightarrow> bytes) \<Rightarrow> Tree \<Rightarrow> nat \<Rightarrow> nat \<Rightarrow> ProofNode list" where
  "upper_nodes sha t M T = map (\<lambda>level. right_node (upper_hash sha t level) (T div 2 ^ (level - 12))) [12 ..< M]"

lemma synced_upper:
  assumes s: "synced sha 0 t" and T: "T \<le> youngestTwigID t" and l: "12 \<le> l" "l < calcMaxLevel (youngestTwigID t)"
  defines "n \<equiv> T div 2 ^ (l - 12)"
  shows "13 \<le> l \<Longrightarrow> nodes t (Pos l n) \<noteq> None" and "13 \<le> l \<Longrightarrow> nodes t (Pos l (n XOR 1)) \<noteq> None"
    and "nodes t (Pos (Suc l) (n div 2)) = Some (hash2 sha (word_of_nat l) (upper_hash sha t l (2 * (n div 2))) (upper_hash sha t l (2 * (n div 2) + 1)))"
proof -
  let ?y = "youngestTwigID t" let ?M = "calcMaxLevel ?y" and ?g = "upper_of t"
  have up: "upper sha {} 0 ?y ?M 13 ?g" and y: "?y < 2 ^ 52"
    using s by (auto simp: synced_def hash_inv_def pendingTwigs_def touchedTwigs_def)
  have nd: "\<not> dirty {} l' i" for l' i by (simp add: dirty_def)
  have ny: "n \<le> ?y div 2 ^ (l - 12)" unfolding n_def using T by (rule div_le_mono)
  also have "\<dots> \<le> ?y" by (rule div_le_dividend)
  finally have n52: "n < 2 ^ 52" using y by simp
  let ?i = "n div 2"
  have eo: "2 * ?i \<le> n" "2 * ?i + 1 \<le> n + 1" by simp_all
  have b: "n < 2 ^ 56" "2 * ?i < 2 ^ 56" "2 * ?i + 1 < 2 ^ 56" "?i < 2 ^ 56" using n52 by simp_all
  have e: "T div 2 ^ (Suc l - 12) = ?i" using div_pow_pred [of "Suc l" T] l(1) by (simp add: n_def)
  have iy: "?i \<le> ?y div 2 ^ (Suc l - 12)" unfolding e [symmetric] using T by (rule div_le_mono)
  have ex: "?g l' k \<noteq> None" if "13 \<le> l'" "l' \<le> ?M" "k \<le> ?y div 2 ^ (l' - 12)" for l' k
    using that nd by (intro upperD(3) [OF up]) (auto simp: kept_def)
  have par: "?g (Suc l) ?i \<noteq> None" using ex [of "Suc l" ?i] iy l by simp
  then have parN: "nodes t (Pos (Suc l) ?i) = ?g (Suc l) ?i" using b(4) l by (auto simp: upper_of_def)
  have left: "?g l (2 * ?i) \<noteq> None"
  proof (cases "l = 12")
    case True
    then show ?thesis using upperD(1) [OF up, of "2 * ?i"] eo(1) ny by simp
  next
    case False
    then show ?thesis using ex [of l "2 * ?i"] l eo(1) ny by simp
  qed
  have right: "?g l (2 * ?i + 1) \<noteq> None" if "13 \<le> l"
    using upperD(6) [OF up, of "Suc l" ?i] par iy nd that by simp
  have G: "?g l k = Some (upper_hash sha t l k)" if "?g l k \<noteq> None" for k
    using that by (auto simp: upper_of_def upper_hash_def split: if_splits)
  have "rchild sha ?g (Suc l) ?i = Some (upper_hash sha t l (2 * ?i + 1))"
    using right G [of "2 * ?i + 1"] l b(3) by (cases "l = 12") (auto simp: rchild_def upper_hash_def upper_of_def)
  moreover obtain h where h: "?g (Suc l) ?i = Some h" using par by blast
  moreover have "?g (Suc l - 1) (2 * ?i) = Some (upper_hash sha t l (2 * ?i))" using G [OF left] by simp
  ultimately have "h = hash2 sha (word_of_nat l) (upper_hash sha t l (2 * ?i)) (upper_hash sha t l (2 * ?i + 1))"
    using upperD(5) [OF up _ h] nd l by simp
  then show "nodes t (Pos (Suc l) ?i) = Some (hash2 sha (word_of_nat l) (upper_hash sha t l (2 * ?i)) (upper_hash sha t l (2 * ?i + 1)))"
    using parN h by simp
  have two: "n = 2 * ?i \<and> n XOR 1 = 2 * ?i + 1 \<or> n = 2 * ?i + 1 \<and> n XOR 1 = 2 * ?i" by (simp add: xor_one)
  have "nodes t (Pos l (2 * ?i)) \<noteq> None \<and> nodes t (Pos l (2 * ?i + 1)) \<noteq> None" if "13 \<le> l"
    using left right [OF that] that b by (simp add: upper_of_def split: if_splits)
  with two show "13 \<le> l \<Longrightarrow> nodes t (Pos l n) \<noteq> None" "13 \<le> l \<Longrightarrow> nodes t (Pos l (n XOR 1)) \<noteq> None" by metis+
qed

lemma upper_nodes_linked:
  assumes s: "synced sha 0 t" and T: "T \<le> youngestTwigID t"
  defines "M \<equiv> calcMaxLevel (youngestTwigID t)"
  shows "linked sha 12 (upper_nodes sha t M T)" and "12 < M"
    and "Some (node_hash sha (M - 1) (last (upper_nodes sha t M T))) = nodes t (Pos M 0)"
    and "upper_nodes sha t M T \<noteq> []"
proof -
  have y: "0 < youngestTwigID t" "youngestTwigID t < 2 ^ 52" using s by (auto simp: synced_def hash_inv_def)
  show M: "12 < M" unfolding M_def using calcMaxLevel_ge [of "youngestTwigID t"] y by simp
  have nth: "upper_nodes sha t M T ! i = right_node (upper_hash sha t (12 + i)) (T div 2 ^ i)" if "12 + i < M" for i
    using that by (simp add: upper_nodes_def)
  have len: "length (upper_nodes sha t M T) = M - 12" by (simp add: upper_nodes_def)
  show ne: "upper_nodes sha t M T \<noteq> []" using M len by auto
  have d: "T div 2 ^ Suc i = T div 2 ^ i div 2" for i by (simp only: div_mult2_eq [symmetric] power_Suc2)
  have step: "Some (node_hash sha (12 + i) (upper_nodes sha t M T ! i)) = nodes t (Pos (Suc (12 + i)) (T div 2 ^ Suc i))"
    if "12 + i < M" for i
    using synced_upper(3) [OF s T, of "12 + i"] that unfolding nth [OF that] node_hash_pair d by (simp add: M_def)
  show "linked sha 12 (upper_nodes sha t M T)"
    unfolding linked_iff
  proof (intro allI impI)
    fix i assume "Suc i < length (upper_nodes sha t M T)"
    then have i: "12 + Suc i < M" "12 + i < M" using len by auto
    have "nodes t (Pos (Suc (12 + i)) (T div 2 ^ Suc i)) = Some (upper_hash sha t (12 + Suc i) (T div 2 ^ Suc i))"
      using step [OF i(2)] by (simp add: upper_hash_def split: option.splits) (metis option.sel)
    with step [OF i(2)] show "node_hash sha (12 + i) (upper_nodes sha t M T ! i) = SelfHash (upper_nodes sha t M T ! Suc i)"
      unfolding nth [OF i(1)] by simp
  qed
  have l: "last (upper_nodes sha t M T) = upper_nodes sha t M T ! (M - 13)" using ne len by (simp add: last_conv_nth)
  have "T div 2 ^ (M - 12) \<le> youngestTwigID t div 2 ^ (M - 12)" using T by (rule div_le_mono)
  then have "T div 2 ^ (M - 12) = 0" using calcMaxLevel_top [of "youngestTwigID t"] y by (simp add: M_def)
  moreover have "12 + (M - 13) = M - 1" "Suc (M - 1) = M" "Suc (M - 13) = M - 12" using M by simp_all
  ultimately show "Some (node_hash sha (M - 1) (last (upper_nodes sha t M T))) = nodes t (Pos M 0)"
    using step [of "M - 13"] M unfolding l by (simp del: power_Suc)
qed

lemma upper_nodes_wf:
  assumes sha: "hash32 sha" and s: "synced sha 0 t" and T: "sn div 2048 \<le> youngestTwigID t"
  shows "wf_nodes (int sn) 11 (upper_nodes sha t (calcMaxLevel (youngestTwigID t)) (sn div 2048))"
  unfolding wf_nodes_def
proof (intro allI impI)
  let ?M = "calcMaxLevel (youngestTwigID t)" let ?us = "upper_nodes sha t ?M (sn div 2048)"
  fix i assume "i < length ?us"
  then have i: "12 + i < ?M" by (simp add: upper_nodes_def)
  let ?n = "sn div 2048 div 2 ^ i"
  have inv: "nodes_ok t" "sizes_ok t" using s by (auto simp: synced_def hash_inv_def)
  have twig: "length (upper_hash sha t 12 k) = 32" for k
    using inv wf_NullTwig [OF sha]
    by (auto simp: upper_hash_def getTwigRoot_def nodes_ok_def sizes_ok_def wf_twig_def split: option.splits)
  have "length (upper_hash sha t (12 + i) k) = 32" if "k = ?n \<or> k = ?n XOR 1" for k
  proof (cases i)
    case 0
    then show ?thesis using twig by simp
  next
    case (Suc j)
    then have "nodes t (Pos (12 + i) k) \<noteq> None"
      using synced_upper(1,2) [OF s T, of "12 + i"] i that by auto
    then obtain h where "nodes t (Pos (12 + i) k) = Some h" by blast
    with inv(1) Suc show ?thesis by (simp add: upper_hash_def nodes_ok_def)
  qed
  moreover have "odd ?n = bit (int sn) (11 + i)"
  proof -
    have "?n = sn div 2 ^ (11 + i)" by (simp add: power_add div_mult2_eq)
    then have "odd ?n = bit sn (11 + i)" by (simp add: bit_iff_odd)
    then show ?thesis by (simp add: bit_of_nat_iff_bit)
  qed
  moreover have "?us ! i = right_node (upper_hash sha t (12 + i)) ?n" using i by (simp add: upper_nodes_def)
  ultimately show "length (SelfHash (?us ! i)) = 32 \<and> length (PeerHash (?us ! i)) = 32 \<and>
      PeerAtLeft (?us ! i) = bit (int sn) (11 + i)" by simp
qed

lemma getUpperPathAndRoot_ok:
  assumes s: "synced sha 0 t" and T: "activeTwigs t T = Some tw"
  defines "M \<equiv> calcMaxLevel (youngestTwigID t)"
  shows "\<exists>root. getUpperPathAndRoot sha t T = Inr (Some (upper_nodes sha t M T, root)) \<and> nodes t (Pos M 0) = Some root"
proof -
  have Ty: "T \<le> youngestTwigID t" using s T by (auto simp: synced_def hash_inv_def active_ok_def)
  note up = upper_nodes_linked [OF s Ty, folded M_def]
  from up(3) obtain root where root: "nodes t (Pos M 0) = Some root" by metis
  have self: "getTwigRoot t T = Some (twigRoot tw)" using T by (simp add: getTwigRoot_def)
  let ?f = "\<lambda>level. right_node (upper_hash sha t level) (T div 2 ^ (level - 12))"
  have node: "nodeE t l k = Inr (upper_hash sha t l k)" if "13 \<le> l" "nodes t (Pos l k) \<noteq> None" for l k
    using that by (auto simp: nodeE_def upper_hash_def)
  have "mapE (\<lambda>level. let n = T div 2 ^ (level - FirstLevelAboveTwig + 1)
      in bindE (nodeE t level n) (\<lambda>s. bindE (nodeE t level (n XOR 1)) (\<lambda>p.
           Inr \<lparr>SelfHash = s, PeerHash = p, PeerAtLeft = odd n\<rparr>))) [FirstLevelAboveTwig ..< M] = Inr (map ?f [13 ..< M])"
    unfolding twig_consts
  proof (rule mapE_ok, intro ballI)
    fix l assume "l \<in> set [13 ..< M]"
    then have l: "13 \<le> l" "l < M" by auto
    then have e: "l - 13 + 1 = l - 12" by simp
    let ?n = "T div 2 ^ (l - 12)"
    have "nodes t (Pos l ?n) \<noteq> None" "nodes t (Pos l (?n XOR 1)) \<noteq> None"
      using synced_upper(1,2) [OF s Ty, of l] l by (simp_all add: M_def)
    from node [OF l(1) this(1)] node [OF l(1) this(2)] show "(let n = T div 2 ^ (l - 13 + 1)
        in bindE (nodeE t l n) (\<lambda>s. bindE (nodeE t l (n XOR 1)) (\<lambda>p.
             Inr \<lparr>SelfHash = s, PeerHash = p, PeerAtLeft = odd n\<rparr>))) = Inr (?f l)"
      unfolding e by (simp add: right_node_def xor_one Let_def)
  qed
  moreover have "\<lparr>SelfHash = twigRoot tw, PeerHash = (case getTwigRoot t (T XOR 1) of None \<Rightarrow> twigRoot (NullTwig sha) | Some h \<Rightarrow> h),
      PeerAtLeft = odd T\<rparr> = ?f 12" using self by (simp add: right_node_def upper_hash_def xor_one)
  moreover have "upper_nodes sha t M T = ?f 12 # map ?f [13 ..< M]"
    using up(2) by (simp add: upper_nodes_def upt_conv_Cons)
  moreover have "nodeE t M 0 = Inr root" using root by (simp add: nodeE_def)
  ultimately show ?thesis using self root by (simp add: getUpperPathAndRoot_def M_def Let_def)
qed

section \<open>Finished twigs on disk\<close>

text \<open>The twig file holds, for every finished twig in memory, the Merkle tree below its left root.\<close>

definition disk_inv :: "(bytes \<Rightarrow> bytes) \<Rightarrow> (bytes \<Rightarrow> bytes) \<Rightarrow> Tree \<Rightarrow> bool" where
  "disk_inv sha meow t \<longleftrightarrow> (\<forall>T tw. T < youngestTwigID t \<and> activeTwigs t T = Some tw \<longrightarrow>
     (\<exists>m. twig_on_disk sha meow (twigMtFile t) T m \<and> leftRoot tw = m ! 1))"

lemma twig_on_disk_mono:
  "twig_on_disk sha meow tf T m \<Longrightarrow> \<forall>q d. stored tf q d \<longrightarrow> stored tf' q d \<Longrightarrow> twig_on_disk sha meow tf' T m"
  unfolding twig_on_disk_def twig_stored_def by blast

lemma disk_inv_append:
  assumes di: "disk_inv sha meow t" and t: "tree_inv sha E n t" and p: "append_post sha meow E n b0 b1 (t\<lparr>deactivedSNList := ds\<rparr>) t'"
  shows "disk_inv sha meow t'"
  unfolding disk_inv_def
proof (intro allI impI)
  fix T tw assume T: "T < youngestTwigID t' \<and> activeTwigs t' T = Some tw"
  have y: "youngestTwigID t = n div 2048" "youngestTwigID t' = Suc n div 2048"
    using t p by (simp_all add: tree_inv_def files_inv_def append_post_def)
  have grow: "\<forall>q d. stored (twigMtFile t) q d \<longrightarrow> stored (twigMtFile t') q d"
    using append_post_sns(2) [OF p] by (simp add: files_grow_def)
  have "Suc n div 2048 \<le> Suc (n div 2048)" using div_Suc_bounds [of n 2048] by simp
  then consider "T < n div 2048" | "T = n div 2048" "Suc n div 2048 = Suc (n div 2048)" using T y by linarith
  then show "\<exists>m. twig_on_disk sha meow (twigMtFile t') T m \<and> leftRoot tw = m ! 1"
  proof cases
    case 1
    then have "activeTwigs t T = Some tw" using T p by (simp add: append_post_def)
    with di 1 y obtain m where "twig_on_disk sha meow (twigMtFile t) T m" "leftRoot tw = m ! 1" by (auto simp: disk_inv_def)
    with twig_on_disk_mono [OF this(1) grow] show ?thesis by blast
  next
    case 2
    then have "n mod 2048 = 2047" using Suc_twig [of n] by auto
    with append_post_sns(1) [OF p] T 2 show ?thesis by (auto simp: leaf_written_def)
  qed
qed

lemma tree_run_disk:
  assumes "hash32 sha" and "meow4 meow"
  shows "tree_run sha meow n t \<Longrightarrow> disk_inv sha meow t"
proof (induction rule: tree_run.induct)
  case (run_empty ef tf)
  then show ?case by (simp add: disk_inv_def NewEmptyTree_def)
next
  case (run_append n t e pos t')
  have inv: "tree_inv sha 0 n t" by (rule tree_run_inv [OF assms run_append(1)])
  from AppendEntry_ok [OF assms inv run_append(2-4)] run_append(5)
  have "append_post sha meow 0 n (EntryToBytes e (deactivedSNList t)) [] (t\<lparr>deactivedSNList := []\<rparr>) t'" by auto
  from disk_inv_append [OF run_append.IH inv this] show ?case .
next
  case (run_append_raw n t bz pos t')
  have inv: "tree_inv sha 0 n t" by (rule tree_run_inv [OF assms run_append_raw(1)])
  from AppendEntryRawBytes_ok [OF assms inv run_append_raw(2,3)] run_append_raw(4)
  have "append_post sha meow 0 n (raw_bytes bz t) (SNListToBytes (deactivedSNList t)) (t\<lparr>deactivedSNList := []\<rparr>) t'" by auto
  from disk_inv_append [OF run_append_raw.IH inv this] show ?case .
next
  case (run_deactivate n t sn k t')
  from DeactiviateEntry_Inr [OF run_deactivate(2)] obtain m tw where m: "sn = int m" "activeTwigs t (m div 2048) = Some tw" by blast
  from DeactiviateEntry_ok [OF tree_run_inv [OF assms run_deactivate(1)] m(2)] m(1) run_deactivate(2) obtain tw' where
    t': "activeTwigs t' = (activeTwigs t)(m div 2048 \<mapsto> tw')" "clearBit (m mod 2048) tw = Inr tw'" "twigMtFile t' = twigMtFile t"
    "tree_inv sha 0 n t'" by auto
  have y: "youngestTwigID t' = youngestTwigID t"
    using t'(4) tree_run_inv [OF assms run_deactivate(1)] by (simp add: tree_inv_def files_inv_def)
  from setBit_form(2) [of "m mod 2048" tw] t'(2) obtain b where "tw' = with_bits tw (m mod 2048) b" by auto
  then have "leftRoot tw' = leftRoot tw" by (simp add: with_bits_def)
  with run_deactivate.IH m(2) t'(1,3) y show ?case by (auto simp: disk_inv_def)
next
  case (run_evict n t T)
  then show ?case by (simp add: disk_inv_def EvictTwig_def)
next
  case (run_EndBlock n t root t')
  have inv: "tree_inv sha 0 n t" by (rule tree_run_inv [OF assms run_EndBlock(1)])
  from EndBlock_ok [OF assms(1) inv run_EndBlock(2)] run_EndBlock(3) have
    e: "flush (twigMtFile t) = Inr (twigMtFile t')" "youngestTwigID t' = youngestTwigID t"
    "\<forall>T tw'. T \<noteq> youngestTwigID t \<and> activeTwigs t' T = Some tw' \<longrightarrow> (\<exists>tw. activeTwigs t T = Some tw \<and> leftRoot tw = leftRoot tw')"
    by auto
  have "stored (twigMtFile t') = stored (twigMtFile t)"
    using inv e(1) by (intro flush_stored) (auto simp: tree_inv_def files_inv_def)
  then have "twig_on_disk sha meow (twigMtFile t') T m = twig_on_disk sha meow (twigMtFile t) T m" for T m
    by (simp add: twig_on_disk_def twig_stored_def)
  then show ?case using run_EndBlock.IH e(2,3) unfolding disk_inv_def by (metis less_irrefl)
qed

text \<open>The Merkle tree that holds the leaves of a twig: in memory for the youngest one, else on disk.\<close>

lemma left_path_ok:
  assumes s: "synced sha 0 t" and di: "disk_inv sha meow t" and fl: "buffer (twigMtFile t) = []" and T: "activeTwigs t T = Some tw"
  shows "\<exists>m. (if T = youngestTwigID t then getLeftPathInMem (mtree4YoungestTwig t) sn else getLeftPathOnDisk (twigMtFile t) T sn) =
    Inr (left_nodes m (sn mod 2048)) \<and> checkMT sha m \<and> length m = 4096 \<and> (\<forall>x \<in> set m. length x = 32) \<and> leftRoot tw = m ! 1 \<and>
    (if T = youngestTwigID t then m = mtree4YoungestTwig t
     else \<forall>i. 1 \<le> i \<and> i < 4096 \<longrightarrow> GetHashNode (twigMtFile t) T i = Inr (m ! i))"
proof (cases "T = youngestTwigID t")
  case True
  have inv: "sizes_ok t" "youngest_ok t" "mt_pending sha t" "mtree4YTChangeStart t = -1"
    using s by (auto simp: synced_def hash_inv_def)
  then have "checkMT sha (mtree4YoungestTwig t)" using checkMT_iff [of t sha] by (auto simp: sizes_ok_def mt_pending_def)
  moreover have "leftRoot tw = mtree4YoungestTwig t ! 1" using inv T True by (auto simp: youngest_ok_def)
  moreover have "getLeftPathInMem (mtree4YoungestTwig t) sn = Inr (left_nodes (mtree4YoungestTwig t) (sn mod 2048))"
    unfolding getLeftPathInMem_def by (rule getLeftPath_ok) simp
  ultimately show ?thesis using True inv(1) by (intro exI [of _ "mtree4YoungestTwig t"]) (simp add: sizes_ok_def)
next
  case False
  have "T \<le> youngestTwigID t" using s T by (auto simp: synced_def hash_inv_def active_ok_def)
  with False have "T < youngestTwigID t" by simp
  with di T obtain m where "twig_on_disk sha meow (twigMtFile t) T m" "leftRoot tw = m ! 1" unfolding disk_inv_def by blast
  then obtain p where m: "twig_stored meow (twigMtFile t) T (tl m) p" "length m = 4096" "\<forall>x \<in> set m. length x = 32"
    "checkMT sha m" "leftRoot tw = m ! 1" by (auto simp: twig_on_disk_def)
  have tl: "length (tl m) = TwigMtEntryCount" "\<forall>x \<in> set (tl m). length x = 32"
    using m(2,3) by (cases m; simp add: TwigMtEntryCount_def)+
  have node: "GetHashNode (twigMtFile t) T i = Inr (m ! i)" if "1 \<le> i" "i < 4096" for i
    using twig_stored_node [OF m(1) fl tl that] m(2) that by (simp add: nth_tl)
  then have "getLeftPathOnDisk (twigMtFile t) T sn = Inr (left_nodes m (sn mod 2048))"
    unfolding getLeftPathOnDisk_def by (intro getLeftPath_ok) simp
  with False m node show ?thesis by (intro exI [of _ m]) simp
qed

text \<open>
  C19: after the end of a block on a reachable tree, \<open>GetProof\<close> of any serial number in an active twig
  returns a well-formed path that passes \<open>Check\<close>: its root is the root hash that \<open>EndBlock\<close> returned, its
  first left hash is the leaf of the entry (from memory or from the twig file), and its first right
  hash is the 32 bytes with the entry's active bit.
\<close>

theorem GetProof_Check:
  assumes "hash32 sha" and "meow4 meow" and "tree_run sha meow n t" and "0 < youngestTwigID t"
    and "EndBlock sha t = Inr (root, t')" and "activeTwigs t' (sn div 2048) = Some tw" and "sn < 2 ^ 63"
  shows "\<exists>pp. GetProof sha t' (int sn) = Inr (Some pp) \<and> wf_path pp \<and> Check sha False pp = Inr (Inr pp) \<and>
    Root pp = root \<and> PathSerialNum pp = int sn \<and>
    (if sn div 2048 = youngestTwigID t' then Inr (mtree4YoungestTwig t' ! (2048 + sn mod 2048))
     else GetHashNode (twigMtFile t') (sn div 2048) (2048 + sn mod 2048)) = Inr (SelfHash (LeftOfTwig pp ! 0)) \<and>
    SelfHash (RightOfTwig pp ! 0) = subslice (activeBits tw) (32 * (sn mod 2048 div 256)) (32 * (sn mod 2048 div 256) + 32)"
proof -
  let ?T = "sn div 2048" and ?n = "sn mod 2048" let ?M = "calcMaxLevel (youngestTwigID t')"
  have inv: "tree_inv sha 0 n t" by (rule tree_run_inv [OF assms(1-3)])
  from EndBlock_ok [OF assms(1) inv assms(4)] assms(5) have e: "synced sha 0 t'" "youngestTwigID t' = youngestTwigID t"
    "nodes t' (Pos ?M 0) = Some root" "buffer (twigMtFile t') = []" by auto
  have di: "disk_inv sha meow t'" by (rule tree_run_disk [OF assms(1,2) run_EndBlock [OF assms(3-5)]])
  have Ty: "?T \<le> youngestTwigID t'" and wt: "wf_twig tw"
    using e(1) assms(6) by (auto simp: synced_def hash_inv_def active_ok_def sizes_ok_def)
  have ct: "checkTwig sha tw"
    using synced_consistent [OF e(1)] assms(6) by (auto simp: CheckHashConsistency_def checkAllTwigs_def)
  from left_path_ok [OF e(1) di e(4) assms(6), of sn] obtain m where
    m: "(if ?T = youngestTwigID t' then getLeftPathInMem (mtree4YoungestTwig t') sn else getLeftPathOnDisk (twigMtFile t') ?T sn) =
      Inr (left_nodes m ?n)" "checkMT sha m" "length m = 4096" "\<forall>x \<in> set m. length x = 32" "leftRoot tw = m ! 1"
      "if ?T = youngestTwigID t' then m = mtree4YoungestTwig t' else \<forall>i. 1 \<le> i \<and> i < 4096 \<longrightarrow> GetHashNode (twigMtFile t') ?T i = Inr (m ! i)"
    by blast
  from getUpperPathAndRoot_ok [OF e(1) assms(6)] e(3) have
    u: "getUpperPathAndRoot sha t' ?T = Inr (Some (upper_nodes sha t' ?M ?T, root))" by auto
  let ?us = "upper_nodes sha t' ?M ?T"
  define pp where "pp = \<lparr>LeftOfTwig = left_nodes m ?n, RightOfTwig = getRightPath tw sn, UpperPath = ?us,
    PathSerialNum = int sn, Root = root\<rparr>"
  have "int sn div 2 ^ TwigShift = int ?T" by (simp add: TwigShift_def zdiv_int)
  then have run: "GetProof sha t' (int sn) = Inr (Some pp)"
    using u m(1) assms(6) Ty by (simp add: GetProof_def Let_def pp_def)
  note right = getRightPath_ok [OF ct wt, of sn] and left = left_nodes_linked [OF m(2), of ?n]
    and up = upper_nodes_linked [OF e(1) Ty]
  have lr: "length root = 32" using e(1,3) by (auto simp: synced_def hash_inv_def nodes_ok_def)
  have wf: "wf_path pp"
    using left_nodes_wf [OF m(3,4), of sn] right upper_nodes_wf [OF assms(1) e(1) Ty] up(4) lr assms(7)
    by (simp add: wf_path_def pp_def left_nodes_def in_int64_def)
  have hd: "SelfHash (hd ?us) = twigRoot tw"
  proof -
    have "hd ?us = right_node (upper_hash sha t' 12) ?T" using up(2) by (simp add: upper_nodes_def upt_conv_Cons)
    then show ?thesis using assms(6) by (simp add: upper_hash_def getTwigRoot_def)
  qed
  have len: "11 + length ?us = ?M - 1" using up(2) by (simp add: upper_nodes_def)
  have "twigRoot tw = hash2 sha 11 (leftRoot tw) (activeBitsMTL3 tw)" using ct by (simp add: checkTwig_def hash2_def)
  then have "path_ok sha pp"
    using left right up(1,3) hd e(3) m(5) unfolding path_ok_def pp_def by (simp add: len)
  then have "Check sha False pp = Inr (Inr pp)" using Check_False [of pp sha] up(4) by (simp add: pp_def)
  moreover have "SelfHash (LeftOfTwig pp ! 0) = m ! (2048 + ?n)" by (simp add: pp_def left_nodes_def)
  moreover have "SelfHash (RightOfTwig pp ! 0) = subslice (activeBits tw) (32 * (?n div 256)) (32 * (?n div 256) + 32)"
    by (simp add: pp_def getRightPath_def Let_def mult.commute)
  ultimately show ?thesis
    using run wf m(6) by (intro exI [of _ pp]) (auto simp: pp_def split: if_splits)
qed

theorem GetProof_Check_witness:
  "\<exists>t root t' pp. tree_run zero_sha zero_meow 2048 t \<and> EndBlock zero_sha t = Inr (root, t') \<and>
    GetProof zero_sha t' 2048 = Inr (Some pp) \<and> wf_path pp \<and> Check zero_sha False pp = Inr (Inr pp) \<and> Root pp = root"
proof -
  from dummy_twig obtain t where t: "tree_run zero_sha zero_meow 2048 t" "youngestTwigID t = 1" by blast
  then have inv: "tree_inv zero_sha 0 2048 t" by (intro tree_run_inv [of zero_sha zero_meow]) simp_all
  from EndBlock_ok [OF zero_hashes(1) inv] t obtain root t' where e: "EndBlock zero_sha t = Inr (root, t')"
    "synced zero_sha 0 t'" "youngestTwigID t' = 1" by auto
  then obtain tw where "activeTwigs t' (2048 div 2048) = Some tw" by (auto simp: synced_def hash_inv_def youngest_ok_def)
  from GetProof_Check [OF zero_hashes t(1) _ e(1) this] t(2) e(1) t(1) show ?thesis by auto
qed

end
