(* ===== verification/LoadDump.thy ===== *)
theory LoadDump
  imports TreeRun
begin

text \<open>
  Closing and opening a data tree, datatree/load_dump.go: the dumps of twigs, nodes and the youngest
  Merkle tree with their checksums, the tree that a clean shutdown leaves on disk, and the recovery
  from the entry file after a crash. Files are read by \<open>Read\<close> calls on what is left of them.
\<close>

section \<open>Dumping and loading twigs and nodes\<close>

text \<open>
  \<open>infile.Read(buf)\<close>: nothing left is io.EOF; otherwise as many bytes as there are go to the front of
  the buffer.
\<close>

definition file_Read :: "bytes \<Rightarrow> bytes \<Rightarrow> (bytes \<times> bytes) option" where
  "file_Read buf rest = (if rest = [] then None else Some (copy_at buf 0 (take (length buf) rest), drop (length buf) rest))"

fun readSlices :: "bytes list \<Rightarrow> bytes \<Rightarrow> (bytes list \<times> bytes) option" where
  "readSlices [] rest = Some ([], rest)"
| "readSlices (s # ss) rest =
     (case file_Read s rest of None \<Rightarrow> None
      | Some (b, rest) \<Rightarrow> map_option (\<lambda>(bs, r). (b # bs, r)) (readSlices ss rest))"

datatype load_error = EOF | ChecksumMismatch

text \<open>The twelve slices of a twig that are checksummed.\<close>

definition twigSlices :: "nat \<Rightarrow> Twig \<Rightarrow> bytes list" where
  "twigSlices twigID tw = [put_le 8 twigID, put_le 8 (uint64 (FirstEntryPos tw)), activeBits tw,
     activeBitsMTL1 tw ! 0, activeBitsMTL1 tw ! 1, activeBitsMTL1 tw ! 2, activeBitsMTL1 tw ! 3,
     activeBitsMTL2 tw ! 0, activeBitsMTL2 tw ! 1, activeBitsMTL3 tw, leftRoot tw, twigRoot tw]"

definition Dump :: "(bytes \<Rightarrow> bytes) \<Rightarrow> Twig \<Rightarrow> nat \<Rightarrow> bytes" where
  "Dump meow tw twigID =
     (let slices = twigSlices twigID tw in concat (slices @ [meow (concat slices)]))"

definition LoadTwigFromFile :: "(bytes \<Rightarrow> bytes) \<Rightarrow> bytes \<Rightarrow> load_error + (nat \<times> Twig \<times> bytes)" where
  "LoadTwigFromFile meow infile =
     (case readSlices (map (\<lambda>n. replicate n 0) [8, 8, 256, 32, 32, 32, 32, 32, 32, 32, 32, 32, 4]) infile of
        None \<Rightarrow> Inl EOF
      | Some (s, rest) \<Rightarrow>
          if s ! 12 \<noteq> meow (concat (take 12 s)) then Inl ChecksumMismatch
          else Inr (get_le (s ! 0),
            \<lparr>activeBits = s ! 2, activeBitsMTL1 = [s ! 3, s ! 4, s ! 5, s ! 6], activeBitsMTL2 = [s ! 7, s ! 8],
             activeBitsMTL3 = s ! 9, leftRoot = s ! 10, twigRoot = s ! 11, FirstEntryPos = int64 (get_le (s ! 1))\<rparr>, rest))"

definition BytesToEdgeNodes :: "bytes \<Rightarrow> (nat \<times> bytes) list outcome" where
  "BytesToEdgeNodes bz =
     (if length bz mod 40 \<noteq> 0 then Inl (Panic ''Invalid byteslice length for EdgeNodes'')
      else Inr (map (\<lambda>i. (get_le (subslice bz (40 * i) (40 * i + 8)), subslice bz (40 * i + 8) (40 * i + 40)))
             [0 ..< length bz div 40]))"

text \<open>The loop over the map of nodes, in the order \<open>order\<close> in which Go iterates it.\<close>

definition DumpNodes :: "(bytes \<Rightarrow> bytes) \<Rightarrow> nat list \<Rightarrow> Tree \<Rightarrow> bytes" where
  "DumpNodes meow order t =
     concat (map (\<lambda>pos. let b = EdgeNodesToBytes [(pos, the (nodes t pos))] in b @ meow b) order)"

function LoadNodes_loop :: "(bytes \<Rightarrow> bytes) \<Rightarrow> bytes \<Rightarrow> bytes \<Rightarrow> (nat \<rightharpoonup> bytes) \<Rightarrow> (nat \<rightharpoonup> bytes) outcome" where
  "LoadNodes_loop meow buf infile m =
     (case file_Read buf infile of
        None \<Rightarrow> Inr m
      | Some (buf, rest) \<Rightarrow>
          if length buf \<noteq> 44 then Inl IndexOutOfRange
          else if drop 40 buf \<noteq> meow (take 40 buf) then Inl (Panic ''Checksum mismatch'')
          else bindE (BytesToEdgeNodes (take 40 buf)) (\<lambda>es.
            LoadNodes_loop meow buf rest (m(fst (es ! 0) \<mapsto> snd (es ! 0)))))"
  by auto
termination
  by (relation "measure (\<lambda>(_, buf, f, _). length f)")
    (auto simp: file_Read_def copy_at_def split: if_splits)

definition LoadNodes :: "(bytes \<Rightarrow> bytes) \<Rightarrow> bytes \<Rightarrow> Tree \<Rightarrow> Tree outcome" where
  "LoadNodes meow infile t =
     bindE (LoadNodes_loop meow (replicate 44 0) infile (nodes t)) (\<lambda>m. Inr (t\<lparr>nodes := m\<rparr>))"

definition DumpMtree4YT :: "(bytes \<Rightarrow> bytes) \<Rightarrow> Tree \<Rightarrow> bytes" where
  "DumpMtree4YT meow t = concat (mtree4YoungestTwig t) @ meow (concat (mtree4YoungestTwig t))"

definition LoadMtree4YT :: "(bytes \<Rightarrow> bytes) \<Rightarrow> bytes \<Rightarrow> Tree \<Rightarrow> Tree outcome" where
  "LoadMtree4YT meow infile t =
     (case readSlices (mtree4YoungestTwig t) infile of None \<Rightarrow> Inl (Panic ''EOF'')
      | Some (m, rest) \<Rightarrow>
          (case file_Read (replicate 4 0) rest of None \<Rightarrow> Inl (Panic ''EOF'')
           | Some (buf, _) \<Rightarrow>
               if buf \<noteq> meow (concat m) then Inl (Panic ''Checksum mismatch'')
               else Inr (t\<lparr>mtree4YoungestTwig := m\<rparr>)))"

section \<open>A clean shutdown\<close>

text \<open>The directory of a tree: the two directories of block files, and three dump files.\<close>

record tree_dir =
  entriesPath :: "(nat \<times> bytes) list"
  twigMtPath :: "(nat \<times> bytes) list"
  twigsPath :: bytes
  nodesPath :: bytes
  mtree4YTPath :: bytes

text \<open>The block files of an \<open>HPFile\<close> as a directory listing.\<close>

definition hp_dir :: "HPFile \<Rightarrow> (nat \<times> bytes) list" where
  "hp_dir h = concat (map (\<lambda>i. case fileMap h i of None \<Rightarrow> [] | Some f \<Rightarrow> [(i, contents f)]) [0 ..< Suc (largestID h)])"

text \<open>The keys of the active twigs in order; they are at most the youngest one's.\<close>

definition twigList :: "Tree \<Rightarrow> nat list" where
  "twigList t = filter (\<lambda>T. activeTwigs t T \<noteq> None) [0 ..< Suc (youngestTwigID t)]"

definition Flush :: "(bytes \<Rightarrow> bytes) \<Rightarrow> nat list \<Rightarrow> Tree \<Rightarrow> (Tree \<times> tree_dir) outcome" where
  "Flush meow order t0 =
     bindE (flush (entryFile t0)) (\<lambda>ef.
     bindE (flush (twigMtFile t0)) (\<lambda>tf.
       let t = t0\<lparr>entryFile := ef, twigMtFile := tf\<rparr>
       in Inr (t, \<lparr>entriesPath = hp_dir ef, twigMtPath = hp_dir tf,
            twigsPath = concat (map (\<lambda>T. Dump meow (the (activeTwigs t T)) T) (twigList t)),
            nodesPath = DumpNodes meow order t, mtree4YTPath = DumpMtree4YT meow t\<rparr>)))"

lemma file_Read_shorter: "file_Read buf f = Some (b, rest) \<Longrightarrow> length rest \<le> length f \<and> (buf \<noteq> [] \<longrightarrow> length rest < length f)"
  by (cases buf) (auto simp: file_Read_def split: if_splits)

lemma readSlices_shorter: "readSlices ss f = Some (bs, rest) \<Longrightarrow> length rest \<le> length f"
proof (induction ss f arbitrary: bs rest rule: readSlices.induct)
  case (2 s ss f)
  then obtain b r bs' where "file_Read s f = Some (b, r)" "readSlices ss r = Some (bs', rest)"
    by (auto split: option.splits)
  with "2.IH" file_Read_shorter [of s f b r] show ?case by fastforce
qed simp

lemma LoadTwigFromFile_shorter: "LoadTwigFromFile meow f = Inr (T, tw, rest) \<Longrightarrow> length rest < length f"
proof -
  assume "LoadTwigFromFile meow f = Inr (T, tw, rest)"
  then obtain s where "readSlices (replicate 8 0 # map (\<lambda>n. replicate n 0) [8, 256, 32, 32, 32, 32, 32, 32, 32, 32, 32, 4]) f = Some (s, rest)"
    by (auto simp: LoadTwigFromFile_def simp del: readSlices.simps split: option.splits if_splits)
  then obtain b r bs where "file_Read (replicate 8 0) f = Some (b, r)"
    "readSlices (map (\<lambda>n. replicate n 0) [8, 256, 32, 32, 32, 32, 32, 32, 32, 32, 32, 4]) r = Some (bs, rest)"
    by (subst (asm) readSlices.simps) (auto simp del: readSlices.simps split: option.splits)
  with file_Read_shorter [OF this(1)] readSlices_shorter [OF this(2)] show ?thesis by simp
qed

text \<open>The loop of \<open>LoadTree\<close> over the twig file. A twig number is an int64, kept by its 8 bytes.\<close>

function LoadTwigs :: "(bytes \<Rightarrow> bytes) \<Rightarrow> bytes \<Rightarrow> Tree \<Rightarrow> Tree outcome" where
  "LoadTwigs meow infile t =
     (case LoadTwigFromFile meow infile of
        Inl EOF \<Rightarrow> Inr t
      | Inl ChecksumMismatch \<Rightarrow> Inl (Panic ''Checksum mismatch'')
      | Inr (twigID, tw, rest) \<Rightarrow>
          LoadTwigs meow rest (t\<lparr>activeTwigs := (activeTwigs t)(twigID \<mapsto> tw),
            youngestTwigID := (if int (youngestTwigID t) < int64 twigID then twigID else youngestTwigID t)\<rparr>))"
  by auto
termination
  by (relation "measure (\<lambda>(_, f, _). length f)") (auto dest: LoadTwigFromFile_shorter)

definition LoadTree :: "(bytes \<Rightarrow> bytes) \<Rightarrow> nat \<Rightarrow> nat \<Rightarrow> tree_dir \<Rightarrow> Tree outcome" where
  "LoadTree meow bufSize blkSize dir =
     bindE (NewEntryFile bufSize blkSize (entriesPath dir)) (\<lambda>ef.
     bindE (NewTwigMtFile bufSize blkSize (twigMtPath dir)) (\<lambda>tf.
       let t = \<lparr>entryFile = ef, twigMtFile = tf, nodes = Map.empty, youngestTwigID = 0, activeTwigs = Map.empty,
             mtree4YoungestTwig = replicate 4096 zeroHash, leave4YoungestTwig = replicate 2048 (None, []),
             mtree4YTChangeStart = -1, mtree4YTChangeEnd = -1, twigsToBeDeleted = [], touchedPosOf512b = {},
             deactivedSNList = []\<rparr>
       in bindE (LoadTwigs meow (twigsPath dir) t) (\<lambda>t.
          bindE (LoadNodes meow (nodesPath dir) t) (\<lambda>t.
            LoadMtree4YT meow (mtree4YTPath dir) t))))"

section \<open>Recovery from the entry file\<close>

definition clearDeactived :: "nat \<Rightarrow> int \<Rightarrow> Tree \<Rightarrow> Tree outcome" where
  "clearDeactived oldestActiveTwigID sn t =
     (let twigID = sn div 2 ^ TwigShift
      in if twigID < int oldestActiveTwigID then Inr t
         else bindE (lookupTwig t (nat twigID)) (\<lambda>tw.
              bindE (clearBit (nat (sn mod int LeafCountInTwig)) tw) (\<lambda>tw.
                Inr (t\<lparr>activeTwigs := (activeTwigs t)(nat twigID \<mapsto> tw)\<rparr>))))"

definition RecoverEntry :: "(bytes \<Rightarrow> bytes) \<Rightarrow> nat \<Rightarrow> Entry \<Rightarrow> int list \<Rightarrow> nat \<Rightarrow> Tree \<Rightarrow> Tree outcome" where
  "RecoverEntry sha pos e sns oldestActiveTwigID t0 =
     bindE (foldE (clearDeactived oldestActiveTwigID) sns t0) (\<lambda>t.
     bindE (nonneg (SerialNum e)) (\<lambda>sn.
       let twigID = sn div 2 ^ TwigShift; t = t\<lparr>youngestTwigID := twigID\<rparr>
       in bindE (ActiviateEntry sn t) (\<lambda>t.
       let position = sn mod LeafCountInTwig;
           t = t\<lparr>mtree4YTChangeStart := (if mtree4YTChangeStart t = -1 then int position else mtree4YTChangeStart t),
                 mtree4YTChangeEnd := int position,
                 mtree4YoungestTwig := (mtree4YoungestTwig t)[LeafCountInTwig + position := hash sha (EntryToBytes e sns)]\<rparr>
       in if position = 0 then
            bindE (lookupTwig t twigID) (\<lambda>tw. Inr (upd_twig twigID (\<lambda>tw. tw\<lparr>FirstEntryPos := int pos\<rparr>) t))
          else if position = TwigMask then
            bindE (syncMT4YoungestTwig sha t) (\<lambda>t.
              Inr (t\<lparr>youngestTwigID := youngestTwigID t + 1,
                    activeTwigs := (activeTwigs t)(youngestTwigID t + 1 \<mapsto> CopyNullTwig sha),
                    mtree4YoungestTwig := NullMT4Twig sha\<rparr>))
          else Inr t)))"

lemma getNextPos_greater: "off < getNextPos off len"
  by (simp add: getNextPos_def Let_def)

lemma readEntry_next: "readEntry ef off a b c = Inr ((bz, k, next), ef') \<Longrightarrow> off < next"
  by (auto simp: readEntry_def Let_def outcome_simps split: prod.splits if_splits intro: getNextPos_greater)

text \<open>
  The goroutine that scans the entry file; what it sends through the channel is a list. It stops the
  program when it panics, and reads nothing that the receiver writes.
\<close>

function ScanEntries_loop :: "EntryFile \<Rightarrow> nat \<Rightarrow> nat \<Rightarrow> (Entry \<times> nat \<times> int list) list outcome" where
  "ScanEntries_loop ef pos sz =
     (if pos < sz then
        (case ReadEntryAndSNList ef pos of Inl e \<Rightarrow> Inl e
         | Inr ((e, sns, nextPos), ef) \<Rightarrow>
             bindE (ScanEntries_loop ef nextPos sz) (\<lambda>xs. Inr ((e, pos, sns) # xs)))
      else Inr [])"
  by auto
termination
proof (relation "measure (\<lambda>(_, pos, sz). sz - pos)", goal_cases)
  case (2 ef pos sz)
  then show ?case
    by (auto simp: ReadEntryAndSNList_def outcome_simps split: prod.splits dest!: readEntry_next)
qed simp

definition ScanEntries :: "(bytes \<Rightarrow> bytes) \<Rightarrow> Tree \<Rightarrow> nat \<Rightarrow> (Entry \<times> nat \<times> int list) list outcome" where
  "ScanEntries meow t oldestActiveTwigID =
     bindE (GetFirstEntryPos meow (twigMtFile t) oldestActiveTwigID) (\<lambda>pos.
       if pos < 0 then (if pos < int (Size (entryFile t)) then Inl (IOError ''negative offset'') else Inr [])
       else ScanEntries_loop (entryFile t) (nat pos) (Size (entryFile t)))"

function ScanEntriesLite_loop :: "EntryFile \<Rightarrow> nat \<Rightarrow> nat \<Rightarrow> (bytes \<times> nat) list outcome" where
  "ScanEntriesLite_loop ef pos sz =
     (if pos < sz then
        (case ReadEntryRawBytes ef pos of Inl e \<Rightarrow> Inl e
         | Inr ((entryBz, next), ef) \<Rightarrow>
             bindE (ExtractKeyFromRawBytes entryBz) (\<lambda>key.
             bindE (ScanEntriesLite_loop ef next sz) (\<lambda>xs. Inr ((key, pos) # xs))))
      else Inr [])"
  by auto
termination
proof (relation "measure (\<lambda>(_, pos, sz). sz - pos)", goal_cases)
  case (2 ef pos sz)
  then show ?case
    by (auto simp: ReadEntryRawBytes_def outcome_simps split: prod.splits dest!: readEntry_next)
qed simp

definition ScanEntriesLite :: "(bytes \<Rightarrow> bytes) \<Rightarrow> Tree \<Rightarrow> nat \<Rightarrow> (bytes \<times> nat) list outcome" where
  "ScanEntriesLite meow t oldestActiveTwigID =
     bindE (GetFirstEntryPos meow (twigMtFile t) oldestActiveTwigID) (\<lambda>pos.
       if pos < 0 then (if pos < int (Size (entryFile t)) then Inl (IOError ''negative offset'') else Inr [])
       else ScanEntriesLite_loop (entryFile t) (nat pos) (Size (entryFile t)))"

definition RecoverActiveTwigs :: "(bytes \<Rightarrow> bytes) \<Rightarrow> (bytes \<Rightarrow> bytes) \<Rightarrow> nat \<Rightarrow> Tree \<Rightarrow> (nat list \<times> Tree) outcome" where
  "RecoverActiveTwigs sha meow oldestActiveTwigID t =
     bindE (ScanEntries meow t oldestActiveTwigID) (\<lambda>xs.
     bindE (foldE (\<lambda>(e, pos, sns). RecoverEntry sha pos e sns oldestActiveTwigID) xs t) (\<lambda>t.
     bindE (syncMT4YoungestTwig sha t) (\<lambda>t.
     bindE (syncMT4ActiveBits sha t) (\<lambda>(nList, t).
       Inr (nList, t\<lparr>touchedPosOf512b := {}\<rparr>)))))"

definition RecoverUpperNodes :: "(bytes \<Rightarrow> bytes) \<Rightarrow> (nat \<times> bytes) list \<Rightarrow> nat list \<Rightarrow> Tree \<Rightarrow> Tree outcome" where
  "RecoverUpperNodes sha edgeNodes nList t =
     syncUpperNodes sha nList (t\<lparr>nodes := fold (\<lambda>(pos, v) m. m(pos \<mapsto> v)) edgeNodes (nodes t)\<rparr>)"

text \<open>
  One round of the loop over the inactive twigs. The read of the hash node fails for a negative twig
  number, so that the rest of the round has a natural one.
\<close>

definition RecoverInactiveTwigRoot :: "(bytes \<Rightarrow> bytes) \<Rightarrow> int \<Rightarrow> nat list \<times> Tree \<Rightarrow> (nat list \<times> Tree) outcome" where
  "RecoverInactiveTwigRoot sha twigID nt =
     (let (newList, t) = nt
      in bindE (GetHashNode_int (twigMtFile t) twigID 1) (\<lambda>left.
           let root = hash2 sha 11 left (activeBitsMTL3 (NullTwig sha)); h = nat twigID div 2
           in Inr (if newList = [] \<or> last newList \<noteq> h then newList @ [h] else newList,
                t\<lparr>nodes := (nodes t)(Pos (FirstLevelAboveTwig - 1) (nat twigID) \<mapsto> root)\<rparr>)))"

text \<open>The list is made with a capacity, which must not be negative.\<close>

definition RecoverInactiveTwigRoots :: "(bytes \<Rightarrow> bytes) \<Rightarrow> int \<Rightarrow> int \<Rightarrow> Tree \<Rightarrow> (nat list \<times> Tree) outcome" where
  "RecoverInactiveTwigRoots sha lastPrunedTwigID oldestActiveTwigID t =
     bindE (guardE (0 \<le> 1 + (oldestActiveTwigID - lastPrunedTwigID) sdiv 2) (Panic ''makeslice: cap out of range'')) (\<lambda>_.
       foldE (RecoverInactiveTwigRoot sha) [lastPrunedTwigID .. oldestActiveTwigID - 1] ([], t))"

definition RecoverTree :: "(bytes \<Rightarrow> bytes) \<Rightarrow> (bytes \<Rightarrow> bytes) \<Rightarrow> nat \<Rightarrow> nat \<Rightarrow> tree_dir \<Rightarrow> (nat \<times> bytes) list \<Rightarrow>
    int \<Rightarrow> nat \<Rightarrow> nat \<Rightarrow> Tree outcome" where
  "RecoverTree sha meow bufSize blkSize dir edgeNodes lastPrunedTwigID oldestActiveTwigID youngest =
     bindE (NewEntryFile bufSize blkSize (entriesPath dir)) (\<lambda>ef.
     bindE (NewTwigMtFile bufSize blkSize (twigMtPath dir)) (\<lambda>tf.
       let t = \<lparr>entryFile = ef, twigMtFile = tf, nodes = Map.empty, youngestTwigID = youngest,
             activeTwigs = [oldestActiveTwigID \<mapsto> CopyNullTwig sha],
             mtree4YoungestTwig = NullMT4Twig sha, leave4YoungestTwig = replicate 2048 (None, []),
             mtree4YTChangeStart = -1, mtree4YTChangeEnd = -1, twigsToBeDeleted = [], touchedPosOf512b = {},
             deactivedSNList = []\<rparr>;
           start = (if lastPrunedTwigID \<ge> 0 \<and> odd lastPrunedTwigID then lastPrunedTwigID - 1 else lastPrunedTwigID)
       in bindE (RecoverInactiveTwigRoots sha start (int oldestActiveTwigID) t) (\<lambda>(nList0, t).
          bindE (RecoverActiveTwigs sha meow oldestActiveTwigID t) (\<lambda>(nList, t).
            let newList = (if nList0 \<noteq> [] \<and> nList \<noteq> [] \<and> last nList0 = hd nList then nList0 @ tl nList else nList0 @ nList)
            in RecoverUpperNodes sha edgeNodes newList t))))"

section \<open>Comparing trees\<close>

definition CompareTwig :: "Twig \<Rightarrow> Twig \<Rightarrow> unit outcome" where
  "CompareTwig a b =
     bindE (guardE (activeBits a = activeBits b) (Panic ''activeBits differ'')) (\<lambda>_.
     bindE (foldE (\<lambda>i _. guardE (activeBitsMTL1 a ! i = activeBitsMTL1 b ! i) (Panic ''activeBitsMTL1 differ'')) [0 ..< 4] ()) (\<lambda>_.
     bindE (foldE (\<lambda>i _. guardE (activeBitsMTL2 a ! i = activeBitsMTL2 b ! i) (Panic ''activeBitsMTL2 differ'')) [0 ..< 2] ()) (\<lambda>_.
     bindE (guardE (activeBitsMTL3 a = activeBitsMTL3 b) (Panic ''activeBitsMTL3 differ'')) (\<lambda>_.
     bindE (guardE (leftRoot a = leftRoot b) (Panic ''leftRoot differ'')) (\<lambda>_.
     bindE (guardE (twigRoot a = twigRoot b) (Panic ''twigRoot differ'')) (\<lambda>_.
       guardE (FirstEntryPos a = FirstEntryPos b) (Panic ''FirstEntryPos differ'')))))))"

text \<open>The loops over the maps of \<open>treeA\<close>, in the order \<open>order\<close>; a missing entry of \<open>treeB\<close> is a nil pointer.\<close>

definition CompareTreeTwigs :: "nat list \<Rightarrow> Tree \<Rightarrow> Tree \<Rightarrow> unit outcome" where
  "CompareTreeTwigs order treeA treeB =
     foldE (\<lambda>T _. bindE (lookupTwig treeA T) (\<lambda>a. bindE (lookupTwig treeB T) (\<lambda>b. CompareTwig a b))) order ()"

definition CompareTreeNodes :: "nat list \<Rightarrow> Tree \<Rightarrow> Tree \<Rightarrow> unit outcome" where
  "CompareTreeNodes order treeA treeB =
     bindE (guardE (card (dom (nodes treeA)) = card (dom (nodes treeB))) (Panic ''Different nodes count'')) (\<lambda>_.
     bindE (foldE (\<lambda>pos allSame. case nodes treeB pos of None \<Rightarrow> Inl NilDeref
         | Some hashB \<Rightarrow> Inr (allSame \<and> the (nodes treeA pos) = hashB)) order True) (\<lambda>allSame.
       guardE allSame (Panic ''Nodes Differ'')))"

section \<open>Round trips of the dumps\<close>

lemma readSlices_concat:
  "map length ss = map length ds \<Longrightarrow> \<forall>d \<in> set ds. d \<noteq> [] \<Longrightarrow> readSlices ss (concat ds @ rest) = Some (ds, rest)"
proof (induction ds arbitrary: ss)
  case (Cons d ds)
  then obtain s ss' where ss: "ss = s # ss'" "length s = length d" "map length ss' = map length ds" by (cases ss) auto
  have "file_Read s (d @ concat ds @ rest) = Some (d, concat ds @ rest)"
    using Cons.prems(2) ss(2) by (simp add: file_Read_def copy_at_def)
  with Cons ss show ?case by simp
qed simp

lemma list4: "length xs = 4 \<Longrightarrow> [xs ! 0, xs ! 1, xs ! 2, xs ! 3] = xs"
  by (auto simp: numeral_eq_Suc length_Suc_conv)

lemma list2: "length xs = 2 \<Longrightarrow> [xs ! 0, xs ! 1] = xs"
  by (auto simp: numeral_eq_Suc length_Suc_conv)

lemma LoadTwig_Dump:
  assumes m: "meow4 meow" and wf: "wf_twig tw" and T: "T < 2 ^ 64" and p: "in_int64 (FirstEntryPos tw)"
  shows "LoadTwigFromFile meow (Dump meow tw T @ rest) = Inr (T, tw, rest)"
proof -
  let ?ds = "twigSlices T tw @ [meow (concat (twigSlices T tw))]"
  have h: "\<forall>i < 4. length (activeBitsMTL1 tw ! i) = 32" "\<forall>i < 2. length (activeBitsMTL2 tw ! i) = 32"
    using wf by (auto simp: wf_twig_def)
  have lens: "map length ?ds = [8, 8, 256, 32, 32, 32, 32, 32, 32, 32, 32, 32, 4]"
    using wf m h by (simp add: twigSlices_def wf_twig_def meow4_def)
  have "\<forall>d \<in> set ?ds. d \<noteq> []"
  proof
    fix d assume "d \<in> set ?ds"
    then have "length d \<in> set (map length ?ds)" unfolding set_map by (rule imageI)
    then show "d \<noteq> []" unfolding lens by auto
  qed
  moreover have "map length (map (\<lambda>n. replicate n (0 :: byte)) [8, 8, 256, 32, 32, 32, 32, 32, 32, 32, 32, 32, 4]) = map length ?ds"
    unfolding lens by simp
  ultimately have r: "readSlices (map (\<lambda>n. replicate n 0) [8, 8, 256, 32, 32, 32, 32, 32, 32, 32, 32, 32, 4]) (concat ?ds @ rest) = Some (?ds, rest)"
    by (intro readSlices_concat)
  have nth: "?ds ! 12 = meow (concat (twigSlices T tw))" "take 12 ?ds = twigSlices T tw"
    by (simp_all add: twigSlices_def)
  have "\<lparr>activeBits = ?ds ! 2, activeBitsMTL1 = [?ds ! 3, ?ds ! 4, ?ds ! 5, ?ds ! 6], activeBitsMTL2 = [?ds ! 7, ?ds ! 8],
      activeBitsMTL3 = ?ds ! 9, leftRoot = ?ds ! 10, twigRoot = ?ds ! 11, FirstEntryPos = int64 (get_le (?ds ! 1))\<rparr> = tw"
    using list4 [of "activeBitsMTL1 tw"] list2 [of "activeBitsMTL2 tw"] wf p
    by (simp add: twigSlices_def wf_twig_def int64_uint64 numeral_2_eq_2)
  moreover have "get_le (?ds ! 0) = T" using T get_put_le_id [of T 8] by (simp add: twigSlices_def)
  ultimately show ?thesis
    unfolding LoadTwigFromFile_def Dump_def Let_def r using nth by simp
qed

lemma EdgeNodes_length: "\<forall>(p, v) \<in> set es. length v = 32 \<Longrightarrow> length (EdgeNodesToBytes es) = 40 * length es"
  by (induction es) (auto simp: EdgeNodesToBytes_def)

lemma BytesToEdgeNodes_EdgeNodesToBytes:
  assumes "\<forall>(p, v) \<in> set es. length v = 32 \<and> p < 2 ^ 64"
  shows "BytesToEdgeNodes (EdgeNodesToBytes es) = Inr es"
proof -
  let ?xs = "map (\<lambda>(p, v). put_le 8 p @ v) es"
  have len: "length (EdgeNodesToBytes es) = 40 * length es" using assms by (intro EdgeNodes_length) auto
  have c: "\<forall>x \<in> set ?xs. length x = 40" using assms by auto
  have "(get_le (subslice (EdgeNodesToBytes es) (40 * i) (40 * i + 8)), subslice (EdgeNodesToBytes es) (40 * i + 8) (40 * i + 40)) = es ! i"
    if i: "i < length es" for i
  proof -
    obtain p v where e: "es ! i = (p, v)" by (cases "es ! i")
    with assms i have pv: "length v = 32" "p < 2 ^ 64" using nth_mem by fastforce+
    have chunk: "subslice (concat ?xs) (40 * i) (40 * i + 40) = put_le 8 p @ v"
      using concat_chunk [OF c, of i] i e by simp
    have a: "subslice (concat ?xs) (40 * i) (40 * i + 8) = take 8 (subslice (concat ?xs) (40 * i) (40 * i + 40))"
      "subslice (concat ?xs) (40 * i + 8) (40 * i + 40) = drop 8 (subslice (concat ?xs) (40 * i) (40 * i + 40))"
      by (simp_all add: subslice_def drop_take add.commute)
    show ?thesis using pv get_put_le_id [of p 8] unfolding EdgeNodesToBytes_def a chunk e by simp
  qed
  then have "map (\<lambda>i. (get_le (subslice (EdgeNodesToBytes es) (40 * i) (40 * i + 8)), subslice (EdgeNodesToBytes es) (40 * i + 8) (40 * i + 40)))
      [0 ..< length es] = es"
    by (intro nth_equalityI) auto
  then show ?thesis by (simp add: BytesToEdgeNodes_def len)
qed

section \<open>Opening what a clean shutdown has written\<close>

lemma map_of_enum:
  "map_of (concat (map (\<lambda>i. case m i of None \<Rightarrow> [] | Some f \<Rightarrow> [(i, g i f)]) [0 ..< n])) i =
   (if i < n then map_option (g i) (m i) else None)"
  by (induction n) (auto simp: map_add_def less_Suc_eq split: option.splits)

lemma foldl_max:
  assumes "\<forall>x \<in> set xs. x \<le> (m :: nat)" and "m \<in> set xs \<or> a = m" and "a \<le> m"
  shows "foldl max a xs = m"
  using assms
proof (induction xs arbitrary: a)
  case (Cons x xs)
  then have "max a x \<le> m" "m \<in> set xs \<or> max a x = m" by auto
  with Cons show ?case by simp
qed simp

lemma NewHPFile_hp_dir:
  assumes h: "hp_inv h" and b: "buffer h = []" and bs: "blockSize h mod bufferSize h = 0"
  shows "\<exists>h'. NewHPFile (bufferSize h) (blockSize h) (hp_dir h) = Inr h' \<and> hp_inv h' \<and> stream h' = stream h \<and>
    blockSize h' = blockSize h \<and> bufferSize h' = bufferSize h \<and> Size h' = Size h \<and> buffer h' = []"
proof -
  from h obtain f where f: "fileMap h (largestID h) = Some f" "length (contents f) = latestFileSize h"
    "\<forall>i > largestID h. fileMap h i = None" "0 < bufferSize h"
    using b by (auto simp: hp_inv_def hp_ok_def)
  have ids: "\<forall>x \<in> set (map fst (hp_dir h)). x \<le> largestID h" "largestID h \<in> set (map fst (hp_dir h))"
    using f by (auto simp: hp_dir_def split: option.splits)
  then have big: "foldl max 0 (map fst (hp_dir h)) = largestID h" by (intro foldl_max) auto
  have ne: "hp_dir h \<noteq> []" using ids(2) by auto
  have dir: "map_of (hp_dir h) i = map_option contents (fileMap h i)" for i
    unfolding hp_dir_def map_of_enum using f(3) by (cases "fileMap h i") (auto simp: not_less_eq dest: not_le_imp_less)
  let ?o = "\<lambda>i c. \<lparr>contents = c, offset = (if i = largestID h then length c else 0)\<rparr>"
  have opened: "map_of (map (\<lambda>(i, c). (i, ?o i c)) xs) i = map_option (?o i) (map_of xs i)" for i xs
    by (induction xs) auto
  show ?thesis
    using h f b bs unfolding NewHPFile_def big Let_def
    by (auto simp: ne opened dir hp_inv_def hp_ok_def stream_def Size_def fun_eq_iff option.map_comp comp_def)
qed

text \<open>The twig list, read back in order.\<close>

definition load1 :: "(nat \<Rightarrow> Twig) \<Rightarrow> nat \<Rightarrow> Tree \<Rightarrow> Tree" where
  "load1 f T t = t\<lparr>activeTwigs := (activeTwigs t)(T \<mapsto> f T), youngestTwigID := max (youngestTwigID t) T\<rparr>"

lemma LoadTwigs_Dump:
  assumes m: "meow4 meow" and T: "\<forall>T \<in> set Ts. wf_twig (f T) \<and> in_int64 (FirstEntryPos (f T)) \<and> T < 2 ^ 63"
  shows "LoadTwigs meow (concat (map (\<lambda>T. Dump meow (f T) T) Ts)) t = Inr (fold (load1 f) Ts t)"
  using T
proof (induction Ts arbitrary: t)
  case Nil
  then show ?case by (subst LoadTwigs.simps) (simp add: LoadTwigFromFile_def file_Read_def)
next
  case (Cons T Ts)
  then have a: "wf_twig (f T)" "in_int64 (FirstEntryPos (f T))" "T < 2 ^ 63" "T < 2 ^ 64" by auto
  have "int64 T = int T" using a(3) by (simp add: int64_def)
  then have "(if int (youngestTwigID t) < int64 T then T else youngestTwigID t) = max (youngestTwigID t) T" by auto
  with Cons LoadTwig_Dump [OF m a(1,4,2)] show ?case
    by (subst LoadTwigs.simps) (simp add: load1_def [of f T t] del: LoadTwigs.simps)
qed

lemma fold_load1_activeTwigs:
  "activeTwigs (fold (load1 f) Ts t) T = (if T \<in> set Ts then Some (f T) else activeTwigs t T)"
  by (induction Ts arbitrary: t) (auto simp: load1_def)

lemma fold_load1_youngest: "youngestTwigID (fold (load1 f) Ts t) = fold max Ts (youngestTwigID t)"
  by (induction Ts arbitrary: t) (auto simp: load1_def max.commute)

lemma fold_load1_fields:
  "\<exists>A y. fold (load1 f) Ts t = t\<lparr>activeTwigs := A, youngestTwigID := y\<rparr>"
proof (induction Ts arbitrary: t)
  case Nil
  show ?case by (intro exI [of _ "activeTwigs t"] exI [of _ "youngestTwigID t"]) simp
next
  case (Cons T Ts)
  from Cons [of "load1 f T t"] obtain A y where
    "fold (load1 f) Ts (load1 f T t) = (load1 f T t)\<lparr>activeTwigs := A, youngestTwigID := y\<rparr>" by blast
  then show ?case by (intro exI [of _ A] exI [of _ y]) (simp add: load1_def [of f T t])
qed

lemma LoadNodes_Dump:
  assumes m: "meow4 meow" and P: "\<forall>p \<in> set ps. length (v p) = 32 \<and> p < 2 ^ 64" and b: "length buf = 44"
  shows "LoadNodes_loop meow buf (concat (map (\<lambda>p. let b = EdgeNodesToBytes [(p, v p)] in b @ meow b) ps)) N =
    Inr (fold (\<lambda>p N. N(p \<mapsto> v p)) ps N)"
  using P b
proof (induction ps arbitrary: buf N)
  case Nil
  then show ?case by (subst LoadNodes_loop.simps) (simp add: file_Read_def)
next
  case (Cons p ps)
  let ?e = "EdgeNodesToBytes [(p, v p)]" and ?r = "concat (map (\<lambda>p. let b = EdgeNodesToBytes [(p, v p)] in b @ meow b) ps)"
  from Cons.prems have e: "length ?e = 40" "BytesToEdgeNodes ?e = Inr [(p, v p)]"
    using EdgeNodes_length [of "[(p, v p)]"] BytesToEdgeNodes_EdgeNodesToBytes [of "[(p, v p)]"] by simp_all
  have l: "length (?e @ meow ?e) = 44" using e(1) m by (simp add: meow4_def)
  then have "file_Read buf ((?e @ meow ?e) @ ?r) = Some (?e @ meow ?e, ?r)"
    using Cons.prems(2) by (auto simp: file_Read_def copy_at_def)
  moreover have "LoadNodes_loop meow (?e @ meow ?e) ?r (N(p \<mapsto> v p)) = Inr (fold (\<lambda>p N. N(p \<mapsto> v p)) ps (N(p \<mapsto> v p)))"
    using Cons.prems l by (intro Cons.IH) auto
  ultimately show ?case using e l by (subst LoadNodes_loop.simps) (simp add: Let_def del: LoadNodes_loop.simps)
qed

lemma fold_upd: "fold (\<lambda>p N. N(p \<mapsto> v p)) ps N p = (if p \<in> set ps then Some (v p) else N p)"
  by (induction ps arbitrary: N) auto

lemma LoadMtree_Dump:
  assumes m: "meow4 meow" and l: "map length (mtree4YoungestTwig u) = map length mt" "\<forall>d \<in> set mt. d \<noteq> []"
  shows "LoadMtree4YT meow (concat mt @ meow (concat mt)) u = Inr (u\<lparr>mtree4YoungestTwig := mt\<rparr>)"
proof -
  have "length (meow (concat mt)) = 4" using m by (simp add: meow4_def)
  then have "file_Read (replicate 4 0) (meow (concat mt)) = Some (meow (concat mt), [])"
    by (auto simp: file_Read_def copy_at_def)
  then show ?thesis by (simp add: LoadMtree4YT_def readSlices_concat [OF l])
qed

text \<open>A tree between two blocks, and what a restart makes of it: everything that is pending is dropped.\<close>

definition reload :: "EntryFile \<Rightarrow> TwigMtFile \<Rightarrow> Tree \<Rightarrow> Tree" where
  "reload ef tf t = t\<lparr>entryFile := ef, twigMtFile := tf, leave4YoungestTwig := replicate 2048 (None, []),
     mtree4YTChangeStart := -1, mtree4YTChangeEnd := -1, twigsToBeDeleted := [], touchedPosOf512b := {}, deactivedSNList := []\<rparr>"

lemma reload_fields [simp]:
  "activeTwigs (reload ef tf t) = activeTwigs t" "nodes (reload ef tf t) = nodes t"
  "mtree4YoungestTwig (reload ef tf t) = mtree4YoungestTwig t" "youngestTwigID (reload ef tf t) = youngestTwigID t"
  "entryFile (reload ef tf t) = ef" "twigMtFile (reload ef tf t) = tf" "touchedPosOf512b (reload ef tf t) = {}"
  "mtree4YTChangeStart (reload ef tf t) = -1" "twigsToBeDeleted (reload ef tf t) = []" "deactivedSNList (reload ef tf t) = []"
  "leave4YoungestTwig (reload ef tf t) = replicate 2048 (None, [])"
  by (simp_all add: reload_def)

lemma synced_reload:
  assumes "synced sha E t"
  shows "synced sha E (reload ef tf t)"
proof -
  have h: "hash_inv sha E t" and s: "touchedPosOf512b t = {}" "mtree4YTChangeStart t = -1" "0 < youngestTwigID t"
    using assms by (simp_all add: synced_def)
  have rd: "rd (reload ef tf t) c = rd t c" for c
    by (cases c) (simp_all add: rd.simps twig_field_def)
  have up: "upper_of (reload ef tf t) = upper_of t"
    by (simp add: fun_eq_iff upper_of_def getTwigRoot_def split: option.split)
  have "hash_inv sha E (reload ef tf t)"
    using h s by (simp add: hash_inv_def up sizes_ok_def nodes_ok_def youngest_ok_def active_ok_def mt_pending_def mt_upto_def
        mt_cons_def bits_pending_def twig_pending_def ok1_def ok2_def ok3_def rd touchedTwigs_def pendingTwigs_def)
  with s show ?thesis by (simp add: synced_def)
qed

lemma nodes_pos_bound:
  assumes h: "hash_inv sha E t" and p: "nodes t p = Some v"
  shows "p < 2 ^ 64"
proof -
  let ?l = "p div 2 ^ 56" and ?i = "p mod 2 ^ 56" and ?M = "calcMaxLevel (youngestTwigID t)"
  have y: "youngestTwigID t < 2 ^ 52" using h by (simp add: hash_inv_def)
  then have M: "?M \<le> 64" using calcMaxLevel_eq [of "youngestTwigID t"] bits_Len_le [of "youngestTwigID t" 52] by simp
  have i: "?i < 2 ^ 56" by simp
  have pos: "Pos ?l ?i = p" unfolding Pos_eq [OF i] by simp
  have "?l \<le> 64"
  proof (cases "13 \<le> ?l")
    case True
    then have "upper_of t ?l ?i \<noteq> None" using p pos i by (simp add: upper_of_def)
    with upperD(4) [of sha "pendingTwigs t" E "youngestTwigID t" ?M 13 "upper_of t" ?l ?i] h True M
    show ?thesis by (auto simp: hash_inv_def)
  qed simp
  then have "p < 65 * 2 ^ 56" using div_less_iff_less_mult [of "2 ^ 56" p 65] by simp
  then show ?thesis by simp
qed

lemma InitPreReader_fields [simp]:
  "hp_inv (InitPreReader h) = hp_inv h" "Size (InitPreReader h) = Size h" "bufferSize (InitPreReader h) = bufferSize h"
  "blockSize (InitPreReader h) = blockSize h" "buffer (InitPreReader h) = buffer h"
  by (simp_all add: InitPreReader_def hp_inv_def hp_ok_def Size_def)

lemma flush_empty: "buffer h = [] \<Longrightarrow> flush h = Inr h"
  by (simp add: flush_def split: option.split)

lemma set_twigList: "active_ok E t \<Longrightarrow> T \<in> set (twigList t) \<longleftrightarrow> activeTwigs t T \<noteq> None"
proof -
  assume "active_ok E t"
  then have "activeTwigs t T \<noteq> None \<Longrightarrow> T < Suc (youngestTwigID t)" by (simp only: active_ok_def less_Suc_eq_le) blast
  moreover have "T \<in> set (twigList t) \<longleftrightarrow> T < Suc (youngestTwigID t) \<and> activeTwigs t T \<noteq> None"
    by (simp add: twigList_def del: upt_Suc)
  ultimately show ?thesis by blast
qed

lemma fold_max_twigs: "\<forall>x \<in> set xs. x \<le> (m :: nat) \<Longrightarrow> m \<in> set xs \<Longrightarrow> fold max xs 0 = m"
  using foldl_max [of xs m 0] by (simp add: foldl_conv_fold max.commute)

text \<open>
  The files and dumps of a tree between two blocks, opened again. The loop over the nodes may visit
  them in any order.
\<close>

lemma LoadTree_Flush:
  assumes m: "meow4 meow" and inv: "tree_inv sha E n t" and sy: "synced sha E t"
    and b: "buffer (entryFile t) = []" "buffer (twigMtFile t) = []"
    and bs: "bufferSize (entryFile t) = bs" "bufferSize (twigMtFile t) = bs" "blockSize (entryFile t) = bl"
      "blockSize (twigMtFile t) = bl" "bl mod bs = 0"
    and fp: "\<forall>T tw. activeTwigs t T = Some tw \<longrightarrow> in_int64 (FirstEntryPos tw)" and ord: "set order = dom (nodes t)"
  shows "\<exists>dir ef tf. Flush meow order t = Inr (t, dir) \<and> LoadTree meow bs bl dir = Inr (reload ef tf t) \<and>
    stored ef = stored (entryFile t) \<and> stored tf = stored (twigMtFile t) \<and> tree_inv sha E n (reload ef tf t)"
proof -
  have h: "hash_inv sha E t" and f: "files_inv n t" using inv by (simp_all add: tree_inv_def)
  then have ok: "active_ok E t" "sizes_ok t" "youngestTwigID t < 2 ^ 52" "youngest_ok t" by (simp_all add: hash_inv_def)
  define dir where "dir = \<lparr>entriesPath = hp_dir (entryFile t), twigMtPath = hp_dir (twigMtFile t),
    twigsPath = concat (map (\<lambda>T. Dump meow (the (activeTwigs t T)) T) (twigList t)),
    nodesPath = DumpNodes meow order t, mtree4YTPath = DumpMtree4YT meow t\<rparr>"
  have fl: "Flush meow order t = Inr (t, dir)" by (simp add: Flush_def flush_empty b dir_def)
  from NewHPFile_hp_dir [of "entryFile t"] f b bs obtain ef where ef: "NewHPFile bs bl (entriesPath dir) = Inr ef" "hp_inv ef"
    "stream ef = stream (entryFile t)" "blockSize ef = bl" "bufferSize ef = bs" "Size ef = Size (entryFile t)"
    by (auto simp: files_inv_def dir_def)
  from NewHPFile_hp_dir [of "twigMtFile t"] f b bs obtain tf where tf: "NewHPFile bs bl (twigMtPath dir) = Inr tf" "hp_inv tf"
    "stream tf = stream (twigMtFile t)" "blockSize tf = bl" "bufferSize tf = bs" "Size tf = Size (twigMtFile t)"
    by (auto simp: files_inv_def dir_def)
  have st: "stored (InitPreReader ef) = stored (entryFile t)" "stored tf = stored (twigMtFile t)"
    using ef tf bs by (simp_all add: InitPreReader_def stored_def fun_eq_iff)
  define t0 where "t0 = \<lparr>entryFile = InitPreReader ef, twigMtFile = tf, nodes = Map.empty, youngestTwigID = 0, activeTwigs = Map.empty,
    mtree4YoungestTwig = replicate 4096 zeroHash, leave4YoungestTwig = replicate 2048 (None, []),
    mtree4YTChangeStart = -1, mtree4YTChangeEnd = -1, twigsToBeDeleted = [], touchedPosOf512b = {}, deactivedSNList = []\<rparr>"
  let ?f = "\<lambda>T. the (activeTwigs t T)"
  have tw: "\<forall>T \<in> set (twigList t). wf_twig (?f T) \<and> in_int64 (FirstEntryPos (?f T)) \<and> T < 2 ^ 63"
  proof
    fix T assume "T \<in> set (twigList t)"
    then obtain w where w: "activeTwigs t T = Some w" by (auto simp: set_twigList [OF ok(1)])
    then have "T \<le> youngestTwigID t" using ok(1) by (simp add: active_ok_def)
    moreover have "wf_twig w" using ok(2) w by (auto simp: sizes_ok_def)
    ultimately show "wf_twig (?f T) \<and> in_int64 (FirstEntryPos (?f T)) \<and> T < 2 ^ 63" using w fp ok(3) by auto
  qed
  obtain A y where Ay: "fold (load1 ?f) (twigList t) t0 = t0\<lparr>activeTwigs := A, youngestTwigID := y\<rparr>"
    using fold_load1_fields by blast
  have "A = activeTwigs t"
    using fold_load1_activeTwigs [of ?f "twigList t" t0] Ay by (auto simp: fun_eq_iff set_twigList [OF ok(1)] t0_def)
  moreover have "y = youngestTwigID t"
  proof -
    have "\<forall>x \<in> set (twigList t). x \<le> youngestTwigID t" "youngestTwigID t \<in> set (twigList t)"
      using ok(1,4) by (auto simp: set_twigList [OF ok(1)] active_ok_def youngest_ok_def)
    from fold_max_twigs [OF this] show ?thesis
      using fold_load1_youngest [of ?f "twigList t" t0] Ay by (simp add: t0_def)
  qed
  ultimately have l1: "LoadTwigs meow (twigsPath dir) t0 = Inr (t0\<lparr>activeTwigs := activeTwigs t, youngestTwigID := youngestTwigID t\<rparr>)"
    using LoadTwigs_Dump [OF m tw, of t0] Ay by (simp add: dir_def)
  have nd: "\<forall>p \<in> set order. length (the (nodes t p)) = 32 \<and> p < 2 ^ 64"
    using ord ok(2) nodes_pos_bound [OF h] by (auto simp: sizes_ok_def)
  have "fold (\<lambda>p N. N(p \<mapsto> the (nodes t p))) order Map.empty = nodes t"
    using ord by (auto simp: fun_eq_iff fold_upd domIff)
  then have l2: "LoadNodes meow (nodesPath dir) u = Inr (u\<lparr>nodes := nodes t\<rparr>)" if "nodes u = Map.empty" for u
    using LoadNodes_Dump [OF m nd, of "replicate 44 0" Map.empty] that by (simp add: LoadNodes_def dir_def DumpNodes_def)
  have "map length (replicate 4096 zeroHash) = map length (mtree4YoungestTwig t)"
    using ok(2) by (auto simp: sizes_ok_def intro!: nth_equalityI)
  moreover have "\<forall>d \<in> set (mtree4YoungestTwig t). d \<noteq> []" using ok(2) by (auto simp: sizes_ok_def)
  ultimately have l3: "LoadMtree4YT meow (mtree4YTPath dir) u = Inr (u\<lparr>mtree4YoungestTwig := mtree4YoungestTwig t\<rparr>)"
    if "mtree4YoungestTwig u = replicate 4096 zeroHash" for u
    using LoadMtree_Dump [OF m, of u] that by (simp add: dir_def DumpMtree4YT_def)
  have "LoadTree meow bs bl dir = Inr (reload (InitPreReader ef) tf t)"
    using ef(1) tf(1) l1 l2 l3
    by (simp add: LoadTree_def NewEntryFile_def NewTwigMtFile_def t0_def [symmetric]) (simp add: t0_def reload_def)
  moreover have "tree_inv sha E n (reload (InitPreReader ef) tf t)"
  proof -
    have "files_inv n (reload (InitPreReader ef) tf t)"
      using f ef tf bs unfolding files_inv_def reload_fields InitPreReader_fields by auto
    then show ?thesis using synced_reload [OF sy] by (simp add: tree_inv_def synced_def)
  qed
  ultimately show ?thesis using fl st by blast
qed

section \<open>The properties of shutdown and restart\<close>

lemma syncUpperNodes_none: "\<forall>l \<in> set ls. 13 \<le> l \<Longrightarrow> foldE (syncNodesByLevel sha) ls ([], t) = Inr ([], t)"
  by (induction ls) (auto simp: syncNodesByLevel_def maxNAtLevel_def halve_def Run_def)

text \<open>The end of a block in which nothing happened.\<close>

lemma EndBlock_synced:
  assumes "synced sha E t" and "twigsToBeDeleted t = []" and "hp_inv (entryFile t)" and "hp_inv (twigMtFile t)"
    and "nodes t (Pos (calcMaxLevel (youngestTwigID t)) 0) = Some root"
  shows "\<exists>t'. EndBlock sha t = Inr (root, t')"
proof -
  from assms(1) have s: "touchedPosOf512b t = {}" "mtree4YTChangeStart t = -1" by (simp_all add: synced_def)
  have up: "syncUpperNodes sha [] t = Inr t" by (simp add: syncUpperNodes_def syncUpperNodes_none)
  have "syncMT sha t = Inr (root, t)"
    using s up assms(5) by (simp add: syncMT_def syncMT4YoungestTwig_def syncMT4ActiveBits_def halve_def Run_def)
  moreover obtain ef tf where "flush (entryFile t) = Inr ef" "flush (twigMtFile t) = Inr tf"
    using assms(3,4) flush_ok unfolding hp_inv_def by blast
  ultimately show ?thesis using assms(2) by (simp add: EndBlock_def)
qed

text \<open>
  C22: after the end of a block a clean shutdown writes a directory from which \<open>LoadTree\<close> builds a tree
  with the same active twigs, nodes and Merkle tree of the youngest twig, in whose files every stored
  record is found again; it passes the consistency check, and its next block ends with the same root.
\<close>

theorem Flush_LoadTree:
  assumes "hash32 sha" and "meow4 meow" and "tree_run sha meow n t" and "0 < youngestTwigID t"
    and "EndBlock sha t = Inr (root, t1)"
    and "bufferSize (entryFile t1) = bs" and "bufferSize (twigMtFile t1) = bs" and "blockSize (entryFile t1) = bl"
    and "blockSize (twigMtFile t1) = bl" and "bl mod bs = 0"
    and "Size (entryFile t1) < 2 ^ 63" and "set order = dom (nodes t1)"
  shows "\<exists>dir u u'. Flush meow order t1 = Inr (t1, dir) \<and> LoadTree meow bs bl dir = Inr u \<and>
    activeTwigs u = activeTwigs t1 \<and> nodes u = nodes t1 \<and> youngestTwigID u = youngestTwigID t1 \<and>
    mtree4YoungestTwig u = mtree4YoungestTwig t1 \<and>
    stored (entryFile u) = stored (entryFile t1) \<and> stored (twigMtFile u) = stored (twigMtFile t1) \<and>
    CheckHashConsistency sha u \<and> EndBlock sha u = Inr (root, u')"
proof -
  have inv: "tree_inv sha 0 n t" by (rule tree_run_inv [OF assms(1-3)])
  from EndBlock_ok [OF assms(1) inv assms(4)] assms(5) tree_run_pos [OF assms(1-3)] have t1: "tree_inv sha 0 n t1" "synced sha 0 t1"
    "nodes t1 (Pos (calcMaxLevel (youngestTwigID t1)) 0) = Some root" "buffer (entryFile t1) = []" "buffer (twigMtFile t1) = []"
    "pos_ok t1" by auto
  have fp: "\<forall>T tw. activeTwigs t1 T = Some tw \<longrightarrow> in_int64 (FirstEntryPos tw)"
    using t1(6) assms(11) by (force simp: pos_ok_def in_int64_def)
  from LoadTree_Flush [OF assms(2) t1(1,2,4,5) assms(6-10) fp assms(12)] obtain dir ef tf where d: "Flush meow order t1 = Inr (t1, dir)"
    "LoadTree meow bs bl dir = Inr (reload ef tf t1)" "stored ef = stored (entryFile t1)" "stored tf = stored (twigMtFile t1)"
    "tree_inv sha 0 n (reload ef tf t1)" by blast
  have s: "synced sha 0 (reload ef tf t1)" by (rule synced_reload [OF t1(2)])
  have f: "hp_inv ef" "hp_inv tf" using d(5) by (simp_all add: tree_inv_def files_inv_def)
  from EndBlock_synced [OF s] f t1(3) obtain u' where "EndBlock sha (reload ef tf t1) = Inr (root, u')" by auto
  with d synced_consistent [OF s] show ?thesis by auto
qed

theorem Flush_LoadTree_witness:
  "\<exists>t root t1 order dir u. tree_run zero_sha zero_meow 2048 t \<and> EndBlock zero_sha t = Inr (root, t1) \<and>
    Flush zero_meow order t1 = Inr (t1, dir) \<and> LoadTree zero_meow 128 128 dir = Inr u \<and> nodes u = nodes t1"
proof -
  from dummy_twig_conf obtain t where t: "tree_run zero_sha zero_meow 2048 t" "youngestTwigID t = 1" "conf128 2048 t" by blast
  have inv: "tree_inv zero_sha 0 2048 t" by (rule tree_run_inv [OF zero_hashes t(1)])
  then have hp: "hp_inv (entryFile t)" "hp_inv (twigMtFile t)" by (simp_all add: tree_inv_def files_inv_def)
  from EndBlock_ok [OF _ inv] t(2) obtain root t1 where t1: "EndBlock zero_sha t = Inr (root, t1)"
    "flush (entryFile t) = Inr (entryFile t1)" "flush (twigMtFile t) = Inr (twigMtFile t1)" "synced zero_sha 0 t1" by auto
  with hp flush_ok [of "entryFile t"] flush_ok [of "twigMtFile t"] t(3) have c: "bufferSize (entryFile t1) = 128"
    "bufferSize (twigMtFile t1) = 128" "blockSize (entryFile t1) = 128" "blockSize (twigMtFile t1) = 128"
    "Size (entryFile t1) < 2 ^ 63" by (auto simp: hp_inv_def conf128_def Size_def)
  have "dom (nodes t1) \<subseteq> {p. p < 2 ^ 64}"
  proof
    fix p assume "p \<in> dom (nodes t1)"
    then obtain v where "nodes t1 p = Some v" by auto
    then show "p \<in> {p. p < 2 ^ 64}" using t1(4) nodes_pos_bound [of zero_sha 0 t1 p v] unfolding synced_def by blast
  qed
  then have "finite (dom (nodes t1))" by (rule finite_subset) (rule finite_Collect_less_nat)
  from finite_list [OF this] obtain order where "set order = dom (nodes t1)" by (elim exE)
  from Flush_LoadTree [OF zero_hashes t(1) _ t1(1) c(1-4) _ c(5) this] t(2) obtain dir u where
    "Flush zero_meow order t1 = Inr (t1, dir)" "LoadTree zero_meow 128 128 dir = Inr u" "nodes u = nodes t1" by auto
  with t(1) t1(1) show ?thesis by blast
qed

text \<open>
  The dumps are read back: a twig with its number by \<open>LoadTwigFromFile\<close>, which leaves the rest of
  the file, and the bytes of a list of edge nodes by \<open>BytesToEdgeNodes\<close>.
\<close>

theorem Dump_roundtrip:
  assumes "meow4 meow" and "wf_twig tw" and "T < 2 ^ 64" and "in_int64 (FirstEntryPos tw)"
    and "\<forall>(p, v) \<in> set es. length v = 32 \<and> p < 2 ^ 64"
  shows "LoadTwigFromFile meow (Dump meow tw T @ rest) = Inr (T, tw, rest) \<and>
    BytesToEdgeNodes (EdgeNodesToBytes es) = Inr es"
  using LoadTwig_Dump [OF assms(1-4)] BytesToEdgeNodes_EdgeNodesToBytes [of es] assms(5) by auto

theorem Dump_roundtrip_witness:
  "LoadTwigFromFile zero_meow (Dump zero_meow (NullTwig zero_sha) 7 @ [1, 2]) = Inr (7, NullTwig zero_sha, [1, 2]) \<and>
   BytesToEdgeNodes (EdgeNodesToBytes [(Pos 13 5, zeroHash)]) = Inr [(Pos 13 5, zeroHash)]"
proof -
  have "Pos 13 5 < 2 ^ 64" by (simp add: Pos_eq)
  then have "\<forall>(p, v) \<in> set [(Pos 13 5, zeroHash)]. length v = 32 \<and> p < 2 ^ 64" by simp
  moreover have "in_int64 (FirstEntryPos (NullTwig zero_sha))" by (simp add: NullTwig_def Let_def in_int64_def)
  ultimately show ?thesis
    using Dump_roundtrip [of zero_meow "NullTwig zero_sha" 7 "[(Pos 13 5, zeroHash)]" "[1, 2]"] wf_NullTwig [of zero_sha] by simp
qed

text \<open>
  Recovery with a negative number of the last pruned twig never gives a tree: the loop over the inactive
  twigs starts in front of the twig file. No directory is recovered.
\<close>

lemma RecoverTree_negative:
  assumes "lastPruned < 0"
  shows "\<exists>err. RecoverTree sha meow bs bl dir es lastPruned oldest y = Inl err"
proof -
  have "[lastPruned .. int oldest - 1] = lastPruned # [lastPruned + 1 .. int oldest - 1]" using assms by (intro upto_rec1) simp
  moreover have "\<exists>err. RecoverInactiveTwigRoot sha lastPruned ([], t) = Inl err" for t
    using GetHashNode_negative [OF assms, of "twigMtFile t" 1] by (auto simp: RecoverInactiveTwigRoot_def)
  then obtain e where "\<And>t. RecoverInactiveTwigRoot sha lastPruned ([], t) = Inl (e t)" by metis
  ultimately have "\<exists>err. RecoverInactiveTwigRoots sha lastPruned (int oldest) t = Inl err" for t
    by (simp add: RecoverInactiveTwigRoots_def guardE_def)
  then have "\<forall>t. \<exists>err. RecoverInactiveTwigRoots sha lastPruned (int oldest) t = Inl err" by blast
  then obtain err where "\<And>t. RecoverInactiveTwigRoots sha lastPruned (int oldest) t = Inl (err t)" by metis
  with assms show ?thesis by (simp add: RecoverTree_def Let_def bindE_def split: sum.split)
qed

lemma guard_ok [simp]: "guardE b e = Inr () \<longleftrightarrow> b"
  by (simp add: guardE_def)

lemma foldE_guards: "foldE (\<lambda>i _. guardE (P i) e) is () = Inr () \<longleftrightarrow> (\<forall>i \<in> set is. P i)"
  by (induction "is") (auto simp: guardE_def)

lemma CompareTwig_iff:
  assumes "wf_twig a" and "wf_twig b"
  shows "CompareTwig a b = Inr () \<longleftrightarrow> a = b"
proof -
  have "activeBitsMTL1 a = activeBitsMTL1 b" if "\<forall>i \<in> set [0 ..< 4]. activeBitsMTL1 a ! i = activeBitsMTL1 b ! i"
    using assms that by (intro nth_equalityI) (auto simp: wf_twig_def)
  moreover have "activeBitsMTL2 a = activeBitsMTL2 b" if "\<forall>i \<in> set [0 ..< 2]. activeBitsMTL2 a ! i = activeBitsMTL2 b ! i"
    using assms that by (intro nth_equalityI) (auto simp: wf_twig_def)
  ultimately show ?thesis
    unfolding CompareTwig_def by (auto simp: outcome_simps foldE_guards simp del: set_upt split: sum.splits)
qed

lemma CompareTreeTwigs_iff:
  assumes "\<forall>T tw. activeTwigs a T = Some tw \<longrightarrow> wf_twig tw" and "\<forall>T tw. activeTwigs b T = Some tw \<longrightarrow> wf_twig tw"
    and "set order \<subseteq> dom (activeTwigs a)"
  shows "CompareTreeTwigs order a b = Inr () \<longleftrightarrow> (\<forall>T \<in> set order. activeTwigs b T = activeTwigs a T)"
  using assms(3)
proof (induction order)
  case (Cons T Ts)
  then obtain w where w: "activeTwigs a T = Some w" by auto
  moreover have "wf_twig w" using w assms(1) by simp
  ultimately show ?case using Cons assms(2) CompareTwig_iff [of w]
    by (cases "activeTwigs b T") (auto simp: CompareTreeTwigs_def lookupTwig_def outcome_simps split: sum.splits)
qed (simp add: CompareTreeTwigs_def)

lemma CompareTreeNodes_loop:
  "set order \<subseteq> dom (nodes a) \<Longrightarrow> foldE (\<lambda>pos allSame. case nodes b pos of None \<Rightarrow> Inl NilDeref
     | Some hashB \<Rightarrow> Inr (allSame \<and> the (nodes a pos) = hashB)) order s = Inr True \<longleftrightarrow>
   s \<and> (\<forall>p \<in> set order. nodes b p = nodes a p)"
  by (induction order arbitrary: s) (auto simp: domIff split: option.splits)

lemma CompareTreeNodes_iff:
  assumes "set order = dom (nodes a)" and "finite (dom (nodes b))"
  shows "CompareTreeNodes order a b = Inr () \<longleftrightarrow> nodes b = nodes a"
proof
  assume "CompareTreeNodes order a b = Inr ()"
  then have c: "card (dom (nodes a)) = card (dom (nodes b))" and "\<forall>p \<in> set order. nodes b p = nodes a p"
    using CompareTreeNodes_loop [of order a b True] assms(1)
    by (auto simp: CompareTreeNodes_def guardE_def outcome_simps split: if_splits sum.splits)
  then have eq: "\<forall>p \<in> dom (nodes a). nodes b p = nodes a p" using assms(1) by simp
  then have "dom (nodes a) \<subseteq> dom (nodes b)" by (auto simp: domIff)
  with c assms(2) have "dom (nodes a) = dom (nodes b)" by (simp add: card_subset_eq)
  with eq show "nodes b = nodes a" by (auto simp: fun_eq_iff domIff) (metis domIff)
next
  assume "nodes b = nodes a"
  then show "CompareTreeNodes order a b = Inr ()"
    using CompareTreeNodes_loop [of order a b True] assms(1) by (simp add: CompareTreeNodes_def)
qed

text \<open>
  The comparison of two trees decides equality: \<open>CompareTreeTwigs\<close> returns without a panic exactly
  when every active twig of the first tree is an equal active twig of the second, and
  \<open>CompareTreeNodes\<close> exactly when the two trees have the same nodes, in whatever order the maps are
  iterated.
\<close>

theorem Compare_trees:
  assumes "\<forall>T tw. activeTwigs a T = Some tw \<longrightarrow> wf_twig tw" and "\<forall>T tw. activeTwigs b T = Some tw \<longrightarrow> wf_twig tw"
    and "set twigs = dom (activeTwigs a)" and "set order = dom (nodes a)" and "finite (dom (nodes b))"
  shows "(CompareTreeTwigs twigs a b = Inr () \<longleftrightarrow> activeTwigs a \<subseteq>\<^sub>m activeTwigs b) \<and>
    (CompareTreeNodes order a b = Inr () \<longleftrightarrow> nodes a = nodes b)"
proof
  have "CompareTreeTwigs twigs a b = Inr () \<longleftrightarrow> (\<forall>T \<in> set twigs. activeTwigs b T = activeTwigs a T)"
    using assms(1-3) CompareTreeTwigs_iff [of a b twigs] by simp
  then show "CompareTreeTwigs twigs a b = Inr () \<longleftrightarrow> activeTwigs a \<subseteq>\<^sub>m activeTwigs b"
    unfolding map_le_def assms(3) by (auto simp: eq_commute)
  show "CompareTreeNodes order a b = Inr () \<longleftrightarrow> nodes a = nodes b"
    using CompareTreeNodes_iff [OF assms(4,5)] by auto
qed

theorem Compare_trees_witness:
  "CompareTreeTwigs [0] emptyTree (emptyTree\<lparr>nodes := Map.empty\<rparr>) = Inr () \<and>
   CompareTreeNodes [Pos 13 0] emptyTree (emptyTree\<lparr>nodes := Map.empty\<rparr>) \<noteq> Inr ()"
  using Compare_trees [of emptyTree "emptyTree\<lparr>nodes := Map.empty\<rparr>" "[0]" "[Pos 13 0]"] wf_NullTwig [of zero_sha]
  by (simp add: emptyTree_def NewEmptyTree_def CopyNullTwig_def fun_eq_iff map_le_def)

end
