(* ===== verification/RocksDB.thy ===== *)
theory RocksDB
  imports Prelude
begin

text \<open>
  The wrapper of gorocksdb in indextree/rocks_db.go: reads and writes, the current write batch, the
  compaction filter that removes expired index records, and forward and reverse iterators over a
  range of keys. gorocksdb itself is a parameter: a record of its operations, whose documented
  behaviour is the predicate \<open>engine_ok\<close>. Its errors (a broken disk) and the destruction of its C++
  objects are not modelled. A nil and an empty slice of bytes are the same list here, which is what
  \<open>nonNilBytes\<close> makes of them.
\<close>

section \<open>The engine\<close>

text \<open>A write batch is the list of the calls that were made on it.\<close>

datatype batch_op = BatchPut bytes bytes | BatchDelete bytes

record ('e, 'it) engine =
  eng_Get :: "'e \<Rightarrow> bytes \<Rightarrow> bytes option"
  eng_Put :: "bytes \<Rightarrow> bytes \<Rightarrow> 'e \<Rightarrow> 'e"
  eng_Delete :: "bytes \<Rightarrow> 'e \<Rightarrow> 'e"
  eng_Write :: "batch_op list \<Rightarrow> 'e \<Rightarrow> 'e"
  eng_NewIterator :: "'e \<Rightarrow> 'it"
  it_SeekToFirst :: "'it \<Rightarrow> 'it"
  it_SeekToLast :: "'it \<Rightarrow> 'it"
  it_Seek :: "bytes \<Rightarrow> 'it \<Rightarrow> 'it"
  it_Next :: "'it \<Rightarrow> 'it"
  it_Prev :: "'it \<Rightarrow> 'it"
  it_Item :: "'it \<Rightarrow> (bytes \<times> bytes) option"

fun apply_op :: "batch_op \<Rightarrow> (bytes \<rightharpoonup> bytes) \<Rightarrow> (bytes \<rightharpoonup> bytes)" where
  "apply_op (BatchPut k v) m = m(k \<mapsto> v)"
| "apply_op (BatchDelete k) m = m(k := None)"

text \<open>The first and the last key of a finite set, if it has one.\<close>

definition first_key :: "bytes set \<Rightarrow> bytes option" where
  "first_key K = (if K = {} then None else Some (Min K))"

definition last_key :: "bytes set \<Rightarrow> bytes option" where
  "last_key K = (if K = {} then None else Some (Max K))"

text \<open>
  The documented behaviour: an ordered map with the bytewise order of keys, a batch applied in the
  order of its calls, and iterators that walk a snapshot. \<open>cont\<close> is what the store holds, \<open>snap\<close> the
  snapshot of an iterator and \<open>cur\<close> the key it stands on, if any.
\<close>

definition engine_ok :: "('e, 'it) engine \<Rightarrow> ('e \<Rightarrow> bytes \<rightharpoonup> bytes) \<Rightarrow> ('it \<Rightarrow> bytes \<rightharpoonup> bytes) \<Rightarrow> ('it \<Rightarrow> bytes option) \<Rightarrow> bool" where
  "engine_ok E cont snap cur \<longleftrightarrow>
     (\<forall>e. finite (dom (cont e)) \<and> eng_Get E e = cont e \<and> snap (eng_NewIterator E e) = cont e) \<and>
     (\<forall>e k v. cont (eng_Put E k v e) = (cont e)(k \<mapsto> v)) \<and>
     (\<forall>e k. cont (eng_Delete E k e) = (cont e)(k := None)) \<and>
     (\<forall>e b. cont (eng_Write E b e) = fold apply_op b (cont e)) \<and>
     (\<forall>i. snap (it_SeekToFirst E i) = snap i \<and> cur (it_SeekToFirst E i) = first_key (dom (snap i))) \<and>
     (\<forall>i. snap (it_SeekToLast E i) = snap i \<and> cur (it_SeekToLast E i) = last_key (dom (snap i))) \<and>
     (\<forall>i k. snap (it_Seek E k i) = snap i \<and> cur (it_Seek E k i) = first_key {x \<in> dom (snap i). k \<le> x}) \<and>
     (\<forall>i k. cur i = Some k \<longrightarrow> snap (it_Next E i) = snap i \<and> cur (it_Next E i) = first_key {x \<in> dom (snap i). k < x}) \<and>
     (\<forall>i k. cur i = Some k \<longrightarrow> snap (it_Prev E i) = snap i \<and> cur (it_Prev E i) = last_key {x \<in> dom (snap i). x < k}) \<and>
     (\<forall>i. it_Item E i = (case cur i of None \<Rightarrow> None | Some k \<Rightarrow> map_option (\<lambda>v. (k, v)) (snap i k)))"

section \<open>Model\<close>

record HeightCompactionFilter =
  pruneHeight :: nat
  pruneEnable :: bool

text \<open>The last 8 bytes of an index record's key are its expiring height; the result is \<open>(remove, newVal)\<close>.\<close>

definition Filter :: "HeightCompactionFilter \<Rightarrow> bytes \<Rightarrow> bytes \<Rightarrow> bool \<times> bytes option" where
  "Filter f key val =
     (if length key < 8 then (False, Some val)
      else if length key \<ge> 1 \<and> key ! 0 \<noteq> 0 then (False, Some val)
      else
        (let h = get_be (drop (length key - 8) key)
         in if pruneEnable f \<and> pruneHeight f > h then (True, None) else (False, Some val)))"

record 'e RocksDB =
  db :: 'e
  compactFilter :: HeightCompactionFilter
  batch :: "batch_op list option"

definition NewRocksDB :: "'e \<Rightarrow> 'e RocksDB" where
  "NewRocksDB e = \<lparr>db = e, compactFilter = \<lparr>pruneHeight = 0, pruneEnable = False\<rparr>, batch = None\<rparr>"

text \<open>\<open>Set\<close> and \<open>Delete\<close> of the current batch: a missing batch is a nil pointer.\<close>

definition CurrBatch_Set :: "bytes \<Rightarrow> bytes \<Rightarrow> 'e RocksDB \<Rightarrow> 'e RocksDB outcome" where
  "CurrBatch_Set key value r =
     (case batch r of None \<Rightarrow> Inl NilDeref | Some b \<Rightarrow> Inr (r\<lparr>batch := Some (b @ [BatchPut key value])\<rparr>))"

definition CurrBatch_Delete :: "bytes \<Rightarrow> 'e RocksDB \<Rightarrow> 'e RocksDB outcome" where
  "CurrBatch_Delete key r =
     (case batch r of None \<Rightarrow> Inl NilDeref | Some b \<Rightarrow> Inr (r\<lparr>batch := Some (b @ [BatchDelete key])\<rparr>))"

definition CloseOldBatch :: "('e, 'it) engine \<Rightarrow> 'e RocksDB \<Rightarrow> 'e RocksDB" where
  "CloseOldBatch E r =
     (case batch r of None \<Rightarrow> r | Some b \<Rightarrow> r\<lparr>db := eng_Write E b (db r), batch := None\<rparr>)"

definition OpenNewBatch :: "'e RocksDB \<Rightarrow> 'e RocksDB" where
  "OpenNewBatch r = r\<lparr>batch := Some []\<rparr>"

definition SetPruneHeight :: "nat \<Rightarrow> 'e RocksDB \<Rightarrow> 'e RocksDB" where
  "SetPruneHeight h r =
     (let f = compactFilter r
      in r\<lparr>compactFilter := \<lparr>pruneHeight = (if pruneHeight f < h then h else pruneHeight f), pruneEnable = True\<rparr>\<rparr>)"

definition GetPruneHeight :: "'e RocksDB \<Rightarrow> nat \<times> bool" where
  "GetPruneHeight r = (pruneHeight (compactFilter r), pruneEnable (compactFilter r))"

definition RocksDB_Get :: "('e, 'it) engine \<Rightarrow> 'e RocksDB \<Rightarrow> bytes \<Rightarrow> bytes option" where
  "RocksDB_Get E r key = eng_Get E (db r) key"

definition RocksDB_Has :: "('e, 'it) engine \<Rightarrow> 'e RocksDB \<Rightarrow> bytes \<Rightarrow> bool" where
  "RocksDB_Has E r key \<longleftrightarrow> RocksDB_Get E r key \<noteq> None"

text \<open>\<open>Set\<close> and \<open>SetSync\<close>, \<open>Delete\<close> and \<open>DeleteSync\<close> differ only in when the data reach the disk.\<close>

definition RocksDB_Set :: "('e, 'it) engine \<Rightarrow> bytes \<Rightarrow> bytes \<Rightarrow> 'e RocksDB \<Rightarrow> 'e RocksDB" where
  "RocksDB_Set E key value r = r\<lparr>db := eng_Put E key value (db r)\<rparr>"

definition RocksDB_SetSync :: "('e, 'it) engine \<Rightarrow> bytes \<Rightarrow> bytes \<Rightarrow> 'e RocksDB \<Rightarrow> 'e RocksDB" where
  "RocksDB_SetSync E key value r = r\<lparr>db := eng_Put E key value (db r)\<rparr>"

definition RocksDB_Delete :: "('e, 'it) engine \<Rightarrow> bytes \<Rightarrow> 'e RocksDB \<Rightarrow> 'e RocksDB" where
  "RocksDB_Delete E key r = r\<lparr>db := eng_Delete E key (db r)\<rparr>"

section \<open>Iterators\<close>

record 'it rocksDBIterator =
  source :: 'it
  it_start :: "bytes option"
  it_end :: "bytes option"
  isReverse :: bool
  isInvalid :: bool

definition newRocksDBIterator :: "('e, 'it) engine \<Rightarrow> 'it \<Rightarrow> bytes option \<Rightarrow> bytes option \<Rightarrow> bool \<Rightarrow> 'it rocksDBIterator" where
  "newRocksDBIterator E src start end' reverse =
     (let src =
        (if reverse then
           (case end' of None \<Rightarrow> it_SeekToLast E src
            | Some k \<Rightarrow>
                (let src = it_Seek E k src
                 in case it_Item E src of
                      Some (eoakey, _) \<Rightarrow> (if bytes_Compare k eoakey \<le> 0 then it_Prev E src else src)
                    | None \<Rightarrow> it_SeekToLast E src))
         else (case start of None \<Rightarrow> it_SeekToFirst E src | Some k \<Rightarrow> it_Seek E k src))
      in \<lparr>source = src, it_start = start, it_end = end', isReverse = reverse, isInvalid = False\<rparr>)"

text \<open>
  The methods have value receivers, so what \<open>Valid\<close> assigns to \<open>isInvalid\<close> is lost and the field
  stays false.
\<close>

definition iter_Valid :: "('e, 'it) engine \<Rightarrow> 'it rocksDBIterator \<Rightarrow> bool" where
  "iter_Valid E itr =
     (if isInvalid itr then False
      else case it_Item E (source itr) of
             None \<Rightarrow> False
           | Some (key, _) \<Rightarrow>
               (if isReverse itr
                then \<not> (case it_start itr of None \<Rightarrow> False | Some start \<Rightarrow> bytes_Compare key start < 0)
                else \<not> (case it_end itr of None \<Rightarrow> False | Some end' \<Rightarrow> bytes_Compare end' key \<le> 0)))"

definition iter_Item :: "('e, 'it) engine \<Rightarrow> 'it rocksDBIterator \<Rightarrow> (bytes \<times> bytes) outcome" where
  "iter_Item E itr =
     (if iter_Valid E itr then (case it_Item E (source itr) of Some kv \<Rightarrow> Inr kv | None \<Rightarrow> Inl NilDeref)
      else Inl (Panic ''rocksDBIterator is invalid''))"

definition iter_Key :: "('e, 'it) engine \<Rightarrow> 'it rocksDBIterator \<Rightarrow> bytes outcome" where
  "iter_Key E itr = bindE (iter_Item E itr) (\<lambda>(k, v). Inr k)"

definition iter_Value :: "('e, 'it) engine \<Rightarrow> 'it rocksDBIterator \<Rightarrow> bytes outcome" where
  "iter_Value E itr = bindE (iter_Item E itr) (\<lambda>(k, v). Inr v)"

definition iter_Next :: "('e, 'it) engine \<Rightarrow> 'it rocksDBIterator \<Rightarrow> 'it rocksDBIterator outcome" where
  "iter_Next E itr =
     (if iter_Valid E itr
      then Inr (itr\<lparr>source := (if isReverse itr then it_Prev E (source itr) else it_Next E (source itr))\<rparr>)
      else Inl (Panic ''rocksDBIterator is invalid''))"

definition RocksDB_Iterator :: "('e, 'it) engine \<Rightarrow> 'e RocksDB \<Rightarrow> bytes option \<Rightarrow> bytes option \<Rightarrow> 'it rocksDBIterator" where
  "RocksDB_Iterator E r start end' = newRocksDBIterator E (eng_NewIterator E (db r)) start end' False"

definition RocksDB_ReverseIterator :: "('e, 'it) engine \<Rightarrow> 'e RocksDB \<Rightarrow> bytes option \<Rightarrow> bytes option \<Rightarrow> 'it rocksDBIterator" where
  "RocksDB_ReverseIterator E r start end' = newRocksDBIterator E (eng_NewIterator E (db r)) start end' True"

text \<open>The loop \<open>for ; itr.Valid(); itr.Next()\<close> with at most \<open>n\<close> rounds, which collects the items.\<close>

fun iterate :: "('e, 'it) engine \<Rightarrow> nat \<Rightarrow> 'it rocksDBIterator \<Rightarrow> (bytes \<times> bytes) list outcome" where
  "iterate E 0 itr = (if iter_Valid E itr then Inl Stuck else Inr [])"
| "iterate E (Suc n) itr =
     (if iter_Valid E itr then
        bindE (iter_Item E itr) (\<lambda>kv.
        bindE (iter_Next E itr) (\<lambda>itr.
        bindE (iterate E n itr) (\<lambda>xs. Inr (kv # xs))))
      else Inr [])"

section \<open>What the iterators enumerate\<close>

lemma engine_okD:
  assumes "engine_ok E cont snap cur"
  shows "finite (dom (cont e))" "eng_Get E e = cont e" "snap (eng_NewIterator E e) = cont e"
    "cont (eng_Put E k v e) = (cont e)(k \<mapsto> v)" "cont (eng_Delete E k e) = (cont e)(k := None)"
    "cont (eng_Write E b e) = fold apply_op b (cont e)"
    "snap (it_SeekToFirst E i) = snap i" "cur (it_SeekToFirst E i) = first_key (dom (snap i))"
    "snap (it_SeekToLast E i) = snap i" "cur (it_SeekToLast E i) = last_key (dom (snap i))"
    "snap (it_Seek E k i) = snap i" "cur (it_Seek E k i) = first_key {x \<in> dom (snap i). k \<le> x}"
    "cur i = Some k \<Longrightarrow> snap (it_Next E i) = snap i" "cur i = Some k \<Longrightarrow> cur (it_Next E i) = first_key {x \<in> dom (snap i). k < x}"
    "cur i = Some k \<Longrightarrow> snap (it_Prev E i) = snap i" "cur i = Some k \<Longrightarrow> cur (it_Prev E i) = last_key {x \<in> dom (snap i). x < k}"
    "it_Item E i = (case cur i of None \<Rightarrow> None | Some k \<Rightarrow> map_option (\<lambda>v. (k, v)) (snap i k))"
  using assms unfolding engine_ok_def by blast+

lemma first_key_simps [simp]: "first_key {} = None" "K \<noteq> {} \<Longrightarrow> first_key K = Some (Min K)"
  by (simp_all add: first_key_def)

lemma last_key_simps [simp]: "last_key {} = None" "K \<noteq> {} \<Longrightarrow> last_key K = Some (Max K)"
  by (simp_all add: last_key_def)

lemma sorted_list_of_set_Max:
  assumes "finite S" and "S \<noteq> {}"
  shows "sorted_list_of_set S = sorted_list_of_set (S - {Max S}) @ [Max S]"
proof (rule sorted_distinct_set_unique)
  show "sorted (sorted_list_of_set (S - {Max S}) @ [Max S])"
    using assms by (auto simp: sorted_append)
  show "set (sorted_list_of_set S) = set (sorted_list_of_set (S - {Max S}) @ [Max S])"
  proof -
    have "insert (Max S) (S - {Max S}) = S" using Max_in [OF assms] by blast
    with assms(1) show ?thesis by simp
  qed
qed (use assms in auto)

definition below :: "bytes option \<Rightarrow> bytes \<Rightarrow> bool" where
  "below e k \<longleftrightarrow> (case e of None \<Rightarrow> True | Some e \<Rightarrow> k < e)"

definition from_on :: "bytes option \<Rightarrow> bytes \<Rightarrow> bool" where
  "from_on s k \<longleftrightarrow> (case s of None \<Rightarrow> True | Some s \<Rightarrow> s \<le> k)"

definition items_of :: "(bytes \<rightharpoonup> bytes) \<Rightarrow> bytes list \<Rightarrow> (bytes \<times> bytes) list" where
  "items_of m ks = map (\<lambda>k. (k, the (m k))) ks"

lemma items_of_simps [simp]: "items_of m [] = []" "items_of m (k # ks) = (k, the (m k)) # items_of m ks"
  by (simp_all add: items_of_def)

lemma iterate_forward:
  assumes ok: "engine_ok E cont snap cur" and fin: "finite (dom m)"
  shows "\<not> isReverse itr \<Longrightarrow> \<not> isInvalid itr \<Longrightarrow> it_end itr = e \<Longrightarrow> snap (source itr) = m \<Longrightarrow> A \<subseteq> dom m \<Longrightarrow>
    \<forall>x \<in> A. \<forall>y \<in> dom m. x < y \<longrightarrow> y \<in> A \<Longrightarrow> cur (source itr) = first_key A \<Longrightarrow> card {x \<in> A. below e x} \<le> n \<Longrightarrow>
    iterate E n itr = Inr (items_of m (sorted_list_of_set {x \<in> A. below e x}))"
proof (induction n arbitrary: itr A)
  case 0
  have fA: "finite A" using 0 fin finite_subset by blast
  then have none: "{x \<in> A. below e x} = {}" using 0 by auto
  moreover have "\<not> iter_Valid E itr"
  proof (cases "A = {}")
    case False
    then have "\<not> below e (Min A)" using none fA Min_in by blast
    with 0 False show ?thesis
      by (auto simp: iter_Valid_def engine_okD [OF ok] below_def not_less split: option.splits)
  qed (use 0 in \<open>simp add: iter_Valid_def engine_okD [OF ok]\<close>)
  ultimately show ?case unfolding none by simp
next
  case (Suc n)
  have fA: "finite A" using Suc.prems fin finite_subset by blast
  let ?S = "{x \<in> A. below e x}"
  show ?case
  proof (cases "A = {} \<or> \<not> below e (Min A)")
    case True
    have "\<not> iter_Valid E itr"
      using True Suc.prems
      by (cases "A = {}") (auto simp: iter_Valid_def engine_okD [OF ok] below_def not_less split: option.splits)
    moreover have none: "?S = {}"
    proof -
      have "\<not> below e x" if "x \<in> A" for x
        using True that Min_le [OF fA that] by (auto simp: below_def split: option.splits)
      then show ?thesis by blast
    qed
    ultimately show ?thesis unfolding none by simp
  next
    case False
    let ?k = "Min A"
    have k: "?k \<in> A" "?k \<in> dom m" "below e ?k" using False fA Min_in Suc.prems by auto
    have cur: "cur (source itr) = Some ?k" using False Suc.prems by simp
    then have item: "it_Item E (source itr) = Some (?k, the (m ?k))" using k(2) Suc.prems by (auto simp: engine_okD [OF ok])
    have valid: "iter_Valid E itr"
      using item k(3) Suc.prems by (auto simp: iter_Valid_def below_def split: option.splits)
    let ?itr = "itr\<lparr>source := it_Next E (source itr)\<rparr>"
    have A': "{x \<in> dom m. ?k < x} = A - {?k}"
    proof (intro equalityI subsetI)
      fix x assume "x \<in> A - {?k}"
      then show "x \<in> {x \<in> dom m. ?k < x}" using Suc.prems(5) Min_le [OF fA] by (auto simp: order.strict_iff_order)
    qed (use k Suc.prems(6) in auto)
    have S': "{x \<in> A - {?k}. below e x} = ?S - {?k}" by auto
    have "iterate E n ?itr = Inr (items_of m (sorted_list_of_set {x \<in> A - {?k}. below e x}))"
    proof (rule Suc.IH)
      show "snap (source ?itr) = m" using engine_okD(13) [OF ok cur] Suc.prems(4) by simp
      show "cur (source ?itr) = first_key (A - {?k})" using cur Suc.prems A' by (simp add: engine_okD [OF ok])
      show "\<forall>x \<in> A - {?k}. \<forall>y \<in> dom m. x < y \<longrightarrow> y \<in> A - {?k}"
        using Suc.prems(6) Min_le [OF fA] by (auto simp: not_less [symmetric])
      show "card {x \<in> A - {?k}. below e x} \<le> n"
        using Suc.prems(8) k fA unfolding S' by (subst card_Diff_singleton) auto
    qed (use Suc.prems cur in \<open>auto simp: engine_okD [OF ok]\<close>)
    moreover have "Min ?S = ?k" using k fA by (intro Min_eqI) auto
    then have "sorted_list_of_set ?S = ?k # sorted_list_of_set {x \<in> A - {?k}. below e x}"
      using k fA sorted_list_of_set_nonempty [of ?S] unfolding S' by auto
    ultimately show ?thesis
      using valid item Suc.prems(1) by (simp add: iter_Item_def iter_Next_def)
  qed
qed

lemma iterate_backward:
  assumes ok: "engine_ok E cont snap cur" and fin: "finite (dom m)"
  shows "isReverse itr \<Longrightarrow> \<not> isInvalid itr \<Longrightarrow> it_start itr = s \<Longrightarrow> snap (source itr) = m \<Longrightarrow> A \<subseteq> dom m \<Longrightarrow>
    \<forall>x \<in> A. \<forall>y \<in> dom m. y < x \<longrightarrow> y \<in> A \<Longrightarrow> cur (source itr) = last_key A \<Longrightarrow> card {x \<in> A. from_on s x} \<le> n \<Longrightarrow>
    iterate E n itr = Inr (items_of m (rev (sorted_list_of_set {x \<in> A. from_on s x})))"
proof (induction n arbitrary: itr A)
  case 0
  have fA: "finite A" using 0 fin finite_subset by blast
  then have none: "{x \<in> A. from_on s x} = {}" using 0 by auto
  moreover have "\<not> iter_Valid E itr"
  proof (cases "A = {}")
    case False
    then have "\<not> from_on s (Max A)" using none fA Max_in by blast
    with 0 False show ?thesis
      by (auto simp: iter_Valid_def engine_okD [OF ok] from_on_def not_le split: option.splits)
  qed (use 0 in \<open>simp add: iter_Valid_def engine_okD [OF ok]\<close>)
  ultimately show ?case unfolding none by simp
next
  case (Suc n)
  have fA: "finite A" using Suc.prems fin finite_subset by blast
  let ?S = "{x \<in> A. from_on s x}"
  show ?case
  proof (cases "A = {} \<or> \<not> from_on s (Max A)")
    case True
    have "\<not> iter_Valid E itr"
      using True Suc.prems
      by (cases "A = {}") (auto simp: iter_Valid_def engine_okD [OF ok] from_on_def not_le split: option.splits)
    moreover have none: "?S = {}"
    proof -
      have "\<not> from_on s x" if "x \<in> A" for x
        using True that Max_ge [OF fA that] by (auto simp: from_on_def split: option.splits)
      then show ?thesis by blast
    qed
    ultimately show ?thesis unfolding none by simp
  next
    case False
    let ?k = "Max A"
    have k: "?k \<in> A" "?k \<in> dom m" "from_on s ?k" using False fA Max_in Suc.prems by auto
    have cur: "cur (source itr) = Some ?k" using False Suc.prems by simp
    then have item: "it_Item E (source itr) = Some (?k, the (m ?k))" using k(2) Suc.prems by (auto simp: engine_okD [OF ok])
    have valid: "iter_Valid E itr"
      using item k(3) Suc.prems by (auto simp: iter_Valid_def from_on_def split: option.splits)
    let ?itr = "itr\<lparr>source := it_Prev E (source itr)\<rparr>"
    have A': "{x \<in> dom m. x < ?k} = A - {?k}"
    proof (intro equalityI subsetI)
      fix x assume "x \<in> A - {?k}"
      then show "x \<in> {x \<in> dom m. x < ?k}" using Suc.prems(5) Max_ge [OF fA] by (auto simp: order.strict_iff_order)
    qed (use k Suc.prems(6) in auto)
    have S': "{x \<in> A - {?k}. from_on s x} = ?S - {?k}" by auto
    have "iterate E n ?itr = Inr (items_of m (rev (sorted_list_of_set {x \<in> A - {?k}. from_on s x})))"
    proof (rule Suc.IH)
      show "snap (source ?itr) = m" using engine_okD(15) [OF ok cur] Suc.prems(4) by simp
      show "cur (source ?itr) = last_key (A - {?k})" using cur Suc.prems A' by (simp add: engine_okD [OF ok])
      show "\<forall>x \<in> A - {?k}. \<forall>y \<in> dom m. y < x \<longrightarrow> y \<in> A - {?k}"
        using Suc.prems(6) Max_ge [OF fA] by (auto simp: not_less [symmetric])
      show "card {x \<in> A - {?k}. from_on s x} \<le> n"
        using Suc.prems(8) k fA unfolding S' by (subst card_Diff_singleton) auto
    qed (use Suc.prems cur in \<open>auto simp: engine_okD [OF ok]\<close>)
    moreover have "Max ?S = ?k" using k fA by (intro Max_eqI) auto
    then have "sorted_list_of_set ?S = sorted_list_of_set {x \<in> A - {?k}. from_on s x} @ [?k]"
      using k fA sorted_list_of_set_Max [of ?S] unfolding S' by auto
    ultimately show ?thesis
      using valid item Suc.prems(1) by (simp add: iter_Item_def iter_Next_def)
  qed
qed

text \<open>Where the iterators start.\<close>

lemma start_forward:
  assumes ok: "engine_ok E cont snap cur"
  shows "cur (source (newRocksDBIterator E i s e False)) = first_key {x \<in> dom (snap i). from_on s x}"
    "snap (source (newRocksDBIterator E i s e False)) = snap i"
  by (simp_all add: newRocksDBIterator_def engine_okD [OF ok] from_on_def dom_def split: option.split)

lemma start_backward:
  assumes ok: "engine_ok E cont snap cur" and fin: "finite (dom (snap i))"
  shows "cur (source (newRocksDBIterator E i s e True)) = last_key {x \<in> dom (snap i). below e x} \<and>
    snap (source (newRocksDBIterator E i s e True)) = snap i"
proof (cases e)
  case None
  then show ?thesis by (simp add: newRocksDBIterator_def engine_okD [OF ok] below_def dom_def)
next
  case (Some k)
  let ?A = "{x \<in> dom (snap i). k \<le> x}" and ?i = "it_Seek E k i"
  have fA: "finite ?A" using fin by simp
  show ?thesis
  proof (cases "?A = {}")
    case True
    then have "{x \<in> dom (snap i). x < k} = dom (snap i)" by (auto simp: not_le)
    moreover have "it_Item E ?i = None" unfolding engine_okD(17) [OF ok] engine_okD(12) [OF ok] True by simp
    ultimately show ?thesis using Some by (simp add: newRocksDBIterator_def engine_okD(9,10,11) [OF ok] below_def)
  next
    case False
    have m: "Min ?A \<in> ?A" using False fA Min_in by blast
    have cur: "cur ?i = Some (Min ?A)" using False by (simp add: engine_okD(12) [OF ok])
    have item: "it_Item E ?i = Some (Min ?A, the (snap i (Min ?A)))"
      using m cur unfolding engine_okD(17) [OF ok] engine_okD(11) [OF ok] by auto
    have "{x \<in> dom (snap i). x < Min ?A} = {x \<in> dom (snap i). x < k}"
    proof (intro equalityI subsetI)
      fix x assume x: "x \<in> {x \<in> dom (snap i). x < Min ?A}"
      have "\<not> k \<le> x"
      proof
        assume "k \<le> x"
        then have "Min ?A \<le> x" using x fA by (intro Min_le) auto
        with x show False by auto
      qed
      with x show "x \<in> {x \<in> dom (snap i). x < k}" by auto
    qed (use m in auto)
    then show ?thesis using Some m item cur
      by (simp add: newRocksDBIterator_def engine_okD(11,15,16) [OF ok] below_def)
  qed
qed

text \<open>
  The loop over an iterator ends after at most as many rounds as there are keys in the range, and
  yields the items whose keys lie in \<open>[start, end)\<close> with their values, in the order of the keys for
  \<open>Iterator\<close> and in the reverse order for \<open>ReverseIterator\<close>; a nil bound is no bound.
\<close>

theorem RocksDB_iterators:
  assumes "engine_ok E cont snap cur" and "K = {k \<in> dom (cont (db r)). from_on s k \<and> below e k}" and "card K \<le> n"
  shows "iterate E n (RocksDB_Iterator E r s e) = Inr (items_of (cont (db r)) (sorted_list_of_set K)) \<and>
    iterate E n (RocksDB_ReverseIterator E r s e) = Inr (items_of (cont (db r)) (rev (sorted_list_of_set K)))"
proof
  let ?m = "cont (db r)" and ?i = "eng_NewIterator E (db r)"
  have i: "snap ?i = ?m" and fin: "finite (dom ?m)" by (simp_all add: engine_okD [OF assms(1)])
  have K: "{x \<in> {x \<in> dom ?m. from_on s x}. below e x} = K" "{x \<in> {x \<in> dom ?m. below e x}. from_on s x} = K"
    using assms(2) by auto
  have "iterate E n (RocksDB_Iterator E r s e) =
      Inr (items_of ?m (sorted_list_of_set {x \<in> {x \<in> dom ?m. from_on s x}. below e x}))"
    unfolding RocksDB_Iterator_def
  proof (rule iterate_forward [OF assms(1) fin])
    show "cur (source (newRocksDBIterator E ?i s e False)) = first_key {x \<in> dom ?m. from_on s x}"
      "snap (source (newRocksDBIterator E ?i s e False)) = ?m"
      using start_forward [OF assms(1), of ?i s e] i by simp_all
    show "card {x \<in> {x \<in> dom ?m. from_on s x}. below e x} \<le> n" unfolding K using assms(3) .
  qed (auto simp: newRocksDBIterator_def from_on_def split: option.splits)
  then show "iterate E n (RocksDB_Iterator E r s e) = Inr (items_of ?m (sorted_list_of_set K))" unfolding K .
  have "iterate E n (RocksDB_ReverseIterator E r s e) =
      Inr (items_of ?m (rev (sorted_list_of_set {x \<in> {x \<in> dom ?m. below e x}. from_on s x})))"
    unfolding RocksDB_ReverseIterator_def
  proof (rule iterate_backward [OF assms(1) fin])
    show "cur (source (newRocksDBIterator E ?i s e True)) = last_key {x \<in> dom ?m. below e x}"
      "snap (source (newRocksDBIterator E ?i s e True)) = ?m"
      using start_backward [OF assms(1), of ?i s e] i fin by simp_all
    show "card {x \<in> {x \<in> dom ?m. below e x}. from_on s x} \<le> n" unfolding K using assms(3) .
  qed (auto simp: newRocksDBIterator_def below_def split: option.splits)
  then show "iterate E n (RocksDB_ReverseIterator E r s e) = Inr (items_of ?m (rev (sorted_list_of_set K)))" unfolding K .
qed

text \<open>An engine with the documented behaviour: an association list, and iterators that hold a copy of it.\<close>

definition list_first :: "bytes list \<Rightarrow> bytes option" where
  "list_first ks = (if ks = [] then None else Some (fold min ks (hd ks)))"

definition list_last :: "bytes list \<Rightarrow> bytes option" where
  "list_last ks = (if ks = [] then None else Some (fold max ks (hd ks)))"

fun list_op :: "batch_op \<Rightarrow> (bytes \<times> bytes) list \<Rightarrow> (bytes \<times> bytes) list" where
  "list_op (BatchPut k v) xs = (k, v) # xs"
| "list_op (BatchDelete k) xs = filter (\<lambda>(a, b). a \<noteq> k) xs"

definition list_engine :: "((bytes \<times> bytes) list, (bytes \<times> bytes) list \<times> bytes option) engine" where
  "list_engine = \<lparr>eng_Get = map_of, eng_Put = (\<lambda>k v xs. (k, v) # xs), eng_Delete = (\<lambda>k. filter (\<lambda>(a, b). a \<noteq> k)),
     eng_Write = fold list_op, eng_NewIterator = (\<lambda>xs. (xs, None)),
     it_SeekToFirst = (\<lambda>(xs, c). (xs, list_first (map fst xs))), it_SeekToLast = (\<lambda>(xs, c). (xs, list_last (map fst xs))),
     it_Seek = (\<lambda>k (xs, c). (xs, list_first (filter (\<lambda>x. k \<le> x) (map fst xs)))),
     it_Next = (\<lambda>(xs, c). (xs, list_first (filter (\<lambda>x. the c < x) (map fst xs)))),
     it_Prev = (\<lambda>(xs, c). (xs, list_last (filter (\<lambda>x. x < the c) (map fst xs)))),
     it_Item = (\<lambda>(xs, c). case c of None \<Rightarrow> None | Some k \<Rightarrow> map_option (\<lambda>v. (k, v)) (map_of xs k))\<rparr>"

lemma list_first_eq: "list_first ks = first_key (set ks)"
proof (cases ks)
  case (Cons k ks')
  then show ?thesis using Min.set_eq_fold [of k ks'] by (simp add: list_first_def first_key_def)
qed (simp add: list_first_def)

lemma list_last_eq: "list_last ks = last_key (set ks)"
proof (cases ks)
  case (Cons k ks')
  then show ?thesis using Max.set_eq_fold [of k ks'] by (simp add: list_last_def last_key_def)
qed (simp add: list_last_def)

lemma map_of_delete: "map_of (filter (\<lambda>(a, b). a \<noteq> k) xs) = (map_of xs)(k := None)"
  by (induction xs) (auto simp: fun_eq_iff)

lemma map_of_list_ops: "map_of (fold list_op b xs) = fold apply_op b (map_of xs)"
proof (induction b arbitrary: xs)
  case (Cons x b)
  have "map_of (list_op x xs) = apply_op x (map_of xs)" by (cases x) (simp_all add: map_of_delete)
  with Cons show ?case by simp
qed simp

lemma list_engine_ok: "engine_ok list_engine map_of (\<lambda>(xs, c). map_of xs) snd"
  unfolding engine_ok_def list_engine_def
  by (auto simp: finite_dom_map_of map_of_delete map_of_list_ops list_first_eq list_last_eq dom_map_of_conv_image_fst
      intro!: arg_cong [of _ _ first_key] arg_cong [of _ _ last_key] split: option.split)

theorem RocksDB_iterators_witness:
  "iterate list_engine 5 (RocksDB_ReverseIterator list_engine (NewRocksDB [([2], [7]), ([1, 5], [8]), ([1], [9]), ([4], [])]) (Some [1, 0]) (Some [4]))
   = Inr [([2], [7]), ([1, 5], [8])]"
proof -
  let ?r = "NewRocksDB [([2], [7]), ([1, 5], [8]), ([1], [9]), ([4 :: byte], [])]"
  have "{k \<in> dom (map_of (db ?r)). from_on (Some [1, 0]) k \<and> below (Some [4]) k} = {[2], [1, 5]}"
    by (auto simp: NewRocksDB_def from_on_def below_def split: if_splits)
  from RocksDB_iterators [OF list_engine_ok this [symmetric], of 5] show ?thesis
    by (simp add: items_of_def NewRocksDB_def)
qed

section \<open>The compaction filter\<close>

text \<open>The key of an index record: a zero byte, the key, and the expiring height.\<close>

definition hkey :: "bytes \<Rightarrow> nat \<Rightarrow> bytes" where
  "hkey k h = 0 # k @ put_be 8 h"

lemma Filter_hkey:
  assumes "h < 2 ^ 64"
  shows "fst (Filter f (hkey k h) v) \<longleftrightarrow> pruneEnable f \<and> h < pruneHeight f"
proof -
  have "get_be (put_be 8 h) = h" using assms by (simp add: get_put_be)
  then show ?thesis by (simp add: Filter_def hkey_def Let_def)
qed

lemma Filter_other: "key = [] \<or> key ! 0 \<noteq> 0 \<Longrightarrow> Filter f key v = (False, Some v)"
  by (cases key) (simp_all add: Filter_def)

end
