(* ===== verification/BTreeMap.thy ===== *)
theory BTreeMap
  imports Prelude
begin

text \<open>
  The ordered map of the index tree and of the cache stores, by its contents: the items of \<open>b.Tree\<close>
  (indextree/b with positions, store/b with values) in the order of their keys. The pages of the B+ tree are not modelled; its operations
  and enumerators are, by what they do to the items and which item they stand on. The interface that
  the index trees rely on is the locale \<open>ordered_map\<close>.
\<close>

section \<open>Model\<close>

type_synonym 'v btree = "(bytes \<times> 'v) list"

type_synonym BTree = "nat btree"

definition bt_Get :: "bytes \<Rightarrow> 'v btree \<Rightarrow> 'v option" where
  "bt_Get k t = map_of t k"

fun bt_Set :: "bytes \<Rightarrow> 'v \<Rightarrow> 'v btree \<Rightarrow> 'v btree" where
  "bt_Set k v [] = [(k, v)]"
| "bt_Set k v ((a, b) # t) =
     (if k < a then (k, v) # (a, b) # t else if k = a then (k, v) # t else (a, b) # bt_Set k v t)"

definition bt_PutNewAndGetOld :: "bytes \<Rightarrow> 'v \<Rightarrow> 'v btree \<Rightarrow> 'v option \<times> 'v btree" where
  "bt_PutNewAndGetOld k v t = (bt_Get k t, bt_Set k v t)"

definition bt_Delete :: "bytes \<Rightarrow> 'v btree \<Rightarrow> 'v btree" where
  "bt_Delete k t = filter (\<lambda>(a, b). a \<noteq> k) t"

text \<open>
  An enumerator on a tree that is not changed while it is used (the index tree holds its lock and
  refuses iterators during a write): the items, the position, whether the position was hit, and
  whether it has returned io.EOF, which is sticky.
\<close>

record 'v Enumerator =
  e_items :: "'v btree"
  e_pos :: nat
  e_hit :: bool
  e_eof :: bool

definition bt_Seek :: "bytes \<Rightarrow> 'v btree \<Rightarrow> 'v Enumerator \<times> bool" where
  "bt_Seek k t =
     (let hit = (bt_Get k t \<noteq> None)
      in (\<lparr>e_items = t, e_pos = length (takeWhile (\<lambda>(a, b). a < k) t), e_hit = hit, e_eof = False\<rparr>, hit))"

text \<open>Both return the enumerated item and move on; passing the last or the first item is the end.\<close>

definition enum_Next :: "'v Enumerator \<Rightarrow> (bytes \<times> 'v) option \<times> 'v Enumerator" where
  "enum_Next e =
     (if e_eof e \<or> e_pos e \<ge> length (e_items e) then (None, e\<lparr>e_eof := True\<rparr>)
      else (Some (e_items e ! e_pos e),
            e\<lparr>e_hit := True, e_pos := e_pos e + 1, e_eof := e_pos e + 1 \<ge> length (e_items e)\<rparr>))"

definition enum_Prev :: "'v Enumerator \<Rightarrow> (bytes \<times> 'v) option \<times> 'v Enumerator" where
  "enum_Prev e =
     (if e_eof e \<or> e_items e = [] then (None, e\<lparr>e_eof := True\<rparr>)
      else if \<not> e_hit e \<and> e_pos e = 0 then (None, e\<lparr>e_eof := True\<rparr>)
      else
        (let p = (if e_hit e then e_pos e else e_pos e - 1)
         in (Some (e_items e ! p), e\<lparr>e_hit := True, e_pos := p - 1, e_eof := p = 0\<rparr>)))"

section \<open>The interface of an ordered map\<close>

locale ordered_map =
  fixes inv :: "'t \<Rightarrow> bool" and items :: "'t \<Rightarrow> (bytes \<times> 'v) list"
    and get :: "bytes \<Rightarrow> 't \<Rightarrow> 'v option" and put :: "bytes \<Rightarrow> 'v \<Rightarrow> 't \<Rightarrow> 't" and del :: "bytes \<Rightarrow> 't \<Rightarrow> 't"
  assumes sorted: "inv t \<Longrightarrow> sorted_wrt (<) (map fst (items t))"
    and get_items: "inv t \<Longrightarrow> get k t = map_of (items t) k"
    and put_ok: "inv t \<Longrightarrow> inv (put k v t) \<and> map_of (items (put k v t)) = (map_of (items t))(k \<mapsto> v)"
    and del_ok: "inv t \<Longrightarrow> inv (del k t) \<and> map_of (items (del k t)) = (map_of (items t))(k := None)"
begin

lemma distinct_keys: "inv t \<Longrightarrow> distinct (map fst (items t))"
  using sorted by (metis strict_sorted_iff)

lemma get_put: "inv t \<Longrightarrow> get k (put k' v t) = (if k = k' then Some v else get k t)"
  using put_ok [of t k' v] by (simp add: get_items)

lemma get_del: "inv t \<Longrightarrow> get k (del k' t) = (if k = k' then None else get k t)"
  using del_ok [of t k'] by (simp add: get_items)

lemma dom_get: "inv t \<Longrightarrow> dom (\<lambda>k. get k t) = fst ` set (items t)"
  by (simp add: get_items dom_map_of_conv_image_fst)

lemma count: "inv t \<Longrightarrow> length (items t) = card (dom (\<lambda>k. get k t))"
  using distinct_keys [of t] by (metis dom_get distinct_card length_map list.set_map)

end

section \<open>The items as an ordered map\<close>

definition bt_inv :: "'v btree \<Rightarrow> bool" where
  "bt_inv t \<longleftrightarrow> sorted_wrt (<) (map fst t)"

lemma set_bt_Set: "fst ` set (bt_Set k v t) = insert k (fst ` set t)"
  by (induction k v t rule: bt_Set.induct) auto

lemma bt_Set_sorted: "bt_inv t \<Longrightarrow> bt_inv (bt_Set k v t)"
proof (induction k v t rule: bt_Set.induct)
  case (2 k v a b t)
  then show ?case using set_bt_Set [of k v t] by (auto simp: bt_inv_def not_less_iff_gr_or_eq)
qed (simp add: bt_inv_def)

lemma map_of_bt_Set: "bt_inv t \<Longrightarrow> map_of (bt_Set k v t) = (map_of t)(k \<mapsto> v)"
proof (induction k v t rule: bt_Set.induct)
  case (2 k v a b t)
  then show ?case by (auto simp: bt_inv_def fun_eq_iff)
qed (simp add: fun_eq_iff)

lemma map_of_bt_Delete: "map_of (bt_Delete k t) = (map_of t)(k := None)"
  by (induction t) (auto simp: bt_Delete_def fun_eq_iff)

lemma bt_Delete_sorted: "bt_inv t \<Longrightarrow> bt_inv (bt_Delete k t)"
  unfolding bt_inv_def bt_Delete_def by (induction t) auto

interpretation bt: ordered_map bt_inv "\<lambda>t. t" bt_Get bt_Set bt_Delete
  by unfold_locales (auto simp: bt_Get_def bt_Set_sorted map_of_bt_Set bt_Delete_sorted map_of_bt_Delete, simp add: bt_inv_def)

section \<open>Walking with enumerators\<close>

text \<open>What repeated calls of \<open>enum_Next\<close> or \<open>enum_Prev\<close> still return.\<close>

definition rest_next :: "'v Enumerator \<Rightarrow> 'v btree" where
  "rest_next e = (if e_eof e then [] else drop (e_pos e) (e_items e))"

definition rest_prev :: "'v Enumerator \<Rightarrow> 'v btree" where
  "rest_prev e = (if e_eof e then [] else rev (take (if e_hit e then e_pos e + 1 else e_pos e) (e_items e)))"

text \<open>A hit is a position of an item.\<close>

definition enum_ok :: "'v Enumerator \<Rightarrow> bool" where
  "enum_ok e \<longleftrightarrow> e_pos e \<le> length (e_items e) \<and> (e_hit e \<longrightarrow> e_pos e < length (e_items e) \<or> e_eof e)"

lemma enum_Next_rest:
  "enum_ok e \<Longrightarrow> enum_Next e = (r, e') \<Longrightarrow> enum_ok e' \<and>
    (case rest_next e of [] \<Rightarrow> r = None \<and> rest_next e' = [] | x # xs \<Rightarrow> r = Some x \<and> rest_next e' = xs)"
  by (auto simp: enum_Next_def rest_next_def enum_ok_def Cons_nth_drop_Suc [symmetric] not_le split: if_splits list.splits)

lemma enum_Prev_rest:
  assumes "enum_ok e" and "enum_Prev e = (r, e')"
  shows "enum_ok e' \<and>
    (case rest_prev e of [] \<Rightarrow> r = None \<and> rest_prev e' = [] | x # xs \<Rightarrow> r = Some x \<and> rest_prev e' = xs)"
proof (cases "e_eof e \<or> e_items e = [] \<or> \<not> e_hit e \<and> e_pos e = 0")
  case True
  with assms show ?thesis by (auto simp: enum_Prev_def rest_prev_def enum_ok_def split: if_splits)
next
  case False
  define p where "p = (if e_hit e then e_pos e else e_pos e - 1)"
  have p: "p < length (e_items e)" "(if e_hit e then e_pos e + 1 else e_pos e) = Suc p"
    using assms(1) False by (auto simp: p_def enum_ok_def)
  have "e' = e\<lparr>e_hit := True, e_pos := p - 1, e_eof := p = 0\<rparr>" "r = Some (e_items e ! p)"
    using assms(2) False by (auto simp: enum_Prev_def p_def Let_def split: if_splits)
  moreover have "rest_prev e = e_items e ! p # rev (take p (e_items e))"
    using False p by (simp add: rest_prev_def take_Suc_conv_app_nth)
  moreover have "rest_prev e' = rev (take p (e_items e))" using calculation(1) by (cases p) (simp_all add: rest_prev_def)
  ultimately show ?thesis using p(1) by (auto simp: enum_ok_def)
qed

lemma takeWhile_keys: "bt_inv t \<Longrightarrow> takeWhile (\<lambda>(a, b). a < k) t = filter (\<lambda>(a, b). a < k) t"
proof (induction t)
  case (Cons x t)
  show ?case
  proof (cases "fst x < k")
    case False
    then have "\<forall>y \<in> set t. \<not> fst y < k" using Cons.prems by (force simp: bt_inv_def)
    then have "filter (\<lambda>(a, b). a < k) t = []" by (auto simp: filter_empty_conv)
    with False show ?thesis by (cases x) auto
  qed (use Cons in \<open>auto simp: bt_inv_def case_prod_beta\<close>)
qed simp

lemma dropWhile_keys: "bt_inv t \<Longrightarrow> dropWhile (\<lambda>(a, b). a < k) t = filter (\<lambda>(a, b). k \<le> a) t"
proof (induction t)
  case (Cons x t)
  show ?case
  proof (cases "fst x < k")
    case False
    then have "\<forall>y \<in> set (x # t). k \<le> fst y" using Cons.prems by (force simp: bt_inv_def)
    then have "filter (\<lambda>(a, b). k \<le> a) (x # t) = x # t" by (auto simp: filter_id_conv)
    with False show ?thesis by (cases x) auto
  qed (use Cons in \<open>auto simp: bt_inv_def case_prod_beta\<close>)
qed simp

lemma bt_Seek_ok:
  assumes "bt_inv t"
  shows "enum_ok (fst (bt_Seek k t))" "rest_next (fst (bt_Seek k t)) = filter (\<lambda>(a, b). k \<le> a) t"
    "\<not> snd (bt_Seek k t) \<Longrightarrow> rest_prev (fst (bt_Seek k t)) = rev (filter (\<lambda>(a, b). a < k) t)"
    "snd (bt_Seek k t) \<Longrightarrow> \<exists>v. rest_prev (fst (bt_Seek k t)) = (k, v) # rev (filter (\<lambda>(a, b). a < k) t)"
proof -
  let ?w = "takeWhile (\<lambda>(a, b). a < k) t" and ?d = "dropWhile (\<lambda>(a, b). a < k) t"
  have t: "t = ?w @ ?d" by simp
  have drop: "drop (length ?w) t = ?d" by (simp add: dropWhile_eq_drop)
  have take: "take (length ?w) t = ?w" by (metis takeWhile_eq_take)
  have hit: "\<exists>v. ?d = (k, v) # filter (\<lambda>(a, b). k < a) t" if h: "bt_Get k t \<noteq> None"
  proof -
    from h obtain v where v: "(k, v) \<in> set t" by (auto simp: bt_Get_def dest: map_of_SomeD)
    then have "(k, v) \<in> set ?d" unfolding dropWhile_keys [OF assms] by simp
    then obtain x d where d: "?d = x # d" by (cases ?d) auto
    then have "sorted_wrt (<) (map fst (?w @ x # d))" using assms t by (simp add: bt_inv_def)
    then have s: "\<forall>y \<in> set d. fst x < fst y" by (simp add: sorted_wrt_append)
    have "x \<in> set (filter (\<lambda>(a, b). k \<le> a) t)" unfolding dropWhile_keys [OF assms, symmetric] d by simp
    then have "k \<le> fst x" by auto
    with s \<open>(k, v) \<in> set ?d\<close> d have "x = (k, v)" by force
    moreover have "d = filter (\<lambda>(a, b). k < a) t"
    proof -
      have "filter (\<lambda>(a, b). k < a) t = filter (\<lambda>(a, b). k < a) ?w @ filter (\<lambda>(a, b). k < a) ?d"
        using arg_cong [OF t, of "filter (\<lambda>(a, b). k < a)"] by (simp only: filter_append)
      also have "filter (\<lambda>(a, b). k < a) ?w = []" by (auto simp: filter_empty_conv dest!: set_takeWhileD)
      also have "filter (\<lambda>(a, b). k < a) ?d = d"
        using d s \<open>x = (k, v)\<close> by (auto simp: filter_id_conv)
      finally show ?thesis by simp
    qed
    ultimately show ?thesis using d by blast
  qed
  have len: "bt_Get k t \<noteq> None \<Longrightarrow> length ?w < length t"
    using hit by (metis drop drop_eq_Nil linorder_not_le list.distinct(1))
  have "length ?w \<le> length t" by (rule length_takeWhile_le)
  with len show "enum_ok (fst (bt_Seek k t))" by (auto simp: bt_Seek_def Let_def enum_ok_def)
  show "rest_next (fst (bt_Seek k t)) = filter (\<lambda>(a, b). k \<le> a) t"
    by (simp add: bt_Seek_def Let_def rest_next_def drop dropWhile_keys [OF assms])
  show "\<not> snd (bt_Seek k t) \<Longrightarrow> rest_prev (fst (bt_Seek k t)) = rev (filter (\<lambda>(a, b). a < k) t)"
    by (simp add: bt_Seek_def Let_def rest_prev_def takeWhile_keys [OF assms] take [unfolded takeWhile_keys [OF assms]])
  show "\<exists>v. rest_prev (fst (bt_Seek k t)) = (k, v) # rev (filter (\<lambda>(a, b). a < k) t)" if h: "snd (bt_Seek k t)"
  proof -
    from h have g: "bt_Get k t \<noteq> None" by (simp add: bt_Seek_def Let_def)
    with hit obtain v where v: "?d = (k, v) # filter (\<lambda>(a, b). k < a) t" by blast
    have "take (length ?w + 1) t = ?w @ [(k, v)]"     proof -
      have "take (length ?w + 1) t = take (length ?w + 1) (?w @ (k, v) # filter (\<lambda>(a, b). k < a) t)"
        using arg_cong [OF t, of "take (length ?w + 1)"] unfolding v .
      then show ?thesis by simp
    qed
    with g show ?thesis unfolding takeWhile_keys [OF assms, symmetric] by (auto simp: bt_Seek_def Let_def rest_prev_def)
  qed
qed

lemma filter_keys_sorted: "bt_inv t \<Longrightarrow> bt_inv (filter P t)"
  unfolding bt_inv_def by (induction t) auto

lemma takeWhile_rev_keys: "bt_inv t \<Longrightarrow> takeWhile (\<lambda>(k, v). s \<le> k) (rev t) = rev (filter (\<lambda>(k, v). s \<le> k) t)"
proof (induction t rule: rev_induct)
  case (snoc x t)
  then have t: "bt_inv t" "\<forall>y \<in> set t. fst y < fst x" by (auto simp: bt_inv_def sorted_wrt_append)
  show ?case
  proof (cases "s \<le> fst x")
    case True
    with snoc.IH [OF t(1)] show ?thesis by (cases x) auto
  next
    case False
    then have "filter (\<lambda>(k, v). s \<le> k) t = []" using t(2) by (fastforce simp: filter_empty_conv)
    with False show ?thesis by (cases x) auto
  qed
qed simp

text \<open>A reverse iterator seeks its exclusive end and steps back from it when it is a key.\<close>

lemma bt_Seek_before:
  assumes "bt_inv t" and "bt_Seek k t = (e, ok)"
  shows "enum_ok (if ok then snd (enum_Prev e) else e)" "rest_prev (if ok then snd (enum_Prev e) else e) = rev (filter (\<lambda>(a, b). a < k) t)"
proof -
  note seek = bt_Seek_ok [OF assms(1), of k, unfolded assms(2), simplified]
  from enum_Prev_rest [OF seek(1) prod.collapse [symmetric]] seek(1,3,4)
  show "enum_ok (if ok then snd (enum_Prev e) else e)" "rest_prev (if ok then snd (enum_Prev e) else e) = rev (filter (\<lambda>(a, b). a < k) t)"
    by auto
qed

text \<open>The items in \<open>[s, e)\<close>.\<close>

abbreviation in_range :: "bytes \<Rightarrow> bytes \<Rightarrow> bytes \<times> 'v \<Rightarrow> bool" where
  "in_range s e \<equiv> \<lambda>(k, v). s \<le> k \<and> k < e"

lemma range_empty: "\<not> s < e \<Longrightarrow> filter (in_range s e) t = []"
  by (auto simp: filter_empty_conv)

lemma filter_range: "filter (\<lambda>(k, v). s \<le> k) (filter (\<lambda>(k, v). k < e) t) = filter (in_range s e) t"
    "filter (\<lambda>(k, v). k < e) (filter (\<lambda>(k, v). s \<le> k) t) = filter (in_range s e) t"
  by (induction t) auto

lemma Nil_range: "filter (in_range [] e) t = filter (\<lambda>(k, v). k < e) t"
proof (rule filter_cong [OF refl])
  fix x :: "bytes \<times> 'v"
  have "[] \<le> fst x" by (cases "fst x") simp_all
  then show "in_range [] e x = (case x of (k, v) \<Rightarrow> k < e)" by (cases x) simp
qed

text \<open>What is left in a range in front of the seeked position.\<close>

lemma rest_in_range:
  assumes "bt_inv t"
  shows "takeWhile (\<lambda>(k, v). k < e) (filter (\<lambda>(k, v). s \<le> k) t) = filter (in_range s e) t"
    "takeWhile (\<lambda>(k, v). s \<le> k) (rev (filter (\<lambda>(k, v). k < e) t)) = rev (filter (in_range s e) t)"
  by (simp_all only: takeWhile_keys [OF filter_keys_sorted [OF assms]] takeWhile_rev_keys [OF filter_keys_sorted [OF assms]] filter_range)

end
