(* ===== verification/NVTree.thy ===== *)
theory NVTree
  imports RocksDB BTreeMap
begin

text \<open>
  The index trees of indextree/indextree.go and indextree/mock_indextree.go: an in-memory ordered map
  from keys to positions and, when a RocksDB is given, the history of positions in it. The RocksDB is
  shared with the meta data, so its state is passed along. The read-write lock only blocks: a second
  \<open>BeginWrite\<close> waits for itself (\<open>Stuck\<close>), and the use of an iterator during a write panics.
\<close>

section \<open>Iterators over the items\<close>

text \<open>\<open>ForwardIter\<close> and \<open>ForwardIterMem\<close> have the same state, and so have the backward iterators.\<close>

record ForwardIter =
  f_enum :: "nat Enumerator option"
  f_start :: bytes
  f_end :: bytes
  f_key :: bytes
  f_value :: nat
  f_err :: bool

record BackwardIter =
  b_enum :: "nat Enumerator option"
  b_start :: bytes
  b_end :: bytes
  b_key :: bytes
  b_value :: nat
  b_err :: bool

definition ForwardIter_Next :: "ForwardIter \<Rightarrow> ForwardIter outcome" where
  "ForwardIter_Next it =
     (if f_err it then Inr it
      else case f_enum it of None \<Rightarrow> Inl NilDeref
        | Some e \<Rightarrow>
            (let (r, e) = enum_Next e; (k, v, eof) = (case r of None \<Rightarrow> ([], 0, True) | Some (k, v) \<Rightarrow> (k, v, False))
             in Inr (it\<lparr>f_enum := Some e, f_key := k, f_value := v, f_err := eof \<or> bytes_Compare k (f_end it) \<ge> 0\<rparr>)))"

definition BackwardIter_Next :: "BackwardIter \<Rightarrow> BackwardIter outcome" where
  "BackwardIter_Next it =
     (if b_err it then Inr it
      else case b_enum it of None \<Rightarrow> Inl NilDeref
        | Some e \<Rightarrow>
            (let (r, e) = enum_Prev e; (k, v, eof) = (case r of None \<Rightarrow> ([], 0, True) | Some (k, v) \<Rightarrow> (k, v, False))
             in Inr (it\<lparr>b_enum := Some e, b_key := k, b_value := v, b_err := eof \<or> bytes_Compare k (b_start it) < 0\<rparr>)))"

definition ForwardIter_Valid :: "ForwardIter \<Rightarrow> bool" where
  "ForwardIter_Valid it \<longleftrightarrow> \<not> f_err it"

definition BackwardIter_Valid :: "BackwardIter \<Rightarrow> bool" where
  "BackwardIter_Valid it \<longleftrightarrow> \<not> b_err it"

definition bt_Iterator :: "bytes \<Rightarrow> bytes \<Rightarrow> BTree \<Rightarrow> ForwardIter outcome" where
  "bt_Iterator start end' t =
     (let it = \<lparr>f_enum = None, f_start = start, f_end = end', f_key = [], f_value = 0, f_err = False\<rparr>
      in if bytes_Compare start end' \<ge> 0 then Inr (it\<lparr>f_err := True\<rparr>)
         else ForwardIter_Next (it\<lparr>f_enum := Some (fst (bt_Seek start t))\<rparr>))"

definition bt_ReverseIterator :: "bytes \<Rightarrow> bytes \<Rightarrow> BTree \<Rightarrow> BackwardIter outcome" where
  "bt_ReverseIterator start end' t =
     (let it = \<lparr>b_enum = None, b_start = start, b_end = end', b_key = [], b_value = 0, b_err = False\<rparr>
      in if bytes_Compare start end' \<ge> 0 then Inr (it\<lparr>b_err := True\<rparr>)
         else
           (let (e, ok) = bt_Seek end' t; e = (if ok then snd (enum_Prev e) else e)
            in BackwardIter_Next (it\<lparr>b_enum := Some e\<rparr>)))"

section \<open>The index tree\<close>

text \<open>\<open>hasDB\<close> says whether the pointer to the RocksDB is set.\<close>

record NVTreeMem =
  bt :: BTree
  isWriting :: bool
  hasDB :: bool
  currHeight :: bytes

definition NewNVTreeMem :: "bool \<Rightarrow> NVTreeMem" where
  "NewNVTreeMem rocks = \<lparr>bt = [], isWriting = False, hasDB = rocks, currHeight = replicate 8 0\<rparr>"

definition NVTreeMem_ActiveCount :: "NVTreeMem \<Rightarrow> nat" where
  "NVTreeMem_ActiveCount t = length (bt t)"

text \<open>
  The loop of \<open>Init\<close>. A record whose first byte is not zero is skipped with \<open>continue\<close>, which does not
  move the iterator. \<open>rep\<close> says whether \<open>repFn\<close> is a function or nil.
\<close>

partial_function (option) Init_loop ::
  "('e, 'it) engine \<Rightarrow> bool \<Rightarrow> 'it rocksDBIterator \<Rightarrow> BTree \<Rightarrow> BTree outcome option" where
  "Init_loop E rep itr t =
     (if \<not> iter_Valid E itr then Some (Inr t)
      else case iter_Item E itr of Inl e \<Rightarrow> Some (Inl e)
        | Inr (k, v) \<Rightarrow>
            if k = [] then Some (Inl IndexOutOfRange)
            else if hd k \<noteq> 0 then Init_loop E rep itr t
            else if \<not> rep then Some (Inl NilDeref)
            else if length (tl k) < 8 then Some (Inl (Panic ''key length is too short''))
            else if length v \<noteq> 8 \<and> length v \<noteq> 0 then Some (Inl (Panic ''value length is not 8 or 0''))
            else if drop (length (tl k) - 8) (tl k) = replicate 8 255 \<and> length v < 8 then Some (Inl IndexOutOfRange)
            else
              (case iter_Next E itr of Inl e \<Rightarrow> Some (Inl e)
               | Inr itr \<Rightarrow> Init_loop E rep itr
                   (if drop (length (tl k) - 8) (tl k) = replicate 8 255
                    then bt_Set (take (length (tl k) - 8) (tl k)) (get_le v) t else t)))"

definition NVTreeMem_Init :: "('e, 'it) engine \<Rightarrow> bool \<Rightarrow> 'e RocksDB \<Rightarrow> NVTreeMem \<Rightarrow> NVTreeMem outcome option" where
  "NVTreeMem_Init E rep r t =
     (if \<not> hasDB t then Some (Inl NilDeref)
      else map_option (map_sum id (\<lambda>b. t\<lparr>bt := b\<rparr>)) (Init_loop E rep (RocksDB_Iterator E r (Some []) None) (bt t)))"

definition NVTreeMem_BeginWrite :: "int \<Rightarrow> NVTreeMem \<Rightarrow> NVTreeMem outcome" where
  "NVTreeMem_BeginWrite h t =
     (if isWriting t then Inl Stuck else Inr (t\<lparr>isWriting := True, currHeight := put_be 8 (uint64 h)\<rparr>))"

definition NVTreeMem_EndWrite :: "NVTreeMem \<Rightarrow> NVTreeMem outcome" where
  "NVTreeMem_EndWrite t =
     (if \<not> isWriting t then Inl (Panic ''tree.isWriting cannot be false! bug here...'')
      else Inr (t\<lparr>isWriting := False\<rparr>))"

definition NVTreeMem_Set :: "bytes \<Rightarrow> nat \<Rightarrow> NVTreeMem \<times> 'e RocksDB \<Rightarrow> (NVTreeMem \<times> 'e RocksDB) outcome" where
  "NVTreeMem_Set k v tr =
     (let (t, r) = tr
      in if \<not> isWriting t then Inl (Panic ''tree.isWriting must be true! bug here...'')
         else
           (let (old, b) = bt_PutNewAndGetOld k v (bt t); t = t\<lparr>bt := b\<rparr>
            in if \<not> hasDB t then Inr (t, r)
               else
                 bindE (CurrBatch_Set (0 # k @ currHeight t) (case old of None \<Rightarrow> [] | Some o' \<Rightarrow> put_le 8 o') r) (\<lambda>r.
                 bindE (CurrBatch_Set (0 # k @ put_be 8 (2 ^ 64 - 1)) (put_le 8 v) r) (\<lambda>r.
                   Inr (t, r)))))"

definition NVTreeMem_Get :: "bytes \<Rightarrow> NVTreeMem \<Rightarrow> nat option outcome" where
  "NVTreeMem_Get k t =
     (if isWriting t then Inl (Panic ''tree.isWriting cannot be true! bug here...'') else Inr (bt_Get k (bt t)))"

definition NVTreeMem_GetAtHeight :: "('e, 'it) engine \<Rightarrow> bytes \<Rightarrow> nat \<Rightarrow> NVTreeMem \<Rightarrow> 'e RocksDB \<Rightarrow> nat option outcome" where
  "NVTreeMem_GetAtHeight E k height t r =
     (if \<not> hasDB t then Inl NilDeref
      else
        (let (h, enable) = GetPruneHeight r
         in if enable \<and> height \<le> h then Inr None
            else
              (let newK = 0 # k @ put_be 8 ((height + 1) mod 2 ^ 64); iter = RocksDB_Iterator E r (Some newK) None
               in if \<not> iter_Valid E iter then Inr None
                  else
                    (let newK = copy_at newK (length k) (put_be 8 (2 ^ 64 - 1))
                     in bindE (iter_Key E iter) (\<lambda>key.
                          if bytes_Compare key newK > 0 then Inr None
                          else bindE (iter_Value E iter) (\<lambda>v.
                            if length v = 0 then Inr None
                            else if length v < 8 then Inl IndexOutOfRange
                            else Inr (Some (get_le (take 8 v)))))))))"

definition NVTreeMem_Delete :: "bytes \<Rightarrow> NVTreeMem \<times> 'e RocksDB \<Rightarrow> (NVTreeMem \<times> 'e RocksDB) outcome" where
  "NVTreeMem_Delete k tr =
     (let (t, r) = tr
      in if \<not> isWriting t then Inl (Panic ''tree.isWriting must be true! bug here...'')
         else case bt_Get k (bt t) of
           None \<Rightarrow> Inl (Panic ''deleting a nonexistent key! bug here...'')
         | Some oldV \<Rightarrow>
             (let t = t\<lparr>bt := bt_Delete k (bt t)\<rparr>
              in if \<not> hasDB t then Inr (t, r)
                 else
                   bindE (CurrBatch_Set (0 # k @ currHeight t) (put_le 8 oldV) r) (\<lambda>r.
                   bindE (CurrBatch_Delete (0 # k @ put_be 8 (2 ^ 64 - 1)) r) (\<lambda>r.
                     Inr (t, r)))))"

definition NVTreeMem_Iterator :: "bytes \<Rightarrow> bytes \<Rightarrow> NVTreeMem \<Rightarrow> ForwardIter outcome" where
  "NVTreeMem_Iterator start end' t =
     (if isWriting t then Inl (Panic ''tree.isWriting cannot be true! bug here...'') else bt_Iterator start end' (bt t))"

definition NVTreeMem_ReverseIterator :: "bytes \<Rightarrow> bytes \<Rightarrow> NVTreeMem \<Rightarrow> BackwardIter outcome" where
  "NVTreeMem_ReverseIterator start end' t =
     (if isWriting t then Inl (Panic ''tree.isWriting cannot be true! bug here...'') else bt_ReverseIterator start end' (bt t))"

text \<open>\<open>Next\<close> of the iterators of this tree looks at its lock flag first.\<close>

definition ForwardIterMem_Next :: "NVTreeMem \<Rightarrow> ForwardIter \<Rightarrow> ForwardIter outcome" where
  "ForwardIterMem_Next t it =
     (if isWriting t then Inl (Panic ''tree.isWriting cannot be true! bug here...'') else ForwardIter_Next it)"

definition BackwardIterMem_Next :: "NVTreeMem \<Rightarrow> BackwardIter \<Rightarrow> BackwardIter outcome" where
  "BackwardIterMem_Next t it =
     (if isWriting t then Inl (Panic ''tree.isWriting cannot be true! bug here...'') else BackwardIter_Next it)"

section \<open>The mock index tree\<close>

type_synonym MockIndexTree = BTree

definition NewMockIndexTree :: MockIndexTree where
  "NewMockIndexTree = []"

definition MockIndexTree_ActiveCount :: "MockIndexTree \<Rightarrow> nat" where
  "MockIndexTree_ActiveCount t = length t"

definition MockIndexTree_Get :: "bytes \<Rightarrow> MockIndexTree \<Rightarrow> nat option" where
  "MockIndexTree_Get k t = bt_Get k t"

definition MockIndexTree_Set :: "bytes \<Rightarrow> nat \<Rightarrow> MockIndexTree \<Rightarrow> MockIndexTree" where
  "MockIndexTree_Set k v t = bt_Set k v t"

definition MockIndexTree_Delete :: "bytes \<Rightarrow> MockIndexTree \<Rightarrow> MockIndexTree" where
  "MockIndexTree_Delete k t = bt_Delete k t"

definition MockIndexTree_GetAtHeight :: "bytes \<Rightarrow> nat \<Rightarrow> MockIndexTree \<Rightarrow> nat option outcome" where
  "MockIndexTree_GetAtHeight k h t = Inl (Panic ''Not Implemented'')"

definition MockIndexTree_Iterator :: "bytes \<Rightarrow> bytes \<Rightarrow> MockIndexTree \<Rightarrow> ForwardIter outcome" where
  "MockIndexTree_Iterator start end' t = bt_Iterator start end' t"

definition MockIndexTree_ReverseIterator :: "bytes \<Rightarrow> bytes \<Rightarrow> MockIndexTree \<Rightarrow> BackwardIter outcome" where
  "MockIndexTree_ReverseIterator start end' t = bt_ReverseIterator start end' t"

section \<open>The loop over an iterator\<close>

fun forward_items :: "NVTreeMem \<Rightarrow> nat \<Rightarrow> ForwardIter \<Rightarrow> (bytes \<times> nat) list outcome" where
  "forward_items t 0 it = (if ForwardIter_Valid it then Inl Stuck else Inr [])"
| "forward_items t (Suc n) it =
     (if ForwardIter_Valid it then
        bindE (ForwardIterMem_Next t it) (\<lambda>it'.
        bindE (forward_items t n it') (\<lambda>xs. Inr ((f_key it, f_value it) # xs)))
      else Inr [])"

fun backward_items :: "NVTreeMem \<Rightarrow> nat \<Rightarrow> BackwardIter \<Rightarrow> (bytes \<times> nat) list outcome" where
  "backward_items t 0 it = (if BackwardIter_Valid it then Inl Stuck else Inr [])"
| "backward_items t (Suc n) it =
     (if BackwardIter_Valid it then
        bindE (BackwardIterMem_Next t it) (\<lambda>it'.
        bindE (backward_items t n it') (\<lambda>xs. Inr ((b_key it, b_value it) # xs)))
      else Inr [])"

section \<open>What the iterators enumerate\<close>

lemma forward_items_rest:
  assumes "\<not> isWriting t"
  shows "length R \<le> n \<Longrightarrow> \<not> f_err it \<Longrightarrow> f_enum it = Some e \<Longrightarrow> enum_ok e \<Longrightarrow> rest_next e = R \<Longrightarrow>
    bindE (ForwardIter_Next it) (forward_items t n) = Inr (takeWhile (\<lambda>(k, v). k < f_end it) R)"
proof (induction R arbitrary: n it e)
  case Nil
  obtain r e' where e: "enum_Next e = (r, e')" by fastforce
  with enum_Next_rest [of e] Nil have "r = None" by simp
  with e Nil show ?case by (cases n) (simp_all add: ForwardIter_Next_def ForwardIter_Valid_def)
next
  case (Cons x R)
  obtain k v where x: "x = (k, v)" by fastforce
  obtain r e' where e: "enum_Next e = (r, e')" by fastforce
  with enum_Next_rest [of e] Cons x have r: "r = Some (k, v)" "enum_ok e'" "rest_next e' = R" by simp_all
  let ?it = "it\<lparr>f_enum := Some e', f_key := k, f_value := v, f_err := f_end it \<le> k\<rparr>"
  have nx: "ForwardIter_Next it = Inr ?it" using e r Cons.prems by (simp add: ForwardIter_Next_def)
  from Cons.prems obtain m where n: "n = Suc m" "length R \<le> m" by (cases n) auto
  show ?case
  proof (cases "k < f_end it")
    case True
    have "bindE (ForwardIter_Next ?it) (forward_items t m) = Inr (takeWhile (\<lambda>(k, v). k < f_end ?it) R)"
      by (rule Cons.IH [OF n(2)]) (use True r in auto)
    then show ?thesis using True n x assms
      by (cases "ForwardIter_Next ?it") (auto simp: nx ForwardIter_Valid_def ForwardIterMem_Next_def)
  qed (use n x in \<open>simp add: nx ForwardIter_Valid_def not_less\<close>)
qed

lemma backward_items_rest:
  assumes "\<not> isWriting t"
  shows "length R \<le> n \<Longrightarrow> \<not> b_err it \<Longrightarrow> b_enum it = Some e \<Longrightarrow> enum_ok e \<Longrightarrow> rest_prev e = R \<Longrightarrow>
    bindE (BackwardIter_Next it) (backward_items t n) = Inr (takeWhile (\<lambda>(k, v). b_start it \<le> k) R)"
proof (induction R arbitrary: n it e)
  case Nil
  obtain r e' where e: "enum_Prev e = (r, e')" by fastforce
  with enum_Prev_rest [of e] Nil have "r = None" by simp
  with e Nil show ?case by (cases n) (simp_all add: BackwardIter_Next_def BackwardIter_Valid_def)
next
  case (Cons x R)
  obtain k v where x: "x = (k, v)" by fastforce
  obtain r e' where e: "enum_Prev e = (r, e')" by fastforce
  with enum_Prev_rest [of e] Cons x have r: "r = Some (k, v)" "enum_ok e'" "rest_prev e' = R" by simp_all
  let ?it = "it\<lparr>b_enum := Some e', b_key := k, b_value := v, b_err := k < b_start it\<rparr>"
  have nx: "BackwardIter_Next it = Inr ?it" using e r Cons.prems by (simp add: BackwardIter_Next_def)
  from Cons.prems obtain m where n: "n = Suc m" "length R \<le> m" by (cases n) auto
  show ?case
  proof (cases "k < b_start it")
    case False
    have "bindE (BackwardIter_Next ?it) (backward_items t m) = Inr (takeWhile (\<lambda>(k, v). b_start ?it \<le> k) R)"
      by (rule Cons.IH [OF n(2)]) (use False r in auto)
    then show ?thesis using False n x assms
      by (cases "BackwardIter_Next ?it") (auto simp: nx BackwardIter_Valid_def BackwardIterMem_Next_def)
  qed (use n x in \<open>simp add: nx BackwardIter_Valid_def\<close>)
qed

text \<open>
  C38: outside of a write, \<open>Iterator\<close> and the loop \<open>for iter.Valid() ... iter.Next()\<close> give exactly the items
  of the index with keys in \<open>[start, end)\<close> in the order of the keys, and \<open>ReverseIterator\<close> gives them in
  the reverse order; the loop ends after at most as many rounds as there are items.
\<close>

theorem NVTreeMem_iterators:
  assumes "\<not> isWriting t" and "bt_inv (bt t)" and "length (bt t) \<le> n"
  shows "bindE (NVTreeMem_Iterator s e t) (forward_items t n) = Inr (filter (\<lambda>(k, v). s \<le> k \<and> k < e) (bt t)) \<and>
    bindE (NVTreeMem_ReverseIterator s e t) (backward_items t n) = Inr (rev (filter (\<lambda>(k, v). s \<le> k \<and> k < e) (bt t)))"
proof (cases "s < e")
  case False
  then have "filter (\<lambda>(k, v). s \<le> k \<and> k < e) (bt t) = []" by (auto simp: filter_empty_conv)
  moreover have "e \<le> s" using False by simp
  ultimately show ?thesis using assms(1)
    by (cases n) (simp_all add: Let_def NVTreeMem_Iterator_def NVTreeMem_ReverseIterator_def bt_Iterator_def bt_ReverseIterator_def
        ForwardIter_Valid_def BackwardIter_Valid_def)
next
  case True
  then have ne: "\<not> e \<le> s" by simp
  note seek = bt_Seek_ok [OF assms(2)]
  have len: "length (filter P (bt t)) \<le> n" for P using assms(3) length_filter_le [of P "bt t"] by linarith
  let ?f = "\<lparr>f_enum = Some (fst (bt_Seek s (bt t))), f_start = s, f_end = e, f_key = [], f_value = 0, f_err = False\<rparr>"
  have "bindE (ForwardIter_Next ?f) (forward_items t n) = Inr (takeWhile (\<lambda>(k, v). k < f_end ?f) (filter (\<lambda>(k, v). s \<le> k) (bt t)))"
    by (rule forward_items_rest [OF assms(1) len _ _ seek(1,2)]) simp_all
  also have "takeWhile (\<lambda>(k, v). k < f_end ?f) (filter (\<lambda>(k, v). s \<le> k) (bt t)) = filter (\<lambda>(k, v). s \<le> k \<and> k < e) (bt t)"
    using takeWhile_keys [OF filter_keys_sorted [OF assms(2)], of e "\<lambda>(k, v). s \<le> k"] by (simp add: case_prod_unfold conj_commute)
  finally have f: "bindE (NVTreeMem_Iterator s e t) (forward_items t n) = Inr (filter (\<lambda>(k, v). s \<le> k \<and> k < e) (bt t))"
    using ne assms(1) by (simp add: NVTreeMem_Iterator_def bt_Iterator_def Let_def)
  obtain en ok where en: "bt_Seek e (bt t) = (en, ok)" by fastforce
  define en' where "en' = (if ok then snd (enum_Prev en) else en)"
  have R: "enum_ok en'" "rest_prev en' = rev (filter (\<lambda>(k, v). k < e) (bt t))"
    using bt_Seek_before [OF assms(2) en] by (simp_all add: en'_def)
  let ?b = "\<lparr>b_enum = Some en', b_start = s, b_end = e, b_key = [], b_value = 0, b_err = False\<rparr>"
  have "bindE (BackwardIter_Next ?b) (backward_items t n) =
      Inr (takeWhile (\<lambda>(k, v). b_start ?b \<le> k) (rev (filter (\<lambda>(k, v). k < e) (bt t))))"
    by (rule backward_items_rest [OF assms(1) _ _ _ R]) (simp_all add: len)
  also have "takeWhile (\<lambda>(k, v). b_start ?b \<le> k) (rev (filter (\<lambda>(k, v). k < e) (bt t))) =
      rev (filter (\<lambda>(k, v). s \<le> k \<and> k < e) (bt t))"
    using takeWhile_rev_keys [OF filter_keys_sorted [OF assms(2)], of s "\<lambda>(k, v). k < e"] by (simp add: case_prod_unfold conj_commute)
  finally have "bindE (NVTreeMem_ReverseIterator s e t) (backward_items t n) = Inr (rev (filter (\<lambda>(k, v). s \<le> k \<and> k < e) (bt t)))"
    using ne assms(1) en by (simp add: NVTreeMem_ReverseIterator_def bt_ReverseIterator_def en'_def Let_def)
  with f show ?thesis by simp
qed

theorem NVTreeMem_iterators_witness:
  "bindE (NVTreeMem_ReverseIterator [1] [4] (NewNVTreeMem False\<lparr>bt := [([1], 10), ([3], 30), ([4], 40)]\<rparr>))
     (backward_items (NewNVTreeMem False\<lparr>bt := [([1], 10), ([3], 30), ([4], 40)]\<rparr>) 3) = Inr [([3], 30), ([1], 10)]"
  using NVTreeMem_iterators [of "NewNVTreeMem False\<lparr>bt := [([1], 10), ([3], 30), ([4], 40)]\<rparr>" 3 "[1]" "[4]"]
  by (simp add: NewNVTreeMem_def bt_inv_def)

section \<open>Loading the index from the RocksDB\<close>

text \<open>A forward iterator without an end that stands on the first of the remaining keys \<open>A\<close>.\<close>

definition at_tail :: "('it \<Rightarrow> bytes \<rightharpoonup> bytes) \<Rightarrow> ('it \<Rightarrow> bytes option) \<Rightarrow> (bytes \<rightharpoonup> bytes) \<Rightarrow> bytes set \<Rightarrow> 'it rocksDBIterator \<Rightarrow> bool" where
  "at_tail snap cur m A itr \<longleftrightarrow> \<not> isReverse itr \<and> \<not> isInvalid itr \<and> it_end itr = None \<and> snap (source itr) = m \<and>
     A \<subseteq> dom m \<and> (\<forall>x \<in> A. \<forall>y \<in> dom m. x < y \<longrightarrow> y \<in> A) \<and> cur (source itr) = first_key A"

lemma at_tail_item:
  assumes ok: "engine_ok E cont snap cur" and fin: "finite (dom m)" and at: "at_tail snap cur m A itr" and ne: "A \<noteq> {}"
  shows "Min A \<in> A \<and> Min A \<in> dom m \<and> iter_Valid E itr \<and> iter_Item E itr = Inr (Min A, the (m (Min A))) \<and>
    (\<exists>itr'. iter_Next E itr = Inr itr' \<and> at_tail snap cur m (A - {Min A}) itr')"
proof -
  let ?k = "Min A" and ?itr = "itr\<lparr>source := it_Next E (source itr)\<rparr>"
  have fA: "finite A" using at fin finite_subset by (auto simp: at_tail_def)
  have k: "?k \<in> A" "?k \<in> dom m" using ne fA Min_in at by (auto simp: at_tail_def)
  have cur: "cur (source itr) = Some ?k" using ne at by (simp add: at_tail_def)
  then have "it_Item E (source itr) = Some (?k, the (m ?k))" 
    using k(2) at unfolding engine_okD(17) [OF ok] cur by (auto simp: at_tail_def)
  then have valid: "iter_Valid E itr" "iter_Item E itr = Inr (?k, the (m ?k))"
    using at by (simp_all add: iter_Valid_def iter_Item_def at_tail_def)
  have "{x \<in> dom m. ?k < x} = A - {?k}"
  proof (intro equalityI subsetI)
    fix x assume "x \<in> A - {?k}"
    then show "x \<in> {x \<in> dom m. ?k < x}" using at Min_le [OF fA] by (auto simp: at_tail_def order.strict_iff_order)
  qed (use k at in \<open>auto simp: at_tail_def\<close>)
  then have "cur (source ?itr) = first_key (A - {?k})" using engine_okD(14) [OF ok cur] at by (simp add: at_tail_def)
  moreover have "\<forall>x \<in> A - {?k}. \<forall>y \<in> dom m. x < y \<longrightarrow> y \<in> A - {?k}"
  proof (intro ballI impI)
    fix x y assume x: "x \<in> A - {?k}" and y: "y \<in> dom m" "x < y"
    then have "y \<in> A" using at unfolding at_tail_def by blast
    moreover have "?k \<le> x" using x Min_le [OF fA] by blast
    ultimately show "y \<in> A - {?k}" using y(2) by auto
  qed
  moreover have "\<not> isReverse itr \<and> \<not> isInvalid itr \<and> it_end itr = None \<and> snap (source itr) = m" "A \<subseteq> dom m"
    using at unfolding at_tail_def by blast+
  then have "\<not> isReverse ?itr \<and> \<not> isInvalid ?itr \<and> it_end ?itr = None \<and> snap (source ?itr) = m" "A - {?k} \<subseteq> dom m"
    using engine_okD(13) [OF ok cur] by auto
  ultimately have "at_tail snap cur m (A - {?k}) ?itr" unfolding at_tail_def by blast
  moreover have "iter_Next E itr = Inr ?itr" using valid at by (simp add: iter_Next_def at_tail_def)
  ultimately show ?thesis using k valid by blast
qed

lemma at_tail_end:
  assumes "engine_ok E cont snap cur" and "at_tail snap cur m {} itr"
  shows "\<not> iter_Valid E itr"
  using assms(2) by (simp add: at_tail_def iter_Valid_def engine_okD [OF assms(1)])

text \<open>An iterator in front of a record that \<open>Init\<close> skips cannot get past it.\<close>

lemma Init_loop_no_result:
  assumes "Init_loop E rep itr t = Some y" and "engine_ok E cont snap cur" and "finite (dom m)" and "y = Inr u"
    and "at_tail snap cur m A itr"
  shows "\<forall>x \<in> A. x = [] \<or> hd x = 0"
  using assms
proof (induction E rep itr t y arbitrary: A rule: Init_loop.raw_induct [rotated, consumes 1, case_names step])
  case (step f E rep itr t y)
  show ?case
  proof (cases "A = {}")
    case False
    from at_tail_item [OF step.prems(1,2,4) False] obtain itr' where k: "Min A \<in> A" "iter_Valid E itr"
      "iter_Item E itr = Inr (Min A, the (m (Min A)))" "iter_Next E itr = Inr itr'" "at_tail snap cur m (A - {Min A}) itr'" by blast
    show ?thesis
    proof (cases "Min A = [] \<or> hd (Min A) \<noteq> 0")
      case True
      then have "f E rep itr t = Some y" using step.hyps step.prems(3) k by (simp split: if_splits)
      from step.IH [OF this step.prems] show ?thesis .
    next
      case hd: False
      then obtain t' where "f E rep itr' t' = Some y" using step.hyps step.prems(3) k by (simp split: if_splits)
      from step.IH [OF this step.prems(1-3) k(5)] hd show ?thesis by blast
    qed
  qed simp
qed

text \<open>
  C39: \<open>Init\<close> never returns an index from a RocksDB that holds a record whose key does not start with a
  zero byte, as all the records of the meta data are: at the latest when its iterator reaches that
  record, the loop goes round without \<open>Next\<close> for ever.
\<close>

theorem NVTreeMem_Init_never_returns:
  assumes "engine_ok E cont snap cur" and "k \<in> dom (cont (db r))" and "k \<noteq> []" and "hd k \<noteq> 0"
  shows "NVTreeMem_Init E rep r t \<noteq> Some (Inr u)"
proof
  assume "NVTreeMem_Init E rep r t = Some (Inr u)"
  then obtain b where run: "Init_loop E rep (RocksDB_Iterator E r (Some []) None) (bt t) = Some (Inr b)"
    unfolding NVTreeMem_Init_def by (auto split: if_splits) (metis map_sum.simps(1) obj_sumE sum.distinct(1))
  let ?m = "cont (db r)" and ?i = "eng_NewIterator E (db r)"
  have i: "snap ?i = ?m" and fin: "finite (dom ?m)" by (simp_all add: engine_okD [OF assms(1)])
  have "at_tail snap cur ?m {x \<in> dom ?m. from_on (Some []) x} (RocksDB_Iterator E r (Some []) None)"
    using start_forward [OF assms(1), of ?i "Some []" None] i
    by (auto simp: at_tail_def RocksDB_Iterator_def newRocksDBIterator_def from_on_def)
  from Init_loop_no_result [OF run assms(1) fin refl this]
  have "\<forall>x \<in> {x \<in> dom ?m. from_on (Some []) x}. x = [] \<or> hd x = 0" .
  with assms(2-4) show False by (auto simp: from_on_def)
qed

theorem NVTreeMem_Init_never_returns_witness:
  "\<forall>u. NVTreeMem_Init list_engine True (NewRocksDB [([0x10], replicate 8 0)]) (NewNVTreeMem True) \<noteq> Some (Inr u)"
  by (intro allI, rule NVTreeMem_Init_never_returns [OF list_engine_ok, of "[0x10]"]) (simp_all add: NewRocksDB_def)

end
