(* ===== verification/NVHistory.thy ===== *)
theory NVHistory
  imports NVTree
begin

text \<open>
  The history that the index tree keeps in the RocksDB (indextree/indextree.go): blocks of \<open>Set\<close> and
  \<open>Delete\<close>, the pruning of expired records by the compaction filter, and what \<open>GetAtHeight\<close> finds.
\<close>

section \<open>The order of record keys\<close>

lemma append_less_iff:
  fixes xs ys us vs :: bytes
  shows "length xs = length ys \<Longrightarrow> xs @ us < ys @ vs \<longleftrightarrow> xs < ys \<or> xs = ys \<and> us < vs"
  by (induction xs ys rule: list_induct2) auto

lemma get_le_append: "get_le (xs @ ys) = get_le xs + 256 ^ length xs * get_le ys"
  by (induction xs) (simp_all add: algebra_simps)

lemma get_be_Cons: "get_be (b # bs) = unat b * 256 ^ length bs + get_be bs"
  by (simp add: get_be_def get_le_append)

lemma get_be_bound: "get_be bs < 256 ^ length bs"
  using get_le_bound [of "rev bs"] by (simp add: get_be_def)

lemma bytes_less_get_be: "length bs = length cs \<Longrightarrow> bs < cs \<longleftrightarrow> get_be bs < get_be cs"
proof (induction bs cs rule: list_induct2)
  case (Cons b bs c cs)
  let ?p = "256 ^ length cs :: nat"
  have bd: "get_be bs < ?p" "get_be cs < ?p" using get_be_bound [of bs] get_be_bound [of cs] Cons.hyps by simp_all
  consider "b < c" | "b = c" | "c < b" by fastforce
  then show ?case
  proof cases
    case 1
    then have "Suc (unat b) \<le> unat c" by (simp add: word_less_nat_alt)
    then have "Suc (unat b) * ?p \<le> unat c * ?p" by (rule mult_le_mono1)
    with 1 bd Cons.hyps show ?thesis by (simp add: get_be_Cons)
  next
    case 2
    with Cons show ?thesis by (simp add: get_be_Cons)
  next
    case 3
    then have "Suc (unat c) \<le> unat b" by (simp add: word_less_nat_alt)
    then have "Suc (unat c) * ?p \<le> unat b * ?p" by (rule mult_le_mono1)
    moreover have "\<not> b < c" "b \<noteq> c" using 3 by auto
    ultimately show ?thesis using bd Cons.hyps by (simp add: get_be_Cons)
  qed
qed (simp add: get_be_def)

lemma put_be_less: "a < 256 ^ n \<Longrightarrow> b < 256 ^ n \<Longrightarrow> put_be n a < put_be n b \<longleftrightarrow> a < b"
  by (simp add: bytes_less_get_be get_put_be)

abbreviation maxh :: nat where
  "maxh \<equiv> 2 ^ 64 - 1"

lemma maxh_bound: "h \<le> maxh \<Longrightarrow> h < 256 ^ 8"
  by simp

lemma hkey_less:
  assumes "length k = length k'" and "h \<le> maxh" and "h' \<le> maxh"
  shows "hkey k h < hkey k' h' \<longleftrightarrow> k < k' \<or> k = k' \<and> h < h'"
  using put_be_less [OF maxh_bound [OF assms(2)] maxh_bound [OF assms(3)]]
  by (simp add: hkey_def append_less_iff [OF assms(1)])

lemma hkey_eq:
  assumes "length k = length k'" and "h \<le> maxh" and "h' \<le> maxh"
  shows "hkey k h = hkey k' h' \<longleftrightarrow> k = k' \<and> h = h'"
  using hkey_less [OF assms] hkey_less [OF assms(1) [symmetric] assms(3,2)] by auto


section \<open>Runs of the index\<close>




section \<open>The invariant of the history\<close>

definition enc_pos :: "nat option \<Rightarrow> bytes" where
  "enc_pos v = (case v of None \<Rightarrow> [] | Some x \<Rightarrow> put_le 8 x)"

text \<open>The heights of the records of \<open>k\<close> above \<open>h\<close>: the first one holds the position at \<open>h\<close>.\<close>

definition recs :: "(bytes \<rightharpoonup> bytes) \<Rightarrow> bytes \<Rightarrow> nat \<Rightarrow> nat set" where
  "recs M k h = {r. h < r \<and> r \<le> maxh \<and> hkey k r \<in> dom M}"

definition refused :: "HeightCompactionFilter \<Rightarrow> nat \<Rightarrow> bool" where
  "refused f h \<longleftrightarrow> pruneEnable f \<and> h \<le> pruneHeight f"

definition rec_ok :: "(bytes \<rightharpoonup> bytes) \<Rightarrow> bytes \<Rightarrow> nat \<Rightarrow> nat option \<Rightarrow> bool" where
  "rec_ok M k h v \<longleftrightarrow> (if recs M k h = {} then v = None else M (hkey k (Min (recs M k h))) = Some (enc_pos v))"

text \<open>\<open>T\<close> are the keys already written by the block at height \<open>n\<close>.\<close>

definition hist_ok :: "nat \<Rightarrow> HeightCompactionFilter \<Rightarrow> BTree \<Rightarrow> (bytes \<rightharpoonup> bytes) \<Rightarrow> (nat \<Rightarrow> bytes \<rightharpoonup> nat) \<Rightarrow> nat \<Rightarrow> bytes set \<Rightarrow> bool" where
  "hist_ok L f b M S n T \<longleftrightarrow> bt_inv b \<and> n < maxh \<and>
     (\<forall>k v. bt_Get k b = Some v \<longrightarrow> length k = L \<and> v < 2 ^ 64) \<and>
     (\<forall>x \<in> dom M. \<exists>k r. x = hkey k r \<and> length k = L \<and> (r < n \<or> r = maxh \<or> r = n \<and> k \<in> T)) \<and>
     (\<forall>k. length k = L \<longrightarrow> M (hkey k maxh) = map_option (put_le 8) (bt_Get k b)) \<and>
     (\<forall>k h. length k = L \<longrightarrow> h < maxh \<longrightarrow> \<not> refused f h \<longrightarrow> rec_ok M k h (S h k)) \<and>
     (\<forall>h \<ge> n. S h = (\<lambda>k. bt_Get k b)) \<and> (\<forall>h k v. S h k = Some v \<longrightarrow> v < 2 ^ 64)"


lemma hist_okD:
  assumes "hist_ok L f b M S n T"
  shows "bt_inv b" "n < maxh" "bt_Get k b = Some v \<Longrightarrow> length k = L \<and> v < 2 ^ 64"
    "x \<in> dom M \<Longrightarrow> \<exists>k r. x = hkey k r \<and> length k = L \<and> (r < n \<or> r = maxh \<or> r = n \<and> k \<in> T)"
    "length k = L \<Longrightarrow> M (hkey k maxh) = map_option (put_le 8) (bt_Get k b)"
    "length k = L \<Longrightarrow> h < maxh \<Longrightarrow> \<not> refused f h \<Longrightarrow> rec_ok M k h (S h k)" "n \<le> h \<Longrightarrow> S h k = bt_Get k b" "S h k = Some v \<Longrightarrow> v < 2 ^ 64"
  using assms unfolding hist_ok_def by (blast | simp)+

text \<open>The records of a key with their heights.\<close>

lemma rec_height:
  assumes "hist_ok L f b M S n T" and "hkey k r \<in> dom M" and "length k = L" and "r \<le> maxh"
  shows "r < n \<or> r = maxh \<or> r = n \<and> k \<in> T"
proof -
  from hist_okD(4) [OF assms(1,2)] obtain k' r' where x: "hkey k r = hkey k' r'" "length k' = L"
    "r' < n \<or> r' = maxh \<or> r' = n \<and> k' \<in> T" by blast
  moreover have "r' \<le> maxh" using x(3) hist_okD(2) [OF assms(1)] by auto
  ultimately show ?thesis using hkey_eq [of k k' r r'] assms(3,4) by auto
qed




text \<open>Before its operation in a block a key has no record above the current height but the up-to-date one.\<close>

lemma untouched_recs:
  assumes "hist_ok L f b M S H T" and "k \<notin> T" and "length k = L"
  shows "recs M k H = (if bt_Get k b = None then {} else {maxh})"
proof -
  have "r = maxh" if "r \<in> recs M k H" for r
    using rec_height [OF assms(1) _ assms(3), of r] that assms(2) by (auto simp: recs_def)
  moreover have "maxh \<in> recs M k H \<longleftrightarrow> bt_Get k b \<noteq> None"
    using hist_okD(2) [OF assms(1)] hist_okD(5) [OF assms(1,3)] by (auto simp: recs_def dom_def)
  ultimately show ?thesis by auto
qed


section \<open>Every run keeps the history\<close>










section \<open>Queries at a height\<close>












end
