(* ===== verification/MetaDB.thy ===== *)
theory MetaDB
  imports RocksDB
begin

text \<open>
  The meta data of metadb/metadb.go: four counters that are kept in memory and written by \<open>Commit\<close>, and
  records that are read from and written to the RocksDB directly. The RocksDB is shared with the index
  tree, so its state is passed along. \<open>Set\<close> on the current batch dereferences a nil batch when none is
  open; \<open>SetEdgeNodes\<close>, \<open>DeleteTwigHeight\<close> and \<open>SetIsRunning\<close> write past the batch.
\<close>

section \<open>Model\<close>

definition ByteCurrHeight :: byte where "ByteCurrHeight = 0x10"
definition ByteTwigMtFileSize :: byte where "ByteTwigMtFileSize = 0x11"
definition ByteEntryFileSize :: byte where "ByteEntryFileSize = 0x12"
definition ByteTwigHeight :: byte where "ByteTwigHeight = 0x13"
definition ByteLastPrunedTwig :: byte where "ByteLastPrunedTwig = 0x14"
definition ByteEdgeNodes :: byte where "ByteEdgeNodes = 0x15"
definition ByteMaxSerialNum :: byte where "ByteMaxSerialNum = 0x16"
definition ByteOldestActiveTwigID :: byte where "ByteOldestActiveTwigID = 0x18"
definition ByteIsRunning :: byte where "ByteIsRunning = 0x19"

lemmas meta_bytes = ByteCurrHeight_def ByteTwigMtFileSize_def ByteEntryFileSize_def ByteTwigHeight_def
  ByteLastPrunedTwig_def ByteEdgeNodes_def ByteMaxSerialNum_def ByteOldestActiveTwigID_def ByteIsRunning_def

record MetaDBWithTMDB =
  md_currHeight :: int
  md_lastPrunedTwig :: int
  md_maxSerialNum :: int
  md_oldestActiveTwigID :: int

definition NewMetaDB :: MetaDBWithTMDB where
  "NewMetaDB = \<lparr>md_currHeight = 0, md_lastPrunedTwig = 0, md_maxSerialNum = 0, md_oldestActiveTwigID = 0\<rparr>"

text \<open>\<open>int64(binary.LittleEndian.Uint64(bz))\<close>, and the eight bytes of \<open>PutUint64\<close>.\<close>

definition readInt64 :: "bytes \<Rightarrow> int outcome" where
  "readInt64 bz = (if length bz < 8 then Inl IndexOutOfRange else Inr (int64 (get_le (take 8 bz))))"

definition int64Bytes :: "int \<Rightarrow> bytes" where
  "int64Bytes x = put_le 8 (uint64 x)"

text \<open>A counter of the RocksDB: 0 when the record is missing.\<close>

definition loadCounter :: "('e, 'it) engine \<Rightarrow> 'e RocksDB \<Rightarrow> byte \<Rightarrow> int outcome" where
  "loadCounter E r key = (case RocksDB_Get E r [key] of None \<Rightarrow> Inr 0 | Some bz \<Rightarrow> readInt64 bz)"

definition ReloadFromKVDB :: "('e, 'it) engine \<Rightarrow> 'e RocksDB \<Rightarrow> MetaDBWithTMDB \<Rightarrow> MetaDBWithTMDB outcome" where
  "ReloadFromKVDB E r m =
     bindE (loadCounter E r ByteCurrHeight) (\<lambda>h.
     bindE (loadCounter E r ByteLastPrunedTwig) (\<lambda>p.
     bindE (loadCounter E r ByteMaxSerialNum) (\<lambda>s.
     bindE (loadCounter E r ByteOldestActiveTwigID) (\<lambda>a.
       Inr (m\<lparr>md_currHeight := h, md_lastPrunedTwig := p, md_maxSerialNum := s, md_oldestActiveTwigID := a\<rparr>)))))"

definition MetaDB_Commit :: "MetaDBWithTMDB \<Rightarrow> 'e RocksDB \<Rightarrow> 'e RocksDB outcome" where
  "MetaDB_Commit m r =
     bindE (CurrBatch_Set [ByteCurrHeight] (int64Bytes (md_currHeight m)) r) (\<lambda>r.
     bindE (CurrBatch_Set [ByteLastPrunedTwig] (int64Bytes (md_lastPrunedTwig m)) r) (\<lambda>r.
     bindE (CurrBatch_Set [ByteMaxSerialNum] (int64Bytes (md_maxSerialNum m)) r) (\<lambda>r.
       CurrBatch_Set [ByteOldestActiveTwigID] (int64Bytes (md_oldestActiveTwigID m)) r)))"

definition SetCurrHeight :: "int \<Rightarrow> MetaDBWithTMDB \<Rightarrow> MetaDBWithTMDB" where
  "SetCurrHeight h m = m\<lparr>md_currHeight := h\<rparr>"

definition GetCurrHeight :: "MetaDBWithTMDB \<Rightarrow> int" where
  "GetCurrHeight m = md_currHeight m"

definition SetTwigMtFileSize :: "int \<Rightarrow> 'e RocksDB \<Rightarrow> 'e RocksDB outcome" where
  "SetTwigMtFileSize s r = CurrBatch_Set [ByteTwigMtFileSize] (int64Bytes s) r"

definition GetTwigMtFileSize :: "('e, 'it) engine \<Rightarrow> 'e RocksDB \<Rightarrow> int outcome" where
  "GetTwigMtFileSize E r = loadCounter E r ByteTwigMtFileSize"

definition SetEntryFileSize :: "int \<Rightarrow> 'e RocksDB \<Rightarrow> 'e RocksDB outcome" where
  "SetEntryFileSize s r = CurrBatch_Set [ByteEntryFileSize] (int64Bytes s) r"

definition GetEntryFileSize :: "('e, 'it) engine \<Rightarrow> 'e RocksDB \<Rightarrow> int outcome" where
  "GetEntryFileSize E r = loadCounter E r ByteEntryFileSize"

definition twigHeightKey :: "int \<Rightarrow> bytes" where
  "twigHeightKey twigID = ByteTwigHeight # int64Bytes twigID"

definition setTwigHeight :: "int \<Rightarrow> int \<Rightarrow> 'e RocksDB \<Rightarrow> 'e RocksDB outcome" where
  "setTwigHeight twigID height r = CurrBatch_Set (twigHeightKey twigID) (int64Bytes height) r"

definition GetTwigHeight :: "('e, 'it) engine \<Rightarrow> 'e RocksDB \<Rightarrow> int \<Rightarrow> int outcome" where
  "GetTwigHeight E r twigID =
     (case RocksDB_Get E r (twigHeightKey twigID) of None \<Rightarrow> Inr (-1)
      | Some bz \<Rightarrow> if length bz = 0 then Inr (-1) else readInt64 bz)"

definition DeleteTwigHeight :: "('e, 'it) engine \<Rightarrow> int \<Rightarrow> 'e RocksDB \<Rightarrow> 'e RocksDB" where
  "DeleteTwigHeight E twigID r = RocksDB_Delete E (twigHeightKey twigID) r"

definition SetLastPrunedTwig :: "int \<Rightarrow> MetaDBWithTMDB \<Rightarrow> MetaDBWithTMDB" where
  "SetLastPrunedTwig twigID m = m\<lparr>md_lastPrunedTwig := twigID\<rparr>"

definition GetLastPrunedTwig :: "MetaDBWithTMDB \<Rightarrow> int" where
  "GetLastPrunedTwig m = md_lastPrunedTwig m"

definition GetEdgeNodes :: "('e, 'it) engine \<Rightarrow> 'e RocksDB \<Rightarrow> bytes option" where
  "GetEdgeNodes E r = RocksDB_Get E r [ByteEdgeNodes]"

definition SetEdgeNodes :: "('e, 'it) engine \<Rightarrow> bytes \<Rightarrow> 'e RocksDB \<Rightarrow> 'e RocksDB" where
  "SetEdgeNodes E bz r = RocksDB_Set E [ByteEdgeNodes] bz r"

definition GetMaxSerialNum :: "MetaDBWithTMDB \<Rightarrow> int" where
  "GetMaxSerialNum m = md_maxSerialNum m"

text \<open>The counters are int64 and wrap around.\<close>

definition IncrMaxSerialNum :: "MetaDBWithTMDB \<times> 'e RocksDB \<Rightarrow> (MetaDBWithTMDB \<times> 'e RocksDB) outcome" where
  "IncrMaxSerialNum mr =
     (let (m, r) = mr; sn = int64 (uint64 (md_maxSerialNum m + 1)); m = m\<lparr>md_maxSerialNum := sn\<rparr>
      in if sn mod 2048 = 0 then bindE (setTwigHeight (sn div 2048) (md_currHeight m) r) (\<lambda>r. Inr (m, r))
         else Inr (m, r))"

definition GetOldestActiveTwigID :: "MetaDBWithTMDB \<Rightarrow> int" where
  "GetOldestActiveTwigID m = md_oldestActiveTwigID m"

definition IncrOldestActiveTwigID :: "MetaDBWithTMDB \<Rightarrow> MetaDBWithTMDB" where
  "IncrOldestActiveTwigID m = m\<lparr>md_oldestActiveTwigID := int64 (uint64 (md_oldestActiveTwigID m + 1))\<rparr>"

definition GetIsRunning :: "('e, 'it) engine \<Rightarrow> 'e RocksDB \<Rightarrow> bool" where
  "GetIsRunning E r = (case RocksDB_Get E r [ByteIsRunning] of None \<Rightarrow> True | Some bz \<Rightarrow> length bz = 0 \<or> hd bz \<noteq> 0)"

definition SetIsRunning :: "('e, 'it) engine \<Rightarrow> bool \<Rightarrow> 'e RocksDB \<Rightarrow> 'e RocksDB" where
  "SetIsRunning E running r = RocksDB_SetSync E [ByteIsRunning] (if running then [1] else [0]) r"

definition MetaDB_Init :: "('e, 'it) engine \<Rightarrow> MetaDBWithTMDB \<times> 'e RocksDB \<Rightarrow> (MetaDBWithTMDB \<times> 'e RocksDB) outcome" where
  "MetaDB_Init E mr =
     (let (m, r) = mr; r = SetIsRunning E False r;
          m = m\<lparr>md_currHeight := 0, md_lastPrunedTwig := -1, md_maxSerialNum := 0, md_oldestActiveTwigID := 0\<rparr>
      in bindE (SetTwigMtFileSize 0 r) (\<lambda>r.
         bindE (SetEntryFileSize 0 r) (\<lambda>r.
         bindE (MetaDB_Commit m r) (\<lambda>r. Inr (m, r)))))"

section \<open>The records in the database\<close>

lemma readInt64_int64Bytes [simp]: "in_int64 x \<Longrightarrow> readInt64 (int64Bytes x) = Inr x"
  by (simp add: readInt64_def int64Bytes_def int64_uint64)

lemma length_int64Bytes [simp]: "length (int64Bytes x) = 8"
  by (simp add: int64Bytes_def)

lemma int64Bytes_inject: "in_int64 x \<Longrightarrow> in_int64 y \<Longrightarrow> int64Bytes x = int64Bytes y \<longleftrightarrow> x = y"
  by (metis readInt64_int64Bytes sum.inject(2))

lemma CurrBatch_Set_open [simp]: "batch r = Some b \<Longrightarrow> CurrBatch_Set k v r = Inr (r\<lparr>batch := Some (b @ [BatchPut k v])\<rparr>)"
  by (simp add: CurrBatch_Set_def)

definition wf_meta :: "MetaDBWithTMDB \<Rightarrow> bool" where
  "wf_meta m \<longleftrightarrow> in_int64 (md_currHeight m) \<and> in_int64 (md_lastPrunedTwig m) \<and> in_int64 (md_maxSerialNum m) \<and>
     in_int64 (md_oldestActiveTwigID m)"

text \<open>What the database holds once a batch has been written.\<close>

lemma Get_CloseOldBatch:
  assumes "engine_ok E cont snap cur" and "batch r = Some b"
  shows "RocksDB_Get E (CloseOldBatch E r) k = fold apply_op b (cont (db r)) k"
  using assms by (simp add: RocksDB_Get_def CloseOldBatch_def engine_okD)

lemma Get_apply_other: "\<forall>x \<in> set b. (case x of BatchPut k' v \<Rightarrow> k' \<noteq> k | BatchDelete k' \<Rightarrow> k' \<noteq> k) \<Longrightarrow> fold apply_op b M k = M k"
  by (induction b arbitrary: M) (auto split: batch_op.splits)

text \<open>
  C36: what a block writes to the meta data is there after a restart. The writes of \<open>EndWrite\<close> - the
  sizes of the two files and \<open>Commit\<close> - followed by the write of the batch let \<open>ReloadFromKVDB\<close>, on a
  new object, read the same four counters, and the sizes are read back; the heights of twigs and the
  running mark that were in the database stay, unless the batch set them.
\<close>

theorem MetaDB_restart:
  assumes "engine_ok E cont snap cur" and "wf_meta m" and "in_int64 eS" and "in_int64 tS" and "batch r = Some b"
  shows "\<exists>r1. bindE (SetEntryFileSize eS r) (\<lambda>r. bindE (SetTwigMtFileSize tS r) (MetaDB_Commit m)) = Inr r1 \<and>
    (let r2 = CloseOldBatch E r1
     in ReloadFromKVDB E r2 NewMetaDB = Inr m \<and> GetEntryFileSize E r2 = Inr eS \<and> GetTwigMtFileSize E r2 = Inr tS \<and>
        (\<forall>T. GetTwigHeight E r2 T = GetTwigHeight E (CloseOldBatch E r) T) \<and>
        GetIsRunning E r2 = GetIsRunning E (CloseOldBatch E r))"
proof -
  define b' where "b' = b @ [BatchPut [ByteEntryFileSize] (int64Bytes eS), BatchPut [ByteTwigMtFileSize] (int64Bytes tS),
    BatchPut [ByteCurrHeight] (int64Bytes (md_currHeight m)), BatchPut [ByteLastPrunedTwig] (int64Bytes (md_lastPrunedTwig m)),
    BatchPut [ByteMaxSerialNum] (int64Bytes (md_maxSerialNum m)),
    BatchPut [ByteOldestActiveTwigID] (int64Bytes (md_oldestActiveTwigID m))]"
  have get: "RocksDB_Get E (CloseOldBatch E (r\<lparr>batch := Some b'\<rparr>)) k = fold apply_op b' (cont (db r)) k" for k
    using Get_CloseOldBatch [OF assms(1), of "r\<lparr>batch := Some b'\<rparr>"] by simp
  have run: "bindE (SetEntryFileSize eS r) (\<lambda>r. bindE (SetTwigMtFileSize tS r) (MetaDB_Commit m)) = Inr (r\<lparr>batch := Some b'\<rparr>)"
    using assms(5) by (simp add: SetEntryFileSize_def SetTwigMtFileSize_def MetaDB_Commit_def b'_def)
  moreover have "ReloadFromKVDB E (CloseOldBatch E (r\<lparr>batch := Some b'\<rparr>)) NewMetaDB = Inr m"
    using assms(2) unfolding ReloadFromKVDB_def loadCounter_def get
    by (simp add: b'_def meta_bytes wf_meta_def NewMetaDB_def)
  moreover have "GetEntryFileSize E (CloseOldBatch E (r\<lparr>batch := Some b'\<rparr>)) = Inr eS"
    "GetTwigMtFileSize E (CloseOldBatch E (r\<lparr>batch := Some b'\<rparr>)) = Inr tS"
    using assms(3,4) unfolding GetEntryFileSize_def GetTwigMtFileSize_def loadCounter_def get
    by (simp_all add: b'_def meta_bytes)
  moreover have same: "RocksDB_Get E (CloseOldBatch E (r\<lparr>batch := Some b'\<rparr>)) k = RocksDB_Get E (CloseOldBatch E r) k"
    if "k = twigHeightKey T \<or> k = [ByteIsRunning]" for k T
    using that unfolding get Get_CloseOldBatch [OF assms(1,5)] by (auto simp: b'_def meta_bytes twigHeightKey_def)
  have "GetTwigHeight E (CloseOldBatch E (r\<lparr>batch := Some b'\<rparr>)) T = GetTwigHeight E (CloseOldBatch E r) T" for T
    using same [of _ T] by (simp add: GetTwigHeight_def)
  moreover have "GetIsRunning E (CloseOldBatch E (r\<lparr>batch := Some b'\<rparr>)) = GetIsRunning E (CloseOldBatch E r)"
    using same by (simp add: GetIsRunning_def)
  ultimately show ?thesis
    by (intro exI [of _ "r\<lparr>batch := Some b'\<rparr>"]) (simp add: Let_def)
qed

definition sampleMeta :: MetaDBWithTMDB where
  "sampleMeta = \<lparr>md_currHeight = 7, md_lastPrunedTwig = -1, md_maxSerialNum = 2050, md_oldestActiveTwigID = 1\<rparr>"

theorem MetaDB_restart_witness:
  "\<exists>r1. bindE (SetEntryFileSize 4096 (OpenNewBatch (NewRocksDB []))) (\<lambda>r. bindE (SetTwigMtFileSize 0 r) (MetaDB_Commit sampleMeta)) = Inr r1 \<and>
    ReloadFromKVDB list_engine (CloseOldBatch list_engine r1) NewMetaDB = Inr sampleMeta"
  using MetaDB_restart [OF list_engine_ok, of sampleMeta 4096 0 "OpenNewBatch (NewRocksDB [])" "[]"]
  by (auto simp: sampleMeta_def wf_meta_def in_int64_def OpenNewBatch_def Let_def)

end
