(* ===== verification/OnvaKV.thy ===== *)
theory OnvaKV
  imports MetaDB NVTree LoadDump "HOL-Library.AList"
begin

text \<open>
  The store of onvakv.go, which composes the data tree, the index tree, the meta data and the RocksDB.
  A block is prepared by reading every entry that it may touch into the cache of hot entries
  (\<open>PrepareForUpdate\<close>, \<open>PrepareForDeletion\<close>), then changed there (\<open>Set\<close>, \<open>Delete\<close>), and at its end the
  cache is sorted, the links between neighbouring keys are repaired, and the changed entries are
  appended to the data tree. The two interfaces of types/types.go are records of operations.

  The prepare phase runs in many goroutines, each of which stores into the locked buckets; here its
  calls are a sequence. A hot entry is owned by its map, so that the model has values where the code has
  pointers to hot entries; the loops of \<open>update\<close> over the buckets write disjoint slices. The order in
  which Go iterates a map is the order of the association list.
\<close>

section \<open>The interfaces\<close>

record 'd DataTreeI =
  dt_DeactiviateEntry :: "int \<Rightarrow> 'd \<Rightarrow> (nat \<times> 'd) outcome"
  dt_AppendEntry :: "Entry \<Rightarrow> 'd \<Rightarrow> (nat \<times> 'd) outcome"
  dt_AppendEntryRawBytes :: "bytes \<Rightarrow> int \<Rightarrow> 'd \<Rightarrow> (nat \<times> 'd) outcome"
  dt_ReadEntry :: "nat \<Rightarrow> 'd \<Rightarrow> Entry option outcome"
  dt_GetActiveBit :: "int \<Rightarrow> 'd \<Rightarrow> bool outcome"
  dt_EvictTwig :: "int \<Rightarrow> 'd \<Rightarrow> 'd outcome"
  dt_GetActiveEntriesInTwig :: "int \<Rightarrow> 'd \<Rightarrow> bytes list outcome"
  dt_TwigCanBePruned :: "int \<Rightarrow> 'd \<Rightarrow> bool"
  dt_PruneTwigs :: "int \<Rightarrow> int \<Rightarrow> 'd \<Rightarrow> (bytes \<times> 'd) outcome"
  dt_GetFileSizes :: "'d \<Rightarrow> nat \<times> nat"
  dt_EndBlock :: "'d \<Rightarrow> (bytes \<times> 'd) outcome"

record ('i, 'e) IndexTreeI =
  ix_ActiveCount :: "'i \<Rightarrow> nat"
  ix_BeginWrite :: "int \<Rightarrow> 'i \<Rightarrow> 'i outcome"
  ix_EndWrite :: "'i \<Rightarrow> 'i outcome"
  ix_Iterator :: "bytes \<Rightarrow> bytes \<Rightarrow> 'i \<Rightarrow> ForwardIter outcome"
  ix_ReverseIterator :: "bytes \<Rightarrow> bytes \<Rightarrow> 'i \<Rightarrow> BackwardIter outcome"
  ix_NextForward :: "'i \<Rightarrow> ForwardIter \<Rightarrow> ForwardIter outcome"
  ix_NextBackward :: "'i \<Rightarrow> BackwardIter \<Rightarrow> BackwardIter outcome"
  ix_Get :: "bytes \<Rightarrow> 'i \<Rightarrow> nat option outcome"
  ix_Set :: "bytes \<Rightarrow> nat \<Rightarrow> 'i \<times> 'e RocksDB \<Rightarrow> ('i \<times> 'e RocksDB) outcome"
  ix_Delete :: "bytes \<Rightarrow> 'i \<times> 'e RocksDB \<Rightarrow> ('i \<times> 'e RocksDB) outcome"

text \<open>The data tree of tree.go and the two index trees behind the interfaces.\<close>

definition TreeI :: "(bytes \<Rightarrow> bytes) \<Rightarrow> (bytes \<Rightarrow> bytes) \<Rightarrow> Tree DataTreeI" where
  "TreeI sha meow = \<lparr>dt_DeactiviateEntry = DeactiviateEntry, dt_AppendEntry = AppendEntry sha meow,
     dt_AppendEntryRawBytes = AppendEntryRawBytes sha meow,
     dt_ReadEntry = (\<lambda>pos t. bindE (Tree_ReadEntry t pos) (\<lambda>e. Inr (Some e))),
     dt_GetActiveBit = (\<lambda>sn t. GetActiveBit t sn),
     dt_EvictTwig = (\<lambda>T t. bindE (nonneg T) (\<lambda>T. Inr (EvictTwig T t))),
     dt_GetActiveEntriesInTwig = (\<lambda>T t. bindE (nonneg T) (GetActiveEntriesInTwig t)),
     dt_TwigCanBePruned = (\<lambda>T t. T < 0 \<or> TwigCanBePruned t (nat T)),
     dt_PruneTwigs = (\<lambda>s e t. bindE (nonneg s) (\<lambda>s. bindE (nonneg e) (\<lambda>e. PruneTwigs meow s e t))),
     dt_GetFileSizes = GetFileSizes, dt_EndBlock = EndBlock sha\<rparr>"

definition NVTreeI :: "(NVTreeMem, 'e) IndexTreeI" where
  "NVTreeI = \<lparr>ix_ActiveCount = NVTreeMem_ActiveCount, ix_BeginWrite = NVTreeMem_BeginWrite,
     ix_EndWrite = NVTreeMem_EndWrite, ix_Iterator = NVTreeMem_Iterator, ix_ReverseIterator = NVTreeMem_ReverseIterator,
     ix_NextForward = ForwardIterMem_Next, ix_NextBackward = BackwardIterMem_Next, ix_Get = NVTreeMem_Get,
     ix_Set = NVTreeMem_Set, ix_Delete = NVTreeMem_Delete\<rparr>"

definition MockIndexI :: "(MockIndexTree, 'e) IndexTreeI" where
  "MockIndexI = \<lparr>ix_ActiveCount = MockIndexTree_ActiveCount, ix_BeginWrite = (\<lambda>h t. Inr t),
     ix_EndWrite = Inr, ix_Iterator = MockIndexTree_Iterator, ix_ReverseIterator = MockIndexTree_ReverseIterator,
     ix_NextForward = (\<lambda>t. ForwardIter_Next), ix_NextBackward = (\<lambda>t. BackwardIter_Next),
     ix_Get = (\<lambda>k t. Inr (MockIndexTree_Get k t)), ix_Set = (\<lambda>k v (t, r). Inr (MockIndexTree_Set k v t, r)),
     ix_Delete = (\<lambda>k (t, r). Inr (MockIndexTree_Delete k t, r))\<rparr>"

section \<open>Hot entries and their maps\<close>

datatype OperationOnEntry = OpNone | OpDelete | OpInsertOrChange

record HotEntry =
  EntryPtr :: Entry
  Operation :: OperationOnEntry
  IsModified :: bool
  IsTouchedByNext :: bool

abbreviation "hkey_of h \<equiv> Key (EntryPtr h)"

definition newHotEntry :: "Entry \<Rightarrow> HotEntry" where
  "newHotEntry e = \<lparr>EntryPtr = e, Operation = OpNone, IsModified = False, IsTouchedByNext = False\<rparr>"

text \<open>64 maps, selected by the six high bits of a key's first byte; a value may be a nil pointer.\<close>

type_synonym BucketMap = "(bytes \<times> HotEntry option) list list"

definition NewBucketMap :: BucketMap where
  "NewBucketMap = replicate 64 []"

definition bucketIndex :: "bytes \<Rightarrow> nat outcome" where
  "bucketIndex key = (case key of [] \<Rightarrow> Inl IndexOutOfRange | b # _ \<Rightarrow> Inr (unat (drop_bit 2 b)))"

definition Load :: "bytes \<Rightarrow> BucketMap \<Rightarrow> HotEntry option option outcome" where
  "Load key bm = bindE (bucketIndex key) (\<lambda>idx. Inr (map_of (bm ! idx) key))"

definition Store :: "bytes \<Rightarrow> HotEntry option \<Rightarrow> BucketMap \<Rightarrow> BucketMap outcome" where
  "Store key value bm = bindE (bucketIndex key) (\<lambda>idx. Inr (bm[idx := AList.update key value (bm ! idx)]))"

definition isFakeInserted :: "HotEntry \<Rightarrow> bool" where
  "isFakeInserted h \<longleftrightarrow> SerialNum (EntryPtr h) = -1 \<and> Value (EntryPtr h) = None"

definition isInserted :: "HotEntry \<Rightarrow> bool" where
  "isInserted h \<longleftrightarrow> Operation h = OpInsertOrChange \<and> SerialNum (EntryPtr h) = -1"

definition isModified :: "HotEntry \<Rightarrow> bool" where
  "isModified h \<longleftrightarrow> Operation h = OpInsertOrChange \<and> SerialNum (EntryPtr h) \<ge> 0"

definition isHintHotEntry :: "HotEntry \<Rightarrow> bool" where
  "isHintHotEntry h \<longleftrightarrow> SerialNum (EntryPtr h) = - (2 ^ 63)"

definition makeHintHotEntry :: "bytes \<Rightarrow> HotEntry" where
  "makeHintHotEntry key = newHotEntry \<lparr>Key = key, Value = None, NextKey = [], Height = -1, LastHeight = -1,
     SerialNum = - (2 ^ 63)\<rparr>"

section \<open>State\<close>

record ('i, 'd, 'e) OnvaKV =
  meta :: MetaDBWithTMDB
  idxTree :: 'i
  datTree :: 'd
  rocksdb :: "'e RocksDB"
  rootHash :: bytes
  k2heMap :: BucketMap
  k2nkMap :: BucketMap
  tempEntries64 :: "HotEntry list list"
  cachedEntries :: "HotEntry list"
  startKey :: bytes
  endKey :: bytes

definition StartReapThres :: int where
  "StartReapThres = 10000"

definition KeptEntriesToActiveEntriesRatio :: int where
  "KeptEntriesToActiveEntriesRatio = 2"

text \<open>\<open>IncrMaxSerialNum\<close> and the writes to the index, with the shared RocksDB.\<close>

definition okv_IncrMaxSerialNum :: "('i, 'd, 'e) OnvaKV \<Rightarrow> ('i, 'd, 'e) OnvaKV outcome" where
  "okv_IncrMaxSerialNum okv =
     bindE (IncrMaxSerialNum (meta okv, rocksdb okv)) (\<lambda>(m, r). Inr (okv\<lparr>meta := m, rocksdb := r\<rparr>))"

definition okv_idxSet :: "('i, 'e) IndexTreeI \<Rightarrow> bytes \<Rightarrow> nat \<Rightarrow> ('i, 'd, 'e) OnvaKV \<Rightarrow> ('i, 'd, 'e) OnvaKV outcome" where
  "okv_idxSet I k pos okv =
     bindE (ix_Set I k pos (idxTree okv, rocksdb okv)) (\<lambda>(i, r). Inr (okv\<lparr>idxTree := i, rocksdb := r\<rparr>))"

definition okv_idxDelete :: "('i, 'e) IndexTreeI \<Rightarrow> bytes \<Rightarrow> ('i, 'd, 'e) OnvaKV \<Rightarrow> ('i, 'd, 'e) OnvaKV outcome" where
  "okv_idxDelete I k okv =
     bindE (ix_Delete I k (idxTree okv, rocksdb okv)) (\<lambda>(i, r). Inr (okv\<lparr>idxTree := i, rocksdb := r\<rparr>))"

definition okv_AppendEntry :: "'d DataTreeI \<Rightarrow> Entry \<Rightarrow> ('i, 'd, 'e) OnvaKV \<Rightarrow> (nat \<times> ('i, 'd, 'e) OnvaKV) outcome" where
  "okv_AppendEntry D e okv = bindE (dt_AppendEntry D e (datTree okv)) (\<lambda>(pos, d). Inr (pos, okv\<lparr>datTree := d\<rparr>))"

section \<open>Reading\<close>

definition GetRootHash :: "('i, 'd, 'e) OnvaKV \<Rightarrow> bytes" where
  "GetRootHash okv = rootHash okv"

definition GetEntry :: "('i, 'e) IndexTreeI \<Rightarrow> 'd DataTreeI \<Rightarrow> bytes \<Rightarrow> ('i, 'd, 'e) OnvaKV \<Rightarrow> Entry option outcome" where
  "GetEntry I D k okv =
     bindE (ix_Get I k (idxTree okv)) (\<lambda>r. case r of None \<Rightarrow> Inr None | Some pos \<Rightarrow> dt_ReadEntry D pos (datTree okv))"

text \<open>
  A read whose entry is used: only the mock tree can return a nil entry, which panics at its first use,
  at the latest when \<open>update\<close> sorts the hot entries; here the read itself panics.
\<close>

definition okv_ReadEntry :: "'d DataTreeI \<Rightarrow> nat \<Rightarrow> ('i, 'd, 'e) OnvaKV \<Rightarrow> Entry outcome" where
  "okv_ReadEntry D pos okv =
     bindE (dt_ReadEntry D pos (datTree okv)) (\<lambda>e. case e of None \<Rightarrow> Inl NilDeref | Some e \<Rightarrow> Inr e)"

definition getPrevEntry :: "('i, 'e) IndexTreeI \<Rightarrow> 'd DataTreeI \<Rightarrow> bytes \<Rightarrow> ('i, 'd, 'e) OnvaKV \<Rightarrow> Entry outcome" where
  "getPrevEntry I D k okv =
     bindE (ix_ReverseIterator I [] k (idxTree okv)) (\<lambda>iter.
       if \<not> BackwardIter_Valid iter then Inl (Panic ''The iterator is invalid! Missing a guard node?'')
       else okv_ReadEntry D (b_value iter) okv)"

section \<open>Preparing a block\<close>

definition storeHot :: "bytes \<Rightarrow> HotEntry \<Rightarrow> ('i, 'd, 'e) OnvaKV \<Rightarrow> ('i, 'd, 'e) OnvaKV outcome" where
  "storeHot k h okv = bindE (Store k (Some h) (k2heMap okv)) (\<lambda>bm. Inr (okv\<lparr>k2heMap := bm\<rparr>))"

definition storeNext :: "bytes \<Rightarrow> ('i, 'd, 'e) OnvaKV \<Rightarrow> ('i, 'd, 'e) OnvaKV outcome" where
  "storeNext k okv = bindE (Store k None (k2nkMap okv)) (\<lambda>bm. Inr (okv\<lparr>k2nkMap := bm\<rparr>))"

definition PrepareForUpdate :: "('i, 'e) IndexTreeI \<Rightarrow> 'd DataTreeI \<Rightarrow> bytes \<Rightarrow> ('i, 'd, 'e) OnvaKV \<Rightarrow> ('i, 'd, 'e) OnvaKV outcome" where
  "PrepareForUpdate I D k okv =
     bindE (ix_Get I k (idxTree okv)) (\<lambda>r. case r of
         Some pos \<Rightarrow> bindE (okv_ReadEntry D pos okv) (\<lambda>e. storeHot k (newHotEntry e) okv)
       | None \<Rightarrow>
           bindE (getPrevEntry I D k okv) (\<lambda>prevEntry.
           bindE (storeHot k (newHotEntry \<lparr>Key = k, Value = None, NextKey = [], Height = 0, LastHeight = 0, SerialNum = -1\<rparr>) okv) (\<lambda>okv.
           bindE (storeHot (Key prevEntry) (newHotEntry prevEntry) okv) (\<lambda>okv.
             storeNext (NextKey prevEntry) okv))))"

definition PrepareForDeletion :: "('i, 'e) IndexTreeI \<Rightarrow> 'd DataTreeI \<Rightarrow> bytes \<Rightarrow> ('i, 'd, 'e) OnvaKV \<Rightarrow> (bool \<times> ('i, 'd, 'e) OnvaKV) outcome" where
  "PrepareForDeletion I D k okv =
     bindE (ix_Get I k (idxTree okv)) (\<lambda>r. case r of
         None \<Rightarrow> Inr (False, okv)
       | Some pos \<Rightarrow>
           bindE (okv_ReadEntry D pos okv) (\<lambda>entry.
           bindE (getPrevEntry I D k okv) (\<lambda>prevEntry.
           bindE (storeHot (Key entry) (newHotEntry entry) okv) (\<lambda>okv.
           bindE (storeHot (Key prevEntry) (newHotEntry prevEntry) okv) (\<lambda>okv.
           bindE (storeNext (NextKey entry) okv) (\<lambda>okv. Inr (True, okv)))))))"

section \<open>The write phase\<close>

definition okv_BeginWrite :: "('i, 'e) IndexTreeI \<Rightarrow> int \<Rightarrow> ('i, 'd, 'e) OnvaKV \<Rightarrow> ('i, 'd, 'e) OnvaKV outcome" where
  "okv_BeginWrite I height okv =
     bindE (ix_BeginWrite I height (idxTree okv)) (\<lambda>i.
       Inr (okv\<lparr>rocksdb := OpenNewBatch (rocksdb okv), idxTree := i, meta := SetCurrHeight height (meta okv)\<rparr>))"

definition okv_Set :: "bytes \<Rightarrow> bytes option \<Rightarrow> ('i, 'd, 'e) OnvaKV \<Rightarrow> ('i, 'd, 'e) OnvaKV outcome" where
  "okv_Set key value okv =
     bindE (Load key (k2heMap okv)) (\<lambda>r. case r of
         None \<Rightarrow> Inl (Panic ''Can not find entry in cache'')
       | Some None \<Rightarrow> Inl (Panic ''Can not change or insert at a fake entry'')
       | Some (Some h) \<Rightarrow> storeHot key (h\<lparr>EntryPtr := (EntryPtr h)\<lparr>Value := value\<rparr>, Operation := OpInsertOrChange\<rparr>) okv)"

definition okv_Delete :: "bytes \<Rightarrow> ('i, 'd, 'e) OnvaKV \<Rightarrow> ('i, 'd, 'e) OnvaKV outcome" where
  "okv_Delete key okv =
     bindE (Load key (k2heMap okv)) (\<lambda>r. case r of
         None \<Rightarrow> Inr okv
       | Some None \<Rightarrow> Inr okv
       | Some (Some h) \<Rightarrow> storeHot key (h\<lparr>Operation := OpDelete\<rparr>) okv)"

section \<open>Repairing the links\<close>

definition is_live :: "HotEntry \<Rightarrow> bool" where
  "is_live h \<longleftrightarrow> Operation h \<noteq> OpDelete \<and> \<not> isFakeInserted h"

definition getPrev :: "HotEntry list \<Rightarrow> nat \<Rightarrow> nat outcome" where
  "getPrev ces i = (case find (\<lambda>j. is_live (ces ! j)) (rev [0 ..< i]) of
       None \<Rightarrow> Inl (Panic ''Can not find previous entry'') | Some j \<Rightarrow> Inr j)"

definition getNext :: "HotEntry list \<Rightarrow> nat \<Rightarrow> nat outcome" where
  "getNext ces i = (case find (\<lambda>j. is_live (ces ! j)) [i + 1 ..< length ces] of
       None \<Rightarrow> Inl (Panic ''Can not find next entry'') | Some j \<Rightarrow> Inr j)"

definition touch :: "nat \<Rightarrow> bytes \<Rightarrow> HotEntry list \<Rightarrow> HotEntry list" where
  "touch p k ces = ces[p := (ces ! p)\<lparr>EntryPtr := (EntryPtr (ces ! p))\<lparr>NextKey := k\<rparr>, IsTouchedByNext := True\<rparr>]"

text \<open>One round of the loop that sets \<open>NextKey\<close> and the marks.\<close>

definition linkEntry :: "nat \<Rightarrow> HotEntry list \<Rightarrow> HotEntry list outcome" where
  "linkEntry i ces =
     (let h = ces ! i
      in if Operation h \<noteq> OpNone \<and> isHintHotEntry h then Inl (Panic ''Operate on a hint entry'')
         else if isFakeInserted h then Inr ces
         else if Operation h = OpDelete then
           (let ces = ces[i := h\<lparr>IsModified := True\<rparr>]
            in bindE (getNext ces i) (\<lambda>next.
               bindE (getPrev ces i) (\<lambda>prev. Inr (touch prev (hkey_of (ces ! next)) ces))))
         else if isInserted h then
           (let ces = ces[i := h\<lparr>IsModified := True\<rparr>]
            in bindE (getNext ces i) (\<lambda>next.
               let ces = ces[i := (ces ! i)\<lparr>EntryPtr := (EntryPtr (ces ! i))\<lparr>NextKey := hkey_of (ces ! next)\<rparr>\<rparr>]
               in bindE (getPrev ces i) (\<lambda>prev. Inr (touch prev (hkey_of h) ces))))
         else if isModified h then Inr (ces[i := h\<lparr>IsModified := True\<rparr>])
         else Inr ces)"

definition linkEntries :: "HotEntry list \<Rightarrow> HotEntry list outcome" where
  "linkEntries ces = foldE linkEntry [0 ..< length ces] ces"

section \<open>The end of a block\<close>

definition okv_DeactiviateEntry :: "'d DataTreeI \<Rightarrow> int \<Rightarrow> ('i, 'd, 'e) OnvaKV \<Rightarrow> ('i, 'd, 'e) OnvaKV outcome" where
  "okv_DeactiviateEntry D sn okv =
     bindE (dt_DeactiviateEntry D sn (datTree okv)) (\<lambda>(pendingDeactCount, d).
       let okv = okv\<lparr>datTree := d\<rparr>
       in if pendingDeactCount > DeactivedSNListMaxLen then
            (let sn = GetMaxSerialNum (meta okv)
             in bindE (okv_IncrMaxSerialNum okv) (\<lambda>okv.
                bindE (okv_AppendEntry D (DummyEntry sn) okv) (\<lambda>(_, okv).
                bindE (dt_DeactiviateEntry D sn (datTree okv)) (\<lambda>(_, d). Inr (okv\<lparr>datTree := d\<rparr>)))))
          else Inr okv)"

text \<open>The slice of one bucket, sorted by key; the keys of a bucket differ, so that the order is unique.\<close>

definition bucketEntries :: "BucketMap \<Rightarrow> BucketMap \<Rightarrow> nat \<Rightarrow> HotEntry list \<Rightarrow> HotEntry list outcome" where
  "bucketEntries he nk idx temp =
     (if None \<in> set (map snd (he ! idx)) then Inl NilDeref
      else Inr (sort_key hkey_of (temp @ map (\<lambda>(_, e). the e) (he ! idx) @
        map makeHintHotEntry (filter (\<lambda>k. map_of (he ! idx) k = None) (map fst (nk ! idx))))))"

fun storeEntry :: "('i, 'e) IndexTreeI \<Rightarrow> 'd DataTreeI \<Rightarrow> HotEntry \<Rightarrow> ('i, 'd, 'e) OnvaKV \<Rightarrow> ('i, 'd, 'e) OnvaKV outcome" where
  "storeEntry I D h okv =
     (let ptr = EntryPtr h
      in if \<not> (IsModified h \<or> IsTouchedByNext h) then Inr okv
         else if Operation h = OpDelete \<and> SerialNum ptr \<ge> 0 then
           bindE (okv_idxDelete I (Key ptr) okv) (okv_DeactiviateEntry D (SerialNum ptr))
         else if Operation h \<noteq> OpNone \<or> IsTouchedByNext h then
           bindE (if SerialNum ptr \<ge> 0 then okv_DeactiviateEntry D (SerialNum ptr) okv else Inr okv) (\<lambda>okv.
           let ptr = ptr\<lparr>LastHeight := Height ptr, Height := GetCurrHeight (meta okv), SerialNum := GetMaxSerialNum (meta okv)\<rparr>
           in bindE (okv_IncrMaxSerialNum okv) (\<lambda>okv.
              bindE (okv_AppendEntry D ptr okv) (\<lambda>(pos, okv). okv_idxSet I (Key ptr) pos okv)))
         else Inr okv)"

definition update :: "('i, 'e) IndexTreeI \<Rightarrow> 'd DataTreeI \<Rightarrow> ('i, 'd, 'e) OnvaKV \<Rightarrow> ('i, 'd, 'e) OnvaKV outcome" where
  "update I D okv =
     bindE (foldE (\<lambda>idx temps. bindE (bucketEntries (k2heMap okv) (k2nkMap okv) idx (temps ! idx)) (\<lambda>es. Inr (temps[idx := es])))
       [0 ..< 64] (tempEntries64 okv)) (\<lambda>temps.
     bindE (linkEntries (concat temps)) (\<lambda>ces.
       foldE (storeEntry I D) ces (okv\<lparr>tempEntries64 := temps, cachedEntries := ces\<rparr>)))"

definition numOfKeptEntries :: "('i, 'd, 'e) OnvaKV \<Rightarrow> int" where
  "numOfKeptEntries okv = GetMaxSerialNum (meta okv) - GetOldestActiveTwigID (meta okv) * int LeafCountInTwig"

text \<open>Moving one active entry of the oldest twig to the youngest.\<close>

definition reapEntry :: "('i, 'e) IndexTreeI \<Rightarrow> 'd DataTreeI \<Rightarrow> bytes \<Rightarrow> ('i, 'd, 'e) OnvaKV \<Rightarrow> ('i, 'd, 'e) OnvaKV outcome" where
  "reapEntry I D entryBz okv =
     bindE (ExtractSerialNum entryBz) (\<lambda>sn.
     bindE (okv_DeactiviateEntry D sn okv) (\<lambda>okv.
     let sn = GetMaxSerialNum (meta okv)
     in bindE (UpdateSerialNum entryBz sn) (\<lambda>entryBz.
        bindE (okv_IncrMaxSerialNum okv) (\<lambda>okv.
        bindE (dt_AppendEntryRawBytes D entryBz sn (datTree okv)) (\<lambda>(pos, d).
        bindE (ExtractKeyFromRawBytes entryBz) (\<lambda>key. okv_idxSet I key pos (okv\<lparr>datTree := d\<rparr>)))))))"

definition reapTwig :: "('i, 'e) IndexTreeI \<Rightarrow> 'd DataTreeI \<Rightarrow> ('i, 'd, 'e) OnvaKV \<Rightarrow> ('i, 'd, 'e) OnvaKV outcome" where
  "reapTwig I D okv =
     (let twigID = GetOldestActiveTwigID (meta okv)
      in bindE (dt_GetActiveEntriesInTwig D twigID (datTree okv)) (\<lambda>entries.
         bindE (foldE (reapEntry I D) entries okv) (\<lambda>okv.
         bindE (dt_EvictTwig D twigID (datTree okv)) (\<lambda>d.
           Inr (okv\<lparr>datTree := d, meta := IncrOldestActiveTwigID (meta okv)\<rparr>)))))"

definition reapNeeded :: "('i, 'e) IndexTreeI \<Rightarrow> ('i, 'd, 'e) OnvaKV \<Rightarrow> bool" where
  "reapNeeded I okv \<longleftrightarrow>
     numOfKeptEntries okv > int (ix_ActiveCount I (idxTree okv)) * KeptEntriesToActiveEntriesRatio \<and>
     int (ix_ActiveCount I (idxTree okv)) > StartReapThres"

partial_function (option) reapTwigs :: "('i, 'e) IndexTreeI \<Rightarrow> 'd DataTreeI \<Rightarrow> ('i, 'd, 'e) OnvaKV \<Rightarrow>
    ('i, 'd, 'e) OnvaKV outcome option" where
  "reapTwigs I D okv =
     (if reapNeeded I okv then (case reapTwig I D okv of Inl e \<Rightarrow> Some (Inl e) | Inr okv' \<Rightarrow> reapTwigs I D okv')
      else Some (Inr okv))"

definition finishBlock :: "('e, 'it) engine \<Rightarrow> ('i, 'e) IndexTreeI \<Rightarrow> 'd DataTreeI \<Rightarrow> ('i, 'd, 'e) OnvaKV \<Rightarrow>
    ('i, 'd, 'e) OnvaKV outcome" where
  "finishBlock E I D okv =
     bindE (dt_EndBlock D (datTree okv)) (\<lambda>(root, d).
     let okv = okv\<lparr>datTree := d, rootHash := root, k2heMap := NewBucketMap, k2nkMap := NewBucketMap,
           tempEntries64 := map (\<lambda>_. []) (tempEntries64 okv)\<rparr>;
         (eS, tS) = dt_GetFileSizes D d
     in bindE (SetEntryFileSize (int eS) (rocksdb okv)) (\<lambda>r.
        bindE (SetTwigMtFileSize (int tS) r) (\<lambda>r.
        bindE (MetaDB_Commit (meta okv) r) (\<lambda>r.
        bindE (ix_EndWrite I (idxTree okv)) (\<lambda>i.
          Inr (okv\<lparr>idxTree := i, rocksdb := CloseOldBatch E r\<rparr>))))))"

definition okv_EndWrite :: "('e, 'it) engine \<Rightarrow> ('i, 'e) IndexTreeI \<Rightarrow> 'd DataTreeI \<Rightarrow> ('i, 'd, 'e) OnvaKV \<Rightarrow>
    ('i, 'd, 'e) OnvaKV outcome option" where
  "okv_EndWrite E I D okv =
     (case update I D okv of Inl e \<Rightarrow> Some (Inl e)
      | Inr okv \<Rightarrow> map_option (\<lambda>res. bindE res (finishBlock E I D)) (reapTwigs I D okv))"

section \<open>Guards, pruning, the consistency check\<close>

text \<open>One guard entry: appended with the next serial number and indexed.\<close>

definition initGuard :: "('i, 'e) IndexTreeI \<Rightarrow> 'd DataTreeI \<Rightarrow> bytes \<Rightarrow> bytes \<Rightarrow> ('i, 'd, 'e) OnvaKV \<Rightarrow> ('i, 'd, 'e) OnvaKV outcome" where
  "initGuard I D key nextKey okv =
     (let entry = \<lparr>Key = key, Value = Some [], NextKey = nextKey, Height = -1, LastHeight = -1, SerialNum = GetMaxSerialNum (meta okv)\<rparr>
      in bindE (okv_AppendEntry D entry okv) (\<lambda>(pos, okv).
         bindE (okv_IncrMaxSerialNum okv) (okv_idxSet I key pos)))"

definition InitGuards :: "('e, 'it) engine \<Rightarrow> ('i, 'e) IndexTreeI \<Rightarrow> 'd DataTreeI \<Rightarrow> bytes \<Rightarrow> bytes \<Rightarrow> ('i, 'd, 'e) OnvaKV \<Rightarrow>
    ('i, 'd, 'e) OnvaKV outcome" where
  "InitGuards E I D start end' okv =
     bindE (ix_BeginWrite I (-1) (idxTree okv)) (\<lambda>i.
     let okv = okv\<lparr>startKey := start, endKey := end', idxTree := i, meta := SetCurrHeight (-1) (meta okv)\<rparr>
     in bindE (initGuard I D start end' okv) (\<lambda>okv.
        bindE (initGuard I D end' end' okv) (\<lambda>okv.
        bindE (ix_EndWrite I (idxTree okv)) (\<lambda>i.
        bindE (dt_EndBlock D (datTree okv)) (\<lambda>(root, d).
        bindE (MetaDB_Commit (meta okv) (rocksdb okv)) (\<lambda>r.
          Inr (okv\<lparr>idxTree := i, datTree := d, rootHash := root, rocksdb := OpenNewBatch (CloseOldBatch E r)\<rparr>)))))))"

text \<open>
  The search for the last twig to prune: None when the height of a twig is missing, and then nothing
  is pruned, not even the index.
\<close>

partial_function (option) pruneEnd :: "('e, 'it) engine \<Rightarrow> 'd DataTreeI \<Rightarrow> int \<Rightarrow> int \<Rightarrow> int \<Rightarrow> ('i, 'd, 'e) OnvaKV \<Rightarrow>
    int option outcome option" where
  "pruneEnd E D height end' endHeight okv =
     (if endHeight < height \<and> dt_TwigCanBePruned D end' (datTree okv) then
        (case GetTwigHeight E (rocksdb okv) (end' + 1) of Inl e \<Rightarrow> Some (Inl e)
         | Inr endHeight \<Rightarrow> if endHeight < 0 then Some (Inr None) else pruneEnd E D height (end' + 1) endHeight okv)
      else Some (Inr (Some end')))"

definition pruneRange :: "('e, 'it) engine \<Rightarrow> 'd DataTreeI \<Rightarrow> int \<Rightarrow> int \<Rightarrow> int \<Rightarrow> ('i, 'd, 'e) OnvaKV \<Rightarrow> ('i, 'd, 'e) OnvaKV outcome" where
  "pruneRange E D height start end' okv =
     (let end' = end' - 1
      in bindE
        (if end' > start then
           bindE (dt_PruneTwigs D start end' (datTree okv)) (\<lambda>(edgeNodesBytes, d).
           let r = SetEdgeNodes E edgeNodesBytes (rocksdb okv);
               r = fold (DeleteTwigHeight E) [start .. end' - 1] r
           in Inr (okv\<lparr>datTree := d, rocksdb := r, meta := SetLastPrunedTwig (end' - 1) (meta okv)\<rparr>))
         else Inr okv)
        (\<lambda>okv. Inr (okv\<lparr>rocksdb := SetPruneHeight (uint64 height) (rocksdb okv)\<rparr>)))"

definition PruneBeforeHeight :: "('e, 'it) engine \<Rightarrow> 'd DataTreeI \<Rightarrow> int \<Rightarrow> ('i, 'd, 'e) OnvaKV \<Rightarrow> ('i, 'd, 'e) OnvaKV outcome option" where
  "PruneBeforeHeight E D height okv =
     (let start = GetLastPrunedTwig (meta okv) + 1; end' = start + 1
      in case GetTwigHeight E (rocksdb okv) end' of Inl e \<Rightarrow> Some (Inl e)
         | Inr endHeight \<Rightarrow>
             if endHeight < 0 then Some (Inr okv)
             else map_option (\<lambda>res. bindE res (\<lambda>r. case r of None \<Rightarrow> Inr okv | Some end' \<Rightarrow> pruneRange E D height start end' okv))
                    (pruneEnd E D height end' endHeight okv))"

text \<open>The loop of \<open>CheckConsistency\<close>, whose iterator passes every item once, for \<open>n\<close> rounds at most.\<close>

fun checkLinks :: "('i, 'e) IndexTreeI \<Rightarrow> 'd DataTreeI \<Rightarrow> nat \<Rightarrow> BackwardIter \<Rightarrow> bytes \<Rightarrow> ('i, 'd, 'e) OnvaKV \<Rightarrow> unit outcome" where
  "checkLinks I D n iter nextKey okv =
     (if BackwardIter_Valid iter \<and> b_key iter \<noteq> startKey okv then
        (case n of 0 \<Rightarrow> Inl Stuck
         | Suc n \<Rightarrow>
             bindE (okv_ReadEntry D (b_value iter) okv) (\<lambda>entry.
               if NextKey entry \<noteq> nextKey then Inl (Panic ''Invalid NextKey'')
               else bindE (ix_NextBackward I (idxTree okv) iter) (\<lambda>iter'. checkLinks I D n iter' (b_key iter) okv)))
      else Inr ())"

declare checkLinks.simps [simp del]

definition okv_CheckConsistency :: "('i, 'e) IndexTreeI \<Rightarrow> 'd DataTreeI \<Rightarrow> ('i, 'd, 'e) OnvaKV \<Rightarrow> unit outcome" where
  "okv_CheckConsistency I D okv =
     bindE (ix_ReverseIterator I [] (endKey okv) (idxTree okv)) (\<lambda>iter.
       checkLinks I D (ix_ActiveCount I (idxTree okv)) iter (endKey okv) okv)"

definition okv_ActiveCount :: "('i, 'e) IndexTreeI \<Rightarrow> ('i, 'd, 'e) OnvaKV \<Rightarrow> nat" where
  "okv_ActiveCount I okv = ix_ActiveCount I (idxTree okv)"

section \<open>Iterators\<close>

text \<open>An iterator of the store is one of the index; \<open>Value\<close> reads the entry at its position.\<close>

definition okv_Iterator :: "('i, 'e) IndexTreeI \<Rightarrow> bytes \<Rightarrow> bytes \<Rightarrow> ('i, 'd, 'e) OnvaKV \<Rightarrow> ForwardIter outcome" where
  "okv_Iterator I start end' okv = ix_Iterator I start end' (idxTree okv)"

definition okv_ReverseIterator :: "('i, 'e) IndexTreeI \<Rightarrow> bytes \<Rightarrow> bytes \<Rightarrow> ('i, 'd, 'e) OnvaKV \<Rightarrow> BackwardIter outcome" where
  "okv_ReverseIterator I start end' okv = ix_ReverseIterator I start end' (idxTree okv)"

definition OnvaIterator_Value :: "'d DataTreeI \<Rightarrow> bool \<Rightarrow> nat \<Rightarrow> ('i, 'd, 'e) OnvaKV \<Rightarrow> bytes option outcome" where
  "OnvaIterator_Value D valid pos okv =
     (if \<not> valid then Inr None else bindE (okv_ReadEntry D pos okv) (\<lambda>e. Inr (Value e)))"

section \<open>Opening and closing\<close>

definition BufferSize :: nat where
  "BufferSize = 16 * 1024 * 1024"

definition defaultFileSize :: nat where
  "defaultFileSize = 1024 * 1024 * 1024"

definition emptyOnvaKV :: "MetaDBWithTMDB \<Rightarrow> 'i \<Rightarrow> 'd \<Rightarrow> 'e RocksDB \<Rightarrow> ('i, 'd, 'e) OnvaKV" where
  "emptyOnvaKV m i d r = \<lparr>meta = m, idxTree = i, datTree = d, rocksdb = r, rootHash = [], k2heMap = NewBucketMap,
     k2nkMap = NewBucketMap, tempEntries64 = replicate 64 [], cachedEntries = [], startKey = [], endKey = []\<rparr>"

definition NewOnvaKV4Mock :: "('e, 'it) engine \<Rightarrow> 'd DataTreeI \<Rightarrow> 'd \<Rightarrow> 'e \<Rightarrow> bytes \<Rightarrow> bytes \<Rightarrow> (MockIndexTree, 'd, 'e) OnvaKV outcome" where
  "NewOnvaKV4Mock E D mockTree e start end' =
     InitGuards E MockIndexI D start end' (emptyOnvaKV NewMetaDB NewMockIndexTree mockTree (OpenNewBatch (NewRocksDB e)))"

text \<open>One of the 2048 dummy entries that fill the first twig of a new store.\<close>

definition fillDummy :: "'d DataTreeI \<Rightarrow> ('i, 'd, 'e) OnvaKV \<Rightarrow> ('i, 'd, 'e) OnvaKV outcome" where
  "fillDummy D okv =
     (let sn = GetMaxSerialNum (meta okv)
      in bindE (okv_IncrMaxSerialNum okv) (\<lambda>okv.
         bindE (okv_AppendEntry D (DummyEntry sn) okv) (\<lambda>(_, okv).
         bindE (dt_DeactiviateEntry D sn (datTree okv)) (\<lambda>(_, d). Inr (okv\<lparr>datTree := d\<rparr>)))))"

text \<open>A new store in an empty directory: the two files and the RocksDB are new.\<close>

definition createOnvaKV :: "('e, 'it) engine \<Rightarrow> (bytes \<Rightarrow> bytes) \<Rightarrow> (bytes \<Rightarrow> bytes) \<Rightarrow> EntryFile \<Rightarrow> TwigMtFile \<Rightarrow> 'e \<Rightarrow> bool \<Rightarrow>
    bytes \<Rightarrow> bytes \<Rightarrow> (NVTreeMem, Tree, 'e) OnvaKV outcome" where
  "createOnvaKV E sha meow ef tf e canQueryHistory start end' =
     bindE (MetaDB_Init E (NewMetaDB, OpenNewBatch (NewRocksDB e))) (\<lambda>(m, r).
     let okv = emptyOnvaKV m (NewNVTreeMem canQueryHistory) (NewEmptyTree sha ef tf) r; D = TreeI sha meow
     in bindE (foldE (\<lambda>_. fillDummy D) [0 ..< 2048] okv) (\<lambda>okv.
        bindE (InitGuards E NVTreeI D start end' okv) (\<lambda>okv.
          Inr (okv\<lparr>rocksdb := SetIsRunning E True (CloseOldBatch E (rocksdb okv))\<rparr>))))"

text \<open>
  An existing directory: the data tree is loaded, or recovered when the running mark is set, and the
  index is read from the RocksDB with a nil \<open>repFn\<close>, or from the keys in the entry file.
\<close>

definition openDataTree :: "('e, 'it) engine \<Rightarrow> (bytes \<Rightarrow> bytes) \<Rightarrow> (bytes \<Rightarrow> bytes) \<Rightarrow> tree_dir \<Rightarrow> MetaDBWithTMDB \<Rightarrow> 'e RocksDB \<Rightarrow> Tree outcome" where
  "openDataTree E sha meow dir m r =
     (if GetIsRunning E r then
        bindE (BytesToEdgeNodes (case GetEdgeNodes E r of None \<Rightarrow> [] | Some bz \<Rightarrow> bz)) (\<lambda>edgeNodes.
        bindE (nonneg (GetOldestActiveTwigID m)) (\<lambda>oldest.
        bindE (nonneg (GetMaxSerialNum m div 2048)) (\<lambda>youngest.
          RecoverTree sha meow BufferSize defaultFileSize dir edgeNodes (GetLastPrunedTwig m) oldest youngest)))
      else LoadTree meow BufferSize defaultFileSize dir)"

definition openIndex :: "('e, 'it) engine \<Rightarrow> (bytes \<Rightarrow> bytes) \<Rightarrow> bool \<Rightarrow> MetaDBWithTMDB \<Rightarrow> 'e RocksDB \<Rightarrow> Tree \<Rightarrow> NVTreeMem outcome option" where
  "openIndex E meow canQueryHistory m r t =
     (if canQueryHistory then NVTreeMem_Init E False r (NewNVTreeMem True)
      else Some
        (bindE (NVTreeMem_BeginWrite 0 (NewNVTreeMem False)) (\<lambda>i.
         bindE (nonneg (GetOldestActiveTwigID m)) (\<lambda>oldest.
         bindE (ScanEntriesLite meow t oldest) (\<lambda>xs.
         bindE (foldE (\<lambda>(k, pos). NVTreeMem_Set k pos) xs (i, r)) (\<lambda>(i, r). NVTreeMem_EndWrite i))))))"

definition reopenOnvaKV :: "('e, 'it) engine \<Rightarrow> (bytes \<Rightarrow> bytes) \<Rightarrow> (bytes \<Rightarrow> bytes) \<Rightarrow> tree_dir \<Rightarrow> 'e \<Rightarrow> bool \<Rightarrow>
    (NVTreeMem, Tree, 'e) OnvaKV outcome option" where
  "reopenOnvaKV E sha meow dir e canQueryHistory =
     (let r = NewRocksDB e
      in case bindE (ReloadFromKVDB E r NewMetaDB) (\<lambda>m. bindE (openDataTree E sha meow dir m r) (\<lambda>t. Inr (m, t))) of
           Inl err \<Rightarrow> Some (Inl err)
         | Inr (m, t) \<Rightarrow> map_option (map_sum id (\<lambda>i. emptyOnvaKV m i t (SetIsRunning E True r)))
             (openIndex E meow canQueryHistory m r t))"

definition okv_Close :: "('e, 'it) engine \<Rightarrow> (bytes \<Rightarrow> bytes) \<Rightarrow> nat list \<Rightarrow> ('i, Tree, 'e) OnvaKV \<Rightarrow> (tree_dir \<times> 'e) outcome" where
  "okv_Close E meow order okv =
     bindE (Flush meow order (datTree okv)) (\<lambda>(_, dir). Inr (dir, db (SetIsRunning E False (rocksdb okv))))"

end
