(* ===== verification/MockDataTree.thy ===== *)
theory MockDataTree
  imports OnvaKV
begin

text \<open>
  The data tree without files of datatree/mock_datatree.go: the twigs are arrays of entries in memory and
  the position of an entry is 1024 times its serial number. A missing twig is a nil pointer.
\<close>

record MockTwig =
  mk_activeBits :: "bool list"
  mk_entries :: "Entry list"

type_synonym MockDataTree = "int \<rightharpoonup> MockTwig"

definition newMockTwig :: MockTwig where
  "newMockTwig = \<lparr>mk_activeBits = replicate 2048 False,
     mk_entries = replicate 2048 \<lparr>Key = [], Value = None, NextKey = [], Height = 0, LastHeight = 0, SerialNum = 0\<rparr>\<rparr>"

definition NewMockDataTree :: MockDataTree where
  "NewMockDataTree = [0 \<mapsto> newMockTwig]"

text \<open>The twig and the index of a serial number.\<close>

definition mockTwig :: "int \<Rightarrow> MockDataTree \<Rightarrow> MockTwig outcome" where
  "mockTwig twigID dt = (case dt twigID of None \<Rightarrow> Inl NilDeref | Some tw \<Rightarrow> Inr tw)"

definition snIndex :: "int \<Rightarrow> nat" where
  "snIndex sn = nat (sn mod 2048)"

definition MockDataTree_DeactiviateEntry :: "int \<Rightarrow> MockDataTree \<Rightarrow> (nat \<times> MockDataTree) outcome" where
  "MockDataTree_DeactiviateEntry sn dt =
     bindE (mockTwig (sn div 2048) dt) (\<lambda>tw.
       Inr (0, dt(sn div 2048 \<mapsto> tw\<lparr>mk_activeBits := (mk_activeBits tw)[snIndex sn := False]\<rparr>)))"

definition MockDataTree_AppendEntry :: "Entry \<Rightarrow> MockDataTree \<Rightarrow> (nat \<times> MockDataTree) outcome" where
  "MockDataTree_AppendEntry entry dt =
     (let sn = SerialNum entry; twigID = sn div 2048
      in bindE (mockTwig twigID dt) (\<lambda>tw.
         let tw = tw\<lparr>mk_entries := (mk_entries tw)[snIndex sn := entry], mk_activeBits := (mk_activeBits tw)[snIndex sn := True]\<rparr>;
             dt = dt(twigID \<mapsto> tw);
             dt = (if snIndex sn = TwigMask then dt(twigID + 1 \<mapsto> newMockTwig) else dt)
         in Inr (nat (sn * 1024), dt)))"

definition MockDataTree_AppendEntryRawBytes :: "bytes \<Rightarrow> int \<Rightarrow> MockDataTree \<Rightarrow> (nat \<times> MockDataTree) outcome" where
  "MockDataTree_AppendEntryRawBytes entryBz sn dt =
     bindE (EntryFromRawBytes entryBz) (\<lambda>e. MockDataTree_AppendEntry e dt)"

definition MockDataTree_GetActiveBit :: "int \<Rightarrow> MockDataTree \<Rightarrow> bool outcome" where
  "MockDataTree_GetActiveBit sn dt =
     bindE (mockTwig (sn div 2048) dt) (\<lambda>tw. Inr (mk_activeBits tw ! snIndex sn))"

definition MockDataTree_ReadEntry :: "nat \<Rightarrow> MockDataTree \<Rightarrow> Entry option outcome" where
  "MockDataTree_ReadEntry pos dt =
     (let sn = int (pos div 1024)
      in bindE (mockTwig (sn div 2048) dt) (\<lambda>tw.
         if \<not> mk_activeBits tw ! snIndex sn then Inr None else Inr (Some (mk_entries tw ! snIndex sn))))"

definition MockDataTree_EvictTwig :: "int \<Rightarrow> MockDataTree \<Rightarrow> MockDataTree" where
  "MockDataTree_EvictTwig twigID dt = dt(twigID := None)"

text \<open>The goroutine sends the active entries and never closes the channel, so that a range over it never ends.\<close>

definition MockDataTree_GetActiveEntriesInTwig :: "int \<Rightarrow> MockDataTree \<Rightarrow> bytes list outcome" where
  "MockDataTree_GetActiveEntriesInTwig twigID dt = bindE (mockTwig twigID dt) (\<lambda>_. Inl Stuck)"

definition MockDataTree_TwigCanBePruned :: "int \<Rightarrow> MockDataTree \<Rightarrow> bool" where
  "MockDataTree_TwigCanBePruned twigID dt \<longleftrightarrow> dt twigID = None"

definition MockDataTree_PruneTwigs :: "int \<Rightarrow> int \<Rightarrow> MockDataTree \<Rightarrow> (bytes \<times> MockDataTree) outcome" where
  "MockDataTree_PruneTwigs startID endID dt = Inr ([], dt)"

definition MockDataTree_GetFileSizes :: "MockDataTree \<Rightarrow> nat \<times> nat" where
  "MockDataTree_GetFileSizes dt = (0, 0)"

definition MockDataTree_EndBlock :: "MockDataTree \<Rightarrow> (bytes \<times> MockDataTree) outcome" where
  "MockDataTree_EndBlock dt = Inr ([], dt)"

definition MockTreeI :: "MockDataTree DataTreeI" where
  "MockTreeI = \<lparr>dt_DeactiviateEntry = MockDataTree_DeactiviateEntry, dt_AppendEntry = MockDataTree_AppendEntry,
     dt_AppendEntryRawBytes = MockDataTree_AppendEntryRawBytes, dt_ReadEntry = MockDataTree_ReadEntry,
     dt_GetActiveBit = MockDataTree_GetActiveBit,
     dt_EvictTwig = (\<lambda>T dt. Inr (MockDataTree_EvictTwig T dt)),
     dt_GetActiveEntriesInTwig = MockDataTree_GetActiveEntriesInTwig, dt_TwigCanBePruned = MockDataTree_TwigCanBePruned,
     dt_PruneTwigs = MockDataTree_PruneTwigs, dt_GetFileSizes = MockDataTree_GetFileSizes,
     dt_EndBlock = MockDataTree_EndBlock\<rparr>"

end
