(* ===== verification/KeyOrder.thy ===== *)
theory KeyOrder
  imports Prelude
begin

text \<open>
  The order of keys around insertions and deletions, for the links of onvakv.go: when the cached keys
  cover the neighbours of every inserted and deleted key, the next key of a surviving key can be found
  among them.
\<close>

section \<open>The keys around an event\<close>

text \<open>The key behind \<open>k\<close>: the guard at the end is linked to itself.\<close>

definition next_key :: "'a::linorder set \<Rightarrow> 'a \<Rightarrow> 'a" where
  "next_key K k = (if \<exists>z \<in> K. k < z then Min {z \<in> K. k < z} else k)"

lemma next_key_eqI:
  assumes "finite K" and "s \<in> K" and "k < s" and "\<And>z. z \<in> K \<Longrightarrow> k < z \<Longrightarrow> s \<le> z"
  shows "next_key K k = s"
proof -
  have "Min {z \<in> K. k < z} = s" using assms by (intro Min_eqI) auto
  with assms show ?thesis by (auto simp: next_key_def)
qed

lemma next_key_last: "(\<And>z. z \<in> K \<Longrightarrow> z \<le> k) \<Longrightarrow> next_key K k = k"
  by (force simp: next_key_def)

lemma next_keyD:
  assumes "finite K" and "z \<in> K" and "k < z"
  shows "next_key K k \<in> K" and "k < next_key K k" and "next_key K k \<le> z"
proof -
  let ?S = "{z \<in> K. k < z}"
  have S: "finite ?S" "z \<in> ?S" using assms by simp_all
  then have "?S \<noteq> {}" by blast
  with Min_in [OF S(1) this] Min_le [OF S] assms show "next_key K k \<in> K" "k < next_key K k" "next_key K k \<le> z"
    by (auto simp: next_key_def)
qed

text \<open>
  The keys \<open>K\<close> before a block, the inserted keys \<open>I\<close> and the deleted ones \<open>Dl\<close>: the hot keys \<open>H\<close> hold
  the neighbour in front of every inserted or deleted key, and the cached keys \<open>C\<close> the one behind it.
\<close>

definition covers :: "'a::linorder set \<Rightarrow> 'a set \<Rightarrow> 'a set \<Rightarrow> 'a set \<Rightarrow> 'a set \<Rightarrow> bool" where
  "covers K H C I Dl \<longleftrightarrow> finite K \<and> finite C \<and> K \<inter> I = {} \<and> Dl \<subseteq> K \<and> I \<subseteq> H \<and> Dl \<subseteq> H \<and> H \<subseteq> C \<and>
     (\<forall>x \<in> I \<union> Dl. (\<exists>p \<in> K \<inter> H. p < x \<and> (\<forall>z \<in> K. z < x \<longrightarrow> z \<le> p)) \<and>
        (\<exists>s \<in> K \<inter> C. x < s \<and> (\<forall>z \<in> K. x < z \<longrightarrow> s \<le> z)))"

abbreviation new_keys :: "'a set \<Rightarrow> 'a set \<Rightarrow> 'a set \<Rightarrow> 'a set" where
  "new_keys K I Dl \<equiv> K - Dl \<union> I"

lemma coversD:
  assumes "covers K H C I Dl"
  shows "finite K" "K \<inter> I = {}" "Dl \<subseteq> K" "I \<subseteq> H" "Dl \<subseteq> H" "H \<subseteq> C"
    and "x \<in> I \<union> Dl \<Longrightarrow> \<exists>p. p \<in> K \<and> p \<in> H \<and> p < x \<and> (\<forall>z \<in> K. z < x \<longrightarrow> z \<le> p)"
    and "x \<in> I \<union> Dl \<Longrightarrow> \<exists>s. s \<in> K \<and> s \<in> C \<and> x < s \<and> (\<forall>z \<in> K. x < z \<longrightarrow> s \<le> z)" and "finite C"
  using assms unfolding covers_def by blast+

text \<open>A surviving key that is not hot is separated from any event behind it by a surviving hot key.\<close>

lemma hot_below:
  assumes cov: "covers K H C I Dl" and z: "z \<in> new_keys K I Dl" "z \<notin> H"
  shows "x \<in> I \<union> Dl \<Longrightarrow> z < x \<Longrightarrow> \<exists>c. c \<in> H \<and> c \<in> new_keys K I Dl \<and> z < c \<and> c < x"
proof (induction "card {y \<in> K. z < y \<and> y < x}" arbitrary: x rule: less_induct)
  case less
  note D = coversD [OF cov]
  obtain p where p: "p \<in> K" "p \<in> H" "p < x" "\<forall>z \<in> K. z < x \<longrightarrow> z \<le> p" using D(7) [OF less.prems(1)] by blast
  have zK: "z \<in> K" using z D(4) by blast
  then have zp: "z < p" using p z(2) less.prems(2) by (metis order.order_iff_strict)
  show ?case
  proof (cases "p \<in> Dl")
    case True
    have "{y \<in> K. z < y \<and> y < p} \<subset> {y \<in> K. z < y \<and> y < x}" using p(1,3) zp by auto
    then have "card {y \<in> K. z < y \<and> y < p} < card {y \<in> K. z < y \<and> y < x}" using D(1) by (intro psubset_card_mono) auto
    from less.hyps [OF this] True zp obtain c where "c \<in> H" "c \<in> new_keys K I Dl" "z < c" "c < p" by blast
    with p(3) show ?thesis by (meson less_trans)
  qed (use p zp in blast)
qed

lemma cached_above:
  assumes cov: "covers K H C I Dl" and z: "z \<in> new_keys K I Dl" "z \<notin> C"
  shows "x \<in> I \<union> Dl \<Longrightarrow> x < z \<Longrightarrow> \<exists>c. c \<in> C \<and> c \<in> new_keys K I Dl \<and> x < c \<and> c < z"
proof (induction "card {y \<in> K. x < y \<and> y < z}" arbitrary: x rule: less_induct)
  case less
  note D = coversD [OF cov]
  obtain s where s: "s \<in> K" "s \<in> C" "x < s" "\<forall>z \<in> K. x < z \<longrightarrow> s \<le> z" using D(8) [OF less.prems(1)] by blast
  have zK: "z \<in> K" using z D(4,6) by blast
  then have sz: "s < z" using s z(2) less.prems(2) by (metis order.order_iff_strict)
  show ?case
  proof (cases "s \<in> Dl")
    case True
    have "{y \<in> K. s < y \<and> y < z} \<subset> {y \<in> K. x < y \<and> y < z}" using s(1,3) sz by auto
    then have "card {y \<in> K. s < y \<and> y < z} < card {y \<in> K. x < y \<and> y < z}" using D(1) by (intro psubset_card_mono) auto
    from less.hyps [OF this] True sz obtain c where "c \<in> C" "c \<in> new_keys K I Dl" "s < c" "c < z" by blast
    with s(3) show ?thesis by (meson less_trans)
  qed (use s sz in blast)
qed

text \<open>There are surviving cached keys on both sides of an event.\<close>

lemma event_neighbours:
  assumes cov: "covers K H C I Dl" and x: "x \<in> I \<union> Dl"
  shows "\<exists>c. c \<in> C \<and> c \<in> new_keys K I Dl \<and> c < x" and "\<exists>c. c \<in> C \<and> c \<in> new_keys K I Dl \<and> x < c"
proof -
  note D = coversD [OF cov]
  obtain p where p: "p \<in> K" "p < x" using D(7) [OF x] by blast
  have Kne: "K \<noteq> {}" using p by blast
  let ?a = "Min K"
  have a: "?a \<in> K" "?a \<le> p" using Min_in [OF D(1) Kne] Min_le [OF D(1) p(1)] .
  have "?a \<notin> Dl"
  proof
    assume "?a \<in> Dl"
    then obtain q where "q \<in> K" "q < ?a" using D(7) [of ?a] by blast
    then show False using Min_le [OF D(1), of q] by (meson leD)
  qed
  then have a': "?a \<in> new_keys K I Dl" "?a < x" using a p(2) by auto
  show "\<exists>c. c \<in> C \<and> c \<in> new_keys K I Dl \<and> c < x"
  proof (cases "?a \<in> H")
    case False
    from hot_below [OF cov a'(1) False x a'(2)] D(6) show ?thesis by blast
  qed (use a' D(6) in blast)
  obtain s where s: "s \<in> K" "x < s" using D(8) [OF x] by blast
  let ?b = "Max K"
  have b: "?b \<in> K" "s \<le> ?b" using Max_in [OF D(1) Kne] Max_ge [OF D(1) s(1)] .
  have "?b \<notin> Dl"
  proof
    assume "?b \<in> Dl"
    then obtain q where "q \<in> K" "?b < q" using D(8) [of ?b] by blast
    then show False using Max_ge [OF D(1), of q] by (meson leD)
  qed
  then have b': "?b \<in> new_keys K I Dl" "x < ?b" using b s(2) by auto
  show "\<exists>c. c \<in> C \<and> c \<in> new_keys K I Dl \<and> x < c"
  proof (cases "?b \<in> C")
    case False
    from cached_above [OF cov b'(1) False x b'(2)] show ?thesis by blast
  qed (use b' in blast)
qed

text \<open>
  The next key changes only in front of an event: when no event's nearest surviving cached key below is
  \<open>k\<close>, then \<open>k\<close> keeps its next key.
\<close>

lemma next_key_kept:
  assumes cov: "covers K H C I Dl" and k: "k \<in> K"
    and no: "\<And>x. x \<in> I \<union> Dl \<Longrightarrow> k < x \<Longrightarrow> \<exists>c. c \<in> new_keys K I Dl \<and> k < c \<and> c < x"
  shows "next_key (new_keys K I Dl) k = next_key K k"
proof (cases "\<exists>z \<in> K. k < z")
  case False
  note D = coversD [OF cov]
  have "z \<le> k" if z: "z \<in> new_keys K I Dl" for z
  proof (cases "z \<in> K")
    case zI: False
    then obtain s where s: "s \<in> K" "z < s" using z D(8) [of z] by blast
    then have "s \<le> k" using False not_le by blast
    with s(2) show ?thesis by (meson less_imp_le less_le_trans)
  qed (use False not_le in blast)
  then show ?thesis using False next_key_last [of "new_keys K I Dl" k] by (auto simp: next_key_def)
next
  case True
  note D = coversD [OF cov]
  let ?s = "next_key K k" and ?X = "{x \<in> I \<union> Dl. k < x \<and> x \<le> next_key K k}"
  have s: "?s \<in> K" "k < ?s" "\<And>z. z \<in> K \<Longrightarrow> k < z \<Longrightarrow> ?s \<le> z" using True next_keyD [OF D(1)] by blast+
  have finI: "finite I" "finite Dl" using D(3-6,9) D(1) by (meson finite_subset)+
  have X: "?X = {}"
  proof (rule ccontr)
    assume ne: "?X \<noteq> {}"
    have fin: "finite ?X" using finI by simp
    from Min_in [OF fin ne] obtain c where c: "c \<in> new_keys K I Dl" "k < c" "c < Min ?X" "Min ?X \<le> ?s"
      using no [of "Min ?X"] by blast
    then have "c \<notin> K" using s(3) [of c] by (meson le_less_trans leD)
    with c have "c \<in> ?X" by auto
    from Min_le [OF fin this] c(3) show False by (meson leD)
  qed
  then have sK': "?s \<in> new_keys K I Dl" using s(1,2) by blast
  have "?s \<le> z" if "z \<in> new_keys K I Dl" "k < z" for z
  proof (rule ccontr)
    assume "\<not> ?s \<le> z"
    with that s(3) [of z] X show False by (auto simp: not_le)
  qed
  with next_key_eqI [OF _ sK' s(2)] D(1) finI show ?thesis by simp
qed

text \<open>Behind a hot key or an inserted key, up to the next surviving cached key, there is nothing when an event lies there.\<close>

lemma next_key_event:
  assumes cov: "covers K H C I Dl" and k: "k \<in> C" "k \<in> new_keys K I Dl" and m: "m \<in> C" "m \<in> new_keys K I Dl" "k < m"
    and gap: "\<And>c. c \<in> C \<Longrightarrow> c \<in> new_keys K I Dl \<Longrightarrow> k < c \<Longrightarrow> m \<le> c"
    and x: "x \<in> I \<union> Dl" "k \<le> x" "x \<le> m"
  shows "next_key (new_keys K I Dl) k = m"
proof -
  note D = coversD [OF cov]
  have "m \<le> z" if z: "z \<in> new_keys K I Dl" "k < z" for z
  proof (rule ccontr)
    assume "\<not> m \<le> z"
    then have zm: "z < m" by simp
    then have zC: "z \<notin> C" using gap [of z] z by (meson leD)
    have "x \<in> C" using x(1) D(4-6) by blast
    then consider "z < x" | "x < z" using zC by (metis linorder_cases)
    then show False
    proof cases
      case 1
      from hot_below [OF cov z(1) _ x(1) 1] zC D(6) obtain c where "c \<in> H" "c \<in> new_keys K I Dl" "z < c" "c < x" by blast
      with gap [of c] D(6) z(2) x(3) show False by (meson leD less_le_trans less_trans subsetD)
    next
      case 2
      from cached_above [OF cov z(1) zC x(1) 2] obtain c where "c \<in> C" "c \<in> new_keys K I Dl" "x < c" "c < z" by blast
      with gap [of c] zm x(2) show False by (meson leD le_less_trans less_trans)
    qed
  qed
  moreover have "finite (new_keys K I Dl)" using D(1,4,6,9) by (meson finite_Diff finite_UnI finite_subset)
  ultimately show ?thesis by (intro next_key_eqI [OF _ m(2,3)])
qed

end
