(* ===== verification/OnvaLinks.thy ===== *)
theory OnvaLinks
  imports OnvaKV KeyOrder
begin

text \<open>
  The loop of \<open>update\<close> that repairs \<open>NextKey\<close> (onvakv.go): what it computes for every hot entry, and that
  the links of the new key set are right when the cache covers the neighbours of every insertion and
  deletion.
\<close>

section \<open>What the loop computes\<close>

definition is_event :: "HotEntry \<Rightarrow> bool" where
  "is_event h \<longleftrightarrow> \<not> isFakeInserted h \<and> (Operation h = OpDelete \<or> isInserted h)"

definition next_live :: "HotEntry list \<Rightarrow> nat \<Rightarrow> nat option" where
  "next_live ces i = find (\<lambda>j. is_live (ces ! j)) [i + 1 ..< length ces]"

definition prev_live :: "HotEntry list \<Rightarrow> nat \<Rightarrow> nat option" where
  "prev_live ces i = find (\<lambda>j. is_live (ces ! j)) (rev [0 ..< i])"

lemma next_live_iff:
  "next_live ces j = Some m \<longleftrightarrow> j < m \<and> m < length ces \<and> is_live (ces ! m) \<and> (\<forall>k. j < k \<and> k < m \<longrightarrow> \<not> is_live (ces ! k))"
proof
  assume "next_live ces j = Some m"
  then obtain i where i: "i < length ces - (j + 1)" "is_live (ces ! (j + 1 + i))" "m = j + 1 + i"
    "\<forall>i' < i. \<not> is_live (ces ! (j + 1 + i'))"
    unfolding next_live_def find_Some_iff by auto
  have "\<not> is_live (ces ! k)" if "j < k \<and> k < m" for k
  proof -
    have "k - (j + 1) < i" "j + 1 + (k - (j + 1)) = k" using that i(3) by auto
    with i(4) show ?thesis by metis
  qed
  with i show "j < m \<and> m < length ces \<and> is_live (ces ! m) \<and> (\<forall>k. j < k \<and> k < m \<longrightarrow> \<not> is_live (ces ! k))" by auto
next
  assume "j < m \<and> m < length ces \<and> is_live (ces ! m) \<and> (\<forall>k. j < k \<and> k < m \<longrightarrow> \<not> is_live (ces ! k))"
  then show "next_live ces j = Some m"
    unfolding next_live_def find_Some_iff by (intro exI [of _ "m - (j + 1)"]) auto
qed

lemma prev_live_iff:
  "prev_live ces j = Some p \<longleftrightarrow> p < j \<and> is_live (ces ! p) \<and> (\<forall>k. p < k \<and> k < j \<longrightarrow> \<not> is_live (ces ! k))"
proof
  assume "prev_live ces j = Some p"
  then obtain i where i: "i < j" "is_live (ces ! (j - Suc i))" "p = j - Suc i" "\<forall>i' < i. \<not> is_live (ces ! (j - Suc i'))"
    unfolding prev_live_def find_Some_iff by (auto simp: rev_nth)
  have "\<not> is_live (ces ! k)" if "p < k \<and> k < j" for k
  proof -
    have "j - Suc k < i" "j - Suc (j - Suc k) = k" using that i(1,3) by auto
    with i(4) show ?thesis by metis
  qed
  with i show "p < j \<and> is_live (ces ! p) \<and> (\<forall>k. p < k \<and> k < j \<longrightarrow> \<not> is_live (ces ! k))" by auto
next
  assume p: "p < j \<and> is_live (ces ! p) \<and> (\<forall>k. p < k \<and> k < j \<longrightarrow> \<not> is_live (ces ! k))"
  show "prev_live ces j = Some p"
    unfolding prev_live_def find_Some_iff by (rule exI [of _ "j - Suc p"]) (use p in \<open>auto simp: rev_nth\<close>)
qed

lemma get_live: "getPrev ces i = (case prev_live ces i of None \<Rightarrow> Inl (Panic ''Can not find previous entry'') | Some j \<Rightarrow> Inr j)"
  "getNext ces i = (case next_live ces i of None \<Rightarrow> Inl (Panic ''Can not find next entry'') | Some j \<Rightarrow> Inr j)"
  by (simp_all add: getPrev_def getNext_def prev_live_def next_live_def)

lemma live_cong:
  assumes "length cs = length ces" and "\<And>j. j < length ces \<Longrightarrow> is_live (cs ! j) = is_live (ces ! j)"
  shows "next_live cs i = next_live ces i" and "i \<le> length ces \<Longrightarrow> prev_live cs i = prev_live ces i"
  using assms unfolding next_live_def prev_live_def by (auto intro!: find_cong)

text \<open>The hot entry \<open>j\<close> after the first \<open>n\<close> rounds, in terms of the entries at the start.\<close>

definition touched_by :: "nat \<Rightarrow> HotEntry list \<Rightarrow> nat \<Rightarrow> bool" where
  "touched_by n ces j \<longleftrightarrow> (\<exists>i < n. is_event (ces ! i) \<and> prev_live ces i = Some j)"

definition relinked :: "nat \<Rightarrow> HotEntry list \<Rightarrow> nat \<Rightarrow> bool" where
  "relinked n ces j \<longleftrightarrow> touched_by n ces j \<or> j < n \<and> is_event (ces ! j) \<and> is_live (ces ! j)"

definition link_at :: "nat \<Rightarrow> HotEntry list \<Rightarrow> nat \<Rightarrow> HotEntry" where
  "link_at n ces j =
     (let h = ces ! j; nk = (case next_live ces j of Some m \<Rightarrow> hkey_of (ces ! m) | None \<Rightarrow> NextKey (EntryPtr h))
      in h\<lparr>EntryPtr := (EntryPtr h)\<lparr>NextKey := (if relinked n ces j then nk else NextKey (EntryPtr h))\<rparr>,
           IsModified := IsModified h \<or> j < n \<and> \<not> isFakeInserted h \<and> Operation h \<noteq> OpNone,
           IsTouchedByNext := IsTouchedByNext h \<or> touched_by n ces j\<rparr>)"

lemma link_at_fields [simp]:
  "Operation (link_at n ces j) = Operation (ces ! j)" "hkey_of (link_at n ces j) = hkey_of (ces ! j)"
  "Value (EntryPtr (link_at n ces j)) = Value (EntryPtr (ces ! j))"
  "Height (EntryPtr (link_at n ces j)) = Height (EntryPtr (ces ! j))"
  "SerialNum (EntryPtr (link_at n ces j)) = SerialNum (EntryPtr (ces ! j))"
  "isFakeInserted (link_at n ces j) = isFakeInserted (ces ! j)" "isInserted (link_at n ces j) = isInserted (ces ! j)"
  "isModified (link_at n ces j) = isModified (ces ! j)" "isHintHotEntry (link_at n ces j) = isHintHotEntry (ces ! j)"
  "is_live (link_at n ces j) = is_live (ces ! j)"
  by (simp_all add: link_at_def Let_def isFakeInserted_def isInserted_def isModified_def isHintHotEntry_def is_live_def)

lemma link_at_0: "link_at 0 ces j = ces ! j"
  by (simp add: link_at_def touched_by_def relinked_def)

abbreviation links :: "nat \<Rightarrow> HotEntry list \<Rightarrow> HotEntry list" where
  "links n ces \<equiv> map (link_at n ces) [0 ..< length ces]"

lemma live_links: "next_live (links n ces) i = next_live ces i" "i \<le> length ces \<Longrightarrow> prev_live (links n ces) i = prev_live ces i"
  using live_cong [of "links n ces" ces] by simp_all

definition linkable :: "HotEntry list \<Rightarrow> bool" where
  "linkable ces \<longleftrightarrow> (\<forall>i < length ces. (Operation (ces ! i) \<noteq> OpNone \<longrightarrow> -1 \<le> SerialNum (EntryPtr (ces ! i))) \<and>
     (is_event (ces ! i) \<longrightarrow> prev_live ces i \<noteq> None \<and> next_live ces i \<noteq> None))"

lemma touched_by_Suc: "touched_by (Suc n) ces j \<longleftrightarrow> touched_by n ces j \<or> is_event (ces ! n) \<and> prev_live ces n = Some j"
  unfolding touched_by_def by (auto simp: less_Suc_eq)

lemma link_at_Suc_same:
  assumes "\<not> (is_event (ces ! n) \<and> prev_live ces n = Some j)" and "j \<noteq> n"
  shows "link_at (Suc n) ces j = link_at n ces j"
  using assms by (simp add: link_at_def relinked_def touched_by_Suc less_Suc_eq cong: conj_cong)

text \<open>An event: the marks and links of the entry itself and of the live entry in front of it.\<close>

lemma link_event:
  assumes ev: "is_event (ces ! n)" and p: "prev_live ces n = Some p" and m: "next_live ces n = Some m" and n: "n < length ces"
  shows "links (Suc n) ces = touch p (if is_live (ces ! n) then hkey_of (ces ! n) else hkey_of (ces ! m))
    ((links n ces)[n := (link_at n ces n)\<lparr>IsModified := True,
       EntryPtr := (EntryPtr (link_at n ces n))\<lparr>NextKey :=
         (if is_live (ces ! n) then hkey_of (ces ! m) else NextKey (EntryPtr (link_at n ces n)))\<rparr>\<rparr>])"
    (is "_ = touch p ?k ?cs")
proof (rule nth_equalityI)
  have pn: "p < n" using p by (simp add: prev_live_iff)
  have np: "next_live ces p = Some (if is_live (ces ! n) then n else m)"
  proof (cases "is_live (ces ! n)")
    case False
    have "\<not> is_live (ces ! k)" if "p < k \<and> k < m" for k
      using p m False that unfolding prev_live_iff next_live_iff by (cases k n rule: linorder_cases) blast+
    with p m False show ?thesis unfolding prev_live_iff next_live_iff by auto
  qed (use p n in \<open>simp add: prev_live_iff next_live_iff\<close>)
  show "length (links (Suc n) ces) = length (touch p ?k ?cs)" by (simp add: touch_def)
  fix j assume "j < length (links (Suc n) ces)"
  then have j: "j < length ces" by simp
  consider "j = n" | "j = p" | "j \<noteq> n" "j \<noteq> p" by blast
  then show "links (Suc n) ces ! j = touch p ?k ?cs ! j"
  proof cases
    case 1
    have "link_at (Suc n) ces n = ?cs ! n"
      using ev pn n p m by (auto simp: link_at_def relinked_def touched_by_Suc Let_def is_event_def isInserted_def is_live_def)
    then show ?thesis using 1 pn j n by (simp add: touch_def)
  next
    case 2
    have "link_at (Suc n) ces p = (link_at n ces p)\<lparr>EntryPtr := (EntryPtr (link_at n ces p))\<lparr>NextKey := ?k\<rparr>, IsTouchedByNext := True\<rparr>"
      using ev pn p np by (auto simp: link_at_def relinked_def touched_by_Suc Let_def)
    then show ?thesis using 2 pn j n by (simp add: touch_def)
  next
    case 3
    then have "link_at (Suc n) ces j = link_at n ces j" using p by (intro link_at_Suc_same) auto
    then show ?thesis using 3 j n pn by (simp add: touch_def)
  qed
qed

lemma linkEntry_step:
  assumes ok: "linkable ces" and n: "n < length ces"
  shows "linkEntry n (links n ces) = Inr (links (Suc n) ces)"
proof -
  let ?h = "link_at n ces n" and ?cs = "links n ces"
  have h: "?cs ! n = ?h" "\<not> (Operation (ces ! n) \<noteq> OpNone \<and> isHintHotEntry (ces ! n))" "-1 \<le> SerialNum (EntryPtr (ces ! n)) \<or> Operation (ces ! n) = OpNone"
    using ok n by (auto simp: linkable_def isHintHotEntry_def)
  have upd: "links (Suc n) ces = ?cs[n := link_at (Suc n) ces n]" if "\<not> is_event (ces ! n)"
  proof (rule nth_equalityI)
    fix j assume "j < length (links (Suc n) ces)"
    then show "links (Suc n) ces ! j = ?cs[n := link_at (Suc n) ces n] ! j"
      using n link_at_Suc_same [of ces n j] that by (cases "j = n") simp_all
  qed simp
  have upd': "links (Suc n) ces = ?cs" if "\<not> is_event (ces ! n)" "isFakeInserted (ces ! n) \<or> Operation (ces ! n) = OpNone"
  proof -
    have "link_at (Suc n) ces n = ?h" using that by (auto simp: link_at_def relinked_def touched_by_Suc Let_def)
    with upd [OF that(1)] h(1) show ?thesis by (metis list_update_id)
  qed
  consider (fake) "isFakeInserted (ces ! n)" | (event) "is_event (ces ! n)"
    | (change) "\<not> isFakeInserted (ces ! n)" "\<not> is_event (ces ! n)" "Operation (ces ! n) = OpInsertOrChange"
    | (none) "\<not> isFakeInserted (ces ! n)" "\<not> is_event (ces ! n)" "Operation (ces ! n) = OpNone"
    using OperationOnEntry.exhaust [of "Operation (ces ! n)"] by (auto simp: is_event_def)
  then show ?thesis
  proof cases
    case fake
    then have "\<not> is_event (ces ! n)" by (simp add: is_event_def)
    from upd' [OF this] fake h show ?thesis by (simp add: linkEntry_def Let_def)
  next
    case event
    with ok n have "prev_live ces n \<noteq> None" "next_live ces n \<noteq> None" by (simp_all add: linkable_def)
    then obtain p m where pm: "prev_live ces n = Some p" "next_live ces n = Some m" by blast
    have pn: "p < n" "n < m" "m < length ces" using pm by (simp_all add: prev_live_iff next_live_iff)
    let ?c1 = "?cs[n := ?h\<lparr>IsModified := True\<rparr>]"
    have "is_live (?c1 ! j) = is_live (ces ! j)" if "j < length ces" for j
      using that n link_at_fields(10) [of n ces n] by (cases "j = n") (auto simp: is_live_def isFakeInserted_def)
    then have lv: "next_live ?c1 n = Some m" "prev_live ?c1 n = Some p" using live_cong [of ?c1 ces] pm n by simp_all
    have live: "is_live (ces ! n) \<longleftrightarrow> Operation (ces ! n) \<noteq> OpDelete" using event by (simp add: is_event_def is_live_def)
    show ?thesis
    proof (cases "Operation (ces ! n) = OpDelete")
      case True
      with event h lv n pn pm live link_event [OF event pm n] show ?thesis
        by (simp add: linkEntry_def Let_def get_live is_event_def)
    next
      case False
      let ?c2 = "?c1[n := ?h\<lparr>IsModified := True, EntryPtr := (EntryPtr ?h)\<lparr>NextKey := hkey_of (ces ! m)\<rparr>\<rparr>]"
      have "is_live (?c2 ! j) = is_live (ces ! j)" if "j < length ces" for j
        using that n link_at_fields(10) [of n ces n] by (cases "j = n") (auto simp: is_live_def isFakeInserted_def)
      then have "prev_live ?c2 n = Some p" using live_cong [of ?c2 ces] pm n by simp
      with False event h lv n pn pm live link_event [OF event pm n] show ?thesis
        by (simp add: linkEntry_def Let_def get_live is_event_def)
    qed
  next
    case change
    then have "isModified (ces ! n)" using h(3) by (auto simp: is_event_def isInserted_def isModified_def)
    moreover have "link_at (Suc n) ces n = ?h\<lparr>IsModified := True\<rparr>"
      using change by (auto simp: link_at_def relinked_def touched_by_Suc Let_def)
    ultimately show ?thesis using change h upd by (auto simp: linkEntry_def Let_def is_event_def)
  next
    case none
    with upd' h show ?thesis by (simp add: linkEntry_def Let_def is_event_def isInserted_def isModified_def)
  qed
qed

lemma linkEntries_eq:
  assumes "linkable ces"
  shows "linkEntries ces = Inr (links (length ces) ces)"
proof -
  have "foldE linkEntry [0 ..< n] ces = Inr (links n ces)" if "n \<le> length ces" for n
    using that
  proof (induction n)
    case 0
    have "links 0 ces = ces" by (rule nth_equalityI) (simp_all add: link_at_0)
    then show ?case by simp
  next
    case (Suc n)
    then have "foldE linkEntry [0 ..< n] ces = Inr (links n ces)" "n < length ces" by simp_all
    with linkEntry_step [OF assms this(2)] show ?case by (simp add: foldE_append)
  qed
  then show ?thesis by (simp add: linkEntries_def)
qed

end
