(* ===== verification/OnvaHot.thy ===== *)
theory OnvaHot
  imports OnvaLinks
begin

text \<open>
  The cache of hot entries as a map from keys (onvakv.go, BucketMap), and the list of all hot entries
  that \<open>update\<close> collects from the buckets, which is sorted by key.
\<close>

section \<open>Bucket maps as maps\<close>

definition bucket :: "bytes \<Rightarrow> nat" where
  "bucket k = unat (drop_bit 2 (hd k))"

definition bm_get :: "BucketMap \<Rightarrow> bytes \<rightharpoonup> HotEntry option" where
  "bm_get bm k = (if k = [] then None else map_of (bm ! bucket k) k)"

definition bm_ok :: "BucketMap \<Rightarrow> bool" where
  "bm_ok bm \<longleftrightarrow> length bm = 64 \<and>
     (\<forall>i < 64. distinct (map fst (bm ! i)) \<and> (\<forall>k \<in> fst ` set (bm ! i). k \<noteq> [] \<and> bucket k = i))"

lemma bucket_div: "bucket k = unat (hd k) div 4"
  unfolding bucket_def unat_drop_bit_eq by (simp add: drop_bit_eq_div)

lemma bucket_64: "bucket k < 64"
  using unat_byte_less [of "hd k"] unfolding bucket_div by linarith

lemma bucket_less: "k \<noteq> [] \<Longrightarrow> k' \<noteq> [] \<Longrightarrow> bucket k < bucket k' \<Longrightarrow> k < k'"
proof -
  assume ne: "k \<noteq> []" "k' \<noteq> []" and "bucket k < bucket k'"
  then have "hd k < hd k'" unfolding bucket_div word_less_nat_alt
    by (metis div_le_mono leD le_less_linear)
  with ne show "k < k'" by (cases k; cases k') auto
qed

lemma bucketIndex_eq: "k \<noteq> [] \<Longrightarrow> bucketIndex k = Inr (bucket k)"
  by (cases k) (simp_all add: bucketIndex_def bucket_def)

lemma bm_ok_New [simp]: "bm_ok NewBucketMap" "bm_get NewBucketMap = Map.empty"
  by (auto simp: bm_ok_def NewBucketMap_def bm_get_def bucket_64 fun_eq_iff)

lemma Load_eq: "k \<noteq> [] \<Longrightarrow> Load k bm = Inr (bm_get bm k)"
  by (simp add: Load_def bucketIndex_eq bm_get_def)

lemma Store_ok:
  assumes "bm_ok bm" and "k \<noteq> []"
  shows "\<exists>bm'. Store k v bm = Inr bm' \<and> bm_ok bm' \<and> bm_get bm' = (bm_get bm)(k \<mapsto> v)"
proof -
  let ?bm = "bm[bucket k := AList.update k v (bm ! bucket k)]"
  have len: "length bm = 64" using assms(1) by (simp add: bm_ok_def)
  have "bm_get ?bm x = ((bm_get bm)(k \<mapsto> v)) x" for x
    using len bucket_64 [of k] assms(2) by (cases "bucket x = bucket k") (auto simp: bm_get_def update_conv)
  moreover have "bm_ok ?bm"
  proof -
    have "distinct (map fst (?bm ! i)) \<and> (\<forall>x \<in> fst ` set (?bm ! i). x \<noteq> [] \<and> bucket x = i)" if i: "i < 64" for i
    proof (cases "i = bucket k")
      case True
      have b: "distinct (map fst (bm ! i))" "\<forall>x \<in> fst ` set (bm ! i). x \<noteq> [] \<and> bucket x = i"
        using assms(1) i by (simp_all add: bm_ok_def)
      have bm: "?bm ! i = AList.update k v (bm ! i)" using True len i by simp
      have "\<forall>x \<in> fst ` set (AList.update k v (bm ! i)). x \<noteq> [] \<and> bucket x = i"
        unfolding dom_update using b(2) assms(2) True by blast
      then show ?thesis unfolding bm using distinct_update [OF b(1)] by blast
    qed (use assms(1) i in \<open>simp add: bm_ok_def\<close>)
    then show ?thesis using len by (simp add: bm_ok_def)
  qed
  ultimately show ?thesis using assms(2) by (simp add: Store_def bucketIndex_eq fun_eq_iff)
qed

lemma bm_get_bucket:
  assumes "bm_ok bm" and "i < 64"
  shows "(k, v) \<in> set (bm ! i) \<longleftrightarrow> bm_get bm k = Some v \<and> bucket k = i"
proof -
  have "(k, v) \<in> set (bm ! i) \<Longrightarrow> k \<noteq> [] \<and> bucket k = i" using assms unfolding bm_ok_def by force
  then show ?thesis using assms by (auto simp: bm_get_def bm_ok_def split: if_splits dest: map_of_SomeD)
qed

lemma bm_get_Nil [simp]: "bm_get bm [] = None"
  by (simp add: bm_get_def)

section \<open>The sorted list of hot entries\<close>

lemma foldE_index:
  assumes "\<And>i. i < n \<Longrightarrow> f i (xs ! i) = Inr (g i)" and "n \<le> length xs"
  shows "foldE (\<lambda>i ys. bindE (f i (ys ! i)) (\<lambda>y. Inr (ys[i := y]))) [0 ..< n] xs = Inr (map g [0 ..< n] @ drop n xs)"
  using assms
proof (induction n)
  case (Suc n)
  have nth: "(map g [0 ..< n] @ drop n xs) ! n = xs ! n" using Suc.prems(2) by (simp add: nth_append)
  have upd: "(map g [0 ..< n] @ drop n xs)[n := g n] = map g [0 ..< Suc n] @ drop (Suc n) xs"
    using Suc.prems(2) by (simp add: list_update_append Cons_nth_drop_Suc [symmetric])
  from Suc nth upd show ?case by (simp add: foldE_append)
qed simp

definition hot_hint :: "BucketMap \<Rightarrow> BucketMap \<Rightarrow> HotEntry set" where
  "hot_hint he nk = {h. \<exists>k. bm_get he k = Some (Some h)} \<union> makeHintHotEntry ` {k. bm_get nk k \<noteq> None \<and> bm_get he k = None}"

lemma hkey_hint [simp]: "hkey_of (makeHintHotEntry k) = k"
  by (simp add: makeHintHotEntry_def newHotEntry_def)

text \<open>A hot entry that is there is stored under its own key.\<close>

definition keyed :: "BucketMap \<Rightarrow> bool" where
  "keyed he \<longleftrightarrow> (\<forall>k v. bm_get he k = Some v \<longrightarrow> (\<exists>h. v = Some h \<and> hkey_of h = k))"

lemma distinct_append_filter: "distinct xs \<Longrightarrow> distinct ys \<Longrightarrow> (\<And>x. x \<in> set xs \<Longrightarrow> \<not> P x) \<Longrightarrow> distinct (xs @ filter P ys)"
  by auto

lemma bucketEntries_ok:
  assumes he: "bm_ok he" "keyed he" and nk: "bm_ok nk" and i: "i < 64"
  shows "\<exists>es. bucketEntries he nk i [] = Inr es \<and> set es = {h \<in> hot_hint he nk. bucket (hkey_of h) = i} \<and>
    (\<forall>h \<in> set es. hkey_of h \<noteq> []) \<and> sorted_wrt (<) (map hkey_of es)"
proof -
  let ?es = "map (\<lambda>(_, e). the e) (he ! i) @ map makeHintHotEntry (filter (\<lambda>k. map_of (he ! i) k = None) (map fst (nk ! i)))"
  have some: "None \<notin> set (map snd (he ! i))"
  proof
    assume "None \<in> set (map snd (he ! i))"
    then obtain k where "(k, None) \<in> set (he ! i)" by auto
    then have "bm_get he k = Some None" using bm_get_bucket [OF he(1) i] by blast
    with he(2) show False by (auto simp: keyed_def)
  qed
  have key: "hkey_of (the e) = k \<and> e = Some (the e) \<and> k \<noteq> [] \<and> bucket k = i" if "(k, e) \<in> set (he ! i)" for k e
    using that bm_get_bucket [OF he(1) i] he(2) by (force simp: keyed_def)
  have mo: "map_of (he ! i) k = bm_get he k" if "k \<in> fst ` set (nk ! i)" for k
    using that nk i by (auto simp: bm_ok_def bm_get_def)
  have keys: "map hkey_of ?es = map fst (he ! i) @ filter (\<lambda>k. map_of (he ! i) k = None) (map fst (nk ! i))"
  proof -
    have "map hkey_of (map (\<lambda>(_, e). the e) (he ! i)) = map fst (he ! i)" using key by (auto simp: comp_def)
    moreover have "map hkey_of (map makeHintHotEntry ks) = ks" for ks by (simp add: comp_def)
    ultimately show ?thesis by (simp only: map_append)
  qed
  have "distinct (map hkey_of ?es)"
  proof -
    have "distinct (map fst (he ! i))" "distinct (map fst (nk ! i))" using he(1) nk i by (simp_all add: bm_ok_def)
    then show ?thesis unfolding keys by (rule distinct_append_filter) (simp add: map_of_eq_None_iff)
  qed
  then have dist: "distinct (map hkey_of (sort_key hkey_of ?es))" by (simp only: distinct_map distinct_sort set_sort)
  have set_es: "set ?es = {h \<in> hot_hint he nk. bucket (hkey_of h) = i}"
  proof (intro equalityI subsetI)
    fix h assume "h \<in> set ?es"
    then consider k e where "(k, e) \<in> set (he ! i)" "h = the e"
      | k where "k \<in> fst ` set (nk ! i)" "map_of (he ! i) k = None" "h = makeHintHotEntry k" by auto
    then show "h \<in> {h \<in> hot_hint he nk. bucket (hkey_of h) = i}"
    proof cases
      case 1
      with key [OF 1(1)] bm_get_bucket [OF he(1) i, of k e] show ?thesis by (auto simp: hot_hint_def)
    next
      case 2
      then obtain v where "(k, v) \<in> set (nk ! i)" by auto
      then have "bm_get nk k = Some v" "bucket k = i" using bm_get_bucket [OF nk i] by blast+
      with 2 mo [OF 2(1)] show ?thesis by (auto simp: hot_hint_def)
    qed
  next
    fix h assume h: "h \<in> {h \<in> hot_hint he nk. bucket (hkey_of h) = i}"
    then consider k where "bm_get he k = Some (Some h)" | k where "bm_get nk k \<noteq> None" "bm_get he k = None" "h = makeHintHotEntry k"
      by (auto simp: hot_hint_def)
    then show "h \<in> set ?es"
    proof cases
      case 1
      then have "bucket k = i" using h he(2) by (auto simp: keyed_def)
      with 1 have "(k, Some h) \<in> set (he ! i)" using bm_get_bucket [OF he(1) i] by blast
      then show ?thesis by force
    next
      case 2
      then obtain v where v: "bm_get nk k = Some v" by blast
      moreover have "bucket k = i" using h 2(3) by simp
      ultimately have "(k, v) \<in> set (nk ! i)" using bm_get_bucket [OF nk i] by blast
      then have "k \<in> fst ` set (nk ! i)" by force
      with 2 mo show ?thesis by auto
    qed
  qed
  have "sorted (map hkey_of (sort_key hkey_of ?es))" by simp
  with dist have "sorted_wrt (<) (map hkey_of (sort_key hkey_of ?es))" by (simp add: strict_sorted_iff)
  moreover have "hkey_of h \<noteq> []" if "h \<in> set ?es" for h
  proof -
    have "hkey_of h \<in> set (map hkey_of ?es)" unfolding set_map by (rule imageI [OF that])
    moreover have "[] \<notin> fst ` set (he ! i)" "[] \<notin> fst ` set (nk ! i)" using he(1) nk i unfolding bm_ok_def by blast+
    ultimately show ?thesis unfolding keys by (auto simp: image_iff)
  qed
  moreover have "bucketEntries he nk i [] = Inr (sort_key hkey_of ?es)" using some by (simp add: bucketEntries_def)
  ultimately show ?thesis using set_es by (intro exI [of _ "sort_key hkey_of ?es"] conjI) (auto simp only: set_sort)
qed

lemma sorted_concat:
  assumes "\<And>i. i < n \<Longrightarrow> sorted_wrt (<) (map f (g i))"
    and "\<And>i j x y. i < j \<Longrightarrow> j < n \<Longrightarrow> x \<in> set (g i) \<Longrightarrow> y \<in> set (g j) \<Longrightarrow> f x < f y"
  shows "sorted_wrt (<) (map f (concat (map g [0 ..< n])))"
  using assms
proof (induction n)
  case (Suc n)
  have "\<forall>x \<in> set (concat (map g [0 ..< n])). \<forall>y \<in> set (g n). f x < f y" using Suc.prems(2) by fastforce
  moreover have "sorted_wrt (<) (map f (concat (map g [0 ..< n])))" by (rule Suc.IH) (use Suc.prems in auto)
  ultimately show ?case using Suc.prems(1) [of n] by (auto simp: sorted_wrt_append)
qed simp

text \<open>All hot entries in the order of their keys.\<close>

lemma collect_ok:
  assumes he: "bm_ok he" "keyed he" and nk: "bm_ok nk"
  shows "\<exists>temps. foldE (\<lambda>idx temps. bindE (bucketEntries he nk idx (temps ! idx)) (\<lambda>es. Inr (temps[idx := es])))
      [0 ..< 64] (replicate 64 []) = Inr temps \<and> length temps = 64 \<and>
    set (concat temps) = hot_hint he nk \<and> sorted_wrt (<) (map hkey_of (concat temps))"
proof -
  define g where "g i = (SOME es. bucketEntries he nk i [] = Inr es)" for i
  have g: "bucketEntries he nk i [] = Inr (g i) \<and> set (g i) = {h \<in> hot_hint he nk. bucket (hkey_of h) = i} \<and>
    (\<forall>h \<in> set (g i). hkey_of h \<noteq> []) \<and> sorted_wrt (<) (map hkey_of (g i))" if "i < 64" for i
  proof -
    from bucketEntries_ok [OF he nk that] obtain es where es: "bucketEntries he nk i [] = Inr es"
      "set es = {h \<in> hot_hint he nk. bucket (hkey_of h) = i}" "\<forall>h \<in> set es. hkey_of h \<noteq> []" "sorted_wrt (<) (map hkey_of es)" by blast
    then have "g i = es" unfolding g_def by simp
    with es show ?thesis by simp
  qed
  have "foldE (\<lambda>idx temps. bindE (bucketEntries he nk idx (temps ! idx)) (\<lambda>es. Inr (temps[idx := es])))
      [0 ..< 64] (replicate 64 []) = Inr (map g [0 ..< 64] @ drop 64 (replicate 64 []))"
    by (rule foldE_index) (use g in auto)
  moreover have "set (concat (map g [0 ..< 64])) = hot_hint he nk"
    using g bucket_64 by fastforce
  moreover have "sorted_wrt (<) (map hkey_of (concat (map g [0 ..< 64])))"
  proof (rule sorted_concat)
    fix i j x y assume ij: "i < j" "j < (64 :: nat)" "x \<in> set (g i)" "y \<in> set (g j)"
    then have "bucket (hkey_of x) = i" "bucket (hkey_of y) = j" "hkey_of x \<noteq> []" "hkey_of y \<noteq> []"
      using g [of i] g [of j] by auto
    with ij(1) show "hkey_of x < hkey_of y" by (intro bucket_less) simp_all
  qed (use g in blast)
  ultimately show ?thesis by (intro exI [of _ "map g [0 ..< 64]"]) simp
qed

end
