(* ===== verification/OnvaStore.thy ===== *)
theory OnvaStore
  imports OnvaHot
begin

text \<open>
  What the store relies on: the laws of a data tree and of an index tree, as locales over the two
  interface records, and the write phase of a block proved from them: \<open>update\<close> after the links are
  repaired, which deactivates, appends and indexes the changed entries.
\<close>

declare storeEntry.simps [simp del]

section \<open>The laws of the two trees\<close>

text \<open>Entries whose strings are at most \<open>L\<close> bytes long, which every buffer of the file can hold.\<close>

definition small_entry :: "nat \<Rightarrow> Entry \<Rightarrow> bool" where
  "small_entry L e \<longleftrightarrow> length (Key e) \<le> L \<and> length (NextKey e) \<le> L \<and> (\<exists>v. Value e = Some v \<and> length v \<le> L) \<and>
     in_int64 (Height e) \<and> in_int64 (LastHeight e) \<and> in_int64 (SerialNum e)"

text \<open>The serial numbers stay away from the largest int64.\<close>

definition room :: "nat \<Rightarrow> bool" where
  "room n \<longleftrightarrow> n + 2048 < 2 ^ 63"

lemma room_mono: "room n \<Longrightarrow> m \<le> n \<Longrightarrow> room m"
  by (simp add: room_def)

text \<open>
  \<open>ok n d\<close>: \<open>n\<close> is the next serial number; \<open>settled\<close>: nothing is buffered, so that entries can be read;
  \<open>pending\<close>: the number of deactivations not yet written; \<open>holds d p e\<close>: the active entry \<open>e\<close> is at
  position \<open>p\<close>. A block can end once \<open>N0\<close> entries are there.
\<close>

locale data_tree =
  fixes D :: "'d DataTreeI" and L :: nat and N0 :: nat and ok :: "nat \<Rightarrow> 'd \<Rightarrow> bool" and settled :: "'d \<Rightarrow> bool"
    and pending :: "'d \<Rightarrow> nat" and holds :: "'d \<Rightarrow> nat \<Rightarrow> Entry \<Rightarrow> bool"
  assumes room_for_dummy: "5 \<le> L"
    and append: "ok n d \<Longrightarrow> room n \<Longrightarrow> SerialNum e = int n \<Longrightarrow> small_entry L e \<Longrightarrow> pending d \<le> 65 \<Longrightarrow>
      \<exists>pos d'. dt_AppendEntry D e d = Inr (pos, d') \<and> ok (Suc n) d' \<and> pending d' = 0 \<and> holds d' pos e \<and>
        (\<forall>p x. holds d p x \<longrightarrow> holds d' p x)"
    and deactivate: "ok n d \<Longrightarrow> holds d p e \<Longrightarrow>
      \<exists>c d'. dt_DeactiviateEntry D (SerialNum e) d = Inr (c, d') \<and> ok n d' \<and> pending d' \<le> Suc (pending d) \<and>
        (c \<le> 64 \<longrightarrow> pending d' \<le> 64) \<and> (\<forall>q x. holds d q x \<and> SerialNum x \<noteq> SerialNum e \<longrightarrow> holds d' q x)"
    and end_block: "ok n d \<Longrightarrow> N0 \<le> n \<Longrightarrow>
      \<exists>root d'. dt_EndBlock D d = Inr (root, d') \<and> ok n d' \<and> settled d' \<and> pending d' = pending d \<and>
        (\<forall>p x. holds d p x \<longrightarrow> holds d' p x)"
    and read_entry: "ok n d \<Longrightarrow> settled d \<Longrightarrow> holds d p e \<Longrightarrow> dt_ReadEntry D p d = Inr (Some e)"

text \<open>
  \<open>items\<close> is the ordered map in the index, \<open>writing\<close> its write flag, and \<open>backward i iter R\<close> and
  \<open>forward i iter R\<close> say that the iterator stands on the first item of \<open>R\<close> and has the others in front of it.
\<close>

locale index_tree =
  fixes I :: "('i, 'e) IndexTreeI" and items :: "'i \<Rightarrow> BTree" and writing :: "bool \<Rightarrow> 'i \<Rightarrow> bool"
    and backward :: "'i \<Rightarrow> BackwardIter \<Rightarrow> BTree \<Rightarrow> bool" and forward :: "'i \<Rightarrow> ForwardIter \<Rightarrow> BTree \<Rightarrow> bool"
  assumes begin_write: "writing False i \<Longrightarrow> \<exists>i'. ix_BeginWrite I h i = Inr i' \<and> items i' = items i \<and> writing True i'"
    and end_write: "writing True i \<Longrightarrow> \<exists>i'. ix_EndWrite I i = Inr i' \<and> items i' = items i \<and> writing False i'"
    and set_item: "writing True i \<Longrightarrow> batch r \<noteq> None \<Longrightarrow>
      \<exists>i' r'. ix_Set I k v (i, r) = Inr (i', r') \<and> items i' = bt_Set k v (items i) \<and> writing True i' \<and> batch r' \<noteq> None"
    and delete_item: "writing True i \<Longrightarrow> batch r \<noteq> None \<Longrightarrow> bt_Get k (items i) \<noteq> None \<Longrightarrow>
      \<exists>i' r'. ix_Delete I k (i, r) = Inr (i', r') \<and> items i' = bt_Delete k (items i) \<and> writing True i' \<and> batch r' \<noteq> None"
    and get_item: "writing False i \<Longrightarrow> ix_Get I k i = Inr (bt_Get k (items i))"
    and reverse_range: "writing False i \<Longrightarrow> bt_inv (items i) \<Longrightarrow>
      \<exists>iter. ix_ReverseIterator I s k i = Inr iter \<and> backward i iter (rev (filter (in_range s k) (items i)))"
    and backward_next: "writing False i \<Longrightarrow> backward i iter (x # R) \<Longrightarrow>
      BackwardIter_Valid iter \<and> b_key iter = fst x \<and> b_value iter = snd x \<and>
      (\<exists>iter'. ix_NextBackward I i iter = Inr iter' \<and> backward i iter' R)"
    and backward_end: "backward i iter [] \<Longrightarrow> \<not> BackwardIter_Valid iter"
    and iterator: "writing False i \<Longrightarrow> bt_inv (items i) \<Longrightarrow>
      \<exists>iter. ix_Iterator I s k i = Inr iter \<and> forward i iter (filter (in_range s k) (items i))"
    and forward_next: "writing False i \<Longrightarrow> forward i fiter (x # R) \<Longrightarrow>
      ForwardIter_Valid fiter \<and> f_key fiter = fst x \<and> f_value fiter = snd x \<and>
      (\<exists>iter'. ix_NextForward I i fiter = Inr iter' \<and> forward i iter' R)"
    and forward_end: "forward i fiter [] \<Longrightarrow> \<not> ForwardIter_Valid fiter"
    and count: "ix_ActiveCount I i = length (items i)"
begin

lemma reverse_iterator: "writing False i \<Longrightarrow> bt_inv (items i) \<Longrightarrow>
    \<exists>iter. ix_ReverseIterator I [] k i = Inr iter \<and> backward i iter (rev (filter (\<lambda>(x, _). x < k) (items i)))"
  using reverse_range [of i "[]" k] by (simp only: Nil_range)

end

text \<open>The store as the composition of two such trees.\<close>

locale store = data_tree D L N0 ok settled pending holds + index_tree I items writing backward forward
  for D :: "'d DataTreeI" and L N0 ok settled pending holds and I :: "('i, 'e) IndexTreeI" and items writing backward forward

section \<open>The state during the write phase\<close>

text \<open>
  \<open>ent k\<close> is the entry that the index has for the key \<open>k\<close>; the data tree holds it for the keys in \<open>X\<close>.
\<close>

definition ents_ok :: "('d \<Rightarrow> nat \<Rightarrow> Entry \<Rightarrow> bool) \<Rightarrow> 'd \<Rightarrow> BTree \<Rightarrow> nat \<Rightarrow> (bytes \<Rightarrow> Entry) \<Rightarrow> bytes set \<Rightarrow> bool" where
  "ents_ok holds d B n ent X \<longleftrightarrow> X \<subseteq> dom (\<lambda>k. bt_Get k B) \<and>
     (\<forall>k \<in> X. \<exists>p. bt_Get k B = Some p \<and> holds d p (ent k) \<and> Key (ent k) = k \<and> 0 \<le> SerialNum (ent k) \<and> SerialNum (ent k) < int n) \<and>
     inj_on (\<lambda>k. SerialNum (ent k)) X"

lemma ents_okD:
  assumes "ents_ok holds d B n ent X" and "k \<in> X"
  shows "\<exists>p. bt_Get k B = Some p \<and> holds d p (ent k)" "Key (ent k) = k" "0 \<le> SerialNum (ent k)" "SerialNum (ent k) < int n"
  using assms unfolding ents_ok_def by blast+

lemma ents_ok_inj:
  assumes "ents_ok holds d B n ent X" and "x \<in> X" and "k \<in> X" and "x \<noteq> k"
  shows "SerialNum (ent x) \<noteq> SerialNum (ent k)"
  using assms inj_onD [of "\<lambda>k. SerialNum (ent k)" X x k] unfolding ents_ok_def by blast

lemma ents_ok_mono:
  assumes "ents_ok holds d B n ent X" and "Y \<subseteq> X" and "n \<le> m"
    and "\<And>p k. k \<in> Y \<Longrightarrow> holds d p (ent k) \<Longrightarrow> holds d' p (ent k)"
  shows "ents_ok holds d' B m ent Y"
  unfolding ents_ok_def
proof (intro conjI ballI)
  show "Y \<subseteq> dom (\<lambda>k. bt_Get k B)" "inj_on (\<lambda>k. SerialNum (ent k)) Y"
    using assms(1,2) unfolding ents_ok_def by (blast intro: inj_on_subset)+
  fix k assume k: "k \<in> Y"
  then have "k \<in> X" using assms(2) by blast
  with ents_okD [OF assms(1) this] assms(3) assms(4) [OF k]
  show "\<exists>p. bt_Get k B = Some p \<and> holds d' p (ent k) \<and> Key (ent k) = k \<and> 0 \<le> SerialNum (ent k) \<and> SerialNum (ent k) < int m"
    by (metis of_nat_le_iff order_less_le_trans)
qed

definition write_ok :: "('i \<Rightarrow> BTree) \<Rightarrow> (bool \<Rightarrow> 'i \<Rightarrow> bool) \<Rightarrow> (nat \<Rightarrow> 'd \<Rightarrow> bool) \<Rightarrow> ('d \<Rightarrow> nat) \<Rightarrow> ('d \<Rightarrow> nat \<Rightarrow> Entry \<Rightarrow> bool) \<Rightarrow>
    nat \<Rightarrow> (bytes \<Rightarrow> Entry) \<Rightarrow> bytes set \<Rightarrow> ('i, 'd, 'e) OnvaKV \<Rightarrow> bool" where
  "write_ok items writing ok pending holds n ent X okv \<longleftrightarrow> writing True (idxTree okv) \<and> bt_inv (items (idxTree okv)) \<and>
     ok n (datTree okv) \<and> pending (datTree okv) \<le> 64 \<and> md_maxSerialNum (meta okv) = int n \<and> batch (rocksdb okv) \<noteq> None \<and>
     ents_ok holds (datTree okv) (items (idxTree okv)) n ent X"

text \<open>The parts of the store that the write phase leaves alone.\<close>

definition write_keeps :: "('i, 'd, 'e) OnvaKV \<Rightarrow> ('i, 'd, 'e) OnvaKV \<Rightarrow> bool" where
  "write_keeps okv okv' \<longleftrightarrow> md_currHeight (meta okv') = md_currHeight (meta okv) \<and>
     md_oldestActiveTwigID (meta okv') = md_oldestActiveTwigID (meta okv) \<and> md_lastPrunedTwig (meta okv') = md_lastPrunedTwig (meta okv) \<and>
     k2heMap okv' = k2heMap okv \<and> k2nkMap okv' = k2nkMap okv \<and> tempEntries64 okv' = tempEntries64 okv \<and>
     startKey okv' = startKey okv \<and> endKey okv' = endKey okv"

lemma write_keeps_refl [simp]: "write_keeps okv okv"
  by (simp add: write_keeps_def)

lemma write_keeps_trans: "write_keeps a b \<Longrightarrow> write_keeps b c \<Longrightarrow> write_keeps a c"
  by (simp add: write_keeps_def)

lemma int64_next: "room n \<Longrightarrow> int64 (uint64 (int n + 1)) = int n + 1"
  by (rule int64_uint64) (simp add: in_int64_def room_def)

lemma okv_IncrMaxSerialNum_ok:
  assumes "batch (rocksdb okv) \<noteq> None" and "md_maxSerialNum (meta okv) = int n" and "room n"
  shows "\<exists>m r. okv_IncrMaxSerialNum okv = Inr (okv\<lparr>meta := m, rocksdb := r\<rparr>) \<and> batch r \<noteq> None \<and>
    m = (meta okv)\<lparr>md_maxSerialNum := int (Suc n)\<rparr>"
proof (cases "int (Suc n) mod 2048 = 0")
  case True
  then show ?thesis using assms int64_next [OF assms(3)]
    by (auto simp: okv_IncrMaxSerialNum_def IncrMaxSerialNum_def setTwigHeight_def Let_def add.commute)
next
  case False
  then have "okv_IncrMaxSerialNum okv = Inr (okv\<lparr>meta := (meta okv)\<lparr>md_maxSerialNum := int (Suc n)\<rparr>, rocksdb := rocksdb okv\<rparr>)"
    using assms int64_next [OF assms(3)] by (simp add: okv_IncrMaxSerialNum_def IncrMaxSerialNum_def Let_def add.commute)
  with assms(1) show ?thesis by blast
qed

lemma small_dummy: "5 \<le> L \<Longrightarrow> room n \<Longrightarrow> small_entry L (DummyEntry (int n))"
  by (simp add: small_entry_def DummyEntry_def bytes_dummy_def in_int64_def room_def)

text \<open>What \<open>update\<close> does with a hot entry after the links: delete it, write it, or nothing.\<close>

definition is_del :: "HotEntry \<Rightarrow> bool" where
  "is_del h \<longleftrightarrow> (IsModified h \<or> IsTouchedByNext h) \<and> Operation h = OpDelete \<and> 0 \<le> SerialNum (EntryPtr h)"

definition is_put :: "HotEntry \<Rightarrow> bool" where
  "is_put h \<longleftrightarrow> (IsModified h \<or> IsTouchedByNext h) \<and> \<not> is_del h \<and> (Operation h \<noteq> OpNone \<or> IsTouchedByNext h)"

definition ready :: "nat \<Rightarrow> (bytes \<Rightarrow> Entry) \<Rightarrow> bytes set \<Rightarrow> HotEntry \<Rightarrow> bool" where
  "ready L ent X h \<longleftrightarrow> (is_put h \<or> is_del h \<longrightarrow>
       (if 0 \<le> SerialNum (EntryPtr h) then hkey_of h \<in> X \<and> SerialNum (ent (hkey_of h)) = SerialNum (EntryPtr h)
        else hkey_of h \<notin> X)) \<and>
     (is_put h \<longrightarrow> (\<exists>sn lh. small_entry L ((EntryPtr h)\<lparr>SerialNum := sn, LastHeight := lh\<rparr>)))"

text \<open>The written entry has the key, the value and the link of the hot entry.\<close>

definition written :: "nat \<Rightarrow> HotEntry \<Rightarrow> Entry \<Rightarrow> bool" where
  "written L h e \<longleftrightarrow> Key e = hkey_of h \<and> Value e = Value (EntryPtr h) \<and> NextKey e = NextKey (EntryPtr h) \<and> small_entry L e"

context store
begin

abbreviation "wok \<equiv> write_ok items writing ok pending holds"

lemma DeactiviateEntry_step:
  assumes wok: "wok n ent X okv" and p: "holds (datTree okv) p e" and ne: "\<And>x. x \<in> X \<Longrightarrow> SerialNum (ent x) \<noteq> SerialNum e" and room: "room n"
  shows "\<exists>okv' n'. okv_DeactiviateEntry D (SerialNum e) okv = Inr okv' \<and> n \<le> n' \<and> n' \<le> Suc n \<and>
    wok n' ent X okv' \<and> write_keeps okv okv' \<and> idxTree okv' = idxTree okv"
proof -
  note W = wok [unfolded write_ok_def]
  let ?B = "items (idxTree okv)" and ?sn = "SerialNum e"
  have eo: "ents_ok holds (datTree okv) ?B n ent X" using W by blast
  from deactivate [OF _ p, of n] W obtain c d where d: "dt_DeactiviateEntry D ?sn (datTree okv) = Inr (c, d)" "ok n d"
    "pending d \<le> Suc (pending (datTree okv))" "c \<le> 64 \<longrightarrow> pending d \<le> 64"
    "\<And>q x. holds (datTree okv) q x \<Longrightarrow> SerialNum x \<noteq> ?sn \<Longrightarrow> holds d q x" by blast
  have eo1: "ents_ok holds d ?B n ent X"
    by (rule ents_ok_mono [OF eo]) (use d(5) ne in blast)+
  show ?thesis
  proof (cases "c > DeactivedSNListMaxLen")
    case False
    then have "wok n ent X (okv\<lparr>datTree := d\<rparr>)" using W d eo1 by (simp add: write_ok_def DeactivedSNListMaxLen_def)
    with d(1) False show ?thesis by (auto simp: okv_DeactiviateEntry_def write_keeps_def)
  next
    case True
    let ?okv1 = "okv\<lparr>datTree := d\<rparr>" and ?dummy = "DummyEntry (int n)"
    have sn: "GetMaxSerialNum (meta okv) = int n" using W by (simp add: GetMaxSerialNum_def)
    from okv_IncrMaxSerialNum_ok [of ?okv1 n] W room obtain m r where mr: "okv_IncrMaxSerialNum ?okv1 = Inr (?okv1\<lparr>meta := m, rocksdb := r\<rparr>)"
      "batch r \<noteq> None" "m = (meta okv)\<lparr>md_maxSerialNum := int (Suc n)\<rparr>" by auto
    have sde: "SerialNum ?dummy = int n" by (simp add: DummyEntry_def)
    have pd: "pending d \<le> 65" using d(3) W by linarith
    from append [OF d(2) room sde small_dummy [OF room_for_dummy room] pd] obtain pos d2 where
      d2: "dt_AppendEntry D ?dummy d = Inr (pos, d2)" "ok (Suc n) d2" "pending d2 = 0" "holds d2 pos ?dummy"
        "\<And>p x. holds d p x \<Longrightarrow> holds d2 p x" by blast
    from deactivate [OF d2(2,4)] sde d2(3) obtain c3 d3 where d3: "dt_DeactiviateEntry D (int n) d2 = Inr (c3, d3)" "ok (Suc n) d3"
      "pending d3 \<le> 1" "\<And>q x. holds d2 q x \<Longrightarrow> SerialNum x \<noteq> int n \<Longrightarrow> holds d3 q x" by auto
    have "SerialNum (ent x) \<noteq> int n" if "x \<in> X" for x using that ents_okD(4) [OF eo, of x] by auto
    then have "ents_ok holds d3 ?B (Suc n) ent X"
      by (intro ents_ok_mono [OF eo1]) (use d2(5) d3(4) in \<open>blast | simp\<close>)+
    then have "wok (Suc n) ent X (?okv1\<lparr>meta := m, rocksdb := r, datTree := d3\<rparr>)"
      using W d3 mr by (simp add: write_ok_def)
    moreover have "okv_DeactiviateEntry D ?sn okv = Inr (?okv1\<lparr>meta := m, rocksdb := r, datTree := d3\<rparr>)"
      using d(1) True mr d2 d3 sn by (simp add: okv_DeactiviateEntry_def okv_AppendEntry_def Let_def)
    ultimately show ?thesis using mr(3) by (intro exI [of _ "?okv1\<lparr>meta := m, rocksdb := r, datTree := d3\<rparr>"] exI [of _ "Suc n"])
      (simp add: write_keeps_def)
  qed
qed

text \<open>Appending the new entry of a key that the data tree does not hold, and indexing it.\<close>

lemma append_step:
  assumes wok: "wok n ent X okv" and k: "k \<notin> X" and room: "room n" and e: "SerialNum e = int n" "Key e = k" "small_entry L e"
  shows "\<exists>okv'. bindE (okv_IncrMaxSerialNum okv) (\<lambda>okv. bindE (okv_AppendEntry D e okv) (\<lambda>(pos, okv). okv_idxSet I k pos okv)) = Inr okv' \<and>
    wok (Suc n) (ent(k := e)) (insert k X) okv' \<and> write_keeps okv okv' \<and>
    (\<exists>pos. items (idxTree okv') = bt_Set k pos (items (idxTree okv)))"
proof -
  note W = wok [unfolded write_ok_def]
  let ?B = "items (idxTree okv)"
  have eo: "ents_ok holds (datTree okv) ?B n ent X" using W by blast
  from okv_IncrMaxSerialNum_ok [of okv n] W room obtain m r where mr: "okv_IncrMaxSerialNum okv = Inr (okv\<lparr>meta := m, rocksdb := r\<rparr>)"
    "batch r \<noteq> None" "m = (meta okv)\<lparr>md_maxSerialNum := int (Suc n)\<rparr>" by auto
  from append [OF _ room e(1,3)] W obtain pos d where d: "dt_AppendEntry D e (datTree okv) = Inr (pos, d)" "ok (Suc n) d" "pending d = 0"
    "holds d pos e" "\<And>p x. holds (datTree okv) p x \<Longrightarrow> holds d p x" by force
  from set_item [OF _ mr(2)] W obtain i r' where i: "ix_Set I k pos (idxTree okv, r) = Inr (i, r')" "items i = bt_Set k pos ?B"
    "writing True i" "batch r' \<noteq> None" by blast
  have inv: "bt_inv ?B" using W by blast
  have get: "bt_Get x (items i) = (if x = k then Some pos else bt_Get x ?B)" for x
    using bt.get_put [OF inv] by (simp add: i(2))
  let ?okv = "okv\<lparr>meta := m, rocksdb := r', datTree := d, idxTree := i\<rparr>"
  have "ents_ok holds d (items i) (Suc n) (ent(k := e)) (insert k X)"
    unfolding ents_ok_def
  proof (intro conjI ballI)
    show "insert k X \<subseteq> dom (\<lambda>k. bt_Get k (items i))" using eo get unfolding ents_ok_def by (auto simp: dom_def)
    have "SerialNum (ent x) \<noteq> int n" if "x \<in> X" for x using ents_okD(4) [OF eo that] by auto
    then show "inj_on (\<lambda>x. SerialNum ((ent(k := e)) x)) (insert k X)" using eo k e(1) unfolding ents_ok_def inj_on_def by auto
    fix x assume x: "x \<in> insert k X"
    show "\<exists>p. bt_Get x (items i) = Some p \<and> holds d p ((ent(k := e)) x) \<and> Key ((ent(k := e)) x) = x \<and>
      0 \<le> SerialNum ((ent(k := e)) x) \<and> SerialNum ((ent(k := e)) x) < int (Suc n)"
    proof (cases "x = k")
      case False
      with x have "x \<in> X" by blast
      from ents_okD [OF eo this] d(5) False get show ?thesis by (auto intro: less_trans)
    qed (use d(4) e get in simp)
  qed
  then have "wok (Suc n) (ent(k := e)) (insert k X) ?okv"
    using i d mr bt_Set_sorted [OF inv] by (simp add: write_ok_def)
  moreover have "bindE (okv_IncrMaxSerialNum okv) (\<lambda>okv. bindE (okv_AppendEntry D e okv) (\<lambda>(pos, okv). okv_idxSet I k pos okv)) = Inr ?okv"
    using mr d i by (simp add: okv_AppendEntry_def okv_idxSet_def)
  ultimately show ?thesis using mr(3) i(2) by (intro exI [of _ ?okv]) (auto simp: write_keeps_def)
qed

text \<open>One entry. \<open>X\<close> are all the keys of the index.\<close>

lemma storeEntry_step:
  assumes wok: "wok n ent X okv" and dom: "dom (\<lambda>k. bt_Get k (items (idxTree okv))) = X" and rd: "ready L ent X h"
    and room: "room (Suc n)" and ht: "in_int64 (md_currHeight (meta okv))"
  shows "\<exists>okv' n' ent'. storeEntry I D h okv = Inr okv' \<and> n \<le> n' \<and> n' \<le> n + 2 \<and> write_keeps okv okv' \<and>
    (let X' = (if is_put h then insert (hkey_of h) X else if is_del h then X - {hkey_of h} else X)
     in wok n' ent' X' okv' \<and> dom (\<lambda>k. bt_Get k (items (idxTree okv'))) = X') \<and>
    (\<forall>x. x \<noteq> hkey_of h \<or> \<not> is_put h \<longrightarrow> ent' x = ent x) \<and> (is_put h \<longrightarrow> written L h (ent' (hkey_of h)))"
proof -
  let ?k = "hkey_of h" and ?sn = "SerialNum (EntryPtr h)"
  have roomn: "room n" using room room_mono by simp
  note W = wok [unfolded write_ok_def]
  consider (none) "\<not> is_put h" "\<not> is_del h" | (del) "is_del h" "\<not> is_put h" | (put) "is_put h" "\<not> is_del h"
    by (auto simp: is_put_def)
  then show ?thesis
  proof cases
    case none
    then have "storeEntry I D h okv = Inr okv" by (auto simp: storeEntry.simps is_put_def is_del_def Let_def)
    with wok dom none show ?thesis by (intro exI [of _ okv] exI [of _ n] exI [of _ ent]) simp
  next
    case del
    then have k: "?k \<in> X" "SerialNum (ent ?k) = ?sn" using rd by (auto simp: ready_def is_del_def)
    then have "bt_Get ?k (items (idxTree okv)) \<noteq> None" using dom by (auto simp: dom_def)
    with delete_item [of "idxTree okv" "rocksdb okv" ?k] W obtain i r where
      i: "ix_Delete I ?k (idxTree okv, rocksdb okv) = Inr (i, r)" "items i = bt_Delete ?k (items (idxTree okv))" "writing True i" "batch r \<noteq> None"
      by blast
    let ?okv1 = "okv\<lparr>idxTree := i, rocksdb := r\<rparr>"
    have inv: "bt_inv (items (idxTree okv))" using W by blast
    have get: "bt_Get x (items i) = (if x = ?k then None else bt_Get x (items (idxTree okv)))" for x
      using bt.get_del [OF inv] by (simp add: i(2))
    have eo: "ents_ok holds (datTree okv) (items (idxTree okv)) n ent X" using W by blast
    have "ents_ok holds (datTree okv) (items (idxTree okv)) n ent (X - {?k})" by (rule ents_ok_mono [OF eo]) auto
    then have "ents_ok holds (datTree okv) (items i) n ent (X - {?k})" using get unfolding ents_ok_def by (auto simp: dom_def)
    then have wok1: "wok n ent (X - {?k}) ?okv1"
      using W i bt_Delete_sorted [OF inv] by (simp add: write_ok_def)
    from ents_okD(1) [OF eo k(1)] obtain p where p: "holds (datTree okv) p (ent ?k)" by blast
    have ne: "SerialNum (ent x) \<noteq> SerialNum (ent ?k)" if "x \<in> X - {?k}" for x
      using that k(1) ents_ok_inj [OF eo] by blast
    have "holds (datTree ?okv1) p (ent ?k)" using p by simp
    from DeactiviateEntry_step [OF wok1 this ne roomn] k(2) obtain okv2 n' where o2: "okv_DeactiviateEntry D ?sn ?okv1 = Inr okv2"
      "n \<le> n'" "n' \<le> Suc n" "wok n' ent (X - {?k}) okv2" "write_keeps ?okv1 okv2" "idxTree okv2 = i" by auto
    have "storeEntry I D h okv = Inr okv2"
      using del i(1) o2(1) by (simp add: storeEntry.simps is_del_def okv_idxDelete_def Let_def)
    moreover have "write_keeps okv okv2" using o2(5) by (simp add: write_keeps_def)
    moreover have "dom (\<lambda>k. bt_Get k (items (idxTree okv2))) = X - {?k}" using dom get o2(6) by (auto simp: dom_def)
    ultimately show ?thesis using o2 del by (intro exI [of _ okv2] exI [of _ n'] exI [of _ ent]) simp
  next
    case put
    have eo: "ents_ok holds (datTree okv) (items (idxTree okv)) n ent X" using W by blast
    have k: "0 \<le> ?sn \<Longrightarrow> ?k \<in> X \<and> SerialNum (ent ?k) = ?sn" "\<not> 0 \<le> ?sn \<Longrightarrow> ?k \<notin> X"
      using rd put by (auto simp: ready_def)
    obtain okv1 n1 where o1: "(if 0 \<le> ?sn then okv_DeactiviateEntry D ?sn okv else Inr okv) = Inr okv1" "n \<le> n1" "n1 \<le> Suc n"
      "wok n1 ent (X - {?k}) okv1" "write_keeps okv okv1" "idxTree okv1 = idxTree okv"
    proof (cases "0 \<le> ?sn")
      case True
      have "ents_ok holds (datTree okv) (items (idxTree okv)) n ent (X - {?k})" by (rule ents_ok_mono [OF eo]) auto
      then have wok1: "wok n ent (X - {?k}) okv" using W by (simp add: write_ok_def)
      from ents_okD(1) [OF eo] k(1) [OF True] obtain p where p: "holds (datTree okv) p (ent ?k)" by blast
      have ne: "SerialNum (ent x) \<noteq> SerialNum (ent ?k)" if "x \<in> X - {?k}" for x
        using that k(1) [OF True] ents_ok_inj [OF eo] by blast
      from DeactiviateEntry_step [OF wok1 p ne roomn] k(1) [OF True] True that show ?thesis by auto
    next
      case False
      then have "X - {?k} = X" using k(2) by blast
      with False that [of okv n] wok show ?thesis by simp
    qed
    let ?e = "(EntryPtr h)\<lparr>LastHeight := Height (EntryPtr h), Height := md_currHeight (meta okv), SerialNum := int n1\<rparr>"
    have room1: "room n1" using room room_mono o1(3) by blast
    have cur: "GetCurrHeight (meta okv1) = md_currHeight (meta okv)" "GetMaxSerialNum (meta okv1) = int n1"
      using o1(4,5) by (simp_all add: GetCurrHeight_def GetMaxSerialNum_def write_keeps_def write_ok_def)
    have small: "small_entry L ?e" using rd put ht room1 by (auto simp: ready_def small_entry_def in_int64_def room_def)
    from append_step [OF o1(4) _ room1 _ _ small, of ?k] obtain okv2 where o2:
      "bindE (okv_IncrMaxSerialNum okv1) (\<lambda>okv. bindE (okv_AppendEntry D ?e okv) (\<lambda>(pos, okv). okv_idxSet I ?k pos okv)) = Inr okv2"
      "wok (Suc n1) (ent(?k := ?e)) (insert ?k (X - {?k})) okv2" "write_keeps okv1 okv2"
      "\<exists>pos. items (idxTree okv2) = bt_Set ?k pos (items (idxTree okv1))" by auto
    have "storeEntry I D h okv = Inr okv2"
      using put o1(1) o2(1) cur by (auto simp: storeEntry.simps is_put_def is_del_def Let_def)
    moreover have "dom (\<lambda>k. bt_Get k (items (idxTree okv2))) = insert ?k X"
    proof -
      from o2(4) obtain pos where "items (idxTree okv2) = bt_Set ?k pos (items (idxTree okv))" using o1(6) by auto
      then have "bt_Get x (items (idxTree okv2)) = (if x = ?k then Some pos else bt_Get x (items (idxTree okv)))" for x
        using W by (simp add: bt.get_put)
      then show ?thesis using dom by (auto simp: dom_def)
    qed
    moreover have "insert ?k (X - {?k}) = insert ?k X" by blast
    moreover have "written L h ?e" using small by (simp add: written_def)
    ultimately show ?thesis using o1 o2 put write_keeps_trans [OF o1(5) o2(3)]
      by (intro exI [of _ okv2] exI [of _ "Suc n1"] exI [of _ "ent(?k := ?e)"]) simp
  qed
qed

text \<open>The loop over all hot entries, whose keys differ.\<close>

lemma ready_other:
  assumes "ready L ent X h" and "\<And>x. x = hkey_of h \<Longrightarrow> ent' x = ent x \<and> (x \<in> X' \<longleftrightarrow> x \<in> X)"
  shows "ready L ent' X' h"
  using assms by (auto simp: ready_def)

lemma storeEntries:
  "wok n ent X okv \<Longrightarrow> dom (\<lambda>k. bt_Get k (items (idxTree okv))) = X \<Longrightarrow> (\<forall>h \<in> set hs. ready L ent X h) \<Longrightarrow>
    distinct (map hkey_of hs) \<Longrightarrow> room (n + 2 * length hs) \<Longrightarrow> in_int64 (md_currHeight (meta okv)) \<Longrightarrow>
    \<exists>okv' n' ent'. foldE (storeEntry I D) hs okv = Inr okv' \<and> n \<le> n' \<and> n' \<le> n + 2 * length hs \<and> write_keeps okv okv' \<and>
      (let X' = X - hkey_of ` {h \<in> set hs. is_del h} \<union> hkey_of ` {h \<in> set hs. is_put h}
       in wok n' ent' X' okv' \<and> dom (\<lambda>k. bt_Get k (items (idxTree okv'))) = X') \<and>
      (\<forall>x. (\<forall>h \<in> set hs. is_put h \<longrightarrow> x \<noteq> hkey_of h) \<longrightarrow> ent' x = ent x) \<and>
      (\<forall>h \<in> set hs. is_put h \<longrightarrow> written L h (ent' (hkey_of h)))"
proof (induction hs arbitrary: n ent X okv)
  case Nil
  then show ?case by (intro exI [of _ okv] exI [of _ n] exI [of _ ent]) simp
next
  case (Cons h hs)
  let ?k = "hkey_of h"
  let ?X1 = "if is_put h then insert ?k X else if is_del h then X - {?k} else X"
  have room1: "room (Suc n)" using Cons.prems(5) by (auto intro: room_mono)
  from storeEntry_step [OF Cons.prems(1,2) _ room1 Cons.prems(6), of h] Cons.prems(3) obtain okv1 n1 ent1 where s1:
    "storeEntry I D h okv = Inr okv1" "n \<le> n1" "n1 \<le> n + 2" "write_keeps okv okv1" "wok n1 ent1 ?X1 okv1"
    "dom (\<lambda>k. bt_Get k (items (idxTree okv1))) = ?X1" "\<And>x. x \<noteq> ?k \<or> \<not> is_put h \<Longrightarrow> ent1 x = ent x"
    "is_put h \<Longrightarrow> written L h (ent1 ?k)"
    by (auto simp: Let_def)
  have ne: "hkey_of h' \<noteq> ?k" if "h' \<in> set hs" for h'
  proof -
    have "?k \<notin> hkey_of ` set hs" using Cons.prems(4) by simp
    with that show ?thesis by (metis imageI)
  qed
  have rd: "\<forall>h' \<in> set hs. ready L ent1 ?X1 h'"
  proof
    fix h' assume h': "h' \<in> set hs"
    show "ready L ent1 ?X1 h'" by (rule ready_other [of ent X]) (use h' Cons.prems(3) s1(7) ne [OF h'] in auto)
  qed
  have d: "distinct (map hkey_of hs)" using Cons.prems(4) by simp
  have room': "room (n1 + 2 * length hs)" using Cons.prems(5) s1(3) by (auto intro: room_mono)
  have ht: "in_int64 (md_currHeight (meta okv1))" using Cons.prems(6) s1(4) by (simp add: write_keeps_def)
  from Cons.IH [OF s1(5,6) rd d room' ht] obtain okv2 n2 ent2 where s2:
    "foldE (storeEntry I D) hs okv1 = Inr okv2" "n1 \<le> n2" "n2 \<le> n1 + 2 * length hs" "write_keeps okv1 okv2"
    "wok n2 ent2 (?X1 - hkey_of ` {h \<in> set hs. is_del h} \<union> hkey_of ` {h \<in> set hs. is_put h}) okv2"
    "dom (\<lambda>k. bt_Get k (items (idxTree okv2))) = ?X1 - hkey_of ` {h \<in> set hs. is_del h} \<union> hkey_of ` {h \<in> set hs. is_put h}"
    "\<And>x. (\<forall>h \<in> set hs. is_put h \<longrightarrow> x \<noteq> hkey_of h) \<Longrightarrow> ent2 x = ent1 x"
    "\<And>h. h \<in> set hs \<Longrightarrow> is_put h \<Longrightarrow> written L h (ent2 (hkey_of h))"
    by (auto simp: Let_def)
  let ?X2 = "X - hkey_of ` {h' \<in> set (h # hs). is_del h'} \<union> hkey_of ` {h' \<in> set (h # hs). is_put h'}"
  have X: "?X1 - hkey_of ` {h \<in> set hs. is_del h} \<union> hkey_of ` {h \<in> set hs. is_put h} = ?X2"
    using ne by (auto simp: is_put_def)
  have "ent2 x = ent x" if "\<forall>h' \<in> set (h # hs). is_put h' \<longrightarrow> x \<noteq> hkey_of h'" for x
    using that s2(7) [of x] s1(7) [of x] by auto
  moreover have "written L h' (ent2 (hkey_of h'))" if "h' \<in> set (h # hs)" "is_put h'" for h'
  proof (cases "h' = h")
    case True
    have "ent2 ?k = ent1 ?k" using s2(7) [of ?k] ne by metis
    with s1(8) that(2) True show ?thesis by simp
  qed (use that s2(8) in simp)
  ultimately show ?case
    using s1(1-4) s2(1-6) write_keeps_trans [OF s1(4) s2(4)] unfolding X
    by (intro exI [of _ okv2] exI [of _ n2] exI [of _ ent2]) (simp add: Let_def)
qed

end

end
