(* ===== verification/OnvaBlock.thy ===== *)
theory OnvaBlock
  imports OnvaStore
begin

text \<open>
  A block of the store: its preparation, its operations and its end, proved from the laws of the two
  trees. The invariant says that the index has exactly the keys of an abstract map, that the data tree
  has an entry for each, and that the entries are linked in the order of the keys.
\<close>

section \<open>Blocks\<close>

datatype prepare = ForUpdate bytes | ForDeletion bytes

fun prepare_key :: "prepare \<Rightarrow> bytes" where
  "prepare_key (ForUpdate k) = k"
| "prepare_key (ForDeletion k) = k"

definition run_prepare :: "('i, 'e) IndexTreeI \<Rightarrow> 'd DataTreeI \<Rightarrow> prepare \<Rightarrow> ('i, 'd, 'e) OnvaKV \<Rightarrow> ('i, 'd, 'e) OnvaKV outcome" where
  "run_prepare I D p okv = (case p of ForUpdate k \<Rightarrow> PrepareForUpdate I D k okv
     | ForDeletion k \<Rightarrow> bindE (PrepareForDeletion I D k okv) (\<lambda>(_, okv). Inr okv))"

definition run_op :: "bytes \<times> bytes option \<Rightarrow> ('i, 'd, 'e) OnvaKV \<Rightarrow> ('i, 'd, 'e) OnvaKV outcome" where
  "run_op kv okv = (case snd kv of Some v \<Rightarrow> okv_Set (fst kv) (Some v) okv | None \<Rightarrow> okv_Delete (fst kv) okv)"

definition run_block :: "('e, 'it) engine \<Rightarrow> ('i, 'e) IndexTreeI \<Rightarrow> 'd DataTreeI \<Rightarrow> int \<Rightarrow> prepare list \<Rightarrow> (bytes \<times> bytes option) list \<Rightarrow>
    ('i, 'd, 'e) OnvaKV \<Rightarrow> ('i, 'd, 'e) OnvaKV outcome option" where
  "run_block E I D height preps ops okv =
     (case bindE (foldE (run_prepare I D) preps okv) (\<lambda>okv. bindE (okv_BeginWrite I height okv) (foldE run_op ops)) of
        Inl e \<Rightarrow> Some (Inl e) | Inr okv \<Rightarrow> okv_EndWrite E I D okv)"

text \<open>
  The blocks considered: keys between the guards, every operation prepared for, at most one operation
  on a key, values that are not nil, and strings of at most \<open>L\<close> bytes.
\<close>

definition block_pre :: "nat \<Rightarrow> bytes \<Rightarrow> bytes \<Rightarrow> prepare list \<Rightarrow> (bytes \<times> bytes option) list \<Rightarrow> bool" where
  "block_pre L s e preps ops \<longleftrightarrow>
     (\<forall>p \<in> set preps. s < prepare_key p \<and> prepare_key p < e \<and> length (prepare_key p) \<le> L) \<and> distinct (map fst ops) \<and>
     (\<forall>(k, v) \<in> set ops. case v of Some b \<Rightarrow> ForUpdate k \<in> set preps \<and> length b \<le> L | None \<Rightarrow> ForDeletion k \<in> set preps)"

section \<open>The invariant between blocks\<close>

abbreviation index_keys :: "('i \<Rightarrow> BTree) \<Rightarrow> ('i, 'd, 'e) OnvaKV \<Rightarrow> bytes set" where
  "index_keys items okv \<equiv> dom (\<lambda>k. bt_Get k (items (idxTree okv)))"

definition read_ok :: "('i \<Rightarrow> BTree) \<Rightarrow> (bool \<Rightarrow> 'i \<Rightarrow> bool) \<Rightarrow> (nat \<Rightarrow> 'd \<Rightarrow> bool) \<Rightarrow> ('d \<Rightarrow> bool) \<Rightarrow> ('d \<Rightarrow> nat \<Rightarrow> Entry \<Rightarrow> bool) \<Rightarrow>
    nat \<Rightarrow> (bytes \<Rightarrow> Entry) \<Rightarrow> ('i, 'd, 'e) OnvaKV \<Rightarrow> bool" where
  "read_ok items writing ok settled holds n ent okv \<longleftrightarrow> writing False (idxTree okv) \<and> bt_inv (items (idxTree okv)) \<and>
     ok n (datTree okv) \<and> settled (datTree okv) \<and>
     ents_ok holds (datTree okv) (items (idxTree okv)) n ent (index_keys items okv)"

lemma read_ok_Key: "read_ok items writing ok settled holds n ent okv \<Longrightarrow> k \<in> index_keys items okv \<Longrightarrow> Key (ent k) = k"
  unfolding read_ok_def by (blast dest: ents_okD(2))

definition linked_keys :: "nat \<Rightarrow> bytes \<Rightarrow> bytes \<Rightarrow> bytes set \<Rightarrow> (bytes \<Rightarrow> Entry) \<Rightarrow> bool" where
  "linked_keys L s e K ent \<longleftrightarrow> finite K \<and> s \<noteq> [] \<and> s \<in> K \<and> e \<in> K \<and>
     (\<forall>k \<in> K. s \<le> k \<and> k \<le> e \<and> small_entry L (ent k) \<and> NextKey (ent k) = next_key K k)"

lemma linked_keysD:
  assumes "linked_keys L s e K ent"
  shows "finite K" "s \<in> K" "e \<in> K" "[] \<notin> K" "s \<noteq> []"
    and "k \<in> K \<Longrightarrow> s \<le> k" "k \<in> K \<Longrightarrow> k \<le> e" "k \<in> K \<Longrightarrow> small_entry L (ent k)" "k \<in> K \<Longrightarrow> NextKey (ent k) = next_key K k"
proof -
  have "\<forall>k \<in> K. s \<le> k" "s \<noteq> []" using assms unfolding linked_keys_def by blast+
  then show "[] \<notin> K" "s \<noteq> []" by (cases s; force)+
qed (use assms in \<open>unfold linked_keys_def, blast+\<close>)

definition store_ok :: "nat \<Rightarrow> nat \<Rightarrow> ('i \<Rightarrow> BTree) \<Rightarrow> (bool \<Rightarrow> 'i \<Rightarrow> bool) \<Rightarrow> (nat \<Rightarrow> 'd \<Rightarrow> bool) \<Rightarrow> ('d \<Rightarrow> bool) \<Rightarrow> ('d \<Rightarrow> nat) \<Rightarrow>
    ('d \<Rightarrow> nat \<Rightarrow> Entry \<Rightarrow> bool) \<Rightarrow> nat \<Rightarrow> (bytes \<Rightarrow> Entry) \<Rightarrow> ('i, 'd, 'e) OnvaKV \<Rightarrow> bool" where
  "store_ok L N0 items writing ok settled pending holds n ent okv \<longleftrightarrow> read_ok items writing ok settled holds n ent okv \<and>
     linked_keys L (startKey okv) (endKey okv) (index_keys items okv) ent \<and> N0 \<le> n \<and>
     pending (datTree okv) \<le> 64 \<and> md_maxSerialNum (meta okv) = int n \<and>
     k2heMap okv = NewBucketMap \<and> k2nkMap okv = NewBucketMap \<and> tempEntries64 okv = replicate 64 []"

text \<open>The abstract map of a store.\<close>

definition value_map :: "bytes set \<Rightarrow> (bytes \<Rightarrow> Entry) \<Rightarrow> bytes \<rightharpoonup> bytes" where
  "value_map K ent k = (if k \<in> K then Value (ent k) else None)"

fun apply_ops :: "(bytes \<times> bytes option) list \<Rightarrow> (bytes \<rightharpoonup> bytes) \<Rightarrow> (bytes \<rightharpoonup> bytes)" where
  "apply_ops [] M = M"
| "apply_ops ((k, v) # ops) M = apply_ops ops (M(k := v))"

lemma apply_ops_map_of: "distinct (map fst ops) \<Longrightarrow> apply_ops ops M k = (case map_of ops k of None \<Rightarrow> M k | Some v \<Rightarrow> v)"
proof (induction ops arbitrary: M)
  case (Cons kv ops)
  obtain x v where kv: "kv = (x, v)" by fastforce
  from Cons have "x \<notin> fst ` set ops" "distinct (map fst ops)" by (simp_all add: kv)
  then have "map_of ops x = None" by (simp add: map_of_eq_None_iff)
  with Cons.IH [OF \<open>distinct (map fst ops)\<close>] show ?case by (simp add: kv split: option.split)
qed simp

section \<open>The neighbours of a key\<close>

definition around :: "bytes set \<Rightarrow> bytes set \<Rightarrow> bytes set \<Rightarrow> bytes \<Rightarrow> bool" where
  "around K H N x \<longleftrightarrow> (\<exists>p \<in> K \<inter> H. p < x \<and> (\<forall>z \<in> K. z < x \<longrightarrow> z \<le> p)) \<and>
     (\<exists>s \<in> K \<inter> N. x < s \<and> (\<forall>z \<in> K. x < z \<longrightarrow> s \<le> z))"

lemma around_mono: "around K H N x \<Longrightarrow> H \<subseteq> H' \<Longrightarrow> N \<subseteq> N' \<Longrightarrow> around K H' N' x"
  unfolding around_def by blast

text \<open>The hot entry of a key at the start of a block.\<close>

definition init_entry :: "bytes set \<Rightarrow> (bytes \<Rightarrow> Entry) \<Rightarrow> bytes \<Rightarrow> Entry" where
  "init_entry K ent k = (if k \<in> K then ent k
     else \<lparr>Key = k, Value = None, NextKey = [], Height = 0, LastHeight = 0, SerialNum = -1\<rparr>)"

text \<open>What the calls of the prepare phase in \<open>P\<close> have put into the two maps.\<close>

definition hot_ok :: "bytes set \<Rightarrow> (bytes \<Rightarrow> Entry) \<Rightarrow> BucketMap \<Rightarrow> BucketMap \<Rightarrow> prepare set \<Rightarrow> bool" where
  "hot_ok K ent he nk P \<longleftrightarrow> bm_ok he \<and> bm_ok nk \<and> dom (bm_get nk) \<subseteq> K \<and> dom (bm_get he) \<subseteq> K \<union> prepare_key ` P \<and>
     (\<forall>k \<in> dom (bm_get he). bm_get he k = Some (Some (newHotEntry (init_entry K ent k)))) \<and>
     (\<forall>k \<in> dom (bm_get he). k \<notin> K \<longrightarrow> around K (dom (bm_get he)) (dom (bm_get nk)) k) \<and>
     (\<forall>k. ForUpdate k \<in> P \<longrightarrow> k \<in> dom (bm_get he)) \<and>
     (\<forall>k \<in> K. ForDeletion k \<in> P \<longrightarrow> k \<in> dom (bm_get he) \<and> around K (dom (bm_get he)) (dom (bm_get nk)) k)"

lemma hot_ok_new [simp]: "hot_ok K ent NewBucketMap NewBucketMap {}"
  by (simp add: hot_ok_def)

lemma hot_okD:
  assumes "hot_ok K ent he nk P"
  shows "bm_ok he" "bm_ok nk" "dom (bm_get nk) \<subseteq> K" "dom (bm_get he) \<subseteq> K \<union> prepare_key ` P"
    "k \<in> dom (bm_get he) \<Longrightarrow> bm_get he k = Some (Some (newHotEntry (init_entry K ent k)))"
    "k \<in> dom (bm_get he) \<Longrightarrow> k \<notin> K \<Longrightarrow> around K (dom (bm_get he)) (dom (bm_get nk)) k"
    "ForUpdate k \<in> P \<Longrightarrow> k \<in> dom (bm_get he)"
    "k \<in> K \<Longrightarrow> ForDeletion k \<in> P \<Longrightarrow> k \<in> dom (bm_get he) \<and> around K (dom (bm_get he)) (dom (bm_get nk)) k"
  using assms unfolding hot_ok_def by blast+

text \<open>More hot entries, of the right form, that cover the new call.\<close>

lemma hot_ok_grow:
  assumes hot: "hot_ok K ent he nk P" and bm: "bm_ok he'" "bm_ok nk'"
    and he': "bm_get he' = (\<lambda>k. if k \<in> A then Some (Some (newHotEntry (init_entry K ent k))) else bm_get he k)"
    and nk': "dom (bm_get nk') = dom (bm_get nk) \<union> N" and AN: "A \<subseteq> K \<union> {prepare_key p}" "N \<subseteq> K"
    and cov: "\<And>k. k \<in> A \<Longrightarrow> k \<notin> K \<Longrightarrow> around K A N k"
    and p: "case p of ForUpdate k \<Rightarrow> k \<in> A | ForDeletion k \<Rightarrow> k \<in> K \<longrightarrow> k \<in> A \<and> around K A N k"
  shows "hot_ok K ent he' nk' (insert p P)"
proof -
  note h = hot_okD [OF hot]
  have dom: "dom (bm_get he') = dom (bm_get he) \<union> A" by (auto simp: he' dom_def)
  have ar: "around K (dom (bm_get he')) (dom (bm_get nk')) k" if "around K (dom (bm_get he)) (dom (bm_get nk)) k \<or> around K A N k" for k
    using that around_mono unfolding dom nk' by (meson sup_ge1 sup_ge2)
  show ?thesis
    unfolding hot_ok_def
  proof (intro conjI allI ballI impI)
    show "dom (bm_get nk') \<subseteq> K" using h(3) AN(2) nk' by blast
    show "dom (bm_get he') \<subseteq> K \<union> prepare_key ` insert p P" using h(4) AN(1) dom by auto
    show "bm_get he' k = Some (Some (newHotEntry (init_entry K ent k)))" if "k \<in> dom (bm_get he')" for k
      using that h(5) [of k] dom by (auto simp: he')
    show "around K (dom (bm_get he')) (dom (bm_get nk')) k" if "k \<in> dom (bm_get he')" "k \<notin> K" for k
      using that h(6) [of k] cov dom ar by blast
    show "k \<in> dom (bm_get he')" if "ForUpdate k \<in> insert p P" for k
      using that h(7) [of k] p dom by auto
    show "k \<in> dom (bm_get he')" "around K (dom (bm_get he')) (dom (bm_get nk')) k" if "k \<in> K" "ForDeletion k \<in> insert p P" for k
      using that h(8) [of k] p dom ar by auto
  qed (use bm in auto)
qed

lemma storeHot_ok:
  assumes "bm_ok he" and "k \<noteq> []"
  shows "\<exists>he'. storeHot k h (okv\<lparr>k2heMap := he, k2nkMap := nk\<rparr>) = Inr (okv\<lparr>k2heMap := he', k2nkMap := nk\<rparr>) \<and> bm_ok he' \<and>
    bm_get he' = (bm_get he)(k \<mapsto> Some h)"
proof -
  from Store_ok [OF assms, of "Some h"] obtain he' where he': "Store k (Some h) he = Inr he'" "bm_ok he'"
    "bm_get he' = (bm_get he)(k \<mapsto> Some h)" by blast
  then show ?thesis by (intro exI [of _ he']) (simp add: storeHot_def)
qed

lemma storeNext_ok:
  assumes "bm_ok nk" and "k \<noteq> []"
  shows "\<exists>nk'. storeNext k (okv\<lparr>k2heMap := he, k2nkMap := nk\<rparr>) = Inr (okv\<lparr>k2heMap := he, k2nkMap := nk'\<rparr>) \<and> bm_ok nk' \<and>
    dom (bm_get nk') = dom (bm_get nk) \<union> {k}"
  using Store_ok [OF assms, of None] by (auto simp: storeNext_def)

context store
begin

abbreviation "rok \<equiv> read_ok items writing ok settled holds"

lemma read_item:
  assumes "rok n ent okv" and "bt_Get k (items (idxTree okv)) = Some p"
  shows "dt_ReadEntry D p (datTree okv) = Inr (Some (ent k))"
proof -
  have "k \<in> index_keys items okv" using assms(2) by blast
  with assms ents_okD(1) [of holds "datTree okv" "items (idxTree okv)" n ent "index_keys items okv" k]
  have "holds (datTree okv) p (ent k)" by (auto simp: read_ok_def)
  with assms(1) read_entry [of n "datTree okv" p "ent k"] show ?thesis by (simp add: read_ok_def)
qed

lemma getPrevEntry_ok:
  assumes ok: "rok n ent okv" and s: "s \<in> index_keys items okv" "s < k"
    and same: "idxTree okv' = idxTree okv" "datTree okv' = datTree okv"
  shows "\<exists>p. p \<in> index_keys items okv \<and> p < k \<and> (\<forall>z \<in> index_keys items okv. z < k \<longrightarrow> z \<le> p) \<and>
    getPrevEntry I D k okv' = Inr (ent p)"
proof -
  let ?B = "items (idxTree okv)" and ?F = "filter (\<lambda>(x, _). x < k) (items (idxTree okv))"
  have inv: "bt_inv ?B" "writing False (idxTree okv)" using ok by (simp_all add: read_ok_def)
  have dom: "index_keys items okv = fst ` set ?B" by (rule bt.dom_get [OF inv(1)])
  then have ne: "?F \<noteq> []" using s by (force simp: filter_empty_conv)
  then obtain F p pos where F: "?F = F @ [(p, pos)]" by (cases ?F rule: rev_cases) auto
  have "(p, pos) \<in> set ?F" by (simp add: F)
  then have p: "(p, pos) \<in> set ?B" "p < k" by auto
  then have get: "bt_Get p ?B = Some pos" using bt.get_items [OF inv(1)] bt.distinct_keys [OF inv(1)] by simp
  have sorted: "sorted_wrt (<) (map fst ?F)" using filter_keys_sorted [OF inv(1)] by (simp add: bt_inv_def)
  have "z \<le> p" if "z \<in> index_keys items okv" "z < k" for z
  proof -
    from that dom obtain q where "(z, q) \<in> set ?F" by auto
    then show ?thesis using sorted unfolding F by (auto simp: sorted_wrt_append)
  qed
  moreover from reverse_iterator [OF inv(2,1), of k] backward_next [OF inv(2), of _ "(p, pos)" "rev F"] F obtain iter where
    "ix_ReverseIterator I [] k (idxTree okv) = Inr iter" "BackwardIter_Valid iter" "b_value iter = pos"
    by auto
  then have "getPrevEntry I D k okv' = Inr (ent p)"
    using read_item [OF ok get] same by (simp add: getPrevEntry_def okv_ReadEntry_def)
  ultimately show ?thesis using p get by blast
qed

lemma next_above:
  assumes K: "finite K" and p: "p \<in> K" "p < k" "\<forall>z \<in> K. z < k \<longrightarrow> z \<le> p" and k: "k \<notin> K" and e: "e \<in> K" "k < e"
  shows "next_key K p \<in> K" "k < next_key K p" "\<forall>z \<in> K. k < z \<longrightarrow> next_key K p \<le> z"
proof -
  have pe: "p < e" using p(2) e(2) by (rule less_trans)
  note n = next_keyD [OF K e(1) pe]
  show "next_key K p \<in> K" by (rule n(1))
  show "k < next_key K p"
  proof (rule ccontr)
    assume "\<not> k < next_key K p"
    then have "next_key K p < k" using n(1) k by (metis linorder_neqE)
    with p(3) n(1,2) show False by (meson leD)
  qed
  show "\<forall>z \<in> K. k < z \<longrightarrow> next_key K p \<le> z"
    using next_keyD(3) [OF K] p(2) by (meson less_trans)
qed

lemma PrepareForUpdate_ok:
  assumes ok: "rok n ent okv" and lk: "linked_keys L s e (index_keys items okv) ent" and k: "s < k" "k < e"
    and hot: "hot_ok (index_keys items okv) ent he nk P"
  shows "\<exists>he' nk'. PrepareForUpdate I D k (okv\<lparr>k2heMap := he, k2nkMap := nk\<rparr>) = Inr (okv\<lparr>k2heMap := he', k2nkMap := nk'\<rparr>) \<and>
    hot_ok (index_keys items okv) ent he' nk' (insert (ForUpdate k) P)"
proof -
  let ?K = "index_keys items okv" and ?okv = "\<lambda>he nk. okv\<lparr>k2heMap := he, k2nkMap := nk\<rparr>"
  note K = linked_keysD [OF lk]
  have kne: "k \<noteq> []" using k(1) by auto
  have get: "ix_Get I k (idxTree okv) = Inr (bt_Get k (items (idxTree okv)))" using ok get_item by (simp add: read_ok_def)
  show ?thesis
  proof (cases "k \<in> ?K")
    case True
    then obtain pos where pos: "bt_Get k (items (idxTree okv)) = Some pos" by blast
    obtain he' where he': "storeHot k (newHotEntry (ent k)) (?okv he nk) = Inr (?okv he' nk)" "bm_ok he'"
      "bm_get he' = (bm_get he)(k \<mapsto> Some (newHotEntry (ent k)))"
      using storeHot_ok [OF hot_okD(1) [OF hot] kne] by blast
    have "PrepareForUpdate I D k (?okv he nk) = Inr (?okv he' nk)"
      using get pos read_item [OF ok pos] he'(1) by (simp add: PrepareForUpdate_def okv_ReadEntry_def)
    moreover have "hot_ok ?K ent he' nk (insert (ForUpdate k) P)"
      by (rule hot_ok_grow [OF hot he'(2) hot_okD(2) [OF hot], of "{k}" "{}"])
        (use True in \<open>auto simp: he'(3) init_entry_def fun_eq_iff\<close>)
    ultimately show ?thesis by blast
  next
    case False
    from getPrevEntry_ok [OF ok K(2) k(1), of "?okv he nk"] obtain p where p: "p \<in> ?K" "p < k" "\<forall>z \<in> ?K. z < k \<longrightarrow> z \<le> p"
      "getPrevEntry I D k (?okv he nk) = Inr (ent p)" by auto
    let ?fresh = "\<lparr>Key = k, Value = None, NextKey = [], Height = 0, LastHeight = 0, SerialNum = -1\<rparr>"
    have pk: "Key (ent p) = p" "NextKey (ent p) = next_key ?K p" "p \<noteq> []"
      using read_ok_Key [OF ok p(1)] K(9) [OF p(1)] K(4) p(1) by blast+
    note nx = next_above [OF K(1) p(1-3) False K(3) k(2)]
    have nne: "next_key ?K p \<noteq> []" using nx(1) K(4) by metis
    obtain he1 where he1: "storeHot k (newHotEntry ?fresh) (?okv he nk) = Inr (?okv he1 nk)" "bm_ok he1"
      "bm_get he1 = (bm_get he)(k \<mapsto> Some (newHotEntry ?fresh))"
      using storeHot_ok [OF hot_okD(1) [OF hot] kne] by blast
    obtain he2 where he2: "storeHot p (newHotEntry (ent p)) (?okv he1 nk) = Inr (?okv he2 nk)" "bm_ok he2"
      "bm_get he2 = (bm_get he1)(p \<mapsto> Some (newHotEntry (ent p)))"
      using storeHot_ok [OF he1(2) pk(3)] by blast
    obtain nk' where nk': "storeNext (next_key ?K p) (?okv he2 nk) = Inr (?okv he2 nk')" "bm_ok nk'"
      "dom (bm_get nk') = dom (bm_get nk) \<union> {next_key ?K p}"
      using storeNext_ok [OF hot_okD(2) [OF hot] nne] by blast
    have "PrepareForUpdate I D k (?okv he nk) = Inr (?okv he2 nk')"
      using get False p(4) he1(1) he2(1) nk'(1) pk by (simp add: PrepareForUpdate_def domIff)
    moreover have "around ?K {k, p} {next_key ?K p} k" unfolding around_def using p(1-3) nx by blast
    then have "hot_ok ?K ent he2 nk' (insert (ForUpdate k) P)"
      by (intro hot_ok_grow [OF hot he2(2) nk'(2) _ nk'(3), of "{k, p}"])
        (use False p(1) nx(1) in \<open>auto simp: he1(3) he2(3) init_entry_def fun_eq_iff\<close>)
    ultimately show ?thesis by blast
  qed
qed

lemma PrepareForDeletion_ok:
  assumes ok: "rok n ent okv" and lk: "linked_keys L s e (index_keys items okv) ent" and k: "s < k" "k < e"
    and hot: "hot_ok (index_keys items okv) ent he nk P"
  shows "\<exists>b he' nk'. PrepareForDeletion I D k (okv\<lparr>k2heMap := he, k2nkMap := nk\<rparr>) = Inr (b, okv\<lparr>k2heMap := he', k2nkMap := nk'\<rparr>) \<and>
    hot_ok (index_keys items okv) ent he' nk' (insert (ForDeletion k) P)"
proof -
  let ?K = "index_keys items okv" and ?okv = "\<lambda>he nk. okv\<lparr>k2heMap := he, k2nkMap := nk\<rparr>"
  note K = linked_keysD [OF lk]
  have kne: "k \<noteq> []" using k(1) by auto
  have get: "ix_Get I k (idxTree okv) = Inr (bt_Get k (items (idxTree okv)))" using ok get_item by (simp add: read_ok_def)
  show ?thesis
  proof (cases "k \<in> ?K")
    case False
    then have "PrepareForDeletion I D k (?okv he nk) = Inr (False, ?okv he nk)"
      using get by (simp add: PrepareForDeletion_def domIff)
    moreover have "hot_ok ?K ent he nk (insert (ForDeletion k) P)"
      by (rule hot_ok_grow [OF hot hot_okD(1,2) [OF hot], of "{}" "{}"]) (use False in auto)
    ultimately show ?thesis by blast
  next
    case True
    then obtain pos where pos: "bt_Get k (items (idxTree okv)) = Some pos" by blast
    from getPrevEntry_ok [OF ok K(2) k(1), of "?okv he nk"] obtain p where p: "p \<in> ?K" "p < k" "\<forall>z \<in> ?K. z < k \<longrightarrow> z \<le> p"
      "getPrevEntry I D k (?okv he nk) = Inr (ent p)" by auto
    have ek: "Key (ent p) = p" "p \<noteq> []" "Key (ent k) = k" "NextKey (ent k) = next_key ?K k"
      using read_ok_Key [OF ok p(1)] read_ok_Key [OF ok True] K(9) [OF True] K(4) p(1) by blast+
    note nx = next_keyD [OF K(1,3) k(2)]
    have nne: "next_key ?K k \<noteq> []" using nx(1) K(4) by metis
    obtain he1 where he1: "storeHot k (newHotEntry (ent k)) (?okv he nk) = Inr (?okv he1 nk)" "bm_ok he1"
      "bm_get he1 = (bm_get he)(k \<mapsto> Some (newHotEntry (ent k)))"
      using storeHot_ok [OF hot_okD(1) [OF hot] kne] by blast
    obtain he2 where he2: "storeHot p (newHotEntry (ent p)) (?okv he1 nk) = Inr (?okv he2 nk)" "bm_ok he2"
      "bm_get he2 = (bm_get he1)(p \<mapsto> Some (newHotEntry (ent p)))"
      using storeHot_ok [OF he1(2) ek(2)] by blast
    obtain nk' where nk': "storeNext (next_key ?K k) (?okv he2 nk) = Inr (?okv he2 nk')" "bm_ok nk'"
      "dom (bm_get nk') = dom (bm_get nk) \<union> {next_key ?K k}"
      using storeNext_ok [OF hot_okD(2) [OF hot] nne] by blast
    have "PrepareForDeletion I D k (?okv he nk) = Inr (True, ?okv he2 nk')"
      using get pos read_item [OF ok pos] p(4) he1(1) he2(1) nk'(1) ek by (simp add: PrepareForDeletion_def okv_ReadEntry_def)
    moreover have "around ?K {k, p} {next_key ?K k} k"
      unfolding around_def using p(1-3) nx(1,2) next_keyD(3) [OF K(1) _ _, of _ k] by blast
    then have "hot_ok ?K ent he2 nk' (insert (ForDeletion k) P)"
      by (intro hot_ok_grow [OF hot he2(2) nk'(2) _ nk'(3), of "{k, p}"])
        (use True p(1) nx(1) in \<open>auto simp: he1(3) he2(3) init_entry_def fun_eq_iff\<close>)
    ultimately show ?thesis by blast
  qed
qed

lemma prepares_ok:
  assumes ok: "rok n ent okv" and lk: "linked_keys L s e (index_keys items okv) ent"
  shows "(\<forall>p \<in> set preps. s < prepare_key p \<and> prepare_key p < e) \<Longrightarrow> hot_ok (index_keys items okv) ent he nk P \<Longrightarrow>
    \<exists>he' nk'. foldE (run_prepare I D) preps (okv\<lparr>k2heMap := he, k2nkMap := nk\<rparr>) = Inr (okv\<lparr>k2heMap := he', k2nkMap := nk'\<rparr>) \<and>
      hot_ok (index_keys items okv) ent he' nk' (set preps \<union> P)"
proof (induction preps arbitrary: he nk P)
  case (Cons p preps)
  obtain he1 nk1 where s1: "run_prepare I D p (okv\<lparr>k2heMap := he, k2nkMap := nk\<rparr>) = Inr (okv\<lparr>k2heMap := he1, k2nkMap := nk1\<rparr>)"
    "hot_ok (index_keys items okv) ent he1 nk1 (insert p P)"
  proof (cases p)
    case (ForUpdate k)
    with Cons.prems(1) have k: "s < k" "k < e" by auto
    from PrepareForUpdate_ok [OF ok lk k Cons.prems(2)] that show ?thesis by (auto simp: run_prepare_def ForUpdate)
  next
    case (ForDeletion k)
    with Cons.prems(1) have k: "s < k" "k < e" by auto
    from PrepareForDeletion_ok [OF ok lk k Cons.prems(2)] that show ?thesis by (auto simp: run_prepare_def ForDeletion)
  qed
  from Cons.IH [OF _ s1(2)] Cons.prems(1) s1(1) show ?case by simp
qed auto

end

end
