(* ===== verification/OnvaUpdate.thy ===== *)
theory OnvaUpdate
  imports OnvaBlock
begin

text \<open>
  The operations of a block on the hot entries and their effect: which entries are live, inserted and
  deleted, that \<open>update\<close> links the new key set, and which entries it writes.
\<close>

section \<open>The operations\<close>

text \<open>The hot entry of a key after the operation \<open>act k\<close> on it.\<close>

definition hot_entry :: "bytes set \<Rightarrow> (bytes \<Rightarrow> Entry) \<Rightarrow> (bytes \<rightharpoonup> bytes option) \<Rightarrow> bytes \<Rightarrow> HotEntry" where
  "hot_entry K ent act k = (case act k of
       None \<Rightarrow> newHotEntry (init_entry K ent k)
     | Some None \<Rightarrow> (newHotEntry (init_entry K ent k))\<lparr>Operation := OpDelete\<rparr>
     | Some (Some v) \<Rightarrow> (newHotEntry ((init_entry K ent k)\<lparr>Value := Some v\<rparr>))\<lparr>Operation := OpInsertOrChange\<rparr>)"

definition hot_form :: "bytes set \<Rightarrow> (bytes \<Rightarrow> Entry) \<Rightarrow> bytes set \<Rightarrow> (bytes \<rightharpoonup> bytes option) \<Rightarrow> BucketMap \<Rightarrow> bool" where
  "hot_form K ent H act he \<longleftrightarrow> (\<forall>k. bm_get he k = (if k \<in> H then Some (Some (hot_entry K ent act k)) else None))"

lemma hot_form_init: "hot_ok K ent he nk P \<Longrightarrow> hot_form K ent (dom (bm_get he)) Map.empty he"
  using hot_okD(5) [of K ent he nk P] by (auto simp: hot_form_def hot_entry_def)

lemma hot_form_step:
  assumes "hot_form K ent H act he" and "bm_get he' = (bm_get he)(k \<mapsto> Some (hot_entry K ent (act(k \<mapsto> v)) k))" and "k \<in> H"
  shows "hot_form K ent H (act(k \<mapsto> v)) he'"
  using assms by (auto simp: hot_form_def hot_entry_def)

lemma run_op_ok:
  assumes he: "bm_ok he" "hot_form K ent H act he" and k: "k \<noteq> []" "act k = None" and v: "v \<noteq> None \<Longrightarrow> k \<in> H"
  shows "\<exists>he'. run_op (k, v) (okv\<lparr>k2heMap := he\<rparr>) = Inr (okv\<lparr>k2heMap := he'\<rparr>) \<and> bm_ok he' \<and> hot_form K ent H (act(k \<mapsto> v)) he'"
proof (cases "k \<in> H")
  case True
  then have get: "bm_get he k = Some (Some (newHotEntry (init_entry K ent k)))" using he(2) k(2) by (simp add: hot_form_def hot_entry_def)
  from Store_ok [OF he(1) k(1), of "Some (hot_entry K ent (act(k \<mapsto> v)) k)"] obtain he' where
    he': "Store k (Some (hot_entry K ent (act(k \<mapsto> v)) k)) he = Inr he'" "bm_ok he'"
      "bm_get he' = (bm_get he)(k \<mapsto> Some (hot_entry K ent (act(k \<mapsto> v)) k))" by blast
  have "run_op (k, v) (okv\<lparr>k2heMap := he\<rparr>) = Inr (okv\<lparr>k2heMap := he'\<rparr>)"
    using he'(1) get k(1) by (cases v)
      (simp_all add: run_op_def okv_Set_def okv_Delete_def Load_eq storeHot_def hot_entry_def newHotEntry_def)
  with he'(2) hot_form_step [OF he(2) he'(3) True] show ?thesis by blast
next
  case False
  with v have "v = None" by blast
  moreover have "bm_get he k = None" using he(2) False by (simp add: hot_form_def)
  ultimately have "run_op (k, v) (okv\<lparr>k2heMap := he\<rparr>) = Inr (okv\<lparr>k2heMap := he\<rparr>)"
    using k(1) by (simp add: run_op_def okv_Delete_def Load_eq)
  moreover have "hot_form K ent H (act(k \<mapsto> v)) he" using he(2) False by (auto simp: hot_form_def hot_entry_def)
  ultimately show ?thesis using he(1) by blast
qed

lemma run_ops_ok:
  "bm_ok he \<Longrightarrow> hot_form K ent H act he \<Longrightarrow> distinct (map fst ops) \<Longrightarrow> (\<forall>kv \<in> set ops. fst kv \<noteq> [] \<and> (snd kv \<noteq> None \<longrightarrow> fst kv \<in> H)) \<Longrightarrow>
    (\<forall>k \<in> fst ` set ops. act k = None) \<Longrightarrow>
    \<exists>he'. foldE run_op ops (okv\<lparr>k2heMap := he\<rparr>) = Inr (okv\<lparr>k2heMap := he'\<rparr>) \<and> bm_ok he' \<and> hot_form K ent H (act ++ map_of ops) he'"
proof (induction ops arbitrary: he act)
  case Nil
  then show ?case by auto
next
  case (Cons kv ops)
  obtain k v where kv: "kv = (k, v)" by fastforce
  have k: "k \<noteq> []" "act k = None" "v \<noteq> None \<Longrightarrow> k \<in> H" using Cons.prems(4,5) by (auto simp: kv)
  from run_op_ok [OF Cons.prems(1,2) k] obtain he1 where he1: "run_op (k, v) (okv\<lparr>k2heMap := he\<rparr>) = Inr (okv\<lparr>k2heMap := he1\<rparr>)"
    "bm_ok he1" "hot_form K ent H (act(k \<mapsto> v)) he1" by blast
  have nk: "k \<notin> fst ` set ops" using Cons.prems(3) by (simp add: kv)
  have rest: "\<forall>x \<in> fst ` set ops. (act(k \<mapsto> v)) x = None" "distinct (map fst ops)"
    "\<forall>kv \<in> set ops. fst kv \<noteq> [] \<and> (snd kv \<noteq> None \<longrightarrow> fst kv \<in> H)"
    using Cons.prems(3-5) nk by auto
  from Cons.IH [OF he1(2,3) rest(2,3,1)] obtain he2 where he2: "foldE run_op ops (okv\<lparr>k2heMap := he1\<rparr>) = Inr (okv\<lparr>k2heMap := he2\<rparr>)"
    "bm_ok he2" "hot_form K ent H (act(k \<mapsto> v) ++ map_of ops) he2" by blast
  have nk': "map_of ops k = None" using nk by (simp add: map_of_eq_None_iff)
  have "act(k \<mapsto> v) ++ map_of ops = act ++ map_of (kv # ops)"
    using nk' by (auto simp: kv fun_eq_iff map_add_def split: option.split)
  moreover have "foldE run_op (kv # ops) (okv\<lparr>k2heMap := he\<rparr>) = Inr (okv\<lparr>k2heMap := he2\<rparr>)" using he1(1) he2(1) by (simp add: kv)
  ultimately show ?case using he2(2,3) by metis
qed

section \<open>Live, inserted and deleted entries\<close>

definition inserted :: "bytes set \<Rightarrow> bytes set \<Rightarrow> (bytes \<rightharpoonup> bytes option) \<Rightarrow> bytes set" where
  "inserted K H act = {k \<in> H. k \<notin> K \<and> (\<exists>v. act k = Some (Some v))}"

definition deleted :: "bytes set \<Rightarrow> bytes set \<Rightarrow> (bytes \<rightharpoonup> bytes option) \<Rightarrow> bytes set" where
  "deleted K H act = {k \<in> H. k \<in> K \<and> act k = Some None}"

text \<open>The entries of the keys in \<open>K\<close>, and the hot entries of the keys in \<open>H\<close> with the hints for the others in \<open>N\<close>.\<close>

definition entries_ok :: "nat \<Rightarrow> bytes set \<Rightarrow> (bytes \<Rightarrow> Entry) \<Rightarrow> bool" where
  "entries_ok L K ent \<longleftrightarrow> (\<forall>k \<in> K. Key (ent k) = k \<and> 0 \<le> SerialNum (ent k) \<and> small_entry L (ent k) \<and> NextKey (ent k) = next_key K k)"

definition ces_ok :: "nat \<Rightarrow> bytes set \<Rightarrow> (bytes \<Rightarrow> Entry) \<Rightarrow> bytes set \<Rightarrow> bytes set \<Rightarrow> (bytes \<rightharpoonup> bytes option) \<Rightarrow> HotEntry list \<Rightarrow> bool" where
  "ces_ok L K ent H N act ces \<longleftrightarrow> entries_ok L K ent \<and> N \<subseteq> K \<and> covers K H (H \<union> N) (inserted K H act) (deleted K H act) \<and>
     (\<forall>k v. act k = Some (Some v) \<longrightarrow> length v \<le> L) \<and> (\<forall>k \<in> H. length k \<le> L) \<and>
     sorted_wrt (<) (map hkey_of ces) \<and> set ces = hot_entry K ent act ` H \<union> makeHintHotEntry ` (N - H)"

abbreviation (input) "block_keys K H act \<equiv> new_keys K (inserted K H act) (deleted K H act)"

lemma init_entry_Key: "entries_ok L K ent \<Longrightarrow> Key (init_entry K ent k) = k"
  by (simp add: init_entry_def entries_ok_def)

lemma hot_entry_fields:
  assumes "entries_ok L K ent"
  shows "hkey_of (hot_entry K ent act k) = k"
    "SerialNum (EntryPtr (hot_entry K ent act k)) = (if k \<in> K then SerialNum (ent k) else -1)"
    "IsModified (hot_entry K ent act k) = False" "IsTouchedByNext (hot_entry K ent act k) = False"
    "NextKey (EntryPtr (hot_entry K ent act k)) = (if k \<in> K then NextKey (ent k) else [])"
    "Height (EntryPtr (hot_entry K ent act k)) = (if k \<in> K then Height (ent k) else 0)"
    "Operation (hot_entry K ent act k) = (case act k of None \<Rightarrow> OpNone | Some None \<Rightarrow> OpDelete | Some (Some _) \<Rightarrow> OpInsertOrChange)"
    "Value (EntryPtr (hot_entry K ent act k)) =
       (case act k of Some (Some v) \<Rightarrow> Some v | _ \<Rightarrow> if k \<in> K then Value (ent k) else None)"
  using init_entry_Key [OF assms, of k]
  by (auto simp: hot_entry_def newHotEntry_def init_entry_def split: option.split)

lemma hint_fields [simp]:
  "SerialNum (EntryPtr (makeHintHotEntry k)) = - (2 ^ 63)" "Operation (makeHintHotEntry k) = OpNone"
  "IsModified (makeHintHotEntry k) = False" "IsTouchedByNext (makeHintHotEntry k) = False"
  by (simp_all add: makeHintHotEntry_def newHotEntry_def)

lemma hot_kinds:
  assumes e: "entries_ok L K ent" and k: "k \<in> H"
  shows "is_live (hot_entry K ent act k) \<longleftrightarrow> k \<in> block_keys K H act"
    "is_event (hot_entry K ent act k) \<longleftrightarrow> k \<in> inserted K H act \<union> deleted K H act"
    "isFakeInserted (hot_entry K ent act k) \<longleftrightarrow> k \<notin> K \<and> (\<forall>v. act k \<noteq> Some (Some v))"
proof -
  have "k \<in> K \<Longrightarrow> 0 \<le> SerialNum (ent k)" using e by (simp add: entries_ok_def)
  then show "is_live (hot_entry K ent act k) \<longleftrightarrow> k \<in> block_keys K H act"
    "is_event (hot_entry K ent act k) \<longleftrightarrow> k \<in> inserted K H act \<union> deleted K H act"
    "isFakeInserted (hot_entry K ent act k) \<longleftrightarrow> k \<notin> K \<and> (\<forall>v. act k \<noteq> Some (Some v))"
    using k by (auto simp: is_live_def is_event_def isFakeInserted_def isInserted_def hot_entry_fields [OF e] inserted_def deleted_def
        split: option.splits)
qed

lemma hint_kinds: "is_live (makeHintHotEntry k)" "\<not> is_event (makeHintHotEntry k)" "\<not> isFakeInserted (makeHintHotEntry k)"
  by (simp_all add: is_live_def is_event_def isFakeInserted_def isInserted_def)


section \<open>The list of hot entries\<close>

abbreviation (input) "key_at ces j \<equiv> hkey_of (ces ! j)"

lemma ces_okD:
  assumes "ces_ok L K ent H N act ces"
  shows "entries_ok L K ent" "N \<subseteq> K" "covers K H (H \<union> N) (inserted K H act) (deleted K H act)"
    "act k = Some (Some v) \<Longrightarrow> length v \<le> L" "k \<in> H \<Longrightarrow> length k \<le> L" "sorted_wrt (<) (map hkey_of ces)"
    "set ces = hot_entry K ent act ` H \<union> makeHintHotEntry ` (N - H)"
  using assms unfolding ces_ok_def by blast+

lemma ces_at:
  assumes ces: "ces_ok L K ent H N act ces" and j: "j < length ces"
  shows "key_at ces j \<in> H \<union> N"
    and "key_at ces j \<in> H \<Longrightarrow> ces ! j = hot_entry K ent act (key_at ces j)"
    and "key_at ces j \<notin> H \<Longrightarrow> ces ! j = makeHintHotEntry (key_at ces j)"
proof -
  note C = ces_okD [OF ces]
  have "ces ! j \<in> set ces" using j by simp
  then consider k where "k \<in> H" "ces ! j = hot_entry K ent act k" | k where "k \<in> N - H" "ces ! j = makeHintHotEntry k"
    using C(7) by blast
  then have "key_at ces j \<in> H \<and> ces ! j = hot_entry K ent act (key_at ces j) \<or>
    key_at ces j \<in> N - H \<and> ces ! j = makeHintHotEntry (key_at ces j)"
    by cases (simp_all add: hot_entry_fields(1) [OF C(1)])
  then show "key_at ces j \<in> H \<union> N" "key_at ces j \<in> H \<Longrightarrow> ces ! j = hot_entry K ent act (key_at ces j)"
    "key_at ces j \<notin> H \<Longrightarrow> ces ! j = makeHintHotEntry (key_at ces j)" by blast+
qed

lemma ces_kinds:
  assumes ces: "ces_ok L K ent H N act ces" and j: "j < length ces"
  shows "is_live (ces ! j) \<longleftrightarrow> key_at ces j \<in> block_keys K H act"
    and "is_event (ces ! j) \<longleftrightarrow> key_at ces j \<in> inserted K H act \<union> deleted K H act"
proof -
  note C = ces_okD [OF ces] and at = ces_at [OF ces j]
  have ID: "inserted K H act \<union> deleted K H act \<subseteq> H" by (auto simp: inserted_def deleted_def)
  have "(is_live (ces ! j) \<longleftrightarrow> key_at ces j \<in> block_keys K H act) \<and>
    (is_event (ces ! j) \<longleftrightarrow> key_at ces j \<in> inserted K H act \<union> deleted K H act)"
  proof (cases "key_at ces j \<in> H")
    case True
    from hot_kinds(1,2) [OF C(1) True, where act = act] at(2) [OF True] show ?thesis by simp
  next
    case False
    then have "key_at ces j \<in> K - deleted K H act" using at(1) C(2) ID by blast
    with False ID hint_kinds(1,2) [of "key_at ces j"] at(3) [OF False] show ?thesis by auto
  qed
  then show "is_live (ces ! j) \<longleftrightarrow> key_at ces j \<in> block_keys K H act"
    "is_event (ces ! j) \<longleftrightarrow> key_at ces j \<in> inserted K H act \<union> deleted K H act" by blast+
qed

lemma ces_less:
  assumes "ces_ok L K ent H N act ces" and "i < length ces" and "j < length ces"
  shows "key_at ces i < key_at ces j \<longleftrightarrow> i < j"
proof -
  have mono: "key_at ces a < key_at ces b" if "a < b" "b < length ces" for a b
    using ces_okD(6) [OF assms(1)] that by (simp add: sorted_wrt_iff_nth_less)
  show ?thesis using mono assms(2,3) by (metis less_asym linorder_neqE_nat less_irrefl)
qed

lemma ces_index:
  assumes ces: "ces_ok L K ent H N act ces" and k: "k \<in> H \<union> N"
  shows "\<exists>j. j < length ces \<and> key_at ces j = k"
proof -
  have "\<exists>h \<in> set ces. hkey_of h = k"
  proof (cases "k \<in> H")
    case True
    then have "hot_entry K ent act k \<in> set ces" using ces_okD(7) [OF ces] by blast
    with hot_entry_fields(1) [OF ces_okD(1) [OF ces]] show ?thesis by metis
  next
    case False
    then have "makeHintHotEntry k \<in> set ces" using k ces_okD(7) [OF ces] by blast
    with hkey_hint show ?thesis by metis
  qed
  then show ?thesis by (metis in_set_conv_nth)
qed

text \<open>The live entries next to an index are the surviving cached keys next to its key.\<close>

lemma next_live_key:
  assumes ces: "ces_ok L K ent H N act ces" and i: "i < length ces" and m: "next_live ces i = Some m"
  shows "m < length ces" "key_at ces m \<in> H \<union> N" "key_at ces m \<in> block_keys K H act" "key_at ces i < key_at ces m"
    and "c \<in> H \<union> N \<Longrightarrow> c \<in> block_keys K H act \<Longrightarrow> key_at ces i < c \<Longrightarrow> key_at ces m \<le> c"
proof -
  note n = m [unfolded next_live_iff]
  show m': "m < length ces" using n by blast
  show "key_at ces m \<in> H \<union> N" "key_at ces m \<in> block_keys K H act" "key_at ces i < key_at ces m"
    using n ces_at(1) [OF ces m'] ces_kinds(1) [OF ces m'] ces_less [OF ces i m'] by blast+
  assume c: "c \<in> H \<union> N" "c \<in> block_keys K H act" "key_at ces i < c"
  from ces_index [OF ces c(1)] obtain j where j: "j < length ces" "key_at ces j = c" by blast
  have live: "is_live (ces ! j)" "i < j" using ces_kinds(1) [OF ces j(1)] ces_less [OF ces i j(1)] j c by blast+
  show "key_at ces m \<le> c"
  proof (rule ccontr)
    assume "\<not> key_at ces m \<le> c"
    then have "j < m" using ces_less [OF ces j(1) m'] j(2) by (simp add: not_le)
    with n live show False by blast
  qed
qed

lemma prev_live_key:
  assumes ces: "ces_ok L K ent H N act ces" and i: "i < length ces" and p: "prev_live ces i = Some p"
  shows "p < length ces" "key_at ces p \<in> H \<union> N" "key_at ces p \<in> block_keys K H act" "key_at ces p < key_at ces i"
    and "c \<in> H \<union> N \<Longrightarrow> c \<in> block_keys K H act \<Longrightarrow> c < key_at ces i \<Longrightarrow> c \<le> key_at ces p"
proof -
  note n = p [unfolded prev_live_iff]
  show p': "p < length ces" using n i by simp
  show "key_at ces p \<in> H \<union> N" "key_at ces p \<in> block_keys K H act" "key_at ces p < key_at ces i"
    using n ces_at(1) [OF ces p'] ces_kinds(1) [OF ces p'] ces_less [OF ces p' i] by blast+
  assume c: "c \<in> H \<union> N" "c \<in> block_keys K H act" "c < key_at ces i"
  from ces_index [OF ces c(1)] obtain j where j: "j < length ces" "key_at ces j = c" by blast
  have live: "is_live (ces ! j)" "j < i" using ces_kinds(1) [OF ces j(1)] ces_less [OF ces j(1) i] j c by blast+
  show "c \<le> key_at ces p"
  proof (rule ccontr)
    assume "\<not> c \<le> key_at ces p"
    then have "p < j" using ces_less [OF ces p' j(1)] j(2) by (simp add: not_le)
    with n live show False by blast
  qed
qed

lemma find_not_None: "x \<in> set xs \<Longrightarrow> P x \<Longrightarrow> find P xs \<noteq> None"
  by (auto simp: find_None_iff)

lemma next_live_ex:
  assumes ces: "ces_ok L K ent H N act ces" and i: "i < length ces"
    and c: "c \<in> H \<union> N" "c \<in> block_keys K H act"
  shows "key_at ces i < c \<Longrightarrow> next_live ces i \<noteq> None" and "c < key_at ces i \<Longrightarrow> prev_live ces i \<noteq> None"
proof -
  from ces_index [OF ces c(1)] obtain j where j: "j < length ces" "key_at ces j = c" by blast
  have live: "is_live (ces ! j)" using ces_kinds(1) [OF ces j(1)] j c by blast
  show "next_live ces i \<noteq> None" if "key_at ces i < c"
  proof -
    have "i < j" using that ces_less [OF ces i j(1)] j(2) by simp
    with live j(1) show ?thesis unfolding next_live_def by (intro find_not_None [of j]) auto
  qed
  show "prev_live ces i \<noteq> None" if "c < key_at ces i"
  proof -
    have "j < i" using that ces_less [OF ces j(1) i] j(2) by simp
    with live j(1) show ?thesis unfolding prev_live_def by (intro find_not_None [of j]) auto
  qed
qed

lemma ces_linkable:
  assumes ces: "ces_ok L K ent H N act ces"
  shows "linkable ces"
  unfolding linkable_def
proof (intro allI impI conjI)
  note C = ces_okD [OF ces]
  fix i assume i: "i < length ces"
  note at = ces_at [OF ces i]
  have sn: "\<forall>k \<in> K. 0 \<le> SerialNum (ent k)" using C(1) by (simp add: entries_ok_def)
  show "-1 \<le> SerialNum (EntryPtr (ces ! i))" if op: "Operation (ces ! i) \<noteq> OpNone"
  proof (cases "key_at ces i \<in> H")
    case True
    have "SerialNum (EntryPtr (ces ! i)) = (if key_at ces i \<in> K then SerialNum (ent (key_at ces i)) else -1)"
      using at(2) [OF True] hot_entry_fields(2) [OF C(1), of act "key_at ces i"] by simp
    with sn show ?thesis by force
  next
    case False
    with op at(3) hint_fields(2) show ?thesis by metis
  qed
  assume "is_event (ces ! i)"
  then have x: "key_at ces i \<in> inserted K H act \<union> deleted K H act" using ces_kinds(2) [OF ces i] by blast
  from event_neighbours [OF C(3) x] next_live_ex [OF ces i]
  show "prev_live ces i \<noteq> None" "next_live ces i \<noteq> None" by blast+
qed


section \<open>The new links\<close>

lemma touched_kept:
  assumes ces: "ces_ok L K ent H N act ces" and j: "j < length ces" and t: "touched_by (length ces) ces j"
  shows "key_at ces j \<in> H" "key_at ces j \<in> block_keys K H act"
    and "\<exists>x m. next_live ces j = Some m \<and> x \<in> inserted K H act \<union> deleted K H act \<and> key_at ces j \<le> x \<and> x \<le> key_at ces m"
proof -
  note C = ces_okD [OF ces]
  from t obtain i where i: "i < length ces" "is_event (ces ! i)" "prev_live ces i = Some j" unfolding touched_by_def by blast
  note p = prev_live_key [OF ces i(1,3)]
  have x: "key_at ces i \<in> inserted K H act \<union> deleted K H act" using ces_kinds(2) [OF ces i(1)] i(2) by blast
  show K': "key_at ces j \<in> block_keys K H act" by (rule p(3))
  show "key_at ces j \<in> H"
  proof (rule ccontr)
    assume "key_at ces j \<notin> H"
    from hot_below [OF C(3) K' this x p(4)] p(5) show False by (meson UnI1 leD)
  qed
  from event_neighbours(2) [OF C(3) x] obtain c where c: "c \<in> H \<union> N" "c \<in> block_keys K H act" "key_at ces i < c" by blast
  then have "key_at ces j < c" using p(4) by (meson less_trans)
  from next_live_ex(1) [OF ces j c(1,2) this] obtain m where m: "next_live ces j = Some m" by blast
  note n = next_live_key [OF ces j m]
  show "\<exists>x m. next_live ces j = Some m \<and> x \<in> inserted K H act \<union> deleted K H act \<and> key_at ces j \<le> x \<and> x \<le> key_at ces m"
  proof (cases "key_at ces i \<le> key_at ces m")
    case False
    then have "key_at ces m < key_at ces i" by simp
    with p(5) [OF n(2,3)] n(4) show ?thesis by (meson leD)
  qed (use m x p(4) in \<open>meson less_imp_le\<close>)
qed

text \<open>A relinked entry that stays gets the key behind it.\<close>

lemma relinked_next:
  assumes ces: "ces_ok L K ent H N act ces" and j: "j < length ces" and r: "relinked (length ces) ces j"
  shows "key_at ces j \<in> H" "NextKey (EntryPtr (link_at (length ces) ces j)) = next_key (block_keys K H act) (key_at ces j)"
proof -
  note C = ces_okD [OF ces]
  have ID: "inserted K H act \<union> deleted K H act \<subseteq> H" by (auto simp: inserted_def deleted_def)
  have "key_at ces j \<in> H \<and> key_at ces j \<in> block_keys K H act \<and>
    (\<exists>x m. next_live ces j = Some m \<and> x \<in> inserted K H act \<union> deleted K H act \<and> key_at ces j \<le> x \<and> x \<le> key_at ces m)"
  proof (cases "touched_by (length ces) ces j")
    case True
    with touched_kept [OF ces j] show ?thesis by blast
  next
    case False
    with r have ev: "is_event (ces ! j)" "is_live (ces ! j)" by (auto simp: relinked_def)
    then have x: "key_at ces j \<in> inserted K H act \<union> deleted K H act" "key_at ces j \<in> block_keys K H act"
      using ces_kinds [OF ces j] by blast+
    from event_neighbours(2) [OF C(3) x(1)] next_live_ex(1) [OF ces j] obtain m where m: "next_live ces j = Some m" by blast
    from next_live_key(4) [OF ces j m] x ID m show ?thesis by (meson less_imp_le order_refl subsetD)
  qed
  then obtain x m where k: "key_at ces j \<in> H" "key_at ces j \<in> block_keys K H act" "next_live ces j = Some m"
    "x \<in> inserted K H act \<union> deleted K H act" "key_at ces j \<le> x" "x \<le> key_at ces m" by blast
  then show "key_at ces j \<in> H" by blast
  note n = next_live_key [OF ces j k(3)]
  have "key_at ces j \<in> H \<union> N" using k(1) by blast
  from next_key_event [OF C(3) this k(2) n(2-4) _ k(4-6)] n(5)
  have "next_key (block_keys K H act) (key_at ces j) = key_at ces m" by blast
  with r k(3) show "NextKey (EntryPtr (link_at (length ces) ces j)) = next_key (block_keys K H act) (key_at ces j)"
    by (simp add: link_at_def Let_def)
qed

text \<open>A key that stays and whose entry is not touched keeps its next key.\<close>

lemma untouched_next:
  assumes ces: "ces_ok L K ent H N act ces" and k: "k \<in> K" "k \<in> block_keys K H act"
    and t: "\<And>j. j < length ces \<Longrightarrow> key_at ces j = k \<Longrightarrow> \<not> touched_by (length ces) ces j"
  shows "next_key (block_keys K H act) k = NextKey (ent k)"
proof -
  note C = ces_okD [OF ces]
  have "next_key (block_keys K H act) k = next_key K k"
  proof (rule next_key_kept [OF C(3) k(1)])
    fix x assume x: "x \<in> inserted K H act \<union> deleted K H act" "k < x"
    show "\<exists>c. c \<in> block_keys K H act \<and> k < c \<and> c < x"
    proof (cases "k \<in> H")
      case False
      from hot_below [OF C(3) k(2) this x] show ?thesis by blast
    next
      case True
      then have kC: "k \<in> H \<union> N" by blast
      have xC: "x \<in> H \<union> N" using x(1) by (auto simp: inserted_def deleted_def)
      from ces_index [OF ces kC] obtain j where j: "j < length ces" "key_at ces j = k" by blast
      from ces_index [OF ces xC] obtain i where i: "i < length ces" "key_at ces i = x" by blast
      have ev: "is_event (ces ! i)" using ces_kinds(2) [OF ces i(1)] i(2) x(1) by blast
      have "k < key_at ces i" using x(2) i(2) by simp
      from next_live_ex(2) [OF ces i(1) kC k(2) this] obtain p where p: "prev_live ces i = Some p" by blast
      note P = prev_live_key [OF ces i(1) p]
      have "p \<noteq> j" using t [OF j] i(1) ev p unfolding touched_by_def by blast
      then have "key_at ces p \<noteq> k" using ces_less [OF ces P(1) j(1)] ces_less [OF ces j(1) P(1)] j(2)
        by (metis less_irrefl linorder_neqE_nat)
      moreover have "k \<le> key_at ces p" using P(5) [OF kC k(2)] x(2) i(2) by simp
      ultimately show ?thesis using P(3,4) i(2) by (metis order.not_eq_order_implies_strict)
    qed
  qed
  then show ?thesis using C(1) k(1) by (simp add: entries_ok_def)
qed

section \<open>What the block writes\<close>

definition put_keys :: "HotEntry list \<Rightarrow> bytes set" where
  "put_keys ces = hkey_of ` {h \<in> set (links (length ces) ces). is_put h}"

lemma links_set: "h \<in> set (links n ces) \<longleftrightarrow> (\<exists>j < length ces. h = link_at n ces j)"
  by auto

lemma link_at_marks:
  assumes ces: "ces_ok L K ent H N act ces" and j: "j < length ces"
  shows "IsModified (link_at (length ces) ces j) \<longleftrightarrow> \<not> isFakeInserted (ces ! j) \<and> Operation (ces ! j) \<noteq> OpNone"
    and "IsTouchedByNext (link_at (length ces) ces j) \<longleftrightarrow> touched_by (length ces) ces j"
proof -
  have "\<not> IsModified (ces ! j)" "\<not> IsTouchedByNext (ces ! j)"
    using ces_at [OF ces j] hot_entry_fields(3,4) [OF ces_okD(1) [OF ces], of act "key_at ces j"] hint_fields(3,4) [of "key_at ces j"]
    by (cases "key_at ces j \<in> H"; simp)+
  with j show "IsModified (link_at (length ces) ces j) \<longleftrightarrow> \<not> isFakeInserted (ces ! j) \<and> Operation (ces ! j) \<noteq> OpNone"
    "IsTouchedByNext (link_at (length ces) ces j) \<longleftrightarrow> touched_by (length ces) ces j" by (simp_all add: link_at_def Let_def)
qed

text \<open>The entry of a hot key, by its key.\<close>

lemma hot_at:
  assumes ces: "ces_ok L K ent H N act ces" and j: "j < length ces" and H: "key_at ces j \<in> H"
  shows "Operation (ces ! j) = (case act (key_at ces j) of None \<Rightarrow> OpNone | Some None \<Rightarrow> OpDelete | Some (Some _) \<Rightarrow> OpInsertOrChange)"
    "SerialNum (EntryPtr (ces ! j)) = (if key_at ces j \<in> K then SerialNum (ent (key_at ces j)) else -1)"
    "Value (EntryPtr (ces ! j)) = (case act (key_at ces j) of Some (Some v) \<Rightarrow> Some v
       | _ \<Rightarrow> if key_at ces j \<in> K then Value (ent (key_at ces j)) else None)"
    "Height (EntryPtr (ces ! j)) = (if key_at ces j \<in> K then Height (ent (key_at ces j)) else 0)"
    "NextKey (EntryPtr (ces ! j)) = (if key_at ces j \<in> K then NextKey (ent (key_at ces j)) else [])"
    "isFakeInserted (ces ! j) \<longleftrightarrow> key_at ces j \<notin> K \<and> (\<forall>v. act (key_at ces j) \<noteq> Some (Some v))"
    "key_at ces j \<in> K \<Longrightarrow> 0 \<le> SerialNum (ent (key_at ces j))"
proof -
  note C = ces_okD(1) [OF ces] and at = ces_at(2) [OF ces j H]
  show "key_at ces j \<in> K \<Longrightarrow> 0 \<le> SerialNum (ent (key_at ces j))" using C by (simp add: entries_ok_def)
qed (subst ces_at(2) [OF ces j H], simp only: hot_entry_fields [OF ces_okD(1) [OF ces]] hot_kinds(3) [OF ces_okD(1) [OF ces] H])+

lemma is_del_iff:
  assumes ces: "ces_ok L K ent H N act ces" and j: "j < length ces"
  shows "is_del (link_at (length ces) ces j) \<longleftrightarrow> key_at ces j \<in> deleted K H act"
proof (cases "key_at ces j \<in> H")
  case True
  note h = hot_at [OF ces j True]
  have "0 \<le> SerialNum (EntryPtr (ces ! j)) \<longleftrightarrow> key_at ces j \<in> K" using h(2,7) by auto
  with h(1,6) link_at_marks [OF ces j] True show ?thesis
    by (auto simp: is_del_def deleted_def split: option.splits)
next
  case False
  have "Operation (ces ! j) = OpNone" using ces_at(3) [OF ces j False] hint_fields(2) by metis
  with False show ?thesis by (simp add: is_del_def deleted_def)
qed

lemma is_put_iff:
  assumes ces: "ces_ok L K ent H N act ces" and j: "j < length ces"
  shows "is_put (link_at (length ces) ces j) \<longleftrightarrow>
    touched_by (length ces) ces j \<or> key_at ces j \<in> H \<and> (\<exists>v. act (key_at ces j) = Some (Some v))"
proof (cases "key_at ces j \<in> H")
  case True
  note h = hot_at [OF ces j True] and m = link_at_marks [OF ces j]
  have "touched_by (length ces) ces j \<Longrightarrow> key_at ces j \<notin> deleted K H act"
    using touched_kept(2) [OF ces j] True by (auto simp: inserted_def deleted_def)
  with is_del_iff [OF ces j] h(1,6) m True show ?thesis
    by (auto simp: is_put_def deleted_def split: option.splits)
next
  case False
  have "Operation (ces ! j) = OpNone" using ces_at(3) [OF ces j False] hint_fields(2) by metis
  moreover have "\<not> touched_by (length ces) ces j" using touched_kept(1) [OF ces j] False by blast
  ultimately show ?thesis using False link_at_marks [OF ces j] by (simp add: is_put_def)
qed


lemma links_ready:
  assumes ces: "ces_ok L K ent H N act ces" and h: "h \<in> set (links (length ces) ces)"
  shows "ready L ent K h"
proof -
  note C = ces_okD [OF ces]
  from h obtain j where j: "j < length ces" "h = link_at (length ces) ces j" unfolding links_set by blast
  have small: "small_entry L (ent k)" "Key (ent k) = k" if "k \<in> K" for k using that C(1) by (simp_all add: entries_ok_def)
  have klen: "length k \<le> L" if "k \<in> H \<union> N" for k
    using that C(2,5) small [of k] by (auto simp: small_entry_def)
  have hot: "key_at ces j \<in> H" if "is_put h \<or> is_del h"
    using that is_put_iff [OF ces j(1)] is_del_iff [OF ces j(1)] touched_kept(1) [OF ces j(1)] j(2) by (auto simp: deleted_def)
  have "if 0 \<le> SerialNum (EntryPtr h) then hkey_of h \<in> K \<and> SerialNum (ent (hkey_of h)) = SerialNum (EntryPtr h) else hkey_of h \<notin> K"
    if "is_put h \<or> is_del h"
    using hot_at(2,7) [OF ces j(1) hot [OF that]] j(2) by simp
  moreover have "small_entry L ((EntryPtr h)\<lparr>SerialNum := 0, LastHeight := 0\<rparr>)" if put: "is_put h"
  proof -
    let ?k = "key_at ces j"
    have H: "?k \<in> H" using hot put by blast
    note F = hot_at [OF ces j(1) H]
    have cases: "?k \<in> K \<or> relinked (length ces) ces j \<and> (\<exists>v. act ?k = Some (Some v))"
    proof (cases "?k \<in> K")
      case False
      have "\<not> touched_by (length ces) ces j" if "\<nexists>v. act ?k = Some (Some v)"
        using that touched_kept(2) [OF ces j(1)] False by (auto simp: inserted_def)
      with put is_put_iff [OF ces j(1)] j(2) have v: "\<exists>v. act ?k = Some (Some v)" by blast
      with H False have I: "?k \<in> inserted K H act" by (simp add: inserted_def)
      with ces_kinds [OF ces j(1)] j(1) v show ?thesis by (auto simp: relinked_def)
    qed blast
    have "\<exists>v. Value (EntryPtr h) = Some v \<and> length v \<le> L"
      using F(3) cases small(1) [of ?k] C(4) [of ?k] j(2) by (auto simp: small_entry_def split: option.splits)
    moreover have "in_int64 (Height (EntryPtr h))"
      using F(4) small(1) [of ?k] j(2) by (auto simp: small_entry_def in_int64_def)
    moreover have "length (NextKey (EntryPtr h)) \<le> L"
    proof (cases "relinked (length ces) ces j")
      case True
      note nx = relinked_next [OF ces j(1) True]
      let ?K' = "block_keys K H act"
      from True have "\<exists>m. next_live ces j = Some m"
      proof (cases "touched_by (length ces) ces j")
        case False
        with True have "is_event (ces ! j)" by (simp add: relinked_def)
        with ces_linkable [OF ces] j(1) show ?thesis by (auto simp: linkable_def)
      qed (use touched_kept(3) [OF ces j(1)] in blast)
      then obtain m where m: "next_live ces j = Some m" by blast
      then have "NextKey (EntryPtr h) = key_at ces m" using True j(2) by (simp add: link_at_def Let_def)
      with klen next_live_key(2) [OF ces j(1) m] show ?thesis by simp
    next
      case False
      then have "?k \<in> K" "NextKey (EntryPtr h) = NextKey (EntryPtr (ces ! j))" using cases j(2) by (auto simp: link_at_def Let_def)
      with F(5) small(1) [of ?k] show ?thesis by (simp add: small_entry_def)
    qed
    ultimately show ?thesis using klen [of ?k] H j(2) by (simp add: small_entry_def in_int64_def)
  qed
  ultimately show ?thesis unfolding ready_def by blast
qed

lemma put_keys_iff: "k \<in> put_keys ces \<longleftrightarrow> (\<exists>j < length ces. key_at ces j = k \<and> is_put (link_at (length ces) ces j))"
proof
  assume "k \<in> put_keys ces"
  then obtain h where h: "h \<in> set (links (length ces) ces)" "is_put h" "k = hkey_of h" unfolding put_keys_def by blast
  then show "\<exists>j < length ces. key_at ces j = k \<and> is_put (link_at (length ces) ces j)" unfolding links_set by auto
next
  assume "\<exists>j < length ces. key_at ces j = k \<and> is_put (link_at (length ces) ces j)"
  then obtain j where j: "j < length ces" "key_at ces j = k" "is_put (link_at (length ces) ces j)" by blast
  then have "link_at (length ces) ces j \<in> {h \<in> set (links (length ces) ces). is_put h}" unfolding links_set by blast
  then have "hkey_of (link_at (length ces) ces j) \<in> put_keys ces" unfolding put_keys_def by (rule imageI)
  then show "k \<in> put_keys ces" using j(2) by (simp only: link_at_fields)
qed

lemma put_keys_facts:
  assumes ces: "ces_ok L K ent H N act ces"
  shows "inserted K H act \<subseteq> put_keys ces" "put_keys ces \<subseteq> block_keys K H act"
    and "k \<in> H \<Longrightarrow> act k = Some (Some v) \<Longrightarrow> k \<in> put_keys ces"
    and "hkey_of ` {h \<in> set (links (length ces) ces). is_del h} = deleted K H act"
proof -
  have ex: "\<exists>j < length ces. key_at ces j = k" if "k \<in> H" for k using ces_index [OF ces, of k] that by blast
  show set: "k \<in> put_keys ces" if "k \<in> H" "act k = Some (Some v)" for k v
  proof -
    from ex [OF that(1)] obtain j where "j < length ces" "key_at ces j = k" by blast
    with that is_put_iff [OF ces] show ?thesis unfolding put_keys_iff by blast
  qed
  show "inserted K H act \<subseteq> put_keys ces" using set by (auto simp: inserted_def)
  show "put_keys ces \<subseteq> block_keys K H act"
  proof
    fix k assume "k \<in> put_keys ces"
    then obtain j where j: "j < length ces" "key_at ces j = k" "is_put (link_at (length ces) ces j)" unfolding put_keys_iff by blast
    then consider "touched_by (length ces) ces j" | v where "k \<in> H" "act k = Some (Some v)" using is_put_iff [OF ces j(1)] by blast
    then show "k \<in> block_keys K H act"
      by cases (use touched_kept(2) [OF ces j(1)] j(2) in blast, auto simp: inserted_def deleted_def)
  qed
  show "hkey_of ` {h \<in> set (links (length ces) ces). is_del h} = deleted K H act"
  proof (intro equalityI subsetI)
    fix k assume "k \<in> hkey_of ` {h \<in> set (links (length ces) ces). is_del h}"
    then obtain h where "h \<in> set (links (length ces) ces)" "is_del h" "k = hkey_of h" by blast
    with is_del_iff [OF ces] show "k \<in> deleted K H act" unfolding links_set by auto
  next
    fix k assume k: "k \<in> deleted K H act"
    then have "k \<in> H" by (simp add: deleted_def)
    from ex [OF this] obtain j where j: "j < length ces" "key_at ces j = k" by blast
    with k is_del_iff [OF ces j(1)] have "link_at (length ces) ces j \<in> {h \<in> set (links (length ces) ces). is_del h}"
      unfolding links_set by blast
    from imageI [OF this, of hkey_of] show "k \<in> hkey_of ` {h \<in> set (links (length ces) ces). is_del h}"
      using j(2) by (simp only: link_at_fields)
  qed
qed

text \<open>The entries after the block: linked, and with the values that the operations gave.\<close>

lemma written_entries:
  assumes ces: "ces_ok L K ent H N act ces"
    and same: "\<And>k. k \<notin> put_keys ces \<Longrightarrow> ent' k = ent k"
    and wr: "\<And>h. h \<in> set (links (length ces) ces) \<Longrightarrow> is_put h \<Longrightarrow> written L h (ent' (hkey_of h))"
    and k: "k \<in> block_keys K H act"
  shows "small_entry L (ent' k)" "NextKey (ent' k) = next_key (block_keys K H act) k"
    and "Value (ent' k) = (if k \<in> H then case act k of Some (Some v) \<Rightarrow> Some v | _ \<Rightarrow> Value (ent k) else Value (ent k))"
proof -
  note C = ces_okD [OF ces]
  have "small_entry L (ent' k) \<and> NextKey (ent' k) = next_key (block_keys K H act) k \<and>
    Value (ent' k) = (if k \<in> H then case act k of Some (Some v) \<Rightarrow> Some v | _ \<Rightarrow> Value (ent k) else Value (ent k))"
  proof (cases "k \<in> put_keys ces")
    case True
    then obtain j where j: "j < length ces" "key_at ces j = k" "is_put (link_at (length ces) ces j)" unfolding put_keys_iff by blast
    have "link_at (length ces) ces j \<in> set (links (length ces) ces)" using j(1) links_set by blast
    from wr [OF this j(3)] have "written L (link_at (length ces) ces j) (ent' (hkey_of (link_at (length ces) ces j)))" .
    then have w: "Value (ent' k) = Value (EntryPtr (ces ! j))" "NextKey (ent' k) = NextKey (EntryPtr (link_at (length ces) ces j))"
      "small_entry L (ent' k)" using j(2) by (simp_all add: written_def)
    have H: "k \<in> H" using is_put_iff [OF ces j(1)] touched_kept(1) [OF ces j(1)] j by blast
    note F = hot_at [OF ces j(1)] j(2)
    have "NextKey (ent' k) = next_key (block_keys K H act) k"
    proof (cases "relinked (length ces) ces j")
      case True
      with relinked_next(2) [OF ces j(1)] w(2) j(2) show ?thesis by simp
    next
      case False
      have K: "k \<in> K"
      proof (rule ccontr)
        assume nK: "k \<notin> K"
        with k have "k \<in> inserted K H act" by blast
        with nK False j ces_kinds [OF ces j(1)] show False unfolding relinked_def by blast
      qed
      have "\<not> touched_by (length ces) ces i" if "i < length ces" "key_at ces i = k" for i
      proof -
        have "i = j" using that j(1,2) ces_less [OF ces that(1) j(1)] ces_less [OF ces j(1) that(1)] by (metis less_irrefl linorder_neqE_nat)
        with False show ?thesis by (simp add: relinked_def)
      qed
      from untouched_next [OF ces K k this] F(5) H K False w(2) j(2) show ?thesis by (simp add: link_at_def Let_def)
    qed
    moreover have "Value (ent' k) = (case act k of Some (Some v) \<Rightarrow> Some v | _ \<Rightarrow> Value (ent k))"
      using F(3) H w(1) k j(2) by (auto simp: inserted_def split: option.splits)
    ultimately show ?thesis using w(3) H by simp
  next
    case False
    then have K: "k \<in> K" using k put_keys_facts(1) [OF ces] by blast
    have "\<not> touched_by (length ces) ces j" if "j < length ces" "key_at ces j = k" for j
      using False that is_put_iff [OF ces that(1)] unfolding put_keys_iff by blast
    from untouched_next [OF ces K k this] have nk: "NextKey (ent k) = next_key (block_keys K H act) k" by simp
    have "small_entry L (ent k)" using K C(1) by (simp add: entries_ok_def)
    moreover have "\<forall>v. k \<in> H \<longrightarrow> act k \<noteq> Some (Some v)" using False put_keys_facts(3) [OF ces] by blast
    then have "Value (ent k) = (if k \<in> H then case act k of Some (Some v) \<Rightarrow> Some v | _ \<Rightarrow> Value (ent k) else Value (ent k))"
      by (auto split: option.split)
    ultimately show ?thesis using nk same [OF False] by simp
  qed
  then show "small_entry L (ent' k)" "NextKey (ent' k) = next_key (block_keys K H act) k"
    "Value (ent' k) = (if k \<in> H then case act k of Some (Some v) \<Rightarrow> Some v | _ \<Rightarrow> Value (ent k) else Value (ent k))" by blast+
qed

end
