(* ===== verification/OnvaEnd.thy ===== *)
theory OnvaEnd
  imports OnvaUpdate
begin

text \<open>
  A whole block of the store, from the laws of the two trees: it returns, keeps the invariant, and
  changes the abstract map as its operations say; and what the invariant gives to the readers.
\<close>

section \<open>The hot entries at the end of a block\<close>

lemma hot_form_get:
  assumes "hot_form K ent H act he"
  shows "dom (bm_get he) = H" and "bm_get he k = Some h \<longleftrightarrow> k \<in> H \<and> h = Some (hot_entry K ent act k)"
  using assms by (auto simp: hot_form_def dom_def)

lemma hot_form_keyed:
  assumes "hot_form K ent H act he" and "entries_ok L K ent"
  shows "keyed he" and "hot_hint he nk = hot_entry K ent act ` H \<union> makeHintHotEntry ` (dom (bm_get nk) - H)"
proof -
  note g = hot_form_get [OF assms(1)]
  show "keyed he" using g(2) hot_entry_fields(1) [OF assms(2)] by (auto simp: keyed_def)
  have "{k. bm_get nk k \<noteq> None \<and> bm_get he k = None} = dom (bm_get nk) - H" using g(1) by (auto simp: dom_def)
  moreover have "{h. \<exists>k. bm_get he k = Some (Some h)} = hot_entry K ent act ` H" using g(2) by auto
  ultimately show "hot_hint he nk = hot_entry K ent act ` H \<union> makeHintHotEntry ` (dom (bm_get nk) - H)"
    by (simp add: hot_hint_def)
qed

text \<open>The operations of a block as a function.\<close>

lemma ops_facts:
  assumes "block_pre L s e preps ops"
  shows "p \<in> set preps \<Longrightarrow> s < prepare_key p \<and> prepare_key p < e \<and> length (prepare_key p) \<le> L" "distinct (map fst ops)"
    and "map_of ops k = Some (Some v) \<Longrightarrow> ForUpdate k \<in> set preps \<and> length v \<le> L"
    and "map_of ops k = Some None \<Longrightarrow> ForDeletion k \<in> set preps"
proof -
  have ops: "case snd kv of Some b \<Rightarrow> ForUpdate (fst kv) \<in> set preps \<and> length b \<le> L | None \<Rightarrow> ForDeletion (fst kv) \<in> set preps"
    if "kv \<in> set ops" for kv
    using assms that unfolding block_pre_def by (auto split: prod.splits)
  show "map_of ops k = Some (Some v) \<Longrightarrow> ForUpdate k \<in> set preps \<and> length v \<le> L"
    using ops [OF map_of_SomeD, of k "Some v"] by simp
  show "map_of ops k = Some None \<Longrightarrow> ForDeletion k \<in> set preps"
    using ops [OF map_of_SomeD, of k None] by simp
qed (use assms in \<open>auto simp: block_pre_def\<close>)

lemma hot_covers:
  assumes hot: "hot_ok K ent he nk (set preps)" and K: "finite K" and pre: "block_pre L s e preps ops"
  defines "H \<equiv> dom (bm_get he)" and "N \<equiv> dom (bm_get nk)"
  shows "covers K H (H \<union> N) (inserted K H (map_of ops)) (deleted K H (map_of ops))"
    "finite (H \<union> N)" "card (H \<union> N) \<le> card K + length preps" "k \<in> H \<Longrightarrow> k \<in> K \<or> k \<in> prepare_key ` set preps"
proof -
  note D = hot_okD [OF hot, folded H_def N_def] and O = ops_facts [OF pre]
  have sub: "H \<union> N \<subseteq> K \<union> prepare_key ` set preps" using D(3,4) by blast
  have fin: "finite (K \<union> prepare_key ` set preps)" using K by simp
  show finC: "finite (H \<union> N)" by (rule finite_subset [OF sub fin])
  show "k \<in> H \<Longrightarrow> k \<in> K \<or> k \<in> prepare_key ` set preps" using sub by blast
  have "card (H \<union> N) \<le> card (K \<union> prepare_key ` set preps)" by (rule card_mono [OF fin sub])
  also have "\<dots> \<le> card K + card (prepare_key ` set preps)" by (rule card_Un_le)
  also have "card (prepare_key ` set preps) \<le> length preps"
    using card_image_le [OF finite_set, of prepare_key preps] card_length [of preps] by linarith
  finally show "card (H \<union> N) \<le> card K + length preps" by simp
  have "around K H N x" if "x \<in> inserted K H (map_of ops) \<union> deleted K H (map_of ops)" for x
  proof (cases "x \<in> inserted K H (map_of ops)")
    case True
    then show ?thesis using D(6) [of x] by (auto simp: inserted_def)
  next
    case False
    with that have "x \<in> K" "map_of ops x = Some None" by (auto simp: deleted_def)
    with O(4) [of x] D(8) [of x] show ?thesis by blast
  qed
  then have "\<forall>x \<in> inserted K H (map_of ops) \<union> deleted K H (map_of ops).
      (\<exists>p \<in> K \<inter> H. p < x \<and> (\<forall>z \<in> K. z < x \<longrightarrow> z \<le> p)) \<and> (\<exists>s \<in> K \<inter> (H \<union> N). x < s \<and> (\<forall>z \<in> K. x < z \<longrightarrow> s \<le> z))"
    unfolding around_def by blast
  then show "covers K H (H \<union> N) (inserted K H (map_of ops)) (deleted K H (map_of ops))"
    using K finC unfolding covers_def by (auto simp: inserted_def deleted_def)
qed

lemma card_new_keys:
  assumes "finite K" and "I \<subseteq> prepare_key ` set preps"
  shows "card (new_keys K I Dl) \<le> card K + length preps"
proof -
  have fin: "finite (K \<union> prepare_key ` set preps)" using assms by simp
  have "new_keys K I Dl \<subseteq> K \<union> prepare_key ` set preps" using assms(2) by blast
  from card_mono [OF fin this] card_Un_le [of K "prepare_key ` set preps"]
    card_image_le [OF finite_set, of prepare_key preps] card_length [of preps] show ?thesis by linarith
qed

text \<open>The new keys and values, as the operations say.\<close>

lemma block_values:
  assumes H: "\<And>k. ForUpdate k \<in> set preps \<Longrightarrow> k \<in> H" "\<And>k. k \<in> K \<Longrightarrow> ForDeletion k \<in> set preps \<Longrightarrow> k \<in> H"
    and pre: "block_pre L s e preps ops"
    and val: "\<And>k. k \<in> block_keys K H (map_of ops) \<Longrightarrow> Value (ent' k) =
      (if k \<in> H then case map_of ops k of Some (Some v) \<Rightarrow> Some v | _ \<Rightarrow> Value (ent k) else Value (ent k))"
  shows "value_map (block_keys K H (map_of ops)) ent' = apply_ops ops (value_map K ent)"
proof
  fix k
  note O = ops_facts [OF pre]
  let ?act = "map_of ops" and ?K' = "block_keys K H (map_of ops)"
  have rhs: "apply_ops ops (value_map K ent) k = (case ?act k of None \<Rightarrow> value_map K ent k | Some v \<Rightarrow> v)"
    by (rule apply_ops_map_of [OF O(2)])
  consider (none) "?act k = None" | (del) "?act k = Some None" | (put) v where "?act k = Some (Some v)"
    by (cases "?act k"; auto)
  then show "value_map ?K' ent' k = apply_ops ops (value_map K ent) k"
  proof cases
    case none
    then have "k \<in> ?K' \<longleftrightarrow> k \<in> K" by (auto simp: inserted_def deleted_def)
    with none val [of k] rhs show ?thesis by (simp add: value_map_def)
  next
    case del
    then have "k \<notin> ?K'" using O(4) [OF del] H(2) by (auto simp: inserted_def deleted_def)
    with del rhs show ?thesis by (auto simp: value_map_def)
  next
    case put
    then have "k \<in> H" "k \<in> ?K'" using O(3) [OF put] H(1) by (auto simp: inserted_def deleted_def)
    with put val [of k] rhs show ?thesis by (simp add: value_map_def)
  qed
qed


section \<open>The phases of the end of a block\<close>

lemma reapTwigs_none: "\<not> reapNeeded I okv \<Longrightarrow> reapTwigs I D okv = Some (Inr okv)"
  by (subst reapTwigs.simps) simp

lemma NewBucketMap_fields [simp]: "okv\<lparr>k2heMap := k2heMap okv, k2nkMap := k2nkMap okv\<rparr> = okv"
  by simp

context store
begin

abbreviation "sok \<equiv> store_ok L N0 items writing ok settled pending holds"

lemma sokD:
  assumes "sok n ent okv"
  shows "rok n ent okv" "linked_keys L (startKey okv) (endKey okv) (index_keys items okv) ent" "N0 \<le> n"
    "pending (datTree okv) \<le> 64" "md_maxSerialNum (meta okv) = int n" "k2heMap okv = NewBucketMap" "k2nkMap okv = NewBucketMap"
    "tempEntries64 okv = replicate 64 []" "entries_ok L (index_keys items okv) ent"
proof -
  have all: "rok n ent okv \<and> linked_keys L (startKey okv) (endKey okv) (index_keys items okv) ent \<and> N0 \<le> n \<and>
    pending (datTree okv) \<le> 64 \<and> md_maxSerialNum (meta okv) = int n \<and> k2heMap okv = NewBucketMap \<and> k2nkMap okv = NewBucketMap \<and>
    tempEntries64 okv = replicate 64 []"
    using assms by (simp add: store_ok_def)
  then show "rok n ent okv" "linked_keys L (startKey okv) (endKey okv) (index_keys items okv) ent" "N0 \<le> n"
    "pending (datTree okv) \<le> 64" "md_maxSerialNum (meta okv) = int n" "k2heMap okv = NewBucketMap" "k2nkMap okv = NewBucketMap"
    "tempEntries64 okv = replicate 64 []" by blast+
  have eo: "ents_ok holds (datTree okv) (items (idxTree okv)) n ent (index_keys items okv)" using all by (simp add: read_ok_def)
  have lk: "linked_keys L (startKey okv) (endKey okv) (index_keys items okv) ent" using all by blast
  show "entries_ok L (index_keys items okv) ent"
    unfolding entries_ok_def using ents_okD(2,3) [OF eo] linked_keysD(8,9) [OF lk] by blast
qed

text \<open>\<open>update\<close> over the collected hot entries.\<close>

lemma update_ok:
  assumes wok: "wok n ent K okv" and dom: "index_keys items okv = K" and ents: "entries_ok L K ent"
    and he: "bm_ok (k2heMap okv)" "hot_form K ent H act (k2heMap okv)" and nk: "bm_ok (k2nkMap okv)"
    and N: "dom (bm_get (k2nkMap okv)) = N" "N \<subseteq> K" and cov: "covers K H (H \<union> N) (inserted K H act) (deleted K H act)"
    and len: "\<And>k v. act k = Some (Some v) \<Longrightarrow> length v \<le> L" "\<And>k. k \<in> H \<Longrightarrow> length k \<le> L"
    and temps: "tempEntries64 okv = replicate 64 []" and room: "room (n + 2 * card (H \<union> N))" and ht: "in_int64 (md_currHeight (meta okv))"
  shows "\<exists>okv' n' ent' temps. update I D okv = Inr okv' \<and> n \<le> n' \<and> n' \<le> n + 2 * card (H \<union> N) \<and> length temps = 64 \<and>
    write_keeps (okv\<lparr>tempEntries64 := temps\<rparr>) okv' \<and> wok n' ent' (block_keys K H act) okv' \<and> index_keys items okv' = block_keys K H act \<and>
    (\<forall>k \<in> block_keys K H act. small_entry L (ent' k) \<and> NextKey (ent' k) = next_key (block_keys K H act) k \<and>
       Value (ent' k) = (if k \<in> H then case act k of Some (Some v) \<Rightarrow> Some v | _ \<Rightarrow> Value (ent k) else Value (ent k)))"
proof -
  from collect_ok [OF he(1) hot_form_keyed(1) [OF he(2) ents] nk] obtain temps where
    t: "foldE (\<lambda>idx temps. bindE (bucketEntries (k2heMap okv) (k2nkMap okv) idx (temps ! idx)) (\<lambda>es. Inr (temps[idx := es])))
      [0 ..< 64] (replicate 64 []) = Inr temps" "length temps = 64"
    "set (concat temps) = hot_hint (k2heMap okv) (k2nkMap okv)" "sorted_wrt (<) (map hkey_of (concat temps))" by blast
  let ?ces = "concat temps" and ?K' = "block_keys K H act"
  have set: "set ?ces = hot_entry K ent act ` H \<union> makeHintHotEntry ` (N - H)"
    using t(3) hot_form_keyed(2) [OF he(2) ents, of "k2nkMap okv"] N(1) by simp
  have ces: "ces_ok L K ent H N act ?ces"
    unfolding ces_ok_def using ents N(2) cov len t(4) set by blast
  let ?hs = "links (length ?ces) ?ces" and ?okv = "okv\<lparr>tempEntries64 := temps, cachedEntries := links (length (concat temps)) (concat temps)\<rparr>"
  have link: "linkEntries ?ces = Inr ?hs" by (rule linkEntries_eq [OF ces_linkable [OF ces]])
  have "hkey_of ` set ?ces \<subseteq> H \<union> N"
    unfolding set using hot_entry_fields(1) [OF ents] by (auto simp: image_iff)
  moreover have keys: "map hkey_of ?hs = map hkey_of ?ces" by (rule nth_equalityI) simp_all
  moreover have dist: "distinct (map hkey_of ?ces)" using t(4) by (simp add: strict_sorted_iff)
  moreover have "finite (H \<union> N)" using coversD(9) [OF cov] .
  ultimately have lenc: "length ?ces \<le> card (H \<union> N)" "distinct (map hkey_of ?hs)"
    using distinct_card [OF dist] card_mono [of "H \<union> N" "hkey_of ` set ?ces"] by simp_all
  have wok3: "wok n ent K ?okv" "index_keys items ?okv = K" "in_int64 (md_currHeight (meta ?okv))"
    using wok dom ht by (simp_all add: write_ok_def)
  have rd: "\<forall>h \<in> set ?hs. ready L ent K h" using links_ready [OF ces] by blast
  have room': "room (n + 2 * length ?hs)" using room lenc(1) by (auto intro: room_mono)
  from storeEntries [OF wok3(1,2) rd lenc(2) room' wok3(3), unfolded Let_def] obtain okv' n' ent' where
    o: "foldE (storeEntry I D) ?hs ?okv = Inr okv'" "n \<le> n'" "n' \<le> n + 2 * length ?hs" "write_keeps ?okv okv'"
    "wok n' ent' (K - hkey_of ` {h \<in> set ?hs. is_del h} \<union> hkey_of ` {h \<in> set ?hs. is_put h}) okv'"
    "index_keys items okv' = K - hkey_of ` {h \<in> set ?hs. is_del h} \<union> hkey_of ` {h \<in> set ?hs. is_put h}"
    "\<forall>x. (\<forall>h \<in> set ?hs. is_put h \<longrightarrow> x \<noteq> hkey_of h) \<longrightarrow> ent' x = ent x"
    "\<forall>h \<in> set ?hs. is_put h \<longrightarrow> written L h (ent' (hkey_of h))" by (elim exE conjE) (rule that)
  note P = put_keys_facts [OF ces]
  have K': "K - hkey_of ` {h \<in> set ?hs. is_del h} \<union> hkey_of ` {h \<in> set ?hs. is_put h} = ?K'"
    using P(1,2,4) unfolding put_keys_def by blast
  have same: "ent' k = ent k" if "k \<notin> put_keys ?ces" for k
    by (rule o(7) [rule_format]) (use that in \<open>unfold put_keys_def, blast\<close>)
  have res: "small_entry L (ent' k) \<and> NextKey (ent' k) = next_key ?K' k \<and>
       Value (ent' k) = (if k \<in> H then case act k of Some (Some v) \<Rightarrow> Some v | _ \<Rightarrow> Value (ent k) else Value (ent k))"
    if "k \<in> ?K'" for k
    using written_entries [OF ces same o(8) [rule_format] that] by blast
  have upd: "update I D okv = Inr okv'" using t(1) temps link o(1) by (simp add: update_def)
  have keeps: "write_keeps (okv\<lparr>tempEntries64 := temps\<rparr>) okv'" using o(4) by (simp add: write_keeps_def)
  have bound: "n' \<le> n + 2 * card (H \<union> N)" using o(3) lenc(1) by simp
  have w: "wok n' ent' ?K' okv'" "index_keys items okv' = ?K'" using o(5,6) unfolding K' by blast+
  show ?thesis
    by (intro exI [of _ okv'] exI [of _ n'] exI [of _ ent'] exI [of _ temps])
      (use upd o(2) bound t(2) keeps w res in blast)
qed


text \<open>The rest of \<open>EndWrite\<close>: the Merkle tree is synchronized and the batch is written.\<close>

lemma finishBlock_ok:
  assumes wok: "wok n ent K okv" and dom: "index_keys items okv = K" and N0: "N0 \<le> n" and t: "length (tempEntries64 okv) = 64"
    and lk: "linked_keys L (startKey okv) (endKey okv) K ent"
  shows "\<exists>okv'. finishBlock E I D okv = Inr okv' \<and> sok n ent okv' \<and> index_keys items okv' = K \<and>
    startKey okv' = startKey okv \<and> endKey okv' = endKey okv \<and> md_currHeight (meta okv') = md_currHeight (meta okv)"
proof -
  note W = wok [unfolded write_ok_def]
  from W N0 end_block [of n "datTree okv"] obtain root d where d: "dt_EndBlock D (datTree okv) = Inr (root, d)" "ok n d" "settled d"
    "pending d = pending (datTree okv)" "\<And>p x. holds (datTree okv) p x \<Longrightarrow> holds d p x" by blast
  from W end_write [of "idxTree okv"] obtain i where i: "ix_EndWrite I (idxTree okv) = Inr i"
    "items i = items (idxTree okv)" "writing False i" by blast
  from W obtain b where b: "batch (rocksdb okv) = Some b" by blast
  obtain eS tS where sz: "dt_GetFileSizes D d = (eS, tS)" by fastforce
  obtain r where r: "bindE (SetEntryFileSize (int eS) (rocksdb okv)) (\<lambda>r. bindE (SetTwigMtFileSize (int tS) r) (MetaDB_Commit (meta okv))) = Inr r"
    using b by (auto simp: SetEntryFileSize_def SetTwigMtFileSize_def MetaDB_Commit_def)
  let ?okv = "okv\<lparr>datTree := d, rootHash := root, k2heMap := NewBucketMap, k2nkMap := NewBucketMap,
    tempEntries64 := map (\<lambda>_. []) (tempEntries64 okv), idxTree := i, rocksdb := CloseOldBatch E r\<rparr>"
  have fin: "finishBlock E I D okv = Inr ?okv"
    using d(1) i(1) sz r b
    by (simp add: finishBlock_def Let_def SetEntryFileSize_def SetTwigMtFileSize_def MetaDB_Commit_def)
  have eo: "ents_ok holds (datTree okv) (items (idxTree okv)) n ent K" using W by blast
  have "ents_ok holds d (items i) n ent K" unfolding i(2) by (rule ents_ok_mono [OF eo]) (use d(5) in auto)
  then have "rok n ent ?okv" using W d i dom by (simp add: read_ok_def)
  moreover have "index_keys items ?okv = K" using i(2) dom by simp
  moreover have "map (\<lambda>_. []) (tempEntries64 okv) = replicate 64 []" using t by (simp add: map_replicate_const)
  ultimately have "sok n ent ?okv" using lk N0 W d(4) by (simp add: store_ok_def)
  with fin dom i(2) show ?thesis by (intro exI [of _ ?okv]) simp
qed

text \<open>The phases before \<open>EndWrite\<close>.\<close>

lemma begin_block_ok:
  assumes sok: "sok n ent okv" and pre: "block_pre L (startKey okv) (endKey okv) preps ops"
  shows "\<exists>i he nk. bindE (foldE (run_prepare I D) preps okv) (\<lambda>okv. bindE (okv_BeginWrite I h okv) (foldE run_op ops)) =
      Inr (okv\<lparr>k2heMap := he, k2nkMap := nk, rocksdb := OpenNewBatch (rocksdb okv), idxTree := i, meta := SetCurrHeight h (meta okv)\<rparr>) \<and>
    items i = items (idxTree okv) \<and> writing True i \<and> bm_ok he \<and> bm_ok nk \<and>
    (\<exists>he0. hot_ok (index_keys items okv) ent he0 nk (set preps) \<and>
       hot_form (index_keys items okv) ent (dom (bm_get he0)) (map_of ops) he)"
proof -
  note S = sokD [OF sok] and O = ops_facts [OF pre]
  let ?K = "index_keys items okv"
  have hot0: "hot_ok ?K ent (k2heMap okv) (k2nkMap okv) {}" using S(6,7) by simp
  have keys: "\<forall>p \<in> set preps. startKey okv < prepare_key p \<and> prepare_key p < endKey okv" using O(1) by blast
  from prepares_ok [OF S(1,2) keys hot0] obtain he0 nk where p: "foldE (run_prepare I D) preps okv = Inr (okv\<lparr>k2heMap := he0, k2nkMap := nk\<rparr>)"
    "hot_ok ?K ent he0 nk (set preps)" by auto
  have "writing False (idxTree okv)" using S(1) by (simp add: read_ok_def)
  from begin_write [OF this, of h] obtain i where i: "ix_BeginWrite I h (idxTree okv) = Inr i" "items i = items (idxTree okv)" "writing True i"
    by blast
  let ?okv = "okv\<lparr>k2heMap := he0, k2nkMap := nk, rocksdb := OpenNewBatch (rocksdb okv), idxTree := i, meta := SetCurrHeight h (meta okv)\<rparr>"
  have bw: "okv_BeginWrite I h (okv\<lparr>k2heMap := he0, k2nkMap := nk\<rparr>) = Inr ?okv" using i(1) by (simp add: okv_BeginWrite_def)
  note hot = hot_okD [OF p(2)]
  have ops: "\<forall>kv \<in> set ops. fst kv \<noteq> [] \<and> (snd kv \<noteq> None \<longrightarrow> fst kv \<in> dom (bm_get he0))"
  proof
    fix kv assume "kv \<in> set ops"
    then have m: "map_of ops (fst kv) = Some (snd kv)" using O(2) by (simp add: map_of_is_SomeI)
    have "fst kv \<in> prepare_key ` set preps \<and> (snd kv \<noteq> None \<longrightarrow> fst kv \<in> dom (bm_get he0))"
    proof (cases "snd kv")
      case None
      with m O(4) [of "fst kv"] show ?thesis by force
    next
      case (Some v)
      with m O(3) [of "fst kv" v] hot(7) [of "fst kv"] show ?thesis by force
    qed
    moreover have "[] \<notin> prepare_key ` set preps" using keys by force
    ultimately show "fst kv \<noteq> [] \<and> (snd kv \<noteq> None \<longrightarrow> fst kv \<in> dom (bm_get he0))" by metis
  qed
  have free: "\<forall>k \<in> fst ` set ops. (Map.empty :: bytes \<rightharpoonup> bytes option) k = None" by simp
  have upd: "?okv\<lparr>k2heMap := he0\<rparr> = ?okv" "Map.empty ++ map_of ops = map_of ops" by simp_all
  from run_ops_ok [OF hot(1) hot_form_init [OF p(2)] O(2) ops free, of ?okv, unfolded upd] obtain he where he:
    "foldE run_op ops ?okv = Inr (?okv\<lparr>k2heMap := he\<rparr>)" "bm_ok he" "hot_form ?K ent (dom (bm_get he0)) (map_of ops) he" by blast
  have "?okv\<lparr>k2heMap := he\<rparr> =
    okv\<lparr>k2heMap := he, k2nkMap := nk, rocksdb := OpenNewBatch (rocksdb okv), idxTree := i, meta := SetCurrHeight h (meta okv)\<rparr>" by simp
  then show ?thesis using p bw he i hot(2) by (intro exI [of _ i] exI [of _ he] exI [of _ nk]) auto
qed

text \<open>
  A block over at most 10000 keys returns, keeps the invariant and the guards, and changes the abstract
  map by its operations.
\<close>

theorem block_ok:
  assumes sok: "sok n ent okv" and pre: "block_pre L (startKey okv) (endKey okv) preps ops" and ht: "in_int64 h"
    and room: "room (n + 2 * (card (index_keys items okv) + length preps))" and small: "card (index_keys items okv) + length preps \<le> 10000"
  shows "\<exists>okv' n' ent'. run_block E I D h preps ops okv = Some (Inr okv') \<and> sok n' ent' okv' \<and>
    value_map (index_keys items okv') ent' = apply_ops ops (value_map (index_keys items okv) ent) \<and>
    startKey okv' = startKey okv \<and> endKey okv' = endKey okv \<and> md_currHeight (meta okv') = h \<and>
    n' \<le> n + 2 * (card (index_keys items okv) + length preps) \<and>
    index_keys items okv' \<subseteq> index_keys items okv \<union> prepare_key ` set preps"
proof -
  note S = sokD [OF sok] and O = ops_facts [OF pre]
  note lk = linked_keysD [OF S(2)]
  let ?K = "index_keys items okv"
  from begin_block_ok [OF sok pre, of h] obtain i he nk he0 where
    b: "bindE (foldE (run_prepare I D) preps okv) (\<lambda>okv. bindE (okv_BeginWrite I h okv) (foldE run_op ops)) =
      Inr (okv\<lparr>k2heMap := he, k2nkMap := nk, rocksdb := OpenNewBatch (rocksdb okv), idxTree := i, meta := SetCurrHeight h (meta okv)\<rparr>)"
      (is "_ = Inr ?okv1")
    and i: "items i = items (idxTree okv)" "writing True i" and bm: "bm_ok he" "bm_ok nk"
    and hot: "hot_ok ?K ent he0 nk (set preps)" and form: "hot_form ?K ent (dom (bm_get he0)) (map_of ops) he" by blast
  let ?H = "dom (bm_get he0)" and ?N = "dom (bm_get nk)" and ?act = "map_of ops"
  let ?K' = "block_keys ?K ?H ?act"
  note C = hot_covers [OF hot lk(1) pre] and D = hot_okD [OF hot]
  have wok: "wok n ent ?K ?okv1"
    using S(1,4,5) i by (simp add: write_ok_def read_ok_def OpenNewBatch_def SetCurrHeight_def)
  have dom: "index_keys items ?okv1 = ?K" using i(1) by simp
  have len: "length v \<le> L" if "?act k = Some (Some v)" for k v using O(3) [OF that] by blast
  have len': "length k \<le> L" if "k \<in> ?H" for k
    using C(4) [OF that] O(1) lk(8) [of k] read_ok_Key [OF S(1), of k] by (auto simp: small_entry_def)
  have room1: "room (n + 2 * card (?H \<union> ?N))" using room C(3) by (auto intro: room_mono)
  have upd: "\<exists>okv' n' ent' temps. update I D ?okv1 = Inr okv' \<and> n \<le> n' \<and> n' \<le> n + 2 * card (?H \<union> ?N) \<and> length temps = 64 \<and>
    write_keeps (?okv1\<lparr>tempEntries64 := temps\<rparr>) okv' \<and> wok n' ent' ?K' okv' \<and> index_keys items okv' = ?K' \<and>
    (\<forall>k \<in> ?K'. small_entry L (ent' k) \<and> NextKey (ent' k) = next_key ?K' k \<and>
       Value (ent' k) = (if k \<in> ?H then case ?act k of Some (Some v) \<Rightarrow> Some v | _ \<Rightarrow> Value (ent k) else Value (ent k)))"
    by (rule update_ok [OF wok dom S(9)]) (use bm form D(3) C(1) len len' room1 S(8) ht in \<open>simp_all add: SetCurrHeight_def\<close>)
  then obtain okv2 n' ent' temps where u: "update I D ?okv1 = Inr okv2" "n \<le> n'" "n' \<le> n + 2 * card (?H \<union> ?N)" "length temps = 64"
    "write_keeps (?okv1\<lparr>tempEntries64 := temps\<rparr>) okv2" "wok n' ent' ?K' okv2" "index_keys items okv2 = ?K'"
    "\<And>k. k \<in> ?K' \<Longrightarrow> small_entry L (ent' k) \<and> NextKey (ent' k) = next_key ?K' k \<and>
       Value (ent' k) = (if k \<in> ?H then case ?act k of Some (Some v) \<Rightarrow> Some v | _ \<Rightarrow> Value (ent k) else Value (ent k))" by blast
  have ID: "inserted ?K ?H ?act \<subseteq> prepare_key ` set preps" "deleted ?K ?H ?act \<subseteq> prepare_key ` set preps"
    using O(3,4) unfolding inserted_def deleted_def by force+
  have "length (items (idxTree okv2)) = card ?K'"
    using bt.count [of "items (idxTree okv2)"] u(6,7) by (simp add: write_ok_def)
  then have "\<not> reapNeeded I okv2"
    using card_new_keys [OF lk(1) ID(1), of "deleted ?K ?H ?act"] small by (simp add: reapNeeded_def count StartReapThres_def)
  note reap = reapTwigs_none [OF this]
  have keep: "startKey okv2 = startKey okv" "endKey okv2 = endKey okv" "md_currHeight (meta okv2) = h" "tempEntries64 okv2 = temps"
    using u(5) by (simp_all add: write_keeps_def SetCurrHeight_def)
  have "linked_keys L (startKey okv2) (endKey okv2) ?K' ent'"
    unfolding linked_keys_def
  proof (intro conjI ballI)
    have between: "startKey okv < k \<and> k < endKey okv" if "k \<in> inserted ?K ?H ?act \<union> deleted ?K ?H ?act" for k
      using that ID O(1) by blast
    show "finite ?K'" using lk(1) finite_subset [OF ID(1)] by simp
    show "startKey okv2 \<noteq> []" using lk(5) keep(1) by simp
    show "startKey okv2 \<in> ?K'" "endKey okv2 \<in> ?K'" using lk(2,3) between [of "startKey okv"] between [of "endKey okv"] keep(1,2) by auto
    fix k assume k: "k \<in> ?K'"
    then have "startKey okv \<le> k \<and> k \<le> endKey okv" using lk(6,7) [of k] between [of k] by (auto simp: less_imp_le)
    then show "startKey okv2 \<le> k" "k \<le> endKey okv2" using keep(1,2) by simp_all
    show "small_entry L (ent' k)" "NextKey (ent' k) = next_key ?K' k" using u(8) [OF k] by blast+
  qed
  from finishBlock_ok [OF u(6,7) _ _ this, of E] u(2,4) S(3) keep(4) obtain okv' where
    f: "finishBlock E I D okv2 = Inr okv'" "sok n' ent' okv'" "index_keys items okv' = ?K'" "startKey okv' = startKey okv2"
      "endKey okv' = endKey okv2" "md_currHeight (meta okv') = md_currHeight (meta okv2)" by auto
  have "run_block E I D h preps ops okv = Some (Inr okv')"
    using b u(1) reap f(1) by (simp add: run_block_def okv_EndWrite_def)
  moreover have "value_map ?K' ent' = apply_ops ops (value_map ?K ent)"
    by (rule block_values [OF D(7) _ pre]) (use D(8) u(8) in blast)+
  moreover have "?K' \<subseteq> ?K \<union> prepare_key ` set preps" using ID(1) by blast
  moreover have "n' \<le> n + 2 * (card ?K + length preps)" 
    by (rule order_trans [OF u(3)]) (use C(3) in \<open>rule add_left_mono [OF mult_le_mono2]\<close>)
  ultimately show ?thesis using f keep(1-3) by (intro exI [of _ okv'] exI [of _ n'] exI [of _ ent']) simp
qed

end

end
