(* ===== verification/OnvaRead.thy ===== *)
theory OnvaRead
  imports OnvaEnd
begin

text \<open>
  What the invariant of the store gives to its readers, and the two index trees as instances of the
  interface.
\<close>

section \<open>Reading\<close>

context store
begin

lemma GetEntry_ok:
  assumes sok: "sok n ent okv"
  shows "GetEntry I D k okv = Inr (if k \<in> index_keys items okv then Some (ent k) else None)"
proof -
  note R = sokD(1) [OF sok]
  have get: "ix_Get I k (idxTree okv) = Inr (bt_Get k (items (idxTree okv)))" using R get_item by (simp add: read_ok_def)
  show ?thesis
  proof (cases "bt_Get k (items (idxTree okv))")
    case None
    with get show ?thesis by (simp add: GetEntry_def domIff)
  next
    case (Some p)
    with get read_item [OF R Some] show ?thesis by (auto simp: GetEntry_def)
  qed
qed

text \<open>The loop of \<open>CheckConsistency\<close> from the items \<open>R\<close> below the key \<open>k\<close>.\<close>

lemma checkLinks_ok:
  assumes sok: "sok n ent okv"
  shows "rev R @ T = items (idxTree okv) \<Longrightarrow> k \<in> index_keys items okv \<Longrightarrow> (\<forall>x \<in> set R. fst x < k) \<Longrightarrow> (\<forall>x \<in> set T. k \<le> fst x) \<Longrightarrow>
    backward (idxTree okv) iter R \<Longrightarrow> length R \<le> m \<Longrightarrow> checkLinks I D m iter k okv = Inr ()"
proof (induction R arbitrary: T k iter m)
  case Nil
  from backward_end [OF Nil.prems(5)] show ?case by (simp add: checkLinks.simps)
next
  case (Cons x R)
  note S = sokD [OF sok]
  obtain k' p where x: "x = (k', p)" by fastforce
  have inv: "writing False (idxTree okv)" "bt_inv (items (idxTree okv))" using S(1) by (simp_all add: read_ok_def)
  from backward_next [OF inv(1) Cons.prems(5)] obtain iter' where it: "BackwardIter_Valid iter" "b_key iter = k'" "b_value iter = p"
    "ix_NextBackward I (idxTree okv) iter = Inr iter'" "backward (idxTree okv) iter' R" by (auto simp: x)
  have mem: "(k', p) \<in> set (items (idxTree okv))" unfolding Cons.prems(1) [symmetric] by (simp add: x)
  then have get: "bt_Get k' (items (idxTree okv)) = Some p"
    using bt.get_items [OF inv(2)] bt.distinct_keys [OF inv(2)] by simp
  then have K: "k' \<in> index_keys items okv" by blast
  have sorted: "sorted_wrt (<) (map fst (rev R) @ k' # map fst T)"
    using inv(2) unfolding Cons.prems(1) [symmetric] by (simp add: bt_inv_def x)
  have dom: "index_keys items okv = fst ` set (rev R @ (k', p) # T)"
    using bt.dom_get [OF inv(2)] Cons.prems(1) by (simp add: x)
  have "next_key (index_keys items okv) k' = k"
  proof (rule next_key_eqI [OF linked_keysD(1) [OF S(2)] Cons.prems(2)])
    show "k' < k" using Cons.prems(3) by (simp add: x)
    fix z assume z: "z \<in> index_keys items okv" "k' < z"
    then have "z \<in> fst ` set T" unfolding dom using sorted by (auto simp: sorted_wrt_append dest: less_asym)
    with Cons.prems(4) show "k \<le> z" by blast
  qed
  then have nk: "NextKey (ent k') = k" using linked_keysD(9) [OF S(2) K] by simp
  from Cons.prems(6) obtain m' where m: "m = Suc m'" "length R \<le> m'" by (cases m) auto
  have rest: "checkLinks I D m' iter' k' okv = Inr ()"
  proof (rule Cons.IH [OF _ K _ _ it(5) m(2)])
    show "rev R @ (k', p) # T = items (idxTree okv)" using Cons.prems(1) by (simp add: x)
    show "\<forall>x \<in> set R. fst x < k'" "\<forall>x \<in> set ((k', p) # T). k' \<le> fst x" using sorted by (auto simp: sorted_wrt_append less_imp_le)
  qed
  show ?case
    using it read_item [OF S(1) get] nk rest
    by (subst checkLinks.simps) (simp add: m okv_ReadEntry_def)
qed

lemma CheckConsistency_ok:
  assumes sok: "sok n ent okv"
  shows "okv_CheckConsistency I D okv = Inr ()"
proof -
  note S = sokD [OF sok]
  let ?B = "items (idxTree okv)" and ?e = "endKey okv"
  have inv: "writing False (idxTree okv)" "bt_inv ?B" using S(1) by (simp_all add: read_ok_def)
  from reverse_iterator [OF inv, of ?e] obtain iter where it: "ix_ReverseIterator I [] ?e (idxTree okv) = Inr iter"
    "backward (idxTree okv) iter (rev (filter (\<lambda>(x, _). x < ?e) ?B))" by blast
  have split: "filter (\<lambda>(x, _). x < ?e) ?B @ filter (\<lambda>(x, _). ?e \<le> x) ?B = ?B"
    unfolding takeWhile_keys [OF inv(2), symmetric] dropWhile_keys [OF inv(2), symmetric] by (rule takeWhile_dropWhile_id)
  have "checkLinks I D (length ?B) iter ?e okv = Inr ()"
    by (rule checkLinks_ok [OF sok, of "rev (filter (\<lambda>(x, _). x < ?e) ?B)" "filter (\<lambda>(x, _). ?e \<le> x) ?B"])
      (use split it(2) linked_keysD(3) [OF S(2)] in auto)
  then show ?thesis using it(1) by (simp add: okv_CheckConsistency_def count)
qed

end

section \<open>The index trees\<close>

text \<open>An iterator of the B tree with the items that it still passes.\<close>

definition backward_at :: "BackwardIter \<Rightarrow> BTree \<Rightarrow> bool" where
  "backward_at it R \<longleftrightarrow> (case R of [] \<Rightarrow> \<not> BackwardIter_Valid it
     | (k, v) # R' \<Rightarrow> BackwardIter_Valid it \<and> b_key it = k \<and> b_value it = v \<and>
         (\<exists>e. b_enum it = Some e \<and> enum_ok e \<and> takeWhile (\<lambda>(a, _). b_start it \<le> a) (rest_prev e) = R'))"

definition forward_at :: "ForwardIter \<Rightarrow> BTree \<Rightarrow> bool" where
  "forward_at it R \<longleftrightarrow> (case R of [] \<Rightarrow> \<not> ForwardIter_Valid it
     | (k, v) # R' \<Rightarrow> ForwardIter_Valid it \<and> f_key it = k \<and> f_value it = v \<and>
         (\<exists>e. f_enum it = Some e \<and> enum_ok e \<and> takeWhile (\<lambda>(a, _). a < f_end it) (rest_next e) = R'))"

lemma BackwardIter_Next_at:
  assumes "\<not> b_err it" and "b_enum it = Some e" and "enum_ok e" and "takeWhile (\<lambda>(a, _). b_start it \<le> a) (rest_prev e) = R"
  shows "\<exists>it'. BackwardIter_Next it = Inr it' \<and> backward_at it' R"
proof -
  obtain r e' where e: "enum_Prev e = (r, e')" by fastforce
  with enum_Prev_rest [OF assms(3) e] assms show ?thesis
    by (cases "rest_prev e") (auto simp: BackwardIter_Next_def backward_at_def BackwardIter_Valid_def not_less split: if_splits)
qed

lemma ForwardIter_Next_at:
  assumes "\<not> f_err it" and "f_enum it = Some e" and "enum_ok e" and "takeWhile (\<lambda>(a, _). a < f_end it) (rest_next e) = R"
  shows "\<exists>it'. ForwardIter_Next it = Inr it' \<and> forward_at it' R"
proof -
  obtain r e' where e: "enum_Next e = (r, e')" by fastforce
  with enum_Next_rest [OF assms(3) e] assms show ?thesis
    by (cases "rest_next e") (auto simp: ForwardIter_Next_def forward_at_def ForwardIter_Valid_def not_le split: if_splits)
qed

lemma backward_at_next:
  assumes "backward_at it (x # R)"
  shows "BackwardIter_Valid it \<and> b_key it = fst x \<and> b_value it = snd x \<and> (\<exists>it'. BackwardIter_Next it = Inr it' \<and> backward_at it' R)"
  using assms BackwardIter_Next_at [of it] by (cases x) (auto simp: backward_at_def BackwardIter_Valid_def)

lemma forward_at_next:
  assumes "forward_at it (x # R)"
  shows "ForwardIter_Valid it \<and> f_key it = fst x \<and> f_value it = snd x \<and> (\<exists>it'. ForwardIter_Next it = Inr it' \<and> forward_at it' R)"
  using assms ForwardIter_Next_at [of it] by (cases x) (auto simp: forward_at_def ForwardIter_Valid_def)

lemma bt_ReverseIterator_at:
  assumes "bt_inv t"
  shows "\<exists>it. bt_ReverseIterator s k t = Inr it \<and> backward_at it (rev (filter (in_range s k) t))"
proof (cases "s < k")
  case False
  then show ?thesis by (simp add: bt_ReverseIterator_def range_empty backward_at_def BackwardIter_Valid_def Let_def not_less)
next
  case True
  obtain en hit where en: "bt_Seek k t = (en, hit)" by fastforce
  define en' where "en' = (if hit then snd (enum_Prev en) else en)"
  have R: "enum_ok en'" "rest_prev en' = rev (filter (\<lambda>(x, _). x < k) t)"
    using bt_Seek_before [OF assms en] by (simp_all add: en'_def)
  let ?b = "\<lparr>b_enum = Some en', b_start = s, b_end = k, b_key = [], b_value = 0, b_err = False\<rparr>"
  from BackwardIter_Next_at [of ?b en', OF _ _ R(1) refl] obtain it where
    it: "BackwardIter_Next ?b = Inr it" "backward_at it (takeWhile (\<lambda>(a, _). s \<le> a) (rest_prev en'))" by auto
  have "backward_at it (rev (filter (in_range s k) t))" using it(2) unfolding R(2) rest_in_range [OF assms] .
  moreover have "bt_ReverseIterator s k t = Inr it" using it(1) True en by (simp add: bt_ReverseIterator_def en'_def Let_def)
  ultimately show ?thesis by blast
qed

lemma bt_Iterator_at:
  assumes "bt_inv t"
  shows "\<exists>it. bt_Iterator s k t = Inr it \<and> forward_at it (filter (in_range s k) t)"
proof (cases "s < k")
  case False
  then show ?thesis by (simp add: bt_Iterator_def range_empty forward_at_def ForwardIter_Valid_def Let_def not_less)
next
  case True
  let ?f = "\<lparr>f_enum = Some (fst (bt_Seek s t)), f_start = s, f_end = k, f_key = [], f_value = 0, f_err = False\<rparr>"
  from ForwardIter_Next_at [of ?f "fst (bt_Seek s t)", OF _ _ bt_Seek_ok(1) [OF assms] refl] obtain it where
    it: "ForwardIter_Next ?f = Inr it" "forward_at it (takeWhile (\<lambda>(a, _). a < k) (rest_next (fst (bt_Seek s t))))" by auto
  have "forward_at it (filter (in_range s k) t)" using it(2) unfolding bt_Seek_ok(2) [OF assms] rest_in_range [OF assms] .
  moreover have "bt_Iterator s k t = Inr it" using it(1) True by (simp add: bt_Iterator_def Let_def)
  ultimately show ?thesis by blast
qed

text \<open>The index with the RocksDB, and the mock, which has no write flag.\<close>

interpretation nv: index_tree "NVTreeI :: (NVTreeMem, 'e) IndexTreeI" bt "\<lambda>w t. isWriting t = w" "\<lambda>_. backward_at" "\<lambda>_. forward_at"
proof
  fix t :: NVTreeMem and r :: "'e RocksDB" and k v
  show "\<exists>i' r'. ix_Set NVTreeI k v (t, r) = Inr (i', r') \<and> bt i' = bt_Set k v (bt t) \<and> isWriting i' = True \<and> batch r' \<noteq> None"
    if "isWriting t = True" "batch r \<noteq> None"
    using that by (auto simp: NVTreeI_def NVTreeMem_Set_def bt_PutNewAndGetOld_def CurrBatch_Set_def Let_def split: option.splits)
  show "\<exists>i' r'. ix_Delete NVTreeI k (t, r) = Inr (i', r') \<and> bt i' = bt_Delete k (bt t) \<and> isWriting i' = True \<and> batch r' \<noteq> None"
    if "isWriting t = True" "batch r \<noteq> None" "bt_Get k (bt t) \<noteq> None"
    using that by (auto simp: NVTreeI_def NVTreeMem_Delete_def CurrBatch_Set_def CurrBatch_Delete_def Let_def split: option.splits)
qed (auto simp: NVTreeI_def NVTreeMem_BeginWrite_def NVTreeMem_EndWrite_def NVTreeMem_Get_def NVTreeMem_ActiveCount_def
    NVTreeMem_ReverseIterator_def BackwardIterMem_Next_def bt_ReverseIterator_at backward_at_next
    NVTreeMem_Iterator_def ForwardIterMem_Next_def bt_Iterator_at forward_at_next, simp_all add: backward_at_def forward_at_def)

interpretation mock_index: index_tree "MockIndexI :: (MockIndexTree, 'e) IndexTreeI" "\<lambda>t. t" "\<lambda>_ _. True" "\<lambda>_. backward_at" "\<lambda>_. forward_at"
  by unfold_locales (auto simp: MockIndexI_def MockIndexTree_Get_def MockIndexTree_Set_def MockIndexTree_Delete_def
      MockIndexTree_ActiveCount_def MockIndexTree_ReverseIterator_def bt_ReverseIterator_at backward_at_next
      MockIndexTree_Iterator_def bt_Iterator_at forward_at_next, simp_all add: backward_at_def forward_at_def)

end
