(* ===== verification/OnvaInit.thy ===== *)
theory OnvaInit
  imports OnvaRead
begin

text \<open>
  The guards: \<open>InitGuards\<close> on a data tree with any number of entries and an empty index makes a store
  that satisfies the invariant and whose abstract map has the two guards with the empty value.
\<close>

section \<open>Guards\<close>

definition guard_map :: "bytes \<Rightarrow> bytes \<Rightarrow> bytes \<rightharpoonup> bytes" where
  "guard_map s e = [s \<mapsto> [], e \<mapsto> []]"

text \<open>The guard keys are in order and not too long.\<close>

definition guards_ok :: "nat \<Rightarrow> bytes \<Rightarrow> bytes \<Rightarrow> bool" where
  "guards_ok L s e \<longleftrightarrow> s \<noteq> [] \<and> s < e \<and> length s \<le> L \<and> length e \<le> L"

lemma guards_linked:
  assumes g: "guards_ok L s e" and small: "small_entry L (ent s)" "small_entry L (ent e)" and nk: "NextKey (ent s) = e" "NextKey (ent e) = e"
  shows "linked_keys L s e {s, e} ent"
proof -
  have se: "s < e" "s \<noteq> []" using g by (simp_all add: guards_ok_def)
  have "next_key {s, e} s = e" by (rule next_key_eqI) (use se in auto)
  moreover have "next_key {s, e} e = e" by (rule next_key_last) (use se in auto)
  ultimately show ?thesis using se small nk by (auto simp: linked_keys_def less_imp_le)
qed

context store
begin

text \<open>One guard.\<close>

lemma initGuard_ok:
  assumes wok: "wok n ent X okv" and k: "k \<notin> X" and room: "room n" and len: "length k \<le> L" "length nk \<le> L" and dom: "index_keys items okv = X"
  defines "g \<equiv> \<lparr>Key = k, Value = Some [], NextKey = nk, Height = -1, LastHeight = -1, SerialNum = int n\<rparr>"
  shows "\<exists>okv'. initGuard I D k nk okv = Inr okv' \<and> wok (Suc n) (ent(k := g)) (insert k X) okv' \<and> write_keeps okv okv' \<and>
    index_keys items okv' = insert k X"
proof -
  note W = wok [unfolded write_ok_def]
  have sn: "GetMaxSerialNum (meta okv) = int n" using W by (simp add: GetMaxSerialNum_def)
  have e: "SerialNum g = int n" "Key g = k" "small_entry L g"
    using len room by (simp_all add: g_def small_entry_def in_int64_def room_def)
  from append_step [OF wok k room e] obtain okv1 where o: 
    "bindE (okv_IncrMaxSerialNum okv) (\<lambda>okv. bindE (okv_AppendEntry D g okv) (\<lambda>(pos, okv). okv_idxSet I k pos okv)) = Inr okv1"
    "wok (Suc n) (ent(k := g)) (insert k X) okv1" "write_keeps okv okv1"
    "\<exists>pos. items (idxTree okv1) = bt_Set k pos (items (idxTree okv))" by blast
  from okv_IncrMaxSerialNum_ok [of okv n] W room obtain m r where mr: "okv_IncrMaxSerialNum okv = Inr (okv\<lparr>meta := m, rocksdb := r\<rparr>)" by blast
  have incr: "IncrMaxSerialNum (meta okv, rocksdb okv) = Inr (m, r)"
  proof (cases "IncrMaxSerialNum (meta okv, rocksdb okv)")
    case (Inr x)
    with mr have "okv\<lparr>meta := fst x, rocksdb := snd x\<rparr> = okv\<lparr>meta := m, rocksdb := r\<rparr>"
      by (simp add: okv_IncrMaxSerialNum_def split: prod.splits)
    from arg_cong [OF this, of meta] arg_cong [OF this, of rocksdb] Inr show ?thesis by (cases x) simp
  qed (use mr in \<open>simp add: okv_IncrMaxSerialNum_def\<close>)
  have swap: "bindE (okv_AppendEntry D g okv) (\<lambda>(pos, okv). bindE (okv_IncrMaxSerialNum okv) (okv_idxSet I k pos)) =
    bindE (okv_IncrMaxSerialNum okv) (\<lambda>okv. bindE (okv_AppendEntry D g okv) (\<lambda>(pos, okv). okv_idxSet I k pos okv))"
    if "dt_AppendEntry D g (datTree okv) = Inr (pos, d)" for pos d
  proof -
    have "okv\<lparr>datTree := d, meta := m, rocksdb := r\<rparr> = okv\<lparr>meta := m, rocksdb := r, datTree := d\<rparr>" by (cases okv) simp
    from arg_cong [OF this, of "okv_idxSet I k pos"] that incr show ?thesis by (simp add: okv_AppendEntry_def okv_IncrMaxSerialNum_def)
  qed
  from append [OF _ room e(1,3)] W obtain pos d where "dt_AppendEntry D g (datTree okv) = Inr (pos, d)" by force
  from swap [OF this] o(1) sn have "initGuard I D k nk okv = Inr okv1" by (simp add: initGuard_def g_def Let_def)
  moreover have "index_keys items okv1 = insert k X"
  proof -
    from o(4) obtain pos where "items (idxTree okv1) = bt_Set k pos (items (idxTree okv))" by blast
    then have "bt_Get x (items (idxTree okv1)) = (if x = k then Some pos else bt_Get x (items (idxTree okv)))" for x
      using W by (simp add: bt.get_put)
    then show ?thesis using dom by (auto simp: dom_def)
  qed
  ultimately show ?thesis using o(2,3) by blast
qed

lemma InitGuards_ok:
  assumes dat: "ok n (datTree okv)" "pending (datTree okv) \<le> 64" and ix: "writing False (idxTree okv)" "items (idxTree okv) = []"
    and sn: "md_maxSerialNum (meta okv) = int n" and b: "batch (rocksdb okv) \<noteq> None" and room: "room (Suc n)" and N0: "N0 \<le> n + 2"
    and hot: "k2heMap okv = NewBucketMap" "k2nkMap okv = NewBucketMap" "tempEntries64 okv = replicate 64 []" and g: "guards_ok L s e"
  shows "\<exists>okv' ent. InitGuards E I D s e okv = Inr okv' \<and> sok (n + 2) ent okv' \<and> startKey okv' = s \<and> endKey okv' = e \<and>
    value_map (index_keys items okv') ent = guard_map s e \<and> index_keys items okv' = {s, e}"
proof -
  have se: "s \<noteq> e" "length s \<le> L" "length e \<le> L" using g by (auto simp: guards_ok_def)
  from begin_write [OF ix(1), of "-1"] obtain i where i: "ix_BeginWrite I (-1) (idxTree okv) = Inr i" "items i = []" "writing True i"
    using ix(2) by auto
  let ?okv = "okv\<lparr>startKey := s, endKey := e, idxTree := i, meta := SetCurrHeight (-1) (meta okv)\<rparr>"
  have wok0: "wok n ent {} ?okv" for ent
    using dat i sn b by (simp add: write_ok_def bt_inv_def SetCurrHeight_def ents_ok_def)
  have dom0: "index_keys items ?okv = {}" using i(2) by (simp add: bt_Get_def)
  let ?gs = "\<lparr>Key = s, Value = Some [], NextKey = e, Height = -1, LastHeight = -1, SerialNum = int n\<rparr>"
  let ?ge = "\<lparr>Key = e, Value = Some [], NextKey = e, Height = -1, LastHeight = -1, SerialNum = int (Suc n)\<rparr>"
  define ent where "ent = (\<lambda>_. ?gs)(s := ?gs, e := ?ge)"
  have room0: "room n" using room room_mono by simp
  from initGuard_ok [OF wok0 _ room0 se(2,3) dom0, of "\<lambda>_. ?gs"] obtain okv1 where o1: "initGuard I D s e ?okv = Inr okv1"
    "wok (Suc n) ((\<lambda>_. ?gs)(s := ?gs)) (insert s {}) okv1" "write_keeps ?okv okv1" "index_keys items okv1 = insert s {}" by blast
  have "e \<notin> insert s {}" using se(1) by simp
  from initGuard_ok [OF o1(2) this room se(3,3) o1(4)] obtain okv2 where o2: "initGuard I D e e okv1 = Inr okv2"
    "wok (Suc (Suc n)) ent (insert e (insert s {})) okv2" "write_keeps okv1 okv2" "index_keys items okv2 = insert e (insert s {})"
    unfolding ent_def by blast
  have keeps: "write_keeps ?okv okv2" by (rule write_keeps_trans [OF o1(3) o2(3)])
  note W = o2(2) [unfolded write_ok_def]
  from W end_write [of "idxTree okv2"] obtain i2 where i2: "ix_EndWrite I (idxTree okv2) = Inr i2" "items i2 = items (idxTree okv2)" "writing False i2"
    by blast
  from W N0 end_block [of "Suc (Suc n)" "datTree okv2"] obtain root d where d: "dt_EndBlock D (datTree okv2) = Inr (root, d)" "ok (Suc (Suc n)) d" "settled d"
    "pending d = pending (datTree okv2)" "\<And>p x. holds (datTree okv2) p x \<Longrightarrow> holds d p x" by auto
  from W obtain b2 where b2: "batch (rocksdb okv2) = Some b2" by blast
  then obtain r where r: "MetaDB_Commit (meta okv2) (rocksdb okv2) = Inr r" by (auto simp: MetaDB_Commit_def)
  let ?okv' = "okv2\<lparr>idxTree := i2, datTree := d, rootHash := root, rocksdb := OpenNewBatch (CloseOldBatch E r)\<rparr>"
  have run: "InitGuards E I D s e okv = Inr ?okv'"
    using i(1) o1(1) o2(1) i2(1) d(1) r by (simp add: InitGuards_def Let_def)
  have eo: "ents_ok holds (datTree okv2) (items (idxTree okv2)) (Suc (Suc n)) ent {e, s}" using W by simp
  have "ents_ok holds d (items i2) (Suc (Suc n)) ent {e, s}" unfolding i2(2) by (rule ents_ok_mono [OF eo]) (use d(5) in auto)
  moreover have dom: "index_keys items ?okv' = {e, s}" using o2(4) i2(2) by simp
  ultimately have rok: "rok (Suc (Suc n)) ent ?okv'" using W d i2 by (simp add: read_ok_def)
  have k: "startKey okv2 = s" "endKey okv2 = e" using keeps by (simp_all add: write_keeps_def)
  have "small_entry L (ent s)" "small_entry L (ent e)" "NextKey (ent s) = e" "NextKey (ent e) = e"
    using se room by (auto simp: ent_def small_entry_def in_int64_def room_def)
  from guards_linked [OF g this] have lk: "linked_keys L s e (index_keys items ?okv') ent" unfolding dom by (simp only: insert_commute)
  have "sok (n + 2) ent ?okv'"
    using rok lk N0 W d(4) keeps hot k by (simp add: store_ok_def write_keeps_def)
  moreover have "value_map (index_keys items ?okv') ent = guard_map s e"
    unfolding dom using se(1) by (auto simp: value_map_def guard_map_def ent_def fun_eq_iff)
  ultimately show ?thesis using run k dom by (intro exI [of _ ?okv'] exI [of _ ent]) (simp add: insert_commute)
qed

text \<open>The dummy entries of a new store.\<close>

lemma fillDummy_ok:
  assumes "ok n (datTree okv)" "pending (datTree okv) \<le> 64" "md_maxSerialNum (meta okv) = int n" "batch (rocksdb okv) \<noteq> None" "room n"
  shows "\<exists>m r d. fillDummy D okv = Inr (okv\<lparr>meta := m, rocksdb := r, datTree := d\<rparr>) \<and> ok (Suc n) d \<and> pending d \<le> 1 \<and>
    md_maxSerialNum m = int (Suc n) \<and> batch r \<noteq> None"
proof -
  from okv_IncrMaxSerialNum_ok [OF assms(4,3,5)] obtain m r where mr: "okv_IncrMaxSerialNum okv = Inr (okv\<lparr>meta := m, rocksdb := r\<rparr>)"
    "batch r \<noteq> None" "m = (meta okv)\<lparr>md_maxSerialNum := int (Suc n)\<rparr>" by blast
  let ?e = "DummyEntry (int n)"
  have e: "SerialNum ?e = int n" by (simp add: DummyEntry_def)
  have "pending (datTree okv) \<le> 65" using assms(2) by simp
  from append [OF assms(1,5) e small_dummy [OF room_for_dummy assms(5)] this] obtain pos d where d:
    "dt_AppendEntry D ?e (datTree okv) = Inr (pos, d)" "ok (Suc n) d" "pending d = 0" "holds d pos ?e" by blast
  from deactivate [OF d(2,4)] e d(3) obtain c d2 where d2: "dt_DeactiviateEntry D (int n) d = Inr (c, d2)" "ok (Suc n) d2" "pending d2 \<le> 1" by auto
  have "fillDummy D okv = Inr (okv\<lparr>meta := m, rocksdb := r, datTree := d2\<rparr>)"
    using mr d d2 assms(3) by (simp add: fillDummy_def GetMaxSerialNum_def okv_AppendEntry_def Let_def)
  with d2 mr show ?thesis by (intro exI [of _ m] exI [of _ r] exI [of _ d2]) simp
qed

lemma fillDummies_ok:
  "ok n (datTree okv) \<Longrightarrow> pending (datTree okv) \<le> 64 \<Longrightarrow> md_maxSerialNum (meta okv) = int n \<Longrightarrow> batch (rocksdb okv) \<noteq> None \<Longrightarrow>
    room (n + length xs) \<Longrightarrow>
    \<exists>m r d. foldE (\<lambda>_. fillDummy D) xs okv = Inr (okv\<lparr>meta := m, rocksdb := r, datTree := d\<rparr>) \<and> ok (n + length xs) d \<and> pending d \<le> 64 \<and>
      md_maxSerialNum m = int (n + length xs) \<and> batch r \<noteq> None"
proof (induction xs arbitrary: n okv)
  case Nil
  then show ?case by (intro exI [of _ "meta okv"] exI [of _ "rocksdb okv"] exI [of _ "datTree okv"]) simp
next
  case (Cons x xs)
  have room: "room n" using Cons.prems(5) by (rule room_mono) simp
  from fillDummy_ok [OF Cons.prems(1-4) room] obtain m r d where s: "fillDummy D okv = Inr (okv\<lparr>meta := m, rocksdb := r, datTree := d\<rparr>)" 
    "ok (Suc n) d" "pending d \<le> 1" "md_maxSerialNum m = int (Suc n)" "batch r \<noteq> None" by blast
  from Cons.IH [of "Suc n" "okv\<lparr>meta := m, rocksdb := r, datTree := d\<rparr>"] s Cons.prems(5) show ?case by simp
qed

end

end
