(* ===== verification/OnvaRuns.thy ===== *)
theory OnvaRuns
  imports OnvaInit
begin

text \<open>
  Runs of a store: from a state with the invariant every block returns, the store behaves as the
  abstract map that the operations give, and its own consistency check passes.
\<close>

section \<open>Runs of blocks\<close>

text \<open>The strings of an entry are at most 1 MiB long, so that an entry always fits into the buffer of a file.\<close>

definition maxString :: nat where
  "maxString = 2 ^ 20"

text \<open>
  A block over few enough keys for \<open>EndWrite\<close> not to reap a twig (\<open>StartReapThres\<close>), with serial numbers
  far from the largest int64.
\<close>

definition block_room :: "('i, 'e) IndexTreeI \<Rightarrow> ('i, 'd, 'e) OnvaKV \<Rightarrow> prepare list \<Rightarrow> bool" where
  "block_room I okv preps \<longleftrightarrow> ix_ActiveCount I (idxTree okv) + length preps \<le> 10000 \<and> md_maxSerialNum (meta okv) + 30000 < 2 ^ 63"

text \<open>The states after any number of blocks, with the abstract map.\<close>

inductive okv_run :: "('e, 'it) engine \<Rightarrow> ('i, 'e) IndexTreeI \<Rightarrow> 'd DataTreeI \<Rightarrow> ('i, 'd, 'e) OnvaKV \<Rightarrow> (bytes \<rightharpoonup> bytes) \<Rightarrow>
    ('i, 'd, 'e) OnvaKV \<Rightarrow> (bytes \<rightharpoonup> bytes) \<Rightarrow> bool" for E I D okv0 M0 where
  run_start: "okv_run E I D okv0 M0 okv0 M0"
| run_more: "okv_run E I D okv0 M0 okv M \<Longrightarrow> block_pre maxString (startKey okv) (endKey okv) preps ops \<Longrightarrow> in_int64 h \<Longrightarrow>
    block_room I okv preps \<Longrightarrow> run_block E I D h preps ops okv = Some (Inr okv') \<Longrightarrow>
    okv_run E I D okv0 M0 okv' (apply_ops ops M)"

text \<open>What a reader sees of a store with the abstract map \<open>M\<close>.\<close>

definition reads_as :: "('i, 'e) IndexTreeI \<Rightarrow> 'd DataTreeI \<Rightarrow> ('i, 'd, 'e) OnvaKV \<Rightarrow> (bytes \<rightharpoonup> bytes) \<Rightarrow> bool" where
  "reads_as I D okv M \<longleftrightarrow> finite (dom M) \<and> ix_ActiveCount I (idxTree okv) = card (dom M) \<and>
     (\<forall>k. \<exists>r. GetEntry I D k okv = Inr r \<and>
        (case r of None \<Rightarrow> M k = None | Some e \<Rightarrow> Key e = k \<and> Value e = M k \<and> M k \<noteq> None \<and> NextKey e = next_key (dom M) k))"

text \<open>The entry of a present key, and its absence.\<close>

lemma reads_asD:
  assumes "reads_as I D okv M"
  shows "M k = None \<Longrightarrow> GetEntry I D k okv = Inr None"
    and "M k = Some v \<Longrightarrow> \<exists>e. GetEntry I D k okv = Inr (Some e) \<and> Key e = k \<and> Value e = Some v \<and> NextKey e = next_key (dom M) k"
proof -
  from assms obtain r where r: "GetEntry I D k okv = Inr r"
    "case r of None \<Rightarrow> M k = None | Some e \<Rightarrow> Key e = k \<and> Value e = M k \<and> M k \<noteq> None \<and> NextKey e = next_key (dom M) k"
    unfolding reads_as_def by blast
  then show "M k = None \<Longrightarrow> GetEntry I D k okv = Inr None"
    "M k = Some v \<Longrightarrow> \<exists>e. GetEntry I D k okv = Inr (Some e) \<and> Key e = k \<and> Value e = Some v \<and> NextKey e = next_key (dom M) k"
    by (auto split: option.splits)
qed

context store
begin

lemma sok_reads_as:
  assumes sok: "sok n ent okv"
  shows "reads_as I D okv (value_map (index_keys items okv) ent)"
proof -
  note S = sokD [OF sok]
  let ?K = "index_keys items okv"
  have val: "\<exists>v. Value (ent k) = Some v" if "k \<in> ?K" for k
    using linked_keysD(8) [OF S(2) that] by (auto simp: small_entry_def)
  have dom: "dom (value_map ?K ent) = ?K" using val by (fastforce simp: value_map_def split: if_splits)
  have "bt_inv (items (idxTree okv))" using S(1) by (simp add: read_ok_def)
  from bt.count [OF this] have cnt: "ix_ActiveCount I (idxTree okv) = card ?K" by (simp add: count)
  have "\<exists>r. GetEntry I D k okv = Inr r \<and> (case r of None \<Rightarrow> value_map ?K ent k = None
      | Some e \<Rightarrow> Key e = k \<and> Value e = value_map ?K ent k \<and> value_map ?K ent k \<noteq> None \<and> NextKey e = next_key ?K k)" for k
  proof (cases "k \<in> ?K")
    case True
    from val [OF True] GetEntry_ok [OF sok, of k] read_ok_Key [OF S(1) True] linked_keysD(9) [OF S(2) True] True show ?thesis
      by (auto simp: value_map_def)
  next
    case False
    with GetEntry_ok [OF sok, of k] show ?thesis by (auto simp: value_map_def)
  qed
  then show ?thesis using cnt linked_keysD(1) [OF S(2)] unfolding reads_as_def dom by blast
qed

lemma run_block_ok:
  assumes L: "L = maxString" and sok: "sok n ent okv" and pre: "block_pre maxString (startKey okv) (endKey okv) preps ops"
    and h: "in_int64 h" and fit: "block_room I okv preps"
  shows "\<exists>okv' n' ent'. run_block E I D h preps ops okv = Some (Inr okv') \<and> sok n' ent' okv' \<and>
    value_map (index_keys items okv') ent' = apply_ops ops (value_map (index_keys items okv) ent) \<and>
    startKey okv' = startKey okv \<and> endKey okv' = endKey okv"
proof -
  note S = sokD [OF sok]
  have "bt_inv (items (idxTree okv))" using S(1) by (simp add: read_ok_def)
  from bt.count [OF this] have cnt: "ix_ActiveCount I (idxTree okv) = card (index_keys items okv)" by (simp add: count)
  then have small: "card (index_keys items okv) + length preps \<le> 10000" using fit by (simp add: block_room_def)
  have "n + 30000 < 2 ^ 63" using fit S(5) by (simp add: block_room_def)
  then have "room (n + 2 * (card (index_keys items okv) + length preps))" using small by (simp add: room_def)
  from block_ok [OF sok pre [folded L] h this small, of E] show ?thesis by blast
qed

lemma run_inv:
  assumes L: "L = maxString" and run: "okv_run E I D okv0 M0 okv M" and sok: "sok n0 ent0 okv0" "value_map (index_keys items okv0) ent0 = M0"
  shows "\<exists>n ent. sok n ent okv \<and> value_map (index_keys items okv) ent = M"
  using run
proof induction
  case run_start
  show ?case using sok by blast
next
  case (run_more okv M preps ops h okv')
  from run_more.IH obtain n ent where n: "sok n ent okv" "value_map (index_keys items okv) ent = M" by blast
  from run_block_ok [OF L n(1) run_more.hyps(2-4), of E] n(2) run_more.hyps(5) show ?case by auto
qed

text \<open>The three facts about a run from a store with the invariant.\<close>

lemma run_reads_as:
  assumes "L = maxString" and "okv_run E I D okv0 M0 okv M" and "sok n0 ent0 okv0" and "value_map (index_keys items okv0) ent0 = M0"
  shows "reads_as I D okv M"
  using run_inv [OF assms] sok_reads_as by blast

lemma run_consistent:
  assumes "L = maxString" and "okv_run E I D okv0 M0 okv M" and "sok n0 ent0 okv0" and "value_map (index_keys items okv0) ent0 = M0"
  shows "okv_CheckConsistency I D okv = Inr ()"
  using run_inv [OF assms] CheckConsistency_ok by blast

lemma run_total:
  assumes L: "L = maxString" and run: "okv_run E I D okv0 M0 okv M" and sok: "sok n0 ent0 okv0" "value_map (index_keys items okv0) ent0 = M0"
    and pre: "block_pre maxString (startKey okv) (endKey okv) preps ops" and h: "in_int64 h" and fit: "block_room I okv preps"
  shows "\<exists>okv'. run_block E I D h preps ops okv = Some (Inr okv') \<and> okv_run E I D okv0 M0 okv' (apply_ops ops M)"
proof -
  from run_inv [OF L run sok] obtain n ent where n: "sok n ent okv" by blast
  from run_block_ok [OF L n pre h fit, of E] obtain okv' where o: "run_block E I D h preps ops okv = Some (Inr okv')" by blast
  from run_more [OF run pre h fit o] o show ?thesis by blast
qed

end

end
