(* ===== verification/OnvaMock.thy ===== *)
theory OnvaMock
  imports OnvaRuns MockDataTree
begin

text \<open>
  The store with the mock data tree and the mock index tree, as \<open>NewOnvaKV4Mock\<close> makes it: the mock tree
  is an instance of the data tree interface, so that every run of blocks from a new store returns and
  behaves as a map.
\<close>

section \<open>The mock data tree as a data tree\<close>

text \<open>The twigs up to the one of the next serial number \<open>n\<close> are there, and no entry from \<open>n\<close> on is active.\<close>

definition mock_ok :: "nat \<Rightarrow> MockDataTree \<Rightarrow> bool" where
  "mock_ok n dt \<longleftrightarrow> (\<forall>T. dt T \<noteq> None \<longleftrightarrow> 0 \<le> T \<and> T \<le> int (n div 2048)) \<and>
     (\<forall>T tw. dt T = Some tw \<longrightarrow> length (mk_activeBits tw) = 2048 \<and> length (mk_entries tw) = 2048 \<and>
        (\<forall>i < 2048. int n \<le> T * 2048 + int i \<longrightarrow> \<not> mk_activeBits tw ! i))"

definition mock_holds :: "MockDataTree \<Rightarrow> nat \<Rightarrow> Entry \<Rightarrow> bool" where
  "mock_holds dt p e \<longleftrightarrow> 0 \<le> SerialNum e \<and> p = nat (SerialNum e * 1024) \<and>
     (\<exists>tw. dt (SerialNum e div 2048) = Some tw \<and> mk_activeBits tw ! snIndex (SerialNum e) \<and>
        mk_entries tw ! snIndex (SerialNum e) = e)"

lemma snIndex_less: "snIndex sn < 2048"
  by (simp add: snIndex_def)

lemma snIndex_eq: "sn div 2048 * 2048 + int (snIndex sn) = sn"
proof -
  have "int (snIndex sn) = sn mod 2048" unfolding snIndex_def by (rule nat_0_le) simp
  then show ?thesis by (simp only: div_mult_mod_eq)
qed

lemma sn_inject: "sn div 2048 = sn' div 2048 \<Longrightarrow> snIndex sn = snIndex sn' \<Longrightarrow> sn = sn'"
  using snIndex_eq [of sn] snIndex_eq [of sn'] by argo

lemma newMockTwig_fields [simp]:
  "length (mk_activeBits newMockTwig) = 2048" "length (mk_entries newMockTwig) = 2048" "i < 2048 \<Longrightarrow> \<not> mk_activeBits newMockTwig ! i"
  by (simp_all add: newMockTwig_def)

lemma mock_twig:
  assumes "mock_ok n dt"
  shows "\<exists>tw. dt (int n div 2048) = Some tw"
proof -
  have "dt (int n div 2048) \<noteq> None" using assms by (simp add: mock_ok_def zdiv_int)
  then show ?thesis by blast
qed

lemma if_Some_cases: "(if a then Some x else if b then Some y else z) = Some w \<Longrightarrow> a \<or> w = y \<or> z = Some w"
  by (auto split: if_splits)

lemma mock_append:
  assumes ok: "mock_ok n dt" and sn: "SerialNum e = int n"
  shows "\<exists>pos dt'. MockDataTree_AppendEntry e dt = Inr (pos, dt') \<and> mock_ok (Suc n) dt' \<and> mock_holds dt' pos e \<and>
    (\<forall>p x. mock_holds dt p x \<longrightarrow> mock_holds dt' p x)"
proof -
  let ?T = "int n div 2048" and ?i = "n mod 2048"
  have T: "?T = int (n div 2048)" by (simp add: zdiv_int)
  have i: "snIndex (int n) = ?i" by (simp add: snIndex_def nat_mod_distrib)
  from mock_twig [OF ok] obtain tw where tw: "dt ?T = Some tw" by blast
  have len: "length (mk_activeBits tw) = 2048" "length (mk_entries tw) = 2048"
    "\<forall>j < 2048. int n \<le> ?T * 2048 + int j \<longrightarrow> \<not> mk_activeBits tw ! j"
    using ok tw unfolding mock_ok_def by blast+
  define tw' where "tw' = tw\<lparr>mk_entries := (mk_entries tw)[?i := e], mk_activeBits := (mk_activeBits tw)[?i := True]\<rparr>"
  define dt' where "dt' = (if ?i = 2047 then (dt(?T \<mapsto> tw'))(?T + 1 \<mapsto> newMockTwig) else dt(?T \<mapsto> tw'))"
  have dt': "dt' T = (if T = ?T then Some tw' else if ?i = 2047 \<and> T = ?T + 1 then Some newMockTwig else dt T)" for T
    by (simp add: dt'_def)
  have run: "MockDataTree_AppendEntry e dt = Inr (nat (int n * 1024), dt')"
    using tw sn by (simp add: MockDataTree_AppendEntry_def mockTwig_def Let_def i TwigMask_def dt'_def tw'_def)
  have n: "Suc n div 2048 = (if ?i = 2047 then Suc (n div 2048) else n div 2048)"
    using Suc_twig [of n] Suc_twig_last [of n] by (cases "?i = 2047") simp_all
  have "mock_ok (Suc n) dt'"
    unfolding mock_ok_def
  proof (intro conjI allI impI)
    fix T show "(dt' T \<noteq> None) = (0 \<le> T \<and> T \<le> int (Suc n div 2048))"
    proof -
      have a: "(dt T \<noteq> None) = (0 \<le> T \<and> T \<le> int (n div 2048))" using ok by (simp add: mock_ok_def)
      have "(dt' T \<noteq> None) = (T = int m \<or> q \<and> T = int m + 1 \<or> dt T \<noteq> None)" if "?T = int m" "(?i = 2047) = q" for m q
        unfolding dt' that by auto
      from this [OF T refl] have b: "(dt' T \<noteq> None) = (T = int (n div 2048) \<or> ?i = 2047 \<and> T = int (n div 2048) + 1 \<or> dt T \<noteq> None)" .
      have "(T = int m \<or> q \<and> T = int m + 1 \<or> 0 \<le> T \<and> T \<le> int m) = (0 \<le> T \<and> T \<le> int (if q then Suc m else m))" for m q
        by auto
      then show ?thesis unfolding n b a .
    qed
  next
    fix T tw1 assume tw1: "dt' T = Some tw1"
    consider "T = ?T" | "tw1 = newMockTwig" | "dt T = Some tw1" using if_Some_cases [OF tw1 [unfolded dt']] by blast
    then have "length (mk_activeBits tw1) = 2048 \<and> length (mk_entries tw1) = 2048 \<and>
        (\<forall>j < 2048. int (Suc n) \<le> T * 2048 + int j \<longrightarrow> \<not> mk_activeBits tw1 ! j)"
    proof cases
      case 1
      then have "tw1 = tw'" using tw1 by (simp add: dt')
      moreover have "\<not> mk_activeBits tw' ! j" if j: "j < 2048" "int (Suc n) \<le> ?T * 2048 + int j" for j
      proof -
        have "j \<noteq> ?i" using j(2) snIndex_eq [of "int n"] unfolding i by auto
        with j len show ?thesis by (simp add: tw'_def)
      qed
      ultimately show ?thesis using 1 len by (simp add: tw'_def)
    next
      case 3
      have "\<forall>j < 2048. int n \<le> T * 2048 + int j \<longrightarrow> \<not> mk_activeBits tw1 ! j" "length (mk_activeBits tw1) = 2048" "length (mk_entries tw1) = 2048"
        using ok 3 unfolding mock_ok_def by blast+
      then show ?thesis by simp
    qed simp
    then show "length (mk_activeBits tw1) = 2048" "length (mk_entries tw1) = 2048"
      "\<And>j. j < 2048 \<Longrightarrow> int (Suc n) \<le> T * 2048 + int j \<Longrightarrow> \<not> mk_activeBits tw1 ! j" by blast+
  qed
  moreover have "mock_holds dt' (nat (int n * 1024)) e"
    using sn len by (simp add: mock_holds_def i dt' tw'_def)
  moreover have "mock_holds dt' p x" if x: "mock_holds dt p x" for p x
  proof -
    from x obtain twx where h: "0 \<le> SerialNum x" "p = nat (SerialNum x * 1024)" "dt (SerialNum x div 2048) = Some twx"
      "mk_activeBits twx ! snIndex (SerialNum x)" "mk_entries twx ! snIndex (SerialNum x) = x" unfolding mock_holds_def by blast
    have lt: "SerialNum x < int n"
    proof (rule ccontr)
      assume "\<not> SerialNum x < int n"
      with ok h(3,4) snIndex_less [of "SerialNum x"] snIndex_eq [of "SerialNum x"] show False unfolding mock_ok_def by (metis not_less)
    qed
    have "SerialNum x div 2048 \<le> ?T" using lt by (intro zdiv_mono1) auto
    then have "SerialNum x div 2048 = ?T \<or> dt' (SerialNum x div 2048) = dt (SerialNum x div 2048)" by (auto simp: dt')
    then show ?thesis
    proof
      assume same: "SerialNum x div 2048 = ?T"
      then have "snIndex (SerialNum x) \<noteq> ?i" using sn_inject [of "SerialNum x" "int n"] i lt by auto
      with same h tw show ?thesis unfolding mock_holds_def by (simp add: dt' tw'_def)
    qed (use h in \<open>auto simp: mock_holds_def\<close>)
  qed
  ultimately show ?thesis using run by blast
qed

lemma mock_deactivate:
  assumes ok: "mock_ok n dt" and h: "mock_holds dt p e"
  shows "\<exists>dt'. MockDataTree_DeactiviateEntry (SerialNum e) dt = Inr (0, dt') \<and> mock_ok n dt' \<and>
    (\<forall>q x. mock_holds dt q x \<and> SerialNum x \<noteq> SerialNum e \<longrightarrow> mock_holds dt' q x)"
proof -
  let ?T = "SerialNum e div 2048" and ?i = "snIndex (SerialNum e)"
  from h obtain tw where tw: "dt ?T = Some tw" unfolding mock_holds_def by blast
  let ?tw = "tw\<lparr>mk_activeBits := (mk_activeBits tw)[?i := False]\<rparr>"
  let ?dt = "dt(?T \<mapsto> ?tw)"
  have run: "MockDataTree_DeactiviateEntry (SerialNum e) dt = Inr (0, ?dt)"
    using tw by (simp add: MockDataTree_DeactiviateEntry_def mockTwig_def)
  have "mock_ok n ?dt"
  proof -
    have "?dt T \<noteq> None \<longleftrightarrow> dt T \<noteq> None" for T using tw by auto
    moreover have "length (mk_activeBits ?tw) = 2048 \<and> length (mk_entries ?tw) = 2048 \<and>
      (\<forall>i < 2048. int n \<le> ?T * 2048 + int i \<longrightarrow> \<not> mk_activeBits ?tw ! i)"
    proof -
      have l: "length (mk_activeBits tw) = 2048" "length (mk_entries tw) = 2048"
        "\<forall>i < 2048. int n \<le> ?T * 2048 + int i \<longrightarrow> \<not> mk_activeBits tw ! i" using ok tw unfolding mock_ok_def by blast+
      with snIndex_less [of "SerialNum e"] show ?thesis by (auto simp: nth_list_update)
    qed
    moreover have "?dt T = Some tw1 \<Longrightarrow> T = ?T \<and> tw1 = ?tw \<or> dt T = Some tw1" for T tw1 by (simp split: if_splits)
    ultimately show ?thesis using ok unfolding mock_ok_def by blast
  qed
  moreover have "mock_holds ?dt q x" if x: "mock_holds dt q x" "SerialNum x \<noteq> SerialNum e" for q x
  proof (cases "SerialNum x div 2048 = ?T")
    case True
    then have "snIndex (SerialNum x) \<noteq> ?i" using sn_inject x(2) by blast
    with True x(1) tw show ?thesis by (simp add: mock_holds_def)
  qed (use x in \<open>simp add: mock_holds_def\<close>)
  ultimately show ?thesis using run by blast
qed

interpretation mock_tree: data_tree MockTreeI maxString 0 mock_ok "\<lambda>_. True" "\<lambda>_. 0" mock_holds
proof
  show "5 \<le> maxString" by (simp add: maxString_def)
next
  fix n dt and e :: Entry
  assume "mock_ok n dt" "SerialNum e = int n"
  from mock_append [OF this] show "\<exists>pos d'. dt_AppendEntry MockTreeI e dt = Inr (pos, d') \<and> mock_ok (Suc n) d' \<and> (0 :: nat) = 0 \<and>
    mock_holds d' pos e \<and> (\<forall>p x. mock_holds dt p x \<longrightarrow> mock_holds d' p x)" by (simp add: MockTreeI_def)
next
  fix n dt p and e :: Entry
  assume "mock_ok n dt" "mock_holds dt p e"
  from mock_deactivate [OF this] show "\<exists>c d'. dt_DeactiviateEntry MockTreeI (SerialNum e) dt = Inr (c, d') \<and> mock_ok n d' \<and>
    0 \<le> Suc 0 \<and> (c \<le> 64 \<longrightarrow> 0 \<le> (64 :: nat)) \<and> (\<forall>q x. mock_holds dt q x \<and> SerialNum x \<noteq> SerialNum e \<longrightarrow> mock_holds d' q x)"
    by (auto simp: MockTreeI_def)
next
  fix n dt p and e :: Entry
  assume "mock_holds dt p e"
  then show "dt_ReadEntry MockTreeI p dt = Inr (Some e)"
    by (auto simp: MockTreeI_def MockDataTree_ReadEntry_def mock_holds_def mockTwig_def nat_mult_distrib Let_def)
qed (auto simp: MockTreeI_def MockDataTree_EndBlock_def)

interpretation mock_store: store MockTreeI maxString 0 mock_ok "\<lambda>_. True" "\<lambda>_. 0" mock_holds
    "MockIndexI :: (MockIndexTree, 'e) IndexTreeI" "\<lambda>t. t" "\<lambda>_ _. True" "\<lambda>_. backward_at" "\<lambda>_. forward_at"
  by unfold_locales

end
