(* ===== verification/OnvaTree.thy ===== *)
theory OnvaTree
  imports OnvaMock TreeRun
begin

text \<open>
  The store with the data tree of tree.go and the index in memory, as \<open>NewOnvaKV\<close> makes it: the tree is
  an instance of the data tree interface, for entries whose strings are at most 1 MiB long.
\<close>

section \<open>The data tree as a data tree\<close>

lemma getAllPos_count: "length sep * length (getAllPos_loop s sep start) \<le> length s - start"
proof (induction s sep start rule: getAllPos_loop.induct)
  case (1 s sep start)
  show ?case
  proof (cases "start + length sep < length s \<and> sep \<noteq> []")
    case True
    show ?thesis
    proof (cases "bytes_Index (drop start s) sep")
      case (Some pos)
      from bytes_Index_Some [OF Some] True have "pos + start + length sep \<le> length s" by auto
      with 1 [OF True Some] Some True show ?thesis by (subst getAllPos_loop.simps) simp
    qed (simp add: getAllPos_loop.simps [of s sep start])
  qed (auto simp: getAllPos_loop.simps [of s sep start])
qed

lemma small_entry_length:
  assumes "small_entry maxString e"
  shows "length (EntryToBytes e sns) \<le> 2 ^ 23 + 8 * length sns"
proof -
  have "8 * length (magicPosList e) \<le> length (entryStrings e)"
    using getAllPos_count [of MagicBytes "entryStrings e" 0] by (simp add: magicPosList_def getAllPos_def)
  moreover have "length (entryStrings e) \<le> 12 + 3 * 2 ^ 20"
    using assms by (auto simp: small_entry_def maxString_def length_entryStrings slice_bytes_def)
  ultimately show ?thesis unfolding length_EntryToBytes by simp
qed

text \<open>Small entries are well formed and fit into a buffer of 16 MiB.\<close>

lemma small_entry_ok:
  assumes "small_entry maxString e" and "length sns \<le> 65" and "\<forall>sn \<in> set sns. in_int64 sn"
  shows "wf_entry e sns" and "length (paddedRecord (EntryToBytes e sns) []) \<le> BufferSize"
proof -
  have "length (EntryToBytes e []) < MaxEntryBytes" using small_entry_length [OF assms(1), of "[]"] by (simp add: MaxEntryBytes_def)
  with assms show "wf_entry e sns" by (simp add: wf_entry_def small_entry_def)
  have "length (EntryToBytes e sns) \<le> 2 ^ 23 + 520" using small_entry_length [OF assms(1), of sns] assms(2) by simp
  moreover have "length (paddedRecord b0 []) \<le> length b0 + 16" for b0 by (simp add: paddedRecord_def getPaddingSize_def Let_def)
  moreover have "m + 16 \<le> 2 ^ 23 + 536" if "m \<le> 2 ^ 23 + 520" for m :: nat using that by simp
  ultimately have "length (paddedRecord (EntryToBytes e sns) []) \<le> 2 ^ 23 + 536" by (meson le_trans)
  moreover have "(2 :: nat) ^ 23 + 536 \<le> BufferSize" by (simp add: BufferSize_def)
  ultimately show "length (paddedRecord (EntryToBytes e sns) []) \<le> BufferSize" by (rule le_trans)
qed

definition tree_ok :: "(bytes \<Rightarrow> bytes) \<Rightarrow> nat \<Rightarrow> Tree \<Rightarrow> bool" where
  "tree_ok sha n t \<longleftrightarrow> tree_inv sha 0 n t \<and> twigsToBeDeleted t = [] \<and> BufferSize \<le> bufferSize (entryFile t) \<and>
     (\<forall>sn \<in> set (deactivedSNList t). in_int64 sn)"

definition tree_holds :: "Tree \<Rightarrow> nat \<Rightarrow> Entry \<Rightarrow> bool" where
  "tree_holds t p e \<longleftrightarrow> 0 \<le> SerialNum e \<and> Value e \<noteq> None \<and> activeTwigs t (nat (SerialNum e) div 2048) \<noteq> None \<and>
     (\<exists>sns. wf_entry e sns \<and> stored (entryFile t) p (MagicBytes @ rawEntry e sns))"

lemma tree_append:
  assumes sha: "hash32 sha" "meow4 meow" and ok: "tree_ok sha n t" and n: "room n" and e: "SerialNum e = int n" "small_entry maxString e"
    and pend: "length (deactivedSNList t) \<le> 65"
  shows "\<exists>pos t'. AppendEntry sha meow e t = Inr (pos, t') \<and> tree_ok sha (Suc n) t' \<and> length (deactivedSNList t') = 0 \<and>
    tree_holds t' pos e \<and> (\<forall>p x. tree_holds t p x \<longrightarrow> tree_holds t' p x)"
proof -
  have inv: "tree_inv sha 0 n t" and sns: "\<forall>sn \<in> set (deactivedSNList t). in_int64 sn" and buf: "BufferSize \<le> bufferSize (entryFile t)"
    and del: "twigsToBeDeleted t = []" using ok by (simp_all add: tree_ok_def)
  note small = small_entry_ok [OF e(2) pend sns]
  have fit: "entry_fits e t" using small(2) buf by (simp add: entry_fits_def)
  have n': "n + 2048 < 2 ^ 63" using n by (simp add: room_def)
  from AppendEntry_ok [OF sha inv n' e(1) fit] obtain t' where run: "AppendEntry sha meow e t = Inr (Size (entryFile t), t')"
    and post: "append_post sha meow 0 n (EntryToBytes e (deactivedSNList t)) [] (t\<lparr>deactivedSNList := []\<rparr>) t'" by blast
  have p: "tree_inv sha 0 (Suc n) t'" "stored (entryFile t') (Size (entryFile t)) (paddedRecord (EntryToBytes e (deactivedSNList t)) [])"
    "deactivedSNList t' = []" "twigsToBeDeleted t' = []" "\<And>T. activeTwigs t T \<noteq> None \<Longrightarrow> activeTwigs t' T \<noteq> None"
    using post del by (simp_all add: append_post_def)
  have grow: "\<And>q d. stored (entryFile t) q d \<Longrightarrow> stored (entryFile t') q d" "bufferSize (entryFile t') = bufferSize (entryFile t)"
    using append_post_sns(2) [OF post] by (simp_all add: files_grow_def)
  have "activeTwigs t (nat (SerialNum e) div 2048) \<noteq> None"
    using inv e(1) by (auto simp: tree_inv_def hash_inv_def youngest_ok_def files_inv_def)
  then have "tree_holds t' (Size (entryFile t)) e"
    using p(5) stored_entry [OF p(2)] small(1) e by (auto simp: tree_holds_def small_entry_def)
  moreover have "tree_holds t' q x" if "tree_holds t q x" for q x
    using that p(5) grow(1) unfolding tree_holds_def by blast
  moreover have "tree_ok sha (Suc n) t'" using p grow(2) buf by (simp add: tree_ok_def)
  ultimately show ?thesis using run p(3) by (intro exI [of _ "Size (entryFile t)"] exI [of _ t']) simp
qed

lemma tree_deactivate:
  assumes ok: "tree_ok sha n t" and h: "tree_holds t p e"
  shows "\<exists>t'. DeactiviateEntry (SerialNum e) t = Inr (Suc (length (deactivedSNList t)), t') \<and> tree_ok sha n t' \<and>
    length (deactivedSNList t') = Suc (length (deactivedSNList t)) \<and> (\<forall>q x. tree_holds t q x \<longrightarrow> tree_holds t' q x)"
proof -
  have inv: "tree_inv sha 0 n t" using ok by (simp add: tree_ok_def)
  let ?sn = "nat (SerialNum e)"
  from h obtain tw where tw: "activeTwigs t (?sn div 2048) = Some tw" unfolding tree_holds_def by blast
  have sn: "int ?sn = SerialNum e" "in_int64 (SerialNum e)" using h by (auto simp: tree_holds_def wf_entry_def)
  from DeactiviateEntry_ok [OF inv tw] obtain t' tw' where t': "DeactiviateEntry (int ?sn) t = Inr (length (deactivedSNList t) + 1, t')"
    "tree_inv sha 0 n t'" "deactivedSNList t' = deactivedSNList t @ [int ?sn]" "activeTwigs t' = (activeTwigs t)(?sn div 2048 \<mapsto> tw')"
    "entryFile t' = entryFile t" by blast
  have nn: "nonneg (int ?sn) = Inr ?sn" by (simp add: nonneg_def)
  from setEntryActiviation_form [OF tw, of False] obtain b where
    "setEntryActiviation ?sn False t = Inr (with_activation t ?sn tw b (deactivedSNList t @ [int ?sn]))" by auto
  then have "t' = with_activation t ?sn tw b (deactivedSNList t @ [int ?sn])" using t'(1) nn by (simp add: DeactiviateEntry_def)
  then have "twigsToBeDeleted t' = twigsToBeDeleted t" by simp
  then have "tree_ok sha n t'" using ok t'(2,3,5) sn by (simp add: tree_ok_def)
  moreover have "tree_holds t' q x" if "tree_holds t q x" for q x
    using that t'(4,5) by (auto simp: tree_holds_def)
  ultimately show ?thesis using t'(1,3) sn(1) by (intro exI [of _ t']) simp
qed

lemma tree_end_block:
  assumes sha: "hash32 sha" and ok: "tree_ok sha n t" and n: "2048 \<le> n"
  shows "\<exists>root t'. EndBlock sha t = Inr (root, t') \<and> tree_ok sha n t' \<and> buffer (entryFile t') = [] \<and>
    length (deactivedSNList t') = length (deactivedSNList t) \<and> (\<forall>p x. tree_holds t p x \<longrightarrow> tree_holds t' p x)"
proof -
  have inv: "tree_inv sha 0 n t" and del: "twigsToBeDeleted t = []" using ok by (simp_all add: tree_ok_def)
  then have hp: "hp_inv (entryFile t)" by (simp add: tree_inv_def files_inv_def)
  have "0 < n div 2048" using n by (simp add: div_greater_zero_iff)
  then have y: "0 < youngestTwigID t" using inv by (simp add: tree_inv_def files_inv_def)
  from EndBlock_ok [OF sha inv y] obtain root t' where t': "EndBlock sha t = Inr (root, t')" "tree_inv sha 0 n t'"
    "flush (entryFile t) = Inr (entryFile t')" "buffer (entryFile t') = []" "twigsToBeDeleted t' = []"
    "deactivedSNList t' = deactivedSNList t"
    "\<forall>T. T \<notin> set (twigsToBeDeleted t) \<longrightarrow> (activeTwigs t' T = None \<longleftrightarrow> activeTwigs t T = None)" by blast
  have st: "stored (entryFile t') = stored (entryFile t)" by (rule flush_stored [OF hp t'(3)])
  have "bufferSize (entryFile t') = bufferSize (entryFile t)" using flush_ok [of "entryFile t"] hp t'(3) by (auto simp: hp_inv_def)
  then have "tree_ok sha n t'" using ok t' by (simp add: tree_ok_def)
  moreover have "tree_holds t' p x" if "tree_holds t p x" for p x
    using that t'(7) del st by (auto simp: tree_holds_def)
  ultimately show ?thesis using t' by (intro exI [of _ root] exI [of _ t']) simp
qed

lemma tree_read:
  assumes "buffer (entryFile t) = []" and "tree_holds t p e"
  shows "Tree_ReadEntry t p = Inr e"
proof -
  from assms(2) obtain sns where e: "wf_entry e sns" "stored (entryFile t) p (MagicBytes @ rawEntry e sns)" "Value e \<noteq> None"
    unfolding tree_holds_def by blast
  have "e\<lparr>Value := Some (slice_bytes (Value e))\<rparr> = e" using e(3) by (auto simp: slice_bytes_def)
  with ReadEntry_ok [OF e(1) assms(1) e(2)] show ?thesis by (auto simp: Tree_ReadEntry_def)
qed

lemma tree_data_tree:
  assumes sha: "hash32 sha" "meow4 meow"
  shows "data_tree (TreeI sha meow) maxString 2048 (tree_ok sha) (\<lambda>t. buffer (entryFile t) = [])
    (\<lambda>t. length (deactivedSNList t)) tree_holds"
proof
  show "5 \<le> maxString" by (simp add: maxString_def)
next
  fix n t and e :: Entry
  assume "tree_ok sha n t" "room n" "SerialNum e = int n" "small_entry maxString e" "length (deactivedSNList t) \<le> 65"
  from tree_append [OF sha this] show "\<exists>pos d'. dt_AppendEntry (TreeI sha meow) e t = Inr (pos, d') \<and> tree_ok sha (Suc n) d' \<and>
    length (deactivedSNList d') = 0 \<and> tree_holds d' pos e \<and> (\<forall>p x. tree_holds t p x \<longrightarrow> tree_holds d' p x)"
    by (simp add: TreeI_def)
next
  fix n t p and e :: Entry
  assume "tree_ok sha n t" "tree_holds t p e"
  from tree_deactivate [OF this] obtain t' where t': "DeactiviateEntry (SerialNum e) t = Inr (Suc (length (deactivedSNList t)), t')" "tree_ok sha n t'"
    "length (deactivedSNList t') = Suc (length (deactivedSNList t))" "\<forall>q x. tree_holds t q x \<longrightarrow> tree_holds t' q x" by blast
  then show "\<exists>c d'. dt_DeactiviateEntry (TreeI sha meow) (SerialNum e) t = Inr (c, d') \<and> tree_ok sha n d' \<and>
    length (deactivedSNList d') \<le> Suc (length (deactivedSNList t)) \<and> (c \<le> 64 \<longrightarrow> length (deactivedSNList d') \<le> 64) \<and>
    (\<forall>q x. tree_holds t q x \<and> SerialNum x \<noteq> SerialNum e \<longrightarrow> tree_holds d' q x)"
    by (intro exI [of _ "Suc (length (deactivedSNList t))"] exI [of _ t']) (simp add: TreeI_def)
next
  fix n t
  assume "tree_ok sha n t" "2048 \<le> n"
  from tree_end_block [OF sha(1) this] show "\<exists>root d'. dt_EndBlock (TreeI sha meow) t = Inr (root, d') \<and> tree_ok sha n d' \<and>
    buffer (entryFile d') = [] \<and> length (deactivedSNList d') = length (deactivedSNList t) \<and> (\<forall>p x. tree_holds t p x \<longrightarrow> tree_holds d' p x)"
    by (simp add: TreeI_def)
next
  fix n t p and e :: Entry
  assume "buffer (entryFile t) = []" "tree_holds t p e"
  from tree_read [OF this] show "dt_ReadEntry (TreeI sha meow) p t = Inr (Some e)" by (simp add: TreeI_def)
qed

text \<open>
  The hash functions are parameters of the tree; a locale fixes them with what is known of them, and
  gives the laws of the data tree and of the store that has it with the index in memory.
\<close>

locale hash_functions =
  fixes sha :: "bytes \<Rightarrow> bytes" and meow :: "bytes \<Rightarrow> bytes"
  assumes sha32: "hash32 sha" and meow32: "meow4 meow"

sublocale hash_functions \<subseteq> onva: store "TreeI sha meow" maxString 2048 "tree_ok sha" "\<lambda>t. buffer (entryFile t) = []"
    "\<lambda>t. length (deactivedSNList t)" tree_holds "NVTreeI :: (NVTreeMem, 'e) IndexTreeI" bt "\<lambda>w t. isWriting t = w" "\<lambda>_. backward_at" "\<lambda>_. forward_at"
  using tree_data_tree [OF sha32 meow32] nv.index_tree_axioms unfolding store_def by blast

interpretation zero: hash_functions zero_sha zero_meow
  by unfold_locales simp_all

end
