(* ===== verification/OnvaMain.thy ===== *)
theory OnvaMain
  imports OnvaTree
begin

text \<open>
  The stores that \<open>NewOnvaKV\<close> and \<open>NewOnvaKV4Mock\<close> create, and what holds for every run of blocks on
  them.
\<close>

section \<open>New stores\<close>

text \<open>The two files of a new directory.\<close>

definition new_files :: "EntryFile \<Rightarrow> TwigMtFile \<Rightarrow> bool" where
  "new_files ef tf \<longleftrightarrow> hp_inv ef \<and> Size ef = 0 \<and> BufferSize \<le> bufferSize ef \<and> hp_inv tf \<and> Size tf = 0 \<and> 32 \<le> bufferSize tf"

lemma new_tree_ok:
  assumes "hash32 sha" and "new_files ef tf"
  shows "tree_ok sha 0 (NewEmptyTree sha ef tf)" "deactivedSNList (NewEmptyTree sha ef tf) = []"
  using assms NewEmptyTree_ok [of sha ef tf] by (simp_all add: tree_ok_def new_files_def) (simp_all add: NewEmptyTree_def)

abbreviation "onva_ok sha \<equiv> store_ok maxString 2048 bt (\<lambda>w t. isWriting t = w) (tree_ok sha) (\<lambda>t. buffer (entryFile t) = [])
  (\<lambda>t. length (deactivedSNList t)) tree_holds"

context hash_functions
begin

lemma createOnvaKV_ok:
  assumes f: "new_files ef tf" and g: "guards_ok maxString s e"
  shows "\<exists>okv ent. createOnvaKV E sha meow ef tf db0 q s e = Inr okv \<and> onva_ok sha 2050 ent okv \<and>
    value_map (index_keys bt okv) ent = guard_map s e \<and> startKey okv = s \<and> endKey okv = e"
proof -
  let ?D = "TreeI sha meow" and ?r = "OpenNewBatch (NewRocksDB db0)"
  obtain m r where m: "MetaDB_Init E (NewMetaDB, ?r) = Inr (m, r)" "md_maxSerialNum m = 0" "batch r \<noteq> None"
    by (auto simp: MetaDB_Init_def Let_def SetIsRunning_def SetTwigMtFileSize_def SetEntryFileSize_def MetaDB_Commit_def OpenNewBatch_def
        RocksDB_SetSync_def CurrBatch_Set_def)
  define okv :: "(NVTreeMem, Tree, 'a) OnvaKV" where "okv = emptyOnvaKV m (NewNVTreeMem q) (NewEmptyTree sha ef tf) r"
  have fields: "datTree okv = NewEmptyTree sha ef tf" "idxTree okv = NewNVTreeMem q" "meta okv = m" "rocksdb okv = r"
    "k2heMap okv = NewBucketMap" "k2nkMap okv = NewBucketMap" "tempEntries64 okv = replicate 64 []"
    by (simp_all add: okv_def emptyOnvaKV_def)
  have "room (0 + length [0 ..< 2048])" by (simp add: room_def)
  from onva.fillDummies_ok [of 0 okv, OF _ _ _ _ this] new_tree_ok [OF sha32 f] m(2,3) fields obtain m1 r1 d1 where d:
    "foldE (\<lambda>_. fillDummy ?D) [0 ..< 2048] okv = Inr (okv\<lparr>meta := m1, rocksdb := r1, datTree := d1\<rparr>)" "tree_ok sha 2048 d1"
    "length (deactivedSNList d1) \<le> 64" "md_maxSerialNum m1 = 2048" "batch r1 \<noteq> None" by auto
  let ?okv1 = "okv\<lparr>meta := m1, rocksdb := r1, datTree := d1\<rparr>"
  have rm: "room (Suc 2048)" by (simp add: room_def)
  have c: "tree_ok sha 2048 (datTree ?okv1)" "length (deactivedSNList (datTree ?okv1)) \<le> 64" "isWriting (idxTree ?okv1) = False"
    "bt (idxTree ?okv1) = []" "md_maxSerialNum (meta ?okv1) = int 2048" "batch (rocksdb ?okv1) \<noteq> None"
    "k2heMap ?okv1 = NewBucketMap" "k2nkMap ?okv1 = NewBucketMap" "tempEntries64 ?okv1 = replicate 64 []"
    using d fields by (simp_all add: NewNVTreeMem_def)
  from onva.InitGuards_ok [OF c(1-6) rm _ c(7-9) g, of E] obtain okv2 ent where o: "InitGuards E NVTreeI ?D s e ?okv1 = Inr okv2"
    "onva_ok sha 2050 ent okv2" "startKey okv2 = s" "endKey okv2 = e" "value_map (index_keys bt okv2) ent = guard_map s e" by auto
  let ?okv3 = "okv2\<lparr>rocksdb := SetIsRunning E True (CloseOldBatch E (rocksdb okv2))\<rparr>"
  have "createOnvaKV E sha meow ef tf db0 q s e = Inr ?okv3"
    using m(1) d(1) o(1) by (simp add: createOnvaKV_def okv_def Let_def)
  moreover have "onva_ok sha 2050 ent ?okv3" using o(2) by (simp add: store_ok_def read_ok_def)
  ultimately show ?thesis using o(3-5) by (intro exI [of _ ?okv3] exI [of _ ent]) simp
qed

text \<open>Every state of a run from a new store.\<close>

lemma onva_run:
  assumes "createOnvaKV E sha meow ef tf db0 q s e = Inr okv0" and "new_files ef tf" and "guards_ok maxString s e"
    and "okv_run E NVTreeI (TreeI sha meow) okv0 (guard_map s e) okv M"
  shows "reads_as NVTreeI (TreeI sha meow) okv M" "okv_CheckConsistency NVTreeI (TreeI sha meow) okv = Inr ()"
    and "block_pre maxString (startKey okv) (endKey okv) preps ops \<Longrightarrow> in_int64 h \<Longrightarrow> block_room (NVTreeI :: (NVTreeMem, 'e) IndexTreeI) okv preps \<Longrightarrow>
      \<exists>okv'. run_block E NVTreeI (TreeI sha meow) h preps ops okv = Some (Inr okv') \<and>
        okv_run E NVTreeI (TreeI sha meow) okv0 (guard_map s e) okv' (apply_ops ops M)"
proof -
  from createOnvaKV_ok [OF assms(2,3), of E db0 q] assms(1) obtain ent where
    o: "onva_ok sha 2050 ent okv0" "value_map (index_keys bt okv0) ent = guard_map s e" by auto
  show "reads_as NVTreeI (TreeI sha meow) okv M" by (rule onva.run_reads_as [OF refl assms(4) o])
  show "okv_CheckConsistency NVTreeI (TreeI sha meow) okv = Inr ()" by (rule onva.run_consistent [OF refl assms(4) o])
  assume "block_pre maxString (startKey okv) (endKey okv) preps ops" "in_int64 h" "block_room (NVTreeI :: (NVTreeMem, 'e) IndexTreeI) okv preps"
  from onva.run_total [OF refl assms(4) o this] show "\<exists>okv'. run_block E NVTreeI (TreeI sha meow) h preps ops okv = Some (Inr okv') \<and>
    okv_run E NVTreeI (TreeI sha meow) okv0 (guard_map s e) okv' (apply_ops ops M)" .
qed

end

text \<open>The mock store.\<close>

lemma mock_new: "mock_ok 0 NewMockDataTree"
  by (auto simp: mock_ok_def NewMockDataTree_def)

abbreviation "mockstore_ok \<equiv> store_ok maxString 0 (\<lambda>t. t) (\<lambda>_ _. True) mock_ok (\<lambda>_. True) (\<lambda>_. 0) mock_holds"

lemma NewOnvaKV4Mock_ok:
  assumes g: "guards_ok maxString s e"
  shows "\<exists>okv ent. NewOnvaKV4Mock E MockTreeI NewMockDataTree db0 s e = Inr okv \<and> mockstore_ok 2 ent okv \<and>
    value_map (index_keys (\<lambda>t. t) okv) ent = guard_map s e \<and> startKey okv = s \<and> endKey okv = e"
proof -
  let ?okv = "emptyOnvaKV NewMetaDB NewMockIndexTree NewMockDataTree (OpenNewBatch (NewRocksDB db0))"
  have "room (Suc 0)" by (simp add: room_def)
  from mock_store.InitGuards_ok [of 0 ?okv, OF _ _ _ _ _ _ this _ _ _ _ g, of E] mock_new show ?thesis
    by (auto simp: NewOnvaKV4Mock_def emptyOnvaKV_def NewMetaDB_def NewMockIndexTree_def OpenNewBatch_def numeral_2_eq_2)
qed


lemma mock_run:
  assumes "NewOnvaKV4Mock E MockTreeI NewMockDataTree db0 s e = Inr okv0" and "guards_ok maxString s e"
    and "okv_run E MockIndexI MockTreeI okv0 (guard_map s e) okv M"
  shows "reads_as MockIndexI MockTreeI okv M"
proof -
  from NewOnvaKV4Mock_ok [OF assms(2), of E db0] assms(1) obtain ent where
    o: "mockstore_ok 2 ent okv0" "value_map (index_keys (\<lambda>t. t) okv0) ent = guard_map s e" by auto
  show ?thesis by (rule mock_store.run_reads_as [OF refl assms(3) o])
qed

section \<open>The properties of the store\<close>

text \<open>
  C4: \<open>NewOnvaKV\<close> in an empty directory returns a store whose index has the two guard keys alone, linked to
  each other, after the 2048 dummy entries that fill the first twig; its consistency check passes.
\<close>

theorem createOnvaKV_guards:
  assumes "hash32 sha" and "meow4 meow" and "new_files ef tf" and "guards_ok maxString s e"
  shows "\<exists>okv. createOnvaKV E sha meow ef tf db0 q s e = Inr okv \<and> reads_as NVTreeI (TreeI sha meow) okv (guard_map s e) \<and>
    okv_CheckConsistency NVTreeI (TreeI sha meow) okv = Inr () \<and> GetMaxSerialNum (meta okv) = 2050"
proof -
  have hf: "hash_functions sha meow" using assms(1,2) by unfold_locales
  from hash_functions.createOnvaKV_ok [OF hf assms(3,4), of E db0 q] obtain okv ent where
    o: "createOnvaKV E sha meow ef tf db0 q s e = Inr okv" "onva_ok sha 2050 ent okv" by blast
  from hash_functions.onva_run(1,2) [OF hf o(1) assms(3,4) run_start] o show ?thesis
    by (auto simp: store_ok_def GetMaxSerialNum_def)
qed

text \<open>Two new files with the sizes of the code, and a new store over them.\<close>

definition newFile :: EntryFile where
  "newFile = InitPreReader \<lparr>fileMap = [0 \<mapsto> \<lparr>contents = [], offset = 0\<rparr>], blockSize = defaultFileSize, largestID = 0,
     latestFileSize = 0, bufferSize = BufferSize, buffer = [], preReader = PreReader_zero\<rparr>"

lemma newFile_ok: "new_files newFile newFile"
  by (simp add: new_files_def newFile_def hp_inv_def hp_ok_def InitPreReader_def Size_def BufferSize_def defaultFileSize_def)

lemma sample_guards: "guards_ok maxString [1] [255]"
  by (simp add: guards_ok_def maxString_def)

theorem createOnvaKV_guards_witness:
  "\<exists>okv. createOnvaKV list_engine zero_sha zero_meow newFile newFile [] False [1] [255] = Inr okv \<and> GetMaxSerialNum (meta okv) = 2050 \<and>
    okv_CheckConsistency NVTreeI (TreeI zero_sha zero_meow) okv = Inr ()"
  using createOnvaKV_guards [OF zero_hashes newFile_ok sample_guards, of list_engine "[]" False] by blast

text \<open>
  C1: a block of a store refines the update of a map. From every state of a run from a new store with the
  abstract map \<open>M\<close>, a block that prepares the keys it changes - at most one operation on a key - always
  returns, and its result reads as \<open>M\<close> with the operations applied: every key is found with its value and
  with the next key as its link, every other key is not found, and the active count is the number of keys.
\<close>

theorem OnvaKV_block:
  assumes "hash32 sha" and "meow4 meow" and "new_files ef tf" and "guards_ok maxString s e"
    and "createOnvaKV E sha meow ef tf db0 q s e = Inr okv0" and "okv_run E NVTreeI (TreeI sha meow) okv0 (guard_map s e) okv M"
    and "block_pre maxString (startKey okv) (endKey okv) preps ops" and "in_int64 h" and "block_room NVTreeI okv preps"
  shows "\<exists>okv'. run_block E NVTreeI (TreeI sha meow) h preps ops okv = Some (Inr okv') \<and>
    reads_as NVTreeI (TreeI sha meow) okv' (apply_ops ops M) \<and>
    okv_run E NVTreeI (TreeI sha meow) okv0 (guard_map s e) okv' (apply_ops ops M)"
proof -
  have hf: "hash_functions sha meow" using assms(1,2) by unfold_locales
  note run = hash_functions.onva_run [OF hf assms(5,3,4)]
  from run(3) [OF assms(6-9)] obtain okv' where o: "run_block E NVTreeI (TreeI sha meow) h preps ops okv = Some (Inr okv')"
    "okv_run E NVTreeI (TreeI sha meow) okv0 (guard_map s e) okv' (apply_ops ops M)" by blast
  from run(1) [OF o(2)] o show ?thesis by blast
qed

text \<open>
  C2: in every state of a run \<open>GetEntry\<close> returns, with the value of the abstract map for a key that is in
  it and with nothing for a key that is not.
\<close>

theorem OnvaKV_GetEntry:
  assumes "hash32 sha" and "meow4 meow" and "new_files ef tf" and "guards_ok maxString s e"
    and "createOnvaKV E sha meow ef tf db0 q s e = Inr okv0" and "okv_run E NVTreeI (TreeI sha meow) okv0 (guard_map s e) okv M"
  shows "(M k = Some v \<longleftrightarrow> (\<exists>entry. GetEntry NVTreeI (TreeI sha meow) k okv = Inr (Some entry) \<and> Key entry = k \<and> Value entry = Some v)) \<and>
    (M k = None \<longleftrightarrow> GetEntry NVTreeI (TreeI sha meow) k okv = Inr None)"
proof -
  have hf: "hash_functions sha meow" using assms(1,2) by unfold_locales
  note reads_asD [OF hash_functions.onva_run(1) [OF hf assms(5,3,4,6)], of k]
  then show ?thesis by (cases "M k") auto
qed

text \<open>
  C3: in every state of a run the store's own check \<open>CheckConsistency\<close> passes: from the end guard down to
  the start guard every entry is linked to the one behind it.
\<close>

theorem OnvaKV_CheckConsistency:
  assumes "hash32 sha" and "meow4 meow" and "new_files ef tf" and "guards_ok maxString s e"
    and "createOnvaKV E sha meow ef tf db0 q s e = Inr okv0" and "okv_run E NVTreeI (TreeI sha meow) okv0 (guard_map s e) okv M"
  shows "okv_CheckConsistency NVTreeI (TreeI sha meow) okv = Inr ()"
  using hash_functions.onva_run(2) [OF _ assms(5,3,4,6)] assms(1,2) by (simp add: hash_functions_def)

text \<open>
  C5: the mock store is a stand-in for the real one: when a run of the store with its files and a run of
  the mock store have the same abstract map, both read the same key, value and next key everywhere.
\<close>

theorem OnvaKV_mock_equivalent:
  assumes "hash32 sha" and "meow4 meow" and "new_files ef tf" and "guards_ok maxString s e"
    and "createOnvaKV E sha meow ef tf db0 q s e = Inr okv0" and "okv_run E NVTreeI (TreeI sha meow) okv0 (guard_map s e) okv M"
    and "NewOnvaKV4Mock E' MockTreeI NewMockDataTree db1 s e = Inr mock0" and "okv_run E' MockIndexI MockTreeI mock0 (guard_map s e) mock M"
  shows "\<exists>r r'. GetEntry NVTreeI (TreeI sha meow) k okv = Inr r \<and> GetEntry MockIndexI MockTreeI k mock = Inr r' \<and>
    map_option (\<lambda>x. (Key x, Value x, NextKey x)) r = map_option (\<lambda>x. (Key x, Value x, NextKey x)) r'"
proof -
  have hf: "hash_functions sha meow" using assms(1,2) by unfold_locales
  note real = reads_asD [OF hash_functions.onva_run(1) [OF hf assms(5,3,4,6)], of k]
  note mock = reads_asD [OF mock_run [OF assms(7,4,8)], of k]
  show ?thesis
  proof (cases "M k")
    case None
    with real(1) mock(1) show ?thesis by simp
  next
    case (Some v)
    from real(2) [OF Some] mock(2) [OF Some] show ?thesis by auto
  qed
qed

section \<open>A run\<close>

text \<open>The block that inserts a key into a new store, with the files and on the mock.\<close>

lemma insert_block:
  assumes "startKey okv = [1]" and "endKey okv = [255]"
  shows "block_pre maxString (startKey okv) (endKey okv) [ForUpdate [5]] [([5], Some [7])]"
  using assms by (simp add: block_pre_def maxString_def)

lemma sample_map:
  "apply_ops [([5], Some [7])] (guard_map [1] [255]) [5] = Some [7]"
  "next_key (dom (apply_ops [([5], Some [7])] (guard_map [1] [255]))) [5] = [255 :: byte]"
proof -
  have dom: "dom (apply_ops [([5], Some [7])] (guard_map [1] [255])) = {[1], [255], [5 :: byte]}" by (auto simp: guard_map_def)
  show "next_key (dom (apply_ops [([5], Some [7])] (guard_map [1] [255]))) [5] = [255 :: byte]"
    unfolding dom by (rule next_key_eqI) auto
qed simp

lemma new_store_room:
  assumes "onva_ok sha 2050 ent okv" and "value_map (index_keys bt okv) ent = guard_map [1] [255]"
    and "reads_as NVTreeI (TreeI sha meow) okv (guard_map [1] [255])"
  shows "block_room NVTreeI okv [ForUpdate [5]]"
proof -
  have "dom (guard_map [1] [255]) = {[1], [255 :: byte]}" by (auto simp: guard_map_def)
  then have "card (dom (guard_map [1] [255 :: byte])) \<le> 2" by (simp add: card_insert_if)
  with assms(1,3) show ?thesis by (simp add: block_room_def reads_as_def store_ok_def)
qed

lemma sample_run:
  "\<exists>okv0. createOnvaKV list_engine zero_sha zero_meow newFile newFile [] False [1] [255] = Inr okv0 \<and>
    startKey okv0 = [1] \<and> endKey okv0 = [255] \<and> block_room NVTreeI okv0 [ForUpdate [5]] \<and>
    (\<exists>okv1. run_block list_engine NVTreeI (TreeI zero_sha zero_meow) 1 [ForUpdate [5]] [([5], Some [7])] okv0 = Some (Inr okv1) \<and>
       okv_run list_engine NVTreeI (TreeI zero_sha zero_meow) okv0 (guard_map [1] [255]) okv1
         (apply_ops [([5], Some [7])] (guard_map [1] [255])))"
proof -
  have hf: "hash_functions zero_sha zero_meow" by unfold_locales simp_all
  from hash_functions.createOnvaKV_ok [OF hf newFile_ok sample_guards, of list_engine "[]" False] obtain okv0 ent where
    o: "createOnvaKV list_engine zero_sha zero_meow newFile newFile [] False [1] [255] = Inr okv0" "onva_ok zero_sha 2050 ent okv0"
    "value_map (index_keys bt okv0) ent = guard_map [1] [255]" "startKey okv0 = [1]" "endKey okv0 = [255]" by blast
  note run = hash_functions.onva_run [OF hf o(1) newFile_ok sample_guards run_start]
  have room: "block_room NVTreeI okv0 [ForUpdate [5]]" by (rule new_store_room [OF o(2,3) run(1)])
  from run(3) [OF insert_block [OF o(4,5)] _ room, of 1] o room show ?thesis by (auto simp: in_int64_def)
qed

theorem OnvaKV_block_witness:
  "\<exists>okv0 okv1 entry. createOnvaKV list_engine zero_sha zero_meow newFile newFile [] False [1] [255] = Inr okv0 \<and>
    run_block list_engine NVTreeI (TreeI zero_sha zero_meow) 1 [ForUpdate [5]] [([5], Some [7])] okv0 = Some (Inr okv1) \<and>
    GetEntry NVTreeI (TreeI zero_sha zero_meow) [5] okv1 = Inr (Some entry) \<and> Value entry = Some [7] \<and> NextKey entry = [255]"
proof -
  from sample_run obtain okv0 where o: "createOnvaKV list_engine zero_sha zero_meow newFile newFile [] False [1] [255] = Inr okv0"
    "startKey okv0 = [1]" "endKey okv0 = [255]" "block_room NVTreeI okv0 [ForUpdate [5]]" by blast
  from OnvaKV_block [OF zero_hashes newFile_ok sample_guards o(1) run_start insert_block [OF o(2,3)] _ o(4), of 1]
  obtain okv1 where okv1: "run_block list_engine NVTreeI (TreeI zero_sha zero_meow) 1 [ForUpdate [5]] [([5], Some [7])] okv0 = Some (Inr okv1)"
    "reads_as NVTreeI (TreeI zero_sha zero_meow) okv1 (apply_ops [([5], Some [7])] (guard_map [1] [255]))" by (auto simp: in_int64_def)
  from reads_asD(2) [OF okv1(2) sample_map(1)] okv1(1) o(1) show ?thesis unfolding sample_map(2) by blast
qed

theorem OnvaKV_GetEntry_witness:
  "\<exists>okv0 okv1 entry. createOnvaKV list_engine zero_sha zero_meow newFile newFile [] False [1] [255] = Inr okv0 \<and>
    run_block list_engine NVTreeI (TreeI zero_sha zero_meow) 1 [ForUpdate [5]] [([5], Some [7])] okv0 = Some (Inr okv1) \<and>
    GetEntry NVTreeI (TreeI zero_sha zero_meow) [5] okv1 = Inr (Some entry) \<and> Value entry = Some [7] \<and>
    GetEntry NVTreeI (TreeI zero_sha zero_meow) [6] okv1 = Inr None"
proof -
  from sample_run obtain okv0 okv1 where o: "createOnvaKV list_engine zero_sha zero_meow newFile newFile [] False [1] [255] = Inr okv0"
    "run_block list_engine NVTreeI (TreeI zero_sha zero_meow) 1 [ForUpdate [5]] [([5], Some [7])] okv0 = Some (Inr okv1)"
    "okv_run list_engine NVTreeI (TreeI zero_sha zero_meow) okv0 (guard_map [1] [255]) okv1 (apply_ops [([5], Some [7])] (guard_map [1] [255]))"
    by blast
  note G = OnvaKV_GetEntry [OF zero_hashes newFile_ok sample_guards o(1,3)]
  have "apply_ops [([5], Some [7])] (guard_map [1] [255]) [6] = None" by (simp add: guard_map_def)
  with G [of "[6]"] G [of "[5]" "[7]"] sample_map(1) o(1,2) show ?thesis by blast
qed

theorem OnvaKV_CheckConsistency_witness:
  "\<exists>okv0 okv1. createOnvaKV list_engine zero_sha zero_meow newFile newFile [] False [1] [255] = Inr okv0 \<and>
    run_block list_engine NVTreeI (TreeI zero_sha zero_meow) 1 [ForUpdate [5]] [([5], Some [7])] okv0 = Some (Inr okv1) \<and>
    okv_CheckConsistency NVTreeI (TreeI zero_sha zero_meow) okv1 = Inr ()"
proof -
  from sample_run obtain okv0 okv1 where o: "createOnvaKV list_engine zero_sha zero_meow newFile newFile [] False [1] [255] = Inr okv0"
    "run_block list_engine NVTreeI (TreeI zero_sha zero_meow) 1 [ForUpdate [5]] [([5], Some [7])] okv0 = Some (Inr okv1)"
    "okv_run list_engine NVTreeI (TreeI zero_sha zero_meow) okv0 (guard_map [1] [255]) okv1 (apply_ops [([5], Some [7])] (guard_map [1] [255]))"
    by blast
  from OnvaKV_CheckConsistency [OF zero_hashes newFile_ok sample_guards o(1,3)] o(1,2) show ?thesis by blast
qed

theorem OnvaKV_mock_equivalent_witness:
  "\<exists>okv0 mock0 r r'. createOnvaKV list_engine zero_sha zero_meow newFile newFile [] False [1] [255] = Inr okv0 \<and>
    NewOnvaKV4Mock list_engine MockTreeI NewMockDataTree [] [1] [255] = Inr mock0 \<and>
    GetEntry NVTreeI (TreeI zero_sha zero_meow) [1] okv0 = Inr r \<and> GetEntry MockIndexI MockTreeI [1] mock0 = Inr r' \<and>
    map_option (\<lambda>x. (Key x, Value x, NextKey x)) r = map_option (\<lambda>x. (Key x, Value x, NextKey x)) r'"
proof -
  from sample_run obtain okv0 where o: "createOnvaKV list_engine zero_sha zero_meow newFile newFile [] False [1] [255] = Inr okv0" by blast
  from NewOnvaKV4Mock_ok [OF sample_guards, of list_engine "[]"] obtain mock0 where
    m: "NewOnvaKV4Mock list_engine MockTreeI NewMockDataTree [] [1] [255] = Inr mock0" by blast
  from OnvaKV_mock_equivalent [OF zero_hashes newFile_ok sample_guards o run_start m run_start, of "[1]"] o m show ?thesis by blast
qed

end
