(* ===== verification/OnvaCrash.thy ===== *)
theory OnvaCrash
  imports OnvaMain
begin

text \<open>
  What a restart finds when the store was not closed: the marks that \<open>NewOnvaKV\<close> and the blocks leave in
  the RocksDB send it to \<open>RecoverTree\<close> with the number -1 of the last pruned twig, which always fails.
\<close>

section \<open>The marks\<close>

text \<open>What the database will hold once the batch is written.\<close>

definition batch_view :: "('e \<Rightarrow> bytes \<rightharpoonup> bytes) \<Rightarrow> 'e RocksDB \<Rightarrow> bytes \<rightharpoonup> bytes" where
  "batch_view cont r = (case batch r of None \<Rightarrow> cont (db r) | Some b \<Rightarrow> fold apply_op b (cont (db r)))"

lemma view_batch [simp]:
  "CurrBatch_Set k v r = Inr r' \<Longrightarrow> batch_view cont r' = (batch_view cont r)(k \<mapsto> v)"
  "CurrBatch_Delete k r = Inr r' \<Longrightarrow> batch_view cont r' = (batch_view cont r)(k := None)"
  by (auto simp: CurrBatch_Set_def CurrBatch_Delete_def batch_view_def split: option.splits)

lemma view_Close: "engine_ok E cont snap cur \<Longrightarrow> cont (db (CloseOldBatch E r)) = batch_view cont r"
  by (simp add: CloseOldBatch_def batch_view_def engine_okD split: option.split)

text \<open>The two records, and the counter of the last pruned twig in memory, stay as they are.\<close>

definition calm_db :: "('e \<Rightarrow> bytes \<rightharpoonup> bytes) \<Rightarrow> 'e RocksDB \<Rightarrow> 'e RocksDB \<Rightarrow> bool" where
  "calm_db cont r r' \<longleftrightarrow> (\<forall>k \<in> {[ByteLastPrunedTwig], [ByteIsRunning]}. batch_view cont r' k = batch_view cont r k)"

definition calm :: "('e \<Rightarrow> bytes \<rightharpoonup> bytes) \<Rightarrow> ('i, 'd, 'e) OnvaKV \<Rightarrow> ('i, 'd, 'e) OnvaKV \<Rightarrow> bool" where
  "calm cont okv okv' \<longleftrightarrow> md_lastPrunedTwig (meta okv') = md_lastPrunedTwig (meta okv) \<and> calm_db cont (rocksdb okv) (rocksdb okv')"

lemma calm_refl [simp]: "calm_db cont r r" "calm cont okv okv"
  by (simp_all add: calm_db_def calm_def)

lemma calm_trans [trans]: "calm cont a b \<Longrightarrow> calm cont b c \<Longrightarrow> calm cont a c"
  by (simp add: calm_db_def calm_def)

lemma calm_foldE: "foldE f xs a = Inr b \<Longrightarrow> (\<And>x s t. f x s = Inr t \<Longrightarrow> calm cont s t) \<Longrightarrow> calm cont a b"
  by (erule foldE_invariant [where I = "calm cont a"]) (blast intro: calm_refl calm_trans)+

text \<open>The steps of a block.\<close>

lemma Set_calm: "CurrBatch_Set k v r = Inr r' \<Longrightarrow> k \<noteq> [ByteLastPrunedTwig] \<Longrightarrow> k \<noteq> [ByteIsRunning] \<Longrightarrow> calm_db cont r r'"
  by (auto simp: calm_db_def)

lemma IncrMaxSerialNum_calm: "okv_IncrMaxSerialNum okv = Inr okv' \<Longrightarrow> calm cont okv okv'"
  by (auto simp: okv_IncrMaxSerialNum_def IncrMaxSerialNum_def setTwigHeight_def twigHeightKey_def meta_bytes calm_def calm_db_def
      Let_def outcome_simps split: if_splits)

lemma AppendEntry_calm: "okv_AppendEntry D e okv = Inr (pos, okv') \<Longrightarrow> calm cont okv okv'"
  by (auto simp: okv_AppendEntry_def calm_def outcome_simps)

lemma idxSet_calm: "okv_idxSet NVTreeI k pos okv = Inr okv' \<Longrightarrow> calm cont okv okv'"
  by (auto simp: okv_idxSet_def NVTreeI_def NVTreeMem_Set_def bt_PutNewAndGetOld_def calm_def calm_db_def meta_bytes Let_def outcome_simps
      split: if_splits)

lemma idxDelete_calm: "okv_idxDelete NVTreeI k okv = Inr okv' \<Longrightarrow> calm cont okv okv'"
  by (auto simp: okv_idxDelete_def NVTreeI_def NVTreeMem_Delete_def calm_def calm_db_def meta_bytes Let_def outcome_simps
      split: if_splits option.splits)

lemma datTree_calm [simp]: "calm cont okv (okv\<lparr>datTree := d\<rparr>)"
  by (simp add: calm_def)

lemma Deactiviate_calm: "okv_DeactiviateEntry D sn okv = Inr okv' \<Longrightarrow> calm cont okv okv'"
  by (auto simp: okv_DeactiviateEntry_def Let_def outcome_simps split: if_splits
      dest!: IncrMaxSerialNum_calm [where cont = cont] AppendEntry_calm [where cont = cont])
    (simp add: calm_def calm_db_def)

lemma storeEntry_calm: "storeEntry NVTreeI D h okv = Inr okv' \<Longrightarrow> calm cont okv okv'"
  by (auto simp: Let_def outcome_simps split: if_splits
      dest!: IncrMaxSerialNum_calm [where cont = cont] AppendEntry_calm [where cont = cont] Deactiviate_calm [where cont = cont]
        idxSet_calm [where cont = cont] idxDelete_calm [where cont = cont])
    (simp_all add: calm_def calm_db_def)

lemma update_calm:
  assumes "update NVTreeI D okv = Inr okv'"
  shows "calm cont okv okv'"
proof -
  from assms obtain ts ces where "foldE (storeEntry NVTreeI D) ces (okv\<lparr>tempEntries64 := ts, cachedEntries := ces\<rparr>) = Inr okv'"
    by (auto simp: update_def outcome_simps)
  then have "calm cont (okv\<lparr>tempEntries64 := ts, cachedEntries := ces\<rparr>) okv'" by (rule calm_foldE) (rule storeEntry_calm)
  then show ?thesis by (simp add: calm_def)
qed

lemma reapEntry_calm: "reapEntry NVTreeI D bz okv = Inr okv' \<Longrightarrow> calm cont okv okv'"
  by (auto simp: reapEntry_def Let_def outcome_simps
      dest!: IncrMaxSerialNum_calm [where cont = cont] Deactiviate_calm [where cont = cont] idxSet_calm [where cont = cont])
    (simp add: calm_def calm_db_def)

lemma reapTwig_calm:
  assumes "reapTwig NVTreeI D okv = Inr okv'"
  shows "calm cont okv okv'"
proof -
  from assms obtain es o1 d where o: "foldE (reapEntry NVTreeI D) es okv = Inr o1"
    "okv' = o1\<lparr>datTree := d, meta := IncrOldestActiveTwigID (meta o1)\<rparr>"
    by (auto simp: reapTwig_def Let_def outcome_simps)
  from o(1) have "calm cont okv o1" by (rule calm_foldE) (rule reapEntry_calm)
  then show ?thesis by (simp add: o(2) calm_def IncrOldestActiveTwigID_def)
qed

lemma reapTwigs_calm:
  fixes okv :: "(NVTreeMem, 'd, 'e) OnvaKV"
  assumes "reapTwigs NVTreeI D okv = Some (Inr okv')"
  shows "calm cont okv okv'"
proof -
  have "I = NVTreeI \<longrightarrow> (\<forall>okv'. y = Inr okv' \<longrightarrow> calm cont okv okv')" if "reapTwigs I D okv = Some y"
    for I :: "(NVTreeMem, 'e) IndexTreeI" and D y and okv :: "(NVTreeMem, 'd, 'e) OnvaKV"
    by (rule reapTwigs.raw_induct [OF _ that, where P = "\<lambda>I D okv y. I = NVTreeI \<longrightarrow> (\<forall>okv'. y = Inr okv' \<longrightarrow> calm cont okv okv')"])
      (auto split: if_splits sum.splits intro: calm_trans [OF reapTwig_calm])
  with assms show ?thesis by blast
qed

section \<open>A block\<close>

lemma run_op_calm: "run_op op okv = Inr okv' \<Longrightarrow> calm cont okv okv'"
  by (cases "Load (fst op) (k2heMap okv)")
    (auto simp: run_op_def okv_Set_def okv_Delete_def storeHot_def calm_def outcome_simps split: option.splits)

lemma run_prepare_keeps: "run_prepare I D p okv = Inr okv' \<Longrightarrow> meta okv' = meta okv \<and> rocksdb okv' = rocksdb okv"
  by (cases p) (auto simp: run_prepare_def PrepareForUpdate_def PrepareForDeletion_def storeHot_def storeNext_def outcome_simps split: option.splits)


lemma run_block_marks:
  assumes ok: "engine_ok E cont snap cur" and run: "run_block E NVTreeI D h preps ops okv = Some (Inr okv')"
  shows "md_lastPrunedTwig (meta okv') = md_lastPrunedTwig (meta okv)"
    and "cont (db (rocksdb okv')) [ByteLastPrunedTwig] = Some (int64Bytes (md_lastPrunedTwig (meta okv)))"
    and "cont (db (rocksdb okv')) [ByteIsRunning] = cont (db (rocksdb okv)) [ByteIsRunning]"
proof -
  from run obtain o1 o2 o3 o4 o5 where o: "foldE (run_prepare NVTreeI D) preps okv = Inr o1" "okv_BeginWrite NVTreeI h o1 = Inr o2"
    "foldE run_op ops o2 = Inr o3" "update NVTreeI D o3 = Inr o4" "reapTwigs NVTreeI D o4 = Some (Inr o5)" "finishBlock E NVTreeI D o5 = Inr okv'"
    by (auto simp: run_block_def okv_EndWrite_def outcome_simps split: sum.splits)
  have "meta o1 = meta okv \<and> rocksdb o1 = rocksdb okv"
    by (rule foldE_invariant [OF o(1), where I = "\<lambda>x. meta x = meta okv \<and> rocksdb x = rocksdb okv"]) (auto dest: run_prepare_keeps)
  then have o2: "md_lastPrunedTwig (meta o2) = md_lastPrunedTwig (meta okv)" "batch_view cont (rocksdb o2) = cont (db (rocksdb okv))"
    using o(2) by (auto simp: okv_BeginWrite_def SetCurrHeight_def OpenNewBatch_def batch_view_def outcome_simps)
  from o(3) have "calm cont o2 o3" by (rule calm_foldE) (rule run_op_calm)
  also have "calm cont o3 o4" by (rule update_calm [OF o(4)])
  also have "calm cont o4 o5" by (rule reapTwigs_calm [OF o(5)])
  finally have c: "md_lastPrunedTwig (meta o5) = md_lastPrunedTwig (meta okv)"
    "batch_view cont (rocksdb o5) [ByteIsRunning] = cont (db (rocksdb okv)) [ByteIsRunning]" using o2 by (simp_all add: calm_def calm_db_def)
  from o(6) obtain r where r: "rocksdb okv' = CloseOldBatch E r" "md_lastPrunedTwig (meta okv') = md_lastPrunedTwig (meta o5)"
    "batch_view cont r [ByteLastPrunedTwig] = Some (int64Bytes (md_lastPrunedTwig (meta o5)))"
    "batch_view cont r [ByteIsRunning] = batch_view cont (rocksdb o5) [ByteIsRunning]"
    by (auto simp: finishBlock_def Let_def SetEntryFileSize_def SetTwigMtFileSize_def MetaDB_Commit_def meta_bytes case_prod_beta outcome_simps)
  with c show "md_lastPrunedTwig (meta okv') = md_lastPrunedTwig (meta okv)"
    "cont (db (rocksdb okv')) [ByteLastPrunedTwig] = Some (int64Bytes (md_lastPrunedTwig (meta okv)))"
    "cont (db (rocksdb okv')) [ByteIsRunning] = cont (db (rocksdb okv)) [ByteIsRunning]"
    by (simp_all add: view_Close [OF ok])
qed

section \<open>A new store and its runs\<close>

lemma fillDummy_calm: "fillDummy D okv = Inr okv' \<Longrightarrow> calm cont okv okv'"
  by (auto simp: fillDummy_def Let_def outcome_simps dest!: IncrMaxSerialNum_calm [where cont = cont] AppendEntry_calm [where cont = cont])
    (simp add: calm_def calm_db_def)

lemma initGuard_calm: "initGuard NVTreeI D k nk okv = Inr okv' \<Longrightarrow> calm cont okv okv'"
  by (auto simp: initGuard_def Let_def outcome_simps
      dest!: IncrMaxSerialNum_calm [where cont = cont] AppendEntry_calm [where cont = cont] idxSet_calm [where cont = cont])
    (simp add: calm_def calm_db_def)

definition marked :: "('e \<Rightarrow> bytes \<rightharpoonup> bytes) \<Rightarrow> ('i, 'd, 'e) OnvaKV \<Rightarrow> bool" where
  "marked cont okv \<longleftrightarrow> md_lastPrunedTwig (meta okv) = -1 \<and> cont (db (rocksdb okv)) [ByteLastPrunedTwig] = Some (int64Bytes (-1)) \<and>
     cont (db (rocksdb okv)) [ByteIsRunning] = Some [1]"

lemma createOnvaKV_marked:
  assumes ok: "engine_ok E cont snap cur" and new: "createOnvaKV E sha meow ef tf db0 q s e = Inr okv"
  shows "marked cont okv"
proof -
  let ?D = "TreeI sha meow"
  from new obtain m r o1 o2 where o: "MetaDB_Init E (NewMetaDB, OpenNewBatch (NewRocksDB db0)) = Inr (m, r)"
    "foldE (\<lambda>_. fillDummy ?D) [0 ..< 2048] (emptyOnvaKV m (NewNVTreeMem q) (NewEmptyTree sha ef tf) r) = Inr o1"
    "InitGuards E NVTreeI ?D s e o1 = Inr o2" "okv = o2\<lparr>rocksdb := SetIsRunning E True (CloseOldBatch E (rocksdb o2))\<rparr>"
    by (auto simp: createOnvaKV_def Let_def outcome_simps simp del: upt_Suc)
  have m: "md_lastPrunedTwig m = -1" using o(1) by (auto simp: MetaDB_Init_def Let_def outcome_simps)
  from o(2) have "calm cont (emptyOnvaKV m (NewNVTreeMem q) (NewEmptyTree sha ef tf) r) o1" by (rule calm_foldE) (rule fillDummy_calm)
  with m have o1: "md_lastPrunedTwig (meta o1) = -1" by (simp add: calm_def emptyOnvaKV_def)
  from o(3) obtain i g1 g2 r' where g: "initGuard NVTreeI ?D s e (o1\<lparr>startKey := s, endKey := e, idxTree := i, meta := SetCurrHeight (-1) (meta o1)\<rparr>) = Inr g1"
    "initGuard NVTreeI ?D e e g1 = Inr g2" "MetaDB_Commit (meta g2) (rocksdb g2) = Inr r'" "meta o2 = meta g2"
    "rocksdb o2 = OpenNewBatch (CloseOldBatch E r')"
    by (auto simp: InitGuards_def Let_def outcome_simps)
  from initGuard_calm [OF g(1), of cont] initGuard_calm [OF g(2), of cont] o1
  have g2: "md_lastPrunedTwig (meta g2) = -1" by (simp add: calm_def SetCurrHeight_def)
  have "batch_view cont r' [ByteLastPrunedTwig] = Some (int64Bytes (-1))"
    using g(3) g2 by (auto simp: MetaDB_Commit_def meta_bytes outcome_simps)
  then have "cont (db (CloseOldBatch E (rocksdb o2))) [ByteLastPrunedTwig] = Some (int64Bytes (-1))"
    by (simp add: view_Close [OF ok] g(5)) (simp add: batch_view_def OpenNewBatch_def view_Close [OF ok])
  then show ?thesis using g2 g(4) by (simp add: marked_def o(4) SetIsRunning_def RocksDB_SetSync_def engine_okD [OF ok] meta_bytes)
qed

lemma okv_run_marked:
  assumes "engine_ok E cont snap cur" and "okv_run E NVTreeI D okv0 M0 okv M" and "marked cont okv0"
  shows "marked cont okv"
  using assms(2)
proof induction
  case (run_more okv M preps ops h okv')
  then show ?case using run_block_marks [OF assms(1) run_more.hyps(5)] by (simp add: marked_def)
qed (rule assms(3))

text \<open>
  C33: a store that was never pruned cannot be opened again after a crash. After any run of blocks on a new
  store, \<open>NewOnvaKV\<close> on what the RocksDB then holds finds the running mark, takes the path of
  \<open>RecoverTree\<close> with the number -1 of the last pruned twig, and fails, whatever the directory of the data
  tree holds: the recovery reads in front of the twig file.
\<close>

theorem reopen_after_crash_fails:
  assumes "engine_ok E cont snap cur" and "createOnvaKV E sha meow ef tf db0 q s e = Inr okv0"
    and "okv_run E NVTreeI (TreeI sha meow) okv0 M0 okv M"
  shows "\<exists>err. reopenOnvaKV E sha meow dir (db (rocksdb okv)) q' = Some (Inl err)"
proof -
  let ?r = "NewRocksDB (db (rocksdb okv))"
  from okv_run_marked [OF assms(1,3) createOnvaKV_marked [OF assms(1,2)]] have m: "marked cont okv" .
  have get: "RocksDB_Get E ?r = cont (db (rocksdb okv))" by (simp add: fun_eq_iff RocksDB_Get_def NewRocksDB_def engine_okD [OF assms(1)])
  then have run: "GetIsRunning E ?r" using m by (simp add: GetIsRunning_def marked_def)
  have p: "loadCounter E ?r ByteLastPrunedTwig = Inr (-1)" using m get by (simp add: loadCounter_def marked_def in_int64_def)
  have "\<exists>err. bindE (ReloadFromKVDB E ?r NewMetaDB) (\<lambda>m. bindE (openDataTree E sha meow dir m ?r) (\<lambda>t. Inr (m, t))) = Inl err"
  proof (cases "ReloadFromKVDB E ?r NewMetaDB")
    case (Inr n)
    then have "GetLastPrunedTwig n < 0" by (auto simp: ReloadFromKVDB_def p GetLastPrunedTwig_def outcome_simps)
    then have "\<exists>err. openDataTree E sha meow dir n ?r = Inl err"
      using RecoverTree_negative by (simp add: openDataTree_def run bindE_def split: sum.split)
    with Inr show ?thesis by auto
  qed simp
  then show ?thesis by (auto simp: reopenOnvaKV_def Let_def)
qed

theorem reopen_after_crash_fails_witness:
  "\<exists>okv0 okv1. createOnvaKV list_engine zero_sha zero_meow newFile newFile [] False [1] [255] = Inr okv0 \<and>
    run_block list_engine NVTreeI (TreeI zero_sha zero_meow) 1 [ForUpdate [5]] [([5], Some [7])] okv0 = Some (Inr okv1) \<and>
    (\<forall>dir. \<exists>err. reopenOnvaKV list_engine zero_sha zero_meow dir (db (rocksdb okv1)) False = Some (Inl err))"
proof -
  from sample_run obtain okv0 okv1 where o: "createOnvaKV list_engine zero_sha zero_meow newFile newFile [] False [1] [255] = Inr okv0"
    "run_block list_engine NVTreeI (TreeI zero_sha zero_meow) 1 [ForUpdate [5]] [([5], Some [7])] okv0 = Some (Inr okv1)"
    "okv_run list_engine NVTreeI (TreeI zero_sha zero_meow) okv0 (guard_map [1] [255]) okv1 (apply_ops [([5], Some [7])] (guard_map [1] [255]))"
    by blast
  from reopen_after_crash_fails [OF list_engine_ok o(1,3)] o(1,2) show ?thesis by blast
qed

end
