(* ===== verification/StoreTypes.thy ===== *)
theory StoreTypes
  imports BTreeMap
begin

text \<open>
  The interfaces of store/types/types.go. An interface is a record of operations over the state of its
  implementation; a pointer to an object, \<open>ptr *Serializable\<close>, is the value it points to, \<open>None\<close> for nil,
  which an operation takes and returns. The contract of an iterator is the locale \<open>obj_iterator\<close>.
\<close>

section \<open>Results of operations that may not return\<close>

text \<open>\<open>None\<close> is a call that does not return; otherwise it returns or panics.\<close>

type_synonym 'a result = "'a outcome option"

definition okR :: "'a \<Rightarrow> 'a result" where
  "okR x = Some (Inr x)"

definition bindR :: "'a result \<Rightarrow> ('a \<Rightarrow> 'b result) \<Rightarrow> 'b result" where
  "bindR m f = (case m of None \<Rightarrow> None | Some (Inl e) \<Rightarrow> Some (Inl e) | Some (Inr x) \<Rightarrow> f x)"

fun foldR :: "('a \<Rightarrow> 's \<Rightarrow> 's result) \<Rightarrow> 'a list \<Rightarrow> 's \<Rightarrow> 's result" where
  "foldR f [] s = okR s"
| "foldR f (x # xs) s = bindR (f x s) (foldR f xs)"

lemma bindR_simps [simp]: "bindR (okR x) f = f x" "bindR None f = None" "bindR (Some (Inl e)) f = Some (Inl e)"
    "bindR (Some (Inr x)) f = f x"
  by (simp_all add: bindR_def okR_def)

lemma okR_eq [simp]: "okR x = okR y \<longleftrightarrow> x = y" "okR x \<noteq> None" "okR x \<noteq> Some (Inl e)"
  by (simp_all add: okR_def)

lemma bindR_assoc [simp]: "bindR (bindR m f) g = bindR m (\<lambda>x. bindR (f x) g)"
  by (simp add: bindR_def split: option.split sum.split)

lemma bindR_eq_okR [outcome_simps]: "bindR m f = okR y \<longleftrightarrow> (\<exists>x. m = okR x \<and> f x = okR y)"
  by (auto simp: bindR_def okR_def split: option.split sum.split)

lemma foldR_append: "foldR f (xs @ ys) s = bindR (foldR f xs s) (foldR f ys)"
  by (induction xs arbitrary: s) (simp_all add: bindR_def okR_def split: option.split sum.split)

lemma foldR_foldE: "foldR (\<lambda>x s. Some (f x s)) xs s = Some (foldE f xs s)"
  by (induction xs arbitrary: s) (auto simp: bindR_def bindE_def okR_def split: sum.split)

text \<open>Recursion through \<open>bindR\<close> is monotone, so that loops can be defined over it.\<close>

lemma bindR_mono [partial_function_mono]:
  fixes B :: "('x \<Rightarrow> 'y option) \<Rightarrow> 'a result" and C :: "'a \<Rightarrow> ('x \<Rightarrow> 'y option) \<Rightarrow> 'b result"
  assumes m: "mono_option B" and g: "\<And>y. mono_option (\<lambda>f. C y f)"
  shows "mono_option (\<lambda>f. bindR (B f) (\<lambda>y. C y f))"
proof (rule monotoneI)
  fix f h :: "'x \<Rightarrow> 'y option"
  assume fh: "option.le_fun f h"
  have "option_ord (B f) (B h)" using m by (rule monotoneD) (rule fh)
  moreover have "option_ord (C y f) (C y h)" for y using g by (rule monotoneD) (rule fh)
  ultimately show "option_ord (bindR (B f) (\<lambda>y. C y f)) (bindR (B h) (\<lambda>y. C y h))"
    unfolding flat_ord_def bindR_def by (cases "B h") (force split: sum.splits)+
qed

section \<open>The interfaces\<close>

record 'o Serializable =
  s_ToBytes :: "'o \<Rightarrow> bytes option"
  s_FromBytes :: "'o \<Rightarrow> bytes option \<Rightarrow> 'o"
  s_DeepCopy :: "'o \<Rightarrow> 'o"

text \<open>\<open>(*ptr).FromBytes(bz)\<close>, which panics on a nil interface.\<close>

definition readInto :: "'o Serializable \<Rightarrow> 'o option \<Rightarrow> bytes option \<Rightarrow> 'o option outcome" where
  "readInto S ptr bz = (case ptr of None \<Rightarrow> Inl NilDeref | Some obj \<Rightarrow> Inr (Some (s_FromBytes S obj bz)))"

datatype CacheStatus = Missed | Hit | JustDeleted

text \<open>An implementation of \<open>ObjIterator\<close>; reading may move an iterator, so that it returns the new state.\<close>

record ('i, 'o) ObjIterator =
  oi_Domain :: "'i \<Rightarrow> bytes \<times> bytes"
  oi_Valid :: "'i \<Rightarrow> (bool \<times> 'i) result"
  oi_Next :: "'i \<Rightarrow> 'i result"
  oi_Key :: "'i \<Rightarrow> (bytes \<times> 'i) result"
  oi_Value :: "'i \<Rightarrow> (bytes option \<times> 'i) result"
  oi_ObjValue :: "'o option \<Rightarrow> 'i \<Rightarrow> ('o option \<times> 'i) result"

text \<open>An implementation \<open>'r\<close> of \<open>RootStoreI\<close> with its forward and backward iterators.\<close>

record ('r, 'f, 'b, 'o) RootStoreI =
  rs_SetHeight :: "int \<Rightarrow> 'r \<Rightarrow> 'r"
  rs_Get :: "bytes \<Rightarrow> 'r \<Rightarrow> bytes option outcome"
  rs_GetObjCopy :: "bytes \<Rightarrow> 'o option \<Rightarrow> 'r \<Rightarrow> 'o option outcome"
  rs_GetReadOnlyObj :: "bytes \<Rightarrow> 'o option \<Rightarrow> 'r \<Rightarrow> ('o option \<times> 'r) outcome"
  rs_Has :: "bytes \<Rightarrow> 'r \<Rightarrow> bool outcome"
  rs_PrepareForUpdate :: "bytes \<Rightarrow> 'r \<Rightarrow> 'r outcome"
  rs_PrepareForDeletion :: "bytes \<Rightarrow> 'r \<Rightarrow> 'r outcome"
  rs_Iterator :: "bytes \<Rightarrow> bytes \<Rightarrow> 'r \<Rightarrow> 'f outcome"
  rs_ReverseIterator :: "bytes \<Rightarrow> bytes \<Rightarrow> 'r \<Rightarrow> 'b outcome"
  rs_BeginWrite :: "'r \<Rightarrow> 'r outcome"
  rs_Set :: "bytes \<Rightarrow> bytes option \<Rightarrow> 'r \<Rightarrow> 'r outcome"
  rs_SetObj :: "bytes \<Rightarrow> 'o \<Rightarrow> 'r \<Rightarrow> 'r outcome"
  rs_Delete :: "bytes \<Rightarrow> 'r \<Rightarrow> 'r outcome"
  rs_EndWrite :: "'r \<Rightarrow> 'r result"
  rs_CheckConsistency :: "'r \<Rightarrow> unit outcome"
  rs_ActiveCount :: "'r \<Rightarrow> nat"

section \<open>The contract of an iterator\<close>

text \<open>An item is its key, what \<open>Value\<close> returns there, and what \<open>ObjValue\<close> does to the pointer.\<close>

type_synonym 'o item = "bytes \<times> bytes option \<times> ('o option \<Rightarrow> 'o option outcome)"

abbreviation item_key :: "'o item \<Rightarrow> bytes" where
  "item_key x \<equiv> fst x"

abbreviation item_value :: "'o item \<Rightarrow> bytes option" where
  "item_value x \<equiv> fst (snd x)"

abbreviation item_read :: "'o item \<Rightarrow> 'o option \<Rightarrow> 'o option outcome" where
  "item_read x \<equiv> snd (snd x)"

text \<open>\<open>rest\<close> are the items from the current one on; an iterator is read only where it is valid.\<close>

locale obj_iterator =
  fixes I :: "('i, 'o) ObjIterator" and inv :: "'i \<Rightarrow> bool" and rest :: "'i \<Rightarrow> 'o item list"
  assumes Valid: "inv i \<Longrightarrow> \<exists>i'. oi_Valid I i = okR (rest i \<noteq> [], i') \<and> inv i' \<and> rest i' = rest i"
    and Next: "inv i \<Longrightarrow> rest i = x # xs \<Longrightarrow> \<exists>i'. oi_Next I i = okR i' \<and> inv i' \<and> rest i' = xs"
    and Key: "inv i \<Longrightarrow> rest i = x # xs \<Longrightarrow> \<exists>i'. oi_Key I i = okR (item_key x, i') \<and> inv i' \<and> rest i' = rest i"
    and Value: "inv i \<Longrightarrow> rest i = x # xs \<Longrightarrow> \<exists>i'. oi_Value I i = okR (item_value x, i') \<and> inv i' \<and> rest i' = rest i"
    and ObjValue: "inv i \<Longrightarrow> rest i = x # xs \<Longrightarrow>
      (\<exists>e. item_read x p = Inl e \<and> oi_ObjValue I p i = Some (Inl e)) \<or>
      (\<exists>q i'. item_read x p = Inr q \<and> oi_ObjValue I p i = okR (q, i') \<and> inv i' \<and> rest i' = rest i)"
begin

lemma Valid_Nil: "inv i \<Longrightarrow> rest i = [] \<Longrightarrow> \<exists>i'. oi_Valid I i = okR (False, i') \<and> inv i' \<and> rest i' = []"
  using Valid [of i] by simp

lemma Valid_Cons: "inv i \<Longrightarrow> rest i = x # xs \<Longrightarrow> \<exists>i'. oi_Valid I i = okR (True, i') \<and> inv i' \<and> rest i' = x # xs"
  using Valid [of i] by simp

end

text \<open>The loop \<open>for it.Valid() { ...it.Key(), it.Value()...; it.Next() }\<close> of a client.\<close>

partial_function (option) collect :: "('i, 'o) ObjIterator \<Rightarrow> (bytes \<times> bytes option) list \<Rightarrow> 'i \<Rightarrow> (bytes \<times> bytes option) list result" where
  "collect I acc i =
     bindR (oi_Valid I i) (\<lambda>(v, i).
       if \<not> v then okR (rev acc)
       else bindR (oi_Key I i) (\<lambda>(k, i). bindR (oi_Value I i) (\<lambda>(bz, i).
         bindR (oi_Next I i) (\<lambda>i. collect I ((k, bz) # acc) i))))"

context obj_iterator
begin

lemma collect_acc:
  "inv i \<Longrightarrow> collect I acc i = okR (rev acc @ map (\<lambda>x. (item_key x, item_value x)) (rest i))"
proof (induction "rest i" arbitrary: acc i)
  case Nil
  then obtain i' where "oi_Valid I i = okR (False, i')" using Valid_Nil [of i] by auto
  with Nil show ?case by (subst collect.simps) simp
next
  case (Cons x xs)
  from Valid_Cons [OF Cons.prems Cons.hyps(2) [symmetric]] obtain a where
    a: "oi_Valid I i = okR (True, a)" "inv a" "rest a = x # xs" by blast
  from Key [OF a(2,3)] obtain b where b: "oi_Key I a = okR (item_key x, b)" "inv b" "rest b = x # xs" using a(3) by auto
  from Value [OF b(2,3)] obtain c where c: "oi_Value I b = okR (item_value x, c)" "inv c" "rest c = x # xs" using b(3) by auto
  from Next [OF c(2,3)] obtain d where d: "oi_Next I c = okR d" "inv d" "rest d = xs" by blast
  from Cons.hyps(1) [OF d(3) [symmetric] d(2), of "(item_key x, item_value x) # acc"] a b c d Cons.hyps(2) [symmetric]
  show ?case by (subst collect.simps) simp
qed

lemma collect_items_ok: "inv i \<Longrightarrow> collect I [] i = okR (map (\<lambda>x. (item_key x, item_value x)) (rest i))"
  by (simp add: collect_acc)

end

end
