(* ===== verification/CacheStore.thy ===== *)
theory CacheStore
  imports StoreTypes
begin

text \<open>
  The cache of store/cache.go over the tree of store/b: its values, its operations, and its two
  iterators, which are iterators in the sense of \<open>obj_iterator\<close>.
\<close>

section \<open>Values\<close>

text \<open>
  A \<open>b.Value\<close> holds an \<open>interface{}\<close>: nil, the marker of a deletion, raw bytes (which may be a nil
  slice), or an object. \<open>GetObj\<close> turns the marker into nil.
\<close>

datatype 'o Value = NilValue | DeletedValue | RawBytes "bytes option" | Object 'o

definition HasNilValue :: "'o Value \<Rightarrow> bool" where
  "HasNilValue v \<longleftrightarrow> (case v of NilValue \<Rightarrow> True | _ \<Rightarrow> False)"

definition IsDeleted :: "'o Value \<Rightarrow> bool" where
  "IsDeleted v \<longleftrightarrow> (case v of DeletedValue \<Rightarrow> True | _ \<Rightarrow> False)"

definition GetObj :: "'o Value \<Rightarrow> 'o Value" where
  "GetObj v = (if IsDeleted v then NilValue else v)"

text \<open>The bytes of an \<open>interface{}\<close>: raw, or of an object; the type assertion panics on nil.\<close>

definition obj_bytes :: "'o Serializable \<Rightarrow> 'o Value \<Rightarrow> bytes option outcome" where
  "obj_bytes S obj = (case obj of RawBytes bz \<Rightarrow> Inr bz | Object x \<Rightarrow> Inr (s_ToBytes S x)
     | _ \<Rightarrow> Inl (Panic ''interface conversion: interface is nil, not types.Serializable''))"

text \<open>Raw bytes are read into the object of the pointer, an object replaces it; reflection panics on nil.\<close>

definition obj_read :: "'o Serializable \<Rightarrow> ('o \<Rightarrow> 'o) \<Rightarrow> 'o option \<Rightarrow> 'o Value \<Rightarrow> 'o option outcome" where
  "obj_read S copy ptr obj = (case obj of RawBytes bz \<Rightarrow> readInto S ptr bz | Object x \<Rightarrow> Inr (Some (copy x))
     | _ \<Rightarrow> Inl (Panic ''reflect: call of reflect.Value.Set on zero Value''))"

section \<open>Operations\<close>

type_synonym 'o CacheStore = "'o Value btree"

definition NewCacheStore :: "'o CacheStore" where
  "NewCacheStore = []"

definition CacheStore_Size :: "'o CacheStore \<Rightarrow> nat" where
  "CacheStore_Size cs = length cs"

text \<open>\<open>fn\<close> gets the key, the object and whether it is deleted, and changes a state of its own.\<close>

definition ScanAllEntries :: "(bytes \<Rightarrow> 'o Value \<Rightarrow> bool \<Rightarrow> 's \<Rightarrow> 's outcome) \<Rightarrow> 'o CacheStore \<Rightarrow> 's \<Rightarrow> 's outcome" where
  "ScanAllEntries fn = foldE (\<lambda>(key, value) s.
     if HasNilValue value then Inl (Panic ''Dangling Cache Entry'') else fn key (GetObj value) (IsDeleted value) s)"

definition CacheStore_Get :: "'o Serializable \<Rightarrow> bytes \<Rightarrow> 'o CacheStore \<Rightarrow> (bytes option \<times> CacheStatus) outcome" where
  "CacheStore_Get S key cs =
     (case bt_Get key cs of None \<Rightarrow> Inr (None, Missed)
      | Some v \<Rightarrow>
          if IsDeleted v then Inr (None, JustDeleted)
          else bindE (obj_bytes S (GetObj v)) (\<lambda>res. Inr (res, Hit)))"

text \<open>The object is moved out and leaves a nil value; raw bytes stay.\<close>

definition CacheStore_GetObj :: "'o Serializable \<Rightarrow> bytes \<Rightarrow> 'o option \<Rightarrow> 'o CacheStore \<Rightarrow>
    (CacheStatus \<times> 'o option \<times> 'o CacheStore) outcome" where
  "CacheStore_GetObj S key ptr cs =
     (case bt_Get key cs of None \<Rightarrow> Inr (Missed, ptr, cs)
      | Some v \<Rightarrow>
          if IsDeleted v then Inr (JustDeleted, ptr, cs)
          else bindE (obj_read S id ptr (GetObj v)) (\<lambda>ptr.
            Inr (Hit, ptr, case v of RawBytes _ \<Rightarrow> cs | _ \<Rightarrow> bt_Set key NilValue cs)))"

definition CacheStore_GetObjCopy :: "'o Serializable \<Rightarrow> bytes \<Rightarrow> 'o option \<Rightarrow> 'o CacheStore \<Rightarrow> (CacheStatus \<times> 'o option) outcome" where
  "CacheStore_GetObjCopy S key ptr cs =
     (case bt_Get key cs of None \<Rightarrow> Inr (Missed, ptr)
      | Some v \<Rightarrow>
          if IsDeleted v then Inr (JustDeleted, ptr)
          else bindE (obj_read S (s_DeepCopy S) ptr (GetObj v)) (\<lambda>ptr. Inr (Hit, ptr)))"

definition CacheStore_GetReadOnlyObj :: "'o Serializable \<Rightarrow> bytes \<Rightarrow> 'o option \<Rightarrow> 'o CacheStore \<Rightarrow> (CacheStatus \<times> 'o option) outcome" where
  "CacheStore_GetReadOnlyObj S key ptr cs =
     (case bt_Get key cs of None \<Rightarrow> Inr (Missed, ptr)
      | Some v \<Rightarrow>
          if IsDeleted v then Inr (JustDeleted, ptr)
          else bindE (obj_read S id ptr (GetObj v)) (\<lambda>ptr. Inr (Hit, ptr)))"

definition CacheStore_Set :: "bytes \<Rightarrow> bytes option \<Rightarrow> 'o CacheStore \<Rightarrow> 'o CacheStore" where
  "CacheStore_Set key value cs = bt_Set key (RawBytes value) cs"

text \<open>A nil object is stored as the nil value.\<close>

definition CacheStore_SetObj :: "bytes \<Rightarrow> 'o option \<Rightarrow> 'o CacheStore \<Rightarrow> 'o CacheStore" where
  "CacheStore_SetObj key obj cs = bt_Set key (case obj of None \<Rightarrow> NilValue | Some x \<Rightarrow> Object x) cs"

definition CacheStore_RealDelete :: "bytes \<Rightarrow> 'o CacheStore \<Rightarrow> 'o CacheStore" where
  "CacheStore_RealDelete key cs = bt_Delete key cs"

definition CacheStore_Delete :: "bytes \<Rightarrow> 'o CacheStore \<Rightarrow> 'o CacheStore" where
  "CacheStore_Delete key cs = bt_Set key DeletedValue cs"

section \<open>Iterators\<close>

record 'o CacheForward =
  cf_enumerator :: "'o Value Enumerator option"
  cf_start :: bytes
  cf_end :: bytes
  cf_key :: bytes
  cf_value :: "'o Value"
  cf_err :: bool

record 'o CacheBackward =
  cb_enumerator :: "'o Value Enumerator option"
  cb_start :: bytes
  cb_end :: bytes
  cb_key :: bytes
  cb_value :: "'o Value"
  cb_err :: bool

definition CacheForward_Next :: "'o CacheForward \<Rightarrow> 'o CacheForward outcome" where
  "CacheForward_Next iter =
     (case cf_enumerator iter of None \<Rightarrow> Inl NilDeref
      | Some e \<Rightarrow>
          (let (r, e) = enum_Next e; (k, v, eof) = (case r of None \<Rightarrow> ([], NilValue, True) | Some (k, v) \<Rightarrow> (k, v, False))
           in Inr (iter\<lparr>cf_enumerator := Some e, cf_key := k, cf_value := v, cf_err := eof \<or> bytes_Compare k (cf_end iter) \<ge> 0\<rparr>)))"

definition CacheForward_Value :: "'o Serializable \<Rightarrow> 'o CacheForward \<Rightarrow> bytes option outcome" where
  "CacheForward_Value S iter =
     (if cf_err iter then Inr None else if IsDeleted (cf_value iter) then Inr None else obj_bytes S (GetObj (cf_value iter)))"

definition CacheForward_ObjValue :: "'o Serializable \<Rightarrow> 'o option \<Rightarrow> 'o CacheForward \<Rightarrow> 'o option outcome" where
  "CacheForward_ObjValue S ptr iter =
     (if cf_err iter then Inr None else if IsDeleted (cf_value iter) then Inr None else obj_read S id ptr (GetObj (cf_value iter)))"

definition CacheBackward_Next :: "'o CacheBackward \<Rightarrow> 'o CacheBackward outcome" where
  "CacheBackward_Next iter =
     (case cb_enumerator iter of None \<Rightarrow> Inl NilDeref
      | Some e \<Rightarrow>
          (let (r, e) = enum_Prev e; (k, v, eof) = (case r of None \<Rightarrow> ([], NilValue, True) | Some (k, v) \<Rightarrow> (k, v, False))
           in Inr (iter\<lparr>cb_enumerator := Some e, cb_key := k, cb_value := v, cb_err := eof \<or> bytes_Compare k (cb_start iter) < 0\<rparr>)))"

definition CacheBackward_Value :: "'o Serializable \<Rightarrow> 'o CacheBackward \<Rightarrow> bytes option outcome" where
  "CacheBackward_Value S iter =
     (if cb_err iter then Inr None else if IsDeleted (cb_value iter) then Inr None else obj_bytes S (GetObj (cb_value iter)))"

definition CacheBackward_ObjValue :: "'o Serializable \<Rightarrow> 'o option \<Rightarrow> 'o CacheBackward \<Rightarrow> 'o option outcome" where
  "CacheBackward_ObjValue S ptr iter =
     (if cb_err iter then Inr None else if IsDeleted (cb_value iter) then Inr None else obj_read S id ptr (GetObj (cb_value iter)))"

definition CacheStore_Iterator :: "bytes \<Rightarrow> bytes \<Rightarrow> 'o CacheStore \<Rightarrow> 'o CacheForward outcome" where
  "CacheStore_Iterator start end' cs =
     (let iter = \<lparr>cf_enumerator = None, cf_start = start, cf_end = end', cf_key = [], cf_value = NilValue, cf_err = False\<rparr>
      in if bytes_Compare start end' \<ge> 0 then Inr (iter\<lparr>cf_err := True\<rparr>)
         else CacheForward_Next (iter\<lparr>cf_enumerator := Some (fst (bt_Seek start cs))\<rparr>))"

definition CacheStore_ReverseIterator :: "bytes \<Rightarrow> bytes \<Rightarrow> 'o CacheStore \<Rightarrow> 'o CacheBackward outcome" where
  "CacheStore_ReverseIterator start end' cs =
     (let iter = \<lparr>cb_enumerator = None, cb_start = start, cb_end = end', cb_key = [], cb_value = NilValue, cb_err = False\<rparr>
      in if bytes_Compare start end' \<ge> 0 then Inr (iter\<lparr>cb_err := True\<rparr>)
         else
           (let (e, ok) = bt_Seek end' cs; e = (if ok then snd (enum_Prev e) else e)
            in CacheBackward_Next (iter\<lparr>cb_enumerator := Some e\<rparr>)))"

text \<open>The two as implementations of \<open>ObjIterator\<close>.\<close>

definition CacheForwardI :: "'o Serializable \<Rightarrow> ('o CacheForward, 'o) ObjIterator" where
  "CacheForwardI S = \<lparr>oi_Domain = (\<lambda>i. (cf_start i, cf_end i)), oi_Valid = (\<lambda>i. okR (\<not> cf_err i, i)),
     oi_Next = (\<lambda>i. Some (CacheForward_Next i)), oi_Key = (\<lambda>i. okR (cf_key i, i)),
     oi_Value = (\<lambda>i. Some (bindE (CacheForward_Value S i) (\<lambda>bz. Inr (bz, i)))),
     oi_ObjValue = (\<lambda>ptr i. Some (bindE (CacheForward_ObjValue S ptr i) (\<lambda>ptr. Inr (ptr, i))))\<rparr>"

definition CacheBackwardI :: "'o Serializable \<Rightarrow> ('o CacheBackward, 'o) ObjIterator" where
  "CacheBackwardI S = \<lparr>oi_Domain = (\<lambda>i. (cb_start i, cb_end i)), oi_Valid = (\<lambda>i. okR (\<not> cb_err i, i)),
     oi_Next = (\<lambda>i. Some (CacheBackward_Next i)), oi_Key = (\<lambda>i. okR (cb_key i, i)),
     oi_Value = (\<lambda>i. Some (bindE (CacheBackward_Value S i) (\<lambda>bz. Inr (bz, i)))),
     oi_ObjValue = (\<lambda>ptr i. Some (bindE (CacheBackward_ObjValue S ptr i) (\<lambda>ptr. Inr (ptr, i))))\<rparr>"

section \<open>The operations on the map of the cache\<close>

text \<open>Between the calls of a client that returns the objects it took, a cache has no nil values.\<close>

definition no_nil :: "'o CacheStore \<Rightarrow> bool" where
  "no_nil cs \<longleftrightarrow> NilValue \<notin> snd ` set cs"

definition cache_ok :: "'o CacheStore \<Rightarrow> bool" where
  "cache_ok cs \<longleftrightarrow> bt_inv cs \<and> no_nil cs"

text \<open>What is read of a value.\<close>

definition val_bytes :: "'o Serializable \<Rightarrow> 'o Value \<Rightarrow> bytes option" where
  "val_bytes S v = (case v of RawBytes bz \<Rightarrow> bz | Object x \<Rightarrow> s_ToBytes S x | _ \<Rightarrow> None)"

lemma obj_bytes_ok: "v \<noteq> NilValue \<Longrightarrow> \<not> IsDeleted v \<Longrightarrow> obj_bytes S (GetObj v) = Inr (val_bytes S v)"
  by (cases v) (simp_all add: obj_bytes_def GetObj_def val_bytes_def IsDeleted_def)

lemma val_bytes_deleted: "IsDeleted v \<Longrightarrow> val_bytes S v = None"
  by (cases v) (simp_all add: val_bytes_def IsDeleted_def)

lemma IsDeleted_simps [simp]: "IsDeleted DeletedValue" "\<not> IsDeleted NilValue" "\<not> IsDeleted (RawBytes bz)" "\<not> IsDeleted (Object x)"
  by (simp_all add: IsDeleted_def)

lemma HasNilValue_iff [simp]: "HasNilValue v \<longleftrightarrow> v = NilValue"
  by (cases v) (simp_all add: HasNilValue_def)

lemma no_nilD: "no_nil cs \<Longrightarrow> bt_Get k cs = Some v \<Longrightarrow> v \<noteq> NilValue"
  unfolding no_nil_def bt_Get_def by (metis imageI map_of_SomeD snd_conv)

lemma bt_Set_values: "snd ` set (bt_Set k v cs) \<subseteq> insert v (snd ` set cs)"
  by (induction k v cs rule: bt_Set.induct) auto

lemma cache_ok_Set: "cache_ok cs \<Longrightarrow> v \<noteq> NilValue \<Longrightarrow> cache_ok (bt_Set k v cs)"
  using bt_Set_values [of k v cs] by (auto simp: cache_ok_def no_nil_def bt_Set_sorted)

lemma bt_Delete_values: "snd ` set (bt_Delete k cs) \<subseteq> snd ` set cs"
  by (force simp: bt_Delete_def)

lemma cache_ok_Delete: "cache_ok cs \<Longrightarrow> cache_ok (bt_Delete k cs)"
  using bt_Delete_values [of k cs] by (auto simp: cache_ok_def no_nil_def bt_Delete_sorted)

lemma cache_ok_empty [simp]: "cache_ok NewCacheStore"
  by (simp add: cache_ok_def no_nil_def NewCacheStore_def bt_inv_def)

lemma cache_get_set: "cache_ok cs \<Longrightarrow> bt_Get k (bt_Set k' v cs) = (if k = k' then Some v else bt_Get k cs)"
  by (simp add: bt.get_put cache_ok_def)

lemma cache_get_delete: "cache_ok cs \<Longrightarrow> bt_Get k (bt_Delete k' cs) = (if k = k' then None else bt_Get k cs)"
  by (simp add: bt.get_del cache_ok_def)

lemma CacheStore_Get_ok:
  assumes "cache_ok cs"
  shows "CacheStore_Get S k cs = Inr (case bt_Get k cs of None \<Rightarrow> (None, Missed)
    | Some v \<Rightarrow> if IsDeleted v then (None, JustDeleted) else (val_bytes S v, Hit))"
  using assms no_nilD [of cs k] by (auto simp: CacheStore_Get_def obj_bytes_ok cache_ok_def split: option.split)

section \<open>The iterators\<close>

definition cache_item :: "'o Serializable \<Rightarrow> bytes \<times> 'o Value \<Rightarrow> 'o item" where
  "cache_item S kv = (fst kv, val_bytes S (snd kv), \<lambda>p. if IsDeleted (snd kv) then Inr None else obj_read S id p (GetObj (snd kv)))"

lemma cache_item_simps [simp]: "fst (cache_item S kv) = fst kv" "fst (snd (cache_item S kv)) = val_bytes S (snd kv)"
  by (simp_all add: cache_item_def)

definition cf_items :: "'o CacheForward \<Rightarrow> 'o CacheStore" where
  "cf_items i = (if cf_err i then [] else (cf_key i, cf_value i) #
     (case cf_enumerator i of None \<Rightarrow> [] | Some e \<Rightarrow> takeWhile (\<lambda>(k, v). k < cf_end i) (rest_next e)))"

definition cf_inv :: "'o CacheForward \<Rightarrow> bool" where
  "cf_inv i \<longleftrightarrow> no_nil (cf_items i) \<and> (cf_err i \<or> (\<exists>e. cf_enumerator i = Some e \<and> enum_ok e))"

lemma CacheForward_fill:
  assumes "cf_enumerator i = Some e" and "enum_ok e"
  shows "\<exists>i' e'. CacheForward_Next i = Inr i' \<and> cf_enumerator i' = Some e' \<and> enum_ok e' \<and>
    cf_items i' = takeWhile (\<lambda>(k, v). k < cf_end i) (rest_next e)"
proof -
  obtain r e' where e': "enum_Next e = (r, e')" by fastforce
  note N = enum_Next_rest [OF assms(2) e']
  show ?thesis
  proof (cases "rest_next e")
    case Nil
    with N e' assms(1) show ?thesis by (auto simp: CacheForward_Next_def cf_items_def)
  next
    case (Cons x xs)
    with N e' assms(1) show ?thesis by (cases x) (auto simp: CacheForward_Next_def cf_items_def not_le)
  qed
qed

lemma CacheForward_step:
  assumes "cf_inv i" and "cf_items i = x # xs"
  shows "\<exists>i'. CacheForward_Next i = Inr i' \<and> cf_inv i' \<and> cf_items i' = xs"
proof -
  from assms obtain e where e: "cf_enumerator i = Some e" "enum_ok e" by (auto simp: cf_inv_def cf_items_def)
  moreover have "takeWhile (\<lambda>(k, v). k < cf_end i) (rest_next e) = xs" using assms(2) e(1) by (auto simp: cf_items_def split: if_splits)
  ultimately obtain i' e' where "CacheForward_Next i = Inr i'" "cf_enumerator i' = Some e'" "enum_ok e'" "cf_items i' = xs"
    using CacheForward_fill [OF e] by auto
  with assms show ?thesis by (auto simp: cf_inv_def no_nil_def)
qed

interpretation cache_forward: obj_iterator "CacheForwardI S" cf_inv "\<lambda>i. map (cache_item S) (cf_items i)" for S
proof (unfold_locales, goal_cases)
  case (1 i)
  then show ?case by (auto simp: CacheForwardI_def cf_items_def)
next
  case (2 i x xs)
  then obtain y ys where "cf_items i = y # ys" "map (cache_item S) ys = xs" by auto
  with CacheForward_step [OF 2(1)] show ?case by (fastforce simp: CacheForwardI_def okR_def)
next
  case (3 i x xs)
  then show ?case by (auto simp: CacheForwardI_def cf_items_def split: if_splits)
next
  case (4 i x xs)
  then show ?case
    by (auto simp: CacheForwardI_def cf_items_def cf_inv_def no_nil_def CacheForward_Value_def val_bytes_deleted obj_bytes_ok okR_def split: if_splits)
next
  case (5 i x xs p)
  then show ?case
    by (cases "item_read x p") (auto simp: CacheForwardI_def cf_items_def CacheForward_ObjValue_def cache_item_def okR_def split: if_splits)
qed

definition cb_items :: "'o CacheBackward \<Rightarrow> 'o CacheStore" where
  "cb_items i = (if cb_err i then [] else (cb_key i, cb_value i) #
     (case cb_enumerator i of None \<Rightarrow> [] | Some e \<Rightarrow> takeWhile (\<lambda>(k, v). cb_start i \<le> k) (rest_prev e)))"

definition cb_inv :: "'o CacheBackward \<Rightarrow> bool" where
  "cb_inv i \<longleftrightarrow> no_nil (cb_items i) \<and> (cb_err i \<or> (\<exists>e. cb_enumerator i = Some e \<and> enum_ok e))"

lemma CacheBackward_fill:
  assumes "cb_enumerator i = Some e" and "enum_ok e"
  shows "\<exists>i' e'. CacheBackward_Next i = Inr i' \<and> cb_enumerator i' = Some e' \<and> enum_ok e' \<and>
    cb_items i' = takeWhile (\<lambda>(k, v). cb_start i \<le> k) (rest_prev e)"
proof -
  obtain r e' where e': "enum_Prev e = (r, e')" by fastforce
  note N = enum_Prev_rest [OF assms(2) e']
  show ?thesis
  proof (cases "rest_prev e")
    case Nil
    with N e' assms(1) show ?thesis by (auto simp: CacheBackward_Next_def cb_items_def)
  next
    case (Cons x xs)
    with N e' assms(1) show ?thesis by (cases x) (auto simp: CacheBackward_Next_def cb_items_def not_less)
  qed
qed

lemma CacheBackward_step:
  assumes "cb_inv i" and "cb_items i = x # xs"
  shows "\<exists>i'. CacheBackward_Next i = Inr i' \<and> cb_inv i' \<and> cb_items i' = xs"
proof -
  from assms obtain e where e: "cb_enumerator i = Some e" "enum_ok e" by (auto simp: cb_inv_def cb_items_def)
  moreover have "takeWhile (\<lambda>(k, v). cb_start i \<le> k) (rest_prev e) = xs" using assms(2) e(1) by (auto simp: cb_items_def split: if_splits)
  ultimately obtain i' e' where "CacheBackward_Next i = Inr i'" "cb_enumerator i' = Some e'" "enum_ok e'" "cb_items i' = xs"
    using CacheBackward_fill [OF e] by auto
  with assms show ?thesis by (auto simp: cb_inv_def no_nil_def)
qed

interpretation cache_backward: obj_iterator "CacheBackwardI S" cb_inv "\<lambda>i. map (cache_item S) (cb_items i)" for S
proof (unfold_locales, goal_cases)
  case (1 i)
  then show ?case by (auto simp: CacheBackwardI_def cb_items_def)
next
  case (2 i x xs)
  then obtain y ys where "cb_items i = y # ys" "map (cache_item S) ys = xs" by auto
  with CacheBackward_step [OF 2(1)] show ?case by (fastforce simp: CacheBackwardI_def okR_def)
next
  case (3 i x xs)
  then show ?case by (auto simp: CacheBackwardI_def cb_items_def split: if_splits)
next
  case (4 i x xs)
  then show ?case
    by (auto simp: CacheBackwardI_def cb_items_def cb_inv_def no_nil_def CacheBackward_Value_def val_bytes_deleted obj_bytes_ok okR_def split: if_splits)
next
  case (5 i x xs p)
  then show ?case
    by (cases "item_read x p") (auto simp: CacheBackwardI_def cb_items_def CacheBackward_ObjValue_def cache_item_def okR_def split: if_splits)
qed

text \<open>A new iterator enumerates the range \<open>[start, end)\<close>.\<close>

lemma CacheStore_Iterator_ok:
  assumes "cache_ok cs"
  shows "\<exists>i. CacheStore_Iterator s e cs = Inr i \<and> cf_inv i \<and> cf_items i = filter (in_range s e) cs \<and> cf_start i = s \<and> cf_end i = e"
proof (cases "s < e")
  case False
  then show ?thesis by (simp add: CacheStore_Iterator_def range_empty cf_inv_def cf_items_def no_nil_def not_less)
next
  case True
  have srt: "bt_inv cs" and nn: "no_nil cs" using assms by (simp_all add: cache_ok_def)
  let ?i = "\<lparr>cf_enumerator = Some (fst (bt_Seek s cs)), cf_start = s, cf_end = e, cf_key = [], cf_value = NilValue, cf_err = False\<rparr>"
  note seek = bt_Seek_ok [OF srt, of s]
  from CacheForward_fill [of ?i, OF _ seek(1)] obtain i' e' where i': "CacheForward_Next ?i = Inr i'" "cf_enumerator i' = Some e'" "enum_ok e'"
    "cf_items i' = takeWhile (\<lambda>(k, v). k < e) (filter (\<lambda>(k, v). s \<le> k) cs)" by (auto simp: seek(2))
  then have items: "cf_items i' = filter (in_range s e) cs" by (simp only: rest_in_range [OF srt])
  moreover have "no_nil (filter (in_range s e) cs)" using nn by (auto simp: no_nil_def)
  moreover have "cf_start i' = s \<and> cf_end i' = e" using i'(1) by (auto simp: CacheForward_Next_def Let_def split: prod.splits)
  moreover have "CacheStore_Iterator s e cs = Inr i'" using True i'(1) by (simp add: CacheStore_Iterator_def Let_def not_le [symmetric])
  ultimately show ?thesis using i' by (auto simp: cf_inv_def)
qed

lemma CacheStore_ReverseIterator_ok:
  assumes "cache_ok cs"
  shows "\<exists>i. CacheStore_ReverseIterator s e cs = Inr i \<and> cb_inv i \<and> cb_items i = rev (filter (in_range s e) cs) \<and> cb_start i = s \<and> cb_end i = e"
proof (cases "s < e")
  case False
  then show ?thesis by (simp add: CacheStore_ReverseIterator_def range_empty cb_inv_def cb_items_def no_nil_def not_less)
next
  case True
  have srt: "bt_inv cs" and nn: "no_nil cs" using assms by (simp_all add: cache_ok_def)
  obtain en ok where en: "bt_Seek e cs = (en, ok)" by fastforce
  define en' where "en' = (if ok then snd (enum_Prev en) else en)"
  have en': "enum_ok en'" "rest_prev en' = rev (filter (\<lambda>(k, v). k < e) cs)"
    using bt_Seek_before [OF srt en] by (simp_all add: en'_def)
  let ?i = "\<lparr>cb_enumerator = Some en', cb_start = s, cb_end = e, cb_key = [], cb_value = NilValue, cb_err = False\<rparr>"
  from CacheBackward_fill [of ?i, OF _ en'(1)] obtain i' e' where i': "CacheBackward_Next ?i = Inr i'" "cb_enumerator i' = Some e'" "enum_ok e'"
    "cb_items i' = takeWhile (\<lambda>(k, v). s \<le> k) (rev (filter (\<lambda>(k, v). k < e) cs))" by (auto simp: en'(2))
  then have items: "cb_items i' = rev (filter (in_range s e) cs)" by (simp only: rest_in_range [OF srt])
  moreover have "no_nil (rev (filter (in_range s e) cs))" using nn by (auto simp: no_nil_def)
  moreover have "cb_start i' = s \<and> cb_end i' = e" using i'(1) by (auto simp: CacheBackward_Next_def Let_def split: prod.splits)
  moreover have "CacheStore_ReverseIterator s e cs = Inr i'" using True i'(1) by (simp add: CacheStore_ReverseIterator_def Let_def en en'_def not_le [symmetric])
  ultimately show ?thesis using i' by (auto simp: cb_inv_def)
qed

end
