(* ===== verification/MergeIter.thy ===== *)
theory MergeIter
  imports CacheStore
begin

text \<open>
  The merge iterator of store/mergeiter.go: the items of a parent iterator overlaid by those of a cache
  iterator, in which a nil value deletes. Its loops are partial functions; the locale
  \<open>merge_iterators\<close> proves that they return and that the merge iterator is an iterator again, so that
  merges nest.
\<close>

section \<open>Model\<close>

record ('p, 'c) cacheMergeIterator =
  mi_parent :: 'p
  mi_cache :: 'c
  mi_ascending :: bool

definition newCacheMergeIterator :: "'p \<Rightarrow> 'c \<Rightarrow> bool \<Rightarrow> ('p, 'c) cacheMergeIterator" where
  "newCacheMergeIterator parent cache ascending = \<lparr>mi_parent = parent, mi_cache = cache, mi_ascending = ascending\<rparr>"

definition mi_compare :: "bool \<Rightarrow> bytes \<Rightarrow> bytes \<Rightarrow> int" where
  "mi_compare ascending a b = (if ascending then bytes_Compare a b else bytes_Compare a b * -1)"

definition Merge_Domain :: "('p, 'o) ObjIterator \<Rightarrow> ('c, 'o) ObjIterator \<Rightarrow> ('p, 'c) cacheMergeIterator \<Rightarrow> bytes \<times> bytes" where
  "Merge_Domain P C iter =
     (let (startP, endP) = oi_Domain P (mi_parent iter); (startC, endC) = oi_Domain C (mi_cache iter)
      in (if mi_compare (mi_ascending iter) startP startC < 0 then startP else startC,
          if mi_compare (mi_ascending iter) endP endC < 0 then endC else endP))"

text \<open>\<open>until\<close> is \<open>None\<close> for nil.\<close>

partial_function (option) skipCacheDeletes :: "('c, 'o) ObjIterator \<Rightarrow> bool \<Rightarrow> bytes option \<Rightarrow> 'c \<Rightarrow> 'c result" where
  "skipCacheDeletes C ascending until c =
     bindR (oi_Valid C c) (\<lambda>(valid, c). if \<not> valid then okR c
     else bindR (oi_Value C c) (\<lambda>(value, c). if value \<noteq> None then okR c
     else bindR (case until of None \<Rightarrow> okR (True, c)
            | Some u \<Rightarrow> bindR (oi_Key C c) (\<lambda>(k, c). okR (mi_compare ascending k u < 0, c)))
       (\<lambda>(before, c). if \<not> before then okR c
        else bindR (oi_Next C c) (\<lambda>c. skipCacheDeletes C ascending until c))))"

partial_function (option) skipUntilExistsOrInvalid :: "('p, 'o) ObjIterator \<Rightarrow> ('c, 'o) ObjIterator \<Rightarrow>
    ('p, 'c) cacheMergeIterator \<Rightarrow> (bool \<times> ('p, 'c) cacheMergeIterator) result" where
  "skipUntilExistsOrInvalid P C iter =
     bindR (oi_Valid P (mi_parent iter)) (\<lambda>(validP, p).
       if \<not> validP then
         bindR (skipCacheDeletes C (mi_ascending iter) None (mi_cache iter)) (\<lambda>c.
         bindR (oi_Valid C c) (\<lambda>(validC, c). okR (validC, iter\<lparr>mi_parent := p, mi_cache := c\<rparr>)))
       else
         bindR (oi_Valid C (mi_cache iter)) (\<lambda>(validC, c).
           if \<not> validC then okR (True, iter\<lparr>mi_parent := p, mi_cache := c\<rparr>)
           else
             bindR (oi_Key P p) (\<lambda>(keyP, p). bindR (oi_Key C c) (\<lambda>(keyC, c).
             let cmp = mi_compare (mi_ascending iter) keyP keyC
             in if cmp = -1 then okR (True, iter\<lparr>mi_parent := p, mi_cache := c\<rparr>)
                else bindR (oi_Value C c) (\<lambda>(valueC, c).
                  if valueC \<noteq> None then okR (True, iter\<lparr>mi_parent := p, mi_cache := c\<rparr>)
                  else if cmp = 0 then
                    bindR (oi_Next P p) (\<lambda>p. bindR (oi_Next C c) (\<lambda>c.
                      skipUntilExistsOrInvalid P C (iter\<lparr>mi_parent := p, mi_cache := c\<rparr>)))
                  else
                    bindR (skipCacheDeletes C (mi_ascending iter) (Some keyP) c) (\<lambda>c.
                      skipUntilExistsOrInvalid P C (iter\<lparr>mi_parent := p, mi_cache := c\<rparr>)))))))"

definition Merge_Valid :: "('p, 'o) ObjIterator \<Rightarrow> ('c, 'o) ObjIterator \<Rightarrow> ('p, 'c) cacheMergeIterator \<Rightarrow>
    (bool \<times> ('p, 'c) cacheMergeIterator) result" where
  "Merge_Valid P C iter = skipUntilExistsOrInvalid P C iter"

definition assertValid :: "('p, 'o) ObjIterator \<Rightarrow> ('c, 'o) ObjIterator \<Rightarrow> ('p, 'c) cacheMergeIterator \<Rightarrow> ('p, 'c) cacheMergeIterator result" where
  "assertValid P C iter =
     bindR (Merge_Valid P C iter) (\<lambda>(valid, iter). if \<not> valid then Some (Inl (Panic ''iterator is invalid'')) else okR iter)"

text \<open>
  \<open>Next\<close>, \<open>Key\<close>, \<open>Value\<close> and \<open>ObjValue\<close> all skip, assert, and then act on the cache alone, on the parent
  alone, or - when both are valid - by the comparison of their keys.
\<close>

definition Merge_choose :: "('p, 'o) ObjIterator \<Rightarrow> ('c, 'o) ObjIterator \<Rightarrow>
    (('p, 'c) cacheMergeIterator \<Rightarrow> 'a result) \<Rightarrow> (('p, 'c) cacheMergeIterator \<Rightarrow> 'a result) \<Rightarrow>
    (int \<Rightarrow> bytes \<Rightarrow> bytes \<Rightarrow> ('p, 'c) cacheMergeIterator \<Rightarrow> 'a result) \<Rightarrow> ('p, 'c) cacheMergeIterator \<Rightarrow> 'a result" where
  "Merge_choose P C onCache onParent onBoth iter =
     bindR (skipUntilExistsOrInvalid P C iter) (\<lambda>(_, iter).
     bindR (assertValid P C iter) (\<lambda>iter.
     bindR (oi_Valid P (mi_parent iter)) (\<lambda>(validP, p).
       if \<not> validP then onCache (iter\<lparr>mi_parent := p\<rparr>)
       else bindR (oi_Valid C (mi_cache iter)) (\<lambda>(validC, c).
         if \<not> validC then onParent (iter\<lparr>mi_parent := p, mi_cache := c\<rparr>)
         else bindR (oi_Key P p) (\<lambda>(keyP, p). bindR (oi_Key C c) (\<lambda>(keyC, c).
           onBoth (mi_compare (mi_ascending iter) keyP keyC) keyP keyC (iter\<lparr>mi_parent := p, mi_cache := c\<rparr>)))))))"

text \<open>An operation of the parent or of the cache, with its state put back.\<close>

definition in_parent :: "('p \<Rightarrow> ('a \<times> 'p) result) \<Rightarrow> ('p, 'c) cacheMergeIterator \<Rightarrow> ('a \<times> ('p, 'c) cacheMergeIterator) result" where
  "in_parent f iter = bindR (f (mi_parent iter)) (\<lambda>(x, p). okR (x, iter\<lparr>mi_parent := p\<rparr>))"

definition in_cache :: "('c \<Rightarrow> ('a \<times> 'c) result) \<Rightarrow> ('p, 'c) cacheMergeIterator \<Rightarrow> ('a \<times> ('p, 'c) cacheMergeIterator) result" where
  "in_cache f iter = bindR (f (mi_cache iter)) (\<lambda>(x, c). okR (x, iter\<lparr>mi_cache := c\<rparr>))"

definition parent_Next :: "('p, 'o) ObjIterator \<Rightarrow> ('p, 'c) cacheMergeIterator \<Rightarrow> ('p, 'c) cacheMergeIterator result" where
  "parent_Next P iter = bindR (oi_Next P (mi_parent iter)) (\<lambda>p. okR (iter\<lparr>mi_parent := p\<rparr>))"

definition cache_Next :: "('c, 'o) ObjIterator \<Rightarrow> ('p, 'c) cacheMergeIterator \<Rightarrow> ('p, 'c) cacheMergeIterator result" where
  "cache_Next C iter = bindR (oi_Next C (mi_cache iter)) (\<lambda>c. okR (iter\<lparr>mi_cache := c\<rparr>))"

definition Merge_Next :: "('p, 'o) ObjIterator \<Rightarrow> ('c, 'o) ObjIterator \<Rightarrow> ('p, 'c) cacheMergeIterator \<Rightarrow> ('p, 'c) cacheMergeIterator result" where
  "Merge_Next P C = Merge_choose P C (cache_Next C) (parent_Next P)
     (\<lambda>cmp keyP keyC iter. if cmp = -1 then parent_Next P iter
        else if cmp = 0 then bindR (parent_Next P iter) (cache_Next C) else cache_Next C iter)"

definition Merge_Key :: "('p, 'o) ObjIterator \<Rightarrow> ('c, 'o) ObjIterator \<Rightarrow> ('p, 'c) cacheMergeIterator \<Rightarrow>
    (bytes \<times> ('p, 'c) cacheMergeIterator) result" where
  "Merge_Key P C = Merge_choose P C (in_cache (oi_Key C)) (in_parent (oi_Key P))
     (\<lambda>cmp keyP keyC iter. okR (if cmp = -1 then keyP else if cmp = 0 then keyP else keyC, iter))"

definition Merge_Value :: "('p, 'o) ObjIterator \<Rightarrow> ('c, 'o) ObjIterator \<Rightarrow> ('p, 'c) cacheMergeIterator \<Rightarrow>
    (bytes option \<times> ('p, 'c) cacheMergeIterator) result" where
  "Merge_Value P C = Merge_choose P C (in_cache (oi_Value C)) (in_parent (oi_Value P))
     (\<lambda>cmp keyP keyC. if cmp = -1 then in_parent (oi_Value P) else in_cache (oi_Value C))"

definition Merge_ObjValue :: "('p, 'o) ObjIterator \<Rightarrow> ('c, 'o) ObjIterator \<Rightarrow> 'o option \<Rightarrow> ('p, 'c) cacheMergeIterator \<Rightarrow>
    ('o option \<times> ('p, 'c) cacheMergeIterator) result" where
  "Merge_ObjValue P C ptr = Merge_choose P C (in_cache (oi_ObjValue C ptr)) (in_parent (oi_ObjValue P ptr))
     (\<lambda>cmp keyP keyC. if cmp = -1 then in_parent (oi_ObjValue P ptr) else in_cache (oi_ObjValue C ptr))"

definition MergeI :: "('p, 'o) ObjIterator \<Rightarrow> ('c, 'o) ObjIterator \<Rightarrow> (('p, 'c) cacheMergeIterator, 'o) ObjIterator" where
  "MergeI P C = \<lparr>oi_Domain = Merge_Domain P C, oi_Valid = Merge_Valid P C, oi_Next = Merge_Next P C, oi_Key = Merge_Key P C,
     oi_Value = Merge_Value P C, oi_ObjValue = Merge_ObjValue P C\<rparr>"

section \<open>The overlay\<close>

text \<open>The order of the keys, and what a merge iterator still has to return.\<close>

definition mi_less :: "bool \<Rightarrow> bytes \<Rightarrow> bytes \<Rightarrow> bool" where
  "mi_less ascending a b = (if ascending then a < b else b < a)"

fun overlay :: "bool \<Rightarrow> 'o item list \<Rightarrow> 'o item list \<Rightarrow> 'o item list" where
  "overlay asc [] cs = filter (\<lambda>c. item_value c \<noteq> None) cs"
| "overlay asc (p # ps) [] = p # ps"
| "overlay asc (p # ps) (c # cs) =
     (if mi_less asc (item_key p) (item_key c) then p # overlay asc ps (c # cs)
      else if item_key p = item_key c then (if item_value c = None then overlay asc ps cs else c # overlay asc ps cs)
      else if item_value c = None then overlay asc (p # ps) cs else c # overlay asc (p # ps) cs)"

lemma mi_compare_less: "mi_compare asc a b = -1 \<longleftrightarrow> mi_less asc a b" "mi_compare asc a b < 0 \<longleftrightarrow> mi_less asc a b"
    "mi_compare asc a b = 0 \<longleftrightarrow> a = b"
  by (auto simp: mi_compare_def mi_less_def bytes_Compare_cases)

lemma mi_less_irrefl [simp]: "\<not> mi_less asc a a"
  by (simp add: mi_less_def)

lemma mi_less_trans: "mi_less asc a b \<Longrightarrow> mi_less asc b c \<Longrightarrow> mi_less asc a c"
  by (auto simp: mi_less_def split: if_splits)

lemma mi_less_linear: "mi_less asc a b \<or> a = b \<or> mi_less asc b a"
  by (auto simp: mi_less_def)

abbreviation keys_sorted :: "bool \<Rightarrow> 'o item list \<Rightarrow> bool" where
  "keys_sorted asc xs \<equiv> sorted_wrt (mi_less asc) (map fst xs)"

lemma overlay_Nil [simp]: "overlay asc ps [] = ps"
  by (cases ps) simp_all

lemma overlay_set: "x \<in> set (overlay asc ps cs) \<Longrightarrow> x \<in> set ps \<or> x \<in> set cs"
  by (induction asc ps cs rule: overlay.induct) (auto split: if_splits)

lemma overlay_keys: "k \<in> fst ` set (overlay asc ps cs) \<Longrightarrow> k \<in> fst ` set ps \<union> fst ` set cs"
  by (auto dest: overlay_set)

lemma keys_sorted_Cons: "keys_sorted asc (x # xs) \<longleftrightarrow> (\<forall>y \<in> set xs. mi_less asc (fst x) (fst y)) \<and> keys_sorted asc xs"
  by simp

lemma keys_sorted_notin: "keys_sorted asc (x # xs) \<Longrightarrow> mi_less asc k (fst x) \<Longrightarrow> map_of (x # xs) k = None"
  by (auto simp: map_of_eq_None_iff dest: mi_less_trans)

lemma overlay_sorted: "keys_sorted asc ps \<Longrightarrow> keys_sorted asc cs \<Longrightarrow> keys_sorted asc (overlay asc ps cs)"
proof (induction asc ps cs rule: overlay.induct)
  case (1 asc cs)
  then show ?case by (induction cs) auto
next
  case (3 asc p ps c cs)
  have l: "mi_less asc (fst c) (fst p)" if "\<not> mi_less asc (fst p) (fst c)" "fst p \<noteq> fst c"
    using that mi_less_linear [of asc "fst p" "fst c"] by auto
  have "mi_less asc (fst c) (fst y)" if "\<not> mi_less asc (fst p) (fst c)" "fst p \<noteq> fst c" "y \<in> set (p # ps)" for y
    using mi_less_trans [OF l [OF that(1,2)]] l [OF that(1,2)] that(3) "3.prems"(1) by auto
  moreover have "mi_less asc (fst p) (fst y)" if "mi_less asc (fst p) (fst c)" "y \<in> set (c # cs)" for y
    using mi_less_trans [OF that(1)] that "3.prems"(2) by auto
  moreover have "mi_less asc (fst p) (fst y)" if "fst p = fst c" "y \<in> set cs" for y using that "3.prems"(2) by auto
  ultimately show ?case using "3.IH" "3.prems" by (auto dest!: overlay_set)
qed simp

text \<open>The merged items as a map: the cache where it has the key, and otherwise the parent.\<close>

lemma overlay_map:
  "keys_sorted asc ps \<Longrightarrow> keys_sorted asc cs \<Longrightarrow> map_of (overlay asc ps cs) k =
    (case map_of cs k of None \<Rightarrow> map_of ps k | Some v \<Rightarrow> if fst v = None then None else Some v)"
proof (induction asc ps cs rule: overlay.induct)
  case (1 asc cs)
  then show ?case
  proof (induction cs)
    case (Cons c cs)
    then have "fst c \<notin> fst ` set cs" by auto
    then have "map_of cs (fst c) = None" by (simp add: map_of_eq_None_iff)
    with Cons show ?case by (cases c) auto
  qed simp
next
  case (3 asc p ps c cs)
  obtain pk pv where p: "p = (pk, pv)" by (metis surj_pair)
  obtain ck cv where c: "c = (ck, cv)" by (metis surj_pair)
  have pn: "map_of ps pk = None" and cn: "map_of cs ck = None" using 3 by (auto simp: p c map_of_eq_None_iff)
  have "mi_less asc ck pk" if "\<not> mi_less asc pk ck" "pk \<noteq> ck" using that mi_less_linear [of asc pk ck] by auto
  then have c2: "\<not> mi_less asc pk ck \<Longrightarrow> pk \<noteq> ck \<Longrightarrow> map_of (p # ps) ck = None" using keys_sorted_notin [of asc p ps ck] 3 by (simp add: p)
  have c1: "mi_less asc pk ck \<Longrightarrow> map_of (c # cs) pk = None" using keys_sorted_notin [of asc c cs pk] 3 by (simp add: c)
  consider "mi_less asc pk ck" | "\<not> mi_less asc pk ck" "pk = ck" | "\<not> mi_less asc pk ck" "pk \<noteq> ck" by blast
  then show ?case
  proof cases
    case 1
    with 3 c1 show ?thesis by (auto simp: p c split: if_splits option.split)
  next
    case 2
    with 3 pn cn show ?thesis by (auto simp: p c split: option.split)
  next
    case 3
    with "3.IH" "3.prems" c2 cn show ?thesis by (auto simp: p c split: if_splits option.split)
  qed
qed simp

section \<open>The merge iterator returns the overlay\<close>

definition merge_inv :: "('p \<Rightarrow> bool) \<Rightarrow> ('p \<Rightarrow> 'o item list) \<Rightarrow> ('c \<Rightarrow> bool) \<Rightarrow> ('c \<Rightarrow> 'o item list) \<Rightarrow> ('p, 'c) cacheMergeIterator \<Rightarrow> bool" where
  "merge_inv invP restP invC restC m \<longleftrightarrow> invP (mi_parent m) \<and> invC (mi_cache m) \<and>
     keys_sorted (mi_ascending m) (restP (mi_parent m)) \<and> keys_sorted (mi_ascending m) (restC (mi_cache m))"

definition merge_rest :: "('p \<Rightarrow> 'o item list) \<Rightarrow> ('c \<Rightarrow> 'o item list) \<Rightarrow> ('p, 'c) cacheMergeIterator \<Rightarrow> 'o item list" where
  "merge_rest restP restC m = overlay (mi_ascending m) (restP (mi_parent m)) (restC (mi_cache m))"

text \<open>Nothing is to be skipped in front of the first item.\<close>

fun settled :: "bool \<Rightarrow> 'o item list \<Rightarrow> 'o item list \<Rightarrow> bool" where
  "settled asc ps [] = True"
| "settled asc [] (c # cs) = (item_value c \<noteq> None)"
| "settled asc (p # ps) (c # cs) = (mi_less asc (item_key p) (item_key c) \<or> item_value c \<noteq> None)"

definition skipped :: "bool \<Rightarrow> bytes option \<Rightarrow> 'o item \<Rightarrow> bool" where
  "skipped asc until x \<longleftrightarrow> item_value x = None \<and> (case until of None \<Rightarrow> True | Some u \<Rightarrow> mi_less asc (item_key x) u)"

lemma overlay_skip: "overlay asc (p # ps) (dropWhile (skipped asc (Some (item_key p))) cs) = overlay asc (p # ps) cs"
proof (induction cs)
  case (Cons c cs)
  have "\<not> mi_less asc (item_key p) (item_key c) \<and> item_key p \<noteq> item_key c" if "mi_less asc (item_key c) (item_key p)"
    using that mi_less_trans mi_less_irrefl by metis
  with Cons show ?case by (auto simp: skipped_def)
qed simp

lemma overlay_skip_Nil: "dropWhile (skipped asc None) cs \<noteq> [] \<longleftrightarrow> overlay asc [] cs \<noteq> []"
    "overlay asc [] (dropWhile (skipped asc None) cs) = overlay asc [] cs"
  by (induction cs) (auto simp: skipped_def)

lemma settled_skip_Nil: "settled asc [] (dropWhile (skipped asc None) cs)"
proof (cases "dropWhile (skipped asc None) cs")
  case (Cons c xs)
  then have "\<not> skipped asc None c" by (metis hd_dropWhile list.distinct(1) list.sel(1))
  with Cons show ?thesis by (simp add: skipped_def)
next
  case Nil
  show ?thesis unfolding Nil by simp
qed

lemma keys_sorted_dropWhile: "keys_sorted asc cs \<Longrightarrow> keys_sorted asc (dropWhile P cs)"
  by (induction cs) auto

locale merge_iterators = P: obj_iterator P invP restP + C: obj_iterator C invC restC
  for P :: "('p, 'o) ObjIterator" and invP :: "'p \<Rightarrow> bool" and restP :: "'p \<Rightarrow> 'o item list"
    and C :: "('c, 'o) ObjIterator" and invC :: "'c \<Rightarrow> bool" and restC :: "'c \<Rightarrow> 'o item list"
begin

lemma skipCacheDeletes_ok:
  "invC c \<Longrightarrow> \<exists>c'. skipCacheDeletes C asc until c = okR c' \<and> invC c' \<and> restC c' = dropWhile (skipped asc until) (restC c)"
proof (induction "restC c" arbitrary: c)
  case Nil
  then obtain c' where "oi_Valid C c = okR (False, c')" "invC c'" "restC c' = []" using C.Valid_Nil [of c] by auto
  with Nil show ?case by (subst skipCacheDeletes.simps) simp
next
  case (Cons x xs)
  note R = Cons.hyps(2) [symmetric]
  from C.Valid_Cons [OF Cons.prems R] obtain a where a: "oi_Valid C c = okR (True, a)" "invC a" "restC a = x # xs" by blast
  from C.Value [OF a(2,3)] a(3) obtain b where b: "oi_Value C a = okR (item_value x, b)" "invC b" "restC b = x # xs" by auto
  from C.Key [OF b(2,3)] b(3) obtain d where d: "oi_Key C b = okR (item_key x, d)" "invC d" "restC d = x # xs" by auto
  define c2 where "c2 = (if until = None then b else d)"
  have c2: "invC c2" "restC c2 = x # xs" using b d by (simp_all add: c2_def)
  from C.Next [OF c2] obtain e where e: "oi_Next C c2 = okR e" "invC e" "restC e = xs" by blast
  show ?case
  proof (cases "skipped asc until x")
    case True
    then have "skipCacheDeletes C asc until c = skipCacheDeletes C asc until e"
      using a b d e(1) by (subst skipCacheDeletes.simps) (auto simp: skipped_def c2_def mi_compare_less split: option.splits)
    with Cons.hyps(1) [OF e(3) [symmetric] e(2)] e(3) R True show ?thesis by simp
  next
    case False
    then have "\<exists>c'. skipCacheDeletes C asc until c = okR c' \<and> invC c' \<and> restC c' = x # xs"
      using a b d by (subst skipCacheDeletes.simps) (auto simp: skipped_def mi_compare_less split: option.splits)
    with R False show ?thesis by simp
  qed
qed

abbreviation "minv \<equiv> merge_inv invP restP invC restC"

abbreviation "mrest \<equiv> merge_rest restP restC"

text \<open>A skip that returns, with everything that is known of its result.\<close>

definition skips :: "('p, 'c) cacheMergeIterator \<Rightarrow> bool" where
  "skips m \<longleftrightarrow> (\<exists>m'. skipUntilExistsOrInvalid P C m = okR (mrest m \<noteq> [], m') \<and> minv m' \<and> mrest m' = mrest m \<and>
     mi_ascending m' = mi_ascending m \<and> settled (mi_ascending m') (restP (mi_parent m')) (restC (mi_cache m')))"

lemma skips_parent_end:
  assumes "minv m" and Nil: "restP (mi_parent m) = []"
  shows "skips m"
proof -
  let ?p = "mi_parent m" and ?c = "mi_cache m" and ?asc = "mi_ascending m"
  have inv: "invP ?p" "invC ?c" and srt: "keys_sorted ?asc (restC ?c)" using assms(1) by (simp_all add: merge_inv_def)
  from P.Valid_Nil [OF inv(1) Nil] obtain p where p: "oi_Valid P ?p = okR (False, p)" "invP p" "restP p = []" by blast
  from skipCacheDeletes_ok [OF inv(2)] obtain c where
    c: "skipCacheDeletes C ?asc None ?c = okR c" "invC c" "restC c = dropWhile (skipped ?asc None) (restC ?c)" by blast
  from C.Valid [OF c(2)] obtain d where d: "oi_Valid C c = okR (restC c \<noteq> [], d)" "invC d" "restC d = restC c" by blast
  let ?m = "m\<lparr>mi_parent := p, mi_cache := d\<rparr>"
  have "skipUntilExistsOrInvalid P C m = okR (mrest m \<noteq> [], ?m)"
    using p c d overlay_skip_Nil(1) [of ?asc "restC ?c"] Nil by (subst skipUntilExistsOrInvalid.simps) (simp add: merge_rest_def)
  moreover have "minv ?m" using p c d srt by (simp add: merge_inv_def keys_sorted_dropWhile)
  moreover have "mrest ?m = mrest m" using p c d Nil overlay_skip_Nil(2) by (simp add: merge_rest_def)
  moreover have "settled ?asc (restP p) (restC d)" using p d c settled_skip_Nil by simp
  ultimately show ?thesis unfolding skips_def by (intro exI [of _ ?m]) simp
qed

lemma skips_cache_end:
  assumes "minv m" and R: "restP (mi_parent m) = x # xs" "restC (mi_cache m) = []"
  shows "skips m"
proof -
  have inv: "invP (mi_parent m)" "invC (mi_cache m)" using assms(1) by (simp_all add: merge_inv_def)
  from P.Valid_Cons [OF inv(1) R(1)] obtain p where p: "oi_Valid P (mi_parent m) = okR (True, p)" "invP p" "restP p = x # xs" by blast
  from C.Valid_Nil [OF inv(2) R(2)] obtain c where c: "oi_Valid C (mi_cache m) = okR (False, c)" "invC c" "restC c = []" by blast
  let ?m = "m\<lparr>mi_parent := p, mi_cache := c\<rparr>"
  have "skipUntilExistsOrInvalid P C m = okR (mrest m \<noteq> [], ?m)"
    using p c R by (subst skipUntilExistsOrInvalid.simps) (simp add: merge_rest_def)
  moreover have "minv ?m \<and> mrest ?m = mrest m" using p c assms by (simp add: merge_inv_def merge_rest_def)
  ultimately show ?thesis unfolding skips_def using c by (intro exI [of _ ?m]) simp
qed

text \<open>With both valid, the loop stops or goes on with fewer items.\<close>

lemma skips_step:
  assumes "minv m" and R: "restP (mi_parent m) = x # xs" "restC (mi_cache m) = y # ys"
  shows "skips m \<or> (\<exists>m'. skipUntilExistsOrInvalid P C m = skipUntilExistsOrInvalid P C m' \<and> minv m' \<and> mrest m' = mrest m \<and>
    mi_ascending m' = mi_ascending m \<and>
    length (restP (mi_parent m')) + length (restC (mi_cache m')) < length (restP (mi_parent m)) + length (restC (mi_cache m)))"
proof -
  let ?asc = "mi_ascending m"
  have inv: "invP (mi_parent m)" "invC (mi_cache m)" and srt: "keys_sorted ?asc (x # xs)" "keys_sorted ?asc (y # ys)"
    using assms by (simp_all add: merge_inv_def)
  from P.Valid_Cons [OF inv(1) R(1)] obtain p0 where p0: "oi_Valid P (mi_parent m) = okR (True, p0)" "invP p0" "restP p0 = x # xs" by blast
  from C.Valid_Cons [OF inv(2) R(2)] obtain c0 where c0: "oi_Valid C (mi_cache m) = okR (True, c0)" "invC c0" "restC c0 = y # ys" by blast
  from P.Key [OF p0(2,3)] p0(3) obtain p where p: "oi_Key P p0 = okR (item_key x, p)" "invP p" "restP p = x # xs" by auto
  from C.Key [OF c0(2,3)] c0(3) obtain c where c: "oi_Key C c0 = okR (item_key y, c)" "invC c" "restC c = y # ys" by auto
  from C.Value [OF c(2,3)] c(3) obtain d where d: "oi_Value C c = okR (item_value y, d)" "invC d" "restC d = y # ys" by auto
  note calls = p0 c0 p c d mi_compare_less
  consider (stop) "mi_less ?asc (item_key x) (item_key y) \<or> item_value y \<noteq> None"
    | (same) "item_value y = None" "item_key x = item_key y"
    | (deletes) "item_value y = None" "mi_less ?asc (item_key y) (item_key x)" "\<not> mi_less ?asc (item_key x) (item_key y)" "item_key x \<noteq> item_key y"
    using mi_less_linear [of ?asc "item_key x" "item_key y"] by auto
  then show ?thesis
  proof cases
    case stop
    let ?m = "m\<lparr>mi_parent := p, mi_cache := if mi_less ?asc (item_key x) (item_key y) then c else d\<rparr>"
    have "mrest m \<noteq> []" using R stop by (auto simp: merge_rest_def)
    then have "skipUntilExistsOrInvalid P C m = okR (mrest m \<noteq> [], ?m)"
      using calls stop by (subst skipUntilExistsOrInvalid.simps) (auto simp: Let_def)
    moreover have "minv ?m \<and> mrest ?m = mrest m" using calls srt R by (simp add: merge_inv_def merge_rest_def)
    ultimately have "skips m" unfolding skips_def using stop calls by (intro exI [of _ ?m]) auto
    then show ?thesis ..
  next
    case same
    from P.Next [OF p(2,3)] obtain p1 where p1: "oi_Next P p = okR p1" "invP p1" "restP p1 = xs" by blast
    from C.Next [OF d(2,3)] obtain c1 where c1: "oi_Next C d = okR c1" "invC c1" "restC c1 = ys" by blast
    let ?m = "m\<lparr>mi_parent := p1, mi_cache := c1\<rparr>"
    have "skipUntilExistsOrInvalid P C m = skipUntilExistsOrInvalid P C ?m"
      using calls p1 c1 same by (subst skipUntilExistsOrInvalid.simps) (simp add: Let_def)
    then show ?thesis using p1 c1 srt R same by (intro disjI2 exI [of _ ?m]) (simp add: merge_inv_def merge_rest_def)
  next
    case deletes
    from skipCacheDeletes_ok [OF d(2)] obtain c1 where c1: "skipCacheDeletes C ?asc (Some (item_key x)) d = okR c1" "invC c1"
      "restC c1 = dropWhile (skipped ?asc (Some (item_key x))) (y # ys)" unfolding d(3) by blast
    have len: "length (restC c1) < length (y # ys)"
      using c1(3) deletes length_dropWhile_le [of "skipped ?asc (Some (item_key x))" ys] by (simp add: skipped_def)
    let ?m = "m\<lparr>mi_parent := p, mi_cache := c1\<rparr>"
    have "skipUntilExistsOrInvalid P C m = skipUntilExistsOrInvalid P C ?m"
      using calls c1 deletes by (subst skipUntilExistsOrInvalid.simps) (simp add: Let_def)
    moreover have "minv ?m" unfolding merge_inv_def using p c1 keys_sorted_dropWhile [OF srt(2)] srt(1) by simp
    moreover have "mrest ?m = mrest m" using overlay_skip [of ?asc x xs "y # ys"] p c1 R by (simp add: merge_rest_def)
    ultimately show ?thesis using len p R by (intro disjI2 exI [of _ ?m]) simp
  qed
qed

lemma skips_always: "minv m \<Longrightarrow> skips m"
proof (induction "length (restP (mi_parent m)) + length (restC (mi_cache m))" arbitrary: m rule: less_induct)
  case less
  show ?case
  proof (cases "restP (mi_parent m)")
    case Nil
    then show ?thesis by (rule skips_parent_end [OF less.prems])
  next
    case P: (Cons x xs)
    show ?thesis
    proof (cases "restC (mi_cache m)")
      case Nil
      then show ?thesis by (rule skips_cache_end [OF less.prems P])
    next
      case (Cons y ys)
      from skips_step [OF less.prems P Cons] less.hyps show ?thesis by (metis (no_types, lifting) skips_def)
    qed
  qed
qed

text \<open>The state in which an operation acts, and where the first item of the overlay is then.\<close>

definition stands :: "('p, 'c) cacheMergeIterator \<Rightarrow> 'o item \<Rightarrow> 'o item list \<Rightarrow> ('p, 'c) cacheMergeIterator \<Rightarrow> bool" where
  "stands m x xs m' \<longleftrightarrow> minv m' \<and> mrest m' = x # xs \<and> mi_ascending m' = mi_ascending m \<and>
     settled (mi_ascending m') (restP (mi_parent m')) (restC (mi_cache m'))"

lemma assertValid_ok:
  assumes "minv m" and "mrest m = x # xs"
  shows "\<exists>m' v m0. skipUntilExistsOrInvalid P C m = okR (v, m0) \<and> assertValid P C m0 = okR m' \<and> stands m x xs m'"
proof -
  from skips_always [OF assms(1)] obtain m0 where m0: "skipUntilExistsOrInvalid P C m = okR (True, m0)" "minv m0" "mrest m0 = x # xs"
    "mi_ascending m0 = mi_ascending m" unfolding skips_def assms(2) by auto
  from skips_always [OF m0(2)] obtain m1 where "skipUntilExistsOrInvalid P C m0 = okR (True, m1)" "minv m1" "mrest m1 = x # xs"
    "mi_ascending m1 = mi_ascending m0" "settled (mi_ascending m1) (restP (mi_parent m1)) (restC (mi_cache m1))" unfolding skips_def m0(3) by auto
  with m0 show ?thesis by (auto simp: assertValid_def Merge_Valid_def stands_def)
qed

lemma choose_ok:
  assumes "minv m" and "mrest m = x # xs"
  shows "\<exists>m'. stands m x xs m' \<and>
    (restP (mi_parent m') = [] \<and> Merge_choose P C onCache onParent onBoth m = onCache m' \<or>
     restP (mi_parent m') \<noteq> [] \<and> restC (mi_cache m') = [] \<and> Merge_choose P C onCache onParent onBoth m = onParent m' \<or>
     (\<exists>y ys z zs. restP (mi_parent m') = y # ys \<and> restC (mi_cache m') = z # zs \<and> Merge_choose P C onCache onParent onBoth m =
        onBoth (mi_compare (mi_ascending m) (item_key y) (item_key z)) (item_key y) (item_key z) m'))"
proof -
  from assertValid_ok [OF assms] obtain v m0 m1 where m1: "skipUntilExistsOrInvalid P C m = okR (v, m0)" "assertValid P C m0 = okR m1"
    "stands m x xs m1" by blast
  have inv: "invP (mi_parent m1)" "invC (mi_cache m1)" using m1(3) by (simp_all add: stands_def merge_inv_def)
  from P.Valid [OF inv(1)] obtain p where p: "oi_Valid P (mi_parent m1) = okR (restP (mi_parent m1) \<noteq> [], p)" "invP p"
    "restP p = restP (mi_parent m1)" by blast
  from C.Valid [OF inv(2)] obtain c where c: "oi_Valid C (mi_cache m1) = okR (restC (mi_cache m1) \<noteq> [], c)" "invC c"
    "restC c = restC (mi_cache m1)" by blast
  have at: "stands m x xs (m1\<lparr>mi_parent := p', mi_cache := c'\<rparr>)" if "invP p'" "restP p' = restP (mi_parent m1)" "invC c'"
    "restC c' = restC (mi_cache m1)" for p' c' using that m1(3) by (auto simp: stands_def merge_inv_def merge_rest_def)
  note calls = m1(1,2) p c
  consider (pend) "restP (mi_parent m1) = []" | (cend) "restP (mi_parent m1) \<noteq> []" "restC (mi_cache m1) = []"
    | (both) y ys z zs where "restP p = y # ys" "restC c = z # zs" using p(3) c(3) by (metis list.exhaust)
  then show ?thesis
  proof cases
    case pend
    with calls at [OF p(2,3) inv(2) refl] show ?thesis by (intro exI [of _ "m1\<lparr>mi_parent := p\<rparr>"]) (simp add: Merge_choose_def)
  next
    case cend
    with calls at [OF p(2,3) c(2,3)] show ?thesis
      by (intro exI [of _ "m1\<lparr>mi_parent := p, mi_cache := c\<rparr>"]) (simp add: Merge_choose_def)
  next
    case both
    from P.Key [OF p(2) both(1)] obtain p1 where p1: "oi_Key P p = okR (item_key y, p1)" "invP p1" "restP p1 = restP p" by blast
    from C.Key [OF c(2) both(2)] obtain c1 where c1: "oi_Key C c = okR (item_key z, c1)" "invC c1" "restC c1 = restC c" by blast
    let ?m = "m1\<lparr>mi_parent := p1, mi_cache := c1\<rparr>"
    have asc: "mi_ascending m1 = mi_ascending m" using m1(3) by (simp add: stands_def)
    have ne: "restP (mi_parent m1) \<noteq> []" "restC (mi_cache m1) \<noteq> []" using both p(3) c(3) by auto
    have "Merge_choose P C onCache onParent onBoth m =
        onBoth (mi_compare (mi_ascending m) (item_key y) (item_key z)) (item_key y) (item_key z) ?m"
      using calls p1(1) c1(1) ne asc by (simp add: Merge_choose_def)
    moreover have "stands m x xs ?m" using at p1 c1 p(3) c(3) by simp
    ultimately show ?thesis using p1(3) c1(3) both by (intro exI [of _ ?m]) simp
  qed
qed

text \<open>The first item of the overlay is that of the parent or that of the cache, and \<open>Next\<close> drops it.\<close>

lemma stands_cache_alone:
  assumes "stands m x xs m'" and "restP (mi_parent m') = []"
  shows "\<exists>zs. restC (mi_cache m') = x # zs \<and> (\<forall>c. restC c = zs \<longrightarrow> mrest (m'\<lparr>mi_cache := c\<rparr>) = xs)"
  using assms by (cases "restC (mi_cache m')") (auto simp: stands_def merge_rest_def)

lemma stands_parent_alone:
  assumes "stands m x xs m'" and "restP (mi_parent m') \<noteq> []" and "restC (mi_cache m') = []"
  shows "\<exists>ys. restP (mi_parent m') = x # ys \<and> (\<forall>p. restP p = ys \<longrightarrow> mrest (m'\<lparr>mi_parent := p\<rparr>) = xs)"
  using assms by (cases "restP (mi_parent m')") (auto simp: stands_def merge_rest_def)

lemma stands_both:
  assumes "stands m x xs m'" and "restP (mi_parent m') = y # ys" and "restC (mi_cache m') = z # zs"
  shows "if mi_less (mi_ascending m) (item_key y) (item_key z) then y = x \<and> overlay (mi_ascending m) ys (z # zs) = xs
    else if item_key y = item_key z then z = x \<and> overlay (mi_ascending m) ys zs = xs
    else z = x \<and> overlay (mi_ascending m) (y # ys) zs = xs"
  using assms by (auto simp: stands_def merge_rest_def split: if_splits)

lemma minv_upd: "stands m x xs m' \<Longrightarrow> invP p \<Longrightarrow> invC c \<Longrightarrow> keys_sorted (mi_ascending m') (restP p) \<Longrightarrow>
    keys_sorted (mi_ascending m') (restC c) \<Longrightarrow> minv (m'\<lparr>mi_parent := p, mi_cache := c\<rparr>)"
  by (simp add: merge_inv_def stands_def)

lemma stands_invs: "stands m x xs m' \<Longrightarrow> invP (mi_parent m') \<and> invC (mi_cache m') \<and> keys_sorted (mi_ascending m') (restP (mi_parent m')) \<and>
    keys_sorted (mi_ascending m') (restC (mi_cache m')) \<and> mi_ascending m' = mi_ascending m"
  by (auto simp: stands_def merge_inv_def)

text \<open>A read returns what it reads of the first item.\<close>

lemma read_ok:
  assumes m: "minv m" "mrest m = x # xs"
    and f: "\<And>p y ys. invP p \<Longrightarrow> restP p = y # ys \<Longrightarrow> \<exists>p'. f p = bindR (Some (val y)) (\<lambda>v. okR (v, p')) \<and> invP p' \<and> restP p' = restP p"
    and g: "\<And>c z zs. invC c \<Longrightarrow> restC c = z # zs \<Longrightarrow> \<exists>c'. g c = bindR (Some (val z)) (\<lambda>v. okR (v, c')) \<and> invC c' \<and> restC c' = restC c"
  shows "\<exists>m'. Merge_choose P C (in_cache g) (in_parent f) (\<lambda>cmp keyP keyC. if cmp = -1 then in_parent f else in_cache g) m =
      bindR (Some (val x)) (\<lambda>v. okR (v, m')) \<and> minv m' \<and> mrest m' = x # xs"
proof -
  let ?choose = "Merge_choose P C (in_cache g) (in_parent f) (\<lambda>cmp keyP keyC. if cmp = -1 then in_parent f else in_cache g) m"
  from choose_ok [OF m] obtain m1 where m1: "stands m x xs m1" and
    act: "restP (mi_parent m1) = [] \<and> ?choose = in_cache g m1 \<or>
      restP (mi_parent m1) \<noteq> [] \<and> restC (mi_cache m1) = [] \<and> ?choose = in_parent f m1 \<or>
      (\<exists>y ys z zs. restP (mi_parent m1) = y # ys \<and> restC (mi_cache m1) = z # zs \<and>
         ?choose = (if mi_compare (mi_ascending m) (item_key y) (item_key z) = -1 then in_parent f else in_cache g) m1)" by blast
  have "(\<exists>ys. restP (mi_parent m1) = x # ys \<and> ?choose = in_parent f m1) \<or> (\<exists>zs. restC (mi_cache m1) = x # zs \<and> ?choose = in_cache g m1)"
    using act stands_cache_alone [OF m1] stands_parent_alone [OF m1] stands_both [OF m1]
    by (elim disjE exE conjE) (fastforce simp: mi_compare_less split: if_splits)+
  then show ?thesis
  proof (elim disjE exE conjE)
    fix ys assume ys: "restP (mi_parent m1) = x # ys" "?choose = in_parent f m1"
    from f [OF conjunct1 [OF stands_invs [OF m1]] ys(1)] obtain p' where "f (mi_parent m1) = bindR (Some (val x)) (\<lambda>v. okR (v, p'))"
      "invP p'" "restP p' = restP (mi_parent m1)" by blast
    with ys(2) m1 show ?thesis
      by (intro exI [of _ "m1\<lparr>mi_parent := p'\<rparr>"]) (auto simp: in_parent_def stands_def merge_inv_def merge_rest_def)
  next
    fix zs assume zs: "restC (mi_cache m1) = x # zs" "?choose = in_cache g m1"
    from g [OF conjunct1 [OF conjunct2 [OF stands_invs [OF m1]]] zs(1)] obtain c' where
      "g (mi_cache m1) = bindR (Some (val x)) (\<lambda>v. okR (v, c'))" "invC c'" "restC c' = restC (mi_cache m1)" by blast
    with zs(2) m1 show ?thesis
      by (intro exI [of _ "m1\<lparr>mi_cache := c'\<rparr>"]) (auto simp: in_cache_def stands_def merge_inv_def merge_rest_def)
  qed
qed

lemma Merge_Value_ok: "minv m \<Longrightarrow> mrest m = x # xs \<Longrightarrow> \<exists>m'. Merge_Value P C m = okR (item_value x, m') \<and> minv m' \<and> mrest m' = x # xs"
  unfolding Merge_Value_def using read_ok [of m x xs "oi_Value P" "\<lambda>x. Inr (item_value x)" "oi_Value C"] P.Value C.Value by simp

lemma Merge_ObjValue_ok: "minv m \<Longrightarrow> mrest m = x # xs \<Longrightarrow>
    \<exists>m'. Merge_ObjValue P C ptr m = bindR (Some (item_read x ptr)) (\<lambda>v. okR (v, m')) \<and> minv m' \<and> mrest m' = x # xs"
  unfolding Merge_ObjValue_def
proof (rule read_ok)
  fix p y ys assume "invP p" "restP p = y # ys"
  from P.ObjValue [OF this, of ptr] \<open>invP p\<close>
  show "\<exists>p'. oi_ObjValue P ptr p = bindR (Some (item_read y ptr)) (\<lambda>v. okR (v, p')) \<and> invP p' \<and> restP p' = restP p" by auto
next
  fix c z zs assume "invC c" "restC c = z # zs"
  from C.ObjValue [OF this, of ptr] \<open>invC c\<close>
  show "\<exists>c'. oi_ObjValue C ptr c = bindR (Some (item_read z ptr)) (\<lambda>v. okR (v, c')) \<and> invC c' \<and> restC c' = restC c" by auto
qed

text \<open>\<open>Key\<close> returns the keys it compared, and \<open>Next\<close> moves what stands on the first item.\<close>

lemma Merge_Key_ok:
  assumes m: "minv m" "mrest m = x # xs"
  shows "\<exists>m'. Merge_Key P C m = okR (item_key x, m') \<and> minv m' \<and> mrest m' = x # xs"
proof -
  let ?both = "\<lambda>cmp keyP keyC iter. okR (if cmp = -1 then keyP else if cmp = 0 then keyP else keyC, iter)"
  from choose_ok [OF m, of "in_cache (oi_Key C)" "in_parent (oi_Key P)" ?both] obtain m1 where m1: "stands m x xs m1" and
    act: "restP (mi_parent m1) = [] \<and> Merge_Key P C m = in_cache (oi_Key C) m1 \<or>
      restP (mi_parent m1) \<noteq> [] \<and> restC (mi_cache m1) = [] \<and> Merge_Key P C m = in_parent (oi_Key P) m1 \<or>
      (\<exists>y ys z zs. restP (mi_parent m1) = y # ys \<and> restC (mi_cache m1) = z # zs \<and> Merge_Key P C m =
         ?both (mi_compare (mi_ascending m) (item_key y) (item_key z)) (item_key y) (item_key z) m1)"
    unfolding Merge_Key_def by blast
  note inv = stands_invs [OF m1]
  from act show ?thesis
  proof (elim disjE exE conjE)
    assume *: "restP (mi_parent m1) = []" "Merge_Key P C m = in_cache (oi_Key C) m1"
    with stands_cache_alone [OF m1] obtain zs where "restC (mi_cache m1) = x # zs" by blast
    from C.Key [OF _ this] inv obtain c' where "oi_Key C (mi_cache m1) = okR (item_key x, c')" "invC c'" "restC c' = restC (mi_cache m1)" by blast
    with *(2) m1 show ?thesis by (intro exI [of _ "m1\<lparr>mi_cache := c'\<rparr>"]) (auto simp: in_cache_def stands_def merge_inv_def merge_rest_def)
  next
    assume *: "restP (mi_parent m1) \<noteq> []" "restC (mi_cache m1) = []" "Merge_Key P C m = in_parent (oi_Key P) m1"
    with stands_parent_alone [OF m1] obtain ys where "restP (mi_parent m1) = x # ys" by blast
    from P.Key [OF _ this] inv obtain p' where "oi_Key P (mi_parent m1) = okR (item_key x, p')" "invP p'" "restP p' = restP (mi_parent m1)" by blast
    with *(3) m1 show ?thesis by (intro exI [of _ "m1\<lparr>mi_parent := p'\<rparr>"]) (auto simp: in_parent_def stands_def merge_inv_def merge_rest_def)
  next
    fix y ys z zs assume *: "restP (mi_parent m1) = y # ys" "restC (mi_cache m1) = z # zs"
      "Merge_Key P C m = ?both (mi_compare (mi_ascending m) (item_key y) (item_key z)) (item_key y) (item_key z) m1"
    with stands_both [OF m1 *(1,2)] m1 show ?thesis by (auto simp: mi_compare_less stands_def split: if_splits)
  qed
qed

lemma cache_Next_ok:
  assumes "stands m x xs m1" and "restC (mi_cache m1) = z # zs"
  shows "\<exists>c'. cache_Next C (m1\<lparr>mi_parent := p\<rparr>) = okR (m1\<lparr>mi_parent := p, mi_cache := c'\<rparr>) \<and> invC c' \<and> restC c' = zs"
proof -
  from C.Next [of "mi_cache m1", OF _ assms(2)] stands_invs [OF assms(1)] obtain c' where
    "oi_Next C (mi_cache m1) = okR c'" "invC c'" "restC c' = zs" by blast
  then show ?thesis by (auto simp: cache_Next_def)
qed

lemma parent_Next_ok:
  assumes "stands m x xs m1" and "restP (mi_parent m1) = y # ys"
  shows "\<exists>p'. parent_Next P m1 = okR (m1\<lparr>mi_parent := p'\<rparr>) \<and> invP p' \<and> restP p' = ys"
proof -
  from P.Next [of "mi_parent m1", OF _ assms(2)] stands_invs [OF assms(1)] obtain p' where
    "oi_Next P (mi_parent m1) = okR p'" "invP p'" "restP p' = ys" by blast
  then show ?thesis by (auto simp: parent_Next_def)
qed

lemma Merge_Next_ok:
  assumes m: "minv m" "mrest m = x # xs"
  shows "\<exists>m'. Merge_Next P C m = okR m' \<and> minv m' \<and> mrest m' = xs"
proof -
  let ?both = "\<lambda>cmp keyP keyC iter. if cmp = -1 then parent_Next P iter else if cmp = 0 then bindR (parent_Next P iter) (cache_Next C) else cache_Next C iter"
  from choose_ok [OF m, of "cache_Next C" "parent_Next P" ?both] obtain m1 where m1: "stands m x xs m1" and
    act: "restP (mi_parent m1) = [] \<and> Merge_Next P C m = cache_Next C m1 \<or>
      restP (mi_parent m1) \<noteq> [] \<and> restC (mi_cache m1) = [] \<and> Merge_Next P C m = parent_Next P m1 \<or>
      (\<exists>y ys z zs. restP (mi_parent m1) = y # ys \<and> restC (mi_cache m1) = z # zs \<and> Merge_Next P C m =
         ?both (mi_compare (mi_ascending m) (item_key y) (item_key z)) (item_key y) (item_key z) m1)"
    unfolding Merge_Next_def by blast
  note inv = stands_invs [OF m1]
  note cache = cache_Next_ok [OF m1] and parent = parent_Next_ok [OF m1]
  from act show ?thesis
  proof (elim disjE exE conjE)
    assume *: "restP (mi_parent m1) = []" "Merge_Next P C m = cache_Next C m1"
    from stands_cache_alone [OF m1 *(1)] obtain zs where zs: "restC (mi_cache m1) = x # zs"
      "\<forall>c. restC c = zs \<longrightarrow> mrest (m1\<lparr>mi_cache := c\<rparr>) = xs" by blast
    from cache [OF zs(1), of "mi_parent m1"] zs inv *(2) show ?thesis by (auto simp: merge_inv_def)
  next
    assume *: "restP (mi_parent m1) \<noteq> []" "restC (mi_cache m1) = []" "Merge_Next P C m = parent_Next P m1"
    from stands_parent_alone [OF m1 *(1,2)] obtain ys where ys: "restP (mi_parent m1) = x # ys"
      "\<forall>p. restP p = ys \<longrightarrow> mrest (m1\<lparr>mi_parent := p\<rparr>) = xs" by blast
    from parent [OF ys(1)] ys inv *(3) show ?thesis by (auto simp: merge_inv_def)
  next
    fix y ys z zs assume *: "restP (mi_parent m1) = y # ys" "restC (mi_cache m1) = z # zs"
      "Merge_Next P C m = ?both (mi_compare (mi_ascending m) (item_key y) (item_key z)) (item_key y) (item_key z) m1"
    from parent [OF *(1)] obtain p' where p': "parent_Next P m1 = okR (m1\<lparr>mi_parent := p'\<rparr>)" "invP p'" "restP p' = ys" by blast
    from cache [OF *(2), of p'] obtain c' where c': "cache_Next C (m1\<lparr>mi_parent := p'\<rparr>) = okR (m1\<lparr>mi_parent := p', mi_cache := c'\<rparr>)"
      "invC c'" "restC c' = zs" by blast
    from cache [OF *(2), of "mi_parent m1"] obtain c2 where c2: "cache_Next C m1 = okR (m1\<lparr>mi_cache := c2\<rparr>)" "invC c2" "restC c2 = zs" by auto
    show ?thesis using stands_both [OF m1 *(1,2)] inv * p' c' c2 by (auto simp: mi_compare_less merge_inv_def merge_rest_def split: if_splits)
  qed
qed

end

sublocale merge_iterators \<subseteq> merged: obj_iterator "MergeI P C" "merge_inv invP restP invC restC" "merge_rest restP restC"
proof (unfold_locales, goal_cases)
  case (1 i)
  then show ?case using skips_always [of i] by (auto simp: MergeI_def Merge_Valid_def skips_def)
next
  case (2 i x xs)
  then show ?case using Merge_Next_ok by (simp add: MergeI_def)
next
  case (3 i x xs)
  then show ?case using Merge_Key_ok by (simp add: MergeI_def)
next
  case (4 i x xs)
  then show ?case using Merge_Value_ok by (simp add: MergeI_def)
next
  case (5 i x xs p)
  from Merge_ObjValue_ok [OF 5, of p] 5(2) show ?case by (cases "item_read x p") (auto simp: MergeI_def)
qed

end
