(* ===== verification/TrunkStore.thy ===== *)
theory TrunkStore
  imports MergeIter
begin

text \<open>
  The stores of a block and of a transaction (store/trunk.go, store/multi.go), and the root store that the
  tests use (store/mock_root.go). A trunk store caches the changes of a block over a root store; a multi
  store caches those of a transaction over a trunk store, which several transactions share: it is
  passed along. A pointer that \<open>Close\<close> clears is an option. Calls are serialized, so that the atomic
  counter \<open>isWriting\<close> is a field.
\<close>

definition deref :: "'a option \<Rightarrow> 'a outcome" where
  "deref p = (case p of None \<Rightarrow> Inl NilDeref | Some x \<Rightarrow> Inr x)"

text \<open>A store key is a pointer: \<open>sk_ptr\<close> tells two keys with the same fields apart.\<close>

record StrStoreKey =
  sk_ptr :: nat
  sk_name :: bytes
  sk_prefix :: bytes

section \<open>The trunk store\<close>

record ('r, 'o) TrunkStore =
  ts_cache :: "'o CacheStore option"
  ts_root :: "'r option"
  ts_storeKeys :: "StrStoreKey list"
  ts_isWriting :: int

text \<open>\<open>GetTrunkStore\<close> of a root store.\<close>

definition NewTrunkStore :: "StrStoreKey list \<Rightarrow> 'r \<Rightarrow> ('r, 'o) TrunkStore" where
  "NewTrunkStore keys root = \<lparr>ts_cache = Some NewCacheStore, ts_root = Some root, ts_storeKeys = keys, ts_isWriting = 0\<rparr>"

definition notWriting :: "('r, 'o) TrunkStore \<Rightarrow> unit outcome" where
  "notWriting ts = guardE (ts_isWriting ts = 0) (Panic ''Is Writing'')"

definition TrunkStore_Has :: "('r, 'f, 'b, 'o) RootStoreI \<Rightarrow> 'o Serializable \<Rightarrow> bytes \<Rightarrow> ('r, 'o) TrunkStore \<Rightarrow> bool outcome" where
  "TrunkStore_Has R S key ts =
     bindE (notWriting ts) (\<lambda>_. bindE (deref (ts_cache ts)) (\<lambda>cs. bindE (CacheStore_Get S key cs) (\<lambda>(_, status).
       case status of JustDeleted \<Rightarrow> Inr False | Hit \<Rightarrow> Inr True
       | Missed \<Rightarrow> bindE (deref (ts_root ts)) (rs_Has R key))))"

definition TrunkStore_Get :: "('r, 'f, 'b, 'o) RootStoreI \<Rightarrow> 'o Serializable \<Rightarrow> bytes \<Rightarrow> ('r, 'o) TrunkStore \<Rightarrow> bytes option outcome" where
  "TrunkStore_Get R S key ts =
     bindE (notWriting ts) (\<lambda>_. bindE (deref (ts_cache ts)) (\<lambda>cs. bindE (CacheStore_Get S key cs) (\<lambda>(res, status).
       case status of JustDeleted \<Rightarrow> Inr None | Hit \<Rightarrow> Inr res
       | Missed \<Rightarrow> bindE (deref (ts_root ts)) (rs_Get R key))))"

definition TrunkStore_GetObjCopy :: "('r, 'f, 'b, 'o) RootStoreI \<Rightarrow> 'o Serializable \<Rightarrow> bytes \<Rightarrow> 'o option \<Rightarrow> ('r, 'o) TrunkStore \<Rightarrow>
    'o option outcome" where
  "TrunkStore_GetObjCopy R S key ptr ts =
     bindE (notWriting ts) (\<lambda>_. bindE (deref (ts_cache ts)) (\<lambda>cs. bindE (CacheStore_GetObjCopy S key ptr cs) (\<lambda>(status, ptr).
       case status of JustDeleted \<Rightarrow> Inr None | Hit \<Rightarrow> Inr ptr
       | Missed \<Rightarrow> bindE (deref (ts_root ts)) (rs_GetObjCopy R key ptr))))"

definition TrunkStore_GetReadOnlyObj :: "('r, 'f, 'b, 'o) RootStoreI \<Rightarrow> 'o Serializable \<Rightarrow> bytes \<Rightarrow> 'o option \<Rightarrow> ('r, 'o) TrunkStore \<Rightarrow>
    ('o option \<times> ('r, 'o) TrunkStore) outcome" where
  "TrunkStore_GetReadOnlyObj R S key ptr ts =
     bindE (notWriting ts) (\<lambda>_. bindE (deref (ts_cache ts)) (\<lambda>cs. bindE (CacheStore_GetReadOnlyObj S key ptr cs) (\<lambda>(status, ptr).
       case status of JustDeleted \<Rightarrow> Inr (None, ts) | Hit \<Rightarrow> Inr (ptr, ts)
       | Missed \<Rightarrow> bindE (deref (ts_root ts)) (\<lambda>r. bindE (rs_GetReadOnlyObj R key ptr r) (\<lambda>(ptr, r). Inr (ptr, ts\<lparr>ts_root := Some r\<rparr>))))))"

definition TrunkStore_PrepareForUpdate :: "('r, 'f, 'b, 'o) RootStoreI \<Rightarrow> bytes \<Rightarrow> ('r, 'o) TrunkStore \<Rightarrow> ('r, 'o) TrunkStore outcome" where
  "TrunkStore_PrepareForUpdate R key ts =
     bindE (notWriting ts) (\<lambda>_. bindE (deref (ts_root ts)) (\<lambda>r. bindE (rs_PrepareForUpdate R key r) (\<lambda>r. Inr (ts\<lparr>ts_root := Some r\<rparr>))))"

definition TrunkStore_PrepareForDeletion :: "('r, 'f, 'b, 'o) RootStoreI \<Rightarrow> bytes \<Rightarrow> ('r, 'o) TrunkStore \<Rightarrow> ('r, 'o) TrunkStore outcome" where
  "TrunkStore_PrepareForDeletion R key ts =
     bindE (notWriting ts) (\<lambda>_. bindE (deref (ts_root ts)) (\<lambda>r. bindE (rs_PrepareForDeletion R key r) (\<lambda>r. Inr (ts\<lparr>ts_root := Some r\<rparr>))))"

definition TrunkStore_Update :: "('o CacheStore \<Rightarrow> 'o CacheStore outcome) \<Rightarrow> ('r, 'o) TrunkStore \<Rightarrow> ('r, 'o) TrunkStore outcome" where
  "TrunkStore_Update updator ts =
     bindE (notWriting ts) (\<lambda>_. bindE (deref (ts_cache ts)) (\<lambda>cs. bindE (updator cs) (\<lambda>cs. Inr (ts\<lparr>ts_cache := Some cs\<rparr>))))"

definition TrunkStore_Iterator :: "('r, 'f, 'b, 'o) RootStoreI \<Rightarrow> bytes \<Rightarrow> bytes \<Rightarrow> ('r, 'o) TrunkStore \<Rightarrow>
    ('f, 'o CacheForward) cacheMergeIterator outcome" where
  "TrunkStore_Iterator R start end' ts =
     bindE (notWriting ts) (\<lambda>_. bindE (deref (ts_root ts)) (\<lambda>r. bindE (rs_Iterator R start end' r) (\<lambda>p.
     bindE (deref (ts_cache ts)) (\<lambda>cs. bindE (CacheStore_Iterator start end' cs) (\<lambda>c. Inr (newCacheMergeIterator p c True))))))"

definition TrunkStore_ReverseIterator :: "('r, 'f, 'b, 'o) RootStoreI \<Rightarrow> bytes \<Rightarrow> bytes \<Rightarrow> ('r, 'o) TrunkStore \<Rightarrow>
    ('b, 'o CacheBackward) cacheMergeIterator outcome" where
  "TrunkStore_ReverseIterator R start end' ts =
     bindE (notWriting ts) (\<lambda>_. bindE (deref (ts_root ts)) (\<lambda>r. bindE (rs_ReverseIterator R start end' r) (\<lambda>p.
     bindE (deref (ts_cache ts)) (\<lambda>cs. bindE (CacheStore_ReverseIterator start end' cs) (\<lambda>c. Inr (newCacheMergeIterator p c False))))))"

text \<open>One entry of the cache, written to the root store: the function that \<open>writeBack\<close> scans with.\<close>

definition writeEntry :: "('r, 'f, 'b, 'o) RootStoreI \<Rightarrow> bytes \<Rightarrow> 'o Value \<Rightarrow> bool \<Rightarrow> 'r \<Rightarrow> 'r outcome" where
  "writeEntry R key obj isDeleted r =
     (if isDeleted then rs_Delete R key r
      else case obj of Object sobj \<Rightarrow> rs_SetObj R key sobj r | RawBytes bz \<Rightarrow> rs_Set R key bz r
        | _ \<Rightarrow> Inl (Panic ''interface conversion: interface is nil, not []uint8''))"

definition TrunkStore_writeBack :: "('r, 'f, 'b, 'o) RootStoreI \<Rightarrow> ('r, 'o) TrunkStore \<Rightarrow> ('r, 'o) TrunkStore result" where
  "TrunkStore_writeBack R ts =
     (let ts = ts\<lparr>ts_isWriting := ts_isWriting ts + 1\<rparr>
      in bindR (Some
           (bindE (guardE (ts_isWriting ts = 1) (Panic ''Conflict During Writing'')) (\<lambda>_.
            bindE (deref (ts_root ts)) (\<lambda>r. bindE (rs_BeginWrite R r) (\<lambda>r.
            bindE (deref (ts_cache ts)) (\<lambda>cs. ScanAllEntries (writeEntry R) cs r)))))) (\<lambda>r.
         bindR (rs_EndWrite R r) (\<lambda>r.
           let ts = ts\<lparr>ts_root := Some r, ts_isWriting := ts_isWriting ts - 1\<rparr>
           in Some (bindE (guardE (ts_isWriting ts = 0) (Panic ''Conflict During Writing'')) (\<lambda>_. Inr ts)))))"

text \<open>\<open>Close\<close> clears the pointer to the root store, which lives on: it is returned beside the trunk.\<close>

definition TrunkStore_Close :: "('r, 'f, 'b, 'o) RootStoreI \<Rightarrow> bool \<Rightarrow> ('r, 'o) TrunkStore \<Rightarrow> ('r option \<times> ('r, 'o) TrunkStore) result" where
  "TrunkStore_Close R writeBack ts =
     bindR (if writeBack then TrunkStore_writeBack R ts else okR ts) (\<lambda>ts.
       Some (bindE (deref (ts_cache ts)) (\<lambda>_. Inr (ts_root ts, ts\<lparr>ts_cache := None, ts_root := None\<rparr>))))"

definition TrunkStore_ActiveCount :: "('r, 'f, 'b, 'o) RootStoreI \<Rightarrow> ('r, 'o) TrunkStore \<Rightarrow> nat outcome" where
  "TrunkStore_ActiveCount R ts = bindE (deref (ts_root ts)) (\<lambda>r. Inr (rs_ActiveCount R r))"

section \<open>The multi store\<close>

text \<open>\<open>ms_trunk\<close> says whether the pointer to the trunk is set.\<close>

record 'o MultiStore =
  ms_cache :: "'o CacheStore option"
  ms_trunk :: bool
  ms_storeKeys :: "StrStoreKey list"

definition TrunkStore_Cached :: "('r, 'o) TrunkStore \<Rightarrow> 'o MultiStore" where
  "TrunkStore_Cached ts = \<lparr>ms_cache = Some NewCacheStore, ms_trunk = True, ms_storeKeys = ts_storeKeys ts\<rparr>"

definition trunk_of :: "'o MultiStore \<Rightarrow> unit outcome" where
  "trunk_of ms = guardE (ms_trunk ms) NilDeref"

definition MultiStore_Has :: "('r, 'f, 'b, 'o) RootStoreI \<Rightarrow> 'o Serializable \<Rightarrow> bytes \<Rightarrow> 'o MultiStore \<Rightarrow> ('r, 'o) TrunkStore \<Rightarrow> bool outcome" where
  "MultiStore_Has R S key ms ts =
     bindE (deref (ms_cache ms)) (\<lambda>cs. bindE (CacheStore_Get S key cs) (\<lambda>(_, status).
       case status of JustDeleted \<Rightarrow> Inr False | Hit \<Rightarrow> Inr True
       | Missed \<Rightarrow> bindE (trunk_of ms) (\<lambda>_. TrunkStore_Has R S key ts)))"

definition MultiStore_Get :: "('r, 'f, 'b, 'o) RootStoreI \<Rightarrow> 'o Serializable \<Rightarrow> bytes \<Rightarrow> 'o MultiStore \<Rightarrow> ('r, 'o) TrunkStore \<Rightarrow>
    bytes option outcome" where
  "MultiStore_Get R S key ms ts =
     bindE (deref (ms_cache ms)) (\<lambda>cs. bindE (CacheStore_Get S key cs) (\<lambda>(res, status).
       case status of JustDeleted \<Rightarrow> Inr None | Hit \<Rightarrow> Inr res
       | Missed \<Rightarrow> bindE (trunk_of ms) (\<lambda>_. TrunkStore_Get R S key ts)))"

definition MultiStore_GetObj :: "('r, 'f, 'b, 'o) RootStoreI \<Rightarrow> 'o Serializable \<Rightarrow> bytes \<Rightarrow> 'o option \<Rightarrow>
    'o MultiStore \<Rightarrow> ('r, 'o) TrunkStore \<Rightarrow> ('o option \<times> 'o MultiStore) outcome" where
  "MultiStore_GetObj R S key ptr ms ts =
     bindE (deref (ms_cache ms)) (\<lambda>cs. bindE (CacheStore_GetObj S key ptr cs) (\<lambda>(status, ptr, cs).
       case status of JustDeleted \<Rightarrow> Inr (None, ms) | Hit \<Rightarrow> Inr (ptr, ms\<lparr>ms_cache := Some cs\<rparr>)
       | Missed \<Rightarrow> bindE (trunk_of ms) (\<lambda>_. bindE (TrunkStore_GetObjCopy R S key ptr ts) (\<lambda>ptr. Inr (ptr, ms)))))"

definition MultiStore_GetReadOnlyObj :: "('r, 'f, 'b, 'o) RootStoreI \<Rightarrow> 'o Serializable \<Rightarrow> bytes \<Rightarrow> 'o option \<Rightarrow>
    'o MultiStore \<Rightarrow> ('r, 'o) TrunkStore \<Rightarrow> ('o option \<times> ('r, 'o) TrunkStore) outcome" where
  "MultiStore_GetReadOnlyObj R S key ptr ms ts =
     bindE (deref (ms_cache ms)) (\<lambda>cs. bindE (CacheStore_GetReadOnlyObj S key ptr cs) (\<lambda>(status, ptr).
       case status of JustDeleted \<Rightarrow> Inr (None, ts) | Hit \<Rightarrow> Inr (ptr, ts)
       | Missed \<Rightarrow> bindE (trunk_of ms) (\<lambda>_. TrunkStore_GetReadOnlyObj R S key ptr ts)))"

text \<open>The writes change the cache and prepare the key in the root store.\<close>

definition MultiStore_Set :: "('r, 'f, 'b, 'o) RootStoreI \<Rightarrow> bytes \<Rightarrow> bytes option \<Rightarrow> 'o MultiStore \<times> ('r, 'o) TrunkStore \<Rightarrow>
    ('o MultiStore \<times> ('r, 'o) TrunkStore) outcome" where
  "MultiStore_Set R key value st =
     bindE (deref (ms_cache (fst st))) (\<lambda>cs. bindE (trunk_of (fst st)) (\<lambda>_.
     bindE (TrunkStore_PrepareForUpdate R key (snd st)) (\<lambda>ts. Inr ((fst st)\<lparr>ms_cache := Some (CacheStore_Set key value cs)\<rparr>, ts))))"

definition MultiStore_SetObj :: "('r, 'f, 'b, 'o) RootStoreI \<Rightarrow> bytes \<Rightarrow> 'o option \<Rightarrow> 'o MultiStore \<times> ('r, 'o) TrunkStore \<Rightarrow>
    ('o MultiStore \<times> ('r, 'o) TrunkStore) outcome" where
  "MultiStore_SetObj R key obj st =
     bindE (deref (ms_cache (fst st))) (\<lambda>cs. bindE (trunk_of (fst st)) (\<lambda>_.
     bindE (TrunkStore_PrepareForUpdate R key (snd st)) (\<lambda>ts. Inr ((fst st)\<lparr>ms_cache := Some (CacheStore_SetObj key obj cs)\<rparr>, ts))))"

definition MultiStore_Delete :: "('r, 'f, 'b, 'o) RootStoreI \<Rightarrow> bytes \<Rightarrow> 'o MultiStore \<times> ('r, 'o) TrunkStore \<Rightarrow>
    ('o MultiStore \<times> ('r, 'o) TrunkStore) outcome" where
  "MultiStore_Delete R key st =
     bindE (deref (ms_cache (fst st))) (\<lambda>cs. bindE (trunk_of (fst st)) (\<lambda>_.
     bindE (TrunkStore_PrepareForDeletion R key (snd st)) (\<lambda>ts. Inr ((fst st)\<lparr>ms_cache := Some (CacheStore_Delete key cs)\<rparr>, ts))))"

definition cacheEntry :: "bytes \<Rightarrow> 'o Value \<Rightarrow> bool \<Rightarrow> 'o CacheStore \<Rightarrow> 'o CacheStore outcome" where
  "cacheEntry key obj isDeleted cache =
     (if isDeleted then Inr (CacheStore_Delete key cache)
      else case obj of Object sobj \<Rightarrow> Inr (CacheStore_SetObj key (Some sobj) cache) | RawBytes bz \<Rightarrow> Inr (CacheStore_Set key bz cache)
        | _ \<Rightarrow> Inl (Panic ''interface conversion: interface is nil, not []uint8''))"

definition MultiStore_writeBack :: "'o MultiStore \<Rightarrow> ('r, 'o) TrunkStore \<Rightarrow> ('r, 'o) TrunkStore outcome" where
  "MultiStore_writeBack ms ts =
     bindE (trunk_of ms) (\<lambda>_. TrunkStore_Update (\<lambda>cache.
       bindE (deref (ms_cache ms)) (\<lambda>cs. ScanAllEntries cacheEntry cs cache)) ts)"

definition MultiStore_Close :: "bool \<Rightarrow> 'o MultiStore \<times> ('r, 'o) TrunkStore \<Rightarrow> ('o MultiStore \<times> ('r, 'o) TrunkStore) outcome" where
  "MultiStore_Close writeBack st =
     bindE (if writeBack then MultiStore_writeBack (fst st) (snd st) else Inr (snd st)) (\<lambda>ts.
       Inr ((fst st)\<lparr>ms_cache := None, ms_trunk := False, ms_storeKeys := []\<rparr>, ts))"

definition MultiStore_Iterator :: "('r, 'f, 'b, 'o) RootStoreI \<Rightarrow> bytes \<Rightarrow> bytes \<Rightarrow> 'o MultiStore \<Rightarrow> ('r, 'o) TrunkStore \<Rightarrow>
    (('f, 'o CacheForward) cacheMergeIterator, 'o CacheForward) cacheMergeIterator outcome" where
  "MultiStore_Iterator R start end' ms ts =
     bindE (trunk_of ms) (\<lambda>_. bindE (TrunkStore_Iterator R start end' ts) (\<lambda>p.
     bindE (deref (ms_cache ms)) (\<lambda>cs. bindE (CacheStore_Iterator start end' cs) (\<lambda>c. Inr (newCacheMergeIterator p c True)))))"

definition MultiStore_ReverseIterator :: "('r, 'f, 'b, 'o) RootStoreI \<Rightarrow> bytes \<Rightarrow> bytes \<Rightarrow> 'o MultiStore \<Rightarrow> ('r, 'o) TrunkStore \<Rightarrow>
    (('b, 'o CacheBackward) cacheMergeIterator, 'o CacheBackward) cacheMergeIterator outcome" where
  "MultiStore_ReverseIterator R start end' ms ts =
     bindE (trunk_of ms) (\<lambda>_. bindE (TrunkStore_ReverseIterator R start end' ts) (\<lambda>p.
     bindE (deref (ms_cache ms)) (\<lambda>cs. bindE (CacheStore_ReverseIterator start end' cs) (\<lambda>c. Inr (newCacheMergeIterator p c False)))))"

section \<open>The mock root store\<close>

record 'o MockRootStore =
  mr_cacheStore :: "'o CacheStore"
  mr_preparedForUpdate :: "bytes set"
  mr_preparedForDeletion :: "bytes set"
  mr_isWritting :: bool

definition NewMockRootStore :: "'o MockRootStore" where
  "NewMockRootStore = \<lparr>mr_cacheStore = NewCacheStore, mr_preparedForUpdate = {}, mr_preparedForDeletion = {}, mr_isWritting = False\<rparr>"

definition mockIdle :: "'o MockRootStore \<Rightarrow> unit outcome" where
  "mockIdle rs = guardE (\<not> mr_isWritting rs) (Panic ''isWritting'')"

definition MockRootStore_Get :: "'o Serializable \<Rightarrow> bytes \<Rightarrow> 'o MockRootStore \<Rightarrow> bytes option outcome" where
  "MockRootStore_Get S key rs =
     bindE (mockIdle rs) (\<lambda>_. bindE (CacheStore_Get S key (mr_cacheStore rs)) (\<lambda>(v, status). if status = Missed then Inr None else Inr v))"

definition MockRootStore_GetObjCopy :: "'o Serializable \<Rightarrow> bytes \<Rightarrow> 'o option \<Rightarrow> 'o MockRootStore \<Rightarrow> 'o option outcome" where
  "MockRootStore_GetObjCopy S key ptr rs =
     bindE (mockIdle rs) (\<lambda>_. bindE (CacheStore_GetObjCopy S key ptr (mr_cacheStore rs)) (\<lambda>(status, ptr). if status \<noteq> Hit then Inr None else Inr ptr))"

definition MockRootStore_GetReadOnlyObj :: "'o Serializable \<Rightarrow> bytes \<Rightarrow> 'o option \<Rightarrow> 'o MockRootStore \<Rightarrow> ('o option \<times> 'o MockRootStore) outcome" where
  "MockRootStore_GetReadOnlyObj S key ptr rs =
     bindE (mockIdle rs) (\<lambda>_. bindE (CacheStore_GetReadOnlyObj S key ptr (mr_cacheStore rs)) (\<lambda>(status, ptr).
       if status \<noteq> Hit then Inr (None, rs) else Inr (ptr, rs)))"

definition MockRootStore_Has :: "'o Serializable \<Rightarrow> bytes \<Rightarrow> 'o MockRootStore \<Rightarrow> bool outcome" where
  "MockRootStore_Has S key rs =
     bindE (mockIdle rs) (\<lambda>_. bindE (CacheStore_Get S key (mr_cacheStore rs)) (\<lambda>(_, status). Inr (status = Hit)))"

definition MockRootStore_PrepareForUpdate :: "bytes \<Rightarrow> 'o MockRootStore \<Rightarrow> 'o MockRootStore outcome" where
  "MockRootStore_PrepareForUpdate key rs =
     bindE (mockIdle rs) (\<lambda>_. Inr (rs\<lparr>mr_preparedForUpdate := insert key (mr_preparedForUpdate rs)\<rparr>))"

definition MockRootStore_PrepareForDeletion :: "bytes \<Rightarrow> 'o MockRootStore \<Rightarrow> 'o MockRootStore outcome" where
  "MockRootStore_PrepareForDeletion key rs =
     bindE (mockIdle rs) (\<lambda>_. Inr (rs\<lparr>mr_preparedForDeletion := insert key (mr_preparedForDeletion rs)\<rparr>))"

definition MockRootStore_BeginWrite :: "'o MockRootStore \<Rightarrow> 'o MockRootStore outcome" where
  "MockRootStore_BeginWrite rs = Inr (rs\<lparr>mr_isWritting := True\<rparr>)"

definition MockRootStore_Set :: "bytes \<Rightarrow> bytes option \<Rightarrow> 'o MockRootStore \<Rightarrow> 'o MockRootStore outcome" where
  "MockRootStore_Set key value rs =
     bindE (guardE (mr_isWritting rs) (Panic ''notWritting'')) (\<lambda>_.
     bindE (guardE (key \<in> mr_preparedForUpdate rs) (Panic ''not prepared'')) (\<lambda>_.
       Inr (rs\<lparr>mr_cacheStore := CacheStore_Set key value (mr_cacheStore rs)\<rparr>)))"

definition MockRootStore_SetObj :: "bytes \<Rightarrow> 'o \<Rightarrow> 'o MockRootStore \<Rightarrow> 'o MockRootStore outcome" where
  "MockRootStore_SetObj key obj rs =
     bindE (guardE (mr_isWritting rs) (Panic ''notWritting'')) (\<lambda>_.
     bindE (guardE (key \<in> mr_preparedForUpdate rs) (Panic ''not prepared'')) (\<lambda>_.
       Inr (rs\<lparr>mr_cacheStore := CacheStore_SetObj key (Some obj) (mr_cacheStore rs)\<rparr>)))"

definition MockRootStore_Delete :: "bytes \<Rightarrow> 'o MockRootStore \<Rightarrow> 'o MockRootStore outcome" where
  "MockRootStore_Delete key rs =
     bindE (guardE (mr_isWritting rs) (Panic ''notWritting'')) (\<lambda>_.
     bindE (guardE (key \<in> mr_preparedForDeletion rs) (Panic ''not prepared'')) (\<lambda>_.
       Inr (rs\<lparr>mr_cacheStore := CacheStore_RealDelete key (mr_cacheStore rs)\<rparr>)))"

definition MockRootStore_EndWrite :: "'o MockRootStore \<Rightarrow> 'o MockRootStore outcome" where
  "MockRootStore_EndWrite rs = Inr (rs\<lparr>mr_isWritting := False, mr_preparedForUpdate := {}, mr_preparedForDeletion := {}\<rparr>)"

definition MockRootI :: "'o Serializable \<Rightarrow> ('o MockRootStore, 'o CacheForward, 'o CacheBackward, 'o) RootStoreI" where
  "MockRootI S = \<lparr>rs_SetHeight = (\<lambda>_ rs. rs), rs_Get = MockRootStore_Get S, rs_GetObjCopy = MockRootStore_GetObjCopy S,
     rs_GetReadOnlyObj = MockRootStore_GetReadOnlyObj S, rs_Has = MockRootStore_Has S,
     rs_PrepareForUpdate = MockRootStore_PrepareForUpdate, rs_PrepareForDeletion = MockRootStore_PrepareForDeletion,
     rs_Iterator = (\<lambda>s e rs. CacheStore_Iterator s e (mr_cacheStore rs)),
     rs_ReverseIterator = (\<lambda>s e rs. CacheStore_ReverseIterator s e (mr_cacheStore rs)),
     rs_BeginWrite = MockRootStore_BeginWrite, rs_Set = MockRootStore_Set, rs_SetObj = MockRootStore_SetObj,
     rs_Delete = MockRootStore_Delete, rs_EndWrite = (\<lambda>rs. Some (MockRootStore_EndWrite rs)),
     rs_CheckConsistency = (\<lambda>_. Inr ()), rs_ActiveCount = (\<lambda>rs. CacheStore_Size (mr_cacheStore rs))\<rparr>"

end
