(* ===== verification/RootStore.thy ===== *)
theory RootStore
  imports TrunkStore OnvaKV
begin

text \<open>
  The root store of store/root.go: an OnvaKV store with a cache of objects, for the keys that
  \<open>isCacheableKey\<close> selects. \<open>cacheBuf\<close> collects the objects that were read since the last block, and
  \<open>BeginWrite\<close> moves them into the cache; both are pointers to maps that can be nil. The random entry that
  \<open>addToCache\<close> removes from a full cache is chosen by \<open>rt_random\<close>, the stream of the choices that Go's runtime
  makes; it is arbitrary, and one choice is used up by every removal. Objects in the cache are shared with
  the clients, who must not change what they read.
\<close>

record ('i, 'd, 'e, 'o) RootStore =
  rt_cache :: "(bytes \<times> 'o) list option"
  rt_cacheBuf :: "(bytes \<times> 'o) list option"
  rt_isCacheableKey :: "(bytes \<Rightarrow> bool) option"
  rt_okv :: "('i, 'd, 'e) OnvaKV"
  rt_height :: int
  rt_storeKeys :: "StrStoreKey list"
  rt_random :: "nat \<Rightarrow> nat"

definition CacheSizeLimit :: nat where
  "CacheSizeLimit = 1024 * 1024"

definition NewRootStore :: "(nat \<Rightarrow> nat) \<Rightarrow> ('i, 'd, 'e) OnvaKV \<Rightarrow> StrStoreKey list \<Rightarrow> (bytes \<Rightarrow> bool) option \<Rightarrow>
    ('i, 'd, 'e, 'o) RootStore" where
  "NewRootStore rnd okv keys isCacheableKey = \<lparr>rt_cache = Some [], rt_cacheBuf = Some [], rt_isCacheableKey = isCacheableKey,
     rt_okv = okv, rt_height = -1, rt_storeKeys = keys, rt_random = rnd\<rparr>"

definition RootStore_SetHeight :: "int \<Rightarrow> ('i, 'd, 'e, 'o) RootStore \<Rightarrow> ('i, 'd, 'e, 'o) RootStore" where
  "RootStore_SetHeight h root = root\<lparr>rt_height := h\<rparr>"

text \<open>\<open>root.isCacheableKey != nil \<and> root.isCacheableKey(key)\<close>, and the lookup behind it; a nil map is empty.\<close>

definition cacheableKey :: "('i, 'd, 'e, 'o) RootStore \<Rightarrow> bytes \<Rightarrow> bool" where
  "cacheableKey root key = (case rt_isCacheableKey root of None \<Rightarrow> False | Some f \<Rightarrow> f key)"

definition cachedObj :: "bytes \<Rightarrow> ('i, 'd, 'e, 'o) RootStore \<Rightarrow> 'o option" where
  "cachedObj key root = (if cacheableKey root key then map_of (case rt_cache root of None \<Rightarrow> [] | Some m \<Rightarrow> m) key else None)"

definition RootStore_get :: "('i, 'e) IndexTreeI \<Rightarrow> 'd DataTreeI \<Rightarrow> bytes \<Rightarrow> ('i, 'd, 'e, 'o) RootStore \<Rightarrow> bytes option outcome" where
  "RootStore_get I D key root =
     bindE (GetEntry I D key (rt_okv root)) (\<lambda>e. Inr (case e of None \<Rightarrow> None | Some e \<Rightarrow> Value e))"

definition RootStore_Get :: "('i, 'e) IndexTreeI \<Rightarrow> 'd DataTreeI \<Rightarrow> 'o Serializable \<Rightarrow> bytes \<Rightarrow> ('i, 'd, 'e, 'o) RootStore \<Rightarrow> bytes option outcome" where
  "RootStore_Get I D S key root =
     (case cachedObj key root of Some obj \<Rightarrow> Inr (s_ToBytes S obj) | None \<Rightarrow> RootStore_get I D key root)"

text \<open>The second test calls \<open>isCacheableKey\<close> without looking whether it is nil.\<close>

definition RootStore_GetReadOnlyObj :: "('i, 'e) IndexTreeI \<Rightarrow> 'd DataTreeI \<Rightarrow> 'o Serializable \<Rightarrow> bytes \<Rightarrow> 'o option \<Rightarrow>
    ('i, 'd, 'e, 'o) RootStore \<Rightarrow> ('o option \<times> ('i, 'd, 'e, 'o) RootStore) outcome" where
  "RootStore_GetReadOnlyObj I D S key ptr root =
     (case cachedObj key root of Some obj \<Rightarrow> Inr (Some obj, root)
      | None \<Rightarrow> bindE (RootStore_get I D key root) (\<lambda>bz.
          if bz = None then Inr (None, root)
          else bindE (readInto S ptr bz) (\<lambda>ptr.
               bindE (deref (rt_isCacheableKey root)) (\<lambda>f.
                 if f key then
                   bindE (deref (rt_cacheBuf root)) (\<lambda>buf. bindE (deref ptr) (\<lambda>obj.
                     Inr (ptr, root\<lparr>rt_cacheBuf := Some (AList.update key obj buf)\<rparr>)))
                 else Inr (ptr, root)))))"

lemma RootStore_GetReadOnlyObj_nil_filter_panics:
  assumes "rt_isCacheableKey root = None" and "RootStore_get I D key root = Inr (Some bz)"
  shows "RootStore_GetReadOnlyObj I D S key (Some obj) root = Inl NilDeref"
  using assms by (simp add: RootStore_GetReadOnlyObj_def cachedObj_def cacheableKey_def readInto_def deref_def)

definition RootStore_GetObjCopy :: "('i, 'e) IndexTreeI \<Rightarrow> 'd DataTreeI \<Rightarrow> 'o Serializable \<Rightarrow> bytes \<Rightarrow> 'o option \<Rightarrow>
    ('i, 'd, 'e, 'o) RootStore \<Rightarrow> 'o option outcome" where
  "RootStore_GetObjCopy I D S key ptr root =
     (case cachedObj key root of Some obj \<Rightarrow> Inr (Some (s_DeepCopy S obj))
      | None \<Rightarrow> bindE (RootStore_get I D key root) (\<lambda>bz. if bz = None then Inr None else readInto S ptr bz))"

definition RootStore_Has :: "('i, 'e) IndexTreeI \<Rightarrow> 'd DataTreeI \<Rightarrow> bytes \<Rightarrow> ('i, 'd, 'e, 'o) RootStore \<Rightarrow> bool outcome" where
  "RootStore_Has I D key root = bindE (GetEntry I D key (rt_okv root)) (\<lambda>e. Inr (e \<noteq> None))"

definition RootStore_PrepareForUpdate :: "('i, 'e) IndexTreeI \<Rightarrow> 'd DataTreeI \<Rightarrow> bytes \<Rightarrow> ('i, 'd, 'e, 'o) RootStore \<Rightarrow>
    ('i, 'd, 'e, 'o) RootStore outcome" where
  "RootStore_PrepareForUpdate I D key root = bindE (PrepareForUpdate I D key (rt_okv root)) (\<lambda>okv. Inr (root\<lparr>rt_okv := okv\<rparr>))"

definition RootStore_PrepareForDeletion :: "('i, 'e) IndexTreeI \<Rightarrow> 'd DataTreeI \<Rightarrow> bytes \<Rightarrow> ('i, 'd, 'e, 'o) RootStore \<Rightarrow>
    ('i, 'd, 'e, 'o) RootStore outcome" where
  "RootStore_PrepareForDeletion I D key root = bindE (PrepareForDeletion I D key (rt_okv root)) (\<lambda>(_, okv). Inr (root\<lparr>rt_okv := okv\<rparr>))"

text \<open>The loop over the map deletes the key it visits first and leaves.\<close>

definition removeRandom :: "('i, 'd, 'e, 'o) RootStore \<Rightarrow> (bytes \<times> 'o) list \<Rightarrow> (bytes \<times> 'o) list \<times> ('i, 'd, 'e, 'o) RootStore" where
  "removeRandom root m =
     (AList.delete (fst (m ! (rt_random root 0 mod length m))) m, root\<lparr>rt_random := (\<lambda>n. rt_random root (Suc n))\<rparr>)"

definition addToCache :: "bytes \<Rightarrow> 'o \<Rightarrow> ('i, 'd, 'e, 'o) RootStore \<Rightarrow> ('i, 'd, 'e, 'o) RootStore outcome" where
  "addToCache key obj root =
     bindE (deref (rt_cache root)) (\<lambda>m.
     let (m, root) = (if CacheSizeLimit < length m then removeRandom root m else (m, root))
     in Inr (root\<lparr>rt_cache := Some (AList.update key obj m)\<rparr>))"

definition RootStore_BeginWrite :: "('i, 'e) IndexTreeI \<Rightarrow> ('i, 'd, 'e, 'o) RootStore \<Rightarrow> ('i, 'd, 'e, 'o) RootStore outcome" where
  "RootStore_BeginWrite I root =
     (if rt_height root < 0 then Inl (Panic ''Height is not initialized'')
      else bindE (okv_BeginWrite I (rt_height root) (rt_okv root)) (\<lambda>okv.
           bindE (deref (rt_cacheBuf root)) (\<lambda>buf.
           bindE (foldE (\<lambda>(key, value). addToCache key value) buf (root\<lparr>rt_okv := okv\<rparr>)) (\<lambda>root.
             Inr (root\<lparr>rt_cacheBuf := None\<rparr>)))))"

text \<open>A cached object gets the new bytes, in its place in the map.\<close>

definition RootStore_Set :: "'o Serializable \<Rightarrow> bytes \<Rightarrow> bytes option \<Rightarrow> ('i, 'd, 'e, 'o) RootStore \<Rightarrow> ('i, 'd, 'e, 'o) RootStore outcome" where
  "RootStore_Set S key value root =
     bindE (okv_Set key value (rt_okv root)) (\<lambda>okv.
       let root = root\<lparr>rt_okv := okv\<rparr>
       in case cachedObj key root of None \<Rightarrow> Inr root
          | Some obj \<Rightarrow> Inr (root\<lparr>rt_cache := map_option (AList.update key (s_FromBytes S obj value)) (rt_cache root)\<rparr>))"

definition RootStore_SetObj :: "'o Serializable \<Rightarrow> bytes \<Rightarrow> 'o \<Rightarrow> ('i, 'd, 'e, 'o) RootStore \<Rightarrow> ('i, 'd, 'e, 'o) RootStore outcome" where
  "RootStore_SetObj S key obj root =
     bindE (okv_Set key (s_ToBytes S obj) (rt_okv root)) (\<lambda>okv.
       let root = root\<lparr>rt_okv := okv\<rparr>
       in if cacheableKey root key then addToCache key obj root else Inr root)"

definition RootStore_Delete :: "bytes \<Rightarrow> ('i, 'd, 'e, 'o) RootStore \<Rightarrow> ('i, 'd, 'e, 'o) RootStore outcome" where
  "RootStore_Delete key root =
     bindE (okv_Delete key (rt_okv root)) (\<lambda>okv.
       Inr (root\<lparr>rt_okv := okv, rt_cache := map_option (AList.delete key) (rt_cache root)\<rparr>))"

definition RootStore_EndWrite :: "('e, 'it) engine \<Rightarrow> ('i, 'e) IndexTreeI \<Rightarrow> 'd DataTreeI \<Rightarrow> ('i, 'd, 'e, 'o) RootStore \<Rightarrow>
    ('i, 'd, 'e, 'o) RootStore result" where
  "RootStore_EndWrite E I D root =
     bindR (okv_EndWrite E I D (rt_okv root)) (\<lambda>okv. okR (root\<lparr>rt_okv := okv, rt_cacheBuf := Some []\<rparr>))"

definition RootStore_CheckConsistency :: "('i, 'e) IndexTreeI \<Rightarrow> 'd DataTreeI \<Rightarrow> ('i, 'd, 'e, 'o) RootStore \<Rightarrow> unit outcome" where
  "RootStore_CheckConsistency I D root = okv_CheckConsistency I D (rt_okv root)"

definition RootStore_GetRootHash :: "('i, 'd, 'e, 'o) RootStore \<Rightarrow> bytes" where
  "RootStore_GetRootHash root = GetRootHash (rt_okv root)"

definition RootStore_ActiveCount :: "('i, 'e) IndexTreeI \<Rightarrow> ('i, 'd, 'e, 'o) RootStore \<Rightarrow> nat" where
  "RootStore_ActiveCount I root = okv_ActiveCount I (rt_okv root)"

definition RootStore_GetTrunkStore :: "('i, 'd, 'e, 'o) RootStore \<Rightarrow> (('i, 'd, 'e, 'o) RootStore, 'o) TrunkStore" where
  "RootStore_GetTrunkStore root = NewTrunkStore (rt_storeKeys root) root"

definition RootStore_Close :: "('e, 'it) engine \<Rightarrow> (bytes \<Rightarrow> bytes) \<Rightarrow> nat list \<Rightarrow> ('i, Tree, 'e, 'o) RootStore \<Rightarrow>
    ((tree_dir \<times> 'e) \<times> ('i, Tree, 'e, 'o) RootStore) outcome" where
  "RootStore_Close E meow order root =
     bindE (okv_Close E meow order (rt_okv root)) (\<lambda>dir. Inr (dir, root\<lparr>rt_cache := None\<rparr>))"

section \<open>Iterators\<close>

text \<open>An iterator of the store beside the root store it belongs to, which is not changed meanwhile.\<close>

record ('i, 'd, 'e, 'o) RootForward =
  rf_root :: "('i, 'd, 'e, 'o) RootStore"
  rf_iter :: NVTree.ForwardIter

record ('i, 'd, 'e, 'o) RootBackward =
  rb_root :: "('i, 'd, 'e, 'o) RootStore"
  rb_iter :: NVTree.BackwardIter

text \<open>\<open>ObjValue\<close> at the current key, whose value is \<open>value\<close>.\<close>

definition RootIterator_ObjValue :: "'o Serializable \<Rightarrow> ('i, 'd, 'e, 'o) RootStore \<Rightarrow> bytes \<Rightarrow> bytes option outcome \<Rightarrow> 'o option \<Rightarrow>
    'o option outcome" where
  "RootIterator_ObjValue S root key value ptr =
     (case cachedObj key root of Some obj \<Rightarrow> Inr (Some obj) | None \<Rightarrow> bindE value (readInto S ptr))"

definition RootStore_Iterator :: "('i, 'e) IndexTreeI \<Rightarrow> bytes \<Rightarrow> bytes \<Rightarrow> ('i, 'd, 'e, 'o) RootStore \<Rightarrow> ('i, 'd, 'e, 'o) RootForward outcome" where
  "RootStore_Iterator I start end' root =
     bindE (okv_Iterator I start end' (rt_okv root)) (\<lambda>iter. Inr \<lparr>rf_root = root, rf_iter = iter\<rparr>)"

definition RootStore_ReverseIterator :: "('i, 'e) IndexTreeI \<Rightarrow> bytes \<Rightarrow> bytes \<Rightarrow> ('i, 'd, 'e, 'o) RootStore \<Rightarrow> ('i, 'd, 'e, 'o) RootBackward outcome" where
  "RootStore_ReverseIterator I start end' root =
     bindE (okv_ReverseIterator I start end' (rt_okv root)) (\<lambda>iter. Inr \<lparr>rb_root = root, rb_iter = iter\<rparr>)"

definition RootForward_Value :: "'d DataTreeI \<Rightarrow> ('i, 'd, 'e, 'o) RootForward \<Rightarrow> bytes option outcome" where
  "RootForward_Value D i = OnvaIterator_Value D (ForwardIter_Valid (rf_iter i)) (f_value (rf_iter i)) (rt_okv (rf_root i))"

definition RootBackward_Value :: "'d DataTreeI \<Rightarrow> ('i, 'd, 'e, 'o) RootBackward \<Rightarrow> bytes option outcome" where
  "RootBackward_Value D i = OnvaIterator_Value D (BackwardIter_Valid (rb_iter i)) (b_value (rb_iter i)) (rt_okv (rb_root i))"

definition RootForwardI :: "('i, 'e) IndexTreeI \<Rightarrow> 'd DataTreeI \<Rightarrow> 'o Serializable \<Rightarrow> (('i, 'd, 'e, 'o) RootForward, 'o) ObjIterator" where
  "RootForwardI I D S = \<lparr>oi_Domain = (\<lambda>i. (f_start (rf_iter i), f_end (rf_iter i))), oi_Valid = (\<lambda>i. okR (ForwardIter_Valid (rf_iter i), i)),
     oi_Next = (\<lambda>i. Some (bindE (ix_NextForward I (idxTree (rt_okv (rf_root i))) (rf_iter i)) (\<lambda>iter. Inr (i\<lparr>rf_iter := iter\<rparr>)))),
     oi_Key = (\<lambda>i. okR (f_key (rf_iter i), i)),
     oi_Value = (\<lambda>i. Some (bindE (RootForward_Value D i) (\<lambda>bz. Inr (bz, i)))),
     oi_ObjValue = (\<lambda>ptr i. Some (bindE (RootIterator_ObjValue S (rf_root i) (f_key (rf_iter i)) (RootForward_Value D i) ptr) (\<lambda>ptr. Inr (ptr, i))))\<rparr>"

definition RootBackwardI :: "('i, 'e) IndexTreeI \<Rightarrow> 'd DataTreeI \<Rightarrow> 'o Serializable \<Rightarrow> (('i, 'd, 'e, 'o) RootBackward, 'o) ObjIterator" where
  "RootBackwardI I D S = \<lparr>oi_Domain = (\<lambda>i. (b_start (rb_iter i), b_end (rb_iter i))), oi_Valid = (\<lambda>i. okR (BackwardIter_Valid (rb_iter i), i)),
     oi_Next = (\<lambda>i. Some (bindE (ix_NextBackward I (idxTree (rt_okv (rb_root i))) (rb_iter i)) (\<lambda>iter. Inr (i\<lparr>rb_iter := iter\<rparr>)))),
     oi_Key = (\<lambda>i. okR (b_key (rb_iter i), i)),
     oi_Value = (\<lambda>i. Some (bindE (RootBackward_Value D i) (\<lambda>bz. Inr (bz, i)))),
     oi_ObjValue = (\<lambda>ptr i. Some (bindE (RootIterator_ObjValue S (rb_root i) (b_key (rb_iter i)) (RootBackward_Value D i) ptr) (\<lambda>ptr. Inr (ptr, i))))\<rparr>"

definition RootI :: "('e, 'it) engine \<Rightarrow> ('i, 'e) IndexTreeI \<Rightarrow> 'd DataTreeI \<Rightarrow> 'o Serializable \<Rightarrow>
    (('i, 'd, 'e, 'o) RootStore, ('i, 'd, 'e, 'o) RootForward, ('i, 'd, 'e, 'o) RootBackward, 'o) RootStoreI" where
  "RootI E I D S = \<lparr>rs_SetHeight = RootStore_SetHeight, rs_Get = RootStore_Get I D S, rs_GetObjCopy = RootStore_GetObjCopy I D S,
     rs_GetReadOnlyObj = RootStore_GetReadOnlyObj I D S, rs_Has = RootStore_Has I D,
     rs_PrepareForUpdate = RootStore_PrepareForUpdate I D, rs_PrepareForDeletion = RootStore_PrepareForDeletion I D,
     rs_Iterator = RootStore_Iterator I, rs_ReverseIterator = RootStore_ReverseIterator I,
     rs_BeginWrite = RootStore_BeginWrite I, rs_Set = RootStore_Set S, rs_SetObj = RootStore_SetObj S, rs_Delete = RootStore_Delete,
     rs_EndWrite = RootStore_EndWrite E I D, rs_CheckConsistency = RootStore_CheckConsistency I D, rs_ActiveCount = RootStore_ActiveCount I\<rparr>"

end
