(* ===== verification/StoreStack.thy ===== *)
theory StoreStack
  imports TrunkStore OnvaRuns
begin

text \<open>
  What the trunk store and the multi store do over any root store: the locale \<open>root_store\<close> states what
  they need of it, and the lemmas in it say that reads see the root overlaid by the caches, that the
  iterators enumerate this map in order, and that a block of transactions ends as the update of the
  root by the transactions that were written back.
\<close>

section \<open>Maps under caches\<close>

text \<open>A cache without nil values, and what it shows of the map below it.\<close>

definition proper :: "'o Serializable \<Rightarrow> 'o CacheStore \<Rightarrow> bool" where
  "proper S cs \<longleftrightarrow> cache_ok cs \<and> (\<forall>v \<in> snd ` set cs. \<not> IsDeleted v \<longrightarrow> val_bytes S v \<noteq> None)"

definition cache_over :: "'o Serializable \<Rightarrow> 'o CacheStore \<Rightarrow> (bytes \<rightharpoonup> bytes) \<Rightarrow> (bytes \<rightharpoonup> bytes)" where
  "cache_over S cs M k = (case bt_Get k cs of None \<Rightarrow> M k | Some v \<Rightarrow> val_bytes S v)"

text \<open>
  The object that a pointer gets for the bytes \<open>b\<close> of the map: none for no bytes, and otherwise the bytes
  read into the scratch object \<open>x\<close>, or an object that has these bytes.
\<close>

definition obj_shows :: "'o Serializable \<Rightarrow> 'o \<Rightarrow> 'o option \<Rightarrow> bytes option \<Rightarrow> bool" where
  "obj_shows S x q b \<longleftrightarrow> (case q of None \<Rightarrow> b = None
     | Some y \<Rightarrow> \<exists>bz. b = Some bz \<and> (y = s_FromBytes S x (Some bz) \<or> s_ToBytes S y = Some bz))"

text \<open>The documented behaviour of objects: their bytes are read back, and a copy has the same bytes.\<close>

definition serializable :: "'o Serializable \<Rightarrow> bool" where
  "serializable S \<longleftrightarrow> (\<forall>x y bz. s_ToBytes S y = Some bz \<longrightarrow> s_ToBytes S (s_FromBytes S x (Some bz)) = Some bz) \<and>
     (\<forall>x. s_ToBytes S (s_DeepCopy S x) = s_ToBytes S x)"

lemma serializableD: "serializable S \<Longrightarrow> s_ToBytes S y = Some bz \<Longrightarrow> s_ToBytes S (s_FromBytes S x (Some bz)) = Some bz"
    "serializable S \<Longrightarrow> s_ToBytes S (s_DeepCopy S x) = s_ToBytes S x"
  unfolding serializable_def by blast+

lemma proper_empty [simp]: "proper S NewCacheStore"
  by (simp add: proper_def) (simp add: NewCacheStore_def)

lemma cache_over_empty [simp]: "cache_over S NewCacheStore M = M"
  by (simp add: cache_over_def fun_eq_iff NewCacheStore_def bt_Get_def)

lemma properD: "proper S cs \<Longrightarrow> cache_ok cs"
  by (simp add: proper_def)

lemma proper_get: "proper S cs \<Longrightarrow> bt_Get k cs = Some v \<Longrightarrow> v \<noteq> NilValue \<and> (IsDeleted v \<or> val_bytes S v \<noteq> None)"
  unfolding proper_def using no_nilD [of cs k v] by (metis bt_Get_def cache_ok_def imageI map_of_SomeD snd_conv)

lemma proper_Set:
  assumes "proper S cs" and "v \<noteq> NilValue" and "\<not> IsDeleted v \<longrightarrow> val_bytes S v \<noteq> None"
  shows "proper S (bt_Set k v cs)"
  using assms bt_Set_values [of k v cs] cache_ok_Set [of cs v k] unfolding proper_def by blast

lemma cache_over_Set: "proper S cs \<Longrightarrow> cache_over S (bt_Set k v cs) M = (cache_over S cs M)(k := val_bytes S v)"
  by (auto simp: cache_over_def fun_eq_iff cache_get_set properD)

lemma CacheStore_Get_proper:
  assumes "proper S cs"
  shows "CacheStore_Get S k cs = Inr (case bt_Get k cs of None \<Rightarrow> (None, Missed)
    | Some v \<Rightarrow> if IsDeleted v then (None, JustDeleted) else (val_bytes S v, Hit))"
  by (rule CacheStore_Get_ok [OF properD [OF assms]])

text \<open>An object is read for the bytes of its value.\<close>

lemma obj_read_shows:
  assumes v: "v \<noteq> NilValue" "\<not> IsDeleted v" "val_bytes S v \<noteq> None" and c: "\<forall>x. s_ToBytes S (copy x) = s_ToBytes S x"
  shows "\<exists>q. obj_read S copy (Some x) (GetObj v) = Inr q \<and> obj_shows S x q (val_bytes S v) \<and> q \<noteq> None"
proof (cases v)
  case (RawBytes bz)
  with v show ?thesis by (auto simp: obj_read_def GetObj_def readInto_def obj_shows_def val_bytes_def)
next
  case (Object x)
  with v c show ?thesis by (auto simp: obj_read_def GetObj_def obj_shows_def val_bytes_def)
qed (use v in auto)

section \<open>Items that enumerate a map\<close>

definition item_map :: "'o item list \<Rightarrow> (bytes \<rightharpoonup> bytes)" where
  "item_map xs k = (case map_of xs k of None \<Rightarrow> None | Some x \<Rightarrow> fst x)"

definition range_map :: "bytes \<Rightarrow> bytes \<Rightarrow> (bytes \<rightharpoonup> bytes) \<Rightarrow> (bytes \<rightharpoonup> bytes)" where
  "range_map s e M k = (if s \<le> k \<and> k < e then M k else None)"

definition enumerates :: "bool \<Rightarrow> bytes \<Rightarrow> bytes \<Rightarrow> (bytes \<rightharpoonup> bytes) \<Rightarrow> 'o item list \<Rightarrow> bool" where
  "enumerates asc s e M xs \<longleftrightarrow> keys_sorted asc xs \<and> None \<notin> item_value ` set xs \<and> item_map xs = range_map s e M"

lemma keys_sorted_distinct: "keys_sorted asc xs \<Longrightarrow> distinct (map fst xs)"
proof (induction xs)
  case (Cons x xs)
  then have "fst x \<notin> fst ` set xs" by auto
  with Cons show ?case by simp
qed simp

text \<open>The keys and values that the loop over such an iterator collects.\<close>

lemma enumerates_set:
  assumes "enumerates asc s e M xs"
  shows "sorted_wrt (mi_less asc) (map fst (map (\<lambda>x. (item_key x, item_value x)) xs))"
    "set (map (\<lambda>x. (item_key x, item_value x)) xs) = {(k, Some v) | k v. s \<le> k \<and> k < e \<and> M k = Some v}"
proof -
  have srt: "keys_sorted asc xs" and vals: "None \<notin> item_value ` set xs" and im: "item_map xs = range_map s e M"
    using assms by (simp_all add: enumerates_def)
  show "sorted_wrt (mi_less asc) (map fst (map (\<lambda>x. (item_key x, item_value x)) xs))" using srt by (simp add: comp_def)
  have mem: "(\<exists>r. (k, Some v, r) \<in> set xs) \<longleftrightarrow> range_map s e M k = Some v" for k v
  proof -
    have "(k, Some v, r) \<in> set xs \<longleftrightarrow> map_of xs k = Some (Some v, r)" for r by (simp add: keys_sorted_distinct [OF srt])
    moreover have "item_map xs k = Some v \<longleftrightarrow> (\<exists>r. map_of xs k = Some (Some v, r))" by (auto simp: item_map_def split: option.split)
    ultimately show ?thesis by (simp add: im)
  qed
  show "set (map (\<lambda>x. (item_key x, item_value x)) xs) = {(k, Some v) | k v. s \<le> k \<and> k < e \<and> M k = Some v}"
  proof (intro equalityI subsetI)
    fix y assume "y \<in> set (map (\<lambda>x. (item_key x, item_value x)) xs)"
    then obtain k r b where x: "(k, b, r) \<in> set xs" "y = (k, b)" by auto
    with vals obtain v where v: "b = Some v" by (cases b) force+
    with x have "range_map s e M k = Some v" using mem by blast
    with x v show "y \<in> {(k, Some v) | k v. s \<le> k \<and> k < e \<and> M k = Some v}" by (auto simp: range_map_def split: if_splits)
  next
    fix y assume "y \<in> {(k, Some v) | k v. s \<le> k \<and> k < e \<and> M k = Some v}"
    then obtain k v where y: "y = (k, Some v)" "range_map s e M k = Some v" by (auto simp: range_map_def)
    with mem obtain r where "(k, Some v, r) \<in> set xs" by blast
    then show "y \<in> set (map (\<lambda>x. (item_key x, item_value x)) xs)" unfolding y(1) by force
  qed
qed

text \<open>The items of a cache in a range, in either order.\<close>

definition cache_items :: "'o Serializable \<Rightarrow> bool \<Rightarrow> bytes \<Rightarrow> bytes \<Rightarrow> 'o CacheStore \<Rightarrow> 'o item list" where
  "cache_items S asc s e cs = map (cache_item S) (if asc then filter (in_range s e) cs else rev (filter (in_range s e) cs))"

lemma cache_items_sorted:
  assumes "cache_ok cs"
  shows "keys_sorted asc (cache_items S asc s e cs)"
proof -
  let ?ks = "map fst (filter (in_range s e) cs)"
  have "sorted_wrt (<) ?ks" using assms filter_keys_sorted by (auto simp: cache_ok_def bt_inv_def)
  moreover have "map fst (cache_items S asc s e cs) = (if asc then ?ks else rev ?ks)" by (simp add: cache_items_def rev_map comp_def)
  ultimately show ?thesis by (simp add: mi_less_def [abs_def] sorted_wrt_rev)
qed

lemma map_of_cache_items:
  assumes "cache_ok cs"
  shows "map_of (cache_items S asc s e cs) k = (if s \<le> k \<and> k < e then map_option (\<lambda>v. snd (cache_item S (k, v))) (bt_Get k cs) else None)"
proof -
  let ?xs = "filter (in_range s e) cs"
  have d: "distinct (map fst ?xs)" using assms filter_keys_sorted [of cs "in_range s e"] by (auto simp: cache_ok_def bt_inv_def strict_sorted_iff)
  then have "map_of (rev ?xs) = map_of ?xs" by (simp add: map_of_inject_set rev_map [symmetric])
  moreover have "map_of (map (cache_item S) ys) k = map_option (\<lambda>v. snd (cache_item S (k, v))) (map_of ys k)" for ys
    by (induction ys) (auto simp: cache_item_def)
  moreover have "map_of ?xs k = (if s \<le> k \<and> k < e then bt_Get k cs else None)"
    unfolding bt_Get_def by (induction cs) (auto split: if_splits)
  ultimately show ?thesis by (simp add: cache_items_def)
qed

lemma overlay_values: "x \<in> set (overlay asc ps cs) \<Longrightarrow> x \<in> set ps \<or> item_value x \<noteq> None"
  by (induction asc ps cs rule: overlay.induct) (auto split: if_splits)

text \<open>The overlay of an enumeration of a map by a cache enumerates what the cache shows of it.\<close>

lemma overlay_enumerates:
  assumes en: "enumerates asc s e M ps" and cs: "proper S cs"
  shows "enumerates asc s e (cache_over S cs M) (overlay asc ps (cache_items S asc s e cs))"
proof -
  let ?cs = "cache_items S asc s e cs"
  have ps: "keys_sorted asc ps" "None \<notin> item_value ` set ps" "item_map ps = range_map s e M" using en by (simp_all add: enumerates_def)
  have c: "cache_ok cs" by (rule properD [OF cs])
  have srt: "keys_sorted asc ?cs" by (rule cache_items_sorted [OF c])
  have vals: "None \<notin> item_value ` set (overlay asc ps ?cs)"
    using ps(2) overlay_values [of _ asc ps ?cs] by fastforce
  have "item_map (overlay asc ps ?cs) k = range_map s e (cache_over S cs M) k" for k
    using fun_cong [OF ps(3), of k]
    by (auto simp: item_map_def range_map_def overlay_map [OF ps(1) srt] map_of_cache_items [OF c] cache_over_def cache_item_def
        split: option.splits)
  then show ?thesis using overlay_sorted [OF ps(1) srt] vals by (simp add: enumerates_def fun_eq_iff)
qed

section \<open>The interface of a root store\<close>

text \<open>What \<open>writeBack\<close> does to the root store, for a cache \<open>cs\<close>.\<close>

definition write_block :: "('r, 'f, 'b, 'o) RootStoreI \<Rightarrow> 'o CacheStore \<Rightarrow> 'r \<Rightarrow> 'r result" where
  "write_block R cs r = bindR (Some (bindE (rs_BeginWrite R r) (ScanAllEntries (writeEntry R) cs))) (rs_EndWrite R)"

definition root_prepare :: "('r, 'f, 'b, 'o) RootStoreI \<Rightarrow> prepare \<Rightarrow> 'r \<Rightarrow> 'r outcome" where
  "root_prepare R p = (case p of ForUpdate k \<Rightarrow> rs_PrepareForUpdate R k | ForDeletion k \<Rightarrow> rs_PrepareForDeletion R k)"

text \<open>A cache whose changes are all prepared for, with values that fit.\<close>

definition prepared :: "(bytes \<Rightarrow> bytes \<Rightarrow> bool) \<Rightarrow> 'o Serializable \<Rightarrow> prepare list \<Rightarrow> bytes \<times> 'o Value \<Rightarrow> bool" where
  "prepared storable S ps kv \<longleftrightarrow> (if IsDeleted (snd kv) then ForDeletion (fst kv) \<in> set ps
     else ForUpdate (fst kv) \<in> set ps \<and> storable (fst kv) (the (val_bytes S (snd kv))))"

definition writable :: "(bytes \<Rightarrow> bytes \<Rightarrow> bool) \<Rightarrow> 'o Serializable \<Rightarrow> prepare list \<Rightarrow> 'o CacheStore \<Rightarrow> bool" where
  "writable storable S ps cs \<longleftrightarrow> proper S cs \<and> (\<forall>kv \<in> set cs. prepared storable S ps kv)"

text \<open>
  \<open>rinv ps r\<close> is the invariant of a root store in which \<open>ps\<close> were prepared since its last block, \<open>view r\<close>
  the map that it shows, \<open>allowed r ps\<close> says which sequences of prepares it can take, and \<open>storable k v\<close> which
  values it can store.
\<close>

locale root_store = F: obj_iterator FI invF restF + B: obj_iterator BI invB restB
  for FI :: "('f, 'o) ObjIterator" and invF restF and BI :: "('b, 'o) ObjIterator" and invB restB +
  fixes R :: "('r, 'f, 'b, 'o) RootStoreI" and storable :: "bytes \<Rightarrow> bytes \<Rightarrow> bool" and S :: "'o Serializable"
    and rinv :: "prepare list \<Rightarrow> 'r \<Rightarrow> bool" and view :: "'r \<Rightarrow> (bytes \<rightharpoonup> bytes)" and allowed :: "'r \<Rightarrow> prepare list \<Rightarrow> bool"
  assumes objects: "serializable S"
    and allowed_fewer: "allowed r qs \<Longrightarrow> length ps \<le> length qs \<Longrightarrow> set ps \<subseteq> set qs \<Longrightarrow> allowed r ps"
    and root_Get: "rinv ps r \<Longrightarrow> rs_Get R k r = Inr (view r k)"
    and root_Has: "rinv ps r \<Longrightarrow> rs_Has R k r = Inr (view r k \<noteq> None)"
    and root_GetObjCopy: "rinv ps r \<Longrightarrow> \<exists>q. rs_GetObjCopy R k (Some x) r = Inr q \<and> obj_shows S x q (view r k)"
    and root_GetReadOnlyObj: "rinv ps r \<Longrightarrow> \<exists>q r'. rs_GetReadOnlyObj R k (Some x) r = Inr (q, r') \<and> obj_shows S x q (view r k) \<and>
      rinv ps r' \<and> view r' = view r \<and> allowed r' = allowed r"
    and root_Iterator: "rinv ps r \<Longrightarrow> \<exists>i. rs_Iterator R s e r = Inr i \<and> invF i \<and> enumerates True s e (view r) (restF i)"
    and root_ReverseIterator: "rinv ps r \<Longrightarrow> \<exists>i. rs_ReverseIterator R s e r = Inr i \<and> invB i \<and> enumerates False s e (view r) (restB i)"
    and set_height: "rinv ps r \<Longrightarrow> rinv ps (rs_SetHeight R h r) \<and> view (rs_SetHeight R h r) = view r"
    and prepare: "rinv ps r \<Longrightarrow> allowed r (ps @ [p]) \<Longrightarrow>
      \<exists>r'. root_prepare R p r = Inr r' \<and> rinv (ps @ [p]) r' \<and> view r' = view r \<and> allowed r' = allowed r"
    and write_root: "rinv ps r \<Longrightarrow> allowed r ps \<Longrightarrow> writable storable S ps cs \<Longrightarrow>
      \<exists>r'. write_block R cs r = okR r' \<and> rinv [] r' \<and> view r' = cache_over S cs (view r)"

section \<open>The trunk store over a root store\<close>

definition trunk_ok :: "(prepare list \<Rightarrow> 'r \<Rightarrow> bool) \<Rightarrow> (bytes \<Rightarrow> bytes \<Rightarrow> bool) \<Rightarrow> 'o Serializable \<Rightarrow> prepare list \<Rightarrow> ('r, 'o) TrunkStore \<Rightarrow> bool" where
  "trunk_ok rinv storable S ps ts \<longleftrightarrow> ts_isWriting ts = 0 \<and>
     (\<exists>cs r. ts_cache ts = Some cs \<and> ts_root ts = Some r \<and> writable storable S ps cs \<and> rinv ps r)"

definition trunk_view :: "('r \<Rightarrow> (bytes \<rightharpoonup> bytes)) \<Rightarrow> 'o Serializable \<Rightarrow> ('r, 'o) TrunkStore \<Rightarrow> (bytes \<rightharpoonup> bytes)" where
  "trunk_view view S ts = cache_over S (the (ts_cache ts)) (view (the (ts_root ts)))"

definition TrunkForwardI :: "'o Serializable \<Rightarrow> ('f, 'o) ObjIterator \<Rightarrow> (('f, 'o CacheForward) cacheMergeIterator, 'o) ObjIterator" where
  "TrunkForwardI S FI = MergeI FI (CacheForwardI S)"

definition TrunkBackwardI :: "'o Serializable \<Rightarrow> ('b, 'o) ObjIterator \<Rightarrow> (('b, 'o CacheBackward) cacheMergeIterator, 'o) ObjIterator" where
  "TrunkBackwardI S BI = MergeI BI (CacheBackwardI S)"

lemma prepared_mono: "prepared storable S ps kv \<Longrightarrow> set ps \<subseteq> set qs \<Longrightarrow> prepared storable S qs kv"
  by (auto simp: prepared_def split: if_splits)

lemma writable_mono: "writable storable S ps cs \<Longrightarrow> set ps \<subseteq> set qs \<Longrightarrow> writable storable S qs cs"
  by (auto simp: writable_def intro: prepared_mono)

lemma writable_empty [simp]: "writable storable S ps NewCacheStore"
  by (simp add: writable_def) (simp add: NewCacheStore_def)

lemma bt_Set_elements: "set (bt_Set k v cs) \<subseteq> insert (k, v) (set cs)"
  by (induction k v cs rule: bt_Set.induct) auto

lemma writable_Set:
  assumes "writable storable S ps cs" and "prepared storable S ps (k, v)" and "v \<noteq> NilValue" and "\<not> IsDeleted v \<longrightarrow> val_bytes S v \<noteq> None"
  shows "writable storable S ps (bt_Set k v cs)"
  using assms bt_Set_elements [of k v cs] proper_Set [of S cs v k] unfolding writable_def by blast

lemma trunk_okE:
  assumes "trunk_ok rinv storable S ps ts"
  obtains cs r where "ts_cache ts = Some cs" "ts_root ts = Some r" "writable storable S ps cs" "proper S cs" "rinv ps r" "ts_isWriting ts = 0"
    "\<And>view. trunk_view view S ts = cache_over S cs (view r)"
  using assms by (auto simp: trunk_ok_def trunk_view_def writable_def)

lemma notWriting_ok: "ts_isWriting ts = 0 \<Longrightarrow> notWriting ts = Inr ()"
  by (simp add: notWriting_def)

lemma deref_Some [simp]: "deref (Some x) = Inr x"
  by (simp add: deref_def)

context root_store
begin

lemma TrunkStore_Get_ok:
  assumes "trunk_ok rinv storable S ps ts"
  shows "TrunkStore_Get R S k ts = Inr (trunk_view view S ts k)"
  using assms
proof (rule trunk_okE)
  fix cs r assume t: "ts_cache ts = Some cs" "ts_root ts = Some r" "proper S cs" "rinv ps r" "ts_isWriting ts = 0"
    "\<And>view. trunk_view view S ts = cache_over S cs (view r)"
  show ?thesis using t root_Get [OF t(4), of k]
    by (auto simp: TrunkStore_Get_def notWriting_ok CacheStore_Get_proper cache_over_def val_bytes_deleted split: option.split)
qed

lemma TrunkStore_Has_ok:
  assumes "trunk_ok rinv storable S ps ts"
  shows "TrunkStore_Has R S k ts = Inr (trunk_view view S ts k \<noteq> None)"
  using assms
proof (rule trunk_okE)
  fix cs r assume t: "ts_cache ts = Some cs" "ts_root ts = Some r" "proper S cs" "rinv ps r" "ts_isWriting ts = 0"
    "\<And>view. trunk_view view S ts = cache_over S cs (view r)"
  show ?thesis using t root_Has [OF t(4), of k] proper_get [OF t(3), of k]
    by (auto simp: TrunkStore_Has_def notWriting_ok CacheStore_Get_proper cache_over_def val_bytes_deleted split: option.split)
qed

text \<open>An object of the trunk has the bytes that the trunk shows.\<close>

lemma TrunkStore_GetObjCopy_ok:
  assumes "trunk_ok rinv storable S ps ts"
  shows "\<exists>q. TrunkStore_GetObjCopy R S k (Some x) ts = Inr q \<and> obj_shows S x q (trunk_view view S ts k)"
  using assms
proof (rule trunk_okE)
  fix cs r assume t: "ts_cache ts = Some cs" "ts_root ts = Some r" "proper S cs" "rinv ps r" "ts_isWriting ts = 0"
    "\<And>view. trunk_view view S ts = cache_over S cs (view r)"
  note run = TrunkStore_GetObjCopy_def CacheStore_GetObjCopy_def notWriting_ok cache_over_def
  show ?thesis
  proof (cases "bt_Get k cs")
    case None
    with t root_GetObjCopy [OF t(4), of k x] show ?thesis by (auto simp: run)
  next
    case (Some v)
    note v = proper_get [OF t(3) Some]
    show ?thesis
    proof (cases "IsDeleted v")
      case True
      with t Some show ?thesis by (simp add: run val_bytes_deleted obj_shows_def)
    next
      case False
      have "\<forall>x. s_ToBytes S (s_DeepCopy S x) = s_ToBytes S x" using objects by (simp add: serializable_def)
      from obj_read_shows [OF _ False _ this, of x] v False obtain q where
        "obj_read S (s_DeepCopy S) (Some x) (GetObj v) = Inr q" "obj_shows S x q (val_bytes S v)" by blast
      with t Some False show ?thesis by (simp add: run)
    qed
  qed
qed

lemma TrunkStore_GetReadOnlyObj_ok:
  assumes "trunk_ok rinv storable S ps ts"
  shows "\<exists>q ts'. TrunkStore_GetReadOnlyObj R S k (Some x) ts = Inr (q, ts') \<and> obj_shows S x q (trunk_view view S ts k) \<and>
    trunk_ok rinv storable S ps ts' \<and> trunk_view view S ts' = trunk_view view S ts \<and> allowed (the (ts_root ts')) = allowed (the (ts_root ts))"
  using assms
proof (rule trunk_okE)
  fix cs r assume t: "ts_cache ts = Some cs" "ts_root ts = Some r" "proper S cs" "rinv ps r" "ts_isWriting ts = 0"
    "\<And>view. trunk_view view S ts = cache_over S cs (view r)"
  note run = TrunkStore_GetReadOnlyObj_def CacheStore_GetReadOnlyObj_def notWriting_ok cache_over_def
  show ?thesis
  proof (cases "bt_Get k cs")
    case None
    from root_GetReadOnlyObj [OF t(4), of k x] obtain q r' where r': "rs_GetReadOnlyObj R k (Some x) r = Inr (q, r')"
      "obj_shows S x q (view r k)" "rinv ps r'" "view r' = view r" "allowed r' = allowed r" by blast
    then have "trunk_ok rinv storable S ps (ts\<lparr>ts_root := Some r'\<rparr>)" using assms t(1) by (auto simp: trunk_ok_def)
    moreover have "trunk_view view S (ts\<lparr>ts_root := Some r'\<rparr>) = trunk_view view S ts" using t r' by (simp add: trunk_view_def)
    ultimately show ?thesis using t r' None by (auto simp: run)
  next
    case (Some v)
    note v = proper_get [OF t(3) Some]
    show ?thesis
    proof (cases "IsDeleted v")
      case True
      with t Some assms show ?thesis by (auto simp: run val_bytes_deleted obj_shows_def)
    next
      case False
      from obj_read_shows [OF _ False _, of S id x] v False obtain q where
        "obj_read S id (Some x) (GetObj v) = Inr q" "obj_shows S x q (val_bytes S v)" by auto
      with t Some False assms show ?thesis by (auto simp: run)
    qed
  qed
qed

end

section \<open>The multi store over a trunk store\<close>

definition multi_ok :: "(prepare list \<Rightarrow> 'r \<Rightarrow> bool) \<Rightarrow> (bytes \<Rightarrow> bytes \<Rightarrow> bool) \<Rightarrow> 'o Serializable \<Rightarrow> prepare list \<Rightarrow> 'o MultiStore \<times> ('r, 'o) TrunkStore \<Rightarrow> bool" where
  "multi_ok rinv storable S ps st \<longleftrightarrow> trunk_ok rinv storable S ps (snd st) \<and> ms_trunk (fst st) \<and> (\<exists>cs. ms_cache (fst st) = Some cs \<and> writable storable S ps cs)"

definition multi_view :: "('r \<Rightarrow> (bytes \<rightharpoonup> bytes)) \<Rightarrow> 'o Serializable \<Rightarrow> 'o MultiStore \<times> ('r, 'o) TrunkStore \<Rightarrow> (bytes \<rightharpoonup> bytes)" where
  "multi_view view S st = cache_over S (the (ms_cache (fst st))) (trunk_view view S (snd st))"

lemma multi_okE:
  assumes "multi_ok rinv storable S ps (ms, ts)"
  obtains cs where "ms_cache ms = Some cs" "ms_trunk ms" "writable storable S ps cs" "proper S cs" "trunk_ok rinv storable S ps ts"
    "\<And>view. multi_view view S (ms, ts) = cache_over S cs (trunk_view view S ts)"
  using assms by (auto simp: multi_ok_def multi_view_def writable_def)

abbreviation cf_rest :: "'o Serializable \<Rightarrow> 'o CacheForward \<Rightarrow> 'o item list" where
  "cf_rest S i \<equiv> map (cache_item S) (cf_items i)"

abbreviation cb_rest :: "'o Serializable \<Rightarrow> 'o CacheBackward \<Rightarrow> 'o item list" where
  "cb_rest S i \<equiv> map (cache_item S) (cb_items i)"

sublocale root_store \<subseteq> TF: merge_iterators FI invF restF "CacheForwardI S" cf_inv "cf_rest S" ..

sublocale root_store \<subseteq> TB: merge_iterators BI invB restB "CacheBackwardI S" cb_inv "cb_rest S" ..

sublocale root_store \<subseteq> MF: merge_iterators "MergeI FI (CacheForwardI S)" "merge_inv invF restF cf_inv (cf_rest S)"
  "merge_rest restF (cf_rest S)" "CacheForwardI S" cf_inv "cf_rest S" ..

sublocale root_store \<subseteq> MB: merge_iterators "MergeI BI (CacheBackwardI S)" "merge_inv invB restB cb_inv (cb_rest S)"
  "merge_rest restB (cb_rest S)" "CacheBackwardI S" cb_inv "cb_rest S" ..

text \<open>A merge of an enumeration with the range of a cache.\<close>

lemma merge_enumerates:
  assumes "enumerates asc s e M (restP p)" and "invP p" and "invC c" and "proper S cs" and "restC c = cache_items S asc s e cs"
  shows "merge_inv invP restP invC restC (newCacheMergeIterator p c asc) \<and>
    enumerates asc s e (cache_over S cs M) (merge_rest restP restC (newCacheMergeIterator p c asc))"
  using assms cache_items_sorted [OF properD [OF assms(4)], of asc S s e] overlay_enumerates [OF assms(1,4)]
  by (simp add: merge_inv_def merge_rest_def newCacheMergeIterator_def enumerates_def)

lemma cache_forward_items:
  assumes "proper S cs"
  shows "\<exists>i. CacheStore_Iterator s e cs = Inr i \<and> cf_inv i \<and> cf_rest S i = cache_items S True s e cs"
  using CacheStore_Iterator_ok [OF properD [OF assms], of s e] by (auto simp: cache_items_def)

lemma cache_backward_items:
  assumes "proper S cs"
  shows "\<exists>i. CacheStore_ReverseIterator s e cs = Inr i \<and> cb_inv i \<and> cb_rest S i = cache_items S False s e cs"
  using CacheStore_ReverseIterator_ok [OF properD [OF assms], of s e] by (auto simp: cache_items_def)

context root_store
begin

lemma TrunkStore_Iterator_ok:
  assumes "trunk_ok rinv storable S ps ts"
  shows "\<exists>i. TrunkStore_Iterator R s e ts = Inr i \<and> merge_inv invF restF cf_inv (cf_rest S) i \<and>
    enumerates True s e (trunk_view view S ts) (merge_rest restF (cf_rest S) i)"
  using assms
proof (rule trunk_okE)
  fix cs r assume t: "ts_cache ts = Some cs" "ts_root ts = Some r" "proper S cs" "rinv ps r" "ts_isWriting ts = 0"
    "\<And>view. trunk_view view S ts = cache_over S cs (view r)"
  from root_Iterator [OF t(4)] obtain p where p: "rs_Iterator R s e r = Inr p" "invF p" "enumerates True s e (view r) (restF p)" by blast
  from cache_forward_items [OF t(3)] obtain c where c: "CacheStore_Iterator s e cs = Inr c" "cf_inv c" "cf_rest S c = cache_items S True s e cs" by blast
  from merge_enumerates [where restP = restF and restC = "cf_rest S" and invP = invF and invC = cf_inv, OF p(3,2) c(2) t(3) c(3)] t p(1) c(1)
  show ?thesis by (simp add: TrunkStore_Iterator_def notWriting_ok)
qed

lemma TrunkStore_ReverseIterator_ok:
  assumes "trunk_ok rinv storable S ps ts"
  shows "\<exists>i. TrunkStore_ReverseIterator R s e ts = Inr i \<and> merge_inv invB restB cb_inv (cb_rest S) i \<and>
    enumerates False s e (trunk_view view S ts) (merge_rest restB (cb_rest S) i)"
  using assms
proof (rule trunk_okE)
  fix cs r assume t: "ts_cache ts = Some cs" "ts_root ts = Some r" "proper S cs" "rinv ps r" "ts_isWriting ts = 0"
    "\<And>view. trunk_view view S ts = cache_over S cs (view r)"
  from root_ReverseIterator [OF t(4)] obtain p where p: "rs_ReverseIterator R s e r = Inr p" "invB p" "enumerates False s e (view r) (restB p)" by blast
  from cache_backward_items [OF t(3)] obtain c where c: "CacheStore_ReverseIterator s e cs = Inr c" "cb_inv c"
    "cb_rest S c = cache_items S False s e cs" by blast
  from merge_enumerates [where restP = restB and restC = "cb_rest S" and invP = invB and invC = cb_inv, OF p(3,2) c(2) t(3) c(3)] t p(1) c(1)
  show ?thesis by (simp add: TrunkStore_ReverseIterator_def notWriting_ok)
qed

lemma MultiStore_Get_ok:
  assumes "multi_ok rinv storable S ps (ms, ts)"
  shows "MultiStore_Get R S k ms ts = Inr (multi_view view S (ms, ts) k)"
  using assms
proof (rule multi_okE)
  fix cs assume t: "ms_cache ms = Some cs" "ms_trunk ms" "proper S cs" "trunk_ok rinv storable S ps ts"
    "\<And>view. multi_view view S (ms, ts) = cache_over S cs (trunk_view view S ts)"
  show ?thesis using t TrunkStore_Get_ok [OF t(4), of k]
    by (auto simp: MultiStore_Get_def trunk_of_def CacheStore_Get_proper cache_over_def val_bytes_deleted split: option.split)
qed

lemma MultiStore_Has_ok:
  assumes "multi_ok rinv storable S ps (ms, ts)"
  shows "MultiStore_Has R S k ms ts = Inr (multi_view view S (ms, ts) k \<noteq> None)"
  using assms
proof (rule multi_okE)
  fix cs assume t: "ms_cache ms = Some cs" "ms_trunk ms" "proper S cs" "trunk_ok rinv storable S ps ts"
    "\<And>view. multi_view view S (ms, ts) = cache_over S cs (trunk_view view S ts)"
  show ?thesis using t TrunkStore_Has_ok [OF t(4), of k] proper_get [OF t(3), of k]
    by (auto simp: MultiStore_Has_def trunk_of_def CacheStore_Get_proper cache_over_def val_bytes_deleted split: option.split)
qed

lemma MultiStore_Iterator_ok:
  assumes "multi_ok rinv storable S ps (ms, ts)"
  shows "\<exists>i. MultiStore_Iterator R s e ms ts = Inr i \<and> merge_inv (merge_inv invF restF cf_inv (cf_rest S)) (merge_rest restF (cf_rest S)) cf_inv (cf_rest S) i \<and>
    enumerates True s e (multi_view view S (ms, ts)) (merge_rest (merge_rest restF (cf_rest S)) (cf_rest S) i)"
  using assms
proof (rule multi_okE)
  fix cs assume t: "ms_cache ms = Some cs" "ms_trunk ms" "proper S cs" "trunk_ok rinv storable S ps ts"
    "\<And>view. multi_view view S (ms, ts) = cache_over S cs (trunk_view view S ts)"
  from TrunkStore_Iterator_ok [OF t(4)] obtain p where p: "TrunkStore_Iterator R s e ts = Inr p" "merge_inv invF restF cf_inv (cf_rest S) p"
    "enumerates True s e (trunk_view view S ts) (merge_rest restF (cf_rest S) p)" by blast
  from cache_forward_items [OF t(3)] obtain c where c: "CacheStore_Iterator s e cs = Inr c" "cf_inv c" "cf_rest S c = cache_items S True s e cs" by blast
  from merge_enumerates [where restP = "merge_rest restF (cf_rest S)" and restC = "cf_rest S" and invP = "merge_inv invF restF cf_inv (cf_rest S)" and invC = cf_inv, OF p(3,2) c(2) t(3) c(3)] t p(1) c(1)
  show ?thesis by (simp add: MultiStore_Iterator_def trunk_of_def)
qed

lemma MultiStore_ReverseIterator_ok:
  assumes "multi_ok rinv storable S ps (ms, ts)"
  shows "\<exists>i. MultiStore_ReverseIterator R s e ms ts = Inr i \<and> merge_inv (merge_inv invB restB cb_inv (cb_rest S)) (merge_rest restB (cb_rest S)) cb_inv (cb_rest S) i \<and>
    enumerates False s e (multi_view view S (ms, ts)) (merge_rest (merge_rest restB (cb_rest S)) (cb_rest S) i)"
  using assms
proof (rule multi_okE)
  fix cs assume t: "ms_cache ms = Some cs" "ms_trunk ms" "proper S cs" "trunk_ok rinv storable S ps ts"
    "\<And>view. multi_view view S (ms, ts) = cache_over S cs (trunk_view view S ts)"
  from TrunkStore_ReverseIterator_ok [OF t(4)] obtain p where p: "TrunkStore_ReverseIterator R s e ts = Inr p"
    "merge_inv invB restB cb_inv (cb_rest S) p" "enumerates False s e (trunk_view view S ts) (merge_rest restB (cb_rest S) p)" by blast
  from cache_backward_items [OF t(3)] obtain c where c: "CacheStore_ReverseIterator s e cs = Inr c" "cb_inv c"
    "cb_rest S c = cache_items S False s e cs" by blast
  from merge_enumerates [where restP = "merge_rest restB (cb_rest S)" and restC = "cb_rest S" and invP = "merge_inv invB restB cb_inv (cb_rest S)" and invC = cb_inv, OF p(3,2) c(2) t(3) c(3)] t p(1) c(1)
  show ?thesis by (simp add: MultiStore_ReverseIterator_def trunk_of_def)
qed

text \<open>The loops over the two iterators return the map in the range, in order.\<close>

lemma MultiStore_collect:
  assumes "multi_ok rinv storable S ps (ms, ts)"
  shows "\<exists>i xs. MultiStore_Iterator R s e ms ts = Inr i \<and> collect (MergeI (MergeI FI (CacheForwardI S)) (CacheForwardI S)) [] i = okR xs \<and>
      sorted_wrt (<) (map fst xs) \<and> set xs = {(k, Some v) | k v. s \<le> k \<and> k < e \<and> multi_view view S (ms, ts) k = Some v}"
    "\<exists>i xs. MultiStore_ReverseIterator R s e ms ts = Inr i \<and> collect (MergeI (MergeI BI (CacheBackwardI S)) (CacheBackwardI S)) [] i = okR xs \<and>
      sorted_wrt (>) (map fst xs) \<and> set xs = {(k, Some v) | k v. s \<le> k \<and> k < e \<and> multi_view view S (ms, ts) k = Some v}"
proof -
  from MultiStore_Iterator_ok [OF assms, of s e] obtain i where i: "MultiStore_Iterator R s e ms ts = Inr i"
    "merge_inv (merge_inv invF restF cf_inv (cf_rest S)) (merge_rest restF (cf_rest S)) cf_inv (cf_rest S) i"
    "enumerates True s e (multi_view view S (ms, ts)) (merge_rest (merge_rest restF (cf_rest S)) (cf_rest S) i)" by blast
  from MF.merged.collect_items_ok [OF i(2)] enumerates_set [OF i(3)] i(1)
  show "\<exists>i xs. MultiStore_Iterator R s e ms ts = Inr i \<and> collect (MergeI (MergeI FI (CacheForwardI S)) (CacheForwardI S)) [] i = okR xs \<and>
      sorted_wrt (<) (map fst xs) \<and> set xs = {(k, Some v) | k v. s \<le> k \<and> k < e \<and> multi_view view S (ms, ts) k = Some v}"
    by (auto simp: mi_less_def [abs_def])
  from MultiStore_ReverseIterator_ok [OF assms, of s e] obtain j where j: "MultiStore_ReverseIterator R s e ms ts = Inr j"
    "merge_inv (merge_inv invB restB cb_inv (cb_rest S)) (merge_rest restB (cb_rest S)) cb_inv (cb_rest S) j"
    "enumerates False s e (multi_view view S (ms, ts)) (merge_rest (merge_rest restB (cb_rest S)) (cb_rest S) j)" by blast
  from MB.merged.collect_items_ok [OF j(2)] enumerates_set [OF j(3)] j(1)
  show "\<exists>i xs. MultiStore_ReverseIterator R s e ms ts = Inr i \<and> collect (MergeI (MergeI BI (CacheBackwardI S)) (CacheBackwardI S)) [] i = okR xs \<and>
      sorted_wrt (>) (map fst xs) \<and> set xs = {(k, Some v) | k v. s \<le> k \<and> k < e \<and> multi_view view S (ms, ts) k = Some v}"
    by (auto simp: mi_less_def [abs_def])
qed

end

section \<open>Transactions\<close>

text \<open>
  The operations of a transaction that change a state. \<open>TxRead k x\<close> reads an object into the scratch
  object \<open>x\<close>, which the root store may cache. \<open>TxModify k x f\<close> is the protocol of \<open>GetObj\<close>: an object is taken with the
  scratch object \<open>x\<close>, changed by \<open>f\<close>, and returned by \<open>SetObj\<close>; \<open>g\<close> is what \<open>f\<close> does to the bytes.
\<close>

datatype 'o tx_op = TxSet bytes bytes | TxSetObj bytes 'o | TxDelete bytes | TxModify bytes 'o "'o \<Rightarrow> 'o" "bytes \<Rightarrow> bytes"
  | TxRead bytes 'o

fun run_tx_op :: "('r, 'f, 'b, 'o) RootStoreI \<Rightarrow> 'o Serializable \<Rightarrow> 'o tx_op \<Rightarrow> 'o MultiStore \<times> ('r, 'o) TrunkStore \<Rightarrow>
    ('o MultiStore \<times> ('r, 'o) TrunkStore) outcome" where
  "run_tx_op R S (TxSet k v) st = MultiStore_Set R k (Some v) st"
| "run_tx_op R S (TxSetObj k x) st = MultiStore_SetObj R k (Some x) st"
| "run_tx_op R S (TxDelete k) st = MultiStore_Delete R k st"
| "run_tx_op R S (TxModify k x f g) st =
     bindE (MultiStore_GetObj R S k (Some x) (fst st) (snd st)) (\<lambda>(ptr, ms).
       case ptr of None \<Rightarrow> Inr (ms, snd st) | Some obj \<Rightarrow> MultiStore_SetObj R k (Some (f obj)) (ms, snd st))"
| "run_tx_op R S (TxRead k x) st =
     bindE (MultiStore_GetReadOnlyObj R S k (Some x) (fst st) (snd st)) (\<lambda>(ptr, ts). Inr (fst st, ts))"

text \<open>A transaction on a store of its own, written back or not, and the transactions of a block.\<close>

type_synonym 'o tx = "'o tx_op list \<times> bool"

definition run_tx :: "('r, 'f, 'b, 'o) RootStoreI \<Rightarrow> 'o Serializable \<Rightarrow> 'o tx \<Rightarrow> ('r, 'o) TrunkStore \<Rightarrow> ('r, 'o) TrunkStore outcome" where
  "run_tx R S tx ts =
     bindE (foldE (run_tx_op R S) (fst tx) (TrunkStore_Cached ts, ts)) (\<lambda>st.
     bindE (MultiStore_Close (snd tx) st) (\<lambda>st. Inr (snd st)))"

definition run_txs :: "('r, 'f, 'b, 'o) RootStoreI \<Rightarrow> 'o Serializable \<Rightarrow> StrStoreKey list \<Rightarrow> 'o tx list \<Rightarrow> 'r \<Rightarrow>
    ('r option \<times> ('r, 'o) TrunkStore) result" where
  "run_txs R S keys txs r = bindR (Some (foldE (run_tx R S) txs (NewTrunkStore keys r))) (TrunkStore_Close R True)"

text \<open>What they do to the map.\<close>

fun op_effect :: "'o Serializable \<Rightarrow> 'o tx_op \<Rightarrow> (bytes \<rightharpoonup> bytes) \<Rightarrow> (bytes \<rightharpoonup> bytes)" where
  "op_effect S (TxSet k v) M = M(k := Some v)"
| "op_effect S (TxSetObj k x) M = M(k := s_ToBytes S x)"
| "op_effect S (TxDelete k) M = M(k := None)"
| "op_effect S (TxModify k x f g) M = M(k := map_option g (M k))"
| "op_effect S (TxRead k x) M = M"

definition tx_effect :: "'o Serializable \<Rightarrow> 'o tx \<Rightarrow> (bytes \<rightharpoonup> bytes) \<Rightarrow> (bytes \<rightharpoonup> bytes)" where
  "tx_effect S tx M = (if snd tx then fold (op_effect S) (fst tx) M else M)"

text \<open>Values that fit, and the prepares of an operation.\<close>

fun op_fits :: "(bytes \<Rightarrow> bytes \<Rightarrow> bool) \<Rightarrow> 'o Serializable \<Rightarrow> 'o tx_op \<Rightarrow> bool" where
  "op_fits storable S (TxSet k v) \<longleftrightarrow> storable k v"
| "op_fits storable S (TxSetObj k x) \<longleftrightarrow> (\<exists>b. s_ToBytes S x = Some b \<and> storable k b)"
| "op_fits storable S (TxDelete k) \<longleftrightarrow> True"
| "op_fits storable S (TxModify k x f g) \<longleftrightarrow> 
     (\<forall>y b. y = s_FromBytes S x (Some b) \<or> s_ToBytes S y = Some b \<longrightarrow> s_ToBytes S (f y) = Some (g b) \<and> storable k (g b))"
| "op_fits storable S (TxRead k x) \<longleftrightarrow> True"

fun op_prepares :: "'o tx_op \<Rightarrow> prepare list" where
  "op_prepares (TxDelete k) = [ForDeletion k]"
| "op_prepares (TxSet k v) = [ForUpdate k]"
| "op_prepares (TxSetObj k x) = [ForUpdate k]"
| "op_prepares (TxModify k x f g) = [ForUpdate k]"
| "op_prepares (TxRead k x) = []"

abbreviation ops_prepares :: "'o tx_op list \<Rightarrow> prepare list" where
  "ops_prepares ops \<equiv> concat (map op_prepares ops)"

abbreviation tx_prepares :: "'o tx list \<Rightarrow> prepare list" where
  "tx_prepares txs \<equiv> concat (map (\<lambda>tx. ops_prepares (fst tx)) txs)"

section \<open>Scanning a cache into another\<close>

lemma bt_Set_Set: "bt_Set k v (bt_Set k w t) = bt_Set k v t"
  by (induction k w t rule: bt_Set.induct) auto

lemma cacheEntry_Set: "v \<noteq> NilValue \<Longrightarrow> cacheEntry k (GetObj v) (IsDeleted v) tc = Inr (bt_Set k v tc)"
  by (cases v) (simp_all add: cacheEntry_def GetObj_def CacheStore_Delete_def CacheStore_SetObj_def CacheStore_Set_def)

lemma scan_cache:
  assumes "\<forall>kv \<in> set xs. snd kv \<noteq> NilValue"
  shows "ScanAllEntries cacheEntry xs tc = Inr (fold (\<lambda>kv. bt_Set (fst kv) (snd kv)) xs tc)"
  using assms by (induction xs arbitrary: tc) (auto simp: ScanAllEntries_def cacheEntry_Set)

lemma fold_Set_writable:
  assumes "writable storable S ps tc" and "\<forall>kv \<in> set xs. prepared storable S ps kv \<and> snd kv \<noteq> NilValue \<and> (\<not> IsDeleted (snd kv) \<longrightarrow> val_bytes S (snd kv) \<noteq> None)"
  shows "writable storable S ps (fold (\<lambda>kv. bt_Set (fst kv) (snd kv)) xs tc)"
  using assms by (induction xs arbitrary: tc) (auto simp: writable_Set)

lemma fold_Set_get:
  assumes "cache_ok tc" and "\<forall>kv \<in> set xs. snd kv \<noteq> NilValue" and "distinct (map fst xs)"
  shows "bt_Get k (fold (\<lambda>kv. bt_Set (fst kv) (snd kv)) xs tc) = (case map_of xs k of None \<Rightarrow> bt_Get k tc | Some v \<Rightarrow> Some v)"
  using assms
proof (induction xs arbitrary: tc)
  case (Cons x xs)
  then have "cache_ok (bt_Set (fst x) (snd x) tc)" by (simp add: cache_ok_Set)
  moreover have "map_of xs (fst x) = None" using Cons.prems(3) by (simp add: map_of_eq_None_iff)
  ultimately show ?case using Cons by (cases x) (auto simp: cache_get_set split: option.split)
qed simp

lemma proper_values: "proper S cs \<Longrightarrow> kv \<in> set cs \<Longrightarrow> snd kv \<noteq> NilValue \<and> (\<not> IsDeleted (snd kv) \<longrightarrow> val_bytes S (snd kv) \<noteq> None)"
  unfolding proper_def cache_ok_def no_nil_def by (metis imageI)

text \<open>A cache written back into another shows what the two showed on top of each other.\<close>

lemma write_back_cache:
  assumes "writable storable S ps cs" and "writable storable S ps tc"
  shows "\<exists>tc'. ScanAllEntries cacheEntry cs tc = Inr tc' \<and> writable storable S ps tc' \<and>
    (\<forall>M. cache_over S tc' M = cache_over S cs (cache_over S tc M))"
proof -
  let ?tc = "fold (\<lambda>kv. bt_Set (fst kv) (snd kv)) cs tc"
  have cs: "proper S cs" "\<forall>kv \<in> set cs. prepared storable S ps kv" and tc: "cache_ok tc" using assms by (auto simp: writable_def proper_def)
  have vals: "\<forall>kv \<in> set cs. snd kv \<noteq> NilValue" using proper_values [OF cs(1)] by blast
  have dist: "distinct (map fst cs)" using cs(1) by (simp add: proper_def cache_ok_def bt_inv_def strict_sorted_iff)
  have "writable storable S ps ?tc" by (rule fold_Set_writable [OF assms(2)]) (use cs proper_values [OF cs(1)] in blast)
  moreover have "cache_over S ?tc M = cache_over S cs (cache_over S tc M)" for M
    using fold_Set_get [OF tc vals dist] by (auto simp: cache_over_def bt_Get_def fun_eq_iff split: option.split)
  ultimately show ?thesis using scan_cache [OF vals] by blast
qed

section \<open>A block of transactions\<close>

definition trunk_prepare :: "('r, 'f, 'b, 'o) RootStoreI \<Rightarrow> prepare \<Rightarrow> ('r, 'o) TrunkStore \<Rightarrow> ('r, 'o) TrunkStore outcome" where
  "trunk_prepare R p = (case p of ForUpdate k \<Rightarrow> TrunkStore_PrepareForUpdate R k | ForDeletion k \<Rightarrow> TrunkStore_PrepareForDeletion R k)"

abbreviation root_of :: "('r, 'o) TrunkStore \<Rightarrow> 'r" where
  "root_of ts \<equiv> the (ts_root ts)"

context root_store
begin

lemma trunk_prepare_ok:
  assumes "trunk_ok rinv storable S ps ts" and "allowed (root_of ts) (ps @ [p])"
  shows "\<exists>ts'. trunk_prepare R p ts = Inr ts' \<and> trunk_ok rinv storable S (ps @ [p]) ts' \<and> trunk_view view S ts' = trunk_view view S ts \<and>
    allowed (root_of ts') = allowed (root_of ts)"
  using assms(1)
proof (rule trunk_okE)
  fix cs r assume t: "ts_cache ts = Some cs" "ts_root ts = Some r" "writable storable S ps cs" "rinv ps r" "ts_isWriting ts = 0"
    "\<And>view. trunk_view view S ts = cache_over S cs (view r)"
  from prepare [OF t(4), of p] assms(2) t(2) obtain r' where r': "root_prepare R p r = Inr r'" "rinv (ps @ [p]) r'" "view r' = view r"
    "allowed r' = allowed r" by auto
  have "trunk_prepare R p ts = Inr (ts\<lparr>ts_root := Some r'\<rparr>)"
    using t r'(1) by (cases p) (simp_all add: trunk_prepare_def root_prepare_def TrunkStore_PrepareForUpdate_def
      TrunkStore_PrepareForDeletion_def notWriting_ok)
  moreover have "writable storable S (ps @ [p]) cs" by (rule writable_mono [OF t(3)]) auto
  ultimately show ?thesis using t r' by (auto simp: trunk_ok_def trunk_view_def)
qed

text \<open>Setting a value in the cache of the transaction, and preparing for it.\<close>

lemma multi_write:
  assumes "multi_ok rinv storable S ps (ms, ts)" and "ms_cache ms = Some cs" and "allowed (root_of ts) (ps @ [p])"
    and "prepared storable S [p] (k, v)" and "v \<noteq> NilValue" and "\<not> IsDeleted v \<longrightarrow> val_bytes S v \<noteq> None"
  shows "\<exists>ts'. trunk_prepare R p ts = Inr ts' \<and> trunk_view view S ts' = trunk_view view S ts \<and> allowed (root_of ts') = allowed (root_of ts) \<and>
    (\<forall>ms'. ms_cache ms' = Some (bt_Set k v cs) \<and> ms_trunk ms' \<longrightarrow> multi_ok rinv storable S (ps @ [p]) (ms', ts') \<and>
      multi_view view S (ms', ts') = (multi_view view S (ms, ts))(k := val_bytes S v))"
  using assms(1)
proof (rule multi_okE)
  fix cs' assume "ms_cache ms = Some cs'" "ms_trunk ms" and w: "writable storable S ps cs'" "proper S cs'" and t: "trunk_ok rinv storable S ps ts"
    and v: "\<And>view. multi_view view S (ms, ts) = cache_over S cs' (trunk_view view S ts)"
  have cs': "cs' = cs" using assms(2) \<open>ms_cache ms = Some cs'\<close> by simp
  from trunk_prepare_ok [OF t assms(3)] obtain ts' where ts': "trunk_prepare R p ts = Inr ts'" "trunk_ok rinv storable S (ps @ [p]) ts'"
    "trunk_view view S ts' = trunk_view view S ts" "allowed (root_of ts') = allowed (root_of ts)" by blast
  have "writable storable S (ps @ [p]) cs" using w(1) unfolding cs' by (rule writable_mono) auto
  moreover have "prepared storable S (ps @ [p]) (k, v)" using assms(4) by (rule prepared_mono) auto
  ultimately have "writable storable S (ps @ [p]) (bt_Set k v cs)" using assms(5,6) by (rule writable_Set)
  then show ?thesis using ts' w(2) v by (auto simp: multi_ok_def multi_view_def cs' cache_over_Set)
qed

lemma MultiStore_GetObj_ok:
  assumes "multi_ok rinv storable S ps (ms, ts)" and "ms_cache ms = Some cs"
  shows "\<exists>q cs'. MultiStore_GetObj R S k (Some x) ms ts = Inr (q, ms\<lparr>ms_cache := Some cs'\<rparr>) \<and>
    obj_shows S x q (multi_view view S (ms, ts) k) \<and> (cs' = cs \<or> cs' = bt_Set k NilValue cs) \<and> (q = None \<longrightarrow> cs' = cs)"
  using assms(1)
proof (rule multi_okE)
  fix cs' assume "ms_cache ms = Some cs'" and m: "ms_trunk ms" "writable storable S ps cs'" and pr: "proper S cs'" and t: "trunk_ok rinv storable S ps ts"
    and v: "\<And>view. multi_view view S (ms, ts) = cache_over S cs' (trunk_view view S ts)"
  have cs': "cs' = cs" using assms(2) \<open>ms_cache ms = Some cs'\<close> by simp
  note run = MultiStore_GetObj_def CacheStore_GetObj_def cache_over_def trunk_of_def
  have keep: "ms\<lparr>ms_cache := Some cs\<rparr> = ms" using assms(2) by simp
  show ?thesis
  proof (cases "bt_Get k cs")
    case None
    from TrunkStore_GetObjCopy_ok [OF t, of k x] obtain q where "TrunkStore_GetObjCopy R S k (Some x) ts = Inr q"
      "obj_shows S x q (trunk_view view S ts k)" by blast
    with None m v assms(2) keep show ?thesis by (intro exI [of _ q] exI [of _ cs]) (simp add: run cs')
  next
    case (Some w)
    have w: "w \<noteq> NilValue" "IsDeleted w \<or> val_bytes S w \<noteq> None" using proper_get [OF pr, of k w] Some by (simp_all add: cs')
    show ?thesis
    proof (cases "IsDeleted w")
      case True
      with Some v assms(2) keep show ?thesis by (auto simp: run cs' val_bytes_deleted obj_shows_def)
    next
      case False
      from obj_read_shows [OF w(1) False _, of S id x] w(2) False obtain q where
        "obj_read S id (Some x) (GetObj w) = Inr q" "obj_shows S x q (val_bytes S w)" by auto
      with Some False v assms(2) w show ?thesis by (cases w) (auto simp: run cs' obj_shows_def split: option.splits)
    qed
  qed
qed

text \<open>What an operation keeps of the block around it.\<close>

abbreviation keeps :: "'o MultiStore \<times> ('r, 'o) TrunkStore \<Rightarrow> 'o MultiStore \<times> ('r, 'o) TrunkStore \<Rightarrow> bool" where
  "keeps st st' \<equiv> trunk_view view S (snd st') = trunk_view view S (snd st) \<and> allowed (root_of (snd st')) = allowed (root_of (snd st))"

lemma multi_op_ok:
  assumes "multi_ok rinv storable S ps (ms, ts)" and "ms_cache ms = Some cs" and "allowed (root_of ts) (ps @ [p])"
    and "prepared storable S [p] (k, v)" and "v \<noteq> NilValue" and "\<not> IsDeleted v \<longrightarrow> val_bytes S v \<noteq> None"
    and a: "\<And>ts'. trunk_prepare R p ts = Inr ts' \<Longrightarrow> act = Inr (ms'\<lparr>ms_cache := Some (bt_Set k v cs)\<rparr>, ts')" and "ms_trunk ms'"
  shows "\<exists>st'. act = Inr st' \<and> multi_ok rinv storable S (ps @ [p]) st' \<and> multi_view view S st' = (multi_view view S (ms, ts))(k := val_bytes S v) \<and>
    keeps (ms, ts) st'"
  using multi_write [OF assms(1-6)] a assms(8) by auto

lemma MultiStore_GetReadOnlyObj_ok:
  assumes "multi_ok rinv storable S ps (ms, ts)"
  shows "\<exists>q ts'. MultiStore_GetReadOnlyObj R S k (Some x) ms ts = Inr (q, ts') \<and> obj_shows S x q (multi_view view S (ms, ts) k) \<and>
    multi_ok rinv storable S ps (ms, ts') \<and> multi_view view S (ms, ts') = multi_view view S (ms, ts) \<and> keeps (ms, ts) (ms, ts')"
  using assms
proof (rule multi_okE)
  fix cs assume m: "ms_cache ms = Some cs" "ms_trunk ms" "writable storable S ps cs" and pr: "proper S cs" and t: "trunk_ok rinv storable S ps ts"
    and v: "\<And>view. multi_view view S (ms, ts) = cache_over S cs (trunk_view view S ts)"
  note run = MultiStore_GetReadOnlyObj_def CacheStore_GetReadOnlyObj_def cache_over_def trunk_of_def
  show ?thesis
  proof (cases "bt_Get k cs")
    case None
    from TrunkStore_GetReadOnlyObj_ok [OF t, of k x] obtain q ts' where r: "TrunkStore_GetReadOnlyObj R S k (Some x) ts = Inr (q, ts')"
      "obj_shows S x q (trunk_view view S ts k)" "trunk_ok rinv storable S ps ts'" "trunk_view view S ts' = trunk_view view S ts"
      "allowed (root_of ts') = allowed (root_of ts)" by blast
    have "multi_ok rinv storable S ps (ms, ts')" "multi_view view S (ms, ts') = multi_view view S (ms, ts)"
      using r m by (simp_all add: multi_ok_def multi_view_def)
    with r m v None show ?thesis by (intro exI [of _ q] exI [of _ ts']) (simp add: run)
  next
    case (Some w)
    note w = proper_get [OF pr Some]
    show ?thesis
    proof (cases "IsDeleted w")
      case True
      with Some m v assms show ?thesis by (auto simp: run val_bytes_deleted obj_shows_def)
    next
      case False
      from obj_read_shows [OF _ False _, of S id x] w False obtain q where
        "obj_read S id (Some x) (GetObj w) = Inr q" "obj_shows S x q (val_bytes S w)" by auto
      with Some False m v assms show ?thesis by (auto simp: run)
    qed
  qed
qed

lemma run_tx_op_ok:
  assumes ok: "multi_ok rinv storable S ps st" and fits: "op_fits storable S op" and al: "allowed (root_of (snd st)) (ps @ op_prepares op)"
  shows "\<exists>st' ps'. run_tx_op R S op st = Inr st' \<and> multi_ok rinv storable S ps' st' \<and> (ps' = ps \<or> ps' = ps @ op_prepares op) \<and>
    multi_view view S st' = op_effect S op (multi_view view S st) \<and> keeps st st'"
proof -
  obtain ms ts where st: "st = (ms, ts)" by fastforce
  from ok obtain cs where cs: "ms_cache ms = Some cs" "ms_trunk ms" by (auto simp: st multi_ok_def)
  note set_ok = multi_op_ok [OF ok [unfolded st] cs(1)]
  show ?thesis
  proof (cases op)
    case (TxSet k v)
    have "\<exists>st'. run_tx_op R S op st = Inr st' \<and> multi_ok rinv storable S (ps @ [ForUpdate k]) st' \<and>
        multi_view view S st' = (multi_view view S (ms, ts))(k := val_bytes S (RawBytes (Some v))) \<and> keeps (ms, ts) st'"
      by (rule set_ok [where ms' = ms and p = "ForUpdate k"])
        (use cs fits al in \<open>simp_all add: TxSet st prepared_def val_bytes_def MultiStore_Set_def trunk_of_def trunk_prepare_def CacheStore_Set_def\<close>)
    then show ?thesis by (auto simp: TxSet st val_bytes_def)
  next
    case (TxSetObj k x)
    have "\<exists>st'. run_tx_op R S op st = Inr st' \<and> multi_ok rinv storable S (ps @ [ForUpdate k]) st' \<and>
        multi_view view S st' = (multi_view view S (ms, ts))(k := val_bytes S (Object x)) \<and> keeps (ms, ts) st'"
      by (rule set_ok [where ms' = ms and p = "ForUpdate k"])
        (use cs fits al in \<open>auto simp add: TxSetObj st prepared_def val_bytes_def MultiStore_SetObj_def trunk_of_def trunk_prepare_def CacheStore_SetObj_def\<close>)
    then show ?thesis by (auto simp: TxSetObj st val_bytes_def)
  next
    case (TxDelete k)
    have "\<exists>st'. run_tx_op R S op st = Inr st' \<and> multi_ok rinv storable S (ps @ [ForDeletion k]) st' \<and>
        multi_view view S st' = (multi_view view S (ms, ts))(k := val_bytes S DeletedValue) \<and> keeps (ms, ts) st'"
      by (rule set_ok [where ms' = ms and p = "ForDeletion k"])
        (use cs fits al in \<open>simp_all add: TxDelete st prepared_def MultiStore_Delete_def trunk_of_def trunk_prepare_def CacheStore_Delete_def\<close>)
    then show ?thesis by (auto simp: TxDelete st val_bytes_def)
  next
    case (TxModify k x f g)
    from MultiStore_GetObj_ok [OF ok [unfolded st] cs(1), of k x] obtain q cs' where
      q: "MultiStore_GetObj R S k (Some x) ms ts = Inr (q, ms\<lparr>ms_cache := Some cs'\<rparr>)" "obj_shows S x q (multi_view view S (ms, ts) k)"
        "cs' = cs \<or> cs' = bt_Set k NilValue cs" "q = None \<longrightarrow> cs' = cs" by blast
    have upd: "bt_Set k v cs' = bt_Set k v cs" for v using q(3) by (auto simp: bt_Set_Set)
    show ?thesis
    proof (cases q)
      case None
      moreover have "ms\<lparr>ms_cache := Some cs\<rparr> = ms" using cs(1) by simp
      ultimately show ?thesis using q ok by (auto simp: TxModify st obj_shows_def fun_upd_idem)
    next
      case (Some y)
      then obtain b where b: "multi_view view S (ms, ts) k = Some b" "y = s_FromBytes S x (Some b) \<or> s_ToBytes S y = Some b"
        using q(2) by (auto simp: obj_shows_def)
      have fy: "s_ToBytes S (f y) = Some (g b)" "storable k (g b)" using fits b(2) by (auto simp: TxModify)
      have "\<exists>st'. run_tx_op R S op st = Inr st' \<and> multi_ok rinv storable S (ps @ [ForUpdate k]) st' \<and>
          multi_view view S st' = (multi_view view S (ms, ts))(k := val_bytes S (Object (f y))) \<and> keeps (ms, ts) st'"
        by (rule set_ok [where ms' = ms and p = "ForUpdate k"])
          (use cs fy al q(1) Some upd in \<open>simp_all add: TxModify st prepared_def val_bytes_def MultiStore_SetObj_def trunk_of_def
            trunk_prepare_def CacheStore_SetObj_def\<close>)
      then show ?thesis using b fy by (auto simp: TxModify st val_bytes_def)
    qed
  next
    case (TxRead k x)
    from MultiStore_GetReadOnlyObj_ok [OF ok [unfolded st], of k x] ok show ?thesis by (auto simp: TxRead st)
  qed
qed

abbreviation within :: "prepare list \<Rightarrow> prepare list \<Rightarrow> bool" where
  "within ps qs \<equiv> length ps \<le> length qs \<and> set ps \<subseteq> set qs"

lemma run_tx_ops_ok:
  assumes "multi_ok rinv storable S ps st" and "\<forall>op \<in> set ops. op_fits storable S op" and "allowed (root_of (snd st)) (ps @ ops_prepares ops)"
  shows "\<exists>st' ps'. foldE (run_tx_op R S) ops st = Inr st' \<and> multi_ok rinv storable S ps' st' \<and> within ps' (ps @ ops_prepares ops) \<and>
    multi_view view S st' = fold (op_effect S) ops (multi_view view S st) \<and> keeps st st'"
  using assms
proof (induction ops arbitrary: ps st)
  case Nil
  then show ?case by auto
next
  case (Cons op ops)
  have "allowed (root_of (snd st)) (ps @ op_prepares op)" by (rule allowed_fewer [OF Cons.prems(3)]) auto
  from run_tx_op_ok [OF Cons.prems(1) _ this] Cons.prems(2) obtain st1 ps1 where o: "run_tx_op R S op st = Inr st1" "multi_ok rinv storable S ps1 st1"
    "ps1 = ps \<or> ps1 = ps @ op_prepares op" "multi_view view S st1 = op_effect S op (multi_view view S st)" "keeps st st1" by auto
  have "within (ps1 @ ops_prepares ops) (ps @ ops_prepares (op # ops))" using o(3) by auto
  then have al: "allowed (root_of (snd st1)) (ps1 @ ops_prepares ops)" using allowed_fewer [OF Cons.prems(3)] o(5) by simp
  from Cons.IH [OF o(2) _ al] Cons.prems(2) obtain st2 ps2 where t: "foldE (run_tx_op R S) ops st1 = Inr st2" "multi_ok rinv storable S ps2 st2"
    "within ps2 (ps1 @ ops_prepares ops)" "multi_view view S st2 = fold (op_effect S) ops (multi_view view S st1)" "keeps st1 st2" by auto
  have "within ps2 (ps @ ops_prepares (op # ops))" using t(3) o(3) by auto
  then show ?case using o(1,4,5) t by (intro exI [of _ st2] exI [of _ ps2]) simp
qed

lemma Cached_ok:
  assumes "trunk_ok rinv storable S ps ts"
  shows "multi_ok rinv storable S ps (TrunkStore_Cached ts, ts)" "multi_view view S (TrunkStore_Cached ts, ts) = trunk_view view S ts"
  using assms by (simp_all add: multi_ok_def multi_view_def TrunkStore_Cached_def)

text \<open>Writing a transaction back moves what it shows into the trunk.\<close>

lemma MultiStore_Close_ok:
  assumes "multi_ok rinv storable S ps (ms, ts)"
  shows "\<exists>ms' ts'. MultiStore_Close b (ms, ts) = Inr (ms', ts') \<and> trunk_ok rinv storable S ps ts' \<and> root_of ts' = root_of ts \<and>
    trunk_view view S ts' = (if b then multi_view view S (ms, ts) else trunk_view view S ts)"
  using assms
proof (rule multi_okE)
  fix cs assume m: "ms_cache ms = Some cs" "ms_trunk ms" "writable storable S ps cs" "trunk_ok rinv storable S ps ts"
    "\<And>view. multi_view view S (ms, ts) = cache_over S cs (trunk_view view S ts)"
  from m(4) show ?thesis
  proof (rule trunk_okE)
    fix tc r assume t: "ts_cache ts = Some tc" "ts_root ts = Some r" "writable storable S ps tc" "rinv ps r" "ts_isWriting ts = 0"
      "\<And>view. trunk_view view S ts = cache_over S tc (view r)"
    from write_back_cache [OF m(3) t(3)] obtain tc' where tc': "ScanAllEntries cacheEntry cs tc = Inr tc'" "writable storable S ps tc'"
      "\<forall>M. cache_over S tc' M = cache_over S cs (cache_over S tc M)" by blast
    have "MultiStore_writeBack ms ts = Inr (ts\<lparr>ts_cache := Some tc'\<rparr>)"
      using m(1,2) t(1,5) tc'(1) by (simp add: MultiStore_writeBack_def trunk_of_def TrunkStore_Update_def notWriting_ok)
    with m t tc' show ?thesis by (auto simp: MultiStore_Close_def trunk_ok_def trunk_view_def)
  qed
qed

lemma run_tx_ok:
  assumes "trunk_ok rinv storable S ps ts" and "\<forall>op \<in> set (fst tx). op_fits storable S op" and "allowed (root_of ts) (ps @ ops_prepares (fst tx))"
  shows "\<exists>ts' ps'. run_tx R S tx ts = Inr ts' \<and> trunk_ok rinv storable S ps' ts' \<and> within ps' (ps @ ops_prepares (fst tx)) \<and>
    trunk_view view S ts' = tx_effect S tx (trunk_view view S ts) \<and> allowed (root_of ts') = allowed (root_of ts)"
proof -
  from run_tx_ops_ok [OF Cached_ok(1) [OF assms(1)] assms(2)] assms(3) obtain ms1 ts1 ps1 where
    o: "foldE (run_tx_op R S) (fst tx) (TrunkStore_Cached ts, ts) = Inr (ms1, ts1)" "multi_ok rinv storable S ps1 (ms1, ts1)"
    "within ps1 (ps @ ops_prepares (fst tx))"
    "multi_view view S (ms1, ts1) = fold (op_effect S) (fst tx) (trunk_view view S ts)"
    "trunk_view view S ts1 = trunk_view view S ts" "allowed (root_of ts1) = allowed (root_of ts)"
    by (auto simp: Cached_ok(2) [OF assms(1)])
  from MultiStore_Close_ok [OF o(2), of "snd tx"] o show ?thesis
    by (auto simp: run_tx_def tx_effect_def intro!: exI [of _ ps1])
qed

lemma foldE_tx_ok:
  assumes "trunk_ok rinv storable S ps ts" and "\<forall>tx \<in> set txs. \<forall>op \<in> set (fst tx). op_fits storable S op" and "allowed (root_of ts) (ps @ tx_prepares txs)"
  shows "\<exists>ts' ps'. foldE (run_tx R S) txs ts = Inr ts' \<and> trunk_ok rinv storable S ps' ts' \<and> within ps' (ps @ tx_prepares txs) \<and>
    trunk_view view S ts' = fold (tx_effect S) txs (trunk_view view S ts) \<and> allowed (root_of ts') = allowed (root_of ts)"
  using assms
proof (induction txs arbitrary: ps ts)
  case Nil
  then show ?case by auto
next
  case (Cons tx txs)
  have "allowed (root_of ts) (ps @ ops_prepares (fst tx))" by (rule allowed_fewer [OF Cons.prems(3)]) auto
  from run_tx_ok [OF Cons.prems(1) _ this] Cons.prems(2) obtain ts1 ps1 where o: "run_tx R S tx ts = Inr ts1" "trunk_ok rinv storable S ps1 ts1"
    "within ps1 (ps @ ops_prepares (fst tx))" "trunk_view view S ts1 = tx_effect S tx (trunk_view view S ts)"
    "allowed (root_of ts1) = allowed (root_of ts)" by auto
  have w: "within (ps1 @ tx_prepares txs) (ps @ tx_prepares (tx # txs))" using o(3) by auto
  then have "allowed (root_of ts1) (ps1 @ tx_prepares txs)" using allowed_fewer [OF Cons.prems(3)] o(5) by simp
  from Cons.IH [OF o(2) _ this] Cons.prems(2) obtain ts2 ps2 where t: "foldE (run_tx R S) txs ts1 = Inr ts2" "trunk_ok rinv storable S ps2 ts2"
    "within ps2 (ps1 @ tx_prepares txs)" "trunk_view view S ts2 = fold (tx_effect S) txs (trunk_view view S ts1)"
    "allowed (root_of ts2) = allowed (root_of ts1)" by auto
  have "within ps2 (ps @ tx_prepares (tx # txs))" using t(3) w by (meson order_trans)
  then show ?case using o(1,4,5) t by (intro exI [of _ ts2] exI [of _ ps2]) simp
qed

lemma TrunkStore_Close_ok:
  assumes "trunk_ok rinv storable S ps ts" and "allowed (root_of ts) ps"
  shows "\<exists>r' ts'. TrunkStore_Close R True ts = okR (Some r', ts') \<and> rinv [] r' \<and> view r' = trunk_view view S ts"
  using assms(1)
proof (rule trunk_okE)
  fix cs r assume t: "ts_cache ts = Some cs" "ts_root ts = Some r" "writable storable S ps cs" "rinv ps r" "ts_isWriting ts = 0"
    "\<And>view. trunk_view view S ts = cache_over S cs (view r)"
  from write_root [OF t(4) _ t(3)] assms(2) t(2) obtain r' where r': "write_block R cs r = okR r'" "rinv [] r'" "view r' = cache_over S cs (view r)" by auto
  from r'(1) obtain r1 where r1: "bindE (rs_BeginWrite R r) (ScanAllEntries (writeEntry R) cs) = Inr r1" "rs_EndWrite R r1 = okR r'"
    by (auto simp: write_block_def bindR_eq_okR) (auto simp: okR_def)
  obtain r0 where "rs_BeginWrite R r = Inr r0" "ScanAllEntries (writeEntry R) cs r0 = Inr r1" using r1(1) by (auto simp: bindE_eq_Inr)
  then have "TrunkStore_writeBack R ts = okR (ts\<lparr>ts_root := Some r'\<rparr>)"
    using t r1(2) by (simp add: TrunkStore_writeBack_def Let_def) (simp add: okR_def)
  then have "TrunkStore_Close R True ts = okR (Some r', ts\<lparr>ts_root := None, ts_cache := None\<rparr>)"
    using t by (simp add: TrunkStore_Close_def) (simp add: okR_def)
  then show ?thesis using r' t by auto
qed

text \<open>A block of transactions, from a root store between blocks to the next.\<close>

lemma run_txs_ok:
  assumes "rinv [] r" and "\<forall>tx \<in> set txs. \<forall>op \<in> set (fst tx). op_fits storable S op" and "allowed r (tx_prepares txs)"
  shows "\<exists>r' ts'. run_txs R S keys txs r = okR (Some r', ts') \<and> rinv [] r' \<and> view r' = fold (tx_effect S) txs (view r)"
proof -
  have t0: "trunk_ok rinv storable S [] (NewTrunkStore keys r)" "trunk_view view S (NewTrunkStore keys r) = view r" "root_of (NewTrunkStore keys r :: ('r, 'o) TrunkStore) = r"
    using assms(1) by (simp_all add: trunk_ok_def trunk_view_def NewTrunkStore_def)
  from foldE_tx_ok [OF t0(1) assms(2)] assms(3) t0 obtain ts ps where t: "foldE (run_tx R S) txs (NewTrunkStore keys r) = Inr ts"
    "trunk_ok rinv storable S ps ts" "within ps (tx_prepares txs)" "trunk_view view S ts = fold (tx_effect S) txs (view r)"
    "allowed (root_of ts) = allowed r" by auto
  have "allowed (root_of ts) ps" using allowed_fewer [OF assms(3)] t(3,5) by simp
  from TrunkStore_Close_ok [OF t(2) this] t show ?thesis by (auto simp: run_txs_def)
qed

end

end
