(* ===== verification/StoreRuns.thy ===== *)
theory StoreRuns
  imports StoreStack
begin

text \<open>
  Sequences of blocks over any root store, the reads inside a transaction, and the mock root store as a
  root store.
\<close>

section \<open>Sequences of blocks\<close>

text \<open>A block: its height and its transactions.\<close>

type_synonym 'o block = "int \<times> 'o tx list"

definition run_txblock :: "('r, 'f, 'b, 'o) RootStoreI \<Rightarrow> 'o Serializable \<Rightarrow> StrStoreKey list \<Rightarrow> 'o block \<Rightarrow> 'r \<Rightarrow> ('r option \<times> ('r, 'o) TrunkStore) result" where
  "run_txblock R S keys blk r = run_txs R S keys (snd blk) (rs_SetHeight R (fst blk) r)"

text \<open>The root stores after the blocks \<open>bs\<close>, each of which was allowed by \<open>pre\<close>.\<close>

inductive blocks_run :: "('r, 'f, 'b, 'o) RootStoreI \<Rightarrow> 'o Serializable \<Rightarrow> StrStoreKey list \<Rightarrow> ('r \<Rightarrow> 'o block \<Rightarrow> bool) \<Rightarrow> 'r \<Rightarrow>
    'o block list \<Rightarrow> 'r \<Rightarrow> bool" for R S keys pre r0 where
  blocks_start: "blocks_run R S keys pre r0 [] r0"
| blocks_more: "blocks_run R S keys pre r0 bs r \<Longrightarrow> pre r blk \<Longrightarrow> run_txblock R S keys blk r = okR (Some r', ts) \<Longrightarrow>
    blocks_run R S keys pre r0 (bs @ [blk]) r'"

text \<open>What the blocks do to the map.\<close>

definition blocks_effect :: "'o Serializable \<Rightarrow> 'o block list \<Rightarrow> (bytes \<rightharpoonup> bytes) \<Rightarrow> (bytes \<rightharpoonup> bytes)" where
  "blocks_effect S bs = fold (\<lambda>blk. fold (tx_effect S) (snd blk)) bs"

text \<open>Each key is changed on its own.\<close>

lemma op_effect_cong: "M k = M' k \<Longrightarrow> op_effect S op M k = op_effect S op M' k"
  by (cases op) auto

lemma fold_cong_at:
  assumes step: "\<And>x M M'. M k = M' k \<Longrightarrow> f x M k = f x M' k"
  shows "M k = M' k \<Longrightarrow> fold f xs M k = fold f xs M' k"
proof (induction xs arbitrary: M M')
  case (Cons x xs)
  have "f x M k = f x M' k" by (rule step) (rule Cons.prems)
  then show ?case unfolding fold_simps by (rule Cons.IH)
qed simp

lemma tx_effect_cong: "M k = M' k \<Longrightarrow> tx_effect S tx M k = tx_effect S tx M' k"
  using fold_cong_at [where f = "op_effect S" and k = k and xs = "fst tx"] op_effect_cong by (simp add: tx_effect_def) blast

lemma txs_effect_cong: "M k = M' k \<Longrightarrow> fold (tx_effect S) txs M k = fold (tx_effect S) txs M' k"
  using fold_cong_at [where f = "tx_effect S" and k = k and xs = txs] tx_effect_cong by blast

lemma blocks_effect_cong: "M k = M' k \<Longrightarrow> blocks_effect S bs M k = blocks_effect S bs M' k"
  unfolding blocks_effect_def
  using fold_cong_at [where f = "\<lambda>blk. fold (tx_effect S) (snd blk)" and k = k and xs = bs] txs_effect_cong by blast

text \<open>The transactions of a block before its end, and the open transaction behind them.\<close>

definition run_inside :: "('r, 'f, 'b, 'o) RootStoreI \<Rightarrow> 'o Serializable \<Rightarrow> StrStoreKey list \<Rightarrow> 'o tx list \<Rightarrow> 'o tx_op list \<Rightarrow> 'r \<Rightarrow>
    ('o MultiStore \<times> ('r, 'o) TrunkStore) outcome" where
  "run_inside R S keys txs ops r =
     bindE (foldE (run_tx R S) txs (NewTrunkStore keys r)) (\<lambda>ts. foldE (run_tx_op R S) ops (TrunkStore_Cached ts, ts))"

abbreviation txs_fit :: "(bytes \<Rightarrow> bytes \<Rightarrow> bool) \<Rightarrow> 'o Serializable \<Rightarrow> 'o tx list \<Rightarrow> bool" where
  "txs_fit storable S txs \<equiv> \<forall>tx \<in> set txs. \<forall>op \<in> set (fst tx). op_fits storable S op"

lemma op_fits_mono: "op_fits storable S op \<Longrightarrow> (\<And>k v. storable k v \<Longrightarrow> storable' k v) \<Longrightarrow> op_fits storable' S op"
  by (cases op) auto

context root_store
begin

text \<open>The blocks that the locale can run.\<close>

abbreviation block_fits :: "'r \<Rightarrow> 'o block \<Rightarrow> bool" where
  "block_fits r blk \<equiv> txs_fit storable S (snd blk) \<and> allowed (rs_SetHeight R (fst blk) r) (tx_prepares (snd blk))"

lemma run_txblock_ok:
  assumes "rinv [] r" and "block_fits r blk"
  shows "\<exists>r' ts. run_txblock R S keys blk r = okR (Some r', ts) \<and> rinv [] r' \<and> view r' = blocks_effect S [blk] (view r)"
  using run_txs_ok [of "rs_SetHeight R (fst blk) r" "snd blk" keys] set_height [OF assms(1), of "fst blk"] assms(2)
  by (simp add: run_txblock_def blocks_effect_def)

lemma blocks_run_ok:
  assumes run: "blocks_run R S keys pre r0 bs r" and r0: "rinv [] r0" and pre: "\<And>r blk. pre r blk \<Longrightarrow> block_fits r blk"
  shows "rinv [] r \<and> view r = blocks_effect S bs (view r0)"
  using run
proof induction
  case blocks_start
  show ?case using r0 by (simp add: blocks_effect_def)
next
  case (blocks_more bs r blk r' ts)
  from run_txblock_ok [of r blk keys] blocks_more pre [of r blk] show ?case
    by (auto simp: blocks_effect_def okR_def)
qed

lemma run_inside_ok:
  assumes "rinv [] r" and "txs_fit storable S (txs @ [(ops, b)])" and "allowed r (tx_prepares (txs @ [(ops, b)]))"
  shows "\<exists>ms ts ps. run_inside R S keys txs ops r = Inr (ms, ts) \<and> multi_ok rinv storable S ps (ms, ts) \<and>
    multi_view view S (ms, ts) = fold (op_effect S) ops (fold (tx_effect S) txs (view r))"
proof -
  let ?t = "NewTrunkStore keys r :: ('r, 'o) TrunkStore"
  have t0: "trunk_ok rinv storable S [] ?t" "trunk_view view S ?t = view r" "root_of ?t = r"
    using assms(1) by (simp_all add: trunk_ok_def trunk_view_def NewTrunkStore_def)
  have "allowed (root_of ?t) ([] @ tx_prepares txs)" unfolding t0(3) by (rule allowed_fewer [OF assms(3)]) auto
  from foldE_tx_ok [OF t0(1) _ this] assms(2) obtain ts ps where t: "foldE (run_tx R S) txs ?t = Inr ts"
    "trunk_ok rinv storable S ps ts" "within ps (tx_prepares txs)" "trunk_view view S ts = fold (tx_effect S) txs (view r)"
    "allowed (root_of ts) = allowed r" unfolding t0(2,3) by auto
  have "allowed (root_of (snd (TrunkStore_Cached ts, ts))) (ps @ ops_prepares ops)" unfolding snd_conv t(5)
    by (rule allowed_fewer [OF assms(3)]) (use t(3) in auto)
  from run_tx_ops_ok [OF Cached_ok(1) [OF t(2)] _ this] assms(2) obtain st ps' where
    "foldE (run_tx_op R S) ops (TrunkStore_Cached ts, ts) = Inr st" "multi_ok rinv storable S ps' st"
    "multi_view view S st = fold (op_effect S) ops (trunk_view view S ts)" by (auto simp: Cached_ok(2) [OF t(2)])
  with t(1,4) show ?thesis by (cases st) (auto simp: run_inside_def)
qed

end

section \<open>The mock root store\<close>

definition mock_view :: "'o Serializable \<Rightarrow> 'o MockRootStore \<Rightarrow> (bytes \<rightharpoonup> bytes)" where
  "mock_view S rs = cache_over S (mr_cacheStore rs) (\<lambda>_. None)"

text \<open>A cache with values only.\<close>

definition plain :: "'o Serializable \<Rightarrow> 'o CacheStore \<Rightarrow> bool" where
  "plain S cs \<longleftrightarrow> proper S cs \<and> (\<forall>v \<in> snd ` set cs. \<not> IsDeleted v)"

definition mock_inv :: "'o Serializable \<Rightarrow> prepare list \<Rightarrow> 'o MockRootStore \<Rightarrow> bool" where
  "mock_inv S ps rs \<longleftrightarrow> plain S (mr_cacheStore rs) \<and> \<not> mr_isWritting rs \<and>
     (\<forall>k. ForUpdate k \<in> set ps \<longrightarrow> k \<in> mr_preparedForUpdate rs) \<and> (\<forall>k. ForDeletion k \<in> set ps \<longrightarrow> k \<in> mr_preparedForDeletion rs)"

lemma plain_get: "plain S cs \<Longrightarrow> bt_Get k cs = Some v \<Longrightarrow> v \<noteq> NilValue \<and> \<not> IsDeleted v \<and> (\<exists>b. val_bytes S v = Some b)"
  unfolding plain_def bt_Get_def using proper_get [of S cs k v, unfolded bt_Get_def] map_of_SomeD [of cs k v] by fastforce

lemma plain_Set:
  assumes "plain S cs" and "v \<noteq> NilValue" and "\<not> IsDeleted v" and "val_bytes S v \<noteq> None"
  shows "plain S (bt_Set k v cs)"
  using assms proper_Set [of S cs v k] bt_Set_values [of k v cs] unfolding plain_def by blast

lemma bt_Delete_subset: "set (bt_Delete k cs) \<subseteq> set cs"
  by (auto simp: bt_Delete_def)

lemma plain_Delete:
  assumes "plain S cs"
  shows "plain S (bt_Delete k cs)" "cache_over S (bt_Delete k cs) M = (\<lambda>x. if x = k then M k else cache_over S cs M x)"
proof -
  have co: "cache_ok cs" using assms by (simp add: plain_def proper_def)
  then show "plain S (bt_Delete k cs)" using assms cache_ok_Delete bt_Delete_subset [of k cs] unfolding plain_def proper_def by blast
  show "cache_over S (bt_Delete k cs) M = (\<lambda>x. if x = k then M k else cache_over S cs M x)"
    by (auto simp: cache_over_def fun_eq_iff cache_get_delete [OF co])
qed

text \<open>Its writes.\<close>

definition mock_ready :: "'o Serializable \<Rightarrow> 'o MockRootStore \<Rightarrow> bytes \<times> 'o Value \<Rightarrow> bool" where
  "mock_ready S rs kv \<longleftrightarrow> fst kv \<in> (if IsDeleted (snd kv) then mr_preparedForDeletion rs else mr_preparedForUpdate rs) \<and>
     snd kv \<noteq> NilValue \<and> (\<not> IsDeleted (snd kv) \<longrightarrow> val_bytes S (snd kv) \<noteq> None)"

lemma mock_ready_cache [simp]: "mock_ready S (rs\<lparr>mr_cacheStore := m\<rparr>) = mock_ready S rs"
  by (simp add: mock_ready_def fun_eq_iff)

lemma mock_writeEntry_ok:
  assumes rs: "plain S (mr_cacheStore rs)" "mr_isWritting rs" and ready: "mock_ready S rs (k, v)"
  shows "\<exists>cs. writeEntry (MockRootI S) k (GetObj v) (IsDeleted v) rs = Inr (rs\<lparr>mr_cacheStore := cs\<rparr>) \<and> plain S cs \<and>
    cache_over S cs (\<lambda>_. None) = (cache_over S (mr_cacheStore rs) (\<lambda>_. None))(k := val_bytes S v)"
proof (cases "IsDeleted v")
  case True
  then have p: "k \<in> mr_preparedForDeletion rs" using ready by (simp add: mock_ready_def)
  with True rs plain_Delete [OF rs(1), of k] show ?thesis
    by (auto simp: writeEntry_def MockRootI_def MockRootStore_Delete_def CacheStore_RealDelete_def val_bytes_deleted fun_eq_iff)
next
  case False
  then have p: "k \<in> mr_preparedForUpdate rs" and v: "v \<noteq> NilValue" "val_bytes S v \<noteq> None" using ready by (simp_all add: mock_ready_def)
  have "writeEntry (MockRootI S) k (GetObj v) (IsDeleted v) rs = Inr (rs\<lparr>mr_cacheStore := bt_Set k v (mr_cacheStore rs)\<rparr>)"
    using False rs p v(1) by (cases v) (auto simp: writeEntry_def MockRootI_def MockRootStore_Set_def MockRootStore_SetObj_def
        CacheStore_Set_def CacheStore_SetObj_def GetObj_def)
  moreover have "plain S (bt_Set k v (mr_cacheStore rs))" using plain_Set [OF rs(1) v(1) False v(2)] .
  moreover have "proper S (mr_cacheStore rs)" using rs(1) by (simp add: plain_def)
  ultimately show ?thesis using cache_over_Set by blast
qed

lemma mock_writeEntries_ok:
  assumes "plain S (mr_cacheStore rs)" "mr_isWritting rs"
    and "\<forall>kv \<in> set cs. mock_ready S rs kv"
  shows "\<exists>m. ScanAllEntries (writeEntry (MockRootI S)) cs rs = Inr (rs\<lparr>mr_cacheStore := m\<rparr>) \<and> plain S m \<and>
    cache_over S m (\<lambda>_. None) = fold (\<lambda>kv M. M(fst kv := val_bytes S (snd kv))) cs (cache_over S (mr_cacheStore rs) (\<lambda>_. None))"
  using assms
proof (induction cs arbitrary: rs)
  case Nil
  then show ?case by (intro exI [of _ "mr_cacheStore rs"]) (simp add: ScanAllEntries_def)
next
  case (Cons kv cs)
  obtain k v where kv: "kv = (k, v)" by fastforce
  from mock_writeEntry_ok [OF Cons.prems(1,2), of k v] Cons.prems(3) obtain m where m:
    "writeEntry (MockRootI S) k (GetObj v) (IsDeleted v) rs = Inr (rs\<lparr>mr_cacheStore := m\<rparr>)" "plain S m"
    "cache_over S m (\<lambda>_. None) = (cache_over S (mr_cacheStore rs) (\<lambda>_. None))(k := val_bytes S v)" by (auto simp: kv)
  have "\<exists>m2. ScanAllEntries (writeEntry (MockRootI S)) cs (rs\<lparr>mr_cacheStore := m\<rparr>) = Inr (rs\<lparr>mr_cacheStore := m, mr_cacheStore := m2\<rparr>) \<and> plain S m2 \<and>
    cache_over S m2 (\<lambda>_. None) = fold (\<lambda>kv M. M(fst kv := val_bytes S (snd kv))) cs (cache_over S (mr_cacheStore (rs\<lparr>mr_cacheStore := m\<rparr>)) (\<lambda>_. None))"
    by (rule Cons.IH) (use m(2) Cons.prems(2,3) in simp_all)
  then obtain m2 where "ScanAllEntries (writeEntry (MockRootI S)) cs (rs\<lparr>mr_cacheStore := m\<rparr>) = Inr (rs\<lparr>mr_cacheStore := m2\<rparr>)" "plain S m2"
    "cache_over S m2 (\<lambda>_. None) = fold (\<lambda>kv M. M(fst kv := val_bytes S (snd kv))) cs (cache_over S m (\<lambda>_. None))" by auto
  with m Cons.prems(3) show ?case by (intro exI [of _ m2]) (simp add: ScanAllEntries_def kv mock_ready_def del: fun_upd_apply)
qed

lemma fold_updates:
  assumes "cache_ok cs"
  shows "fold (\<lambda>kv M. M(fst kv := val_bytes S (snd kv))) cs M = cache_over S cs M"
proof -
  have "distinct (map fst cs)" using assms by (simp add: cache_ok_def bt_inv_def strict_sorted_iff)
  then show ?thesis
  proof (induction cs arbitrary: M)
    case Nil
    show ?case by (simp add: cache_over_def bt_Get_def fun_eq_iff)
  next
    case (Cons kv cs)
    then have "map_of cs (fst kv) = None" by (simp add: map_of_eq_None_iff)
    with Cons show ?case by (cases kv) (auto simp: cache_over_def bt_Get_def fun_eq_iff)
  qed
qed

lemma mock_write_ok:
  assumes inv: "mock_inv S ps rs" and cs: "writable (\<lambda>_ _. True) S ps cs"
  shows "\<exists>rs'. write_block (MockRootI S) cs rs = okR rs' \<and> mock_inv S [] rs' \<and> mock_view S rs' = cache_over S cs (mock_view S rs)"
proof -
  have pr: "proper S cs" "cache_ok cs" and all: "\<forall>kv \<in> set cs. prepared (\<lambda>_ _. True) S ps kv" using cs by (simp_all add: writable_def proper_def)
  let ?rs = "rs\<lparr>mr_isWritting := True\<rparr>"
  have "mock_ready S ?rs kv" if "kv \<in> set cs" for kv
    using proper_values [OF pr(1) that] all that inv by (cases "IsDeleted (snd kv)") (auto simp: mock_ready_def prepared_def mock_inv_def)
  then have "\<forall>kv \<in> set cs. mock_ready S ?rs kv" by blast
  from mock_writeEntries_ok [of S ?rs cs, OF _ _ this] inv obtain m where
    "ScanAllEntries (writeEntry (MockRootI S)) cs ?rs = Inr (?rs\<lparr>mr_cacheStore := m\<rparr>)" "plain S m"
    "cache_over S m (\<lambda>_. None) = cache_over S cs (mock_view S rs)" by (auto simp: mock_inv_def mock_view_def fold_updates [OF pr(2)])
  then show ?thesis
    by (auto simp: write_block_def MockRootI_def MockRootStore_BeginWrite_def MockRootStore_EndWrite_def mock_inv_def mock_view_def okR_def)
qed

text \<open>Its reads.\<close>

lemma plain_items_enumerate:
  assumes "plain S cs"
  shows "enumerates asc s e (cache_over S cs (\<lambda>_. None)) (cache_items S asc s e cs)"
proof -
  have co: "cache_ok cs" using assms by (simp add: plain_def proper_def)
  have "item_value x \<noteq> None" if x: "x \<in> set (cache_items S asc s e cs)" for x
  proof -
    from x obtain kv where kv: "kv \<in> set cs" "x = cache_item S kv" by (auto simp: cache_items_def split: if_splits)
    then have "bt_Get (fst kv) cs = Some (snd kv)" using co by (simp add: bt_Get_def cache_ok_def bt_inv_def strict_sorted_iff)
    from plain_get [OF assms this] kv(2) show ?thesis by auto
  qed
  then have "None \<notin> item_value ` set (cache_items S asc s e cs)" by force
  moreover have "item_map (cache_items S asc s e cs) k = range_map s e (cache_over S cs (\<lambda>_. None)) k" for k
    by (auto simp: item_map_def map_of_cache_items [OF co] range_map_def cache_over_def cache_item_def split: option.split)
  ultimately show ?thesis using cache_items_sorted [OF co] by (simp add: enumerates_def fun_eq_iff)
qed

lemma mock_read_ok:
  assumes "mock_inv S ps rs"
  shows "MockRootStore_Get S k rs = Inr (mock_view S rs k)" "MockRootStore_Has S k rs = Inr (mock_view S rs k \<noteq> None)"
proof -
  have m: "plain S (mr_cacheStore rs)" "mockIdle rs = Inr ()" "proper S (mr_cacheStore rs)"
    using assms by (simp_all add: mock_inv_def plain_def mockIdle_def)
  show "MockRootStore_Get S k rs = Inr (mock_view S rs k)" "MockRootStore_Has S k rs = Inr (mock_view S rs k \<noteq> None)"
    using plain_get [OF m(1), of k] m(2)
    by (cases "bt_Get k (mr_cacheStore rs)";
        auto simp: MockRootStore_Get_def MockRootStore_Has_def CacheStore_Get_proper [OF m(3)] mock_view_def cache_over_def)+
qed

lemma mock_read_obj_ok:
  assumes "mock_inv S ps rs" and S: "serializable S"
  shows "\<exists>q. MockRootStore_GetObjCopy S k (Some x) rs = Inr q \<and> obj_shows S x q (mock_view S rs k)"
    "\<exists>q rs'. MockRootStore_GetReadOnlyObj S k (Some x) rs = Inr (q, rs') \<and> obj_shows S x q (mock_view S rs k) \<and>
      mock_inv S ps rs' \<and> mock_view S rs' = mock_view S rs"
proof -
  have m: "plain S (mr_cacheStore rs)" "mockIdle rs = Inr ()" using assms(1) by (simp_all add: mock_inv_def mockIdle_def)
  note run = MockRootStore_GetObjCopy_def MockRootStore_GetReadOnlyObj_def CacheStore_GetObjCopy_def CacheStore_GetReadOnlyObj_def
    mock_view_def cache_over_def
  show "\<exists>q. MockRootStore_GetObjCopy S k (Some x) rs = Inr q \<and> obj_shows S x q (mock_view S rs k)"
  proof (cases "bt_Get k (mr_cacheStore rs)")
    case None
    with m(2) show ?thesis by (simp add: run obj_shows_def)
  next
    case (Some v)
    note v = plain_get [OF m(1) Some]
    have "\<forall>x. s_ToBytes S (s_DeepCopy S x) = s_ToBytes S x" using S by (simp add: serializable_def)
    from obj_read_shows [OF _ _ _ this, of v x] v obtain q where
      "obj_read S (s_DeepCopy S) (Some x) (GetObj v) = Inr q" "obj_shows S x q (val_bytes S v)" by blast
    with m(2) Some v show ?thesis by (simp add: run)
  qed
  show "\<exists>q rs'. MockRootStore_GetReadOnlyObj S k (Some x) rs = Inr (q, rs') \<and> obj_shows S x q (mock_view S rs k) \<and>
      mock_inv S ps rs' \<and> mock_view S rs' = mock_view S rs"
  proof (cases "bt_Get k (mr_cacheStore rs)")
    case None
    with m(2) assms(1) show ?thesis by (simp add: run obj_shows_def)
  next
    case (Some v)
    note v = plain_get [OF m(1) Some]
    from obj_read_shows [of v S id x] v obtain q where
      "obj_read S id (Some x) (GetObj v) = Inr q" "obj_shows S x q (val_bytes S v)" by auto
    with m(2) Some v assms(1) show ?thesis by (simp add: run)
  qed
qed

lemma mock_prepare_ok:
  assumes "mock_inv S ps rs"
  shows "\<exists>rs'. root_prepare (MockRootI S) p rs = Inr rs' \<and> mock_inv S (ps @ [p]) rs' \<and> mock_view S rs' = mock_view S rs"
  using assms
  by (cases p) (auto simp: root_prepare_def MockRootI_def MockRootStore_PrepareForUpdate_def MockRootStore_PrepareForDeletion_def mock_inv_def
      mock_view_def mockIdle_def)

lemma MockRootI_reads:
  "rs_Get (MockRootI S) = MockRootStore_Get S" "rs_Has (MockRootI S) = MockRootStore_Has S"
  "rs_GetObjCopy (MockRootI S) = MockRootStore_GetObjCopy S" "rs_GetReadOnlyObj (MockRootI S) = MockRootStore_GetReadOnlyObj S"
  "rs_Iterator (MockRootI S) = (\<lambda>s e rs. CacheStore_Iterator s e (mr_cacheStore rs))"
  "rs_ReverseIterator (MockRootI S) = (\<lambda>s e rs. CacheStore_ReverseIterator s e (mr_cacheStore rs))"
  "rs_SetHeight (MockRootI S) h rs = rs"
  by (simp_all add: MockRootI_def)

lemma mock_root_store:
  assumes S: "serializable S"
  shows "root_store (CacheForwardI S) cf_inv (cf_rest S) (CacheBackwardI S) cb_inv (cb_rest S) (MockRootI S) (\<lambda>_ _. True) S
    (mock_inv S) (mock_view S) (\<lambda>_ _. True)"
proof (intro root_store.intro cache_forward.obj_iterator_axioms cache_backward.obj_iterator_axioms root_store_axioms.intro)
  show "serializable S" by (rule S)
next
  fix ps :: "prepare list" and rs :: "'a MockRootStore" and s e
  assume inv: "mock_inv S ps rs"
  then have pl: "plain S (mr_cacheStore rs)" "proper S (mr_cacheStore rs)" by (simp_all add: mock_inv_def plain_def)
  from cache_forward_items [OF pl(2), of s e] plain_items_enumerate [OF pl(1), of True s e]
  show "\<exists>i. rs_Iterator (MockRootI S) s e rs = Inr i \<and> cf_inv i \<and> enumerates True s e (mock_view S rs) (cf_rest S i)"
    by (auto simp: MockRootI_reads mock_view_def)
  from cache_backward_items [OF pl(2), of s e] plain_items_enumerate [OF pl(1), of False s e]
  show "\<exists>i. rs_ReverseIterator (MockRootI S) s e rs = Inr i \<and> cb_inv i \<and> enumerates False s e (mock_view S rs) (cb_rest S i)"
    by (auto simp: MockRootI_reads mock_view_def)
qed (use mock_read_ok mock_read_obj_ok [OF _ S] mock_prepare_ok mock_write_ok in \<open>(simp add: MockRootI_reads, blast?)+\<close>)

text \<open>An object that is its bytes.\<close>

definition bytesObj :: "bytes Serializable" where
  "bytesObj = \<lparr>s_ToBytes = Some, s_FromBytes = (\<lambda>_ bz. slice_bytes bz), s_DeepCopy = id\<rparr>"

lemma bytesObj_ok: "serializable bytesObj"
  by (simp add: serializable_def bytesObj_def slice_bytes_def)

interpretation mock_root: root_store "CacheForwardI bytesObj" cf_inv "cf_rest bytesObj" "CacheBackwardI bytesObj" cb_inv "cb_rest bytesObj"
  "MockRootI bytesObj" "\<lambda>_ _. True" bytesObj "mock_inv bytesObj" "mock_view bytesObj" "\<lambda>_ _. True"
  by (rule mock_root_store [OF bytesObj_ok])

end
