(* ===== verification/StoreRoot.thy ===== *)
theory StoreRoot
  imports RootStore StoreRuns OnvaMain
begin

text \<open>
  The root store over an OnvaKV store is a root store in the sense of \<open>root_store\<close>: its object cache
  always agrees with the store, its iterators enumerate the abstract map, and the write phase of a trunk
  store is a block of the OnvaKV store.
\<close>

section \<open>The object cache\<close>

text \<open>What the root store shows of its OnvaKV store.\<close>

definition root_view :: "('i, 'e) IndexTreeI \<Rightarrow> 'd DataTreeI \<Rightarrow> ('i, 'd, 'e, 'o) RootStore \<Rightarrow> (bytes \<rightharpoonup> bytes)" where
  "root_view I D r k = (case GetEntry I D k (rt_okv r) of Inr (Some e) \<Rightarrow> Value e | _ \<Rightarrow> None)"

text \<open>Every cached object is for a cacheable key of the map \<open>M\<close>, with the bytes that \<open>M\<close> has.\<close>

definition cache_shows :: "'o Serializable \<Rightarrow> (bytes \<Rightarrow> bool) \<Rightarrow> (bytes \<rightharpoonup> bytes) \<Rightarrow> (bytes \<times> 'o) list \<Rightarrow> bool" where
  "cache_shows S c M m \<longleftrightarrow> distinct (map fst m) \<and> (\<forall>k x. map_of m k = Some x \<longrightarrow> c k \<and> M k \<noteq> None \<and> s_ToBytes S x = M k)"

text \<open>The values at cacheable keys are the bytes of objects.\<close>

definition decodable :: "'o Serializable \<Rightarrow> (bytes \<Rightarrow> bool) \<Rightarrow> (bytes \<rightharpoonup> bytes) \<Rightarrow> bool" where
  "decodable S c M \<longleftrightarrow> (\<forall>k b. c k \<and> M k = Some b \<longrightarrow> (\<exists>y. s_ToBytes S y = Some b))"

lemma cache_shows_empty [simp]: "cache_shows S c M []"
  by (simp add: cache_shows_def)

lemma cache_shows_update:
  assumes "cache_shows S c M m" and "c k" and "s_ToBytes S x = Some b"
  shows "cache_shows S c (M(k \<mapsto> b)) (AList.update k x m)"
  using assms by (auto simp: cache_shows_def distinct_update update_conv')

lemma cache_shows_remove: "cache_shows S c M m \<Longrightarrow> cache_shows S c M (AList.delete k m)"
  by (auto simp: cache_shows_def distinct_delete delete_conv' split: if_splits)

lemma cache_shows_absent: "cache_shows S c M m \<Longrightarrow> map_of m k = None \<Longrightarrow> cache_shows S c (M(k := v)) m"
  by (auto simp: cache_shows_def)

lemma cache_shows_delete: "cache_shows S c M m \<Longrightarrow> cache_shows S c (M(k := None)) (AList.delete k m)"
  by (auto simp: cache_shows_def distinct_delete delete_conv')

text \<open>The cache itself is bounded.\<close>

definition cache_fits :: "'o Serializable \<Rightarrow> (bytes \<Rightarrow> bool) \<Rightarrow> (bytes \<rightharpoonup> bytes) \<Rightarrow> (bytes \<times> 'o) list \<Rightarrow> bool" where
  "cache_fits S c M m \<longleftrightarrow> cache_shows S c M m \<and> length m \<le> Suc CacheSizeLimit"

lemma length_AList_update: "length (AList.update k x m) = (if k \<in> fst ` set m then length m else Suc (length m))"
  by (induction m) auto

lemma cache_fits_shows: "cache_fits S c M m \<Longrightarrow> cache_shows S c M m"
  by (simp add: cache_fits_def)

lemma cache_fits_empty [simp]: "cache_fits S c M []"
  by (simp add: cache_fits_def)

lemma cache_fits_absent: "cache_fits S c M m \<Longrightarrow> map_of m k = None \<Longrightarrow> cache_fits S c (M(k := v)) m"
  by (simp add: cache_fits_def cache_shows_absent)

lemma cache_fits_replace:
  assumes "cache_fits S c M m" and "map_of m k = Some y" and "c k" and "s_ToBytes S x = Some b"
  shows "cache_fits S c (M(k \<mapsto> b)) (AList.update k x m)"
proof -
  have "k \<in> fst ` set m" using assms(2) by (force dest: map_of_SomeD)
  with assms(1) cache_shows_update [of S c M m k x b] assms(3,4) show ?thesis by (simp add: cache_fits_def length_AList_update)
qed

lemma cache_fits_delete: "cache_fits S c M m \<Longrightarrow> cache_fits S c (M(k := None)) (AList.delete k m)"
  using cache_shows_delete [of S c M m k] length_delete_le [of k m] by (simp add: cache_fits_def)

text \<open>The object of a key, in the cache or in the buffer.\<close>

lemma cached_shows:
  assumes "cache_shows S c M m" and "map_of m k = Some x"
  shows "\<exists>b. M k = Some b \<and> s_ToBytes S x = Some b \<and> c k"
  using assms unfolding cache_shows_def by fastforce

lemma length_removeRandom:
  assumes "m \<noteq> []"
  shows "length (fst (removeRandom r m)) < length m"
proof -
  have "m ! (rt_random r 0 mod length m) \<in> set m" using assms by simp
  then have "length (filter (\<lambda>x. fst (m ! (rt_random r 0 mod length m)) \<noteq> fst x) m) < length m" by (auto intro!: length_filter_less)
  then show ?thesis by (simp add: removeRandom_def AList.delete_eq case_prod_beta')
qed

lemma addToCache_ok:
  assumes r: "rt_cache r = Some m" and m: "cache_fits S c M m" and k: "c k" "s_ToBytes S x = Some b"
  shows "\<exists>m' ra. addToCache k x r = Inr (r\<lparr>rt_cache := Some m', rt_random := ra\<rparr>) \<and> cache_fits S c (M(k \<mapsto> b)) m'"
proof (cases "CacheSizeLimit < length m")
  case True
  let ?m = "fst (removeRandom r m)" and ?ra = "\<lambda>n. rt_random r (Suc n)"
  have "cache_shows S c M ?m" using cache_fits_shows [OF m] by (simp add: removeRandom_def cache_shows_remove)
  moreover have "length ?m \<le> CacheSizeLimit" using length_removeRandom [of m r] m True by (fastforce simp: cache_fits_def)
  ultimately have "cache_fits S c (M(k \<mapsto> b)) (AList.update k x ?m)"
    using cache_shows_update [where m = ?m and M = M and S = S and c = c and k = k and x = x and b = b, OF _ k] by (simp add: cache_fits_def length_AList_update)
  moreover have "addToCache k x r = Inr (r\<lparr>rt_cache := Some (AList.update k x ?m), rt_random := ?ra\<rparr>)"
    using True by (simp add: addToCache_def r removeRandom_def)
  ultimately show ?thesis by blast
next
  case False
  have "r\<lparr>rt_cache := Some (AList.update k x m), rt_random := rt_random r\<rparr> = r\<lparr>rt_cache := Some (AList.update k x m)\<rparr>" by simp
  with cache_shows_update [where m = m and M = M and S = S and c = c and k = k and x = x and b = b, OF cache_fits_shows [OF m] k] False show ?thesis
    by (intro exI [of _ "AList.update k x m"] exI [of _ "rt_random r"]) (simp add: addToCache_def r cache_fits_def length_AList_update)
qed

text \<open>\<open>BeginWrite\<close> moves the buffer of objects into the cache.\<close>

lemma move_buffer_ok:
  assumes "rt_cache r = Some m" and "cache_fits S c M m" and "\<forall>kx \<in> set buf. c (fst kx) \<and> M (fst kx) \<noteq> None \<and> s_ToBytes S (snd kx) = M (fst kx)"
  shows "\<exists>m' ra. foldE (\<lambda>(k, x). addToCache k x) buf r = Inr (r\<lparr>rt_cache := Some m', rt_random := ra\<rparr>) \<and> cache_fits S c M m'"
  using assms
proof (induction buf arbitrary: r m)
  case Nil
  then have "r\<lparr>rt_cache := Some m, rt_random := rt_random r\<rparr> = r" by simp
  with Nil.prems(2) show ?case by (metis foldE.simps(1))
next
  case (Cons kx buf)
  obtain k x where kx: "kx = (k, x)" by fastforce
  from Cons.prems(3) obtain b where b: "c k" "M k = Some b" "s_ToBytes S x = Some b" by (auto simp: kx)
  from addToCache_ok [OF Cons.prems(1,2) b(1,3)] obtain m' ra where m': "addToCache k x r = Inr (r\<lparr>rt_cache := Some m', rt_random := ra\<rparr>)"
    "cache_fits S c (M(k \<mapsto> b)) m'" by blast
  let ?r = "r\<lparr>rt_cache := Some m', rt_random := ra\<rparr>"
  have "M(k \<mapsto> b) = M" using b(2) by (simp add: fun_upd_idem)
  then have "cache_fits S c M m'" using m'(2) by simp
  with Cons.IH [of ?r m'] Cons.prems(3) obtain m2 ra2 where
    "foldE (\<lambda>(k, x). addToCache k x) buf ?r = Inr (r\<lparr>rt_cache := Some m2, rt_random := ra2\<rparr>)" "cache_fits S c M m2" by auto
  with m'(1) show ?case by (intro exI [of _ m2] exI [of _ ra2]) (simp add: kx)
qed

lemma cache_shows_elements: "cache_shows S c M m \<Longrightarrow> \<forall>kx \<in> set m. c (fst kx) \<and> M (fst kx) \<noteq> None \<and> s_ToBytes S (snd kx) = M (fst kx)"
  unfolding cache_shows_def by (metis map_of_is_SomeI prod.collapse)

lemma cachedObj_eq:
  assumes "rt_cache r = Some m" and "rt_isCacheableKey r = Some c" and "cache_shows S c M m"
  shows "cachedObj k r = map_of m k"
proof (cases "map_of m k")
  case (Some x)
  then have "c k" using assms(3) by (simp add: cache_shows_def)
  with assms Some show ?thesis by (simp add: cachedObj_def cacheableKey_def)
qed (use assms in \<open>simp add: cachedObj_def cacheableKey_def\<close>)

section \<open>Writing a cache to the root store\<close>

text \<open>The operation of the OnvaKV store for an entry of the cache.\<close>

abbreviation entry_op :: "'o Serializable \<Rightarrow> bytes \<times> 'o Value \<Rightarrow> bytes \<times> bytes option" where
  "entry_op S kv \<equiv> (fst kv, val_bytes S (snd kv))"

lemma writeEntry_ok:
  assumes r: "rt_cache r = Some m" "rt_isCacheableKey r = Some c" and m: "cache_fits S c M m" and S: "serializable S"
    and v: "v \<noteq> NilValue" "\<not> IsDeleted v \<longrightarrow> val_bytes S v \<noteq> None" "\<not> IsDeleted v \<longrightarrow> storable k (the (val_bytes S v))"
    and st: "\<And>b. storable k b \<Longrightarrow> c k \<Longrightarrow> \<exists>y. s_ToBytes S y = Some b"
    and o1: "run_op (k, val_bytes S v) (rt_okv r) = Inr okv1"
  shows "\<exists>m' ra. writeEntry (RootI E I D S) k (GetObj v) (IsDeleted v) r = Inr (r\<lparr>rt_okv := okv1, rt_cache := Some m', rt_random := ra\<rparr>) \<and>
    cache_fits S c (M(k := val_bytes S v)) m'"
proof (cases v)
  case DeletedValue
  with r o1 cache_fits_delete [OF m, of k] show ?thesis
    by (auto simp: writeEntry_def RootI_def RootStore_Delete_def run_op_def val_bytes_def intro!: exI [of _ "AList.delete k m"] exI [of _ "rt_random r"])
next
  case (RawBytes bz)
  with v obtain b where b: "bz = Some b" "storable k b" by (auto simp: val_bytes_def)
  let ?r = "r\<lparr>rt_okv := okv1\<rparr>"
  have set1: "okv_Set k (Some b) (rt_okv r) = Inr okv1" using o1 by (simp add: run_op_def RawBytes b val_bytes_def)
  have co: "cachedObj k ?r = map_of m k" by (rule cachedObj_eq [OF _ _ cache_fits_shows [OF m]]) (use r in simp_all)
  show ?thesis
  proof (cases "map_of m k")
    case None
    with set1 co cache_fits_absent [OF m None] r show ?thesis
      by (auto simp: writeEntry_def RootI_def RootStore_Set_def RawBytes b GetObj_def val_bytes_def Let_def intro!: exI [of _ m] exI [of _ "rt_random r"])
  next
    case (Some x)
    then have ck: "c k" using cache_fits_shows [OF m] by (auto simp: cache_shows_def)
    from st [OF b(2) ck] serializableD(1) [OF S, of _ b x] have "s_ToBytes S (s_FromBytes S x (Some b)) = Some b" by blast
    from cache_fits_replace [OF m Some ck this] set1 co Some r show ?thesis
      by (auto simp: writeEntry_def RootI_def RootStore_Set_def RawBytes b GetObj_def val_bytes_def Let_def
          intro!: exI [of _ "AList.update k (s_FromBytes S x (Some b)) m"] exI [of _ "rt_random r"])
  qed
next
  case (Object x)
  with v obtain b where b: "s_ToBytes S x = Some b" by (auto simp: val_bytes_def)
  let ?r = "r\<lparr>rt_okv := okv1\<rparr>"
  have set1: "okv_Set k (s_ToBytes S x) (rt_okv r) = Inr okv1" using o1 by (simp add: run_op_def Object b val_bytes_def)
  show ?thesis
  proof (cases "c k")
    case True
    from addToCache_ok [of ?r m, OF _ m True b] r obtain m' ra where "addToCache k x ?r = Inr (?r\<lparr>rt_cache := Some m', rt_random := ra\<rparr>)"
      "cache_fits S c (M(k \<mapsto> b)) m'" by auto
    with set1 True r b show ?thesis
      by (auto simp: writeEntry_def RootI_def RootStore_SetObj_def Object GetObj_def val_bytes_def Let_def cacheableKey_def)
  next
    case False
    then have "map_of m k = None" using cache_fits_shows [OF m] by (cases "map_of m k") (simp_all add: cache_shows_def)
    with set1 False r b cache_fits_absent [OF m] show ?thesis
      by (auto simp: writeEntry_def RootI_def RootStore_SetObj_def Object GetObj_def val_bytes_def Let_def cacheableKey_def intro!: exI [of _ m] exI [of _ "rt_random r"])
  qed
qed (use v in simp)

lemma writeEntries_ok:
  assumes "rt_cache r = Some m" and "rt_isCacheableKey r = Some c" and "cache_fits S c M m" and S: "serializable S"
    and "\<forall>kv \<in> set cs. snd kv \<noteq> NilValue \<and> (\<not> IsDeleted (snd kv) \<longrightarrow> val_bytes S (snd kv) \<noteq> None \<and> storable (fst kv) (the (val_bytes S (snd kv))))"
    and st: "\<And>k b. storable k b \<Longrightarrow> c k \<Longrightarrow> \<exists>y. s_ToBytes S y = Some b"
    and "foldE run_op (map (entry_op S) cs) (rt_okv r) = Inr okv1"
  shows "\<exists>m' ra. ScanAllEntries (writeEntry (RootI E I D S)) cs r = Inr (r\<lparr>rt_okv := okv1, rt_cache := Some m', rt_random := ra\<rparr>) \<and>
    cache_fits S c (apply_ops (map (entry_op S) cs) M) m'"
  using assms(1-3,5,7)
proof (induction cs arbitrary: r m M)
  case Nil
  then show ?case by (auto simp: ScanAllEntries_def intro!: exI [of _ m] exI [of _ "rt_random r"])
next
  case (Cons kv cs)
  obtain k v where kv: "kv = (k, v)" by fastforce
  from Cons.prems(5) obtain okv2 where o: "run_op (k, val_bytes S v) (rt_okv r) = Inr okv2" "foldE run_op (map (entry_op S) cs) okv2 = Inr okv1"
    by (auto simp: kv bindE_eq_Inr)
  have v: "v \<noteq> NilValue" "\<not> IsDeleted v \<longrightarrow> val_bytes S v \<noteq> None" "\<not> IsDeleted v \<longrightarrow> storable k (the (val_bytes S v))"
    using Cons.prems(4) by (simp_all add: kv)
  from writeEntry_ok [where storable = storable and E = E and I = I and D = D, OF Cons.prems(1-3) S v st [of k] o(1)] obtain m1 ra1 where m1:
    "writeEntry (RootI E I D S) k (GetObj v) (IsDeleted v) r = Inr (r\<lparr>rt_okv := okv2, rt_cache := Some m1, rt_random := ra1\<rparr>)"
    "cache_fits S c (M(k := val_bytes S v)) m1" by blast
  let ?r = "r\<lparr>rt_okv := okv2, rt_cache := Some m1, rt_random := ra1\<rparr>"
  have "\<exists>m' ra. ScanAllEntries (writeEntry (RootI E I D S)) cs ?r = Inr (?r\<lparr>rt_okv := okv1, rt_cache := Some m', rt_random := ra\<rparr>) \<and>
      cache_fits S c (apply_ops (map (entry_op S) cs) (M(k := val_bytes S v))) m'"
    by (rule Cons.IH [OF _ _ m1(2)]) (use Cons.prems(2,4) o(2) in simp_all)
  then obtain m2 ra2 where "ScanAllEntries (writeEntry (RootI E I D S)) cs ?r = Inr (r\<lparr>rt_okv := okv1, rt_cache := Some m2, rt_random := ra2\<rparr>)"
    "cache_fits S c (apply_ops (map (entry_op S) cs) (M(k := val_bytes S v))) m2" by auto
  with m1(1) v(1) show ?case by (intro exI [of _ m2] exI [of _ ra2]) (simp add: ScanAllEntries_def kv)
qed

section \<open>The bound of the object cache\<close>

text \<open>Any sequence of calls of a root store, with arbitrary arguments and without any limit on the number of keys.\<close>

inductive root_calls :: "('e, 'it) engine \<Rightarrow> ('i, 'e) IndexTreeI \<Rightarrow> 'd DataTreeI \<Rightarrow> 'o Serializable \<Rightarrow> ('i, 'd, 'e, 'o) RootStore \<Rightarrow>
    ('i, 'd, 'e, 'o) RootStore \<Rightarrow> bool" for E I D S r0 where
  calls_none: "root_calls E I D S r0 r0"
| call_height: "root_calls E I D S r0 r \<Longrightarrow> root_calls E I D S r0 (RootStore_SetHeight h r)"
| call_read: "root_calls E I D S r0 r \<Longrightarrow> RootStore_GetReadOnlyObj I D S k ptr r = Inr (x, r') \<Longrightarrow> root_calls E I D S r0 r'"
| call_update: "root_calls E I D S r0 r \<Longrightarrow> RootStore_PrepareForUpdate I D k r = Inr r' \<Longrightarrow> root_calls E I D S r0 r'"
| call_deletion: "root_calls E I D S r0 r \<Longrightarrow> RootStore_PrepareForDeletion I D k r = Inr r' \<Longrightarrow> root_calls E I D S r0 r'"
| call_begin: "root_calls E I D S r0 r \<Longrightarrow> RootStore_BeginWrite I r = Inr r' \<Longrightarrow> root_calls E I D S r0 r'"
| call_set: "root_calls E I D S r0 r \<Longrightarrow> RootStore_Set S k v r = Inr r' \<Longrightarrow> root_calls E I D S r0 r'"
| call_setobj: "root_calls E I D S r0 r \<Longrightarrow> RootStore_SetObj S k x r = Inr r' \<Longrightarrow> root_calls E I D S r0 r'"
| call_delete: "root_calls E I D S r0 r \<Longrightarrow> RootStore_Delete k r = Inr r' \<Longrightarrow> root_calls E I D S r0 r'"
| call_end: "root_calls E I D S r0 r \<Longrightarrow> RootStore_EndWrite E I D r = okR r' \<Longrightarrow> root_calls E I D S r0 r'"

definition cache_bounded :: "('i, 'd, 'e, 'o) RootStore \<Rightarrow> bool" where
  "cache_bounded r \<longleftrightarrow> (\<forall>m. rt_cache r = Some m \<longrightarrow> length m \<le> CacheSizeLimit + 1)"

lemma cache_bounded_cong: "rt_cache r' = rt_cache r \<Longrightarrow> cache_bounded r' = cache_bounded r"
  by (simp add: cache_bounded_def)

lemma cache_bounded_okv [simp]: "cache_bounded (r\<lparr>rt_okv := okv\<rparr>) = cache_bounded r"
  by (simp add: cache_bounded_def)

lemma addToCache_bounded:
  assumes "addToCache k x r = Inr r'" and "cache_bounded r"
  shows "cache_bounded r'"
proof -
  from assms(1) obtain m where m: "rt_cache r = Some m" by (auto simp: addToCache_def deref_def split: option.splits)
  show ?thesis
  proof (cases "CacheSizeLimit < length m")
    case True
    then have "length (fst (removeRandom r m)) \<le> CacheSizeLimit" using length_removeRandom [of m r] assms(2) m by (fastforce simp: cache_bounded_def)
    with assms(1) m True show ?thesis by (auto simp: addToCache_def cache_bounded_def length_AList_update removeRandom_def)
  qed (use assms(1) m in \<open>auto simp: addToCache_def cache_bounded_def length_AList_update\<close>)
qed

lemma RootStore_Set_bounded:
  assumes "RootStore_Set S k v r = Inr r'" and "cache_bounded r"
  shows "cache_bounded r'"
proof -
  have same: "cachedObj k (r\<lparr>rt_okv := okv\<rparr>) = cachedObj k r" for okv by (simp add: cachedObj_def cacheableKey_def)
  show ?thesis
  proof (cases "cachedObj k r")
    case None
    with assms same show ?thesis by (auto simp: RootStore_Set_def Let_def cache_bounded_def outcome_simps)
  next
    case (Some x)
    then obtain m where m: "rt_cache r = Some m" "map_of m k = Some x" by (auto simp: cachedObj_def split: if_splits option.splits)
    then have "k \<in> fst ` set m" by (metis map_of_eq_None_iff option.distinct(1))
    then have "length (AList.update k y m) = length m" for y by (simp add: length_AList_update)
    with assms same m Some show ?thesis by (auto simp: RootStore_Set_def Let_def cache_bounded_def outcome_simps)
  qed
qed

lemma RootStore_GetReadOnlyObj_cache:
  assumes "RootStore_GetReadOnlyObj I D S k ptr r = Inr (x, r')"
  shows "rt_cache r' = rt_cache r"
proof (cases "cachedObj k r")
  case None
  show ?thesis
  proof (cases "RootStore_get I D k r")
    case (Inr bz)
    with assms None show ?thesis
      by (cases "bz = None"; cases "readInto S ptr bz"; cases "deref (rt_isCacheableKey r)")
        (simp_all add: RootStore_GetReadOnlyObj_def, auto simp: outcome_simps split: if_splits)
  qed (use assms None in \<open>simp add: RootStore_GetReadOnlyObj_def\<close>)
qed (use assms in \<open>simp add: RootStore_GetReadOnlyObj_def\<close>)

lemma RootStore_Delete_bounded:
  assumes "RootStore_Delete k r = Inr r'" and "cache_bounded r"
  shows "cache_bounded r'"
proof -
  from assms(1) have "rt_cache r' = map_option (AList.delete k) (rt_cache r)" by (auto simp: RootStore_Delete_def outcome_simps)
  then show ?thesis using assms(2) length_delete_le [of k] by (cases "rt_cache r") (auto simp: cache_bounded_def intro: le_trans)
qed

lemma root_calls_bounded: "root_calls E I D S r0 r \<Longrightarrow> cache_bounded r0 \<Longrightarrow> cache_bounded r"
proof (induction rule: root_calls.induct)
  case (call_read r k ptr x r')
  then show ?case using cache_bounded_cong [OF RootStore_GetReadOnlyObj_cache] by blast
next
  case (call_begin r r')
  then obtain okv buf r1 where o: "foldE (\<lambda>(key, value). addToCache key value) buf (r\<lparr>rt_okv := okv\<rparr>) = Inr r1" "r' = r1\<lparr>rt_cacheBuf := None\<rparr>"
    by (auto simp: RootStore_BeginWrite_def outcome_simps split: if_splits)
  have "cache_bounded (r\<lparr>rt_okv := okv\<rparr>)" using call_begin.IH call_begin.prems by simp
  then have "cache_bounded r1" by (rule foldE_invariant [OF o(1)]) (auto dest: addToCache_bounded)
  then show ?case by (simp add: o(2) cache_bounded_def)
next
  case (call_set r k v r')
  then show ?case by (blast intro: RootStore_Set_bounded)
next
  case (call_setobj r k x r')
  then show ?case
    by (auto simp: RootStore_SetObj_def Let_def outcome_simps split: if_splits dest!: addToCache_bounded)
next
  case (call_delete r k r')
  then show ?case by (blast intro: RootStore_Delete_bounded)
next
  case (call_end r r')
  then have "rt_cache r' = rt_cache r"
    by (cases "okv_EndWrite E I D (rt_okv r)") (auto simp: RootStore_EndWrite_def bindR_def okR_def split: sum.splits)
  with call_end.IH call_end.prems show ?case using cache_bounded_cong by blast
next
  case (call_update r k r')
  then have "\<exists>okv. r' = r\<lparr>rt_okv := okv\<rparr>" by (auto simp: RootStore_PrepareForUpdate_def outcome_simps)
  with call_update.IH call_update.prems show ?case by auto
next
  case (call_deletion r k r')
  then have "\<exists>okv. r' = r\<lparr>rt_okv := okv\<rparr>" by (auto simp: RootStore_PrepareForDeletion_def outcome_simps)
  with call_deletion.IH call_deletion.prems show ?case by auto
next
  case (call_height r h)
  have "rt_cache (RootStore_SetHeight h r) = rt_cache r" by (simp add: RootStore_SetHeight_def)
  with call_height.IH call_height.prems show ?case using cache_bounded_cong by blast
qed

section \<open>The invariant of the root store\<close>

text \<open>
  \<open>ps\<close> was prepared on a store between blocks, the objects in the cache and in the buffer agree with the
  store, and so do the values that may become objects.
\<close>

definition root_inv :: "(nat \<Rightarrow> (bytes \<Rightarrow> Entry) \<Rightarrow> ('i, 'd, 'e) OnvaKV \<Rightarrow> bool) \<Rightarrow> ('i, 'e) IndexTreeI \<Rightarrow> 'd DataTreeI \<Rightarrow> 'o Serializable \<Rightarrow>
    (bytes \<Rightarrow> bool) \<Rightarrow> prepare list \<Rightarrow> ('i, 'd, 'e, 'o) RootStore \<Rightarrow> bool" where
  "root_inv sok I D S c ps r \<longleftrightarrow>
     (\<exists>okv n ent he nk. sok n ent okv \<and> foldE (run_prepare I D) ps okv = Inr (rt_okv r) \<and> rt_okv r = okv\<lparr>k2heMap := he, k2nkMap := nk\<rparr>) \<and>
     rt_isCacheableKey r = Some c \<and> decodable S c (root_view I D r) \<and>
     (\<exists>m b. rt_cache r = Some m \<and> rt_cacheBuf r = Some b \<and> cache_fits S c (root_view I D r) m \<and> cache_shows S c (root_view I D r) b)"

definition root_allowed :: "('i, 'e) IndexTreeI \<Rightarrow> ('i, 'd, 'e, 'o) RootStore \<Rightarrow> prepare list \<Rightarrow> bool" where
  "root_allowed I r ps \<longleftrightarrow> 0 \<le> rt_height r \<and> in_int64 (rt_height r) \<and> block_room I (rt_okv r) ps \<and>
     (\<forall>p \<in> set ps. startKey (rt_okv r) < prepare_key p \<and> prepare_key p < endKey (rt_okv r) \<and> length (prepare_key p) \<le> maxString)"

definition root_storable :: "'o Serializable \<Rightarrow> (bytes \<Rightarrow> bool) \<Rightarrow> bytes \<Rightarrow> bytes \<Rightarrow> bool" where
  "root_storable S c k b \<longleftrightarrow> length b \<le> maxString \<and> (c k \<longrightarrow> (\<exists>y. s_ToBytes S y = Some b))"

lemma root_allowed_fewer: "root_allowed I r qs \<Longrightarrow> length ps \<le> length qs \<Longrightarrow> set ps \<subseteq> set qs \<Longrightarrow> root_allowed I r ps"
  by (auto simp: root_allowed_def block_room_def)

lemma root_allowed_cong:
  assumes "rt_height r' = rt_height r" and "idxTree (rt_okv r') = idxTree (rt_okv r)" and "meta (rt_okv r') = meta (rt_okv r)"
    and "startKey (rt_okv r') = startKey (rt_okv r)" and "endKey (rt_okv r') = endKey (rt_okv r)"
  shows "root_allowed I r' = root_allowed I r"
  using assms by (simp add: root_allowed_def block_room_def fun_eq_iff)

lemma root_view_cong: "idxTree (rt_okv r') = idxTree (rt_okv r) \<Longrightarrow> datTree (rt_okv r') = datTree (rt_okv r) \<Longrightarrow> root_view I D r' = root_view I D r"
  by (simp add: root_view_def GetEntry_def fun_eq_iff cong: option.case_cong)

text \<open>The items of the index with their values.\<close>

definition root_item :: "('i, 'e) IndexTreeI \<Rightarrow> 'd DataTreeI \<Rightarrow> 'o Serializable \<Rightarrow> ('i, 'd, 'e, 'o) RootStore \<Rightarrow> bytes \<times> nat \<Rightarrow> 'o item" where
  "root_item I D S r x = (fst x, root_view I D r (fst x), RootIterator_ObjValue S r (fst x) (Inr (root_view I D r (fst x))))"

definition readable :: "('i \<Rightarrow> BTree) \<Rightarrow> (bool \<Rightarrow> 'i \<Rightarrow> bool) \<Rightarrow> ('i, 'e) IndexTreeI \<Rightarrow> 'd DataTreeI \<Rightarrow> ('i, 'd, 'e, 'o) RootStore \<Rightarrow> bool" where
  "readable items writing I D r \<longleftrightarrow> writing False (idxTree (rt_okv r)) \<and> bt_inv (items (idxTree (rt_okv r))) \<and>
     (\<forall>x \<in> set (items (idxTree (rt_okv r))). \<exists>e. okv_ReadEntry D (snd x) (rt_okv r) = Inr e \<and> Value e = root_view I D r (fst x))"

definition rf_inv :: "('i \<Rightarrow> ForwardIter \<Rightarrow> BTree \<Rightarrow> bool) \<Rightarrow> ('i \<Rightarrow> BTree) \<Rightarrow> (bool \<Rightarrow> 'i \<Rightarrow> bool) \<Rightarrow> ('i, 'e) IndexTreeI \<Rightarrow> 'd DataTreeI \<Rightarrow>
    ('i, 'd, 'e, 'o) RootForward \<Rightarrow> bool" where
  "rf_inv forward items writing I D i \<longleftrightarrow> readable items writing I D (rf_root i) \<and>
     (\<exists>R. forward (idxTree (rt_okv (rf_root i))) (rf_iter i) R \<and> set R \<subseteq> set (items (idxTree (rt_okv (rf_root i)))))"

definition rf_rest :: "('i \<Rightarrow> ForwardIter \<Rightarrow> BTree \<Rightarrow> bool) \<Rightarrow> ('i, 'e) IndexTreeI \<Rightarrow> 'd DataTreeI \<Rightarrow> 'o Serializable \<Rightarrow>
    ('i, 'd, 'e, 'o) RootForward \<Rightarrow> 'o item list" where
  "rf_rest forward I D S i = map (root_item I D S (rf_root i)) (THE R. forward (idxTree (rt_okv (rf_root i))) (rf_iter i) R)"

definition rb_inv :: "('i \<Rightarrow> BackwardIter \<Rightarrow> BTree \<Rightarrow> bool) \<Rightarrow> ('i \<Rightarrow> BTree) \<Rightarrow> (bool \<Rightarrow> 'i \<Rightarrow> bool) \<Rightarrow> ('i, 'e) IndexTreeI \<Rightarrow> 'd DataTreeI \<Rightarrow>
    ('i, 'd, 'e, 'o) RootBackward \<Rightarrow> bool" where
  "rb_inv backward items writing I D i \<longleftrightarrow> readable items writing I D (rb_root i) \<and>
     (\<exists>R. backward (idxTree (rt_okv (rb_root i))) (rb_iter i) R \<and> set R \<subseteq> set (items (idxTree (rt_okv (rb_root i)))))"

definition rb_rest :: "('i \<Rightarrow> BackwardIter \<Rightarrow> BTree \<Rightarrow> bool) \<Rightarrow> ('i, 'e) IndexTreeI \<Rightarrow> 'd DataTreeI \<Rightarrow> 'o Serializable \<Rightarrow>
    ('i, 'd, 'e, 'o) RootBackward \<Rightarrow> 'o item list" where
  "rb_rest backward I D S i = map (root_item I D S (rb_root i)) (THE R. backward (idxTree (rt_okv (rb_root i))) (rb_iter i) R)"

context index_tree
begin

text \<open>An iterator has one list of items in front of it.\<close>

lemma forward_unique: "writing False i \<Longrightarrow> forward i it R \<Longrightarrow> forward i it R' \<Longrightarrow> R' = R"
proof (induction R arbitrary: it R')
  case Nil
  with forward_end [of i it] forward_next [of i it] show ?case by (cases R') blast+
next
  case (Cons x R)
  from forward_next [OF Cons.prems(1,2)] obtain a where a: "ForwardIter_Valid it" "f_key it = fst x" "f_value it = snd x"
    "ix_NextForward I i it = Inr a" "forward i a R" by blast
  with forward_end [of i it] Cons.prems(3) obtain y R'' where R': "R' = y # R''" by (cases R') auto
  from forward_next [OF Cons.prems(1) Cons.prems(3) [unfolded R']] a(2-4) have "fst y = fst x" "snd y = snd x" "forward i a R''" by auto
  with Cons.IH [OF Cons.prems(1) a(5)] show ?case by (simp add: R' prod_eq_iff)
qed

lemma backward_unique: "writing False i \<Longrightarrow> backward i it R \<Longrightarrow> backward i it R' \<Longrightarrow> R' = R"
proof (induction R arbitrary: it R')
  case Nil
  with backward_end [of i it] backward_next [of i it] show ?case by (cases R') blast+
next
  case (Cons x R)
  from backward_next [OF Cons.prems(1,2)] obtain a where a: "BackwardIter_Valid it" "b_key it = fst x" "b_value it = snd x"
    "ix_NextBackward I i it = Inr a" "backward i a R" by blast
  with backward_end [of i it] Cons.prems(3) obtain y R'' where R': "R' = y # R''" by (cases R') auto
  from backward_next [OF Cons.prems(1) Cons.prems(3) [unfolded R']] a(2-4) have "fst y = fst x" "snd y = snd x" "backward i a R''" by auto
  with Cons.IH [OF Cons.prems(1) a(5)] show ?case by (simp add: R' prod_eq_iff)
qed

lemma rf_rest_eq:
  assumes "writing False (idxTree (rt_okv (rf_root i)))" and "forward (idxTree (rt_okv (rf_root i))) (rf_iter i) R"
  shows "rf_rest forward I D S i = map (root_item I D S (rf_root i)) R"
proof -
  have "(THE R. forward (idxTree (rt_okv (rf_root i))) (rf_iter i) R) = R"
    by (rule the_equality [where P = "forward (idxTree (rt_okv (rf_root i))) (rf_iter i)"]) (use assms forward_unique in blast)+
  then show ?thesis by (simp add: rf_rest_def)
qed

lemma rb_rest_eq:
  assumes "writing False (idxTree (rt_okv (rb_root i)))" and "backward (idxTree (rt_okv (rb_root i))) (rb_iter i) R"
  shows "rb_rest backward I D S i = map (root_item I D S (rb_root i)) R"
proof -
  have "(THE R. backward (idxTree (rt_okv (rb_root i))) (rb_iter i) R) = R"
    by (rule the_equality [where P = "backward (idxTree (rt_okv (rb_root i))) (rb_iter i)"]) (use assms backward_unique in blast)+
  then show ?thesis by (simp add: rb_rest_def)
qed

end

context store
begin

text \<open>A store with prepared keys shows the abstract map, and every item of its index can be read.\<close>

lemma root_view_ok:
  assumes "sok n ent okv" and "rt_okv r = okv\<lparr>k2heMap := he, k2nkMap := nk\<rparr>"
  shows "root_view I D r = value_map (index_keys items okv) ent" "GetEntry I D k (rt_okv r) = Inr (if k \<in> index_keys items okv then Some (ent k) else None)"
    "k \<in> index_keys items okv \<Longrightarrow> root_view I D r k \<noteq> None"
    "readable items writing I D r"
proof -
  note S = sokD [OF assms(1)]
  have get: "GetEntry I D k (rt_okv r) = Inr (if k \<in> index_keys items okv then Some (ent k) else None)" for k
    using GetEntry_ok [OF assms(1), of k] by (simp add: assms(2) GetEntry_def cong: option.case_cong)
  then show "GetEntry I D k (rt_okv r) = Inr (if k \<in> index_keys items okv then Some (ent k) else None)" .
  show v: "root_view I D r = value_map (index_keys items okv) ent"
    by (simp add: root_view_def get value_map_def fun_eq_iff)
  show "k \<in> index_keys items okv \<Longrightarrow> root_view I D r k \<noteq> None"
    using linked_keysD(8) [OF S(2), of k] by (auto simp: v value_map_def small_entry_def)
  have bt: "bt_inv (items (idxTree okv))" "writing False (idxTree okv)" using S(1) by (simp_all add: read_ok_def)
  have "\<exists>e. okv_ReadEntry D (snd x) (rt_okv r) = Inr e \<and> Value e = root_view I D r (fst x)" if "x \<in> set (items (idxTree okv))" for x
  proof -
    have "bt_Get (fst x) (items (idxTree okv)) = Some (snd x)" using bt.get_items [OF bt(1)] bt.distinct_keys [OF bt(1)] that by simp
    with read_item [OF S(1) this] v show ?thesis by (auto simp: okv_ReadEntry_def assms(2) value_map_def)
  qed
  with bt show "readable items writing I D r" by (simp add: readable_def assms(2))
qed

lemma root_invE:
  assumes "root_inv sok I D S c ps r"
  obtains okv n ent he nk m b where "sok n ent okv" "foldE (run_prepare I D) ps okv = Inr (rt_okv r)" "rt_okv r = okv\<lparr>k2heMap := he, k2nkMap := nk\<rparr>"
    "rt_isCacheableKey r = Some c" "rt_cache r = Some m" "rt_cacheBuf r = Some b" "decodable S c (root_view I D r)"
    "cache_fits S c (root_view I D r) m" "cache_shows S c (root_view I D r) m" "cache_shows S c (root_view I D r) b"
  using assms cache_fits_shows unfolding root_inv_def by blast

text \<open>Reads.\<close>

lemma RootStore_get_ok:
  assumes "root_inv sok I D S c ps r"
  shows "RootStore_get I D k r = Inr (root_view I D r k)" "RootStore_Get I D S k r = Inr (root_view I D r k)"
    "RootStore_Has I D k r = Inr (root_view I D r k \<noteq> None)"
proof -
  from assms obtain okv n ent he nk m b where r: "sok n ent okv" "rt_okv r = okv\<lparr>k2heMap := he, k2nkMap := nk\<rparr>"
    "rt_isCacheableKey r = Some c" "rt_cache r = Some m" "cache_shows S c (root_view I D r) m" by (rule root_invE)
  note v = root_view_ok(1-3) [OF r(1,2)]
  show get: "RootStore_get I D k r = Inr (root_view I D r k)" using v(2) [of k] by (auto simp: RootStore_get_def v(1) value_map_def)
  show "RootStore_Has I D k r = Inr (root_view I D r k \<noteq> None)" using v(2) [of k] v(3) [of k] by (auto simp: RootStore_Has_def v(1) value_map_def)
  show "RootStore_Get I D S k r = Inr (root_view I D r k)"
    using get cachedObj_eq [OF r(4,3,5), of k] r(5) by (auto simp: RootStore_Get_def cache_shows_def split: option.split)
qed

lemma RootStore_GetObjCopy_ok:
  assumes inv: "root_inv sok I D S c ps r" and S: "serializable S"
  shows "\<exists>q. RootStore_GetObjCopy I D S k (Some x) r = Inr q \<and> obj_shows S x q (root_view I D r k)"
proof -
  from inv obtain m where r: "rt_isCacheableKey r = Some c" "rt_cache r = Some m" "cache_shows S c (root_view I D r) m" by (rule root_invE)
  show ?thesis
  proof (cases "map_of m k")
    case None
    with cachedObj_eq [OF r(2,1,3), of k] RootStore_get_ok(1) [OF inv, of k] show ?thesis
      by (cases "root_view I D r k") (simp_all add: RootStore_GetObjCopy_def readInto_def obj_shows_def)
  next
    case (Some y)
    with cached_shows [OF r(3) Some] cachedObj_eq [OF r(2,1,3), of k] serializableD(2) [OF S] show ?thesis
      by (auto simp: RootStore_GetObjCopy_def obj_shows_def)
  qed
qed

lemma RootStore_GetReadOnlyObj_ok:
  assumes inv: "root_inv sok I D S c ps r" and S: "serializable S"
  shows "\<exists>q r'. RootStore_GetReadOnlyObj I D S k (Some x) r = Inr (q, r') \<and> obj_shows S x q (root_view I D r k) \<and>
    root_inv sok I D S c ps r' \<and> root_view I D r' = root_view I D r \<and> root_allowed I r' = root_allowed I r"
proof -
  from inv obtain m b where r: "rt_isCacheableKey r = Some c" "rt_cache r = Some m" "cache_shows S c (root_view I D r) m"
    "rt_cacheBuf r = Some b" "decodable S c (root_view I D r)" "cache_shows S c (root_view I D r) b" by (rule root_invE)
  note co = cachedObj_eq [OF r(2,1,3), of k] and get = RootStore_get_ok(1) [OF inv, of k]
  consider (hit) y where "map_of m k = Some y" | (none) "map_of m k = None" "root_view I D r k = None"
    | (plain) bz where "map_of m k = None" "root_view I D r k = Some bz" "\<not> c k"
    | (new) bz where "map_of m k = None" "root_view I D r k = Some bz" "c k" by (cases "map_of m k"; cases "root_view I D r k") auto
  then show ?thesis
  proof cases
    case hit
    with cached_shows [OF r(3) hit] co inv show ?thesis by (auto simp: RootStore_GetReadOnlyObj_def obj_shows_def)
  next
    case none
    with co get inv show ?thesis by (auto simp: RootStore_GetReadOnlyObj_def obj_shows_def)
  next
    case plain
    with co get inv r(1) show ?thesis by (auto simp: RootStore_GetReadOnlyObj_def obj_shows_def readInto_def)
  next
    case new
    let ?y = "s_FromBytes S x (Some bz)"
    let ?r = "r\<lparr>rt_cacheBuf := Some (AList.update k ?y b)\<rparr>"
    from r(5) new obtain z where "s_ToBytes S z = Some bz" by (auto simp: decodable_def)
    from serializableD(1) [OF S this] have y: "s_ToBytes S ?y = Some bz" .
    have "(root_view I D r)(k \<mapsto> bz) = root_view I D r" using new by (simp add: fun_upd_idem)
    with cache_shows_update [OF r(6) new(3) y] have "cache_shows S c (root_view I D r) (AList.update k ?y b)" by simp
    moreover have "root_view I D ?r = root_view I D r" by (rule root_view_cong) simp_all
    moreover have "root_allowed I ?r = root_allowed I r" by (rule root_allowed_cong) simp_all
    ultimately have "root_inv sok I D S c ps ?r" "root_view I D ?r = root_view I D r" "root_allowed I ?r = root_allowed I r"
      using inv unfolding root_inv_def by auto
    with new co get r(1,4) show ?thesis by (auto simp: RootStore_GetReadOnlyObj_def obj_shows_def readInto_def)
  qed
qed

end

section \<open>The iterators of the root store\<close>

lemma bindE_pair: "bindE x (\<lambda>y. Inr (y, i)) = Inr z \<longleftrightarrow> (\<exists>y. x = Inr y \<and> z = (y, i))" "bindE x (\<lambda>y. Inr (y, i)) = Inl e \<longleftrightarrow> x = Inl e"
  by (cases x; auto)+

context index_tree
begin

lemma root_forward:
  fixes D :: "'d DataTreeI" and S :: "'o Serializable"
  shows "obj_iterator (RootForwardI I D S) (rf_inv forward items writing I D) (rf_rest forward I D S)"
proof
  fix i :: "('i, 'd, 'e, 'o) RootForward" and x xs p
  let ?t = "idxTree (rt_okv (rf_root i))" and ?inv = "rf_inv forward items writing I D" and ?rest = "rf_rest forward I D S"
  assume inv: "?inv i"
  then obtain R where R: "writing False ?t" "readable items writing I D (rf_root i)" "forward ?t (rf_iter i) R" "set R \<subseteq> set (items ?t)"
    by (auto simp: rf_inv_def readable_def)
  note rest = rf_rest_eq [OF R(1,3), of D S]
  have "R = [] \<longleftrightarrow> \<not> ForwardIter_Valid (rf_iter i)"
    using R(3) forward_end [of ?t "rf_iter i"] forward_next [OF R(1), of "rf_iter i"] by (cases R) auto
  then show "\<exists>i'. oi_Valid (RootForwardI I D S) i = okR (?rest i \<noteq> [], i') \<and> ?inv i' \<and> ?rest i' = ?rest i"
    using inv rest by (simp add: RootForwardI_def)
  assume "?rest i = x # xs"
  then obtain a R' where R': "R = a # R'" "x = root_item I D S (rf_root i) a" "xs = map (root_item I D S (rf_root i)) R'"
    unfolding rest by auto
  from forward_next [OF R(1) R(3) [unfolded R'(1)]] obtain j where j: "ForwardIter_Valid (rf_iter i)" "f_key (rf_iter i) = fst a"
    "f_value (rf_iter i) = snd a" "ix_NextForward I ?t (rf_iter i) = Inr j" "forward ?t j R'" by blast
  have val: "RootForward_Value D i = Inr (root_view I D (rf_root i) (fst a))"
    using R(2,4) j(1,3) by (auto simp: RootForward_Value_def OnvaIterator_Value_def readable_def R'(1))
  have "?inv (i\<lparr>rf_iter := j\<rparr>)" using R(2,4) j(5) by (auto simp: rf_inv_def R'(1))
  moreover have "?rest (i\<lparr>rf_iter := j\<rparr>) = xs" using rf_rest_eq [of "i\<lparr>rf_iter := j\<rparr>" R' D S] R(1) j(5) R'(3) by simp
  ultimately show "\<exists>i'. oi_Next (RootForwardI I D S) i = okR i' \<and> ?inv i' \<and> ?rest i' = xs"
    using j(4) by (intro exI [of _ "i\<lparr>rf_iter := j\<rparr>"]) (simp add: RootForwardI_def okR_def)
  show "\<exists>i'. oi_Key (RootForwardI I D S) i = okR (item_key x, i') \<and> ?inv i' \<and> ?rest i' = ?rest i"
    using inv j(2) R'(2) by (simp add: RootForwardI_def root_item_def)
  show "\<exists>i'. oi_Value (RootForwardI I D S) i = okR (item_value x, i') \<and> ?inv i' \<and> ?rest i' = ?rest i"
    using inv val R'(2) by (simp add: RootForwardI_def root_item_def okR_def)
  have obj: "oi_ObjValue (RootForwardI I D S) p i = Some (bindE (item_read x p) (\<lambda>q. Inr (q, i)))"
    using val j(2) R'(2) by (simp add: RootForwardI_def root_item_def)
  show "(\<exists>e. item_read x p = Inl e \<and> oi_ObjValue (RootForwardI I D S) p i = Some (Inl e)) \<or>
      (\<exists>q i'. item_read x p = Inr q \<and> oi_ObjValue (RootForwardI I D S) p i = okR (q, i') \<and> ?inv i' \<and> ?rest i' = ?rest i)"
    unfolding obj using inv by (cases "item_read x p") (simp_all add: okR_def)
qed

lemma root_backward:
  fixes D :: "'d DataTreeI" and S :: "'o Serializable"
  shows "obj_iterator (RootBackwardI I D S) (rb_inv backward items writing I D) (rb_rest backward I D S)"
proof
  fix i :: "('i, 'd, 'e, 'o) RootBackward" and x xs p
  let ?t = "idxTree (rt_okv (rb_root i))" and ?inv = "rb_inv backward items writing I D" and ?rest = "rb_rest backward I D S"
  assume inv: "?inv i"
  then obtain R where R: "writing False ?t" "readable items writing I D (rb_root i)" "backward ?t (rb_iter i) R" "set R \<subseteq> set (items ?t)"
    by (auto simp: rb_inv_def readable_def)
  note rest = rb_rest_eq [OF R(1,3), of D S]
  have "R = [] \<longleftrightarrow> \<not> BackwardIter_Valid (rb_iter i)"
    using R(3) backward_end [of ?t "rb_iter i"] backward_next [OF R(1), of "rb_iter i"] by (cases R) auto
  then show "\<exists>i'. oi_Valid (RootBackwardI I D S) i = okR (?rest i \<noteq> [], i') \<and> ?inv i' \<and> ?rest i' = ?rest i"
    using inv rest by (simp add: RootBackwardI_def)
  assume "?rest i = x # xs"
  then obtain a R' where R': "R = a # R'" "x = root_item I D S (rb_root i) a" "xs = map (root_item I D S (rb_root i)) R'"
    unfolding rest by auto
  from backward_next [OF R(1) R(3) [unfolded R'(1)]] obtain j where j: "BackwardIter_Valid (rb_iter i)" "b_key (rb_iter i) = fst a"
    "b_value (rb_iter i) = snd a" "ix_NextBackward I ?t (rb_iter i) = Inr j" "backward ?t j R'" by blast
  have val: "RootBackward_Value D i = Inr (root_view I D (rb_root i) (fst a))"
    using R(2,4) j(1,3) by (auto simp: RootBackward_Value_def OnvaIterator_Value_def readable_def R'(1))
  have "?inv (i\<lparr>rb_iter := j\<rparr>)" using R(2,4) j(5) by (auto simp: rb_inv_def R'(1))
  moreover have "?rest (i\<lparr>rb_iter := j\<rparr>) = xs" using rb_rest_eq [of "i\<lparr>rb_iter := j\<rparr>" R' D S] R(1) j(5) R'(3) by simp
  ultimately show "\<exists>i'. oi_Next (RootBackwardI I D S) i = okR i' \<and> ?inv i' \<and> ?rest i' = xs"
    using j(4) by (intro exI [of _ "i\<lparr>rb_iter := j\<rparr>"]) (simp add: RootBackwardI_def okR_def)
  show "\<exists>i'. oi_Key (RootBackwardI I D S) i = okR (item_key x, i') \<and> ?inv i' \<and> ?rest i' = ?rest i"
    using inv j(2) R'(2) by (simp add: RootBackwardI_def root_item_def)
  show "\<exists>i'. oi_Value (RootBackwardI I D S) i = okR (item_value x, i') \<and> ?inv i' \<and> ?rest i' = ?rest i"
    using inv val R'(2) by (simp add: RootBackwardI_def root_item_def okR_def)
  have obj: "oi_ObjValue (RootBackwardI I D S) p i = Some (bindE (item_read x p) (\<lambda>q. Inr (q, i)))"
    using val j(2) R'(2) by (simp add: RootBackwardI_def root_item_def)
  show "(\<exists>e. item_read x p = Inl e \<and> oi_ObjValue (RootBackwardI I D S) p i = Some (Inl e)) \<or>
      (\<exists>q i'. item_read x p = Inr q \<and> oi_ObjValue (RootBackwardI I D S) p i = okR (q, i') \<and> ?inv i' \<and> ?rest i' = ?rest i)"
    unfolding obj using inv by (cases "item_read x p") (simp_all add: okR_def)
qed

end

text \<open>The items in a range enumerate the map that the store shows there.\<close>

lemma root_items_enumerate:
  assumes bt: "bt_inv t" and dom: "\<And>k. bt_Get k t = None \<longleftrightarrow> root_view I D r k = None"
  shows "enumerates asc s e (root_view I D r)
    (map (root_item I D S r) (if asc then filter (in_range s e) t else rev (filter (in_range s e) t)))" (is "enumerates _ _ _ _ (map ?f ?xs)")
proof -
  have keys: "map fst (map ?f ys) = map fst ys" for ys by (simp add: root_item_def)
  let ?ks = "map fst (filter (in_range s e) t)"
  have srt: "sorted_wrt (<) ?ks" using bt filter_keys_sorted by (auto simp: bt_inv_def)
  have "map fst (map ?f ?xs) = (if asc then ?ks else rev ?ks)" unfolding keys by (simp add: rev_map)
  then have sorted: "keys_sorted asc (map ?f ?xs)" using srt by (simp add: mi_less_def [abs_def] sorted_wrt_rev)
  have mem: "k \<in> fst ` set ?xs \<longleftrightarrow> s \<le> k \<and> k < e \<and> root_view I D r k \<noteq> None" for k
  proof -
    have "k \<in> fst ` set t \<longleftrightarrow> bt_Get k t \<noteq> None" by (simp add: bt_Get_def map_of_eq_None_iff)
    moreover have "k \<in> fst ` set ?xs \<longleftrightarrow> s \<le> k \<and> k < e \<and> k \<in> fst ` set t" by force
    ultimately show ?thesis using dom [of k] by simp
  qed
  have "item_value y \<noteq> None" if y: "y \<in> set (map ?f ?xs)" for y
  proof -
    from y obtain x where "x \<in> set ?xs" "y = ?f x" by auto
    with mem [of "fst x"] show ?thesis by (simp add: root_item_def)
  qed
  then have vals: "None \<notin> item_value ` set (map ?f ?xs)" by force
  have "map_of (map ?f ys) k = (if k \<in> fst ` set ys then Some (snd (?f (k, undefined))) else None)" for ys k
    by (induction ys) (auto simp: root_item_def)
  then have "item_map (map ?f ?xs) k = range_map s e (root_view I D r) k" for k
    using mem [of k] by (auto simp: item_map_def range_map_def root_item_def simp del: set_map)
  then show ?thesis using sorted vals by (simp add: enumerates_def fun_eq_iff)
qed

section \<open>Blocks of the root store\<close>

lemma okv_update_maps [simp]: "okv\<lparr>k2heMap := he, k2nkMap := nk\<rparr>\<lparr>k2heMap := he', k2nkMap := nk'\<rparr> = okv\<lparr>k2heMap := he', k2nkMap := nk'\<rparr>"
  by simp

text \<open>The operations of a cache that is written.\<close>

lemma apply_cache_ops:
  assumes "cache_ok cs"
  shows "apply_ops (map (entry_op S) cs) M = cache_over S cs M"
proof
  fix k
  have "distinct (map fst (map (entry_op S) cs))" using assms by (simp add: cache_ok_def bt_inv_def strict_sorted_iff comp_def)
  moreover have "map_of (map (entry_op S) cs) k = map_option (val_bytes S) (bt_Get k cs)"
    unfolding bt_Get_def by (induction cs) auto
  ultimately show "apply_ops (map (entry_op S) cs) M k = cache_over S cs M k"
    by (simp add: apply_ops_map_of cache_over_def split: option.split)
qed

lemma cache_block_pre:
  assumes cs: "writable (root_storable S c) S ps cs"
    and ps: "\<forall>p \<in> set ps. s < prepare_key p \<and> prepare_key p < e \<and> length (prepare_key p) \<le> maxString"
  shows "block_pre maxString s e ps (map (entry_op S) cs)"
proof -
  have pr: "proper S cs" and all: "\<forall>kv \<in> set cs. prepared (root_storable S c) S ps kv" using cs by (simp_all add: writable_def)
  have "distinct (map fst (map (entry_op S) cs))" using pr by (simp add: proper_def cache_ok_def bt_inv_def strict_sorted_iff comp_def)
  moreover have "case val_bytes S (snd kv) of Some b \<Rightarrow> ForUpdate (fst kv) \<in> set ps \<and> length b \<le> maxString | None \<Rightarrow> ForDeletion (fst kv) \<in> set ps"
    if "kv \<in> set cs" for kv
  proof (cases "IsDeleted (snd kv)")
    case True
    with all that show ?thesis by (auto simp: prepared_def val_bytes_deleted)
  next
    case False
    with proper_values [OF pr that] obtain b where "val_bytes S (snd kv) = Some b" by blast
    with False all that show ?thesis by (auto simp: prepared_def root_storable_def)
  qed
  ultimately show ?thesis using ps by (auto simp: block_pre_def)
qed

lemma decodable_over:
  assumes "decodable S c M" and "writable (root_storable S c) S ps cs"
  shows "decodable S c (cache_over S cs M)"
  unfolding decodable_def
proof (intro allI impI, elim conjE)
  fix k b assume k: "c k" "cache_over S cs M k = Some b"
  show "\<exists>y. s_ToBytes S y = Some b"
  proof (cases "bt_Get k cs")
    case None
    with k assms(1) show ?thesis by (auto simp: cache_over_def decodable_def)
  next
    case (Some v)
    then have "(k, v) \<in> set cs" unfolding bt_Get_def by (rule map_of_SomeD)
    with assms(2) have "prepared (root_storable S c) S ps (k, v)" by (auto simp: writable_def)
    moreover have "\<not> IsDeleted v" "val_bytes S v = Some b" using k(2) Some by (auto simp: cache_over_def val_bytes_deleted)
    ultimately show ?thesis using k(1) by (auto simp: prepared_def root_storable_def)
  qed
qed

context store
begin

lemma root_prepare_ok:
  assumes inv: "root_inv sok I D S c ps r" and al: "root_allowed I r (ps @ [p])"
  shows "\<exists>r'. root_prepare (RootI E I D S) p r = Inr r' \<and> root_inv sok I D S c (ps @ [p]) r' \<and> root_view I D r' = root_view I D r \<and>
    root_allowed I r' = root_allowed I r"
  using inv
proof (rule root_invE)
  fix okv n ent he nk m b
  assume sok: "sok n ent okv" and run: "foldE (run_prepare I D) ps okv = Inr (rt_okv r)" and okv: "rt_okv r = okv\<lparr>k2heMap := he, k2nkMap := nk\<rparr>"
    and r: "rt_isCacheableKey r = Some c" "rt_cache r = Some m" "rt_cacheBuf r = Some b" "decodable S c (root_view I D r)"
      "cache_fits S c (root_view I D r) m" "cache_shows S c (root_view I D r) b"
  note S = sokD [OF sok]
  have keys: "\<forall>p \<in> set (ps @ [p]). startKey okv < prepare_key p \<and> prepare_key p < endKey okv" using al by (auto simp: root_allowed_def okv)
  have "hot_ok (index_keys items okv) ent (k2heMap okv) (k2nkMap okv) {}" using S(6,7) by simp
  from prepares_ok [OF S(1,2) keys this] obtain he' nk' where p: "foldE (run_prepare I D) (ps @ [p]) okv = Inr (okv\<lparr>k2heMap := he', k2nkMap := nk'\<rparr>)" by auto
  then have p1: "run_prepare I D p (rt_okv r) = Inr (okv\<lparr>k2heMap := he', k2nkMap := nk'\<rparr>)"
    using run by (cases "run_prepare I D p (rt_okv r)") (simp_all add: foldE_append)
  let ?r = "r\<lparr>rt_okv := okv\<lparr>k2heMap := he', k2nkMap := nk'\<rparr>\<rparr>"
  have "root_view I D ?r = root_view I D r" by (rule root_view_cong) (simp_all add: okv)
  moreover have "root_allowed I ?r = root_allowed I r" by (rule root_allowed_cong) (simp_all add: okv)
  moreover have "root_prepare (RootI E I D S) p r = Inr ?r"
    using p1 by (cases p) (auto simp: root_prepare_def RootI_def RootStore_PrepareForUpdate_def RootStore_PrepareForDeletion_def run_prepare_def
        bindE_eq_Inr split: prod.splits)
  ultimately show ?thesis using sok p r unfolding root_inv_def by (intro exI [of _ ?r]) auto
qed

lemma root_SetHeight_ok:
  assumes "root_inv sok I D S c ps r"
  shows "root_inv sok I D S c ps (RootStore_SetHeight h r) \<and> root_view I D (RootStore_SetHeight h r) = root_view I D r"
proof -
  have "root_view I D (RootStore_SetHeight h r) = root_view I D r" by (rule root_view_cong) (simp_all add: RootStore_SetHeight_def)
  with assms show ?thesis by (simp add: root_inv_def) (simp add: RootStore_SetHeight_def)
qed

lemma root_write_ok:
  assumes inv: "root_inv sok I D S c ps r" and al: "root_allowed I r ps" and cs: "writable (root_storable S c) S ps cs"
    and L: "L = maxString" and S: "serializable S"
  shows "\<exists>r'. write_block (RootI E I D S) cs r = okR r' \<and> root_inv sok I D S c [] r' \<and> root_view I D r' = cache_over S cs (root_view I D r)"
  using inv
proof (rule root_invE)
  fix okv n ent he nk m b
  assume sok: "sok n ent okv" and run: "foldE (run_prepare I D) ps okv = Inr (rt_okv r)" and okv: "rt_okv r = okv\<lparr>k2heMap := he, k2nkMap := nk\<rparr>"
    and r: "rt_isCacheableKey r = Some c" "rt_cache r = Some m" "rt_cacheBuf r = Some b" "decodable S c (root_view I D r)"
      "cache_fits S c (root_view I D r) m" "cache_shows S c (root_view I D r) b"
  let ?ops = "map (entry_op S) cs" and ?h = "rt_height r" and ?M = "root_view I D r"
  have pr: "proper S cs" and co: "cache_ok cs" using cs by (simp_all add: writable_def proper_def)
  have pre: "block_pre maxString (startKey okv) (endKey okv) ps ?ops"
    by (rule cache_block_pre [OF cs]) (use al in \<open>simp add: root_allowed_def okv\<close>)
  have "in_int64 ?h" "block_room I okv ps" "0 \<le> ?h" using al by (simp_all add: root_allowed_def okv block_room_def)
  from run_block_ok [OF L sok pre this(1,2), of E] obtain okv' n' ent' where blk: "run_block E I D ?h ps ?ops okv = Some (Inr okv')" "sok n' ent' okv'"
    "value_map (index_keys items okv') ent' = apply_ops ?ops (value_map (index_keys items okv) ent)" by blast
  from blk(1) run obtain okvb okv1 where o: "okv_BeginWrite I ?h (rt_okv r) = Inr okvb" "foldE run_op ?ops okvb = Inr okv1" "okv_EndWrite E I D okv1 = Some (Inr okv')"
    by (auto simp: run_block_def split: sum.splits) (auto simp: bindE_eq_Inr)
  from move_buffer_ok [of "r\<lparr>rt_okv := okvb\<rparr>" m S c ?M b] r cache_shows_elements [OF r(6)] obtain m1 ra1 where
    m1: "foldE (\<lambda>(k, x). addToCache k x) b (r\<lparr>rt_okv := okvb\<rparr>) = Inr (r\<lparr>rt_okv := okvb, rt_cache := Some m1, rt_random := ra1\<rparr>)" "cache_fits S c ?M m1" by auto
  let ?r1 = "r\<lparr>rt_okv := okvb, rt_cache := Some m1, rt_random := ra1, rt_cacheBuf := None\<rparr>"
  have bw: "RootStore_BeginWrite I r = Inr ?r1" using \<open>0 \<le> ?h\<close> o(1) r(3) m1(1) by (simp add: RootStore_BeginWrite_def)
  have vals: "\<forall>kv \<in> set cs. snd kv \<noteq> NilValue \<and> (\<not> IsDeleted (snd kv) \<longrightarrow> val_bytes S (snd kv) \<noteq> None \<and> root_storable S c (fst kv) (the (val_bytes S (snd kv))))"
    using proper_values [OF pr] cs by (fastforce simp: writable_def prepared_def)
  have "\<exists>m' ra. ScanAllEntries (writeEntry (RootI E I D S)) cs ?r1 = Inr (?r1\<lparr>rt_okv := okv1, rt_cache := Some m', rt_random := ra\<rparr>) \<and>
      cache_fits S c (apply_ops ?ops ?M) m'"
    by (rule writeEntries_ok [where storable = "root_storable S c", OF _ _ m1(2) S vals])
      (use r(1) o(2) in \<open>simp_all add: root_storable_def\<close>)
  then obtain m2 ra2 where m2: "ScanAllEntries (writeEntry (RootI E I D S)) cs ?r1 = Inr (?r1\<lparr>rt_okv := okv1, rt_cache := Some m2, rt_random := ra2\<rparr>)"
      "cache_fits S c (cache_over S cs ?M) m2" unfolding apply_cache_ops [OF co] by blast
  let ?r2 = "r\<lparr>rt_okv := okv', rt_cache := Some m2, rt_random := ra2, rt_cacheBuf := Some []\<rparr>"
  have run: "write_block (RootI E I D S) cs r = okR ?r2"
    using bw m2(1) o(3) by (simp add: write_block_def RootI_def RootStore_EndWrite_def)
  have okv2: "rt_okv ?r2 = okv'\<lparr>k2heMap := k2heMap okv', k2nkMap := k2nkMap okv'\<rparr>" by simp
  have view: "root_view I D ?r2 = cache_over S cs ?M"
    unfolding root_view_ok(1) [OF blk(2) okv2] root_view_ok(1) [OF sok okv] blk(3) apply_cache_ops [OF co] ..
  have "root_inv sok I D S c [] ?r2"
    unfolding root_inv_def view
    by (intro conjI exI [of _ okv'] exI [of _ n'] exI [of _ ent'] exI [of _ "k2heMap okv'"] exI [of _ "k2nkMap okv'"] exI [of _ m2] exI [of _ "[]"])
      (use blk(2) r(1) m2(2) decodable_over [OF r(4) cs] in simp_all)
  with run view show ?thesis by blast
qed

end

text \<open>A store whose strings are at most \<open>maxString\<close> long, as a root store for objects with codec \<open>S\<close>.\<close>

locale object_store = store D L N0 ok settled pending holds I items writing backward forward
  for D :: "'d DataTreeI" and L N0 ok settled pending holds and I :: "('i, 'e) IndexTreeI" and items writing backward forward +
  fixes E :: "('e, 'it) engine" and S :: "'o Serializable" and c :: "bytes \<Rightarrow> bool"
  assumes strings: "L = maxString" and codec: "serializable S"

context object_store
begin

lemma root_Iterator_ok:
  assumes "root_inv sok I D S c ps r"
  shows "\<exists>i. RootStore_Iterator I s e r = Inr i \<and> rf_inv forward items writing I D i \<and>
      enumerates True s e (root_view I D r) (rf_rest forward I D S i)"
    and "\<exists>i. RootStore_ReverseIterator I s e r = Inr i \<and> rb_inv backward items writing I D i \<and>
      enumerates False s e (root_view I D r) (rb_rest backward I D S i)"
proof -
  let ?t = "idxTree (rt_okv r)"
  from assms obtain okv n ent he nk where r: "sok n ent okv" "rt_okv r = okv\<lparr>k2heMap := he, k2nkMap := nk\<rparr>" by (rule root_invE)
  note v = root_view_ok [OF r]
  have t: "writing False ?t" "bt_inv (items ?t)" using v(4) by (simp_all add: readable_def)
  have "bt_Get k (items ?t) = None \<longleftrightarrow> root_view I D r k = None" for k
    using v(3) [of k] by (cases "k \<in> index_keys items okv") (auto simp: v(1) value_map_def r(2))
  note en = root_items_enumerate [where r = r and I = I and D = D and S = S and s = s and e = e, OF t(2) this]
  from iterator [OF t, of s e] obtain j where j: "ix_Iterator I s e ?t = Inr j" "forward ?t j (filter (in_range s e) (items ?t))" by blast
  have rest: "rf_rest forward I D S \<lparr>rf_root = r, rf_iter = j\<rparr> = map (root_item I D S r) (filter (in_range s e) (items ?t))"
    using rf_rest_eq [of "\<lparr>rf_root = r, rf_iter = j\<rparr>"] t(1) j(2) by simp
  have "rf_inv forward items writing I D \<lparr>rf_root = r, rf_iter = j\<rparr>" using v(4) j(2) by (auto simp: rf_inv_def)
  with j(1) en [of True] rest show "\<exists>i. RootStore_Iterator I s e r = Inr i \<and> rf_inv forward items writing I D i \<and>
      enumerates True s e (root_view I D r) (rf_rest forward I D S i)"
    by (simp add: RootStore_Iterator_def okv_Iterator_def)
  from reverse_range [OF t, of s e] obtain j where j: "ix_ReverseIterator I s e ?t = Inr j" "backward ?t j (rev (filter (in_range s e) (items ?t)))" by blast
  have rest: "rb_rest backward I D S \<lparr>rb_root = r, rb_iter = j\<rparr> = map (root_item I D S r) (rev (filter (in_range s e) (items ?t)))"
    using rb_rest_eq [of "\<lparr>rb_root = r, rb_iter = j\<rparr>"] t(1) j(2) by simp
  have "rb_inv backward items writing I D \<lparr>rb_root = r, rb_iter = j\<rparr>" using v(4) j(2) by (auto simp: rb_inv_def)
  with j(1) en [of False] rest show "\<exists>i. RootStore_ReverseIterator I s e r = Inr i \<and> rb_inv backward items writing I D i \<and>
      enumerates False s e (root_view I D r) (rb_rest backward I D S i)"
    by (simp add: RootStore_ReverseIterator_def okv_ReverseIterator_def)
qed

end

lemma RootI_reads:
  "rs_Get (RootI E I D S) = RootStore_Get I D S" "rs_Has (RootI E I D S) = RootStore_Has I D"
  "rs_GetObjCopy (RootI E I D S) = RootStore_GetObjCopy I D S" "rs_GetReadOnlyObj (RootI E I D S) = RootStore_GetReadOnlyObj I D S"
  "rs_SetHeight (RootI E I D S) = RootStore_SetHeight" "rs_Iterator (RootI E I D S) = RootStore_Iterator I" "rs_ReverseIterator (RootI E I D S) = RootStore_ReverseIterator I"
  by (simp_all add: RootI_def)

sublocale object_store \<subseteq> root: root_store "RootForwardI I D S" "rf_inv forward items writing I D" "rf_rest forward I D S"
  "RootBackwardI I D S" "rb_inv backward items writing I D" "rb_rest backward I D S" "RootI E I D S" "root_storable S c" S
  "root_inv sok I D S c" "root_view I D" "root_allowed I"
proof (intro root_store.intro root_forward root_backward root_store_axioms.intro)
  show "serializable S" by (rule codec)
qed (simp_all only: RootI_reads, (assumption | rule root_allowed_fewer RootStore_get_ok RootStore_GetObjCopy_ok [OF _ codec]
    RootStore_GetReadOnlyObj_ok [OF _ codec] root_Iterator_ok root_prepare_ok root_SetHeight_ok root_write_ok [OF _ _ _ strings codec])+)

end
