(* ===== verification/StoreMain.thy ===== *)
theory StoreMain
  imports StoreRoot
begin

text \<open>
  The whole stack: transactions on multi stores over trunk stores over the root store of an OnvaKV store
  with its files, and over the mock root store.
\<close>

section \<open>The root store of a new OnvaKV store\<close>

context object_store
begin

lemmas blocks_run_ok = root.blocks_run_ok and run_txblock_ok = root.run_txblock_ok and run_inside_ok = root.run_inside_ok
  and MultiStore_reads_ok = root.MultiStore_Get_ok root.MultiStore_Has_ok and MultiStore_collect = root.MultiStore_collect

end

lemma real_objects:
  assumes "hash32 sha" and "meow4 meow" and "serializable S"
  shows "object_store (TreeI sha meow) maxString 2048 (tree_ok sha) (\<lambda>t. buffer (entryFile t) = []) (\<lambda>t. length (deactivedSNList t)) tree_holds
    (NVTreeI :: (NVTreeMem, 'e) IndexTreeI) bt (\<lambda>w t. isWriting t = w) (\<lambda>_. backward_at) (\<lambda>_. forward_at) S"
proof (intro object_store.intro store.intro object_store_axioms.intro)
  show "data_tree (TreeI sha meow) maxString 2048 (tree_ok sha) (\<lambda>t. buffer (entryFile t) = []) (\<lambda>t. length (deactivedSNList t)) tree_holds"
    by (rule tree_data_tree [OF assms(1,2)])
  show "index_tree (NVTreeI :: (NVTreeMem, 'e) IndexTreeI) bt (\<lambda>w t. isWriting t = w) (\<lambda>_. backward_at) (\<lambda>_. forward_at)"
    by (rule nv.index_tree_axioms)
qed (use assms(3) in simp_all)

interpretation bytes_store: object_store "TreeI zero_sha zero_meow" maxString 2048 "tree_ok zero_sha" "\<lambda>t. buffer (entryFile t) = []"
  "\<lambda>t. length (deactivedSNList t)" tree_holds "NVTreeI :: (NVTreeMem, 'e) IndexTreeI" bt "\<lambda>w t. isWriting t = w" "\<lambda>_. backward_at"
  "\<lambda>_. forward_at" "E :: ('e, 'it) engine" bytesObj c for E c
  by (rule real_objects [OF zero_hashes bytesObj_ok])

interpretation mock_bytes_store: object_store MockTreeI maxString 0 mock_ok "\<lambda>_. True" "\<lambda>_. 0" mock_holds
  "MockIndexI :: (MockIndexTree, 'e) IndexTreeI" "\<lambda>t. t" "\<lambda>_ _. True" "\<lambda>_. backward_at" "\<lambda>_. forward_at" "E :: ('e, 'it) engine" bytesObj c for E c
  by (intro object_store.intro mock_store.store_axioms object_store_axioms.intro refl bytesObj_ok)

text \<open>A block of transactions whose values fit, over few enough keys between the guards.\<close>

definition block_allowed :: "('i, 'e) IndexTreeI \<Rightarrow> 'o Serializable \<Rightarrow> (bytes \<Rightarrow> bool) \<Rightarrow> ('i, 'd, 'e, 'o) RootStore \<Rightarrow> 'o block \<Rightarrow> bool" where
  "block_allowed I S c r blk \<longleftrightarrow> txs_fit (root_storable S c) S (snd blk) \<and>
     root_allowed I (RootStore_SetHeight (fst blk) r) (tx_prepares (snd blk))"

lemma new_root_ok:
  assumes "sok n ent okv" and v: "root_view I D (NewRootStore rnd okv keys (Some c) :: ('i, 'd, 'e, 'o) RootStore) = guard_map s e"
    and c: "\<not> c s" "\<not> c e"
  shows "root_inv sok I D S c [] (NewRootStore rnd okv keys (Some c) :: ('i, 'd, 'e, 'o) RootStore)"
proof -
  let ?r = "NewRootStore rnd okv keys (Some c) :: ('i, 'd, 'e, 'o) RootStore"
  have "decodable S c (root_view I D ?r)" using c by (auto simp: v decodable_def guard_map_def split: if_splits)
  moreover have "rt_okv ?r = okv\<lparr>k2heMap := k2heMap okv, k2nkMap := k2nkMap okv\<rparr>" by (simp add: NewRootStore_def)
  ultimately show ?thesis unfolding root_inv_def using assms(1)
    by (intro conjI exI [of _ okv] exI [of _ n] exI [of _ ent] exI [of _ "k2heMap okv"] exI [of _ "k2nkMap okv"] exI [of _ "[]"])
      (simp_all add: NewRootStore_def)
qed

text \<open>Every state of a run of blocks of transactions.\<close>

lemma real_blocks:
  fixes okv0 :: "(NVTreeMem, Tree, 'e) OnvaKV" and E :: "('e, 'it) engine" and S :: "'o Serializable"
  assumes h: "hash32 sha" "meow4 meow" and f: "new_files ef tf" and g: "guards_ok maxString s e" and S: "serializable S" and c: "\<not> c s" "\<not> c e"
    and new: "createOnvaKV E0 sha meow ef tf db0 q s e = Inr okv0"
    and run: "blocks_run (RootI E NVTreeI (TreeI sha meow) S) S keys (block_allowed NVTreeI S c) (NewRootStore rnd okv0 keys (Some c)) bs r"
  shows "root_inv (onva_ok sha) NVTreeI (TreeI sha meow) S c [] r" "root_view NVTreeI (TreeI sha meow) r = blocks_effect S bs (guard_map s e)"
proof -
  have hf: "hash_functions sha meow" using h by unfold_locales
  let ?D = "TreeI sha meow" and ?r0 = "NewRootStore rnd okv0 keys (Some c) :: (NVTreeMem, Tree, 'e, 'o) RootStore"
  from hash_functions.createOnvaKV_ok [OF hf f g, of E0 db0 q] new obtain ent where
    o: "onva_ok sha 2050 ent okv0" "value_map (index_keys bt okv0) ent = guard_map s e" by auto
  note os = real_objects [OF h S, where 'e = 'e]
  have okv: "rt_okv ?r0 = okv0\<lparr>k2heMap := k2heMap okv0, k2nkMap := k2nkMap okv0\<rparr>" by (simp add: NewRootStore_def)
  have v: "root_view NVTreeI ?D ?r0 = guard_map s e"
    using store.root_view_ok(1) [OF object_store.axioms(1) [OF os] o(1) okv] o(2) by simp
  have inv: "root_inv (onva_ok sha) NVTreeI ?D S c [] ?r0"
    by (rule new_root_ok [where sok = "onva_ok sha" and n = 2050 and ent = ent, OF _ v c]) (rule o(1))
  note run_ok = object_store.blocks_run_ok [OF os run inv]
  have "root_inv (onva_ok sha) NVTreeI ?D S c [] r \<and> root_view NVTreeI ?D r = blocks_effect S bs (root_view NVTreeI ?D ?r0)"
    by (rule run_ok) (simp add: block_allowed_def RootI_reads)
  then show "root_inv (onva_ok sha) NVTreeI ?D S c [] r" "root_view NVTreeI ?D r = blocks_effect S bs (guard_map s e)" by (simp_all add: v)
qed

text \<open>The state of an open transaction.\<close>

lemma real_inside:
  fixes okv0 :: "(NVTreeMem, Tree, 'e) OnvaKV" and E :: "('e, 'it) engine" and S :: "'o Serializable"
  assumes h: "hash32 sha" "meow4 meow" and f: "new_files ef tf" and g: "guards_ok maxString s e" and S: "serializable S" and c: "\<not> c s" "\<not> c e"
    and new: "createOnvaKV E0 sha meow ef tf db0 q s e = Inr okv0"
    and run: "blocks_run (RootI E NVTreeI (TreeI sha meow) S) S keys (block_allowed NVTreeI S c) (NewRootStore rnd okv0 keys (Some c)) bs r"
    and al: "block_allowed NVTreeI S c r (height, txs @ [(ops, b)])"
  shows "\<exists>ms ts ps. run_inside (RootI E NVTreeI (TreeI sha meow) S) S keys txs ops (RootStore_SetHeight height r) = Inr (ms, ts) \<and>
    multi_ok (root_inv (onva_ok sha) NVTreeI (TreeI sha meow) S c) (root_storable S c) S ps (ms, ts) \<and>
    multi_view (root_view NVTreeI (TreeI sha meow)) S (ms, ts) = fold (op_effect S) ops (fold (tx_effect S) txs (blocks_effect S bs (guard_map s e)))"
proof -
  note os = real_objects [OF h S, where 'e = 'e]
  note r = real_blocks [OF h f g S c new run]
  have sh: "root_inv (onva_ok sha) NVTreeI (TreeI sha meow) S c [] (RootStore_SetHeight height r)"
    "root_view NVTreeI (TreeI sha meow) (RootStore_SetHeight height r) = root_view NVTreeI (TreeI sha meow) r"
    using store.root_SetHeight_ok [OF object_store.axioms(1) [OF os] r(1)] by blast+
  from object_store.run_inside_ok [OF os sh(1), of txs ops b E keys] al show ?thesis
    unfolding sh(2) r(2) by (simp add: block_allowed_def)
qed

section \<open>The properties of the stack\<close>

text \<open>
  C6: a block of transactions refines the update of a map. From every state of a run of blocks over a new
  store, a block of transactions whose values fit always returns, through the caches of the transactions
  and of the block and through the object cache of the root store, and the root store then shows the
  map with the effects of the transactions that were written back, in their order.
\<close>

theorem RootStore_block:
  fixes okv0 :: "(NVTreeMem, Tree, 'e) OnvaKV" and S :: "'o Serializable"
  assumes "hash32 sha" "meow4 meow" and "new_files ef tf" and "guards_ok maxString s e" and "serializable S" and "\<not> c s" "\<not> c e"
    and "createOnvaKV E0 sha meow ef tf db0 q s e = Inr okv0"
    and "blocks_run (RootI E NVTreeI (TreeI sha meow) S) S keys (block_allowed NVTreeI S c) (NewRootStore rnd okv0 keys (Some c)) bs r"
    and "block_allowed NVTreeI S c r blk"
  shows "\<exists>r' ts. run_txblock (RootI E NVTreeI (TreeI sha meow) S) S keys blk r = okR (Some r', ts) \<and>
    (\<forall>k. RootStore_Get NVTreeI (TreeI sha meow) S k r' = Inr (blocks_effect S (bs @ [blk]) (guard_map s e) k)) \<and>
    (\<forall>k. RootStore_Has NVTreeI (TreeI sha meow) k r' = Inr (blocks_effect S (bs @ [blk]) (guard_map s e) k \<noteq> None))"
proof -
  note os = real_objects [OF assms(1,2,5), where 'e = 'e]
  note r = real_blocks [OF assms(1-9)]
  from object_store.run_txblock_ok [OF os r(1), of blk E keys] assms(10) obtain r' ts where
    b: "run_txblock (RootI E NVTreeI (TreeI sha meow) S) S keys blk r = okR (Some r', ts)"
    "root_inv (onva_ok sha) NVTreeI (TreeI sha meow) S c [] r'"
    "root_view NVTreeI (TreeI sha meow) r' = blocks_effect S [blk] (root_view NVTreeI (TreeI sha meow) r)"
    by (auto simp: block_allowed_def RootI_reads)
  have "root_view NVTreeI (TreeI sha meow) r' = blocks_effect S (bs @ [blk]) (guard_map s e)"
    unfolding b(3) r(2) by (simp add: blocks_effect_def)
  with store.RootStore_get_ok(2,3) [OF object_store.axioms(1) [OF os] b(2)] b(1) show ?thesis by auto
qed

text \<open>
  C7: inside a block, an open transaction reads what the blocks, the transactions that were written back
  before it and its own operations have made of the map.
\<close>

theorem MultiStore_reads:
  fixes okv0 :: "(NVTreeMem, Tree, 'e) OnvaKV" and S :: "'o Serializable"
  assumes "hash32 sha" "meow4 meow" and "new_files ef tf" and "guards_ok maxString s e" and "serializable S" and "\<not> c s" "\<not> c e"
    and "createOnvaKV E0 sha meow ef tf db0 q s e = Inr okv0"
    and "blocks_run (RootI E NVTreeI (TreeI sha meow) S) S keys (block_allowed NVTreeI S c) (NewRootStore rnd okv0 keys (Some c)) bs r"
    and "block_allowed NVTreeI S c r (height, txs @ [(ops, b)])"
    and M: "M = fold (op_effect S) ops (fold (tx_effect S) txs (blocks_effect S bs (guard_map s e)))"
  shows "\<exists>ms ts. run_inside (RootI E NVTreeI (TreeI sha meow) S) S keys txs ops (RootStore_SetHeight height r) = Inr (ms, ts) \<and>
    (\<forall>k. MultiStore_Get (RootI E NVTreeI (TreeI sha meow) S) S k ms ts = Inr (M k)) \<and>
    (\<forall>k. MultiStore_Has (RootI E NVTreeI (TreeI sha meow) S) S k ms ts = Inr (M k \<noteq> None))"
proof -
  note os = real_objects [OF assms(1,2,5), where 'e = 'e]
  from real_inside [OF assms(1-10)] obtain ms ts ps where
    i: "run_inside (RootI E NVTreeI (TreeI sha meow) S) S keys txs ops (RootStore_SetHeight height r) = Inr (ms, ts)"
    "multi_ok (root_inv (onva_ok sha) NVTreeI (TreeI sha meow) S c) (root_storable S c) S ps (ms, ts)"
    "multi_view (root_view NVTreeI (TreeI sha meow)) S (ms, ts) = M" unfolding M by blast
  from object_store.MultiStore_reads_ok [OF os i(2), where ?E = E] i(1) show ?thesis unfolding i(3) by auto
qed

text \<open>
  C8: the loops over the iterators of an open transaction return, with the keys of the range and their
  values in the map that the transaction sees, in ascending and in descending order: the merging iterators
  skip what the caches delete and show what they overwrite.
\<close>

theorem MultiStore_iterators:
  fixes okv0 :: "(NVTreeMem, Tree, 'e) OnvaKV" and S :: "'o Serializable"
  assumes "hash32 sha" "meow4 meow" and "new_files ef tf" and "guards_ok maxString s e" and "serializable S" and "\<not> c s" "\<not> c e"
    and "createOnvaKV E0 sha meow ef tf db0 q s e = Inr okv0"
    and "blocks_run (RootI E NVTreeI (TreeI sha meow) S) S keys (block_allowed NVTreeI S c) (NewRootStore rnd okv0 keys (Some c)) bs r"
    and "block_allowed NVTreeI S c r (height, txs @ [(ops, b)])"
    and M: "M = fold (op_effect S) ops (fold (tx_effect S) txs (blocks_effect S bs (guard_map s e)))"
  shows "\<exists>ms ts it xs it' ys. run_inside (RootI E NVTreeI (TreeI sha meow) S) S keys txs ops (RootStore_SetHeight height r) = Inr (ms, ts) \<and>
    MultiStore_Iterator (RootI E NVTreeI (TreeI sha meow) S) k1 k2 ms ts = Inr it \<and>
    collect (MergeI (MergeI (RootForwardI NVTreeI (TreeI sha meow) S) (CacheForwardI S)) (CacheForwardI S)) [] it = okR xs \<and>
    sorted_wrt (<) (map fst xs) \<and> set xs = {(k, Some v) | k v. k1 \<le> k \<and> k < k2 \<and> M k = Some v} \<and>
    MultiStore_ReverseIterator (RootI E NVTreeI (TreeI sha meow) S) k1 k2 ms ts = Inr it' \<and>
    collect (MergeI (MergeI (RootBackwardI NVTreeI (TreeI sha meow) S) (CacheBackwardI S)) (CacheBackwardI S)) [] it' = okR ys \<and>
    sorted_wrt (>) (map fst ys) \<and> set ys = {(k, Some v) | k v. k1 \<le> k \<and> k < k2 \<and> M k = Some v}"
proof -
  note os = real_objects [OF assms(1,2,5), where 'e = 'e]
  from real_inside [OF assms(1-10)] obtain ms ts ps where
    i: "run_inside (RootI E NVTreeI (TreeI sha meow) S) S keys txs ops (RootStore_SetHeight height r) = Inr (ms, ts)"
    "multi_ok (root_inv (onva_ok sha) NVTreeI (TreeI sha meow) S c) (root_storable S c) S ps (ms, ts)"
    "multi_view (root_view NVTreeI (TreeI sha meow)) S (ms, ts) = M" unfolding M by blast
  note loops = object_store.MultiStore_collect [OF os i(2), where ?E = E, of k1 k2, unfolded i(3)]
  from loops(1) loops(2) i(1) show ?thesis by (elim exE conjE) (intro exI conjI, assumption+)
qed

text \<open>
  C11: the object cache agrees with the store and is bounded. In every state of a run an object in the cache or
  in the buffer has the bytes that the store has for its key, which is cacheable; and from there on, whatever
  calls of the root store follow, on however many keys and whichever entry every eviction removes, the cache
  never has more than one object over its limit.
\<close>

theorem RootStore_cache:
  fixes okv0 :: "(NVTreeMem, Tree, 'e) OnvaKV" and S :: "'o Serializable"
  assumes "hash32 sha" "meow4 meow" and "new_files ef tf" and "guards_ok maxString s e" and "serializable S" and "\<not> c s" "\<not> c e"
    and "createOnvaKV E0 sha meow ef tf db0 q s e = Inr okv0"
    and "blocks_run (RootI E NVTreeI (TreeI sha meow) S) S keys (block_allowed NVTreeI S c) (NewRootStore rnd okv0 keys (Some c)) bs r"
  shows "(\<exists>cache buf. rt_cache r = Some cache \<and> rt_cacheBuf r = Some buf \<and>
      (\<forall>k x. map_of cache k = Some x \<or> map_of buf k = Some x \<longrightarrow>
        c k \<and> (\<exists>v. s_ToBytes S x = Some v \<and> RootStore_get NVTreeI (TreeI sha meow) k r = Inr (Some v)))) \<and>
    (\<forall>r' cache. root_calls E NVTreeI (TreeI sha meow) S r r' \<and> rt_cache r' = Some cache \<longrightarrow> length cache \<le> CacheSizeLimit + 1)"
proof -
  note r = real_blocks [OF assms(1-9)] and st = object_store.axioms(1) [OF real_objects [OF assms(1,2,5), where 'e = 'e]]
  note get = store.RootStore_get_ok(1) [OF st r(1)]
  from r(1) obtain m b where m: "rt_cache r = Some m" "rt_cacheBuf r = Some b" "cache_fits S c (root_view NVTreeI (TreeI sha meow) r) m"
    "cache_shows S c (root_view NVTreeI (TreeI sha meow) r) b" unfolding root_inv_def by blast
  have "c k \<and> (\<exists>v. s_ToBytes S x = Some v \<and> RootStore_get NVTreeI (TreeI sha meow) k r = Inr (Some v))"
    if "map_of m k = Some x \<or> map_of b k = Some x" for k x
    using that cached_shows [OF cache_fits_shows [OF m(3)]] cached_shows [OF m(4)] get by fastforce
  moreover have "cache_bounded r" using m(1,3) by (simp add: cache_bounded_def cache_fits_def)
  ultimately show ?thesis using m(1,2) root_calls_bounded unfolding cache_bounded_def by blast
qed

text \<open>The mock root store follows every run.\<close>

lemma mock_follows:
  fixes R :: "('r, 'f, 'b, 'o) RootStoreI"
  assumes "serializable S" and "blocks_run R S keys pre r0 bs r" and "\<And>r blk. pre r blk \<Longrightarrow> txs_fit (\<lambda>_ _. True) S (snd blk)"
  shows "\<exists>m. blocks_run (MockRootI S) S keys (\<lambda>_ blk. txs_fit (\<lambda>_ _. True) S (snd blk)) NewMockRootStore bs m \<and>
    mock_inv S [] m \<and> mock_view S m = blocks_effect S bs (\<lambda>_. None)"
  using assms(2)
proof induction
  case blocks_start
  show ?case
    by (intro exI [of _ NewMockRootStore] conjI blocks_run.blocks_start)
      (simp_all add: mock_inv_def mock_view_def NewMockRootStore_def plain_def blocks_effect_def, simp add: NewCacheStore_def)
next
  case (blocks_more bs r blk r' ts)
  from blocks_more.IH obtain m where m: "blocks_run (MockRootI S) S keys (\<lambda>_ blk. txs_fit (\<lambda>_ _. True) S (snd blk)) NewMockRootStore bs m"
    "mock_inv S [] m" "mock_view S m = blocks_effect S bs (\<lambda>_. None)" by blast
  have fit: "txs_fit (\<lambda>_ _. True) S (snd blk)" using blocks_more.hyps(2) assms(3) by blast
  from root_store.run_txblock_ok [OF mock_root_store [OF assms(1)] m(2), of blk keys] fit obtain m' ts' where
    "run_txblock (MockRootI S) S keys blk m = okR (Some m', ts')" "mock_inv S [] m'" "mock_view S m' = blocks_effect S [blk] (mock_view S m)" by blast
  with blocks_run.blocks_more [OF m(1), of blk m' ts'] fit m(3) show ?case by (auto simp: blocks_effect_def)
qed

text \<open>
  C12: the mock root store is a stand-in for the real one: the blocks that run on the real root store run on a
  new mock root store, and afterwards both read the same bytes for every key but the two guards.
\<close>

theorem MockRootStore_equivalent:
  fixes okv0 :: "(NVTreeMem, Tree, 'e) OnvaKV" and S :: "'o Serializable"
  assumes "hash32 sha" "meow4 meow" and "new_files ef tf" and "guards_ok maxString s e" and "serializable S" and "\<not> c s" "\<not> c e"
    and "createOnvaKV E0 sha meow ef tf db0 q s e = Inr okv0"
    and "blocks_run (RootI E NVTreeI (TreeI sha meow) S) S keys (block_allowed NVTreeI S c) (NewRootStore rnd okv0 keys (Some c)) bs r"
  shows "\<exists>m. blocks_run (MockRootI S) S keys (\<lambda>_ blk. txs_fit (\<lambda>_ _. True) S (snd blk)) NewMockRootStore bs m \<and>
    (\<forall>k. k \<noteq> s \<and> k \<noteq> e \<longrightarrow> (\<exists>v. RootStore_Get NVTreeI (TreeI sha meow) S k r = Inr v \<and> MockRootStore_Get S k m = Inr v))"
proof -
  note r = real_blocks [OF assms(1-9)] and st = object_store.axioms(1) [OF real_objects [OF assms(1,2,5), where 'e = 'e]]
  have fit: "block_allowed NVTreeI S c r blk \<Longrightarrow> txs_fit (\<lambda>_ _. True) S (snd blk)" for r :: "(NVTreeMem, Tree, 'e, 'o) RootStore" and blk
    using op_fits_mono [where storable' = "\<lambda>_ _. True"] unfolding block_allowed_def by blast
  have "\<exists>m. blocks_run (MockRootI S) S keys (\<lambda>_ blk. txs_fit (\<lambda>_ _. True) S (snd blk)) NewMockRootStore bs m \<and>
    mock_inv S [] m \<and> mock_view S m = blocks_effect S bs (\<lambda>_. None)"
    by (rule mock_follows [OF assms(5,9)]) (rule fit)
  then obtain m where
    m: "blocks_run (MockRootI S) S keys (\<lambda>_ blk. txs_fit (\<lambda>_ _. True) S (snd blk)) NewMockRootStore bs m" "mock_inv S [] m"
    "mock_view S m = blocks_effect S bs (\<lambda>_. None)" by blast
  have "blocks_effect S bs (guard_map s e) k = blocks_effect S bs (\<lambda>_. None) k" if "k \<noteq> s \<and> k \<noteq> e" for k
    by (rule blocks_effect_cong) (use that in \<open>simp add: guard_map_def\<close>)
  with store.RootStore_get_ok(2) [OF st r(1)] mock_read_ok(1) [OF m(2)] m(1) show ?thesis
    unfolding r(2) m(3) by (intro exI [of _ m]) auto
qed

section \<open>A run\<close>

text \<open>A transaction that writes a cacheable key, and one that is not written back; a transaction that writes an object.\<close>

abbreviation "sample_block \<equiv> (1 :: int, [([TxSet [5] [7]], True), ([TxRead [5] [], TxDelete [5]], False)] :: bytes tx list)"

abbreviation "object_block \<equiv> (1 :: int, [([TxSetObj [5] [7]], True)] :: bytes tx list)"

abbreviation "sample_cacheable \<equiv> \<lambda>k :: bytes. k = [5]"

lemma sample_root:
  "\<exists>okv0. createOnvaKV list_engine zero_sha zero_meow newFile newFile [] False [1] [255] = Inr okv0 \<and>
    block_allowed NVTreeI bytesObj sample_cacheable (NewRootStore id okv0 [] (Some sample_cacheable)) sample_block \<and>
    block_allowed NVTreeI bytesObj sample_cacheable (NewRootStore id okv0 [] (Some sample_cacheable)) object_block"
proof -
  from sample_run obtain okv0 where o: "createOnvaKV list_engine zero_sha zero_meow newFile newFile [] False [1] [255] = Inr okv0"
    "startKey okv0 = [1]" "endKey okv0 = [255]" "block_room NVTreeI okv0 [ForUpdate [5]]" by blast
  have hf: "hash_functions zero_sha zero_meow" by unfold_locales simp_all
  from hash_functions.createOnvaKV_ok [OF hf newFile_ok sample_guards, of list_engine "[]" False] o(1) obtain ent where
    "onva_ok zero_sha 2050 ent okv0" "value_map (index_keys bt okv0) ent = guard_map [1] [255]" by auto
  from this hash_functions.onva_run(1) [OF hf o(1) newFile_ok sample_guards run_start]
  have "block_room NVTreeI okv0 [ForUpdate [5], ForDeletion [5]]"
    unfolding block_room_def by (simp add: reads_as_def store_ok_def guard_map_def)
  with o show ?thesis
    by (auto simp: block_allowed_def root_storable_def root_allowed_def RootStore_SetHeight_def NewRootStore_def bytesObj_def maxString_def in_int64_def)
qed

abbreviation "sampleR \<equiv> RootI list_engine NVTreeI (TreeI zero_sha zero_meow) bytesObj"

abbreviation "sample_run_to okv0 bs r \<equiv>
  blocks_run sampleR bytesObj [] (block_allowed NVTreeI bytesObj sample_cacheable) (NewRootStore id okv0 [] (Some sample_cacheable)) bs r"

lemma sample_keys: "\<not> sample_cacheable [1]" "\<not> sample_cacheable [255]"
  by simp_all

lemmas sample_hyps = zero_hashes newFile_ok sample_guards bytesObj_ok sample_keys

lemma sample_block_runs:
  assumes "createOnvaKV list_engine zero_sha zero_meow newFile newFile [] False [1] [255] = Inr okv0"
    and "block_allowed NVTreeI bytesObj sample_cacheable (NewRootStore id okv0 [] (Some sample_cacheable)) blk"
  shows "\<exists>r ts. run_txblock sampleR bytesObj [] blk (NewRootStore id okv0 [] (Some sample_cacheable)) = okR (Some r, ts) \<and>
    sample_run_to okv0 [blk] r"
proof -
  note start = blocks_run.blocks_start [where R = sampleR and S = bytesObj and keys = "[]" and
    pre = "block_allowed NVTreeI bytesObj sample_cacheable" and ?r0.0 = "NewRootStore id okv0 [] (Some sample_cacheable)"]
  note r = real_blocks(1) [OF sample_hyps assms(1) start]
  from object_store.run_txblock_ok [OF real_objects [OF zero_hashes bytesObj_ok] r, of blk list_engine "[]"] assms(2) obtain r' ts where
    "run_txblock sampleR bytesObj [] blk (NewRootStore id okv0 [] (Some sample_cacheable)) = okR (Some r', ts)"
    by (auto simp: block_allowed_def RootI_reads)
  with blocks_run.blocks_more [OF start assms(2)] show ?thesis by auto
qed

lemma sample_blocks:
  "\<exists>okv0 r. createOnvaKV list_engine zero_sha zero_meow newFile newFile [] False [1] [255] = Inr okv0 \<and> sample_run_to okv0 [sample_block] r"
  using sample_root sample_block_runs by blast

theorem RootStore_block_witness:
  "\<exists>okv0 r ts. createOnvaKV list_engine zero_sha zero_meow newFile newFile [] False [1] [255] = Inr okv0 \<and>
    run_txblock sampleR bytesObj [] sample_block (NewRootStore id okv0 [] (Some sample_cacheable)) = okR (Some r, ts) \<and>
    RootStore_Get NVTreeI (TreeI zero_sha zero_meow) bytesObj [5] r = Inr (Some [7]) \<and>
    RootStore_Has NVTreeI (TreeI zero_sha zero_meow) [6] r = Inr False"
proof -
  from sample_root obtain okv0 where o: "createOnvaKV list_engine zero_sha zero_meow newFile newFile [] False [1] [255] = Inr okv0"
    "block_allowed NVTreeI bytesObj sample_cacheable (NewRootStore id okv0 [] (Some sample_cacheable)) sample_block" by blast
  have M: "blocks_effect bytesObj ([] @ [sample_block]) (guard_map [1] [255]) [5] = Some [7]"
    "blocks_effect bytesObj ([] @ [sample_block]) (guard_map [1] [255]) [6] = None"
    by (simp_all add: blocks_effect_def tx_effect_def guard_map_def)
  from RootStore_block [where E = list_engine, OF sample_hyps o(1) blocks_run.blocks_start o(2)] obtain r ts where
    "run_txblock sampleR bytesObj [] sample_block (NewRootStore id okv0 [] (Some sample_cacheable)) = okR (Some r, ts)"
    "RootStore_Get NVTreeI (TreeI zero_sha zero_meow) bytesObj [5] r = Inr (Some [7])"
    "RootStore_Has NVTreeI (TreeI zero_sha zero_meow) [6] r = Inr (None \<noteq> (None :: bytes option))" unfolding M [symmetric] by blast
  with o(1) show ?thesis by auto
qed

theorem MultiStore_reads_witness:
  "\<exists>okv0 ms ts. createOnvaKV list_engine zero_sha zero_meow newFile newFile [] False [1] [255] = Inr okv0 \<and>
    run_inside sampleR bytesObj [] [([TxSet [5] [7]], True)] [TxRead [5] [], TxDelete [5]]
      (RootStore_SetHeight 1 (NewRootStore id okv0 [] (Some sample_cacheable))) = Inr (ms, ts) \<and>
    MultiStore_Get sampleR bytesObj [5] ms ts = Inr None \<and> MultiStore_Has sampleR bytesObj [1] ms ts = Inr True"
proof -
  from sample_root obtain okv0 where o: "createOnvaKV list_engine zero_sha zero_meow newFile newFile [] False [1] [255] = Inr okv0"
    "block_allowed NVTreeI bytesObj sample_cacheable (NewRootStore id okv0 [] (Some sample_cacheable)) (1, [([TxSet [5] [7]], True)] @ [([TxRead [5] [], TxDelete [5]], False)])"
    by auto
  from MultiStore_reads [OF sample_hyps o(1) blocks_run.blocks_start o(2) refl] o(1) show ?thesis
    by (force simp: blocks_effect_def tx_effect_def guard_map_def)
qed

theorem MultiStore_iterators_witness:
  "\<exists>okv0 ms ts it xs. createOnvaKV list_engine zero_sha zero_meow newFile newFile [] False [1] [255] = Inr okv0 \<and>
    run_inside sampleR bytesObj [] [([TxSet [5] [7]], True)] [TxRead [5] [], TxDelete [5]]
      (RootStore_SetHeight 1 (NewRootStore id okv0 [] (Some sample_cacheable))) = Inr (ms, ts) \<and>
    MultiStore_Iterator sampleR [1] [255] ms ts = Inr it \<and>
    collect (MergeI (MergeI (RootForwardI NVTreeI (TreeI zero_sha zero_meow) bytesObj) (CacheForwardI bytesObj)) (CacheForwardI bytesObj)) [] it = okR xs \<and>
    set xs = {([1], Some [])}"
proof -
  from sample_root obtain okv0 where o: "createOnvaKV list_engine zero_sha zero_meow newFile newFile [] False [1] [255] = Inr okv0"
    "block_allowed NVTreeI bytesObj sample_cacheable (NewRootStore id okv0 [] (Some sample_cacheable)) (1, [([TxSet [5] [7]], True)] @ [([TxRead [5] [], TxDelete [5]], False)])"
    by auto
  let ?M = "fold (op_effect bytesObj) [TxRead [5] [], TxDelete [5]] (fold (tx_effect bytesObj) [([TxSet [5] [7]], True)] (blocks_effect bytesObj [] (guard_map [1] [255])))"
  have "?M = guard_map [1] [255]" by (auto simp: blocks_effect_def tx_effect_def guard_map_def fun_eq_iff)
  then have "{(k, Some v) | k v. [1] \<le> k \<and> k < [255] \<and> ?M k = Some v} = {([1], Some [])}" by (auto simp: guard_map_def split: if_splits)
  with MultiStore_iterators [where E = list_engine and ?k1.0 = "[1]" and ?k2.0 = "[255]", OF sample_hyps o(1) blocks_run.blocks_start o(2) refl] o(1) show ?thesis
    by (elim exE conjE) (intro exI conjI, assumption+, simp)
qed

text \<open>The block with the object puts it into the cache.\<close>

lemma bindR_okR_iff: "bindR m f = okR y \<longleftrightarrow> (\<exists>x. m = Some (Inr x) \<and> f x = okR y)"
  by (auto simp: bindR_def okR_def split: option.splits sum.splits)

lemma RootI_writes:
  "rs_PrepareForUpdate (RootI E I D S) = RootStore_PrepareForUpdate I D" "rs_BeginWrite (RootI E I D S) = RootStore_BeginWrite I"
  "rs_SetObj (RootI E I D S) = RootStore_SetObj S" "rs_EndWrite (RootI E I D S) = RootStore_EndWrite E I D"
  by (simp_all add: RootI_def)

lemma object_block_cached:
  assumes "run_txblock sampleR bytesObj [] object_block (NewRootStore id okv0 [] (Some sample_cacheable)) = okR (Some r, ts)"
  shows "rt_cache r = Some [([5], [7])]"
proof -
  note stack = run_tx_def NewTrunkStore_def TrunkStore_Cached_def MultiStore_SetObj_def MultiStore_Close_def MultiStore_writeBack_def
    TrunkStore_Update_def deref_def trunk_of_def notWriting_def TrunkStore_PrepareForUpdate_def RootStore_PrepareForUpdate_def RootStore_SetHeight_def
    CacheStore_SetObj_def NewCacheStore_def ScanAllEntries_def cacheEntry_def GetObj_def RootI_reads RootI_writes
  from assms obtain ts1 where ts1: "foldE (run_tx sampleR bytesObj) [([TxSetObj [5] [7]], True)]
      (NewTrunkStore [] (RootStore_SetHeight 1 (NewRootStore id okv0 [] (Some sample_cacheable)))) = Inr ts1"
    "TrunkStore_Close sampleR True ts1 = okR (Some r, ts)" by (auto simp: run_txblock_def run_txs_def bindR_okR_iff RootI_reads)
  from ts1(1) obtain okv where "ts1 = \<lparr>ts_cache = Some [([5], Object [7])],
      ts_root = Some ((NewRootStore id okv0 [] (Some sample_cacheable))\<lparr>rt_height := 1, rt_okv := okv\<rparr>), ts_storeKeys = [], ts_isWriting = 0\<rparr>"
    by (auto simp: stack outcome_simps)
  with ts1(2) obtain r1 r2 where "RootStore_BeginWrite NVTreeI ((NewRootStore id okv0 [] (Some sample_cacheable))\<lparr>rt_height := 1, rt_okv := okv\<rparr>) = Inr r1"
    "writeEntry sampleR [5] (Object [7]) False r1 = Inr r2" "RootStore_EndWrite list_engine NVTreeI (TreeI zero_sha zero_meow) r2 = okR r"
    by (auto simp: TrunkStore_Close_def TrunkStore_writeBack_def bindR_okR_iff stack outcome_simps) (auto simp: okR_def)
  then show ?thesis
    by (auto simp: RootStore_BeginWrite_def NewRootStore_def writeEntry_def RootStore_SetObj_def addToCache_def RootStore_EndWrite_def
        bindR_okR_iff stack cacheableKey_def CacheSizeLimit_def Let_def outcome_simps split: if_splits)
qed

theorem RootStore_cache_witness:
  "\<exists>okv0 r. createOnvaKV list_engine zero_sha zero_meow newFile newFile [] False [1] [255] = Inr okv0 \<and>
    sample_run_to okv0 [object_block] r \<and> rt_cache r = Some [([5], [7])] \<and>
    RootStore_get NVTreeI (TreeI zero_sha zero_meow) [5] r = Inr (Some [7])"
proof -
  from sample_root sample_block_runs obtain okv0 r ts where o: "createOnvaKV list_engine zero_sha zero_meow newFile newFile [] False [1] [255] = Inr okv0"
    "run_txblock sampleR bytesObj [] object_block (NewRootStore id okv0 [] (Some sample_cacheable)) = okR (Some r, ts)"
    "sample_run_to okv0 [object_block] r" by metis
  note cached = object_block_cached [OF o(2)]
  from RootStore_cache [OF sample_hyps o(1,3), THEN conjunct1] obtain cache where "rt_cache r = Some cache"
    "\<forall>k x. map_of cache k = Some x \<longrightarrow> (\<exists>v. s_ToBytes bytesObj x = Some v \<and> RootStore_get NVTreeI (TreeI zero_sha zero_meow) k r = Inr (Some v))"
    by blast
  moreover have "map_of [([5 :: byte], [7 :: byte])] [5] = Some [7]" by simp
  ultimately have "\<exists>v. s_ToBytes bytesObj [7] = Some v \<and> RootStore_get NVTreeI (TreeI zero_sha zero_meow) [5] r = Inr (Some v)"
    using cached by (metis option.inject)
  with o(1,3) cached show ?thesis by (auto simp: bytesObj_def)
qed

theorem MockRootStore_equivalent_witness:
  "\<exists>okv0 r m v. createOnvaKV list_engine zero_sha zero_meow newFile newFile [] False [1] [255] = Inr okv0 \<and> sample_run_to okv0 [sample_block] r \<and>
    blocks_run (MockRootI bytesObj) bytesObj [] (\<lambda>_ blk. txs_fit (\<lambda>_ _. True) bytesObj (snd blk)) NewMockRootStore [sample_block] m \<and>
    RootStore_Get NVTreeI (TreeI zero_sha zero_meow) bytesObj [5] r = Inr v \<and> MockRootStore_Get bytesObj [5] m = Inr v"
proof -
  from sample_blocks obtain okv0 r where o: "createOnvaKV list_engine zero_sha zero_meow newFile newFile [] False [1] [255] = Inr okv0"
    "sample_run_to okv0 [sample_block] r" by blast
  have "[5 :: byte] \<noteq> [1] \<and> [5 :: byte] \<noteq> [255]" by simp
  with MockRootStore_equivalent [OF sample_hyps o] o show ?thesis by blast
qed

end
