(* ===== verification/PrefixStore.thy ===== *)
theory PrefixStore
  imports StoreStack
begin

text \<open>
  The stores with a key prefix over a multi store (store/prefix.go, \<open>SubStore\<close> of store/multi.go), and their
  iterators: what they show is the part of the multi store with the prefix.
\<close>

section \<open>The store\<close>

text \<open>A prefixed store has the multi store as its parent, which is passed along; its keys can be nil slices.\<close>

record PrefixedStore =
  px_prefix :: bytes

definition NewPrefixedStore :: "bytes \<Rightarrow> PrefixedStore" where
  "NewPrefixedStore pre = \<lparr>px_prefix = pre\<rparr>"

text \<open>\<open>SubStore\<close>: None is the multi store itself.\<close>

definition MultiStore_SubStore :: "StrStoreKey option \<Rightarrow> 'o MultiStore \<Rightarrow> PrefixedStore option outcome" where
  "MultiStore_SubStore storeKey ms =
     (case storeKey of None \<Rightarrow> Inr None
      | Some k \<Rightarrow> if k \<notin> set (ms_storeKeys ms) then Inl (Panic ''Invalid StoreKey'') else Inr (Some (NewPrefixedStore (sk_prefix k))))"

definition cloneAppend :: "bytes \<Rightarrow> bytes \<Rightarrow> bytes" where
  "cloneAppend bz tail = bz @ tail"

definition PrefixedStore_key :: "PrefixedStore \<Rightarrow> bytes option \<Rightarrow> bytes outcome" where
  "PrefixedStore_key s key = (case key of None \<Rightarrow> Inl (Panic ''nil key on Store'') | Some key \<Rightarrow> Inr (cloneAppend (px_prefix s) key))"

definition PrefixedStore_Get :: "('r, 'f, 'b, 'o) RootStoreI \<Rightarrow> 'o Serializable \<Rightarrow> PrefixedStore \<Rightarrow> bytes option \<Rightarrow>
    'o MultiStore \<Rightarrow> ('r, 'o) TrunkStore \<Rightarrow> bytes option outcome" where
  "PrefixedStore_Get R S s key ms ts = bindE (PrefixedStore_key s key) (\<lambda>k. MultiStore_Get R S k ms ts)"

definition PrefixedStore_GetObj :: "('r, 'f, 'b, 'o) RootStoreI \<Rightarrow> 'o Serializable \<Rightarrow> PrefixedStore \<Rightarrow> bytes option \<Rightarrow> 'o option \<Rightarrow>
    'o MultiStore \<Rightarrow> ('r, 'o) TrunkStore \<Rightarrow> ('o option \<times> 'o MultiStore) outcome" where
  "PrefixedStore_GetObj R S s key ptr ms ts = bindE (PrefixedStore_key s key) (\<lambda>k. MultiStore_GetObj R S k ptr ms ts)"

definition PrefixedStore_GetReadOnlyObj :: "('r, 'f, 'b, 'o) RootStoreI \<Rightarrow> 'o Serializable \<Rightarrow> PrefixedStore \<Rightarrow> bytes option \<Rightarrow> 'o option \<Rightarrow>
    'o MultiStore \<Rightarrow> ('r, 'o) TrunkStore \<Rightarrow> ('o option \<times> ('r, 'o) TrunkStore) outcome" where
  "PrefixedStore_GetReadOnlyObj R S s key ptr ms ts = bindE (PrefixedStore_key s key) (\<lambda>k. MultiStore_GetReadOnlyObj R S k ptr ms ts)"

definition PrefixedStore_Has :: "('r, 'f, 'b, 'o) RootStoreI \<Rightarrow> 'o Serializable \<Rightarrow> PrefixedStore \<Rightarrow> bytes option \<Rightarrow>
    'o MultiStore \<Rightarrow> ('r, 'o) TrunkStore \<Rightarrow> bool outcome" where
  "PrefixedStore_Has R S s key ms ts = bindE (PrefixedStore_key s key) (\<lambda>k. MultiStore_Has R S k ms ts)"

definition PrefixedStore_Set :: "('r, 'f, 'b, 'o) RootStoreI \<Rightarrow> PrefixedStore \<Rightarrow> bytes option \<Rightarrow> bytes option \<Rightarrow>
    'o MultiStore \<times> ('r, 'o) TrunkStore \<Rightarrow> ('o MultiStore \<times> ('r, 'o) TrunkStore) outcome" where
  "PrefixedStore_Set R s key value st =
     bindE (guardE (value \<noteq> None) (Panic ''value can not be nil'')) (\<lambda>_.
     bindE (PrefixedStore_key s key) (\<lambda>k. MultiStore_Set R k value st))"

definition PrefixedStore_SetObj :: "('r, 'f, 'b, 'o) RootStoreI \<Rightarrow> PrefixedStore \<Rightarrow> bytes option \<Rightarrow> 'o option \<Rightarrow>
    'o MultiStore \<times> ('r, 'o) TrunkStore \<Rightarrow> ('o MultiStore \<times> ('r, 'o) TrunkStore) outcome" where
  "PrefixedStore_SetObj R s key obj st =
     bindE (guardE (obj \<noteq> None) (Panic ''value can not be nil'')) (\<lambda>_.
     bindE (PrefixedStore_key s key) (\<lambda>k. MultiStore_SetObj R k obj st))"

definition PrefixedStore_Delete :: "('r, 'f, 'b, 'o) RootStoreI \<Rightarrow> PrefixedStore \<Rightarrow> bytes option \<Rightarrow>
    'o MultiStore \<times> ('r, 'o) TrunkStore \<Rightarrow> ('o MultiStore \<times> ('r, 'o) TrunkStore) outcome" where
  "PrefixedStore_Delete R s key st = bindE (PrefixedStore_key s key) (\<lambda>k. MultiStore_Delete R k st)"

section \<open>Its iterators\<close>

record 'i prefixIterator =
  pi_prefix :: bytes
  pi_start :: bytes
  pi_end :: bytes
  pi_iter :: 'i
  pi_valid :: bool

definition HasPrefix :: "bytes \<Rightarrow> bytes \<Rightarrow> bool" where
  "HasPrefix key pre \<longleftrightarrow> length pre \<le> length key \<and> take (length pre) key = pre"

definition stripPrefix :: "bytes \<Rightarrow> bytes \<Rightarrow> bytes outcome" where
  "stripPrefix key pre =
     (if length key < length pre \<or> take (length pre) key \<noteq> pre then Inl (Panic ''should not happen'')
      else Inr (drop (length pre) key))"

text \<open>\<open>iter.Valid() \<and> bytes.HasPrefix(iter.Key(), pre)\<close> with the second test made only after the first.\<close>

definition atPrefix :: "('i, 'o) ObjIterator \<Rightarrow> bytes \<Rightarrow> 'i \<Rightarrow> (bool \<times> 'i) result" where
  "atPrefix I pre i =
     bindR (oi_Valid I i) (\<lambda>(v, i). if \<not> v then okR (False, i) else bindR (oi_Key I i) (\<lambda>(key, i). okR (HasPrefix key pre, i)))"

definition newPrefixIterator :: "('i, 'o) ObjIterator \<Rightarrow> bytes \<Rightarrow> bytes \<Rightarrow> bytes \<Rightarrow> 'i \<Rightarrow> 'i prefixIterator result" where
  "newPrefixIterator I pre start end' parent =
     bindR (atPrefix I pre parent) (\<lambda>(v, i).
       okR \<lparr>pi_prefix = pre, pi_start = start, pi_end = end', pi_iter = i, pi_valid = v\<rparr>)"

definition prefix_Valid :: "('i, 'o) ObjIterator \<Rightarrow> 'i prefixIterator \<Rightarrow> (bool \<times> 'i prefixIterator) result" where
  "prefix_Valid I it =
     (if \<not> pi_valid it then okR (False, it) else bindR (oi_Valid I (pi_iter it)) (\<lambda>(v, i). okR (v, it\<lparr>pi_iter := i\<rparr>)))"

definition prefix_Next :: "('i, 'o) ObjIterator \<Rightarrow> 'i prefixIterator \<Rightarrow> 'i prefixIterator result" where
  "prefix_Next I it =
     (if \<not> pi_valid it then Some (Inl (Panic ''prefixIterator invalid, cannot call Next()''))
      else bindR (oi_Next I (pi_iter it)) (\<lambda>i. bindR (atPrefix I (pi_prefix it) i) (\<lambda>(v, i).
        okR (if \<not> v then it\<lparr>pi_iter := i, pi_valid := False\<rparr> else it\<lparr>pi_iter := i\<rparr>))))"

definition prefix_Key :: "('i, 'o) ObjIterator \<Rightarrow> 'i prefixIterator \<Rightarrow> (bytes \<times> 'i prefixIterator) result" where
  "prefix_Key I it =
     (if \<not> pi_valid it then Some (Inl (Panic ''prefixIterator invalid, cannot call Key()''))
      else bindR (oi_Key I (pi_iter it)) (\<lambda>(key, i). bindR (Some (stripPrefix key (pi_prefix it))) (\<lambda>key. okR (key, it\<lparr>pi_iter := i\<rparr>))))"

definition prefix_Value :: "('i, 'o) ObjIterator \<Rightarrow> 'i prefixIterator \<Rightarrow> (bytes option \<times> 'i prefixIterator) result" where
  "prefix_Value I it =
     (if \<not> pi_valid it then Some (Inl (Panic ''prefixIterator invalid, cannot call Value()''))
      else bindR (oi_Value I (pi_iter it)) (\<lambda>(bz, i). okR (bz, it\<lparr>pi_iter := i\<rparr>)))"

definition prefix_ObjValue :: "('i, 'o) ObjIterator \<Rightarrow> 'o option \<Rightarrow> 'i prefixIterator \<Rightarrow> ('o option \<times> 'i prefixIterator) result" where
  "prefix_ObjValue I ptr it =
     (if \<not> pi_valid it then Some (Inl (Panic ''prefixIterator invalid, cannot call Value()''))
      else bindR (oi_ObjValue I ptr (pi_iter it)) (\<lambda>(ptr, i). okR (ptr, it\<lparr>pi_iter := i\<rparr>)))"

definition PrefixI :: "('i, 'o) ObjIterator \<Rightarrow> ('i prefixIterator, 'o) ObjIterator" where
  "PrefixI I = \<lparr>oi_Domain = (\<lambda>it. (pi_start it, pi_end it)), oi_Valid = prefix_Valid I, oi_Next = prefix_Next I, oi_Key = prefix_Key I,
     oi_Value = prefix_Value I, oi_ObjValue = prefix_ObjValue I\<rparr>"

text \<open>The two iterators of a prefixed store, over the iterators \<open>MI\<close> of the multi store.\<close>

definition PrefixedStore_Iterator :: "('r, 'f, 'b, 'o) RootStoreI \<Rightarrow>
    ((('f, 'o CacheForward) cacheMergeIterator, 'o CacheForward) cacheMergeIterator, 'o) ObjIterator \<Rightarrow>
    PrefixedStore \<Rightarrow> bytes option \<Rightarrow> bytes option \<Rightarrow> 'o MultiStore \<Rightarrow> ('r, 'o) TrunkStore \<Rightarrow>
    (('f, 'o CacheForward) cacheMergeIterator, 'o CacheForward) cacheMergeIterator prefixIterator result" where
  "PrefixedStore_Iterator R MI s start end' ms ts =
     (case (start, end') of
        (Some start, Some end') \<Rightarrow>
          bindR (Some (MultiStore_Iterator R (cloneAppend (px_prefix s) start) (cloneAppend (px_prefix s) end') ms ts))
            (newPrefixIterator MI (px_prefix s) start end')
      | _ \<Rightarrow> Some (Inl (Panic ''OnvaKV does not support nil slices for iterator'')))"

definition PrefixedStore_ReverseIterator :: "('r, 'f, 'b, 'o) RootStoreI \<Rightarrow>
    ((('b, 'o CacheBackward) cacheMergeIterator, 'o CacheBackward) cacheMergeIterator, 'o) ObjIterator \<Rightarrow>
    PrefixedStore \<Rightarrow> bytes option \<Rightarrow> bytes option \<Rightarrow> 'o MultiStore \<Rightarrow> ('r, 'o) TrunkStore \<Rightarrow>
    (('b, 'o CacheBackward) cacheMergeIterator, 'o CacheBackward) cacheMergeIterator prefixIterator result" where
  "PrefixedStore_ReverseIterator R MI s start end' ms ts =
     (case (start, end') of
        (Some start, Some end') \<Rightarrow>
          bindR (Some (MultiStore_ReverseIterator R (cloneAppend (px_prefix s) start) (cloneAppend (px_prefix s) end') ms ts))
            (newPrefixIterator MI (px_prefix s) start end')
      | _ \<Rightarrow> Some (Inl (Panic ''OnvaKV does not support nil slices for iterator'')))"

section \<open>Keys with a prefix\<close>

lemma HasPrefix_append [simp]: "HasPrefix (p @ k) p"
  by (simp add: HasPrefix_def)

lemma HasPrefix_iff: "HasPrefix key p \<longleftrightarrow> (\<exists>k. key = p @ k)"
proof
  assume "HasPrefix key p"
  then have "key = p @ drop (length p) key" unfolding HasPrefix_def using append_take_drop_id [of "length p" key] by metis
  then show "\<exists>k. key = p @ k" by blast
qed auto

lemma append_less [simp]: "(p @ a < p @ b) = (a < (b :: bytes))"
  by (induction p) auto

lemma append_le [simp]: "(p @ a \<le> p @ b) = (a \<le> (b :: bytes))"
  by (induction p) auto

text \<open>Keys between two keys with the prefix have it.\<close>

lemma between_prefix:
  fixes key :: bytes
  shows "p @ a \<le> key \<Longrightarrow> key < p @ b \<Longrightarrow> HasPrefix key p"
proof (induction p arbitrary: key)
  case Nil
  show ?case by (simp add: HasPrefix_def)
next
  case (Cons x p)
  then obtain y k where k: "key = y # k" by (cases key) auto
  with Cons.prems have "y = x" "p @ a \<le> k" "k < p @ b" by (auto split: if_splits)
  with Cons.IH [of k] k show ?case by (simp add: HasPrefix_def)
qed

section \<open>The contract of the iterator\<close>

definition strip_item :: "bytes \<Rightarrow> 'o item \<Rightarrow> 'o item" where
  "strip_item p x = (drop (length p) (item_key x), snd x)"

text \<open>A valid prefix iterator stands on an item with the prefix, and its items end at the first without.\<close>

definition px_inv :: "('i \<Rightarrow> bool) \<Rightarrow> ('i \<Rightarrow> 'o item list) \<Rightarrow> 'i prefixIterator \<Rightarrow> bool" where
  "px_inv invar rest it \<longleftrightarrow> invar (pi_iter it) \<and>
     (pi_valid it \<longrightarrow> (\<exists>x xs. rest (pi_iter it) = x # xs \<and> HasPrefix (item_key x) (pi_prefix it)))"

definition px_rest :: "('i \<Rightarrow> 'o item list) \<Rightarrow> 'i prefixIterator \<Rightarrow> 'o item list" where
  "px_rest rest it = (if pi_valid it
     then map (strip_item (pi_prefix it)) (takeWhile (\<lambda>x. HasPrefix (item_key x) (pi_prefix it)) (rest (pi_iter it))) else [])"

lemma stripPrefix_ok: "HasPrefix key p \<Longrightarrow> stripPrefix key p = Inr (drop (length p) key)"
  by (simp add: HasPrefix_def stripPrefix_def)

context obj_iterator
begin

lemma atPrefix_ok:
  assumes "inv i"
  shows "\<exists>i'. atPrefix I p i = okR (rest i \<noteq> [] \<and> HasPrefix (item_key (hd (rest i))) p, i') \<and> inv i' \<and> rest i' = rest i"
proof (cases "rest i")
  case Nil
  with Valid_Nil [OF assms] show ?thesis by (auto simp: atPrefix_def)
next
  case (Cons x xs)
  from Valid_Cons [OF assms Cons] obtain a where a: "oi_Valid I i = okR (True, a)" "inv a" "rest a = x # xs" by blast
  from Key [OF a(2,3)] obtain b where "oi_Key I a = okR (item_key x, b)" "inv b" "rest b = x # xs" using a(3) by auto
  with a Cons show ?thesis by (auto simp: atPrefix_def)
qed

lemma newPrefixIterator_ok:
  assumes "inv i"
  shows "\<exists>it. newPrefixIterator I p s e i = okR it \<and> px_inv inv rest it \<and>
    px_rest rest it = map (strip_item p) (takeWhile (\<lambda>x. HasPrefix (item_key x) p) (rest i))"
proof -
  from atPrefix_ok [OF assms, of p] obtain j where j: "atPrefix I p i = okR (rest i \<noteq> [] \<and> HasPrefix (item_key (hd (rest i))) p, j)"
    "inv j" "rest j = rest i" by blast
  then show ?thesis by (cases "rest i") (auto simp: newPrefixIterator_def px_inv_def px_rest_def)
qed

text \<open>A prefix iterator over an iterator with the contract has it too.\<close>

lemma prefixed: "obj_iterator (PrefixI I) (px_inv inv rest) (px_rest rest)"
proof
  fix it :: "'i prefixIterator" and x xs ptr
  let ?p = "pi_prefix it" and ?i = "pi_iter it"
  assume it: "px_inv inv rest it"
  then have i: "inv ?i" by (simp add: px_inv_def)
  show "\<exists>i'. oi_Valid (PrefixI I) it = okR (px_rest rest it \<noteq> [], i') \<and> px_inv inv rest i' \<and> px_rest rest i' = px_rest rest it"
  proof (cases "pi_valid it")
    case False
    with it show ?thesis by (simp add: PrefixI_def prefix_Valid_def px_rest_def)
  next
    case True
    with it obtain y ys where y: "rest ?i = y # ys" "HasPrefix (item_key y) ?p" by (auto simp: px_inv_def)
    from Valid_Cons [OF i y(1)] obtain j where "oi_Valid I ?i = okR (True, j)" "inv j" "rest j = y # ys" by blast
    with True y show ?thesis by (intro exI [of _ "it\<lparr>pi_iter := j\<rparr>"]) (simp add: PrefixI_def prefix_Valid_def px_rest_def px_inv_def del: split_paired_Ex)
  qed
  assume rest: "px_rest rest it = x # xs"
  then have v: "pi_valid it" by (auto simp: px_rest_def split: if_splits)
  with it obtain y ys where y: "rest ?i = y # ys" "HasPrefix (item_key y) ?p" by (auto simp: px_inv_def)
  then have x: "x = strip_item ?p y" "xs = map (strip_item ?p) (takeWhile (\<lambda>x. HasPrefix (item_key x) ?p) ys)"
    using rest v by (simp_all add: px_rest_def)
  have same: "px_inv inv rest (it\<lparr>pi_iter := j\<rparr>) \<and> px_rest rest (it\<lparr>pi_iter := j\<rparr>) = px_rest rest it" if "inv j" "rest j = rest ?i" for j
    using that it by (simp add: px_inv_def px_rest_def)
  from Next [OF i y(1)] obtain j where j: "oi_Next I ?i = okR j" "inv j" "rest j = ys" by blast
  from atPrefix_ok [OF j(2), of ?p] obtain k where k: "atPrefix I ?p j = okR (rest j \<noteq> [] \<and> HasPrefix (item_key (hd (rest j))) ?p, k)"
    "inv k" "rest k = ys" using j(3) by auto
  let ?v = "rest j \<noteq> [] \<and> HasPrefix (item_key (hd (rest j))) ?p"
  let ?it = "if \<not> ?v then it\<lparr>pi_iter := k, pi_valid := False\<rparr> else it\<lparr>pi_iter := k\<rparr>"
  have "oi_Next (PrefixI I) it = okR ?it" using v j(1) k(1) by (simp add: PrefixI_def prefix_Next_def)
  moreover have "px_inv inv rest ?it \<and> px_rest rest ?it = xs"
    using k(2,3) j(3) v x(2) by (cases ys) (simp_all add: px_inv_def px_rest_def del: split_paired_Ex)
  ultimately show "\<exists>i'. oi_Next (PrefixI I) it = okR i' \<and> px_inv inv rest i' \<and> px_rest rest i' = xs" by blast
  from Key [OF i y(1)] obtain j where "oi_Key I ?i = okR (item_key y, j)" "inv j" "rest j = rest ?i" by blast
  with same [of j] v stripPrefix_ok [OF y(2)] x(1)
  show "\<exists>i'. oi_Key (PrefixI I) it = okR (item_key x, i') \<and> px_inv inv rest i' \<and> px_rest rest i' = px_rest rest it"
    by (simp add: PrefixI_def prefix_Key_def strip_item_def)
  from Value [OF i y(1)] obtain j where "oi_Value I ?i = okR (item_value y, j)" "inv j" "rest j = rest ?i" by blast
  with same [of j] v x(1) show "\<exists>i'. oi_Value (PrefixI I) it = okR (item_value x, i') \<and> px_inv inv rest i' \<and> px_rest rest i' = px_rest rest it"
    by (simp add: PrefixI_def prefix_Value_def strip_item_def)
  from ObjValue [OF i y(1), of ptr] show "(\<exists>e. item_read x ptr = Inl e \<and> oi_ObjValue (PrefixI I) ptr it = Some (Inl e)) \<or>
      (\<exists>q i'. item_read x ptr = Inr q \<and> oi_ObjValue (PrefixI I) ptr it = okR (q, i') \<and> px_inv inv rest i' \<and> px_rest rest i' = px_rest rest it)"
    using same v x(1) by (auto simp: PrefixI_def prefix_ObjValue_def strip_item_def bindR_def okR_def)
qed

end

section \<open>What a prefixed store shows\<close>

lemma enumerates_prefix:
  assumes en: "enumerates asc (p @ s) (p @ e) M xs"
  shows "takeWhile (\<lambda>x. HasPrefix (item_key x) p) xs = xs"
    and "enumerates asc s e (\<lambda>k. M (p @ k)) (map (strip_item p) xs)"
proof -
  have srt: "keys_sorted asc xs" and vals: "None \<notin> item_value ` set xs" and im: "item_map xs = range_map (p @ s) (p @ e) M"
    using en by (simp_all add: enumerates_def)
  have pre: "HasPrefix (item_key x) p" if "x \<in> set xs" for x
  proof -
    have "map_of xs (item_key x) = Some (snd x)" using that keys_sorted_distinct [OF srt] by simp
    moreover have "fst (snd x) \<noteq> None" using that vals by force
    ultimately have "range_map (p @ s) (p @ e) M (item_key x) \<noteq> None" by (simp add: im [symmetric] item_map_def)
    then show ?thesis by (auto simp: range_map_def intro: between_prefix split: if_splits)
  qed
  then show "takeWhile (\<lambda>x. HasPrefix (item_key x) p) xs = xs" by (simp add: takeWhile_eq_all_conv)
  have keys: "map fst xs = map (\<lambda>x. p @ fst (strip_item p x)) xs"
    using pre by (force simp: strip_item_def HasPrefix_iff)
  have "sorted_wrt (mi_less asc) (map (\<lambda>x. p @ fst (strip_item p x)) xs)" using srt unfolding keys .
  then have "keys_sorted asc (map (strip_item p) xs)" by (cases asc) (simp_all add: sorted_wrt_map mi_less_def [abs_def])
  moreover have "None \<notin> item_value ` set (map (strip_item p) xs)" using vals by (force simp: strip_item_def)
  moreover have strip: "map_of (map (strip_item p) ys) k = map_of ys (p @ k)" if "\<forall>x \<in> set ys. HasPrefix (item_key x) p" for ys k
    using that by (induction ys) (auto simp: strip_item_def HasPrefix_iff)
  have "item_map (map (strip_item p) xs) k = item_map xs (p @ k)" for k
    using strip [of xs k] pre by (simp add: item_map_def)
  then have "item_map (map (strip_item p) xs) = range_map s e (\<lambda>k. M (p @ k))" by (simp add: im range_map_def fun_eq_iff)
  ultimately show "enumerates asc s e (\<lambda>k. M (p @ k)) (map (strip_item p) xs)" by (simp add: enumerates_def)
qed

sublocale root_store \<subseteq> PF: obj_iterator "PrefixI (MergeI (MergeI FI (CacheForwardI S)) (CacheForwardI S))"
  "px_inv (merge_inv (merge_inv invF restF cf_inv (cf_rest S)) (merge_rest restF (cf_rest S)) cf_inv (cf_rest S))
    (merge_rest (merge_rest restF (cf_rest S)) (cf_rest S))"
  "px_rest (merge_rest (merge_rest restF (cf_rest S)) (cf_rest S))"
  by (rule MF.merged.prefixed)

sublocale root_store \<subseteq> PB: obj_iterator "PrefixI (MergeI (MergeI BI (CacheBackwardI S)) (CacheBackwardI S))"
  "px_inv (merge_inv (merge_inv invB restB cb_inv (cb_rest S)) (merge_rest restB (cb_rest S)) cb_inv (cb_rest S))
    (merge_rest (merge_rest restB (cb_rest S)) (cb_rest S))"
  "px_rest (merge_rest (merge_rest restB (cb_rest S)) (cb_rest S))"
  by (rule MB.merged.prefixed)

context root_store
begin

lemma PrefixedStore_read_ok:
  assumes "multi_ok rinv storable S ps (ms, ts)"
  shows "PrefixedStore_Get R S st (Some k) ms ts = Inr (multi_view view S (ms, ts) (px_prefix st @ k))"
    "PrefixedStore_Has R S st (Some k) ms ts = Inr (multi_view view S (ms, ts) (px_prefix st @ k) \<noteq> None)"
  using MultiStore_Get_ok [OF assms] MultiStore_Has_ok [OF assms]
  by (simp_all add: PrefixedStore_Get_def PrefixedStore_Has_def PrefixedStore_key_def cloneAppend_def)

lemma PrefixedStore_collect:
  assumes "multi_ok rinv storable S ps (ms, ts)"
  defines "MF' \<equiv> MergeI (MergeI FI (CacheForwardI S)) (CacheForwardI S)" and "MB' \<equiv> MergeI (MergeI BI (CacheBackwardI S)) (CacheBackwardI S)"
  shows "\<exists>it xs. PrefixedStore_Iterator R MF' st (Some s) (Some e) ms ts = okR it \<and> collect (PrefixI MF') [] it = okR xs \<and>
      sorted_wrt (<) (map fst xs) \<and> set xs = {(k, Some v) | k v. s \<le> k \<and> k < e \<and> multi_view view S (ms, ts) (px_prefix st @ k) = Some v}"
    "\<exists>it xs. PrefixedStore_ReverseIterator R MB' st (Some s) (Some e) ms ts = okR it \<and> collect (PrefixI MB') [] it = okR xs \<and>
      sorted_wrt (>) (map fst xs) \<and> set xs = {(k, Some v) | k v. s \<le> k \<and> k < e \<and> multi_view view S (ms, ts) (px_prefix st @ k) = Some v}"
proof -
  let ?p = "px_prefix st"
  from MultiStore_Iterator_ok [OF assms(1), of "?p @ s" "?p @ e"] obtain i where i: "MultiStore_Iterator R (?p @ s) (?p @ e) ms ts = Inr i"
    "merge_inv (merge_inv invF restF cf_inv (cf_rest S)) (merge_rest restF (cf_rest S)) cf_inv (cf_rest S) i"
    "enumerates True (?p @ s) (?p @ e) (multi_view view S (ms, ts)) (merge_rest (merge_rest restF (cf_rest S)) (cf_rest S) i)" by blast
  note en = enumerates_prefix [OF i(3)]
  from MF.merged.newPrefixIterator_ok [OF i(2), of ?p s e] obtain it where it: "newPrefixIterator MF' ?p s e i = okR it"
    "px_inv (merge_inv (merge_inv invF restF cf_inv (cf_rest S)) (merge_rest restF (cf_rest S)) cf_inv (cf_rest S))
      (merge_rest (merge_rest restF (cf_rest S)) (cf_rest S)) it"
    "px_rest (merge_rest (merge_rest restF (cf_rest S)) (cf_rest S)) it =
      map (strip_item ?p) (merge_rest (merge_rest restF (cf_rest S)) (cf_rest S) i)" unfolding en(1) MF'_def by blast
  have new: "PrefixedStore_Iterator R MF' st (Some s) (Some e) ms ts = okR it"
    using i(1) it(1) by (simp add: PrefixedStore_Iterator_def cloneAppend_def bindR_def)
  from PF.collect_items_ok [OF it(2)] enumerates_set [OF en(2)] new
  show "\<exists>it xs. PrefixedStore_Iterator R MF' st (Some s) (Some e) ms ts = okR it \<and> collect (PrefixI MF') [] it = okR xs \<and>
      sorted_wrt (<) (map fst xs) \<and> set xs = {(k, Some v) | k v. s \<le> k \<and> k < e \<and> multi_view view S (ms, ts) (?p @ k) = Some v}"
    unfolding it(3) MF'_def by (auto simp: mi_less_def [abs_def])
  from MultiStore_ReverseIterator_ok [OF assms(1), of "?p @ s" "?p @ e"] obtain i where i: "MultiStore_ReverseIterator R (?p @ s) (?p @ e) ms ts = Inr i"
    "merge_inv (merge_inv invB restB cb_inv (cb_rest S)) (merge_rest restB (cb_rest S)) cb_inv (cb_rest S) i"
    "enumerates False (?p @ s) (?p @ e) (multi_view view S (ms, ts)) (merge_rest (merge_rest restB (cb_rest S)) (cb_rest S) i)" by blast
  note en = enumerates_prefix [OF i(3)]
  from MB.merged.newPrefixIterator_ok [OF i(2), of ?p s e] obtain it where it: "newPrefixIterator MB' ?p s e i = okR it"
    "px_inv (merge_inv (merge_inv invB restB cb_inv (cb_rest S)) (merge_rest restB (cb_rest S)) cb_inv (cb_rest S))
      (merge_rest (merge_rest restB (cb_rest S)) (cb_rest S)) it"
    "px_rest (merge_rest (merge_rest restB (cb_rest S)) (cb_rest S)) it =
      map (strip_item ?p) (merge_rest (merge_rest restB (cb_rest S)) (cb_rest S) i)" unfolding en(1) MB'_def by blast
  have new: "PrefixedStore_ReverseIterator R MB' st (Some s) (Some e) ms ts = okR it"
    using i(1) it(1) by (simp add: PrefixedStore_ReverseIterator_def cloneAppend_def bindR_def)
  from PB.collect_items_ok [OF it(2)] enumerates_set [OF en(2)] new
  show "\<exists>it xs. PrefixedStore_ReverseIterator R MB' st (Some s) (Some e) ms ts = okR it \<and> collect (PrefixI MB') [] it = okR xs \<and>
      sorted_wrt (>) (map fst xs) \<and> set xs = {(k, Some v) | k v. s \<le> k \<and> k < e \<and> multi_view view S (ms, ts) (?p @ k) = Some v}"
    unfolding it(3) MB'_def by (auto simp: mi_less_def [abs_def])
qed

end

end
