(* ===== verification/SubStores.thy ===== *)
theory SubStores
  imports StoreMain PrefixStore
begin

text \<open>
  The prefixed stores of an open transaction over the root store of an OnvaKV store: what they read, and
  that a write through one of them changes one key only.
\<close>

context object_store
begin

lemmas PrefixedStore_read_ok = root.PrefixedStore_read_ok and PrefixedStore_collect = root.PrefixedStore_collect

end

text \<open>
  C9: a prefixed store of an open transaction shows the keys of the transaction with its prefix: \<open>Get\<close> and \<open>Has\<close>
  read the map at the prefixed key, and the loops over its iterators return with the keys of the range
  that have the prefix, stripped of it, in ascending and in descending order.
\<close>

theorem PrefixedStore_view:
  fixes okv0 :: "(NVTreeMem, Tree, 'e) OnvaKV" and S :: "'o Serializable"
  assumes "hash32 sha" "meow4 meow" and "new_files ef tf" and "guards_ok maxString s e" and "serializable S" and "\<not> c s" "\<not> c e"
    and "createOnvaKV E0 sha meow ef tf db0 q s e = Inr okv0"
    and "blocks_run (RootI E NVTreeI (TreeI sha meow) S) S keys (block_allowed NVTreeI S c) (NewRootStore rnd okv0 keys (Some c)) bs r"
    and "block_allowed NVTreeI S c r (height, txs @ [(ops, b)])"
    and M: "M = fold (op_effect S) ops (fold (tx_effect S) txs (blocks_effect S bs (guard_map s e)))"
  shows "\<exists>ms ts it xs it' ys. run_inside (RootI E NVTreeI (TreeI sha meow) S) S keys txs ops (RootStore_SetHeight height r) = Inr (ms, ts) \<and>
    (\<forall>k. PrefixedStore_Get (RootI E NVTreeI (TreeI sha meow) S) S st (Some k) ms ts = Inr (M (px_prefix st @ k)) \<and>
      PrefixedStore_Has (RootI E NVTreeI (TreeI sha meow) S) S st (Some k) ms ts = Inr (M (px_prefix st @ k) \<noteq> None)) \<and>
    PrefixedStore_Iterator (RootI E NVTreeI (TreeI sha meow) S)
      (MergeI (MergeI (RootForwardI NVTreeI (TreeI sha meow) S) (CacheForwardI S)) (CacheForwardI S)) st (Some k1) (Some k2) ms ts = okR it \<and>
    collect (PrefixI (MergeI (MergeI (RootForwardI NVTreeI (TreeI sha meow) S) (CacheForwardI S)) (CacheForwardI S))) [] it = okR xs \<and>
    sorted_wrt (<) (map fst xs) \<and> set xs = {(k, Some v) | k v. k1 \<le> k \<and> k < k2 \<and> M (px_prefix st @ k) = Some v} \<and>
    PrefixedStore_ReverseIterator (RootI E NVTreeI (TreeI sha meow) S)
      (MergeI (MergeI (RootBackwardI NVTreeI (TreeI sha meow) S) (CacheBackwardI S)) (CacheBackwardI S)) st (Some k1) (Some k2) ms ts = okR it' \<and>
    collect (PrefixI (MergeI (MergeI (RootBackwardI NVTreeI (TreeI sha meow) S) (CacheBackwardI S)) (CacheBackwardI S))) [] it' = okR ys \<and>
    sorted_wrt (>) (map fst ys) \<and> set ys = {(k, Some v) | k v. k1 \<le> k \<and> k < k2 \<and> M (px_prefix st @ k) = Some v}"
proof -
  note os = real_objects [OF assms(1,2,5), where 'e = 'e]
  from real_inside [OF assms(1-10)] obtain ms ts ps where
    i: "run_inside (RootI E NVTreeI (TreeI sha meow) S) S keys txs ops (RootStore_SetHeight height r) = Inr (ms, ts)"
    "multi_ok (root_inv (onva_ok sha) NVTreeI (TreeI sha meow) S c) (root_storable S c) S ps (ms, ts)"
    "multi_view (root_view NVTreeI (TreeI sha meow)) S (ms, ts) = M" unfolding M by blast
  note reads = object_store.PrefixedStore_read_ok [OF os i(2), where E = E, unfolded i(3)]
  note loops = object_store.PrefixedStore_collect [OF os i(2), where E = E and s = k1 and e = k2 and st = st, unfolded i(3)]
  from reads have "\<forall>k. PrefixedStore_Get (RootI E NVTreeI (TreeI sha meow) S) S st (Some k) ms ts = Inr (M (px_prefix st @ k)) \<and>
      PrefixedStore_Has (RootI E NVTreeI (TreeI sha meow) S) S st (Some k) ms ts = Inr (M (px_prefix st @ k) \<noteq> None)" by blast
  with loops(1) loops(2) i(1) show ?thesis by (elim exE conjE) (intro exI conjI, assumption+)
qed

text \<open>
  C10: a write through a prefixed store of an open transaction returns and changes what every prefixed store
  reads at that one key of the transaction only: stores whose prefixed keys differ do not see it.
\<close>

theorem PrefixedStore_Set_isolated:
  fixes okv0 :: "(NVTreeMem, Tree, 'e) OnvaKV" and S :: "'o Serializable"
  assumes "hash32 sha" "meow4 meow" and "new_files ef tf" and "guards_ok maxString s e" and "serializable S" and "\<not> c s" "\<not> c e"
    and "createOnvaKV E0 sha meow ef tf db0 q s e = Inr okv0"
    and "blocks_run (RootI E NVTreeI (TreeI sha meow) S) S keys (block_allowed NVTreeI S c) (NewRootStore rnd okv0 keys (Some c)) bs r"
    and "block_allowed NVTreeI S c r (height, txs @ [(ops @ [TxSet (px_prefix st @ k) v], b)])"
    and M: "M = fold (op_effect S) ops (fold (tx_effect S) txs (blocks_effect S bs (guard_map s e)))"
  shows "\<exists>ms ts ms' ts'. run_inside (RootI E NVTreeI (TreeI sha meow) S) S keys txs ops (RootStore_SetHeight height r) = Inr (ms, ts) \<and>
    PrefixedStore_Set (RootI E NVTreeI (TreeI sha meow) S) st (Some k) (Some v) (ms, ts) = Inr (ms', ts') \<and>
    (\<forall>st' k'. PrefixedStore_Get (RootI E NVTreeI (TreeI sha meow) S) S st' (Some k') ms' ts' =
      Inr (if px_prefix st' @ k' = px_prefix st @ k then Some v else M (px_prefix st' @ k')))"
proof -
  let ?R = "RootI E NVTreeI (TreeI sha meow) S" and ?op = "TxSet (px_prefix st @ k) v :: 'o tx_op"
  note os = real_objects [OF assms(1,2,5), where 'e = 'e]
  from real_inside [OF assms(1-10)] obtain ms' ts' ps where
    i: "run_inside ?R S keys txs (ops @ [?op]) (RootStore_SetHeight height r) = Inr (ms', ts')"
    "multi_ok (root_inv (onva_ok sha) NVTreeI (TreeI sha meow) S c) (root_storable S c) S ps (ms', ts')"
    "multi_view (root_view NVTreeI (TreeI sha meow)) S (ms', ts') = M(px_prefix st @ k \<mapsto> v)" unfolding M by auto
  from i(1) obtain ms ts where "run_inside ?R S keys txs ops (RootStore_SetHeight height r) = Inr (ms, ts)"
    "MultiStore_Set ?R (px_prefix st @ k) (Some v) (ms, ts) = Inr (ms', ts')"
    by (auto simp: run_inside_def foldE_append bindE_eq_Inr)
  with object_store.PrefixedStore_read_ok(1) [OF os i(2), where E = E, unfolded i(3)] show ?thesis
    by (intro exI [of _ ms] exI [of _ ts] exI [of _ ms'] exI [of _ ts']) (simp add: PrefixedStore_Set_def PrefixedStore_key_def cloneAppend_def)
qed

section \<open>A run\<close>

theorem PrefixedStore_view_witness:
  "\<exists>okv0 ms ts it xs. createOnvaKV list_engine zero_sha zero_meow newFile newFile [] False [1] [255] = Inr okv0 \<and>
    run_inside sampleR bytesObj [] [([TxSet [5] [7]], True)] [TxRead [5] [], TxDelete [5]]
      (RootStore_SetHeight 1 (NewRootStore id okv0 [] (Some sample_cacheable))) = Inr (ms, ts) \<and>
    PrefixedStore_Iterator sampleR (MergeI (MergeI (RootForwardI NVTreeI (TreeI zero_sha zero_meow) bytesObj) (CacheForwardI bytesObj)) (CacheForwardI bytesObj))
      (NewPrefixedStore [1]) (Some []) (Some [255]) ms ts = okR it \<and>
    collect (PrefixI (MergeI (MergeI (RootForwardI NVTreeI (TreeI zero_sha zero_meow) bytesObj) (CacheForwardI bytesObj)) (CacheForwardI bytesObj))) [] it = okR xs \<and>
    set xs = {([], Some [])}"
proof -
  from sample_root obtain okv0 where o: "createOnvaKV list_engine zero_sha zero_meow newFile newFile [] False [1] [255] = Inr okv0"
    "block_allowed NVTreeI bytesObj sample_cacheable (NewRootStore id okv0 [] (Some sample_cacheable)) (1, [([TxSet [5] [7]], True)] @ [([TxRead [5] [], TxDelete [5]], False)])"
    by auto
  let ?M = "fold (op_effect bytesObj) [TxRead [5] [], TxDelete [5]] (fold (tx_effect bytesObj) [([TxSet [5] [7]], True)] (blocks_effect bytesObj [] (guard_map [1] [255])))"
  have "?M = guard_map [1] [255]" by (auto simp: blocks_effect_def tx_effect_def guard_map_def fun_eq_iff)
  then have "{(k, Some v) | k v. [] \<le> k \<and> k < [255] \<and> ?M (px_prefix (NewPrefixedStore [1]) @ k) = Some v} = {([], Some [])}"
    by (auto simp: guard_map_def NewPrefixedStore_def split: if_splits)
  with PrefixedStore_view [where E = list_engine and ?k1.0 = "[]" and ?k2.0 = "[255]" and st = "NewPrefixedStore [1]",
    OF sample_hyps o(1) blocks_run.blocks_start o(2) refl] o(1) show ?thesis
    by (elim exE conjE) (intro exI conjI, assumption+, simp)
qed

theorem PrefixedStore_Set_isolated_witness:
  "\<exists>okv0 ms ts ms' ts'. createOnvaKV list_engine zero_sha zero_meow newFile newFile [] False [1] [255] = Inr okv0 \<and>
    run_inside sampleR bytesObj [] [] [] (RootStore_SetHeight 1 (NewRootStore id okv0 [] (Some sample_cacheable))) = Inr (ms, ts) \<and>
    PrefixedStore_Set sampleR (NewPrefixedStore [5]) (Some []) (Some [7]) (ms, ts) = Inr (ms', ts') \<and>
    PrefixedStore_Get sampleR bytesObj (NewPrefixedStore []) (Some [5]) ms' ts' = Inr (Some [7]) \<and>
    PrefixedStore_Get sampleR bytesObj (NewPrefixedStore [6]) (Some []) ms' ts' = Inr None"
proof -
  from sample_root obtain okv0 where o: "createOnvaKV list_engine zero_sha zero_meow newFile newFile [] False [1] [255] = Inr okv0"
    "block_allowed NVTreeI bytesObj sample_cacheable (NewRootStore id okv0 [] (Some sample_cacheable)) sample_block" by blast
  from o(2) have a: "block_allowed NVTreeI bytesObj sample_cacheable (NewRootStore id okv0 [] (Some sample_cacheable))
      (1, [] @ [([] @ [TxSet (px_prefix (NewPrefixedStore [5]) @ []) [7]], True)])"
    by (auto simp: block_allowed_def NewPrefixedStore_def intro: root_allowed_fewer)
  have "fold (op_effect bytesObj) [] (fold (tx_effect bytesObj) [] (blocks_effect bytesObj [] (guard_map [1] [255]))) [6] = None"
    by (simp add: blocks_effect_def guard_map_def)
  with PrefixedStore_Set_isolated [where E = list_engine, OF sample_hyps o(1) blocks_run.blocks_start a refl] o(1) show ?thesis
    by (force simp: NewPrefixedStore_def)
qed

end
