(* ===== verification/Rabbit.thy ===== *)
theory Rabbit
  imports TrunkStore EntryCodec
begin

text \<open>
  The rabbit store (store/rabbit): a store over a trunk store whose slots have short keys. A key hops
  from slot to slot along the iterated hashes of the key; \<open>passbyNum\<close> of a slot counts the keys that hopped
  over it. SHA-256 is the parameter \<open>sha\<close>. A \<open>*CachedValue\<close> is reached through the map of the cache only, so that it
  is a value there; the range over a Go map takes the order of its keys as an argument.
\<close>

section \<open>Values in slots\<close>

definition KeySize :: nat where
  "KeySize = 8"

definition MaxFindDepth :: nat where
  "MaxFindDepth = 100"

definition KeyLenStart :: nat where
  "KeyLenStart = 1 + 8"

definition KeyStart :: nat where
  "KeyStart = KeyLenStart + 4"

text \<open>The \<open>interface{}\<close> of a value: nil, a slice of bytes (which may be nil), or an object.\<close>

datatype 'o anyValue = AnyNil | AnyBytes "bytes option" | AnyObj 'o

record 'o CachedValue =
  cv_passbyNum :: "64 word"
  cv_key :: bytes
  cv_obj :: "'o anyValue"
  cv_isEmpty :: bool
  cv_isDeleted :: bool
  cv_isDirty :: bool

definition CachedValue_IsEmpty :: "'o CachedValue \<Rightarrow> bool" where
  "CachedValue_IsEmpty v = cv_isEmpty v"

definition CachedValue_GetValue :: "'o Serializable \<Rightarrow> 'o CachedValue \<Rightarrow> bytes option outcome" where
  "CachedValue_GetValue S v = (case cv_obj v of AnyBytes bz \<Rightarrow> Inr bz | AnyObj x \<Rightarrow> Inr (s_ToBytes S x)
     | AnyNil \<Rightarrow> Inl (Panic ''interface conversion: interface is nil, not types.Serializable''))"

definition CachedValue_SetValue :: "'o anyValue \<Rightarrow> 'o CachedValue \<Rightarrow> 'o CachedValue" where
  "CachedValue_SetValue obj v = v\<lparr>cv_obj := obj\<rparr>"

definition CachedValue_ToBytes :: "'o Serializable \<Rightarrow> 'o CachedValue \<Rightarrow> bytes outcome" where
  "CachedValue_ToBytes S v =
     bindE (if cv_isEmpty v then Inr None else CachedValue_GetValue S v) (\<lambda>value.
       let buf = [if cv_isEmpty v then 1 else 0] @ put_le 8 (unat (cv_passbyNum v)) @ put_le 4 (length (cv_key v) mod 2 ^ 32);
           buf = buf @ cv_key v
       in Inr (if \<not> cv_isEmpty v then buf @ slice_bytes value else buf))"

definition BytesToCachedValue :: "bytes \<Rightarrow> 'o CachedValue option" where
  "BytesToCachedValue buf =
     (if length buf < KeyStart then None
      else let keyLen = get_le (subslice buf KeyLenStart KeyStart)
        in if length buf < KeyStart + keyLen then None
          else let res = \<lparr>cv_passbyNum = word_of_nat (get_le (subslice buf 1 9)), cv_key = subslice buf KeyStart (KeyStart + keyLen),
                 cv_obj = AnyNil, cv_isEmpty = False, cv_isDeleted = False, cv_isDirty = False\<rparr>
            in Some (if buf ! 0 \<noteq> 0 then res\<lparr>cv_isEmpty := True, cv_obj := AnyNil\<rparr>
                 else res\<lparr>cv_isEmpty := False, cv_obj := AnyBytes (Some (drop (KeyStart + keyLen) buf))\<rparr>))"

section \<open>The cache of slots\<close>

text \<open>A nil pointer in the map is \<open>Some None\<close>.\<close>

type_synonym 'o SimpleCacheStore = "bytes \<rightharpoonup> 'o CachedValue option"

definition NewSimpleCacheStore :: "'o SimpleCacheStore" where
  "NewSimpleCacheStore = (\<lambda>_. None)"

text \<open>\<open>fn\<close> changes a state of its own and says whether to stop.\<close>

fun SimpleCacheStore_ScanAllShortKeys :: "(bytes \<Rightarrow> 's \<Rightarrow> bool \<times> 's) \<Rightarrow> bytes list \<Rightarrow> 's \<Rightarrow> 's" where
  "SimpleCacheStore_ScanAllShortKeys fn [] s = s"
| "SimpleCacheStore_ScanAllShortKeys fn (key # order) s =
     (let (stop, s) = fn key s in if stop then s else SimpleCacheStore_ScanAllShortKeys fn order s)"

definition SimpleCacheStore_ScanAllEntries :: "'o Serializable \<Rightarrow> (bytes \<Rightarrow> bytes \<Rightarrow> bool \<Rightarrow> 's \<Rightarrow> 's outcome) \<Rightarrow> bytes list \<Rightarrow>
    'o SimpleCacheStore \<Rightarrow> 's \<Rightarrow> 's outcome" where
  "SimpleCacheStore_ScanAllEntries S fn order scs = foldE (\<lambda>key s.
     case scs key of None \<Rightarrow> Inr s | Some None \<Rightarrow> Inl NilDeref
     | Some (Some cv) \<Rightarrow>
         if cv_obj cv = AnyNil \<and> \<not> cv_isDeleted cv \<and> \<not> cv_isEmpty cv then Inl (Panic ''Dangling Cache Entry'')
         else if \<not> cv_isDirty cv then Inr s
         else bindE (CachedValue_ToBytes S cv) (\<lambda>value. fn key value (cv_isDeleted cv) s)) order"

definition SimpleCacheStore_GetValue :: "bytes \<Rightarrow> 'o SimpleCacheStore \<Rightarrow> ('o CachedValue option \<times> CacheStatus) outcome" where
  "SimpleCacheStore_GetValue key scs =
     (case scs key of None \<Rightarrow> Inr (None, Missed) | Some None \<Rightarrow> Inl NilDeref
      | Some (Some v) \<Rightarrow> Inr (if cv_isDeleted v then (None, JustDeleted) else (Some v, Hit)))"

definition SimpleCacheStore_SetValue :: "bytes \<Rightarrow> 'o CachedValue option \<Rightarrow> 'o SimpleCacheStore \<Rightarrow> 'o SimpleCacheStore" where
  "SimpleCacheStore_SetValue key value scs = scs(key \<mapsto> value)"

section \<open>The cache over the trunk\<close>

record ('r, 'o) SimpleMultiStore =
  sms_cache :: "'o SimpleCacheStore"
  sms_trunk :: "('r, 'o) TrunkStore"

definition GetCachedValue :: "('r, 'f, 'b, 'o) RootStoreI \<Rightarrow> 'o Serializable \<Rightarrow> bytes \<Rightarrow> ('r, 'o) SimpleMultiStore \<Rightarrow>
    ('o CachedValue option \<times> ('r, 'o) SimpleMultiStore) outcome" where
  "GetCachedValue R S key sms =
     bindE (SimpleCacheStore_GetValue key (sms_cache sms)) (\<lambda>(cv, status).
       case status of JustDeleted \<Rightarrow> Inr (None, sms) | Hit \<Rightarrow> Inr (cv, sms)
       | Missed \<Rightarrow> bindE (TrunkStore_Get R S key (sms_trunk sms)) (\<lambda>bz.
           case bz of None \<Rightarrow> Inr (None, sms)
           | Some bz \<Rightarrow> let cv = BytesToCachedValue bz
               in Inr (cv, sms\<lparr>sms_cache := SimpleCacheStore_SetValue key cv (sms_cache sms)\<rparr>)))"

definition MustGetCachedValue :: "bytes \<Rightarrow> ('r, 'o) SimpleMultiStore \<Rightarrow> 'o CachedValue outcome" where
  "MustGetCachedValue key sms =
     bindE (SimpleCacheStore_GetValue key (sms_cache sms)) (\<lambda>(cv, status).
       case cv of Some cv \<Rightarrow> Inr cv | None \<Rightarrow> Inl (Panic ''Failed to get cached value''))"

definition SetCachedValue :: "('r, 'f, 'b, 'o) RootStoreI \<Rightarrow> bytes \<Rightarrow> 'o CachedValue \<Rightarrow> ('r, 'o) SimpleMultiStore \<Rightarrow>
    ('r, 'o) SimpleMultiStore outcome" where
  "SetCachedValue R key cv sms =
     (let cv = cv\<lparr>cv_isDirty := True\<rparr>; cache = SimpleCacheStore_SetValue key (Some cv) (sms_cache sms)
      in bindE (if cv_isDeleted cv then TrunkStore_PrepareForDeletion R key (sms_trunk sms)
                else TrunkStore_PrepareForUpdate R key (sms_trunk sms)) (\<lambda>ts.
           Inr \<lparr>sms_cache = cache, sms_trunk = ts\<rparr>))"

text \<open>One entry, written into the cache of the trunk.\<close>

definition writeSlot :: "bytes \<Rightarrow> bytes \<Rightarrow> bool \<Rightarrow> 'o CacheStore \<Rightarrow> 'o CacheStore outcome" where
  "writeSlot key value isDeleted cache = Inr (if isDeleted then CacheStore_Delete key cache else CacheStore_Set key (Some value) cache)"

definition SimpleMultiStore_writeBack :: "'o Serializable \<Rightarrow> bytes list \<Rightarrow> ('r, 'o) SimpleMultiStore \<Rightarrow> ('r, 'o) SimpleMultiStore outcome" where
  "SimpleMultiStore_writeBack S order sms =
     bindE (TrunkStore_Update (SimpleCacheStore_ScanAllEntries S writeSlot order (sms_cache sms)) (sms_trunk sms)) (\<lambda>ts.
       Inr (sms\<lparr>sms_trunk := ts\<rparr>))"

definition SimpleMultiStore_Close :: "'o Serializable \<Rightarrow> bytes list \<Rightarrow> bool \<Rightarrow> ('r, 'o) SimpleMultiStore \<Rightarrow> ('r, 'o) SimpleMultiStore outcome" where
  "SimpleMultiStore_Close S order writeBack sms = (if writeBack then SimpleMultiStore_writeBack S order sms else Inr sms)"

section \<open>The rabbit store\<close>

type_synonym ('r, 'o) RabbitStore = "('r, 'o) SimpleMultiStore"

definition NewRabbitStore :: "('r, 'o) TrunkStore \<Rightarrow> ('r, 'o) RabbitStore" where
  "NewRabbitStore trunk = \<lparr>sms_cache = NewSimpleCacheStore, sms_trunk = trunk\<rparr>"

definition RabbitStore_ScanAllShortKeys :: "(bytes \<Rightarrow> 's \<Rightarrow> bool \<times> 's) \<Rightarrow> bytes list \<Rightarrow> 's \<Rightarrow> 's" where
  "RabbitStore_ScanAllShortKeys fn order s = SimpleCacheStore_ScanAllShortKeys fn order s"

datatype FindStatus = NotFount | EmptySlot | Exists

text \<open>\<open>copy(k[:], hash[:])\<close> and the bit that is set.\<close>

definition shortKey :: "bytes \<Rightarrow> bytes" where
  "shortKey h = (let k = copy_at (replicate KeySize 0) 0 h in k[0 := or (k ! 0) 1])"

fun find_loop :: "('r, 'f, 'b, 'o) RootStoreI \<Rightarrow> 'o Serializable \<Rightarrow> (bytes \<Rightarrow> bytes) \<Rightarrow> bytes \<Rightarrow> bool \<Rightarrow> nat \<Rightarrow> bytes \<Rightarrow> bytes list \<Rightarrow>
    ('r, 'o) RabbitStore \<Rightarrow> (('o CachedValue option \<times> bytes list \<times> FindStatus) \<times> ('r, 'o) RabbitStore) outcome" where
  "find_loop R S sha key earlyExit 0 h path rabbit = Inl (Panic ''MaxFindDepth(100) reached!'')"
| "find_loop R S sha key earlyExit (Suc n) h path rabbit =
     (let k = shortKey h; path = path @ [k]
      in bindE (GetCachedValue R S k rabbit) (\<lambda>(cv, rabbit).
           case cv of None \<Rightarrow> Inr ((None, path, NotFount), rabbit)
           | Some v \<Rightarrow>
               if cv_key v = key then Inr ((cv, path, if cv_isEmpty v then EmptySlot else Exists), rabbit)
               else if earlyExit \<and> cv_passbyNum v = 0 then Inr ((cv, path, NotFount), rabbit)
               else find_loop R S sha key earlyExit n (sha h) path rabbit))"

definition find_slot :: "('r, 'f, 'b, 'o) RootStoreI \<Rightarrow> 'o Serializable \<Rightarrow> (bytes \<Rightarrow> bytes) \<Rightarrow> bytes \<Rightarrow> bool \<Rightarrow> ('r, 'o) RabbitStore \<Rightarrow>
    (('o CachedValue option \<times> bytes list \<times> FindStatus) \<times> ('r, 'o) RabbitStore) outcome" where
  "find_slot R S sha key earlyExit rabbit = find_loop R S sha key earlyExit MaxFindDepth (sha key) [] rabbit"

definition RabbitStore_Has :: "('r, 'f, 'b, 'o) RootStoreI \<Rightarrow> 'o Serializable \<Rightarrow> (bytes \<Rightarrow> bytes) \<Rightarrow> bytes \<Rightarrow> ('r, 'o) RabbitStore \<Rightarrow>
    (bool \<times> ('r, 'o) RabbitStore) outcome" where
  "RabbitStore_Has R S sha key rabbit =
     bindE (find_slot R S sha key True rabbit) (\<lambda>((_, _, status), rabbit). Inr (status = Exists, rabbit))"

definition RabbitStore_GetShortKeyPath :: "('r, 'f, 'b, 'o) RootStoreI \<Rightarrow> 'o Serializable \<Rightarrow> (bytes \<Rightarrow> bytes) \<Rightarrow> bytes \<Rightarrow> ('r, 'o) RabbitStore \<Rightarrow>
    ((bytes list \<times> bool) \<times> ('r, 'o) RabbitStore) outcome" where
  "RabbitStore_GetShortKeyPath R S sha key rabbit =
     bindE (find_slot R S sha key True rabbit) (\<lambda>((_, path, status), rabbit). Inr ((path, status = Exists), rabbit))"

text \<open>The bytes are copied: a nil slice is read as an empty one.\<close>

definition RabbitStore_Get :: "('r, 'f, 'b, 'o) RootStoreI \<Rightarrow> 'o Serializable \<Rightarrow> (bytes \<Rightarrow> bytes) \<Rightarrow> bytes \<Rightarrow> ('r, 'o) RabbitStore \<Rightarrow>
    (bytes option \<times> ('r, 'o) RabbitStore) outcome" where
  "RabbitStore_Get R S sha key rabbit =
     bindE (find_slot R S sha key True rabbit) (\<lambda>((cv, _, status), rabbit).
       if status \<noteq> Exists then Inr (None, rabbit)
       else bindE (deref cv) (\<lambda>cv. case cv_obj cv of AnyBytes bz \<Rightarrow> Inr (Some (slice_bytes bz), rabbit)
         | _ \<Rightarrow> bindE (CachedValue_GetValue S cv) (\<lambda>bz. Inr (bz, rabbit))))"

text \<open>The object of the slot, which is the last one on the path, is moved out of it unless it is only read.\<close>

definition getObjHelper :: "('r, 'f, 'b, 'o) RootStoreI \<Rightarrow> 'o Serializable \<Rightarrow> (bytes \<Rightarrow> bytes) \<Rightarrow> bool \<Rightarrow> bytes \<Rightarrow> 'o option \<Rightarrow>
    ('r, 'o) RabbitStore \<Rightarrow> ('o option \<times> ('r, 'o) RabbitStore) outcome" where
  "getObjHelper R S sha readonly key ptr rabbit =
     bindE (find_slot R S sha key True rabbit) (\<lambda>((cv, path, status), rabbit).
       if status \<noteq> Exists then Inr (None, rabbit)
       else bindE (deref cv) (\<lambda>cv.
         bindE (case cv_obj cv of AnyNil \<Rightarrow> Inl (Panic ''Reading a dangling value'') | AnyBytes bz \<Rightarrow> readInto S ptr bz | AnyObj x \<Rightarrow> Inr (Some x)) (\<lambda>ptr.
           Inr (ptr, if readonly then rabbit
             else rabbit\<lparr>sms_cache := (sms_cache rabbit)(last path \<mapsto> Some (cv\<lparr>cv_obj := AnyNil\<rparr>))\<rparr>))))"

definition RabbitStore_GetObj :: "('r, 'f, 'b, 'o) RootStoreI \<Rightarrow> 'o Serializable \<Rightarrow> (bytes \<Rightarrow> bytes) \<Rightarrow> bytes \<Rightarrow> 'o option \<Rightarrow>
    ('r, 'o) RabbitStore \<Rightarrow> ('o option \<times> ('r, 'o) RabbitStore) outcome" where
  "RabbitStore_GetObj R S sha key ptr rabbit = getObjHelper R S sha False key ptr rabbit"

definition RabbitStore_GetReadOnlyObj :: "('r, 'f, 'b, 'o) RootStoreI \<Rightarrow> 'o Serializable \<Rightarrow> (bytes \<Rightarrow> bytes) \<Rightarrow> bytes \<Rightarrow> 'o option \<Rightarrow>
    ('r, 'o) RabbitStore \<Rightarrow> ('o option \<times> ('r, 'o) RabbitStore) outcome" where
  "RabbitStore_GetReadOnlyObj R S sha key ptr rabbit = getObjHelper R S sha True key ptr rabbit"

text \<open>The loops over \<open>path[:len(path)-1]\<close> of a write and of a deletion.\<close>

definition incrPassby :: "('r, 'f, 'b, 'o) RootStoreI \<Rightarrow> bytes \<Rightarrow> ('r, 'o) RabbitStore \<Rightarrow> ('r, 'o) RabbitStore outcome" where
  "incrPassby R k rabbit =
     bindE (MustGetCachedValue k rabbit) (\<lambda>cv. SetCachedValue R k (cv\<lparr>cv_passbyNum := cv_passbyNum cv + 1\<rparr>) rabbit)"

definition decrPassby :: "('r, 'f, 'b, 'o) RootStoreI \<Rightarrow> bytes \<Rightarrow> ('r, 'o) RabbitStore \<Rightarrow> ('r, 'o) RabbitStore outcome" where
  "decrPassby R k rabbit =
     bindE (MustGetCachedValue k rabbit) (\<lambda>cv.
       let cv = cv\<lparr>cv_passbyNum := cv_passbyNum cv - 1\<rparr>;
           cv = (if cv_passbyNum cv = 0 \<and> cv_isEmpty cv then cv\<lparr>cv_isDeleted := True\<rparr> else cv)
       in SetCachedValue R k cv rabbit)"

definition setHelper :: "('r, 'f, 'b, 'o) RootStoreI \<Rightarrow> 'o Serializable \<Rightarrow> (bytes \<Rightarrow> bytes) \<Rightarrow> bytes \<Rightarrow> 'o anyValue \<Rightarrow>
    ('r, 'o) RabbitStore \<Rightarrow> ('r, 'o) RabbitStore outcome" where
  "setHelper R S sha key obj rabbit =
     bindE (find_slot R S sha key False rabbit) (\<lambda>((_, path, status), rabbit).
       if status = Exists then
         bindE (MustGetCachedValue (last path) rabbit) (\<lambda>cv. SetCachedValue R (last path) (cv\<lparr>cv_obj := obj\<rparr>) rabbit)
       else
         bindE (if status = EmptySlot then
                  bindE (MustGetCachedValue (last path) rabbit) (\<lambda>cv.
                    SetCachedValue R (last path) (cv\<lparr>cv_key := key, cv_obj := obj, cv_isEmpty := False\<rparr>) rabbit)
                else SetCachedValue R (last path) \<lparr>cv_passbyNum = 0, cv_key = key, cv_obj = obj, cv_isEmpty = False,
                  cv_isDeleted = False, cv_isDirty = False\<rparr> rabbit)
           (foldE (incrPassby R) (butlast path)))"

definition RabbitStore_Set :: "('r, 'f, 'b, 'o) RootStoreI \<Rightarrow> 'o Serializable \<Rightarrow> (bytes \<Rightarrow> bytes) \<Rightarrow> bytes \<Rightarrow> bytes option \<Rightarrow>
    ('r, 'o) RabbitStore \<Rightarrow> ('r, 'o) RabbitStore outcome" where
  "RabbitStore_Set R S sha key bz rabbit = setHelper R S sha key (AnyBytes bz) rabbit"

definition RabbitStore_SetObj :: "('r, 'f, 'b, 'o) RootStoreI \<Rightarrow> 'o Serializable \<Rightarrow> (bytes \<Rightarrow> bytes) \<Rightarrow> bytes \<Rightarrow> 'o option \<Rightarrow>
    ('r, 'o) RabbitStore \<Rightarrow> ('r, 'o) RabbitStore outcome" where
  "RabbitStore_SetObj R S sha key obj rabbit = setHelper R S sha key (case obj of None \<Rightarrow> AnyNil | Some x \<Rightarrow> AnyObj x) rabbit"

definition RabbitStore_Delete :: "('r, 'f, 'b, 'o) RootStoreI \<Rightarrow> 'o Serializable \<Rightarrow> (bytes \<Rightarrow> bytes) \<Rightarrow> bytes \<Rightarrow>
    ('r, 'o) RabbitStore \<Rightarrow> ('r, 'o) RabbitStore outcome" where
  "RabbitStore_Delete R S sha key rabbit =
     bindE (find_slot R S sha key True rabbit) (\<lambda>((_, path, status), rabbit).
       if status \<noteq> Exists then Inr rabbit
       else bindE (MustGetCachedValue (last path) rabbit) (\<lambda>cv.
         let cv = (if cv_passbyNum cv = 0 then cv\<lparr>cv_isDeleted := True\<rparr> else cv\<lparr>cv_isEmpty := True\<rparr>)
         in bindE (SetCachedValue R (last path) cv rabbit) (foldE (decrPassby R) (butlast path))))"

definition RabbitStore_Close :: "'o Serializable \<Rightarrow> bytes list \<Rightarrow> bool \<Rightarrow> ('r, 'o) RabbitStore \<Rightarrow> ('r, 'o) RabbitStore outcome" where
  "RabbitStore_Close S order writeBack rabbit = SimpleMultiStore_Close S order writeBack rabbit"

definition RabbitStore_ActiveCount :: "('r, 'f, 'b, 'o) RootStoreI \<Rightarrow> ('r, 'o) RabbitStore \<Rightarrow> nat outcome" where
  "RabbitStore_ActiveCount R rabbit = TrunkStore_ActiveCount R (sms_trunk rabbit)"

text \<open>The iterators are not implemented.\<close>

definition RabbitStore_Iterator :: "bytes \<Rightarrow> bytes \<Rightarrow> ('r, 'o) RabbitStore \<Rightarrow> 'i outcome" where
  "RabbitStore_Iterator start end' rabbit = Inl (Panic ''Not Implemented'')"

definition RabbitStore_ReverseIterator :: "bytes \<Rightarrow> bytes \<Rightarrow> ('r, 'o) RabbitStore \<Rightarrow> 'i outcome" where
  "RabbitStore_ReverseIterator start end' rabbit = Inl (Panic ''Not Implemented'')"

end
