(* ===== verification/RabbitTrie.thy ===== *)
theory RabbitTrie
  imports Rabbit
begin

text \<open>
  The slots of a rabbit store as a map, apart from its caches: the search along the hops of a key, what a
  write and a deletion do to the slots, and the invariant that relates the slots to the depths at which
  the keys are stored: a key is reached over slots of other keys, and the counter of a slot is the number of
  keys that hop over it.
\<close>

section \<open>Hops and slots\<close>

type_synonym 'o slots = "bytes \<rightharpoonup> 'o CachedValue"

definition hop :: "(bytes \<Rightarrow> bytes) \<Rightarrow> bytes \<Rightarrow> nat \<Rightarrow> bytes" where
  "hop sha key i = shortKey ((sha ^^ Suc i) key)"

abbreviation hops :: "(nat \<Rightarrow> bytes) \<Rightarrow> nat \<Rightarrow> bytes list" where
  "hops c d \<equiv> map c [0..<d]"

text \<open>The search from hop \<open>i\<close> on, \<open>n\<close> hops at most: where it ends and how.\<close>

fun search :: "'o slots \<Rightarrow> (nat \<Rightarrow> bytes) \<Rightarrow> bytes \<Rightarrow> bool \<Rightarrow> nat \<Rightarrow> nat \<Rightarrow> (nat \<times> FindStatus) option" where
  "search \<sigma> c key early 0 i = None"
| "search \<sigma> c key early (Suc n) i = (case \<sigma> (c i) of None \<Rightarrow> Some (i, NotFount)
     | Some v \<Rightarrow>
         if cv_key v = key then Some (i, if cv_isEmpty v then EmptySlot else Exists)
         else if early \<and> cv_passbyNum v = 0 then Some (i, NotFount)
         else search \<sigma> c key early n (Suc i))"

text \<open>The loops over the path, on the slots.\<close>

definition bump :: "bytes \<Rightarrow> 'o slots \<Rightarrow> 'o slots" where
  "bump k \<sigma> = \<sigma>(k := map_option (\<lambda>v. v\<lparr>cv_passbyNum := cv_passbyNum v + 1, cv_isDirty := True\<rparr>) (\<sigma> k))"

definition unbump :: "bytes \<Rightarrow> 'o slots \<Rightarrow> 'o slots" where
  "unbump k \<sigma> = \<sigma>(k := (case \<sigma> k of None \<Rightarrow> None
     | Some v \<Rightarrow> if cv_passbyNum v - 1 = 0 \<and> cv_isEmpty v then None
         else Some (v\<lparr>cv_passbyNum := cv_passbyNum v - 1, cv_isDirty := True\<rparr>)))"

text \<open>A new key in the slot where a search has ended, and the removal of a key from its slot.\<close>

definition new_slot :: "'o CachedValue option \<Rightarrow> bytes \<Rightarrow> 'o anyValue \<Rightarrow> 'o CachedValue" where
  "new_slot v key obj = \<lparr>cv_passbyNum = (case v of None \<Rightarrow> 0 | Some v \<Rightarrow> cv_passbyNum v), cv_key = key, cv_obj = obj,
     cv_isEmpty = False, cv_isDeleted = False, cv_isDirty = True\<rparr>"

definition put_slot :: "(nat \<Rightarrow> bytes) \<Rightarrow> nat \<Rightarrow> bytes \<Rightarrow> 'o anyValue \<Rightarrow> 'o slots \<Rightarrow> 'o slots" where
  "put_slot c d key obj \<sigma> = fold bump (hops c d) (\<sigma>(c d \<mapsto> new_slot (\<sigma> (c d)) key obj))"

definition change_slot :: "bytes \<Rightarrow> 'o anyValue \<Rightarrow> 'o slots \<Rightarrow> 'o slots" where
  "change_slot k obj \<sigma> = \<sigma>(k := map_option (\<lambda>v. v\<lparr>cv_obj := obj, cv_isDirty := True\<rparr>) (\<sigma> k))"

definition free_slot :: "bytes \<Rightarrow> 'o slots \<Rightarrow> 'o slots" where
  "free_slot k \<sigma> = \<sigma>(k := (case \<sigma> k of None \<Rightarrow> None
     | Some v \<Rightarrow> if cv_passbyNum v = 0 then None else Some (v\<lparr>cv_isEmpty := True, cv_isDirty := True\<rparr>)))"

definition remove_slot :: "(nat \<Rightarrow> bytes) \<Rightarrow> nat \<Rightarrow> 'o slots \<Rightarrow> 'o slots" where
  "remove_slot c d \<sigma> = fold unbump (hops c d) (free_slot (c d) \<sigma>)"

lemma fold_bump:
  "fold bump ks \<sigma> k = (if k \<in> set ks then map_option (\<lambda>v. v\<lparr>cv_passbyNum := cv_passbyNum v + of_nat (count_list ks k), cv_isDirty := True\<rparr>) (\<sigma> k)
     else \<sigma> k)"
proof (induction ks arbitrary: \<sigma>)
  case (Cons k' ks)
  show ?case
  proof (cases "\<sigma> k")
    case None
    with Cons show ?thesis by (auto simp: bump_def)
  next
    case (Some v)
    with Cons show ?thesis by (auto simp: bump_def count_list_0_iff add.assoc)
  qed
qed simp

text \<open>The counter of a slot on the path is at least the number of times that the path hops over it.\<close>

definition hopped :: "bytes list \<Rightarrow> 'o slots \<Rightarrow> bool" where
  "hopped ks \<sigma> \<longleftrightarrow> (\<forall>k \<in> set ks. \<exists>v. \<sigma> k = Some v \<and> count_list ks k \<le> unat (cv_passbyNum v))"

lemma unat_minus_1: "0 < unat w \<Longrightarrow> unat (w - 1) = unat w - 1" for w :: "64 word"
  by (metis unat_minus_one unat_gt_0)

lemma hopped_ConsD:
  assumes "hopped (k # ks) \<sigma>"
  obtains v where "\<sigma> k = Some v" "0 < unat (cv_passbyNum v)" "hopped ks (unbump k \<sigma>)"
proof -
  from assms obtain v where v: "\<sigma> k = Some v" "Suc (count_list ks k) \<le> unat (cv_passbyNum v)" by (auto simp: hopped_def)
  then have m: "unat (cv_passbyNum v - 1) = unat (cv_passbyNum v) - 1" by (intro unat_minus_1) simp
  have "\<exists>w. unbump k \<sigma> k' = Some w \<and> count_list ks k' \<le> unat (cv_passbyNum w)" if k': "k' \<in> set ks" for k'
  proof (cases "k' = k")
    case True
    with k' have "0 < count_list ks k" by (metis count_list_0_iff neq0_conv)
    with v m have "cv_passbyNum v - 1 \<noteq> 0" by (metis Suc_leD diff_Suc_1 diff_le_mono le_zero_eq less_numeral_extra(3) unat_0)
    with True v m show ?thesis by (simp add: unbump_def)
  next
    case False
    with assms k' show ?thesis by (fastforce simp: hopped_def unbump_def)
  qed
  then show thesis using v by (intro that [of v]) (auto simp: hopped_def)
qed

lemma fold_unbump:
  assumes "hopped ks \<sigma>"
  shows "fold unbump ks \<sigma> k = (if k \<in> set ks then (case \<sigma> k of None \<Rightarrow> None
     | Some v \<Rightarrow> let p = cv_passbyNum v - of_nat (count_list ks k)
         in if p = 0 \<and> cv_isEmpty v then None else Some (v\<lparr>cv_passbyNum := p, cv_isDirty := True\<rparr>)) else \<sigma> k)"
  using assms
proof (induction ks arbitrary: \<sigma>)
  case (Cons k' ks)
  from hopped_ConsD [OF Cons.prems] obtain v where v: "\<sigma> k' = Some v" "hopped ks (unbump k' \<sigma>)" by blast
  note IH = Cons.IH [OF v(2)]
  show ?case
  proof (cases "k = k'")
    case False
    then show ?thesis by (simp add: IH) (auto simp: unbump_def split: option.split)
  next
    case True
    show ?thesis
    proof (cases "k \<in> set ks")
      case False
      then have "count_list ks k = 0" by simp
      moreover have "fold unbump (k' # ks) \<sigma> k = unbump k' \<sigma> k" using IH False by simp
      ultimately show ?thesis using True v(1) unfolding \<open>fold unbump (k' # ks) \<sigma> k = unbump k' \<sigma> k\<close> by (simp add: Let_def unbump_def)
    next
      case in_ks: True
      then obtain w where "unbump k' \<sigma> k = Some w" using v(2) by (auto simp: hopped_def)
      moreover from this True v(1) have "w = v\<lparr>cv_passbyNum := cv_passbyNum v - 1, cv_isDirty := True\<rparr>" by (auto simp: unbump_def split: if_splits)
      moreover have "cv_passbyNum v - 1 - of_nat (count_list ks k) = cv_passbyNum v - of_nat (count_list (k' # ks) k)"
        using True by (simp add: algebra_simps)
      ultimately show ?thesis using True in_ks v(1) IH by (auto simp add: Let_def diff_eq_eq add.commute)
    qed
  qed
qed simp

section \<open>The invariant\<close>

text \<open>\<open>D\<close> is the depth of each stored key, \<open>h key\<close> are its hops; a slot is hopped over this many times:\<close>

definition passers :: "(bytes \<Rightarrow> nat \<Rightarrow> bytes) \<Rightarrow> (bytes \<rightharpoonup> nat) \<Rightarrow> bytes \<Rightarrow> nat" where
  "passers h D k = (\<Sum>key \<in> dom D. count_list (hops (h key) (the (D key))) k)"

definition slots_inv :: "(bytes \<Rightarrow> nat \<Rightarrow> bytes) \<Rightarrow> 'o slots \<Rightarrow> (bytes \<rightharpoonup> nat) \<Rightarrow> bool" where
  "slots_inv h \<sigma> D \<longleftrightarrow> finite (dom D) \<and>
     (\<forall>key d. D key = Some d \<longrightarrow> d < MaxFindDepth \<and> (\<exists>v. \<sigma> (h key d) = Some v \<and> cv_key v = key \<and> \<not> cv_isEmpty v) \<and>
        (\<forall>j<d. \<exists>v. \<sigma> (h key j) = Some v \<and> cv_key v \<noteq> key)) \<and>
     (\<forall>k v. \<sigma> k = Some v \<longrightarrow> unat (cv_passbyNum v) = passers h D k \<and>
        (if cv_isEmpty v then 0 < passers h D k else \<exists>d. D (cv_key v) = Some d \<and> h (cv_key v) d = k))"

lemma slots_invD:
  assumes "slots_inv h \<sigma> D"
  shows "finite (dom D)"
    and "D key = Some d \<Longrightarrow> d < MaxFindDepth"
    and "D key = Some d \<Longrightarrow> \<exists>v. \<sigma> (h key d) = Some v \<and> cv_key v = key \<and> \<not> cv_isEmpty v"
    and "D key = Some d \<Longrightarrow> j < d \<Longrightarrow> \<exists>v. \<sigma> (h key j) = Some v \<and> cv_key v \<noteq> key"
    and "\<sigma> k = Some v \<Longrightarrow> unat (cv_passbyNum v) = passers h D k"
    and "\<sigma> k = Some v \<Longrightarrow> cv_isEmpty v \<Longrightarrow> 0 < passers h D k"
    and "\<sigma> k = Some v \<Longrightarrow> \<not> cv_isEmpty v \<Longrightarrow> \<exists>d. D (cv_key v) = Some d \<and> h (cv_key v) d = k"
proof -
  note inv = assms [unfolded slots_inv_def]
  note stored = inv [THEN conjunct2, THEN conjunct1, rule_format]
  note counts = inv [THEN conjunct2, THEN conjunct2, rule_format]
  show "finite (dom D)" by (rule inv [THEN conjunct1])
  show "D key = Some d \<Longrightarrow> d < MaxFindDepth" by (rule stored [THEN conjunct1])
  show "D key = Some d \<Longrightarrow> \<exists>v. \<sigma> (h key d) = Some v \<and> cv_key v = key \<and> \<not> cv_isEmpty v" by (rule stored [THEN conjunct2, THEN conjunct1])
  show "D key = Some d \<Longrightarrow> j < d \<Longrightarrow> \<exists>v. \<sigma> (h key j) = Some v \<and> cv_key v \<noteq> key"
    by (rule stored [THEN conjunct2, THEN conjunct2, rule_format])
  show "\<sigma> k = Some v \<Longrightarrow> unat (cv_passbyNum v) = passers h D k" by (rule counts [THEN conjunct1])
  show "\<sigma> k = Some v \<Longrightarrow> cv_isEmpty v \<Longrightarrow> 0 < passers h D k" using counts [of k v] by simp
  show "\<sigma> k = Some v \<Longrightarrow> \<not> cv_isEmpty v \<Longrightarrow> \<exists>d. D (cv_key v) = Some d \<and> h (cv_key v) d = k" using counts [of k v] by simp
qed

lemma passers_pos:
  assumes "finite (dom D)" and "D key = Some d" and "j < d"
  shows "0 < passers h D (h key j)"
proof -
  have "h key j \<in> set (hops (h key) (the (D key)))" using assms(2,3) by simp
  then have "count_list (hops (h key) (the (D key))) (h key j) \<noteq> 0" by (simp add: count_list_0_iff del: set_map)
  moreover have "key \<in> dom D" using assms(2) by auto
  ultimately have "passers h D (h key j) \<noteq> 0" unfolding passers_def using assms(1) by (subst sum_eq_0_iff) auto
  then show ?thesis by simp
qed

lemma passers_slot:
  assumes inv: "slots_inv h \<sigma> D" and "0 < passers h D k"
  shows "\<exists>v. \<sigma> k = Some v"
proof -
  obtain key where "key \<in> dom D" "count_list (hops (h key) (the (D key))) k \<noteq> 0"
  proof (rule ccontr)
    assume "\<not> thesis"
    with that have "\<forall>key \<in> dom D. count_list (hops (h key) (the (D key))) k = 0" by blast
    with assms(2) show False by (simp add: passers_def)
  qed
  then obtain d j where "D key = Some d" "j < d" "h key j = k" by (auto simp: count_list_0_iff)
  with slots_invD(4) [OF inv] show ?thesis by blast
qed

lemma passers_bound:
  assumes "slots_inv h \<sigma> D"
  shows "passers h D k \<le> MaxFindDepth * card (dom D)"
proof -
  have "count_list (hops (h key) (the (D key))) k \<le> MaxFindDepth" if "key \<in> dom D" for key
    using that slots_invD(2) [OF assms] count_le_length [of "hops (h key) (the (D key))" k] by fastforce
  then show ?thesis unfolding passers_def using sum_bounded_above [of "dom D" _ MaxFindDepth] by (simp add: mult.commute)
qed

lemma passers_insert:
  assumes "finite (dom D)" and "D key = None"
  shows "passers h (D(key \<mapsto> d)) k = passers h D k + count_list (hops (h key) d) k"
proof -
  have "(\<Sum>x \<in> dom D. count_list (hops (h x) (the ((D(key \<mapsto> d)) x))) k) = passers h D k"
    unfolding passers_def by (rule sum.cong) (use assms(2) in auto)
  moreover have "key \<notin> dom D" using assms(2) by auto
  ultimately show ?thesis using assms(1) by (simp add: passers_def)
qed

lemma passers_remove:
  assumes "finite (dom D)" and "D key = Some d"
  shows "passers h D k = passers h (D(key := None)) k + count_list (hops (h key) d) k"
proof -
  have "finite (dom (D(key := None)))" using assms(1) by simp
  from passers_insert [OF this, of key h d k] assms(2) show ?thesis by (simp add: fun_upd_idem)
qed

section \<open>Searches\<close>

lemma search_skip:
  assumes "\<forall>j. i \<le> j \<and> j < d \<longrightarrow> (\<exists>v. \<sigma> (c j) = Some v \<and> cv_key v \<noteq> key \<and> (early \<longrightarrow> cv_passbyNum v \<noteq> 0))" and "i \<le> d" and "d \<le> i + n"
  shows "search \<sigma> c key early n i = search \<sigma> c key early (i + n - d) d"
  using assms
proof (induction n arbitrary: i)
  case (Suc n)
  show ?case
  proof (cases "i = d")
    case False
    with Suc.prems obtain v where "\<sigma> (c i) = Some v" "cv_key v \<noteq> key" "early \<longrightarrow> cv_passbyNum v \<noteq> 0" by auto
    with False Suc.prems Suc.IH [of "Suc i"] show ?thesis by (auto simp: Suc_le_eq)
  qed simp
qed simp

lemma search_stored:
  assumes inv: "slots_inv h \<sigma> D" and D: "D key = Some d"
  shows "search \<sigma> (h key) key early MaxFindDepth 0 = Some (d, Exists)"
proof -
  have d: "d < MaxFindDepth" by (rule slots_invD(2) [OF inv D])
  have "\<exists>v. \<sigma> (h key j) = Some v \<and> cv_key v \<noteq> key \<and> cv_passbyNum v \<noteq> 0" if "j < d" for j
  proof -
    from slots_invD(4) [OF inv D that] obtain v where v: "\<sigma> (h key j) = Some v" "cv_key v \<noteq> key" by blast
    moreover have "0 < unat (cv_passbyNum v)"
      using slots_invD(5) [OF inv v(1)] passers_pos [OF slots_invD(1) [OF inv] D that, of h] by simp
    ultimately show ?thesis by (auto simp: unat_gt_0)
  qed
  then have "search \<sigma> (h key) key early MaxFindDepth 0 = search \<sigma> (h key) key early (0 + MaxFindDepth - d) d"
    using d by (intro search_skip) auto
  moreover obtain m where "0 + MaxFindDepth - d = Suc m" using d by (cases "MaxFindDepth - d") auto
  ultimately show ?thesis using slots_invD(3) [OF inv D] by auto
qed

text \<open>Where a search ends, and how.\<close>

lemma search_end:
  assumes "search \<sigma> c key early n i = Some (d, st)"
  shows "i \<le> d \<and> d < i + n \<and> (\<forall>j. i \<le> j \<and> j < d \<longrightarrow> (\<exists>v. \<sigma> (c j) = Some v \<and> cv_key v \<noteq> key)) \<and>
    (case st of Exists \<Rightarrow> \<exists>v. \<sigma> (c d) = Some v \<and> cv_key v = key \<and> \<not> cv_isEmpty v
     | EmptySlot \<Rightarrow> \<exists>v. \<sigma> (c d) = Some v \<and> cv_key v = key \<and> cv_isEmpty v
     | NotFount \<Rightarrow> \<sigma> (c d) = None \<or> early)"
  using assms
proof (induction n arbitrary: i)
  case (Suc n)
  show ?case
  proof (cases "\<sigma> (c i)")
    case None
    with Suc.prems show ?thesis by auto
  next
    case (Some v)
    show ?thesis
    proof (cases "cv_key v = key \<or> early \<and> cv_passbyNum v = 0")
      case True
      with Some Suc.prems show ?thesis by (auto split: if_splits)
    next
      case False
      with Some Suc.prems have "search \<sigma> c key early n (Suc i) = Some (d, st)" by (auto split: if_splits)
      note IH = Suc.IH [OF this]
      then have "\<exists>v. \<sigma> (c j) = Some v \<and> cv_key v \<noteq> key" if "i \<le> j \<and> j < d" for j
        using that False Some by (cases "j = i") auto
      with IH show ?thesis by auto
    qed
  qed
qed simp

lemma search_free:
  assumes inv: "slots_inv h \<sigma> D" and D: "D key = None"
  shows "search \<sigma> (h key) key early MaxFindDepth 0 \<noteq> Some (d, Exists)"
proof
  assume "search \<sigma> (h key) key early MaxFindDepth 0 = Some (d, Exists)"
  from search_end [OF this] obtain v where "\<sigma> (h key d) = Some v" "cv_key v = key" "\<not> cv_isEmpty v" by auto
  with slots_invD(7) [OF inv] D show False by fastforce
qed

text \<open>A search gives up after as many hops as are tried, over slots of other keys.\<close>

lemma search_None:
  "search \<sigma> c key early n i = None \<longleftrightarrow>
    (\<forall>j. i \<le> j \<and> j < i + n \<longrightarrow> (\<exists>v. \<sigma> (c j) = Some v \<and> cv_key v \<noteq> key \<and> (early \<longrightarrow> cv_passbyNum v \<noteq> 0)))"
proof (induction n arbitrary: i)
  case (Suc n)
  have split: "(\<forall>j. i \<le> j \<and> j < i + Suc n \<longrightarrow> P j) \<longleftrightarrow> P i \<and> (\<forall>j. Suc i \<le> j \<and> j < Suc i + n \<longrightarrow> P j)" for P
  proof
    assume "P i \<and> (\<forall>j. Suc i \<le> j \<and> j < Suc i + n \<longrightarrow> P j)"
    then show "\<forall>j. i \<le> j \<and> j < i + Suc n \<longrightarrow> P j" by (metis add_Suc add_Suc_right le_eq_less_or_eq Suc_leI)
  qed auto
  show ?case unfolding split by (cases "\<sigma> (c i)") (auto simp: Suc)
qed auto

section \<open>Writes and deletions keep the invariant\<close>

lemma unat_add_count:
  assumes "unat (p :: 64 word) + n < 2 ^ 64"
  shows "unat (p + of_nat n) = unat p + n"
proof -
  have "unat (of_nat n :: 64 word) = n" using assms by (simp add: unat_of_nat)
  then show ?thesis using assms by (simp add: unat_word_ariths)
qed

lemma unat_diff_count:
  assumes "n \<le> unat (p :: 64 word)"
  shows "unat (p - of_nat n) = unat p - n"
proof -
  have "unat p < 2 ^ 64" using unsigned_less [of p, where 'a = nat] by simp
  then have n: "unat (of_nat n :: 64 word) = n" using assms by (simp add: unat_of_nat)
  then show ?thesis using assms by (simp add: unat_sub word_le_nat_alt)
qed

lemma change_slot_inv:
  assumes "slots_inv h \<sigma> D"
  shows "slots_inv h (change_slot k obj \<sigma>) D"
  using assms unfolding slots_inv_def change_slot_def by (force split: if_splits)

text \<open>The slot where a search for a new key ends is not hopped over by it.\<close>

lemma free_end:
  assumes "search \<sigma> c key False n 0 = Some (d, st)" and "st \<noteq> Exists"
  shows "d < n" and "c d \<notin> set (hops c d)" and "j < d \<Longrightarrow> \<exists>v. \<sigma> (c j) = Some v \<and> cv_key v \<noteq> key"
    and "\<sigma> (c d) = Some v \<Longrightarrow> cv_key v = key \<and> cv_isEmpty v"
proof -
  note e = search_end [OF assms(1)]
  from e show "d < n" by simp
  from e show *: "j < d \<Longrightarrow> \<exists>v. \<sigma> (c j) = Some v \<and> cv_key v \<noteq> key" for j by simp
  from e assms(2) show **: "\<sigma> (c d) = Some v \<Longrightarrow> cv_key v = key \<and> cv_isEmpty v" for v by (cases st) auto
  show "c d \<notin> set (hops c d)" using * ** by fastforce
qed

lemma put_slot_inv:
  assumes inv: "slots_inv h \<sigma> D" and new: "D key = None" and s: "search \<sigma> (h key) key False MaxFindDepth 0 = Some (d, st)"
    and room: "MaxFindDepth * Suc (card (dom D)) < 2 ^ 64"
  shows "slots_inv h (put_slot (h key) d key obj \<sigma>) (D(key \<mapsto> d))"
proof -
  let ?k = "h key d" and ?ks = "hops (h key) d" and ?D = "D(key \<mapsto> d)"
  let ?\<sigma> = "put_slot (h key) d key obj \<sigma>"
  have "st \<noteq> Exists" using search_free [OF inv new, of False d] s by auto
  note e = free_end [OF s this]
  have fin: "finite (dom D)" by (rule slots_invD(1) [OF inv])
  have P: "passers h ?D k = passers h D k + count_list ?ks k" for k by (rule passers_insert [OF fin new])
  have small: "passers h D k + count_list ?ks k < 2 ^ 64" for k
  proof -
    have "count_list ?ks k \<le> MaxFindDepth" using count_le_length [of ?ks k] e(1) by simp
    with passers_bound [OF inv, of k] room show ?thesis by simp
  qed
  have at_end: "?\<sigma> ?k = Some (new_slot (\<sigma> ?k) key obj)" using e(2) by (simp add: put_slot_def fold_bump)
  have other: "?\<sigma> k = (if k \<in> set ?ks then map_option (\<lambda>v. v\<lparr>cv_passbyNum := cv_passbyNum v + of_nat (count_list ?ks k), cv_isDirty := True\<rparr>) (\<sigma> k)
    else \<sigma> k)" if "k \<noteq> ?k" for k using that by (simp add: put_slot_def fold_bump)
  have kept: "\<exists>w. ?\<sigma> k = Some w \<and> cv_key w = cv_key v \<and> cv_isEmpty w = cv_isEmpty v" if "\<sigma> k = Some v" "k \<noteq> ?k" for k v
    using that other [of k] by (cases "k \<in> set ?ks") auto
  have kept_key: "\<exists>w. ?\<sigma> k = Some w \<and> cv_key w = cv_key v" if "\<sigma> k = Some v" for k v
    using kept [OF that] that e(4) at_end by (cases "k = ?k") (auto simp: new_slot_def)
  show ?thesis unfolding slots_inv_def
  proof (intro conjI allI impI)
    show "finite (dom ?D)" using fin by simp
  next
    fix key' d' assume D: "?D key' = Some d'"
    show "d' < MaxFindDepth" using D e(1) slots_invD(2) [OF inv, of key' d'] by (auto split: if_splits)
    show "\<exists>v. ?\<sigma> (h key' d') = Some v \<and> cv_key v = key' \<and> \<not> cv_isEmpty v"
    proof (cases "key' = key")
      case True
      with D at_end show ?thesis by (simp add: new_slot_def)
    next
      case False
      with D slots_invD(3) [OF inv, of key' d'] obtain v where v: "\<sigma> (h key' d') = Some v" "cv_key v = key'" "\<not> cv_isEmpty v" by auto
      with e(4) have "h key' d' \<noteq> ?k" by auto
      from kept [OF v(1) this] v show ?thesis by auto
    qed
    fix j assume "j < d'"
    then obtain v where "\<sigma> (h key' j) = Some v" "cv_key v \<noteq> key'"
      using D e(3) [of j] slots_invD(4) [OF inv, of key' d' j] by (auto split: if_splits)
    with kept_key [of "h key' j" v] show "\<exists>v. ?\<sigma> (h key' j) = Some v \<and> cv_key v \<noteq> key'" by auto
  next
    fix k w assume w: "?\<sigma> k = Some w"
    have "unat (cv_passbyNum w) = passers h D k + count_list ?ks k \<and>
      (if cv_isEmpty w then 0 < passers h D k else \<exists>d. ?D (cv_key w) = Some d \<and> h (cv_key w) d = k)"
    proof (cases "k = ?k")
      case True
      have "passers h D ?k = 0" if "\<sigma> ?k = None" using passers_slot [OF inv, of ?k] that by (cases "passers h D ?k") auto
      with w True at_end e(2) slots_invD(5) [OF inv, of ?k] show ?thesis
        by (auto simp: new_slot_def split: option.splits)
    next
      case False
      from w other [OF False] obtain v where v: "\<sigma> k = Some v" by (auto split: if_splits)
      then have "cv_key w = cv_key v" "cv_isEmpty w = cv_isEmpty v" "cv_passbyNum w = cv_passbyNum v + of_nat (count_list ?ks k)"
        using w other [OF False] by (auto split: if_splits)
      moreover have "unat (cv_passbyNum v + of_nat (count_list ?ks k)) = passers h D k + count_list ?ks k"
        using unat_add_count [of "cv_passbyNum v" "count_list ?ks k"] small [of k] slots_invD(5) [OF inv v] by simp
      moreover have "?D (cv_key v) = Some d'" if "D (cv_key v) = Some d'" for d' using that new by auto
      ultimately show ?thesis using slots_invD(6,7) [OF inv v] by (auto simp del: fun_upd_apply)
    qed
    then show "unat (cv_passbyNum w) = passers h ?D k"
      "if cv_isEmpty w then 0 < passers h ?D k else \<exists>d. ?D (cv_key w) = Some d \<and> h (cv_key w) d = k"
      unfolding P by (auto split: if_splits)
  qed
qed

text \<open>The slots on the path of a stored key, and what is left of them.\<close>

lemma remove_slot_apply:
  assumes inv: "slots_inv h \<sigma> D" and D: "D key = Some d"
  defines "\<sigma>' \<equiv> remove_slot (h key) d \<sigma>" and "D' \<equiv> D(key := None)"
  shows "hopped (hops (h key) d) (free_slot (h key d) \<sigma>)"
    and "\<sigma>' (h key d) = (case \<sigma> (h key d) of None \<Rightarrow> None
      | Some v \<Rightarrow> if passers h D' (h key d) = 0 then None else Some (v\<lparr>cv_isEmpty := True, cv_isDirty := True\<rparr>))"
    and "k \<noteq> h key d \<Longrightarrow> \<sigma> k = None \<Longrightarrow> \<sigma>' k = None"
    and "k \<noteq> h key d \<Longrightarrow> \<sigma> k = Some v \<Longrightarrow> if passers h D' k = 0 \<and> cv_isEmpty v then \<sigma>' k = None
      else \<exists>w. \<sigma>' k = Some w \<and> cv_key w = cv_key v \<and> cv_isEmpty w = cv_isEmpty v \<and> cv_obj w = cv_obj v \<and> unat (cv_passbyNum w) = passers h D' k"
proof -
  let ?k = "h key d" and ?ks = "hops (h key) d"
  have P: "passers h D k = passers h D' k + count_list ?ks k" for k unfolding D'_def by (rule passers_remove [OF slots_invD(1) [OF inv] D])
  from slots_invD(3) [OF inv D] obtain u where u: "\<sigma> ?k = Some u" "cv_key u = key" "\<not> cv_isEmpty u" by blast
  have ends: "?k \<notin> set ?ks" using slots_invD(4) [OF inv D] u by fastforce
  have cnt: "count_list ?ks k \<le> unat (cv_passbyNum v)" if "\<sigma> k = Some v" for k v using slots_invD(5) [OF inv that] P [of k] by simp
  show hp: "hopped ?ks (free_slot ?k \<sigma>)" unfolding hopped_def
  proof
    fix k assume k: "k \<in> set ?ks"
    then obtain v where "\<sigma> k = Some v" using slots_invD(4) [OF inv D] by fastforce
    moreover have "k \<noteq> ?k" using k ends by metis
    ultimately show "\<exists>v. free_slot ?k \<sigma> k = Some v \<and> count_list ?ks k \<le> unat (cv_passbyNum v)" using cnt by (simp add: free_slot_def)
  qed
  note R = fold_unbump [OF hp, folded remove_slot_def, folded \<sigma>'_def]
  have "unat (cv_passbyNum u) = passers h D' ?k" using slots_invD(5) [OF inv u(1)] P [of ?k] ends by simp
  then show "\<sigma>' ?k = (case \<sigma> ?k of None \<Rightarrow> None
      | Some v \<Rightarrow> if passers h D' ?k = 0 then None else Some (v\<lparr>cv_isEmpty := True, cv_isDirty := True\<rparr>))"
    using R [of ?k] ends u(1) by (auto simp: free_slot_def unat_eq_zero)
  show "k \<noteq> ?k \<Longrightarrow> \<sigma> k = None \<Longrightarrow> \<sigma>' k = None" using R [of k] by (auto simp: free_slot_def)
  assume k: "k \<noteq> ?k" and v: "\<sigma> k = Some v"
  let ?p = "cv_passbyNum v - of_nat (count_list ?ks k)"
  have p: "unat ?p = passers h D' k" using unat_diff_count [OF cnt [OF v]] slots_invD(5) [OF inv v] P [of k] by simp
  then have z: "?p = 0 \<longleftrightarrow> passers h D' k = 0" by (simp add: unat_eq_zero [symmetric])
  show "if passers h D' k = 0 \<and> cv_isEmpty v then \<sigma>' k = None
      else \<exists>w. \<sigma>' k = Some w \<and> cv_key w = cv_key v \<and> cv_isEmpty w = cv_isEmpty v \<and> cv_obj w = cv_obj v \<and> unat (cv_passbyNum w) = passers h D' k"
  proof (cases "k \<in> set ?ks")
    case True
    with R [of k] k v z p show ?thesis by (auto simp: free_slot_def Let_def)
  next
    case False
    then have "count_list ?ks k = 0" by simp
    with False R [of k] k v p slots_invD(6) [OF inv v] P [of k] show ?thesis by (auto simp: free_slot_def)
  qed
qed

lemma remove_slot_inv:
  assumes inv: "slots_inv h \<sigma> D" and D: "D key = Some d"
  shows "slots_inv h (remove_slot (h key) d \<sigma>) (D(key := None))"
proof -
  let ?k = "h key d" and ?\<sigma> = "remove_slot (h key) d \<sigma>" and ?D = "D(key := None)"
  note A = remove_slot_apply [OF inv D]
  have fin: "finite (dom ?D)" using slots_invD(1) [OF inv] by simp
  from slots_invD(3) [OF inv D] obtain u where u: "\<sigma> ?k = Some u" "cv_key u = key" "\<not> cv_isEmpty u" by blast
  have kept: "\<exists>w. ?\<sigma> k = Some w \<and> cv_key w = cv_key v \<and> (k \<noteq> ?k \<longrightarrow> cv_isEmpty w = cv_isEmpty v)"
    if "\<sigma> k = Some v" "0 < passers h ?D k \<or> k \<noteq> ?k \<and> \<not> cv_isEmpty v" for k v
    using that A(2) A(4) [of k v] by (cases "k = ?k") (auto split: if_splits)
  show ?thesis unfolding slots_inv_def
  proof (intro conjI allI impI)
    show "finite (dom ?D)" by (rule fin)
  next
    fix key' d' assume "?D key' = Some d'"
    then have D': "D key' = Some d'" "key' \<noteq> key" by (auto split: if_splits)
    show "d' < MaxFindDepth" by (rule slots_invD(2) [OF inv D'(1)])
    from slots_invD(3) [OF inv D'(1)] obtain v where v: "\<sigma> (h key' d') = Some v" "cv_key v = key'" "\<not> cv_isEmpty v" by blast
    with u D'(2) have "h key' d' \<noteq> ?k" by auto
    with kept [OF v(1)] v show "\<exists>v. ?\<sigma> (h key' d') = Some v \<and> cv_key v = key' \<and> \<not> cv_isEmpty v" by auto
    fix j assume j: "j < d'"
    from slots_invD(4) [OF inv D'(1) j] obtain v where "\<sigma> (h key' j) = Some v" "cv_key v \<noteq> key'" by blast
    with kept [of "h key' j" v] passers_pos [OF fin \<open>?D key' = Some d'\<close> j, of h]
    show "\<exists>v. ?\<sigma> (h key' j) = Some v \<and> cv_key v \<noteq> key'" by auto
  next
    fix k w assume w: "?\<sigma> k = Some w"
    have "unat (cv_passbyNum w) = passers h ?D k \<and>
      (if cv_isEmpty w then 0 < passers h ?D k else \<exists>d. ?D (cv_key w) = Some d \<and> h (cv_key w) d = k)"
    proof (cases "k = ?k")
      case True
      have "passers h ?D ?k = passers h D ?k"
        using passers_remove [OF slots_invD(1) [OF inv] D, of h ?k] slots_invD(4) [OF inv D] u by (fastforce simp: count_list_0_iff)
      with True w A(2) u(1) slots_invD(5) [OF inv u(1)] show ?thesis by (auto split: if_splits)
    next
      case False
      with w A(3) [of k] obtain v where v: "\<sigma> k = Some v" by (cases "\<sigma> k") auto
      have "D (cv_key v) = Some d' \<and> h (cv_key v) d' = k \<Longrightarrow> cv_key v \<noteq> key" for d' using D False by auto
      with A(4) [OF False v] w slots_invD(7) [OF inv v] show ?thesis by (auto split: if_splits)
    qed
    then show "unat (cv_passbyNum w) = passers h ?D k"
      "if cv_isEmpty w then 0 < passers h ?D k else \<exists>d. ?D (cv_key w) = Some d \<and> h (cv_key w) d = k" by blast+
  qed
qed

section \<open>The map that the slots hold\<close>

definition slot_map :: "(bytes \<Rightarrow> nat \<Rightarrow> bytes) \<Rightarrow> 'o slots \<Rightarrow> (bytes \<rightharpoonup> nat) \<Rightarrow> (bytes \<rightharpoonup> 'o anyValue)" where
  "slot_map h \<sigma> D key = (case D key of None \<Rightarrow> None | Some d \<Rightarrow> map_option cv_obj (\<sigma> (h key d)))"

lemma slot_map_put:
  assumes inv: "slots_inv h \<sigma> D" and new: "D key = None" and s: "search \<sigma> (h key) key False MaxFindDepth 0 = Some (d, st)"
  shows "slot_map h (put_slot (h key) d key obj \<sigma>) (D(key \<mapsto> d)) = (slot_map h \<sigma> D)(key \<mapsto> obj)"
proof
  fix key'
  have "st \<noteq> Exists" using search_free [OF inv new, of False d] s by auto
  note e = free_end [OF s this]
  show "slot_map h (put_slot (h key) d key obj \<sigma>) (D(key \<mapsto> d)) key' = ((slot_map h \<sigma> D)(key \<mapsto> obj)) key'"
  proof (cases "key' = key")
    case True
    with e(2) show ?thesis by (simp add: slot_map_def put_slot_def fold_bump new_slot_def)
  next
    case False
    show ?thesis
    proof (cases "D key'")
      case None
      with False show ?thesis by (simp add: slot_map_def)
    next
      case (Some d')
      from slots_invD(3) [OF inv Some] obtain v where v: "\<sigma> (h key' d') = Some v" "cv_key v = key'" "\<not> cv_isEmpty v" by blast
      with e(4) have "h key' d' \<noteq> h key d" by auto
      with False Some v(1) show ?thesis by (simp add: slot_map_def put_slot_def fold_bump)
    qed
  qed
qed

lemma slot_map_change:
  assumes inv: "slots_inv h \<sigma> D" and D: "D key = Some d"
  shows "slot_map h (change_slot (h key d) obj \<sigma>) D = (slot_map h \<sigma> D)(key \<mapsto> obj)"
proof
  fix key'
  from slots_invD(3) [OF inv D] obtain u where u: "\<sigma> (h key d) = Some u" "cv_key u = key" by blast
  show "slot_map h (change_slot (h key d) obj \<sigma>) D key' = ((slot_map h \<sigma> D)(key \<mapsto> obj)) key'"
    using D u slots_invD(3) [OF inv, of key'] by (cases "D key'") (auto simp: slot_map_def change_slot_def split: if_splits)
qed

lemma slot_map_remove:
  assumes inv: "slots_inv h \<sigma> D" and D: "D key = Some d"
  shows "slot_map h (remove_slot (h key) d \<sigma>) (D(key := None)) = (slot_map h \<sigma> D)(key := None)"
proof
  fix key'
  show "slot_map h (remove_slot (h key) d \<sigma>) (D(key := None)) key' = ((slot_map h \<sigma> D)(key := None)) key'"
  proof (cases "key' = key \<or> D key' = None")
    case False
    then obtain d' where d': "D key' = Some d'" by auto
    from slots_invD(3) [OF inv D] obtain u where u: "\<sigma> (h key d) = Some u" "cv_key u = key" by blast
    from slots_invD(3) [OF inv d'] obtain v where v: "\<sigma> (h key' d') = Some v" "cv_key v = key'" "\<not> cv_isEmpty v" by blast
    with u False have "h key' d' \<noteq> h key d" by auto
    from remove_slot_apply(4) [OF inv D this v(1)] v False d' show ?thesis by (auto simp: slot_map_def)
  qed (auto simp: slot_map_def)
qed

text \<open>When all keys are removed, no slot is left.\<close>

lemma no_keys_no_slots:
  assumes "slots_inv h \<sigma> Map.empty"
  shows "\<sigma> = Map.empty"
proof
  fix k
  show "\<sigma> k = None"
  proof (cases "\<sigma> k")
    case (Some v)
    have "passers h Map.empty k = 0" by (simp add: passers_def)
    with slots_invD(6,7) [OF assms Some] show ?thesis by auto
  qed
qed

text \<open>The invariant looks at the counters, the keys and the empty marks only.\<close>

lemma slots_inv_cong:
  assumes "slots_inv h \<sigma> D"
    and "\<And>k. map_option (\<lambda>v. (cv_passbyNum v, cv_key v, cv_isEmpty v)) (\<sigma>' k) = map_option (\<lambda>v. (cv_passbyNum v, cv_key v, cv_isEmpty v)) (\<sigma> k)"
  shows "slots_inv h \<sigma>' D"
proof -
  have 1: "\<exists>w. \<sigma>' k = Some w \<and> cv_passbyNum w = cv_passbyNum v \<and> cv_key w = cv_key v \<and> cv_isEmpty w = cv_isEmpty v" if "\<sigma> k = Some v" for k v
    using assms(2) [of k] that by auto
  have 2: "\<exists>w. \<sigma> k = Some w \<and> cv_passbyNum w = cv_passbyNum v \<and> cv_key w = cv_key v \<and> cv_isEmpty w = cv_isEmpty v" if "\<sigma>' k = Some v" for k v
    using assms(2) [of k] that by (cases "\<sigma> k") auto
  show ?thesis unfolding slots_inv_def
  proof (intro conjI allI impI)
    show "finite (dom D)" by (rule slots_invD(1) [OF assms(1)])
  next
    fix key d assume D: "D key = Some d"
    show "d < MaxFindDepth" by (rule slots_invD(2) [OF assms(1) D])
    show "\<exists>v. \<sigma>' (h key d) = Some v \<and> cv_key v = key \<and> \<not> cv_isEmpty v" using slots_invD(3) [OF assms(1) D] 1 by fastforce
    fix j assume "j < d"
    then show "\<exists>v. \<sigma>' (h key j) = Some v \<and> cv_key v \<noteq> key" using slots_invD(4) [OF assms(1) D] 1 by fastforce
  next
    fix k w assume "\<sigma>' k = Some w"
    from 2 [OF this] obtain v where "\<sigma> k = Some v" "cv_passbyNum v = cv_passbyNum w" "cv_key v = cv_key w" "cv_isEmpty v = cv_isEmpty w" by auto
    with slots_invD(5-7) [OF assms(1) \<open>\<sigma> k = Some v\<close>] show "unat (cv_passbyNum w) = passers h D k"
      "if cv_isEmpty w then 0 < passers h D k else \<exists>d. D (cv_key w) = Some d \<and> h (cv_key w) d = k" by auto
  qed
qed

lemma slots_inv_empty [simp]: "slots_inv h Map.empty Map.empty"
  by (simp add: slots_inv_def)

section \<open>When searches end\<close>

text \<open>Every slot is a hop of its key, which is one of the keys \<open>K\<close>.\<close>

definition located :: "(bytes \<Rightarrow> nat \<Rightarrow> bytes) \<Rightarrow> bytes set \<Rightarrow> 'o slots \<Rightarrow> bool" where
  "located h K \<sigma> \<longleftrightarrow> (\<forall>k v. \<sigma> k = Some v \<longrightarrow> cv_key v \<in> K \<and> (\<exists>i<MaxFindDepth. h (cv_key v) i = k))"

text \<open>Each of the keys has a hop that no other one of them has.\<close>

definition separated :: "(bytes \<Rightarrow> nat \<Rightarrow> bytes) \<Rightarrow> bytes set \<Rightarrow> bool" where
  "separated h K \<longleftrightarrow> (\<forall>key \<in> K. \<exists>j<MaxFindDepth. \<forall>key' \<in> K. key' \<noteq> key \<longrightarrow> (\<forall>i<MaxFindDepth. h key' i \<noteq> h key j))"

lemma located_empty [simp]: "located h K Map.empty"
  by (simp add: located_def)

lemma located_search:
  assumes "located h K \<sigma>" and "separated h K" and "key \<in> K"
  shows "search \<sigma> (h key) key early MaxFindDepth 0 \<noteq> None"
proof
  assume "search \<sigma> (h key) key early MaxFindDepth 0 = None"
  then have full: "\<exists>v. \<sigma> (h key j) = Some v \<and> cv_key v \<noteq> key" if "j < MaxFindDepth" for j using that by (auto simp: search_None)
  from assms(2,3) obtain j where j: "j < MaxFindDepth" "\<forall>key' \<in> K. key' \<noteq> key \<longrightarrow> (\<forall>i<MaxFindDepth. h key' i \<noteq> h key j)"
    unfolding separated_def by blast
  from full [OF j(1)] obtain v where "\<sigma> (h key j) = Some v" "cv_key v \<noteq> key" by blast
  with assms(1) j(2) show False unfolding located_def by blast
qed

text \<open>Slots whose keys are those of other slots, or the key that was put.\<close>

lemma located_keys:
  assumes "located h K \<sigma>" and "\<And>k v. \<sigma>' k = Some v \<Longrightarrow> (\<exists>w. \<sigma> k = Some w \<and> cv_key w = cv_key v) \<or> cv_key v = key \<and> h key d = k"
    and "key \<in> K" and "d < MaxFindDepth"
  shows "located h K \<sigma>'"
  unfolding located_def using assms(2) assms(1) [unfolded located_def] assms(3,4) by metis

lemma fold_bump_key: "fold bump ks \<sigma> k = Some v \<Longrightarrow> \<exists>w. \<sigma> k = Some w \<and> cv_key w = cv_key v"
  by (auto simp: fold_bump split: if_splits)

lemma fold_unbump_key: "fold unbump ks \<sigma> k = Some v \<Longrightarrow> \<exists>w. \<sigma> k = Some w \<and> cv_key w = cv_key v"
proof (induction ks arbitrary: \<sigma>)
  case (Cons k' ks)
  from Cons.IH [of "unbump k' \<sigma>"] Cons.prems obtain w where "unbump k' \<sigma> k = Some w" "cv_key w = cv_key v" by auto
  then show ?case by (auto simp: unbump_def split: if_splits option.splits)
qed simp

lemma located_put: "located h K \<sigma> \<Longrightarrow> key \<in> K \<Longrightarrow> d < MaxFindDepth \<Longrightarrow> located h K (put_slot (h key) d key obj \<sigma>)"
  by (erule located_keys) (auto simp: put_slot_def new_slot_def dest!: fold_bump_key split: if_splits)

lemma located_change: "located h K \<sigma> \<Longrightarrow> located h K (change_slot k obj \<sigma>)"
  unfolding located_def change_slot_def by (auto split: if_splits)

lemma located_remove: "located h K \<sigma> \<Longrightarrow> located h K (remove_slot (h key) d \<sigma>)"
proof -
  assume l: "located h K \<sigma>"
  have "\<exists>w. \<sigma> k = Some w \<and> cv_key w = cv_key v" if "remove_slot (h key) d \<sigma> k = Some v" for k v
    using fold_unbump_key [OF that [unfolded remove_slot_def]] by (auto simp: free_slot_def split: if_splits option.splits)
  with l show ?thesis unfolding located_def by metis
qed

end
