(* ===== verification/RabbitSlots.thy ===== *)
theory RabbitSlots
  imports RabbitTrie StoreRuns
begin

text \<open>
  The slots of a rabbit store: those of its cache over those of the trunk. Finding, loading and setting
  a slot through the caches is what \<open>RabbitTrie\<close> does to the map of slots, over any root store.
\<close>

section \<open>Encoded slots\<close>

definition slot_bytes :: "bool \<Rightarrow> 64 word \<Rightarrow> bytes \<Rightarrow> bytes \<Rightarrow> bytes" where
  "slot_bytes e p key b = [if e then 1 else 0] @ put_le 8 (unat p) @ put_le 4 (length key mod 2 ^ 32) @ key @ b"

definition any_bytes :: "'o Serializable \<Rightarrow> 'o anyValue \<Rightarrow> bytes option" where
  "any_bytes S obj = (case obj of AnyNil \<Rightarrow> None | AnyBytes bz \<Rightarrow> bz | AnyObj x \<Rightarrow> s_ToBytes S x)"

text \<open>The bytes behind the key of a slot.\<close>

definition slot_value :: "'o Serializable \<Rightarrow> 'o CachedValue \<Rightarrow> bytes option" where
  "slot_value S v = (if cv_isEmpty v then Some [] else any_bytes S (cv_obj v))"

lemma CachedValue_ToBytes_ok:
  "slot_value S v = Some b \<Longrightarrow> CachedValue_ToBytes S v = Inr (slot_bytes (cv_isEmpty v) (cv_passbyNum v) (cv_key v) b)"
  by (auto simp: slot_value_def any_bytes_def CachedValue_ToBytes_def CachedValue_GetValue_def slot_bytes_def Let_def slice_bytes_def
      split: if_splits anyValue.splits)

lemma BytesToCachedValue_slot_bytes:
  assumes "length key < 2 ^ 32" and "e \<longrightarrow> b = []"
  shows "BytesToCachedValue (slot_bytes e p key b) = Some \<lparr>cv_passbyNum = p, cv_key = key, cv_obj = if e then AnyNil else AnyBytes (Some b),
    cv_isEmpty = e, cv_isDeleted = False, cv_isDirty = False\<rparr>"
proof -
  let ?b = "slot_bytes e p key b"
  have len: "length ?b = KeyStart + length key + length b" by (simp add: slot_bytes_def KeyStart_def KeyLenStart_def)
  have "subslice ?b KeyLenStart KeyStart = put_le 4 (length key mod 2 ^ 32)"
    using subslice_append_mid [of KeyLenStart "[if e then 1 else 0] @ put_le 8 (unat p)" KeyStart "put_le 4 (length key mod 2 ^ 32)" "key @ b"]
    by (simp add: slot_bytes_def KeyStart_def KeyLenStart_def)
  then have k: "get_le (subslice ?b KeyLenStart KeyStart) = length key" using assms(1) by (simp add: get_put_le)
  have "subslice ?b 1 9 = put_le 8 (unat p)"
    using subslice_append_mid [of 1 "[if e then 1 else 0]" 9 "put_le 8 (unat p)" "put_le 4 (length key mod 2 ^ 32) @ key @ b"]
    by (simp add: slot_bytes_def)
  moreover have "unat p < 256 ^ 8" using unsigned_less [of p, where 'a = nat] by simp
  ultimately have "get_le (subslice ?b 1 9) = unat p" by (simp add: get_put_le)
  moreover have "subslice ?b KeyStart (KeyStart + length key) = key"
    using subslice_append_mid [of KeyStart "[if e then 1 else 0] @ put_le 8 (unat p) @ put_le 4 (length key mod 2 ^ 32)" "KeyStart + length key" key b]
    by (simp add: slot_bytes_def KeyStart_def KeyLenStart_def)
  moreover have "drop (KeyStart + length key) ?b = b"
  proof -
    let ?h = "[if e then 1 else 0] @ put_le 8 (unat p) @ put_le 4 (length key mod 2 ^ 32) @ key"
    have "?b = ?h @ b" "length ?h = KeyStart + length key" by (simp_all add: slot_bytes_def KeyStart_def KeyLenStart_def)
    then show ?thesis by (metis append_eq_conv_conj)
  qed
  moreover have "?b ! 0 = (if e then 1 else 0)" by (simp add: slot_bytes_def)
  ultimately show ?thesis using assms(2) by (simp add: BytesToCachedValue_def Let_def len k)
qed

text \<open>Short keys have eight bytes, and the lowest bit of the first one is set.\<close>

definition is_short :: "bytes \<Rightarrow> bool" where
  "is_short k \<longleftrightarrow> length k = KeySize \<and> bit (k ! 0) 0"

lemma shortKey_short: "is_short (shortKey h)"
  by (simp add: is_short_def shortKey_def KeySize_def copy_at_def Let_def bit_or_iff)

lemma hop_short [simp]: "is_short (hop sha key i)"
  by (simp add: hop_def shortKey_short)

section \<open>The slots of a store\<close>

definition rb_slots :: "('r \<Rightarrow> (bytes \<rightharpoonup> bytes)) \<Rightarrow> 'o Serializable \<Rightarrow> ('r, 'o) RabbitStore \<Rightarrow> 'o slots" where
  "rb_slots view S rb k = (if \<not> is_short k then None
     else case sms_cache rb k of Some (Some v) \<Rightarrow> if cv_isDeleted v then None else Some v
       | Some None \<Rightarrow> None
       | None \<Rightarrow> Option.bind (trunk_view view S (sms_trunk rb) k) BytesToCachedValue)"

text \<open>A value that can be written at any short key, also when its slot is freed and with any counter.\<close>

definition key_fits :: "(bytes \<Rightarrow> bytes \<Rightarrow> bool) \<Rightarrow> bytes \<Rightarrow> bytes \<Rightarrow> bool" where
  "key_fits storable key b \<longleftrightarrow> length key < 2 ^ 32 \<and> (\<forall>k p. is_short k \<longrightarrow> storable k (slot_bytes False p key b) \<and> storable k (slot_bytes True p key []))"

definition slot_fits :: "(bytes \<Rightarrow> bytes \<Rightarrow> bool) \<Rightarrow> 'o Serializable \<Rightarrow> 'o CachedValue \<Rightarrow> bool" where
  "slot_fits storable S v \<longleftrightarrow> length (cv_key v) < 2 ^ 32 \<and> (\<exists>b. slot_value S v = Some b \<and>
     (\<forall>k p. is_short k \<longrightarrow> storable k (slot_bytes True p (cv_key v) []) \<and> storable k (slot_bytes (cv_isEmpty v) p (cv_key v) b)))"

text \<open>Whether a store can be read, and whether it can be written back.\<close>

definition trunk_decodes :: "('r \<Rightarrow> (bytes \<rightharpoonup> bytes)) \<Rightarrow> 'o Serializable \<Rightarrow> ('r, 'o) TrunkStore \<Rightarrow> bool" where
  "trunk_decodes view S ts \<longleftrightarrow> (\<forall>k bz. is_short k \<and> trunk_view view S ts k = Some bz \<longrightarrow> (BytesToCachedValue bz :: 'o CachedValue option) \<noteq> None)"

definition cached_ok :: "(bytes \<Rightarrow> bytes \<Rightarrow> bool) \<Rightarrow> 'o Serializable \<Rightarrow> prepare list \<Rightarrow> (bytes \<rightharpoonup> bytes) \<Rightarrow> bytes \<Rightarrow> 'o CachedValue \<Rightarrow> bool" where
  "cached_ok storable S ps T k v \<longleftrightarrow> is_short k \<and> slot_fits storable S v \<and>
     (if cv_isDirty v then (if cv_isDeleted v then ForDeletion k \<in> set ps else ForUpdate k \<in> set ps)
      else \<not> cv_isDeleted v \<and> Option.bind (T k) BytesToCachedValue = Some v)"

definition rabbit_core :: "(prepare list \<Rightarrow> 'r \<Rightarrow> bool) \<Rightarrow> (bytes \<Rightarrow> bytes \<Rightarrow> bool) \<Rightarrow> ('r \<Rightarrow> (bytes \<rightharpoonup> bytes)) \<Rightarrow> 'o Serializable \<Rightarrow>
    prepare list \<Rightarrow> ('r, 'o) RabbitStore \<Rightarrow> bool" where
  "rabbit_core rinv storable view S ps rb \<longleftrightarrow> trunk_ok rinv storable S ps (sms_trunk rb) \<and> trunk_decodes view S (sms_trunk rb) \<and>
     finite (dom (sms_cache rb)) \<and>
     (\<forall>k c. sms_cache rb k = Some c \<longrightarrow> (\<exists>v. c = Some v \<and> cached_ok storable S ps (trunk_view view S (sms_trunk rb)) k v)) \<and>
     (\<forall>k v. rb_slots view S rb k = Some v \<longrightarrow> slot_fits storable S v)"

text \<open>A store after loading slots, and slots that are loaded.\<close>

definition loads :: "('r \<Rightarrow> (bytes \<rightharpoonup> bytes)) \<Rightarrow> 'o Serializable \<Rightarrow> bytes set \<Rightarrow> ('r, 'o) RabbitStore \<Rightarrow> ('r, 'o) RabbitStore \<Rightarrow> bool" where
  "loads view S K rb rb' \<longleftrightarrow> finite K \<and> sms_trunk rb' = sms_trunk rb \<and> (\<forall>k. sms_cache rb' k = sms_cache rb k \<or>
     k \<in> K \<and> is_short k \<and> sms_cache rb k = None \<and>
       (\<exists>v. Option.bind (trunk_view view S (sms_trunk rb) k) BytesToCachedValue = Some v \<and> sms_cache rb' k = Some (Some v)))"

definition loaded :: "('r \<Rightarrow> (bytes \<rightharpoonup> bytes)) \<Rightarrow> 'o Serializable \<Rightarrow> bytes list \<Rightarrow> ('r, 'o) RabbitStore \<Rightarrow> bool" where
  "loaded view S ks rb \<longleftrightarrow> (\<forall>k \<in> set ks. \<forall>v. rb_slots view S rb k = Some v \<longrightarrow> sms_cache rb k = Some (Some v) \<and> \<not> cv_isDeleted v)"

lemma decoded_live: "BytesToCachedValue bz = Some v \<Longrightarrow> \<not> cv_isDeleted v \<and> \<not> cv_isDirty v"
  by (auto simp: BytesToCachedValue_def Let_def split: if_splits)

lemma loads_refl [simp]: "loads view S K rb rb \<longleftrightarrow> finite K"
  by (simp add: loads_def)

lemma loads_slots:
  assumes "loads view S K rb rb'"
  shows "rb_slots view S rb' = rb_slots view S rb"
proof
  fix k
  from assms have t: "sms_trunk rb' = sms_trunk rb" by (simp add: loads_def)
  from assms have "sms_cache rb' k = sms_cache rb k \<or> sms_cache rb k = None \<and>
       (\<exists>v. Option.bind (trunk_view view S (sms_trunk rb) k) BytesToCachedValue = Some v \<and> sms_cache rb' k = Some (Some v))"
    by (auto simp: loads_def)
  then show "rb_slots view S rb' k = rb_slots view S rb k"
  proof (elim disjE conjE exE)
    assume "sms_cache rb' k = sms_cache rb k"
    then show ?thesis by (simp add: rb_slots_def t cong: option.case_cong)
  next
    fix v assume v: "sms_cache rb k = None" "Option.bind (trunk_view view S (sms_trunk rb) k) BytesToCachedValue = Some v" "sms_cache rb' k = Some (Some v)"
    then have "\<not> cv_isDeleted v" by (auto simp: bind_eq_Some_conv dest: decoded_live)
    with v show ?thesis by (simp add: rb_slots_def)
  qed
qed

lemma loads_trans:
  assumes a: "loads view S K rb rb1" and b: "loads view S K rb1 rb2"
  shows "loads view S K rb rb2"
  unfolding loads_def
proof (intro conjI allI)
  show "finite K" "sms_trunk rb2 = sms_trunk rb" using a b by (simp_all add: loads_def)
  fix k
  show "sms_cache rb2 k = sms_cache rb k \<or> k \<in> K \<and> is_short k \<and> sms_cache rb k = None \<and>
       (\<exists>v. Option.bind (trunk_view view S (sms_trunk rb) k) BytesToCachedValue = Some v \<and> sms_cache rb2 k = Some (Some v))"
    using a [unfolded loads_def, THEN conjunct2, THEN conjunct2, rule_format, of k]
      b [unfolded loads_def, THEN conjunct2, THEN conjunct2, rule_format, of k] a [unfolded loads_def, THEN conjunct2, THEN conjunct1] by auto
qed

lemma loads_mono: "loads view S K rb rb' \<Longrightarrow> K \<subseteq> K' \<Longrightarrow> finite K' \<Longrightarrow> loads view S K' rb rb'"
  unfolding loads_def by blast

lemma loads_loaded:
  assumes "loads view S K rb rb'" and "loaded view S ks rb"
  shows "loaded view S ks rb'"
  unfolding loaded_def loads_slots [OF assms(1)]
proof (intro ballI allI impI)
  fix k v assume "k \<in> set ks" "rb_slots view S rb k = Some v"
  with assms(2) have "sms_cache rb k = Some (Some v) \<and> \<not> cv_isDeleted v" unfolding loaded_def by blast
  moreover from this assms(1) have "sms_cache rb' k = sms_cache rb k" unfolding loads_def by (metis option.distinct(1))
  ultimately show "sms_cache rb' k = Some (Some v) \<and> \<not> cv_isDeleted v" by simp
qed

lemma loads_nothing:
  assumes "loads view S K rb rb'" and "\<And>k. k \<in> K \<Longrightarrow> sms_cache rb k \<noteq> None"
  shows "rb' = rb"
proof -
  from assms have "sms_cache rb' k = sms_cache rb k" for k unfolding loads_def by metis
  moreover have "sms_trunk rb' = sms_trunk rb" using assms(1) by (simp add: loads_def)
  ultimately show ?thesis by (cases rb; cases rb') (simp add: fun_eq_iff)
qed

lemma loads_core:
  assumes l: "loads view S K rb rb'" and c: "rabbit_core rinv storable view S ps rb"
  shows "rabbit_core rinv storable view S ps rb'"
  unfolding rabbit_core_def loads_slots [OF l]
proof (intro conjI allI impI)
  have t: "sms_trunk rb' = sms_trunk rb" using l by (simp add: loads_def)
  show "trunk_ok rinv storable S ps (sms_trunk rb')" "trunk_decodes view S (sms_trunk rb')" using c by (simp_all add: rabbit_core_def t)
  have "dom (sms_cache rb') \<subseteq> dom (sms_cache rb) \<union> K" 
  proof
    fix k assume "k \<in> dom (sms_cache rb')"
    then show "k \<in> dom (sms_cache rb) \<union> K" using l [unfolded loads_def, THEN conjunct2, THEN conjunct2, rule_format, of k] by auto
  qed
  moreover have "finite (dom (sms_cache rb) \<union> K)" using c l by (simp add: rabbit_core_def loads_def)
  ultimately show "finite (dom (sms_cache rb'))" by (rule finite_subset)
  show "slot_fits storable S v" if "rb_slots view S rb k = Some v" for k v using c that by (simp add: rabbit_core_def)
  fix k x assume x: "sms_cache rb' k = Some x"
  from l have "sms_cache rb' k = sms_cache rb k \<or> is_short k \<and> sms_cache rb k = None \<and>
       (\<exists>v. Option.bind (trunk_view view S (sms_trunk rb) k) BytesToCachedValue = Some v \<and> sms_cache rb' k = Some (Some v))"
    by (auto simp: loads_def)
  then show "\<exists>v. x = Some v \<and> cached_ok storable S ps (trunk_view view S (sms_trunk rb')) k v"
  proof (elim disjE conjE exE)
    assume "sms_cache rb' k = sms_cache rb k"
    with c x show ?thesis by (simp add: rabbit_core_def t)
  next
    fix v assume v: "is_short k" "sms_cache rb k = None" "Option.bind (trunk_view view S (sms_trunk rb) k) BytesToCachedValue = Some v"
      "sms_cache rb' k = Some (Some v)"
    then have "rb_slots view S rb k = Some v" by (simp add: rb_slots_def)
    then have "slot_fits storable S v" using c by (simp add: rabbit_core_def)
    moreover have "\<not> cv_isDeleted v \<and> \<not> cv_isDirty v" using v(3) by (auto simp: bind_eq_Some_conv dest: decoded_live)
    ultimately show ?thesis using v x by (simp add: cached_ok_def t)
  qed
qed

end
