(* ===== verification/RabbitFind.thy ===== *)
theory RabbitFind
  imports RabbitSlots
begin

text \<open>
  Finding a slot and setting one, over any root store: the searches and updates of the slots that
  theory RabbitTrie describes. What is prepared in the root store are short keys.
\<close>

section \<open>Finding and setting slots\<close>

definition rabbit_reads :: "(prepare list \<Rightarrow> 'r \<Rightarrow> bool) \<Rightarrow> (bytes \<Rightarrow> bytes \<Rightarrow> bool) \<Rightarrow> ('r \<Rightarrow> (bytes \<rightharpoonup> bytes)) \<Rightarrow> 'o Serializable \<Rightarrow>
    prepare list \<Rightarrow> ('r, 'o) RabbitStore \<Rightarrow> bool" where
  "rabbit_reads rinv storable view S ps rb \<longleftrightarrow> trunk_ok rinv storable S ps (sms_trunk rb) \<and> trunk_decodes view S (sms_trunk rb) \<and>
     (\<forall>k. sms_cache rb k \<noteq> Some None)"

lemma core_reads: "rabbit_core rinv storable view S ps rb \<Longrightarrow> rabbit_reads rinv storable view S ps rb"
  by (fastforce simp: rabbit_core_def rabbit_reads_def)

lemma loads_reads:
  assumes "loads view S K rb rb'" and "rabbit_reads rinv storable view S ps rb"
  shows "rabbit_reads rinv storable view S ps rb'"
proof -
  have "sms_cache rb' k \<noteq> Some None" for k
    using assms(1) [unfolded loads_def, THEN conjunct2, THEN conjunct2, rule_format, of k] assms(2) by (auto simp: rabbit_reads_def)
  then show ?thesis using assms by (simp add: rabbit_reads_def loads_def)
qed

definition shorts :: "nat \<Rightarrow> prepare list \<Rightarrow> bool" where
  "shorts n qs \<longleftrightarrow> length qs \<le> n \<and> (\<forall>q \<in> set qs. is_short (prepare_key q))"

text \<open>What an operation keeps of the trunk.\<close>

definition same_trunk :: "('r \<Rightarrow> (bytes \<rightharpoonup> bytes)) \<Rightarrow> ('r \<Rightarrow> prepare list \<Rightarrow> bool) \<Rightarrow> 'o Serializable \<Rightarrow> ('r, 'o) RabbitStore \<Rightarrow> ('r, 'o) RabbitStore \<Rightarrow> bool" where
  "same_trunk view allowed S rb rb' \<longleftrightarrow> trunk_view view S (sms_trunk rb') = trunk_view view S (sms_trunk rb) \<and>
     allowed (root_of (sms_trunk rb')) = allowed (root_of (sms_trunk rb))"

lemma same_trunk_refl [simp]: "same_trunk view allowed S rb rb"
  by (simp add: same_trunk_def)

lemma same_trunk_trans: "same_trunk view allowed S rb rb1 \<Longrightarrow> same_trunk view allowed S rb1 rb2 \<Longrightarrow> same_trunk view allowed S rb rb2"
  by (simp add: same_trunk_def)

lemma loads_same_trunk: "loads view S K rb rb' \<Longrightarrow> same_trunk view allowed S rb rb'"
  by (simp add: loads_def same_trunk_def)

definition rb_room :: "('r \<Rightarrow> prepare list \<Rightarrow> bool) \<Rightarrow> nat \<Rightarrow> prepare list \<Rightarrow> ('r, 'o) RabbitStore \<Rightarrow> bool" where
  "rb_room allowed n ps rb \<longleftrightarrow> (\<forall>qs. shorts n qs \<longrightarrow> allowed (root_of (sms_trunk rb)) (ps @ qs))"

lemma shorts_append: "shorts m qs \<Longrightarrow> shorts n qs' \<Longrightarrow> shorts (m + n) (qs @ qs')"
  by (auto simp: shorts_def)

lemma rb_roomD: "rb_room allowed n ps rb \<Longrightarrow> shorts n qs \<Longrightarrow> allowed (root_of (sms_trunk rb)) (ps @ qs)"
  by (simp add: rb_room_def)

lemma rb_room_after:
  assumes "rb_room allowed (m + n) ps rb" and "shorts m qs" and "same_trunk view allowed S rb rb'"
  shows "rb_room allowed n (ps @ qs) rb'"
  using assms shorts_append [of m qs n] by (auto simp: rb_room_def same_trunk_def)

lemma rb_room_less: "rb_room allowed n ps rb \<Longrightarrow> m \<le> n \<Longrightarrow> rb_room allowed m ps rb"
  by (auto simp: rb_room_def shorts_def)

lemma MustGetCachedValue_ok:
  "loaded view S [k] rb \<Longrightarrow> rb_slots view S rb k = Some v \<Longrightarrow> MustGetCachedValue k rb = Inr v"
  by (auto simp: MustGetCachedValue_def SimpleCacheStore_GetValue_def loaded_def)

text \<open>Setting a slot in the caches.\<close>

abbreviation dirtied :: "'o CachedValue \<Rightarrow> 'o CachedValue" where
  "dirtied v \<equiv> v\<lparr>cv_isDirty := True\<rparr>"

abbreviation slot_prepare :: "bytes \<Rightarrow> 'o CachedValue \<Rightarrow> prepare" where
  "slot_prepare k v \<equiv> (if cv_isDeleted v then ForDeletion k else ForUpdate k)"

lemma slot_fits_dirty [simp]: "slot_fits storable S (dirtied v) = slot_fits storable S v"
  by (simp add: slot_fits_def slot_value_def)

lemma slot_fits_count: "slot_fits storable S v \<Longrightarrow> slot_fits storable S (v\<lparr>cv_passbyNum := p\<rparr>)"
  by (cases "cv_isEmpty v") (auto simp add: slot_fits_def slot_value_def)

lemma slot_fits_deleted: "slot_fits storable S (v\<lparr>cv_isDeleted := b\<rparr>) = slot_fits storable S v"
  by (simp add: slot_fits_def slot_value_def)

lemma slot_fits_empty: "slot_fits storable S v \<Longrightarrow> slot_fits storable S (v\<lparr>cv_isEmpty := True\<rparr>)"
  by (auto simp: slot_fits_def slot_value_def)

lemma slot_fits_new: "key_fits storable key b \<Longrightarrow> any_bytes S (cv_obj v) = Some b \<Longrightarrow> cv_key v = key \<Longrightarrow> \<not> cv_isEmpty v \<Longrightarrow> slot_fits storable S v"
  by (auto simp: slot_fits_def slot_value_def key_fits_def)

declare find_loop.simps(2) [simp del]

context root_store
begin

abbreviation "core \<equiv> rabbit_core rinv storable view S"
abbreviation "reads \<equiv> rabbit_reads rinv storable view S"
abbreviation "slots \<equiv> rb_slots view S"

lemma GetCachedValue_ok:
  assumes r: "reads ps rb" and k: "is_short k"
  shows "\<exists>rb'. GetCachedValue R S k rb = Inr (slots rb k, rb') \<and> loads view S {k} rb rb' \<and> loaded view S [k] rb'"
proof (cases "sms_cache rb k")
  case None
  have t: "TrunkStore_Get R S k (sms_trunk rb) = Inr (trunk_view view S (sms_trunk rb) k)"
    using r by (intro TrunkStore_Get_ok [where ps = ps]) (simp add: rabbit_reads_def)
  show ?thesis
  proof (cases "trunk_view view S (sms_trunk rb) k")
    case bz: None
    with t None k show ?thesis
      by (auto simp: GetCachedValue_def SimpleCacheStore_GetValue_def rb_slots_def loaded_def)
  next
    case bz: (Some bz)
    have "trunk_decodes view S (sms_trunk rb)" using r by (simp add: rabbit_reads_def)
    then obtain v :: "'o CachedValue" where v: "BytesToCachedValue bz = Some v" using k bz unfolding trunk_decodes_def by blast
    note live = decoded_live [OF v]
    let ?rb = "rb\<lparr>sms_cache := (sms_cache rb)(k \<mapsto> Some v)\<rparr>"
    have "GetCachedValue R S k rb = Inr (slots rb k, ?rb)" using t None k bz v
      by (simp add: GetCachedValue_def SimpleCacheStore_GetValue_def SimpleCacheStore_SetValue_def rb_slots_def Let_def)
    moreover have "loads view S {k} rb ?rb" using None bz v k by (auto simp: loads_def)
    moreover have "loaded view S [k] ?rb" using live k by (simp add: loaded_def rb_slots_def)
    ultimately show ?thesis by blast
  qed
next
  case (Some c)
  then obtain v where "c = Some v" using r by (cases c) (auto simp: rabbit_reads_def)
  with Some k show ?thesis
    by (intro exI [of _ rb]) (auto simp: GetCachedValue_def SimpleCacheStore_GetValue_def rb_slots_def loaded_def)
qed

lemma find_loop_ok:
  fixes sha key early
  defines "c \<equiv> hop sha key"
  assumes "reads ps rb" and "loaded view S (hops c i) rb"
  shows "case search (slots rb) c key early n i of
      None \<Rightarrow> find_loop R S sha key early n ((sha ^^ Suc i) key) (hops c i) rb = Inl (Panic ''MaxFindDepth(100) reached!'')
    | Some (d, st) \<Rightarrow> \<exists>rb'. find_loop R S sha key early n ((sha ^^ Suc i) key) (hops c i) rb = Inr ((slots rb (c d), hops c (Suc d), st), rb') \<and>
        loads view S (set (hops c (Suc d))) rb rb' \<and> loaded view S (hops c (Suc d)) rb'"
  using assms(2,3)
proof (induction n arbitrary: i rb)
  case (Suc n)
  have k: "shortKey ((sha ^^ Suc i) key) = c i" by (simp add: c_def hop_def)
  from GetCachedValue_ok [OF Suc.prems(1), of "c i"] obtain rb1 where g: "GetCachedValue R S (c i) rb = Inr (slots rb (c i), rb1)"
    "loads view S {c i} rb rb1" "loaded view S [c i] rb1" by (auto simp: c_def)
  have path: "hops c i @ [c i] = hops c (Suc i)" by simp
  have l: "loaded view S (hops c (Suc i)) rb1" using g(3) loads_loaded [OF g(2) Suc.prems(2)] unfolding loaded_def by auto
  have l1: "loads view S (set (hops c (Suc d))) rb rb1" if "i \<le> d" for d by (rule loads_mono [OF g(2) _ finite_set]) (use that in \<open>simp del: upt_Suc\<close>)
  note run = find_loop.simps(2) [of R S sha key early n "(sha ^^ Suc i) key" "hops c i" rb, unfolded k path Let_def g(1) bindE_Inr prod.case]
  show ?case
  proof (cases "slots rb (c i)")
    case None
    then show ?thesis using run l l1 [of i] by simp
  next
    case (Some v)
    show ?thesis
    proof (cases "cv_key v = key \<or> early \<and> cv_passbyNum v = 0")
      case True
      then show ?thesis using run l l1 [of i] Some by auto
    next
      case False
      then have s: "search (slots rb) c key early (Suc n) i = search (slots rb1) c key early n (Suc i)"
        using Some by (auto simp add: loads_slots [OF g(2)])
      have f: "find_loop R S sha key early (Suc n) ((sha ^^ Suc i) key) (hops c i) rb =
          find_loop R S sha key early n ((sha ^^ Suc (Suc i)) key) (hops c (Suc i)) rb1" using run Some False by auto
      note IH = Suc.IH [OF loads_reads [OF g(2) Suc.prems(1)] l]
      show ?thesis unfolding s f
      proof (cases "search (slots rb1) c key early n (Suc i)")
        case None
        with IH show "case search (slots rb1) c key early n (Suc i) of
            None \<Rightarrow> find_loop R S sha key early n ((sha ^^ Suc (Suc i)) key) (hops c (Suc i)) rb1 = Inl (Panic ''MaxFindDepth(100) reached!'')
          | Some (d, st) \<Rightarrow> \<exists>rb'. find_loop R S sha key early n ((sha ^^ Suc (Suc i)) key) (hops c (Suc i)) rb1 = Inr ((slots rb (c d), hops c (Suc d), st), rb') \<and>
              loads view S (set (hops c (Suc d))) rb rb' \<and> loaded view S (hops c (Suc d)) rb'" by simp
      next
        case (Some r)
        obtain d st where r: "r = (d, st)" by fastforce
        have "Suc i \<le> d" using search_end [of _ c key early n "Suc i" d st] Some r by blast
        with IH Some r l1 [of d] loads_slots [OF g(2)] show "case search (slots rb1) c key early n (Suc i) of
            None \<Rightarrow> find_loop R S sha key early n ((sha ^^ Suc (Suc i)) key) (hops c (Suc i)) rb1 = Inl (Panic ''MaxFindDepth(100) reached!'')
          | Some (d, st) \<Rightarrow> \<exists>rb'. find_loop R S sha key early n ((sha ^^ Suc (Suc i)) key) (hops c (Suc i)) rb1 = Inr ((slots rb (c d), hops c (Suc d), st), rb') \<and>
              loads view S (set (hops c (Suc d))) rb rb' \<and> loaded view S (hops c (Suc d)) rb'"
          by (auto dest: loads_trans)
      qed
    qed
  qed
qed simp

lemma find_slot_ok:
  assumes "reads ps rb"
  shows "search (slots rb) (hop sha key) key early MaxFindDepth 0 = None \<Longrightarrow>
      find_slot R S sha key early rb = Inl (Panic ''MaxFindDepth(100) reached!'')"
    and "search (slots rb) (hop sha key) key early MaxFindDepth 0 = Some (d, st) \<Longrightarrow>
      \<exists>rb'. find_slot R S sha key early rb = Inr ((slots rb (hop sha key d), hops (hop sha key) (Suc d), st), rb') \<and>
        loads view S (set (hops (hop sha key) (Suc d))) rb rb' \<and> loaded view S (hops (hop sha key) (Suc d)) rb'"
  using find_loop_ok [OF assms, of sha key 0 early MaxFindDepth] by (auto simp: find_slot_def loaded_def)

lemma SetCachedValue_ok:
  assumes c: "core ps rb" and k: "is_short k" and v: "slot_fits storable S v" and a: "allowed (root_of (sms_trunk rb)) (ps @ [slot_prepare k v])"
  shows "\<exists>rb'. SetCachedValue R k v rb = Inr rb' \<and> core (ps @ [slot_prepare k v]) rb' \<and> same_trunk view allowed S rb rb' \<and>
    sms_cache rb' = (sms_cache rb)(k \<mapsto> Some (dirtied v)) \<and> slots rb' = (slots rb)(k := if cv_isDeleted v then None else Some (dirtied v))"
proof -
  let ?p = "slot_prepare k v"
  have t: "trunk_ok rinv storable S ps (sms_trunk rb)" using c by (simp add: rabbit_core_def)
  from trunk_prepare_ok [OF t a] obtain ts where ts: "trunk_prepare R ?p (sms_trunk rb) = Inr ts" "trunk_ok rinv storable S (ps @ [?p]) ts"
    "trunk_view view S ts = trunk_view view S (sms_trunk rb)" "allowed (root_of ts) = allowed (root_of (sms_trunk rb))" by blast
  let ?rb = "\<lparr>sms_cache = (sms_cache rb)(k \<mapsto> Some (dirtied v)), sms_trunk = ts\<rparr>"
  have "SetCachedValue R k v rb = Inr ?rb"
    using ts(1) by (auto simp: SetCachedValue_def SimpleCacheStore_SetValue_def trunk_prepare_def Let_def split: if_splits)
  moreover have sl: "slots ?rb = (slots rb)(k := if cv_isDeleted v then None else Some (dirtied v))"
    using k by (auto simp: rb_slots_def fun_eq_iff ts(3) split: option.splits)
  moreover have "core (ps @ [?p]) ?rb" unfolding rabbit_core_def sl
  proof (intro conjI allI impI)
    show "trunk_ok rinv storable S (ps @ [?p]) (sms_trunk ?rb)" using ts(2) by simp
    show "trunk_decodes view S (sms_trunk ?rb)" using c by (simp add: rabbit_core_def trunk_decodes_def ts(3))
    show "finite (dom (sms_cache ?rb))" using c by (simp add: rabbit_core_def)
    show "slot_fits storable S w" if "((slots rb)(k := if cv_isDeleted v then None else Some (dirtied v))) k' = Some w" for k' w
      using that c slot_fits_dirty [THEN iffD2, OF v] unfolding rabbit_core_def fun_upd_apply by (cases "k' = k") (auto split: if_splits simp del: slot_fits_dirty)
    fix k' x assume x: "sms_cache ?rb k' = Some x"
    show "\<exists>w. x = Some w \<and> cached_ok storable S (ps @ [?p]) (trunk_view view S (sms_trunk ?rb)) k' w"
    proof (cases "k' = k")
      case True
      have "cached_ok storable S (ps @ [?p]) T k (dirtied v)" for T using k v by (simp add: cached_ok_def)
      moreover have "x = Some (dirtied v)" using True x by simp
      ultimately show ?thesis using True by blast
    next
      case False
      with x obtain w where "x = Some w" "cached_ok storable S ps (trunk_view view S (sms_trunk rb)) k' w" using c by (auto simp: rabbit_core_def)
      then show ?thesis by (auto simp: cached_ok_def ts(3))
    qed
  qed
  ultimately show ?thesis using ts by (auto simp: same_trunk_def)
qed

end

end
