(* ===== verification/RabbitOps.thy ===== *)
theory RabbitOps
  imports RabbitFind
begin

text \<open>
  The operations of a rabbit store over any root store: they change its slots as \<open>RabbitTrie\<close> does, and
  its map as the operations of a multi store do.
\<close>

section \<open>The loops over a path\<close>

lemma loaded_set:
  assumes "loaded view S ks rb" and "sms_cache rb' = (sms_cache rb)(k \<mapsto> Some v)"
    and "rb_slots view S rb' = (rb_slots view S rb)(k := if cv_isDeleted v then None else Some v)"
  shows "loaded view S ks rb'"
  using assms unfolding loaded_def by (auto split: if_splits)

text \<open>What is left of a store after preparing \<open>qs\<close>.\<close>

definition after :: "(prepare list \<Rightarrow> 'r \<Rightarrow> bool) \<Rightarrow> (bytes \<Rightarrow> bytes \<Rightarrow> bool) \<Rightarrow> ('r \<Rightarrow> (bytes \<rightharpoonup> bytes)) \<Rightarrow> ('r \<Rightarrow> prepare list \<Rightarrow> bool) \<Rightarrow>
    'o Serializable \<Rightarrow> nat \<Rightarrow> prepare list \<Rightarrow> ('r, 'o) RabbitStore \<Rightarrow> prepare list \<Rightarrow> ('r, 'o) RabbitStore \<Rightarrow> bool" where
  "after rinv storable view allowed S n ps rb qs rb' \<longleftrightarrow> rabbit_core rinv storable view S (ps @ qs) rb' \<and>
     same_trunk view allowed S rb rb' \<and> shorts n qs"

lemma after_trans:
  assumes "after rinv storable view allowed S m ps rb qs rb1" and "after rinv storable view allowed S n (ps @ qs) rb1 qs' rb2"
  shows "after rinv storable view allowed S (m + n) ps rb (qs @ qs') rb2"
  using assms by (auto simp: after_def intro: same_trunk_trans shorts_append)

lemma after_more: "after rinv storable view allowed S m ps rb qs rb' \<Longrightarrow> m \<le> n \<Longrightarrow> after rinv storable view allowed S n ps rb qs rb'"
  by (auto simp: after_def shorts_def)

context root_store
begin

abbreviation "rafter \<equiv> after rinv storable view allowed S"

lemma after_loads: "core ps rb \<Longrightarrow> loads view S K rb rb' \<Longrightarrow> rafter n ps rb [] rb'"
  by (simp add: after_def loads_core loads_same_trunk shorts_def)

lemma set_ok:
  assumes "core ps rb" and "is_short k" and "slot_fits storable S v" and "rb_room allowed (Suc n) ps rb"
  shows "\<exists>rb' qs. SetCachedValue R k v rb = Inr rb' \<and> rafter 1 ps rb qs rb' \<and> rb_room allowed n (ps @ qs) rb' \<and>
    sms_cache rb' = (sms_cache rb)(k \<mapsto> Some (dirtied v)) \<and> slots rb' = (slots rb)(k := if cv_isDeleted v then None else Some (dirtied v)) \<and>
    (\<forall>ks. loaded view S ks rb \<longrightarrow> loaded view S ks rb')"
proof -
  have q: "shorts 1 [slot_prepare k v]" using assms(2) by (auto simp: shorts_def)
  have "allowed (root_of (sms_trunk rb)) (ps @ [slot_prepare k v])" by (rule rb_roomD [OF assms(4)]) (use q in \<open>simp add: shorts_def\<close>)
  from SetCachedValue_ok [OF assms(1-3) this] obtain rb' where rb': "SetCachedValue R k v rb = Inr rb'" "core (ps @ [slot_prepare k v]) rb'"
    "same_trunk view allowed S rb rb'" "sms_cache rb' = (sms_cache rb)(k \<mapsto> Some (dirtied v))"
    "slots rb' = (slots rb)(k := if cv_isDeleted v then None else Some (dirtied v))" by blast
  have "rb_room allowed (1 + n) ps rb" using assms(4) by simp
  then have "rb_room allowed n (ps @ [slot_prepare k v]) rb'" by (rule rb_room_after [OF _ q rb'(3)])
  moreover have "loaded view S ks rb'" if "loaded view S ks rb" for ks
    by (rule loaded_set [OF that rb'(4)]) (use rb'(5) in simp)
  ultimately show ?thesis using rb' q by (auto simp: after_def)
qed

lemma incr_loop:
  assumes "core ps rb" and "loaded view S ks rb" and "\<forall>k \<in> set ks. is_short k \<and> slots rb k \<noteq> None" and "rb_room allowed (length ks) ps rb"
  shows "\<exists>rb' qs. foldE (incrPassby R) ks rb = Inr rb' \<and> rafter (length ks) ps rb qs rb' \<and> slots rb' = fold bump ks (slots rb)"
  using assms
proof (induction ks arbitrary: ps rb)
  case Nil
  then have "rafter 0 ps rb [] rb" by (simp add: after_def shorts_def)
  then show ?case by auto
next
  case (Cons k ks)
  from Cons.prems(3) obtain v where v: "slots rb k = Some v" "is_short k" by auto
  have ld: "loaded view S [k] rb" "loaded view S ks rb" using Cons.prems(2) by (auto simp: loaded_def)
  have live: "\<not> cv_isDeleted v" using ld(1) v(1) by (simp add: loaded_def)
  let ?v = "v\<lparr>cv_passbyNum := cv_passbyNum v + 1\<rparr>"
  have "slot_fits storable S ?v" using Cons.prems(1) v(1) by (intro slot_fits_count) (simp add: rabbit_core_def)
  from set_ok [OF Cons.prems(1) v(2) this, of "length ks"] Cons.prems(4) obtain rb1 qs where r: "SetCachedValue R k ?v rb = Inr rb1"
    "rafter 1 ps rb qs rb1" "rb_room allowed (length ks) (ps @ qs) rb1" "slots rb1 = bump k (slots rb)" "loaded view S ks rb1"
    using live ld(2) v(1) by (auto simp: bump_def)
  have "\<forall>k' \<in> set ks. is_short k' \<and> slots rb1 k' \<noteq> None" using Cons.prems(3) by (auto simp: r(4) bump_def)
  from Cons.IH [OF _ r(5) this r(3)] r(2) obtain rb2 qs2 where r2: "foldE (incrPassby R) ks rb1 = Inr rb2"
    "rafter (length ks) (ps @ qs) rb1 qs2 rb2" "slots rb2 = fold bump ks (slots rb1)" by (auto simp: after_def)
  have "incrPassby R k rb = Inr rb1" using MustGetCachedValue_ok [OF ld(1) v(1)] r(1) by (simp add: incrPassby_def)
  moreover have "rafter (length (k # ks)) ps rb (qs @ qs2) rb2" using after_trans [OF r(2) r2(2)] by simp
  ultimately show ?case using r2 r(4) by auto
qed

lemma decr_loop:
  assumes "core ps rb" and "loaded view S ks rb" and "\<forall>k \<in> set ks. is_short k" and "hopped ks (slots rb)" and "rb_room allowed (length ks) ps rb"
  shows "\<exists>rb' qs. foldE (decrPassby R) ks rb = Inr rb' \<and> rafter (length ks) ps rb qs rb' \<and> slots rb' = fold unbump ks (slots rb)"
  using assms
proof (induction ks arbitrary: ps rb)
  case Nil
  then have "rafter 0 ps rb [] rb" by (simp add: after_def shorts_def)
  then show ?case by auto
next
  case (Cons k ks)
  from hopped_ConsD [OF Cons.prems(4)] obtain v where v: "slots rb k = Some v" "hopped ks (unbump k (slots rb))" by blast
  have ld: "loaded view S [k] rb" "loaded view S ks rb" using Cons.prems(2) by (auto simp: loaded_def)
  have live: "\<not> cv_isDeleted v" using ld(1) v(1) by (simp add: loaded_def)
  let ?p = "cv_passbyNum v - 1"
  let ?v = "v\<lparr>cv_passbyNum := ?p, cv_isDeleted := (?p = 0 \<and> cv_isEmpty v)\<rparr>"
  have fits: "slot_fits storable S ?v" using Cons.prems(1) v(1) by (simp add: slot_fits_deleted slot_fits_count rabbit_core_def)
  have k: "is_short k" using Cons.prems(3) by simp
  have upd: "(slots rb)(k := if cv_isDeleted ?v then None else Some (dirtied ?v)) = unbump k (slots rb)"
    using live v(1) by (cases v) (auto simp: unbump_def)
  from set_ok [OF Cons.prems(1) k fits, of "length ks"] Cons.prems(5) obtain rb1 qs where r: "SetCachedValue R k ?v rb = Inr rb1"
    "rafter 1 ps rb qs rb1" "rb_room allowed (length ks) (ps @ qs) rb1" "slots rb1 = unbump k (slots rb)" "loaded view S ks rb1"
    unfolding upd using ld(2) by auto
  have "\<forall>k \<in> set ks. is_short k" using Cons.prems(3) by simp
  from Cons.IH [OF _ r(5) this _ r(3)] r(2,4) v(2) obtain rb2 qs2 where r2: "foldE (decrPassby R) ks rb1 = Inr rb2"
    "rafter (length ks) (ps @ qs) rb1 qs2 rb2" "slots rb2 = fold unbump ks (slots rb1)" by (auto simp: after_def)
  have "decrPassby R k rb = Inr rb1"
    using MustGetCachedValue_ok [OF ld(1) v(1)] r(1) live by (cases v) (auto simp: decrPassby_def Let_def)
  moreover have "rafter (length (k # ks)) ps rb (qs @ qs2) rb2" using after_trans [OF r(2) r2(2)] by simp
  ultimately show ?case using r2 r(4) by auto
qed

end

section \<open>Writing and deleting\<close>

abbreviation depth_panic :: fault where
  "depth_panic \<equiv> Panic ''MaxFindDepth(100) reached!''"

lemma last_hops [simp]: "last (hops c (Suc d)) = c d" "butlast (hops c (Suc d)) = hops c d"
  by simp_all

lemma hops_short: "k \<in> set (hops (hop sha key) d) \<Longrightarrow> is_short k"
  by auto

lemma loaded_butlast: "loaded view S (hops c (Suc d)) rb \<Longrightarrow> loaded view S (hops c d) rb \<and> loaded view S [c d] rb"
  by (auto simp: loaded_def)

context root_store
begin

lemma find_stored:
  assumes r: "reads ps rb" and inv: "slots_inv (hop sha) (slots rb) D" and D: "D key = Some d"
  shows "\<exists>rb' v. find_slot R S sha key early rb = Inr ((Some v, hops (hop sha key) (Suc d), Exists), rb') \<and>
    loads view S (set (hops (hop sha key) (Suc d))) rb rb' \<and> loaded view S (hops (hop sha key) (Suc d)) rb' \<and>
    slots rb (hop sha key d) = Some v \<and> cv_key v = key \<and> \<not> cv_isEmpty v"
  using find_slot_ok(2) [OF r search_stored [OF inv D, of early]] slots_invD(3) [OF inv D] by auto

text \<open>A changed value.\<close>

lemma change_ok:
  assumes c: "core ps rb" and ld: "loaded view S [k] rb" and k: "is_short k" and v: "slots rb k = Some v" "\<not> cv_isEmpty v"
    and fits: "key_fits storable (cv_key v) b" "any_bytes S obj = Some b" and rm: "rb_room allowed (Suc n) ps rb"
  shows "\<exists>rb' qs. bindE (MustGetCachedValue k rb) (\<lambda>cv. SetCachedValue R k (cv\<lparr>cv_obj := obj\<rparr>) rb) = Inr rb' \<and> rafter 1 ps rb qs rb' \<and>
    slots rb' = change_slot k obj (slots rb)"
proof -
  have live: "\<not> cv_isDeleted v" using ld v(1) by (simp add: loaded_def)
  have "slot_fits storable S (v\<lparr>cv_obj := obj\<rparr>)" by (rule slot_fits_new [OF fits(1)]) (use fits(2) v(2) in simp_all)
  from set_ok [OF c k this rm] live obtain rb' qs where "SetCachedValue R k (v\<lparr>cv_obj := obj\<rparr>) rb = Inr rb'" "rafter 1 ps rb qs rb'"
    "slots rb' = (slots rb)(k \<mapsto> dirtied (v\<lparr>cv_obj := obj\<rparr>))" by auto
  then show ?thesis using MustGetCachedValue_ok [OF ld v(1)] v(1) by (auto simp: change_slot_def)
qed

lemma setHelper_full:
  assumes "reads ps rb" and "search (slots rb) (hop sha key) key False MaxFindDepth 0 = None"
  shows "setHelper R S sha key obj rb = Inl depth_panic"
  using find_slot_ok(1) [OF assms(1), of sha key False] assms(2) by (simp add: setHelper_def)

lemma setHelper_change:
  assumes c: "core ps rb" and inv: "slots_inv (hop sha) (slots rb) D" and D: "D key = Some d"
    and fits: "key_fits storable key b" "any_bytes S obj = Some b" and rm: "rb_room allowed MaxFindDepth ps rb"
  shows "\<exists>rb' qs. setHelper R S sha key obj rb = Inr rb' \<and> rafter MaxFindDepth ps rb qs rb' \<and>
    slots rb' = change_slot (hop sha key d) obj (slots rb)"
proof -
  let ?k = "hop sha key d"
  from find_stored [OF core_reads [OF c] inv D, of False] obtain rb1 v where f:
    "find_slot R S sha key False rb = Inr ((Some v, hops (hop sha key) (Suc d), Exists), rb1)"
    "loads view S (set (hops (hop sha key) (Suc d))) rb rb1" "loaded view S (hops (hop sha key) (Suc d)) rb1"
    "slots rb ?k = Some v" "cv_key v = key" "\<not> cv_isEmpty v" by blast
  note sl = loads_slots [OF f(2)] and c1 = loads_core [OF f(2) c]
  have "rb_room allowed (Suc 0) ps rb1"
    using rb_room_less [OF rm, of 1] loads_same_trunk [OF f(2)] by (simp add: rb_room_def same_trunk_def MaxFindDepth_def)
  from change_ok [OF c1 _ _ _ f(6) fits(1) [folded f(5)] fits(2) this, of ?k] loaded_butlast [OF f(3)] f(4) sl obtain rb2 qs where r:
    "bindE (MustGetCachedValue ?k rb1) (\<lambda>cv. SetCachedValue R ?k (cv\<lparr>cv_obj := obj\<rparr>) rb1) = Inr rb2"
    "rafter 1 ps rb1 qs rb2" "slots rb2 = change_slot ?k obj (slots rb1)" by auto
  have "setHelper R S sha key obj rb = Inr rb2" using f(1) r(1) by (simp add: setHelper_def del: upt_Suc)
  moreover have "rafter MaxFindDepth ps rb qs rb2"
    using r(2) loads_same_trunk [OF f(2)] by (auto simp: after_def MaxFindDepth_def shorts_def intro: same_trunk_trans)
  ultimately show ?thesis using r(3) sl by auto
qed

lemma setHelper_new:
  assumes c: "core ps rb" and inv: "slots_inv (hop sha) (slots rb) D" and D: "D key = None"
    and s: "search (slots rb) (hop sha key) key False MaxFindDepth 0 = Some (d, st)"
    and fits: "key_fits storable key b" "any_bytes S obj = Some b" and rm: "rb_room allowed MaxFindDepth ps rb"
  shows "\<exists>rb' qs. setHelper R S sha key obj rb = Inr rb' \<and> rafter MaxFindDepth ps rb qs rb' \<and>
    slots rb' = put_slot (hop sha key) d key obj (slots rb)"
proof -
  let ?c = "hop sha key" let ?k = "?c d"
  have st: "st \<noteq> Exists" using search_free [OF inv D, of False d] s by auto
  note e = free_end [OF s st]
  from find_slot_ok(2) [OF core_reads [OF c] s] obtain rb1 where f: "find_slot R S sha key False rb = Inr ((slots rb ?k, hops ?c (Suc d), st), rb1)"
    "loads view S (set (hops ?c (Suc d))) rb rb1" "loaded view S (hops ?c (Suc d)) rb1" by blast
  note sl = loads_slots [OF f(2)] and c1 = loads_core [OF f(2) c] and ld = loaded_butlast [OF f(3)]
  let ?v = "case slots rb ?k of None \<Rightarrow> \<lparr>cv_passbyNum = 0, cv_key = key, cv_obj = obj, cv_isEmpty = False, cv_isDeleted = False, cv_isDirty = False\<rparr>
    | Some v \<Rightarrow> v\<lparr>cv_key := key, cv_obj := obj, cv_isEmpty := False\<rparr>"
  have live: "\<not> cv_isDeleted v" if "slots rb ?k = Some v" for v using ld that by (simp add: loaded_def sl)
  have new: "dirtied ?v = new_slot (slots rb ?k) key obj" "\<not> cv_isDeleted ?v" using live
    by (cases "slots rb ?k"; simp add: new_slot_def)+
  have "slot_fits storable S ?v" by (rule slot_fits_new [OF fits(1)]) (use fits(2) in \<open>auto split: option.split\<close>)
  moreover have "rb_room allowed (Suc d) ps rb1"
    using rb_room_less [OF rm, of "Suc d"] e(1) loads_same_trunk [OF f(2)] by (simp add: rb_room_def same_trunk_def)
  ultimately obtain rb2 qs where r2: "SetCachedValue R ?k ?v rb1 = Inr rb2" "rafter 1 ps rb1 qs rb2" "rb_room allowed d (ps @ qs) rb2"
    "slots rb2 = (slots rb)(?k \<mapsto> new_slot (slots rb ?k) key obj)" "loaded view S (hops ?c d) rb2"
    using set_ok [where k = ?k and v = ?v and n = d, OF c1 hop_short] ld new sl by fastforce
  have c2: "core (ps @ qs) rb2" and rm2: "rb_room allowed (length (hops ?c d)) (ps @ qs) rb2" using r2(2,3) by (simp_all add: after_def)
  have "\<forall>k \<in> set (hops ?c d). is_short k \<and> slots rb2 k \<noteq> None" using e(3) by (fastforce simp: r2(4))
  from incr_loop [OF c2 r2(5) this rm2] obtain rb3 qs3 where r3: "foldE (incrPassby R) (hops ?c d) rb2 = Inr rb3"
    "rafter d (ps @ qs) rb2 qs3 rb3" "slots rb3 = fold bump (hops ?c d) (slots rb2)" by auto
  have "bindE (if st = EmptySlot then bindE (MustGetCachedValue ?k rb1) (\<lambda>cv.
                    SetCachedValue R ?k (cv\<lparr>cv_key := key, cv_obj := obj, cv_isEmpty := False\<rparr>) rb1)
                else SetCachedValue R ?k \<lparr>cv_passbyNum = 0, cv_key = key, cv_obj = obj, cv_isEmpty = False,
                  cv_isDeleted = False, cv_isDirty = False\<rparr> rb1) (foldE (incrPassby R) (hops ?c d)) = Inr rb3"
  proof (cases "slots rb ?k")
    case None
    with search_end [OF s] have "st \<noteq> EmptySlot" by auto
    with None r2(1) r3(1) show ?thesis by simp
  next
    case (Some v)
    with search_end [OF s] st have "st = EmptySlot" by (cases st) auto
    with Some r2(1) r3(1) MustGetCachedValue_ok [of view S ?k rb1 v] ld sl show ?thesis by simp
  qed
  then have "setHelper R S sha key obj rb = Inr rb3" using f(1) st by (cases "st = EmptySlot") (simp_all add: setHelper_def del: upt_Suc)
  moreover have "rafter (1 + d) ps rb1 (qs @ qs3) rb3" by (rule after_trans [OF r2(2) r3(2)])
  then have "rafter MaxFindDepth ps rb (qs @ qs3) rb3"
    using e(1) loads_same_trunk [OF f(2)] by (auto simp: after_def shorts_def intro: same_trunk_trans)
  ultimately show ?thesis using r3(3) r2(4) by (auto simp: put_slot_def)
qed

lemma Delete_stored:
  assumes c: "core ps rb" and inv: "slots_inv (hop sha) (slots rb) D" and D: "D key = Some d" and rm: "rb_room allowed MaxFindDepth ps rb"
  shows "\<exists>rb' qs. RabbitStore_Delete R S sha key rb = Inr rb' \<and> rafter MaxFindDepth ps rb qs rb' \<and>
    slots rb' = remove_slot (hop sha key) d (slots rb)"
proof -
  let ?c = "hop sha key" let ?k = "?c d"
  from find_stored [OF core_reads [OF c] inv D, of True] obtain rb1 v where f:
    "find_slot R S sha key True rb = Inr ((Some v, hops ?c (Suc d), Exists), rb1)"
    "loads view S (set (hops ?c (Suc d))) rb rb1" "loaded view S (hops ?c (Suc d)) rb1"
    "slots rb ?k = Some v" "cv_key v = key" "\<not> cv_isEmpty v" by blast
  note sl = loads_slots [OF f(2)] and c1 = loads_core [OF f(2) c] and ld = loaded_butlast [OF f(3)]
  have d: "d < MaxFindDepth" by (rule slots_invD(2) [OF inv D])
  have live: "\<not> cv_isDeleted v" using ld f(4) by (simp add: loaded_def sl)
  let ?v = "if cv_passbyNum v = 0 then v\<lparr>cv_isDeleted := True\<rparr> else v\<lparr>cv_isEmpty := True\<rparr>"
  have "slot_fits storable S v" using c f(4) by (simp add: rabbit_core_def)
  then have "slot_fits storable S ?v" by (simp add: slot_fits_deleted slot_fits_empty)
  moreover have "rb_room allowed (Suc d) ps rb1"
    using rb_room_less [OF rm, of "Suc d"] d loads_same_trunk [OF f(2)] by (simp add: rb_room_def same_trunk_def)
  ultimately obtain rb2 qs where r2: "SetCachedValue R ?k ?v rb1 = Inr rb2" "rafter 1 ps rb1 qs rb2" "rb_room allowed d (ps @ qs) rb2"
    "slots rb2 = (slots rb)(?k := if cv_isDeleted ?v then None else Some (dirtied ?v))" "loaded view S (hops ?c d) rb2"
    using set_ok [where k = ?k and v = ?v and n = d, OF c1 hop_short] ld sl by fastforce
  have s2: "slots rb2 = free_slot ?k (slots rb)" using r2(4) f(4) live by (simp add: free_slot_def)
  have c2: "core (ps @ qs) rb2" and rm2: "rb_room allowed (length (hops ?c d)) (ps @ qs) rb2" using r2(2,3) by (simp_all add: after_def)
  have "\<forall>k \<in> set (hops ?c d). is_short k" by auto
  from decr_loop [OF c2 r2(5) this _ rm2] remove_slot_apply(1) [OF inv D] obtain rb3 qs3 where r3:
    "foldE (decrPassby R) (hops ?c d) rb2 = Inr rb3" "rafter d (ps @ qs) rb2 qs3 rb3" "slots rb3 = fold unbump (hops ?c d) (slots rb2)"
    by (auto simp: s2)
  have "RabbitStore_Delete R S sha key rb = Inr rb3"
    using f(1) r2(1) r3(1) MustGetCachedValue_ok [of view S ?k rb1 v] ld f(4) sl
    by (simp add: RabbitStore_Delete_def Let_def del: upt_Suc)
  moreover have "rafter (1 + d) ps rb1 (qs @ qs3) rb3" by (rule after_trans [OF r2(2) r3(2)])
  then have "rafter MaxFindDepth ps rb (qs @ qs3) rb3"
    using d loads_same_trunk [OF f(2)] by (auto simp: after_def shorts_def intro: same_trunk_trans)
  ultimately show ?thesis using r3(3) s2 by (auto simp: remove_slot_def)
qed

text \<open>A key that is not stored.\<close>

lemma find_free:
  assumes r: "reads ps rb" and inv: "slots_inv (hop sha) (slots rb) D" and D: "D key = None"
    and s: "search (slots rb) (hop sha key) key early MaxFindDepth 0 \<noteq> None"
  shows "\<exists>cv path st rb' K. find_slot R S sha key early rb = Inr ((cv, path, st), rb') \<and> st \<noteq> Exists \<and> loads view S K rb rb'"
proof -
  from s obtain d st where st: "search (slots rb) (hop sha key) key early MaxFindDepth 0 = Some (d, st)" by auto
  with search_free [OF inv D, of early d] find_slot_ok(2) [OF r st] show ?thesis by auto
qed

end

end
