(* ===== verification/RabbitMap.thy ===== *)
theory RabbitMap
  imports RabbitOps
begin

text \<open>
  The map that a rabbit store shows, what its operations do to it, and its sessions: a new rabbit store
  over the trunk store of a block, its operations, and the writing back of both.
\<close>

section \<open>The map of a rabbit store\<close>

definition rabbit_view :: "(bytes \<Rightarrow> bytes) \<Rightarrow> ('r \<Rightarrow> (bytes \<rightharpoonup> bytes)) \<Rightarrow> 'o Serializable \<Rightarrow> (bytes \<rightharpoonup> nat) \<Rightarrow> ('r, 'o) RabbitStore \<Rightarrow> (bytes \<rightharpoonup> bytes)" where
  "rabbit_view sha view S D rb key = Option.bind (slot_map (hop sha) (rb_slots view S rb) D key) (any_bytes S)"

text \<open>A store of keys in \<open>K\<close>, with the depths \<open>D\<close> of its keys; and sets of keys that never run out of slots.\<close>

definition rabbit_ok :: "(prepare list \<Rightarrow> 'r \<Rightarrow> bool) \<Rightarrow> (bytes \<Rightarrow> bytes \<Rightarrow> bool) \<Rightarrow> ('r \<Rightarrow> (bytes \<rightharpoonup> bytes)) \<Rightarrow> 'o Serializable \<Rightarrow>
    (bytes \<Rightarrow> bytes) \<Rightarrow> bytes set \<Rightarrow> prepare list \<Rightarrow> (bytes \<rightharpoonup> nat) \<Rightarrow> ('r, 'o) RabbitStore \<Rightarrow> bool" where
  "rabbit_ok rinv storable view S sha K ps D rb \<longleftrightarrow> rabbit_core rinv storable view S ps rb \<and> slots_inv (hop sha) (rb_slots view S rb) D \<and>
     dom D \<subseteq> K \<and> located (hop sha) K (rb_slots view S rb)"

definition roomy :: "(bytes \<Rightarrow> bytes) \<Rightarrow> bytes set \<Rightarrow> bool" where
  "roomy sha K \<longleftrightarrow> finite K \<and> MaxFindDepth * Suc (card K) < 2 ^ 64 \<and> separated (hop sha) K"

lemma rabbit_okD:
  assumes "rabbit_ok rinv storable view S sha K ps D rb"
  shows "rabbit_core rinv storable view S ps rb" "slots_inv (hop sha) (rb_slots view S rb) D" "dom D \<subseteq> K" "located (hop sha) K (rb_slots view S rb)"
    "rabbit_reads rinv storable view S ps rb"
  using assms core_reads by (auto simp: rabbit_ok_def)

lemma roomy_card:
  assumes "roomy sha K" and "dom D \<subseteq> K"
  shows "MaxFindDepth * Suc (card (dom D)) < 2 ^ 64"
proof -
  have "card (dom D) \<le> card K" using assms by (intro card_mono) (auto simp: roomy_def)
  then have "MaxFindDepth * Suc (card (dom D)) \<le> MaxFindDepth * Suc (card K)" by simp
  with assms(1) show ?thesis unfolding roomy_def by (meson le_less_trans)
qed

lemma roomy_search:
  "rabbit_ok rinv storable view S sha K ps D rb \<Longrightarrow> roomy sha K \<Longrightarrow> key \<in> K \<Longrightarrow> search (rb_slots view S rb) (hop sha key) key early MaxFindDepth 0 \<noteq> None"
  using located_search by (auto simp: rabbit_ok_def roomy_def)

lemma loads_rabbit_ok:
  assumes "loads view S L rb rb'" and "rabbit_ok rinv storable view S sha K ps D rb"
  shows "rabbit_ok rinv storable view S sha K ps D rb'" "rabbit_view sha view S D rb' = rabbit_view sha view S D rb"
  using assms loads_core [OF assms(1)] by (simp_all add: rabbit_ok_def rabbit_view_def fun_eq_iff loads_slots [OF assms(1)])

text \<open>What is shown of a stored key, and of a key that is not stored.\<close>

lemma view_stored:
  assumes c: "rabbit_core rinv storable view S ps rb" and D: "D key = Some d" and v: "rb_slots view S rb (hop sha key d) = Some v" "\<not> cv_isEmpty v"
  shows "\<exists>b. any_bytes S (cv_obj v) = Some b \<and> rabbit_view sha view S D rb key = Some b"
proof -
  have "slot_fits storable S v" using c v(1) by (simp add: rabbit_core_def)
  with v(2) obtain b where "any_bytes S (cv_obj v) = Some b" by (auto simp: slot_fits_def slot_value_def)
  with D v(1) show ?thesis by (simp add: rabbit_view_def slot_map_def)
qed

lemma view_free: "D key = None \<Longrightarrow> rabbit_view sha view S D rb key = None"
  by (simp add: rabbit_view_def slot_map_def)

context root_store
begin

abbreviation "rok \<equiv> rabbit_ok rinv storable view S"
abbreviation "rview \<equiv> \<lambda>sha D rb. rabbit_view sha view S D rb"

section \<open>Reads\<close>

lemma read_cases:
  assumes ok: "rok sha K ps D rb" and K: "roomy sha K" "key \<in> K"
  obtains (stored) d v path rb' L b where "D key = Some d" "find_slot R S sha key True rb = Inr ((Some v, path, Exists), rb')" "loads view S L rb rb'"
      "any_bytes S (cv_obj v) = Some b" "rview sha D rb key = Some b" "path = hops (hop sha key) (Suc d)" "loaded view S path rb'" "L = set path"
      "rb_slots view S rb (hop sha key d) = Some v" "\<not> cv_isEmpty v" "cv_key v = key"
  | (free) cv path st rb' L where "find_slot R S sha key True rb = Inr ((cv, path, st), rb')" "st \<noteq> Exists" "loads view S L rb rb'"
      "rview sha D rb key = None" "D key = None"
proof (cases "D key")
  case None
  note r = rabbit_okD [OF ok]
  from find_free [OF r(5,2) None roomy_search [OF ok K]] view_free [of D key, OF None] show thesis using free None by metis
next
  case (Some d)
  note r = rabbit_okD [OF ok]
  from find_stored [OF r(5,2) Some, of True] view_stored [where D = D and key = key, OF r(1) Some] show thesis using stored [OF Some] by blast
qed

lemma RabbitStore_reads_ok:
  assumes ok: "rok sha K ps D rb" and K: "roomy sha K" "key \<in> K"
  shows "\<exists>rb' L. RabbitStore_Get R S sha key rb = Inr (rview sha D rb key, rb') \<and> loads view S L rb rb'"
    and "\<exists>rb' L. RabbitStore_Has R S sha key rb = Inr (rview sha D rb key \<noteq> None, rb') \<and> loads view S L rb rb'"
    and "\<exists>rb' L path. RabbitStore_GetShortKeyPath R S sha key rb = Inr ((path, rview sha D rb key \<noteq> None), rb') \<and> loads view S L rb rb'"
    and "\<exists>q rb' L. RabbitStore_GetReadOnlyObj R S sha key (Some x) rb = Inr (q, rb') \<and> loads view S L rb rb' \<and> obj_shows S x q (rview sha D rb key)"
proof -
  note defs = RabbitStore_Get_def RabbitStore_Has_def RabbitStore_GetShortKeyPath_def RabbitStore_GetReadOnlyObj_def getObjHelper_def
  show "\<exists>rb' L. RabbitStore_Get R S sha key rb = Inr (rview sha D rb key, rb') \<and> loads view S L rb rb'"
    by (rule read_cases [OF ok K]) (auto simp: defs any_bytes_def CachedValue_GetValue_def slice_bytes_def split: anyValue.splits)
  show "\<exists>rb' L. RabbitStore_Has R S sha key rb = Inr (rview sha D rb key \<noteq> None, rb') \<and> loads view S L rb rb'"
    by (rule read_cases [OF ok K]) (auto simp: defs)
  show "\<exists>rb' L path. RabbitStore_GetShortKeyPath R S sha key rb = Inr ((path, rview sha D rb key \<noteq> None), rb') \<and> loads view S L rb rb'"
    by (rule read_cases [OF ok K]) (auto simp: defs)
  show "\<exists>q rb' L. RabbitStore_GetReadOnlyObj R S sha key (Some x) rb = Inr (q, rb') \<and> loads view S L rb rb' \<and> obj_shows S x q (rview sha D rb key)"
    by (rule read_cases [OF ok K])
      (auto simp: defs any_bytes_def readInto_def obj_shows_def slice_bytes_def split: anyValue.splits option.splits)
qed

section \<open>Writes\<close>

text \<open>What an operation leaves: the store after \<open>n\<close> prepares at most, with the map \<open>M\<close>.\<close>

abbreviation leaves :: "(bytes \<Rightarrow> bytes) \<Rightarrow> bytes set \<Rightarrow> nat \<Rightarrow> prepare list \<Rightarrow> ('r, 'o) RabbitStore \<Rightarrow> (bytes \<rightharpoonup> bytes) \<Rightarrow> ('r, 'o) RabbitStore \<Rightarrow> bool" where
  "leaves sha K n ps rb M rb' \<equiv> \<exists>qs D'. rok sha K (ps @ qs) D' rb' \<and> rview sha D' rb' = M \<and> same_trunk view allowed S rb rb' \<and> shorts n qs"

lemma leaves_loads:
  assumes "rok sha K ps D rb" and "loads view S L rb rb'"
  shows "leaves sha K n ps rb (rview sha D rb) rb'"
  using loads_rabbit_ok [OF assms(2,1)] loads_same_trunk [OF assms(2)] by (intro exI [of _ "[]"] exI [of _ D]) (simp add: shorts_def)

lemma leaves_intro:
  assumes "rafter n ps rb qs rb'" and "slots_inv (hop sha) (slots rb') D'" and "dom D' \<subseteq> K" and "located (hop sha) K (slots rb')"
    and "slot_map (hop sha) (slots rb') D' = m" and "\<And>k. Option.bind (m k) (any_bytes S) = M k"
  shows "leaves sha K n ps rb M rb'"
  using assms by (intro exI [of _ qs] exI [of _ D']) (auto simp: after_def rabbit_ok_def rabbit_view_def fun_eq_iff)

lemma setHelper_ok:
  assumes ok: "rok sha K ps D rb" and K: "roomy sha K" "key \<in> K" and fits: "key_fits storable key b" "any_bytes S obj = Some b"
    and rm: "rb_room allowed MaxFindDepth ps rb"
  shows "\<exists>rb'. setHelper R S sha key obj rb = Inr rb' \<and> leaves sha K MaxFindDepth ps rb ((rview sha D rb)(key \<mapsto> b)) rb'"
proof -
  note r = rabbit_okD [OF ok]
  have upd: "Option.bind (((slot_map (hop sha) (slots rb) D)(key \<mapsto> obj)) k) (any_bytes S) = ((rview sha D rb)(key \<mapsto> b)) k" for k
    using fits(2) by (simp add: rabbit_view_def)
  show ?thesis
  proof (cases "D key")
    case None
    from roomy_search [OF ok K, of False] obtain d st where s: "search (slots rb) (hop sha key) key False MaxFindDepth 0 = Some (d, st)" by auto
    from setHelper_new [OF r(1,2) None s fits rm] obtain rb' qs where rb': "setHelper R S sha key obj rb = Inr rb'" "rafter MaxFindDepth ps rb qs rb'"
      "slots rb' = put_slot (hop sha key) d key obj (slots rb)" by blast
    have d: "d < MaxFindDepth" using search_end [OF s] by simp
    have "leaves sha K MaxFindDepth ps rb ((rview sha D rb)(key \<mapsto> b)) rb'"
      by (rule leaves_intro [where D' = "D(key \<mapsto> d)", OF rb'(2) _ _ _ _ upd])
        (use put_slot_inv [OF r(2) None s roomy_card [OF K(1) r(3)]] r(3) K(2) located_put [OF r(4) K(2) d] slot_map_put [OF r(2) None s]
          in \<open>auto simp: rb'(3)\<close>)
    with rb'(1) show ?thesis by blast
  next
    case (Some d)
    from setHelper_change [OF r(1,2) Some fits rm] obtain rb' qs where rb': "setHelper R S sha key obj rb = Inr rb'" "rafter MaxFindDepth ps rb qs rb'"
      "slots rb' = change_slot (hop sha key d) obj (slots rb)" by blast
    have "leaves sha K MaxFindDepth ps rb ((rview sha D rb)(key \<mapsto> b)) rb'"
      by (rule leaves_intro [where D' = D, OF rb'(2) _ _ _ _ upd])
        (use change_slot_inv [OF r(2)] r(3) located_change [OF r(4)] slot_map_change [OF r(2) Some] in \<open>simp_all add: rb'(3) fun_eq_iff\<close>)
    with rb'(1) show ?thesis by blast
  qed
qed

lemma Delete_ok:
  assumes ok: "rok sha K ps D rb" and K: "roomy sha K" "key \<in> K" and rm: "rb_room allowed MaxFindDepth ps rb"
  shows "\<exists>rb'. RabbitStore_Delete R S sha key rb = Inr rb' \<and> leaves sha K MaxFindDepth ps rb ((rview sha D rb)(key := None)) rb'"
  using ok K
proof (cases rule: read_cases)
  case (free cv path st rb' L)
  then have "RabbitStore_Delete R S sha key rb = Inr rb'" by (simp add: RabbitStore_Delete_def)
  moreover have "(rview sha D rb)(key := None) = rview sha D rb" using free(4) by (simp add: fun_upd_idem)
  ultimately show ?thesis using leaves_loads [OF ok free(3)] by metis
next
  case (stored d)
  note r = rabbit_okD [OF ok] and D = stored(1)
  from Delete_stored [OF r(1,2) D rm] obtain rb' qs where rb': "RabbitStore_Delete R S sha key rb = Inr rb'" "rafter MaxFindDepth ps rb qs rb'"
    "slots rb' = remove_slot (hop sha key) d (slots rb)" by blast
  have "leaves sha K MaxFindDepth ps rb ((rview sha D rb)(key := None)) rb'"
    by (rule leaves_intro [where D' = "D(key := None)", OF rb'(2)])
      (use remove_slot_inv [OF r(2) D] r(3) located_remove [OF r(4)] slot_map_remove [OF r(2) D] in \<open>auto simp: rb'(3) rabbit_view_def\<close>)
  with rb'(1) show ?thesis by blast
qed

text \<open>An object that is taken and returned: in between, its slot holds nil.\<close>

lemma SetCachedValue_cache: "SetCachedValue R k v (rb\<lparr>sms_cache := (sms_cache rb)(k := x)\<rparr>) = SetCachedValue R k v rb"
  by (simp add: SetCachedValue_def SimpleCacheStore_SetValue_def)

lemma take_return_ok:
  assumes ok: "rok sha K ps D rb" and K: "roomy sha K" "key \<in> K" and rm: "rb_room allowed MaxFindDepth ps rb"
    and f: "\<forall>y b. rview sha D rb key = Some b \<and> (y = s_FromBytes S x (Some b) \<or> s_ToBytes S y = Some b) \<longrightarrow> s_ToBytes S (f y) = Some (g b) \<and> key_fits storable key (g b)"
  shows "\<exists>rb'. bindE (RabbitStore_GetObj R S sha key (Some x) rb) (\<lambda>(ptr, rb). case ptr of None \<Rightarrow> Inr rb
      | Some obj \<Rightarrow> RabbitStore_SetObj R S sha key (Some (f obj)) rb) = Inr rb' \<and>
    leaves sha K MaxFindDepth ps rb ((rview sha D rb)(key := map_option g (rview sha D rb key))) rb'"
  using ok K
proof (cases rule: read_cases)
  case (free cv path st rb' L)
  then have "RabbitStore_GetObj R S sha key (Some x) rb = Inr (None, rb')" by (simp add: RabbitStore_GetObj_def getObjHelper_def)
  moreover have "(rview sha D rb)(key := map_option g (rview sha D rb key)) = rview sha D rb" using free(4) by (simp add: fun_upd_idem)
  ultimately show ?thesis using leaves_loads [OF ok free(3)] by simp
next
  case (stored d v path rb1 L b)
  note r = rabbit_okD [OF ok] and D = stored(1) and sl = loads_slots [OF stored(3)]
  let ?k = "hop sha key d" and ?v = "v\<lparr>cv_obj := AnyNil\<rparr>"
  let ?rb = "rb1\<lparr>sms_cache := (sms_cache rb1)(?k := Some (Some ?v))\<rparr>"
  note ok1 = loads_rabbit_ok [OF stored(3) ok]
  obtain y where y: "(case cv_obj v of AnyNil \<Rightarrow> Inl (Panic ''Reading a dangling value'') | AnyBytes bz \<Rightarrow> readInto S (Some x) bz | AnyObj z \<Rightarrow> Inr (Some z)) = Inr (Some y)"
    "y = s_FromBytes S x (Some b) \<or> s_ToBytes S y = Some b"
    using stored(4) by (auto simp: any_bytes_def readInto_def split: anyValue.splits)
  have get: "RabbitStore_GetObj R S sha key (Some x) rb = Inr (Some y, ?rb)"
    using stored(2,6) y(1) by (simp add: RabbitStore_GetObj_def getObjHelper_def del: upt_Suc)
  have kv: "sms_cache rb1 ?k = Some (Some v)" "\<not> cv_isDeleted v" using stored(6,7,9) by (auto simp: loaded_def sl)
  have "slots ?rb = (slots rb1)(?k \<mapsto> ?v)" using kv by (auto simp: rb_slots_def fun_eq_iff split: option.split)
  then have s2: "slots ?rb = (slots rb)(?k \<mapsto> ?v)" by (simp only: sl)
  have inv2: "slots_inv (hop sha) (slots ?rb) D" by (rule slots_inv_cong [OF r(2)]) (use stored(9) s2 in auto)
  have "reads ps ?rb" using rabbit_okD(5) [OF ok1(1)] by (auto simp: rabbit_reads_def)
  from find_stored [OF this inv2 D, of False] obtain rb3 where f3: "find_slot R S sha key False ?rb = Inr ((Some ?v, path, Exists), rb3)"
    "loads view S L ?rb rb3" using s2 stored(6,8) by auto
  have "sms_cache ?rb k \<noteq> None" if "k \<in> L" for k
  proof -
    from that stored(6,8) obtain j where j: "j \<le> d" "k = hop sha key j" by (auto simp: less_Suc_eq_le simp del: upt_Suc)
    then have "\<exists>w. slots rb k = Some w" using slots_invD(4) [OF r(2) D, of j] stored(9) by (cases "j = d") auto
    with stored(7,8) that show ?thesis by (auto simp: loaded_def sl)
  qed
  then have "rb3 = ?rb" by (rule loads_nothing [OF f3(2)])
  moreover have "MustGetCachedValue ?k ?rb = Inr ?v" using kv by (simp add: MustGetCachedValue_def SimpleCacheStore_GetValue_def)
  ultimately have "RabbitStore_SetObj R S sha key (Some (f y)) ?rb = SetCachedValue R ?k (v\<lparr>cv_obj := AnyObj (f y)\<rparr>) rb1"
    using f3(1) stored(6) by (simp add: RabbitStore_SetObj_def setHelper_def SetCachedValue_cache del: upt_Suc)
  moreover have "\<not> cv_isEmpty v" "cv_key v = key" "slots rb1 ?k = Some v" "loaded view S [?k] rb1"
    using stored(6,7,9,10,11) sl by (auto simp: loaded_def)
  moreover have fy: "key_fits storable key (g b)" "any_bytes S (AnyObj (f y)) = Some (g b)" using f stored(5) y(2) by (auto simp: any_bytes_def)
  moreover have "rb_room allowed (Suc 0) ps rb1"
    using rb_room_less [OF rm, of 1] loads_same_trunk [OF stored(3)] by (simp add: rb_room_def same_trunk_def MaxFindDepth_def)
  ultimately obtain rb' qs where rb': "RabbitStore_SetObj R S sha key (Some (f y)) ?rb = Inr rb'" "rafter 1 ps rb1 qs rb'"
    "slots rb' = change_slot ?k (AnyObj (f y)) (slots rb1)"
    using change_ok [OF rabbit_okD(1) [OF ok1(1)], of ?k v "g b" "AnyObj (f y)" 0] MustGetCachedValue_ok [of view S ?k rb1 v] by auto
  have "rafter MaxFindDepth ps rb qs rb'"
    using rb'(2) loads_same_trunk [OF stored(3)] by (auto simp: after_def MaxFindDepth_def shorts_def intro: same_trunk_trans)
  moreover have upd: "Option.bind (((slot_map (hop sha) (slots rb) D)(key \<mapsto> AnyObj (f y))) k) (any_bytes S) = ((rview sha D rb)(key \<mapsto> g b)) k" for k
    using fy(2) by (simp add: rabbit_view_def)
  ultimately have "leaves sha K MaxFindDepth ps rb ((rview sha D rb)(key \<mapsto> g b)) rb'"
    by (intro leaves_intro [where D' = D, OF _ _ _ _ _ upd])
      (use change_slot_inv [OF r(2)] r(3) located_change [OF r(4)] slot_map_change [OF r(2) D] in \<open>simp_all add: rb'(3) sl fun_eq_iff\<close>)
  with get rb'(1) stored(5) show ?thesis by auto
qed

end

end
