(* ===== verification/RabbitRuns.thy ===== *)
theory RabbitRuns
  imports RabbitMap
begin

text \<open>
  Sequences of operations on a rabbit store, their effect on its map, and the writing back: the slots are
  encoded into the trunk store, and the next rabbit store finds them there.
\<close>

section \<open>Sequences of operations\<close>

text \<open>The operations of a transaction, on a rabbit store.\<close>

fun run_rabbit_op :: "('r, 'f, 'b, 'o) RootStoreI \<Rightarrow> 'o Serializable \<Rightarrow> (bytes \<Rightarrow> bytes) \<Rightarrow> 'o tx_op \<Rightarrow> ('r, 'o) RabbitStore \<Rightarrow>
    ('r, 'o) RabbitStore outcome" where
  "run_rabbit_op R S sha (TxSet k v) rb = RabbitStore_Set R S sha k (Some v) rb"
| "run_rabbit_op R S sha (TxSetObj k x) rb = RabbitStore_SetObj R S sha k (Some x) rb"
| "run_rabbit_op R S sha (TxDelete k) rb = RabbitStore_Delete R S sha k rb"
| "run_rabbit_op R S sha (TxModify k x f g) rb =
     bindE (RabbitStore_GetObj R S sha k (Some x) rb) (\<lambda>(ptr, rb). case ptr of None \<Rightarrow> Inr rb
       | Some obj \<Rightarrow> RabbitStore_SetObj R S sha k (Some (f obj)) rb)"
| "run_rabbit_op R S sha (TxRead k x) rb = bindE (RabbitStore_GetReadOnlyObj R S sha k (Some x) rb) (\<lambda>(_, rb). Inr rb)"

fun tx_key :: "'o tx_op \<Rightarrow> bytes" where
  "tx_key (TxSet k v) = k"
| "tx_key (TxSetObj k x) = k"
| "tx_key (TxDelete k) = k"
| "tx_key (TxModify k x f g) = k"
| "tx_key (TxRead k x) = k"

definition rabbit_fits :: "(bytes \<Rightarrow> bytes \<Rightarrow> bool) \<Rightarrow> 'o Serializable \<Rightarrow> bytes set \<Rightarrow> 'o tx_op \<Rightarrow> bool" where
  "rabbit_fits storable S K op \<longleftrightarrow> tx_key op \<in> K \<and> op_fits (key_fits storable) S op"

context root_store
begin

lemma run_rabbit_op_ok:
  assumes ok: "rok sha K ps D rb" and K: "roomy sha K" and fits: "rabbit_fits storable S K op" and rm: "rb_room allowed MaxFindDepth ps rb"
  shows "\<exists>rb'. run_rabbit_op R S sha op rb = Inr rb' \<and> leaves sha K MaxFindDepth ps rb (op_effect S op (rview sha D rb)) rb'"
proof (cases op)
  case (TxSet k v)
  with fits setHelper_ok [OF ok K _ _ _ rm, of k v "AnyBytes (Some v)"] show ?thesis
    by (simp add: rabbit_fits_def RabbitStore_Set_def any_bytes_def)
next
  case (TxSetObj k x)
  with fits obtain b where "k \<in> K" "s_ToBytes S x = Some b" "key_fits storable k b" by (auto simp: rabbit_fits_def)
  with TxSetObj setHelper_ok [OF ok K _ _ _ rm, of k b "AnyObj x"] show ?thesis
    by (simp add: RabbitStore_SetObj_def any_bytes_def)
next
  case (TxDelete k)
  with fits Delete_ok [OF ok K _ rm, of k] show ?thesis by (simp add: rabbit_fits_def)
next
  case (TxModify k x f g)
  have "\<exists>rb'. bindE (RabbitStore_GetObj R S sha k (Some x) rb) (\<lambda>(ptr, rb). case ptr of None \<Rightarrow> Inr rb
      | Some obj \<Rightarrow> RabbitStore_SetObj R S sha k (Some (f obj)) rb) = Inr rb' \<and>
    leaves sha K MaxFindDepth ps rb ((rview sha D rb)(k := map_option g (rview sha D rb k))) rb'"
    by (rule take_return_ok [OF ok K _ rm]) (use fits TxModify in \<open>auto simp: rabbit_fits_def\<close>)
  with TxModify show ?thesis by simp
next
  case (TxRead k x)
  then have "k \<in> K" using fits by (simp add: rabbit_fits_def)
  from RabbitStore_reads_ok(4) [OF ok K this, of x] obtain q rb' L where
    r: "RabbitStore_GetReadOnlyObj R S sha k (Some x) rb = Inr (q, rb')" "loads view S L rb rb'" by blast
  from leaves_loads [OF ok r(2), of MaxFindDepth] r(1) TxRead show ?thesis by simp
qed

lemma run_rabbit_ops_ok:
  assumes "rok sha K ps D rb" and "roomy sha K" and "\<forall>op \<in> set ops. rabbit_fits storable S K op" and "rb_room allowed (MaxFindDepth * length ops) ps rb"
  shows "\<exists>rb'. foldE (run_rabbit_op R S sha) ops rb = Inr rb' \<and>
    leaves sha K (MaxFindDepth * length ops) ps rb (fold (op_effect S) ops (rview sha D rb)) rb'"
  using assms
proof (induction ops arbitrary: ps D rb)
  case Nil
  then show ?case using leaves_loads [OF Nil.prems(1) loads_refl [THEN iffD2, OF finite.emptyI]] by simp
next
  case (Cons op ops)
  let ?n = "MaxFindDepth * length ops"
  have rm: "rb_room allowed (MaxFindDepth + ?n) ps rb" using Cons.prems(4) by simp
  have rm1: "rb_room allowed MaxFindDepth ps rb" by (rule rb_room_less [OF rm]) simp
  have "rabbit_fits storable S K op" using Cons.prems(3) by simp
  from run_rabbit_op_ok [OF Cons.prems(1,2) this rm1] obtain rb1 qs D1 where
    r1: "run_rabbit_op R S sha op rb = Inr rb1" "rok sha K (ps @ qs) D1 rb1" "rview sha D1 rb1 = op_effect S op (rview sha D rb)"
    "same_trunk view allowed S rb rb1" "shorts MaxFindDepth qs" by blast
  from Cons.IH [OF r1(2) Cons.prems(2) _ rb_room_after [OF rm r1(5,4)]] Cons.prems(3) obtain rb2 qs2 D2 where
    r2: "foldE (run_rabbit_op R S sha) ops rb1 = Inr rb2" "rok sha K ((ps @ qs) @ qs2) D2 rb2"
    "rview sha D2 rb2 = fold (op_effect S) ops (rview sha D1 rb1)" "same_trunk view allowed S rb1 rb2" "shorts ?n qs2" by auto
  have "leaves sha K (MaxFindDepth * length (op # ops)) ps rb (fold (op_effect S) (op # ops) (rview sha D rb)) rb2"
    using r2 r1 shorts_append [OF r1(5) r2(5)] same_trunk_trans [OF r1(4) r2(4)]
    by (intro exI [of _ "qs @ qs2"] exI [of _ D2]) simp
  with r1(1) r2(1) show ?case by simp
qed

end

section \<open>Writing back\<close>

text \<open>What the trunk store shows at a short key after the writing back of a slot.\<close>

definition slot_written :: "'o Serializable \<Rightarrow> ('r, 'o) RabbitStore \<Rightarrow> (bytes \<rightharpoonup> bytes) \<Rightarrow> (bytes \<rightharpoonup> bytes)" where
  "slot_written S rb T k = (case sms_cache rb k of Some (Some v) \<Rightarrow>
       if \<not> cv_isDirty v then T k else if cv_isDeleted v then None
       else Some (slot_bytes (cv_isEmpty v) (cv_passbyNum v) (cv_key v) (the (slot_value S v)))
     | _ \<Rightarrow> T k)"

lemma scan_slots:
  assumes "writable storable S ps tc" and "\<forall>k \<in> set order. \<forall>c. cache k = Some c \<longrightarrow> (\<exists>v. c = Some v \<and> cached_ok storable S ps T k v)"
  shows "\<exists>tc'. SimpleCacheStore_ScanAllEntries S writeSlot order cache tc = Inr tc' \<and> writable storable S ps tc' \<and>
    (\<forall>M k. cache_over S tc' M k = (if k \<in> set order then slot_written S \<lparr>sms_cache = cache, sms_trunk = t\<rparr> (cache_over S tc M) k else cache_over S tc M k))"
  using assms
proof (induction order arbitrary: tc)
  case Nil
  then show ?case by (simp add: SimpleCacheStore_ScanAllEntries_def)
next
  case (Cons k order)
  let ?w = "slot_written S \<lparr>sms_cache = cache, sms_trunk = t\<rparr>"
  have "\<exists>tc1. SimpleCacheStore_ScanAllEntries S writeSlot [k] cache tc = Inr tc1 \<and> writable storable S ps tc1 \<and>
    (\<forall>M k'. cache_over S tc1 M k' = (if k' = k then ?w (cache_over S tc M) k else cache_over S tc M k'))"
  proof (cases "cache k")
    case None
    with Cons.prems(1) show ?thesis by (auto simp: SimpleCacheStore_ScanAllEntries_def slot_written_def)
  next
    case (Some c)
    then obtain v where v: "cache k = Some (Some v)" "cached_ok storable S ps T k v" using Cons.prems(2) by auto
    then obtain b where b: "slot_value S v = Some b" "is_short k"
      "\<forall>p. storable k (slot_bytes (cv_isEmpty v) p (cv_key v) b)" by (auto simp: cached_ok_def slot_fits_def)
    have nd: "\<not> (cv_obj v = AnyNil \<and> \<not> cv_isDeleted v \<and> \<not> cv_isEmpty v)" using b(1) by (auto simp: slot_value_def any_bytes_def)
    have pr: "proper S tc" using Cons.prems(1) by (simp add: writable_def)
    show ?thesis
    proof (cases "cv_isDirty v")
      case False
      with v nd Cons.prems(1) show ?thesis by (auto simp: SimpleCacheStore_ScanAllEntries_def slot_written_def)
    next
      case True
      let ?bz = "slot_bytes (cv_isEmpty v) (cv_passbyNum v) (cv_key v) b"
      let ?x = "if cv_isDeleted v then DeletedValue else RawBytes (Some ?bz)"
      have "SimpleCacheStore_ScanAllEntries S writeSlot [k] cache tc = Inr (bt_Set k ?x tc)"
        using v(1) nd True CachedValue_ToBytes_ok [OF b(1)]
        by (auto simp: SimpleCacheStore_ScanAllEntries_def writeSlot_def CacheStore_Delete_def CacheStore_Set_def)
      moreover have "writable storable S ps (bt_Set k ?x tc)"
        by (rule writable_Set [OF Cons.prems(1)]) (use v(2) b True in \<open>auto simp: prepared_def cached_ok_def val_bytes_def\<close>)
      moreover have "cache_over S (bt_Set k ?x tc) M k' = (if k' = k then ?w (cache_over S tc M) k else cache_over S tc M k')" for M k'
        using v(1) b(1) True by (auto simp: cache_over_Set [OF pr] slot_written_def val_bytes_def)
      ultimately show ?thesis by blast
    qed
  qed
  then obtain tc1 where r1: "SimpleCacheStore_ScanAllEntries S writeSlot [k] cache tc = Inr tc1" "writable storable S ps tc1"
    "\<And>M k'. cache_over S tc1 M k' = (if k' = k then ?w (cache_over S tc M) k else cache_over S tc M k')" by blast
  from Cons.IH [OF r1(2)] Cons.prems(2) obtain tc2 where r2: "SimpleCacheStore_ScanAllEntries S writeSlot order cache tc1 = Inr tc2" "writable storable S ps tc2"
    "\<And>M k'. cache_over S tc2 M k' = (if k' \<in> set order then ?w (cache_over S tc1 M) k' else cache_over S tc1 M k')" by auto
  have "SimpleCacheStore_ScanAllEntries S writeSlot (k # order) cache tc = Inr tc2"
    using r1(1) r2(1) by (auto simp: SimpleCacheStore_ScanAllEntries_def bindE_eq_Inr)
  moreover have "cache_over S tc2 M k' = (if k' \<in> set (k # order) then ?w (cache_over S tc M) k' else cache_over S tc M k')" for M k'
    unfolding r2(3) by (auto simp: slot_written_def r1(3) split: option.split)
  ultimately show ?case using r2(2) by blast
qed

text \<open>A slot that is written is decoded as it was.\<close>

definition same_slot :: "'o Serializable \<Rightarrow> 'o CachedValue \<Rightarrow> 'o CachedValue \<Rightarrow> bool" where
  "same_slot S v w \<longleftrightarrow> cv_passbyNum w = cv_passbyNum v \<and> cv_key w = cv_key v \<and> cv_isEmpty w = cv_isEmpty v \<and>
     slot_value S w = slot_value S v"

lemma same_slot_refl [simp]: "same_slot S v v"
  by (simp add: same_slot_def)

lemma slot_written_ok:
  fixes rb :: "('r, 'o) RabbitStore"
  assumes k: "is_short k" and c: "rabbit_core rinv storable view S ps rb"
  defines "T \<equiv> trunk_view view S (sms_trunk rb)"
  shows "slot_written S rb T k = Some bz \<Longrightarrow> (BytesToCachedValue bz :: 'o CachedValue option) \<noteq> None"
    and "rel_option (same_slot S) (rb_slots view S rb k) (Option.bind (slot_written S rb T k) BytesToCachedValue)"
proof -
  have dec: "T k = Some bz \<Longrightarrow> (BytesToCachedValue bz :: 'o CachedValue option) \<noteq> None" for bz
    using c k by (auto simp: rabbit_core_def trunk_decodes_def T_def)
  have "(\<forall>bz. slot_written S rb T k = Some bz \<longrightarrow> (BytesToCachedValue bz :: 'o CachedValue option) \<noteq> None) \<and>
    rel_option (same_slot S) (rb_slots view S rb k) (Option.bind (slot_written S rb T k) BytesToCachedValue)"
  proof (cases "sms_cache rb k")
    case None
    then have w: "slot_written S rb T k = T k" "rb_slots view S rb k = Option.bind (T k) BytesToCachedValue"
      using k by (simp_all add: slot_written_def rb_slots_def T_def)
    show ?thesis unfolding w using dec by (auto intro: option.rel_refl)
  next
    case (Some x)
    then obtain v where v: "sms_cache rb k = Some (Some v)" "cached_ok storable S ps T k v" using c by (auto simp: rabbit_core_def T_def)
    then obtain b where b: "slot_value S v = Some b" "length (cv_key v) < 2 ^ 32" by (auto simp: cached_ok_def slot_fits_def)
    have e: "cv_isEmpty v \<longrightarrow> b = []" using b(1) by (auto simp: slot_value_def)
    show ?thesis
    proof (cases "cv_isDirty v")
      case False
      with v k dec show ?thesis by (auto simp: slot_written_def rb_slots_def cached_ok_def)
    next
      case True
      with v k b e BytesToCachedValue_slot_bytes [OF b(2) e, where 'a = 'o] show ?thesis
        by (auto simp: slot_written_def rb_slots_def same_slot_def slot_value_def any_bytes_def)
    qed
  qed
  then show "slot_written S rb T k = Some bz \<Longrightarrow> (BytesToCachedValue bz :: 'o CachedValue option) \<noteq> None"
    "rel_option (same_slot S) (rb_slots view S rb k) (Option.bind (slot_written S rb T k) BytesToCachedValue)" by blast+
qed

lemma rel_slots:
  assumes r: "\<And>k. rel_option (same_slot S) (\<sigma> k) (\<sigma>' k)" and inv: "slots_inv h \<sigma> D"
  shows "slots_inv h \<sigma>' D" "located h K \<sigma> \<Longrightarrow> located h K \<sigma>'"
    "Option.bind (slot_map h \<sigma>' D key) (any_bytes S) = Option.bind (slot_map h \<sigma> D key) (any_bytes S)"
proof -
  have sm: "map_option (\<lambda>v. (cv_passbyNum v, cv_key v, cv_isEmpty v)) (\<sigma>' k) = map_option (\<lambda>v. (cv_passbyNum v, cv_key v, cv_isEmpty v)) (\<sigma> k)" for k
    using r [of k] by (cases "\<sigma> k"; cases "\<sigma>' k") (auto simp: same_slot_def)
  show inv': "slots_inv h \<sigma>' D" by (rule slots_inv_cong [OF inv sm])
  have "\<exists>w. \<sigma> k = Some w \<and> cv_key w = cv_key v" if "\<sigma>' k = Some v" for k v using sm [of k] that by (cases "\<sigma> k") auto
  then show "located h K \<sigma> \<Longrightarrow> located h K \<sigma>'" unfolding located_def by metis
  show "Option.bind (slot_map h \<sigma>' D key) (any_bytes S) = Option.bind (slot_map h \<sigma> D key) (any_bytes S)"
  proof (cases "D key")
    case (Some d)
    from slots_invD(3) [OF inv Some] obtain v where v: "\<sigma> (h key d) = Some v" "\<not> cv_isEmpty v" by blast
    with r [of "h key d"] obtain w where "\<sigma>' (h key d) = Some w" "same_slot S v w" by (auto simp: option_rel_Some1)
    with v Some show ?thesis by (auto simp: slot_map_def same_slot_def slot_value_def)
  qed (simp add: slot_map_def)
qed

text \<open>The store that is opened after the writing back.\<close>

lemma slot_fits_same: "slot_fits storable S v \<Longrightarrow> same_slot S v w \<Longrightarrow> slot_fits storable S w"
  by (simp add: slot_fits_def same_slot_def)

lemma new_rabbit_slots:
  "rb_slots view S (NewRabbitStore (NewTrunkStore keys r)) k = (if is_short k then Option.bind (view r k) BytesToCachedValue else None)"
  by (simp add: rb_slots_def NewRabbitStore_def NewSimpleCacheStore_def NewTrunkStore_def trunk_view_def)

context root_store
begin

lemma new_trunk_ok: "rinv [] r \<Longrightarrow> trunk_ok rinv storable S [] (NewTrunkStore keys r)"
  "trunk_view view S (NewTrunkStore keys r) = view r"
  by (simp_all add: trunk_ok_def trunk_view_def NewTrunkStore_def)

text \<open>A root store that holds no short key, and one that holds the slots of another store.\<close>

lemma rabbit_start:
  assumes "rinv [] r" and "\<forall>k. is_short k \<longrightarrow> view r k = None"
  shows "rok sha K [] Map.empty (NewRabbitStore (NewTrunkStore keys r))" "rview sha Map.empty (NewRabbitStore (NewTrunkStore keys r)) = Map.empty"
proof -
  have "slots (NewRabbitStore (NewTrunkStore keys r)) = Map.empty" using assms(2) by (auto simp: new_rabbit_slots fun_eq_iff)
  then show "rok sha K [] Map.empty (NewRabbitStore (NewTrunkStore keys r))"
    using assms new_trunk_ok by (auto simp: rabbit_ok_def rabbit_core_def NewRabbitStore_def NewSimpleCacheStore_def trunk_decodes_def)
  show "rview sha Map.empty (NewRabbitStore (NewTrunkStore keys r)) = Map.empty" by (simp add: fun_eq_iff view_free)
qed

lemma rabbit_reopen:
  assumes ok: "rok sha K ps D rb" and r: "rinv [] r" "view r = slot_written S rb (trunk_view view S (sms_trunk rb))"
  shows "rok sha K [] D (NewRabbitStore (NewTrunkStore keys r))" "rview sha D (NewRabbitStore (NewTrunkStore keys r)) = rview sha D rb"
proof -
  let ?rb = "NewRabbitStore (NewTrunkStore keys r)"
  note o = rabbit_okD [OF ok]
  have rel: "rel_option (same_slot S) (slots rb k) (slots ?rb k)" for k
  proof (cases "is_short k")
    case True
    with slot_written_ok(2) [OF True o(1)] show ?thesis by (simp add: new_rabbit_slots r(2))
  next
    case False
    then show ?thesis by (simp add: new_rabbit_slots rb_slots_def)
  qed
  have fits: "slot_fits storable S w" if w: "slots ?rb k = Some w" for k w
  proof -
    from rel [of k] w obtain v where v: "slots rb k = Some v" "same_slot S v w" by (auto simp: option_rel_Some2)
    with o(1) have "slot_fits storable S v" by (simp add: rabbit_core_def)
    with v(2) show ?thesis by (rule slot_fits_same [rotated])
  qed
  have "trunk_decodes view S (NewTrunkStore keys r)"
    using slot_written_ok(1) [OF _ o(1)] unfolding trunk_decodes_def new_trunk_ok(2) r(2) by blast
  then have "core [] ?rb" using new_trunk_ok(1) [OF r(1)] fits
    by (simp add: rabbit_core_def) (simp add: NewRabbitStore_def NewSimpleCacheStore_def)
  then show "rok sha K [] D ?rb" using rel_slots(1,2) [OF rel o(2)] o(3,4) by (simp add: rabbit_ok_def)
  show "rview sha D ?rb = rview sha D rb" using rel_slots(3) [OF rel o(2)] by (simp add: rabbit_view_def fun_eq_iff)
qed

lemma RabbitStore_Close_ok:
  assumes c: "core ps rb" and ord: "set order = dom (sms_cache rb)"
  shows "\<exists>rb'. RabbitStore_Close S order True rb = Inr rb' \<and> trunk_ok rinv storable S ps (sms_trunk rb') \<and>
    root_of (sms_trunk rb') = root_of (sms_trunk rb) \<and> trunk_view view S (sms_trunk rb') = slot_written S rb (trunk_view view S (sms_trunk rb))"
proof -
  have "trunk_ok rinv storable S ps (sms_trunk rb)" using c by (simp add: rabbit_core_def)
  then show ?thesis
  proof (rule trunk_okE)
    fix tc r assume t: "ts_cache (sms_trunk rb) = Some tc" "ts_root (sms_trunk rb) = Some r" "writable storable S ps tc" "rinv ps r"
      "ts_isWriting (sms_trunk rb) = 0" "\<And>view. trunk_view view S (sms_trunk rb) = cache_over S tc (view r)"
    have "\<forall>k \<in> set order. \<forall>x. sms_cache rb k = Some x \<longrightarrow> (\<exists>v. x = Some v \<and> cached_ok storable S ps (trunk_view view S (sms_trunk rb)) k v)"
      using c by (simp add: rabbit_core_def)
    from scan_slots [OF t(3) this, of "sms_trunk rb"] obtain tc' where tc':
      "SimpleCacheStore_ScanAllEntries S writeSlot order (sms_cache rb) tc = Inr tc'" "writable storable S ps tc'"
      "\<And>M k. cache_over S tc' M k = (if k \<in> set order then slot_written S \<lparr>sms_cache = sms_cache rb, sms_trunk = sms_trunk rb\<rparr> (cache_over S tc M) k else cache_over S tc M k)"
      by blast
    have rb: "\<lparr>sms_cache = sms_cache rb, sms_trunk = sms_trunk rb\<rparr> = rb" by simp
    let ?ts = "(sms_trunk rb)\<lparr>ts_cache := Some tc'\<rparr>"
    have "RabbitStore_Close S order True rb = Inr (rb\<lparr>sms_trunk := ?ts\<rparr>)"
      using t(1,5) tc'(1) by (simp add: RabbitStore_Close_def SimpleMultiStore_Close_def SimpleMultiStore_writeBack_def TrunkStore_Update_def notWriting_ok)
    moreover have "trunk_ok rinv storable S ps ?ts" using t tc'(2) by (simp add: trunk_ok_def)
    moreover have "trunk_view view S ?ts = slot_written S rb (trunk_view view S (sms_trunk rb))"
    proof
      fix k
      have "slot_written S rb M k = M k" if "k \<notin> set order" for M
        using that unfolding ord by (simp add: slot_written_def domIff)
      then show "trunk_view view S ?ts k = slot_written S rb (trunk_view view S (sms_trunk rb)) k"
        using t(2) by (simp add: trunk_view_def tc'(3) [unfolded rb] t(1))
    qed
    ultimately show ?thesis by auto
  qed
qed

end

section \<open>Sessions\<close>

text \<open>
  A session is a block: its height and its operations on a new rabbit store over a new trunk store, which are
  both written back at its end, the slots of the rabbit store in any order.
\<close>

inductive rabbit_sessions :: "('r, 'f, 'b, 'o) RootStoreI \<Rightarrow> 'o Serializable \<Rightarrow> (bytes \<Rightarrow> bytes) \<Rightarrow> StrStoreKey list \<Rightarrow>
    ('r \<Rightarrow> int \<times> 'o tx_op list \<Rightarrow> bool) \<Rightarrow> 'r \<Rightarrow> (int \<times> 'o tx_op list) list \<Rightarrow> 'r \<Rightarrow> bool" for R S sha keys pre r0 where
  sessions_start: "rabbit_sessions R S sha keys pre r0 [] r0"
| sessions_more: "rabbit_sessions R S sha keys pre r0 bs r \<Longrightarrow> pre r blk \<Longrightarrow>
    foldE (run_rabbit_op R S sha) (snd blk) (NewRabbitStore (NewTrunkStore keys (rs_SetHeight R (fst blk) r))) = Inr rb \<Longrightarrow>
    set order = dom (sms_cache rb) \<Longrightarrow> distinct order \<Longrightarrow> RabbitStore_Close S order True rb = Inr rb' \<Longrightarrow>
    TrunkStore_Close R True (sms_trunk rb') = okR (Some r', ts) \<Longrightarrow> rabbit_sessions R S sha keys pre r0 (bs @ [blk]) r'"

definition sessions_effect :: "'o Serializable \<Rightarrow> (int \<times> 'o tx_op list) list \<Rightarrow> (bytes \<rightharpoonup> bytes) \<Rightarrow> (bytes \<rightharpoonup> bytes)" where
  "sessions_effect S bs = fold (\<lambda>blk. fold (op_effect S) (snd blk)) bs"

context root_store
begin

text \<open>The blocks that can run: operations on keys of \<open>K\<close> whose values fit, with room for what they prepare.\<close>

abbreviation session_fits :: "bytes set \<Rightarrow> 'r \<Rightarrow> int \<times> 'o tx_op list \<Rightarrow> bool" where
  "session_fits K r blk \<equiv> (\<forall>op \<in> set (snd blk). rabbit_fits storable S K op) \<and>
     (\<forall>qs. shorts (MaxFindDepth * length (snd blk)) qs \<longrightarrow> allowed (rs_SetHeight R (fst blk) r) qs)"

lemma set_height_ok:
  fixes h :: int
  assumes "rinv [] r" and "rok sha K [] D (NewRabbitStore (NewTrunkStore keys r))"
  defines "rb \<equiv> NewRabbitStore (NewTrunkStore keys (rs_SetHeight R h r))"
  shows "rok sha K [] D rb" "rview sha D rb = rview sha D (NewRabbitStore (NewTrunkStore keys r))"
proof -
  note h = set_height [OF assms(1), of h]
  have sl: "slots rb = slots (NewRabbitStore (NewTrunkStore keys r))" using h by (simp add: rb_def new_rabbit_slots fun_eq_iff)
  show "rview sha D rb = rview sha D (NewRabbitStore (NewTrunkStore keys r))" by (simp add: rabbit_view_def sl fun_eq_iff)
  show "rok sha K [] D rb" using assms(2) h new_trunk_ok
    unfolding rabbit_ok_def rabbit_core_def sl by (simp add: rb_def NewRabbitStore_def NewSimpleCacheStore_def trunk_decodes_def)
qed

lemma session_ok:
  assumes r: "rinv [] r" "rok sha K [] D (NewRabbitStore (NewTrunkStore keys r))" and K: "roomy sha K" and fits: "session_fits K r blk"
  shows "\<exists>rb ps D'. foldE (run_rabbit_op R S sha) (snd blk) (NewRabbitStore (NewTrunkStore keys (rs_SetHeight R (fst blk) r))) = Inr rb \<and>
    rok sha K ps D' rb \<and> rview sha D' rb = fold (op_effect S) (snd blk) (rview sha D (NewRabbitStore (NewTrunkStore keys r))) \<and>
    (\<forall>order. set order = dom (sms_cache rb) \<longrightarrow> (\<exists>rb' r' ts. RabbitStore_Close S order True rb = Inr rb' \<and>
      TrunkStore_Close R True (sms_trunk rb') = okR (Some r', ts) \<and> rinv [] r' \<and>
      rok sha K [] D' (NewRabbitStore (NewTrunkStore keys r')) \<and> rview sha D' (NewRabbitStore (NewTrunkStore keys r')) = rview sha D' rb))"
proof -
  let ?h = "rs_SetHeight R (fst blk) r" let ?rb = "NewRabbitStore (NewTrunkStore keys ?h) :: ('r, 'o) RabbitStore"
  note h = set_height_ok [OF r, of "fst blk"]
  have root: "root_of (sms_trunk ?rb) = ?h" by (simp add: NewRabbitStore_def NewTrunkStore_def)
  have rm: "rb_room allowed (MaxFindDepth * length (snd blk)) [] ?rb" using fits by (simp add: rb_room_def root)
  from run_rabbit_ops_ok [OF h(1) K _ rm] fits obtain rb qs D' where rb: "foldE (run_rabbit_op R S sha) (snd blk) ?rb = Inr rb"
    "rok sha K ([] @ qs) D' rb" "rview sha D' rb = fold (op_effect S) (snd blk) (rview sha D ?rb)" "same_trunk view allowed S ?rb rb"
    "shorts (MaxFindDepth * length (snd blk)) qs" by blast
  note ok = rb(2) [unfolded append_Nil]
  have "\<exists>rb' r' ts. RabbitStore_Close S order True rb = Inr rb' \<and> TrunkStore_Close R True (sms_trunk rb') = okR (Some r', ts) \<and> rinv [] r' \<and>
      rok sha K [] D' (NewRabbitStore (NewTrunkStore keys r')) \<and> rview sha D' (NewRabbitStore (NewTrunkStore keys r')) = rview sha D' rb"
    if ord: "set order = dom (sms_cache rb)" for order
  proof -
    from RabbitStore_Close_ok [OF rabbit_okD(1) [OF ok] ord] obtain rb' where c: "RabbitStore_Close S order True rb = Inr rb'"
      "trunk_ok rinv storable S qs (sms_trunk rb')" "root_of (sms_trunk rb') = root_of (sms_trunk rb)"
      "trunk_view view S (sms_trunk rb') = slot_written S rb (trunk_view view S (sms_trunk rb))" by blast
    have "allowed (root_of (sms_trunk rb)) qs" using rb_roomD [OF rm rb(5)] rb(4) by (simp add: same_trunk_def)
    with TrunkStore_Close_ok [OF c(2)] c(3) obtain r' ts where t: "TrunkStore_Close R True (sms_trunk rb') = okR (Some r', ts)" "rinv [] r'"
      "view r' = trunk_view view S (sms_trunk rb')" by auto
    from rabbit_reopen [OF ok t(2) t(3) [unfolded c(4)], of keys] c(1) t(1,2) show ?thesis by blast
  qed
  with rb(1,3) ok h(2) show ?thesis by (intro exI [of _ rb] exI [of _ qs] exI [of _ D']) simp
qed

text \<open>The states between the sessions of a run.\<close>

lemma rabbit_sessions_ok:
  assumes run: "rabbit_sessions R S sha keys pre r0 bs r" and r0: "rinv [] r0" "\<forall>k. is_short k \<longrightarrow> view r0 k = None" and K: "roomy sha K"
    and pre: "\<And>r blk. pre r blk \<Longrightarrow> session_fits K r blk"
  shows "\<exists>D. rinv [] r \<and> rok sha K [] D (NewRabbitStore (NewTrunkStore keys r)) \<and>
    rview sha D (NewRabbitStore (NewTrunkStore keys r)) = sessions_effect S bs Map.empty"
  using run
proof induction
  case sessions_start
  show ?case using rabbit_start [OF r0] r0(1) by (intro exI [of _ Map.empty]) (simp add: sessions_effect_def)
next
  case (sessions_more bs r blk rb order rb' r' ts)
  from sessions_more.IH obtain D where D: "rinv [] r" "rok sha K [] D (NewRabbitStore (NewTrunkStore keys r))"
    "rview sha D (NewRabbitStore (NewTrunkStore keys r)) = sessions_effect S bs Map.empty" by blast
  from session_ok [OF D(1,2) K pre [OF sessions_more.hyps(2)]] sessions_more.hyps(3-7) D(3) show ?case
    by (fastforce simp: sessions_effect_def okR_def)
qed

end

end
