(* ===== verification/RabbitMain.thy ===== *)
theory RabbitMain
  imports RabbitRuns StoreMain
begin

text \<open>
  Rabbit stores over the trunk stores of an OnvaKV root store with its files: the map of a run of
  sessions, the end of a session, and an object that is taken and deleted.
\<close>

section \<open>Sessions over OnvaKV\<close>

context object_store
begin

lemmas rabbit_session_ok = root.session_ok and rabbit_run_ok = root.rabbit_sessions_ok and rabbit_reads_ok = root.RabbitStore_reads_ok

end

text \<open>
  A block of operations on the keys \<open>K\<close>, with values that fit, at a height that fits, on an index with room
  for a hundred slots for each operation, and with short keys between the guards.
\<close>

definition rabbit_allowed :: "('i, 'e) IndexTreeI \<Rightarrow> 'o Serializable \<Rightarrow> (bytes \<Rightarrow> bool) \<Rightarrow> bytes set \<Rightarrow> ('i, 'd, 'e, 'o) RootStore \<Rightarrow>
    int \<times> 'o tx_op list \<Rightarrow> bool" where
  "rabbit_allowed I S c K r blk \<longleftrightarrow> (\<forall>op \<in> set (snd blk). rabbit_fits (root_storable S c) S K op) \<and> 0 \<le> fst blk \<and> in_int64 (fst blk) \<and>
     ix_ActiveCount I (idxTree (rt_okv r)) + MaxFindDepth * length (snd blk) \<le> 10000 \<and> md_maxSerialNum (meta (rt_okv r)) + 30000 < 2 ^ 63 \<and>
     (\<forall>k. is_short k \<longrightarrow> startKey (rt_okv r) < k \<and> k < endKey (rt_okv r))"

lemma rabbit_allowed_fits:
  fixes r :: "('i, 'd, 'e, 'o) RootStore"
  assumes "rabbit_allowed I S c K r blk"
  shows "(\<forall>op \<in> set (snd blk). rabbit_fits (root_storable S c) S K op) \<and>
    (\<forall>qs. shorts (MaxFindDepth * length (snd blk)) qs \<longrightarrow> root_allowed I (rs_SetHeight (RootI E I D S) (fst blk) r) qs)"
proof (intro conjI allI impI)
  show "\<forall>op \<in> set (snd blk). rabbit_fits (root_storable S c) S K op" using assms by (simp add: rabbit_allowed_def)
  fix qs assume qs: "shorts (MaxFindDepth * length (snd blk)) qs"
  have "length k \<le> maxString" if "is_short k" for k using that by (simp add: is_short_def KeySize_def maxString_def)
  with assms qs show "root_allowed I (rs_SetHeight (RootI E I D S) (fst blk) r) qs"
    by (simp add: rabbit_allowed_def root_allowed_def RootI_reads RootStore_SetHeight_def block_room_def shorts_def)
qed

abbreviation rabbit_run :: "('e, 'it) engine \<Rightarrow> (bytes \<Rightarrow> bytes) \<Rightarrow> (bytes \<Rightarrow> bytes) \<Rightarrow> 'o Serializable \<Rightarrow> (bytes \<Rightarrow> bool) \<Rightarrow> bytes set \<Rightarrow> StrStoreKey list \<Rightarrow>
    (NVTreeMem, Tree, 'e, 'o) RootStore \<Rightarrow> (int \<times> 'o tx_op list) list \<Rightarrow> (NVTreeMem, Tree, 'e, 'o) RootStore \<Rightarrow> bool" where
  "rabbit_run E sha meow S c K keys \<equiv> rabbit_sessions (RootI E NVTreeI (TreeI sha meow) S) S sha keys (rabbit_allowed NVTreeI S c K)"

abbreviation rabbit_ops :: "('e, 'it) engine \<Rightarrow> (bytes \<Rightarrow> bytes) \<Rightarrow> (bytes \<Rightarrow> bytes) \<Rightarrow> 'o Serializable \<Rightarrow> StrStoreKey list \<Rightarrow>
    (NVTreeMem, Tree, 'e, 'o) RootStore \<Rightarrow> int \<times> 'o tx_op list \<Rightarrow> ((NVTreeMem, Tree, 'e, 'o) RootStore, 'o) RabbitStore outcome" where
  "rabbit_ops E sha meow S keys r blk \<equiv> foldE (run_rabbit_op (RootI E NVTreeI (TreeI sha meow) S) S sha) (snd blk)
     (NewRabbitStore (NewTrunkStore keys (RootStore_SetHeight (fst blk) r)))"

text \<open>The states of a run, between two sessions and in an open one.\<close>

lemma real_rabbit:
  fixes okv0 :: "(NVTreeMem, Tree, 'e) OnvaKV" and E :: "('e, 'it) engine" and S :: "'o Serializable"
  assumes h: "hash32 sha" "meow4 meow" and f: "new_files ef tf" and g: "guards_ok maxString s e" and S: "serializable S" and c: "\<not> c s" "\<not> c e"
    and short: "\<not> is_short s" "\<not> is_short e" and new: "createOnvaKV E0 sha meow ef tf db0 q s e = Inr okv0" and K: "roomy sha K"
    and run: "rabbit_run E sha meow S c K keys (NewRootStore rnd okv0 keys (Some c)) bs r"
    and al: "rabbit_allowed NVTreeI S c K r blk"
  defines "D \<equiv> TreeI sha meow"
  defines "rok \<equiv> rabbit_ok (root_inv (onva_ok sha) NVTreeI D S c) (root_storable S c) (root_view NVTreeI D) S sha K"
  shows "\<exists>rb ps d. rabbit_ops E sha meow S keys r blk = Inr rb \<and> rok ps d rb \<and>
    rabbit_view sha (root_view NVTreeI D) S d rb = fold (op_effect S) (snd blk) (sessions_effect S bs Map.empty) \<and>
    (\<forall>order. set order = dom (sms_cache rb) \<longrightarrow> (\<exists>rb' r' ts. RabbitStore_Close S order True rb = Inr rb' \<and>
      TrunkStore_Close (RootI E NVTreeI D S) True (sms_trunk rb') = okR (Some r', ts) \<and> root_inv (onva_ok sha) NVTreeI D S c [] r' \<and>
      rok [] d (NewRabbitStore (NewTrunkStore keys r')) \<and>
      rabbit_view sha (root_view NVTreeI D) S d (NewRabbitStore (NewTrunkStore keys r')) = rabbit_view sha (root_view NVTreeI D) S d rb))"
proof -
  note os = real_objects [OF h S, where 'e = 'e]
  note start = blocks_run.blocks_start [where R = "RootI E NVTreeI (TreeI sha meow) S" and S = S and keys = keys and
    pre = "block_allowed NVTreeI S c" and ?r0.0 = "NewRootStore rnd okv0 keys (Some c)"]
  note r0 = real_blocks [OF h f g S c new start]
  have free: "\<forall>k. is_short k \<longrightarrow> root_view NVTreeI (TreeI sha meow) (NewRootStore rnd okv0 keys (Some c) :: (NVTreeMem, Tree, 'e, 'o) RootStore) k = None"
    unfolding r0(2) using short by (auto simp: blocks_effect_def guard_map_def)
  from object_store.rabbit_run_ok [OF os run r0(1) free K rabbit_allowed_fits] obtain d where d: "root_inv (onva_ok sha) NVTreeI (TreeI sha meow) S c [] r"
    "rok [] d (NewRabbitStore (NewTrunkStore keys r))"
    "rabbit_view sha (root_view NVTreeI (TreeI sha meow)) S d (NewRabbitStore (NewTrunkStore keys r)) = sessions_effect S bs Map.empty"
    unfolding rok_def D_def by blast
  from object_store.rabbit_session_ok [OF os d(1) d(2) [unfolded rok_def D_def] K rabbit_allowed_fits [OF al], where ?E = E]
  show ?thesis unfolding d(3) rok_def D_def RootI_reads by blast
qed

text \<open>
  C13: a rabbit store refines a map. Over an OnvaKV root store, after any run of sessions, the operations of an
  open session on keys each of which has a hop of its own always return, and every key then reads what the
  operations of all sessions have made of it, although the slots have short keys that collide.
\<close>

theorem RabbitStore_map:
  fixes okv0 :: "(NVTreeMem, Tree, 'e) OnvaKV" and S :: "'o Serializable"
  assumes "hash32 sha" "meow4 meow" and "new_files ef tf" and "guards_ok maxString s e" and "serializable S" and "\<not> c s" "\<not> c e"
    and "\<not> is_short s" "\<not> is_short e" and "createOnvaKV E0 sha meow ef tf db0 q s e = Inr okv0" and "roomy sha K"
    and "rabbit_run E sha meow S c K keys (NewRootStore rnd okv0 keys (Some c)) bs r" and "rabbit_allowed NVTreeI S c K r blk"
    and M: "M = fold (op_effect S) (snd blk) (sessions_effect S bs Map.empty)"
  shows "\<exists>rb. rabbit_ops E sha meow S keys r blk = Inr rb \<and> finite (dom (sms_cache rb)) \<and>
    (\<forall>key \<in> K. (\<exists>rb'. RabbitStore_Get (RootI E NVTreeI (TreeI sha meow) S) S sha key rb = Inr (M key, rb')) \<and>
      (\<exists>rb'. RabbitStore_Has (RootI E NVTreeI (TreeI sha meow) S) S sha key rb = Inr (M key \<noteq> None, rb')))"
proof -
  from real_rabbit [OF assms(1-13)] obtain rb ps d where rb: "rabbit_ops E sha meow S keys r blk = Inr rb"
    "rabbit_ok (root_inv (onva_ok sha) NVTreeI (TreeI sha meow) S c) (root_storable S c) (root_view NVTreeI (TreeI sha meow)) S sha K ps d rb"
    "rabbit_view sha (root_view NVTreeI (TreeI sha meow)) S d rb = M" unfolding M by blast
  note reads = object_store.rabbit_reads_ok [OF real_objects [OF assms(1,2,5), where 'e = 'e] rb(2) assms(11), where ?E = E, unfolded rb(3)]
  have "finite (dom (sms_cache rb))" using rabbit_okD(1) [OF rb(2)] by (simp add: rabbit_core_def)
  with rb(1) reads(1) reads(2) show ?thesis by blast
qed

text \<open>A rabbit store without keys has no slots in the store below it.\<close>

lemma no_keys_nothing_stored:
  assumes ok: "rabbit_ok rinv storable v S sha K [] d (NewRabbitStore (NewTrunkStore keys r'))"
    and none: "rabbit_view sha v S d (NewRabbitStore (NewTrunkStore keys r') :: ('r, 'o) RabbitStore) = Map.empty" and k: "is_short k"
  shows "v r' k = None"
proof -
  let ?rb = "NewRabbitStore (NewTrunkStore keys r') :: ('r, 'o) RabbitStore"
  note ok = rabbit_okD [OF ok]
  have "d = Map.empty"
  proof
    fix key
    show "d key = None"
    proof (cases "d key")
      case (Some i)
      from slots_invD(3) [OF ok(2) Some] view_stored [where D = d and key = key, OF ok(1) Some] none show ?thesis by fastforce
    qed simp
  qed
  then have "rb_slots v S ?rb k = None" using no_keys_no_slots ok(2) by metis
  then have "Option.bind (v r' k) (BytesToCachedValue :: bytes \<Rightarrow> 'o CachedValue option) = None" using k by (simp add: new_rabbit_slots)
  moreover have "trunk_decodes v S (NewTrunkStore keys r' :: ('r, 'o) TrunkStore)"
    using ok(1) by (simp add: rabbit_core_def NewRabbitStore_def)
  then have "\<forall>bz. v r' k = Some bz \<longrightarrow> (BytesToCachedValue bz :: 'o CachedValue option) \<noteq> None"
    using k unfolding trunk_decodes_def by (simp add: NewTrunkStore_def trunk_view_def)
  ultimately show ?thesis by (cases "v r' k") auto
qed

text \<open>
  C14: a session ends. Whatever the order in which the slots of the cache are visited, the rabbit store
  and the trunk store are written back, which is a session of the run; and when no key is left,
  no slot is left in the root store.
\<close>

theorem RabbitStore_session_ends:
  fixes okv0 :: "(NVTreeMem, Tree, 'e) OnvaKV" and S :: "'o Serializable"
  assumes "hash32 sha" "meow4 meow" and "new_files ef tf" and "guards_ok maxString s e" and "serializable S" and "\<not> c s" "\<not> c e"
    and "\<not> is_short s" "\<not> is_short e" and "createOnvaKV E0 sha meow ef tf db0 q s e = Inr okv0" and "roomy sha K"
    and "rabbit_run E sha meow S c K keys (NewRootStore rnd okv0 keys (Some c)) bs r" and "rabbit_allowed NVTreeI S c K r blk"
    and ops: "rabbit_ops E sha meow S keys r blk = Inr rb" and order: "set order = dom (sms_cache rb)" "distinct order"
  shows "\<exists>rb' r' ts. RabbitStore_Close S order True rb = Inr rb' \<and>
    TrunkStore_Close (RootI E NVTreeI (TreeI sha meow) S) True (sms_trunk rb') = okR (Some r', ts) \<and>
    rabbit_run E sha meow S c K keys (NewRootStore rnd okv0 keys (Some c)) (bs @ [blk]) r' \<and>
    (sessions_effect S (bs @ [blk]) Map.empty = Map.empty \<longrightarrow> (\<forall>k. is_short k \<longrightarrow> RootStore_Get NVTreeI (TreeI sha meow) S k r' = Inr None))"
proof -
  let ?D = "TreeI sha meow" let ?v = "root_view NVTreeI ?D"
  note os = real_objects [OF assms(1,2,5), where 'e = 'e]
  from real_rabbit [OF assms(1-13)] obtain rb1 ps d where r: "rabbit_ops E sha meow S keys r blk = Inr rb1"
    "rabbit_view sha ?v S d rb1 = fold (op_effect S) (snd blk) (sessions_effect S bs Map.empty)"
    and ends: "\<forall>order. set order = dom (sms_cache rb1) \<longrightarrow> (\<exists>rb' r' ts. RabbitStore_Close S order True rb1 = Inr rb' \<and>
      TrunkStore_Close (RootI E NVTreeI ?D S) True (sms_trunk rb') = okR (Some r', ts) \<and> root_inv (onva_ok sha) NVTreeI ?D S c [] r' \<and>
      rabbit_ok (root_inv (onva_ok sha) NVTreeI ?D S c) (root_storable S c) ?v S sha K [] d (NewRabbitStore (NewTrunkStore keys r')) \<and>
      rabbit_view sha ?v S d (NewRabbitStore (NewTrunkStore keys r')) = rabbit_view sha ?v S d rb1)" by blast
  have "rb1 = rb" using r(1) ops by simp
  with ends order(1) r(2) obtain rb' r' ts where e: "RabbitStore_Close S order True rb = Inr rb'"
    "TrunkStore_Close (RootI E NVTreeI ?D S) True (sms_trunk rb') = okR (Some r', ts)" "root_inv (onva_ok sha) NVTreeI ?D S c [] r'"
    "rabbit_ok (root_inv (onva_ok sha) NVTreeI ?D S c) (root_storable S c) ?v S sha K [] d (NewRabbitStore (NewTrunkStore keys r'))"
    "rabbit_view sha ?v S d (NewRabbitStore (NewTrunkStore keys r')) = fold (op_effect S) (snd blk) (sessions_effect S bs Map.empty)"
    by metis
  have run: "rabbit_run E sha meow S c K keys (NewRootStore rnd okv0 keys (Some c)) (bs @ [blk]) r'"
    by (rule sessions_more [OF assms(12,13) _ order e(1,2)]) (use ops in \<open>simp add: RootI_reads\<close>)
  have "RootStore_Get NVTreeI ?D S k r' = Inr None" if "sessions_effect S (bs @ [blk]) Map.empty = Map.empty" "is_short k" for k
    using store.RootStore_get_ok(2) [OF object_store.axioms(1) [OF os] e(3)] no_keys_nothing_stored [OF e(4) _ that(2)] e(5) that(1)
    by (simp add: sessions_effect_def)
  with e(1,2) run show ?thesis by blast
qed

section \<open>An object that is taken and deleted\<close>

text \<open>A slot that is read is in the cache afterwards, and no slot that was there changes.\<close>

lemma GetCachedValue_cached:
  assumes "GetCachedValue R S k rb = Inr (cv, rb1)"
  shows "sms_cache rb x = Some w \<Longrightarrow> sms_cache rb1 x = Some w"
    and "cv = Some v \<Longrightarrow> \<not> cv_isDeleted v \<and> sms_cache rb1 k = Some (Some v)"
  using assms
  by (auto simp: GetCachedValue_def SimpleCacheStore_GetValue_def SimpleCacheStore_SetValue_def Let_def outcome_simps decoded_live
      split: option.splits if_splits)

lemma GetCachedValue_hit: "sms_cache rb k = Some (Some v) \<Longrightarrow> \<not> cv_isDeleted v \<Longrightarrow> GetCachedValue R S k rb = Inr (Some v, rb)"
  by (simp add: GetCachedValue_def SimpleCacheStore_GetValue_def)

text \<open>
  A search that finds its key leaves the slots it has read in the cache, the last of them with the key, and
  finds the same again when the object of that slot is replaced.
\<close>

definition found_path :: "bytes \<Rightarrow> bytes list \<Rightarrow> 'o CachedValue \<Rightarrow> ('r, 'o) RabbitStore \<Rightarrow> bool" where
  "found_path key ks v rb \<longleftrightarrow> ks \<noteq> [] \<and> sms_cache rb (last ks) = Some (Some v) \<and> \<not> cv_isDeleted v \<and> \<not> cv_isEmpty v \<and> cv_key v = key \<and>
     (\<forall>k \<in> set (butlast ks). \<exists>w. sms_cache rb k = Some (Some w) \<and> cv_key w \<noteq> key)"

abbreviation with_obj :: "bytes \<Rightarrow> 'o CachedValue \<Rightarrow> 'o anyValue \<Rightarrow> ('r, 'o) RabbitStore \<Rightarrow> ('r, 'o) RabbitStore" where
  "with_obj k v obj rb \<equiv> rb\<lparr>sms_cache := (sms_cache rb)(k \<mapsto> Some (v\<lparr>cv_obj := obj\<rparr>))\<rparr>"

lemma find_loop_cached: "find_loop R S sha key e n h p rb = Inr (res, rb0) \<Longrightarrow> sms_cache rb x = Some w \<Longrightarrow> sms_cache rb0 x = Some w"
proof (induction n arbitrary: h p rb)
  case (Suc n)
  from Suc.prems(1) obtain cv rb1 where g: "GetCachedValue R S (shortKey h) rb = Inr (cv, rb1)"
    by (auto simp: find_loop.simps(2) Let_def outcome_simps)
  note c = GetCachedValue_cached(1) [OF g Suc.prems(2)]
  from Suc.prems(1) Suc.IH [OF _ c] c show ?case by (auto simp: find_loop.simps(2) Let_def g split: option.splits if_splits)
qed simp

lemma find_loop_found:
  "find_loop R S sha key e n h p rb = Inr ((Some v, path, Exists), rb0) \<Longrightarrow>
    \<exists>ks. path = p @ ks \<and> found_path key ks v rb0 \<and>
      find_loop R S sha key e n h p (with_obj (last ks) v obj rb0) = Inr ((Some (v\<lparr>cv_obj := obj\<rparr>), path, Exists), with_obj (last ks) v obj rb0)"
proof (induction n arbitrary: h p rb)
  case (Suc n)
  let ?k = "shortKey h"
  from Suc.prems obtain w rb1 where g: "GetCachedValue R S ?k rb = Inr (Some w, rb1)"
    by (auto simp: find_loop.simps(2) Let_def outcome_simps split: option.splits)
  note c = GetCachedValue_cached(2) [OF g refl]
  show ?case
  proof (cases "cv_key w = key")
    case True
    with Suc.prems have v: "w = v" "path = p @ [?k]" "\<not> cv_isEmpty v" "rb0 = rb1"
      by (auto simp: find_loop.simps(2) Let_def g split: if_splits)
    let ?rb = "with_obj ?k v obj rb0"
    have "GetCachedValue R S ?k ?rb = Inr (Some (v\<lparr>cv_obj := obj\<rparr>), ?rb)" by (rule GetCachedValue_hit) (use c v(1) in simp_all)
    with True v c show ?thesis by (intro exI [of _ "[?k]"]) (simp add: found_path_def find_loop.simps(2) Let_def fun_upd_def)
  next
    case False
    with Suc.prems have r: "find_loop R S sha key e n (sha h) (p @ [?k]) rb1 = Inr ((Some v, path, Exists), rb0)" "\<not> (e \<and> cv_passbyNum w = 0)"
      by (auto simp: find_loop.simps(2) Let_def g split: if_splits)
    from Suc.IH [OF r(1)] obtain ks where ks: "path = (p @ [?k]) @ ks" "found_path key ks v rb0"
      "find_loop R S sha key e n (sha h) (p @ [?k]) (with_obj (last ks) v obj rb0) = Inr ((Some (v\<lparr>cv_obj := obj\<rparr>), path, Exists), with_obj (last ks) v obj rb0)"
      by blast
    let ?rb = "with_obj (last ks) v obj rb0"
    have w0: "sms_cache rb0 ?k = Some (Some w)" using find_loop_cached [OF r(1)] c by blast
    then have ne: "?k \<noteq> last ks" using ks(2) False by (auto simp: found_path_def)
    have "GetCachedValue R S ?k ?rb = Inr (Some w, ?rb)" by (rule GetCachedValue_hit) (use c w0 ne in simp_all)
    then have "find_loop R S sha key e (Suc n) h p ?rb = Inr ((Some (v\<lparr>cv_obj := obj\<rparr>), path, Exists), ?rb)"
      using False r(2) ks(3) by (auto simp: find_loop.simps(2) Let_def)
    moreover have "found_path key (?k # ks) v rb0" using ks(2) w0 False by (auto simp: found_path_def)
    moreover have "last (?k # ks) = last ks" using ks(2) by (simp add: found_path_def)
    ultimately show ?thesis using ks(1) by (intro exI [of _ "?k # ks"]) (simp del: fun_upd_apply last.simps)
  qed
qed simp

text \<open>The loop of a deletion over the rest of the path leaves the slot alone.\<close>

lemma SetCachedValue_stores: "SetCachedValue R k v rb = Inr rb' \<Longrightarrow> sms_cache rb' = (sms_cache rb)(k \<mapsto> Some (dirtied v))"
  by (auto simp: SetCachedValue_def SimpleCacheStore_SetValue_def Let_def outcome_simps split: if_splits)

lemma decrPassby_other: "decrPassby R k rb = Inr rb' \<Longrightarrow> x \<noteq> k \<Longrightarrow> sms_cache rb' x = sms_cache rb x"
  by (auto simp: decrPassby_def Let_def outcome_simps split: if_splits dest!: SetCachedValue_stores)

lemma decrPassbys_other: "foldE (decrPassby R) ks rb = Inr rb' \<Longrightarrow> x \<notin> set ks \<Longrightarrow> sms_cache rb' x = sms_cache rb x"
  by (erule foldE_invariant [where I = "\<lambda>r. sms_cache r x = sms_cache rb x"]) (simp, metis decrPassby_other)

lemma foldE_fails:
  assumes "x \<in> set xs" and "\<And>s. \<exists>err. f x s = Inl err"
  shows "\<exists>err. foldE f xs s = Inl err"
proof (cases "foldE f xs s")
  case (Inr t)
  from split_list [OF assms(1)] obtain ys zs where "xs = ys @ x # zs" by blast
  with Inr obtain u t' where "f x u = Inr t'" by (auto simp: foldE_append outcome_simps)
  with assms(2) [of u] show ?thesis by simp
qed simp

text \<open>
  C15: deleting a key whose object was taken and not returned breaks the writing back. Over any root store and
  from any state of a rabbit store, when the slot of a key is passed by no other key (\<open>passbyNum\<close> is 0, so
  that \<open>Delete\<close> marks it as deleted rather than empty), its object is taken with \<open>GetObj\<close> and the key is
  deleted, then \<open>Close\<close> with writing back fails for every order of the scan that reaches the slot: the
  scan encodes deleted values too, and a value without an object panics. The multi store deletes such a key
  without harm.
\<close>

theorem RabbitStore_taken_delete_panics:
  assumes "find_slot R S sha key True rb = Inr ((Some v, path, Exists), rb0)" and "cv_passbyNum v = 0"
    and "RabbitStore_GetObj R S sha key ptr rb = Inr (obj, rb1)" and "RabbitStore_Delete R S sha key rb1 = Inr rb2"
    and "last path \<in> set order"
  shows "\<exists>err. RabbitStore_Close S order True rb2 = Inl err"
proof -
  let ?k = "last path" and ?v = "v\<lparr>cv_obj := AnyNil\<rparr>"
  from find_loop_found [OF assms(1) [unfolded find_slot_def], of AnyNil] have fp: "found_path key path v rb0"
    and again: "find_slot R S sha key True (with_obj ?k v AnyNil rb0) = Inr ((Some ?v, path, Exists), with_obj ?k v AnyNil rb0)"
    by (auto simp: find_slot_def)
  have rb1: "rb1 = with_obj ?k v AnyNil rb0"
    using assms(3) by (auto simp: RabbitStore_GetObj_def getObjHelper_def assms(1) deref_def outcome_simps)
  have must: "MustGetCachedValue ?k rb1 = Inr ?v" using fp by (simp add: rb1 MustGetCachedValue_def SimpleCacheStore_GetValue_def found_path_def)
  from assms(4) obtain rb3 where d: "SetCachedValue R ?k (?v\<lparr>cv_isDeleted := True\<rparr>) rb1 = Inr rb3" "foldE (decrPassby R) (butlast path) rb3 = Inr rb2"
    by (auto simp: RabbitStore_Delete_def rb1 again must [unfolded rb1] assms(2) Let_def outcome_simps)
  have "?k \<notin> set (butlast path)" using fp by (auto simp: found_path_def)
  from decrPassbys_other [OF d(2) this] SetCachedValue_stores [OF d(1)]
  have c: "sms_cache rb2 ?k = Some (Some (dirtied (?v\<lparr>cv_isDeleted := True\<rparr>)))" by simp
  have "\<exists>err. SimpleCacheStore_ScanAllEntries S writeSlot order (sms_cache rb2) cs = Inl err" for cs
    unfolding SimpleCacheStore_ScanAllEntries_def
    by (rule foldE_fails [OF assms(5)]) (use fp in \<open>simp add: c CachedValue_ToBytes_def CachedValue_GetValue_def found_path_def\<close>)
  then have "SimpleCacheStore_ScanAllEntries S writeSlot order (sms_cache rb2) cs \<noteq> Inr cs'" for cs cs' by (metis Inl_Inr_False)
  then have "RabbitStore_Close S order True rb2 \<noteq> Inr rb4" for rb4
    by (auto simp: RabbitStore_Close_def SimpleMultiStore_Close_def SimpleMultiStore_writeBack_def TrunkStore_Update_def outcome_simps)
  then show ?thesis by (cases "RabbitStore_Close S order True rb2") auto
qed

section \<open>A run\<close>

text \<open>A hash function that pads its input, two keys with slots of their own, and guards around the short keys.\<close>

definition pad_sha :: "bytes \<Rightarrow> bytes" where
  "pad_sha b = take 32 (b @ replicate 32 0)"

lemma pad_sha_ok: "hash32 pad_sha"
  by (auto simp add: hash32_def pad_sha_def min_def)

lemma pad_sha_idem: "pad_sha (pad_sha b) = pad_sha b"
proof -
  have "length (pad_sha b) = 32" using pad_sha_ok by (simp add: hash32_def)
  then show ?thesis by (simp add: pad_sha_def [of "pad_sha b"])
qed

lemma hop_pad: "hop pad_sha key i = shortKey (pad_sha key)"
  by (induction i) (simp_all add: hop_def pad_sha_idem)

abbreviation "rabbit_guard \<equiv> [255, 255, 255, 255, 255, 255, 255, 255, 255 :: byte]"

lemma rabbit_guards: "guards_ok maxString [1] rabbit_guard" "\<not> is_short [1]" "\<not> is_short rabbit_guard"
  by (simp_all add: guards_ok_def maxString_def is_short_def KeySize_def)

lemma rabbit_keys: "roomy pad_sha {[5], [7]}"
proof -
  have "shortKey (pad_sha [5]) \<noteq> shortKey (pad_sha [7])" by code_simp
  then have "separated (hop pad_sha) {[5], [7]}" unfolding separated_def hop_pad by (intro ballI exI [of _ 0]) (auto simp: MaxFindDepth_def)
  then show ?thesis by (simp add: roomy_def MaxFindDepth_def)
qed

text \<open>Values of at most a thousand bytes for these keys fit in the root store.\<close>

lemma rabbit_storable: "key_fits (root_storable bytesObj (\<lambda>_. False)) [x] b" if "length b \<le> 1000"
  using that by (simp add: key_fits_def root_storable_def slot_bytes_def maxString_def)

lemma short_order:
  assumes "is_short k"
  shows "[1] < k \<and> k < rabbit_guard"
proof -
  from assms obtain a bs where k: "k = a # bs" "length bs = 7" "bit a 0" by (cases k) (auto simp: is_short_def KeySize_def)
  then obtain b cs where "bs = b # cs" by (cases bs) auto
  have "a \<noteq> 0" using k(3) by auto
  then have "1 \<le> a" by (simp add: word_le_nat_alt unat_gt_0 Suc_le_eq)
  then have "[1] < k" using k(1) \<open>bs = b # cs\<close> by auto
  moreover have "xs < replicate (Suc (length xs)) (255 :: byte)" for xs
  proof (induction xs)
    case (Cons x xs)
    have "x \<le> 255" using unat_byte_less [of x] by (simp add: word_le_nat_alt del: unat_byte_less)
    with Cons show ?case by auto
  qed simp
  from this [of k] have "k < replicate 9 255" using k by (simp add: numeral_eq_Suc)
  ultimately show ?thesis by (simp add: numeral_eq_Suc)
qed

lemma rabbit_root:
  "\<exists>okv0. createOnvaKV list_engine pad_sha zero_meow newFile newFile [] False [1] rabbit_guard = Inr okv0 \<and>
    (\<forall>ops. length ops \<le> 90 \<and> (\<forall>op \<in> set ops. rabbit_fits (root_storable bytesObj (\<lambda>_. False)) bytesObj {[5], [7]} op) \<longrightarrow>
      rabbit_allowed NVTreeI bytesObj (\<lambda>_. False) {[5], [7]} (NewRootStore id okv0 [] (Some (\<lambda>_. False))) (1, ops))"
proof -
  have hf: "hash_functions pad_sha zero_meow" using pad_sha_ok zero_hashes by unfold_locales
  from hash_functions.createOnvaKV_ok [OF hf newFile_ok rabbit_guards(1), of list_engine "[]" False] obtain okv0 ent where
    o: "createOnvaKV list_engine pad_sha zero_meow newFile newFile [] False [1] rabbit_guard = Inr okv0" "onva_ok pad_sha 2050 ent okv0"
    "value_map (index_keys bt okv0) ent = guard_map [1] rabbit_guard" "startKey okv0 = [1]" "endKey okv0 = rabbit_guard" by blast
  note run = hash_functions.onva_run(1) [OF hf o(1) newFile_ok rabbit_guards(1) run_start]
  have "dom (guard_map [1] rabbit_guard) = {[1], rabbit_guard}" by (auto simp: guard_map_def)
  then have card: "card (dom (guard_map [1] rabbit_guard)) \<le> 2" by (simp add: card_insert_if)
  note two = order_trans [OF eq_refl [OF run [unfolded reads_as_def, THEN conjunct2, THEN conjunct1]] card]
  have serial: "md_maxSerialNum (meta okv0) + 30000 < 2 ^ 63" using o(2) by (simp add: store_ok_def)
  have "rabbit_allowed NVTreeI bytesObj (\<lambda>_. False) {[5], [7]} (NewRootStore id okv0 [] (Some (\<lambda>_. False))) (1, ops)"
    if "length ops \<le> 90" "\<forall>op \<in> set ops. rabbit_fits (root_storable bytesObj (\<lambda>_. False)) bytesObj {[5], [7]} op" for ops
    using that two serial o(4,5) short_order by (simp add: rabbit_allowed_def NewRootStore_def in_int64_def MaxFindDepth_def)
  with o(1) show ?thesis by blast
qed

lemma rabbit_sample_fits: "\<forall>op \<in> set [TxSet [5] [9], TxSet [7] [8], TxDelete [5]]. rabbit_fits (root_storable bytesObj (\<lambda>_. False)) bytesObj {[5], [7]} op"
  using rabbit_storable by (simp add: rabbit_fits_def)

theorem RabbitStore_map_witness:
  "\<exists>okv0 rb rb' rb''. createOnvaKV list_engine pad_sha zero_meow newFile newFile [] False [1] rabbit_guard = Inr okv0 \<and>
     rabbit_ops list_engine pad_sha zero_meow bytesObj [] (NewRootStore id okv0 [] (Some (\<lambda>_. False))) (1, [TxSet [5] [9], TxSet [7] [8], TxDelete [5]]) = Inr rb \<and>
     RabbitStore_Get (RootI list_engine NVTreeI (TreeI pad_sha zero_meow) bytesObj) bytesObj pad_sha [7] rb = Inr (Some [8], rb') \<and>
     RabbitStore_Get (RootI list_engine NVTreeI (TreeI pad_sha zero_meow) bytesObj) bytesObj pad_sha [5] rb = Inr (None, rb'')"
proof -
  from rabbit_root rabbit_sample_fits obtain okv0 where o: "createOnvaKV list_engine pad_sha zero_meow newFile newFile [] False [1] rabbit_guard = Inr okv0"
    "rabbit_allowed NVTreeI bytesObj (\<lambda>_. False) {[5], [7]} (NewRootStore id okv0 [] (Some (\<lambda>_. False))) (1, [TxSet [5] [9], TxSet [7] [8], TxDelete [5]])"
    by auto
  from RabbitStore_map [OF pad_sha_ok zero_hashes(2) newFile_ok rabbit_guards(1) bytesObj_ok _ _ rabbit_guards(2,3) o(1) rabbit_keys sessions_start o(2) refl]
  show ?thesis using o(1) by (fastforce simp: sessions_effect_def)
qed

theorem RabbitStore_session_ends_witness:
  "\<exists>okv0 rb order rb' r' ts. createOnvaKV list_engine pad_sha zero_meow newFile newFile [] False [1] rabbit_guard = Inr okv0 \<and>
     rabbit_ops list_engine pad_sha zero_meow bytesObj [] (NewRootStore id okv0 [] (Some (\<lambda>_. False))) (1, [TxSet [5] [9], TxDelete [5]]) = Inr rb \<and>
     set order = dom (sms_cache rb) \<and> RabbitStore_Close bytesObj order True rb = Inr rb' \<and>
     TrunkStore_Close (RootI list_engine NVTreeI (TreeI pad_sha zero_meow) bytesObj) True (sms_trunk rb') = okR (Some r', ts) \<and>
     RootStore_Get NVTreeI (TreeI pad_sha zero_meow) bytesObj (hop pad_sha [5] 0) r' = Inr None"
proof -
  let ?ops = "[TxSet [5] [9], TxDelete [5]]"
  have "\<forall>op \<in> set ?ops. rabbit_fits (root_storable bytesObj (\<lambda>_. False)) bytesObj {[5], [7]} op" using rabbit_sample_fits by simp
  with rabbit_root obtain okv0 where o: "createOnvaKV list_engine pad_sha zero_meow newFile newFile [] False [1] rabbit_guard = Inr okv0"
    "rabbit_allowed NVTreeI bytesObj (\<lambda>_. False) {[5], [7]} (NewRootStore id okv0 [] (Some (\<lambda>_. False))) (1, ?ops)"
    by auto
  from real_rabbit [OF pad_sha_ok zero_hashes(2) newFile_ok rabbit_guards(1) bytesObj_ok _ _ rabbit_guards(2,3) o(1) rabbit_keys sessions_start o(2), where ?E = list_engine]
  obtain rb ps d where rb: "rabbit_ops list_engine pad_sha zero_meow bytesObj [] (NewRootStore id okv0 [] (Some (\<lambda>_. False))) (1, ?ops) = Inr rb"
    and ok: "rabbit_ok (root_inv (onva_ok pad_sha) NVTreeI (TreeI pad_sha zero_meow) bytesObj (\<lambda>_. False)) (root_storable bytesObj (\<lambda>_. False))
      (root_view NVTreeI (TreeI pad_sha zero_meow)) bytesObj pad_sha {[5], [7]} ps d rb" by blast
  have fin: "finite (dom (sms_cache rb))" using rabbit_okD(1) [OF ok] by (simp add: rabbit_core_def)
  from finite_distinct_list [OF fin] obtain order where order: "set order = dom (sms_cache rb)" "distinct order" by blast
  have short: "is_short (hop pad_sha [5] 0)" by (simp add: hop_short pad_sha_ok)
  have empty: "sessions_effect bytesObj [(1, ?ops)] Map.empty = Map.empty" by (simp add: sessions_effect_def)
  from RabbitStore_session_ends [OF pad_sha_ok zero_hashes(2) newFile_ok rabbit_guards(1) bytesObj_ok _ _ rabbit_guards(2,3) o(1) rabbit_keys
      sessions_start o(2) rb order] empty short o(1) rb order
  show ?thesis by (simp only: append_Nil simp_thms) blast
qed

text \<open>A trunk store over a new mock root store shows nothing and takes every prepare.\<close>

definition mock_trunk :: "'o Serializable \<Rightarrow> ('o MockRootStore, 'o) TrunkStore \<Rightarrow> bool" where
  "mock_trunk S ts \<longleftrightarrow> (\<exists>r. ts_root ts = Some r \<and> mr_cacheStore r = [] \<and> \<not> mr_isWritting r) \<and> ts_cache ts = Some [] \<and> ts_isWriting ts = 0"

lemma mock_trunk_ops:
  assumes "mock_trunk S ts"
  shows "TrunkStore_Get (MockRootI S) S k ts = Inr None"
    and "\<exists>ts'. TrunkStore_PrepareForUpdate (MockRootI S) k ts = Inr ts' \<and> mock_trunk S ts'"
    and "\<exists>ts'. TrunkStore_PrepareForDeletion (MockRootI S) k ts = Inr ts' \<and> mock_trunk S ts'"
  using assms
  by (auto simp: mock_trunk_def TrunkStore_Get_def TrunkStore_PrepareForUpdate_def TrunkStore_PrepareForDeletion_def notWriting_ok MockRootI_def
      CacheStore_Get_def bt_Get_def MockRootStore_Get_def MockRootStore_PrepareForUpdate_def MockRootStore_PrepareForDeletion_def mockIdle_def)

lemma SetCachedValue_mock:
  assumes "mock_trunk S (sms_trunk rb)"
  shows "\<exists>ts. SetCachedValue (MockRootI S) k v rb = Inr \<lparr>sms_cache = (sms_cache rb)(k \<mapsto> Some (dirtied v)), sms_trunk = ts\<rparr> \<and> mock_trunk S ts"
  using mock_trunk_ops(2,3) [OF assms, of k] by (auto simp: SetCachedValue_def SimpleCacheStore_SetValue_def Let_def)

lemma find_first:
  "find_slot R S sha key early rb = bindE (GetCachedValue R S (hop sha key 0) rb) (\<lambda>(cv, rb). case cv of None \<Rightarrow> Inr ((None, [hop sha key 0], NotFount), rb)
     | Some v \<Rightarrow> if cv_key v = key then Inr ((cv, [hop sha key 0], if cv_isEmpty v then EmptySlot else Exists), rb)
       else if early \<and> cv_passbyNum v = 0 then Inr ((cv, [hop sha key 0], NotFount), rb)
       else find_loop R S sha key early 99 (sha (sha key)) [hop sha key 0] rb)"
proof -
  have "MaxFindDepth = Suc 99" by (simp add: MaxFindDepth_def)
  show ?thesis unfolding find_slot_def \<open>MaxFindDepth = Suc 99\<close> find_loop.simps(2) hop_def Let_def funpow.simps comp_apply id_apply append_Nil by (rule refl)
qed

text \<open>A key set on a new mock root store, its object taken, and the key deleted.\<close>

theorem RabbitStore_taken_delete_panics_witness:
  "\<exists>rb obj rb1 rb2 err. RabbitStore_Set (MockRootI bytesObj) bytesObj pad_sha [5] (Some [7]) (NewRabbitStore (NewTrunkStore [] NewMockRootStore)) = Inr rb \<and>
    RabbitStore_GetObj (MockRootI bytesObj) bytesObj pad_sha [5] (Some []) rb = Inr (obj, rb1) \<and>
    RabbitStore_Delete (MockRootI bytesObj) bytesObj pad_sha [5] rb1 = Inr rb2 \<and> RabbitStore_Close bytesObj [hop pad_sha [5] 0] True rb2 = Inl err"
proof -
  let ?R = "MockRootI bytesObj" and ?k = "hop pad_sha [5] 0" and ?rb = "NewRabbitStore (NewTrunkStore [] NewMockRootStore) :: (bytes MockRootStore, bytes) RabbitStore"
  let ?v = "\<lparr>cv_passbyNum = 0, cv_key = [5], cv_obj = AnyBytes (Some [7]), cv_isEmpty = False, cv_isDeleted = False, cv_isDirty = True\<rparr> :: bytes CachedValue"
  have t: "mock_trunk bytesObj (sms_trunk ?rb)"
    by (simp add: mock_trunk_def NewRabbitStore_def NewTrunkStore_def NewMockRootStore_def NewCacheStore_def)
  have get: "GetCachedValue ?R bytesObj ?k ?rb = Inr (None, ?rb)"
    using mock_trunk_ops(1) [OF t] by (simp add: GetCachedValue_def SimpleCacheStore_GetValue_def NewRabbitStore_def NewSimpleCacheStore_def)
  from SetCachedValue_mock [OF t, of ?k "?v\<lparr>cv_isDirty := False\<rparr>"] obtain ts where ts:
    "SetCachedValue ?R ?k (?v\<lparr>cv_isDirty := False\<rparr>) ?rb = Inr \<lparr>sms_cache = (sms_cache ?rb)(?k \<mapsto> Some (dirtied (?v\<lparr>cv_isDirty := False\<rparr>))), sms_trunk = ts\<rparr>"
    "mock_trunk bytesObj ts" by blast
  let ?s = "\<lparr>sms_cache = (sms_cache ?rb)(?k \<mapsto> Some ?v), sms_trunk = ts\<rparr>" and ?t = "with_obj ?k ?v AnyNil \<lparr>sms_cache = (sms_cache ?rb)(?k \<mapsto> Some ?v), sms_trunk = ts\<rparr>"
  have set: "RabbitStore_Set ?R bytesObj pad_sha [5] (Some [7]) ?rb = Inr ?s" using ts by (simp add: RabbitStore_Set_def setHelper_def find_first get)
  have find: "find_slot ?R bytesObj pad_sha [5] True ?s = Inr ((Some ?v, [?k], Exists), ?s)"
    by (simp add: find_first GetCachedValue_def SimpleCacheStore_GetValue_def)
  have bz: "s_FromBytes bytesObj [] (Some [7]) = [7]" by (simp add: bytesObj_def slice_bytes_def)
  have take: "RabbitStore_GetObj ?R bytesObj pad_sha [5] (Some []) ?s = Inr (Some [7], ?t)"
    by (simp add: RabbitStore_GetObj_def getObjHelper_def find readInto_def bz)
  have "mock_trunk bytesObj (sms_trunk ?t)" using ts(2) by simp
  from SetCachedValue_mock [OF this, of ?k "?v\<lparr>cv_obj := AnyNil, cv_isDeleted := True\<rparr>"] obtain rb2 where
    "SetCachedValue ?R ?k (?v\<lparr>cv_obj := AnyNil, cv_isDeleted := True\<rparr>) ?t = Inr rb2" by blast
  then have del: "RabbitStore_Delete ?R bytesObj pad_sha [5] ?t = Inr rb2"
    by (simp add: RabbitStore_Delete_def find_first GetCachedValue_def MustGetCachedValue_def SimpleCacheStore_GetValue_def Let_def)
  from RabbitStore_taken_delete_panics [OF find _ take del, of "[?k]"] set take del show ?thesis by auto
qed

end
