(* ===== verification/Spec2Isabelle.thy ===== *)
theory Spec2Isabelle
  imports TreeRun MerkleProof LoadDump NVHistory MockDataTree OnvaCrash StoreMain SubStores RabbitMain
begin

text \<open>
  OnvaKV is a key-value store for a blockchain. A value is changed by appending a new entry to an
  append-only entry file; a Merkle tree over the entries proves which entries are active; an index in
  memory maps every key to the position of its entry; the keys are linked in their order by the
  \<open>NextKey\<close> of the entries, so that the absence of a key can be proved too. Work is done in blocks: the
  entries that a block may touch are read into a cache, changed there, and at the end of the block the
  changed entries are appended, the old ones deactivated, and the Merkle tree is synchronized.

  \<^bold>\<open>Parts and theories.\<close> The theories follow the packages of the repository from the bottom up.

  \<^item> \<open>Prelude\<close>: results with errors (\<open>'a outcome\<close>: every panic, index error or fatal log is an \<open>error\<close>
    value), slices, little- and big-endian integers, int64 conversions, \<open>bytes.Compare\<close> and
    \<open>bytes.Index\<close>, and the loop combinators.
  \<^item> \<open>EntryCodec\<close>, \<open>EntryFile\<close> (datatree/entryfile.go): entries as bytes with the escaping of the magic
    bytes; the entry file. \<open>HPFile\<close> (datatree/hpfile.go): the file of fixed-size block files with its
    write buffer and read-ahead buffer. \<open>TwigMtFile\<close> (datatree/twigmtfile.go): the finished twigs.
  \<^item> \<open>Hasher\<close> (datatree/hasher.go): batches of hash jobs, run in sequence or by goroutines.
  \<^item> \<open>Twig\<close>, \<open>DataTree\<close> (datatree/tree.go, datatree/check.go): the tree and all its operations.
    \<open>TreeSync\<close>, \<open>TreeBits\<close>, \<open>TreeUpper\<close>: the three parts of synchronization (the youngest twig, the
    active bits, the upper nodes). \<open>TreeInv\<close>, \<open>TreeOps\<close>, \<open>TreeRun\<close>: the invariant, that every operation
    keeps it, and the properties of every run of blocks.
  \<^item> \<open>MerkleProof\<close> (datatree/proof.go), \<open>LoadDump\<close> (datatree/load_dump.go), \<open>MockDataTree\<close>
    (datatree/mock_datatree.go).
  \<^item> \<open>RocksDB\<close> (indextree/rocks_db.go), \<open>BTreeMap\<close> (the B-tree by its contents), \<open>NVTree\<close> and \<open>NVHistory\<close>
    (indextree/indextree.go, indextree/mock_indextree.go), \<open>MetaDB\<close> (metadb/metadb.go).
  \<^item> \<open>OnvaKV\<close> (onvakv.go, types/types.go): the store as the composition of the parts.
    \<open>KeyOrder\<close>, \<open>OnvaLinks\<close>, \<open>OnvaHot\<close>, \<open>OnvaStore\<close>, \<open>OnvaBlock\<close>, \<open>OnvaUpdate\<close>, \<open>OnvaEnd\<close>, \<open>OnvaRead\<close>,
    \<open>OnvaInit\<close>, \<open>OnvaRuns\<close>: the proof that a block of the store is an update of a map, from the laws of
    the data tree and of the index. \<open>OnvaMock\<close>, \<open>OnvaTree\<close>, \<open>OnvaMain\<close>: the two data trees as instances of
    these laws, and the properties of the whole store. \<open>OnvaCrash\<close>: opening a store that was not closed.
  \<^item> The store package on top of it: \<open>StoreTypes\<close> (store/types/types.go), \<open>CacheStore\<close> (store/cache.go, the
    values of store/b/btree.go), \<open>MergeIter\<close> (store/mergeiter.go), \<open>TrunkStore\<close> (store/trunk.go,
    store/multi.go, store/mock_root.go), \<open>RootStore\<close> (store/root.go), \<open>PrefixStore\<close> (store/prefix.go).
    \<open>StoreStack\<close> and \<open>StoreRuns\<close>: transactions and blocks over any root store, the mock root store;
    \<open>StoreRoot\<close>: the root store over OnvaKV as a root store; \<open>StoreMain\<close>, \<open>SubStores\<close>: the properties of
    the whole stack.
  \<^item> \<open>Rabbit\<close> (store/rabbit/simple_cache.go, simple_multi.go, rabbit.go): the store whose slots have short
    hashed keys. \<open>RabbitTrie\<close>: the slots as a map, the search along the hops of a key, and the invariant that
    \<open>passbyNum\<close> counts the keys that hopped over a slot. \<open>RabbitSlots\<close>, \<open>RabbitFind\<close>, \<open>RabbitOps\<close>, \<open>RabbitMap\<close>,
    \<open>RabbitRuns\<close>: the operations refine these slots, and the slots a map, over any root store. \<open>RabbitMain\<close>: the
    properties of sessions over OnvaKV.

  \<^bold>\<open>Correspondence.\<close> A struct is a record with the fields of the code, a method that changes its receiver
  returns the new record, and a function that can fail returns an \<open>outcome\<close>. Names are those of the code;
  a name that two packages share carries its type as a prefix (\<open>RocksDB_Get\<close>, \<open>NVTreeMem_Set\<close>, \<open>okv_Set\<close>,
  \<open>MockDataTree_AppendEntry\<close>). A loop that need not end is a \<open>partial_function (option)\<close>, whose None means
  that it does not return (\<open>Init_loop\<close>, \<open>reapTwigs\<close>, \<open>pruneEnd\<close>), and a property that such a loop returns
  is stated as such. Machine integers: bytes are 8-bit words, offsets and serial numbers are nat or int
  with the int64 conversions written out where the code converts (\<open>int64\<close>, \<open>uint64\<close>); the counters of
  \<open>MetaDB\<close> wrap around. The order in which
  Go ranges over a map is an argument or, for the entry that a full object cache loses, a stream of arbitrary
  choices (\<open>rt_random\<close>). Go's nil slices are \<open>None\<close> where the code distinguishes them from empty ones.

  \<^bold>\<open>Interfaces.\<close> \<open>append_log\<close> (an append-only file, interpreted by HPFile), \<open>cells\<close> (the memory of the
  hasher, interpreted by the tree), \<open>ordered_map\<close> (the B-tree), \<open>data_tree\<close> and \<open>index_tree\<close> (the two
  interfaces of types/types.go as the store uses them, interpreted by the mock tree and, for all hash
  functions, by the tree of tree.go in \<open>hash_functions\<close>; by NVTreeMem and by the mock index), \<open>store\<close>, their
  composition, and \<open>object_store\<close>, the composition with a codec of objects; \<open>obj_iterator\<close> (the iterators
  of the store package, interpreted by those of the cache and of the root store, and kept by the merging
  and the prefix iterator), \<open>merge_iterators\<close>, and \<open>root_store\<close> (the interface \<open>RootStoreI\<close> as the trunk store uses
  it, interpreted by the mock root store and, through \<open>object_store\<close>, by the root store over OnvaKV).

  \<^bold>\<open>What is proved.\<close> C1 to C5 are about the whole store: a block of a store that was created in an empty
  directory always returns and refines the update of a map, \<open>GetEntry\<close> reads that map, the store's own
  consistency check passes, \<open>NewOnvaKV\<close> returns, and the mock store reads the same. C6 to C12 are about
  the stack of stores over it: a block of transactions refines the update of a map, open transactions and
  their prefixed stores read and iterate over what they should see, writes through prefixed stores are
  isolated, the object cache agrees with the store and stays bounded under every further call of the root
  store, and the mock root store is a stand-in for the real one. C13 to C15 are about rabbit stores: sessions
  refine the update of a map and always end, and an object that is taken and deleted breaks the end when no
  other key passes its slot. C16 to C22 are about
  the data tree: after every run of blocks the Merkle tree passes the code's own check, appended entries
  are read back and are hashed into the leaves, proofs are complete and binding, and a clean shutdown is
  undone by loading. C23 to C32 are about the entry codec and the files: round trips at the positions that
  the appends return, buffered reads as direct reads and the scan of a twig (both where one more byte
  follows the record, as the code panics without it), pruning and truncation, and that every interleaving of
  the hasher's goroutines gives the sequential result. C36 to C38 are about the meta data, the index and its history. The others
  (C33 to C35, C39 and C40) prove defects of the code as they are, each for all the inputs on which it fails or
  gives a wrong answer: the restart after a crash of a store that was never pruned, the parsing of escaped
  raw entries, appends behind a truncation, the restart with history, and the reads of history next to keys
  with other last bytes. Further defects are lemmas that the findings of the manifest name.

  \<^bold>\<open>Bounds.\<close> Serial numbers stay 2048 below \<open>2^63\<close>. The properties of the store hold for keys and values
  of at most 1 MiB (\<open>maxString\<close>), which fit into the 16 MiB buffer of the file with the escaped magic
  bytes and 65 pending serial numbers, and for blocks over stores of at most 10000 keys, below the
  threshold \<open>StartReapThres\<close> where \<open>EndWrite\<close> starts to reap twigs; reaping itself is modelled but not part of these
  properties. The loop of \<open>CheckConsistency\<close> gets the number of items as its fuel: its iterator passes
  every item once. The 100 hops of \<open>find_slot\<close> are the code's own bound \<open>MaxFindDepth\<close>: the properties are
  about sets of keys each of which has among its 100 hops one that no other of the keys has (\<open>roomy\<close>), so that
  the search never reaches the bound.

  \<^bold>\<open>Parameters.\<close> SHA-256, the meow checksum and the RocksDB engine are not in the repository: they are the
  arguments \<open>sha\<close>, \<open>meow\<close> and \<open>E\<close>, with the documented behaviour \<open>hash32\<close> and \<open>meow4\<close> (hash lengths) and
  \<open>engine_ok\<close> (a sorted map with snapshots and iterators) as hypotheses, which \<open>zero_sha\<close>, \<open>zero_meow\<close> and
  \<open>list_engine\<close> satisfy in the witnesses. The objects of the store package are those of its clients: their
  codec is the argument \<open>S\<close>, with \<open>serializable\<close> (bytes are read back, a copy has the same bytes) as
  hypothesis, which \<open>bytesObj\<close> satisfies. Collision freedom is never assumed: C20 gives the collision.

  \<^bold>\<open>Not modelled.\<close> Failures of the operating system; the B-trees (indextree/b, store/b), copies of a
  third-party B+ tree and a cgo binding, which are represented by their items in order; locks, and goroutines other than the hasher's:
  calls are serialized; the fuzzers and benchmarks, test drivers with console and file I/O; console output.
\<close>

end
